(* ===== verification/Prelude.thy ===== *)
theory Prelude
  imports Main "HOL-Library.Word" "HOL-Library.Monad_Syntax"
begin

unbundle bit_operations_syntax

text \<open>
  Shared vocabulary of the development.  It holds the machine types of the node, the byte
  order conversions of its unions and streams, the contract of a binary codec
  (a locale, with the facts every codec gets from it), totals over finite tables, and
  generic facts about options and maps used by every component.
\<close>

section \<open>Machine types\<close>

text \<open>
  The node's numbers are fixed width and wrap around: \<open>uint8_t\<close>, \<open>uint64_t\<close> and the
  multiprecision types \<open>uint128_t\<close>, \<open>uint256_t\<close> and \<open>uint512_t\<close>.  The unions
  \<open>uint128_union\<close>, \<open>uint256_union\<close> and \<open>uint512_union\<close> keep the same number as a big
  endian byte array, so a value of the union is determined by its number.
\<close>

type_synonym byte = "8 word"
type_synonym u16 = "16 word"
type_synonym u32 = "32 word"
type_synonym u64 = "64 word"
type_synonym u128 = "128 word"
type_synonym u256 = "256 word"
type_synonym u512 = "512 word"

type_synonym amount = u128
type_synonym block_hash = u256
type_synonym account = u256
type_synonym public_key = u256
type_synonym link = u256
type_synonym root = u256
type_synonym signature = u512
type_synonym qualified_root = "root \<times> block_hash"

text \<open>Simplification rules of the byte codecs and of the store tables.\<close>

named_theorems codec_simps
named_theorems table_simps

section \<open>Byte order\<close>

text \<open>The bytes of a number, least significant byte first, and back.\<close>

primrec to_le :: "nat \<Rightarrow> 'a::len word \<Rightarrow> byte list" where
  "to_le 0 w = []"
| "to_le (Suc n) w = ucast w # to_le n (drop_bit 8 w)"

primrec of_le :: "byte list \<Rightarrow> 'a::len word" where
  "of_le [] = 0"
| "of_le (b # bs) = ucast b OR push_bit 8 (of_le bs)"

lemma length_to_le [simp]: "length (to_le n w) = n"
  by (induction n arbitrary: w) auto

lemma to_le_eq_Nil [simp]: "to_le n w = [] \<longleftrightarrow> n = 0"
  by (cases n) auto

lemma bit_of_le:
  "bit (of_le bs :: 'a::len word) i \<longleftrightarrow>
     i < LENGTH('a) \<and> i div 8 < length bs \<and> bit (bs ! (i div 8)) (i mod 8)"
proof (induction bs arbitrary: i)
  case Nil
  then show ?case by simp
next
  case (Cons b bs)
  show ?case
  proof (cases "i < 8")
    case True
    then show ?thesis by (auto simp: bit_simps)
  next
    case False
    then obtain k where k: "i = 8 + k"
      by (metis le_add_diff_inverse not_less)
    have "(8 + k) div 8 = Suc (k div 8)" by simp
    moreover have "\<not> bit b i"
      using False by (simp add: impossible_bit)
    ultimately show ?thesis
      using Cons.IH [of k] by (auto simp: k bit_simps)
  qed
qed

lemma nth_to_le: "j < n \<Longrightarrow> to_le n w ! j = ucast (drop_bit (8 * j) w)"
proof (induction n arbitrary: w j)
  case 0
  then show ?case by simp
next
  case (Suc n)
  then show ?case by (cases j) (auto simp: ac_simps)
qed

lemma of_le_to_le:
  fixes w :: "'a::len word"
  assumes "LENGTH('a) \<le> 8 * n"
  shows "of_le (to_le n w) = w"
proof (rule bit_word_eqI)
  fix i assume i: "i < LENGTH('a)"
  with assms have "i div 8 < n" by auto
  then show "bit (of_le (to_le n w) :: 'a word) i = bit w i"
    using i by (simp add: bit_of_le nth_to_le bit_simps)
qed

lemma to_le_of_le:
  assumes "8 * length bs \<le> LENGTH('a::len)"
  shows "to_le (length bs) (of_le bs :: 'a word) = bs"
proof (rule nth_equalityI)
  show "length (to_le (length bs) (of_le bs :: 'a word)) = length bs" by simp
next
  fix j assume "j < length (to_le (length bs) (of_le bs :: 'a word))"
  then have j: "j < length bs" by simp
  show "to_le (length bs) (of_le bs :: 'a word) ! j = bs ! j"
  proof (rule bit_word_eqI)
    fix i assume "i < LENGTH(8)"
    then have i: "i < 8" by simp
    with j assms have "8 * j + i < LENGTH('a)" by simp
    moreover have "(8 * j + i) div 8 = j" and "(8 * j + i) mod 8 = i" using i by auto
    ultimately show "bit (to_le (length bs) (of_le bs :: 'a word) ! j) i = bit (bs ! j) i"
      using i j by (simp add: nth_to_le bit_simps bit_of_le)
  qed
qed

text \<open>
  The width in bytes of a machine type.  Writing a number in memory order of the little
  endian host and writing it big endian differ by a reversal.
\<close>

definition bytes_of :: "'a::len itself \<Rightarrow> nat" where
  "bytes_of _ = LENGTH('a) div 8"

definition write_le :: "'a::len word \<Rightarrow> byte list" where
  "write_le w = to_le (LENGTH('a) div 8) w"

definition write_be :: "'a::len word \<Rightarrow> byte list" where
  "write_be w = rev (write_le w)"

definition word_of_be :: "byte list \<Rightarrow> 'a::len word" where
  "word_of_be bs = of_le (rev bs)"

lemma length_write_le [simp]: "length (write_le (w :: 'a::len word)) = LENGTH('a) div 8"
  by (simp add: write_le_def)

lemma length_write_be [simp]: "length (write_be (w :: 'a::len word)) = LENGTH('a) div 8"
  by (simp add: write_be_def)


lemma write_be_eq_Nil [simp]: "write_be (w :: 'a::len word) = [] \<longleftrightarrow> LENGTH('a) div 8 = 0"
  by (simp add: write_be_def write_le_def)

lemma word_of_be_write_be:
  "8 dvd LENGTH('a::len) \<Longrightarrow> word_of_be (write_be (w :: 'a word)) = w"
  by (simp add: word_of_be_def write_be_def write_le_def of_le_to_le)

lemma of_le_write_le:
  "8 dvd LENGTH('a::len) \<Longrightarrow> of_le (write_le (w :: 'a word)) = w"
  by (simp add: write_le_def of_le_to_le)

lemma write_le_of_le:
  "length bs = LENGTH('a::len) div 8 \<Longrightarrow> write_le (of_le bs :: 'a word) = bs"
  using to_le_of_le [of bs, where 'a = 'a] by (simp add: write_le_def)

lemma write_be_word_of_be:
  "length bs = LENGTH('a::len) div 8 \<Longrightarrow> write_be (word_of_be bs :: 'a word) = bs"
  by (simp add: word_of_be_def write_be_def write_le_of_le)

section \<open>Binary streams\<close>

text \<open>
  \<^verbatim>\<open>lib/stream.hpp\<close>: a stream is the list of bytes not yet consumed.  \<open>try_read\<close> takes
  \<open>sizeof (T)\<close> bytes and reports an error when fewer are left; \<open>read\<close> turns that error
  into an exception, which every caller of the modelled code catches, so that a reader
  returns \<open>None\<close>.  Values whose C++ type is one of the unions are big endian byte arrays;
  plain integers are in host order (little endian) unless the caller converts them.
\<close>

type_synonym stream = "byte list"
type_synonym 'a reader = "stream \<Rightarrow> ('a \<times> stream) option"

definition read_bytes :: "nat \<Rightarrow> byte list reader" where
  "read_bytes n s = (if n \<le> length s then Some (take n s, drop n s) else None)"

definition read_be :: "'a::len word reader" where
  "read_be s = (do { (bs, s') \<leftarrow> read_bytes (LENGTH('a) div 8) s; Some (word_of_be bs, s') })"

definition read_le :: "'a::len word reader" where
  "read_le s = (do { (bs, s') \<leftarrow> read_bytes (LENGTH('a) div 8) s; Some (of_le bs, s') })"

lemma read_be_take:
  "LENGTH('a::len) div 8 \<le> length s \<Longrightarrow>
     read_be s = Some (word_of_be (take (LENGTH('a) div 8) s) :: 'a word, drop (LENGTH('a) div 8) s)"
  by (simp add: read_be_def read_bytes_def)

lemma read_le_take:
  "LENGTH('a::len) div 8 \<le> length s \<Longrightarrow>
     read_le s = Some (of_le (take (LENGTH('a) div 8) s) :: 'a word, drop (LENGTH('a) div 8) s)"
  by (simp add: read_le_def read_bytes_def)

section \<open>The contract of a codec\<close>

text \<open>
  A codec is a writer and a reader.  The reader undoes the writer, whatever follows in the
  stream, for the values on which \<open>ok\<close> holds.
\<close>

locale codec =
  fixes enc :: "'a \<Rightarrow> byte list"
    and dec :: "'a reader"
    and ok :: "'a \<Rightarrow> bool"
  assumes dec_enc: "ok x \<Longrightarrow> dec (enc x @ s) = Some (x, s)"
begin

lemma dec_enc_Nil: "ok x \<Longrightarrow> dec (enc x) = Some (x, [])"
  using dec_enc [of x "[]"] by simp

lemma prefix_free: "ok x \<Longrightarrow> ok y \<Longrightarrow> enc x @ s = enc y @ t \<Longrightarrow> x = y \<and> s = t"
  by (metis dec_enc option.inject prod.inject)

lemma enc_inject: "ok x \<Longrightarrow> ok y \<Longrightarrow> enc x = enc y \<longleftrightarrow> x = y"
  using prefix_free [of x y "[]" "[]"] by auto

end

text \<open>
  A strict codec has a fixed width, and the reader accepts nothing but what the writer
  produces: a short stream is an error, and reading determines the bytes read.
\<close>

locale strict_codec = codec +
  fixes width :: nat
  assumes length_enc: "length (enc x) = width"
    and enc_dec: "dec s = Some (x, t) \<Longrightarrow> s = enc x @ t"
    and dec_total: "width \<le> length s \<Longrightarrow> \<exists>x t. dec s = Some (x, t)"
begin

lemma dec_short: "length s < width \<Longrightarrow> dec s = None"
proof (rule ccontr)
  assume short: "length s < width" and "dec s \<noteq> None"
  then obtain x t where "dec s = Some (x, t)" by fastforce
  then have "s = enc x @ t" by (rule enc_dec)
  with short show False by (simp add: length_enc)
qed

lemma dec_None_iff: "dec s = None \<longleftrightarrow> length s < width"
proof (cases "length s < width")
  case True
  then show ?thesis using dec_short by simp
next
  case False
  then show ?thesis using dec_total [of s] by auto
qed

lemma dec_rest: "dec s = Some (x, t) \<Longrightarrow> t = drop width s"
  using enc_dec length_enc by fastforce

end

text \<open>The integers of the stream layer are strict codecs, in either byte order.\<close>

lemma strict_codec_be:
  assumes "8 dvd LENGTH('a::len)" and "n = LENGTH('a) div 8"
  shows "strict_codec write_be (read_be :: 'a word reader) (\<lambda>_. True) n"
proof
  fix x :: "'a word" and s t
  show "read_be (write_be x @ s) = Some (x, s)"
    using assms by (simp add: read_be_def read_bytes_def word_of_be_write_be)
  show "length (write_be x) = n" by (simp add: assms)
  show "s = write_be x @ t" if "read_be s = Some (x, t)"
  proof -
    from that have "x = word_of_be (take n s)" and "t = drop n s" and "n \<le> length s"
      using assms by (auto simp: read_be_def read_bytes_def split: if_splits)
    then show ?thesis using assms by (simp add: write_be_word_of_be)
  qed
  show "\<exists>x t. read_be s = Some (x :: 'a word, t)" if "n \<le> length s"
    using that assms by (simp add: read_be_def read_bytes_def)
qed

lemma strict_codec_le:
  assumes "8 dvd LENGTH('a::len)" and "n = LENGTH('a) div 8"
  shows "strict_codec write_le (read_le :: 'a word reader) (\<lambda>_. True) n"
proof
  fix x :: "'a word" and s t
  show "read_le (write_le x @ s) = Some (x, s)"
    using assms by (simp add: read_le_def read_bytes_def of_le_write_le)
  show "length (write_le x) = n" by (simp add: assms)
  show "s = write_le x @ t" if "read_le s = Some (x, t)"
  proof -
    from that have "x = of_le (take n s)" and "t = drop n s" and "n \<le> length s"
      using assms by (auto simp: read_le_def read_bytes_def split: if_splits)
    then show ?thesis using assms by (simp add: write_le_of_le)
  qed
  show "\<exists>x t. read_le s = Some (x :: 'a word, t)" if "n \<le> length s"
    using that assms by (simp add: read_le_def read_bytes_def)
qed

interpretation be8: strict_codec write_be "read_be :: 8 word reader" "\<lambda>_. True" 1
  by (rule strict_codec_be) simp_all

interpretation be64: strict_codec write_be "read_be :: 64 word reader" "\<lambda>_. True" 8
  by (rule strict_codec_be) simp_all

interpretation be128: strict_codec write_be "read_be :: 128 word reader" "\<lambda>_. True" 16
  by (rule strict_codec_be) simp_all

interpretation be256: strict_codec write_be "read_be :: 256 word reader" "\<lambda>_. True" 32
  by (rule strict_codec_be) simp_all

interpretation be512: strict_codec write_be "read_be :: 512 word reader" "\<lambda>_. True" 64
  by (rule strict_codec_be) simp_all

interpretation le16: strict_codec write_le "read_le :: 16 word reader" "\<lambda>_. True" 2
  by (rule strict_codec_le) simp_all

interpretation le64: strict_codec write_le "read_le :: 64 word reader" "\<lambda>_. True" 8
  by (rule strict_codec_le) simp_all

lemmas word_dec_enc [codec_simps] =
  be8.dec_enc [OF TrueI] be64.dec_enc [OF TrueI] be128.dec_enc [OF TrueI]
  be256.dec_enc [OF TrueI] be512.dec_enc [OF TrueI] le16.dec_enc [OF TrueI]
  le64.dec_enc [OF TrueI]

lemmas word_dec_enc_Nil [codec_simps] =
  be8.dec_enc_Nil [OF TrueI] be64.dec_enc_Nil [OF TrueI] be128.dec_enc_Nil [OF TrueI]
  be256.dec_enc_Nil [OF TrueI] be512.dec_enc_Nil [OF TrueI] le16.dec_enc_Nil [OF TrueI]
  le64.dec_enc_Nil [OF TrueI]

lemmas word_enc_dec =
  be8.enc_dec be64.enc_dec be128.enc_dec be256.enc_dec be512.enc_dec le16.enc_dec le64.enc_dec

lemmas word_dec_None =
  be8.dec_None_iff be64.dec_None_iff be128.dec_None_iff be256.dec_None_iff
  be512.dec_None_iff le16.dec_None_iff le64.dec_None_iff

section \<open>Totals over finite tables\<close>

text \<open>The sum of a measure over the entries of a finite table.\<close>

definition map_total :: "('v \<Rightarrow> nat) \<Rightarrow> ('k \<rightharpoonup> 'v) \<Rightarrow> nat" where
  "map_total f m = (\<Sum>k\<in>dom m. f (the (m k)))"

definition measure_at :: "('v \<Rightarrow> nat) \<Rightarrow> ('k \<rightharpoonup> 'v) \<Rightarrow> 'k \<Rightarrow> nat" where
  "measure_at f m k = (case m k of None \<Rightarrow> 0 | Some v \<Rightarrow> f v)"

lemma measure_at_simps [simp]:
  "m k = None \<Longrightarrow> measure_at f m k = 0"
  "m k = Some v \<Longrightarrow> measure_at f m k = f v"
  by (simp_all add: measure_at_def)

lemma map_total_empty [simp]: "map_total f Map.empty = 0"
  by (simp add: map_total_def)

lemma map_total_remove:
  assumes "finite (dom m)"
  shows "map_total f m = map_total f (m(k := None)) + measure_at f m k"
proof (cases "m k")
  case None
  then have "m(k := None) = m" by auto
  with None show ?thesis by simp
next
  case (Some v)
  then have "dom m = insert k (dom m - {k})" by auto
  then have "map_total f m = f (the (m k)) + (\<Sum>j\<in>dom m - {k}. f (the (m j)))"
    unfolding map_total_def using assms
    by (metis Diff_iff finite_Diff singletonI sum.insert)
  moreover have "map_total f (m(k := None)) = (\<Sum>j\<in>dom m - {k}. f (the (m j)))"
    unfolding map_total_def by (intro sum.cong) auto
  ultimately show ?thesis using Some by simp
qed

lemma map_total_upd:
  assumes "finite (dom m)"
  shows "map_total f (m(k \<mapsto> v)) + measure_at f m k = map_total f m + f v"
proof -
  have "finite (dom (m(k \<mapsto> v)))" using assms by simp
  from map_total_remove [OF this, of f k]
  have "map_total f (m(k \<mapsto> v)) = map_total f (m(k := None)) + f v"
    by (simp add: measure_at_def)
  with map_total_remove [OF assms, of f k] show ?thesis by simp
qed

lemma measure_at_le_total: "finite (dom m) \<Longrightarrow> measure_at f m k \<le> map_total f m"
  using map_total_remove [of m f k] by simp

lemma map_total_cong: "(\<And>k v. m k = Some v \<Longrightarrow> f v = g v) \<Longrightarrow> map_total f m = map_total g m"
  unfolding map_total_def by (intro sum.cong) auto

lemma map_total_le: "(\<And>v. f v \<le> g v) \<Longrightarrow> map_total f m \<le> map_total g m"
  unfolding map_total_def by (intro sum_mono) simp

section \<open>Words and options\<close>

lemma unat_add_no_wrap:
  "unat (a :: 'a::len word) + unat b < 2 ^ LENGTH('a) \<Longrightarrow> unat (a + b) = unat a + unat b"
  by (simp add: unat_word_ariths)

lemma unat_sub_le: "b \<le> a \<Longrightarrow> unat (a - b) = unat a - unat (b :: 'a::len word)"
  by (rule unat_sub)

lemma bind_eq_Some: "Option.bind x f = Some y \<longleftrightarrow> (\<exists>z. x = Some z \<and> f z = Some y)"
  by (cases x) auto

text \<open>The value of an out parameter: what was found, or the default it was constructed with.\<close>

definition get_or :: "'a \<Rightarrow> 'a option \<Rightarrow> 'a" where
  "get_or d x = (case x of None \<Rightarrow> d | Some y \<Rightarrow> y)"

lemma get_or_simps [simp]: "get_or d None = d" "get_or d (Some y) = y"
  by (simp_all add: get_or_def)

end
