(* ===== verification/Numbers.thy ===== *)
theory Numbers
  imports Prelude
begin

unbundle bit_operations_syntax

text \<open>
  \<^verbatim>\<open>lib/numbers.cpp\<close> and \<^verbatim>\<open>lib/numbers.hpp\<close>: the unions and their byte order, account
  numbers as text, hexadecimal and decimal text, and the signature primitives.

  The cryptographic primitives (blake2b and ed25519) and the text conversion of the
  multiprecision integers are outside the repository.  They are the fields of the two
  parameter records below; what the code relies on is stated as a predicate over each
  record.
\<close>

section \<open>Parameters\<close>

text \<open>
  \<open>blake2b c n xs\<close> is the digest of \<open>n\<close> bytes of the message \<open>xs\<close> (one
  \<open>blake2b_init\<close>, any number of \<open>blake2b_update\<close> and one \<open>blake2b_final\<close>).
  \<open>ed25519_sign_open c m pk s\<close> says that the library's function of that name returns 0.
\<close>

record crypto =
  blake2b :: "nat \<Rightarrow> byte list \<Rightarrow> byte list"
  ed25519_sign_open :: "byte list \<Rightarrow> public_key \<Rightarrow> signature \<Rightarrow> bool"
  ed25519_sign :: "byte list \<Rightarrow> u256 \<Rightarrow> public_key \<Rightarrow> signature"

definition digest_lengths :: "crypto \<Rightarrow> bool" where
  "digest_lengths c \<longleftrightarrow> (\<forall>n xs. length (blake2b c n xs) = n)"

text \<open>
  The stream operators of the integers.  \<open>out_hex io u n\<close> inserts a number in hexadecimal,
  in upper case digits when \<open>u\<close> (\<open>std::uppercase\<close>) holds.  \<open>in_hex io w s\<close> extracts a \<open>w\<close> bit
  number from \<open>s\<close>: \<open>None\<close> when the extraction throws, otherwise the number and whether
  the end of the text was reached.  \<open>in_dec\<close> is the same for decimal text.
\<close>

record bigint_text =
  out_hex :: "bool \<Rightarrow> nat \<Rightarrow> string"
  out_dec :: "nat \<Rightarrow> string"
  in_hex :: "nat \<Rightarrow> string \<Rightarrow> (nat \<times> bool) option"
  in_dec :: "nat \<Rightarrow> string \<Rightarrow> (nat \<times> bool) option"

definition setw :: "nat \<Rightarrow> string \<Rightarrow> string" where
  "setw n s = replicate (n - length s) (CHR ''0'') @ s"

definition text_laws :: "bigint_text \<Rightarrow> bool" where
  "text_laws io \<longleftrightarrow>
     (\<forall>w u n k. n < 2 ^ w \<longrightarrow>
        in_hex io w (replicate k (CHR ''0'') @ out_hex io u n) = Some (n, True)) \<and>
     (\<forall>w n. n < 2 ^ w \<longrightarrow> in_dec io w (out_dec io n) = Some (n, True)) \<and>
     (\<forall>w u n. 0 < w \<and> n < 2 ^ (4 * w) \<longrightarrow> length (out_hex io u n) \<le> w) \<and>
     (\<forall>u n. out_hex io u n \<noteq> []) \<and>
     (\<forall>u n. set (out_hex io u n) \<subseteq> set ''0123456789abcdefABCDEF'') \<and>
     (\<forall>n. n < 2 ^ 128 \<longrightarrow> length (out_dec io n) \<le> 39) \<and>
     (\<forall>n. out_dec io n \<noteq> []) \<and>
     (\<forall>n. hd (out_dec io n) \<noteq> CHR ''-'') \<and>
     (\<forall>n. hd (out_dec io n) = CHR ''0'' \<longrightarrow> length (out_dec io n) \<le> 1)"

section \<open>Unions\<close>

text \<open>
  Comparison of two unions is \<open>memcmp\<close> on the big endian bytes.
\<close>

fun memcmp_less :: "byte list \<Rightarrow> byte list \<Rightarrow> bool" where
  "memcmp_less (a # as) (b # bs) = (if a = b then memcmp_less as bs else a < b)"
| "memcmp_less _ _ = False"

definition uint256_less :: "u256 \<Rightarrow> u256 \<Rightarrow> bool" where
  "uint256_less a b = memcmp_less (write_be a) (write_be b)"

definition uint128_less :: "u128 \<Rightarrow> u128 \<Rightarrow> bool" where
  "uint128_less a b = memcmp_less (write_be a) (write_be b)"

text \<open>\<open>is_zero\<close> looks at the four quad words of the union.\<close>

definition uint256_is_zero :: "u256 \<Rightarrow> bool" where
  "uint256_is_zero a \<longleftrightarrow>
     list_all (\<lambda>i. of_le (take 8 (drop (8 * i) (write_be a))) = (0 :: u64)) [0, 1, 2, 3]"

section \<open>Account numbers as text\<close>

definition account_lookup :: string where
  "account_lookup = ''13456789abcdefghijkmnopqrstuwxyz''"

definition account_reverse :: string where
  "account_reverse =
     ''~0~1234567~~~~~~~~~~~~~~~~~~~~~~~~~~~~~~~~~~~~~~~89:;<=>?@AB~CDEFGHIJK~LMNO~~~~~''"

definition account_encode :: "byte \<Rightarrow> char" where
  "account_encode value = account_lookup ! unat value"

definition account_decode :: "byte \<Rightarrow> byte" where
  "account_decode value =
     (let result = of_char (account_reverse ! unat (value - 0x30)) :: byte
      in if result \<noteq> of_char (CHR ''~'') then result - 0x30 else result)"

fun encode_digits :: "nat \<Rightarrow> u512 \<Rightarrow> string" where
  "encode_digits 0 number_l = []"
| "encode_digits (Suc i) number_l =
     account_encode (ucast (number_l AND 0x1f)) # encode_digits i (drop_bit 5 number_l)"

definition account_check :: "crypto \<Rightarrow> account \<Rightarrow> u64" where
  "account_check c a = of_le (blake2b c 5 (write_be a))"

definition encode_account :: "crypto \<Rightarrow> account \<Rightarrow> string" where
  "encode_account c a =
     (let number_l = push_bit 40 (ucast a :: u512) OR ucast (account_check c a)
      in rev (encode_digits 60 number_l @ ''_dlxv''))"

definition to_node_id :: "crypto \<Rightarrow> account \<Rightarrow> string" where
  "to_node_id c a = ''node'' @ drop 4 (encode_account c a)"

fun decode_loop :: "string \<Rightarrow> u512 \<Rightarrow> u512 option" where
  "decode_loop [] number_l = Some number_l"
| "decode_loop (ch # s) number_l =
     (let character = of_char ch :: byte
      in if character < 0x30 \<or> 0x80 \<le> character then None
         else let b = account_decode character
              in if b = of_char (CHR ''~'') then None
                 else decode_loop s (push_bit 5 number_l + ucast b))"

text \<open>
  \<open>decode_account\<close> returns true on error; the model returns \<open>None\<close>.  Reading
  \<open>source_a.begin () + 5\<close> of a text of five characters reads the terminator, which is
  neither digit and so an error.
\<close>

definition decode_account :: "crypto \<Rightarrow> string \<Rightarrow> account option" where
  "decode_account c source_a =
     (if length source_a < 5 then None
      else
        let vxldollar_prefix =
              (take 4 source_a = ''vxld'' \<and>
               (source_a ! 4 = CHR ''_'' \<or> source_a ! 4 = CHR ''-''));
            node_id_prefix = (take 5 source_a = ''node_'')
        in
          if vxldollar_prefix \<and> length source_a \<noteq> 65 then None
          else if vxldollar_prefix \<or> node_id_prefix then
            (case drop 5 source_a of
               [] \<Rightarrow> None
             | ch # _ \<Rightarrow>
                 if ch = CHR ''1'' \<or> ch = CHR ''3'' then
                   (case decode_loop (drop 5 source_a) 0 of
                      None \<Rightarrow> None
                    | Some number_l \<Rightarrow>
                        let a = ucast (drop_bit 40 number_l) :: account;
                            check = ucast (number_l AND 0xffffffffff) :: u64
                        in if check = account_check c a then Some a else None)
                 else None)
          else None)"

definition decode_node_id :: "crypto \<Rightarrow> string \<Rightarrow> account option" where
  "decode_node_id c source_a = decode_account c source_a"

section \<open>Hexadecimal and decimal text\<close>

definition uint256_encode_hex :: "bigint_text \<Rightarrow> u256 \<Rightarrow> string" where
  "uint256_encode_hex io a = setw 64 (out_hex io True (unat a))"

definition uint256_decode_hex :: "bigint_text \<Rightarrow> string \<Rightarrow> u256 option" where
  "uint256_decode_hex io text_a =
     (if text_a \<noteq> [] \<and> length text_a \<le> 64 then
        (case in_hex io 256 text_a of
           None \<Rightarrow> None
         | Some (number_l, eof) \<Rightarrow> if \<not> eof then None else Some (of_nat number_l))
      else None)"

definition uint512_encode_hex :: "bigint_text \<Rightarrow> u512 \<Rightarrow> string" where
  "uint512_encode_hex io a = setw 128 (out_hex io True (unat a))"

definition uint512_decode_hex :: "bigint_text \<Rightarrow> string \<Rightarrow> u512 option" where
  "uint512_decode_hex io text_a =
     (if length text_a > 128 then None
      else (case in_hex io 512 text_a of
              None \<Rightarrow> None
            | Some (number_l, eof) \<Rightarrow> if \<not> eof then None else Some (of_nat number_l)))"

definition uint128_encode_hex :: "bigint_text \<Rightarrow> u128 \<Rightarrow> string" where
  "uint128_encode_hex io a = setw 32 (out_hex io True (unat a))"

definition uint128_decode_hex :: "bigint_text \<Rightarrow> string \<Rightarrow> u128 option" where
  "uint128_decode_hex io text_a =
     (if length text_a > 32 then None
      else (case in_hex io 128 text_a of
              None \<Rightarrow> None
            | Some (number_l, eof) \<Rightarrow> if \<not> eof then None else Some (of_nat number_l)))"

definition uint128_encode_dec :: "bigint_text \<Rightarrow> u128 \<Rightarrow> string" where
  "uint128_encode_dec io a = out_dec io (unat a)"

definition uint128_decode_dec :: "bigint_text \<Rightarrow> bool \<Rightarrow> string \<Rightarrow> u128 option" where
  "uint128_decode_dec io decimal text_a =
     (if length text_a > 39 \<or> (length text_a > 1 \<and> hd text_a = CHR ''0'' \<and> \<not> decimal) \<or>
         (text_a \<noteq> [] \<and> hd text_a = CHR ''-'') then None
      else (case in_dec io 128 text_a of
              None \<Rightarrow> None
            | Some (number_l, eof) \<Rightarrow> if \<not> eof then None else Some (of_nat number_l)))"

definition to_string_hex :: "bigint_text \<Rightarrow> u64 \<Rightarrow> string" where
  "to_string_hex io value_a = setw 16 (out_hex io False (unat value_a))"

definition from_string_hex :: "bigint_text \<Rightarrow> string \<Rightarrow> u64 option" where
  "from_string_hex io value_a =
     (if value_a = [] then None
      else if length value_a > 16 then None
      else (case in_hex io 64 value_a of
              None \<Rightarrow> None
            | Some (number_l, eof) \<Rightarrow> if \<not> eof then None else Some (of_nat number_l)))"

section \<open>Signatures\<close>

text \<open>\<open>validate_message\<close> returns true when the signature is \<^emph>\<open>not\<close> valid.\<close>

definition validate_message :: "crypto \<Rightarrow> public_key \<Rightarrow> u256 \<Rightarrow> signature \<Rightarrow> bool" where
  "validate_message c public_key message signature =
     (\<not> ed25519_sign_open c (write_be message) public_key signature)"

definition sign_message :: "crypto \<Rightarrow> u256 \<Rightarrow> public_key \<Rightarrow> u256 \<Rightarrow> signature" where
  "sign_message c private_key public_key message =
     ed25519_sign c (write_be message) private_key public_key"


section \<open>Byte order and number order\<close>

text \<open>The number a big endian byte list stands for.\<close>

fun be_val :: "byte list \<Rightarrow> nat" where
  "be_val [] = 0"
| "be_val (b # bs) = unat b * 256 ^ length bs + be_val bs"

lemma unat_byte: "unat (b :: byte) < 256"
  using unsigned_less [of b, where 'a = nat] by simp

lemma be_val_bound: "be_val bs < 256 ^ length bs"
proof (induction bs)
  case Nil
  then show ?case by simp
next
  case (Cons b bs)
  have "be_val (b # bs) < (unat b + 1) * 256 ^ length bs"
    using Cons.IH by simp
  also have "\<dots> \<le> 256 * 256 ^ length bs"
    using unat_byte [of b] by (intro mult_right_mono) auto
  finally show ?case by simp
qed

lemma be_val_append: "be_val (xs @ ys) = be_val xs * 256 ^ length ys + be_val ys"
  by (induction xs) (auto simp: algebra_simps power_add)

lemma unat_of_le:
  "8 * length bs \<le> LENGTH('a::len) \<Longrightarrow> unat (of_le bs :: 'a word) = be_val (rev bs)"
proof (induction bs)
  case Nil
  then show ?case by simp
next
  case (Cons b bs)
  then have IH: "unat (of_le bs :: 'a word) = be_val (rev bs)" by simp
  have disj: "(ucast b :: 'a word) AND push_bit 8 (of_le bs) = 0"
    by (rule bit_word_eqI) (auto simp: bit_simps dest: bit_imp_le_length)
  have small: "be_val (rev bs) * 256 + unat b < 2 ^ LENGTH('a)"
  proof -
    have "be_val (rev (b # bs)) < 256 ^ length (b # bs)"
      using be_val_bound [of "rev (b # bs)"] by simp
    also have "(256 :: nat) ^ length (b # bs) = 2 ^ (8 * length (b # bs))"
      by (subst power_mult) simp
    also have "\<dots> \<le> 2 ^ LENGTH('a)" using Cons.prems by (intro power_increasing) auto
    finally show ?thesis by (simp add: be_val_append)
  qed
  have "unat (push_bit 8 (of_le bs :: 'a word)) = be_val (rev bs) * 256"
    using small by (simp only: unsigned_push_bit_eq IH) (simp add: push_bit_eq_mult take_bit_eq_mod)
  moreover have "unat (ucast b :: 'a word) = unat b"
    using small by (simp add: unsigned_ucast_eq take_bit_nat_eq_self)
  moreover have "(of_le (b # bs) :: 'a word) = ucast b + push_bit 8 (of_le bs)"
    using disj by (simp add: disjunctive_add_eq_or)
  ultimately show ?case
    using small by (simp add: be_val_append unat_add_no_wrap)
qed

lemma unat_eq_be_val: "8 dvd LENGTH('a::len) \<Longrightarrow> unat (w :: 'a word) = be_val (write_be w)"
proof -
  assume d: "8 dvd LENGTH('a)"
  then have "unat (of_le (write_le w) :: 'a word) = be_val (rev (write_le w))"
    by (intro unat_of_le) simp
  with d show ?thesis by (simp add: of_le_write_le write_be_def)
qed

lemma memcmp_be_val:
  "length as = length bs \<Longrightarrow> memcmp_less as bs \<longleftrightarrow> be_val as < be_val bs"
proof (induction as bs rule: memcmp_less.induct)
  case (1 a as b bs)
  show ?case
  proof (cases "a = b")
    case True
    with 1 show ?thesis by simp
  next
    case False
    have lt: "be_val (x # xs) < be_val (y # ys)"
      if "x < y" and "length xs = length ys" for x y :: byte and xs ys
    proof -
      have "be_val (x # xs) < (unat x + 1) * 256 ^ length ys"
        using be_val_bound [of xs] that(2) by simp
      also have "\<dots> \<le> unat y * 256 ^ length ys"
        using that(1) by (intro mult_right_mono) (auto simp: word_less_nat_alt)
      finally show ?thesis by simp
    qed
    from False have "a < b \<or> b < a" by auto
    then show ?thesis
      using False 1 lt [of a b as bs] lt [of b a bs as] by auto
  qed
qed auto

lemma memcmp_write_be:
  "8 dvd LENGTH('a::len) \<Longrightarrow>
     memcmp_less (write_be a) (write_be b) \<longleftrightarrow> (a :: 'a word) < b"
  by (simp add: memcmp_be_val unat_eq_be_val [symmetric] word_less_nat_alt)


lemma to_le_0 [simp]: "to_le n 0 = replicate n 0"
  by (induction n) auto

lemma of_le_eq_0:
  assumes "8 * length bs \<le> LENGTH('a::len)"
  shows "(of_le bs :: 'a word) = 0 \<longleftrightarrow> (\<forall>b\<in>set bs. b = 0)"
proof
  assume "(of_le bs :: 'a word) = 0"
  then have "bs = replicate (length bs) 0"
    using to_le_of_le [OF assms] by simp
  then show "\<forall>b\<in>set bs. b = 0" by (metis in_set_replicate)
next
  assume "\<forall>b\<in>set bs. b = 0"
  then show "(of_le bs :: 'a word) = 0" by (induction bs) auto
qed

lemma is_zero_iff: "uint256_is_zero a \<longleftrightarrow> a = 0"
proof -
  define xs where "xs = write_be a"
  have len: "length xs = 32" by (simp add: xs_def)
  have "xs = take 8 xs @ take 8 (drop 8 xs) @ take 8 (drop 16 xs) @ take 8 (drop 24 xs)"
    using append_take_drop_id [of 8 xs] append_take_drop_id [of 8 "drop 8 xs"]
      append_take_drop_id [of 8 "drop 16 xs"] len by simp
  then have sets: "set xs = set (take 8 xs) \<union> set (take 8 (drop 8 xs)) \<union>
      set (take 8 (drop 16 xs)) \<union> set (take 8 (drop 24 xs))"
    by (metis set_append sup_assoc)
  have "uint256_is_zero a \<longleftrightarrow> (\<forall>b\<in>set xs. b = 0)"
    unfolding sets uint256_is_zero_def xs_def [symmetric]
    by (simp add: of_le_eq_0 len ball_Un)
  also have "\<dots> \<longleftrightarrow> a = 0"
    using of_le_eq_0 [of "rev xs", where 'a = 256] len word_of_be_write_be [of a]
    by (simp add: word_of_be_def xs_def)
  finally show ?thesis .
qed

section \<open>The alphabet of account numbers\<close>

lemma account_alphabet:
  "list_all (\<lambda>i. let b = word_of_nat i :: byte; ch = account_encode b in
      \<not> of_char ch < (0x30 :: byte) \<and> \<not> 0x80 \<le> (of_char ch :: byte) \<and>
      account_decode (of_char ch) = b) [0..<32]"
  by code_simp

lemma account_reverse_table:
  "list_all (\<lambda>(i, ch). let r = of_char ch :: byte in
      r = of_char (CHR ''~'') \<or>
      (r - 0x30 < 32 \<and> of_char (account_encode (r - 0x30)) = (word_of_nat i :: byte)))
     (zip [0x30..<0x80] account_reverse)"
  by code_simp

lemma account_encode_decode:
  assumes "b < 32"
  shows "\<not> of_char (account_encode b) < (0x30 :: byte)"
    and "\<not> 0x80 \<le> (of_char (account_encode b) :: byte)"
    and "account_decode (of_char (account_encode b)) = b"
proof -
  have "unat b \<in> set [0..<32]"
    using assms by (simp only: set_upt atLeastLessThan_iff) (simp add: word_less_nat_alt)
  with account_alphabet [unfolded list_all_iff Let_def]
  have "\<not> of_char (account_encode (word_of_nat (unat b))) < (0x30 :: byte) \<and>
    \<not> 0x80 \<le> (of_char (account_encode (word_of_nat (unat b))) :: byte) \<and>
    account_decode (of_char (account_encode (word_of_nat (unat b)))) = word_of_nat (unat b)"
    by blast
  then show "\<not> of_char (account_encode b) < (0x30 :: byte)"
    and "\<not> 0x80 \<le> (of_char (account_encode b) :: byte)"
    and "account_decode (of_char (account_encode b)) = b"
    by simp_all
qed

lemma of_char_byte_inj: "(of_char a :: byte) = of_char b \<longleftrightarrow> a = b"
proof
  assume "(of_char a :: byte) = of_char b"
  then have "word_of_nat (of_char a) = (word_of_nat (of_char b) :: byte)"
    by (simp only: of_nat_of_char)
  then have "take_bit 8 (of_char a :: nat) = take_bit 8 (of_char b)"
    by (simp add: word_of_nat_eq_iff)
  then have "(of_char a :: nat) = of_char b"
    by (simp add: take_bit_eq_mod)
  then show "a = b" by simp
qed simp

lemma account_decode_encode:
  assumes "\<not> (of_char ch :: byte) < 0x30" and "\<not> 0x80 \<le> (of_char ch :: byte)"
    and "account_decode (of_char ch) \<noteq> of_char (CHR ''~'')"
  shows "account_decode (of_char ch) < 32" and "account_encode (account_decode (of_char ch)) = ch"
proof -
  let ?v = "of_char ch :: byte"
  define i where "i = unat (?v - 0x30)"
  have i: "unat ?v = 0x30 + i" and "i < 80"
    using assms(1,2) unsigned_less [of ?v, where 'a = nat]
    by (simp_all add: i_def word_less_nat_alt word_le_nat_alt unat_sub_if')
  let ?r = "of_char (account_reverse ! i) :: byte"
  have len: "length account_reverse = 80" by (simp add: account_reverse_def)
  have "(0x30 + i, account_reverse ! i) \<in> set (zip [0x30..<0x80] account_reverse)"
    using \<open>i < 80\<close> len by (subst in_set_zip) (rule exI [of _ i], simp add: nth_upt del: upt_rec_numeral)
  with account_reverse_table [unfolded list_all_iff Let_def]
  have *: "?r = of_char (CHR ''~'') \<or>
      (?r - 0x30 < 32 \<and> of_char (account_encode (?r - 0x30)) = (word_of_nat (0x30 + i) :: byte))"
    by blast
  have d: "account_decode ?v = (if ?r \<noteq> of_char (CHR ''~'') then ?r - 0x30 else ?r)"
    by (simp only: account_decode_def i_def Let_def)
  have "word_of_nat (0x30 + i) = ?v"
    unfolding i [symmetric] by simp
  with * d assms(3) show "account_decode ?v < 32" and "account_encode (account_decode ?v) = ch"
    by (metis, metis of_char_byte_inj)
qed


section \<open>Account numbers: both directions\<close>

lemma length_encode_digits [simp]: "length (encode_digits k n) = k"
  by (induction k arbitrary: n) auto

lemma and_31: "(w :: 'a::len word) AND 0x1f = take_bit 5 w"
  by (simp add: take_bit_eq_mask mask_eq_exp_minus_1)

lemma digit_less: "(ucast (take_bit 5 w) :: byte) < 32"
proof -
  have "(ucast (take_bit 5 w) :: byte) = take_bit 5 (ucast w)"
    by (rule bit_word_eqI) (simp add: bit_simps)
  then show ?thesis
    using take_bit_nat_less_exp [of 5 "unat (ucast w :: byte)"]
    by (simp only: word_less_nat_alt unsigned_take_bit_eq) simp
qed

lemma decode_loop_append:
  "decode_loop (xs @ ys) n = Option.bind (decode_loop xs n) (decode_loop ys)"
  by (induction xs arbitrary: n) (auto simp: Let_def)

lemma digits_join:
  "push_bit 5 (take_bit k (drop_bit 5 n)) + take_bit 5 n = take_bit (k + 5) (n :: u512)"
proof -
  have "push_bit 5 (take_bit k (drop_bit 5 n)) + take_bit 5 n =
      push_bit 5 (take_bit k (drop_bit 5 n)) OR take_bit 5 n"
    by (rule disjunctive_add_eq_or) (auto intro!: bit_word_eqI simp: bit_simps)
  also have "\<dots> = take_bit (k + 5) n"
    by (rule bit_word_eqI) (auto simp: bit_simps)
  finally show ?thesis .
qed

lemma decode_loop_digit:
  "b < 32 \<Longrightarrow> decode_loop [account_encode b] n = Some (push_bit 5 n + ucast b)"
proof -
  assume b: "b < 32"
  then have "b \<noteq> of_char (CHR ''~'')" by auto
  with account_encode_decode [OF b] show ?thesis by (simp add: Let_def)
qed

lemma decode_encode_digits: "decode_loop (rev (encode_digits k n)) 0 = Some (take_bit (5 * k) n)"
proof (induction k arbitrary: n)
  case 0
  then show ?case by simp
next
  case (Suc k)
  have "ucast (ucast (take_bit 5 n) :: byte) = take_bit 5 n"
    by (rule bit_word_eqI) (auto simp: bit_simps)
  note u = this
  have "decode_loop (rev (encode_digits (Suc k) n)) 0 =
      Option.bind (decode_loop (rev (encode_digits k (drop_bit 5 n))) 0)
        (decode_loop [account_encode (ucast (take_bit 5 n))])"
    by (simp only: encode_digits.simps and_31 rev.simps decode_loop_append)
  also have "\<dots> = Some (push_bit 5 (take_bit (5 * k) (drop_bit 5 n)) + take_bit 5 n)"
    by (simp only: Suc.IH Option.bind.simps decode_loop_digit [OF digit_less] u)
  also have "\<dots> = Some (take_bit (5 * Suc k) n)"
    by (simp only: digits_join mult_Suc_right add.commute [of "5 * k" 5])
  finally show ?case .
qed

lemma encode_digits_snoc:
  "encode_digits (Suc k) n =
     encode_digits k n @ [account_encode (ucast (take_bit 5 (drop_bit (5 * k) n)))]"
proof (induction k arbitrary: n)
  case 0
  then show ?case by (simp add: and_31)
next
  case (Suc k)
  have "encode_digits (Suc (Suc k)) n =
      account_encode (ucast (take_bit 5 n)) # encode_digits (Suc k) (drop_bit 5 n)"
    by (simp add: and_31)
  also have "\<dots> = encode_digits (Suc k) n @
      [account_encode (ucast (take_bit 5 (drop_bit (5 * Suc k) n)))]"
    by (simp only: Suc.IH [of "drop_bit 5 n"] encode_digits.simps(2) [of k n] and_31
        drop_bit_drop_bit mult_Suc_right append.simps add.commute [of "5 * k" 5])
  finally show ?case .
qed

lemma bit_account_check:
  "digest_lengths c \<Longrightarrow> bit (account_check c a) i \<Longrightarrow> i < 40"
  by (auto simp: account_check_def bit_of_le digest_lengths_def div_less_iff_less_mult)

text \<open>The number that is written in base 32: the key shifted by the checksum.\<close>

definition account_number :: "crypto \<Rightarrow> account \<Rightarrow> u512" where
  "account_number c a = push_bit 40 (ucast a) OR ucast (account_check c a)"

lemma account_number_bits:
  assumes "digest_lengths c"
  shows "take_bit 300 (account_number c a) = account_number c a"
    and "ucast (drop_bit 40 (account_number c a)) = a"
    and "ucast (account_number c a AND 0xffffffffff) = account_check c a"
    and "take_bit 5 (drop_bit 295 (account_number c a)) \<in> {0, 1}"
proof -
  note b = bit_account_check [OF assms, of a]
  have t: "take_bit 296 (account_number c a) = account_number c a"
    by (rule bit_word_eqI) (auto simp: account_number_def bit_simps dest: b bit_imp_le_length)
  then show "take_bit 300 (account_number c a) = account_number c a"
    using take_bit_take_bit [of 300 296 "account_number c a"] by simp
  show "ucast (drop_bit 40 (account_number c a)) = a"
    by (rule bit_word_eqI) (auto simp: account_number_def bit_simps dest: b)
  have m: "(w :: u512) AND 0xffffffffff = take_bit 40 w" for w
    by (simp add: take_bit_eq_mask mask_eq_exp_minus_1)
  show "ucast (account_number c a AND 0xffffffffff) = account_check c a"
    unfolding m by (rule bit_word_eqI) (auto simp: account_number_def bit_simps dest: b)
  have "drop_bit 295 (account_number c a) = take_bit 1 (drop_bit 295 (account_number c a))"
    using drop_bit_take_bit [of 295 296 "account_number c a"] t by simp
  then have "take_bit 5 (drop_bit 295 (account_number c a)) =
      take_bit 1 (drop_bit 295 (account_number c a))"
    using take_bit_take_bit [of 5 1 "drop_bit 295 (account_number c a)"] by simp
  then show "take_bit 5 (drop_bit 295 (account_number c a)) \<in> {0, 1}"
    by (simp add: take_bit_Suc mod_2_eq_odd)
qed

lemma account_digits_hd:
  "drop 5 (encode_account c a) =
     account_encode (ucast (take_bit 5 (drop_bit 295 (account_number c a)))) #
     rev (encode_digits 59 (account_number c a))"
  using encode_digits_snoc [of 59 "account_number c a"]
  by (simp add: encode_account_def account_number_def)

lemma account_digits_decode:
  assumes "digest_lengths c"
  shows "decode_loop (drop 5 (encode_account c a)) 0 = Some (account_number c a)"
  using decode_encode_digits [of 60 "account_number c a"] account_number_bits(1) [OF assms]
  by (simp add: encode_account_def account_number_def del: encode_digits.simps)

lemma account_encode_01: "account_encode 0 = CHR ''1''" "account_encode 1 = CHR ''3''"
  by (simp_all add: account_encode_def account_lookup_def)

lemma account_first_digit:
  assumes "digest_lengths c"
  shows "hd (drop 5 (encode_account c a)) \<in> {CHR ''1'', CHR ''3''}"
  using account_number_bits(4) [OF assms, of a] account_encode_01
  by (auto simp: account_digits_hd)

lemma length_encode_account [simp]: "length (encode_account c a) = 65"
  by (simp add: encode_account_def del: encode_digits.simps)

lemma encode_account_prefix:
  "take 5 (encode_account c a) = ''vxld_''"
  by (simp add: encode_account_def del: encode_digits.simps)

lemma decode_encode_account:
  assumes "digest_lengths c"
  shows "decode_account c (encode_account c a) = Some a"
proof -
  let ?s = "encode_account c a"
  have "take 4 ?s = ''vxld''" and "?s ! 4 = CHR ''_''"
    using encode_account_prefix [of c a] by (simp_all add: encode_account_def del: encode_digits.simps)
  moreover obtain ch r where "drop 5 ?s = ch # r" and "ch = CHR ''1'' \<or> ch = CHR ''3''"
    using account_first_digit [OF assms, of a] account_digits_hd [of c a] by auto
  ultimately show ?thesis
    using account_digits_decode [OF assms, of a] account_number_bits(2,3) [OF assms, of a]
    by (simp add: decode_account_def Let_def del: decode_loop.simps)
qed

lemma word_eqI_unat: "unat a = unat b \<Longrightarrow> a = (b :: 'a::len word)"
  by (simp add: word_unat_eq_iff)

lemma digits_split:
  assumes "take_bit k m = (m :: u512)" and "k + 5 \<le> 512" and "(b :: byte) < 32"
  shows "take_bit 5 (push_bit 5 m + ucast b) = ucast b"
    and "drop_bit 5 (push_bit 5 m + ucast b) = m"
    and "take_bit (k + 5) (push_bit 5 m + ucast b) = push_bit 5 m + ucast b"
proof -
  have "take_bit 5 b = b"
  proof (rule word_eqI_unat)
    show "unat (take_bit 5 b) = unat b"
      using assms(3) by (simp only: unsigned_take_bit_eq)
        (simp add: take_bit_nat_eq_self word_less_nat_alt)
  qed
  then have b: "bit b i \<Longrightarrow> i < 5" for i by (metis bit_take_bit_iff)
  have m: "bit m i \<Longrightarrow> i < k" for i by (metis assms(1) bit_take_bit_iff)
  have "push_bit 5 m AND ucast b = 0"
    by (rule bit_word_eqI) (auto simp: bit_simps dest: b)
  then have eq: "push_bit 5 m + ucast b = push_bit 5 m OR ucast b"
    by (rule disjunctive_add_eq_or)
  show "take_bit 5 (push_bit 5 m + ucast b) = ucast b"
    unfolding eq by (rule bit_word_eqI) (auto simp: bit_simps dest: b)
  show "drop_bit 5 (push_bit 5 m + ucast b) = m"
    unfolding eq using assms(2)
    by (intro bit_word_eqI) (auto simp: bit_simps dest: b m)
  show "take_bit (k + 5) (push_bit 5 m + ucast b) = push_bit 5 m + ucast b"
    unfolding eq by (rule bit_word_eqI) (auto simp: bit_simps dest: b m)
qed

lemma decode_loop_single:
  assumes "decode_loop [ch] m = Some n"
  obtains b where "b < 32" and "ch = account_encode b" and "n = push_bit 5 m + ucast b"
proof -
  let ?b = "account_decode (of_char ch)"
  from assms have *: "\<not> (of_char ch :: byte) < 0x30" "\<not> 0x80 \<le> (of_char ch :: byte)"
      "?b \<noteq> of_char (CHR ''~'')" "n = push_bit 5 m + ucast ?b"
    by (auto simp: Let_def split: if_splits)
  from account_decode_encode [OF *(1-3)] *(4) show ?thesis by (metis that)
qed

lemma encode_decode_digits:
  "decode_loop s 0 = Some n \<Longrightarrow> 5 * length s \<le> 512 \<Longrightarrow>
     rev (encode_digits (length s) n) = s \<and> take_bit (5 * length s) n = n"
proof (induction s arbitrary: n rule: rev_induct)
  case Nil
  then show ?case by simp
next
  case (snoc ch s)
  then obtain m where m: "decode_loop s 0 = Some m" and n: "decode_loop [ch] m = Some n"
    by (auto simp: decode_loop_append bind_eq_Some simp del: decode_loop.simps)
  from snoc.IH [OF m] snoc.prems have IH: "rev (encode_digits (length s) m) = s"
    "take_bit (5 * length s) m = m" by auto
  from n obtain b where b: "b < 32" "ch = account_encode b" "n = push_bit 5 m + ucast b"
    by (rule decode_loop_single)
  have "5 * length s + 5 \<le> 512" using snoc.prems by simp
  note d = digits_split [OF IH(2) this b(1)]
  have "ucast (ucast b :: u512) = b" by (rule bit_word_eqI) (simp add: bit_simps)
  then have "rev (encode_digits (Suc (length s)) n) = s @ [ch]"
    by (simp only: encode_digits.simps and_31 b(3) d(1,2) rev.simps IH(1) b(2))
  moreover have "take_bit (5 * length s + 5) n = n"
    using d(3) by (simp only: b(3))
  ultimately show ?case by (simp only: length_append_singleton mult_Suc_right add.commute)
qed

lemma account_digit_first:
  assumes "b < 32" and "account_encode b = CHR ''1'' \<or> account_encode b = CHR ''3''"
  shows "b = 0 \<or> b = 1"
  using assms account_encode_01 account_encode_decode(3) [of b]
    account_encode_decode(3) [of 0] account_encode_decode(3) [of 1] by fastforce

lemma account_number_unique:
  assumes n: "take_bit 296 n = (n :: u512)"
    and check: "ucast (n AND 0xffffffffff) = account_check c (ucast (drop_bit 40 n))"
  shows "account_number c (ucast (drop_bit 40 n)) = n"
proof -
  have m: "(n :: u512) AND 0xffffffffff = take_bit 40 n"
    by (simp add: take_bit_eq_mask mask_eq_exp_minus_1)
  have b: "bit n i \<Longrightarrow> i < 296" for i by (metis n bit_take_bit_iff)
  show ?thesis
    unfolding account_number_def check [symmetric] m
    by (rule bit_word_eqI) (auto simp: bit_simps dest: b)
qed

lemma decode_account_digits:
  assumes "decode_account c s = Some a" and "take 4 s = ''vxld''"
  shows "drop 5 s = drop 5 (encode_account c a)"
proof -
  let ?t = "drop 5 s"
  from assms(2) have "take 4 (take 5 s) \<noteq> take 4 ''node_''" by simp
  then have not_node: "take 5 s \<noteq> ''node_''" by metis
  from assms not_node have len: "length s = 65"
    by (auto simp: decode_account_def Let_def split: if_splits)
  obtain n where n: "decode_loop ?t 0 = Some n" and a: "a = ucast (drop_bit 40 n)"
    and check: "ucast (n AND 0xffffffffff) = account_check c a"
    and first: "hd ?t = CHR ''1'' \<or> hd ?t = CHR ''3''"
    using assms(1)
    by (auto simp: decode_account_def Let_def simp del: decode_loop.simps
        split: if_splits list.splits option.splits)
  have t: "rev (encode_digits 60 n) = ?t" "take_bit 300 n = n"
    using encode_decode_digits [OF n] len by simp_all
  let ?b = "ucast (take_bit 5 (drop_bit 295 n)) :: byte"
  have "hd ?t = account_encode ?b"
    unfolding t(1) [symmetric] using encode_digits_snoc [of 59 n]
    by (simp del: encode_digits.simps)
  with first account_digit_first [OF digit_less] have "?b = 0 \<or> ?b = 1" by metis
  then have d: "take_bit 5 (drop_bit 295 n) = 0 \<or> take_bit 5 (drop_bit 295 n) = 1"
  proof -
    have "ucast ?b = take_bit 5 (drop_bit 295 n)"
      by (rule bit_word_eqI) (auto simp: bit_simps)
    then show ?thesis using \<open>?b = 0 \<or> ?b = 1\<close> by auto
  qed
  have "\<not> bit n (296 + i)" for i
  proof
    assume "bit n (296 + i)"
    moreover have "296 + i < 300" using calculation t(2) by (metis bit_take_bit_iff)
    ultimately have "bit (take_bit 5 (drop_bit 295 n)) (Suc i)"
      by (simp add: bit_simps)
    with d show False by (auto simp: bit_1_iff)
  qed
  then have "take_bit 296 n = n"
    by (intro bit_word_eqI) (auto simp: bit_simps, metis le_add_diff_inverse not_less)
  then have "account_number c a = n"
    using check unfolding a by (rule account_number_unique)
  then show ?thesis
    using t(1) by (simp add: encode_account_def account_number_def del: encode_digits.simps)
qed

lemma decode_loop_padding: "decode_loop (replicate k (CHR ''1'') @ s) 0 = decode_loop s 0"
proof (induction k)
  case (Suc k)
  have "decode_loop [CHR ''1''] 0 = Some 0"
    using decode_loop_digit [of 0 0] account_encode_01 by simp
  then show ?case
    using Suc decode_loop_append [of "[CHR ''1'']" "replicate k (CHR ''1'') @ s" 0]
    by (simp del: decode_loop.simps)
qed simp

lemma decode_node_padding:
  assumes "digest_lengths c"
  shows "decode_account c (''node_'' @ replicate k (CHR ''1'') @ drop 5 (encode_account c a)) = Some a"
proof -
  let ?t = "replicate k (CHR ''1'') @ drop 5 (encode_account c a)"
  obtain ch r where "?t = ch # r" and "ch = CHR ''1'' \<or> ch = CHR ''3''"
    using account_first_digit [OF assms, of a] account_digits_hd [of c a] by (cases k) auto
  moreover have "decode_loop ?t 0 = Some (account_number c a)"
    using account_digits_decode [OF assms] by (simp add: decode_loop_padding)
  ultimately show ?thesis
    using account_number_bits(2,3) [OF assms, of a]
    by (simp add: decode_account_def Let_def del: decode_loop.simps)
qed

section \<open>Hexadecimal and decimal text: round trips\<close>

lemma text_hex_length:
  "text_laws io \<Longrightarrow> 0 < k \<Longrightarrow> n < 2 ^ (4 * k) \<Longrightarrow> length (out_hex io u n) \<le> k"
  unfolding text_laws_def by blast

text \<open>The text of a hash is 64 hexadecimal digits, which is never the text of an account.\<close>

lemma decode_account_hex:
  assumes "text_laws io"
  shows "decode_account c (uint256_encode_hex io a) = None"
proof -
  let ?s = "uint256_encode_hex io a"
  have "length (out_hex io True (unat a)) \<le> 64"
    using text_hex_length [OF assms, of 64 "unat a"] unsigned_less [of a, where 'a = nat] by simp
  then have len: "length ?s = 64"
    by (simp add: uint256_encode_hex_def setw_def)
  have "set ?s \<subseteq> set ''0123456789abcdefABCDEF''"
    using assms unfolding text_laws_def uint256_encode_hex_def setw_def by auto
  then have "CHR ''n'' \<notin> set ?s" by auto
  then have "take 5 ?s \<noteq> ''node_''" by (metis in_set_takeD list.set_intros(1))
  then show ?thesis
    using len by (auto simp: decode_account_def Let_def)
qed

lemma decode_encode_hex [codec_simps]:
  assumes "text_laws io"
  shows "uint256_decode_hex io (uint256_encode_hex io a) = Some a"
    and "uint512_decode_hex io (uint512_encode_hex io s) = Some s"
    and "uint128_decode_hex io (uint128_encode_hex io b) = Some b"
    and "uint128_decode_dec io False (uint128_encode_dec io b) = Some b"
    and "from_string_hex io (to_string_hex io w) = Some w"
proof -
  note l = text_hex_length [OF assms]
  have r: "in_hex io k (replicate j (CHR ''0'') @ out_hex io u n) = Some (n, True)"
    if "n < 2 ^ k" for k j u n
    using assms that unfolding text_laws_def by blast
  have ne: "out_hex io u n \<noteq> []" for u n
    using assms unfolding text_laws_def by blast
  have lt: "unat (w :: 'a::len word) < 2 ^ LENGTH('a)" for w
    by (rule unsigned_less)
  show "uint256_decode_hex io (uint256_encode_hex io a) = Some a"
    using l [of 64 "unat a" True] r [of "unat a" 256] ne lt [of a]
    by (simp add: uint256_decode_hex_def uint256_encode_hex_def setw_def)
  show "uint512_decode_hex io (uint512_encode_hex io s) = Some s"
    using l [of 128 "unat s" True] r [of "unat s" 512] lt [of s]
    by (simp add: uint512_decode_hex_def uint512_encode_hex_def setw_def)
  show "uint128_decode_hex io (uint128_encode_hex io b) = Some b"
    using l [of 32 "unat b" True] r [of "unat b" 128] lt [of b]
    by (simp add: uint128_decode_hex_def uint128_encode_hex_def setw_def)
  show "from_string_hex io (to_string_hex io w) = Some w"
    using l [of 16 "unat w" False] r [of "unat w" 64] ne lt [of w]
    by (simp add: from_string_hex_def to_string_hex_def setw_def)
  have "in_dec io 128 (out_dec io (unat b)) = Some (unat b, True)"
    and "length (out_dec io (unat b)) \<le> 39" and "hd (out_dec io (unat b)) \<noteq> CHR ''-''"
    and "hd (out_dec io (unat b)) = CHR ''0'' \<Longrightarrow> length (out_dec io (unat b)) \<le> 1"
    using assms lt [of b] unfolding text_laws_def by simp_all
  then show "uint128_decode_dec io False (uint128_encode_dec io b) = Some b"
    by (auto simp: uint128_decode_dec_def uint128_encode_dec_def)
qed

end
