(* ===== verification/Std_Text.thy ===== *)
theory Std_Text
  imports Numbers
begin

text \<open>
  A concrete implementation of the text conversion of the multiprecision integers that
  satisfies the laws the node relies on, and a concrete digest.  They are used where a
  theorem with those laws as hypotheses is applied to a concrete input.
\<close>

section \<open>Positional notation\<close>

fun digits :: "nat \<Rightarrow> nat \<Rightarrow> nat list" where
  "digits b n = (if b < 2 \<or> n < b then [n] else digits b (n div b) @ [n mod b])"

declare digits.simps [simp del]

definition undigits :: "nat \<Rightarrow> nat list \<Rightarrow> nat" where
  "undigits b ds = foldl (\<lambda>acc d. acc * b + d) 0 ds"

lemma digits_small: "n < b \<Longrightarrow> digits b n = [n]"
  by (simp add: digits.simps)

lemma digits_big: "2 \<le> b \<Longrightarrow> b \<le> n \<Longrightarrow> digits b n = digits b (n div b) @ [n mod b]"
  by (subst digits.simps) simp

lemma undigits_digits: "2 \<le> b \<Longrightarrow> undigits b (replicate k 0 @ digits b n) = n"
proof (induction b n rule: digits.induct)
  case (1 b n)
  have z: "foldl (\<lambda>acc d. acc * b + d) 0 (replicate k 0) = 0" by (induction k) auto
  show ?case
  proof (cases "n < b")
    case True
    then show ?thesis by (simp add: digits_small undigits_def z)
  next
    case False
    with 1 have "undigits b (replicate k 0 @ digits b (n div b)) = n div b" by simp
    with False 1(2) show ?thesis by (simp add: digits_big undigits_def)
  qed
qed

lemma digits_bound: "2 \<le> b \<Longrightarrow> d \<in> set (digits b n) \<Longrightarrow> d < b"
proof (induction b n rule: digits.induct)
  case (1 b n)
  then show ?case by (cases "n < b") (auto simp: digits_small digits_big)
qed

lemma length_digits: "2 \<le> b \<Longrightarrow> 0 < w \<Longrightarrow> n < b ^ w \<Longrightarrow> length (digits b n) \<le> w"
proof (induction b n arbitrary: w rule: digits.induct)
  case (1 b n)
  show ?case
  proof (cases "n < b")
    case True
    then show ?thesis using 1 by (simp add: digits_small)
  next
    case False
    then have "w \<noteq> 1" using 1(4) by auto
    then obtain v where v: "w = Suc v" "0 < v" using 1(3) by (cases w) auto
    then have "n div b < b ^ v" using 1(4) by (simp add: less_mult_imp_div_less mult.commute)
    with False 1 v have "length (digits b (n div b)) \<le> v" by simp
    with False 1(2) v show ?thesis by (simp add: digits_big)
  qed
qed

lemma digits_nonempty [simp]: "digits b n \<noteq> []"
  by (subst digits.simps) simp

lemma digits_hd: "2 \<le> b \<Longrightarrow> n \<noteq> 0 \<Longrightarrow> hd (digits b n) \<noteq> 0"
proof (induction b n rule: digits.induct)
  case (1 b n)
  show ?case
  proof (cases "n < b")
    case True
    then show ?thesis using 1 by (simp add: digits_small)
  next
    case False
    with 1(2) have "n div b \<noteq> 0" by (simp add: div_eq_0_iff)
    with False 1 show ?thesis by (simp add: digits_big)
  qed
qed

section \<open>Characters\<close>

definition digit_chars :: "bool \<Rightarrow> string" where
  "digit_chars u = (if u then ''0123456789ABCDEF'' else ''0123456789abcdef'')"

definition char_digit :: "char \<Rightarrow> nat option" where
  "char_digit ch = map_of (zip ''0123456789abcdefABCDEF''
     ([0..<16] @ [10..<16])) ch"

definition parse :: "nat \<Rightarrow> nat \<Rightarrow> string \<Rightarrow> (nat \<times> bool) option" where
  "parse b w s =
     (let ds = map char_digit s in
      if s \<noteq> [] \<and> list_all (\<lambda>d. case d of None \<Rightarrow> False | Some k \<Rightarrow> k < b) ds then
        let n = undigits b (map the ds) in if n < 2 ^ w then Some (n, True) else None
      else None)"

definition std_text :: bigint_text where
  "std_text =
     \<lparr>out_hex = \<lambda>u n. map (\<lambda>d. digit_chars u ! d) (digits 16 n),
      out_dec = \<lambda>n. map (\<lambda>d. digit_chars True ! d) (digits 10 n),
      in_hex = parse 16, in_dec = parse 10\<rparr>"

lemma char_digit_chars: "list_all (\<lambda>d. char_digit (digit_chars u ! d) = Some d) [0..<16]"
  by (cases u) (simp_all add: char_digit_def digit_chars_def upt_rec)

lemma char_digit_char: "d < 16 \<Longrightarrow> char_digit (digit_chars u ! d) = Some d"
  using char_digit_chars [of u] by (simp add: list_all_iff del: upt_rec_numeral)

lemma parse_print:
  assumes "2 \<le> b" and "b \<le> 16" and "n < 2 ^ w"
  shows "parse b w (replicate k (CHR ''0'') @ map (\<lambda>d. digit_chars u ! d) (digits b n)) =
    Some (n, True)"
proof -
  have zero: "digit_chars u ! 0 = CHR ''0''" by (simp add: digit_chars_def)
  let ?ds = "replicate k 0 @ digits b n"
  have print: "replicate k (CHR ''0'') @ map (\<lambda>d. digit_chars u ! d) (digits b n) =
      map (\<lambda>d. digit_chars u ! d) ?ds" by (simp add: zero)
  have d: "d \<in> set ?ds \<Longrightarrow> d < b" for d
    using assms(1) digits_bound [OF assms(1), of d n] by auto
  then have cd: "d \<in> set ?ds \<Longrightarrow> char_digit (digit_chars u ! d) = Some d" for d
    using assms(2) by (meson char_digit_char order.strict_trans2)
  have m: "map char_digit (map (\<lambda>d. digit_chars u ! d) ?ds) = map Some ?ds"
    unfolding map_map by (rule map_cong [OF refl]) (simp only: comp_def cd)
  have all: "list_all (\<lambda>d. case d of None \<Rightarrow> False | Some k \<Rightarrow> k < b) (map Some ?ds)"
    unfolding list_all_iff using d by auto
  have the: "map the (map Some ?ds) = ?ds"
    unfolding map_map by (rule map_idI) simp
  have "map (\<lambda>d. digit_chars u ! d) ?ds \<noteq> []" by simp
  then show ?thesis
    unfolding parse_def Let_def print m the
    using all undigits_digits [OF assms(1), of k n] assms(3) by (simp only:) simp
qed

lemma text_laws_std: "text_laws std_text"
proof -
  have hex: "in_hex std_text w (replicate k (CHR ''0'') @ out_hex std_text u n) = Some (n, True)"
    if "n < 2 ^ w" for w k u n
    using parse_print [of 16 n w k u] that by (simp add: std_text_def)
  have dec: "in_dec std_text w (out_dec std_text n) = Some (n, True)" if "n < 2 ^ w" for w n
    using parse_print [of 10 n w 0 True] that by (simp add: std_text_def)
  have len: "length (out_hex std_text u n) \<le> w" if "0 < w \<and> n < 2 ^ (4 * w)" for w u n
    using length_digits [of 16 w n] that by (simp add: std_text_def power_mult)
  have ne: "out_hex std_text u n \<noteq> []" "out_dec std_text n \<noteq> []" for u n
    by (simp_all add: std_text_def)
  have lend: "length (out_dec std_text n) \<le> 39" if "n < 2 ^ 128" for n
    using length_digits [of 10 39 n] that by (simp add: std_text_def)
  have chars: "set (out_hex std_text u n) \<subseteq> set ''0123456789abcdefABCDEF''" for u n
  proof -
    have "length (digit_chars u) = 16" by (simp add: digit_chars_def)
    then have "set (out_hex std_text u n) \<subseteq> set (digit_chars u)"
      using digits_bound [of 16 _ n] unfolding std_text_def by (auto intro!: nth_mem)
    also have "\<dots> \<subseteq> set ''0123456789abcdefABCDEF''" by (simp add: digit_chars_def)
    finally show ?thesis .
  qed
  have hd1: "hd (out_dec std_text n) = digit_chars True ! hd (digits 10 n)" for n
    by (simp add: std_text_def hd_map)
  have small: "hd (digits 10 n) < 10" for n
    by (intro digits_bound [of 10 _ n]) simp_all
  have cd: "char_digit (hd (out_dec std_text n)) = Some (hd (digits 10 n))" for n
    using small [of n] by (simp add: hd1 char_digit_char)
  have minus: "hd (out_dec std_text n) \<noteq> CHR ''-''" for n
  proof -
    have "char_digit (CHR ''-'') = None" by (simp add: char_digit_def upt_rec)
    with cd [of n] show ?thesis by (metis option.distinct(1))
  qed
  have zero: "length (out_dec std_text n) \<le> 1" if "hd (out_dec std_text n) = CHR ''0''" for n
  proof -
    have "hd (digits 10 n) = 0" using cd [of n] that char_digit_char [of 0 True] by (simp add: digit_chars_def)
    then have "n = 0" using digits_hd [of 10 n] by auto
    then show ?thesis by (simp add: std_text_def digits_small)
  qed
  show ?thesis
    unfolding text_laws_def using hex dec len ne lend chars minus zero by blast
qed

section \<open>A concrete digest\<close>

text \<open>The digest reads the message from its end, as many bytes as asked for.\<close>

definition test_crypto :: crypto where
  "test_crypto =
     \<lparr>blake2b = \<lambda>n xs. take n (rev xs @ replicate n 0),
      ed25519_sign_open = \<lambda>m pk s. True,
      ed25519_sign = \<lambda>m prv pub. 0\<rparr>"

lemma digest_lengths_test [simp]: "digest_lengths test_crypto"
  by (auto simp: digest_lengths_def test_crypto_def min_def)

section \<open>Account texts\<close>

text \<open>
  C34: \<open>decode_account\<close> accepts the text that \<open>encode_account\<close> writes and returns the account; the
  text has 65 characters.
\<close>

theorem account_text_round_trip:
  assumes "digest_lengths c"
  shows "decode_account c (encode_account c a) = Some a \<and> length (encode_account c a) = 65"
  by (simp add: decode_encode_account [OF assms])

theorem account_text_round_trip_witness:
  "decode_account test_crypto (encode_account test_crypto 0xc0ffee) = Some 0xc0ffee"
  using account_text_round_trip [OF digest_lengths_test, of "0xc0ffee"] by simp

text \<open>
  The text of an account is unique up to its separator.  Two texts with the prefix
  \<open>vxld\<close> that \<open>decode_account\<close> maps to the same account have the same 60 digits.
\<close>

theorem account_text_unique:
  assumes "decode_account c s = Some a" and "decode_account c t = Some a"
    and "take 4 s = ''vxld''" and "take 4 t = ''vxld''"
  shows "drop 5 s = drop 5 t"
  using decode_account_digits [OF assms(1,3)] decode_account_digits [OF assms(2,4)] by simp

theorem account_text_unique_witness:
  "decode_account test_crypto (''vxld_'' @ drop 5 (encode_account test_crypto 7)) = Some 7 \<and>
   decode_account test_crypto (''vxld-'' @ drop 5 (encode_account test_crypto 7)) = Some 7 \<and>
   drop 5 (''vxld_'' @ drop 5 (encode_account test_crypto 7)) =
     drop 5 (''vxld-'' @ drop 5 (encode_account test_crypto 7))"
proof -
  let ?d = "drop 5 (encode_account test_crypto 7)"
  have u: "''vxld_'' @ ?d = encode_account test_crypto 7"
    using append_take_drop_id [of 5 "encode_account test_crypto 7"]
    by (simp only: encode_account_prefix)
  have s: "decode_account test_crypto (''vxld_'' @ ?d) = Some 7"
    unfolding u by (rule decode_encode_account [OF digest_lengths_test])
  have "decode_account test_crypto (''vxld-'' @ ?d) = decode_account test_crypto (''vxld_'' @ ?d)"
    by (simp add: decode_account_def Let_def cong: list.case_cong if_cong)
  with s have t: "decode_account test_crypto (''vxld-'' @ ?d) = Some 7" by simp
  from account_text_unique [OF s t] s t show ?thesis by simp
qed

text \<open>
  \<open>decode_account\<close> does not check the length of a node identifier: any number of zero
  digits may stand before the digits of an account, and the text still decodes.
\<close>

theorem node_text_padding:
  assumes "digest_lengths c"
  shows "decode_account c (''node_'' @ replicate k (CHR ''1'') @ drop 5 (encode_account c a)) = Some a"
  by (rule decode_node_padding [OF assms])

theorem node_text_padding_witness:
  "decode_account test_crypto
     (''node_'' @ replicate 3 (CHR ''1'') @ drop 5 (encode_account test_crypto 9)) = Some 9"
  by (rule node_text_padding [OF digest_lengths_test])

text \<open>
  The byte order of the 256 bit values, which is the order of the database keys, is
  the order of the numbers.
\<close>

theorem uint256_order: "uint256_less a b \<longleftrightarrow> a < b"
  by (simp add: uint256_less_def memcmp_write_be)

end
