(* ===== verification/Epochs.thy ===== *)
theory Epochs
  imports Prelude
begin

text \<open>
  \<^verbatim>\<open>lib/epoch.hpp\<close> and \<^verbatim>\<open>lib/epoch.cpp\<close>: epoch tags and the table of released epochs.
  The enumeration has the underlying type \<open>uint8_t\<close> and is read from disk and from the
  network by a cast, so every byte is a value of the type.
\<close>

section \<open>Epoch tags\<close>

type_synonym epoch = byte

definition epoch_invalid :: epoch where "epoch_invalid = 0"
definition epoch_unspecified :: epoch where "epoch_unspecified = 1"
definition epoch_0 :: epoch where "epoch_0 = 2"
definition epoch_1 :: epoch where "epoch_1 = 3"
definition epoch_2 :: epoch where "epoch_2 = 4"
definition epoch_max :: epoch where "epoch_max = epoch_2"

lemmas epoch_defs =
  epoch_invalid_def epoch_unspecified_def epoch_0_def epoch_1_def epoch_2_def epoch_max_def

section \<open>The table of epochs\<close>

record epoch_info =
  ei_signer :: public_key
  ei_link :: link

text \<open>
  The table is an unordered map.  It is the list of its entries in the order in which the
  container iterates over them; a key has at most one entry.
\<close>

type_synonym epochs = "(epoch \<times> epoch_info) list"

text \<open>\<open>at\<close> throws for a missing key: the result is then \<open>None\<close>.\<close>

definition epochs_link :: "epochs \<Rightarrow> epoch \<Rightarrow> link option" where
  "epochs_link epochs_m epoch_a = map_option ei_link (map_of epochs_m epoch_a)"

definition epochs_is_epoch_link :: "epochs \<Rightarrow> link \<Rightarrow> bool" where
  "epochs_is_epoch_link epochs_m link_a = list_ex (\<lambda>item. ei_link (snd item) = link_a) epochs_m"

definition epochs_signer :: "epochs \<Rightarrow> epoch \<Rightarrow> public_key option" where
  "epochs_signer epochs_m epoch_a = map_option ei_signer (map_of epochs_m epoch_a)"

text \<open>Looking up a link that is not an epoch link dereferences the end iterator: \<open>None\<close>.\<close>

definition epochs_epoch :: "epochs \<Rightarrow> link \<Rightarrow> epoch option" where
  "epochs_epoch epochs_m link_a =
     map_option fst (List.find (\<lambda>item. ei_link (snd item) = link_a) epochs_m)"

definition epochs_add :: "epochs \<Rightarrow> epoch \<Rightarrow> public_key \<Rightarrow> link \<Rightarrow> epochs" where
  "epochs_add epochs_m epoch_a signer_a link_a =
     (if map_of epochs_m epoch_a = None
      then epochs_m @ [(epoch_a, \<lparr>ei_signer = signer_a, ei_link = link_a\<rparr>)]
      else map (\<lambda>(e, i). if e = epoch_a then (e, \<lparr>ei_signer = signer_a, ei_link = link_a\<rparr>) else (e, i))
             epochs_m)"

text \<open>The comparison is done on promoted integers, so that \<open>head_epoch + 1\<close> does not wrap.\<close>

definition is_sequential :: "epoch \<Rightarrow> epoch \<Rightarrow> bool" where
  "is_sequential epoch_a new_epoch_a =
     (unat epoch_0 \<le> unat epoch_a \<and> unat new_epoch_a = unat epoch_a + 1)"

definition normalized_epoch :: "epoch \<Rightarrow> byte" where
  "normalized_epoch epoch_a = epoch_a - epoch_0"

section \<open>Lemmas\<close>

lemma is_epoch_link_epoch:
  "epochs_is_epoch_link es l \<longleftrightarrow> (\<exists>e. epochs_epoch es l = Some e)"
  by (induction es) (auto simp: epochs_is_epoch_link_def epochs_epoch_def)

text \<open>An epoch link that is found has a signer: the two lookups of \<open>epoch_signer\<close> agree.\<close>

lemma epochs_signer_defined:
  assumes "epochs_is_epoch_link es l"
  shows "\<exists>e s. epochs_epoch es l = Some e \<and> epochs_signer es e = Some s"
proof -
  obtain e where e: "epochs_epoch es l = Some e"
    using assms is_epoch_link_epoch by blast
  then obtain i where "(e, i) \<in> set es"
    by (auto simp: epochs_epoch_def find_Some_iff) (metis nth_mem)
  then have "map_of es e \<noteq> None" by (metis map_of_eq_None_iff fst_conv image_eqI)
  with e show ?thesis by (auto simp: epochs_signer_def)
qed

lemma is_sequential_greater: "is_sequential e e' \<Longrightarrow> e < e'"
  by (simp add: is_sequential_def word_less_nat_alt)

lemma is_sequential_iff:
  "is_sequential e e' \<longleftrightarrow> epoch_0 \<le> e \<and> e \<noteq> 255 \<and> e' = e + 1"
proof -
  have "unat e' = unat e + 1 \<longleftrightarrow> e \<noteq> 255 \<and> e' = e + 1"
  proof (cases "e = 255")
    case True
    then show ?thesis using unsigned_less [of e', where 'a = nat] by auto
  next
    case False
    then have "unat e \<noteq> unat (255 :: byte)" by (metis word_unat_eq_iff)
    then have "unat e + 1 < 2 ^ LENGTH(8)"
      using unsigned_less [of e, where 'a = nat] by simp
    then have "unat (e + 1) = unat e + 1" by (simp add: unat_add_no_wrap)
    with False show ?thesis by (metis word_unat_eq_iff)
  qed
  then show ?thesis by (auto simp: is_sequential_def word_le_nat_alt)
qed

end
