(* ===== verification/Blocks.thy ===== *)
theory Blocks
  imports Numbers Epochs
begin

unbundle bit_operations_syntax

text \<open>
  \<^verbatim>\<open>lib/blocks.hpp\<close> and \<^verbatim>\<open>lib/blocks.cpp\<close>: the five block classes, their binary form, the
  bytes that are hashed, the sideband that the store keeps with a block, and the accessors
  of the base class.  Each class is a record with the source's fields; a block is a value
  of the \<open>datatype\<close> of the five classes, and a virtual function is a function by cases.
\<close>

section \<open>Block types\<close>

datatype block_type =
  bt_invalid | bt_not_a_block | bt_send | bt_receive | bt_open | bt_change | bt_state

fun block_type_byte :: "block_type \<Rightarrow> byte" where
  "block_type_byte bt_invalid = 0"
| "block_type_byte bt_not_a_block = 1"
| "block_type_byte bt_send = 2"
| "block_type_byte bt_receive = 3"
| "block_type_byte bt_open = 4"
| "block_type_byte bt_change = 5"
| "block_type_byte bt_state = 6"

text \<open>A byte that is not an enumerator takes the default branch of every switch: \<open>None\<close>.\<close>

definition block_type_of_byte :: "byte \<Rightarrow> block_type option" where
  "block_type_of_byte b =
     (if b = 0 then Some bt_invalid else if b = 1 then Some bt_not_a_block
      else if b = 2 then Some bt_send else if b = 3 then Some bt_receive
      else if b = 4 then Some bt_open else if b = 5 then Some bt_change
      else if b = 6 then Some bt_state else None)"

lemma block_type_of_byte_byte [simp]: "block_type_of_byte (block_type_byte t) = Some t"
  by (cases t) (simp_all add: block_type_of_byte_def)

lemma block_type_byte_of_byte: "block_type_of_byte b = Some t \<Longrightarrow> b = block_type_byte t"
  by (auto simp: block_type_of_byte_def split: if_splits)

lemma block_type_byte_inject [simp]: "block_type_byte s = block_type_byte t \<longleftrightarrow> s = t"
  by (metis block_type_of_byte_byte option.inject)

text \<open>The enumerators are compared by their value.\<close>

instantiation block_type :: linorder
begin

definition less_eq_block_type :: "block_type \<Rightarrow> block_type \<Rightarrow> bool" where
  "less_eq_block_type s t \<longleftrightarrow> block_type_byte s \<le> block_type_byte t"

definition less_block_type :: "block_type \<Rightarrow> block_type \<Rightarrow> bool" where
  "less_block_type s t \<longleftrightarrow> block_type_byte s < block_type_byte t"

instance
  by standard (auto simp: less_eq_block_type_def less_block_type_def
      simp flip: block_type_byte_inject)

end

section \<open>The five classes\<close>

record send_hashables =
  send_previous :: block_hash
  send_destination :: account
  send_balance :: amount

record send_block =
  send_h :: send_hashables
  send_signature :: signature
  send_work :: u64

record receive_hashables =
  receive_previous :: block_hash
  receive_source :: block_hash

record receive_block =
  receive_h :: receive_hashables
  receive_signature :: signature
  receive_work :: u64

record open_hashables =
  open_source :: block_hash
  open_representative :: account
  open_account :: account

record open_block =
  open_h :: open_hashables
  open_signature :: signature
  open_work :: u64

record change_hashables =
  change_previous :: block_hash
  change_representative :: account

record change_block =
  change_h :: change_hashables
  change_signature :: signature
  change_work :: u64

record state_hashables =
  state_account :: account
  state_previous :: block_hash
  state_representative :: account
  state_balance :: amount
  state_link :: link

record state_block =
  state_h :: state_hashables
  state_signature :: signature
  state_work :: u64

datatype block =
  Send send_block | Receive receive_block | Open open_block | Change change_block | State state_block

section \<open>Accessors\<close>

fun block_type_of :: "block \<Rightarrow> block_type" where
  "block_type_of (Send b) = bt_send"
| "block_type_of (Receive b) = bt_receive"
| "block_type_of (Open b) = bt_open"
| "block_type_of (Change b) = bt_change"
| "block_type_of (State b) = bt_state"

fun block_previous :: "block \<Rightarrow> block_hash" where
  "block_previous (Send b) = send_previous (send_h b)"
| "block_previous (Receive b) = receive_previous (receive_h b)"
| "block_previous (Open b) = 0"
| "block_previous (Change b) = change_previous (change_h b)"
| "block_previous (State b) = state_previous (state_h b)"

fun block_representative :: "block \<Rightarrow> account" where
  "block_representative (Open b) = open_representative (open_h b)"
| "block_representative (Change b) = change_representative (change_h b)"
| "block_representative (State b) = state_representative (state_h b)"
| "block_representative _ = 0"

fun block_source :: "block \<Rightarrow> block_hash" where
  "block_source (Receive b) = receive_source (receive_h b)"
| "block_source (Open b) = open_source (open_h b)"
| "block_source _ = 0"

fun block_destination :: "block \<Rightarrow> account" where
  "block_destination (Send b) = send_destination (send_h b)"
| "block_destination _ = 0"

fun block_link :: "block \<Rightarrow> link" where
  "block_link (State b) = state_link (state_h b)"
| "block_link _ = 0"

fun block_account :: "block \<Rightarrow> account" where
  "block_account (Open b) = open_account (open_h b)"
| "block_account (State b) = state_account (state_h b)"
| "block_account _ = 0"

fun block_balance :: "block \<Rightarrow> amount" where
  "block_balance (Send b) = send_balance (send_h b)"
| "block_balance (State b) = state_balance (state_h b)"
| "block_balance _ = 0"

definition state_root :: "state_block \<Rightarrow> root" where
  "state_root b =
     (if state_previous (state_h b) \<noteq> 0 then state_previous (state_h b)
      else state_account (state_h b))"

fun block_root :: "block \<Rightarrow> root" where
  "block_root (Send b) = send_previous (send_h b)"
| "block_root (Receive b) = receive_previous (receive_h b)"
| "block_root (Open b) = open_account (open_h b)"
| "block_root (Change b) = change_previous (change_h b)"
| "block_root (State b) = state_root b"

definition block_qualified_root :: "block \<Rightarrow> qualified_root" where
  "block_qualified_root b = (block_root b, block_previous b)"

fun block_signature :: "block \<Rightarrow> signature" where
  "block_signature (Send b) = send_signature b"
| "block_signature (Receive b) = receive_signature b"
| "block_signature (Open b) = open_signature b"
| "block_signature (Change b) = change_signature b"
| "block_signature (State b) = state_signature b"

fun block_work :: "block \<Rightarrow> u64" where
  "block_work (Send b) = send_work b"
| "block_work (Receive b) = receive_work b"
| "block_work (Open b) = open_work b"
| "block_work (Change b) = change_work b"
| "block_work (State b) = state_work b"

text \<open>
  Which type of block may precede a block of each class.
\<close>

definition send_valid_predecessor :: "block \<Rightarrow> bool" where
  "send_valid_predecessor b =
     (case block_type_of b of
        bt_send \<Rightarrow> True | bt_receive \<Rightarrow> True | bt_open \<Rightarrow> True | bt_change \<Rightarrow> True | _ \<Rightarrow> False)"

definition receive_valid_predecessor :: "block \<Rightarrow> bool" where
  "receive_valid_predecessor b =
     (case block_type_of b of
        bt_send \<Rightarrow> True | bt_receive \<Rightarrow> True | bt_open \<Rightarrow> True | bt_change \<Rightarrow> True | _ \<Rightarrow> False)"

definition change_valid_predecessor :: "block \<Rightarrow> bool" where
  "change_valid_predecessor b =
     (case block_type_of b of
        bt_send \<Rightarrow> True | bt_receive \<Rightarrow> True | bt_open \<Rightarrow> True | bt_change \<Rightarrow> True | _ \<Rightarrow> False)"

fun valid_predecessor :: "block \<Rightarrow> block \<Rightarrow> bool" where
  "valid_predecessor (Send _) b = send_valid_predecessor b"
| "valid_predecessor (Receive _) b = receive_valid_predecessor b"
| "valid_predecessor (Open _) b = False"
| "valid_predecessor (Change _) b = change_valid_predecessor b"
| "valid_predecessor (State _) b = True"

section \<open>Equality\<close>

definition send_equal :: "send_block \<Rightarrow> send_block \<Rightarrow> bool" where
  "send_equal a b \<longleftrightarrow>
     send_destination (send_h a) = send_destination (send_h b) \<and>
     send_previous (send_h a) = send_previous (send_h b) \<and>
     send_balance (send_h a) = send_balance (send_h b) \<and>
     send_work a = send_work b \<and> send_signature a = send_signature b"

definition receive_equal :: "receive_block \<Rightarrow> receive_block \<Rightarrow> bool" where
  "receive_equal a b \<longleftrightarrow>
     receive_previous (receive_h a) = receive_previous (receive_h b) \<and>
     receive_source (receive_h a) = receive_source (receive_h b) \<and>
     receive_work a = receive_work b \<and> receive_signature a = receive_signature b"

definition open_equal :: "open_block \<Rightarrow> open_block \<Rightarrow> bool" where
  "open_equal a b \<longleftrightarrow>
     open_source (open_h a) = open_source (open_h b) \<and>
     open_representative (open_h a) = open_representative (open_h b) \<and>
     open_account (open_h a) = open_account (open_h b) \<and>
     open_work a = open_work b \<and> open_signature a = open_signature b"

definition change_equal :: "change_block \<Rightarrow> change_block \<Rightarrow> bool" where
  "change_equal a b \<longleftrightarrow>
     change_previous (change_h a) = change_previous (change_h b) \<and>
     change_representative (change_h a) = change_representative (change_h b) \<and>
     change_work a = change_work b \<and> change_signature a = change_signature b"

definition state_equal :: "state_block \<Rightarrow> state_block \<Rightarrow> bool" where
  "state_equal a b \<longleftrightarrow>
     state_account (state_h a) = state_account (state_h b) \<and>
     state_previous (state_h a) = state_previous (state_h b) \<and>
     state_representative (state_h a) = state_representative (state_h b) \<and>
     state_balance (state_h a) = state_balance (state_h b) \<and>
     state_link (state_h a) = state_link (state_h b) \<and>
     state_signature a = state_signature b \<and> state_work a = state_work b"

text \<open>\<open>blocks_equal\<close> compares the types first and then the contents.\<close>

fun blocks_equal :: "block \<Rightarrow> block \<Rightarrow> bool" where
  "blocks_equal (Send a) (Send b) = send_equal a b"
| "blocks_equal (Receive a) (Receive b) = receive_equal a b"
| "blocks_equal (Open a) (Open b) = open_equal a b"
| "blocks_equal (Change a) (Change b) = change_equal a b"
| "blocks_equal (State a) (State b) = state_equal a b"
| "blocks_equal _ _ = False"

lemma blocks_equal_iff: "blocks_equal a b \<longleftrightarrow> a = b"
  by (cases a; cases b)
    (auto simp: send_equal_def receive_equal_def open_equal_def change_equal_def state_equal_def)

end
