(* ===== verification/Block_Codec.thy ===== *)
theory Block_Codec
  imports Blocks Std_Text
begin

unbundle bit_operations_syntax

text \<open>
  The binary form of the blocks (\<^verbatim>\<open>lib/blocks.cpp\<close>): \<open>serialize\<close>, the stream constructors,
  \<open>deserialize\<close>, the bytes fed to the hash, \<open>block_details\<close> and \<open>block_sideband\<close>.  Every
  class is shown to be a strict codec: the reader undoes the writer, accepts nothing else
  and consumes the number of bytes the class announces.
\<close>

section \<open>Sizes\<close>

definition send_size :: nat where
  "send_size = (32 + 32 + 16) + 64 + 8"

definition receive_size :: nat where
  "receive_size = (32 + 32) + 64 + 8"

definition open_size :: nat where
  "open_size = (32 + 32 + 32) + 64 + 8"

definition change_size :: nat where
  "change_size = (32 + 32) + 64 + 8"

definition state_size :: nat where
  "state_size = (32 + 32 + 32 + 16 + 32) + 64 + 8"

definition block_size :: "block_type \<Rightarrow> nat" where
  "block_size type_a =
     (case type_a of
        bt_invalid \<Rightarrow> 0 | bt_not_a_block \<Rightarrow> 0 | bt_send \<Rightarrow> send_size | bt_receive \<Rightarrow> receive_size
      | bt_change \<Rightarrow> change_size | bt_open \<Rightarrow> open_size | bt_state \<Rightarrow> state_size)"

lemmas size_defs = send_size_def receive_size_def open_size_def change_size_def state_size_def

section \<open>Writers\<close>

text \<open>The work of a state block is written big endian, that of the other classes as it is in memory.\<close>

definition send_serialize :: "send_block \<Rightarrow> byte list" where
  "send_serialize b =
     write_be (send_previous (send_h b)) @ write_be (send_destination (send_h b)) @
     write_be (send_balance (send_h b)) @ write_be (send_signature b) @ write_le (send_work b)"

definition receive_serialize :: "receive_block \<Rightarrow> byte list" where
  "receive_serialize b =
     write_be (receive_previous (receive_h b)) @ write_be (receive_source (receive_h b)) @
     write_be (receive_signature b) @ write_le (receive_work b)"

definition open_serialize :: "open_block \<Rightarrow> byte list" where
  "open_serialize b =
     write_be (open_source (open_h b)) @ write_be (open_representative (open_h b)) @
     write_be (open_account (open_h b)) @ write_be (open_signature b) @ write_le (open_work b)"

definition change_serialize :: "change_block \<Rightarrow> byte list" where
  "change_serialize b =
     write_be (change_previous (change_h b)) @ write_be (change_representative (change_h b)) @
     write_be (change_signature b) @ write_le (change_work b)"

definition state_serialize :: "state_block \<Rightarrow> byte list" where
  "state_serialize b =
     write_be (state_account (state_h b)) @ write_be (state_previous (state_h b)) @
     write_be (state_representative (state_h b)) @ write_be (state_balance (state_h b)) @
     write_be (state_link (state_h b)) @ write_be (state_signature b) @ write_be (state_work b)"

fun block_serialize :: "block \<Rightarrow> byte list" where
  "block_serialize (Send b) = send_serialize b"
| "block_serialize (Receive b) = receive_serialize b"
| "block_serialize (Open b) = open_serialize b"
| "block_serialize (Change b) = change_serialize b"
| "block_serialize (State b) = state_serialize b"

text \<open>\<open>serialize_block\<close> of \<^verbatim>\<open>secure/common.cpp\<close> writes the type in front.\<close>

definition serialize_block :: "block \<Rightarrow> byte list" where
  "serialize_block b = write_be (block_type_byte (block_type_of b)) @ block_serialize b"

section \<open>Readers\<close>

text \<open>
  A stream constructor reads the hashables, then the signature and the work.  The
  constructors set an error flag; the model returns \<open>None\<close>.
\<close>

definition send_hashables_read :: "send_hashables reader" where
  "send_hashables_read s =
     (do { (previous, s) \<leftarrow> read_be s;
           (destination, s) \<leftarrow> read_be s;
           (balance, s) \<leftarrow> read_be s;
           Some (\<lparr>send_previous = previous, send_destination = destination,
                  send_balance = balance\<rparr>, s) })"

definition send_read :: "send_block reader" where
  "send_read s =
     (do { (hashables, s) \<leftarrow> send_hashables_read s;
           (signature, s) \<leftarrow> read_be s;
           (work, s) \<leftarrow> read_le s;
           Some (\<lparr>send_h = hashables, send_signature = signature, send_work = work\<rparr>, s) })"

definition receive_hashables_read :: "receive_hashables reader" where
  "receive_hashables_read s =
     (do { (previous, s) \<leftarrow> read_be s;
           (source, s) \<leftarrow> read_be s;
           Some (\<lparr>receive_previous = previous, receive_source = source\<rparr>, s) })"

definition receive_read :: "receive_block reader" where
  "receive_read s =
     (do { (hashables, s) \<leftarrow> receive_hashables_read s;
           (signature, s) \<leftarrow> read_be s;
           (work, s) \<leftarrow> read_le s;
           Some (\<lparr>receive_h = hashables, receive_signature = signature, receive_work = work\<rparr>, s) })"

definition open_hashables_read :: "open_hashables reader" where
  "open_hashables_read s =
     (do { (source, s) \<leftarrow> read_be s;
           (representative, s) \<leftarrow> read_be s;
           (acct, s) \<leftarrow> read_be s;
           Some (\<lparr>open_source = source, open_representative = representative,
                  open_account = acct\<rparr>, s) })"

definition open_read :: "open_block reader" where
  "open_read s =
     (do { (hashables, s) \<leftarrow> open_hashables_read s;
           (signature, s) \<leftarrow> read_be s;
           (work, s) \<leftarrow> read_le s;
           Some (\<lparr>open_h = hashables, open_signature = signature, open_work = work\<rparr>, s) })"

definition change_hashables_read :: "change_hashables reader" where
  "change_hashables_read s =
     (do { (previous, s) \<leftarrow> read_be s;
           (representative, s) \<leftarrow> read_be s;
           Some (\<lparr>change_previous = previous, change_representative = representative\<rparr>, s) })"

definition change_read :: "change_block reader" where
  "change_read s =
     (do { (hashables, s) \<leftarrow> change_hashables_read s;
           (signature, s) \<leftarrow> read_be s;
           (work, s) \<leftarrow> read_le s;
           Some (\<lparr>change_h = hashables, change_signature = signature, change_work = work\<rparr>, s) })"

definition state_hashables_read :: "state_hashables reader" where
  "state_hashables_read s =
     (do { (acct, s) \<leftarrow> read_be s;
           (previous, s) \<leftarrow> read_be s;
           (representative, s) \<leftarrow> read_be s;
           (balance, s) \<leftarrow> read_be s;
           (link, s) \<leftarrow> read_be s;
           Some (\<lparr>state_account = acct, state_previous = previous,
                  state_representative = representative, state_balance = balance,
                  state_link = link\<rparr>, s) })"

definition state_read :: "state_block reader" where
  "state_read s =
     (do { (hashables, s) \<leftarrow> state_hashables_read s;
           (signature, s) \<leftarrow> read_be s;
           (work, s) \<leftarrow> read_be s;
           Some (\<lparr>state_h = hashables, state_signature = signature, state_work = work\<rparr>, s) })"

text \<open>The member function \<open>deserialize\<close> of each class reads all fields in one go.\<close>

definition send_deserialize :: "send_block reader" where
  "send_deserialize s =
     (do { (previous, s) \<leftarrow> read_be s;
           (destination, s) \<leftarrow> read_be s;
           (balance, s) \<leftarrow> read_be s;
           (signature, s) \<leftarrow> read_be s;
           (work, s) \<leftarrow> read_le s;
           Some (\<lparr>send_h = \<lparr>send_previous = previous, send_destination = destination,
                            send_balance = balance\<rparr>,
                  send_signature = signature, send_work = work\<rparr>, s) })"

definition receive_deserialize :: "receive_block reader" where
  "receive_deserialize s =
     (do { (previous, s) \<leftarrow> read_be s;
           (source, s) \<leftarrow> read_be s;
           (signature, s) \<leftarrow> read_be s;
           (work, s) \<leftarrow> read_le s;
           Some (\<lparr>receive_h = \<lparr>receive_previous = previous, receive_source = source\<rparr>,
                  receive_signature = signature, receive_work = work\<rparr>, s) })"

definition open_deserialize :: "open_block reader" where
  "open_deserialize s =
     (do { (source, s) \<leftarrow> read_be s;
           (representative, s) \<leftarrow> read_be s;
           (acct, s) \<leftarrow> read_be s;
           (signature, s) \<leftarrow> read_be s;
           (work, s) \<leftarrow> read_le s;
           Some (\<lparr>open_h = \<lparr>open_source = source, open_representative = representative,
                            open_account = acct\<rparr>,
                  open_signature = signature, open_work = work\<rparr>, s) })"

definition change_deserialize :: "change_block reader" where
  "change_deserialize s =
     (do { (previous, s) \<leftarrow> read_be s;
           (representative, s) \<leftarrow> read_be s;
           (signature, s) \<leftarrow> read_be s;
           (work, s) \<leftarrow> read_le s;
           Some (\<lparr>change_h = \<lparr>change_previous = previous,
                              change_representative = representative\<rparr>,
                  change_signature = signature, change_work = work\<rparr>, s) })"

definition state_deserialize :: "state_block reader" where
  "state_deserialize s =
     (do { (acct, s) \<leftarrow> read_be s;
           (previous, s) \<leftarrow> read_be s;
           (representative, s) \<leftarrow> read_be s;
           (balance, s) \<leftarrow> read_be s;
           (link, s) \<leftarrow> read_be s;
           (signature, s) \<leftarrow> read_be s;
           (work, s) \<leftarrow> read_be s;
           Some (\<lparr>state_h = \<lparr>state_account = acct, state_previous = previous,
                              state_representative = representative, state_balance = balance,
                              state_link = link\<rparr>,
                  state_signature = signature, state_work = work\<rparr>, s) })"

text \<open>
  The free function \<open>deserialize_block\<close>, with a given type and with the type in front of
  the stream.  Types without a class give the null pointer.
\<close>

definition deserialize_block_typed :: "block_type \<Rightarrow> block reader" where
  "deserialize_block_typed type_a s =
     (case type_a of
        bt_receive \<Rightarrow> map_option (map_prod Receive id) (receive_read s)
      | bt_send \<Rightarrow> map_option (map_prod Send id) (send_read s)
      | bt_open \<Rightarrow> map_option (map_prod Open id) (open_read s)
      | bt_change \<Rightarrow> map_option (map_prod Change id) (change_read s)
      | bt_state \<Rightarrow> map_option (map_prod State id) (state_read s)
      | _ \<Rightarrow> None)"

definition deserialize_block :: "block reader" where
  "deserialize_block s =
     (do { (b, s) \<leftarrow> read_be s;
           type_a \<leftarrow> block_type_of_byte b;
           deserialize_block_typed type_a s })"

lemmas write_defs =
  send_serialize_def receive_serialize_def open_serialize_def change_serialize_def
  state_serialize_def

lemmas read_defs =
  send_hashables_read_def send_read_def receive_hashables_read_def receive_read_def
  open_hashables_read_def open_read_def change_hashables_read_def change_read_def
  state_hashables_read_def state_read_def

lemmas deserialize_defs =
  send_deserialize_def receive_deserialize_def open_deserialize_def change_deserialize_def
  state_deserialize_def

text \<open>The two readers of a class are the same function.\<close>

lemma read_eq_deserialize:
  "send_read = send_deserialize" "receive_read = receive_deserialize"
  "open_read = open_deserialize" "change_read = change_deserialize"
  "state_read = state_deserialize"
  by (rule ext, simp add: read_defs deserialize_defs split: bind_splits prod.splits)+

section \<open>The classes are strict codecs\<close>

interpretation send_codec: strict_codec send_serialize send_read "\<lambda>_. True" send_size
  by unfold_locales
    (simp_all add: write_defs read_defs codec_simps size_defs,
      auto simp: bind_eq_Some dest!: word_enc_dec,
      simp add: read_be_take read_le_take)

interpretation receive_codec: strict_codec receive_serialize receive_read "\<lambda>_. True" receive_size
  by unfold_locales
    (simp_all add: write_defs read_defs codec_simps size_defs,
      auto simp: bind_eq_Some dest!: word_enc_dec,
      simp add: read_be_take read_le_take)

interpretation open_codec: strict_codec open_serialize open_read "\<lambda>_. True" open_size
  by unfold_locales
    (simp_all add: write_defs read_defs codec_simps size_defs,
      auto simp: bind_eq_Some dest!: word_enc_dec,
      simp add: read_be_take read_le_take)

interpretation change_codec: strict_codec change_serialize change_read "\<lambda>_. True" change_size
  by unfold_locales
    (simp_all add: write_defs read_defs codec_simps size_defs,
      auto simp: bind_eq_Some dest!: word_enc_dec,
      simp add: read_be_take read_le_take)

interpretation state_codec: strict_codec state_serialize state_read "\<lambda>_. True" state_size
  by unfold_locales
    (simp_all add: write_defs read_defs codec_simps size_defs,
      auto simp: bind_eq_Some dest!: word_enc_dec,
      simp add: read_be_take read_le_take)

lemmas class_dec_enc [codec_simps] =
  send_codec.dec_enc [OF TrueI] receive_codec.dec_enc [OF TrueI] open_codec.dec_enc [OF TrueI]
  change_codec.dec_enc [OF TrueI] state_codec.dec_enc [OF TrueI]

lemmas class_enc_dec =
  send_codec.enc_dec receive_codec.enc_dec open_codec.enc_dec change_codec.enc_dec
  state_codec.enc_dec

lemmas class_length =
  send_codec.length_enc receive_codec.length_enc open_codec.length_enc change_codec.length_enc
  state_codec.length_enc

lemmas class_None =
  send_codec.dec_None_iff receive_codec.dec_None_iff open_codec.dec_None_iff
  change_codec.dec_None_iff state_codec.dec_None_iff

text \<open>Blocks of all classes, with the type in front.\<close>

lemma length_block_serialize: "length (block_serialize b) = block_size (block_type_of b)"
  by (cases b) (simp_all add: class_length block_size_def)

lemma deserialize_typed_serialize [codec_simps]:
  "deserialize_block_typed (block_type_of b) (block_serialize b @ s) = Some (b, s)"
  by (cases b) (simp_all add: deserialize_block_typed_def codec_simps)

lemma serialize_deserialize_typed:
  assumes "deserialize_block_typed t s = Some (b, r)"
  shows "t = block_type_of b \<and> s = block_serialize b @ r"
  using assms
  by (cases t) (auto simp: deserialize_block_typed_def dest!: class_enc_dec)

lemma deserialize_typed_None:
  "deserialize_block_typed t s = None \<longleftrightarrow>
     t = bt_invalid \<or> t = bt_not_a_block \<or> length s < block_size t"
  by (cases t) (simp_all add: deserialize_block_typed_def class_None block_size_def)

interpretation block_codec: codec serialize_block deserialize_block "\<lambda>_. True"
  by unfold_locales (simp add: serialize_block_def deserialize_block_def codec_simps)

lemma serialize_deserialize_block:
  assumes "deserialize_block s = Some (b, r)"
  shows "s = serialize_block b @ r"
  using assms unfolding deserialize_block_def serialize_block_def
  by (auto simp: bind_eq_Some dest!: be8.enc_dec serialize_deserialize_typed
      block_type_byte_of_byte)

section \<open>Hashing\<close>

definition send_hashables_hash :: "send_hashables \<Rightarrow> byte list" where
  "send_hashables_hash h =
     write_be (send_previous h) @ write_be (send_destination h) @ write_be (send_balance h)"

definition receive_hashables_hash :: "receive_hashables \<Rightarrow> byte list" where
  "receive_hashables_hash h = write_be (receive_previous h) @ write_be (receive_source h)"

definition open_hashables_hash :: "open_hashables \<Rightarrow> byte list" where
  "open_hashables_hash h =
     write_be (open_source h) @ write_be (open_representative h) @ write_be (open_account h)"

definition change_hashables_hash :: "change_hashables \<Rightarrow> byte list" where
  "change_hashables_hash h = write_be (change_previous h) @ write_be (change_representative h)"

definition state_hashables_hash :: "state_hashables \<Rightarrow> byte list" where
  "state_hashables_hash h =
     write_be (state_account h) @ write_be (state_previous h) @
     write_be (state_representative h) @ write_be (state_balance h) @ write_be (state_link h)"

text \<open>The hash of a state block is preceded by the block type as a 256 bit number.\<close>

definition state_hash :: "state_block \<Rightarrow> byte list" where
  "state_hash b =
     write_be (ucast (block_type_byte bt_state) :: u256) @ state_hashables_hash (state_h b)"

fun block_hash_input :: "block \<Rightarrow> byte list" where
  "block_hash_input (Send b) = send_hashables_hash (send_h b)"
| "block_hash_input (Receive b) = receive_hashables_hash (receive_h b)"
| "block_hash_input (Open b) = open_hashables_hash (open_h b)"
| "block_hash_input (Change b) = change_hashables_hash (change_h b)"
| "block_hash_input (State b) = state_hash b"

definition generate_hash :: "crypto \<Rightarrow> block \<Rightarrow> block_hash" where
  "generate_hash c b = word_of_be (blake2b c 32 (block_hash_input b))"

definition full_hash :: "crypto \<Rightarrow> block \<Rightarrow> block_hash" where
  "full_hash c b =
     word_of_be (blake2b c 32
       (write_be (generate_hash c b) @ write_be (block_signature b) @ write_le (block_work b)))"

lemmas hash_defs =
  send_hashables_hash_def receive_hashables_hash_def open_hashables_hash_def
  change_hashables_hash_def state_hashables_hash_def state_hash_def

text \<open>The bytes hashed for two blocks of one class are equal only for equal hashables.\<close>

lemma write_be_256_inject [simp]: "write_be (x :: u256) = write_be y \<longleftrightarrow> x = y"
  by (simp add: be256.enc_inject)

lemma write_be_128_inject [simp]: "write_be (x :: u128) = write_be y \<longleftrightarrow> x = y"
  by (simp add: be128.enc_inject)

fun same_hashables :: "block \<Rightarrow> block \<Rightarrow> bool" where
  "same_hashables (Send a) (Send b) = (send_h a = send_h b)"
| "same_hashables (Receive a) (Receive b) = (receive_h a = receive_h b)"
| "same_hashables (Open a) (Open b) = (open_h a = open_h b)"
| "same_hashables (Change a) (Change b) = (change_h a = change_h b)"
| "same_hashables (State a) (State b) = (state_h a = state_h b)"
| "same_hashables _ _ = False"

lemma hashables_hash_inject:
  "send_hashables_hash s = send_hashables_hash s' \<longleftrightarrow> s = s'"
  "receive_hashables_hash r = receive_hashables_hash r' \<longleftrightarrow> r = r'"
  "open_hashables_hash p = open_hashables_hash p' \<longleftrightarrow> p = p'"
  "change_hashables_hash g = change_hashables_hash g' \<longleftrightarrow> g = g'"
  "state_hashables_hash t = state_hashables_hash t' \<longleftrightarrow> t = t'"
  by (auto simp: hash_defs)

lemma length_hashables_hash [simp]:
  "length (send_hashables_hash s) = 80" "length (receive_hashables_hash r) = 64"
  "length (open_hashables_hash p) = 96" "length (change_hashables_hash g) = 64"
  "length (state_hashables_hash t) = 144" "length (state_hash b) = 176"
  by (simp_all add: hash_defs)

lemma block_hash_input_cases:
  assumes "block_hash_input a = block_hash_input b"
  shows "same_hashables a b \<or> {block_type_of a, block_type_of b} = {bt_receive, bt_change}"
proof (cases "block_type_of a = block_type_of b")
  case True
  with assms show ?thesis
    by (cases a; cases b) (auto simp: hashables_hash_inject state_hash_def)
next
  case False
  from arg_cong [OF assms, of length] False show ?thesis
    by (cases a; cases b) auto
qed

section \<open>Block details\<close>

record block_details =
  bd_epoch :: epoch
  bd_is_send :: bool
  bd_is_receive :: bool
  bd_is_epoch :: bool

definition block_details_default :: block_details where
  "block_details_default =
     \<lparr>bd_epoch = epoch_0, bd_is_send = False, bd_is_receive = False, bd_is_epoch = False\<rparr>"

text \<open>\<open>std::bitset::set\<close> with a value.\<close>

definition bitset_set :: "nat \<Rightarrow> bool \<Rightarrow> byte \<Rightarrow> byte" where
  "bitset_set n v w = (if v then set_bit n w else unset_bit n w)"

definition details_packed :: "block_details \<Rightarrow> byte" where
  "details_packed d =
     bitset_set 5 (bd_is_epoch d)
       (bitset_set 6 (bd_is_receive d) (bitset_set 7 (bd_is_send d) (bd_epoch d)))"

definition details_unpack :: "byte \<Rightarrow> block_details" where
  "details_unpack details_a =
     \<lparr>bd_epoch = details_a AND 0x1f, bd_is_send = bit details_a 7,
      bd_is_receive = bit details_a 6, bd_is_epoch = bit details_a 5\<rparr>"

definition details_serialize :: "block_details \<Rightarrow> byte list" where
  "details_serialize d = write_be (details_packed d)"

definition details_deserialize :: "block_details reader" where
  "details_deserialize s = (do { (packed, s) \<leftarrow> read_be s; Some (details_unpack packed, s) })"

definition state_subtype :: "block_details \<Rightarrow> string" where
  "state_subtype d =
     (if bd_is_send d then ''send'' else if bd_is_receive d then ''receive''
      else if bd_is_epoch d then ''epoch'' else ''change'')"

lemma and_mask_5: "(w :: byte) AND 0x1f = take_bit 5 w"
  by (rule and_31)

lemma details_unpack_packed:
  assumes "bd_epoch d < 32"
  shows "details_unpack (details_packed d) = d"
proof -
  have "take_bit 5 (bd_epoch d) = bd_epoch d"
    using assms by (intro word_eqI_unat, simp only: unsigned_take_bit_eq)
      (simp add: take_bit_nat_eq_self word_less_nat_alt)
  then have b: "bit (bd_epoch d) i \<Longrightarrow> i < 5" for i by (metis bit_take_bit_iff)
  have "details_packed d AND 0x1f = bd_epoch d"
    unfolding and_mask_5
    by (rule bit_word_eqI) (auto simp: details_packed_def bitset_set_def bit_simps dest: b)
  moreover have "bit (details_packed d) 7 = bd_is_send d" "bit (details_packed d) 6 = bd_is_receive d"
    "bit (details_packed d) 5 = bd_is_epoch d"
    by (simp_all add: details_packed_def bitset_set_def bit_set_bit_iff bit_unset_bit_iff)
  ultimately show ?thesis by (simp add: details_unpack_def)
qed

lemma details_packed_unpack: "details_packed (details_unpack w) = w"
  unfolding details_packed_def details_unpack_def bitset_set_def and_mask_5
  by (rule bit_word_eqI) (auto simp: bit_simps less_Suc_eq numeral_eq_Suc)

section \<open>The sideband\<close>

record block_sideband =
  sb_successor :: block_hash
  sb_account :: account
  sb_balance :: amount
  sb_height :: u64
  sb_timestamp :: u64
  sb_details :: block_details
  sb_source_epoch :: epoch

definition block_sideband_default :: block_sideband where
  "block_sideband_default =
     \<lparr>sb_successor = 0, sb_account = 0, sb_balance = 0, sb_height = 0, sb_timestamp = 0,
      sb_details = block_details_default, sb_source_epoch = epoch_0\<rparr>"

definition sideband_size :: "block_type \<Rightarrow> nat" where
  "sideband_size type_a =
     32 + (if type_a \<noteq> bt_state \<and> type_a \<noteq> bt_open then 32 else 0) +
     (if type_a \<noteq> bt_open then 8 else 0) +
     (if type_a = bt_receive \<or> type_a = bt_change \<or> type_a = bt_open then 16 else 0) + 8 +
     (if type_a = bt_state then 1 + 1 else 0)"

definition sideband_serialize :: "block_type \<Rightarrow> block_sideband \<Rightarrow> byte list" where
  "sideband_serialize type_a sb =
     write_be (sb_successor sb) @
     (if type_a \<noteq> bt_state \<and> type_a \<noteq> bt_open then write_be (sb_account sb) else []) @
     (if type_a \<noteq> bt_open then write_be (sb_height sb) else []) @
     (if type_a = bt_receive \<or> type_a = bt_change \<or> type_a = bt_open
      then write_be (sb_balance sb) else []) @
     write_be (sb_timestamp sb) @
     (if type_a = bt_state
      then details_serialize (sb_details sb) @ write_be (sb_source_epoch sb) else [])"

text \<open>The reader fills a default constructed object; fields that are not stored keep their default.\<close>

definition sideband_deserialize :: "block_type \<Rightarrow> block_sideband reader" where
  "sideband_deserialize type_a s =
     (do { (successor, s) \<leftarrow> read_be s;
           (acct, s) \<leftarrow> (if type_a \<noteq> bt_state \<and> type_a \<noteq> bt_open then read_be s
                        else Some (sb_account block_sideband_default, s));
           (height, s) \<leftarrow> (if type_a \<noteq> bt_open then read_be s else Some (1, s));
           (balance, s) \<leftarrow> (if type_a = bt_receive \<or> type_a = bt_change \<or> type_a = bt_open
                           then read_be s else Some (sb_balance block_sideband_default, s));
           (timestamp, s) \<leftarrow> read_be s;
           (details, source_epoch, s) \<leftarrow>
             (if type_a = bt_state then
                do { (d, s) \<leftarrow> details_deserialize s; (e, s) \<leftarrow> read_be s; Some (d, e, s) }
              else Some (sb_details block_sideband_default,
                         sb_source_epoch block_sideband_default, s));
           Some (\<lparr>sb_successor = successor, sb_account = acct, sb_balance = balance,
                  sb_height = height, sb_timestamp = timestamp, sb_details = details,
                  sb_source_epoch = source_epoch\<rparr>, s) })"

text \<open>What the store returns for a sideband of a block of the given type.\<close>

definition sideband_stored :: "block_type \<Rightarrow> block_sideband \<Rightarrow> block_sideband" where
  "sideband_stored type_a sb =
     \<lparr>sb_successor = sb_successor sb,
      sb_account = (if type_a = bt_state \<or> type_a = bt_open then 0 else sb_account sb),
      sb_balance = (if type_a = bt_receive \<or> type_a = bt_change \<or> type_a = bt_open
                    then sb_balance sb else 0),
      sb_height = (if type_a = bt_open then 1 else sb_height sb),
      sb_timestamp = sb_timestamp sb,
      sb_details = (if type_a = bt_state then details_unpack (details_packed (sb_details sb))
                    else block_details_default),
      sb_source_epoch = (if type_a = bt_state then sb_source_epoch sb else epoch_0)\<rparr>"

definition sideband_ok :: "block_type \<Rightarrow> block_sideband \<Rightarrow> bool" where
  "sideband_ok type_a sb \<longleftrightarrow> sideband_stored type_a sb = sb"

lemma length_sideband_serialize: "length (sideband_serialize t sb) = sideband_size t"
  by (cases t) (simp_all add: sideband_serialize_def sideband_size_def details_serialize_def)

lemma sideband_deserialize_serialize [codec_simps]:
  "sideband_deserialize t (sideband_serialize t sb @ s) = Some (sideband_stored t sb, s)"
  by (cases t)
    (simp_all add: sideband_serialize_def sideband_deserialize_def sideband_stored_def
      details_serialize_def details_deserialize_def block_sideband_default_def codec_simps)

interpretation sideband_codec: codec "sideband_serialize t" "sideband_deserialize t" "sideband_ok t"
  for t
  by unfold_locales (simp add: codec_simps sideband_ok_def)

lemma sideband_stored_idem [simp]: "sideband_stored t (sideband_stored t sb) = sideband_stored t sb"
  by (simp add: sideband_stored_def details_packed_unpack)

lemma sideband_ok_stored [simp]: "sideband_ok t (sideband_stored t sb)"
  by (simp add: sideband_ok_def)

lemma sideband_stored_successor [simp]:
  "sb_successor (sideband_stored t sb) = sb_successor sb"
  "sideband_stored t (sb\<lparr>sb_successor := h\<rparr>) = (sideband_stored t sb)\<lparr>sb_successor := h\<rparr>"
  by (simp_all add: sideband_stored_def)

text \<open>The successor is the first field: overwriting it is overwriting the first 32 bytes.\<close>

lemma sideband_serialize_successor:
  "write_be h @ drop 32 (sideband_serialize t sb) = sideband_serialize t (sb\<lparr>sb_successor := h\<rparr>)"
  by (simp add: sideband_serialize_def)

lemma sideband_deserialize_None:
  "sideband_deserialize t s = None \<longleftrightarrow> length s < sideband_size t"
proof (cases "length s < sideband_size t")
  case True
  have "sideband_deserialize t s = None"
  proof (rule ccontr)
    assume "sideband_deserialize t s \<noteq> None"
    then obtain sb r where "sideband_deserialize t s = Some (sb, r)" by fastforce
    then have "sideband_size t \<le> length s"
      by (cases t) (auto simp: sideband_deserialize_def details_deserialize_def sideband_size_def
          bind_eq_Some dest!: word_enc_dec)
    with True show False by simp
  qed
  with True show ?thesis by simp
next
  case False
  then have "sideband_deserialize t s \<noteq> None"
    by (cases t) (simp_all add: sideband_deserialize_def details_deserialize_def sideband_size_def
        read_be_take)
  with False show ?thesis by simp
qed

section \<open>Properties\<close>

text \<open>
  C35: the binary form of a block with its type is exact.  \<open>deserialize_block\<close> returns a block
  and the rest of the stream on those streams, and only on those, that begin with the bytes
  that \<open>serialize_block\<close> writes for the block.
\<close>

theorem block_binary_exact: "deserialize_block s = Some (b, r) \<longleftrightarrow> s = serialize_block b @ r"
  using serialize_deserialize_block [of s b r] block_codec.dec_enc [OF TrueI, of b r] by auto

text \<open>
  A reader of a block class fails exactly when the type is not a block type or the
  stream is shorter than \<open>block::size\<close>, and \<open>serialize\<close> writes \<open>block::size\<close> bytes.
\<close>

theorem block_binary_size:
  "(deserialize_block_typed t s = None \<longleftrightarrow>
      t = bt_invalid \<or> t = bt_not_a_block \<or> length s < block_size t) \<and>
   length (block_serialize b) = block_size (block_type_of b)"
  by (simp add: deserialize_typed_None length_block_serialize)

text \<open>
  C36: a sideband written for a block type is read back: the fields that the type stores are
  unchanged, given an epoch that fits its five bits; \<open>sideband::size\<close> bytes are written.
\<close>

theorem sideband_round_trip:
  assumes "bd_epoch (sb_details sb) < 32"
  shows "length (sideband_serialize t sb) = sideband_size t \<and>
    (\<exists>sb'. sideband_deserialize t (sideband_serialize t sb @ s) = Some (sb', s) \<and>
       sb_successor sb' = sb_successor sb \<and> sb_timestamp sb' = sb_timestamp sb \<and>
       (t \<noteq> bt_open \<longrightarrow> sb_height sb' = sb_height sb) \<and>
       (t \<noteq> bt_state \<and> t \<noteq> bt_open \<longrightarrow> sb_account sb' = sb_account sb) \<and>
       (t \<in> {bt_receive, bt_change, bt_open} \<longrightarrow> sb_balance sb' = sb_balance sb) \<and>
       (t = bt_state \<longrightarrow> sb_details sb' = sb_details sb \<and> sb_source_epoch sb' = sb_source_epoch sb))"
  using details_unpack_packed [OF assms]
  by (auto simp: length_sideband_serialize sideband_deserialize_serialize sideband_stored_def)

theorem sideband_round_trip_witness:
  "length (sideband_serialize bt_state (block_sideband_default\<lparr>sb_details := details_unpack 3\<rparr>)) =
     sideband_size bt_state"
proof -
  have "bd_epoch (sb_details (block_sideband_default\<lparr>sb_details := details_unpack 3\<rparr>)) < 32"
    by (simp add: details_unpack_def)
  from sideband_round_trip [OF this, of bt_state "[]"] show ?thesis by blast
qed

text \<open>
  C37: the bytes hashed for a block determine its hashed fields.  Two blocks with the same
  bytes have the same type and fields, except that a receive and a change block, which both
  hash 64 bytes without a type, can share them.
\<close>

theorem block_hash_input_exact:
  assumes "block_hash_input a = block_hash_input b"
  shows "same_hashables a b \<or> {block_type_of a, block_type_of b} = {bt_receive, bt_change}"
  by (rule block_hash_input_cases [OF assms])

definition sample_receive :: receive_block where
  "sample_receive =
     \<lparr>receive_h = \<lparr>receive_previous = 1, receive_source = 2\<rparr>, receive_signature = 0, receive_work = 0\<rparr>"

definition sample_change :: change_block where
  "sample_change =
     \<lparr>change_h = \<lparr>change_previous = 1, change_representative = 2\<rparr>, change_signature = 0,
      change_work = 0\<rparr>"

theorem block_hash_input_exact_witness:
  "block_hash_input (Receive sample_receive) = block_hash_input (Change sample_change) \<and>
   {block_type_of (Receive sample_receive), block_type_of (Change sample_change)} =
     {bt_receive, bt_change}"
proof
  show e: "block_hash_input (Receive sample_receive) = block_hash_input (Change sample_change)"
    by (simp add: sample_receive_def sample_change_def hash_defs)
  show "{block_type_of (Receive sample_receive), block_type_of (Change sample_change)} =
     {bt_receive, bt_change}"
    using block_hash_input_exact [OF e] by simp
qed

end
