(* ===== verification/Block_Json.thy ===== *)
theory Block_Json
  imports Block_Codec "HOL-Library.AList"
begin

text \<open>
  The property tree form of the blocks (\<^verbatim>\<open>lib/blocks.cpp\<close>): \<open>serialize_json\<close>, the tree
  constructors behind \<open>deserialize_block_json\<close>, and the member functions
  \<open>deserialize_json\<close>.  The trees these functions use are flat: a list of keys with texts.
  The text syntax of JSON itself (\<open>write_json\<close>, \<open>read_json\<close>) is outside the repository.
\<close>

type_synonym ptree = "(string \<times> string) list"

text \<open>\<open>put\<close> replaces the first entry of the key or appends one; \<open>get\<close> of a missing key throws.\<close>

definition ptree_put :: "string \<Rightarrow> string \<Rightarrow> ptree \<Rightarrow> ptree" where
  "ptree_put k v tree = AList.update k v tree"

definition ptree_get :: "ptree \<Rightarrow> string \<Rightarrow> string option" where
  "ptree_get tree k = map_of tree k"

lemma ptree_get_put [simp]:
  "ptree_get (ptree_put k v tree) k' = (if k = k' then Some v else ptree_get tree k')"
  by (simp add: ptree_put_def ptree_get_def update_conv)

section \<open>Writers\<close>

definition send_serialize_json :: "crypto \<Rightarrow> bigint_text \<Rightarrow> send_block \<Rightarrow> ptree \<Rightarrow> ptree" where
  "send_serialize_json c io b tree =
     (let tree = ptree_put ''type'' ''send'' tree;
          tree = ptree_put ''previous'' (uint256_encode_hex io (send_previous (send_h b))) tree;
          tree = ptree_put ''destination'' (encode_account c (send_destination (send_h b))) tree;
          tree = ptree_put ''balance'' (uint128_encode_hex io (send_balance (send_h b))) tree;
          tree = ptree_put ''work'' (to_string_hex io (send_work b)) tree
      in ptree_put ''signature'' (uint512_encode_hex io (send_signature b)) tree)"

definition receive_serialize_json :: "bigint_text \<Rightarrow> receive_block \<Rightarrow> ptree \<Rightarrow> ptree" where
  "receive_serialize_json io b tree =
     (let tree = ptree_put ''type'' ''receive'' tree;
          tree = ptree_put ''previous'' (uint256_encode_hex io (receive_previous (receive_h b))) tree;
          tree = ptree_put ''source'' (uint256_encode_hex io (receive_source (receive_h b))) tree;
          tree = ptree_put ''work'' (to_string_hex io (receive_work b)) tree
      in ptree_put ''signature'' (uint512_encode_hex io (receive_signature b)) tree)"

definition open_serialize_json :: "crypto \<Rightarrow> bigint_text \<Rightarrow> open_block \<Rightarrow> ptree \<Rightarrow> ptree" where
  "open_serialize_json c io b tree =
     (let tree = ptree_put ''type'' ''open'' tree;
          tree = ptree_put ''source'' (uint256_encode_hex io (open_source (open_h b))) tree;
          tree = ptree_put ''representative'' (encode_account c (open_representative (open_h b))) tree;
          tree = ptree_put ''account'' (encode_account c (open_account (open_h b))) tree;
          tree = ptree_put ''work'' (to_string_hex io (open_work b)) tree
      in ptree_put ''signature'' (uint512_encode_hex io (open_signature b)) tree)"

definition change_serialize_json :: "crypto \<Rightarrow> bigint_text \<Rightarrow> change_block \<Rightarrow> ptree \<Rightarrow> ptree" where
  "change_serialize_json c io b tree =
     (let tree = ptree_put ''type'' ''change'' tree;
          tree = ptree_put ''previous'' (uint256_encode_hex io (change_previous (change_h b))) tree;
          tree = ptree_put ''representative'' (encode_account c (change_representative (change_h b))) tree;
          tree = ptree_put ''work'' (to_string_hex io (change_work b)) tree
      in ptree_put ''signature'' (uint512_encode_hex io (change_signature b)) tree)"

definition state_serialize_json :: "crypto \<Rightarrow> bigint_text \<Rightarrow> state_block \<Rightarrow> ptree \<Rightarrow> ptree" where
  "state_serialize_json c io b tree =
     (let tree = ptree_put ''type'' ''state'' tree;
          tree = ptree_put ''account'' (encode_account c (state_account (state_h b))) tree;
          tree = ptree_put ''previous'' (uint256_encode_hex io (state_previous (state_h b))) tree;
          tree = ptree_put ''representative'' (encode_account c (state_representative (state_h b))) tree;
          tree = ptree_put ''balance'' (uint128_encode_dec io (state_balance (state_h b))) tree;
          tree = ptree_put ''link'' (uint256_encode_hex io (state_link (state_h b))) tree;
          tree = ptree_put ''link_as_account'' (encode_account c (state_link (state_h b))) tree;
          tree = ptree_put ''signature'' (uint512_encode_hex io (state_signature b)) tree
      in ptree_put ''work'' (to_string_hex io (state_work b)) tree)"

fun block_serialize_json :: "crypto \<Rightarrow> bigint_text \<Rightarrow> block \<Rightarrow> ptree \<Rightarrow> ptree" where
  "block_serialize_json c io (Send b) tree = send_serialize_json c io b tree"
| "block_serialize_json c io (Receive b) tree = receive_serialize_json io b tree"
| "block_serialize_json c io (Open b) tree = open_serialize_json c io b tree"
| "block_serialize_json c io (Change b) tree = change_serialize_json c io b tree"
| "block_serialize_json c io (State b) tree = state_serialize_json c io b tree"

section \<open>Tree constructors\<close>

definition send_hashables_tree :: "crypto \<Rightarrow> bigint_text \<Rightarrow> ptree \<Rightarrow> send_hashables option" where
  "send_hashables_tree c io tree_a =
     do { previous_l \<leftarrow> ptree_get tree_a ''previous'';
          destination_l \<leftarrow> ptree_get tree_a ''destination'';
          balance_l \<leftarrow> ptree_get tree_a ''balance'';
          previous \<leftarrow> uint256_decode_hex io previous_l;
          destination \<leftarrow> decode_account c destination_l;
          balance \<leftarrow> uint128_decode_hex io balance_l;
          Some \<lparr>send_previous = previous, send_destination = destination, send_balance = balance\<rparr> }"

definition send_tree :: "crypto \<Rightarrow> bigint_text \<Rightarrow> ptree \<Rightarrow> send_block option" where
  "send_tree c io tree_a =
     do { hashables \<leftarrow> send_hashables_tree c io tree_a;
          signature_l \<leftarrow> ptree_get tree_a ''signature'';
          work_l \<leftarrow> ptree_get tree_a ''work'';
          signature \<leftarrow> uint512_decode_hex io signature_l;
          work \<leftarrow> from_string_hex io work_l;
          Some \<lparr>send_h = hashables, send_signature = signature, send_work = work\<rparr> }"

definition receive_hashables_tree :: "bigint_text \<Rightarrow> ptree \<Rightarrow> receive_hashables option" where
  "receive_hashables_tree io tree_a =
     do { previous_l \<leftarrow> ptree_get tree_a ''previous'';
          source_l \<leftarrow> ptree_get tree_a ''source'';
          previous \<leftarrow> uint256_decode_hex io previous_l;
          source \<leftarrow> uint256_decode_hex io source_l;
          Some \<lparr>receive_previous = previous, receive_source = source\<rparr> }"

definition receive_tree :: "bigint_text \<Rightarrow> ptree \<Rightarrow> receive_block option" where
  "receive_tree io tree_a =
     do { hashables \<leftarrow> receive_hashables_tree io tree_a;
          signature_l \<leftarrow> ptree_get tree_a ''signature'';
          work_l \<leftarrow> ptree_get tree_a ''work'';
          signature \<leftarrow> uint512_decode_hex io signature_l;
          work \<leftarrow> from_string_hex io work_l;
          Some \<lparr>receive_h = hashables, receive_signature = signature, receive_work = work\<rparr> }"

definition open_hashables_tree :: "crypto \<Rightarrow> bigint_text \<Rightarrow> ptree \<Rightarrow> open_hashables option" where
  "open_hashables_tree c io tree_a =
     do { source_l \<leftarrow> ptree_get tree_a ''source'';
          representative_l \<leftarrow> ptree_get tree_a ''representative'';
          account_l \<leftarrow> ptree_get tree_a ''account'';
          source \<leftarrow> uint256_decode_hex io source_l;
          representative \<leftarrow> decode_account c representative_l;
          acct \<leftarrow> decode_account c account_l;
          Some \<lparr>open_source = source, open_representative = representative, open_account = acct\<rparr> }"

definition open_tree :: "crypto \<Rightarrow> bigint_text \<Rightarrow> ptree \<Rightarrow> open_block option" where
  "open_tree c io tree_a =
     do { hashables \<leftarrow> open_hashables_tree c io tree_a;
          work_l \<leftarrow> ptree_get tree_a ''work'';
          signature_l \<leftarrow> ptree_get tree_a ''signature'';
          work \<leftarrow> from_string_hex io work_l;
          signature \<leftarrow> uint512_decode_hex io signature_l;
          Some \<lparr>open_h = hashables, open_signature = signature, open_work = work\<rparr> }"

definition change_hashables_tree :: "crypto \<Rightarrow> bigint_text \<Rightarrow> ptree \<Rightarrow> change_hashables option" where
  "change_hashables_tree c io tree_a =
     do { previous_l \<leftarrow> ptree_get tree_a ''previous'';
          representative_l \<leftarrow> ptree_get tree_a ''representative'';
          previous \<leftarrow> uint256_decode_hex io previous_l;
          representative \<leftarrow> decode_account c representative_l;
          Some \<lparr>change_previous = previous, change_representative = representative\<rparr> }"

definition change_tree :: "crypto \<Rightarrow> bigint_text \<Rightarrow> ptree \<Rightarrow> change_block option" where
  "change_tree c io tree_a =
     do { hashables \<leftarrow> change_hashables_tree c io tree_a;
          work_l \<leftarrow> ptree_get tree_a ''work'';
          signature_l \<leftarrow> ptree_get tree_a ''signature'';
          work \<leftarrow> from_string_hex io work_l;
          signature \<leftarrow> uint512_decode_hex io signature_l;
          Some \<lparr>change_h = hashables, change_signature = signature, change_work = work\<rparr> }"

text \<open>
  The link of a state block is read as an account number and, failing that, as
  hexadecimal digits.
\<close>

definition link_tree :: "crypto \<Rightarrow> bigint_text \<Rightarrow> string \<Rightarrow> link option" where
  "link_tree c io link_l =
     (case decode_account c link_l of
        Some l \<Rightarrow> Some l
      | None \<Rightarrow> uint256_decode_hex io link_l)"

definition state_hashables_tree :: "crypto \<Rightarrow> bigint_text \<Rightarrow> ptree \<Rightarrow> state_hashables option" where
  "state_hashables_tree c io tree_a =
     do { account_l \<leftarrow> ptree_get tree_a ''account'';
          previous_l \<leftarrow> ptree_get tree_a ''previous'';
          representative_l \<leftarrow> ptree_get tree_a ''representative'';
          balance_l \<leftarrow> ptree_get tree_a ''balance'';
          link_l \<leftarrow> ptree_get tree_a ''link'';
          acct \<leftarrow> decode_account c account_l;
          previous \<leftarrow> uint256_decode_hex io previous_l;
          representative \<leftarrow> decode_account c representative_l;
          balance \<leftarrow> uint128_decode_dec io False balance_l;
          link \<leftarrow> link_tree c io link_l;
          Some \<lparr>state_account = acct, state_previous = previous,
                state_representative = representative, state_balance = balance, state_link = link\<rparr> }"

definition state_tree :: "crypto \<Rightarrow> bigint_text \<Rightarrow> ptree \<Rightarrow> state_block option" where
  "state_tree c io tree_a =
     do { hashables \<leftarrow> state_hashables_tree c io tree_a;
          type_l \<leftarrow> ptree_get tree_a ''type'';
          signature_l \<leftarrow> ptree_get tree_a ''signature'';
          work_l \<leftarrow> ptree_get tree_a ''work'';
          if type_l \<noteq> ''state'' then None
          else do { work \<leftarrow> from_string_hex io work_l;
                    signature \<leftarrow> uint512_decode_hex io signature_l;
                    Some \<lparr>state_h = hashables, state_signature = signature, state_work = work\<rparr> } }"

definition deserialize_block_json :: "crypto \<Rightarrow> bigint_text \<Rightarrow> ptree \<Rightarrow> block option" where
  "deserialize_block_json c io tree_a =
     do { type_l \<leftarrow> ptree_get tree_a ''type'';
          if type_l = ''receive'' then map_option Receive (receive_tree io tree_a)
          else if type_l = ''send'' then map_option Send (send_tree c io tree_a)
          else if type_l = ''open'' then map_option Open (open_tree c io tree_a)
          else if type_l = ''change'' then map_option Change (change_tree c io tree_a)
          else if type_l = ''state'' then map_option State (state_tree c io tree_a)
          else None }"

section \<open>The member functions\<close>

definition send_deserialize_json :: "crypto \<Rightarrow> bigint_text \<Rightarrow> ptree \<Rightarrow> send_block option" where
  "send_deserialize_json c io tree_a =
     do { previous_l \<leftarrow> ptree_get tree_a ''previous'';
          destination_l \<leftarrow> ptree_get tree_a ''destination'';
          balance_l \<leftarrow> ptree_get tree_a ''balance'';
          work_l \<leftarrow> ptree_get tree_a ''work'';
          signature_l \<leftarrow> ptree_get tree_a ''signature'';
          previous \<leftarrow> uint256_decode_hex io previous_l;
          destination \<leftarrow> decode_account c destination_l;
          balance \<leftarrow> uint128_decode_hex io balance_l;
          work \<leftarrow> from_string_hex io work_l;
          signature \<leftarrow> uint512_decode_hex io signature_l;
          Some \<lparr>send_h = \<lparr>send_previous = previous, send_destination = destination,
                          send_balance = balance\<rparr>,
                send_signature = signature, send_work = work\<rparr> }"

definition receive_deserialize_json :: "bigint_text \<Rightarrow> ptree \<Rightarrow> receive_block option" where
  "receive_deserialize_json io tree_a =
     do { previous_l \<leftarrow> ptree_get tree_a ''previous'';
          source_l \<leftarrow> ptree_get tree_a ''source'';
          work_l \<leftarrow> ptree_get tree_a ''work'';
          signature_l \<leftarrow> ptree_get tree_a ''signature'';
          previous \<leftarrow> uint256_decode_hex io previous_l;
          source \<leftarrow> uint256_decode_hex io source_l;
          work \<leftarrow> from_string_hex io work_l;
          signature \<leftarrow> uint512_decode_hex io signature_l;
          Some \<lparr>receive_h = \<lparr>receive_previous = previous, receive_source = source\<rparr>,
                receive_signature = signature, receive_work = work\<rparr> }"

definition open_deserialize_json :: "bigint_text \<Rightarrow> ptree \<Rightarrow> open_block option" where
  "open_deserialize_json io tree_a =
     do { source_l \<leftarrow> ptree_get tree_a ''source'';
          representative_l \<leftarrow> ptree_get tree_a ''representative'';
          account_l \<leftarrow> ptree_get tree_a ''account'';
          work_l \<leftarrow> ptree_get tree_a ''work'';
          signature_l \<leftarrow> ptree_get tree_a ''signature'';
          source \<leftarrow> uint256_decode_hex io source_l;
          representative \<leftarrow> uint256_decode_hex io representative_l;
          acct \<leftarrow> uint256_decode_hex io account_l;
          work \<leftarrow> from_string_hex io work_l;
          signature \<leftarrow> uint512_decode_hex io signature_l;
          Some \<lparr>open_h = \<lparr>open_source = source, open_representative = representative,
                          open_account = acct\<rparr>,
                open_signature = signature, open_work = work\<rparr> }"

definition change_deserialize_json :: "bigint_text \<Rightarrow> ptree \<Rightarrow> change_block option" where
  "change_deserialize_json io tree_a =
     do { previous_l \<leftarrow> ptree_get tree_a ''previous'';
          representative_l \<leftarrow> ptree_get tree_a ''representative'';
          work_l \<leftarrow> ptree_get tree_a ''work'';
          signature_l \<leftarrow> ptree_get tree_a ''signature'';
          previous \<leftarrow> uint256_decode_hex io previous_l;
          representative \<leftarrow> uint256_decode_hex io representative_l;
          work \<leftarrow> from_string_hex io work_l;
          signature \<leftarrow> uint512_decode_hex io signature_l;
          Some \<lparr>change_h = \<lparr>change_previous = previous, change_representative = representative\<rparr>,
                change_signature = signature, change_work = work\<rparr> }"

definition state_deserialize_json :: "crypto \<Rightarrow> bigint_text \<Rightarrow> ptree \<Rightarrow> state_block option" where
  "state_deserialize_json c io tree_a =
     do { account_l \<leftarrow> ptree_get tree_a ''account'';
          previous_l \<leftarrow> ptree_get tree_a ''previous'';
          representative_l \<leftarrow> ptree_get tree_a ''representative'';
          balance_l \<leftarrow> ptree_get tree_a ''balance'';
          link_l \<leftarrow> ptree_get tree_a ''link'';
          work_l \<leftarrow> ptree_get tree_a ''work'';
          signature_l \<leftarrow> ptree_get tree_a ''signature'';
          acct \<leftarrow> decode_account c account_l;
          previous \<leftarrow> uint256_decode_hex io previous_l;
          representative \<leftarrow> decode_account c representative_l;
          balance \<leftarrow> uint128_decode_dec io False balance_l;
          link \<leftarrow> link_tree c io link_l;
          work \<leftarrow> from_string_hex io work_l;
          signature \<leftarrow> uint512_decode_hex io signature_l;
          Some \<lparr>state_h = \<lparr>state_account = acct, state_previous = previous,
                           state_representative = representative, state_balance = balance,
                           state_link = link\<rparr>,
                state_signature = signature, state_work = work\<rparr> }"

lemmas json_write_defs =
  send_serialize_json_def receive_serialize_json_def open_serialize_json_def
  change_serialize_json_def state_serialize_json_def

lemmas json_tree_defs =
  send_hashables_tree_def send_tree_def receive_hashables_tree_def receive_tree_def
  open_hashables_tree_def open_tree_def change_hashables_tree_def change_tree_def
  link_tree_def state_hashables_tree_def state_tree_def

lemmas json_member_defs =
  send_deserialize_json_def receive_deserialize_json_def open_deserialize_json_def
  change_deserialize_json_def state_deserialize_json_def link_tree_def

section \<open>Round trips\<close>

lemma json_member_round_trip:
  assumes "digest_lengths c" and "text_laws io"
  shows "send_deserialize_json c io (send_serialize_json c io s tree) = Some s"
    and "receive_deserialize_json io (receive_serialize_json io r tree) = Some r"
    and "state_deserialize_json c io (state_serialize_json c io t tree) = Some t"
  by (simp_all add: json_write_defs json_member_defs Let_def
      decode_encode_hex [OF assms(2)] decode_account_hex [OF assms(2)]
      decode_encode_account [OF assms(1)])

lemma decode_hex_account: "uint256_decode_hex io (encode_account c a) = None"
  by (simp add: uint256_decode_hex_def)

lemma json_member_rejects:
  "open_deserialize_json io (open_serialize_json c io p tree) = None"
  "change_deserialize_json io (change_serialize_json c io g tree) = None"
  by (simp_all add: json_write_defs json_member_defs Let_def decode_hex_account bind_eq_None_conv)

text \<open>
  C38: the JSON form of every block is read back by \<open>deserialize_block_json\<close> as the block.
\<close>

theorem json_block_round_trip:
  assumes "digest_lengths c" and "text_laws io"
  shows "deserialize_block_json c io (block_serialize_json c io b tree) = Some b"
  by (cases b)
    (simp_all add: deserialize_block_json_def json_write_defs json_tree_defs Let_def
      decode_encode_hex [OF assms(2)] decode_account_hex [OF assms(2)]
      decode_encode_account [OF assms(1)])

theorem json_block_round_trip_witness:
  "deserialize_block_json test_crypto std_text
     (block_serialize_json test_crypto std_text (Receive sample_receive) []) =
     Some (Receive sample_receive)"
  by (rule json_block_round_trip [OF digest_lengths_test text_laws_std])

text \<open>
  The member functions \<open>deserialize_json\<close> of send, receive and state blocks read what
  \<open>serialize_json\<close> writes, but those of open and change blocks never do: they decode the
  account texts as hexadecimal numbers.
\<close>

theorem json_member_functions:
  assumes "digest_lengths c" and "text_laws io"
  shows "send_deserialize_json c io (send_serialize_json c io s tree) = Some s \<and>
    receive_deserialize_json io (receive_serialize_json io r tree) = Some r \<and>
    state_deserialize_json c io (state_serialize_json c io t tree) = Some t \<and>
    open_deserialize_json io (open_serialize_json c io p tree) = None \<and>
    change_deserialize_json io (change_serialize_json c io g tree) = None"
  by (simp add: json_member_round_trip [OF assms] json_member_rejects)

theorem json_member_functions_witness:
  "receive_deserialize_json std_text (receive_serialize_json std_text sample_receive []) =
     Some sample_receive \<and>
   change_deserialize_json std_text (change_serialize_json test_crypto std_text sample_change []) = None"
  using json_member_functions [OF digest_lengths_test text_laws_std,
      where r = sample_receive and g = sample_change and tree = "[]"] by blast
end
