(* ===== verification/Common_Data.thy ===== *)
theory Common_Data
  imports Block_Codec
begin

text \<open>
  The small data classes of \<^verbatim>\<open>secure/common.hpp\<close> and \<^verbatim>\<open>secure/common.cpp\<close> that the store keeps:
  \<open>account_info\<close>, \<open>pending_info\<close>, \<open>pending_key\<close>, \<open>unchecked_key\<close>, \<open>unchecked_info\<close>,
  \<open>confirmation_height_info\<close> and \<open>endpoint_key\<close>, with the byte layout that the database
  values of \<^verbatim>\<open>secure/store.hpp\<close> have.
\<close>

section \<open>Account information\<close>

record account_info =
  ai_head :: block_hash
  ai_representative :: account
  ai_open_block :: block_hash
  ai_balance :: amount
  ai_modified :: u64
  ai_block_count :: u64
  ai_epoch :: epoch

definition account_info_default :: account_info where
  "account_info_default =
     \<lparr>ai_head = 0, ai_representative = 0, ai_open_block = 0, ai_balance = 0, ai_modified = 0,
      ai_block_count = 0, ai_epoch = epoch_0\<rparr>"

definition account_info_db_size :: nat where
  "account_info_db_size = 32 + 32 + 32 + 16 + 8 + 8 + 1"

text \<open>The value in the database is the memory of the object.\<close>

definition account_info_db :: "account_info \<Rightarrow> byte list" where
  "account_info_db i =
     write_be (ai_head i) @ write_be (ai_representative i) @ write_be (ai_open_block i) @
     write_be (ai_balance i) @ write_le (ai_modified i) @ write_le (ai_block_count i) @
     write_be (ai_epoch i)"

definition account_info_deserialize :: "account_info reader" where
  "account_info_deserialize s =
     (do { (head, s) \<leftarrow> read_be s;
           (representative, s) \<leftarrow> read_be s;
           (open_block, s) \<leftarrow> read_be s;
           (balance, s) \<leftarrow> read_be s;
           (modified, s) \<leftarrow> read_le s;
           (block_count, s) \<leftarrow> read_le s;
           (epoch_m, s) \<leftarrow> read_be s;
           Some (\<lparr>ai_head = head, ai_representative = representative, ai_open_block = open_block,
                  ai_balance = balance, ai_modified = modified, ai_block_count = block_count,
                  ai_epoch = epoch_m\<rparr>, s) })"

definition account_info_equal :: "account_info \<Rightarrow> account_info \<Rightarrow> bool" where
  "account_info_equal a b \<longleftrightarrow>
     ai_head a = ai_head b \<and> ai_representative a = ai_representative b \<and>
     ai_open_block a = ai_open_block b \<and> ai_balance a = ai_balance b \<and>
     ai_modified a = ai_modified b \<and> ai_block_count a = ai_block_count b \<and> ai_epoch a = ai_epoch b"

section \<open>Pending entries\<close>

record pending_info =
  pi_source :: account
  pi_amount :: amount
  pi_epoch :: epoch

definition pending_info_default :: pending_info where
  "pending_info_default = \<lparr>pi_source = 0, pi_amount = 0, pi_epoch = epoch_0\<rparr>"

definition pending_info_db :: "pending_info \<Rightarrow> byte list" where
  "pending_info_db i = write_be (pi_source i) @ write_be (pi_amount i) @ write_be (pi_epoch i)"

definition pending_info_deserialize :: "pending_info reader" where
  "pending_info_deserialize s =
     (do { (source, s) \<leftarrow> read_be s;
           (amount, s) \<leftarrow> read_be s;
           (epoch_l, s) \<leftarrow> read_be s;
           Some (\<lparr>pi_source = source, pi_amount = amount, pi_epoch = epoch_l\<rparr>, s) })"

type_synonym pending_key = "account \<times> block_hash"

definition pending_key_db :: "pending_key \<Rightarrow> byte list" where
  "pending_key_db k = write_be (fst k) @ write_be (snd k)"

definition pending_key_deserialize :: "pending_key reader" where
  "pending_key_deserialize s =
     (do { (acct, s) \<leftarrow> read_be s; (hash, s) \<leftarrow> read_be s; Some ((acct, hash), s) })"

section \<open>Unchecked entries\<close>

text \<open>The tag of a signature check; it is read from the database by a cast.\<close>

type_synonym signature_verification = byte

definition sv_unknown :: signature_verification where "sv_unknown = 0"
definition sv_invalid :: signature_verification where "sv_invalid = 1"
definition sv_valid :: signature_verification where "sv_valid = 2"
definition sv_valid_epoch :: signature_verification where "sv_valid_epoch = 3"

lemmas sv_defs = sv_unknown_def sv_invalid_def sv_valid_def sv_valid_epoch_def

type_synonym unchecked_key = "block_hash \<times> block_hash"

definition unchecked_key_db :: "unchecked_key \<Rightarrow> byte list" where
  "unchecked_key_db k = write_be (fst k) @ write_be (snd k)"

definition unchecked_key_deserialize :: "unchecked_key reader" where
  "unchecked_key_deserialize s =
     (do { (previous, s) \<leftarrow> read_be s; (hash, s) \<leftarrow> read_be s; Some ((previous, hash), s) })"

record unchecked_info =
  ui_block :: block
  ui_account :: account
  ui_modified :: u64
  ui_verified :: signature_verification

definition unchecked_info_serialize :: "unchecked_info \<Rightarrow> byte list" where
  "unchecked_info_serialize i =
     serialize_block (ui_block i) @ write_be (ui_account i) @ write_le (ui_modified i) @
     write_be (ui_verified i)"

definition unchecked_info_deserialize :: "unchecked_info reader" where
  "unchecked_info_deserialize s =
     (do { (block_l, s) \<leftarrow> deserialize_block s;
           (acct, s) \<leftarrow> read_be s;
           (modified, s) \<leftarrow> read_le s;
           (verified, s) \<leftarrow> read_be s;
           Some (\<lparr>ui_block = block_l, ui_account = acct, ui_modified = modified,
                  ui_verified = verified\<rparr>, s) })"

section \<open>Confirmation heights\<close>

record confirmation_height_info =
  ch_height :: u64
  ch_frontier :: block_hash

definition confirmation_height_serialize :: "confirmation_height_info \<Rightarrow> byte list" where
  "confirmation_height_serialize i = write_le (ch_height i) @ write_be (ch_frontier i)"

definition confirmation_height_deserialize :: "confirmation_height_info reader" where
  "confirmation_height_deserialize s =
     (do { (height, s) \<leftarrow> read_le s;
           (frontier, s) \<leftarrow> read_be s;
           Some (\<lparr>ch_height = height, ch_frontier = frontier\<rparr>, s) })"

section \<open>Endpoints\<close>

text \<open>The address is in network order; the port is kept byte swapped.\<close>

record endpoint_key =
  ek_address :: u128
  ek_network_port :: u16

definition native_to_big_16 :: "u16 \<Rightarrow> u16" where
  "native_to_big_16 w = of_le (rev (write_le w))"

definition endpoint_key_make :: "u128 \<Rightarrow> u16 \<Rightarrow> endpoint_key" where
  "endpoint_key_make address_a port_a =
     \<lparr>ek_address = address_a, ek_network_port = native_to_big_16 port_a\<rparr>"

definition endpoint_key_port :: "endpoint_key \<Rightarrow> u16" where
  "endpoint_key_port k = native_to_big_16 (ek_network_port k)"

definition endpoint_key_db :: "endpoint_key \<Rightarrow> byte list" where
  "endpoint_key_db k = write_be (ek_address k) @ write_le (ek_network_port k)"

definition endpoint_key_read :: "endpoint_key reader" where
  "endpoint_key_read s =
     (do { (address, s) \<leftarrow> read_be s;
           (port, s) \<leftarrow> read_le s;
           Some (\<lparr>ek_address = address, ek_network_port = port\<rparr>, s) })"

section \<open>Codecs\<close>

lemmas data_write_defs =
  account_info_db_def pending_info_db_def pending_key_db_def unchecked_key_db_def
  confirmation_height_serialize_def endpoint_key_db_def

lemmas data_read_defs =
  account_info_deserialize_def pending_info_deserialize_def pending_key_deserialize_def
  unchecked_key_deserialize_def confirmation_height_deserialize_def endpoint_key_read_def

interpretation account_info_codec:
  strict_codec account_info_db account_info_deserialize "\<lambda>_. True" account_info_db_size
  by unfold_locales
    (simp_all add: data_write_defs data_read_defs codec_simps account_info_db_size_def,
      auto simp: bind_eq_Some dest!: word_enc_dec,
      simp add: read_be_take read_le_take)

interpretation pending_info_codec:
  strict_codec pending_info_db pending_info_deserialize "\<lambda>_. True" 49
  by unfold_locales
    (simp_all add: data_write_defs data_read_defs codec_simps,
      auto simp: bind_eq_Some dest!: word_enc_dec,
      simp add: read_be_take read_le_take)

interpretation pending_key_codec:
  strict_codec pending_key_db pending_key_deserialize "\<lambda>_. True" 64
  by unfold_locales
    (simp_all add: data_write_defs data_read_defs codec_simps,
      auto simp: bind_eq_Some dest!: word_enc_dec,
      simp add: read_be_take read_le_take)

interpretation unchecked_key_codec:
  strict_codec unchecked_key_db unchecked_key_deserialize "\<lambda>_. True" 64
  by unfold_locales
    (simp_all add: data_write_defs data_read_defs codec_simps,
      auto simp: bind_eq_Some dest!: word_enc_dec,
      simp add: read_be_take read_le_take)

interpretation confirmation_height_codec:
  strict_codec confirmation_height_serialize confirmation_height_deserialize "\<lambda>_. True" 40
  by unfold_locales
    (simp_all add: data_write_defs data_read_defs codec_simps,
      auto simp: bind_eq_Some dest!: word_enc_dec,
      simp add: read_be_take read_le_take)

interpretation endpoint_key_codec:
  strict_codec endpoint_key_db endpoint_key_read "\<lambda>_. True" 18
  by unfold_locales
    (simp_all add: data_write_defs data_read_defs codec_simps,
      auto simp: bind_eq_Some dest!: word_enc_dec,
      simp add: read_be_take read_le_take)

interpretation unchecked_info_codec:
  codec unchecked_info_serialize unchecked_info_deserialize "\<lambda>_. True"
  by unfold_locales
    (simp add: unchecked_info_serialize_def unchecked_info_deserialize_def codec_simps
      block_codec.dec_enc)

lemma account_info_equal_iff: "account_info_equal a b \<longleftrightarrow> a = b"
  by (auto simp: account_info_equal_def)

lemma endpoint_key_port_make: "endpoint_key_port (endpoint_key_make a p) = p"
  by (simp add: endpoint_key_port_def endpoint_key_make_def native_to_big_16_def
      write_le_of_le of_le_write_le)

lemma endpoint_key_port_bytes:
  "endpoint_key_db (endpoint_key_make a p) = write_be a @ write_be p"
  by (simp add: endpoint_key_db_def endpoint_key_make_def native_to_big_16_def
      write_le_of_le write_be_def)

end
