(* ===== verification/Votes.thy ===== *)
theory Votes
  imports Common_Data
begin

unbundle bit_operations_syntax

text \<open>
  The class \<open>vote\<close> of \<^verbatim>\<open>secure/common.hpp\<close> and \<^verbatim>\<open>secure/common.cpp\<close>: timestamps with their duration
  bits, the two binary forms of a vote, the bytes a vote signs, equality, and the functions
  that deduplicate votes and blocks.
\<close>

section \<open>Data\<close>

text \<open>An element of \<open>blocks\<close> is a variant of a block and a hash.\<close>

datatype vote_item = Vote_block block | Vote_hash block_hash

record vote =
  vote_timestamp_m :: u64
  vote_blocks :: "vote_item list"
  vote_account :: account
  vote_signature :: signature

definition timestamp_mask :: u64 where "timestamp_mask = 0xfffffffffffffff0"
definition timestamp_max :: u64 where "timestamp_max = 0xfffffffffffffff0"
definition timestamp_min :: u64 where "timestamp_min = 0x10"
definition duration_max :: byte where "duration_max = 0x0f"

definition vote_packed_timestamp :: "u64 \<Rightarrow> byte \<Rightarrow> u64" where
  "vote_packed_timestamp timestamp duration = (timestamp AND timestamp_mask) OR ucast duration"

definition vote_timestamp :: "vote \<Rightarrow> u64" where
  "vote_timestamp v =
     (if vote_timestamp_m v = - 1 then vote_timestamp_m v
      else vote_timestamp_m v AND timestamp_mask)"

definition vote_duration_bits :: "vote \<Rightarrow> byte" where
  "vote_duration_bits v = ucast (vote_timestamp_m v AND NOT timestamp_mask)"

text \<open>\<open>1u << (duration_bits () + 4)\<close> milliseconds.\<close>

definition vote_duration :: "vote \<Rightarrow> u32" where
  "vote_duration v = push_bit (unat (vote_duration_bits v) + 4) 1"

section \<open>Hashes\<close>

fun iterate_vote_blocks_as_hash :: "crypto \<Rightarrow> vote_item \<Rightarrow> block_hash" where
  "iterate_vote_blocks_as_hash c (Vote_hash h) = h"
| "iterate_vote_blocks_as_hash c (Vote_block b) = generate_hash c b"

fun item_which :: "vote_item \<Rightarrow> bool" where
  "item_which (Vote_block b) = False"
| "item_which (Vote_hash h) = True"

definition hash_prefix :: "byte list" where
  "hash_prefix = map of_char ''vote ''"

definition vote_hash_input :: "crypto \<Rightarrow> vote \<Rightarrow> byte list" where
  "vote_hash_input c v =
     (if length (vote_blocks v) > 1 \<or> (vote_blocks v \<noteq> [] \<and> item_which (hd (vote_blocks v)))
      then hash_prefix else []) @
     concat (map (\<lambda>item. write_be (iterate_vote_blocks_as_hash c item)) (vote_blocks v)) @
     write_le (vote_timestamp_m v)"

definition vote_hash :: "crypto \<Rightarrow> vote \<Rightarrow> block_hash" where
  "vote_hash c v = word_of_be (blake2b c 32 (vote_hash_input c v))"

text \<open>
  The sizes passed for the account and the signature are the sizes of the pointers
  returned by \<open>data ()\<close>, 8 bytes on the supported 64 bit platforms.
\<close>

definition vote_full_hash_input :: "crypto \<Rightarrow> vote \<Rightarrow> byte list" where
  "vote_full_hash_input c v =
     write_be (vote_hash c v) @ take 8 (write_be (vote_account v)) @
     take 8 (write_be (vote_signature v))"

definition vote_full_hash :: "crypto \<Rightarrow> vote \<Rightarrow> block_hash" where
  "vote_full_hash c v = word_of_be (blake2b c 32 (vote_full_hash_input c v))"

definition vote_validate :: "crypto \<Rightarrow> vote \<Rightarrow> bool" where
  "vote_validate c v = validate_message c (vote_account v) (vote_hash c v) (vote_signature v)"

text \<open>The two constructors that sign: for one block and for a list of hashes.\<close>

definition vote_make_block :: "crypto \<Rightarrow> account \<Rightarrow> u256 \<Rightarrow> u64 \<Rightarrow> byte \<Rightarrow> block \<Rightarrow> vote" where
  "vote_make_block c account_a prv_a timestamp_a duration block_a =
     (let v = \<lparr>vote_timestamp_m = vote_packed_timestamp timestamp_a duration,
               vote_blocks = [Vote_block block_a], vote_account = account_a, vote_signature = 0\<rparr>
      in v\<lparr>vote_signature := sign_message c prv_a account_a (vote_hash c v)\<rparr>)"

definition vote_make_hashes ::
  "crypto \<Rightarrow> account \<Rightarrow> u256 \<Rightarrow> u64 \<Rightarrow> byte \<Rightarrow> block_hash list \<Rightarrow> vote" where
  "vote_make_hashes c account_a prv_a timestamp_a duration blocks_a =
     (let v = \<lparr>vote_timestamp_m = vote_packed_timestamp timestamp_a duration,
               vote_blocks = map Vote_hash blocks_a, vote_account = account_a, vote_signature = 0\<rparr>
      in v\<lparr>vote_signature := sign_message c prv_a account_a (vote_hash c v)\<rparr>)"

section \<open>Equality\<close>

fun vote_blocks_equal :: "vote_item list \<Rightarrow> vote_item list \<Rightarrow> bool" where
  "vote_blocks_equal [] [] = True"
| "vote_blocks_equal (i # is) (j # js) =
     (if item_which i \<noteq> item_which j then False
      else (case (i, j) of
              (Vote_hash h, Vote_hash k) \<Rightarrow> h = k \<and> vote_blocks_equal is js
            | (Vote_block a, Vote_block b) \<Rightarrow> blocks_equal a b \<and> vote_blocks_equal is js
            | _ \<Rightarrow> False))"
| "vote_blocks_equal _ _ = False"

definition vote_equal :: "vote \<Rightarrow> vote \<Rightarrow> bool" where
  "vote_equal v w \<longleftrightarrow>
     vote_timestamp_m v = vote_timestamp_m w \<and> vote_blocks_equal (vote_blocks v) (vote_blocks w) \<and>
     vote_account v = vote_account w \<and> vote_signature v = vote_signature w"

section \<open>Binary form\<close>

text \<open>With one type for all items, which is the form of the network message.\<close>

fun vote_item_serialize_typed :: "crypto \<Rightarrow> block_type \<Rightarrow> vote_item \<Rightarrow> byte list" where
  "vote_item_serialize_typed c t (Vote_hash h) = write_be h"
| "vote_item_serialize_typed c t (Vote_block b) =
     (if t = bt_not_a_block then write_be (generate_hash c b) else block_serialize b)"

definition vote_serialize_typed :: "crypto \<Rightarrow> block_type \<Rightarrow> vote \<Rightarrow> byte list" where
  "vote_serialize_typed c t v =
     write_be (vote_account v) @ write_be (vote_signature v) @ write_le (vote_timestamp_m v) @
     concat (map (vote_item_serialize_typed c t) (vote_blocks v))"

text \<open>With a type in front of every item.\<close>

fun vote_item_serialize :: "vote_item \<Rightarrow> byte list" where
  "vote_item_serialize (Vote_hash h) = write_be (block_type_byte bt_not_a_block) @ write_be h"
| "vote_item_serialize (Vote_block b) = serialize_block b"

definition vote_serialize :: "vote \<Rightarrow> byte list" where
  "vote_serialize v =
     write_be (vote_account v) @ write_be (vote_signature v) @ write_le (vote_timestamp_m v) @
     concat (map vote_item_serialize (vote_blocks v))"

text \<open>
  The readers loop until the stream is exhausted.  One round of the loop reads one item; it
  consumes at least one byte, so that the loop ends.
\<close>

definition vote_item_read_typed :: "block_type \<Rightarrow> vote_item reader" where
  "vote_item_read_typed t s =
     (if t = bt_not_a_block then map_option (map_prod Vote_hash id) (read_be s)
      else map_option (map_prod Vote_block id) (deserialize_block_typed t s))"

definition vote_item_read :: "vote_item reader" where
  "vote_item_read s =
     (do { (b, s) \<leftarrow> read_be s;
           t \<leftarrow> block_type_of_byte b;
           vote_item_read_typed t s })"

lemma block_serialize_nonempty: "block_serialize b \<noteq> []"
proof -
  have "length (block_serialize b) \<noteq> 0"
    unfolding length_block_serialize by (cases b) (simp_all add: block_size_def size_defs)
  then show ?thesis by auto
qed

lemma vote_item_read_typed_shrinks:
  "vote_item_read_typed t s = Some (i, r) \<Longrightarrow> length r < length s"
  by (auto simp: vote_item_read_typed_def block_serialize_nonempty
      dest!: be256.enc_dec serialize_deserialize_typed split: if_splits)

lemma vote_item_read_shrinks: "vote_item_read s = Some (i, r) \<Longrightarrow> length r < length s"
  by (auto simp: vote_item_read_def bind_eq_Some
      dest!: be8.enc_dec vote_item_read_typed_shrinks)

function vote_items_read_typed :: "block_type \<Rightarrow> byte list \<Rightarrow> vote_item list option" where
  "vote_items_read_typed t s =
     (if s = [] then Some []
      else case vote_item_read_typed t s of
             None \<Rightarrow> None
           | Some (i, r) \<Rightarrow> map_option (Cons i) (vote_items_read_typed t r))"
  by pat_completeness auto
termination
  by (relation "measure (\<lambda>(t, s). length s)") (auto dest: vote_item_read_typed_shrinks)

function vote_items_read :: "byte list \<Rightarrow> vote_item list option" where
  "vote_items_read s =
     (if s = [] then Some []
      else case vote_item_read s of
             None \<Rightarrow> None
           | Some (i, r) \<Rightarrow> map_option (Cons i) (vote_items_read r))"
  by pat_completeness auto
termination
  by (relation "measure length") (auto dest: vote_item_read_shrinks)

declare vote_items_read_typed.simps [simp del] vote_items_read.simps [simp del]

text \<open>A vote without items is an error.\<close>

definition vote_read_typed :: "block_type \<Rightarrow> byte list \<Rightarrow> vote option" where
  "vote_read_typed t s =
     (do { (acct, s) \<leftarrow> read_be s;
           (signature, s) \<leftarrow> read_be s;
           (timestamp, s) \<leftarrow> read_le s;
           items \<leftarrow> vote_items_read_typed t s;
           if items = [] then None
           else Some \<lparr>vote_timestamp_m = timestamp, vote_blocks = items, vote_account = acct,
                      vote_signature = signature\<rparr> })"

definition vote_deserialize :: "byte list \<Rightarrow> vote option" where
  "vote_deserialize s =
     (do { (acct, s) \<leftarrow> read_be s;
           (signature, s) \<leftarrow> read_be s;
           (timestamp, s) \<leftarrow> read_le s;
           items \<leftarrow> vote_items_read s;
           if items = [] then None
           else Some \<lparr>vote_timestamp_m = timestamp, vote_blocks = items, vote_account = acct,
                      vote_signature = signature\<rparr> })"

section \<open>Items\<close>

interpretation vote_item_codec: codec vote_item_serialize vote_item_read "\<lambda>_. True"
proof
  fix x :: vote_item and s
  show "vote_item_read (vote_item_serialize x @ s) = Some (x, s)"
  proof (cases x)
    case (Vote_block b)
    moreover have "block_type_of b \<noteq> bt_not_a_block" by (cases b) simp_all
    ultimately show ?thesis
      by (simp add: vote_item_read_def vote_item_read_typed_def serialize_block_def codec_simps)
  next
    case (Vote_hash h)
    then show ?thesis
      by (simp add: vote_item_read_def vote_item_read_typed_def codec_simps
          del: block_type_byte.simps)
  qed
qed

lemma vote_item_serialize_read: "vote_item_read s = Some (i, r) \<Longrightarrow> s = vote_item_serialize i @ r"
  by (auto simp: vote_item_read_def vote_item_read_typed_def bind_eq_Some serialize_block_def
      simp del: block_type_byte.simps split: if_splits
      dest!: be8.enc_dec be256.enc_dec serialize_deserialize_typed block_type_byte_of_byte)

lemma vote_item_serialize_nonempty: "vote_item_serialize i \<noteq> []"
  by (cases i) (auto simp: serialize_block_def block_serialize_nonempty)

lemma vote_items_read_serialize:
  "vote_items_read (concat (map vote_item_serialize is)) = Some is"
proof (induction "is")
  case Nil
  then show ?case by (simp add: vote_items_read.simps)
next
  case (Cons i "is")
  then show ?case
    by (simp add: vote_items_read.simps [of "vote_item_serialize i @ _"]
        vote_item_codec.dec_enc vote_item_serialize_nonempty)
qed

lemma vote_items_serialize_read:
  "vote_items_read s = Some is \<Longrightarrow> s = concat (map vote_item_serialize is)"
proof (induction s arbitrary: "is" rule: vote_items_read.induct)
  case (1 s)
  show ?case
  proof (cases "s = []")
    case True
    with 1(2) show ?thesis by (simp add: vote_items_read.simps)
  next
    case False
    with 1(2) obtain i r "is'" where r: "vote_item_read s = Some (i, r)"
      "vote_items_read r = Some is'" "is = i # is'"
      by (subst (asm) vote_items_read.simps) (auto split: option.splits)
    with False 1(1) [OF False r(1) refl, of is'] vote_item_serialize_read [OF r(1)]
    show ?thesis by simp
  qed
qed

lemma vote_deserialize_serialize:
  "vote_blocks v \<noteq> [] \<Longrightarrow> vote_deserialize (vote_serialize v) = Some v"
  by (simp add: vote_deserialize_def vote_serialize_def codec_simps vote_items_read_serialize)

lemma vote_serialize_deserialize:
  "vote_deserialize s = Some v \<Longrightarrow> s = vote_serialize v \<and> vote_blocks v \<noteq> []"
  by (auto simp: vote_deserialize_def vote_serialize_def bind_eq_Some split: if_splits
      dest!: word_enc_dec vote_items_serialize_read)


text \<open>
  The typed form can carry a vote for hashes only, or a vote for blocks of the one type.
  A vote for blocks sent with the type \<open>not_a_block\<close> arrives as a vote for their hashes.
\<close>

fun item_fits :: "block_type \<Rightarrow> vote_item \<Rightarrow> bool" where
  "item_fits t (Vote_hash h) \<longleftrightarrow> t = bt_not_a_block"
| "item_fits t (Vote_block b) \<longleftrightarrow> t = bt_not_a_block \<or> block_type_of b = t"

fun item_as_sent :: "crypto \<Rightarrow> block_type \<Rightarrow> vote_item \<Rightarrow> vote_item" where
  "item_as_sent c t (Vote_hash h) = Vote_hash h"
| "item_as_sent c t (Vote_block b) =
     (if t = bt_not_a_block then Vote_hash (generate_hash c b) else Vote_block b)"

lemma item_as_sent_hash [simp]:
  "iterate_vote_blocks_as_hash c (item_as_sent c t i) = iterate_vote_blocks_as_hash c i"
  by (cases i) simp_all

lemma vote_item_read_typed_serialize:
  assumes "item_fits t i"
  shows "vote_item_read_typed t (vote_item_serialize_typed c t i @ s) = Some (item_as_sent c t i, s)"
proof (cases i)
  case (Vote_block b)
  then show ?thesis
    using assms deserialize_typed_serialize [of b s]
    by (auto simp: vote_item_read_typed_def codec_simps)
next
  case (Vote_hash h)
  then show ?thesis using assms by (simp add: vote_item_read_typed_def codec_simps)
qed

lemma vote_item_serialize_typed_nonempty: "vote_item_serialize_typed c t i \<noteq> []"
  by (cases i) (auto simp: block_serialize_nonempty)

lemma vote_items_read_typed_serialize:
  "list_all (item_fits t) is \<Longrightarrow>
     vote_items_read_typed t (concat (map (vote_item_serialize_typed c t) is)) =
       Some (map (item_as_sent c t) is)"
proof (induction "is")
  case Nil
  then show ?case by (simp add: vote_items_read_typed.simps)
next
  case (Cons i "is")
  then show ?case
    by (simp add: vote_items_read_typed.simps [of t "vote_item_serialize_typed c t i @ _"]
        vote_item_read_typed_serialize vote_item_serialize_typed_nonempty)
qed

lemma vote_read_typed_serialize:
  assumes "vote_blocks v \<noteq> []" and "list_all (item_fits t) (vote_blocks v)"
  shows "vote_read_typed t (vote_serialize_typed c t v) =
    Some (v\<lparr>vote_blocks := map (item_as_sent c t) (vote_blocks v)\<rparr>)"
  using assms
  by (simp add: vote_read_typed_def vote_serialize_typed_def codec_simps
      vote_items_read_typed_serialize)

section \<open>Timestamps\<close>

lemma timestamp_mask_bits:
  "w AND timestamp_mask = push_bit 4 (drop_bit 4 w)" "w AND NOT timestamp_mask = take_bit 4 w"
proof -
  have m: "NOT timestamp_mask = mask 4" by (simp add: timestamp_mask_def mask_eq_exp_minus_1)
  then have n: "timestamp_mask = NOT (mask 4)" by (metis bit.double_compl)
  show "w AND NOT timestamp_mask = take_bit 4 w" by (simp add: m take_bit_eq_mask)
  show "w AND timestamp_mask = push_bit 4 (drop_bit 4 w)"
    unfolding n by (rule bit_word_eqI) (auto simp: bit_simps)
qed

lemma take_bit_4_small:
  assumes "d < (16 :: byte)"
  shows "take_bit 4 (ucast d :: u64) = ucast d" and "drop_bit 4 (ucast d :: u64) = 0"
    and "ucast (ucast d :: u64) = d"
proof -
  have "take_bit 4 d = d"
    using assms by (intro word_eqI_unat, simp only: unsigned_take_bit_eq)
      (simp add: take_bit_nat_eq_self word_less_nat_alt)
  then have b: "bit d i \<Longrightarrow> i < 4" for i by (metis bit_take_bit_iff)
  show "take_bit 4 (ucast d :: u64) = ucast d" and "drop_bit 4 (ucast d :: u64) = 0"
    by (rule bit_word_eqI; auto simp: bit_simps dest: b)+
  show "ucast (ucast d :: u64) = d" by (rule bit_word_eqI) (simp add: bit_simps)
qed

lemma packed_timestamp_parts:
  assumes "d < (16 :: byte)"
  shows "ucast (vote_packed_timestamp ts d AND NOT timestamp_mask) = d"
    and "vote_packed_timestamp ts d AND timestamp_mask = ts AND timestamp_mask"
proof -
  note s = take_bit_4_small [OF assms]
  have "take_bit 4 (push_bit 4 w) = 0" for w :: u64
    by (rule bit_word_eqI) (auto simp: bit_simps)
  then show "ucast (vote_packed_timestamp ts d AND NOT timestamp_mask) = d"
    by (simp add: vote_packed_timestamp_def timestamp_mask_bits s)
  have "push_bit 4 (drop_bit 4 (push_bit 4 (drop_bit 4 w))) = push_bit 4 (drop_bit 4 w)" for w :: u64
    by (rule bit_word_eqI) (auto simp: bit_simps)
  then show "vote_packed_timestamp ts d AND timestamp_mask = ts AND timestamp_mask"
    by (simp add: vote_packed_timestamp_def timestamp_mask_bits s)
qed

lemma packed_timestamp_final:
  assumes "d < (16 :: byte)"
  shows "vote_packed_timestamp ts d = - 1 \<longleftrightarrow>
    ts AND timestamp_mask = timestamp_mask \<and> d = duration_max"
proof
  assume "vote_packed_timestamp ts d = - 1"
  with packed_timestamp_parts [OF assms, of ts]
  show "ts AND timestamp_mask = timestamp_mask \<and> d = duration_max"
    by (simp add: timestamp_mask_def duration_max_def)
next
  assume "ts AND timestamp_mask = timestamp_mask \<and> d = duration_max"
  then show "vote_packed_timestamp ts d = - 1"
    by (simp add: vote_packed_timestamp_def timestamp_mask_def duration_max_def)
qed

lemma vote_blocks_equal_iff: "vote_blocks_equal is js \<longleftrightarrow> is = js"
proof (induction "is" js rule: vote_blocks_equal.induct)
  case (2 i "is" j js)
  then show ?case by (cases i; cases j) (auto simp: blocks_equal_iff)
qed auto

lemma vote_equal_iff: "vote_equal v w \<longleftrightarrow> v = w"
  by (auto simp: vote_equal_def vote_blocks_equal_iff)

section \<open>Properties\<close>

text \<open>
  C39: the binary form of a vote is exact.  \<open>deserialize\<close> returns a vote on exactly the bytes
  that \<open>serialize\<close> writes for it, and never a vote without blocks.
\<close>

theorem vote_binary_exact:
  "vote_deserialize s = Some v \<longleftrightarrow> s = vote_serialize v \<and> vote_blocks v \<noteq> []"
  using vote_serialize_deserialize vote_deserialize_serialize by blast

text \<open>
  The network form of a vote, with one type for all its items, is read back with the same hashes.  Blocks
  sent under the type \<open>not_a_block\<close> arrive as their hashes.
\<close>

theorem vote_network_round_trip:
  assumes "vote_blocks v \<noteq> []" and "list_all (item_fits t) (vote_blocks v)"
  shows "\<exists>w. vote_read_typed t (vote_serialize_typed c t v) = Some w \<and>
    vote_timestamp_m w = vote_timestamp_m v \<and> vote_account w = vote_account v \<and>
    vote_signature w = vote_signature v \<and>
    map (iterate_vote_blocks_as_hash c) (vote_blocks w) =
      map (iterate_vote_blocks_as_hash c) (vote_blocks v)"
  using vote_read_typed_serialize [OF assms, of c] by (simp add: comp_def)

theorem vote_network_round_trip_witness:
  "\<exists>w. vote_read_typed bt_not_a_block (vote_serialize_typed test_crypto bt_not_a_block
      \<lparr>vote_timestamp_m = 16, vote_blocks = [Vote_hash 1, Vote_hash 2], vote_account = 3,
       vote_signature = 4\<rparr>) = Some w \<and> vote_account w = 3"
  using vote_network_round_trip [of "\<lparr>vote_timestamp_m = 16, vote_blocks = [Vote_hash 1, Vote_hash 2],
      vote_account = 3, vote_signature = 4\<rparr>" bt_not_a_block test_crypto] by auto

text \<open>
  A timestamp and a duration of four bits share one word without loss.  The duration is
  read back; the timestamp is read back rounded down to a multiple of 16, except that the
  all-ones word of a final vote is returned whole.
\<close>

theorem vote_timestamp_packing:
  assumes "d < 16" and "vote_timestamp_m v = vote_packed_timestamp ts d"
  shows "vote_duration_bits v = d \<and>
    vote_timestamp v =
      (if ts AND timestamp_mask = timestamp_mask \<and> d = duration_max then - 1
       else ts AND timestamp_mask)"
  using packed_timestamp_parts [OF assms(1), of ts] packed_timestamp_final [OF assms(1), of ts] assms(2)
  by (auto simp: vote_duration_bits_def vote_timestamp_def)

theorem vote_timestamp_packing_witness:
  "vote_duration_bits \<lparr>vote_timestamp_m = vote_packed_timestamp 0x1234 9, vote_blocks = [],
     vote_account = 0, vote_signature = 0\<rparr> = 9"
  using vote_timestamp_packing [of 9 "\<lparr>vote_timestamp_m = vote_packed_timestamp 0x1234 9,
      vote_blocks = [], vote_account = 0, vote_signature = 0\<rparr>" "0x1234"] by simp

text \<open>
  \<open>full_hash\<close> reads only the first eight bytes of the account and of the signature, so two
  votes that differ in a later byte of the signature have the same full hash.
\<close>

theorem vote_full_hash_prefix:
  assumes "vote_timestamp_m v = vote_timestamp_m w" and "vote_blocks v = vote_blocks w"
    and "take 8 (write_be (vote_account v)) = take 8 (write_be (vote_account w))"
    and "take 8 (write_be (vote_signature v)) = take 8 (write_be (vote_signature w))"
  shows "vote_full_hash c v = vote_full_hash c w"
  using assms by (simp add: vote_full_hash_def vote_full_hash_input_def vote_hash_def vote_hash_input_def)

theorem vote_full_hash_prefix_witness:
  "vote_full_hash test_crypto \<lparr>vote_timestamp_m = 16, vote_blocks = [Vote_hash 1], vote_account = 3,
      vote_signature = 4\<rparr> =
   vote_full_hash test_crypto \<lparr>vote_timestamp_m = 16, vote_blocks = [Vote_hash 1], vote_account = 3,
      vote_signature = 5\<rparr>"
  by (rule vote_full_hash_prefix) (simp_all, code_simp)

end
