(* ===== verification/Store_Bytes.thy ===== *)
theory Store_Bytes
  imports Common_Data
begin

text \<open>
  The tables as the database sees them: byte strings to byte strings
  (\<^verbatim>\<open>secure/store_partial.hpp\<close> and \<^verbatim>\<open>secure/store/*_store_partial.hpp\<close>).  A locale states what
  makes a table of byte strings a table of values, and proves once that reading, writing and
  deleting through the codecs is reading, writing and deleting of a map.  It is interpreted
  for every table.  The block table needs more: its writer patches the successor of the
  previous block inside the stored bytes.
\<close>

section \<open>One table of the database\<close>

type_synonym db = "byte list \<rightharpoonup> byte list"

definition db_get :: "db \<Rightarrow> byte list \<Rightarrow> byte list option" where
  "db_get t key = t key"

definition db_put :: "db \<Rightarrow> byte list \<Rightarrow> byte list \<Rightarrow> db" where
  "db_put t key value_a = t(key \<mapsto> value_a)"

text \<open>
  The stores assert that a deletion succeeds; deleting a missing key ends the program
  (\<open>None\<close>).
\<close>

definition db_del :: "db \<Rightarrow> byte list \<Rightarrow> db option" where
  "db_del t key = (if t key = None then None else Some (t(key := None)))"

definition db_exists :: "db \<Rightarrow> byte list \<Rightarrow> bool" where
  "db_exists t key \<longleftrightarrow> t key \<noteq> None"

text \<open>Reading a value: the bytes found are given to the reader of the value's class.\<close>

definition db_get_value :: "'v reader \<Rightarrow> db \<Rightarrow> byte list \<Rightarrow> 'v option" where
  "db_get_value dec t key =
     (case db_get t key of None \<Rightarrow> None | Some bytes \<Rightarrow> map_option fst (dec bytes))"

section \<open>A table of values\<close>

definition table_rel ::
  "('k \<Rightarrow> byte list) \<Rightarrow> ('v \<Rightarrow> byte list) \<Rightarrow> ('v \<Rightarrow> bool) \<Rightarrow> db \<Rightarrow> ('k \<rightharpoonup> 'v) \<Rightarrow> bool" where
  "table_rel kenc venc ok t m \<longleftrightarrow>
     (\<forall>k. t (kenc k) = map_option venc (m k) \<and> (\<forall>v. m k = Some v \<longrightarrow> ok v))"

locale table = codec venc vdec vok
  for venc :: "'v \<Rightarrow> byte list" and vdec :: "'v reader" and vok :: "'v \<Rightarrow> bool" +
  fixes kenc :: "'k \<Rightarrow> byte list"
  assumes kenc_inject: "kenc j = kenc k \<Longrightarrow> j = k"
begin

lemma rel_empty: "table_rel kenc venc vok Map.empty Map.empty"
  by (simp add: table_rel_def)

lemma rel_get: "table_rel kenc venc vok t m \<Longrightarrow> db_get_value vdec t (kenc k) = m k"
  by (cases "m k") (auto simp: table_rel_def db_get_value_def db_get_def dec_enc_Nil)

lemma rel_exists: "table_rel kenc venc vok t m \<Longrightarrow> db_exists t (kenc k) \<longleftrightarrow> m k \<noteq> None"
  by (simp add: table_rel_def db_exists_def)

lemma rel_put:
  assumes "table_rel kenc venc vok t m" and "vok v"
  shows "table_rel kenc venc vok (db_put t (kenc k) (venc v)) (m(k \<mapsto> v))"
  using assms kenc_inject by (auto simp: table_rel_def db_put_def)

lemma rel_del:
  assumes "table_rel kenc venc vok t m"
  shows "db_del t (kenc k) = None \<longleftrightarrow> m k = None"
    and "db_del t (kenc k) = Some t' \<Longrightarrow> table_rel kenc venc vok t' (m(k := None))"
  using assms kenc_inject by (auto simp: table_rel_def db_del_def split: if_splits)

end

section \<open>The tables\<close>

text \<open>\<^verbatim>\<open>account_store_partial.hpp\<close>\<close>

definition raw_account_put :: "db \<Rightarrow> account \<Rightarrow> account_info \<Rightarrow> db" where
  "raw_account_put t account_a info_a = db_put t (write_be account_a) (account_info_db info_a)"

definition raw_account_get :: "db \<Rightarrow> account \<Rightarrow> account_info option" where
  "raw_account_get t account_a = db_get_value account_info_deserialize t (write_be account_a)"

definition raw_account_del :: "db \<Rightarrow> account \<Rightarrow> db option" where
  "raw_account_del t account_a = db_del t (write_be account_a)"

text \<open>\<^verbatim>\<open>pending_store_partial.hpp\<close>\<close>

definition raw_pending_put :: "db \<Rightarrow> pending_key \<Rightarrow> pending_info \<Rightarrow> db" where
  "raw_pending_put t key_a pending_info_a =
     db_put t (pending_key_db key_a) (pending_info_db pending_info_a)"

definition raw_pending_get :: "db \<Rightarrow> pending_key \<Rightarrow> pending_info option" where
  "raw_pending_get t key_a = db_get_value pending_info_deserialize t (pending_key_db key_a)"

definition raw_pending_del :: "db \<Rightarrow> pending_key \<Rightarrow> db option" where
  "raw_pending_del t key_a = db_del t (pending_key_db key_a)"

text \<open>\<^verbatim>\<open>frontier_store_partial.hpp\<close>: an absent frontier is the zero account.\<close>

definition raw_frontier_put :: "db \<Rightarrow> block_hash \<Rightarrow> account \<Rightarrow> db" where
  "raw_frontier_put t block_a account_a = db_put t (write_be block_a) (write_be account_a)"

definition raw_frontier_get :: "db \<Rightarrow> block_hash \<Rightarrow> account" where
  "raw_frontier_get t block_a = get_or 0 (db_get_value read_be t (write_be block_a))"

definition raw_frontier_del :: "db \<Rightarrow> block_hash \<Rightarrow> db option" where
  "raw_frontier_del t block_a = db_del t (write_be block_a)"

text \<open>\<^verbatim>\<open>confirmation_height_store_partial.hpp\<close>: the error flag and the out parameter, which is
  zeroed when nothing is found.\<close>

definition raw_confirmation_height_put :: "db \<Rightarrow> account \<Rightarrow> confirmation_height_info \<Rightarrow> db" where
  "raw_confirmation_height_put t account_a info_a =
     db_put t (write_be account_a) (confirmation_height_serialize info_a)"

definition raw_confirmation_height_get :: "db \<Rightarrow> account \<Rightarrow> bool \<times> confirmation_height_info" where
  "raw_confirmation_height_get t account_a =
     (case db_get_value confirmation_height_deserialize t (write_be account_a) of
        None \<Rightarrow> (True, \<lparr>ch_height = 0, ch_frontier = 0\<rparr>)
      | Some info \<Rightarrow> (False, info))"

definition raw_confirmation_height_exists :: "db \<Rightarrow> account \<Rightarrow> bool" where
  "raw_confirmation_height_exists t account_a = db_exists t (write_be account_a)"

definition raw_confirmation_height_del :: "db \<Rightarrow> account \<Rightarrow> db option" where
  "raw_confirmation_height_del t account_a = db_del t (write_be account_a)"

text \<open>\<^verbatim>\<open>pruned_store_partial.hpp\<close> and \<^verbatim>\<open>peer_store_partial.hpp\<close>: keys without a value.\<close>

definition write_unit :: "unit \<Rightarrow> byte list" where
  "write_unit u = []"

definition read_unit :: "unit reader" where
  "read_unit s = Some ((), s)"

definition raw_pruned_put :: "db \<Rightarrow> block_hash \<Rightarrow> db" where
  "raw_pruned_put t hash_a = db_put t (write_be hash_a) (write_unit ())"

definition raw_pruned_del :: "db \<Rightarrow> block_hash \<Rightarrow> db option" where
  "raw_pruned_del t hash_a = db_del t (write_be hash_a)"

definition raw_pruned_exists :: "db \<Rightarrow> block_hash \<Rightarrow> bool" where
  "raw_pruned_exists t hash_a = db_exists t (write_be hash_a)"

definition raw_peer_put :: "db \<Rightarrow> endpoint_key \<Rightarrow> db" where
  "raw_peer_put t endpoint_a = db_put t (endpoint_key_db endpoint_a) (write_unit ())"

definition raw_peer_del :: "db \<Rightarrow> endpoint_key \<Rightarrow> db option" where
  "raw_peer_del t endpoint_a = db_del t (endpoint_key_db endpoint_a)"

definition raw_peer_exists :: "db \<Rightarrow> endpoint_key \<Rightarrow> bool" where
  "raw_peer_exists t endpoint_a = db_exists t (endpoint_key_db endpoint_a)"

text \<open>\<^verbatim>\<open>unchecked_store_partial.hpp\<close>: the key is the dependency and the hash of the block.\<close>

definition raw_unchecked_put :: "crypto \<Rightarrow> db \<Rightarrow> u256 \<Rightarrow> unchecked_info \<Rightarrow> db" where
  "raw_unchecked_put c t dependency info_a =
     db_put t (unchecked_key_db (dependency, generate_hash c (ui_block info_a)))
       (unchecked_info_serialize info_a)"

definition raw_unchecked_exists :: "db \<Rightarrow> unchecked_key \<Rightarrow> bool" where
  "raw_unchecked_exists t key_a = db_exists t (unchecked_key_db key_a)"

definition raw_unchecked_del :: "db \<Rightarrow> unchecked_key \<Rightarrow> db option" where
  "raw_unchecked_del t key_a = db_del t (unchecked_key_db key_a)"

text \<open>\<^verbatim>\<open>online_weight_partial.hpp\<close>: the key is a time, written big endian so that the order of
  the table is the order of time.\<close>

definition raw_online_weight_put :: "db \<Rightarrow> u64 \<Rightarrow> amount \<Rightarrow> db" where
  "raw_online_weight_put t time_a amount_a = db_put t (write_be time_a) (write_be amount_a)"

definition raw_online_weight_del :: "db \<Rightarrow> u64 \<Rightarrow> db option" where
  "raw_online_weight_del t time_a = db_del t (write_be time_a)"

text \<open>
  \<^verbatim>\<open>final_vote_store_partial.hpp\<close>: the first hash stored for a root stays; the result says
  whether the given hash is the one that is stored.
\<close>

definition qualified_root_db :: "qualified_root \<Rightarrow> byte list" where
  "qualified_root_db r = write_be (fst r) @ write_be (snd r)"

definition raw_final_vote_put :: "db \<Rightarrow> qualified_root \<Rightarrow> block_hash \<Rightarrow> bool \<times> db" where
  "raw_final_vote_put t root_a hash_a =
     (case db_get_value read_be t (qualified_root_db root_a) of
        Some h \<Rightarrow> (h = hash_a, t)
      | None \<Rightarrow> (True, db_put t (qualified_root_db root_a) (write_be hash_a)))"

section \<open>Every table is a table of values\<close>

interpretation account_table: table account_info_db account_info_deserialize "\<lambda>_. True"
  "write_be :: account \<Rightarrow> byte list"
  by unfold_locales simp

interpretation pending_table: table pending_info_db pending_info_deserialize "\<lambda>_. True"
  pending_key_db
  by unfold_locales (simp add: pending_key_codec.enc_inject)

interpretation frontier_table: table "write_be :: account \<Rightarrow> byte list" read_be "\<lambda>_. True"
  "write_be :: block_hash \<Rightarrow> byte list"
  by unfold_locales simp

interpretation confirmation_height_table: table confirmation_height_serialize
  confirmation_height_deserialize "\<lambda>_. True" "write_be :: account \<Rightarrow> byte list"
  by unfold_locales simp

interpretation pruned_table: table write_unit read_unit "\<lambda>_. True"
  "write_be :: block_hash \<Rightarrow> byte list"
  by unfold_locales (simp_all add: write_unit_def read_unit_def)

interpretation peer_table: table write_unit read_unit "\<lambda>_. True" endpoint_key_db
  by unfold_locales (simp add: endpoint_key_codec.enc_inject)

interpretation unchecked_table: table unchecked_info_serialize unchecked_info_deserialize
  "\<lambda>_. True" unchecked_key_db
  by unfold_locales (simp add: unchecked_key_codec.enc_inject)

interpretation online_weight_table: table "write_be :: amount \<Rightarrow> byte list" read_be "\<lambda>_. True"
  "write_be :: u64 \<Rightarrow> byte list"
  by unfold_locales (simp add: be64.enc_inject)

interpretation final_vote_table: table "write_be :: block_hash \<Rightarrow> byte list" read_be "\<lambda>_. True"
  qualified_root_db
  by unfold_locales (auto simp: qualified_root_db_def)

section \<open>Properties\<close>

text \<open>
  The first final vote hash stored for a root stays.  Over the abstract table, \<open>put\<close>
  returns whether the stored hash is the given one, writes only when there is none, and a
  second \<open>put\<close> of another hash for the root fails and changes nothing.
\<close>

theorem final_vote_first_writer:
  assumes "table_rel qualified_root_db write_be (\<lambda>_. True) t m"
    and "raw_final_vote_put t r h = (ok, t')"
  shows "(ok \<longleftrightarrow> m r = None \<or> m r = Some h) \<and>
    table_rel qualified_root_db write_be (\<lambda>_. True) t' (if m r = None then m(r \<mapsto> h) else m) \<and>
    (h' \<noteq> get_or h (m r) \<longrightarrow> raw_final_vote_put t' r h' = (False, t'))"
  using assms final_vote_table.rel_put [OF assms(1) TrueI, of r h]
    final_vote_table.rel_get [OF assms(1), of r]
    final_vote_table.rel_get [OF final_vote_table.rel_put [OF assms(1) TrueI, of r h], of r]
  by (auto simp: raw_final_vote_put_def split: option.splits)

theorem final_vote_first_writer_witness:
  "raw_final_vote_put (snd (raw_final_vote_put Map.empty (1, 2) 3)) (1, 2) 4 =
     (False, snd (raw_final_vote_put Map.empty (1, 2) 3))"
  using final_vote_first_writer [OF final_vote_table.rel_empty, of "(1, 2)" 3
      "fst (raw_final_vote_put Map.empty (1, 2) 3)" "snd (raw_final_vote_put Map.empty (1, 2) 3)" 4]
  by simp

end
