(* ===== verification/Block_Table.thy ===== *)
theory Block_Table
  imports Store_Bytes
begin

text \<open>
  \<^verbatim>\<open>secure/store/block_store_partial.hpp\<close> twice: on the stored bytes, as the code does it, and on
  a map from hashes to blocks with their sideband.  The ledger is modelled over the map; the
  lemmas at the end show that the bytes implement it.
\<close>

section \<open>The table of blocks\<close>

type_synonym block_entry = "block \<times> block_sideband"
type_synonym block_table = "block_hash \<rightharpoonup> block_entry"

text \<open>\<open>fill_value\<close>: the previous block gets a successor.  A missing previous block is an invalid
  access.\<close>

definition block_fill_value :: "crypto \<Rightarrow> block_table \<Rightarrow> block \<Rightarrow> block_table option" where
  "block_fill_value c m b =
     (let hash = generate_hash c b in
      case m (block_previous b) of
        None \<Rightarrow> None
      | Some (p, sb) \<Rightarrow> Some (m(block_previous b \<mapsto> (p, sb\<lparr>sb_successor := hash\<rparr>))))"

fun block_predecessor_set :: "crypto \<Rightarrow> block_table \<Rightarrow> block \<Rightarrow> block_table option" where
  "block_predecessor_set c m (Send b) = block_fill_value c m (Send b)"
| "block_predecessor_set c m (Receive b) = block_fill_value c m (Receive b)"
| "block_predecessor_set c m (Open b) = Some m"
| "block_predecessor_set c m (Change b) = block_fill_value c m (Change b)"
| "block_predecessor_set c m (State b) =
     (if block_previous (State b) \<noteq> 0 then block_fill_value c m (State b) else Some m)"

definition block_put ::
  "crypto \<Rightarrow> block_table \<Rightarrow> block_hash \<Rightarrow> block \<Rightarrow> block_sideband \<Rightarrow> block_table option" where
  "block_put c m hash_a block_a sideband =
     block_predecessor_set c
       (m(hash_a \<mapsto> (block_a, sideband_stored (block_type_of block_a) sideband))) block_a"

definition block_get :: "block_table \<Rightarrow> block_hash \<Rightarrow> block_entry option" where
  "block_get m hash_a = m hash_a"

definition block_exists :: "block_table \<Rightarrow> block_hash \<Rightarrow> bool" where
  "block_exists m hash_a \<longleftrightarrow> m hash_a \<noteq> None"

definition block_successor :: "block_table \<Rightarrow> block_hash \<Rightarrow> block_hash" where
  "block_successor m hash_a = (case m hash_a of None \<Rightarrow> 0 | Some (b, sb) \<Rightarrow> sb_successor sb)"

definition block_successor_clear :: "block_table \<Rightarrow> block_hash \<Rightarrow> block_table option" where
  "block_successor_clear m hash_a =
     (case m hash_a of
        None \<Rightarrow> None
      | Some (b, sb) \<Rightarrow> Some (m(hash_a \<mapsto> (b, sb\<lparr>sb_successor := 0\<rparr>))))"

definition block_del :: "block_table \<Rightarrow> block_hash \<Rightarrow> block_table option" where
  "block_del m hash_a = (if m hash_a = None then None else Some (m(hash_a := None)))"

definition account_calculated :: "block_entry \<Rightarrow> account" where
  "account_calculated e =
     (let result = block_account (fst e) in if result = 0 then sb_account (snd e) else result)"

definition block_table_account :: "block_table \<Rightarrow> block_hash \<Rightarrow> account option" where
  "block_table_account m hash_a = map_option account_calculated (m hash_a)"

definition balance_calculated :: "block_entry \<Rightarrow> amount" where
  "balance_calculated e =
     (case fst e of
        Open b \<Rightarrow> sb_balance (snd e)
      | Receive b \<Rightarrow> sb_balance (snd e)
      | Change b \<Rightarrow> sb_balance (snd e)
      | Send b \<Rightarrow> send_balance (send_h b)
      | State b \<Rightarrow> state_balance (state_h b))"

definition block_table_balance :: "block_table \<Rightarrow> block_hash \<Rightarrow> amount option" where
  "block_table_balance m hash_a = map_option balance_calculated (m hash_a)"

definition block_version :: "block_table \<Rightarrow> block_hash \<Rightarrow> epoch" where
  "block_version m hash_a =
     (case m hash_a of
        Some (State b, sb) \<Rightarrow> bd_epoch (sb_details sb)
      | _ \<Rightarrow> epoch_0)"

definition block_account_height :: "block_table \<Rightarrow> block_hash \<Rightarrow> u64 option" where
  "block_account_height m hash_a = map_option (\<lambda>e. sb_height (snd e)) (m hash_a)"

section \<open>The table of bytes\<close>

definition block_entry_bytes :: "block_entry \<Rightarrow> byte list" where
  "block_entry_bytes e =
     serialize_block (fst e) @ sideband_serialize (block_type_of (fst e)) (snd e)"

definition raw_put :: "db \<Rightarrow> byte list \<Rightarrow> block_hash \<Rightarrow> db" where
  "raw_put t data hash_a = db_put t (write_be hash_a) data"

text \<open>Not found is an empty value.\<close>

definition block_raw_get :: "db \<Rightarrow> block_hash \<Rightarrow> byte list" where
  "block_raw_get t hash_a = (case db_get t (write_be hash_a) of None \<Rightarrow> [] | Some v \<Rightarrow> v)"

definition block_type_from_raw :: "byte list \<Rightarrow> block_type option" where
  "block_type_from_raw data_a = (case data_a of [] \<Rightarrow> None | b # _ \<Rightarrow> block_type_of_byte b)"

definition block_successor_offset :: "nat \<Rightarrow> block_type \<Rightarrow> nat" where
  "block_successor_offset entry_size_a type_a = entry_size_a - sideband_size type_a"

definition patch :: "byte list \<Rightarrow> nat \<Rightarrow> byte list \<Rightarrow> byte list" where
  "patch data offset bytes = take offset data @ bytes @ drop (offset + length bytes) data"

definition raw_fill_value :: "crypto \<Rightarrow> db \<Rightarrow> block \<Rightarrow> db option" where
  "raw_fill_value c t block_a =
     (let hash = generate_hash c block_a;
          data = block_raw_get t (block_previous block_a)
      in case block_type_from_raw data of
           None \<Rightarrow> None
         | Some type_a \<Rightarrow>
             Some (raw_put t
               (patch data (block_successor_offset (length data) type_a) (write_be hash))
               (block_previous block_a)))"

fun raw_predecessor_set :: "crypto \<Rightarrow> db \<Rightarrow> block \<Rightarrow> db option" where
  "raw_predecessor_set c t (Send b) = raw_fill_value c t (Send b)"
| "raw_predecessor_set c t (Receive b) = raw_fill_value c t (Receive b)"
| "raw_predecessor_set c t (Open b) = Some t"
| "raw_predecessor_set c t (Change b) = raw_fill_value c t (Change b)"
| "raw_predecessor_set c t (State b) =
     (if block_previous (State b) \<noteq> 0 then raw_fill_value c t (State b) else Some t)"

definition raw_block_put ::
  "crypto \<Rightarrow> db \<Rightarrow> block_hash \<Rightarrow> block \<Rightarrow> block_sideband \<Rightarrow> db option" where
  "raw_block_put c t hash_a block_a sideband =
     (let vector = serialize_block block_a @ sideband_serialize (block_type_of block_a) sideband
      in raw_predecessor_set c (raw_put t vector hash_a) block_a)"

text \<open>The three release assertions of \<open>get\<close> end the program: the outer \<open>None\<close>.\<close>

definition raw_block_get :: "db \<Rightarrow> block_hash \<Rightarrow> block_entry option option" where
  "raw_block_get t hash_a =
     (let value_a = block_raw_get t hash_a in
      if value_a \<noteq> [] then
        do { (b, s) \<leftarrow> read_be value_a;
             type_a \<leftarrow> block_type_of_byte b;
             (result, s) \<leftarrow> deserialize_block_typed type_a s;
             (sideband, s) \<leftarrow> sideband_deserialize type_a s;
             Some (Some (result, sideband)) }
      else Some None)"

definition raw_block_exists :: "db \<Rightarrow> block_hash \<Rightarrow> bool" where
  "raw_block_exists t hash_a \<longleftrightarrow> block_raw_get t hash_a \<noteq> []"

definition raw_block_successor :: "db \<Rightarrow> block_hash \<Rightarrow> block_hash option" where
  "raw_block_successor t hash_a =
     (let value_a = block_raw_get t hash_a in
      if value_a \<noteq> [] then
        do { type_a \<leftarrow> block_type_from_raw value_a;
             (result, s) \<leftarrow>
               read_be (take 32 (drop (block_successor_offset (length value_a) type_a) value_a));
             Some result }
      else Some 0)"

definition raw_block_successor_clear :: "db \<Rightarrow> block_hash \<Rightarrow> db option" where
  "raw_block_successor_clear t hash_a =
     (let value_a = block_raw_get t hash_a in
      case block_type_from_raw value_a of
        None \<Rightarrow> None
      | Some type_a \<Rightarrow>
          Some (raw_put t
            (patch value_a (block_successor_offset (length value_a) type_a) (replicate 32 0)) hash_a))"

definition raw_block_del :: "db \<Rightarrow> block_hash \<Rightarrow> db option" where
  "raw_block_del t hash_a = db_del t (write_be hash_a)"

section \<open>The bytes implement the map\<close>

definition entry_ok :: "block_entry \<Rightarrow> bool" where
  "entry_ok e \<longleftrightarrow> sideband_ok (block_type_of (fst e)) (snd e)"

definition block_entry_read :: "block_entry reader" where
  "block_entry_read s =
     (do { (b, s) \<leftarrow> deserialize_block s;
           (sb, s) \<leftarrow> sideband_deserialize (block_type_of b) s;
           Some ((b, sb), s) })"

interpretation block_table: table block_entry_bytes block_entry_read entry_ok
  "write_be :: block_hash \<Rightarrow> byte list"
proof
  fix x :: block_entry and s
  assume "entry_ok x"
  then show "block_entry_read (block_entry_bytes x @ s) = Some (x, s)"
    by (cases x) (simp add: block_entry_read_def block_entry_bytes_def block_codec.dec_enc
        codec_simps entry_ok_def sideband_ok_def)
qed simp

abbreviation block_rel :: "db \<Rightarrow> block_table \<Rightarrow> bool" where
  "block_rel \<equiv> table_rel write_be block_entry_bytes entry_ok"

lemma block_entry_bytes_type:
  "block_type_from_raw (block_entry_bytes e) = Some (block_type_of (fst e))"
  by (simp add: block_type_from_raw_def block_entry_bytes_def serialize_block_def write_be_def
      write_le_def split: list.splits)

lemma block_entry_bytes_nonempty [simp]: "block_entry_bytes e \<noteq> []"
  using block_entry_bytes_type [of e] by (auto simp: block_type_from_raw_def)

text \<open>Patching at the successor offset is updating the successor.\<close>

lemma patch_successor:
  assumes "length bytes = 32" and "bytes = write_be h"
  shows "patch (block_entry_bytes e)
      (block_successor_offset (length (block_entry_bytes e)) (block_type_of (fst e))) bytes =
    block_entry_bytes (fst e, (snd e)\<lparr>sb_successor := h\<rparr>)"
  using assms sideband_serialize_successor [of h "block_type_of (fst e)" "snd e"]
  by (simp add: patch_def block_successor_offset_def block_entry_bytes_def
      length_sideband_serialize)

lemma block_rel_raw_get:
  "block_rel t m \<Longrightarrow>
     block_raw_get t h = (case m h of None \<Rightarrow> [] | Some e \<Rightarrow> block_entry_bytes e)"
  by (simp add: table_rel_def block_raw_get_def db_get_def split: option.splits)

lemma block_rel_ok: "block_rel t m \<Longrightarrow> m h = Some e \<Longrightarrow> entry_ok e"
  by (cases e) (simp add: table_rel_def)

lemma block_rel_put:
  "block_rel t m \<Longrightarrow> entry_ok e \<Longrightarrow> block_rel (raw_put t (block_entry_bytes e) h) (m(h \<mapsto> e))"
  using block_table.rel_put [of t m e h] by (simp add: raw_put_def)

lemma entry_ok_successor: "entry_ok (b, sb) \<Longrightarrow> entry_ok (b, sb\<lparr>sb_successor := h\<rparr>)"
  by (simp add: entry_ok_def sideband_ok_def)

lemma raw_fill_value_refines:
  assumes "block_rel t m"
  shows "rel_option block_rel (raw_fill_value c t b) (block_fill_value c m b)"
proof (cases "m (block_previous b)")
  case None
  then show ?thesis
    using assms by (simp add: raw_fill_value_def block_fill_value_def block_rel_raw_get
        block_type_from_raw_def Let_def)
next
  case (Some e)
  then obtain p sb where e: "e = (p, sb)" by (cases e)
  have "entry_ok (p, sb\<lparr>sb_successor := generate_hash c b\<rparr>)"
    using assms Some e by (simp add: block_rel_ok entry_ok_successor)
  from block_rel_put [OF assms this, of "block_previous b"] show ?thesis
    using assms Some e patch_successor [of "write_be (generate_hash c b)" "generate_hash c b" e]
    by (simp add: raw_fill_value_def block_fill_value_def block_rel_raw_get
        block_entry_bytes_type Let_def)
qed

lemma raw_predecessor_set_refines:
  "block_rel t m \<Longrightarrow>
     rel_option block_rel (raw_predecessor_set c t b) (block_predecessor_set c m b)"
  by (cases b) (simp_all add: raw_fill_value_refines)

lemma block_entry_bytes_stored:
  "block_entry_bytes (b, sideband_stored (block_type_of b) sb) =
     serialize_block b @ sideband_serialize (block_type_of b) sb"
  by (cases b) (simp_all add: block_entry_bytes_def sideband_serialize_def sideband_stored_def
      details_serialize_def details_packed_unpack)

lemma raw_block_put_refines:
  assumes "block_rel t m"
  shows "rel_option block_rel (raw_block_put c t h b sb) (block_put c m h b sb)"
proof -
  let ?e = "(b, sideband_stored (block_type_of b) sb)"
  have "entry_ok ?e" by (simp add: entry_ok_def)
  from block_rel_put [OF assms this, of h] show ?thesis
    unfolding raw_block_put_def block_put_def Let_def block_entry_bytes_stored [symmetric]
    by (rule raw_predecessor_set_refines)
qed

lemma raw_block_get_refines:
  assumes "block_rel t m"
  shows "raw_block_get t h = Some (m h)"
proof (cases "m h")
  case None
  then show ?thesis using assms by (simp add: raw_block_get_def block_rel_raw_get)
next
  case (Some e)
  then obtain b sb where e: "e = (b, sb)" by (cases e)
  have "sideband_stored (block_type_of b) sb = sb"
    using assms Some e block_rel_ok by (fastforce simp: entry_ok_def sideband_ok_def)
  moreover have "sideband_deserialize t (sideband_serialize t sb) = Some (sideband_stored t sb, [])"
    for t using sideband_deserialize_serialize [of t sb "[]"] by simp
  ultimately show ?thesis
    using assms Some e
    by (simp add: raw_block_get_def block_rel_raw_get)
      (simp add: block_entry_bytes_def serialize_block_def codec_simps)
qed

lemma raw_block_successor_refines:
  assumes "block_rel t m"
  shows "raw_block_successor t h = Some (block_successor m h)"
proof (cases "m h")
  case None
  then show ?thesis
    using assms by (simp add: raw_block_successor_def block_successor_def block_rel_raw_get)
next
  case (Some e)
  then obtain b sb where e: "e = (b, sb)" by (cases e)
  have "take 32 (sideband_serialize t sb) = write_be (sb_successor sb)" for t
    by (simp add: sideband_serialize_def)
  then show ?thesis
    using assms Some e
    by (simp add: raw_block_successor_def block_successor_def block_rel_raw_get
        block_entry_bytes_type)
      (simp add: block_entry_bytes_def block_successor_offset_def length_sideband_serialize
        codec_simps)
qed

lemma raw_block_successor_clear_refines:
  assumes "block_rel t m"
  shows "rel_option block_rel (raw_block_successor_clear t h) (block_successor_clear m h)"
proof (cases "m h")
  case None
  then show ?thesis
    using assms by (simp add: raw_block_successor_clear_def block_successor_clear_def
        block_rel_raw_get block_type_from_raw_def)
next
  case (Some e)
  then obtain b sb where e: "e = (b, sb)" by (cases e)
  have zero: "replicate 32 0 = write_be (0 :: block_hash)" by (simp add: write_be_def write_le_def)
  have "entry_ok (b, sb\<lparr>sb_successor := 0\<rparr>)"
    using assms Some e by (simp add: block_rel_ok entry_ok_successor)
  from block_rel_put [OF assms this, of h] show ?thesis
    using assms Some e patch_successor [of "write_be (0 :: block_hash)" 0 e]
    by (simp add: raw_block_successor_clear_def block_successor_clear_def block_rel_raw_get
        block_entry_bytes_type zero Let_def)
qed

lemma raw_block_del_refines:
  "block_rel t m \<Longrightarrow> rel_option block_rel (raw_block_del t h) (block_del m h)"
  using block_table.rel_del [of t m h]
  by (cases "raw_block_del t h"; cases "m h") (auto simp: raw_block_del_def block_del_def)

lemma raw_block_exists_refines: "block_rel t m \<Longrightarrow> raw_block_exists t h = block_exists m h"
  by (auto simp: raw_block_exists_def block_exists_def block_rel_raw_get split: option.splits)

section \<open>Properties\<close>

text \<open>
  C40: the block table on bytes implements the block table on blocks.  Under the relation
  that every stored value is the encoding of its block and sideband, storing a block (which
  patches the successor inside the stored bytes of the previous block), clearing a
  successor and deleting give related tables and fail together, and reading a block or a
  successor gives the same result.
\<close>

theorem block_table_refines:
  assumes "block_rel t m"
  shows "rel_option block_rel (raw_block_put c t h b sb) (block_put c m h b sb) \<and>
    rel_option block_rel (raw_block_successor_clear t h) (block_successor_clear m h) \<and>
    rel_option block_rel (raw_block_del t h) (block_del m h) \<and>
    raw_block_get t h = Some (block_get m h) \<and>
    raw_block_successor t h = Some (block_successor m h) \<and>
    raw_block_exists t h = block_exists m h"
  using raw_block_put_refines [OF assms] raw_block_successor_clear_refines [OF assms]
    raw_block_del_refines [OF assms] raw_block_get_refines [OF assms]
    raw_block_successor_refines [OF assms] raw_block_exists_refines [OF assms]
  by (simp add: block_get_def)

text \<open>A receive block is stored behind a change block.\<close>

definition sample_row :: block_entry where
  "sample_row = (Change sample_change, sideband_stored bt_change block_sideband_default)"

theorem block_table_refines_witness:
  "\<exists>t' m'. raw_block_put test_crypto (raw_put Map.empty (block_entry_bytes sample_row) 1) 9 (Receive sample_receive)
       block_sideband_default = Some t' \<and>
     block_put test_crypto [1 \<mapsto> sample_row] 9 (Receive sample_receive) block_sideband_default = Some m' \<and>
     block_rel t' m' \<and> block_successor m' 1 = generate_hash test_crypto (Receive sample_receive)"
proof -
  have "entry_ok sample_row" by (simp add: sample_row_def entry_ok_def)
  from block_table_refines [OF block_rel_put [OF block_table.rel_empty this, of 1]]
  have "rel_option block_rel
      (raw_block_put test_crypto (raw_put Map.empty (block_entry_bytes sample_row) 1) 9 (Receive sample_receive) block_sideband_default)
      (block_put test_crypto [1 \<mapsto> sample_row] 9 (Receive sample_receive) block_sideband_default)" by blast
  moreover obtain m' where "block_put test_crypto [1 \<mapsto> sample_row] 9 (Receive sample_receive) block_sideband_default = Some m'"
    "block_successor m' 1 = generate_hash test_crypto (Receive sample_receive)"
    by (simp add: block_put_def block_fill_value_def sample_receive_def sample_row_def block_successor_def)
  ultimately show ?thesis by (auto simp: option_rel_Some2)
qed

end
