(* ===== verification/Rep_Weights.thy ===== *)
theory Rep_Weights
  imports Prelude
begin

text \<open>
  \<^verbatim>\<open>lib/rep_weights.cpp\<close>: the cache of the voting weight of each representative.  The
  container is a map; an absent representative has weight 0.  Weights are 128 bit numbers
  that wrap around, which the ledger uses to subtract by adding a negated amount.
\<close>

type_synonym rep_weights = "account \<rightharpoonup> amount"

definition rep_put :: "rep_weights \<Rightarrow> account \<Rightarrow> amount \<Rightarrow> rep_weights" where
  "rep_put rep_amounts account_a representation_a =
     (case rep_amounts account_a of
        Some _ \<Rightarrow> rep_amounts(account_a \<mapsto> representation_a)
      | None \<Rightarrow> rep_amounts(account_a \<mapsto> representation_a))"

definition rep_get :: "rep_weights \<Rightarrow> account \<Rightarrow> amount" where
  "rep_get rep_amounts account_a =
     (case rep_amounts account_a of Some amount \<Rightarrow> amount | None \<Rightarrow> 0)"

definition representation_add :: "rep_weights \<Rightarrow> account \<Rightarrow> amount \<Rightarrow> rep_weights" where
  "representation_add w source_rep_a amount_a =
     (let source_previous = rep_get w source_rep_a
      in rep_put w source_rep_a (source_previous + amount_a))"

definition representation_add_dual ::
  "rep_weights \<Rightarrow> account \<Rightarrow> amount \<Rightarrow> account \<Rightarrow> amount \<Rightarrow> rep_weights" where
  "representation_add_dual w source_rep_1 amount_1 source_rep_2 amount_2 =
     (if source_rep_1 \<noteq> source_rep_2 then
        let source_previous_1 = rep_get w source_rep_1;
            w = rep_put w source_rep_1 (source_previous_1 + amount_1);
            source_previous_2 = rep_get w source_rep_2
        in rep_put w source_rep_2 (source_previous_2 + amount_2)
      else representation_add w source_rep_1 (amount_1 + amount_2))"

definition representation_put :: "rep_weights \<Rightarrow> account \<Rightarrow> amount \<Rightarrow> rep_weights" where
  "representation_put w account_a representation_a = rep_put w account_a representation_a"

definition representation_get :: "rep_weights \<Rightarrow> account \<Rightarrow> amount" where
  "representation_get w account_a = rep_get w account_a"

text \<open>\<open>copy_from\<close> adds the entries of another cache, in the order of its iteration.\<close>

fun copy_from :: "rep_weights \<Rightarrow> (account \<times> amount) list \<Rightarrow> rep_weights" where
  "copy_from w [] = w"
| "copy_from w ((a, x) # entries) =
     (let prev_amount = rep_get w a in copy_from (rep_put w a (prev_amount + x)) entries)"

section \<open>Lemmas\<close>

lemma rep_get_put [simp]: "rep_get (rep_put w a x) b = (if a = b then x else rep_get w b)"
  by (simp add: rep_get_def rep_put_def split: option.splits)

text \<open>One addition changes one weight; a dual addition is two additions.\<close>

lemma rep_get_add [simp]:
  "rep_get (representation_add w r x) b = rep_get w b + (if b = r then x else 0)"
  by (simp add: representation_add_def Let_def)

lemma rep_get_add_dual [simp]:
  "rep_get (representation_add_dual w r x s y) b =
     rep_get w b + (if b = r then x else 0) + (if b = s then y else 0)"
  by (simp add: representation_add_dual_def Let_def)

lemma rep_get_copy_from:
  "rep_get (copy_from w es) b = rep_get w b + (\<Sum>(a, x)\<leftarrow>es. if a = b then x else 0)"
  by (induction w es rule: copy_from.induct) (auto simp: Let_def algebra_simps)

lemma representation_get_eq [simp]: "representation_get w a = rep_get w a"
  by (simp add: representation_get_def)

end
