(* ===== verification/Work.thy ===== *)
theory Work
  imports Block_Codec
begin

text \<open>
  The proof of work of \<^verbatim>\<open>lib/config.hpp\<close> and \<^verbatim>\<open>lib/config.cpp\<close>: the thresholds of a network,
  the value of a nonce, the threshold a block must reach to be processed and the threshold
  it must reach to enter the node.  The functions on floating point multipliers are not
  modelled.
\<close>

datatype work_version = work_unspecified | work_1

record work_thresholds =
  wt_epoch_1 :: u64
  wt_epoch_2 :: u64
  wt_epoch_2_receive :: u64
  wt_base :: u64
  wt_entry :: u64

text \<open>The constructor computes the last two fields.\<close>

definition make_work_thresholds :: "u64 \<Rightarrow> u64 \<Rightarrow> u64 \<Rightarrow> work_thresholds" where
  "make_work_thresholds epoch_1_a epoch_2_a epoch_2_receive_a =
     \<lparr>wt_epoch_1 = epoch_1_a, wt_epoch_2 = epoch_2_a, wt_epoch_2_receive = epoch_2_receive_a,
      wt_base = max (max epoch_1_a epoch_2_a) epoch_2_receive_a,
      wt_entry = min (min epoch_1_a epoch_2_a) epoch_2_receive_a\<rparr>"

definition publish_full :: work_thresholds where
  "publish_full =
     make_work_thresholds 0xf000000000000000 0xf000000000000000 0xf000000000000000"

definition publish_beta :: work_thresholds where
  "publish_beta =
     make_work_thresholds 0xf000000000000000 0xf000000000000000 0xf000000000000000"

definition publish_dev :: work_thresholds where
  "publish_dev =
     make_work_thresholds 0xf000000000000000 0xf000000000000000 0xf000000000000000"

definition work_threshold_entry :: "work_thresholds \<Rightarrow> work_version \<Rightarrow> block_type \<Rightarrow> u64" where
  "work_threshold_entry w version_a type_a =
     (if type_a = bt_state then
        (case version_a of work_1 \<Rightarrow> wt_entry w | _ \<Rightarrow> - 1)
      else wt_epoch_1 w)"

definition work_value :: "crypto \<Rightarrow> root \<Rightarrow> u64 \<Rightarrow> u64" where
  "work_value c root_a work_a = of_le (blake2b c 8 (write_le work_a @ write_be root_a))"

definition work_threshold_details :: "work_thresholds \<Rightarrow> block_details \<Rightarrow> u64" where
  "work_threshold_details w details_a =
     (if bd_epoch details_a = epoch_2 then
        (if bd_is_receive details_a \<or> bd_is_epoch details_a then wt_epoch_2_receive w
         else wt_epoch_2 w)
      else if bd_epoch details_a = epoch_1 \<or> bd_epoch details_a = epoch_0 then wt_epoch_1 w
      else - 1)"

definition work_threshold :: "work_thresholds \<Rightarrow> work_version \<Rightarrow> block_details \<Rightarrow> u64" where
  "work_threshold w version_a details_a =
     (case version_a of work_1 \<Rightarrow> work_threshold_details w details_a | _ \<Rightarrow> - 1)"

definition work_threshold_base :: "work_thresholds \<Rightarrow> work_version \<Rightarrow> u64" where
  "work_threshold_base w version_a = (case version_a of work_1 \<Rightarrow> wt_base w | _ \<Rightarrow> - 1)"

definition work_difficulty :: "crypto \<Rightarrow> work_version \<Rightarrow> root \<Rightarrow> u64 \<Rightarrow> u64" where
  "work_difficulty c version_a root_a work_a =
     (case version_a of work_1 \<Rightarrow> work_value c root_a work_a | _ \<Rightarrow> 0)"

definition block_work_version :: "block \<Rightarrow> work_version" where
  "block_work_version b = work_1"

definition work_difficulty_block :: "crypto \<Rightarrow> block \<Rightarrow> u64" where
  "work_difficulty_block c b = work_difficulty c (block_work_version b) (block_root b) (block_work b)"

text \<open>\<open>validate_entry\<close> returns true when the work is \<^emph>\<open>not\<close> sufficient.\<close>

definition work_validate_entry :: "crypto \<Rightarrow> work_thresholds \<Rightarrow> work_version \<Rightarrow> root \<Rightarrow> u64 \<Rightarrow> bool" where
  "work_validate_entry c w version_a root_a work_a =
     (work_difficulty c version_a root_a work_a < work_threshold_entry w version_a bt_state)"

definition work_validate_entry_block :: "crypto \<Rightarrow> work_thresholds \<Rightarrow> block \<Rightarrow> bool" where
  "work_validate_entry_block c w b =
     (work_difficulty_block c b < work_threshold_entry w (block_work_version b) (block_type_of b))"

section \<open>Lemmas\<close>

text \<open>Thresholds as the constructor builds them.\<close>

definition thresholds_ok :: "work_thresholds \<Rightarrow> bool" where
  "thresholds_ok w \<longleftrightarrow>
     wt_base w = max (max (wt_epoch_1 w) (wt_epoch_2 w)) (wt_epoch_2_receive w) \<and>
     wt_entry w = min (min (wt_epoch_1 w) (wt_epoch_2 w)) (wt_epoch_2_receive w)"

lemma thresholds_ok_make [simp]: "thresholds_ok (make_work_thresholds a b c)"
  by (simp add: thresholds_ok_def make_work_thresholds_def)

lemma thresholds_ok_le:
  assumes "thresholds_ok w"
  shows "wt_entry w \<le> wt_epoch_1 w" "wt_entry w \<le> wt_epoch_2 w" "wt_entry w \<le> wt_epoch_2_receive w"
    "wt_epoch_1 w \<le> wt_base w" "wt_epoch_2 w \<le> wt_base w" "wt_epoch_2_receive w \<le> wt_base w"
  using assms by (simp_all add: thresholds_ok_def min_le_iff_disj le_max_iff_disj)

lemma threshold_cases:
  "work_threshold w work_1 d \<in> {wt_epoch_1 w, wt_epoch_2 w, wt_epoch_2_receive w, - 1}"
  "bd_epoch d \<in> {epoch_0, epoch_1, epoch_2} \<Longrightarrow>
     work_threshold w work_1 d \<in> {wt_epoch_1 w, wt_epoch_2 w, wt_epoch_2_receive w}"
  "bd_epoch d \<noteq> epoch_2 \<Longrightarrow> work_threshold w work_1 d \<in> {wt_epoch_1 w, - 1}"
  by (auto simp: work_threshold_def work_threshold_details_def)

lemma threshold_bounds:
  assumes "thresholds_ok w" and "bd_epoch d \<in> {epoch_0, epoch_1, epoch_2}"
  shows "wt_entry w \<le> work_threshold w work_1 d" and "work_threshold w work_1 d \<le> wt_base w"
  using threshold_cases(2) [OF assms(2), of w] thresholds_ok_le [OF assms(1)] by auto

text \<open>Work that is enough for the ledger is enough to enter the node.\<close>

lemma threshold_entry_le:
  assumes "thresholds_ok w" and "t = bt_state \<or> bd_epoch d \<noteq> epoch_2"
  shows "work_threshold_entry w work_1 t \<le> work_threshold w work_1 d"
proof (cases "t = bt_state")
  case True
  then show ?thesis
    using threshold_cases(1) [of w d] thresholds_ok_le [OF assms(1)]
    by (auto simp: work_threshold_entry_def)
next
  case False
  then show ?thesis
    using threshold_cases(3) [of d w] assms(2) by (auto simp: work_threshold_entry_def)
qed

section \<open>Properties\<close>

text \<open>
  The threshold of a block of a known epoch lies between the entry threshold and the
  base threshold that the constructor computes, and a block whose work reaches its ledger
  threshold passes the entry check.
\<close>

theorem work_threshold_range:
  assumes "w = make_work_thresholds x y z" and "bd_epoch d \<in> {epoch_0, epoch_1, epoch_2}"
    and "block_type_of b = bt_state \<or> bd_epoch d \<noteq> epoch_2"
  shows "wt_entry w \<le> work_threshold w (block_work_version b) d \<and>
    work_threshold w (block_work_version b) d \<le> work_threshold_base w (block_work_version b) \<and>
    (work_threshold w (block_work_version b) d \<le> work_difficulty_block c b \<longrightarrow>
       \<not> work_validate_entry_block c w b)"
proof -
  have ok: "thresholds_ok w" by (simp add: assms(1))
  show ?thesis
    using threshold_bounds [OF ok assms(2)] threshold_entry_le [OF ok assms(3)]
    by (auto simp: block_work_version_def work_threshold_base_def work_validate_entry_block_def
        intro: order_trans)
qed

theorem work_threshold_range_witness:
  "wt_entry publish_full \<le> work_threshold publish_full work_1 block_details_default"
  using work_threshold_range [OF publish_full_def, of block_details_default "Receive sample_receive"]
  by (simp add: block_details_default_def block_work_version_def epoch_defs)

end
