(* ===== verification/Ledger_State.thy ===== *)
theory Ledger_State
  imports Block_Table Rep_Weights Work "HOL-Library.Product_Lexorder"
begin

text \<open>
  The state of the ledger (\<^verbatim>\<open>secure/ledger.hpp\<close>): the tables of the store it uses, the cache of
  \<^verbatim>\<open>secure/common.hpp\<close>, the constants of the network, and the operations of the store on that
  state.  An operation that the code asserts, or that would access a missing object, returns
  \<open>None\<close>: the program does not continue.
\<close>

section \<open>Ordered iteration\<close>

text \<open>
  An iterator that starts at a key runs over the entries with that key or a greater one, in
  the order of the keys.  The order of the database is the order of the key bytes, which for
  the big endian keys of these tables is the order of the numbers.
\<close>

definition table_from :: "('k::linorder \<rightharpoonup> 'v) \<Rightarrow> 'k \<Rightarrow> ('k \<times> 'v) list" where
  "table_from m key =
     map (\<lambda>k. (k, the (m k))) (filter (\<lambda>k. key \<le> k) (sorted_list_of_set (dom m)))"

definition table_all :: "('k::linorder \<rightharpoonup> 'v) \<Rightarrow> ('k \<times> 'v) list" where
  "table_all m = map (\<lambda>k. (k, the (m k))) (sorted_list_of_set (dom m))"

section \<open>Data\<close>

record store =
  st_blocks :: block_table
  st_frontiers :: "block_hash \<rightharpoonup> account"
  st_accounts :: "account \<rightharpoonup> account_info"
  st_pending :: "pending_key \<rightharpoonup> pending_info"
  st_confirmation_height :: "account \<rightharpoonup> confirmation_height_info"
  st_pruned :: "block_hash \<rightharpoonup> unit"

record ledger_cache =
  lc_rep_weights :: rep_weights
  lc_cemented_count :: u64
  lc_block_count :: u64
  lc_pruned_count :: u64
  lc_account_count :: u64
  lc_final_votes_confirmation_canary :: bool

record ledger_constants =
  k_work :: work_thresholds
  k_genesis :: block
  k_genesis_amount :: amount
  k_burn_account :: account
  k_epochs :: epochs
  k_final_votes_canary_account :: account
  k_final_votes_canary_height :: u64

record ledger =
  l_store :: store
  l_cache :: ledger_cache
  l_pruning :: bool

abbreviation blocks_of :: "ledger \<Rightarrow> block_table" where
  "blocks_of l \<equiv> st_blocks (l_store l)"

abbreviation frontiers_of :: "ledger \<Rightarrow> block_hash \<rightharpoonup> account" where
  "frontiers_of l \<equiv> st_frontiers (l_store l)"

abbreviation accounts_of :: "ledger \<Rightarrow> account \<rightharpoonup> account_info" where
  "accounts_of l \<equiv> st_accounts (l_store l)"

abbreviation pending_of :: "ledger \<Rightarrow> pending_key \<rightharpoonup> pending_info" where
  "pending_of l \<equiv> st_pending (l_store l)"

abbreviation heights_of :: "ledger \<Rightarrow> account \<rightharpoonup> confirmation_height_info" where
  "heights_of l \<equiv> st_confirmation_height (l_store l)"

abbreviation pruned_of :: "ledger \<Rightarrow> block_hash \<rightharpoonup> unit" where
  "pruned_of l \<equiv> st_pruned (l_store l)"

abbreviation weights_of :: "ledger \<Rightarrow> rep_weights" where
  "weights_of l \<equiv> lc_rep_weights (l_cache l)"

section \<open>Store operations on the ledger\<close>

definition store_block_put ::
  "crypto \<Rightarrow> ledger \<Rightarrow> block_hash \<Rightarrow> block \<Rightarrow> block_sideband \<Rightarrow> ledger option" where
  "store_block_put c l hash_a block_a sideband =
     do { bs \<leftarrow> block_put c (blocks_of l) hash_a block_a sideband;
          Some (l\<lparr>l_store := (l_store l)\<lparr>st_blocks := bs\<rparr>\<rparr>) }"

definition store_block_del :: "ledger \<Rightarrow> block_hash \<Rightarrow> ledger option" where
  "store_block_del l hash_a =
     do { bs \<leftarrow> block_del (blocks_of l) hash_a;
          Some (l\<lparr>l_store := (l_store l)\<lparr>st_blocks := bs\<rparr>\<rparr>) }"

definition store_block_successor_clear :: "ledger \<Rightarrow> block_hash \<Rightarrow> ledger option" where
  "store_block_successor_clear l hash_a =
     do { bs \<leftarrow> block_successor_clear (blocks_of l) hash_a;
          Some (l\<lparr>l_store := (l_store l)\<lparr>st_blocks := bs\<rparr>\<rparr>) }"

definition store_account_get :: "ledger \<Rightarrow> account \<Rightarrow> account_info option" where
  "store_account_get l account_a = accounts_of l account_a"

definition store_account_put :: "ledger \<Rightarrow> account \<Rightarrow> account_info \<Rightarrow> ledger" where
  "store_account_put l account_a info_a =
     l\<lparr>l_store := (l_store l)\<lparr>st_accounts := (accounts_of l)(account_a \<mapsto> info_a)\<rparr>\<rparr>"

definition store_account_del :: "ledger \<Rightarrow> account \<Rightarrow> ledger option" where
  "store_account_del l account_a =
     (if accounts_of l account_a = None then None
      else Some (l\<lparr>l_store := (l_store l)\<lparr>st_accounts := (accounts_of l)(account_a := None)\<rparr>\<rparr>))"

text \<open>\<open>exists\<close> and \<open>any\<close> position an iterator and compare the key found there.\<close>

definition store_account_exists :: "ledger \<Rightarrow> account \<Rightarrow> bool" where
  "store_account_exists l account_a =
     (case table_from (accounts_of l) account_a of [] \<Rightarrow> False | (a, i) # _ \<Rightarrow> a = account_a)"

definition store_pending_get :: "ledger \<Rightarrow> pending_key \<Rightarrow> pending_info option" where
  "store_pending_get l key_a = pending_of l key_a"

definition store_pending_put :: "ledger \<Rightarrow> pending_key \<Rightarrow> pending_info \<Rightarrow> ledger" where
  "store_pending_put l key_a info_a =
     l\<lparr>l_store := (l_store l)\<lparr>st_pending := (pending_of l)(key_a \<mapsto> info_a)\<rparr>\<rparr>"

definition store_pending_del :: "ledger \<Rightarrow> pending_key \<Rightarrow> ledger option" where
  "store_pending_del l key_a =
     (if pending_of l key_a = None then None
      else Some (l\<lparr>l_store := (l_store l)\<lparr>st_pending := (pending_of l)(key_a := None)\<rparr>\<rparr>))"

definition store_pending_exists :: "ledger \<Rightarrow> pending_key \<Rightarrow> bool" where
  "store_pending_exists l key_a =
     (case table_from (pending_of l) key_a of [] \<Rightarrow> False | (k, i) # _ \<Rightarrow> k = key_a)"

definition store_pending_any :: "ledger \<Rightarrow> account \<Rightarrow> bool" where
  "store_pending_any l account_a =
     (case table_from (pending_of l) (account_a, 0) of [] \<Rightarrow> False | (k, i) # _ \<Rightarrow> fst k = account_a)"

definition store_frontier_get :: "ledger \<Rightarrow> block_hash \<Rightarrow> account" where
  "store_frontier_get l block_a = get_or 0 (frontiers_of l block_a)"

definition store_frontier_put :: "ledger \<Rightarrow> block_hash \<Rightarrow> account \<Rightarrow> ledger" where
  "store_frontier_put l block_a account_a =
     l\<lparr>l_store := (l_store l)\<lparr>st_frontiers := (frontiers_of l)(block_a \<mapsto> account_a)\<rparr>\<rparr>"

definition store_frontier_del :: "ledger \<Rightarrow> block_hash \<Rightarrow> ledger option" where
  "store_frontier_del l block_a =
     (if frontiers_of l block_a = None then None
      else Some (l\<lparr>l_store := (l_store l)\<lparr>st_frontiers := (frontiers_of l)(block_a := None)\<rparr>\<rparr>))"

text \<open>The out parameter of a failed lookup has height 0 and frontier 0.\<close>

definition store_confirmation_height_get :: "ledger \<Rightarrow> account \<Rightarrow> bool \<times> confirmation_height_info" where
  "store_confirmation_height_get l account_a =
     (case heights_of l account_a of
        None \<Rightarrow> (True, \<lparr>ch_height = 0, ch_frontier = 0\<rparr>)
      | Some i \<Rightarrow> (False, i))"

definition store_confirmation_height_put ::
  "ledger \<Rightarrow> account \<Rightarrow> confirmation_height_info \<Rightarrow> ledger" where
  "store_confirmation_height_put l account_a info_a =
     l\<lparr>l_store := (l_store l)\<lparr>st_confirmation_height := (heights_of l)(account_a \<mapsto> info_a)\<rparr>\<rparr>"

definition store_pruned_exists :: "ledger \<Rightarrow> block_hash \<Rightarrow> bool" where
  "store_pruned_exists l hash_a \<longleftrightarrow> pruned_of l hash_a \<noteq> None"

definition store_pruned_put :: "ledger \<Rightarrow> block_hash \<Rightarrow> ledger" where
  "store_pruned_put l hash_a =
     l\<lparr>l_store := (l_store l)\<lparr>st_pruned := (pruned_of l)(hash_a \<mapsto> ())\<rparr>\<rparr>"

section \<open>Operations on the cache\<close>

definition cache_representation_add :: "ledger \<Rightarrow> account \<Rightarrow> amount \<Rightarrow> ledger" where
  "cache_representation_add l rep_a amount_a =
     l\<lparr>l_cache := (l_cache l)\<lparr>lc_rep_weights := representation_add (weights_of l) rep_a amount_a\<rparr>\<rparr>"

definition cache_representation_add_dual ::
  "ledger \<Rightarrow> account \<Rightarrow> amount \<Rightarrow> account \<Rightarrow> amount \<Rightarrow> ledger" where
  "cache_representation_add_dual l rep_1 amount_1 rep_2 amount_2 =
     l\<lparr>l_cache := (l_cache l)
         \<lparr>lc_rep_weights := representation_add_dual (weights_of l) rep_1 amount_1 rep_2 amount_2\<rparr>\<rparr>"

definition cache_block_count_add :: "ledger \<Rightarrow> u64 \<Rightarrow> ledger" where
  "cache_block_count_add l n =
     l\<lparr>l_cache := (l_cache l)\<lparr>lc_block_count := lc_block_count (l_cache l) + n\<rparr>\<rparr>"

definition cache_account_count_add :: "ledger \<Rightarrow> u64 \<Rightarrow> ledger" where
  "cache_account_count_add l n =
     l\<lparr>l_cache := (l_cache l)\<lparr>lc_account_count := lc_account_count (l_cache l) + n\<rparr>\<rparr>"

section \<open>Lemmas on iteration\<close>

lemma set_table_from:
  "finite (dom m) \<Longrightarrow> set (table_from m k) = {(j, v). m j = Some v \<and> k \<le> j}"
  by (force simp: table_from_def)

lemma set_table_all: "finite (dom m) \<Longrightarrow> set (table_all m) = {(j, v). m j = Some v}"
  by (force simp: table_all_def)

lemma table_from_sorted: "sorted_wrt (<) (map fst (table_from m k))"
  by (simp add: table_from_def comp_def strict_sorted_iff sorted_wrt_filter)

lemma table_from_hd:
  assumes "finite (dom m)" and "table_from m k = (j, v) # r"
  shows "m j = Some v" and "k \<le> j" and "m i = Some w \<Longrightarrow> k \<le> i \<Longrightarrow> j \<le> i"
proof -
  have s: "set (table_from m k) = {(j, v). m j = Some v \<and> k \<le> j}"
    using assms(1) by (rule set_table_from)
  have "(j, v) \<in> set (table_from m k)" using assms(2) by simp
  then show "m j = Some v" and "k \<le> j" using s by auto
  assume "m i = Some w" and "k \<le> i"
  then have "(i, w) \<in> set (table_from m k)" using s by simp
  moreover have "sorted_wrt (<) (map fst ((j, v) # r))"
    using table_from_sorted [of m k] assms(2) by simp
  ultimately show "j \<le> i" using assms(2) by fastforce
qed

lemma table_from_Nil:
  "finite (dom m) \<Longrightarrow> table_from m k = [] \<longleftrightarrow> (\<forall>j v. m j = Some v \<longrightarrow> \<not> k \<le> j)"
  by (auto simp: table_from_def filter_empty_conv)

text \<open>Positioning an iterator and comparing the key is a lookup.\<close>

lemma table_from_lookup:
  assumes "finite (dom m)"
  shows "(case table_from m k of [] \<Rightarrow> False | (j, v) # _ \<Rightarrow> j = k) \<longleftrightarrow> m k \<noteq> None"
proof (cases "table_from m k")
  case Nil
  then show ?thesis using assms table_from_Nil [of m k] by auto
next
  case (Cons x r)
  then obtain j v where x: "table_from m k = (j, v) # r" by (cases x) auto
  from table_from_hd [OF assms x] show ?thesis
    using x by (auto intro: order_antisym)
qed

lemma store_account_exists_iff:
  "finite (dom (accounts_of l)) \<Longrightarrow> store_account_exists l a \<longleftrightarrow> accounts_of l a \<noteq> None"
  unfolding store_account_exists_def by (rule table_from_lookup)

lemma store_pending_exists_iff:
  "finite (dom (pending_of l)) \<Longrightarrow> store_pending_exists l k \<longleftrightarrow> pending_of l k \<noteq> None"
  unfolding store_pending_exists_def by (rule table_from_lookup)

lemma store_pending_any_iff:
  assumes "finite (dom (pending_of l))"
  shows "store_pending_any l a \<longleftrightarrow> (\<exists>h. pending_of l (a, h) \<noteq> None)"
proof (cases "table_from (pending_of l) (a, 0)")
  case Nil
  then have "pending_of l (a, h) = None" for h
    using table_from_Nil [OF assms, of "(a, 0)"]
    by (cases "pending_of l (a, h)") (auto simp: less_eq_prod_def)
  with Nil show ?thesis by (simp add: store_pending_any_def)
next
  case (Cons x r)
  then obtain j h v where x: "table_from (pending_of l) (a, 0) = ((j, h), v) # r"
    by (cases x) auto
  note hd = table_from_hd [OF assms x]
  have "j = a" if "pending_of l (a, h') = Some w" for h' w
    using hd(2) hd(3) [OF that] by (auto simp: less_eq_prod_def)
  with hd(1) x show ?thesis by (auto simp: store_pending_any_def)
qed

end
