(* ===== verification/Ledger_Process.thy ===== *)
theory Ledger_Process
  imports Ledger_State
begin

text \<open>
  \<^verbatim>\<open>ledger_processor\<close> and \<^verbatim>\<open>ledger::process\<close> of \<^verbatim>\<open>secure/ledger.cpp\<close>: the checks a block passes before
  it enters the ledger and the changes it makes.  Each handler is the whole function of the
  source: a failed check sets the result code and returns; the changes are made in the order
  of the code.  The code reads the clock twice for a block, for the sideband and for the
  account: the two times are arguments.
\<close>

section \<open>Results\<close>

datatype process_result =
  pr_progress | pr_bad_signature | pr_old | pr_negative_spend | pr_fork | pr_unreceivable
| pr_gap_previous | pr_gap_source | pr_gap_epoch_open_pending | pr_opened_burn_account
| pr_balance_mismatch | pr_representative_mismatch | pr_block_position | pr_insufficient_work

text \<open>
  The processor: the ledger it changes, the three fields of \<open>process_return\<close> and the sideband
  set on the block.  The balance is \<open>None\<close> while it has not been assigned.
\<close>

record processor =
  p_ledger :: ledger
  p_code :: process_result
  p_verified :: signature_verification
  p_previous_balance :: "amount option"
  p_sideband :: "block_sideband option"

definition ledger_processor :: "ledger \<Rightarrow> signature_verification \<Rightarrow> processor" where
  "ledger_processor l verification_a =
     \<lparr>p_ledger = l, p_code = pr_progress, p_verified = verification_a, p_previous_balance = None,
      p_sideband = None\<rparr>"

section \<open>Functions of the ledger that the processor uses\<close>

definition block_or_pruned_exists :: "ledger \<Rightarrow> block_hash \<Rightarrow> bool" where
  "block_or_pruned_exists l hash_a =
     (if store_pruned_exists l hash_a then True else block_exists (blocks_of l) hash_a)"

definition ledger_balance :: "ledger \<Rightarrow> block_hash \<Rightarrow> amount option" where
  "ledger_balance l hash_a =
     (if hash_a = 0 then Some 0 else block_table_balance (blocks_of l) hash_a)"

definition is_epoch_link :: "ledger_constants \<Rightarrow> link \<Rightarrow> bool" where
  "is_epoch_link k link_a = epochs_is_epoch_link (k_epochs k) link_a"

definition epoch_signer :: "ledger_constants \<Rightarrow> link \<Rightarrow> account option" where
  "epoch_signer k link_a =
     do { e \<leftarrow> epochs_epoch (k_epochs k) link_a; epochs_signer (k_epochs k) e }"

definition update_account ::
  "ledger \<Rightarrow> account \<Rightarrow> account_info \<Rightarrow> account_info \<Rightarrow> ledger option" where
  "update_account l account_a old_a new_a =
     (if ai_head new_a \<noteq> 0 then
        let l = (if ai_head old_a = 0 \<and> ai_open_block new_a = ai_head new_a
                 then cache_account_count_add l 1 else l)
        in do { l \<leftarrow> (if ai_head old_a \<noteq> 0 \<and> ai_epoch old_a \<noteq> ai_epoch new_a
                     then store_account_del l account_a else Some l);
                Some (store_account_put l account_a new_a) }
      else
        do { l \<leftarrow> store_account_del l account_a;
             Some (cache_account_count_add l (- 1)) })"

text \<open>\<open>difficulty (block) >= threshold (work_version, details)\<close>\<close>

definition work_sufficient :: "crypto \<Rightarrow> ledger_constants \<Rightarrow> block \<Rightarrow> block_details \<Rightarrow> bool" where
  "work_sufficient c k b details =
     (work_threshold (k_work k) (block_work_version b) details \<le> work_difficulty_block c b)"

definition legacy_details :: block_details where
  "legacy_details =
     \<lparr>bd_epoch = epoch_0, bd_is_send = False, bd_is_receive = False, bd_is_epoch = False\<rparr>"

type_synonym times = "u64 \<times> u64"

section \<open>Legacy blocks\<close>

definition process_change ::
  "crypto \<Rightarrow> ledger_constants \<Rightarrow> times \<Rightarrow> change_block \<Rightarrow> processor \<Rightarrow> processor option" where
  "process_change c k now block_a p =
     (let l = p_ledger p; h = change_h block_a; hash = generate_hash c (Change block_a) in
      if block_or_pruned_exists l hash then Some (p\<lparr>p_code := pr_old\<rparr>)
      else case block_get (blocks_of l) (change_previous h) of
        None \<Rightarrow> Some (p\<lparr>p_code := pr_gap_previous\<rparr>)
      | Some previous \<Rightarrow>
        if \<not> change_valid_predecessor (fst previous) then Some (p\<lparr>p_code := pr_block_position\<rparr>)
        else let acct = store_frontier_get l (change_previous h) in
        if acct = 0 then Some (p\<lparr>p_code := pr_fork\<rparr>)
        else let info = get_or account_info_default (store_account_get l acct) in
        if p_verified p \<noteq> sv_valid \<and> validate_message c acct hash (change_signature block_a)
        then Some (p\<lparr>p_code := pr_bad_signature\<rparr>)
        else if \<not> work_sufficient c k (Change block_a) legacy_details
        then Some (p\<lparr>p_code := pr_insufficient_work\<rparr>)
        else
          let sb = \<lparr>sb_successor = 0, sb_account = acct, sb_balance = ai_balance info,
                    sb_height = ai_block_count info + 1, sb_timestamp = fst now,
                    sb_details = legacy_details, sb_source_epoch = epoch_0\<rparr>;
              new_info = \<lparr>ai_head = hash, ai_representative = change_representative h,
                          ai_open_block = ai_open_block info, ai_balance = ai_balance info,
                          ai_modified = snd now, ai_block_count = ai_block_count info + 1,
                          ai_epoch = epoch_0\<rparr>
          in do {
            l \<leftarrow> store_block_put c l hash (Change block_a) sb;
            balance \<leftarrow> ledger_balance l (change_previous h);
            let l = cache_representation_add_dual l (change_representative h) balance
                      (ai_representative info) (0 - balance);
            l \<leftarrow> update_account l acct info new_info;
            l \<leftarrow> store_frontier_del l (change_previous h);
            let l = store_frontier_put l hash acct;
            Some (p\<lparr>p_ledger := l, p_code := pr_progress, p_verified := sv_valid,
                    p_previous_balance := Some (ai_balance info), p_sideband := Some sb\<rparr>) })"

definition process_send ::
  "crypto \<Rightarrow> ledger_constants \<Rightarrow> times \<Rightarrow> send_block \<Rightarrow> processor \<Rightarrow> processor option" where
  "process_send c k now block_a p =
     (let l = p_ledger p; h = send_h block_a; hash = generate_hash c (Send block_a) in
      if block_or_pruned_exists l hash then Some (p\<lparr>p_code := pr_old\<rparr>)
      else case block_get (blocks_of l) (send_previous h) of
        None \<Rightarrow> Some (p\<lparr>p_code := pr_gap_previous\<rparr>)
      | Some previous \<Rightarrow>
        if \<not> send_valid_predecessor (fst previous) then Some (p\<lparr>p_code := pr_block_position\<rparr>)
        else let acct = store_frontier_get l (send_previous h) in
        if acct = 0 then Some (p\<lparr>p_code := pr_fork\<rparr>)
        else if p_verified p \<noteq> sv_valid \<and> validate_message c acct hash (send_signature block_a)
        then Some (p\<lparr>p_code := pr_bad_signature\<rparr>)
        else if \<not> work_sufficient c k (Send block_a) legacy_details
        then Some (p\<lparr>p_code := pr_insufficient_work\<rparr>)
        else let info = get_or account_info_default (store_account_get l acct) in
        if \<not> send_balance h \<le> ai_balance info
        then Some (p\<lparr>p_code := pr_negative_spend, p_verified := sv_valid\<rparr>)
        else
          let amount = ai_balance info - send_balance h;
              l = cache_representation_add l (ai_representative info) (0 - amount);
              sb = \<lparr>sb_successor = 0, sb_account = acct, sb_balance = send_balance h,
                    sb_height = ai_block_count info + 1, sb_timestamp = fst now,
                    sb_details = legacy_details, sb_source_epoch = epoch_0\<rparr>;
              new_info = \<lparr>ai_head = hash, ai_representative = ai_representative info,
                          ai_open_block = ai_open_block info, ai_balance = send_balance h,
                          ai_modified = snd now, ai_block_count = ai_block_count info + 1,
                          ai_epoch = epoch_0\<rparr>
          in do {
            l \<leftarrow> store_block_put c l hash (Send block_a) sb;
            l \<leftarrow> update_account l acct info new_info;
            let l = store_pending_put l (send_destination h, hash)
                      \<lparr>pi_source = acct, pi_amount = amount, pi_epoch = epoch_0\<rparr>;
            l \<leftarrow> store_frontier_del l (send_previous h);
            let l = store_frontier_put l hash acct;
            Some (p\<lparr>p_ledger := l, p_code := pr_progress, p_verified := sv_valid,
                    p_previous_balance := Some (ai_balance info), p_sideband := Some sb\<rparr>) })"

definition process_receive ::
  "crypto \<Rightarrow> ledger_constants \<Rightarrow> times \<Rightarrow> receive_block \<Rightarrow> processor \<Rightarrow> processor option" where
  "process_receive c k now block_a p =
     (let l = p_ledger p; h = receive_h block_a; hash = generate_hash c (Receive block_a) in
      if block_or_pruned_exists l hash then Some (p\<lparr>p_code := pr_old\<rparr>)
      else case block_get (blocks_of l) (receive_previous h) of
        None \<Rightarrow> Some (p\<lparr>p_code := pr_gap_previous\<rparr>)
      | Some previous \<Rightarrow>
        if \<not> receive_valid_predecessor (fst previous) then Some (p\<lparr>p_code := pr_block_position\<rparr>)
        else let acct = store_frontier_get l (receive_previous h) in
        if acct = 0 then
          Some (p\<lparr>p_code := (if block_exists (blocks_of l) (receive_previous h)
                             then pr_fork else pr_gap_previous)\<rparr>)
        else if p_verified p \<noteq> sv_valid \<and> validate_message c acct hash (receive_signature block_a)
        then Some (p\<lparr>p_code := pr_bad_signature\<rparr>)
        else let p = p\<lparr>p_verified := sv_valid\<rparr> in
        if \<not> block_or_pruned_exists l (receive_source h) then Some (p\<lparr>p_code := pr_gap_source\<rparr>)
        else let info = get_or account_info_default (store_account_get l acct) in
        if ai_head info \<noteq> receive_previous h then Some (p\<lparr>p_code := pr_gap_previous\<rparr>)
        else case store_pending_get l (acct, receive_source h) of
          None \<Rightarrow> Some (p\<lparr>p_code := pr_unreceivable\<rparr>)
        | Some pending \<Rightarrow>
          if pi_epoch pending \<noteq> epoch_0 then Some (p\<lparr>p_code := pr_unreceivable\<rparr>)
          else if \<not> work_sufficient c k (Receive block_a) legacy_details
          then Some (p\<lparr>p_code := pr_insufficient_work\<rparr>)
          else
            let new_balance = ai_balance info + pi_amount pending;
                sb = \<lparr>sb_successor = 0, sb_account = acct, sb_balance = new_balance,
                      sb_height = ai_block_count info + 1, sb_timestamp = fst now,
                      sb_details = legacy_details, sb_source_epoch = epoch_0\<rparr>;
                new_info = \<lparr>ai_head = hash, ai_representative = ai_representative info,
                            ai_open_block = ai_open_block info, ai_balance = new_balance,
                            ai_modified = snd now, ai_block_count = ai_block_count info + 1,
                            ai_epoch = epoch_0\<rparr>
            in do {
              l \<leftarrow> store_pending_del l (acct, receive_source h);
              l \<leftarrow> store_block_put c l hash (Receive block_a) sb;
              l \<leftarrow> update_account l acct info new_info;
              let l = cache_representation_add l (ai_representative info) (pi_amount pending);
              l \<leftarrow> store_frontier_del l (receive_previous h);
              let l = store_frontier_put l hash acct;
              Some (p\<lparr>p_ledger := l, p_code := pr_progress,
                      p_previous_balance := Some (ai_balance info), p_sideband := Some sb\<rparr>) })"

definition process_open ::
  "crypto \<Rightarrow> ledger_constants \<Rightarrow> times \<Rightarrow> open_block \<Rightarrow> processor \<Rightarrow> processor option" where
  "process_open c k now block_a p =
     (let l = p_ledger p; h = open_h block_a; hash = generate_hash c (Open block_a) in
      if block_or_pruned_exists l hash then Some (p\<lparr>p_code := pr_old\<rparr>)
      else if p_verified p \<noteq> sv_valid \<and>
              validate_message c (open_account h) hash (open_signature block_a)
      then Some (p\<lparr>p_code := pr_bad_signature\<rparr>)
      else let p = p\<lparr>p_verified := sv_valid\<rparr> in
      if \<not> block_or_pruned_exists l (open_source h) then Some (p\<lparr>p_code := pr_gap_source\<rparr>)
      else if store_account_get l (open_account h) \<noteq> None then Some (p\<lparr>p_code := pr_fork\<rparr>)
      else case store_pending_get l (open_account h, open_source h) of
        None \<Rightarrow> Some (p\<lparr>p_code := pr_unreceivable\<rparr>)
      | Some pending \<Rightarrow>
        if open_account h = k_burn_account k then Some (p\<lparr>p_code := pr_opened_burn_account\<rparr>)
        else if pi_epoch pending \<noteq> epoch_0 then Some (p\<lparr>p_code := pr_unreceivable\<rparr>)
        else if \<not> work_sufficient c k (Open block_a) legacy_details
        then Some (p\<lparr>p_code := pr_insufficient_work\<rparr>)
        else
          let sb = \<lparr>sb_successor = 0, sb_account = open_account h, sb_balance = pi_amount pending,
                    sb_height = 1, sb_timestamp = fst now,
                    sb_details = legacy_details, sb_source_epoch = epoch_0\<rparr>;
              new_info = \<lparr>ai_head = hash, ai_representative = open_representative h,
                          ai_open_block = hash, ai_balance = pi_amount pending,
                          ai_modified = snd now, ai_block_count = 1, ai_epoch = epoch_0\<rparr>
          in do {
            l \<leftarrow> store_pending_del l (open_account h, open_source h);
            l \<leftarrow> store_block_put c l hash (Open block_a) sb;
            l \<leftarrow> update_account l (open_account h) account_info_default new_info;
            let l = cache_representation_add l (open_representative h) (pi_amount pending);
            let l = store_frontier_put l hash (open_account h);
            Some (p\<lparr>p_ledger := l, p_code := pr_progress,
                    p_previous_balance := Some 0, p_sideband := Some sb\<rparr>) })"

section \<open>State blocks\<close>

text \<open>
  The last part of \<open>state_block_impl\<close>: the work check and the changes.  The arguments are the
  local variables of the function.
\<close>

definition state_block_commit ::
  "crypto \<Rightarrow> ledger_constants \<Rightarrow> times \<Rightarrow> state_block \<Rightarrow> processor \<Rightarrow> account_info \<Rightarrow> epoch \<Rightarrow> epoch \<Rightarrow>
     bool \<Rightarrow> bool \<Rightarrow> amount \<Rightarrow> processor option" where
  "state_block_commit c k now block_a p info epoch_l source_epoch is_send is_receive amount =
     (let l = p_ledger p; h = state_h block_a; hash = generate_hash c (State block_a);
          details = \<lparr>bd_epoch = epoch_l, bd_is_send = is_send, bd_is_receive = is_receive,
                     bd_is_epoch = False\<rparr>
      in
      if \<not> work_sufficient c k (State block_a) details
      then Some (p\<lparr>p_code := pr_insufficient_work\<rparr>)
      else
        let sb = \<lparr>sb_successor = 0, sb_account = state_account h, sb_balance = 0,
                  sb_height = ai_block_count info + 1, sb_timestamp = fst now,
                  sb_details = details, sb_source_epoch = source_epoch\<rparr>;
            new_info = \<lparr>ai_head = hash, ai_representative = state_representative h,
                        ai_open_block = (if ai_open_block info = 0 then hash else ai_open_block info),
                        ai_balance = state_balance h, ai_modified = snd now,
                        ai_block_count = ai_block_count info + 1, ai_epoch = epoch_l\<rparr>
        in do {
          l \<leftarrow> store_block_put c l hash (State block_a) sb;
          let l = (if ai_head info \<noteq> 0
                   then cache_representation_add_dual l (ai_representative info)
                          (0 - ai_balance info) (state_representative h) (state_balance h)
                   else cache_representation_add l (state_representative h) (state_balance h));
          l \<leftarrow> (if is_send then
                  Some (store_pending_put l (state_link h, hash)
                    \<lparr>pi_source = state_account h, pi_amount = amount, pi_epoch = epoch_l\<rparr>)
                else if state_link h \<noteq> 0 then store_pending_del l (state_account h, state_link h)
                else Some l);
          l \<leftarrow> update_account l (state_account h) info new_info;
          l \<leftarrow> (if store_frontier_get l (ai_head info) \<noteq> 0
                then store_frontier_del l (ai_head info) else Some l);
          Some (p\<lparr>p_ledger := l, p_code := pr_progress, p_sideband := Some sb\<rparr>) })"

text \<open>The middle part: the source of a block that does not send.\<close>

definition state_block_source ::
  "crypto \<Rightarrow> ledger_constants \<Rightarrow> times \<Rightarrow> state_block \<Rightarrow> processor \<Rightarrow> account_info \<Rightarrow> epoch \<Rightarrow>
     bool \<Rightarrow> bool \<Rightarrow> amount \<Rightarrow> processor option" where
  "state_block_source c k now block_a p info epoch_l is_send is_receive amount =
     (let l = p_ledger p; h = state_h block_a in
      if \<not> is_send then
        if state_link h \<noteq> 0 then
          if \<not> block_or_pruned_exists l (state_link h) then Some (p\<lparr>p_code := pr_gap_source\<rparr>)
          else case store_pending_get l (state_account h, state_link h) of
            None \<Rightarrow> Some (p\<lparr>p_code := pr_unreceivable\<rparr>)
          | Some pending \<Rightarrow>
            if amount \<noteq> pi_amount pending then Some (p\<lparr>p_code := pr_balance_mismatch\<rparr>)
            else state_block_commit c k now block_a p info (max epoch_l (pi_epoch pending))
                   (pi_epoch pending) is_send is_receive amount
        else if amount \<noteq> 0 then Some (p\<lparr>p_code := pr_balance_mismatch\<rparr>)
        else state_block_commit c k now block_a p info epoch_l epoch_0 is_send is_receive amount
      else state_block_commit c k now block_a p info epoch_l epoch_0 is_send is_receive amount)"

definition state_block_impl ::
  "crypto \<Rightarrow> ledger_constants \<Rightarrow> times \<Rightarrow> state_block \<Rightarrow> processor \<Rightarrow> processor option" where
  "state_block_impl c k now block_a p =
     (let l = p_ledger p; h = state_h block_a; hash = generate_hash c (State block_a) in
      if block_or_pruned_exists l hash then Some (p\<lparr>p_code := pr_old\<rparr>)
      else if p_verified p \<noteq> sv_valid \<and>
              validate_message c (state_account h) hash (state_signature block_a)
      then Some (p\<lparr>p_code := pr_bad_signature\<rparr>)
      else let p = p\<lparr>p_verified := sv_valid\<rparr> in
      if state_account h = 0 then Some (p\<lparr>p_code := pr_opened_burn_account\<rparr>)
      else case store_account_get l (state_account h) of
        Some info \<Rightarrow>
          let p = p\<lparr>p_previous_balance := Some (ai_balance info)\<rparr> in
          if state_previous h = 0 then Some (p\<lparr>p_code := pr_fork\<rparr>)
          else if \<not> block_exists (blocks_of l) (state_previous h)
          then Some (p\<lparr>p_code := pr_gap_previous\<rparr>)
          else
            let is_send = state_balance h < ai_balance info;
                is_receive = (\<not> is_send \<and> state_link h \<noteq> 0);
                amount = (if is_send then ai_balance info - state_balance h
                          else state_balance h - ai_balance info)
            in if state_previous h \<noteq> ai_head info then Some (p\<lparr>p_code := pr_fork\<rparr>)
               else state_block_source c k now block_a p info (ai_epoch info) is_send is_receive amount
      | None \<Rightarrow>
          let p = p\<lparr>p_previous_balance := Some 0\<rparr> in
          if state_previous h \<noteq> 0 then Some (p\<lparr>p_code := pr_gap_previous\<rparr>)
          else if state_link h = 0 then Some (p\<lparr>p_code := pr_gap_source\<rparr>)
          else state_block_source c k now block_a p account_info_default epoch_0 False True
                 (state_balance h))"

section \<open>Epoch blocks\<close>

text \<open>The result says whether the block is an epoch block; the code may be set to an error.\<close>

definition validate_epoch_block ::
  "crypto \<Rightarrow> ledger_constants \<Rightarrow> state_block \<Rightarrow> processor \<Rightarrow> (bool \<times> processor) option" where
  "validate_epoch_block c k block_a p =
     (let l = p_ledger p; h = state_h block_a; hash = generate_hash c (State block_a) in
      if state_previous h \<noteq> 0 then
        if block_exists (blocks_of l) (state_previous h) then
          do { prev_balance \<leftarrow> ledger_balance l (state_previous h);
               Some (state_balance h = prev_balance, p\<lparr>p_code := pr_progress\<rparr>) }
        else
          let p = p\<lparr>p_code := pr_gap_previous\<rparr> in
          if p_verified p = sv_unknown then
            if validate_message c (state_account h) hash (state_signature block_a) then
              do { signer \<leftarrow> epoch_signer k (state_link h);
                   if validate_message c signer hash (state_signature block_a)
                   then Some (state_balance h = 0,
                              p\<lparr>p_verified := sv_invalid, p_code := pr_bad_signature\<rparr>)
                   else Some (state_balance h = 0, p\<lparr>p_verified := sv_valid_epoch\<rparr>) }
            else Some (state_balance h = 0, p\<lparr>p_verified := sv_valid\<rparr>)
          else Some (state_balance h = 0, p)
      else Some (state_balance h = 0, p))"

text \<open>The last part of \<open>epoch_block_impl\<close>: position, balance, work and the changes.\<close>

definition epoch_block_commit ::
  "crypto \<Rightarrow> ledger_constants \<Rightarrow> times \<Rightarrow> state_block \<Rightarrow> processor \<Rightarrow> bool \<Rightarrow> account_info \<Rightarrow>
     processor option" where
  "epoch_block_commit c k now block_a p account_error info =
     (let l = p_ledger p; h = state_h block_a; hash = generate_hash c (State block_a) in
      do {
        epoch_l \<leftarrow> epochs_epoch (k_epochs k) (state_link h);
        if \<not> (if account_error then 0 < epoch_l else is_sequential (ai_epoch info) epoch_l)
        then Some (p\<lparr>p_code := pr_block_position\<rparr>)
        else if state_balance h \<noteq> ai_balance info then Some (p\<lparr>p_code := pr_balance_mismatch\<rparr>)
        else
          let details = \<lparr>bd_epoch = epoch_l, bd_is_send = False, bd_is_receive = False,
                         bd_is_epoch = True\<rparr> in
          if \<not> work_sufficient c k (State block_a) details
          then Some (p\<lparr>p_code := pr_insufficient_work\<rparr>)
          else
            let sb = \<lparr>sb_successor = 0, sb_account = state_account h, sb_balance = 0,
                      sb_height = ai_block_count info + 1, sb_timestamp = fst now,
                      sb_details = details, sb_source_epoch = epoch_0\<rparr>;
                new_info = \<lparr>ai_head = hash, ai_representative = state_representative h,
                            ai_open_block = (if ai_open_block info = 0 then hash else ai_open_block info),
                            ai_balance = ai_balance info, ai_modified = snd now,
                            ai_block_count = ai_block_count info + 1, ai_epoch = epoch_l\<rparr>
            in do {
              l \<leftarrow> store_block_put c l hash (State block_a) sb;
              l \<leftarrow> update_account l (state_account h) info new_info;
              l \<leftarrow> (if store_frontier_get l (ai_head info) \<noteq> 0
                    then store_frontier_del l (ai_head info) else Some l);
              Some (p\<lparr>p_ledger := l, p_code := pr_progress, p_sideband := Some sb\<rparr>) } })"

definition epoch_block_impl ::
  "crypto \<Rightarrow> ledger_constants \<Rightarrow> times \<Rightarrow> state_block \<Rightarrow> processor \<Rightarrow> processor option" where
  "epoch_block_impl c k now block_a p =
     (let l = p_ledger p; h = state_h block_a; hash = generate_hash c (State block_a) in
      if block_or_pruned_exists l hash then Some (p\<lparr>p_code := pr_old\<rparr>)
      else do {
        bad \<leftarrow> (if p_verified p \<noteq> sv_valid_epoch
               then do { signer \<leftarrow> epoch_signer k (state_link h);
                         Some (validate_message c signer hash (state_signature block_a)) }
               else Some False);
        if bad then Some (p\<lparr>p_code := pr_bad_signature\<rparr>)
        else
          let p = p\<lparr>p_verified := sv_valid_epoch\<rparr> in
          if state_account h = 0 then Some (p\<lparr>p_code := pr_opened_burn_account\<rparr>)
          else case store_account_get l (state_account h) of
            Some info \<Rightarrow>
              let p = p\<lparr>p_previous_balance := Some (ai_balance info)\<rparr> in
              if state_previous h = 0 then Some (p\<lparr>p_code := pr_fork\<rparr>)
              else if state_previous h \<noteq> ai_head info then Some (p\<lparr>p_code := pr_fork\<rparr>)
              else if state_representative h \<noteq> ai_representative info
              then Some (p\<lparr>p_code := pr_representative_mismatch\<rparr>)
              else epoch_block_commit c k now block_a p False info
          | None \<Rightarrow>
              let p = p\<lparr>p_previous_balance := Some 0\<rparr> in
              if state_representative h \<noteq> 0 then Some (p\<lparr>p_code := pr_representative_mismatch\<rparr>)
              else if \<not> store_pending_any l (state_account h)
              then Some (p\<lparr>p_code := pr_gap_epoch_open_pending\<rparr>)
              else epoch_block_commit c k now block_a p True account_info_default })"

definition process_state ::
  "crypto \<Rightarrow> ledger_constants \<Rightarrow> times \<Rightarrow> state_block \<Rightarrow> processor \<Rightarrow> processor option" where
  "process_state c k now block_a p =
     (let p = p\<lparr>p_code := pr_progress\<rparr> in
      do {
        (is_epoch_block, p) \<leftarrow>
          (if is_epoch_link k (state_link (state_h block_a)) then validate_epoch_block c k block_a p
           else Some (False, p));
        if p_code p = pr_progress then
          (if is_epoch_block then epoch_block_impl c k now block_a p
           else state_block_impl c k now block_a p)
        else Some p })"

section \<open>Processing a block\<close>

fun process_visit ::
  "crypto \<Rightarrow> ledger_constants \<Rightarrow> times \<Rightarrow> block \<Rightarrow> processor \<Rightarrow> processor option" where
  "process_visit c k now (Send b) p = process_send c k now b p"
| "process_visit c k now (Receive b) p = process_receive c k now b p"
| "process_visit c k now (Open b) p = process_open c k now b p"
| "process_visit c k now (Change b) p = process_change c k now b p"
| "process_visit c k now (State b) p = process_state c k now b p"

definition process ::
  "crypto \<Rightarrow> ledger_constants \<Rightarrow> times \<Rightarrow> ledger \<Rightarrow> block \<Rightarrow> signature_verification \<Rightarrow> processor option" where
  "process c k now l block_a verification_a =
     do { p \<leftarrow> process_visit c k now block_a (ledger_processor l verification_a);
          if p_code p = pr_progress
          then Some (p\<lparr>p_ledger := cache_block_count_add (p_ledger p) 1\<rparr>) else Some p }"

end
