(* ===== verification/Ledger_Queries.thy ===== *)
theory Ledger_Queries
  imports Ledger_Process
begin

text \<open>
  The functions of \<^verbatim>\<open>secure/ledger.cpp\<close> that read the ledger, with the loop of
  \<^verbatim>\<open>representative_visitor\<close> (\<^verbatim>\<open>secure/store.cpp\<close>), the parallel traversal of the tables and the
  initialization of store and cache.  A read of a missing object ends the program: \<open>None\<close>, or
  \<open>Abort\<close> in a loop.
\<close>

section \<open>Loops\<close>

text \<open>
  The result of a loop that is given a number of steps: it ran out of steps, the program was
  aborted, or it returned.
\<close>

datatype 'a run = Timeout | Abort | Done 'a

fun run_bind :: "'a run \<Rightarrow> ('a \<Rightarrow> 'b run) \<Rightarrow> 'b run" where
  "run_bind Timeout f = Timeout"
| "run_bind Abort f = Abort"
| "run_bind (Done x) f = f x"

definition run_of :: "'a option \<Rightarrow> 'a run" where
  "run_of x = (case x of None \<Rightarrow> Abort | Some y \<Rightarrow> Done y)"

lemma run_bind_cong [fundef_cong]:
  "m = m' \<Longrightarrow> (\<And>x. m' = Done x \<Longrightarrow> f x = g x) \<Longrightarrow> run_bind m f = run_bind m' g"
  by (cases m') auto

lemma run_of_simps [simp]: "run_of None = Abort" "run_of (Some x) = Done x"
  by (simp_all add: run_of_def)

lemma run_bind_Done: "run_bind m f = Done y \<longleftrightarrow> (\<exists>x. m = Done x \<and> f x = Done y)"
  by (cases m) auto

lemma run_of_Done: "run_of x = Done y \<longleftrightarrow> x = Some y"
  by (cases x) auto

section \<open>Blocks and balances\<close>

definition ledger_account :: "ledger \<Rightarrow> block_hash \<Rightarrow> account option" where
  "ledger_account l hash_a = block_table_account (blocks_of l) hash_a"

text \<open>The flag is the out parameter \<open>error_a\<close>; it is never cleared.\<close>

definition account_safe :: "ledger \<Rightarrow> block_hash \<Rightarrow> bool \<Rightarrow> (account \<times> bool) option" where
  "account_safe l hash_a error_a =
     (if \<not> l_pruning l then
        do { a \<leftarrow> block_table_account (blocks_of l) hash_a; Some (a, error_a) }
      else case block_get (blocks_of l) hash_a of
        Some block \<Rightarrow> Some (account_calculated block, error_a)
      | None \<Rightarrow> Some (0, True))"

definition balance_safe :: "ledger \<Rightarrow> block_hash \<Rightarrow> bool \<Rightarrow> (amount \<times> bool) option" where
  "balance_safe l hash_a error_a =
     (if l_pruning l \<and> hash_a \<noteq> 0 \<and> \<not> block_exists (blocks_of l) hash_a then Some (0, True)
      else do { b \<leftarrow> ledger_balance l hash_a; Some (b, error_a) })"

definition amount_difference :: "amount \<Rightarrow> amount \<Rightarrow> amount" where
  "amount_difference b p =
     (if p < b then b - p else p - b)"

definition ledger_amount :: "ledger \<Rightarrow> block_hash \<Rightarrow> amount option" where
  "ledger_amount l hash_a =
     do { block_balance \<leftarrow> ledger_balance l hash_a;
          block \<leftarrow> block_get (blocks_of l) hash_a;
          previous_balance \<leftarrow> ledger_balance l (block_previous (fst block));
          Some (amount_difference block_balance previous_balance) }"

definition amount_safe :: "ledger \<Rightarrow> block_hash \<Rightarrow> bool \<Rightarrow> (amount \<times> bool) option" where
  "amount_safe l hash_a error_a =
     do { block_balance \<leftarrow> ledger_balance l hash_a;
          block \<leftarrow> block_get (blocks_of l) hash_a;
          (previous_balance, error_a) \<leftarrow> balance_safe l (block_previous (fst block)) error_a;
          Some (if error_a then 0 else amount_difference block_balance previous_balance, error_a) }"

definition latest :: "ledger \<Rightarrow> account \<Rightarrow> block_hash" where
  "latest l account_a =
     (case store_account_get l account_a of None \<Rightarrow> 0 | Some info \<Rightarrow> ai_head info)"

definition latest_root :: "ledger \<Rightarrow> account \<Rightarrow> root" where
  "latest_root l account_a =
     (case store_account_get l account_a of None \<Rightarrow> account_a | Some info \<Rightarrow> ai_head info)"

definition root_exists :: "ledger \<Rightarrow> root \<Rightarrow> bool" where
  "root_exists l root_a = (block_exists (blocks_of l) root_a \<or> store_account_exists l root_a)"

definition block_confirmed :: "ledger \<Rightarrow> block_hash \<Rightarrow> bool" where
  "block_confirmed l hash_a =
     (if store_pruned_exists l hash_a then True
      else case block_get (blocks_of l) hash_a of
        Some block \<Rightarrow>
          let (_, info) = store_confirmation_height_get l
                (if block_account (fst block) = 0 then sb_account (snd block)
                 else block_account (fst block))
          in sb_height (snd block) \<le> ch_height info
      | None \<Rightarrow> False)"

definition account_balance :: "ledger \<Rightarrow> account \<Rightarrow> bool \<Rightarrow> amount option" where
  "account_balance l account_a only_confirmed_a =
     (if only_confirmed_a then
        (case store_confirmation_height_get l account_a of
           (False, info) \<Rightarrow> ledger_balance l (ch_frontier info)
         | (True, info) \<Rightarrow> Some 0)
      else
        (case store_account_get l account_a of
           Some info \<Rightarrow> Some (ai_balance info)
         | None \<Rightarrow> Some 0))"

text \<open>
  An iterator is the list of the entries from its position on.  A loop that does not meet its
  end iterator reads past the last entry: \<open>None\<close>.
\<close>

fun iter_between :: "'a list \<Rightarrow> 'a list \<Rightarrow> 'a list option" where
  "iter_between i n =
     (if i = n then Some []
      else case i of [] \<Rightarrow> None | x # i' \<Rightarrow> map_option ((#) x) (iter_between i' n))"

declare iter_between.simps [simp del]

definition account_receivable :: "ledger \<Rightarrow> account \<Rightarrow> bool \<Rightarrow> amount option" where
  "account_receivable l account_a only_confirmed_a =
     (let end_a = account_a + 1 in
      do { entries \<leftarrow> iter_between (table_from (pending_of l) (account_a, 0))
                        (table_from (pending_of l) (end_a, 0));
           Some (fold (\<lambda>(key, info) result.
                    if only_confirmed_a
                    then (if block_confirmed l (snd key) then result + pi_amount info else result)
                    else result + pi_amount info) entries 0) })"

text \<open>
  \<open>weight\<close>: while the ledger has few blocks the weights of the bootstrap file are used.  The
  result carries the flag \<open>check_bootstrap_weights\<close>, which is cleared once the ledger is large.
\<close>

definition ledger_weight ::
  "ledger \<Rightarrow> (account \<rightharpoonup> amount) \<Rightarrow> u64 \<Rightarrow> bool \<Rightarrow> account \<Rightarrow> amount \<times> bool" where
  "ledger_weight l bootstrap_weights bootstrap_weight_max_blocks check_bootstrap_weights account_a =
     (if check_bootstrap_weights then
        if lc_block_count (l_cache l) < bootstrap_weight_max_blocks then
          (case bootstrap_weights account_a of
             Some weight \<Rightarrow> (weight, True)
           | None \<Rightarrow> (representation_get (weights_of l) account_a, True))
        else (representation_get (weights_of l) account_a, False)
      else (representation_get (weights_of l) account_a, False))"

section \<open>Representatives\<close>

text \<open>
  \<open>representative_visitor::compute\<close>: \<open>current\<close> walks to the previous block until a block is
  found that names a representative.  The loop runs while the result is zero.
\<close>

fun representative_visit :: "crypto \<Rightarrow> block \<Rightarrow> block_hash \<times> block_hash" where
  "representative_visit c (Send b) = (block_previous (Send b), 0)"
| "representative_visit c (Receive b) = (block_previous (Receive b), 0)"
| "representative_visit c (Open b) = (0, generate_hash c (Open b))"
| "representative_visit c (Change b) = (0, generate_hash c (Change b))"
| "representative_visit c (State b) = (0, generate_hash c (State b))"

fun representative_compute :: "nat \<Rightarrow> crypto \<Rightarrow> ledger \<Rightarrow> block_hash \<Rightarrow> block_hash run" where
  "representative_compute 0 c l current = Timeout"
| "representative_compute (Suc n) c l current =
     run_bind (run_of (block_get (blocks_of l) current)) (\<lambda>block.
       let (current', result) = representative_visit c (fst block) in
       if result = 0 then representative_compute n c l current' else Done result)"

definition representative_calculated :: "nat \<Rightarrow> crypto \<Rightarrow> ledger \<Rightarrow> block_hash \<Rightarrow> block_hash run" where
  "representative_calculated n c l hash_a = representative_compute n c l hash_a"

definition ledger_representative :: "nat \<Rightarrow> crypto \<Rightarrow> ledger \<Rightarrow> block_hash \<Rightarrow> block_hash run" where
  "ledger_representative n c l hash_a = representative_calculated n c l hash_a"

section \<open>Dependencies\<close>

text \<open>
  A block object may or may not carry a sideband; \<open>sideband_a\<close> is the sideband it has.
\<close>

definition ledger_is_send :: "ledger \<Rightarrow> state_block \<Rightarrow> block_sideband option \<Rightarrow> bool option" where
  "ledger_is_send l block_a sideband_a =
     (case sideband_a of
        Some sb \<Rightarrow> Some (bd_is_send (sb_details sb))
      | None \<Rightarrow>
          let previous = state_previous (state_h block_a) in
          if previous \<noteq> 0 then
            do { b \<leftarrow> ledger_balance l previous; Some (state_balance (state_h block_a) < b) }
          else Some False)"

definition ledger_block_destination ::
  "ledger \<Rightarrow> block \<Rightarrow> block_sideband option \<Rightarrow> account option" where
  "ledger_block_destination l block_a sideband_a =
     (case block_a of
        Send b \<Rightarrow> Some (send_destination (send_h b))
      | State b \<Rightarrow>
          do { s \<leftarrow> ledger_is_send l b sideband_a; Some (if s then state_link (state_h b) else 0) }
      | _ \<Rightarrow> Some 0)"

definition ledger_block_source ::
  "ledger \<Rightarrow> block \<Rightarrow> block_sideband option \<Rightarrow> block_hash option" where
  "ledger_block_source l block_a sideband_a =
     (let result = block_source block_a in
      case block_a of
        State b \<Rightarrow>
          do { s \<leftarrow> ledger_is_send l b sideband_a;
               Some (if \<not> s then state_link (state_h b) else result) }
      | _ \<Rightarrow> Some result)"

fun dependent_blocks ::
  "ledger_constants \<Rightarrow> ledger \<Rightarrow> block \<Rightarrow> block_sideband option \<Rightarrow> (block_hash \<times> block_hash) option" where
  "dependent_blocks k l (Send b) sideband_a = Some (block_previous (Send b), 0)"
| "dependent_blocks k l (Receive b) sideband_a =
     Some (block_previous (Receive b), block_source (Receive b))"
| "dependent_blocks k l (Open b) sideband_a =
     Some (if block_source (Open b) \<noteq> block_account (k_genesis k) then block_source (Open b) else 0, 0)"
| "dependent_blocks k l (Change b) sideband_a = Some (block_previous (Change b), 0)"
| "dependent_blocks k l (State b) sideband_a =
     (let previous = state_previous (state_h b); lnk = state_link (state_h b) in
      if is_epoch_link k lnk then Some (previous, 0)
      else if sideband_a \<noteq> None \<or> block_exists (blocks_of l) previous then
        do { s \<leftarrow> ledger_is_send l b sideband_a; Some (previous, if s then 0 else lnk) }
      else Some (previous, lnk))"

definition could_fit ::
  "ledger_constants \<Rightarrow> ledger \<Rightarrow> block \<Rightarrow> block_sideband option \<Rightarrow> bool option" where
  "could_fit k l block_a sideband_a =
     do { (d0, d1) \<leftarrow> dependent_blocks k l block_a sideband_a;
          Some (list_all (\<lambda>h. h = 0 \<or> block_exists (blocks_of l) h) [d0, d1]) }"

definition dependents_confirmed ::
  "ledger_constants \<Rightarrow> ledger \<Rightarrow> block \<Rightarrow> block_sideband option \<Rightarrow> bool option" where
  "dependents_confirmed k l block_a sideband_a =
     do { (d0, d1) \<leftarrow> dependent_blocks k l block_a sideband_a;
          Some (list_all (\<lambda>h. h = 0 \<or> block_confirmed l h) [d0, d1]) }"

section \<open>Neighbours in a chain\<close>

definition ledger_successor :: "ledger \<Rightarrow> qualified_root \<Rightarrow> block_entry option" where
  "ledger_successor l root_a =
     (let (root, previous) = root_a;
          successor =
            (if previous = 0 then
               (case store_account_get l root of
                  Some info \<Rightarrow> ai_open_block info
                | None \<Rightarrow> block_successor (blocks_of l) previous)
             else block_successor (blocks_of l) previous)
      in if successor \<noteq> 0 then block_get (blocks_of l) successor else None)"

definition forked_block :: "ledger \<Rightarrow> block \<Rightarrow> block_entry option" where
  "forked_block l block_a =
     (let root = block_root block_a in
      case block_get (blocks_of l) (block_successor (blocks_of l) root) of
        Some result \<Rightarrow> Some result
      | None \<Rightarrow>
          let info = get_or account_info_default (store_account_get l root)
          in block_get (blocks_of l) (ai_open_block info))"

text \<open>
  \<open>find_receive_block_by_send_hash\<close> walks down from the cemented frontier of the destination.
\<close>

fun find_receive_block ::
  "nat \<Rightarrow> ledger \<Rightarrow> block_entry option \<Rightarrow> block_hash \<Rightarrow> block_entry option run" where
  "find_receive_block 0 l possible_receive_block send_block_hash = Timeout"
| "find_receive_block (Suc n) l None send_block_hash = Done None"
| "find_receive_block (Suc n) l (Some possible_receive_block) send_block_hash =
     (let source =
            (case fst possible_receive_block of
               State b \<Rightarrow>
                 if bd_is_receive (sb_details (snd possible_receive_block))
                 then state_link (state_h b) else block_source (State b)
             | b \<Rightarrow> block_source b)
      in if send_block_hash = source then Done (Some possible_receive_block)
         else find_receive_block n l
                (block_get (blocks_of l) (block_previous (fst possible_receive_block)))
                send_block_hash)"

definition find_receive_block_by_send_hash ::
  "nat \<Rightarrow> ledger \<Rightarrow> account \<Rightarrow> block_hash \<Rightarrow> block_entry option run" where
  "find_receive_block_by_send_hash n l destination send_block_hash =
     (case store_confirmation_height_get l destination of
        (True, info) \<Rightarrow> Done None
      | (False, info) \<Rightarrow>
          find_receive_block n l (block_get (blocks_of l) (ch_frontier info)) send_block_hash)"

text \<open>\<open>dump_account_chain\<close>: the hashes it prints.\<close>

fun dump_chain :: "nat \<Rightarrow> ledger \<Rightarrow> block_hash \<Rightarrow> block_hash list run" where
  "dump_chain 0 l hash = Timeout"
| "dump_chain (Suc n) l hash =
     (if hash \<noteq> 0 then
        run_bind (run_of (block_get (blocks_of l) hash)) (\<lambda>block.
          run_bind (dump_chain n l (block_previous (fst block))) (\<lambda>hs. Done (hash # hs)))
      else Done [])"

definition dump_account_chain :: "nat \<Rightarrow> ledger \<Rightarrow> account \<Rightarrow> block_hash list run" where
  "dump_account_chain n l account_a = dump_chain n l (latest l account_a)"

end
