(* ===== verification/Ledger_Init.thy ===== *)
theory Ledger_Init
  imports Ledger_Queries
begin

text \<open>
  The start of a ledger and the functions that run over whole tables: \<^verbatim>\<open>store::initialize\<close> and
  \<^verbatim>\<open>parallel_traversal\<close> (\<^verbatim>\<open>secure/store_partial.hpp\<close>), \<^verbatim>\<open>ledger::initialize\<close>, \<^verbatim>\<open>pruning_action\<close> and
  \<^verbatim>\<open>unconfirmed_frontiers\<close> (\<^verbatim>\<open>secure/ledger.cpp\<close>), and the epochs of \<^verbatim>\<open>ledger_constants\<close>
  (\<^verbatim>\<open>secure/common.cpp\<close>).
\<close>

section \<open>Constants\<close>

text \<open>\<open>strncpy\<close> fills the link with zero bytes after the message.\<close>

definition link_of_message :: "string \<Rightarrow> link" where
  "link_of_message s = word_of_be (map of_char s @ replicate (32 - length s) 0)"

definition ledger_epochs :: "account \<Rightarrow> account \<Rightarrow> epochs" where
  "ledger_epochs genesis_account epoch_v2_signer =
     epochs_add (epochs_add [] epoch_1 genesis_account (link_of_message ''epoch v1 block''))
       epoch_2 epoch_v2_signer (link_of_message ''epoch v2 block'')"

text \<open>The sideband that the constructor of \<open>ledger_constants\<close> sets on a genesis block.\<close>

definition genesis_sideband :: "ledger_constants \<Rightarrow> u64 \<Rightarrow> block_sideband" where
  "genesis_sideband k now =
     \<lparr>sb_successor = 0, sb_account = block_account (k_genesis k), sb_balance = - 1, sb_height = 1,
      sb_timestamp = now,
      sb_details = \<lparr>bd_epoch = epoch_0, bd_is_send = False, bd_is_receive = False,
                    bd_is_epoch = False\<rparr>,
      sb_source_epoch = epoch_0\<rparr>"

section \<open>The first block\<close>

definition empty_ledger :: ledger where
  "empty_ledger =
     \<lparr>l_store = \<lparr>st_blocks = Map.empty, st_frontiers = Map.empty, st_accounts = Map.empty,
                 st_pending = Map.empty, st_confirmation_height = Map.empty, st_pruned = Map.empty\<rparr>,
      l_cache = \<lparr>lc_rep_weights = Map.empty, lc_cemented_count = 0, lc_block_count = 0,
                 lc_pruned_count = 0, lc_account_count = 0,
                 lc_final_votes_confirmation_canary = False\<rparr>,
      l_pruning = False\<rparr>"

definition cache_cemented_count_add :: "ledger \<Rightarrow> u64 \<Rightarrow> ledger" where
  "cache_cemented_count_add l n =
     l\<lparr>l_cache := (l_cache l)\<lparr>lc_cemented_count := lc_cemented_count (l_cache l) + n\<rparr>\<rparr>"

definition cache_canary_set :: "ledger \<Rightarrow> bool \<Rightarrow> ledger" where
  "cache_canary_set l b = l\<lparr>l_cache := (l_cache l)\<lparr>lc_final_votes_confirmation_canary := b\<rparr>\<rparr>"

definition cache_weights_set :: "ledger \<Rightarrow> rep_weights \<Rightarrow> ledger" where
  "cache_weights_set l w = l\<lparr>l_cache := (l_cache l)\<lparr>lc_rep_weights := w\<rparr>\<rparr>"

text \<open>The largest amount is \<open>- 1\<close>.  The two times are those of the sideband and of the account.\<close>

definition store_initialize ::
  "crypto \<Rightarrow> ledger_constants \<Rightarrow> times \<Rightarrow> ledger \<Rightarrow> ledger option" where
  "store_initialize c k now l =
     (let genesis = k_genesis k; hash_l = generate_hash c genesis; acct = block_account genesis in
      do {
        l \<leftarrow> store_block_put c l hash_l genesis (genesis_sideband k (fst now));
        let l = cache_block_count_add l 1;
        let l = store_confirmation_height_put l acct \<lparr>ch_height = 1, ch_frontier = hash_l\<rparr>;
        let l = cache_cemented_count_add l 1;
        let l = cache_canary_set l (k_final_votes_canary_account k = acct \<and>
                                    k_final_votes_canary_height k \<le> 1);
        let l = store_account_put l acct
                  \<lparr>ai_head = hash_l, ai_representative = acct, ai_open_block = hash_l,
                   ai_balance = - 1, ai_modified = snd now, ai_block_count = 1, ai_epoch = epoch_0\<rparr>;
        let l = cache_account_count_add l 1;
        let l = cache_weights_set l (representation_put (weights_of l) acct (- 1));
        Some (store_frontier_put l hash_l acct) })"

section \<open>Parallel traversal\<close>

text \<open>
  The key space is split into ranges of equal size, one for each thread; the last thread runs
  to the end of the table.  The threads work on disjoint ranges: the model runs them one after
  the other.
\<close>

definition traversal_thread_count :: "u32 \<Rightarrow> nat" where
  "traversal_thread_count hardware_concurrency = unat (max 10 (min 40 (10 * hardware_concurrency)))"

definition traversal_ranges :: "nat \<Rightarrow> (u256 \<times> u256 \<times> bool) list" where
  "traversal_ranges thread_count =
     (let split = - 1 div of_nat thread_count in
      map (\<lambda>thread. (of_nat thread * split, of_nat (thread + 1) * split, thread = thread_count - 1))
        [0..<thread_count])"

definition traversal_range :: "(u256 \<rightharpoonup> 'v) \<Rightarrow> u256 \<times> u256 \<times> bool \<Rightarrow> (u256 \<times> 'v) list option" where
  "traversal_range m r =
     (case r of (start, end_a, is_last) \<Rightarrow>
        iter_between (table_from m start) (if \<not> is_last then table_from m end_a else []))"

fun for_each_par ::
  "((u256 \<times> 'v) list \<Rightarrow> 's \<Rightarrow> 's) \<Rightarrow> (u256 \<rightharpoonup> 'v) \<Rightarrow> (u256 \<times> u256 \<times> bool) list \<Rightarrow> 's \<Rightarrow> 's option" where
  "for_each_par action_a m [] s = Some s"
| "for_each_par action_a m (r # rs) s =
     do { entries \<leftarrow> traversal_range m r; for_each_par action_a m rs (action_a entries s) }"

section \<open>The cache\<close>

record generate_cache =
  gc_reps :: bool
  gc_cemented_count :: bool
  gc_unchecked_count :: bool
  gc_account_count :: bool
  gc_block_count :: bool

definition generate_cache_default :: generate_cache where
  "generate_cache_default =
     \<lparr>gc_reps = True, gc_cemented_count = True, gc_unchecked_count = True, gc_account_count = True,
      gc_block_count = True\<rparr>"

definition enable_all :: "generate_cache \<Rightarrow> generate_cache" where
  "enable_all g =
     g\<lparr>gc_reps := True, gc_cemented_count := True, gc_unchecked_count := True, gc_account_count := True\<rparr>"

text \<open>What one thread does with its accounts and with its confirmation heights.\<close>

definition initialize_accounts :: "(account \<times> account_info) list \<Rightarrow> ledger \<Rightarrow> ledger" where
  "initialize_accounts entries l =
     (let (block_count_l, account_count_l, rep_weights_l) =
            fold (\<lambda>(a, info) (bc, ac, w).
                (bc + ai_block_count info, ac + 1,
                 representation_add w (ai_representative info) (ai_balance info)))
              entries (0, 0, Map.empty);
          l = cache_block_count_add l block_count_l;
          l = cache_account_count_add l account_count_l
      in cache_weights_set l (copy_from (weights_of l) (table_all rep_weights_l)))"

definition initialize_heights :: "(account \<times> confirmation_height_info) list \<Rightarrow> ledger \<Rightarrow> ledger" where
  "initialize_heights entries l =
     cache_cemented_count_add l (fold (\<lambda>(a, info) n. n + ch_height info) entries 0)"

definition ledger_initialize :: "ledger_constants \<Rightarrow> nat \<Rightarrow> generate_cache \<Rightarrow> ledger \<Rightarrow> ledger option" where
  "ledger_initialize k thread_count generate_cache_a l =
     do {
       l \<leftarrow> (if gc_reps generate_cache_a \<or> gc_account_count generate_cache_a \<or>
                gc_block_count generate_cache_a
             then for_each_par initialize_accounts (accounts_of l) (traversal_ranges thread_count) l
             else Some l);
       l \<leftarrow> (if gc_cemented_count generate_cache_a
             then for_each_par initialize_heights (heights_of l) (traversal_ranges thread_count) l
             else Some l);
       let l = l\<lparr>l_cache := (l_cache l)
                   \<lparr>lc_pruned_count := of_nat (card (dom (pruned_of l)))\<rparr>\<rparr>;
       Some (case store_confirmation_height_get l (k_final_votes_canary_account k) of
               (False, info) \<Rightarrow>
                 cache_canary_set l (k_final_votes_canary_height k \<le> ch_height info)
             | (True, info) \<Rightarrow> l) }"

section \<open>Pruning\<close>

text \<open>
  The write transaction is committed and renewed after each batch, which changes nothing here;
  a batch size of zero divides by zero.
\<close>

fun pruning_action ::
  "nat \<Rightarrow> crypto \<Rightarrow> ledger_constants \<Rightarrow> u64 \<Rightarrow> ledger \<Rightarrow> block_hash \<Rightarrow> u64 \<Rightarrow> (u64 \<times> ledger) run" where
  "pruning_action 0 c k batch_size_a l hash pruned_count = Timeout"
| "pruning_action (Suc n) c k batch_size_a l hash pruned_count =
     (if hash \<noteq> 0 \<and> hash \<noteq> generate_hash c (k_genesis k) then
        case block_get (blocks_of l) hash of
          Some block \<Rightarrow>
            run_bind (run_of (store_block_del l hash)) (\<lambda>l.
              let l = store_pruned_put l hash;
                  l = l\<lparr>l_cache := (l_cache l)\<lparr>lc_pruned_count := lc_pruned_count (l_cache l) + 1\<rparr>\<rparr>
              in if batch_size_a = 0 then Abort
                 else pruning_action n c k batch_size_a l (block_previous (fst block)) (pruned_count + 1))
        | None \<Rightarrow>
            if store_pruned_exists l hash
            then pruning_action n c k batch_size_a l 0 pruned_count else Abort
      else Done (pruned_count, l))"

section \<open>Unconfirmed frontiers\<close>

record uncemented_info =
  ui_cemented_frontier :: block_hash
  un_frontier :: block_hash
  un_account :: account

definition unconfirmed_entries ::
  "ledger \<Rightarrow> (account \<times> account_info) list \<Rightarrow> (u64 \<times> uncemented_info) list" where
  "unconfirmed_entries l entries =
     concat (map (\<lambda>(account, account_info).
       let conf_height_info = snd (store_confirmation_height_get l account) in
       if ai_block_count account_info \<noteq> ch_height conf_height_info then
         [(ai_block_count account_info - ch_height conf_height_info,
           \<lparr>ui_cemented_frontier = ch_frontier conf_height_info, un_frontier = ai_head account_info,
            un_account = account\<rparr>)]
       else []) entries)"

text \<open>
  The result is a multimap with the greatest difference first.  The order of equal differences
  depends on the threads; the model keeps the order of the accounts.
\<close>

definition unconfirmed_frontiers :: "nat \<Rightarrow> ledger \<Rightarrow> (u64 \<times> uncemented_info) list option" where
  "unconfirmed_frontiers thread_count l =
     do { entries \<leftarrow> for_each_par (\<lambda>entries acc. acc @ unconfirmed_entries l entries) (accounts_of l)
                        (traversal_ranges thread_count) [];
          Some (sort_key (\<lambda>e. not (fst e)) entries) }"

end
