(* ===== verification/Cementing.thy ===== *)
theory Cementing
  imports Ledger_Init
begin

text \<open>
  \<^verbatim>\<open>node/confirmation_height_unbounded.cpp\<close>: how confirmation heights are written to the ledger.
  The processor walks from a block to the blocks it needs, collects writes,
  \<open>conf_height_details\<close>, and \<^verbatim>\<open>cement_blocks\<close> applies them in order.
\<close>

record conf_height_details =
  chd_account :: account
  chd_hash :: block_hash
  chd_height :: u64
  chd_num_blocks_confirmed :: u64
  chd_block_callback_data :: "block_hash list"
  chd_source_block_callback_data :: "block_hash list"

definition conf_height_details_new ::
  "account \<Rightarrow> block_hash \<Rightarrow> u64 \<Rightarrow> u64 \<Rightarrow> block_hash list \<Rightarrow> conf_height_details" where
  "conf_height_details_new account_a hash_a height_a num_blocks_confirmed_a block_callback_data_a =
     \<lparr>chd_account = account_a, chd_hash = hash_a, chd_height = height_a,
      chd_num_blocks_confirmed = num_blocks_confirmed_a,
      chd_block_callback_data = block_callback_data_a, chd_source_block_callback_data = []\<rparr>"

text \<open>
  The loop of \<open>cement_blocks\<close>: the error flag, the writes that are left, the ledger and the
  cemented blocks, which are looked up in the cache of the processor.  A block that is missing
  there throws.
\<close>

fun cement_loop ::
  "(block_hash \<rightharpoonup> block_entry) \<Rightarrow> ledger \<Rightarrow> conf_height_details list \<Rightarrow> block_entry list \<Rightarrow>
     (bool \<times> conf_height_details list \<times> ledger \<times> block_entry list) option" where
  "cement_loop block_cache l [] cemented_blocks = Some (False, [], l, cemented_blocks)"
| "cement_loop block_cache l (pending # pending_writes) cemented_blocks =
     (if ch_height (snd (store_confirmation_height_get l (chd_account pending))) < chd_height pending then
        case block_get (blocks_of l) (chd_hash pending) of
          None \<Rightarrow>
            if l_pruning l \<and> store_pruned_exists l (chd_hash pending)
            then cement_loop block_cache l pending_writes cemented_blocks
            else Some (True, pending # pending_writes, l, cemented_blocks)
        | Some block \<Rightarrow>
            let l = cache_cemented_count_add l (chd_num_blocks_confirmed pending);
                l = store_confirmation_height_put l (chd_account pending)
                      \<lparr>ch_height = chd_height pending, ch_frontier = chd_hash pending\<rparr>
            in do { bs \<leftarrow> those (map block_cache (rev (chd_block_callback_data pending)));
                    cement_loop block_cache l pending_writes (cemented_blocks @ bs) }
      else cement_loop block_cache l pending_writes cemented_blocks)"

text \<open>
  \<open>cement_blocks\<close>: the observers get the cemented blocks, then an error ends the program.  The
  result is the ledger and the blocks of the notification.
\<close>

definition cement_blocks ::
  "(block_hash \<rightharpoonup> block_entry) \<Rightarrow> ledger \<Rightarrow> conf_height_details list \<Rightarrow> (ledger \<times> block_entry list) option" where
  "cement_blocks block_cache l pending_writes =
     do { (error, rest, l, cemented_blocks) \<leftarrow> cement_loop block_cache l pending_writes [];
          if error then None else Some (l, cemented_blocks) }"

section \<open>The state of the processor\<close>

text \<open>
  The records \<open>conf_height_details\<close> are shared between the vector of receive blocks and the map of
  implicitly cemented blocks: they live in \<open>cu_details\<close>, and a pointer is a number.  The block cache
  may hold a null pointer for a block that is not stored.
\<close>

record confirmed_iterated_pair =
  cip_confirmed_height :: u64
  cip_iterated_height :: u64

record receive_source_pair =
  rsp_receive_details :: nat
  rsp_source_hash :: block_hash

record confirmation_height_unbounded =
  cu_confirmed_iterated_pairs :: "account \<rightharpoonup> confirmed_iterated_pair"
  cu_pending_writes :: "conf_height_details list"
  cu_implicit_receive_cemented_mapping :: "block_hash \<rightharpoonup> nat"
  cu_block_cache :: "block_hash \<rightharpoonup> block_entry option"
  cu_details :: "nat \<Rightarrow> conf_height_details"
  cu_next_details :: nat

definition pending_empty :: "confirmation_height_unbounded \<Rightarrow> bool" where
  "pending_empty st \<longleftrightarrow> cu_pending_writes st = []"

definition clear_process_vars :: "confirmation_height_unbounded \<Rightarrow> confirmation_height_unbounded" where
  "clear_process_vars st =
     st\<lparr>cu_confirmed_iterated_pairs := Map.empty, cu_implicit_receive_cemented_mapping := Map.empty,
        cu_block_cache := Map.empty\<rparr>"

definition has_iterated_over_block :: "confirmation_height_unbounded \<Rightarrow> block_hash \<Rightarrow> bool" where
  "has_iterated_over_block st hash_a \<longleftrightarrow> cu_block_cache st hash_a \<noteq> None"

definition cache_block ::
  "confirmation_height_unbounded \<Rightarrow> block_hash \<Rightarrow> block_entry option \<Rightarrow> confirmation_height_unbounded" where
  "cache_block st hash_a block = st\<lparr>cu_block_cache := (cu_block_cache st)(hash_a \<mapsto> block)\<rparr>"

definition get_block_and_sideband ::
  "ledger \<Rightarrow> confirmation_height_unbounded \<Rightarrow> block_hash \<Rightarrow> block_entry option \<times> confirmation_height_unbounded" where
  "get_block_and_sideband l st hash_a =
     (case cu_block_cache st hash_a of
        Some block \<Rightarrow> (block, st)
      | None \<Rightarrow> let block = block_get (blocks_of l) hash_a in (block, cache_block st hash_a block))"

definition details_update ::
  "(conf_height_details \<Rightarrow> conf_height_details) \<Rightarrow> nat \<Rightarrow> confirmation_height_unbounded \<Rightarrow>
     confirmation_height_unbounded" where
  "details_update f p st = st\<lparr>cu_details := (cu_details st)(p := f (cu_details st p))\<rparr>"

section \<open>Collecting receive blocks and their sources\<close>

text \<open>
  The vectors that the function extends: the receive blocks with their sources, the callback data of
  the blocks above the first receive block, and that of the original block.
\<close>

record collect_vars =
  cv_receive_source_pairs :: "receive_source_pair list"
  cv_block_callback_data :: "block_hash list"
  cv_orig_block_callback_data :: "block_hash list"

definition collect_source :: "block \<Rightarrow> block_hash" where
  "collect_source b = (let source = block_source b in if source = 0 then block_link b else source)"

text \<open>A receive block was found: \<open>back\<close> of an empty vector is undefined.\<close>

definition collect_receive ::
  "account \<Rightarrow> block_hash \<Rightarrow> u64 \<Rightarrow> block_hash \<Rightarrow> bool \<Rightarrow> confirmation_height_unbounded \<Rightarrow> collect_vars \<Rightarrow>
     (confirmation_height_unbounded \<times> collect_vars) option" where
  "collect_receive account_a hash block_height source hit_receive st v =
     do { (st, v) \<leftarrow>
            (if \<not> hit_receive \<and> cv_block_callback_data v \<noteq> [] then
               if cv_receive_source_pairs v = [] then None
               else Some
                 (details_update (\<lambda>d. d\<lparr>chd_source_block_callback_data := cv_block_callback_data v\<rparr>)
                    (rsp_receive_details (last (cv_receive_source_pairs v))) st,
                  v\<lparr>cv_block_callback_data := []\<rparr>)
             else Some (st, v));
          let p = cu_next_details st;
          Some
            (st\<lparr>cu_details := (cu_details st)(p := conf_height_details_new account_a hash block_height 1 [hash]),
                cu_next_details := Suc p\<rparr>,
             v\<lparr>cv_receive_source_pairs := cv_receive_source_pairs v @
                 [\<lparr>rsp_receive_details = p, rsp_source_hash = source\<rparr>]\<rparr>) }"

text \<open>A block below a receive block is added to it.\<close>

definition collect_below ::
  "block_hash \<Rightarrow> confirmation_height_unbounded \<Rightarrow> collect_vars \<Rightarrow> confirmation_height_unbounded option" where
  "collect_below hash st v =
     (if cv_receive_source_pairs v = [] then None
      else let p = rsp_receive_details (last (cv_receive_source_pairs v)) in
        Some ((details_update (\<lambda>d. d\<lparr>chd_num_blocks_confirmed := chd_num_blocks_confirmed d + 1,
                 chd_block_callback_data := chd_block_callback_data d @ [hash]\<rparr>) p st)
              \<lparr>cu_implicit_receive_cemented_mapping :=
                 (cu_implicit_receive_cemented_mapping st)(hash \<mapsto> p)\<rparr>))"

text \<open>
  The loop.  The number is \<open>num_to_confirm\<close>; \<open>stopped n\<close> is the value of the flag that is read when
  \<open>n\<close> blocks are left.
\<close>

fun collect_loop ::
  "ledger_constants \<Rightarrow> ledger \<Rightarrow> (nat \<Rightarrow> bool) \<Rightarrow> block_entry \<Rightarrow> account \<Rightarrow> u64 \<Rightarrow> nat \<Rightarrow> block_hash \<Rightarrow>
     bool \<Rightarrow> bool \<Rightarrow> bool \<Rightarrow> confirmation_height_unbounded \<Rightarrow> collect_vars \<Rightarrow>
     (confirmation_height_unbounded \<times> collect_vars) option" where
  "collect_loop k l stopped block_a account_a confirmation_height_a 0 hash first_iter is_original hit_receive st v =
     Some (st, v)"
| "collect_loop k l stopped block_a account_a confirmation_height_a (Suc n) hash first_iter is_original hit_receive st v =
     (if hash = 0 \<or> stopped (Suc n) then Some (st, v)
      else
        let (block, st) =
              (if first_iter then (Some block_a, cache_block st hash (Some block_a))
               else get_block_and_sideband l st hash)
        in case block of
          None \<Rightarrow>
            collect_loop k l stopped block_a account_a confirmation_height_a n hash False is_original hit_receive st v
        | Some block \<Rightarrow>
            let source = collect_source (fst block); previous = block_previous (fst block) in
            if source \<noteq> 0 \<and> \<not> is_epoch_link k source \<and> block_exists (blocks_of l) source then
              do { (st, v) \<leftarrow> collect_receive account_a hash (confirmation_height_a + of_nat (Suc n)) source
                                hit_receive st v;
                   collect_loop k l stopped block_a account_a confirmation_height_a n previous False False True st v }
            else if is_original then
              collect_loop k l stopped block_a account_a confirmation_height_a n previous False is_original
                hit_receive st (v\<lparr>cv_orig_block_callback_data := cv_orig_block_callback_data v @ [hash]\<rparr>)
            else if \<not> hit_receive then
              collect_loop k l stopped block_a account_a confirmation_height_a n previous False is_original
                hit_receive st (v\<lparr>cv_block_callback_data := cv_block_callback_data v @ [hash]\<rparr>)
            else
              do { st \<leftarrow> collect_below hash st v;
                   collect_loop k l stopped block_a account_a confirmation_height_a n previous False is_original
                     hit_receive st v })"

definition collect_unconfirmed_receive_and_sources_for_account ::
  "crypto \<Rightarrow> ledger_constants \<Rightarrow> ledger \<Rightarrow> (nat \<Rightarrow> bool) \<Rightarrow> u64 \<Rightarrow> u64 \<Rightarrow> block_entry \<Rightarrow> block_hash \<Rightarrow> account \<Rightarrow>
     block_entry \<Rightarrow> confirmation_height_unbounded \<Rightarrow> collect_vars \<Rightarrow>
     (confirmation_height_unbounded \<times> collect_vars) option" where
  "collect_unconfirmed_receive_and_sources_for_account c k l stopped block_height_a confirmation_height_a block_a
     hash_a account_a original_block st v =
     collect_loop k l stopped block_a account_a confirmation_height_a
       (unat (block_height_a - confirmation_height_a)) hash_a True
       (hash_a = generate_hash c (fst original_block)) False st v"

section \<open>Preparing writes\<close>

record preparation_data =
  pd_block_height :: u64
  pd_confirmation_height :: u64
  pd_iterated_height :: u64
  pd_account_it :: "confirmed_iterated_pair option"
  pd_account :: account
  pd_receive_details :: "nat option"
  pd_already_traversed :: bool
  pd_current :: block_hash
  pd_block_callback_data :: "block_hash list"
  pd_orig_block_callback_data :: "block_hash list"

text \<open>
  Erasing a number of elements at the end of a vector, and copying a range that ends a number of
  elements before its end; both are undefined out of range.
\<close>

definition erase_back :: "u64 \<Rightarrow> 'a list \<Rightarrow> 'a list option" where
  "erase_back n xs = (if unat n \<le> length xs then Some (take (length xs - unat n) xs) else None)"

definition range_before :: "u64 \<Rightarrow> u64 \<Rightarrow> 'a list \<Rightarrow> 'a list option" where
  "range_before skip n xs =
     (if unat skip + unat n \<le> length xs
      then Some (take (unat n) (drop (length xs - unat skip - unat n) xs)) else None)"

text \<open>
  The callback data of the write.  \<open>alive\<close> are the records that shared pointers keep alive: a weak
  pointer to another one is expired, and using it is undefined.
\<close>

definition prepare_callback_data ::
  "nat set \<Rightarrow> preparation_data \<Rightarrow> u64 \<Rightarrow> confirmation_height_unbounded \<Rightarrow>
     (block_hash list \<times> confirmation_height_unbounded) option" where
  "prepare_callback_data alive pd num_blocks_confirmed st =
     (if pd_block_callback_data pd \<noteq> [] then Some (pd_block_callback_data pd, st)
      else case pd_receive_details pd of
        None \<Rightarrow> Some (pd_orig_block_callback_data pd, st)
      | Some p \<Rightarrow>
          do { data \<leftarrow>
                 (if pd_already_traversed pd \<and> chd_source_block_callback_data (cu_details st p) = [] then
                    do { a \<leftarrow> cu_implicit_receive_cemented_mapping st (pd_current pd);
                         if a \<notin> alive then None
                         else let above = cu_details st a;
                                  num_blocks_already_confirmed = chd_num_blocks_confirmed above -
                                    (chd_height above - pd_confirmation_height pd)
                              in range_before num_blocks_already_confirmed num_blocks_confirmed
                                   (chd_block_callback_data above) }
                  else Some (chd_source_block_callback_data (cu_details st p)));
               data \<leftarrow> erase_back (of_nat (length data) - num_blocks_confirmed) data;
               Some (data, details_update (\<lambda>d. d\<lparr>chd_source_block_callback_data := []\<rparr>) p st) })"

definition prepare_block ::
  "nat set \<Rightarrow> preparation_data \<Rightarrow> confirmation_height_unbounded \<Rightarrow> confirmation_height_unbounded option" where
  "prepare_block alive pd st =
     (if pd_confirmation_height pd < pd_block_height pd then
        let pair = (case pd_account_it pd of
                Some pair \<Rightarrow>
                  pair\<lparr>cip_confirmed_height := pd_block_height pd,
                       cip_iterated_height := (if pd_iterated_height pd < pd_block_height pd
                         then pd_block_height pd else cip_iterated_height pair)\<rparr>
              | None \<Rightarrow> \<lparr>cip_confirmed_height = pd_block_height pd, cip_iterated_height = pd_block_height pd\<rparr>);
            st = st\<lparr>cu_confirmed_iterated_pairs := (cu_confirmed_iterated_pairs st)(pd_account pd \<mapsto> pair)\<rparr>;
            num_blocks_confirmed = pd_block_height pd - pd_confirmation_height pd
        in do { (data, st) \<leftarrow> prepare_callback_data alive pd num_blocks_confirmed st;
                Some (st\<lparr>cu_pending_writes := cu_pending_writes st @
                  [conf_height_details_new (pd_account pd) (pd_current pd) (pd_block_height pd)
                     num_blocks_confirmed data]\<rparr>) }
      else Some st)"

definition prepare_receive ::
  "nat \<Rightarrow> confirmation_height_unbounded \<Rightarrow> confirmation_height_unbounded option" where
  "prepare_receive p st =
     (let d = cu_details st p in
      case cu_confirmed_iterated_pairs st (chd_account d) of
        Some pair \<Rightarrow>
          let current_height = cip_confirmed_height pair;
              num_blocks_confirmed = chd_height d - current_height
          in do { data \<leftarrow> erase_back (chd_num_blocks_confirmed d - num_blocks_confirmed) (chd_block_callback_data d);
                  let d = d\<lparr>chd_num_blocks_confirmed := num_blocks_confirmed, chd_block_callback_data := data\<rparr>;
                  Some (st\<lparr>cu_confirmed_iterated_pairs := (cu_confirmed_iterated_pairs st)
                             (chd_account d \<mapsto> pair\<lparr>cip_confirmed_height := chd_height d\<rparr>),
                           cu_details := (cu_details st)(p := d),
                           cu_pending_writes := cu_pending_writes st @ [d]\<rparr>) }
      | None \<Rightarrow>
          Some (st\<lparr>cu_confirmed_iterated_pairs := (cu_confirmed_iterated_pairs st)
                     (chd_account d \<mapsto> \<lparr>cip_confirmed_height = chd_height d, cip_iterated_height = chd_height d\<rparr>),
                   cu_pending_writes := cu_pending_writes st @ [d]\<rparr>))"

definition prepare_iterated_blocks_for_cementing ::
  "nat set \<Rightarrow> preparation_data \<Rightarrow> confirmation_height_unbounded \<Rightarrow> confirmation_height_unbounded option" where
  "prepare_iterated_blocks_for_cementing alive pd st =
     do { st \<leftarrow> prepare_block alive pd st;
          case pd_receive_details pd of None \<Rightarrow> Some st | Some p \<Rightarrow> prepare_receive p st }"

section \<open>Processing a block\<close>

text \<open>
  What one iteration reads from outside: the flag \<open>stopped\<close>, the timer, the number of blocks that
  wait, and whether the queue of database writers lets the processor write now.
\<close>

record iteration_env =
  ie_stopped_collecting :: "nat \<Rightarrow> bool"
  ie_stopped :: bool
  ie_min_time_exceeded :: bool
  ie_awaiting_processing_size :: nat
  ie_write_queue :: bool
  ie_stopped_end :: bool

text \<open>The variables of \<open>process\<close> that live through its loop.\<close>

record process_vars =
  pv_receive_details :: "nat option"
  pv_current :: block_hash
  pv_receive_source_pairs :: "receive_source_pair list"
  pv_orig_block_callback_data :: "block_hash list"
  pv_first_iter :: bool

text \<open>What the observers are told.\<close>

datatype cement_event = Cemented "block_entry list" | Already_cemented block_hash

definition unbounded_cutoff :: nat where
  "unbounded_cutoff = 16384"

text \<open>The start of an iteration: the next receive block and its source, or the original block again.\<close>

definition next_source :: "block_hash \<Rightarrow> process_vars \<Rightarrow> nat option \<times> block_hash" where
  "next_source original_hash v =
     (if pv_receive_source_pairs v \<noteq> [] then
        let pair = last (pv_receive_source_pairs v) in (Some (rsp_receive_details pair), rsp_source_hash pair)
      else if pv_receive_details v \<noteq> None then (None, original_hash)
      else (None, pv_current v))"

text \<open>The height that the account of the block will have, and whether it is taken from the ledger.\<close>

definition current_heights ::
  "ledger \<Rightarrow> confirmation_height_unbounded \<Rightarrow> account \<Rightarrow> u64 \<times> u64" where
  "current_heights l st account =
     (case cu_confirmed_iterated_pairs st account of
        Some pair \<Rightarrow> (cip_confirmed_height pair, max (cip_confirmed_height pair) (cip_iterated_height pair))
      | None \<Rightarrow>
          let height = ch_height (snd (store_confirmation_height_get l account)) in (height, height))"

text \<open>After new receive blocks were found: the account has been visited up to the block.\<close>

definition mark_iterated ::
  "account \<Rightarrow> u64 \<Rightarrow> u64 \<Rightarrow> confirmation_height_unbounded \<Rightarrow> confirmation_height_unbounded" where
  "mark_iterated account confirmation_height block_height st =
     st\<lparr>cu_confirmed_iterated_pairs := (cu_confirmed_iterated_pairs st)(account \<mapsto>
          (case cu_confirmed_iterated_pairs st account of
             Some pair \<Rightarrow> pair\<lparr>cip_iterated_height := block_height\<rparr>
           | None \<Rightarrow> \<lparr>cip_confirmed_height = confirmation_height, cip_iterated_height = block_height\<rparr>))\<rparr>"

text \<open>The end of an iteration: write to the ledger, or wait for more.\<close>

definition should_write :: "u64 \<Rightarrow> iteration_env \<Rightarrow> bool \<Rightarrow> conf_height_details list \<Rightarrow> bool" where
  "should_write batch_write_size env finished_iterating pending_writes =
     (let max_write_size_reached = unbounded_cutoff \<le> length pending_writes;
          no_pending = ie_awaiting_processing_size env = 0;
          should_output = finished_iterating \<and> (no_pending \<or> ie_min_time_exceeded env);
          total_pending_write_block_count = fold (\<lambda>d total. total + chd_num_blocks_confirmed d) pending_writes 0;
          force_write = batch_write_size < total_pending_write_block_count
      in (max_write_size_reached \<or> should_output \<or> force_write) \<and> pending_writes \<noteq> [] \<and>
         (ie_write_queue env \<or> force_write))"

definition write_pending ::
  "confirmation_height_unbounded \<Rightarrow> ledger \<Rightarrow> (confirmation_height_unbounded \<times> ledger \<times> block_entry list) option" where
  "write_pending st l =
     do { (l, cemented) \<leftarrow> cement_blocks (\<lambda>h. Option.bind (cu_block_cache st h) id) l (cu_pending_writes st);
          Some (st\<lparr>cu_pending_writes := []\<rparr>, l, cemented) }"

text \<open>
  One iteration of the loop.  The result says whether the loop goes on; a missing block ends the
  program.
\<close>

definition unbounded_iteration ::
  "crypto \<Rightarrow> ledger_constants \<Rightarrow> u64 \<Rightarrow> iteration_env \<Rightarrow> block_entry \<Rightarrow>
     confirmation_height_unbounded \<Rightarrow> ledger \<Rightarrow> process_vars \<Rightarrow>
     (bool \<times> confirmation_height_unbounded \<times> ledger \<times> process_vars \<times> cement_event list) option" where
  "unbounded_iteration c k batch_write_size env original_block st l v =
     (let original_hash = generate_hash c (fst original_block);
          (receive_details, current) = next_source original_hash v;
          (block, st) =
            (if pv_first_iter v then (Some original_block, cache_block st original_hash (Some original_block))
             else get_block_and_sideband l st current)
      in do {
        block \<leftarrow> block;
        let account = account_calculated block;
        let block_height = sb_height (snd block);
        let account_it = cu_confirmed_iterated_pairs st account;
        let (confirmation_height, iterated_height) = current_heights l st account;
        let events = (if account_it = None \<and> pv_first_iter v \<and> block_height \<le> confirmation_height
                      then [Already_cemented original_hash] else []);
        let already_traversed = block_height \<le> iterated_height;
        let count_before_receive = length (pv_receive_source_pairs v);
        let cv = \<lparr>cv_receive_source_pairs = pv_receive_source_pairs v, cv_block_callback_data = [],
                  cv_orig_block_callback_data = pv_orig_block_callback_data v\<rparr>;
        (st, cv) \<leftarrow> (if already_traversed then Some (st, cv)
                     else collect_unconfirmed_receive_and_sources_for_account c k l (ie_stopped_collecting env)
                            block_height iterated_height block current account original_block st cv);
        let v = v\<lparr>pv_receive_details := receive_details, pv_current := current,
                  pv_receive_source_pairs := cv_receive_source_pairs cv,
                  pv_orig_block_callback_data := cv_orig_block_callback_data cv, pv_first_iter := False\<rparr>;
        if ie_stopped env then Some (False, st, l, v, events)
        else do {
          (st, v) \<leftarrow>
            (if count_before_receive = length (cv_receive_source_pairs cv) then
               do { st \<leftarrow> prepare_iterated_blocks_for_cementing
                      (set_option receive_details \<union> rsp_receive_details ` set (cv_receive_source_pairs cv))
                      \<lparr>pd_block_height = block_height, pd_confirmation_height = confirmation_height,
                       pd_iterated_height = iterated_height, pd_account_it = account_it, pd_account = account,
                       pd_receive_details = receive_details, pd_already_traversed = already_traversed,
                       pd_current = current, pd_block_callback_data = cv_block_callback_data cv,
                       pd_orig_block_callback_data = cv_orig_block_callback_data cv\<rparr> st;
                    Some (st, v\<lparr>pv_receive_source_pairs := butlast (cv_receive_source_pairs cv)\<rparr>) }
             else Some (if iterated_height < block_height
                        then mark_iterated account confirmation_height block_height st else st, v));
          (st, l, events) \<leftarrow>
            (if should_write batch_write_size env (pv_receive_source_pairs v = []) (cu_pending_writes st)
             then do { (st, l, cemented) \<leftarrow> write_pending st l; Some (st, l, events @ [Cemented cemented]) }
             else Some (st, l, events));
          Some ((pv_receive_source_pairs v \<noteq> [] \<or> current \<noteq> original_hash) \<and> \<not> ie_stopped_end env,
                st, l, v, events) } })"

fun unbounded_loop ::
  "nat \<Rightarrow> crypto \<Rightarrow> ledger_constants \<Rightarrow> u64 \<Rightarrow> (nat \<Rightarrow> iteration_env) \<Rightarrow> nat \<Rightarrow> block_entry \<Rightarrow>
     confirmation_height_unbounded \<Rightarrow> ledger \<Rightarrow> process_vars \<Rightarrow>
     (confirmation_height_unbounded \<times> ledger \<times> cement_event list) run" where
  "unbounded_loop 0 c k batch_write_size env i original_block st l v = Timeout"
| "unbounded_loop (Suc n) c k batch_write_size env i original_block st l v =
     run_bind (run_of (unbounded_iteration c k batch_write_size (env i) original_block st l v))
       (\<lambda>(continue, st, l, v, events).
          if continue then
            run_bind (unbounded_loop n c k batch_write_size env (Suc i) original_block st l v)
              (\<lambda>(st, l, more). Done (st, l, events @ more))
          else Done (st, l, events))"

definition unbounded_process ::
  "nat \<Rightarrow> crypto \<Rightarrow> ledger_constants \<Rightarrow> u64 \<Rightarrow> (nat \<Rightarrow> iteration_env) \<Rightarrow> block_entry \<Rightarrow>
     confirmation_height_unbounded \<Rightarrow> ledger \<Rightarrow> (confirmation_height_unbounded \<times> ledger \<times> cement_event list) run" where
  "unbounded_process n c k batch_write_size env original_block st l =
     unbounded_loop n c k batch_write_size env 0 original_block
       (if pending_empty st then clear_process_vars st else st) l
       \<lparr>pv_receive_details = None, pv_current = generate_hash c (fst original_block),
        pv_receive_source_pairs = [], pv_orig_block_callback_data = [], pv_first_iter = True\<rparr>"

end
