(* ===== verification/Height_Processor.thy ===== *)
theory Height_Processor
  imports Cementing
begin

declare split_paired_All [simp del] split_paired_Ex [simp del]

text \<open>
  \<^verbatim>\<open>node/confirmation_height_processor.cpp\<close>: the thread that takes blocks whose election ended and has them cemented.
  A turn of \<open>height_turn\<close> is one round of the loop of \<open>run\<close>.  The processor for large backlogs,
  \<^verbatim>\<open>confirmation_height_bounded\<close>, is not modelled: a turn that would call it ends in \<open>Bounded_turn\<close>, and its list of
  writes is always empty.
\<close>

datatype confirmation_height_mode = Hm_automatic | Hm_unbounded | Hm_bounded

record height_processor =
  hp_awaiting_processing :: "block_entry list"
  hp_original_hashes_pending :: "block_hash set"
  hp_paused :: bool
  hp_original_block :: "block_entry option"
  hp_stopped :: bool
  hp_unbounded :: confirmation_height_unbounded

definition height_processor_new :: "confirmation_height_unbounded \<Rightarrow> height_processor" where
  "height_processor_new st =
     \<lparr>hp_awaiting_processing = [], hp_original_hashes_pending = {}, hp_paused = False, hp_original_block = None,
      hp_stopped = False, hp_unbounded = st\<rparr>"

definition height_stop :: "height_processor \<Rightarrow> height_processor" where
  "height_stop s = s\<lparr>hp_stopped := True\<rparr>"

definition height_pause :: "height_processor \<Rightarrow> height_processor" where
  "height_pause s = s\<lparr>hp_paused := True\<rparr>"

definition height_unpause :: "height_processor \<Rightarrow> height_processor" where
  "height_unpause s = s\<lparr>hp_paused := False\<rparr>"

text \<open>A block that waits already is not entered again: the container has an index of unique hashes.\<close>

definition height_add :: "crypto \<Rightarrow> block_entry \<Rightarrow> height_processor \<Rightarrow> height_processor" where
  "height_add c block_a s =
     (if generate_hash c (fst block_a) \<in> (\<lambda>b. generate_hash c (fst b)) ` set (hp_awaiting_processing s) then s
      else s\<lparr>hp_awaiting_processing := hp_awaiting_processing s @ [block_a]\<rparr>)"

definition set_next_hash :: "crypto \<Rightarrow> height_processor \<Rightarrow> height_processor" where
  "set_next_hash c s =
     (let block = hd (hp_awaiting_processing s)
      in s\<lparr>hp_original_block := Some block,
           hp_original_hashes_pending := insert (generate_hash c (fst block)) (hp_original_hashes_pending s),
           hp_awaiting_processing := tl (hp_awaiting_processing s)\<rparr>)"

definition awaiting_processing_size :: "height_processor \<Rightarrow> nat" where
  "awaiting_processing_size s = length (hp_awaiting_processing s)"

definition is_processing_added_block :: "crypto \<Rightarrow> height_processor \<Rightarrow> block_hash \<Rightarrow> bool" where
  "is_processing_added_block c s hash_a \<longleftrightarrow>
     hash_a \<in> hp_original_hashes_pending s \<or> hash_a \<in> (\<lambda>b. generate_hash c (fst b)) ` set (hp_awaiting_processing s)"

definition is_processing_block :: "crypto \<Rightarrow> height_processor \<Rightarrow> block_hash \<Rightarrow> bool" where
  "is_processing_block c s hash_a \<longleftrightarrow>
     is_processing_added_block c s hash_a \<or> has_iterated_over_block (hp_unbounded s) hash_a"

definition height_current :: "crypto \<Rightarrow> height_processor \<Rightarrow> block_hash" where
  "height_current c s = (case hp_original_block s of None \<Rightarrow> 0 | Some block \<Rightarrow> generate_hash c (fst block))"

text \<open>The difference of the counters is taken in 64 bits.\<close>

definition within_unbounded_selection :: "ledger \<Rightarrow> bool" where
  "within_unbounded_selection l \<longleftrightarrow>
     lc_block_count (l_cache l) < of_nat unbounded_cutoff
     \<or> lc_block_count (l_cache l) - of_nat unbounded_cutoff < lc_cemented_count (l_cache l)"

definition lock_and_cleanup :: "height_processor \<Rightarrow> height_processor" where
  "lock_and_cleanup s =
     s\<lparr>hp_original_block := None, hp_original_hashes_pending := {}, hp_unbounded := clear_process_vars (hp_unbounded s)\<rparr>"

datatype height_outcome = Turned height_processor ledger "cement_event list" | Bounded_turn height_processor

definition height_turn ::
  "nat \<Rightarrow> crypto \<Rightarrow> ledger_constants \<Rightarrow> confirmation_height_mode \<Rightarrow> u64 \<Rightarrow> (nat \<Rightarrow> iteration_env) \<Rightarrow>
     height_processor \<Rightarrow> ledger \<Rightarrow> height_outcome run" where
  "height_turn n c k mode_a batch_write_size env s l =
     (if hp_stopped s then Done (Turned s l [])
      else if \<not> hp_paused s \<and> hp_awaiting_processing s \<noteq> [] then
        let s = (if pending_empty (hp_unbounded s) then s\<lparr>hp_original_hashes_pending := {}\<rparr> else s);
            s = set_next_hash c s;
            valid_unbounded = (mode_a = Hm_automatic \<and> within_unbounded_selection l);
            force_unbounded = (\<not> pending_empty (hp_unbounded s) \<or> mode_a = Hm_unbounded)
        in if force_unbounded \<or> valid_unbounded then
             run_bind (unbounded_process n c k batch_write_size env (the (hp_original_block s)) (hp_unbounded s) l)
               (\<lambda>(st, l, events). Done (Turned (s\<lparr>hp_unbounded := st\<rparr>) l events))
           else Done (Bounded_turn s)
      else if \<not> hp_paused s then
        if \<not> pending_empty (hp_unbounded s) then
          run_bind (run_of (write_pending (hp_unbounded s) l))
            (\<lambda>(st, l, cemented). Done (Turned (lock_and_cleanup (s\<lparr>hp_unbounded := st\<rparr>)) l [Cemented cemented]))
        else Done (Turned (lock_and_cleanup s) l [])
      else Done (Turned (s\<lparr>hp_original_block := None\<rparr>) l []))"

fun height_turns ::
  "nat \<Rightarrow> crypto \<Rightarrow> ledger_constants \<Rightarrow> confirmation_height_mode \<Rightarrow> u64 \<Rightarrow> (nat \<Rightarrow> iteration_env) list \<Rightarrow>
     height_processor \<Rightarrow> ledger \<Rightarrow> height_outcome run" where
  "height_turns n c k mode_a batch_write_size [] s l = Done (Turned s l [])"
| "height_turns n c k mode_a batch_write_size (env # envs) s l =
     run_bind (height_turn n c k mode_a batch_write_size env s l)
       (\<lambda>r. case r of
          Bounded_turn s \<Rightarrow> Done (Bounded_turn s)
        | Turned s l events \<Rightarrow>
            run_bind (height_turns n c k mode_a batch_write_size envs s l)
              (\<lambda>r. case r of
                 Bounded_turn s \<Rightarrow> Done (Bounded_turn s)
               | Turned s l rest \<Rightarrow> Done (Turned s l (events @ rest))))"

end
