(* ===== verification/Block_Graph.thy ===== *)
theory Block_Graph
  imports Main
begin

text \<open>
  The graph of the blocks of a ledger, as far as the confirmation height processors use it: each
  block has an account and a height in the chain of this account, and may name a source block.
  The walk from a block to the blocks it needs is followed here on heights; the processors
  implement it with vectors, maps and shared records.
\<close>

record ('h, 'a) walk =
  wv :: "'a \<Rightarrow> nat"
  wi :: "'a \<Rightarrow> nat"
  ws :: "'h list"
  wlo :: "'h \<Rightarrow> nat"
  wtop :: "'h \<Rightarrow> nat option"
  wo :: "nat option"

text \<open>
  \<open>wv\<close> is the height up to which an account will be confirmed by the writes so far, \<open>wi\<close> the height
  up to which its blocks were visited, \<open>ws\<close> the receive blocks that wait for their sources, the
  next one first.  \<open>wlo\<close> is the height above which the blocks below a receive block belong to it,
  \<open>wtop\<close> and \<open>wo\<close> the height above which the blocks belong to a source block or to the first block.
\<close>

locale block_graph =
  fixes B :: "'h set" and ac :: "'h \<Rightarrow> 'a" and ht :: "'h \<Rightarrow> nat" and rk :: "'h \<Rightarrow> nat"
    and src :: "'h \<Rightarrow> 'h option"
  assumes graph_finite: "finite B"
    and graph_pos: "x \<in> B \<Longrightarrow> 0 < ht x"
    and graph_inj: "x \<in> B \<Longrightarrow> y \<in> B \<Longrightarrow> ac x = ac y \<Longrightarrow> ht x = ht y \<Longrightarrow> x = y"
    and graph_below: "x \<in> B \<Longrightarrow> 0 < n \<Longrightarrow> n \<le> ht x \<Longrightarrow> \<exists>y \<in> B. ac y = ac x \<and> ht y = n"
    and graph_rank: "x \<in> B \<Longrightarrow> y \<in> B \<Longrightarrow> ac x = ac y \<Longrightarrow> ht x < ht y \<Longrightarrow> rk x < rk y"
    and graph_source: "x \<in> B \<Longrightarrow> src x = Some s \<Longrightarrow> s \<in> B \<and> rk s < rk x \<and> src s = None"
    and graph_source_inj: "x \<in> B \<Longrightarrow> y \<in> B \<Longrightarrow> src x = Some s \<Longrightarrow> src y = Some s \<Longrightarrow> x = y"
begin

lemma graph_rank_le: "x \<in> B \<Longrightarrow> y \<in> B \<Longrightarrow> ac x = ac y \<Longrightarrow> ht x \<le> ht y \<Longrightarrow> rk x \<le> rk y"
  using graph_rank graph_inj by (metis le_neq_implies_less less_imp_le order_refl)

lemma graph_height: "x \<in> B \<Longrightarrow> y \<in> B \<Longrightarrow> ac x = ac y \<Longrightarrow> rk x < rk y \<Longrightarrow> ht x < ht y"
  using graph_rank_le by (metis not_le)

text \<open>The blocks that a block needs: those below it, their sources, and so on.\<close>

inductive needs :: "'h \<Rightarrow> 'h \<Rightarrow> bool" for y where
  needs_self: "y \<in> B \<Longrightarrow> needs y y"
| needs_below: "needs y x \<Longrightarrow> z \<in> B \<Longrightarrow> ac z = ac x \<Longrightarrow> ht z < ht x \<Longrightarrow> needs y z"
| needs_source: "needs y x \<Longrightarrow> src x = Some z \<Longrightarrow> needs y z"

lemma needs_stored: "needs y x \<Longrightarrow> x \<in> B"
  by (induction rule: needs.induct) (auto dest: graph_source)

lemma needs_le:
  assumes "needs y x" and "z \<in> B" and "ac z = ac x" and "ht z \<le> ht x"
  shows "needs y z"
proof (cases "ht z = ht x")
  case True
  with graph_inj [OF assms(2) needs_stored [OF assms(1)] assms(3)] assms(1) show ?thesis by simp
next
  case False
  with needs_below [OF assms(1-3)] assms(4) show ?thesis by simp
qed

lemma needs_rank: "needs y x \<Longrightarrow> rk x \<le> rk y"
proof (induction rule: needs.induct)
  case (needs_below x z)
  with graph_rank [OF needs_below(2) needs_stored [OF needs_below(1)]] show ?case by simp
next
  case (needs_source x z)
  with graph_source [OF needs_stored [OF needs_source(1)]] show ?case by fastforce
qed simp

section \<open>Walks\<close>

definition below_ok :: "('h, 'a) walk \<Rightarrow> 'a \<Rightarrow> nat \<Rightarrow> bool" where
  "below_ok s a n \<longleftrightarrow> n \<le> wv s a \<or> (\<exists>r \<in> set (ws s). ac r = a \<and> ht r = n)"

definition expanded :: "('h, 'a) walk \<Rightarrow> 'h \<Rightarrow> nat \<Rightarrow> 'h set \<Rightarrow> bool" where
  "expanded s x t Q \<longleftrightarrow>
     wi s (ac x) = ht x \<and> t \<le> ht x \<and> below_ok s (ac x) t \<and>
     (\<forall>q \<in> Q. \<exists>y \<in> B. ac y = ac x \<and> ht y = t \<and> rk q \<le> rk y)"

definition source :: "'h \<Rightarrow> 'h" where
  "source r = the (src r)"

definition walk_ok :: "'h \<Rightarrow> ('h, 'a) walk \<Rightarrow> bool" where
  "walk_ok h s \<longleftrightarrow>
     h \<in> B \<and>
     (\<forall>a. wv s a \<le> wi s a) \<and>
     (\<forall>x y. x \<in> B \<longrightarrow> src x = Some y \<longrightarrow> ht x \<le> wv s (ac x) \<longrightarrow> ht y \<le> wv s (ac y)) \<and>
     (\<forall>r. r \<in> set (ws s) \<longrightarrow>
        r \<in> B \<and> src r \<noteq> None \<and> wv s (ac r) < ht r \<and> ht r \<le> wi s (ac r) \<and> needs h r) \<and>
     sorted_wrt (\<lambda>p q. rk p < rk q) (ws s) \<and>
     (\<forall>x. x \<in> B \<longrightarrow> src x \<noteq> None \<longrightarrow> wv s (ac x) < ht x \<longrightarrow> ht x \<le> wi s (ac x) \<longrightarrow> x \<in> set (ws s)) \<and>
     (\<forall>r. r \<in> set (ws s) \<longrightarrow> wlo s r < ht r \<and> below_ok s (ac r) (wlo s r)) \<and>
     (\<forall>r t. r \<in> set (ws s) \<longrightarrow> wtop s r = Some t \<longrightarrow>
        t < ht (source r) \<and> wv s (ac (source r)) < ht (source r) \<and>
        expanded s (source r) t {q \<in> set (ws s). rk q < rk r}) \<and>
     (\<forall>t. wo s = Some t \<longrightarrow> wv s (ac h) \<le> t \<and> expanded s h t (set (ws s))) \<and>
     (wo s = None \<longrightarrow> ws s = []) \<and>
     (\<forall>a. wv s a < wi s a \<longrightarrow>
        (\<exists>r \<in> set (ws s). wtop s r \<noteq> None \<and> ac (source r) = a) \<or> (wo s \<noteq> None \<and> ac h = a))"

lemma walk_okD:
  assumes "walk_ok h s"
  shows "h \<in> B" and "\<And>a. wv s a \<le> wi s a"
    and "\<And>x y. x \<in> B \<Longrightarrow> src x = Some y \<Longrightarrow> ht x \<le> wv s (ac x) \<Longrightarrow> ht y \<le> wv s (ac y)"
    and "\<And>r. r \<in> set (ws s) \<Longrightarrow>
        r \<in> B \<and> src r \<noteq> None \<and> wv s (ac r) < ht r \<and> ht r \<le> wi s (ac r) \<and> needs h r"
    and "sorted_wrt (\<lambda>p q. rk p < rk q) (ws s)"
    and "\<And>x. x \<in> B \<Longrightarrow> src x \<noteq> None \<Longrightarrow> wv s (ac x) < ht x \<Longrightarrow> ht x \<le> wi s (ac x) \<Longrightarrow> x \<in> set (ws s)"
    and "\<And>r. r \<in> set (ws s) \<Longrightarrow> wlo s r < ht r \<and> below_ok s (ac r) (wlo s r)"
    and "\<And>r t. r \<in> set (ws s) \<Longrightarrow> wtop s r = Some t \<Longrightarrow>
        t < ht (source r) \<and> wv s (ac (source r)) < ht (source r) \<and>
        expanded s (source r) t {q \<in> set (ws s). rk q < rk r}"
    and "\<And>t. wo s = Some t \<Longrightarrow> wv s (ac h) \<le> t \<and> expanded s h t (set (ws s))"
    and "wo s = None \<Longrightarrow> ws s = []"
    and "\<And>a. wv s a < wi s a \<Longrightarrow>
        (\<exists>r \<in> set (ws s). wtop s r \<noteq> None \<and> ac (source r) = a) \<or> (wo s \<noteq> None \<and> ac h = a)"
  using assms unfolding walk_ok_def by blast+

lemma source_facts:
  assumes "walk_ok h s" and "r \<in> set (ws s)"
  shows "src r = Some (source r)" "source r \<in> B" "rk (source r) < rk r" "src (source r) = None" "r \<in> B"
proof -
  from walk_okD(4) [OF assms] obtain x where x: "src r = Some x" "r \<in> B" by auto
  then show "src r = Some (source r)" "r \<in> B" by (simp_all add: source_def)
  with graph_source [OF x(2)] show "source r \<in> B" "rk (source r) < rk r" "src (source r) = None" by auto
qed

lemma top_least:
  assumes "walk_ok h s" and "ws s = r # rest" and "q \<in> set (ws s)"
  shows "rk r \<le> rk q"
  using walk_okD(5) [OF assms(1)] assms(2,3) by auto

text \<open>No receive block that waits lies at or below the source of the next one.\<close>

lemma top_source_clear:
  assumes w: "walk_ok h s" and r: "ws s = r # rest" and q: "q \<in> set (ws s)" "ac q = ac (source r)"
  shows "ht (source r) < ht q"
proof -
  have "r \<in> set (ws s)" using r by simp
  note f = source_facts [OF w this]
  have "rk (source r) < rk q" using f(3) top_least [OF w r q(1)] by simp
  from graph_height [OF f(2) _ _ this] q walk_okD(4) [OF w q(1)] show ?thesis by simp
qed

lemma top_lo:
  assumes w: "walk_ok h s" and r: "ws s = r # rest"
  shows "wlo s r \<le> wv s (ac r)"
proof -
  have r': "r \<in> set (ws s)" using r by simp
  from walk_okD(7) [OF w r'] consider "wlo s r \<le> wv s (ac r)"
    | q where "q \<in> set (ws s)" "ac q = ac r" "ht q < ht r" by (auto simp: below_ok_def)
  then show ?thesis
  proof cases
    case 2
    with graph_rank [of q r] walk_okD(4) [OF w 2(1)] source_facts(5) [OF w r'] have "rk q < rk r" by auto
    with top_least [OF w r 2(1)] show ?thesis by simp
  qed
qed

text \<open>The waiting receive blocks below the first one in the chain of the same account.\<close>

lemma top_below_none:
  assumes w: "walk_ok h s" and r: "ws s = r # rest" and q: "q \<in> set (ws s)" "ac q = ac r" "ht q \<le> ht r"
  shows "q = r"
proof (rule ccontr)
  assume "q \<noteq> r"
  have r': "r \<in> set (ws s)" using r by simp
  note f = source_facts(5) [OF w r'] source_facts(5) [OF w q(1)]
  have "ht q < ht r" using graph_inj [OF f(2,1) q(2)] q(3) \<open>q \<noteq> r\<close> by fastforce
  from graph_rank [OF f(2,1) q(2) this] top_least [OF w r q(1)] show False by simp
qed

text \<open>The source of the next receive block is new only if its account is settled.\<close>

lemma top_source_new:
  assumes w: "walk_ok h s" and r: "ws s = r # rest" and new: "wi s (ac (source r)) < ht (source r)"
  shows "wi s (ac (source r)) = wv s (ac (source r))" and "wtop s r = None"
proof -
  have r': "r \<in> set (ws s)" using r by simp
  note f = source_facts [OF w r']
  show "wtop s r = None"
    using walk_okD(8) [OF w r'] new by (cases "wtop s r") (auto simp: expanded_def)
  have no: False if x: "x \<in> B" "ac x = ac (source r)" "expanded s x t Q" "r \<in> Q" for x t Q
  proof -
    from x(3,4) obtain y where y: "y \<in> B" "ac y = ac x" "ht y = t" "rk r \<le> rk y" "wi s (ac x) = ht x" "t \<le> ht x"
      by (auto simp: expanded_def)
    have "ht y < ht (source r)" using y new x(2) by simp
    from graph_rank [OF y(1) f(2) _ this] y x(2) have "rk y < rk (source r)" by simp
    with f(3) y(4) show False by simp
  qed
  show "wi s (ac (source r)) = wv s (ac (source r))"
  proof (rule ccontr)
    assume "wi s (ac (source r)) \<noteq> wv s (ac (source r))"
    then have "wv s (ac (source r)) < wi s (ac (source r))" using walk_okD(2) [OF w, of "ac (source r)"] by simp
    from walk_okD(11) [OF w this] show False
    proof
      assume "\<exists>q \<in> set (ws s). wtop s q \<noteq> None \<and> ac (source q) = ac (source r)"
      then obtain q t where q: "q \<in> set (ws s)" "wtop s q = Some t" "ac (source q) = ac (source r)" by auto
      from walk_okD(8) [OF w q(1,2)] have e: "expanded s (source q) t {p \<in> set (ws s). rk p < rk q}" by blast
      show False
      proof (cases "rk r < rk q")
        case True
        with no [OF source_facts(2) [OF w q(1)] q(3) e] r' show False by simp
      next
        case False
        with q(1) r walk_okD(5) [OF w] have "q = r" by auto
        with q(2) \<open>wtop s r = None\<close> show False by simp
      qed
    next
      assume o: "wo s \<noteq> None \<and> ac h = ac (source r)"
      then obtain t where "wo s = Some t" by auto
      with walk_okD(9) [OF w this] no [OF walk_okD(1) [OF w]] o r' show False by blast
    qed
  qed
qed

text \<open>
  A source that was visited already, and whose account is not yet confirmed up to it, is either the
  source that the walk has just come back to, or it lies below a waiting receive block.
\<close>

lemma top_source_plain:
  assumes w: "walk_ok h s" and r: "ws s = r # rest" and seen: "ht (source r) \<le> wi s (ac (source r))"
    and y: "y \<in> B" "ac y = ac (source r)" "wv s (ac y) < ht y" "ht y \<le> ht (source r)"
  shows "src y = None"
proof (rule ccontr)
  assume "src y \<noteq> None"
  with walk_okD(6) [OF w y(1) _ y(3)] seen y have "y \<in> set (ws s)" by simp
  from top_source_clear [OF w r this y(2)] y(4) show False by simp
qed

lemma top_source_back:
  assumes w: "walk_ok h s" and r: "ws s = r # rest" and t: "wtop s r = Some t"
  shows "t \<le> wv s (ac (source r))"
proof (rule ccontr)
  assume n: "\<not> t \<le> wv s (ac (source r))"
  have r': "r \<in> set (ws s)" using r by simp
  from walk_okD(8) [OF w r' t] n obtain q where "q \<in> set (ws s)" "ac q = ac (source r)" "ht q < ht (source r)"
    by (auto simp: expanded_def below_ok_def)
  with top_source_clear [OF w r] show False by fastforce
qed

lemma top_source_inside:
  assumes w: "walk_ok h s" and r: "ws s = r # rest" and seen: "ht (source r) \<le> wi s (ac (source r))"
    and v: "wv s (ac (source r)) < ht (source r)" and t: "wtop s r = None"
  obtains q where "q \<in> set (ws s)" "ac q = ac (source r)" "ht (source r) < ht q" "wlo s q \<le> wv s (ac q)"
proof -
  let ?x = "source r"
  have r': "r \<in> set (ws s)" using r by simp
  note f = source_facts [OF w r']
  have above: "\<exists>q. q \<in> set (ws s) \<and> ac q = ac ?x \<and> ht ?x < ht q"
    if e: "expanded s x t Q" "r \<in> Q" "ac x = ac ?x" for x t Q
  proof -
    from e obtain y where y: "y \<in> B" "ac y = ac ?x" "ht y = t" "rk r \<le> rk y" "below_ok s (ac ?x) t"
      by (auto simp: expanded_def)
    have "ht ?x < t" using graph_height [OF f(2) y(1)] y f(3) by simp
    with y(5) v show ?thesis by (auto simp: below_ok_def)
  qed
  have "wv s (ac ?x) < wi s (ac ?x)" using v seen by simp
  from walk_okD(11) [OF w this] have "\<exists>q. q \<in> set (ws s) \<and> ac q = ac ?x \<and> ht ?x < ht q"
  proof
    assume "\<exists>q \<in> set (ws s). wtop s q \<noteq> None \<and> ac (source q) = ac ?x"
    then obtain q n where q: "q \<in> set (ws s)" "wtop s q = Some n" "ac (source q) = ac ?x" by auto
    then have "q \<noteq> r" using t by auto
    then have "rk r < rk q" using q(1) r walk_okD(5) [OF w] by auto
    then have "r \<in> {p \<in> set (ws s). rk p < rk q}" using r' by simp
    moreover have "expanded s (source q) n {p \<in> set (ws s). rk p < rk q}" using walk_okD(8) [OF w q(1,2)] by blast
    ultimately show ?thesis using above q(3) by blast
  next
    assume o: "wo s \<noteq> None \<and> ac h = ac ?x"
    then obtain n where "wo s = Some n" by auto
    with walk_okD(9) [OF w this] above o r' show ?thesis by blast
  qed
  then obtain q where q: "q \<in> set (ws s) \<and> ac q = ac ?x \<and> ht ?x < ht q"
    and least: "\<And>p. p \<in> set (ws s) \<and> ac p = ac ?x \<and> ht ?x < ht p \<Longrightarrow> ht q \<le> ht p"
    using ex_has_least_nat [of "\<lambda>q. q \<in> set (ws s) \<and> ac q = ac ?x \<and> ht ?x < ht q" _ ht] by blast
  have "wlo s q \<le> wv s (ac q)"
  proof (rule ccontr)
    assume "\<not> wlo s q \<le> wv s (ac q)"
    with walk_okD(7) [OF w, of q] q obtain p where "p \<in> set (ws s)" "ac p = ac ?x" "ht p < ht q"
      by (auto simp: below_ok_def)
    with top_source_clear [OF w r] least [of p] show False by fastforce
  qed
  with q that show thesis by blast
qed

section \<open>Steps of a walk\<close>

definition pop :: "'h \<Rightarrow> ('h, 'a) walk \<Rightarrow> ('h, 'a) walk" where
  "pop r s =
     s\<lparr>wv := (wv s)(ac (source r) := max (wv s (ac (source r))) (ht (source r)), ac r := ht r),
       wi := (wi s)(ac (source r) := max (wi s (ac (source r))) (ht (source r))),
       ws := tl (ws s)\<rparr>"

lemma pop_simps [simp]:
  "ws (pop r s) = tl (ws s)" "wlo (pop r s) = wlo s" "wtop (pop r s) = wtop s" "wo (pop r s) = wo s"
  by (simp_all add: pop_def)

lemma walk_okI:
  assumes "h \<in> B" and "\<And>a. wv s a \<le> wi s a"
    and "\<And>x y. x \<in> B \<Longrightarrow> src x = Some y \<Longrightarrow> ht x \<le> wv s (ac x) \<Longrightarrow> ht y \<le> wv s (ac y)"
    and "\<And>r. r \<in> set (ws s) \<Longrightarrow>
        r \<in> B \<and> src r \<noteq> None \<and> wv s (ac r) < ht r \<and> ht r \<le> wi s (ac r) \<and> needs h r"
    and "sorted_wrt (\<lambda>p q. rk p < rk q) (ws s)"
    and "\<And>x. x \<in> B \<Longrightarrow> src x \<noteq> None \<Longrightarrow> wv s (ac x) < ht x \<Longrightarrow> ht x \<le> wi s (ac x) \<Longrightarrow> x \<in> set (ws s)"
    and "\<And>r. r \<in> set (ws s) \<Longrightarrow> wlo s r < ht r \<and> below_ok s (ac r) (wlo s r)"
    and "\<And>r t. r \<in> set (ws s) \<Longrightarrow> wtop s r = Some t \<Longrightarrow>
        t < ht (source r) \<and> wv s (ac (source r)) < ht (source r) \<and>
        expanded s (source r) t {q \<in> set (ws s). rk q < rk r}"
    and "\<And>t. wo s = Some t \<Longrightarrow> wv s (ac h) \<le> t \<and> expanded s h t (set (ws s))"
    and "wo s = None \<Longrightarrow> ws s = []"
    and "\<And>a. wv s a < wi s a \<Longrightarrow>
        (\<exists>r \<in> set (ws s). wtop s r \<noteq> None \<and> ac (source r) = a) \<or> (wo s \<noteq> None \<and> ac h = a)"
  shows "walk_ok h s"
  unfolding walk_ok_def using assms by blast

lemma pop_heights:
  "wv (pop r s) c =
     (if c = ac r then ht r else if c = ac (source r) then max (wv s c) (ht (source r)) else wv s c)"
  "wi (pop r s) c = (if c = ac (source r) then max (wi s c) (ht (source r)) else wi s c)"
  by (simp_all add: pop_def)

lemma pop_mono:
  assumes w: "walk_ok h s" and r: "ws s = r # rest"
  shows "wv s c \<le> wv (pop r s) c" "wi s c \<le> wi (pop r s) c"
    "ht (source r) \<le> wv (pop r s) (ac (source r))" "wv (pop r s) c \<le> wi (pop r s) c"
proof -
  have r': "r \<in> set (ws s)" using r by simp
  note f = source_facts [OF w r'] and d = walk_okD(4) [OF w r']
  have "ht (source r) < ht r" if "ac (source r) = ac r" using graph_height [OF f(2,5) that f(3)] .
  then show "wv s c \<le> wv (pop r s) c" "wi s c \<le> wi (pop r s) c"
    "ht (source r) \<le> wv (pop r s) (ac (source r))" "wv (pop r s) c \<le> wi (pop r s) c"
    using d walk_okD(2) [OF w, of c] by (auto simp: pop_heights)
qed

lemma pop_rest:
  assumes w: "walk_ok h s" and r: "ws s = r # rest" and q: "q \<in> set rest"
  shows "q \<in> set (ws s)" "q \<noteq> r" "rk r < rk q" "wv (pop r s) (ac q) < ht q" "ht q \<le> wi (pop r s) (ac q)"
proof -
  show q': "q \<in> set (ws s)" "q \<noteq> r" "rk r < rk q" using q r walk_okD(5) [OF w] by auto
  have "ht r < ht q" if "ac q = ac r" using top_below_none [OF w r q'(1) that] q'(2) by fastforce
  with top_source_clear [OF w r q'(1)] walk_okD(4) [OF w q'(1)] show "wv (pop r s) (ac q) < ht q"
    by (auto simp: pop_heights)
  from walk_okD(4) [OF w q'(1)] pop_mono(2) [OF w r, of "ac q"] show "ht q \<le> wi (pop r s) (ac q)" by simp
qed

lemma pop_below:
  assumes w: "walk_ok h s" and r: "ws s = r # rest" and "below_ok s c n"
  shows "below_ok (pop r s) c n"
  using assms(3) pop_mono(1) [OF w r, of c] r by (auto simp: below_ok_def pop_heights intro: order_trans)

lemma pop_closed:
  assumes w: "walk_ok h s" and r: "ws s = r # rest"
    and plain: "\<And>y. y \<in> B \<Longrightarrow> ac y = ac (source r) \<Longrightarrow> wv s (ac y) < ht y \<Longrightarrow> ht y \<le> ht (source r) \<Longrightarrow> src y = None"
    and y: "y \<in> B" "src y = Some z" "ht y \<le> wv (pop r s) (ac y)"
  shows "ht z \<le> wv (pop r s) (ac z)"
proof (cases "ht y \<le> wv s (ac y)")
  case True
  from walk_okD(3) [OF w y(1,2) True] pop_mono(1) [OF w r] show ?thesis by (rule order_trans)
next
  case False
  have r': "r \<in> set (ws s)" using r by simp
  have "\<not> (ac y = ac (source r) \<and> ht y \<le> ht (source r))" using plain [OF y(1)] y(2) False by auto
  with y(3) False have b: "ac y = ac r" "ht y \<le> ht r" by (auto simp: pop_heights split: if_splits)
  then have "y \<in> set (ws s)" using walk_okD(6) [OF w y(1)] walk_okD(4) [OF w r'] y(2) False by simp
  from top_below_none [OF w r this b] y(2) source_facts(1) [OF w r'] pop_mono(3) [OF w r] show ?thesis by simp
qed

lemma pop_cover:
  assumes w: "walk_ok h s" and r: "ws s = r # rest"
    and plain: "\<And>y. y \<in> B \<Longrightarrow> ac y = ac (source r) \<Longrightarrow> wv s (ac y) < ht y \<Longrightarrow> ht y \<le> ht (source r) \<Longrightarrow> src y = None"
    and y: "y \<in> B" "src y \<noteq> None" "wv (pop r s) (ac y) < ht y" "ht y \<le> wi (pop r s) (ac y)"
  shows "y \<in> set rest"
proof -
  have a: "wv s (ac y) < ht y" using pop_mono(1) [OF w r, of "ac y"] y(3) by simp
  with plain [OF y(1)] y have "ht y \<le> wi s (ac y)" by (auto simp: pop_heights max_def split: if_splits)
  from walk_okD(6) [OF w y(1,2) a this] y(3) r show ?thesis by (auto simp: pop_heights)
qed

lemma pop_expanded:
  assumes w: "walk_ok h s" and r: "ws s = r # rest" and q: "q \<in> set rest" "wtop s q = Some t"
  shows "t < ht (source q) \<and> wv (pop r s) (ac (source q)) < ht (source q) \<and>
    expanded (pop r s) (source q) t {p \<in> set rest. rk p < rk q}"
proof -
  let ?x = "source r" and ?y = "source q"
  have r': "r \<in> set (ws s)" using r by simp
  have q': "q \<in> set (ws s)" "q \<noteq> r" using pop_rest [OF w r q(1)] by auto
  note f = source_facts [OF w r'] and g = source_facts [OF w q'(1)]
  from walk_okD(8) [OF w q'(1) q(2)] have e: "t < ht ?y" "wv s (ac ?y) < ht ?y"
    "expanded s ?y t {p \<in> set (ws s). rk p < rk q}" by auto
  then have wy: "wi s (ac ?y) = ht ?y" by (simp add: expanded_def)
  have "?x \<noteq> ?y" using graph_source_inj [OF f(5) g(5) f(1)] g(1) q'(2) by metis
  then have a: "ht ?x < ht ?y" if "ac ?y = ac ?x"
    using that top_source_new(1) [OF w r] graph_inj [OF f(2) g(2)] e(2) wy
    by (metis le_neq_implies_less less_irrefl not_le)
  have "r \<noteq> ?y" using f(1) g(4) by auto
  then have b: "ht r < ht ?y" if "ac ?y = ac r"
    using that walk_okD(4) [OF w r'] graph_inj [OF f(5) g(2)] wy by (metis le_neq_implies_less)
  have "wv (pop r s) (ac ?y) < ht ?y" using a b e(2) by (auto simp: pop_heights)
  moreover have "wi (pop r s) (ac ?y) = ht ?y" using a wy by (auto simp: pop_heights)
  ultimately show ?thesis using e(1,3) pop_below [OF w r] r by (auto simp: expanded_def)
qed

lemma pop_first:
  assumes w: "walk_ok h s" and r: "ws s = r # rest" and t: "wo s = Some t"
  shows "wv (pop r s) (ac h) \<le> t \<and> expanded (pop r s) h t (set rest)"
proof -
  have r': "r \<in> set (ws s)" using r by simp
  note f = source_facts [OF w r']
  from walk_okD(9) [OF w t] have e: "wv s (ac h) \<le> t" "expanded s h t (set (ws s))" by auto
  then obtain y where y: "y \<in> B" "ac y = ac h" "ht y = t" "rk r \<le> rk y" using r' by (auto simp: expanded_def)
  have a: "ht (source r) < t" if "ac h = ac (source r)" using graph_height [OF f(2) y(1)] that y f(3) by simp
  have "ht r \<le> t" if "ac h = ac r" using graph_rank [OF y(1) f(5)] that y by fastforce
  with a e(1) have "wv (pop r s) (ac h) \<le> t" by (auto simp: pop_heights)
  moreover have "wi (pop r s) (ac h) = ht h" using e(2) a by (auto simp: pop_heights expanded_def)
  ultimately show ?thesis using e(2) pop_below [OF w r] r by (auto simp: expanded_def)
qed

lemma pop_targets:
  assumes w: "walk_ok h s" and r: "ws s = r # rest" and c: "wv (pop r s) c < wi (pop r s) c"
  shows "(\<exists>q \<in> set rest. wtop s q \<noteq> None \<and> ac (source q) = c) \<or> (wo s \<noteq> None \<and> ac h = c)"
proof -
  note vx = pop_mono(3) [OF w r]
  have ic: "wi (pop r s) c = wi s c" using c vx by (auto simp: pop_heights max_def split: if_splits)
  then have "wv s c < wi s c" using c pop_mono(1) [OF w r, of c] by simp
  from walk_okD(11) [OF w this] show ?thesis
  proof
    assume "\<exists>q \<in> set (ws s). wtop s q \<noteq> None \<and> ac (source q) = c"
    then obtain q t where q: "q \<in> set (ws s)" "wtop s q = Some t" "ac (source q) = c" by auto
    have "q \<noteq> r" using walk_okD(8) [OF w q(1,2)] q(3) c ic vx by (auto simp: expanded_def)
    with q r show ?thesis by auto
  qed simp
qed

lemma pop_ok:
  assumes w: "walk_ok h s" and r: "ws s = r # rest"
    and plain: "\<And>y. y \<in> B \<Longrightarrow> ac y = ac (source r) \<Longrightarrow> wv s (ac y) < ht y \<Longrightarrow> ht y \<le> ht (source r) \<Longrightarrow> src y = None"
  shows "walk_ok h (pop r s)"
proof (rule walk_okI)
  note d = walk_okD [OF w] and m = pop_mono [OF w r] and p = pop_rest [OF w r]
  have rest: "ws (pop r s) = rest" using r by simp
  show "h \<in> B" by (rule d(1))
  show "wv (pop r s) c \<le> wi (pop r s) c" for c by (rule m(4))
  show "y \<in> B \<Longrightarrow> src y = Some z \<Longrightarrow> ht y \<le> wv (pop r s) (ac y) \<Longrightarrow> ht z \<le> wv (pop r s) (ac z)" for y z
    by (rule pop_closed [OF w r plain])
  show "q \<in> B \<and> src q \<noteq> None \<and> wv (pop r s) (ac q) < ht q \<and> ht q \<le> wi (pop r s) (ac q) \<and> needs h q"
    if "q \<in> set (ws (pop r s))" for q
    using d(4) [OF p(1)] p(4,5) that unfolding rest by auto
  show "sorted_wrt (\<lambda>p q. rk p < rk q) (ws (pop r s))" using d(5) r by simp
  show "y \<in> B \<Longrightarrow> src y \<noteq> None \<Longrightarrow> wv (pop r s) (ac y) < ht y \<Longrightarrow> ht y \<le> wi (pop r s) (ac y) \<Longrightarrow>
      y \<in> set (ws (pop r s))" for y
    unfolding rest by (rule pop_cover [OF w r plain])
  show "wlo (pop r s) q < ht q \<and> below_ok (pop r s) (ac q) (wlo (pop r s) q)" if "q \<in> set (ws (pop r s))" for q
    using d(7) [OF p(1)] pop_below [OF w r] that unfolding rest by simp
  show "t < ht (source q) \<and> wv (pop r s) (ac (source q)) < ht (source q) \<and>
      expanded (pop r s) (source q) t {p \<in> set (ws (pop r s)). rk p < rk q}"
    if "q \<in> set (ws (pop r s))" "wtop (pop r s) q = Some t" for q t
    using pop_expanded [OF w r] that unfolding rest by simp
  show "wv (pop r s) (ac h) \<le> t \<and> expanded (pop r s) h t (set (ws (pop r s)))" if "wo (pop r s) = Some t" for t
    using pop_first [OF w r] that unfolding rest by simp
  show "ws (pop r s) = []" if "wo (pop r s) = None" using d(10) that r by simp
  show "(\<exists>q \<in> set (ws (pop r s)). wtop (pop r s) q \<noteq> None \<and> ac (source q) = c) \<or> (wo (pop r s) \<noteq> None \<and> ac h = c)"
    if "wv (pop r s) c < wi (pop r s) c" for c
    using pop_targets [OF w r that] unfolding rest by simp
qed

text \<open>
  Visiting the blocks of an account up to a block \<open>x\<close>: the receive blocks found on the way have to
  wait.
\<close>

definition receives_ok :: "('h, 'a) walk \<Rightarrow> 'h \<Rightarrow> 'h list \<Rightarrow> ('h \<Rightarrow> nat) \<Rightarrow> bool" where
  "receives_ok s x rs lo \<longleftrightarrow>
     rs \<noteq> [] \<and> sorted_wrt (\<lambda>p q. ht p < ht q) rs \<and>
     set rs = {y \<in> B. ac y = ac x \<and> src y \<noteq> None \<and> wv s (ac x) < ht y \<and> ht y \<le> ht x} \<and>
     (\<forall>q \<in> set rs. lo q < ht q \<and> (lo q \<le> wv s (ac x) \<or> (\<exists>p \<in> set rs. ht p = lo q)))"

definition push :: "'h \<Rightarrow> 'h list \<Rightarrow> ('h \<Rightarrow> nat) \<Rightarrow> ('h, 'a) walk \<Rightarrow> ('h, 'a) walk" where
  "push x rs lo s =
     s\<lparr>wi := (wi s)(ac x := ht x), ws := rs @ ws s,
       wlo := (\<lambda>q. if q \<in> set rs then lo q else wlo s q),
       wtop := (\<lambda>q. if q \<in> set rs then None else wtop s q)\<rparr>"

definition push_source :: "'h \<Rightarrow> 'h list \<Rightarrow> ('h \<Rightarrow> nat) \<Rightarrow> ('h, 'a) walk \<Rightarrow> ('h, 'a) walk" where
  "push_source r rs lo s =
     (let s' = push (source r) rs lo s in s'\<lparr>wtop := (wtop s')(r \<mapsto> ht (last rs))\<rparr>)"

definition push_first :: "'h \<Rightarrow> 'h list \<Rightarrow> ('h \<Rightarrow> nat) \<Rightarrow> ('h, 'a) walk \<Rightarrow> ('h, 'a) walk" where
  "push_first h rs lo s = (push h rs lo s)\<lparr>wo := Some (ht (last rs))\<rparr>"

lemma push_simps [simp]:
  "wv (push_source r rs lo s) = wv s" "wi (push_source r rs lo s) = (wi s)(ac (source r) := ht (source r))"
  "ws (push_source r rs lo s) = rs @ ws s" "wo (push_source r rs lo s) = wo s"
  "wlo (push_source r rs lo s) q = (if q \<in> set rs then lo q else wlo s q)"
  "wtop (push_source r rs lo s) q =
     (if q = r then Some (ht (last rs)) else if q \<in> set rs then None else wtop s q)"
  "wv (push_first h rs lo s) = wv s" "wi (push_first h rs lo s) = (wi s)(ac h := ht h)"
  "ws (push_first h rs lo s) = rs @ ws s" "wo (push_first h rs lo s) = Some (ht (last rs))"
  "wlo (push_first h rs lo s) q = (if q \<in> set rs then lo q else wlo s q)"
  "wtop (push_first h rs lo s) q = (if q \<in> set rs then None else wtop s q)"
  by (simp_all add: push_source_def push_first_def push_def Let_def)

lemma receives_okD:
  assumes "receives_ok s x rs lo" and x: "x \<in> B"
  shows "last rs \<in> set rs"
    and "\<And>q. q \<in> set rs \<longleftrightarrow> q \<in> B \<and> ac q = ac x \<and> src q \<noteq> None \<and> wv s (ac x) < ht q \<and> ht q \<le> ht x"
    and "\<And>q. q \<in> set rs \<Longrightarrow> rk q \<le> rk (last rs)" and "\<And>q. q \<in> set rs \<Longrightarrow> rk q \<le> rk x"
    and "sorted_wrt (\<lambda>p q. rk p < rk q) rs"
    and "\<And>q. q \<in> set rs \<Longrightarrow> lo q < ht q \<and> (lo q \<le> wv s (ac x) \<or> (\<exists>p \<in> set rs. ht p = lo q))"
proof -
  show l: "last rs \<in> set rs" using assms unfolding receives_ok_def by (metis last_in_set)
  show m: "q \<in> set rs \<longleftrightarrow> q \<in> B \<and> ac q = ac x \<and> src q \<noteq> None \<and> wv s (ac x) < ht q \<and> ht q \<le> ht x" for q
    using assms by (simp add: receives_ok_def)
  have so: "sorted_wrt (\<lambda>p q. ht p < ht q) rs" using assms by (simp add: receives_ok_def)
  show "rk q \<le> rk x" if "q \<in> set rs" for q using that m graph_rank_le [OF _ x] by simp
  show "sorted_wrt (\<lambda>p q. rk p < rk q) rs"
    using so m graph_rank by (auto intro: sorted_wrt_mono_rel [rotated])
  show "rk q \<le> rk (last rs)" if "q \<in> set rs" for q
  proof -
    have "ht q \<le> ht (last rs)" using so that by (induction rs) (auto intro: less_imp_le)
    with graph_rank_le that l m show ?thesis by simp
  qed
  show "lo q < ht q \<and> (lo q \<le> wv s (ac x) \<or> (\<exists>p \<in> set rs. ht p = lo q))" if "q \<in> set rs" for q
    using assms(1) that unfolding receives_ok_def by blast
qed

lemma push_below:
  assumes "below_ok s c n"
  shows "below_ok (push_source r rs lo s) c n" "below_ok (push_first h rs lo s) c n"
  using assms by (auto simp: below_ok_def)

lemma push_source_less:
  assumes w: "walk_ok h s" and r: "ws s = r # rest" and rs: "receives_ok s (source r) rs lo"
    and "q \<in> set rs" and "p \<in> set (ws s)"
  shows "rk q < rk p" "q \<noteq> p"
proof -
  have r': "r \<in> set (ws s)" using r by simp
  note f = source_facts [OF w r']
  show "rk q < rk p" using receives_okD(4) [OF rs f(2) assms(4)] f(3) top_least [OF w r assms(5)] by simp
  then show "q \<noteq> p" by auto
qed

lemma push_source_bound:
  assumes w: "walk_ok h s" and r: "ws s = r # rest" and rs: "receives_ok s (source r) rs lo"
    and e: "expanded s x t Q" and "ac x \<noteq> ac (source r)" and "r \<in> Q" and "Q' \<subseteq> Q \<union> set rs"
  shows "expanded (push_source r rs lo s) x t Q'"
proof -
  have r': "r \<in> set (ws s)" using r by simp
  from e \<open>r \<in> Q\<close> obtain y where y: "y \<in> B" "ac y = ac x" "ht y = t" "rk r \<le> rk y" by (auto simp: expanded_def)
  have "\<exists>y \<in> B. ac y = ac x \<and> ht y = t \<and> rk q \<le> rk y" if "q \<in> Q'" for q
  proof (cases "q \<in> Q")
    case True
    with e show ?thesis by (simp add: expanded_def)
  next
    case False
    with that assms(7) have "q \<in> set rs" by auto
    from push_source_less(1) [OF w r rs this r'] y show ?thesis by (intro bexI [of _ y]) auto
  qed
  with e assms(5) push_below(1) show ?thesis by (auto simp: expanded_def)
qed

lemma push_source_expanded:
  assumes w: "walk_ok h s" and r: "ws s = r # rest" and new: "wi s (ac (source r)) < ht (source r)"
    and rs: "receives_ok s (source r) rs lo"
    and q: "q \<in> set (rs @ ws s)" "wtop (push_source r rs lo s) q = Some t"
  shows "t < ht (source q) \<and> wv s (ac (source q)) < ht (source q) \<and>
    expanded (push_source r rs lo s) (source q) t {p \<in> set (rs @ ws s). rk p < rk q}"
proof (cases "q = r")
  case True
  let ?x = "source r"
  have r': "r \<in> set (ws s)" using r by simp
  note f = source_facts [OF w r'] and m = receives_okD [OF rs source_facts(2) [OF w r']]
  have t: "t = ht (last rs)" using q(2) True by simp
  have l: "last rs \<in> B" "ac (last rs) = ac ?x" "ht (last rs) \<le> ht ?x" "src (last rs) \<noteq> None" using m(1,2) by auto
  then have "ht (last rs) < ht ?x" using f(4) graph_inj [OF l(1) f(2) l(2)] by (cases "ht (last rs) = ht ?x") auto
  moreover have "\<exists>y \<in> B. ac y = ac ?x \<and> ht y = t \<and> rk p \<le> rk y" if "p \<in> set (rs @ ws s)" "rk p < rk r" for p
  proof -
    have "p \<in> set rs" using that top_least [OF w r, of p] by auto
    from m(3) [OF this] l t show ?thesis by blast
  qed
  moreover have "below_ok (push_source r rs lo s) (ac ?x) t" using t m(1) l(2) by (auto simp: below_ok_def)
  ultimately show ?thesis using t True new walk_okD(2) [OF w, of "ac ?x"] by (simp add: expanded_def)
next
  case False
  have r': "r \<in> set (ws s)" using r by simp
  from False q have q': "q \<in> set (ws s)" "wtop s q = Some t" by (auto split: if_splits)
  from walk_okD(8) [OF w q'] have e: "t < ht (source q)" "wv s (ac (source q)) < ht (source q)"
    "expanded s (source q) t {p \<in> set (ws s). rk p < rk q}" by auto
  then have a: "ac (source q) \<noteq> ac (source r)" using top_source_new(1) [OF w r new] by (auto simp: expanded_def)
  have "r \<in> {p \<in> set (ws s). rk p < rk q}" using r r' q'(1) False walk_okD(5) [OF w] by auto
  moreover have "{p \<in> set (rs @ ws s). rk p < rk q} \<subseteq> {p \<in> set (ws s). rk p < rk q} \<union> set rs" by auto
  ultimately show ?thesis using push_source_bound [OF w r rs e(3) a] e(1,2) by blast
qed

lemma push_source_first:
  assumes w: "walk_ok h s" and r: "ws s = r # rest" and new: "wi s (ac (source r)) < ht (source r)"
    and rs: "receives_ok s (source r) rs lo" and t: "wo s = Some t"
  shows "wv s (ac h) \<le> t \<and> expanded (push_source r rs lo s) h t (set (rs @ ws s))"
proof -
  have r': "r \<in> set (ws s)" using r by simp
  note f = source_facts [OF w r']
  from walk_okD(9) [OF w t] have e: "wv s (ac h) \<le> t" "expanded s h t (set (ws s))" by auto
  from e(2) r' obtain y where y: "y \<in> B" "ac y = ac h" "ht y = t" "rk r \<le> rk y" "t \<le> wi s (ac h)"
    by (auto simp: expanded_def)
  have "ac h \<noteq> ac (source r)" using graph_rank [OF y(1) f(2)] y f(3) new by fastforce
  moreover have "set (rs @ ws s) \<subseteq> set (ws s) \<union> set rs" by auto
  ultimately show ?thesis using push_source_bound [OF w r rs e(2) _ r'] e(1) by blast
qed

lemma push_source_ok:
  assumes w: "walk_ok h s" and r: "ws s = r # rest" and new: "wi s (ac (source r)) < ht (source r)"
    and rs: "receives_ok s (source r) rs lo"
  shows "walk_ok h (push_source r rs lo s)" (is "walk_ok h ?s")
proof (rule walk_okI)
  let ?x = "source r"
  have r': "r \<in> set (ws s)" using r by simp
  note d = walk_okD [OF w] and f = source_facts [OF w r']
  note m = receives_okD [OF rs f(2)] and old = push_source_less [OF w r rs]
  show "h \<in> B" by (rule d(1))
  show "wv ?s c \<le> wi ?s c" for c using d(2) [of c] new by auto
  show "y \<in> B \<Longrightarrow> src y = Some z \<Longrightarrow> ht y \<le> wv ?s (ac y) \<Longrightarrow> ht z \<le> wv ?s (ac z)" for y z
    using d(3) by simp
  have nx: "needs h ?x" using d(4) [OF r'] f(1) needs_source by blast
  show "q \<in> B \<and> src q \<noteq> None \<and> wv ?s (ac q) < ht q \<and> ht q \<le> wi ?s (ac q) \<and> needs h q"
    if "q \<in> set (ws ?s)" for q
  proof (cases "q \<in> set rs")
    case True
    with m(2) [of q] needs_le [OF nx, of q] show ?thesis by simp
  next
    case False
    with that d(4) [of q] new show ?thesis by auto
  qed
  show "sorted_wrt (\<lambda>p q. rk p < rk q) (ws ?s)" using d(5) m(5) old(1) by (simp add: sorted_wrt_append)
  show "y \<in> B \<Longrightarrow> src y \<noteq> None \<Longrightarrow> wv ?s (ac y) < ht y \<Longrightarrow> ht y \<le> wi ?s (ac y) \<Longrightarrow> y \<in> set (ws ?s)" for y
    using d(6) [of y] m(2) [of y] by (auto split: if_splits)
  show "wlo ?s q < ht q \<and> below_ok ?s (ac q) (wlo ?s q)" if "q \<in> set (ws ?s)" for q
  proof (cases "q \<in> set rs")
    case True
    with m(6) [OF True] m(2) show ?thesis by (auto simp: below_ok_def)
  next
    case False
    with that d(7) [of q] push_below(1) show ?thesis by simp
  qed
  show "t < ht (source q) \<and> wv ?s (ac (source q)) < ht (source q) \<and>
      expanded ?s (source q) t {p \<in> set (ws ?s). rk p < rk q}"
    if "q \<in> set (ws ?s)" "wtop ?s q = Some t" for q t
    using push_source_expanded [OF w r new rs, of q t] that unfolding push_simps .
  show "wv ?s (ac h) \<le> t \<and> expanded ?s h t (set (ws ?s))" if "wo ?s = Some t" for t
    using push_source_first [OF w r new rs] that unfolding push_simps .
  show "ws ?s = []" if "wo ?s = None" using d(10) that r by simp
  show "(\<exists>q \<in> set (ws ?s). wtop ?s q \<noteq> None \<and> ac (source q) = c) \<or> (wo ?s \<noteq> None \<and> ac h = c)"
    if "wv ?s c < wi ?s c" for c
  proof (cases "c = ac ?x")
    case True
    then show ?thesis using r' by auto
  next
    case False
    with that d(11) [of c] old(2) show ?thesis by fastforce
  qed
qed

lemma idle_settled:
  assumes "walk_ok h s" and "wo s = None"
  shows "wi s c = wv s c"
  using walk_okD(2,10) [OF assms(1)] walk_okD(11) [OF assms(1), of c] assms(2)
  by (metis empty_iff list.set(1) le_neq_implies_less)

lemma push_first_ok:
  assumes w: "walk_ok h s" and o: "wo s = None" and new: "wi s (ac h) < ht h" and rs: "receives_ok s h rs lo"
  shows "walk_ok h (push_first h rs lo s)" (is "walk_ok h ?s")
proof (rule walk_okI)
  note d = walk_okD [OF w] and m = receives_okD [OF rs walk_okD(1) [OF w]]
  have e: "ws s = []" using d(10) o by simp
  have i: "wi s c = wv s c" for c by (rule idle_settled [OF w o])
  show "h \<in> B" by (rule d(1))
  show "wv ?s c \<le> wi ?s c" for c using new i by auto
  show "y \<in> B \<Longrightarrow> src y = Some z \<Longrightarrow> ht y \<le> wv ?s (ac y) \<Longrightarrow> ht z \<le> wv ?s (ac z)" for y z
    using d(3) by simp
  show "q \<in> B \<and> src q \<noteq> None \<and> wv ?s (ac q) < ht q \<and> ht q \<le> wi ?s (ac q) \<and> needs h q"
    if "q \<in> set (ws ?s)" for q
    using that m(2) [of q] needs_le [OF needs_self [OF d(1)], of q] e by auto
  show "sorted_wrt (\<lambda>p q. rk p < rk q) (ws ?s)" using m(5) e by simp
  show "y \<in> B \<Longrightarrow> src y \<noteq> None \<Longrightarrow> wv ?s (ac y) < ht y \<Longrightarrow> ht y \<le> wi ?s (ac y) \<Longrightarrow> y \<in> set (ws ?s)" for y
    using i m(2) [of y] by (auto split: if_splits)
  show "wlo ?s q < ht q \<and> below_ok ?s (ac q) (wlo ?s q)" if "q \<in> set (ws ?s)" for q
    using that m(6) [of q] m(2) e by (auto simp: below_ok_def)
  show "t < ht (source q) \<and> wv ?s (ac (source q)) < ht (source q) \<and>
      expanded ?s (source q) t {p \<in> set (ws ?s). rk p < rk q}"
    if "q \<in> set (ws ?s)" "wtop ?s q = Some t" for q t
    using that e by (auto split: if_splits)
  show "wv ?s (ac h) \<le> t \<and> expanded ?s h t (set (ws ?s))" if "wo ?s = Some t" for t
  proof -
    have l: "last rs \<in> B" "ac (last rs) = ac h" "ht (last rs) \<le> ht h" "wv s (ac h) < ht (last rs)" using m(1,2) by auto
    have "below_ok ?s (ac h) t" using that m(1) l by (auto simp: below_ok_def)
    with that m(3) l e show ?thesis by (auto simp: expanded_def)
  qed
  show "ws ?s = []" if "wo ?s = None" using that by simp
  show "(\<exists>q \<in> set (ws ?s). wtop ?s q \<noteq> None \<and> ac (source q) = c) \<or> (wo ?s \<noteq> None \<and> ac h = c)"
    if "wv ?s c < wi ?s c" for c
    using that i by (auto split: if_splits)
qed

text \<open>At the end of a walk the first block itself is confirmed.\<close>

definition settle :: "'h \<Rightarrow> ('h, 'a) walk \<Rightarrow> ('h, 'a) walk" where
  "settle h s =
     s\<lparr>wv := (wv s)(ac h := max (wv s (ac h)) (ht h)), wi := (wi s)(ac h := max (wi s (ac h)) (ht h)), wo := None\<rparr>"

lemma settle_simps [simp]:
  "wv (settle h s) = (wv s)(ac h := max (wv s (ac h)) (ht h))"
  "wi (settle h s) = (wi s)(ac h := max (wi s (ac h)) (ht h))"
  "ws (settle h s) = ws s" "wo (settle h s) = None"
  by (simp_all add: settle_def)

lemma settle_ok:
  assumes w: "walk_ok h s" and e: "ws s = []"
    and plain: "\<And>y. y \<in> B \<Longrightarrow> ac y = ac h \<Longrightarrow> wv s (ac y) < ht y \<Longrightarrow> ht y \<le> ht h \<Longrightarrow> src y = None"
  shows "walk_ok h (settle h s)"
proof (rule walk_okI)
  note d = walk_okD [OF w]
  let ?s = "settle h s"
  have mono: "wv s c \<le> wv ?s c" for c by simp
  show "h \<in> B" by (rule d(1))
  show "wv ?s c \<le> wi ?s c" for c using d(2) [of c] by (auto simp: le_max_iff_disj)
  show "ht z \<le> wv ?s (ac z)" if y: "y \<in> B" "src y = Some z" "ht y \<le> wv ?s (ac y)" for y z
  proof -
    have "ht y \<le> wv s (ac y)" using plain [OF y(1)] y(2,3) by (fastforce simp: max_def split: if_splits)
    from d(3) [OF y(1,2) this] mono show ?thesis by (rule order_trans)
  qed
  have none: False if "y \<in> B" "src y \<noteq> None" "wv ?s (ac y) < ht y" "ht y \<le> wi ?s (ac y)" for y
    using that d(6) [of y] e by (auto simp: max_def split: if_splits)
  then show "y \<in> B \<Longrightarrow> src y \<noteq> None \<Longrightarrow> wv ?s (ac y) < ht y \<Longrightarrow> ht y \<le> wi ?s (ac y) \<Longrightarrow> y \<in> set (ws ?s)" for y
    by blast
  show "(\<exists>q \<in> set (ws ?s). wtop ?s q \<noteq> None \<and> ac (source q) = c) \<or> (wo ?s \<noteq> None \<and> ac h = c)"
    if c: "wv ?s c < wi ?s c" for c
  proof -
    have "wv s c < wi s c" using c by (auto simp: max_def split: if_splits)
    with d(11) [OF this] e obtain t where t: "ac h = c" "wo s = Some t" by auto
    with d(9) have "wi s c = ht h" by (auto simp: expanded_def)
    with c t(1) show ?thesis by simp
  qed
qed (use e in simp_all)

lemma settled_plain:
  assumes w: "walk_ok h s" and e: "ws s = []" and o: "wo s \<noteq> None"
    and y: "y \<in> B" "ac y = ac h" "wv s (ac y) < ht y" "ht y \<le> ht h"
  shows "src y = None"
proof (rule ccontr)
  assume n: "src y \<noteq> None"
  from o obtain t where "wo s = Some t" by auto
  with walk_okD(9) [OF w] have "wi s (ac h) = ht h" by (auto simp: expanded_def)
  with walk_okD(6) [OF w y(1) n y(3)] y e show False by simp
qed

lemma settled_top:
  assumes "walk_ok h s" and "ws s = []" and "wo s = Some t"
  shows "wv s (ac h) = t"
  using walk_okD(9) [OF assms(1,3)] assms(2) by (simp add: expanded_def below_ok_def)

lemma idle_other:
  assumes w: "walk_ok h s" and o: "wo s = None" and h': "h' \<in> B"
  shows "walk_ok h' s"
proof (rule walk_okI)
  note d = walk_okD [OF w]
  have e: "ws s = []" using d(10) o by simp
  show "wv s c \<le> wi s c" for c by (rule d(2))
  show "y \<in> B \<Longrightarrow> src y = Some z \<Longrightarrow> ht y \<le> wv s (ac y) \<Longrightarrow> ht z \<le> wv s (ac z)" for y z
    by (rule d(3))
qed (use h' o idle_settled [OF w o] walk_okD(10) [OF w o] in simp_all)

lemma idle_start:
  assumes "h \<in> B" and "\<And>x y. x \<in> B \<Longrightarrow> src x = Some y \<Longrightarrow> ht x \<le> v (ac x) \<Longrightarrow> ht y \<le> v (ac y)"
  shows "walk_ok h \<lparr>wv = v, wi = v, ws = [], wlo = lo, wtop = tp, wo = None\<rparr>"
  by (rule walk_okI) (use assms in simp_all)

section \<open>The length of a walk\<close>

definition walk_measure :: "('h, 'a) walk \<Rightarrow> nat" where
  "walk_measure s = 2 * card {y \<in> B. wi s (ac y) < ht y} + length (ws s)"

lemma pop_measure:
  assumes w: "walk_ok h s" and r: "ws s = r # rest"
  shows "walk_measure (pop r s) < walk_measure s"
proof -
  have "{y \<in> B. wi (pop r s) (ac y) < ht y} \<subseteq> {y \<in> B. wi s (ac y) < ht y}"
    using pop_mono(2) [OF w r] by (auto intro: le_less_trans)
  from card_mono [OF _ this] r show ?thesis by (simp add: walk_measure_def graph_finite)
qed

lemma push_measure:
  assumes "\<And>c. wi s' c = (if c = ac x then ht x else wi s c)" and "ws s' = rs @ ws s"
    and new: "wi s (ac x) < ht x" and x: "x \<in> B" and rs: "receives_ok s x rs lo" and v: "wv s (ac x) = wi s (ac x)"
  shows "walk_measure s' < walk_measure s"
proof -
  note m = receives_okD [OF rs x]
  let ?U = "\<lambda>s. {y \<in> B. wi s (ac y) < ht y}"
  have "sorted_wrt (\<lambda>p q. rk p < rk q) rs \<Longrightarrow> distinct rs" by (induction rs) auto
  then have "length rs = card (set rs)" using m(5) by (simp add: distinct_card)
  moreover have "rs \<noteq> []" using rs by (simp add: receives_ok_def)
  moreover have "?U s' \<union> set rs \<subseteq> ?U s" using assms(1) new m(2) v by (auto split: if_splits)
  then have "card (?U s' \<union> set rs) \<le> card (?U s)" by (rule card_mono [rotated]) (simp add: graph_finite)
  moreover have "?U s' \<inter> set rs = {}" using assms(1) m(2) by auto
  then have "card (?U s' \<union> set rs) = card (?U s') + card (set rs)"
    by (rule card_Un_disjoint [rotated 2]) (simp_all add: graph_finite)
  ultimately show ?thesis unfolding walk_measure_def assms(2) by (cases rs) simp_all
qed

section \<open>Segments of a chain\<close>

definition block_at :: "'a \<Rightarrow> nat \<Rightarrow> 'h" where
  "block_at a n = (THE x. x \<in> B \<and> ac x = a \<and> ht x = n)"

lemma block_at_eq: "x \<in> B \<Longrightarrow> block_at (ac x) (ht x) = x"
  unfolding block_at_def by (rule the_equality) (auto intro: graph_inj)

lemma block_at_below:
  assumes "x \<in> B" and "0 < n" and "n \<le> ht x"
  shows "block_at (ac x) n \<in> B \<and> ac (block_at (ac x) n) = ac x \<and> ht (block_at (ac x) n) = n"
proof -
  from graph_below [OF assms] obtain y where "y \<in> B" "ac y = ac x" "ht y = n" by blast
  with block_at_eq [OF this(1)] show ?thesis by simp
qed

text \<open>The blocks of an account from one height down to another, without the last.\<close>

definition segment :: "'a \<Rightarrow> nat \<Rightarrow> nat \<Rightarrow> 'h list" where
  "segment a i j = map (block_at a) (rev [Suc i..<Suc j])"

lemma segment_simps [simp]:
  "length (segment a i j) = j - i" "segment a i i = []"
  "i \<le> j \<Longrightarrow> segment a i (Suc j) = block_at a (Suc j) # segment a i j"
  "segment a i j = [] \<longleftrightarrow> j \<le> i"
  by (auto simp: segment_def simp del: upt_Suc simp add: upt_Suc_append)

lemma segment_Cons:
  assumes "x \<in> B" and "i < ht x"
  shows "segment (ac x) i (ht x) = x # segment (ac x) i (ht x - 1)"
proof -
  obtain n where "ht x = Suc n" "i \<le> n" using assms(2) by (cases "ht x") auto
  with block_at_eq [OF assms(1)] show ?thesis by simp
qed

lemma segment_append:
  assumes "i \<le> k" and "k \<le> j"
  shows "segment a i j = segment a k j @ segment a i k"
proof -
  have "[Suc i..<Suc j] = [Suc i..<Suc k] @ [Suc k..<Suc j]"
    using assms by (metis Suc_le_mono le_iff_add upt_add_eq_append)
  then show ?thesis by (simp add: segment_def del: upt_Suc)
qed

lemma segment_take: "i \<le> k \<Longrightarrow> k \<le> j \<Longrightarrow> take (j - k) (segment a i j) = segment a k j"
  using segment_append [of i k j a] by simp

lemma segment_drop: "i \<le> k \<Longrightarrow> k \<le> j \<Longrightarrow> drop (j - k) (segment a i j) = segment a i k"
  using segment_append [of i k j a] by simp

lemma segment_mem:
  assumes x: "x \<in> B" and "j \<le> ht x"
  shows "y \<in> set (segment (ac x) i j) \<longleftrightarrow> y \<in> B \<and> ac y = ac x \<and> i < ht y \<and> ht y \<le> j"
proof
  assume "y \<in> set (segment (ac x) i j)"
  then obtain n where "y = block_at (ac x) n" "i < n" "n \<le> j" by (auto simp: segment_def)
  with block_at_below [OF x, of n] assms(2) show "y \<in> B \<and> ac y = ac x \<and> i < ht y \<and> ht y \<le> j" by simp
next
  assume y: "y \<in> B \<and> ac y = ac x \<and> i < ht y \<and> ht y \<le> j"
  then have "y = block_at (ac x) (ht y)" using block_at_eq [of y] by simp
  moreover have "ht y \<in> set (rev [Suc i..<Suc j])" using y by auto
  ultimately show "y \<in> set (segment (ac x) i j)" unfolding segment_def by (metis image_eqI set_map)
qed

lemma segment_distinct: "x \<in> B \<Longrightarrow> j \<le> ht x \<Longrightarrow> distinct (segment (ac x) i j)"
proof (induction j)
  case (Suc j)
  show ?case
  proof (cases "i \<le> j")
    case True
    with Suc segment_mem [OF Suc.prems(1), of j] block_at_below [OF Suc.prems(1), of "Suc j"] show ?thesis by simp
  qed (simp add: segment_def)
qed (simp add: segment_def)

text \<open>
  Going down a chain: the blocks above the first receive block, and each receive block with the
  blocks between it and the next one.
\<close>

fun scan :: "'a \<Rightarrow> nat \<Rightarrow> nat \<Rightarrow> 'h list \<times> ('h \<times> 'h list) list" where
  "scan a i 0 = ([], [])"
| "scan a i (Suc n) =
     (let x = block_at a (Suc (i + n)); (d, rs) = scan a i n
      in if src x = None then (x # d, rs) else ([], (x, d) # rs))"

fun scan_top :: "nat \<Rightarrow> ('h \<times> 'h list) list \<Rightarrow> nat" where
  "scan_top i [] = i"
| "scan_top i (p # rs) = ht (fst p)"

fun scan_ok :: "'a \<Rightarrow> nat \<Rightarrow> ('h \<times> 'h list) list \<Rightarrow> bool" where
  "scan_ok a i [] = True"
| "scan_ok a i ((x, d) # rs) \<longleftrightarrow>
     x \<in> B \<and> ac x = a \<and> src x \<noteq> None \<and> i < ht x \<and> scan_top i rs < ht x \<and>
     x # d = segment a (scan_top i rs) (ht x) \<and> scan_ok a i rs"

lemma scan_segment:
  assumes z: "z \<in> B" "ac z = a"
  shows "i + n \<le> ht z \<Longrightarrow> scan a i n = (d, rs) \<Longrightarrow>
    d = segment a (scan_top i rs) (i + n) \<and> i \<le> scan_top i rs \<and> scan_top i rs \<le> i + n \<and> scan_ok a i rs \<and>
    fst ` set rs = {y \<in> B. ac y = a \<and> src y \<noteq> None \<and> i < ht y \<and> ht y \<le> i + n} \<and>
    sorted_wrt (\<lambda>p q. ht (fst q) < ht (fst p)) rs"
proof (induction n arbitrary: d rs)
  case (Suc n)
  let ?x = "block_at a (Suc (i + n))"
  have x: "?x \<in> B" "ac ?x = a" "ht ?x = Suc (i + n)" using block_at_below [OF z(1), of "Suc (i + n)"] Suc.prems(1) z(2) by auto
  obtain d' rs' where s: "scan a i n = (d', rs')" by force
  from Suc.IH [OF _ s] Suc.prems(1) have IH: "d' = segment a (scan_top i rs') (i + n)" "i \<le> scan_top i rs'"
    "scan_top i rs' \<le> i + n" "scan_ok a i rs'"
    "fst ` set rs' = {y \<in> B. ac y = a \<and> src y \<noteq> None \<and> i < ht y \<and> ht y \<le> i + n}"
    "sorted_wrt (\<lambda>p q. ht (fst q) < ht (fst p)) rs'" by auto
  have new: "y = ?x" if "y \<in> B" "ac y = a" "ht y = Suc (i + n)" for y using graph_inj [OF that(1) x(1)] that x by simp
  show ?case
  proof (cases "src ?x = None")
    case True
    have "{y \<in> B. ac y = a \<and> src y \<noteq> None \<and> i < ht y \<and> ht y \<le> i + Suc n} = fst ` set rs'"
      unfolding IH(5) using True new by (auto simp: le_Suc_eq)
    moreover have "d = ?x # d'" "rs = rs'" using True Suc.prems(2) s by auto
    moreover have "?x # d' = segment a (scan_top i rs') (i + Suc n)" using IH(1,3) by simp
    moreover have "scan_top i rs' \<le> i + Suc n" using IH(3) by simp
    ultimately show ?thesis using IH(2,4,6) by (simp only: simp_thms)
  next
    case False
    have "{y \<in> B. ac y = a \<and> src y \<noteq> None \<and> i < ht y \<and> ht y \<le> i + Suc n} = insert ?x (fst ` set rs')"
      unfolding IH(5)
    proof (intro set_eqI iffI)
      fix y assume y: "y \<in> {y \<in> B. ac y = a \<and> src y \<noteq> None \<and> i < ht y \<and> ht y \<le> i + Suc n}"
      show "y \<in> insert ?x {y \<in> B. ac y = a \<and> src y \<noteq> None \<and> i < ht y \<and> ht y \<le> i + n}"
        using y new [of y] by (cases "ht y = Suc (i + n)") simp_all
    qed (use x False in auto)
    moreover have "ht (fst q) < Suc (i + n)" if "q \<in> set rs'" for q
      using that IH(5) by (metis (mono_tags, lifting) image_eqI le_imp_less_Suc mem_Collect_eq)
    moreover have "d = []" "rs = (?x, d') # rs'" using False Suc.prems(2) s by auto
    moreover have "scan_ok a i ((?x, d') # rs')" using IH(1-4) x False by simp
    ultimately show ?thesis
      using IH(6) x(3) by (simp only: scan_top.simps list.set image_insert fst_conv sorted_wrt.simps) simp
  qed
qed (auto simp: segment_def)

definition scan_lo :: "('h \<times> 'h list) list \<Rightarrow> 'h \<Rightarrow> nat" where
  "scan_lo rs q = ht q - Suc (length (the (map_of rs q)))"

lemma scan_lo_segment:
  assumes "scan_ok a i rs" and "sorted_wrt (\<lambda>p q. ht (fst q) < ht (fst p)) rs" and "(q, d) \<in> set rs"
  shows "q \<in> B \<and> ac q = a \<and> scan_lo rs q < ht q \<and> q # d = segment a (scan_lo rs q) (ht q) \<and>
    (scan_lo rs q = i \<or> (\<exists>p \<in> set rs. ht (fst p) = scan_lo rs q))"
  using assms
proof (induction rs)
  case (Cons p rs)
  obtain x e where p: "p = (x, e)" by force
  show ?case
  proof (cases "(q, d) = p")
    case True
    with Cons.prems(1) p have x: "q \<in> B" "ac q = a" "scan_top i rs < ht q" "q # d = segment a (scan_top i rs) (ht q)"
      by auto
    have "Suc (length d) = ht q - scan_top i rs"
      using arg_cong [OF x(4), of length] by simp
    then have lo: "scan_lo (p # rs) q = scan_top i rs" using x(3) True by (auto simp: scan_lo_def)
    have "scan_top i rs = i \<or> (\<exists>p \<in> set rs. ht (fst p) = scan_top i rs)" by (cases rs) auto
    with x lo show ?thesis by auto
  next
    case False
    with Cons.prems have r: "scan_ok a i rs" "sorted_wrt (\<lambda>p q. ht (fst q) < ht (fst p)) rs" "(q, d) \<in> set rs" "ht q < ht x"
      using p by auto
    then have "scan_lo (p # rs) q = scan_lo rs q" using p by (auto simp: scan_lo_def)
    with Cons.IH [OF r(1-3)] show ?thesis by auto
  qed
qed simp

lemma scan_receives:
  assumes x: "x \<in> B" "ac x = a" "ht x = i + n" and s: "scan a i n = (d, rs)" and "rs \<noteq> []" and v: "wv s a = i"
  shows "receives_ok s x (rev (map fst rs)) (scan_lo rs)"
    and "ht (last (rev (map fst rs))) = scan_top i rs"
proof -
  from scan_segment [OF x(1,2) _ s] x(3) have f: "scan_ok a i rs"
    "fst ` set rs = {y \<in> B. ac y = a \<and> src y \<noteq> None \<and> i < ht y \<and> ht y \<le> i + n}"
    "sorted_wrt (\<lambda>p q. ht (fst q) < ht (fst p)) rs" by auto
  have "sorted_wrt (\<lambda>p q. ht p < ht q) (rev (map fst rs))"
    using f(3) by (simp add: sorted_wrt_rev sorted_wrt_map)
  moreover have "scan_lo rs q < ht q \<and> (scan_lo rs q \<le> wv s (ac x) \<or> (\<exists>p \<in> set (rev (map fst rs)). ht p = scan_lo rs q))"
    if "q \<in> set (rev (map fst rs))" for q
  proof -
    from that obtain e where "(q, e) \<in> set rs" by auto
    from scan_lo_segment [OF f(1,3) this] v x(2) show ?thesis by fastforce
  qed
  ultimately show "receives_ok s x (rev (map fst rs)) (scan_lo rs)"
    using \<open>rs \<noteq> []\<close> f(2) x(2,3) v by (simp add: receives_ok_def)
  show "ht (last (rev (map fst rs))) = scan_top i rs" using \<open>rs \<noteq> []\<close> by (cases rs) auto
qed

section \<open>Writes\<close>

text \<open>
  A list of blocks, each of which becomes the confirmed top of its account.  The sources of the
  blocks that are confirmed with it are confirmed by then.
\<close>

definition raise :: "('a \<Rightarrow> nat) \<Rightarrow> 'h \<Rightarrow> 'a \<Rightarrow> nat" where
  "raise v x = v(ac x := ht x)"

definition raise_ok :: "('a \<Rightarrow> nat) \<Rightarrow> 'h \<Rightarrow> bool" where
  "raise_ok v x \<longleftrightarrow>
     x \<in> B \<and> v (ac x) < ht x \<and>
     (\<forall>y z. y \<in> B \<longrightarrow> ac y = ac x \<longrightarrow> v (ac x) < ht y \<longrightarrow> ht y \<le> ht x \<longrightarrow> src y = Some z \<longrightarrow>
        ht z \<le> raise v x (ac z))"

fun plan :: "('a \<Rightarrow> nat) \<Rightarrow> 'h list \<Rightarrow> ('a \<Rightarrow> nat) \<Rightarrow> bool" where
  "plan v [] v' \<longleftrightarrow> v' = v"
| "plan v (x # xs) v' \<longleftrightarrow> raise_ok v x \<and> plan (raise v x) xs v'"

lemma plan_append: "plan v xs v' \<Longrightarrow> plan v' ys v'' \<Longrightarrow> plan v (xs @ ys) v''"
  by (induction xs arbitrary: v) auto

lemma plan_mono: "plan v xs v' \<Longrightarrow> v c \<le> v' c"
proof (induction xs arbitrary: v)
  case (Cons x xs)
  then have "v c \<le> raise v x c" by (auto simp: raise_def raise_ok_def)
  with Cons show ?case by (auto intro: order_trans)
qed simp

lemma pop_plan:
  assumes w: "walk_ok h s" and r: "ws s = r # rest"
    and plain: "\<And>y. y \<in> B \<Longrightarrow> ac y = ac (source r) \<Longrightarrow> wv s (ac y) < ht y \<Longrightarrow> ht y \<le> ht (source r) \<Longrightarrow> src y = None"
  shows "plan (wv s) ((if wv s (ac (source r)) < ht (source r) then [source r] else []) @ [r]) (wv (pop r s))"
proof -
  let ?x = "source r"
  let ?v = "if wv s (ac ?x) < ht ?x then raise (wv s) ?x else wv s"
  have r': "r \<in> set (ws s)" using r by simp
  note f = source_facts [OF w r'] and d = walk_okD(4) [OF w r']
  have xr: "ht ?x < ht r" if "ac ?x = ac r" using graph_height [OF f(2,5) that f(3)] .
  have eq: "raise ?v r = wv (pop r s)" by (auto simp: raise_def fun_eq_iff pop_heights max_def)
  have "plan (wv s) (if wv s (ac ?x) < ht ?x then [?x] else []) ?v"
    using plain f(2) by (auto simp: raise_ok_def)
  moreover have "raise_ok ?v r"
    unfolding raise_ok_def eq
  proof (intro conjI allI impI)
    show "?v (ac r) < ht r" using d xr by (auto simp: raise_def)
    fix y z assume y: "y \<in> B" "ac y = ac r" "?v (ac r) < ht y" "ht y \<le> ht r" "src y = Some z"
    then have "ht y \<le> wv (pop r s) (ac y)" by (simp add: pop_heights)
    from pop_closed [OF w r plain y(1,5) this] show "ht z \<le> wv (pop r s) (ac z)" .
  qed (rule f(5))
  then have "plan ?v [r] (wv (pop r s))" using eq by simp
  ultimately show ?thesis by (rule plan_append)
qed

lemma settle_plan:
  assumes w: "walk_ok h s" and e: "ws s = []"
    and plain: "\<And>y. y \<in> B \<Longrightarrow> ac y = ac h \<Longrightarrow> wv s (ac y) < ht y \<Longrightarrow> ht y \<le> ht h \<Longrightarrow> src y = None"
  shows "plan (wv s) (if wv s (ac h) < ht h then [h] else []) (wv (settle h s))"
  using plain walk_okD(1) [OF w] by (auto simp: raise_ok_def raise_def fun_eq_iff max_def)

text \<open>The blocks that a list of writes confirms, from the lowest upwards.\<close>

fun raised :: "('a \<Rightarrow> nat) \<Rightarrow> 'h list \<Rightarrow> 'h list" where
  "raised v [] = []"
| "raised v (x # xs) = rev (segment (ac x) (v (ac x)) (ht x)) @ raised (raise v x) xs"

lemma raised_append: "plan v xs v' \<Longrightarrow> raised v (xs @ ys) = raised v xs @ raised v' ys"
  by (induction xs arbitrary: v) auto

lemma raised_set:
  "plan v xs v' \<Longrightarrow> set (raised v xs) = {y \<in> B. v (ac y) < ht y \<and> ht y \<le> v' (ac y)}"
proof (induction xs arbitrary: v)
  case (Cons x xs)
  then have x: "x \<in> B" "v (ac x) < ht x" and p: "plan (raise v x) xs v'" by (auto simp: raise_ok_def)
  have "ht x \<le> v' (ac x)" using plan_mono [OF p, of "ac x"] by (simp add: raise_def)
  note m = segment_mem [OF x(1) order_refl, of _ "v (ac x)"]
  show ?case
  proof (rule set_eqI)
    fix y
    have "y \<in> set (raised v (x # xs)) \<longleftrightarrow> (y \<in> B \<and> ac y = ac x \<and> v (ac x) < ht y \<and> ht y \<le> ht x) \<or>
        (y \<in> B \<and> raise v x (ac y) < ht y \<and> ht y \<le> v' (ac y))"
      using Cons.IH [OF p] m [of y] by simp
    with \<open>ht x \<le> v' (ac x)\<close> x(2) show "y \<in> set (raised v (x # xs)) \<longleftrightarrow>
        y \<in> {y \<in> B. v (ac y) < ht y \<and> ht y \<le> v' (ac y)}"
      by (cases "ac y = ac x") (auto simp: raise_def)
  qed
qed auto

lemma raised_distinct: "plan v xs v' \<Longrightarrow> distinct (raised v xs)"
proof (induction xs arbitrary: v)
  case (Cons x xs)
  then have x: "x \<in> B" and p: "plan (raise v x) xs v'" by (auto simp: raise_ok_def)
  have "set (segment (ac x) (v (ac x)) (ht x)) \<inter> set (raised (raise v x) xs) = {}"
    using raised_set [OF p] segment_mem [OF x order_refl, of _ "v (ac x)"] by (auto simp: raise_def)
  with Cons.IH [OF p] segment_distinct [OF x order_refl] show ?case by simp
qed simp

text \<open>In this order every block comes after its source and after the blocks below it.\<close>

definition sources_closed :: "('a \<Rightarrow> nat) \<Rightarrow> bool" where
  "sources_closed v \<longleftrightarrow> (\<forall>x y. x \<in> B \<longrightarrow> src x = Some y \<longrightarrow> ht x \<le> v (ac x) \<longrightarrow> ht y \<le> v (ac y))"

definition before :: "('a \<Rightarrow> nat) \<Rightarrow> 'h list \<Rightarrow> 'h \<Rightarrow> bool" where
  "before v ys y \<longleftrightarrow>
     (\<forall>z. src y = Some z \<or> (z \<in> B \<and> ac z = ac y \<and> ht z < ht y) \<longrightarrow> ht z \<le> v (ac z) \<or> z \<in> set ys)"

lemma segment_rev_before:
  assumes x: "x \<in> B" and j: "j \<le> ht x" and "rev (segment (ac x) i j) = ys @ y # zs" and "z \<in> B" "ac z = ac x" "ht z < ht y"
  shows "ht z \<le> i \<or> z \<in> set ys"
proof (cases "ht z \<le> i")
  case False
  let ?bs = "map (block_at (ac x)) [Suc i..<Suc j]"
  have bs: "?bs = ys @ y # zs" using assms(3) by (simp add: segment_def rev_map del: upt_Suc)
  have "sorted_wrt (\<lambda>p q. ht p < ht q) ?bs"
    unfolding sorted_wrt_map using block_at_below [OF x] j
    by (intro sorted_wrt_mono_rel [OF _ sorted_wrt_upt]) auto
  then have lt: "ht y < ht w" if "w \<in> set zs" for w using that unfolding bs by (simp add: sorted_wrt_append)
  have "y \<in> set (segment (ac x) i j)" using assms(3) by (metis in_set_conv_decomp set_rev)
  then have "ht y \<le> j" using segment_mem [OF x j] by simp
  then have "z \<in> set (segment (ac x) i j)" using segment_mem [OF x j] assms(4-6) False by simp
  then have "z \<in> set (ys @ y # zs)" using assms(3) by (metis set_rev)
  with lt [of z] assms(6) show ?thesis by auto
qed simp

lemma raised_before:
  "plan v xs v' \<Longrightarrow> sources_closed v \<Longrightarrow> raised v xs = ys @ y # zs \<Longrightarrow> before v ys y"
proof (induction xs arbitrary: v ys)
  case (Cons x xs)
  let ?g = "rev (segment (ac x) (v (ac x)) (ht x))"
  from Cons.prems(1) have ok: "raise_ok v x" and x: "x \<in> B" "v (ac x) < ht x" and p: "plan (raise v x) xs v'"
    by (auto simp: raise_ok_def)
  have mem: "w \<in> set ?g \<longleftrightarrow> w \<in> B \<and> ac w = ac x \<and> v (ac x) < ht w \<and> ht w \<le> ht x" for w
    using segment_mem [OF x(1) order_refl] by simp
  have closed: "sources_closed (raise v x)"
    unfolding sources_closed_def
  proof (intro allI impI)
    fix u w assume u: "u \<in> B" "src u = Some w" "ht u \<le> raise v x (ac u)"
    show "ht w \<le> raise v x (ac w)"
    proof (cases "ht u \<le> v (ac u)")
      case True
      with u Cons.prems(2) have "ht w \<le> v (ac w)" by (simp add: sources_closed_def)
      with x(2) show ?thesis by (auto simp: raise_def)
    next
      case False
      with u have "ac u = ac x" "v (ac x) < ht u" "ht u \<le> ht x" by (auto simp: raise_def split: if_splits)
      with ok u show ?thesis by (simp add: raise_ok_def)
    qed
  qed
  have split: "ht z \<le> v (ac z) \<or> z \<in> set ?g" if "ht z \<le> raise v x (ac z)" "z \<in> B" for z
    using that mem [of z] by (auto simp: raise_def split: if_splits)
  from Cons.prems(3) have "?g @ raised (raise v x) xs = ys @ y # zs" by simp
  then consider us where "?g = ys @ y # us" | us where "ys = ?g @ us" "raised (raise v x) xs = us @ y # zs"
    by (auto simp: append_eq_append_conv2 append_eq_Cons_conv)
  then show ?case
  proof cases
    case 1
    have y: "y \<in> B" "ac y = ac x" "v (ac x) < ht y" "ht y \<le> ht x" using mem [of y] 1 by (metis in_set_conv_decomp)+
    have low: "ht z \<le> v (ac z) \<or> z \<in> set ys" if "z \<in> B" "ac z = ac x" "ht z < ht y" for z
      using segment_rev_before [OF x(1) order_refl 1 that] that(2) by simp
    have "ht z \<le> v (ac z) \<or> z \<in> set ys" if z: "src y = Some z" for z
    proof -
      note g = graph_source [OF y(1) z]
      from ok y z have r: "ht z \<le> raise v x (ac z)" by (simp add: raise_ok_def)
      show ?thesis
      proof (cases "ac z = ac x")
        case True
        with low [of z] graph_height [of z y] g y show ?thesis by simp
      next
        case False
        with r show ?thesis by (simp add: raise_def)
      qed
    qed
    with low y(2) show ?thesis by (auto simp: before_def)
  next
    case 2
    from Cons.IH [OF p closed 2(2)] have b: "before (raise v x) us y" .
    have y: "y \<in> B" using raised_set [OF p] 2(2) by (metis (no_types, lifting) in_set_conv_decomp mem_Collect_eq)
    show ?thesis
      unfolding before_def
    proof (intro allI impI)
      fix z assume z: "src y = Some z \<or> (z \<in> B \<and> ac z = ac y \<and> ht z < ht y)"
      then have "z \<in> B" using graph_source [OF y] by auto
      from b z have "ht z \<le> raise v x (ac z) \<or> z \<in> set us" unfolding before_def by blast
      with split [of z] \<open>z \<in> B\<close> 2(1) show "ht z \<le> v (ac z) \<or> z \<in> set ys" by auto
    qed
  qed
qed simp

section \<open>What is confirmed\<close>

definition confined :: "('a \<Rightarrow> nat) \<Rightarrow> 'h set \<Rightarrow> ('a \<Rightarrow> nat) \<Rightarrow> bool" where
  "confined v H v' \<longleftrightarrow> (\<forall>y \<in> B. ht y \<le> v' (ac y) \<longrightarrow> ht y \<le> v (ac y) \<or> (\<exists>h \<in> H. needs h y))"

lemma confined_raise:
  assumes "confined v H v'" and "needs h x" and "h \<in> H"
  shows "confined v H (raise v' x)"
  using assms needs_le [OF assms(2)] by (auto simp: confined_def raise_def split: if_splits)

lemma confined_pop:
  assumes w: "walk_ok h s" and r: "ws s = r # rest" and c: "confined v H (wv s)" and h: "h \<in> H"
  shows "confined v H (wv (pop r s))"
proof -
  let ?x = "source r"
  have r': "r \<in> set (ws s)" using r by simp
  have n: "needs h r" "needs h ?x" using walk_okD(4) [OF w r'] source_facts(1) [OF w r'] needs_source by blast+
  have "wv (pop r s) = raise (if wv s (ac ?x) < ht ?x then raise (wv s) ?x else wv s) r"
    by (auto simp: raise_def fun_eq_iff pop_heights max_def)
  with confined_raise [OF confined_raise [OF c n(2) h] n(1) h] confined_raise [OF c n(1) h] show ?thesis by simp
qed

lemma confined_settle:
  assumes w: "walk_ok h s" and c: "confined v H (wv s)" and h: "h \<in> H"
  shows "confined v H (wv (settle h s))"
proof -
  have "wv (settle h s) = (if wv s (ac h) < ht h then raise (wv s) h else wv s)"
    by (auto simp: raise_def fun_eq_iff max_def)
  with confined_raise [OF c needs_self [OF walk_okD(1) [OF w]] h] c show ?thesis by simp
qed

text \<open>A walk from \<open>h\<close> raises heights, and only for what \<open>h\<close> needs.\<close>

definition reaches :: "'h \<Rightarrow> ('a \<Rightarrow> nat) \<Rightarrow> ('a \<Rightarrow> nat) \<Rightarrow> bool" where
  "reaches h v v' \<longleftrightarrow> (\<forall>u H. h \<in> H \<longrightarrow> confined u H v \<longrightarrow> confined u H v') \<and> (\<forall>a. v a \<le> v' a)"

lemma reaches_refl [simp]: "reaches h v v"
  by (simp add: reaches_def)

lemma reaches_trans: "reaches h u v \<Longrightarrow> reaches h v w \<Longrightarrow> reaches h u w"
  unfolding reaches_def by (meson order_trans)

lemma reaches_pop:
  assumes w: "walk_ok h s" and r: "ws s = r # rest"
  shows "reaches h (wv s) (wv (pop r s))"
proof -
  have "wv s (ac r) < ht r" using walk_okD(4) [OF w, of r] r by simp
  then have "wv s a \<le> wv (pop r s) a" for a by (simp add: pop_def)
  with confined_pop [OF w r] show ?thesis by (simp add: reaches_def)
qed

lemma reaches_settle: "walk_ok h s \<Longrightarrow> reaches h (wv s) (wv (settle h s))"
  using confined_settle by (simp add: reaches_def)

lemma needs_confirmed:
  assumes "sources_closed v" and "ht h \<le> v (ac h)"
  shows "needs h y \<Longrightarrow> ht y \<le> v (ac y)"
proof (induction rule: needs.induct)
  case (needs_source x z)
  with needs_stored [OF needs_source(1)] assms(1) show ?case by (simp add: sources_closed_def)
qed (use assms(2) in auto)

end

end
