(* ===== verification/Ledger_Effect.thy ===== *)
theory Ledger_Effect
  imports Ledger_Process
begin

text \<open>
  What a block that is accepted changes.  The handlers of \<open>ledger_processor\<close> differ in their
  checks, but the change they make has one shape: one block is added, one account gets new
  information, at most one pending entry is added or removed, and the weights follow the
  account.  This theory states that shape (\<open>effect\<close>) and proves it for every handler.
\<close>

section \<open>Blocks without their successor\<close>

text \<open>
  The successor is the only field of a stored block that changes later.  The view of a table
  leaves it out.
\<close>

definition entry_view :: "block_entry \<Rightarrow> block_entry" where
  "entry_view e = (fst e, (snd e)\<lparr>sb_successor := 0\<rparr>)"

definition bview :: "block_table \<Rightarrow> block_table" where
  "bview m = (\<lambda>h. map_option entry_view (m h))"

lemma bview_apply: "bview m h = map_option entry_view (m h)"
  by (simp add: bview_def)

lemma bview_None [simp]: "bview m h = None \<longleftrightarrow> m h = None"
  by (simp add: bview_def)

lemma entry_view_simps [simp]:
  "fst (entry_view e) = fst e" "account_calculated (entry_view e) = account_calculated e"
  "balance_calculated (entry_view e) = balance_calculated e"
  "sb_height (snd (entry_view e)) = sb_height (snd e)"
  "sb_account (snd (entry_view e)) = sb_account (snd e)"
  "sb_details (snd (entry_view e)) = sb_details (snd e)"
  "sb_source_epoch (snd (entry_view e)) = sb_source_epoch (snd e)"
  "entry_view (b, sb\<lparr>sb_successor := s\<rparr>) = entry_view (b, sb)"
  "entry_view (entry_view e) = entry_view e"
  by (simp_all add: entry_view_def account_calculated_def balance_calculated_def Let_def
      split: block.splits)

lemma entry_view_eq:
  assumes "entry_view e = entry_view f"
  shows "fst e = fst f" "account_calculated e = account_calculated f"
    "balance_calculated e = balance_calculated f" "sb_height (snd e) = sb_height (snd f)"
    "sb_details (snd e) = sb_details (snd f)" "sb_source_epoch (snd e) = sb_source_epoch (snd f)"
  using assms by (metis entry_view_simps)+

lemma bview_upd: "bview (m(h \<mapsto> e)) = (bview m)(h \<mapsto> entry_view e)"
  by (auto simp: bview_def)

lemma bview_fill_value:
  "block_fill_value c m b = Some m' \<Longrightarrow> bview m' = bview m"
  by (auto simp: block_fill_value_def Let_def bview_upd split: option.splits)
    (auto simp: bview_def entry_view_def)

lemma bview_predecessor_set: "block_predecessor_set c m b = Some m' \<Longrightarrow> bview m' = bview m"
  by (cases b) (auto simp: bview_fill_value split: if_splits)

lemma bview_put:
  "block_put c m h b sb = Some m' \<Longrightarrow>
     bview m' = (bview m)(h \<mapsto> entry_view (b, sideband_stored (block_type_of b) sb))"
  unfolding block_put_def by (drule bview_predecessor_set) (simp add: bview_upd)

text \<open>A block is stored unless it names a previous block that does not exist.\<close>

lemma block_put_defined:
  assumes "block_previous b = 0 \<and> (\<exists>s. b = State s) \<or> (\<exists>s. b = Open s) \<or> m (block_previous b) \<noteq> None"
  shows "\<exists>m'. block_put c m h b sb = Some m'"
  using assms
  by (cases b) (auto simp: block_put_def block_fill_value_def Let_def split: option.splits)

section \<open>Simplification rules of the store operations\<close>

lemmas store_put_defs [table_simps] =
  store_account_put_def store_pending_put_def store_frontier_put_def
  store_confirmation_height_put_def store_pruned_put_def
  cache_representation_add_def cache_representation_add_dual_def
  cache_block_count_add_def cache_account_count_add_def

lemmas store_get_defs [table_simps] =
  store_account_get_def store_pending_get_def store_frontier_get_def block_get_def
  block_exists_def store_pruned_exists_def

lemma store_del_Some:
  "store_account_del l a = Some l' \<longleftrightarrow>
     accounts_of l a \<noteq> None \<and>
     l' = l\<lparr>l_store := (l_store l)\<lparr>st_accounts := (accounts_of l)(a := None)\<rparr>\<rparr>"
  "store_pending_del l key = Some l' \<longleftrightarrow>
     pending_of l key \<noteq> None \<and>
     l' = l\<lparr>l_store := (l_store l)\<lparr>st_pending := (pending_of l)(key := None)\<rparr>\<rparr>"
  "store_frontier_del l h = Some l' \<longleftrightarrow>
     frontiers_of l h \<noteq> None \<and>
     l' = l\<lparr>l_store := (l_store l)\<lparr>st_frontiers := (frontiers_of l)(h := None)\<rparr>\<rparr>"
  "store_block_put c l h b sb = Some l' \<longleftrightarrow>
     (\<exists>bs. block_put c (blocks_of l) h b sb = Some bs \<and>
           l' = l\<lparr>l_store := (l_store l)\<lparr>st_blocks := bs\<rparr>\<rparr>)"
  by (auto simp: store_account_del_def store_pending_del_def store_frontier_del_def
      store_block_put_def bind_eq_Some)

text \<open>The two ways in which an account is updated.\<close>

lemma update_account_put:
  assumes "ai_head new \<noteq> 0"
  shows "update_account l a old new = Some l' \<longleftrightarrow>
    (ai_head old = 0 \<or> ai_epoch old = ai_epoch new \<or> accounts_of l a \<noteq> None) \<and>
    l' = (cache_account_count_add l
            (if ai_head old = 0 \<and> ai_open_block new = ai_head new then 1 else 0))
         \<lparr>l_store := (l_store l)\<lparr>st_accounts := (accounts_of l)(a \<mapsto> new)\<rparr>\<rparr>"
  using assms
  by (auto simp: update_account_def Let_def bind_eq_Some store_del_Some table_simps)

lemma update_account_put_defined:
  assumes "ai_head new \<noteq> 0" and "ai_head old = 0 \<or> accounts_of l a \<noteq> None"
  shows "\<exists>l'. update_account l a old new = Some l'"
  using assms
  by (auto simp: update_account_def Let_def store_account_del_def table_simps)

section \<open>The shape of a change\<close>

datatype pending_change =
  Pending_none | Pending_add pending_key pending_info | Pending_del pending_key

fun apply_pending ::
  "pending_change \<Rightarrow> (pending_key \<rightharpoonup> pending_info) \<Rightarrow> (pending_key \<rightharpoonup> pending_info)" where
  "apply_pending Pending_none m = m"
| "apply_pending (Pending_add key info) m = m(key \<mapsto> info)"
| "apply_pending (Pending_del key) m = m(key := None)"

text \<open>The information of an account, with the default of an account that does not exist.\<close>

definition info_of :: "ledger \<Rightarrow> account \<Rightarrow> account_info" where
  "info_of l a = get_or account_info_default (accounts_of l a)"

text \<open>Everything a handler changes except the weights and the frontiers.\<close>

definition commit ::
  "crypto \<Rightarrow> ledger \<Rightarrow> ledger \<Rightarrow> block \<Rightarrow> block_sideband \<Rightarrow> account \<Rightarrow> account_info \<Rightarrow> pending_change \<Rightarrow>
     bool" where
  "commit c l l' b sb a new pc \<longleftrightarrow>
     \<not> block_or_pruned_exists l (generate_hash c b) \<and> ai_head new = generate_hash c b \<and>
     block_put c (blocks_of l) (generate_hash c b) b sb = Some (blocks_of l') \<and>
     accounts_of l' = (accounts_of l)(a \<mapsto> new) \<and>
     pending_of l' = apply_pending pc (pending_of l) \<and>
     heights_of l' = heights_of l \<and> pruned_of l' = pruned_of l \<and> l_pruning l' = l_pruning l \<and>
     lc_block_count (l_cache l') = lc_block_count (l_cache l) \<and>
     lc_account_count (l_cache l') = lc_account_count (l_cache l) +
       (if ai_head (info_of l a) = 0 \<and> ai_open_block new = ai_head new then 1 else 0)"

text \<open>The sideband and the account information of a legacy block on an existing account.\<close>

definition legacy_sideband :: "account \<Rightarrow> amount \<Rightarrow> account_info \<Rightarrow> times \<Rightarrow> block_sideband" where
  "legacy_sideband a balance info now =
     \<lparr>sb_successor = 0, sb_account = a, sb_balance = balance, sb_height = ai_block_count info + 1,
      sb_timestamp = fst now, sb_details = legacy_details, sb_source_epoch = epoch_0\<rparr>"

definition legacy_info :: "account_info \<Rightarrow> block_hash \<Rightarrow> account \<Rightarrow> amount \<Rightarrow> times \<Rightarrow> account_info" where
  "legacy_info info h rep balance now =
     \<lparr>ai_head = h, ai_representative = rep, ai_open_block = ai_open_block info,
      ai_balance = balance, ai_modified = snd now, ai_block_count = ai_block_count info + 1,
      ai_epoch = epoch_0\<rparr>"

lemma legacy_info_simps [simp]:
  "ai_head (legacy_info info h rep balance now) = h"
  "ai_representative (legacy_info info h rep balance now) = rep"
  "ai_open_block (legacy_info info h rep balance now) = ai_open_block info"
  "ai_balance (legacy_info info h rep balance now) = balance"
  "ai_block_count (legacy_info info h rep balance now) = ai_block_count info + 1"
  "ai_epoch (legacy_info info h rep balance now) = epoch_0"
  by (simp_all add: legacy_info_def)

section \<open>The legacy handlers\<close>

text \<open>An accepting run takes no branch that returns another code.\<close>

lemma progress_if:
  assumes "p_code p' = pr_progress" and "p_code q \<noteq> pr_progress"
  shows "(if b then Some q else r) = Some p' \<longleftrightarrow> \<not> b \<and> r = Some p'"
  using assms by auto

lemma progress_case:
  assumes "p_code p' = pr_progress" and "p_code q \<noteq> pr_progress"
  shows "(case m of None \<Rightarrow> Some q | Some y \<Rightarrow> f y) = Some p' \<longleftrightarrow> (\<exists>y. m = Some y \<and> f y = Some p')"
  using assms by (auto split: option.splits)

lemmas progress_rules = progress_if progress_case bind_eq_Some store_del_Some

lemma frontier_get_nonzero:
  "get_or 0 (frontiers_of l h) \<noteq> 0 \<longleftrightarrow> (\<exists>a. frontiers_of l h = Some a \<and> a \<noteq> 0)"
  by (cases "frontiers_of l h") auto

lemma process_send_progress:
  assumes "process_send c k now b p = Some p'" and "p_code p' = pr_progress"
    and "generate_hash c (Send b) \<noteq> 0"
  defines "l \<equiv> p_ledger p" and "l' \<equiv> p_ledger p'" and "h \<equiv> send_h b"
  obtains acct info previous where
    "frontiers_of l (send_previous h) = Some acct" "acct \<noteq> 0" "info = info_of l acct"
    "blocks_of l (send_previous h) = Some previous" "send_valid_predecessor (fst previous)"
    "send_balance h \<le> ai_balance info"
    "commit c l l' (Send b) (legacy_sideband acct (send_balance h) info now) acct
       (legacy_info info (generate_hash c (Send b)) (ai_representative info) (send_balance h) now)
       (Pending_add (send_destination h, generate_hash c (Send b))
         \<lparr>pi_source = acct, pi_amount = ai_balance info - send_balance h, pi_epoch = epoch_0\<rparr>)"
    "weights_of l' =
       representation_add (weights_of l) (ai_representative info) (0 - (ai_balance info - send_balance h))"
    "frontiers_of l' =
       (frontiers_of l)(send_previous h := None, generate_hash c (Send b) \<mapsto> acct)"
proof -
  from assms(1) show thesis
    unfolding process_send_def Let_def l_def [symmetric] h_def [symmetric]
      legacy_sideband_def [symmetric] legacy_info_def [symmetric]
    by (clarsimp simp: progress_rules assms(2,3) table_simps frontier_get_nonzero update_account_put)
      (rule that, assumption, assumption, rule refl, assumption,
        simp_all add: commit_def l'_def info_of_def table_simps)
qed

lemma process_change_progress:
  assumes "process_change c k now b p = Some p'" and "p_code p' = pr_progress"
    and "generate_hash c (Change b) \<noteq> 0"
  defines "l \<equiv> p_ledger p" and "l' \<equiv> p_ledger p'" and "h \<equiv> change_h b"
  obtains acct info previous balance where
    "frontiers_of l (change_previous h) = Some acct" "acct \<noteq> 0" "info = info_of l acct"
    "blocks_of l (change_previous h) = Some previous" "change_valid_predecessor (fst previous)"
    "ledger_balance l' (change_previous h) = Some balance"
    "commit c l l' (Change b) (legacy_sideband acct (ai_balance info) info now) acct
       (legacy_info info (generate_hash c (Change b)) (change_representative h) (ai_balance info) now)
       Pending_none"
    "weights_of l' =
       representation_add_dual (weights_of l) (change_representative h) balance
         (ai_representative info) (0 - balance)"
    "frontiers_of l' =
       (frontiers_of l)(change_previous h := None, generate_hash c (Change b) \<mapsto> acct)"
proof -
  from assms(1) show thesis
    unfolding process_change_def Let_def l_def [symmetric] h_def [symmetric]
      legacy_sideband_def [symmetric] legacy_info_def [symmetric]
    by (clarsimp simp: progress_rules assms(2,3) table_simps frontier_get_nonzero update_account_put
        ledger_balance_def)
      (rule that, assumption, assumption, rule refl, assumption,
        simp_all add: commit_def l'_def info_of_def table_simps ledger_balance_def split: if_splits)
qed

lemma process_receive_progress:
  assumes "process_receive c k now b p = Some p'" and "p_code p' = pr_progress"
    and "generate_hash c (Receive b) \<noteq> 0"
  defines "l \<equiv> p_ledger p" and "l' \<equiv> p_ledger p'" and "h \<equiv> receive_h b"
  obtains acct info previous pending where
    "frontiers_of l (receive_previous h) = Some acct" "acct \<noteq> 0" "info = info_of l acct"
    "blocks_of l (receive_previous h) = Some previous"
    "pending_of l (acct, receive_source h) = Some pending"
    "receive_valid_predecessor (fst previous)" "block_or_pruned_exists l (receive_source h)"
    "ai_head info = receive_previous h" "pi_epoch pending = epoch_0"
    "commit c l l' (Receive b)
       (legacy_sideband acct (ai_balance info + pi_amount pending) info now) acct
       (legacy_info info (generate_hash c (Receive b)) (ai_representative info)
          (ai_balance info + pi_amount pending) now)
       (Pending_del (acct, receive_source h))"
    "weights_of l' =
       representation_add (weights_of l) (ai_representative info) (pi_amount pending)"
    "frontiers_of l' =
       (frontiers_of l)(receive_previous h := None, generate_hash c (Receive b) \<mapsto> acct)"
proof -
  from assms(1) show thesis
    unfolding process_receive_def Let_def l_def [symmetric] h_def [symmetric]
      legacy_sideband_def [symmetric] legacy_info_def [symmetric]
    by (clarsimp simp: progress_rules assms(2,3) table_simps frontier_get_nonzero update_account_put)
      (rule that, assumption, assumption, rule refl, assumption, assumption,
        simp_all add: commit_def l'_def info_of_def table_simps)
qed

lemma process_open_progress:
  assumes "process_open c k now b p = Some p'" and "p_code p' = pr_progress"
    and "generate_hash c (Open b) \<noteq> 0"
  defines "l \<equiv> p_ledger p" and "l' \<equiv> p_ledger p'" and "h \<equiv> open_h b"
  obtains pending where
    "pending_of l (open_account h, open_source h) = Some pending"
    "accounts_of l (open_account h) = None" "open_account h \<noteq> k_burn_account k"
    "block_or_pruned_exists l (open_source h)" "pi_epoch pending = epoch_0"
    "commit c l l' (Open b)
       \<lparr>sb_successor = 0, sb_account = open_account h, sb_balance = pi_amount pending,
        sb_height = 1, sb_timestamp = fst now, sb_details = legacy_details,
        sb_source_epoch = epoch_0\<rparr> (open_account h)
       \<lparr>ai_head = generate_hash c (Open b), ai_representative = open_representative h,
        ai_open_block = generate_hash c (Open b), ai_balance = pi_amount pending,
        ai_modified = snd now, ai_block_count = 1, ai_epoch = epoch_0\<rparr>
       (Pending_del (open_account h, open_source h))"
    "weights_of l' =
       representation_add (weights_of l) (open_representative h) (pi_amount pending)"
    "frontiers_of l' = (frontiers_of l)(generate_hash c (Open b) \<mapsto> open_account h)"
proof -
  from assms(1) show thesis
    unfolding process_open_def Let_def l_def [symmetric] h_def [symmetric]
    by (clarsimp simp: progress_rules assms(2,3) table_simps update_account_put)
      (rule that, assumption,
        simp_all add: commit_def l'_def info_of_def table_simps)
qed

section \<open>The state block handlers\<close>

definition state_sideband ::
  "state_block \<Rightarrow> account_info \<Rightarrow> epoch \<Rightarrow> bool \<Rightarrow> bool \<Rightarrow> bool \<Rightarrow> epoch \<Rightarrow> times \<Rightarrow> block_sideband" where
  "state_sideband b info e is_send is_receive is_epoch source_epoch now =
     \<lparr>sb_successor = 0, sb_account = state_account (state_h b), sb_balance = 0,
      sb_height = ai_block_count info + 1, sb_timestamp = fst now,
      sb_details = \<lparr>bd_epoch = e, bd_is_send = is_send, bd_is_receive = is_receive,
                    bd_is_epoch = is_epoch\<rparr>,
      sb_source_epoch = source_epoch\<rparr>"

definition state_info ::
  "state_block \<Rightarrow> account_info \<Rightarrow> block_hash \<Rightarrow> amount \<Rightarrow> epoch \<Rightarrow> times \<Rightarrow> account_info" where
  "state_info b info h balance e now =
     \<lparr>ai_head = h, ai_representative = state_representative (state_h b),
      ai_open_block = (if ai_open_block info = 0 then h else ai_open_block info),
      ai_balance = balance, ai_modified = snd now, ai_block_count = ai_block_count info + 1,
      ai_epoch = e\<rparr>"

lemma state_info_simps [simp]:
  "ai_head (state_info b info h balance e now) = h"
  "ai_representative (state_info b info h balance e now) = state_representative (state_h b)"
  "ai_open_block (state_info b info h balance e now) =
     (if ai_open_block info = 0 then h else ai_open_block info)"
  "ai_balance (state_info b info h balance e now) = balance"
  "ai_block_count (state_info b info h balance e now) = ai_block_count info + 1"
  "ai_epoch (state_info b info h balance e now) = e"
  by (simp_all add: state_info_def)

text \<open>A state block removes the frontier entry of a legacy head.\<close>

definition frontier_removed :: "(block_hash \<rightharpoonup> account) \<Rightarrow> block_hash \<Rightarrow> (block_hash \<rightharpoonup> account)" where
  "frontier_removed f h = (if get_or 0 (f h) \<noteq> 0 then f(h := None) else f)"

definition state_pending :: "state_block \<Rightarrow> block_hash \<Rightarrow> bool \<Rightarrow> amount \<Rightarrow> epoch \<Rightarrow> pending_change" where
  "state_pending b hash is_send amount e =
     (if is_send then
        Pending_add (state_link (state_h b), hash)
          \<lparr>pi_source = state_account (state_h b), pi_amount = amount, pi_epoch = e\<rparr>
      else if state_link (state_h b) \<noteq> 0
      then Pending_del (state_account (state_h b), state_link (state_h b)) else Pending_none)"

text \<open>The three optional steps of a state block.\<close>

definition weight_step :: "ledger \<Rightarrow> account_info \<Rightarrow> state_hashables \<Rightarrow> ledger" where
  "weight_step l info h =
     (if ai_head info \<noteq> 0
      then cache_representation_add_dual l (ai_representative info)
             (0 - ai_balance info) (state_representative h) (state_balance h)
      else cache_representation_add l (state_representative h) (state_balance h))"

definition pending_step :: "ledger \<Rightarrow> state_block \<Rightarrow> block_hash \<Rightarrow> bool \<Rightarrow> amount \<Rightarrow> epoch \<Rightarrow> ledger option" where
  "pending_step l b hash is_send amount e =
     (if is_send then
        Some (store_pending_put l (state_link (state_h b), hash)
          \<lparr>pi_source = state_account (state_h b), pi_amount = amount, pi_epoch = e\<rparr>)
      else if state_link (state_h b) \<noteq> 0
      then store_pending_del l (state_account (state_h b), state_link (state_h b))
      else Some l)"

definition frontier_step :: "ledger \<Rightarrow> block_hash \<Rightarrow> ledger option" where
  "frontier_step l h =
     (if store_frontier_get l h \<noteq> 0 then store_frontier_del l h else Some l)"

definition moved_weights :: "rep_weights \<Rightarrow> account_info \<Rightarrow> state_hashables \<Rightarrow> rep_weights" where
  "moved_weights w info h =
     (if ai_head info \<noteq> 0
      then representation_add_dual w (ai_representative info) (0 - ai_balance info)
             (state_representative h) (state_balance h)
      else representation_add w (state_representative h) (state_balance h))"

lemma weight_step_eq:
  "weight_step l info h = l\<lparr>l_cache := (l_cache l)\<lparr>lc_rep_weights := moved_weights (weights_of l) info h\<rparr>\<rparr>"
  by (simp add: weight_step_def moved_weights_def table_simps)

lemma pending_step_Some:
  "pending_step l b hash is_send amount e = Some l' \<Longrightarrow>
     l' = l\<lparr>l_store := (l_store l)
            \<lparr>st_pending := apply_pending (state_pending b hash is_send amount e) (pending_of l)\<rparr>\<rparr>"
  by (auto simp: pending_step_def state_pending_def store_del_Some table_simps split: if_splits)

lemma frontier_step_Some:
  "frontier_step l h = Some l' \<Longrightarrow>
     l' = l\<lparr>l_store := (l_store l)\<lparr>st_frontiers := frontier_removed (frontiers_of l) h\<rparr>\<rparr>"
  by (auto simp: frontier_step_def frontier_removed_def store_del_Some table_simps
      split: if_splits)

lemma state_block_commit_steps:
  "state_block_commit c k now b p info e se is_send is_receive amount =
     (if \<not> work_sufficient c k (State b)
           \<lparr>bd_epoch = e, bd_is_send = is_send, bd_is_receive = is_receive, bd_is_epoch = False\<rparr>
      then Some (p\<lparr>p_code := pr_insufficient_work\<rparr>)
      else do {
        l1 \<leftarrow> store_block_put c (p_ledger p) (generate_hash c (State b)) (State b)
                (state_sideband b info e is_send is_receive False se now);
        l2 \<leftarrow> pending_step (weight_step l1 info (state_h b)) b (generate_hash c (State b)) is_send
                amount e;
        l3 \<leftarrow> update_account l2 (state_account (state_h b)) info
                (state_info b info (generate_hash c (State b)) (state_balance (state_h b)) e now);
        l4 \<leftarrow> frontier_step l3 (ai_head info);
        Some (p\<lparr>p_ledger := l4, p_code := pr_progress,
                p_sideband := Some (state_sideband b info e is_send is_receive False se now)\<rparr>) })"
  by (simp only: state_block_commit_def Let_def weight_step_def pending_step_def frontier_step_def
      state_sideband_def state_info_def)

lemma state_block_commit_progress:
  assumes "state_block_commit c k now b p info e se is_send is_receive amount = Some p'"
    and "p_code p' = pr_progress" and "generate_hash c (State b) \<noteq> 0"
    and "\<not> block_or_pruned_exists (p_ledger p) (generate_hash c (State b))"
    and "info = info_of (p_ledger p) (state_account (state_h b))"
  defines "l \<equiv> p_ledger p" and "l' \<equiv> p_ledger p'"
  shows "commit c l l' (State b) (state_sideband b info e is_send is_receive False se now)
      (state_account (state_h b))
      (state_info b info (generate_hash c (State b)) (state_balance (state_h b)) e now)
      (state_pending b (generate_hash c (State b)) is_send amount e)"
    and "weights_of l' = moved_weights (weights_of l) info (state_h b)"
    and "frontiers_of l' = frontier_removed (frontiers_of l) (ai_head info)"
proof -
  let ?hash = "generate_hash c (State b)"
  let ?new = "state_info b info ?hash (state_balance (state_h b)) e now"
  from assms(1) obtain bs l2 l3 l4 where
    bs: "block_put c (blocks_of l) ?hash (State b)
      (state_sideband b info e is_send is_receive False se now) = Some bs"
    and l2: "pending_step (weight_step (l\<lparr>l_store := (l_store l)\<lparr>st_blocks := bs\<rparr>\<rparr>) info (state_h b)) b
      ?hash is_send amount e = Some l2"
    and l3: "update_account l2 (state_account (state_h b)) info ?new = Some l3"
    and l4: "frontier_step l3 (ai_head info) = Some l4" "l' = l4"
    by (auto simp: state_block_commit_steps progress_if [OF assms(2)] bind_eq_Some store_del_Some
        l_def l'_def)
  have "ai_head ?new \<noteq> 0" using assms(3) by simp
  with l3 have l3': "l3 = (cache_account_count_add l2
      (if ai_head info = 0 \<and> ai_open_block ?new = ai_head ?new then 1 else 0))
      \<lparr>l_store := (l_store l2)\<lparr>st_accounts := (accounts_of l2)(state_account (state_h b) \<mapsto> ?new)\<rparr>\<rparr>"
    using update_account_put [OF \<open>ai_head ?new \<noteq> 0\<close>] by blast
  note eqs = l4(2) frontier_step_Some [OF l4(1)] l3' pending_step_Some [OF l2] weight_step_eq
  show "commit c l l' (State b) (state_sideband b info e is_send is_receive False se now)
      (state_account (state_h b)) ?new (state_pending b ?hash is_send amount e)"
    using assms(4) bs unfolding eqs commit_def by (simp add: l_def table_simps assms(5) [symmetric])
  show "weights_of l' = moved_weights (weights_of l) info (state_h b)"
    unfolding eqs by (simp add: table_simps)
  show "frontiers_of l' = frontier_removed (frontiers_of l) (ai_head info)"
    unfolding eqs by (simp add: table_simps)
qed

text \<open>
  What the checks of \<open>state_block_impl\<close> establish before the block is committed.  The first
  predicate is about the source of a block that does not send; \<open>e\<close> is the epoch of the account
  before the block.
\<close>

definition source_checked ::
  "ledger \<Rightarrow> state_block \<Rightarrow> epoch \<Rightarrow> bool \<Rightarrow> amount \<Rightarrow> epoch \<Rightarrow> epoch \<Rightarrow> bool" where
  "source_checked l b e is_send amount e' se \<longleftrightarrow>
     (let h = state_h b in
      if is_send then e' = e \<and> se = epoch_0
      else if state_link h \<noteq> 0 then
        block_or_pruned_exists l (state_link h) \<and>
        (\<exists>pending. pending_of l (state_account h, state_link h) = Some pending \<and>
           amount = pi_amount pending \<and> se = pi_epoch pending \<and> e' = max e (pi_epoch pending))
      else amount = 0 \<and> e' = e \<and> se = epoch_0)"

definition state_amount :: "account_info \<Rightarrow> state_block \<Rightarrow> bool \<Rightarrow> amount" where
  "state_amount info b is_send =
     (if is_send then ai_balance info - state_balance (state_h b)
      else state_balance (state_h b) - ai_balance info)"

definition state_checked ::
  "ledger \<Rightarrow> state_block \<Rightarrow> account_info \<Rightarrow> epoch \<Rightarrow> epoch \<Rightarrow> bool \<Rightarrow> bool \<Rightarrow> amount \<Rightarrow> bool" where
  "state_checked l b info e se is_send is_receive amount \<longleftrightarrow>
     (let h = state_h b; a = state_account h in
      info = info_of l a \<and> a \<noteq> 0 \<and>
      (accounts_of l a = Some info \<and> state_previous h \<noteq> 0 \<and> state_previous h = ai_head info \<and>
         blocks_of l (state_previous h) \<noteq> None \<and>
         is_send = (state_balance h < ai_balance info) \<and>
         is_receive = (\<not> is_send \<and> state_link h \<noteq> 0) \<or>
       accounts_of l a = None \<and> state_previous h = 0 \<and> state_link h \<noteq> 0 \<and> \<not> is_send \<and> is_receive) \<and>
      amount = state_amount info b is_send \<and>
      source_checked l b (ai_epoch info) is_send amount e se)"

lemma info_of_Some [simp]: "accounts_of l a = Some i \<Longrightarrow> info_of l a = i"
  by (simp add: info_of_def)

lemma info_of_None [simp]: "accounts_of l a = None \<Longrightarrow> info_of l a = account_info_default"
  by (simp add: info_of_def)

lemma account_info_default_simps [simp]:
  "ai_head account_info_default = 0" "ai_representative account_info_default = 0"
  "ai_open_block account_info_default = 0" "ai_balance account_info_default = 0"
  "ai_block_count account_info_default = 0" "ai_epoch account_info_default = epoch_0"
  by (simp_all add: account_info_default_def)

lemma state_block_source_progress:
  assumes "state_block_source c k now b p info e is_send is_receive amount = Some p'"
    and "p_code p' = pr_progress"
  obtains e' se where
    "state_block_commit c k now b p info e' se is_send is_receive amount = Some p'"
    "source_checked (p_ledger p) b e is_send amount e' se"
proof (cases is_send)
  case True
  with assms(1) show thesis
    by (intro that [of e epoch_0]) (simp_all add: state_block_source_def source_checked_def)
next
  case not_send: False
  show thesis
  proof (cases "state_link (state_h b) = 0")
    case True
    with not_send assms(1) show thesis
      by (intro that [of e epoch_0])
        (auto simp: state_block_source_def source_checked_def progress_if [OF assms(2)])
  next
    case False
    with not_send assms(1) obtain pending where
      "block_or_pruned_exists (p_ledger p) (state_link (state_h b))"
      "pending_of (p_ledger p) (state_account (state_h b), state_link (state_h b)) = Some pending"
      "amount = pi_amount pending"
      "state_block_commit c k now b p info (max e (pi_epoch pending)) (pi_epoch pending) is_send
         is_receive amount = Some p'"
      by (auto simp: state_block_source_def Let_def progress_if [OF assms(2)]
          progress_case [OF assms(2)] table_simps)
    with False not_send show thesis
      by (intro that [of "max e (pi_epoch pending)" "pi_epoch pending"])
        (simp_all add: source_checked_def)
  qed
qed

lemma state_block_impl_checked:
  assumes "state_block_impl c k now b p = Some p'" and "p_code p' = pr_progress"
  obtains info e se is_send is_receive amount q where
    "state_checked (p_ledger p) b info e se is_send is_receive amount"
    "\<not> block_or_pruned_exists (p_ledger p) (generate_hash c (State b))"
    "state_block_commit c k now b q info e se is_send is_receive amount = Some p'"
    "p_ledger q = p_ledger p"
proof (cases "accounts_of (p_ledger p) (state_account (state_h b))")
  case None
  define q where "q = p\<lparr>p_verified := sv_valid, p_previous_balance := Some 0\<rparr>"
  have q0: "p_ledger q = p_ledger p" by (simp add: q_def)
  from None assms(1) have q:
    "\<not> block_or_pruned_exists (p_ledger p) (generate_hash c (State b))"
    "state_account (state_h b) \<noteq> 0" "state_previous (state_h b) = 0" "state_link (state_h b) \<noteq> 0"
    "state_block_source c k now b q account_info_default epoch_0 False True
       (state_balance (state_h b)) = Some p'"
    by (simp_all add: state_block_impl_def Let_def progress_if [OF assms(2)] table_simps q_def)
  from state_block_source_progress [OF q(5) assms(2)] obtain e se where
    e: "state_block_commit c k now b q account_info_default e se False True
      (state_balance (state_h b)) = Some p'"
    "source_checked (p_ledger q) b epoch_0 False (state_balance (state_h b)) e se" .
  have "state_checked (p_ledger p) b account_info_default e se False True (state_balance (state_h b))"
    using q e(2) q0 None by (simp add: state_checked_def state_amount_def)
  from that [OF this q(1) e(1) q0] show thesis .
next
  case (Some info)
  define q where "q = p\<lparr>p_verified := sv_valid, p_previous_balance := Some (ai_balance info)\<rparr>"
  define s where "s \<longleftrightarrow> state_balance (state_h b) < ai_balance info"
  define r where "r \<longleftrightarrow> \<not> s \<and> state_link (state_h b) \<noteq> 0"
  have q0: "p_ledger q = p_ledger p" by (simp add: q_def)
  from Some assms(1) have q:
    "\<not> block_or_pruned_exists (p_ledger p) (generate_hash c (State b))"
    "state_account (state_h b) \<noteq> 0" "state_previous (state_h b) \<noteq> 0"
    "blocks_of (p_ledger p) (state_previous (state_h b)) \<noteq> None"
    "state_previous (state_h b) = ai_head info"
    "state_block_source c k now b q info (ai_epoch info) s r (state_amount info b s) = Some p'"
    by (auto simp: state_block_impl_def Let_def progress_if [OF assms(2)] table_simps q_def
        s_def r_def state_amount_def)
  from state_block_source_progress [OF q(6) assms(2)] obtain e se where
    e: "state_block_commit c k now b q info e se s r (state_amount info b s) = Some p'"
    "source_checked (p_ledger q) b (ai_epoch info) s (state_amount info b s) e se" .
  have "state_checked (p_ledger p) b info e se s r (state_amount info b s)"
    using q e(2) q0 Some by (simp add: state_checked_def s_def r_def)
  from that [OF this q(1) e(1) q0] show thesis .
qed

section \<open>The epoch block handler\<close>

definition epoch_checked :: "ledger_constants \<Rightarrow> ledger \<Rightarrow> state_block \<Rightarrow> account_info \<Rightarrow> epoch \<Rightarrow> bool" where
  "epoch_checked k l b info e \<longleftrightarrow>
     (let h = state_h b; a = state_account h in
      info = info_of l a \<and> a \<noteq> 0 \<and> epochs_epoch (k_epochs k) (state_link h) = Some e \<and>
      state_balance h = ai_balance info \<and> state_representative h = ai_representative info \<and>
      (accounts_of l a = Some info \<and> state_previous h \<noteq> 0 \<and> state_previous h = ai_head info \<and>
         is_sequential (ai_epoch info) e \<or>
       accounts_of l a = None \<and> store_pending_any l a \<and> 0 < e))"

lemma epoch_block_commit_steps:
  "epoch_block_commit c k now b p account_error info =
     do {
       e \<leftarrow> epochs_epoch (k_epochs k) (state_link (state_h b));
       if \<not> (if account_error then 0 < e else is_sequential (ai_epoch info) e)
       then Some (p\<lparr>p_code := pr_block_position\<rparr>)
       else if state_balance (state_h b) \<noteq> ai_balance info then Some (p\<lparr>p_code := pr_balance_mismatch\<rparr>)
       else if \<not> work_sufficient c k (State b)
         \<lparr>bd_epoch = e, bd_is_send = False, bd_is_receive = False, bd_is_epoch = True\<rparr>
       then Some (p\<lparr>p_code := pr_insufficient_work\<rparr>)
       else do {
         l1 \<leftarrow> store_block_put c (p_ledger p) (generate_hash c (State b)) (State b)
                 (state_sideband b info e False False True epoch_0 now);
         l3 \<leftarrow> update_account l1 (state_account (state_h b)) info
                 (state_info b info (generate_hash c (State b)) (ai_balance info) e now);
         l4 \<leftarrow> frontier_step l3 (ai_head info);
         Some (p\<lparr>p_ledger := l4, p_code := pr_progress,
                 p_sideband := Some (state_sideband b info e False False True epoch_0 now)\<rparr>) } }"
  by (simp only: epoch_block_commit_def Let_def frontier_step_def state_sideband_def state_info_def)

lemma epoch_block_commit_progress:
  assumes "epoch_block_commit c k now b p account_error info = Some p'"
    and "p_code p' = pr_progress" and "generate_hash c (State b) \<noteq> 0"
    and "\<not> block_or_pruned_exists (p_ledger p) (generate_hash c (State b))"
    and "info = info_of (p_ledger p) (state_account (state_h b))"
  defines "l \<equiv> p_ledger p" and "l' \<equiv> p_ledger p'"
  obtains e where
    "epochs_epoch (k_epochs k) (state_link (state_h b)) = Some e"
    "if account_error then 0 < e else is_sequential (ai_epoch info) e"
    "state_balance (state_h b) = ai_balance info"
    "commit c l l' (State b) (state_sideband b info e False False True epoch_0 now)
      (state_account (state_h b))
      (state_info b info (generate_hash c (State b)) (state_balance (state_h b)) e now) Pending_none"
    "weights_of l' = weights_of l"
    "frontiers_of l' = frontier_removed (frontiers_of l) (ai_head info)"
proof -
  let ?hash = "generate_hash c (State b)"
  from assms(1) obtain e bs l3 l4 where
    e: "epochs_epoch (k_epochs k) (state_link (state_h b)) = Some e"
    "if account_error then 0 < e else is_sequential (ai_epoch info) e"
    "state_balance (state_h b) = ai_balance info"
    and bs: "block_put c (blocks_of l) ?hash (State b)
      (state_sideband b info e False False True epoch_0 now) = Some bs"
    and l3: "update_account (l\<lparr>l_store := (l_store l)\<lparr>st_blocks := bs\<rparr>\<rparr>) (state_account (state_h b))
      info (state_info b info ?hash (ai_balance info) e now) = Some l3"
    and l4: "frontier_step l3 (ai_head info) = Some l4" "l' = l4"
    unfolding epoch_block_commit_steps
    by (auto simp: progress_if [OF assms(2)] bind_eq_Some store_del_Some l_def l'_def
        split: if_splits)
  let ?new = "state_info b info ?hash (ai_balance info) e now"
  have hd: "ai_head ?new \<noteq> 0" using assms(3) by simp
  note eqs = l4(2) frontier_step_Some [OF l4(1)] conjunct2 [OF iffD1 [OF update_account_put [OF hd] l3]]
  have "commit c l l' (State b) (state_sideband b info e False False True epoch_0 now)
      (state_account (state_h b)) ?new Pending_none"
    using assms(4) bs unfolding eqs commit_def by (simp add: l_def table_simps assms(5) [symmetric])
  moreover have "weights_of l' = weights_of l"
    and "frontiers_of l' = frontier_removed (frontiers_of l) (ai_head info)"
    unfolding eqs by (simp_all add: table_simps)
  ultimately show thesis using e by (intro that) simp_all
qed

lemma epoch_block_impl_checked:
  assumes "epoch_block_impl c k now b p = Some p'" and "p_code p' = pr_progress"
    and "generate_hash c (State b) \<noteq> 0"
  defines "l \<equiv> p_ledger p" and "l' \<equiv> p_ledger p'"
  obtains info e where "epoch_checked k l b info e"
    "commit c l l' (State b) (state_sideband b info e False False True epoch_0 now)
      (state_account (state_h b))
      (state_info b info (generate_hash c (State b)) (state_balance (state_h b)) e now) Pending_none"
    "weights_of l' = weights_of l"
    "frontiers_of l' = frontier_removed (frontiers_of l) (ai_head info)"
proof (cases "accounts_of l (state_account (state_h b))")
  case None
  define q where "q = p\<lparr>p_verified := sv_valid_epoch, p_previous_balance := Some 0\<rparr>"
  have q0: "p_ledger q = l" by (simp add: q_def l_def)
  from None assms(1) have q:
    "\<not> block_or_pruned_exists (p_ledger q) (generate_hash c (State b))"
    "state_account (state_h b) \<noteq> 0" "state_representative (state_h b) = 0"
    "store_pending_any l (state_account (state_h b))"
    "epoch_block_commit c k now b q True account_info_default = Some p'"
    by (auto simp: epoch_block_impl_def Let_def progress_if [OF assms(2)] table_simps q_def l_def
        bind_eq_Some)
  have "account_info_default = info_of (p_ledger q) (state_account (state_h b))"
    using None by (simp add: q0)
  from epoch_block_commit_progress [OF q(5) assms(2,3) q(1) this] obtain e where
    "epochs_epoch (k_epochs k) (state_link (state_h b)) = Some e" "0 < e"
    "state_balance (state_h b) = ai_balance account_info_default"
    "commit c l l' (State b) (state_sideband b account_info_default e False False True epoch_0 now)
      (state_account (state_h b))
      (state_info b account_info_default (generate_hash c (State b)) (state_balance (state_h b)) e now)
      Pending_none"
    "weights_of l' = weights_of l"
    "frontiers_of l' = frontier_removed (frontiers_of l) (ai_head account_info_default)"
    unfolding q0 l'_def by auto
  with q None show thesis
    by (intro that [of account_info_default e]) (simp_all add: epoch_checked_def)
next
  case (Some info)
  define q where "q = p\<lparr>p_verified := sv_valid_epoch, p_previous_balance := Some (ai_balance info)\<rparr>"
  have q0: "p_ledger q = l" by (simp add: q_def l_def)
  from Some assms(1) have q:
    "\<not> block_or_pruned_exists (p_ledger q) (generate_hash c (State b))"
    "state_account (state_h b) \<noteq> 0" "state_representative (state_h b) = ai_representative info"
    "state_previous (state_h b) \<noteq> 0" "state_previous (state_h b) = ai_head info"
    "epoch_block_commit c k now b q False info = Some p'"
    by (auto simp: epoch_block_impl_def Let_def progress_if [OF assms(2)] table_simps q_def l_def
        bind_eq_Some)
  have "info = info_of (p_ledger q) (state_account (state_h b))"
    using Some by (simp add: q0)
  from epoch_block_commit_progress [OF q(6) assms(2,3) q(1) this] obtain e where
    "epochs_epoch (k_epochs k) (state_link (state_h b)) = Some e" "is_sequential (ai_epoch info) e"
    "state_balance (state_h b) = ai_balance info"
    "commit c l l' (State b) (state_sideband b info e False False True epoch_0 now)
      (state_account (state_h b))
      (state_info b info (generate_hash c (State b)) (state_balance (state_h b)) e now) Pending_none"
    "weights_of l' = weights_of l"
    "frontiers_of l' = frontier_removed (frontiers_of l) (ai_head info)"
    unfolding q0 l'_def by auto
  with q Some show thesis
    by (intro that [of info e]) (simp_all add: epoch_checked_def)
qed

section \<open>State blocks of both kinds\<close>

lemma validate_epoch_block_ledger:
  "validate_epoch_block c k b p = Some (r, q) \<Longrightarrow> p_ledger q = p_ledger p"
  by (auto simp: validate_epoch_block_def Let_def bind_eq_Some split: if_splits)

lemma process_state_cases:
  assumes "process_state c k now b p = Some p'" and "p_code p' = pr_progress"
  obtains (state) q where "p_ledger q = p_ledger p" "state_block_impl c k now b q = Some p'"
  | (epoch) q where "p_ledger q = p_ledger p" "epoch_block_impl c k now b q = Some p'"
      "is_epoch_link k (state_link (state_h b))"
proof (cases "is_epoch_link k (state_link (state_h b))")
  case True
  with assms(1) obtain r q where q: "validate_epoch_block c k b (p\<lparr>p_code := pr_progress\<rparr>) = Some (r, q)"
    and run: "(if p_code q = pr_progress
      then if r then epoch_block_impl c k now b q else state_block_impl c k now b q
      else Some q) = Some p'"
    by (auto simp: process_state_def Let_def bind_eq_Some)
  from validate_epoch_block_ledger [OF q] have l: "p_ledger q = p_ledger p" by simp
  from run assms(2) have "p_code q = pr_progress" by (auto split: if_splits)
  with run l True show thesis by (cases r) (auto intro: state epoch)
next
  case False
  with assms(1) show thesis
    by (intro state [of "p\<lparr>p_code := pr_progress\<rparr>"]) (auto simp: process_state_def Let_def)
qed

section \<open>Rejected blocks\<close>

text \<open>A handler that ends with another code than progress has not touched the ledger.\<close>

lemma legacy_rejected:
  "process_send c k now bs p = Some q \<Longrightarrow> p_code q \<noteq> pr_progress \<Longrightarrow> p_ledger q = p_ledger p"
  "process_receive c k now br p = Some q \<Longrightarrow> p_code q \<noteq> pr_progress \<Longrightarrow> p_ledger q = p_ledger p"
  "process_open c k now bo p = Some q \<Longrightarrow> p_code q \<noteq> pr_progress \<Longrightarrow> p_ledger q = p_ledger p"
  "process_change c k now bc p = Some q \<Longrightarrow> p_code q \<noteq> pr_progress \<Longrightarrow> p_ledger q = p_ledger p"
  by (auto simp: process_send_def process_receive_def process_open_def process_change_def Let_def
      bind_eq_Some split: if_splits option.splits)

lemma state_commit_rejected:
  "state_block_commit c k now b p info e se s r amount = Some q \<Longrightarrow> p_code q \<noteq> pr_progress \<Longrightarrow>
     p_ledger q = p_ledger p"
  "epoch_block_commit c k now b p err info = Some q \<Longrightarrow> p_code q \<noteq> pr_progress \<Longrightarrow>
     p_ledger q = p_ledger p"
  by (auto simp: state_block_commit_steps epoch_block_commit_steps bind_eq_Some split: if_splits)

lemma state_source_rejected:
  "state_block_source c k now b p info e s r amount = Some q \<Longrightarrow> p_code q \<noteq> pr_progress \<Longrightarrow>
     p_ledger q = p_ledger p"
  by (auto simp: state_block_source_def Let_def dest: state_commit_rejected
      split: if_splits option.splits)

lemma state_impl_rejected:
  "state_block_impl c k now b p = Some q \<Longrightarrow> p_code q \<noteq> pr_progress \<Longrightarrow> p_ledger q = p_ledger p"
  "epoch_block_impl c k now b p = Some q \<Longrightarrow> p_code q \<noteq> pr_progress \<Longrightarrow> p_ledger q = p_ledger p"
  by (auto simp: state_block_impl_def epoch_block_impl_def Let_def bind_eq_Some
      dest!: state_source_rejected state_commit_rejected(2) split: if_splits option.splits)

lemma process_visit_rejected:
  assumes "process_visit c k now b p = Some q" and "p_code q \<noteq> pr_progress"
  shows "p_ledger q = p_ledger p"
proof (cases b)
  case (State s)
  with assms show ?thesis
    by (auto simp: process_state_def Let_def bind_eq_Some
        dest!: validate_epoch_block_ledger state_impl_rejected split: if_splits)
qed (use assms legacy_rejected in auto)

lemma process_rejected:
  assumes "process c k now l b v = Some p" and "p_code p \<noteq> pr_progress"
  shows "p_ledger p = l"
proof -
  from assms obtain q where q: "process_visit c k now b (ledger_processor l v) = Some q"
    and "p = q" "p_code q \<noteq> pr_progress"
    by (auto simp: process_def bind_eq_Some split: if_splits)
  with process_visit_rejected [OF q] show ?thesis by (simp add: ledger_processor_def)
qed

text \<open>A block that is stored or pruned is never accepted again.\<close>

lemma process_visit_fresh:
  assumes "process_visit c k now b p = Some q" and "p_code q = pr_progress"
  shows "\<not> block_or_pruned_exists (p_ledger p) (generate_hash c b)"
proof (cases b)
  case (State s)
  with assms(1) have run: "process_state c k now s p = Some q" by simp
  show ?thesis
  proof (cases rule: process_state_cases [OF run assms(2)])
    case (1 p1)
    from 1(2) have "\<not> block_or_pruned_exists (p_ledger p1) (generate_hash c (State s))"
      using assms(2) by (auto simp: state_block_impl_def Let_def split: if_splits)
    with 1 State show ?thesis by simp
  next
    case (2 p1)
    from 2(2) have "\<not> block_or_pruned_exists (p_ledger p1) (generate_hash c (State s))"
      using assms(2) by (auto simp: epoch_block_impl_def Let_def split: if_splits)
    with 2 State show ?thesis by simp
  qed
qed (use assms in \<open>auto simp: process_send_def process_receive_def process_open_def
    process_change_def Let_def split: if_splits\<close>)

end
