(* ===== verification/Ledger_Inv.thy ===== *)
theory Ledger_Inv
  imports Ledger_Effect
begin

text \<open>
  The invariant of the ledger and its preservation when one block is added at the head of an
  account and when the head of an account is removed again.  The two operations are one
  relation, \<open>grows\<close>, read in two directions: \<open>ledger::process\<close> follows it forwards and the
  rollback visitor backwards.  The invariant speaks about a ledger without pruning.
\<close>

declare split_paired_All [simp del] split_paired_Ex [simp del]

section \<open>Stored blocks\<close>

abbreviation prev_of :: "block_entry \<Rightarrow> block_hash" where
  "prev_of e \<equiv> block_previous (fst e)"

definition legacy :: "block \<Rightarrow> bool" where
  "legacy b \<longleftrightarrow> block_type_of b \<noteq> bt_state"

text \<open>The epoch of a stored block: what \<open>block_store::version\<close> returns.\<close>

definition entry_epoch :: "block_entry \<Rightarrow> epoch" where
  "entry_epoch e = (case fst e of State b \<Rightarrow> bd_epoch (sb_details (snd e)) | _ \<Rightarrow> epoch_0)"

text \<open>The account a stored block sends to and the block it receives from.\<close>

definition entry_sends :: "block_entry \<Rightarrow> account option" where
  "entry_sends e =
     (case fst e of
        Send b \<Rightarrow> Some (send_destination (send_h b))
      | State b \<Rightarrow> if bd_is_send (sb_details (snd e)) then Some (state_link (state_h b)) else None
      | _ \<Rightarrow> None)"

definition entry_receives :: "block_entry \<Rightarrow> block_hash option" where
  "entry_receives e =
     (case fst e of
        Receive b \<Rightarrow> Some (receive_source (receive_h b))
      | Open b \<Rightarrow> Some (open_source (open_h b))
      | State b \<Rightarrow> if bd_is_receive (sb_details (snd e)) then Some (state_link (state_h b)) else None
      | _ \<Rightarrow> None)"

text \<open>The epoch of the source that a received block remembers.\<close>

definition entry_source_epoch :: "block_entry \<Rightarrow> epoch" where
  "entry_source_epoch e = (case fst e of State b \<Rightarrow> sb_source_epoch (snd e) | _ \<Rightarrow> epoch_0)"

definition with_successor :: "block_hash \<Rightarrow> block_entry \<Rightarrow> block_entry" where
  "with_successor h e = (fst e, (snd e)\<lparr>sb_successor := h\<rparr>)"

lemma with_successor_simps [simp]:
  "fst (with_successor h e) = fst e"
  "sb_successor (snd (with_successor h e)) = h"
  "sb_height (snd (with_successor h e)) = sb_height (snd e)"
  "sb_details (snd (with_successor h e)) = sb_details (snd e)"
  "sb_source_epoch (snd (with_successor h e)) = sb_source_epoch (snd e)"
  "account_calculated (with_successor h e) = account_calculated e"
  "balance_calculated (with_successor h e) = balance_calculated e"
  "entry_epoch (with_successor h e) = entry_epoch e"
  "entry_sends (with_successor h e) = entry_sends e"
  "entry_receives (with_successor h e) = entry_receives e"
  "entry_source_epoch (with_successor h e) = entry_source_epoch e"
  "with_successor g (with_successor h e) = with_successor g e"
  by (simp_all add: with_successor_def account_calculated_def balance_calculated_def entry_epoch_def
      entry_sends_def entry_receives_def entry_source_epoch_def Let_def split: block.splits)

lemma with_successor_pair [simp]:
  "with_successor h (b, sb) = (b, sb\<lparr>sb_successor := h\<rparr>)"
  "account_calculated (b, sb\<lparr>sb_successor := h\<rparr>) = account_calculated (b, sb)"
  "balance_calculated (b, sb\<lparr>sb_successor := h\<rparr>) = balance_calculated (b, sb)"
  "entry_epoch (b, sb\<lparr>sb_successor := h\<rparr>) = entry_epoch (b, sb)"
  "entry_sends (b, sb\<lparr>sb_successor := h\<rparr>) = entry_sends (b, sb)"
  "entry_receives (b, sb\<lparr>sb_successor := h\<rparr>) = entry_receives (b, sb)"
  "entry_source_epoch (b, sb\<lparr>sb_successor := h\<rparr>) = entry_source_epoch (b, sb)"
  by (simp_all add: with_successor_def account_calculated_def balance_calculated_def entry_epoch_def
      entry_sends_def entry_receives_def entry_source_epoch_def Let_def split: block.splits)

lemma with_successor_same: "sb_successor (snd e) = h \<Longrightarrow> with_successor h e = e"
  by (auto simp: with_successor_def prod_eq_iff)

text \<open>The balance before a stored block: zero for the first block of an account.\<close>

definition prev_balance :: "block_table \<Rightarrow> block_entry \<Rightarrow> amount" where
  "prev_balance bs e = (case bs (prev_of e) of None \<Rightarrow> 0 | Some p \<Rightarrow> balance_calculated p)"

lemma prev_balance_with [simp]: "prev_balance bs (with_successor h e) = prev_balance bs e"
  by (simp add: prev_balance_def)

section \<open>Adding a block to the table\<close>

definition grow :: "block_table \<Rightarrow> block_hash \<Rightarrow> block_entry \<Rightarrow> block_table" where
  "grow bs h e = bs(h \<mapsto> e, prev_of e := map_option (with_successor h) (bs (prev_of e)))"

text \<open>What the previous block of a new block must be: the end of its chain.\<close>

definition grow_at :: "block_table \<Rightarrow> block_hash \<Rightarrow> block_entry \<Rightarrow> bool" where
  "grow_at bs h e \<longleftrightarrow>
     bs h = None \<and> h \<noteq> 0 \<and> bs 0 = None \<and> prev_of e \<noteq> h \<and> sb_successor (snd e) = 0 \<and>
     (\<forall>p. bs (prev_of e) = Some p \<longrightarrow> sb_successor (snd p) = 0)"

lemma grow_apply:
  assumes "grow_at bs h e"
  shows "grow bs h e x =
    (if x = h then Some e
     else if x = prev_of e then map_option (with_successor h) (bs x) else bs x)"
  using assms by (auto simp: grow_def grow_at_def)

lemma grow_Some:
  assumes "grow_at bs h e"
  shows "grow bs h e x = Some y \<longleftrightarrow>
    x = h \<and> y = e \<or>
    x \<noteq> h \<and> (\<exists>z. bs x = Some z \<and> y = (if x = prev_of e then with_successor h z else z))"
  using assms by (auto simp: grow_apply)

lemma grow_None: "grow_at bs h e \<Longrightarrow> grow bs h e x = None \<longleftrightarrow> x \<noteq> h \<and> bs x = None"
  by (simp add: grow_apply)

lemma finite_grow: "grow_at bs h e \<Longrightarrow> finite (dom (grow bs h e)) \<longleftrightarrow> finite (dom bs)"
proof -
  assume g: "grow_at bs h e"
  then have "dom (grow bs h e) = insert h (dom bs)"
    by (auto simp: dom_def grow_apply)
  then show ?thesis by simp
qed

lemma prev_balance_grow:
  assumes "grow_at bs h e" and "prev_of y \<noteq> h"
  shows "prev_balance (grow bs h e) y = prev_balance bs y"
  using assms by (auto simp: prev_balance_def grow_apply option.case_eq_if)

lemma prev_balance_grow_new:
  "grow_at bs h e \<Longrightarrow> prev_balance (grow bs h e) e = prev_balance bs e"
  by (rule prev_balance_grow) (auto simp: grow_at_def)

section \<open>Chains\<close>

text \<open>
  \<open>rk\<close> orders the blocks by the time they entered the ledger: a block comes after its previous
  block and after its source.
\<close>

definition follows :: "block_entry \<Rightarrow> block_entry \<Rightarrow> bool" where
  "follows p e \<longleftrightarrow>
     account_calculated p = account_calculated e \<and>
     unat (sb_height (snd e)) = Suc (unat (sb_height (snd p))) \<and>
     (legacy (fst e) \<longrightarrow> legacy (fst p))"

text \<open>
  Numbers that no block may have as its hash: the links of the epochs, and the account of the
  genesis block, which the genesis block names as its source.
\<close>

definition reserved_hash :: "ledger_constants \<Rightarrow> block_hash \<Rightarrow> bool" where
  "reserved_hash k h \<longleftrightarrow> is_epoch_link k h \<or> h = block_account (k_genesis k)"

definition link_ok ::
  "crypto \<Rightarrow> ledger_constants \<Rightarrow> (block_hash \<Rightarrow> nat) \<Rightarrow> block_table \<Rightarrow> block_hash \<Rightarrow> block_entry \<Rightarrow> bool" where
  "link_ok c k rk bs h e \<longleftrightarrow>
     h \<noteq> 0 \<and> generate_hash c (fst e) = h \<and> \<not> reserved_hash k h \<and> account_calculated e \<noteq> 0 \<and>
     entry_epoch e < 32 \<and> (legacy (fst e) \<or> block_account (fst e) \<noteq> 0) \<and>
     (if prev_of e = 0 then sb_height (snd e) = 1 \<and> block_type_of (fst e) \<in> {bt_open, bt_state}
      else \<exists>p. bs (prev_of e) = Some p \<and> follows p e \<and> sb_successor (snd p) = h \<and>
               rk (prev_of e) < rk h)"

definition links_ok ::
  "crypto \<Rightarrow> ledger_constants \<Rightarrow> (block_hash \<Rightarrow> nat) \<Rightarrow> block_table \<Rightarrow> bool" where
  "links_ok c k rk bs \<longleftrightarrow> (\<forall>h e. bs h = Some e \<longrightarrow> link_ok c k rk bs h e)"

lemma links_okD: "links_ok c k rk bs \<Longrightarrow> bs h = Some e \<Longrightarrow> link_ok c k rk bs h e"
  by (simp add: links_ok_def)

lemma links_zero: "links_ok c k rk bs \<Longrightarrow> bs 0 = None"
  by (cases "bs 0") (auto simp: links_ok_def link_ok_def)

lemma links_prev_ne:
  assumes "links_ok c k rk bs" and "bs x = Some y" and "bs h = None" and "h \<noteq> 0"
  shows "prev_of y \<noteq> h"
  using links_okD [OF assms(1,2)] assms(3,4) by (auto simp: link_ok_def split: if_splits)

lemma links_grow:
  assumes "links_ok c k rk bs" and g: "grow_at bs h e"
    and "generate_hash c (fst e) = h" "\<not> reserved_hash k h" "account_calculated e \<noteq> 0"
    and "entry_epoch e < 32" and "legacy (fst e) \<or> block_account (fst e) \<noteq> 0"
    and "if prev_of e = 0 then sb_height (snd e) = 1 \<and> block_type_of (fst e) \<in> {bt_open, bt_state}
         else \<exists>p. bs (prev_of e) = Some p \<and> follows p e \<and> rk (prev_of e) < rk h"
  shows "links_ok c k rk (grow bs h e)"
  unfolding links_ok_def
proof (intro allI impI)
  fix x y assume "grow bs h e x = Some y"
  then consider "x = h" "y = e"
    | z where "x \<noteq> h" "bs x = Some z" "y = (if x = prev_of e then with_successor h z else z)"
    unfolding grow_Some [OF g] by blast
  then show "link_ok c k rk (grow bs h e) x y"
  proof cases
    case 1
    then show ?thesis
      using assms g by (auto simp: link_ok_def grow_apply grow_at_def follows_def split: if_splits)
  next
    case 2
    note z = links_okD [OF assms(1) 2(2)]
    have n: "prev_of z \<noteq> h"
      using links_prev_ne [OF assms(1) 2(2)] g by (simp add: grow_at_def)
    have "prev_of z \<noteq> prev_of e \<or> prev_of z = 0"
      using z g by (auto simp: link_ok_def grow_at_def split: if_splits)
    with z 2 n g show ?thesis
      by (auto simp: link_ok_def grow_apply follows_def split: if_splits)
  qed
qed

lemma links_shrink:
  assumes "links_ok c k rk (grow bs h e)" and g: "grow_at bs h e"
  shows "links_ok c k rk bs"
  unfolding links_ok_def
proof (intro allI impI)
  fix x z assume z: "bs x = Some z"
  have xh: "x \<noteq> h" using z g by (auto simp: grow_at_def)
  define y where "y = (if x = prev_of e then with_successor h z else z)"
  have fy: "fst y = fst z" by (simp add: y_def)
  have y: "grow bs h e x = Some y" using z xh by (auto simp: grow_apply [OF g] y_def)
  have l: "link_ok c k rk (grow bs h e) x y" by (rule links_okD [OF assms(1) y])
  have "prev_of z \<noteq> h"
  proof
    assume p: "prev_of z = h"
    have "h \<noteq> 0" using g by (simp add: grow_at_def)
    with l p fy have "sb_successor (snd e) = x" "x \<noteq> 0"
      by (auto simp: link_ok_def grow_apply [OF g])
    with g show False by (simp add: grow_at_def)
  qed
  moreover have "prev_of z \<noteq> prev_of e \<or> prev_of z = 0"
    using l xh fy g by (auto simp: link_ok_def grow_apply [OF g] grow_at_def split: if_splits)
  ultimately show "link_ok c k rk bs x z"
    using l by (auto simp: link_ok_def grow_apply [OF g] y_def follows_def split: if_splits)
qed

lemma links_rank:
  assumes "links_ok c k rk bs" and "\<And>x. bs x \<noteq> None \<Longrightarrow> rk' x = rk x"
  shows "links_ok c k rk' bs"
  unfolding links_ok_def
proof (intro allI impI)
  fix h e assume e: "bs h = Some e"
  from links_okD [OF assms(1) e] show "link_ok c k rk' bs h e"
    using assms(2) e by (auto simp: link_ok_def split: if_splits)
qed

text \<open>The other end of the links: the last block of a chain is the head of its account.\<close>

definition precedes :: "block_table \<Rightarrow> block_hash \<Rightarrow> block_hash \<Rightarrow> bool" where
  "precedes bs h s \<longleftrightarrow> (case bs s of None \<Rightarrow> False | Some n \<Rightarrow> prev_of n = h)"

definition top_ok :: "block_table \<Rightarrow> (account \<rightharpoonup> account_info) \<Rightarrow> block_hash \<Rightarrow> block_entry \<Rightarrow> bool" where
  "top_ok bs accts h e \<longleftrightarrow>
     (case accts (account_calculated e) of
        None \<Rightarrow> False
      | Some i \<Rightarrow>
          (if sb_successor (snd e) = 0 then ai_head i = h else precedes bs h (sb_successor (snd e))) \<and>
          (prev_of e = 0 \<longrightarrow> ai_open_block i = h))"

lemma precedesE:
  assumes "precedes bs h s" obtains n where "bs s = Some n" "prev_of n = h"
  using assms by (auto simp: precedes_def split: option.splits)

lemma top_okE:
  assumes "top_ok bs accts h e"
  obtains i where "accts (account_calculated e) = Some i" "sb_successor (snd e) = 0 \<Longrightarrow> ai_head i = h"
    "sb_successor (snd e) \<noteq> 0 \<Longrightarrow> precedes bs h (sb_successor (snd e))"
    "prev_of e = 0 \<Longrightarrow> ai_open_block i = h"
  using assms by (auto simp: top_ok_def split: option.splits if_splits)

lemma precedes_grow:
  assumes "grow_at bs h e"
  shows "precedes (grow bs h e) x s \<longleftrightarrow> (if s = h then prev_of e = x else precedes bs x s)"
  using assms by (auto simp: precedes_def grow_apply split: option.splits)

definition tops_ok :: "block_table \<Rightarrow> (account \<rightharpoonup> account_info) \<Rightarrow> bool" where
  "tops_ok bs accts \<longleftrightarrow> (\<forall>h e. bs h = Some e \<longrightarrow> top_ok bs accts h e)"

lemma tops_okD: "tops_ok bs accts \<Longrightarrow> bs h = Some e \<Longrightarrow> top_ok bs accts h e"
  by (simp add: tops_ok_def)

definition head_ok ::
  "(block_hash \<Rightarrow> account) \<Rightarrow> block_table \<Rightarrow> account \<Rightarrow> account_info \<Rightarrow> bool" where
  "head_ok rp bs a i \<longleftrightarrow>
     (\<exists>e. bs (ai_head i) = Some e \<and> account_calculated e = a \<and> balance_calculated e = ai_balance i \<and>
        sb_height (snd e) = ai_block_count i \<and> entry_epoch e = ai_epoch i \<and>
        sb_successor (snd e) = 0) \<and>
     rp (ai_head i) = ai_representative i \<and> ai_open_block i \<noteq> 0"

definition heads_ok ::
  "(block_hash \<Rightarrow> account) \<Rightarrow> block_table \<Rightarrow> (account \<rightharpoonup> account_info) \<Rightarrow> bool" where
  "heads_ok rp bs accts \<longleftrightarrow> (\<forall>a i. accts a = Some i \<longrightarrow> head_ok rp bs a i)"

lemma heads_okD: "heads_ok rp bs accts \<Longrightarrow> accts a = Some i \<Longrightarrow> head_ok rp bs a i"
  by (simp add: heads_ok_def)

text \<open>Every block is the head of its account or lies below it.\<close>

lemma chain_top:
  assumes "finite (dom bs)" and "links_ok c k rk bs" and "tops_ok bs accts"
    and "bs x = Some y" and "accts (account_calculated y) = Some i"
  shows "x = ai_head i \<or>
    (\<exists>t. bs (ai_head i) = Some t \<and> rk x < rk (ai_head i) \<and> prev_of t \<noteq> 0 \<and>
       unat (sb_height (snd y)) < unat (sb_height (snd t)))"
  using assms(4,5)
proof (induction "Max (rk ` dom bs) - rk x" arbitrary: x y rule: less_induct)
  case less
  note t = tops_okD [OF assms(3) less.prems(1)]
  show ?case
  proof (cases "sb_successor (snd y) = 0")
    case True
    with t less.prems(2) show ?thesis by (simp add: top_ok_def)
  next
    case False
    with t obtain n where n: "bs (sb_successor (snd y)) = Some n" "prev_of n = x"
      by (auto elim!: top_okE precedesE)
    let ?s = "sb_successor (snd y)"
    have x0: "x \<noteq> 0" using links_okD [OF assms(2) less.prems(1)] by (simp add: link_ok_def)
    with links_okD [OF assms(2) n(1)] n(2) less.prems(1)
    have l: "account_calculated n = account_calculated y" "rk x < rk ?s"
      "unat (sb_height (snd n)) = Suc (unat (sb_height (snd y)))"
      by (auto simp: link_ok_def follows_def)
    have "rk ?s \<le> Max (rk ` dom bs)" using assms(1) n(1) by (intro Max_ge) auto
    with l(2) have "Max (rk ` dom bs) - rk ?s < Max (rk ` dom bs) - rk x" by linarith
    from less.hyps [OF this n(1)] less.prems(2) l(1)
    have "?s = ai_head i \<or> (\<exists>t. bs (ai_head i) = Some t \<and> rk ?s < rk (ai_head i) \<and> prev_of t \<noteq> 0 \<and>
       unat (sb_height (snd n)) < unat (sb_height (snd t)))" by simp
    with n l x0 show ?thesis by fastforce
  qed
qed

section \<open>Accounts\<close>

text \<open>How the information of an account changes when a block is added to its chain.\<close>

definition joins ::
  "(account \<rightharpoonup> account_info) \<Rightarrow> block_hash \<Rightarrow> block_entry \<Rightarrow> account \<Rightarrow> account_info \<Rightarrow> bool" where
  "joins accts h e a new \<longleftrightarrow>
     account_calculated e = a \<and> ai_head new = h \<and> balance_calculated e = ai_balance new \<and>
     sb_height (snd e) = ai_block_count new \<and> entry_epoch e = ai_epoch new \<and>
     (case accts a of
        None \<Rightarrow> prev_of e = 0 \<and> ai_open_block new = h
      | Some i \<Rightarrow> prev_of e \<noteq> 0 \<and> prev_of e = ai_head i \<and> ai_open_block new = ai_open_block i)"

lemma head_of_prev:
  assumes "heads_ok rp bs accts" and "bs 0 = None" and "joins accts h e a new"
    and "accts b = Some i" and "ai_head i = prev_of e"
  shows "b = a"
proof (cases "accts a")
  case None
  with assms heads_okD [OF assms(1,4)] show ?thesis by (auto simp: joins_def head_ok_def)
next
  case (Some j)
  then have "ai_head j = ai_head i" using assms(3,5) by (simp add: joins_def)
  with heads_okD [OF assms(1,4)] heads_okD [OF assms(1) Some] show ?thesis
    by (auto simp: head_ok_def)
qed

lemma tops_grow:
  assumes t: "tops_ok bs accts" and hd: "heads_ok rp bs accts" and g: "grow_at bs h e"
    and j: "joins accts h e a new"
  shows "tops_ok (grow bs h e) (accts(a \<mapsto> new))"
  unfolding tops_ok_def
proof (intro allI impI)
  fix x y assume "grow bs h e x = Some y"
  then consider (new) "x = h" "y = e"
    | (prev) z where "x \<noteq> h" "x = prev_of e" "bs x = Some z" "y = with_successor h z"
    | (old) z where "x \<noteq> h" "x \<noteq> prev_of e" "bs x = Some z" "y = z"
    unfolding grow_Some [OF g] by force
  then show "top_ok (grow bs h e) (accts(a \<mapsto> new)) x y"
  proof cases
    case new
    with j g show ?thesis by (auto simp: top_ok_def joins_def grow_at_def split: option.splits)
  next
    case prev
    with g obtain i where i: "accts a = Some i" "ai_head i = x" "ai_open_block new = ai_open_block i"
      using j by (auto simp: joins_def grow_at_def split: option.splits)
    with prev heads_okD [OF hd i(1)] have a: "account_calculated z = a" by (auto simp: head_ok_def)
    have "prev_of z = 0 \<longrightarrow> ai_open_block i = x"
      using tops_okD [OF t prev(3)] i a by (auto simp: top_ok_def)
    with prev i a g show ?thesis by (auto simp: top_ok_def precedes_grow grow_at_def)
  next
    case old
    note z = tops_okD [OF t old(3)]
    have "account_calculated z = a \<Longrightarrow> sb_successor (snd z) \<noteq> 0"
      using z old j by (auto simp: top_ok_def joins_def split: option.splits)
    moreover have "account_calculated z = a \<Longrightarrow> prev_of z = 0 \<Longrightarrow> ai_open_block new = x"
      using z j by (auto simp: top_ok_def joins_def split: option.splits)
    moreover have "precedes bs x (sb_successor (snd z)) \<Longrightarrow> sb_successor (snd z) \<noteq> h"
      using g by (auto simp: precedes_def grow_at_def)
    ultimately show ?thesis
      using z old by (auto simp: top_ok_def precedes_grow [OF g] split: option.splits if_splits)
  qed
qed

lemma heads_grow:
  assumes hd: "heads_ok rp bs accts" and g: "grow_at bs h e" and j: "joins accts h e a new"
    and "rp' h = ai_representative new" and rp': "\<And>x. x \<noteq> h \<Longrightarrow> rp' x = rp x"
  shows "heads_ok rp' (grow bs h e) (accts(a \<mapsto> new))"
  unfolding heads_ok_def
proof (intro allI impI)
  fix b i assume i: "(accts(a \<mapsto> new)) b = Some i"
  show "head_ok rp' (grow bs h e) b i"
  proof (cases "b = a")
    case True
    have "ai_open_block new \<noteq> 0"
      using j g heads_okD [OF hd] by (auto simp: joins_def grow_at_def head_ok_def split: option.splits)
    with True i j g assms(4) show ?thesis
      by (auto simp: head_ok_def joins_def grow_apply grow_at_def)
  next
    case False
    with i have i': "accts b = Some i" by simp
    have "ai_head i \<noteq> prev_of e"
      using head_of_prev [OF hd _ j i'] False g by (auto simp: grow_at_def)
    moreover have "ai_head i \<noteq> h"
      using heads_okD [OF hd i'] g by (auto simp: head_ok_def grow_at_def)
    ultimately show ?thesis
      using heads_okD [OF hd i'] g rp' by (simp add: head_ok_def grow_apply)
  qed
qed

lemma tops_shrink:
  assumes t: "tops_ok (grow bs h e) (accts(a \<mapsto> new))" and l: "links_ok c k rk (grow bs h e)"
    and fin: "finite (dom bs)" and g: "grow_at bs h e" and j: "joins accts h e a new"
  shows "tops_ok bs accts"
  unfolding tops_ok_def
proof (intro allI impI)
  fix x z assume z: "bs x = Some z"
  have xh: "x \<noteq> h" using z g by (auto simp: grow_at_def)
  have a: "account_calculated e = a" "ai_head new = h" using j by (simp_all add: joins_def)
  define y where "y = (if x = prev_of e then with_successor h z else z)"
  have y: "grow bs h e x = Some y" using z xh by (auto simp: grow_apply [OF g] y_def)
  have e: "grow bs h e h = Some e" by (simp add: grow_apply [OF g])
  note ty = tops_okD [OF t y]
  show "top_ok bs accts x z"
  proof (cases "x = prev_of e")
    case True
    then have "prev_of e \<noteq> 0" using z g by (auto simp: grow_at_def)
    with j obtain i where i: "accts a = Some i" "ai_head i = x" "ai_open_block new = ai_open_block i"
      using True by (auto simp: joins_def split: option.splits)
    have "account_calculated z = a"
      using links_okD [OF l e] True z \<open>prev_of e \<noteq> 0\<close> a xh
      by (auto simp: link_ok_def grow_apply [OF g] follows_def)
    with ty i g z True show ?thesis by (auto simp: top_ok_def y_def grow_at_def)
  next
    case False
    then have yz: "y = z" by (simp add: y_def)
    have s: "sb_successor (snd z) = 0 \<Longrightarrow> account_calculated z \<noteq> a"
      using ty yz a xh by (auto simp: top_ok_def)
    have "account_calculated z = a \<Longrightarrow> accts a \<noteq> None"
    proof
      assume za: "account_calculated z = a" and "accts a = None"
      then have "prev_of e = 0" using j by (simp add: joins_def)
      moreover have "(accts(a \<mapsto> new)) (account_calculated y) = Some new" using za yz by simp
      ultimately show False
        using chain_top [OF _ l t y, of new] fin xh e a by (auto simp: finite_grow [OF g])
    qed
    moreover have "account_calculated z = a \<Longrightarrow> accts a = Some i \<Longrightarrow> ai_open_block new = ai_open_block i"
      for i using j by (auto simp: joins_def)
    moreover have "sb_successor (snd z) \<noteq> 0 \<Longrightarrow> precedes bs x (sb_successor (snd z))"
      using ty yz False by (auto simp: top_ok_def precedes_grow [OF g] split: option.splits if_splits)
    ultimately show ?thesis
      using ty yz s
      by (cases "account_calculated z = a") (auto simp: top_ok_def split: option.splits if_splits)
  qed
qed

lemma heads_shrink:
  assumes hd: "heads_ok rp (grow bs h e) (accts(a \<mapsto> new))" and l: "links_ok c k rk (grow bs h e)"
    and g: "grow_at bs h e" and j: "joins accts h e a new"
    and "\<And>i. accts a = Some i \<Longrightarrow> head_ok rp bs a i"
  shows "heads_ok rp bs accts"
  unfolding heads_ok_def
proof (intro allI impI)
  fix b i assume i: "accts b = Some i"
  have a: "account_calculated e = a" using j by (simp add: joins_def)
  have e: "grow bs h e h = Some e" by (simp add: grow_apply [OF g])
  show "head_ok rp bs b i"
  proof (cases "b = a")
    case True
    with i assms(5) show ?thesis by simp
  next
    case False
    then have "(accts(a \<mapsto> new)) b = Some i" using i by simp
    note hb = heads_okD [OF hd this]
    have "ai_head i \<noteq> h" using hb False a e by (auto simp: head_ok_def)
    moreover have "ai_head i \<noteq> prev_of e"
    proof
      assume p: "ai_head i = prev_of e"
      with hb g \<open>ai_head i \<noteq> h\<close> have "sb_successor (snd e) = 0" "prev_of e \<noteq> 0"
        by (auto simp: head_ok_def grow_apply grow_at_def)
      with links_okD [OF l e] hb p False a show False
        by (auto simp: link_ok_def follows_def head_ok_def)
    qed
    ultimately show ?thesis using hb by (simp add: head_ok_def grow_apply [OF g])
  qed
qed

section \<open>Representatives and frontiers\<close>

text \<open>\<open>rp\<close> is the representative after each block: send and receive blocks keep it.\<close>

definition keeps_rep :: "block \<Rightarrow> bool" where
  "keeps_rep b \<longleftrightarrow> block_type_of b = bt_send \<or> block_type_of b = bt_receive"

definition rep_ok :: "(block_hash \<Rightarrow> account) \<Rightarrow> block_hash \<Rightarrow> block_entry \<Rightarrow> bool" where
  "rep_ok rp h e \<longleftrightarrow>
     rp h = (if keeps_rep (fst e) then rp (prev_of e) else block_representative (fst e))"

definition reps_ok :: "(block_hash \<Rightarrow> account) \<Rightarrow> block_table \<Rightarrow> bool" where
  "reps_ok rp bs \<longleftrightarrow> (\<forall>h e. bs h = Some e \<longrightarrow> rep_ok rp h e)"

lemma reps_grow:
  assumes "reps_ok rp bs" and l: "links_ok c k rk bs" and g: "grow_at bs h e" and "rep_ok rp' h e"
    and rp': "\<And>x. x \<noteq> h \<Longrightarrow> rp' x = rp x"
  shows "reps_ok rp' (grow bs h e)"
  unfolding reps_ok_def
proof (intro allI impI)
  fix x y assume "grow bs h e x = Some y"
  then consider "x = h" "y = e"
    | z where "x \<noteq> h" "bs x = Some z" "y = (if x = prev_of e then with_successor h z else z)"
    unfolding grow_Some [OF g] by blast
  then show "rep_ok rp' x y"
  proof cases
    case 2
    then have "prev_of z \<noteq> h" using links_prev_ne [OF l] g by (auto simp: grow_at_def)
    with 2 assms(1) rp' show ?thesis by (auto simp: reps_ok_def rep_ok_def)
  qed (use assms(4) in simp)
qed

lemma reps_shrink:
  assumes "reps_ok rp (grow bs h e)" and g: "grow_at bs h e"
  shows "reps_ok rp bs"
  unfolding reps_ok_def
proof (intro allI impI)
  fix x z assume z: "bs x = Some z"
  then have "x \<noteq> h" using g by (auto simp: grow_at_def)
  with z have "grow bs h e x = Some (if x = prev_of e then with_successor h z else z)"
    by (auto simp: grow_apply [OF g])
  with assms(1) have "rep_ok rp x (if x = prev_of e then with_successor h z else z)"
    by (simp only: reps_ok_def)
  then show "rep_ok rp x z" by (simp add: rep_ok_def split: if_splits)
qed

text \<open>The frontier table holds exactly the heads that are not state blocks.\<close>

definition legacy_at :: "block_table \<Rightarrow> block_hash \<Rightarrow> bool" where
  "legacy_at bs h \<longleftrightarrow> (case bs h of None \<Rightarrow> False | Some e \<Rightarrow> legacy (fst e))"

definition frontiers_ok ::
  "block_table \<Rightarrow> (account \<rightharpoonup> account_info) \<Rightarrow> (block_hash \<rightharpoonup> account) \<Rightarrow> bool" where
  "frontiers_ok bs accts fr \<longleftrightarrow>
     (\<forall>f a. fr f = Some a \<longleftrightarrow> (\<exists>i. accts a = Some i \<and> ai_head i = f \<and> legacy_at bs f))"

lemma legacy_at_grow:
  "grow_at bs h e \<Longrightarrow> legacy_at (grow bs h e) x = (if x = h then legacy (fst e) else legacy_at bs x)"
  by (auto simp: legacy_at_def grow_apply split: option.splits)

lemma frontiers_grow:
  assumes f: "frontiers_ok bs accts fr" and hd: "heads_ok rp bs accts" and g: "grow_at bs h e"
    and j: "joins accts h e a new"
  shows "frontiers_ok (grow bs h e) (accts(a \<mapsto> new))
    (fr(prev_of e := None, h := (if legacy (fst e) then Some a else None)))"
  unfolding frontiers_ok_def
proof (intro allI)
  fix x b
  have hnew: "ai_head new = h" using j by (simp add: joins_def)
  have other: "ai_head i \<noteq> h" "ai_head i = prev_of e \<Longrightarrow> b = a" if "accts b = Some i" for i
    using heads_okD [OF hd that] head_of_prev [OF hd _ j that] g
    by (auto simp: head_ok_def grow_at_def)
  have same: "fr x = Some a \<Longrightarrow> x = prev_of e"
    using f j by (auto simp: frontiers_ok_def joins_def split: option.splits)
  show "(fr(prev_of e := None, h := if legacy (fst e) then Some a else None)) x = Some b \<longleftrightarrow>
     (\<exists>i. (accts(a \<mapsto> new)) b = Some i \<and> ai_head i = x \<and> legacy_at (grow bs h e) x)"
  proof (cases "x = h \<or> x = prev_of e")
    case True
    then show ?thesis
      using other hnew g by (cases "b = a") (auto simp: legacy_at_grow grow_at_def)
  next
    case False
    have "fr x = Some b \<longleftrightarrow> (\<exists>i. accts b = Some i \<and> ai_head i = x \<and> legacy_at bs x)"
      using f by (simp add: frontiers_ok_def)
    with False same hnew show ?thesis by (cases "b = a") (auto simp: legacy_at_grow [OF g])
  qed
qed

lemma frontiers_shrink:
  assumes f: "frontiers_ok (grow bs h e) (accts(a \<mapsto> new)) fr"
    and hd: "heads_ok rp bs accts" and g: "grow_at bs h e" and j: "joins accts h e a new"
  shows "frontiers_ok bs accts
    (fr(h := None, prev_of e := (if legacy_at bs (prev_of e) then Some a else None)))"
  unfolding frontiers_ok_def
proof (intro allI)
  fix x b
  have hnew: "ai_head new = h" using j by (simp add: joins_def)
  have other: "ai_head i \<noteq> h" "ai_head i = prev_of e \<Longrightarrow> b = a" if "accts b = Some i" for i
    using heads_okD [OF hd that] head_of_prev [OF hd _ j that] g
    by (auto simp: head_ok_def grow_at_def)
  have old: "ai_head i = prev_of e" if "accts a = Some i" for i
    using j that by (simp add: joins_def)
  have prev: "\<exists>i. accts a = Some i" if "legacy_at bs (prev_of e)"
    using j that g by (auto simp: joins_def legacy_at_def grow_at_def split: option.splits)
  have ne: "prev_of e \<noteq> h" using g by (simp add: grow_at_def)
  have l0: "\<not> legacy_at bs h" using g by (simp add: grow_at_def legacy_at_def)
  show "(fr(h := None, prev_of e := if legacy_at bs (prev_of e) then Some a else None)) x = Some b \<longleftrightarrow>
     (\<exists>i. accts b = Some i \<and> ai_head i = x \<and> legacy_at bs x)"
  proof (cases "x = h \<or> x = prev_of e")
    case True
    show ?thesis
    proof (cases "x = h")
      case True
      with l0 ne show ?thesis by simp
    next
      case False
      with \<open>x = h \<or> x = prev_of e\<close> have x: "x = prev_of e" by simp
      show ?thesis
      proof (cases "b = a")
        case True
        with x old prev show ?thesis by auto
      next
        case False
        with x other(2) show ?thesis by auto
      qed
    qed
  next
    case False
    have "fr x = Some b \<longleftrightarrow>
        (\<exists>i. (accts(a \<mapsto> new)) b = Some i \<and> ai_head i = x \<and> legacy_at (grow bs h e) x)"
      using f by (simp add: frontiers_ok_def)
    with False old hnew show ?thesis by (cases "b = a") (auto simp: legacy_at_grow [OF g])
  qed
qed

end
