(* ===== verification/Ledger_Flow.thy ===== *)
theory Ledger_Flow
  imports Ledger_Inv
begin

text \<open>
  The flow of amounts between the accounts: every send is either pending or received by
  exactly one block, amounts agree on both sides, and a received block was confirmed before
  the block that receives it.
\<close>

section \<open>Sends and receives by hash\<close>

definition account_at :: "block_table \<Rightarrow> block_hash \<Rightarrow> account option" where
  "account_at bs h = map_option account_calculated (bs h)"

definition sends_at :: "block_table \<Rightarrow> block_hash \<Rightarrow> account option" where
  "sends_at bs h = (case bs h of None \<Rightarrow> None | Some e \<Rightarrow> entry_sends e)"

text \<open>The genesis block \<open>g\<close> names a source that is not a block.\<close>

definition receives_at :: "block_table \<Rightarrow> block_hash \<Rightarrow> block_hash \<Rightarrow> block_hash option" where
  "receives_at bs g h =
     (case bs h of None \<Rightarrow> None | Some e \<Rightarrow> if h = g \<or> entry_sends e \<noteq> None then None else entry_receives e)"

definition sent_at :: "block_table \<Rightarrow> block_hash \<Rightarrow> amount" where
  "sent_at bs h = (case bs h of None \<Rightarrow> 0 | Some e \<Rightarrow> prev_balance bs e - balance_calculated e)"

definition epoch_at :: "block_table \<Rightarrow> block_hash \<Rightarrow> epoch" where
  "epoch_at bs h = (case bs h of None \<Rightarrow> epoch_0 | Some e \<Rightarrow> entry_epoch e)"

lemma at_grow:
  assumes "grow_at bs h e"
  shows "account_at (grow bs h e) x = (if x = h then Some (account_calculated e) else account_at bs x)"
    and "sends_at (grow bs h e) x = (if x = h then entry_sends e else sends_at bs x)"
    and "receives_at (grow bs h e) g x =
      (if x = h then (if h = g \<or> entry_sends e \<noteq> None then None else entry_receives e)
       else receives_at bs g x)"
    and "epoch_at (grow bs h e) x = (if x = h then entry_epoch e else epoch_at bs x)"
  using assms
  by (auto simp: account_at_def sends_at_def receives_at_def epoch_at_def grow_apply
      option.map_comp comp_def split: option.splits)

lemma at_None:
  assumes "bs h = None"
  shows "account_at bs h = None" "sends_at bs h = None" "receives_at bs g h = None"
  using assms by (simp_all add: account_at_def sends_at_def receives_at_def)

lemma sent_at_grow:
  assumes "grow_at bs h e" and "links_ok c k rk bs"
  shows "sent_at (grow bs h e) x =
    (if x = h then prev_balance bs e - balance_calculated e else sent_at bs x)"
proof (cases "x = h")
  case True
  then show ?thesis by (simp add: sent_at_def grow_apply [OF assms(1)] prev_balance_grow_new [OF assms(1)])
next
  case False
  show ?thesis
  proof (cases "bs x")
    case None
    with False show ?thesis by (auto simp: sent_at_def grow_apply [OF assms(1)])
  next
    case (Some z)
    with assms have "prev_of z \<noteq> h" using links_prev_ne [OF assms(2) Some] by (auto simp: grow_at_def)
    with False Some show ?thesis
      by (auto simp: sent_at_def grow_apply [OF assms(1)] prev_balance_grow [OF assms(1)])
  qed
qed

section \<open>The flow of one block\<close>

text \<open>The subtype that the sideband of a state block records is the one its fields say.\<close>

definition kind_ok :: "ledger_constants \<Rightarrow> block_table \<Rightarrow> block_entry \<Rightarrow> bool" where
  "kind_ok k bs e \<longleftrightarrow>
     (case fst e of
        State b \<Rightarrow>
          (bd_is_send (sb_details (snd e)) \<longleftrightarrow> balance_calculated e < prev_balance bs e) \<and>
          (bd_is_receive (sb_details (snd e)) \<longleftrightarrow>
             \<not> bd_is_send (sb_details (snd e)) \<and> state_link (state_h b) \<noteq> 0 \<and>
             \<not> is_epoch_link k (state_link (state_h b)))
      | _ \<Rightarrow> True)"

definition pays :: "block_table \<Rightarrow> block_entry \<Rightarrow> block_hash \<Rightarrow> bool" where
  "pays bs e s \<longleftrightarrow>
     sends_at bs s = Some (account_calculated e) \<and>
     balance_calculated e - prev_balance bs e = sent_at bs s \<and> entry_source_epoch e = epoch_at bs s"

definition received :: "block_table \<Rightarrow> block_hash \<Rightarrow> account \<Rightarrow> block_hash \<Rightarrow> bool" where
  "received bs g d s \<longleftrightarrow> (\<exists>r. receives_at bs g r = Some s \<and> account_at bs r = Some d)"

definition flow_ok ::
  "ledger_constants \<Rightarrow> block_hash \<Rightarrow> (block_hash \<Rightarrow> nat) \<Rightarrow> block_table \<Rightarrow>
     (pending_key \<rightharpoonup> pending_info) \<Rightarrow> block_hash \<Rightarrow> block_entry \<Rightarrow> bool" where
  "flow_ok k g rk bs pend h e \<longleftrightarrow>
     kind_ok k bs e \<and>
     (case entry_sends e of
        Some d \<Rightarrow>
          prev_of e \<noteq> 0 \<and> balance_calculated e \<le> prev_balance bs e \<and>
          (pend (d, h) \<noteq> None \<or> received bs g d h)
      | None \<Rightarrow>
          (case entry_receives e of
             Some s \<Rightarrow> prev_balance bs e \<le> balance_calculated e \<and> rk s < rk h \<and> pays bs e s
           | None \<Rightarrow> balance_calculated e = prev_balance bs e))"

definition flows_ok ::
  "ledger_constants \<Rightarrow> block_hash \<Rightarrow> (block_hash \<Rightarrow> nat) \<Rightarrow> block_table \<Rightarrow>
     (pending_key \<rightharpoonup> pending_info) \<Rightarrow> bool" where
  "flows_ok k g rk bs pend \<longleftrightarrow> (\<forall>h e. bs h = Some e \<longrightarrow> h \<noteq> g \<longrightarrow> flow_ok k g rk bs pend h e)"

definition pending_ok ::
  "block_hash \<Rightarrow> block_table \<Rightarrow> (pending_key \<rightharpoonup> pending_info) \<Rightarrow> bool" where
  "pending_ok g bs pend \<longleftrightarrow>
     (\<forall>d s i. pend (d, s) = Some i \<longrightarrow>
        sends_at bs s = Some d \<and> account_at bs s = Some (pi_source i) \<and> pi_amount i = sent_at bs s \<and>
        pi_epoch i = epoch_at bs s \<and> (\<forall>r. receives_at bs g r \<noteq> Some s))"

definition unique_ok :: "block_hash \<Rightarrow> block_table \<Rightarrow> bool" where
  "unique_ok g bs \<longleftrightarrow>
     (\<forall>r r' s. receives_at bs g r = Some s \<longrightarrow> receives_at bs g r' = Some s \<longrightarrow> r = r')"

text \<open>How a new block changes the pending table.\<close>

definition moves ::
  "ledger_constants \<Rightarrow> block_table \<Rightarrow> (pending_key \<rightharpoonup> pending_info) \<Rightarrow> block_hash \<Rightarrow> block_entry \<Rightarrow>
     (pending_key \<rightharpoonup> pending_info) \<Rightarrow> bool" where
  "moves k bs pend h e pend' \<longleftrightarrow>
     kind_ok k bs e \<and>
     (case entry_sends e of
        Some d \<Rightarrow>
          prev_of e \<noteq> 0 \<and> balance_calculated e \<le> prev_balance bs e \<and>
          pend' = pend((d, h) \<mapsto>
            \<lparr>pi_source = account_calculated e, pi_amount = prev_balance bs e - balance_calculated e,
             pi_epoch = entry_epoch e\<rparr>)
      | None \<Rightarrow>
          (case entry_receives e of
             Some s \<Rightarrow>
               prev_balance bs e \<le> balance_calculated e \<and>
               pend (account_calculated e, s) =
                 Some \<lparr>pi_source = the (account_at bs s),
                       pi_amount = balance_calculated e - prev_balance bs e,
                       pi_epoch = entry_source_epoch e\<rparr> \<and>
               pend' = pend((account_calculated e, s) := None)
           | None \<Rightarrow> balance_calculated e = prev_balance bs e \<and> pend' = pend))"

lemma kind_ok_grow:
  assumes "grow_at bs h e" and "prev_of y \<noteq> h"
  shows "kind_ok k (grow bs h e) y = kind_ok k bs y"
    and "kind_ok k bs (with_successor x y) = kind_ok k bs y"
  by (simp_all add: kind_ok_def prev_balance_grow [OF assms] split: block.splits)

lemma pending_source_exists:
  "pending_ok g bs pend \<Longrightarrow> pend (d, s) = Some i \<Longrightarrow> bs s \<noteq> None"
  by (fastforce simp: pending_ok_def sends_at_def split: option.splits)

lemma receives_source:
  assumes "flows_ok k g rk bs pend" and "receives_at bs g r = Some s"
  shows "sends_at bs s \<noteq> None" and "rk s < rk r"
proof -
  from assms(2) obtain e where e: "bs r = Some e" "r \<noteq> g" "entry_sends e = None" "entry_receives e = Some s"
    by (auto simp: receives_at_def split: option.splits if_splits)
  with assms(1) have "flow_ok k g rk bs pend r e" by (simp add: flows_ok_def)
  with e show "sends_at bs s \<noteq> None" and "rk s < rk r" by (auto simp: flow_ok_def pays_def)
qed

lemma receives_no_source:
  assumes "flows_ok k g rk bs pend" and "bs h = None"
  shows "receives_at bs g r \<noteq> Some h"
  using receives_source(1) [OF assms(1), of r h] at_None(2) [of bs h] assms(2) by auto

lemma flow_okD: "flows_ok k g rk bs pend \<Longrightarrow> bs h = Some e \<Longrightarrow> h \<noteq> g \<Longrightarrow> flow_ok k g rk bs pend h e"
  by (simp add: flows_ok_def)

lemma pending_okD:
  assumes "pending_ok g bs pend" and "pend (d, s) = Some i"
  shows "sends_at bs s = Some d" "account_at bs s = Some (pi_source i)" "pi_amount i = sent_at bs s"
    "pi_epoch i = epoch_at bs s" "receives_at bs g r \<noteq> Some s"
  using assms by (simp_all add: pending_ok_def)

section \<open>Adding a block\<close>

lemma pays_grow:
  assumes "grow_at bs h e" and "links_ok c k rk bs" and "s \<noteq> h" and "prev_of y \<noteq> h"
  shows "pays (grow bs h e) y s = pays bs y s"
  using assms
  by (simp add: pays_def at_grow sent_at_grow [OF assms(1,2)] prev_balance_grow [OF assms(1)])

lemma flow_ok_new:
  assumes p: "pending_ok g bs pend" and l: "links_ok c k rk bs" and g: "grow_at bs h e"
    and m: "moves k bs pend h e pend'" and rk: "\<And>x. bs x \<noteq> None \<Longrightarrow> rk x < rk h"
  shows "flow_ok k g rk (grow bs h e) pend' h e"
proof -
  have n: "prev_of e \<noteq> h" using g by (simp add: grow_at_def)
  note s = kind_ok_grow(1) [OF g n] prev_balance_grow [OF g n] flow_ok_def
  show ?thesis
  proof (cases "entry_sends e")
    case (Some d)
    with m show ?thesis by (auto simp: s moves_def)
  next
    case sends: None
    show ?thesis
    proof (cases "entry_receives e")
      case None
      with m sends show ?thesis by (auto simp: s moves_def)
    next
      case (Some x)
      let ?i = "\<lparr>pi_source = the (account_at bs x),
        pi_amount = balance_calculated e - prev_balance bs e, pi_epoch = entry_source_epoch e\<rparr>"
      from m sends Some have i: "pend (account_calculated e, x) = Some ?i"
        and k: "kind_ok k bs e" "prev_balance bs e \<le> balance_calculated e"
        by (auto simp: moves_def)
      have x: "bs x \<noteq> None" by (rule pending_source_exists [OF p i])
      then have xh: "x \<noteq> h" using g by (auto simp: grow_at_def)
      have "pays bs e x" using pending_okD [OF p i] by (simp add: pays_def)
      with k rk [OF x] sends Some show ?thesis by (simp add: s pays_grow [OF g l xh n])
    qed
  qed
qed

lemma received_grow:
  assumes "grow_at bs h e" and "received bs g d s"
  shows "received (grow bs h e) g d s"
proof -
  from assms(2) obtain r where r: "receives_at bs g r = Some s" "account_at bs r = Some d"
    by (auto simp: received_def)
  with assms(1) have "r \<noteq> h" by (auto simp: grow_at_def at_None)
  with r show ?thesis by (auto simp: received_def at_grow [OF assms(1)])
qed

lemma flow_ok_old:
  assumes fl: "flows_ok k g rk bs pend" and p: "pending_ok g bs pend" and l: "links_ok c k rk bs"
    and g: "grow_at bs h e" and m: "moves k bs pend h e pend'" and "h \<noteq> g"
    and z: "bs x = Some z" and "x \<noteq> g"
  shows "flow_ok k g rk (grow bs h e) pend' x z"
proof -
  have n: "prev_of z \<noteq> h" using links_prev_ne [OF l z] g by (simp add: grow_at_def)
  have xh: "x \<noteq> h" using z g by (auto simp: grow_at_def)
  note f = flow_okD [OF fl z \<open>x \<noteq> g\<close>]
  note s = kind_ok_grow(1) [OF g n] prev_balance_grow [OF g n] flow_ok_def
  have keep: "pend' (d, x) \<noteq> None \<or> received (grow bs h e) g d x" if "pend (d, x) \<noteq> None" for d
    using m that xh \<open>h \<noteq> g\<close>
    by (auto simp: moves_def received_def at_grow [OF g] split: option.splits)
  show ?thesis
  proof (cases "entry_sends z")
    case (Some d)
    with f keep received_grow [OF g] show ?thesis by (auto simp: s)
  next
    case sends: None
    show ?thesis
    proof (cases "entry_receives z")
      case None
      with f sends show ?thesis by (simp add: s)
    next
      case (Some y)
      have "y \<noteq> h"
        using f sends Some g by (auto simp: flow_ok_def pays_def grow_at_def at_None)
      with f sends Some show ?thesis by (simp add: s pays_grow [OF g l _ n])
    qed
  qed
qed

lemma flow_ok_with: "flow_ok k g rk bs pend h (with_successor x e) = flow_ok k g rk bs pend h e"
  by (simp add: flow_ok_def kind_ok_def pays_def split: option.splits block.splits)

lemma flows_grow:
  assumes fl: "flows_ok k g rk bs pend" and p: "pending_ok g bs pend" and l: "links_ok c k rk bs"
    and g: "grow_at bs h e" and m: "moves k bs pend h e pend'" and "h \<noteq> g"
    and rk: "\<And>x. bs x \<noteq> None \<Longrightarrow> rk x < rk h"
  shows "flows_ok k g rk (grow bs h e) pend'"
  unfolding flows_ok_def
proof (intro allI impI)
  fix x y assume y: "grow bs h e x = Some y" and xg: "x \<noteq> g"
  from y consider "x = h" "y = e"
    | z where "x \<noteq> h" "bs x = Some z" "y = (if x = prev_of e then with_successor h z else z)"
    unfolding grow_Some [OF g] by blast
  then show "flow_ok k g rk (grow bs h e) pend' x y"
  proof cases
    case 1
    with flow_ok_new [OF p l g m rk] show ?thesis by simp
  next
    case 2
    with flow_ok_old [OF fl p l g m \<open>h \<noteq> g\<close> 2(2) xg] show ?thesis by (auto simp: flow_ok_with)
  qed
qed

lemma pending_grow:
  assumes fl: "flows_ok k g rk bs pend" and p: "pending_ok g bs pend" and l: "links_ok c k rk bs"
    and g: "grow_at bs h e" and m: "moves k bs pend h e pend'"
  shows "pending_ok g (grow bs h e) pend'"
  unfolding pending_ok_def
proof (intro allI impI)
  fix d s i assume i: "pend' (d, s) = Some i"
  have h0: "bs h = None" using g by (simp add: grow_at_def)
  note at = at_grow [OF g] sent_at_grow [OF g l]
  have old: "sends_at (grow bs h e) s = Some d \<and> account_at (grow bs h e) s = Some (pi_source i) \<and>
      pi_amount i = sent_at (grow bs h e) s \<and> pi_epoch i = epoch_at (grow bs h e) s \<and>
      (\<forall>r. receives_at (grow bs h e) g r \<noteq> Some s)"
    if i': "pend (d, s) = Some i" and r: "entry_sends e \<noteq> None \<or> entry_receives e \<noteq> Some s"
  proof -
    have "s \<noteq> h" using pending_source_exists [OF p i'] h0 by auto
    with pending_okD [OF p i'] r show ?thesis by (auto simp: at)
  qed
  show "sends_at (grow bs h e) s = Some d \<and> account_at (grow bs h e) s = Some (pi_source i) \<and>
      pi_amount i = sent_at (grow bs h e) s \<and> pi_epoch i = epoch_at (grow bs h e) s \<and>
      (\<forall>r. receives_at (grow bs h e) g r \<noteq> Some s)"
  proof (cases "entry_sends e")
    case (Some d0)
    show ?thesis
    proof (cases "(d, s) = (d0, h)")
      case True
      with m Some i receives_no_source [OF fl h0] show ?thesis by (auto simp: moves_def at)
    next
      case False
      with m Some i have "pend (d, s) = Some i" by (auto simp: moves_def split: if_splits)
      with Some show ?thesis by (intro old) auto
    qed
  next
    case sends: None
    show ?thesis
    proof (cases "entry_receives e")
      case None
      with m sends i show ?thesis by (intro old) (auto simp: moves_def)
    next
      case (Some s0)
      with m sends i have i': "pend (d, s) = Some i" "(d, s) \<noteq> (account_calculated e, s0)"
        and i0: "pend (account_calculated e, s0) \<noteq> None"
        by (auto simp: moves_def split: if_splits)
      have "s \<noteq> s0"
        using pending_okD(1) [OF p i'(1)] pending_okD(1) [OF p, of "account_calculated e" s0] i'(2) i0
        by auto
      with Some i' show ?thesis by (intro old) auto
    qed
  qed
qed

lemma unique_grow:
  assumes u: "unique_ok g bs" and p: "pending_ok g bs pend" and g: "grow_at bs h e"
    and m: "moves k bs pend h e pend'"
  shows "unique_ok g (grow bs h e)"
proof -
  have "receives_at bs g r \<noteq> Some s" if "entry_sends e = None" "entry_receives e = Some s" for r s
    using m that pending_okD(5) [OF p] by (auto simp: moves_def)
  then show ?thesis
    using u by (auto simp: unique_ok_def at_grow [OF g])
qed

section \<open>Removing a block\<close>

lemma no_receiver_of_head:
  assumes fl: "flows_ok k g rk (grow bs h e) pend'" and p: "pending_ok g (grow bs h e) pend'"
    and g: "grow_at bs h e" and m: "moves k bs pend h e pend'"
  shows "receives_at (grow bs h e) g r \<noteq> Some h"
proof (cases "entry_sends e")
  case (Some d)
  with m have "pend' (d, h) \<noteq> None" by (auto simp: moves_def)
  then show ?thesis using pending_okD(5) [OF p] by auto
next
  case None
  then have "sends_at (grow bs h e) h = None" by (simp add: at_grow [OF g])
  then show ?thesis using receives_source(1) [OF fl, of r h] by auto
qed

lemma flow_ok_shrink:
  assumes fl: "flows_ok k g rk (grow bs h e) pend'" and p: "pending_ok g (grow bs h e) pend'"
    and l: "links_ok c k rk bs" and g: "grow_at bs h e" and m: "moves k bs pend h e pend'"
    and z: "bs x = Some z" and xg: "x \<noteq> g"
  shows "flow_ok k g rk bs pend x z"
proof -
  have n: "prev_of z \<noteq> h" using links_prev_ne [OF l z] g by (simp add: grow_at_def)
  have xh: "x \<noteq> h" using z g by (auto simp: grow_at_def)
  have "grow bs h e x = Some (if x = prev_of e then with_successor h z else z)"
    using z xh by (auto simp: grow_apply [OF g])
  from flow_okD [OF fl this xg] have f: "flow_ok k g rk (grow bs h e) pend' x z"
    by (auto simp: flow_ok_with split: if_splits)
  note s = kind_ok_grow(1) [OF g n] prev_balance_grow [OF g n] flow_ok_def
  have keep: "pend (d, x) \<noteq> None" if "pend' (d, x) \<noteq> None" for d
    using m that xh by (auto simp: moves_def split: option.splits if_splits)
  have rec: "pend (d, x) \<noteq> None \<or> received bs g d x" if rx: "received (grow bs h e) g d x" for d
  proof -
    from rx obtain r where r: "receives_at (grow bs h e) g r = Some x"
      "account_at (grow bs h e) r = Some d" by (auto simp: received_def)
    show ?thesis
    proof (cases "r = h")
      case True
      with r m show ?thesis by (auto simp: moves_def at_grow [OF g] split: if_splits)
    next
      case False
      with r show ?thesis by (auto simp: received_def at_grow [OF g])
    qed
  qed
  show ?thesis
  proof (cases "entry_sends z")
    case (Some d)
    with f keep rec show ?thesis by (auto simp: s)
  next
    case sends: None
    show ?thesis
    proof (cases "entry_receives z")
      case None
      with f sends show ?thesis by (simp add: s)
    next
      case (Some y)
      have "receives_at (grow bs h e) g x = Some y"
        unfolding at_grow(3) [OF g] using z xh xg sends Some by (simp add: receives_at_def)
      with no_receiver_of_head [OF fl p g m] have "y \<noteq> h" by auto
      with f sends Some show ?thesis by (simp add: s pays_grow [OF g l _ n])
    qed
  qed
qed

lemma flows_shrink:
  assumes "flows_ok k g rk (grow bs h e) pend'" and "pending_ok g (grow bs h e) pend'"
    and "links_ok c k rk bs" and "grow_at bs h e" and "moves k bs pend h e pend'"
  shows "flows_ok k g rk bs pend"
  unfolding flows_ok_def using flow_ok_shrink [OF assms] by blast

lemma pending_shrink:
  assumes fl: "flows_ok k g rk (grow bs h e) pend'" and p: "pending_ok g (grow bs h e) pend'"
    and u: "unique_ok g (grow bs h e)" and l: "links_ok c k rk bs" and g: "grow_at bs h e"
    and m: "moves k bs pend h e pend'" and "h \<noteq> g" and ph: "\<And>d. pend (d, h) = None"
  shows "pending_ok g bs pend"
  unfolding pending_ok_def
proof (intro allI impI)
  fix d s i assume i: "pend (d, s) = Some i"
  have sh: "s \<noteq> h" using i ph by auto
  note at = at_grow [OF g] sent_at_grow [OF g l]
  have e: "grow bs h e h = Some e" by (simp add: grow_apply [OF g])
  have n: "prev_of e \<noteq> h" using g by (simp add: grow_at_def)
  have old: "sends_at bs s = Some d \<and> account_at bs s = Some (pi_source i) \<and> pi_amount i = sent_at bs s \<and>
      pi_epoch i = epoch_at bs s \<and> (\<forall>r. receives_at bs g r \<noteq> Some s)" if i': "pend' (d, s) = Some i"
  proof -
    have "receives_at bs g r \<noteq> Some s" for r
      using pending_okD(5) [OF p i', of r] g
      by (cases "r = h") (auto simp: at grow_at_def at_None)
    with pending_okD(1-4) [OF p i'] sh show ?thesis by (simp add: at)
  qed
  show "sends_at bs s = Some d \<and> account_at bs s = Some (pi_source i) \<and> pi_amount i = sent_at bs s \<and>
      pi_epoch i = epoch_at bs s \<and> (\<forall>r. receives_at bs g r \<noteq> Some s)"
  proof (cases "entry_sends e = None \<and> (d, Some s) = (account_calculated e, entry_receives e)")
    case True
    then have d: "d = account_calculated e" and s: "entry_sends e = None" "entry_receives e = Some s"
      by auto
    with m i have ii: "i = \<lparr>pi_source = the (account_at bs s),
        pi_amount = balance_calculated e - prev_balance bs e, pi_epoch = entry_source_epoch e\<rparr>"
      by (auto simp: moves_def)
    have "pays (grow bs h e) e s"
      using flow_okD [OF fl e \<open>h \<noteq> g\<close>] s by (simp add: flow_ok_def)
    then have py: "pays bs e s" by (simp add: pays_grow [OF g l sh n])
    then have "account_at bs s \<noteq> None" by (auto simp: pays_def sends_at_def account_at_def split: option.splits)
    moreover have "receives_at bs g r \<noteq> Some s" for r
    proof
      assume r: "receives_at bs g r = Some s"
      then have "r \<noteq> h" using g by (auto simp: grow_at_def at_None)
      moreover have "receives_at (grow bs h e) g h = Some s" using s \<open>h \<noteq> g\<close> by (simp add: at)
      moreover have "receives_at (grow bs h e) g r = Some s" using r \<open>r \<noteq> h\<close> by (simp add: at)
      ultimately show False using u by (auto simp: unique_ok_def)
    qed
    ultimately show ?thesis using py ii d by (auto simp: pays_def)
  next
    case False
    with m i sh have "pend' (d, s) = Some i"
      by (auto simp: moves_def split: option.splits if_splits)
    then show ?thesis by (rule old)
  qed
qed

lemma unique_shrink:
  assumes "unique_ok g (grow bs h e)" and g: "grow_at bs h e"
  shows "unique_ok g bs"
proof -
  have "receives_at (grow bs h e) g r = Some s" if "receives_at bs g r = Some s" for r s
    using that g by (auto simp: at_grow grow_at_def at_None)
  with assms(1) show ?thesis unfolding unique_ok_def by blast
qed

section \<open>Confirmation\<close>

definition conf_at :: "(account \<rightharpoonup> confirmation_height_info) \<Rightarrow> account \<Rightarrow> u64" where
  "conf_at ht a = (case ht a of None \<Rightarrow> 0 | Some i \<Rightarrow> ch_height i)"

definition confirmed_at ::
  "block_table \<Rightarrow> (account \<rightharpoonup> confirmation_height_info) \<Rightarrow> block_hash \<Rightarrow> bool" where
  "confirmed_at bs ht h \<longleftrightarrow>
     (case bs h of None \<Rightarrow> False
      | Some e \<Rightarrow> sb_height (snd e) \<le> conf_at ht (account_calculated e))"

definition count_at :: "(account \<rightharpoonup> account_info) \<Rightarrow> account \<Rightarrow> nat" where
  "count_at accts a = (case accts a of None \<Rightarrow> 0 | Some i \<Rightarrow> unat (ai_block_count i))"

definition conf_ok ::
  "block_hash \<Rightarrow> block_table \<Rightarrow> (account \<rightharpoonup> account_info) \<Rightarrow>
     (account \<rightharpoonup> confirmation_height_info) \<Rightarrow> bool" where
  "conf_ok g bs accts ht \<longleftrightarrow>
     (\<forall>a. unat (conf_at ht a) \<le> count_at accts a) \<and>
     (\<forall>r s. receives_at bs g r = Some s \<longrightarrow> confirmed_at bs ht r \<longrightarrow> confirmed_at bs ht s)"

lemma confirmed_grow:
  assumes "grow_at bs h e"
  shows "confirmed_at (grow bs h e) ht x =
    (if x = h then sb_height (snd e) \<le> conf_at ht (account_calculated e) else confirmed_at bs ht x)"
  using assms by (auto simp: confirmed_at_def grow_apply split: option.splits)

lemma conf_grow:
  assumes cf: "conf_ok g bs accts ht" and fl: "flows_ok k g rk bs pend" and g: "grow_at bs h e"
    and j: "joins accts h e a new" and n: "unat (sb_height (snd e)) = Suc (count_at accts a)"
  shows "conf_ok g (grow bs h e) (accts(a \<mapsto> new)) ht"
proof -
  have c: "unat (conf_at ht b) \<le> count_at accts b" for b using cf by (simp add: conf_ok_def)
  have a: "account_calculated e = a" "ai_block_count new = sb_height (snd e)"
    using j by (simp_all add: joins_def)
  have un: "\<not> sb_height (snd e) \<le> conf_at ht (account_calculated e)"
    using c [of a] n a by (simp add: word_le_nat_alt)
  have "unat (conf_at ht b) \<le> count_at (accts(a \<mapsto> new)) b" for b
    using c [of b] n a by (auto simp: count_at_def)
  moreover have "confirmed_at (grow bs h e) ht s"
    if r: "receives_at (grow bs h e) g r = Some s" and "confirmed_at (grow bs h e) ht r" for r s
  proof -
    have rh: "r \<noteq> h" using that un by (auto simp: confirmed_grow [OF g])
    with r have "receives_at bs g r = Some s" by (simp add: at_grow [OF g])
    moreover have "s \<noteq> h"
      using receives_no_source [OF fl, of h r] \<open>receives_at bs g r = Some s\<close> g by (auto simp: grow_at_def)
    ultimately show ?thesis using that cf rh by (auto simp: confirmed_grow [OF g] conf_ok_def)
  qed
  ultimately show ?thesis by (simp add: conf_ok_def)
qed

lemma conf_shrink:
  assumes cf: "conf_ok g (grow bs h e) (accts(a \<mapsto> new)) ht"
    and nr: "\<And>r. receives_at (grow bs h e) g r \<noteq> Some h" and g: "grow_at bs h e"
    and j: "joins accts h e a new" and n: "unat (sb_height (snd e)) = Suc (count_at accts a)"
    and un: "\<not> confirmed_at (grow bs h e) ht h"
  shows "conf_ok g bs accts ht"
proof -
  have c: "unat (conf_at ht b) \<le> count_at (accts(a \<mapsto> new)) b" for b using cf by (simp add: conf_ok_def)
  have a: "account_calculated e = a" using j by (simp add: joins_def)
  have "unat (conf_at ht a) < Suc (count_at accts a)"
    using un n a by (simp add: confirmed_grow [OF g] word_le_nat_alt)
  then have "unat (conf_at ht b) \<le> count_at accts b" for b
    using c [of b] by (cases "b = a") (auto simp: count_at_def)
  moreover have "confirmed_at bs ht s"
    if r: "receives_at bs g r = Some s" and "confirmed_at bs ht r" for r s
  proof -
    have rh: "r \<noteq> h" using r g by (auto simp: grow_at_def at_None)
    with r have r': "receives_at (grow bs h e) g r = Some s" by (simp add: at_grow [OF g])
    moreover have "s \<noteq> h" using r' nr by auto
    ultimately show ?thesis using that cf rh by (auto simp: confirmed_grow [OF g] conf_ok_def)
  qed
  ultimately show ?thesis by (simp add: conf_ok_def)
qed

section \<open>Supply and weights\<close>

definition total_supply :: "(account \<rightharpoonup> account_info) \<Rightarrow> (pending_key \<rightharpoonup> pending_info) \<Rightarrow> nat" where
  "total_supply accts pend =
     map_total (\<lambda>i. unat (ai_balance i)) accts + map_total (\<lambda>i. unat (pi_amount i)) pend"

definition weights_ok :: "rep_weights \<Rightarrow> (account \<rightharpoonup> account_info) \<Rightarrow> bool" where
  "weights_ok w accts \<longleftrightarrow>
     (\<forall>r. rep_get w r =
        word_of_nat (map_total (\<lambda>i. if ai_representative i = r then unat (ai_balance i) else 0) accts))"

text \<open>The weight of an account moves from its old to its new representative.\<close>

definition reweighs :: "rep_weights \<Rightarrow> rep_weights \<Rightarrow> account_info \<Rightarrow> account_info \<Rightarrow> bool" where
  "reweighs w w' old new \<longleftrightarrow>
     (\<forall>r. rep_get w' r =
        rep_get w r - (if ai_representative old = r then ai_balance old else 0) +
        (if ai_representative new = r then ai_balance new else 0))"

lemma supply_step:
  assumes fin: "finite (dom accts)" "finite (dom pend)"
    and m: "moves k bs pend h e pend'" and ph: "\<And>d. pend (d, h) = None"
    and b: "balance_calculated e = ai_balance new"
      "prev_balance bs e = ai_balance (get_or account_info_default (accts a))"
  shows "total_supply (accts(a \<mapsto> new)) pend' = total_supply accts pend"
proof -
  let ?f = "\<lambda>i. unat (ai_balance i)" and ?q = "\<lambda>i. unat (pi_amount i)"
  let ?b = "balance_calculated e" and ?pb = "prev_balance bs e"
  have old: "measure_at ?f accts a = unat ?pb" using b by (cases "accts a") auto
  have A: "map_total ?f (accts(a \<mapsto> new)) + unat ?pb = map_total ?f accts + unat ?b"
    using map_total_upd [OF fin(1), of ?f a new] old b by simp
  have "unat ?b + map_total ?q pend' = unat ?pb + map_total ?q pend"
  proof (cases "entry_sends e")
    case (Some d)
    with m have le: "?b \<le> ?pb" and p': "pend' = pend((d, h) \<mapsto> \<lparr>pi_source = account_calculated e,
        pi_amount = ?pb - ?b, pi_epoch = entry_epoch e\<rparr>)" by (auto simp: moves_def)
    have "map_total ?q pend' = map_total ?q pend + unat (?pb - ?b)"
      unfolding p' using map_total_upd [OF fin(2), of ?q "(d, h)" "\<lparr>pi_source = account_calculated e,
        pi_amount = ?pb - ?b, pi_epoch = entry_epoch e\<rparr>"] ph [of d] by simp
    with unat_sub_le [OF le] le show ?thesis by (simp add: word_le_nat_alt)
  next
    case sends: None
    show ?thesis
    proof (cases "entry_receives e")
      case None
      with m sends show ?thesis by (auto simp: moves_def)
    next
      case (Some s)
      with m sends have le: "?pb \<le> ?b" and p': "pend' = pend((account_calculated e, s) := None)"
        and i: "measure_at ?q pend (account_calculated e, s) = unat (?b - ?pb)"
        by (auto simp: moves_def)
      have "map_total ?q pend = map_total ?q pend' + unat (?b - ?pb)"
        unfolding p' using map_total_remove [OF fin(2), of ?q "(account_calculated e, s)"] i by simp
      with unat_sub_le [OF le] le show ?thesis by (simp add: word_le_nat_alt)
    qed
  qed
  with A show ?thesis by (simp add: total_supply_def)
qed

lemma weights_step:
  assumes fin: "finite (dom accts)"
    and r: "reweighs w w' (get_or account_info_default (accts a)) new"
  shows "weights_ok w' (accts(a \<mapsto> new)) \<longleftrightarrow> weights_ok w accts"
proof -
  let ?old = "get_or account_info_default (accts a)"
  let ?f = "\<lambda>r i. if ai_representative i = r then unat (ai_balance i) else 0"
  have "rep_get w' r = word_of_nat (map_total (?f r) (accts(a \<mapsto> new))) \<longleftrightarrow>
      rep_get w r = word_of_nat (map_total (?f r) accts)" for r
  proof -
    have "measure_at (?f r) accts a = ?f r ?old" by (cases "accts a") auto
    with map_total_upd [OF fin, of "?f r" a new]
    have "map_total (?f r) (accts(a \<mapsto> new)) + ?f r ?old = map_total (?f r) accts + ?f r new" by simp
    then have "(word_of_nat (map_total (?f r) (accts(a \<mapsto> new)) + ?f r ?old) :: amount) =
        word_of_nat (map_total (?f r) accts + ?f r new)" by (rule arg_cong)
    then have e: "(word_of_nat (map_total (?f r) (accts(a \<mapsto> new))) :: amount) =
        word_of_nat (map_total (?f r) accts) - (if ai_representative ?old = r then ai_balance ?old else 0) +
        (if ai_representative new = r then ai_balance new else 0)"
      by (auto simp: algebra_simps)
    show ?thesis using r unfolding reweighs_def e by simp
  qed
  then show ?thesis by (simp add: weights_ok_def)
qed

lemma weight_le_supply:
  assumes "weights_ok w accts" and "total_supply accts pend < 2 ^ 128"
  shows "unat (rep_get w r) =
    map_total (\<lambda>i. if ai_representative i = r then unat (ai_balance i) else 0) accts"
proof -
  have "map_total (\<lambda>i. if ai_representative i = r then unat (ai_balance i) else 0) accts \<le>
      map_total (\<lambda>i. unat (ai_balance i)) accts" by (rule map_total_le) simp
  with assms(2) have "map_total (\<lambda>i. if ai_representative i = r then unat (ai_balance i) else 0) accts < 2 ^ 128"
    by (simp add: total_supply_def)
  with assms(1) show ?thesis
    by (simp add: weights_ok_def unsigned_of_nat take_bit_nat_eq_self)
qed

end
