(* ===== verification/Ledger_Invariant.thy ===== *)
theory Ledger_Invariant
  imports Ledger_Flow
begin

text \<open>
  The invariant of the whole ledger, and its preservation by the addition of a block and by
  the removal of a head.
\<close>

section \<open>The invariant\<close>

definition genesis_hash :: "crypto \<Rightarrow> ledger_constants \<Rightarrow> block_hash" where
  "genesis_hash c k = generate_hash c (k_genesis k)"

definition genesis_ok ::
  "crypto \<Rightarrow> ledger_constants \<Rightarrow> block_table \<Rightarrow> (account \<rightharpoonup> confirmation_height_info) \<Rightarrow> bool" where
  "genesis_ok c k bs ht \<longleftrightarrow>
     (case bs (genesis_hash c k) of None \<Rightarrow> False | Some e \<Rightarrow> fst e = k_genesis k \<and> prev_of e = 0) \<and>
     confirmed_at bs ht (genesis_hash c k)"

definition counts_ok :: "ledger \<Rightarrow> bool" where
  "counts_ok l \<longleftrightarrow>
     lc_block_count (l_cache l) = word_of_nat (card (dom (blocks_of l))) \<and>
     lc_account_count (l_cache l) = word_of_nat (card (dom (accounts_of l)))"

definition tables_finite :: "ledger \<Rightarrow> bool" where
  "tables_finite l \<longleftrightarrow>
     finite (dom (blocks_of l)) \<and> finite (dom (accounts_of l)) \<and> finite (dom (pending_of l))"

definition unpruned :: "ledger \<Rightarrow> bool" where
  "unpruned l \<longleftrightarrow> pruned_of l = Map.empty \<and> \<not> l_pruning l"

definition ledger_inv ::
  "crypto \<Rightarrow> ledger_constants \<Rightarrow> (block_hash \<Rightarrow> nat) \<Rightarrow> (block_hash \<Rightarrow> account) \<Rightarrow> nat \<Rightarrow> ledger \<Rightarrow> bool" where
  "ledger_inv c k rk rp T l \<longleftrightarrow>
     tables_finite l \<and> unpruned l \<and>
     links_ok c k rk (blocks_of l) \<and> tops_ok (blocks_of l) (accounts_of l) \<and>
     heads_ok rp (blocks_of l) (accounts_of l) \<and> reps_ok rp (blocks_of l) \<and>
     frontiers_ok (blocks_of l) (accounts_of l) (frontiers_of l) \<and>
     flows_ok k (genesis_hash c k) rk (blocks_of l) (pending_of l) \<and>
     pending_ok (genesis_hash c k) (blocks_of l) (pending_of l) \<and>
     unique_ok (genesis_hash c k) (blocks_of l) \<and>
     conf_ok (genesis_hash c k) (blocks_of l) (accounts_of l) (heights_of l) \<and>
     genesis_ok c k (blocks_of l) (heights_of l) \<and>
     total_supply (accounts_of l) (pending_of l) = T \<and> T < 2 ^ 128 \<and>
     weights_ok (weights_of l) (accounts_of l) \<and> counts_ok l"

lemma ledger_invD:
  assumes "ledger_inv c k rk rp T l"
  shows "tables_finite l" "unpruned l" "links_ok c k rk (blocks_of l)"
    "tops_ok (blocks_of l) (accounts_of l)" "heads_ok rp (blocks_of l) (accounts_of l)"
    "reps_ok rp (blocks_of l)" "frontiers_ok (blocks_of l) (accounts_of l) (frontiers_of l)"
    "flows_ok k (genesis_hash c k) rk (blocks_of l) (pending_of l)"
    "pending_ok (genesis_hash c k) (blocks_of l) (pending_of l)"
    "unique_ok (genesis_hash c k) (blocks_of l)"
    "conf_ok (genesis_hash c k) (blocks_of l) (accounts_of l) (heights_of l)"
    "genesis_ok c k (blocks_of l) (heights_of l)"
    "total_supply (accounts_of l) (pending_of l) = T" "T < 2 ^ 128"
    "weights_ok (weights_of l) (accounts_of l)" "counts_ok l"
  using assms by (simp_all add: ledger_inv_def)

section \<open>One block more, or one block less\<close>

text \<open>Every change that one block makes, except to the frontiers.\<close>

definition grows ::
  "ledger_constants \<Rightarrow> ledger \<Rightarrow> ledger \<Rightarrow> block_hash \<Rightarrow> block_entry \<Rightarrow> account \<Rightarrow> account_info \<Rightarrow> bool" where
  "grows k l l' h e a new \<longleftrightarrow>
     grow_at (blocks_of l) h e \<and> blocks_of l' = grow (blocks_of l) h e \<and>
     joins (accounts_of l) h e a new \<and> accounts_of l' = (accounts_of l)(a \<mapsto> new) \<and>
     moves k (blocks_of l) (pending_of l) h e (pending_of l') \<and>
     reweighs (weights_of l) (weights_of l') (info_of l a) new \<and>
     heights_of l' = heights_of l \<and> pruned_of l' = pruned_of l \<and> l_pruning l' = l_pruning l \<and>
     lc_block_count (l_cache l') = lc_block_count (l_cache l) + 1 \<and>
     lc_account_count (l_cache l') =
       lc_account_count (l_cache l) + (if accounts_of l a = None then 1 else 0) \<and>
     unat (sb_height (snd e)) = Suc (count_at (accounts_of l) a)"

lemma growsD:
  assumes "grows k l l' h e a new"
  shows "grow_at (blocks_of l) h e" "blocks_of l' = grow (blocks_of l) h e"
    "joins (accounts_of l) h e a new" "accounts_of l' = (accounts_of l)(a \<mapsto> new)"
    "moves k (blocks_of l) (pending_of l) h e (pending_of l')"
    "reweighs (weights_of l) (weights_of l') (info_of l a) new"
    "heights_of l' = heights_of l" "pruned_of l' = pruned_of l" "l_pruning l' = l_pruning l"
    "unat (sb_height (snd e)) = Suc (count_at (accounts_of l) a)"
  using assms by (simp_all add: grows_def)

lemma prev_balance_info:
  assumes "heads_ok rp (blocks_of l) (accounts_of l)" and "blocks_of l 0 = None"
    and "joins (accounts_of l) h e a new"
  shows "prev_balance (blocks_of l) e = ai_balance (info_of l a)"
proof (cases "accounts_of l a")
  case None
  with assms show ?thesis by (simp add: joins_def prev_balance_def)
next
  case (Some i)
  with heads_okD [OF assms(1) Some] assms(3) show ?thesis
    by (auto simp: joins_def prev_balance_def head_ok_def)
qed

lemma finite_pending_moves:
  "moves k bs pend h e pend' \<Longrightarrow> finite (dom pend') \<longleftrightarrow> finite (dom pend)"
proof -
  assume "moves k bs pend h e pend'"
  then consider key v where "pend' = pend(key \<mapsto> v)" | key where "pend' = pend(key := None)" | "pend' = pend"
    by (auto simp: moves_def split: option.splits)
  then show ?thesis by cases (auto simp: dom_fun_upd)
qed

lemma grows_supply:
  assumes g: "grows k l l' h e a new" and hd: "heads_ok rp (blocks_of l) (accounts_of l)"
    and ph: "\<And>d. pending_of l (d, h) = None"
    and fin: "finite (dom (accounts_of l))" "finite (dom (pending_of l))"
  shows "total_supply (accounts_of l') (pending_of l') = total_supply (accounts_of l) (pending_of l)"
proof -
  note d = growsD [OF g]
  have "blocks_of l 0 = None" using d(1) by (simp add: grow_at_def)
  from prev_balance_info [OF hd this d(3)]
  have "prev_balance (blocks_of l) e = ai_balance (get_or account_info_default (accounts_of l a))"
    by (simp add: info_of_def)
  moreover have "balance_calculated e = ai_balance new" using d(3) by (simp add: joins_def)
  ultimately show ?thesis
    unfolding d(4) using supply_step [OF fin d(5) ph] by simp
qed

lemma grows_counts:
  assumes g: "grows k l l' h e a new"
    and fin: "finite (dom (accounts_of l))" "finite (dom (blocks_of l))"
  shows "counts_ok l' \<longleftrightarrow> counts_ok l"
proof -
  note d = growsD [OF g]
  have "dom (grow (blocks_of l) h e) = insert h (dom (blocks_of l))" "h \<notin> dom (blocks_of l)"
    using d(1) by (auto simp: dom_def grow_apply grow_at_def)
  then have "card (dom (blocks_of l')) = Suc (card (dom (blocks_of l)))" using fin d(2) by simp
  moreover have "card (dom (accounts_of l')) =
      card (dom (accounts_of l)) + (if accounts_of l a = None then 1 else 0)"
    using fin d(4) by (auto simp: card_insert_if domIff)
  ultimately show ?thesis using g by (simp add: counts_ok_def grows_def)
qed

lemma genesis_grow:
  assumes "grow_at bs h e" and "h \<noteq> genesis_hash c k"
  shows "genesis_ok c k (grow bs h e) ht \<longleftrightarrow> genesis_ok c k bs ht"
  using assms
  by (auto simp: genesis_ok_def confirmed_grow grow_apply split: option.splits)

section \<open>Preservation\<close>

lemma flows_rank:
  assumes "flows_ok k g rk bs pend" and "\<And>x. bs x \<noteq> None \<Longrightarrow> rk' x = rk x"
  shows "flows_ok k g rk' bs pend"
  unfolding flows_ok_def
proof (intro allI impI)
  fix h e assume e: "bs h = Some e" and "h \<noteq> g"
  from flow_okD [OF assms(1) this] have f: "flow_ok k g rk bs pend h e" .
  have "rk' h = rk h" using e assms(2) by simp
  moreover have "rk' s = rk s" if "pays bs e s" for s
    using that assms(2) [of s] by (auto simp: pays_def sends_at_def split: option.splits)
  ultimately show "flow_ok k g rk' bs pend h e"
    using f by (auto simp: flow_ok_def split: option.splits)
qed

text \<open>What a block must be to extend its account, besides the balances.\<close>

definition extends ::
  "crypto \<Rightarrow> ledger_constants \<Rightarrow> ledger \<Rightarrow> block_hash \<Rightarrow> block_entry \<Rightarrow> account \<Rightarrow> account_info \<Rightarrow> bool" where
  "extends c k l h e a new \<longleftrightarrow>
     generate_hash c (fst e) = h \<and> \<not> reserved_hash k h \<and> a \<noteq> 0 \<and> entry_epoch e < 32 \<and>
     (legacy (fst e) \<or> block_account (fst e) \<noteq> 0) \<and>
     (prev_of e = 0 \<longrightarrow> block_type_of (fst e) \<in> {bt_open, bt_state}) \<and>
     (legacy (fst e) \<longrightarrow> prev_of e \<noteq> 0 \<longrightarrow> legacy_at (blocks_of l) (prev_of e)) \<and>
     ai_representative new =
       (if keeps_rep (fst e) then ai_representative (info_of l a) else block_representative (fst e))"

lemma follows_head:
  assumes "heads_ok rp bs accts" and "bs 0 = None" and "joins accts h e a new"
    and "unat (sb_height (snd e)) = Suc (count_at accts a)"
    and "legacy (fst e) \<longrightarrow> prev_of e \<noteq> 0 \<longrightarrow> legacy_at bs (prev_of e)"
  shows "if prev_of e = 0 then sb_height (snd e) = 1
    else \<exists>p. bs (prev_of e) = Some p \<and> follows p e"
proof (cases "accts a")
  case None
  with assms(3) have "prev_of e = 0" by (simp add: joins_def)
  moreover have "sb_height (snd e) = 1"
    by (rule word_eqI_unat) (use assms(4) None in \<open>simp add: count_at_def\<close>)
  ultimately show ?thesis by simp
next
  case (Some i)
  with assms(3) have p: "prev_of e = ai_head i" "prev_of e \<noteq> 0" "account_calculated e = a"
    by (auto simp: joins_def)
  from heads_okD [OF assms(1) Some] obtain q where q: "bs (prev_of e) = Some q"
    "account_calculated q = a" "sb_height (snd q) = ai_block_count i"
    by (auto simp: head_ok_def p(1))
  with assms(4,5) p Some have "follows q e"
    by (auto simp: follows_def count_at_def legacy_at_def)
  with q(1) p(2) show ?thesis by auto
qed

lemma rep_ok_new:
  assumes "extends c k l h e a new" and "grow_at (blocks_of l) h e" and "joins (accounts_of l) h e a new"
    and "heads_ok rp (blocks_of l) (accounts_of l)" and "rp' = rp(h := ai_representative new)"
  shows "rep_ok rp' h e"
proof (cases "keeps_rep (fst e)")
  case True
  with assms(1) have "prev_of e \<noteq> 0" by (auto simp: extends_def keeps_rep_def)
  with assms(3) obtain i where i: "accounts_of l a = Some i" "prev_of e = ai_head i"
    by (auto simp: joins_def split: option.splits)
  with heads_okD [OF assms(4) i(1)] assms(1,2,5) True show ?thesis
    by (auto simp: rep_ok_def extends_def head_ok_def grow_at_def)
next
  case False
  with assms(1,5) show ?thesis by (simp add: rep_ok_def extends_def)
qed

lemma inv_grow:
  assumes inv: "ledger_inv c k rk rp T l" and gr: "grows k l l' h e a new" and ex: "extends c k l h e a new"
    and fr: "frontiers_of l' =
      (frontiers_of l)(prev_of e := None, h := (if legacy (fst e) then Some a else None))"
  shows "\<exists>rk' rp'. ledger_inv c k rk' rp' T l' \<and> (\<forall>x. blocks_of l x \<noteq> None \<longrightarrow> rk' x < rk' h)"
proof -
  note i = ledger_invD [OF inv] and d = growsD [OF gr]
  let ?bs = "blocks_of l" and ?g = "genesis_hash c k"
  define rk' where "rk' = rk(h := Suc (Max (insert 0 (rk ` dom ?bs))))"
  define rp' where "rp' = rp(h := ai_representative new)"
  have fin: "finite (dom ?bs)" "finite (dom (accounts_of l))" "finite (dom (pending_of l))"
    using i(1) by (simp_all add: tables_finite_def)
  have h: "?bs h = None" "?bs 0 = None" "h \<noteq> 0" using d(1) by (simp_all add: grow_at_def)
  have hg: "h \<noteq> ?g" using i(12) h(1) by (auto simp: genesis_ok_def)
  have rk_old: "rk' x = rk x" if "?bs x \<noteq> None" for x using that h(1) by (auto simp: rk'_def)
  have rk_new: "rk' x < rk' h" if "?bs x \<noteq> None" for x
  proof -
    have "rk x \<le> Max (insert 0 (rk ` dom ?bs))" using that fin(1) by (intro Max_ge) auto
    with rk_old [OF that] show ?thesis by (simp add: rk'_def)
  qed
  have ph: "pending_of l (x, h) = None" for x
    using pending_source_exists [OF i(9), of x h] h(1) by (cases "pending_of l (x, h)") auto
  have a: "account_calculated e = a" using d(3) by (simp add: joins_def)
  have l0: "links_ok c k rk' ?bs" by (rule links_rank [OF i(3) rk_old])
  have fl0: "flows_ok k ?g rk' ?bs (pending_of l)"
    using flows_rank [OF i(8) rk_old] .
  have fo: "if prev_of e = 0 then sb_height (snd e) = 1
      else \<exists>p. ?bs (prev_of e) = Some p \<and> follows p e"
    using ex by (intro follows_head [OF i(5) h(2) d(3,10)]) (simp add: extends_def)
  have "links_ok c k rk' (blocks_of l')"
    unfolding d(2) using ex a fo rk_new
    by (intro links_grow [OF l0 d(1)]) (auto simp: extends_def split: if_splits)
  moreover have "tops_ok (blocks_of l') (accounts_of l')"
    unfolding d(2,4) by (rule tops_grow [OF i(4,5) d(1,3)])
  moreover have "heads_ok rp' (blocks_of l') (accounts_of l')"
    unfolding d(2,4) by (rule heads_grow [OF i(5) d(1,3)]) (simp_all add: rp'_def)
  moreover have "rep_ok rp' h e"
    using ex d(1,3) i(5) by (rule rep_ok_new [OF _ _ _ _ rp'_def])
  then have "reps_ok rp' (blocks_of l')"
    unfolding d(2) by (intro reps_grow [OF i(6,3) d(1)]) (simp_all add: rp'_def)
  moreover have "frontiers_ok (blocks_of l') (accounts_of l') (frontiers_of l')"
    unfolding d(2,4) fr by (rule frontiers_grow [OF i(7,5) d(1,3)])
  moreover have "flows_ok k ?g rk' (blocks_of l') (pending_of l')"
    unfolding d(2) by (rule flows_grow [OF fl0 i(9) l0 d(1,5) hg rk_new])
  moreover have "pending_ok ?g (blocks_of l') (pending_of l')"
    unfolding d(2) by (rule pending_grow [OF fl0 i(9) l0 d(1,5)])
  moreover have "unique_ok ?g (blocks_of l')"
    unfolding d(2) by (rule unique_grow [OF i(10,9) d(1,5)])
  moreover have "conf_ok ?g (blocks_of l') (accounts_of l') (heights_of l')"
    unfolding d(2,4,7) by (rule conf_grow [OF i(11,8) d(1,3,10)])
  moreover have "genesis_ok c k (blocks_of l') (heights_of l')"
    unfolding d(2,7) using genesis_grow [OF d(1) hg] i(12) by simp
  moreover have "weights_ok (weights_of l') (accounts_of l')"
    unfolding d(4) using weights_step [OF fin(2) d(6) [unfolded info_of_def]] i(15) by simp
  moreover have "tables_finite l'"
    using fin finite_pending_moves [OF d(5)] finite_grow [OF d(1)]
    by (simp add: tables_finite_def d(2,4))
  ultimately have "ledger_inv c k rk' rp' T l'"
    using i(2,13,14,16) grows_supply [OF gr i(5) ph fin(2,3)] grows_counts [OF gr fin(2,1)] d(8,9)
    by (simp add: ledger_inv_def unpruned_def)
  with rk_new show ?thesis by blast
qed

lemma inv_shrink:
  assumes inv: "ledger_inv c k rk rp T l'" and gr: "grows k l l' h e a new"
    and un: "\<not> confirmed_at (blocks_of l') (heights_of l') h"
    and ph: "\<And>d. pending_of l (d, h) = None"
    and hd: "\<And>i. accounts_of l a = Some i \<Longrightarrow> head_ok rp (blocks_of l) a i"
    and fr: "frontiers_of l = (frontiers_of l')
      (h := None, prev_of e := (if legacy_at (blocks_of l) (prev_of e) then Some a else None))"
  shows "ledger_inv c k rk rp T l"
proof -
  note i = ledger_invD [OF inv] and d = growsD [OF gr]
  let ?bs = "blocks_of l" and ?g = "genesis_hash c k"
  have fin: "finite (dom ?bs)" "finite (dom (accounts_of l))" "finite (dom (pending_of l))"
    using i(1) finite_pending_moves [OF d(5)] finite_grow [OF d(1)]
    by (auto simp: tables_finite_def d(2,4))
  have hg: "h \<noteq> ?g" using un i(12) by (auto simp: genesis_ok_def)
  note ig = i [unfolded d(2,4,7)]
  have nr: "receives_at (grow ?bs h e) ?g r \<noteq> Some h" for r
    by (rule no_receiver_of_head [OF ig(8,9) d(1,5)])
  have l: "links_ok c k rk ?bs" by (rule links_shrink [OF ig(3) d(1)])
  moreover have "tops_ok ?bs (accounts_of l)" by (rule tops_shrink [OF ig(4,3) fin(1) d(1,3)])
  moreover have hds: "heads_ok rp ?bs (accounts_of l)" by (rule heads_shrink [OF ig(5,3) d(1,3) hd])
  moreover have "reps_ok rp ?bs" by (rule reps_shrink [OF ig(6) d(1)])
  moreover have "frontiers_ok ?bs (accounts_of l) (frontiers_of l)"
    unfolding fr by (rule frontiers_shrink [OF ig(7) hds d(1,3)])
  moreover have "flows_ok k ?g rk ?bs (pending_of l)" by (rule flows_shrink [OF ig(8,9) l d(1,5)])
  moreover have "pending_ok ?g ?bs (pending_of l)"
    by (rule pending_shrink [OF ig(8,9,10) l d(1,5) hg ph])
  moreover have "unique_ok ?g ?bs" by (rule unique_shrink [OF ig(10) d(1)])
  moreover have "conf_ok ?g ?bs (accounts_of l) (heights_of l)"
    using un unfolding d(2,7) by (intro conf_shrink [OF ig(11) nr d(1,3,10)])
  moreover have "genesis_ok c k ?bs (heights_of l)"
    using genesis_grow [OF d(1) hg] ig(12) by simp
  moreover have "weights_ok (weights_of l) (accounts_of l)"
    using weights_step [OF fin(2) d(6) [unfolded info_of_def]] ig(15) by simp
  ultimately show ?thesis
    using i(2,13,14,16) fin grows_supply [OF gr hds ph fin(2,3)] grows_counts [OF gr fin(2,1)] d(8,9)
    by (simp add: ledger_inv_def unpruned_def tables_finite_def)
qed

end
