(* ===== verification/Ledger_Step.thy ===== *)
theory Ledger_Step
  imports Ledger_Invariant
begin

text \<open>
  An accepted block extends the ledger in the sense of \<open>grows\<close>, so that \<open>ledger::process\<close> keeps
  the invariant.
\<close>

section \<open>What is assumed of a block\<close>

text \<open>
  What the theorems ask of a block that the ledger accepts.  Its digest is neither zero nor reserved, no account is
  at the last 64 bit height, and an epoch block that opens an account names no previous block.  The last condition
  is not checked by \<open>epoch_block_impl\<close>: with the signature of the epoch signer the code accepts an opening epoch
  block that names a block of another account.  Of blocks that the ledger refuses nothing is asked.
\<close>

definition epoch_open_ok :: "ledger_constants \<Rightarrow> ledger \<Rightarrow> block \<Rightarrow> bool" where
  "epoch_open_ok k l b \<longleftrightarrow>
     (case b of
        State s \<Rightarrow>
          is_epoch_link k (state_link (state_h s)) \<and> accounts_of l (state_account (state_h s)) = None \<longrightarrow>
          state_previous (state_h s) = 0
      | _ \<Rightarrow> True)"

definition admissible :: "crypto \<Rightarrow> ledger_constants \<Rightarrow> ledger \<Rightarrow> block \<Rightarrow> bool" where
  "admissible c k l b \<longleftrightarrow>
     generate_hash c b \<noteq> 0 \<and> \<not> reserved_hash k (generate_hash c b) \<and> epoch_open_ok k l b \<and>
     (\<forall>a i. accounts_of l a = Some i \<longrightarrow> ai_block_count i \<noteq> - 1)"

text \<open>The constants of a network: the burn account is zero and epochs fit five bits.\<close>

definition constants_ok :: "ledger_constants \<Rightarrow> bool" where
  "constants_ok k \<longleftrightarrow>
     k_burn_account k = 0 \<and> (\<forall>link e. epochs_epoch (k_epochs k) link = Some e \<longrightarrow> e < 32)"

section \<open>The block table\<close>

lemma block_put_grow:
  assumes "block_put c bs h b sb = Some bs'" and "h = generate_hash c b"
    and "grow_at bs h (b, sideband_stored (block_type_of b) sb)"
  shows "bs' = grow bs h (b, sideband_stored (block_type_of b) sb)"
proof -
  let ?e = "(b, sideband_stored (block_type_of b) sb)"
  have g: "bs 0 = None" "h \<noteq> 0" "block_previous b \<noteq> h" using assms(3) by (simp_all add: grow_at_def)
  have fill: "m' = grow bs h ?e"
    if "block_fill_value c (bs(h \<mapsto> ?e)) b = Some m'" for m'
    using that g assms(2)
    by (auto simp: block_fill_value_def Let_def grow_def with_successor_def split: option.splits)
  have none: "bs(h \<mapsto> ?e) = grow bs h ?e" if "block_previous b = 0"
    using that g by (auto simp: grow_def fun_upd_idem_iff)
  show ?thesis
    using assms(1) fill none unfolding block_put_def
    by (cases b) (auto split: if_splits)
qed

lemma put_grow:
  assumes inv: "ledger_inv c k rk rp T l" and fresh: "\<not> block_or_pruned_exists l (generate_hash c b)"
    and "generate_hash c b \<noteq> 0" and put: "block_put c (blocks_of l) (generate_hash c b) b sb = Some bs'"
    and "sb_successor sb = 0"
    and "case accounts_of l a of None \<Rightarrow> block_previous b = 0 | Some i \<Rightarrow> block_previous b = ai_head i"
  shows "grow_at (blocks_of l) (generate_hash c b) (b, sideband_stored (block_type_of b) sb)"
    and "bs' = grow (blocks_of l) (generate_hash c b) (b, sideband_stored (block_type_of b) sb)"
proof -
  note i = ledger_invD [OF inv]
  have h: "blocks_of l (generate_hash c b) = None"
    using fresh by (auto simp: block_or_pruned_exists_def table_simps split: if_splits)
  have "case blocks_of l (block_previous b) of
      None \<Rightarrow> block_previous b = 0 | Some p \<Rightarrow> sb_successor (snd p) = 0"
    using assms(6) heads_okD [OF i(5), of a] links_zero [OF i(3)]
    by (auto simp: head_ok_def split: option.splits)
  with h assms(3,5) links_zero [OF i(3)]
  show g: "grow_at (blocks_of l) (generate_hash c b) (b, sideband_stored (block_type_of b) sb)"
    by (auto simp: grow_at_def split: option.splits)
  show "bs' = grow (blocks_of l) (generate_hash c b) (b, sideband_stored (block_type_of b) sb)"
    by (rule block_put_grow [OF put refl g])
qed

lemma unat_count_Suc: "n \<noteq> - 1 \<Longrightarrow> unat (n + 1 :: u64) = Suc (unat n)"
  by (metis add.commute add.right_inverse add_eq_0_iff unatSuc)

section \<open>Accepted blocks\<close>

definition accepted ::
  "crypto \<Rightarrow> ledger_constants \<Rightarrow> ledger \<Rightarrow> ledger \<Rightarrow> block_hash \<Rightarrow> block_entry \<Rightarrow> account \<Rightarrow> account_info \<Rightarrow>
     bool" where
  "accepted c k l l' h e a new \<longleftrightarrow>
     grows k l l' h e a new \<and> extends c k l h e a new \<and>
     frontiers_of l' =
       (frontiers_of l)(prev_of e := None, h := (if legacy (fst e) then Some a else None))"

lemma commit_accepted:
  assumes inv: "ledger_inv c k rk rp T l" and cm: "commit c l l1 b sb a new pc"
    and adm: "admissible c k l b" and "sb_successor sb = 0"
  defines "h \<equiv> generate_hash c b" and "e \<equiv> (b, sideband_stored (block_type_of b) sb)"
  assumes j: "joins (accounts_of l) h e a new" and n: "sb_height (snd e) = ai_block_count (info_of l a) + 1"
    and m: "moves k (blocks_of l) (pending_of l) h e (apply_pending pc (pending_of l))"
    and w: "reweighs (weights_of l) (weights_of l1) (info_of l a) new"
    and ex: "extends c k l h e a new"
    and fr: "frontiers_of l1 =
      (frontiers_of l)(prev_of e := None, h := (if legacy (fst e) then Some a else None))"
  shows "accepted c k l (cache_block_count_add l1 1) h e a new"
proof -
  note i = ledger_invD [OF inv]
  have hz: "generate_hash c b \<noteq> 0" using adm by (simp add: admissible_def)
  have "case accounts_of l a of None \<Rightarrow> block_previous b = 0 | Some i \<Rightarrow> block_previous b = ai_head i"
    using j by (auto simp: joins_def e_def split: option.splits)
  from put_grow [OF inv _ hz _ assms(4) this] cm
  have gr: "grow_at (blocks_of l) h e" "blocks_of l1 = grow (blocks_of l) h e"
    by (simp_all add: commit_def h_def e_def)
  have "ai_block_count (info_of l a) \<noteq> - 1"
    using adm by (cases "accounts_of l a") (auto simp: admissible_def)
  then have ht: "unat (sb_height (snd e)) = Suc (count_at (accounts_of l) a)"
    unfolding n by (cases "accounts_of l a") (simp_all add: count_at_def unat_count_Suc)
  have ac: "ai_head (info_of l a) = 0 \<and> ai_open_block new = ai_head new \<longleftrightarrow> accounts_of l a = None"
    using j by (cases "accounts_of l a") (auto simp: joins_def)
  from cm gr j m w ht ac have "grows k l (cache_block_count_add l1 1) h e a new"
    by (simp add: grows_def commit_def cache_block_count_add_def)
  with ex fr show ?thesis by (simp add: accepted_def cache_block_count_add_def)
qed

lemma frontier_head:
  assumes "ledger_inv c k rk rp T l" and "frontiers_of l p = Some a"
  obtains i where "accounts_of l a = Some i" "ai_head i = p" "legacy_at (blocks_of l) p" "p \<noteq> 0"
proof -
  note i = ledger_invD [OF assms(1)]
  obtain i where i': "accounts_of l a = Some i" "ai_head i = p" "legacy_at (blocks_of l) p"
    using i(7) assms(2) by (auto simp: frontiers_ok_def)
  moreover have "p \<noteq> 0" using i'(3) links_zero [OF i(3)] by (auto simp: legacy_at_def)
  ultimately show thesis by (rule that)
qed

text \<open>Stored legacy blocks.\<close>

lemma legacy_sideband_simps [simp]:
  "sb_successor (legacy_sideband a b i now) = 0" "sb_account (legacy_sideband a b i now) = a"
  "sb_balance (legacy_sideband a b i now) = b"
  "sb_height (legacy_sideband a b i now) = ai_block_count i + 1"
  by (simp_all add: legacy_sideband_def)

lemmas entry_defs =
  account_calculated_def balance_calculated_def entry_epoch_def entry_sends_def entry_receives_def
  entry_source_epoch_def sideband_stored_def legacy_def keeps_rep_def kind_ok_def

lemma epoch_0_small: "epoch_0 < 32"
  by (simp add: epoch_0_def)

text \<open>A send, receive or change block on an account whose head is in the frontier table.\<close>

lemma legacy_accepted:
  assumes inv: "ledger_inv c k rk rp T l" and adm: "admissible c k l b"
    and f: "frontiers_of l (block_previous b) = Some acct" and a: "acct \<noteq> 0" "info = info_of l acct"
    and b: "block_type_of b \<in> {bt_send, bt_receive, bt_change}"
    and cm: "commit c l l1 b (legacy_sideband acct bal info now) acct
      (legacy_info info (generate_hash c b) rep bal now) pc"
    and rep: "rep = (if keeps_rep b then ai_representative info else block_representative b)"
  defines "h \<equiv> generate_hash c b"
    and "e \<equiv> (b, sideband_stored (block_type_of b) (legacy_sideband acct bal info now))"
  assumes bal: "balance_calculated e = bal"
    and m: "prev_balance (blocks_of l) e = ai_balance info \<Longrightarrow>
      moves k (blocks_of l) (pending_of l) h e (apply_pending pc (pending_of l))"
    and w: "reweighs (weights_of l) (weights_of l1) info (legacy_info info h rep bal now)"
    and fr: "frontiers_of l1 = (frontiers_of l)(block_previous b := None, h \<mapsto> acct)"
  shows "accepted c k l (cache_block_count_add l1 1) h e acct (legacy_info info h rep bal now)"
proof -
  note i = ledger_invD [OF inv]
  from frontier_head [OF inv f] obtain j where acc: "accounts_of l acct = Some j"
    "ai_head j = block_previous b" "legacy_at (blocks_of l) (block_previous b)" "block_previous b \<noteq> 0" .
  with a(2) have info: "info = j" by simp
  have e: "fst e = b" "account_calculated e = acct" "entry_epoch e = epoch_0" "legacy b"
    "sb_height (snd e) = ai_block_count info + 1"
    using b a(1) by (cases b; auto simp: e_def account_calculated_def entry_epoch_def
        sideband_stored_def legacy_def)+
  have jn: "joins (accounts_of l) h e acct (legacy_info info h rep bal now)"
    using acc info bal e by (simp add: joins_def)
  have pb: "prev_balance (blocks_of l) e = ai_balance info"
    using prev_balance_info [OF i(5) links_zero [OF i(3)] jn] a(2) by simp
  show ?thesis
    unfolding e_def h_def
  proof (rule commit_accepted [OF inv cm adm], fold e_def h_def)
    show "extends c k l h e acct (legacy_info info h rep bal now)"
      using adm a acc e rep by (simp add: extends_def h_def admissible_def epoch_0_small)
  qed (use jn m [OF pb] w a fr e in simp_all)
qed

lemma send_accepted:
  assumes inv: "ledger_inv c k rk rp T (p_ledger p)" and adm: "admissible c k (p_ledger p) (Send b)"
    and run: "process_send c k now b p = Some p'" and "p_code p' = pr_progress"
  shows "\<exists>e a new. accepted c k (p_ledger p) (cache_block_count_add (p_ledger p') 1)
    (generate_hash c (Send b)) e a new \<and> fst e = Send b"
proof -
  have "generate_hash c (Send b) \<noteq> 0" using adm by (simp add: admissible_def)
  with run assms(4) show ?thesis
  proof (cases rule: process_send_progress)
    case (1 acct info previous)
    have "accepted c k (p_ledger p) (cache_block_count_add (p_ledger p') 1) (generate_hash c (Send b))
        (Send b, sideband_stored (block_type_of (Send b))
          (legacy_sideband acct (send_balance (send_h b)) info now)) acct
        (legacy_info info (generate_hash c (Send b)) (ai_representative info)
          (send_balance (send_h b)) now)"
      using 1 frontier_head [OF inv 1(1)]
      by (intro legacy_accepted [OF inv adm _ 1(2,3) _ 1(7)])
        (auto simp: moves_def entry_defs reweighs_def)
    then show ?thesis by fastforce
  qed
qed

text \<open>The change handler reads the balance after the block is stored.\<close>

lemma commit_balance:
  assumes cm: "commit c l l' b sb a new pc" and q: "blocks_of l p = Some q" and "p \<noteq> 0"
  shows "ledger_balance l' p = Some (balance_calculated q)"
proof -
  have "blocks_of l (generate_hash c b) = None"
    using cm by (auto simp: commit_def block_or_pruned_exists_def table_simps split: if_splits)
  with q have "p \<noteq> generate_hash c b" by auto
  moreover have "bview (blocks_of l') = (bview (blocks_of l))
      (generate_hash c b \<mapsto> entry_view (b, sideband_stored (block_type_of b) sb))"
    using cm bview_put by (auto simp: commit_def)
  ultimately have "bview (blocks_of l') p = Some (entry_view q)" using q by (simp add: bview_apply)
  then obtain q' where "blocks_of l' p = Some q'" "entry_view q' = entry_view q"
    by (auto simp: bview_apply)
  with assms(3) entry_view_eq(3) [of q' q] show ?thesis
    by (simp add: ledger_balance_def block_table_balance_def)
qed

lemma change_accepted:
  assumes inv: "ledger_inv c k rk rp T (p_ledger p)" and adm: "admissible c k (p_ledger p) (Change b)"
    and run: "process_change c k now b p = Some p'" and "p_code p' = pr_progress"
  shows "\<exists>e a new. accepted c k (p_ledger p) (cache_block_count_add (p_ledger p') 1)
    (generate_hash c (Change b)) e a new \<and> fst e = Change b"
proof -
  have "generate_hash c (Change b) \<noteq> 0" using adm by (simp add: admissible_def)
  with run assms(4) show ?thesis
  proof (cases rule: process_change_progress)
    case (1 acct info previous balance)
    from frontier_head [OF inv 1(1)] obtain j where j: "accounts_of (p_ledger p) acct = Some j"
      "ai_head j = change_previous (change_h b)" "change_previous (change_h b) \<noteq> 0" by metis
    with heads_okD [OF ledger_invD(5) [OF inv] j(1)] 1(3) commit_balance [OF 1(7)] 1(6)
    have bal: "balance = ai_balance info" by (auto simp: head_ok_def)
    have "accepted c k (p_ledger p) (cache_block_count_add (p_ledger p') 1) (generate_hash c (Change b))
        (Change b, sideband_stored (block_type_of (Change b))
          (legacy_sideband acct (ai_balance info) info now)) acct
        (legacy_info info (generate_hash c (Change b)) (change_representative (change_h b))
          (ai_balance info) now)"
    proof (rule legacy_accepted [OF inv adm _ 1(2,3) _ 1(7)])
      show "frontiers_of (p_ledger p) (block_previous (Change b)) = Some acct" using 1(1) by simp
      show "frontiers_of (p_ledger p') = (frontiers_of (p_ledger p))
        (block_previous (Change b) := None, generate_hash c (Change b) \<mapsto> acct)" using 1(9) by simp
    qed (simp_all add: moves_def entry_defs reweighs_def 1(8) bal)
    then show ?thesis by fastforce
  qed
qed

text \<open>What is pending fits beside any balance.\<close>

lemma pending_no_overflow:
  assumes inv: "ledger_inv c k rk rp T l" and "pending_of l key = Some i"
  shows "ai_balance (info_of l a) \<le> ai_balance (info_of l a) + pi_amount i"
proof -
  note v = ledger_invD [OF inv]
  have "measure_at (\<lambda>i. unat (ai_balance i)) (accounts_of l) a \<le>
      map_total (\<lambda>i. unat (ai_balance i)) (accounts_of l)"
    using v(1) by (intro measure_at_le_total) (simp add: tables_finite_def)
  moreover have "measure_at (\<lambda>i. unat (ai_balance i)) (accounts_of l) a = unat (ai_balance (info_of l a))"
    by (cases "accounts_of l a") simp_all
  moreover have "measure_at (\<lambda>i. unat (pi_amount i)) (pending_of l) key \<le>
      map_total (\<lambda>i. unat (pi_amount i)) (pending_of l)"
    using v(1) by (intro measure_at_le_total) (simp add: tables_finite_def)
  ultimately have "unat (ai_balance (info_of l a)) + unat (pi_amount i) < 2 ^ 128"
    using v(13,14) assms(2) by (simp add: total_supply_def)
  then show ?thesis by (simp add: word_le_nat_alt unat_add_no_wrap)
qed

lemma pending_eq:
  assumes "pending_ok g bs pend" and "pend (d, s) = Some i" and "pi_amount i = x" and "pi_epoch i = y"
  shows "pend (d, s) = Some \<lparr>pi_source = the (account_at bs s), pi_amount = x, pi_epoch = y\<rparr>"
  using pending_okD(2) [OF assms(1,2)] assms(2-4) by simp

lemma receive_accepted:
  assumes inv: "ledger_inv c k rk rp T (p_ledger p)" and adm: "admissible c k (p_ledger p) (Receive b)"
    and run: "process_receive c k now b p = Some p'" and "p_code p' = pr_progress"
  shows "\<exists>e a new. accepted c k (p_ledger p) (cache_block_count_add (p_ledger p') 1)
    (generate_hash c (Receive b)) e a new \<and> fst e = Receive b"
proof -
  have "generate_hash c (Receive b) \<noteq> 0" using adm by (simp add: admissible_def)
  with run assms(4) show ?thesis
  proof (cases rule: process_receive_progress)
    case (1 acct info previous pending)
    let ?bal = "ai_balance info + pi_amount pending"
    have le: "ai_balance info \<le> ?bal"
      using pending_no_overflow [OF inv 1(5), of acct] 1(3) by simp
    have pend: "pending_of (p_ledger p) (acct, receive_source (receive_h b)) =
        Some \<lparr>pi_source = the (account_at (blocks_of (p_ledger p)) (receive_source (receive_h b))),
          pi_amount = pi_amount pending, pi_epoch = epoch_0\<rparr>"
      using pending_eq [OF ledger_invD(9) [OF inv] 1(5)] 1(9) by simp
    have "accepted c k (p_ledger p) (cache_block_count_add (p_ledger p') 1) (generate_hash c (Receive b))
        (Receive b, sideband_stored (block_type_of (Receive b)) (legacy_sideband acct ?bal info now)) acct
        (legacy_info info (generate_hash c (Receive b)) (ai_representative info) ?bal now)"
    proof (rule legacy_accepted [OF inv adm _ 1(2,3) _ 1(10)])
      show "frontiers_of (p_ledger p) (block_previous (Receive b)) = Some acct" using 1(1) by simp
      show "frontiers_of (p_ledger p') = (frontiers_of (p_ledger p))
        (block_previous (Receive b) := None, generate_hash c (Receive b) \<mapsto> acct)" using 1(12) by simp
    qed (simp_all add: moves_def entry_defs reweighs_def 1(2,11) le pend)
    then show ?thesis by fastforce
  qed
qed

lemma open_accepted:
  assumes inv: "ledger_inv c k rk rp T (p_ledger p)" and adm: "admissible c k (p_ledger p) (Open b)"
    and run: "process_open c k now b p = Some p'" and "p_code p' = pr_progress" and "constants_ok k"
  shows "\<exists>e a new. accepted c k (p_ledger p) (cache_block_count_add (p_ledger p') 1)
    (generate_hash c (Open b)) e a new \<and> fst e = Open b"
proof -
  have hz: "generate_hash c (Open b) \<noteq> 0" using adm by (simp add: admissible_def)
  note i = ledger_invD [OF inv]
  from run assms(4) hz show ?thesis
  proof (cases rule: process_open_progress)
    case (1 pending)
    let ?h = "open_h b"
    from 1(3) assms(5) have a0: "open_account ?h \<noteq> 0" by (simp add: constants_ok_def)
    have b0: "blocks_of (p_ledger p) 0 = None" by (rule links_zero [OF i(3)])
    have pend: "pending_of (p_ledger p) (open_account ?h, open_source ?h) =
        Some \<lparr>pi_source = the (account_at (blocks_of (p_ledger p)) (open_source ?h)),
          pi_amount = pi_amount pending, pi_epoch = epoch_0\<rparr>"
      using pending_eq [OF i(9) 1(1)] 1(5) by simp
    have f0: "frontiers_of (p_ledger p) 0 = None"
      by (cases "frontiers_of (p_ledger p) 0") (auto elim: frontier_head [OF inv])
    note m = commit_accepted [OF inv 1(6) adm]
    show ?thesis
      by (intro exI conjI, rule m)
        (simp_all add: joins_def entry_defs moves_def prev_balance_def b0 a0 pend reweighs_def
          extends_def 1(2,7,8) admissible_def [THEN iffD1, OF adm] epoch_0_small f0
          fun_upd_idem)
  qed
qed

section \<open>Accepted state blocks\<close>

lemma frontier_removed_head:
  assumes inv: "ledger_inv c k rk rp T l" and j: "joins (accounts_of l) h e a new"
    and "blocks_of l h = None"
  shows "frontier_removed (frontiers_of l) (ai_head (info_of l a)) =
    (frontiers_of l)(prev_of e := None, h := None)"
proof -
  note i = ledger_invD [OF inv]
  have p: "ai_head (info_of l a) = prev_of e"
    using j by (cases "accounts_of l a") (simp_all add: joins_def)
  have h: "frontiers_of l h = None"
    using assms(3) by (cases "frontiers_of l h") (auto elim: frontier_head [OF inv] simp: legacy_at_def)
  have "b \<noteq> 0" if "frontiers_of l x = Some b" for x b
  proof -
    from frontier_head [OF inv that] obtain m where m: "accounts_of l b = Some m" .
    from heads_okD [OF i(5) m] show ?thesis
      using links_okD [OF i(3)] by (fastforce simp: head_ok_def link_ok_def)
  qed
  then have "get_or 0 (frontiers_of l (prev_of e)) = 0 \<longleftrightarrow> frontiers_of l (prev_of e) = None"
    by (cases "frontiers_of l (prev_of e)") auto
  with h show ?thesis unfolding frontier_removed_def p by (auto simp: fun_upd_idem)
qed

lemma state_sideband_simps [simp]:
  "sb_successor (state_sideband b i e s r x se now) = 0"
  "sb_height (state_sideband b i e s r x se now) = ai_block_count i + 1"
  "sb_details (state_sideband b i e s r x se now) =
     \<lparr>bd_epoch = e, bd_is_send = s, bd_is_receive = r, bd_is_epoch = x\<rparr>"
  "sb_source_epoch (state_sideband b i e s r x se now) = se"
  by (simp_all add: state_sideband_def)

lemma state_entry:
  assumes "ep < 32"
  defines "e \<equiv> \<lambda>b i s r x se now.
    (State b, sideband_stored bt_state (state_sideband b i ep s r x se now))"
  shows "state_account (state_h b) \<noteq> 0 \<Longrightarrow>
      account_calculated (e b i s r x se now) = state_account (state_h b)"
    "balance_calculated (e b i s r x se now) = state_balance (state_h b)"
    "entry_epoch (e b i s r x se now) = ep"
    "entry_sends (e b i s r x se now) = (if s then Some (state_link (state_h b)) else None)"
    "entry_receives (e b i s r x se now) = (if r then Some (state_link (state_h b)) else None)"
    "entry_source_epoch (e b i s r x se now) = se"
    "kind_ok k bs (e b i s r x se now) \<longleftrightarrow>
      (s \<longleftrightarrow> state_balance (state_h b) < prev_balance bs (e b i s r x se now)) \<and>
      (r \<longleftrightarrow> \<not> s \<and> state_link (state_h b) \<noteq> 0 \<and> \<not> is_epoch_link k (state_link (state_h b)))"
    "prev_of (e b i s r x se now) = state_previous (state_h b)"
    "sb_height (sideband_stored bt_state (state_sideband b i ep s r x se now)) = ai_block_count i + 1"
    "prev_balance bs (e b i s r x se now) =
      get_or 0 (map_option balance_calculated (bs (state_previous (state_h b))))"
  using assms(1) by (simp_all add: e_def entry_defs details_unpack_packed prev_balance_def
      option.map_sel get_or_def split: option.splits)

lemma state_checkedD:
  assumes "state_checked l b info e se s r amount"
  shows "info = info_of l (state_account (state_h b))" "state_account (state_h b) \<noteq> 0"
    "amount = state_amount info b s" "source_checked l b (ai_epoch info) s amount e se"
    "accounts_of l (state_account (state_h b)) = None \<Longrightarrow>
      state_previous (state_h b) = 0 \<and> state_link (state_h b) \<noteq> 0 \<and> \<not> s \<and> r"
    "accounts_of l (state_account (state_h b)) = Some i \<Longrightarrow>
      i = info \<and> state_previous (state_h b) \<noteq> 0 \<and> state_previous (state_h b) = ai_head i \<and>
      s = (state_balance (state_h b) < ai_balance info) \<and> r = (\<not> s \<and> state_link (state_h b) \<noteq> 0)"
  using assms unfolding state_checked_def Let_def by (metis option.distinct(1) option.inject)+

lemma state_like_accepted:
  fixes b :: state_block and c :: crypto
  defines "a \<equiv> state_account (state_h b)" and "h \<equiv> generate_hash c (State b)"
  assumes inv: "ledger_inv c k rk rp T l" and adm: "admissible c k l (State b)"
    and a: "a \<noteq> 0" "info = info_of l a" and e32: "ep < 32"
    and pr: "case accounts_of l a of None \<Rightarrow> state_previous (state_h b) = 0
      | Some i \<Rightarrow> state_previous (state_h b) \<noteq> 0 \<and> state_previous (state_h b) = ai_head i"
    and cm: "commit c l l1 (State b) (state_sideband b info ep s r x se now) a
      (state_info b info h (state_balance (state_h b)) ep now) pc"
  defines "e \<equiv> (State b, sideband_stored bt_state (state_sideband b info ep s r x se now))"
  assumes m: "prev_balance (blocks_of l) e = ai_balance info \<Longrightarrow>
      moves k (blocks_of l) (pending_of l) h e (apply_pending pc (pending_of l))"
    and w: "reweighs (weights_of l) (weights_of l1) info
      (state_info b info h (state_balance (state_h b)) ep now)"
    and fr: "frontiers_of l1 = frontier_removed (frontiers_of l) (ai_head info)"
  shows "accepted c k l (cache_block_count_add l1 1) h e a
    (state_info b info h (state_balance (state_h b)) ep now)"
proof -
  note i = ledger_invD [OF inv]
  let ?new = "state_info b info h (state_balance (state_h b)) ep now"
  have e: "fst e = State b" "account_calculated e = a" "entry_epoch e = ep" "\<not> legacy (State b)"
    "balance_calculated e = state_balance (state_h b)" "sb_height (snd e) = ai_block_count info + 1"
    using a(1) unfolding e_def a_def by (simp_all add: state_entry [OF e32] legacy_def)
  have "ai_open_block j \<noteq> 0" if "accounts_of l a = Some j" for j
    using heads_okD [OF i(5) that] by (simp add: head_ok_def)
  then have jn: "joins (accounts_of l) h e a ?new"
    using pr a(2) e by (auto simp: joins_def split: option.splits)
  have pb: "prev_balance (blocks_of l) e = ai_balance info"
    using prev_balance_info [OF i(5) links_zero [OF i(3)] jn] a(2) by simp
  have hn: "blocks_of l h = None"
    using cm by (auto simp: commit_def block_or_pruned_exists_def table_simps h_def split: if_splits)
  have fr': "frontiers_of l1 = (frontiers_of l)(prev_of e := None, h := None)"
    using fr frontier_removed_head [OF inv jn hn] a(2) by simp
  have "e = (State b, sideband_stored (block_type_of (State b)) (state_sideband b info ep s r x se now))"
    by (simp add: e_def)
  then show ?thesis
    using commit_accepted [OF inv cm adm] jn m [OF pb] w a a(1) [unfolded a_def] fr' e adm e32
    by (simp add: h_def extends_def admissible_def keeps_rep_def)
qed

lemma pending_epoch:
  assumes inv: "ledger_inv c k rk rp T l" and "pending_of l (d, s) = Some i"
  shows "pi_epoch i < 32" and "\<not> is_epoch_link k s" and "s \<noteq> 0"
proof -
  note v = ledger_invD [OF inv]
  from pending_source_exists [OF v(9) assms(2)] obtain e where e: "blocks_of l s = Some e" by auto
  from links_okD [OF v(3) e] pending_okD(4) [OF v(9) assms(2)] e
  show "pi_epoch i < 32" and "\<not> is_epoch_link k s" and "s \<noteq> 0"
    by (simp_all add: link_ok_def epoch_at_def reserved_hash_def)
qed

lemma account_epoch:
  assumes "ledger_inv c k rk rp T l"
  shows "ai_epoch (info_of l a) < 32"
proof (cases "accounts_of l a")
  case (Some i)
  note v = ledger_invD [OF assms]
  from heads_okD [OF v(5) Some] Some show ?thesis
    using links_okD [OF v(3)] by (fastforce simp: head_ok_def link_ok_def)
qed (simp add: epoch_0_small)

lemma state_accepted:
  assumes inv: "ledger_inv c k rk rp T (p_ledger p)" and adm: "admissible c k (p_ledger p) (State b)"
    and run: "state_block_impl c k now b p = Some p'" and pg: "p_code p' = pr_progress"
  shows "\<exists>e a new. accepted c k (p_ledger p) (cache_block_count_add (p_ledger p') 1)
    (generate_hash c (State b)) e a new \<and> fst e = State b"
proof -
  let ?l = "p_ledger p" and ?h = "state_h b" and ?hash = "generate_hash c (State b)"
  note v = ledger_invD [OF inv]
  have hz: "?hash \<noteq> 0" using adm by (simp add: admissible_def)
  from state_block_impl_checked [OF run pg] obtain info e se s r amount q where
    ck: "state_checked ?l b info e se s r amount" and new: "\<not> block_or_pruned_exists ?l ?hash"
    and cm: "state_block_commit c k now b q info e se s r amount = Some p'" and q: "p_ledger q = ?l" .
  note cD = state_checkedD [OF ck]
  note info = cD(1) and a0 = cD(2) and amt = cD(3) and sc = cD(4)
  note c = state_block_commit_progress [OF cm pg hz new [folded q] info [folded q], unfolded q]
  let ?e = "(State b, sideband_stored bt_state (state_sideband b info e s r False se now))"
  have pr: "case accounts_of ?l (state_account ?h) of None \<Rightarrow> state_previous ?h = 0
      | Some i \<Rightarrow> state_previous ?h \<noteq> 0 \<and> state_previous ?h = ai_head i"
  proof (cases "accounts_of ?l (state_account ?h)")
    case (Some i)
    with cD(6) [OF Some] show ?thesis by auto
  qed (use cD(5) in simp)
  have kind: "(s \<longleftrightarrow> state_balance ?h < ai_balance info) \<and> (r \<longleftrightarrow> \<not> s \<and> state_link ?h \<noteq> 0) \<and>
      (s \<longrightarrow> state_previous ?h \<noteq> 0)"
    using cD(5,6) info by (cases "accounts_of ?l (state_account ?h)") auto
  have pend: "pending_of ?l (state_account ?h, state_link ?h) = Some
      \<lparr>pi_source = the (account_at (blocks_of ?l) (state_link ?h)), pi_amount = amount, pi_epoch = se\<rparr>
      \<and> \<not> is_epoch_link k (state_link ?h)" if "\<not> s" "state_link ?h \<noteq> 0"
    using sc that pending_eq [OF v(9)] pending_epoch(2) [OF inv] by (auto simp: source_checked_def Let_def)
  have e32: "e < 32"
    using sc account_epoch [OF inv, of "state_account ?h"] info pending_epoch(1) [OF inv]
    by (auto simp: source_checked_def Let_def max_def split: if_splits)
  have eq: "state_balance ?h = ai_balance info" if "\<not> s" "state_link ?h = 0"
    using sc that amt by (simp add: source_checked_def Let_def state_amount_def)
  have mv: "moves k (blocks_of ?l) (pending_of ?l) ?hash ?e
      (apply_pending (state_pending b ?hash s amount e) (pending_of ?l))"
    if pb: "prev_balance (blocks_of ?l) ?e = ai_balance info"
  proof (cases s)
    case True
    with kind amt a0 pb show ?thesis
      by (auto simp: moves_def state_entry [OF e32] state_pending_def state_amount_def)
  next
    case False
    with kind amt a0 pb pend eq show ?thesis
      by (auto simp: moves_def state_entry [OF e32] state_pending_def state_amount_def)
  qed
  have w: "reweighs (weights_of ?l) (weights_of (p_ledger p')) info
      (state_info b info ?hash (state_balance ?h) e now)"
    using cD(5,6) info by (cases "accounts_of ?l (state_account ?h)")
      (auto simp: c(2) moved_weights_def reweighs_def)
  from state_like_accepted [OF inv adm a0 info e32 pr c(1) mv w c(3)] show ?thesis by fastforce
qed

lemma epoch_accepted:
  assumes inv: "ledger_inv c k rk rp T (p_ledger p)" and adm: "admissible c k (p_ledger p) (State b)"
    and run: "epoch_block_impl c k now b p = Some p'" and pg: "p_code p' = pr_progress"
    and k: "constants_ok k" and lnk: "is_epoch_link k (state_link (state_h b))"
  shows "\<exists>e a new. accepted c k (p_ledger p) (cache_block_count_add (p_ledger p') 1)
    (generate_hash c (State b)) e a new \<and> fst e = State b"
proof -
  let ?l = "p_ledger p" and ?h = "state_h b" and ?hash = "generate_hash c (State b)"
  have hz: "?hash \<noteq> 0" using adm by (simp add: admissible_def)
  from epoch_block_impl_checked [OF run pg hz] obtain info e where
    ck: "epoch_checked k ?l b info e"
    and cm: "commit c ?l (p_ledger p') (State b) (state_sideband b info e False False True epoch_0 now)
      (state_account ?h) (state_info b info ?hash (state_balance ?h) e now) Pending_none"
    and w: "weights_of (p_ledger p') = weights_of ?l"
    and fr: "frontiers_of (p_ledger p') = frontier_removed (frontiers_of ?l) (ai_head info)" .
  have info: "info = info_of ?l (state_account ?h)" and a0: "state_account ?h \<noteq> 0"
    and e32: "e < 32" and bal: "state_balance ?h = ai_balance info"
    and rep: "state_representative ?h = ai_representative info"
    using ck k by (auto simp: epoch_checked_def Let_def constants_ok_def)
  have pr: "case accounts_of ?l (state_account ?h) of None \<Rightarrow> state_previous ?h = 0
      | Some i \<Rightarrow> state_previous ?h \<noteq> 0 \<and> state_previous ?h = ai_head i"
  proof (cases "accounts_of ?l (state_account ?h)")
    case None
    with adm lnk show ?thesis by (simp add: admissible_def epoch_open_ok_def)
  next
    case (Some i)
    with ck info have "accounts_of ?l (state_account ?h) = Some info \<and> state_previous ?h \<noteq> 0 \<and>
        state_previous ?h = ai_head info" unfolding epoch_checked_def Let_def by (metis option.distinct(1))
    with Some show ?thesis by auto
  qed
  let ?e = "(State b, sideband_stored bt_state (state_sideband b info e False False True epoch_0 now))"
  have mv: "moves k (blocks_of ?l) (pending_of ?l) ?hash ?e (apply_pending Pending_none (pending_of ?l))"
    if pb: "prev_balance (blocks_of ?l) ?e = ai_balance info"
    using lnk bal pb by (simp add: moves_def state_entry [OF e32])
  have w': "reweighs (weights_of ?l) (weights_of (p_ledger p')) info
      (state_info b info ?hash (state_balance ?h) e now)"
    using w bal rep by (simp add: reweighs_def)
  from state_like_accepted [OF inv adm a0 info e32 pr cm mv w' fr] show ?thesis by fastforce
qed

section \<open>Processing keeps the invariant\<close>

lemma process_accepted:
  assumes inv: "ledger_inv c k rk rp T l" and adm: "admissible c k l b" and k: "constants_ok k"
    and run: "process c k now l b v = Some p" and pg: "p_code p = pr_progress"
  obtains e a new where "accepted c k l (p_ledger p) (generate_hash c b) e a new" "fst e = b"
proof -
  from run obtain q where q1: "process_visit c k now b (ledger_processor l v) = Some q"
    and q2: "(if p_code q = pr_progress then Some (q\<lparr>p_ledger := cache_block_count_add (p_ledger q) 1\<rparr>)
      else Some q) = Some p"
    unfolding process_def bind_eq_Some by blast
  have q3: "p_code q = pr_progress" using q2 pg by (auto split: if_splits)
  have "p_ledger p = cache_block_count_add (p_ledger q) 1" using q2 q3 by auto
  note q = q1 q3 this
  have l: "p_ledger (ledger_processor l v) = l" by (simp add: ledger_processor_def)
  have "\<exists>e a new. accepted c k l (p_ledger p) (generate_hash c b) e a new \<and> fst e = b"
  proof (cases b)
    case (Send s)
    with send_accepted [of c k rk rp T "ledger_processor l v" s now q] inv adm q l
    show ?thesis by simp
  next
    case (Receive s)
    with receive_accepted [of c k rk rp T "ledger_processor l v" s now q] inv adm q l
    show ?thesis by simp
  next
    case (Open s)
    with open_accepted [of c k rk rp T "ledger_processor l v" s now q] inv adm q l k
    show ?thesis by simp
  next
    case (Change s)
    with change_accepted [of c k rk rp T "ledger_processor l v" s now q] inv adm q l
    show ?thesis by simp
  next
    case (State s)
    with q have run: "process_state c k now s (ledger_processor l v) = Some q" by simp
    show ?thesis
    proof (cases rule: process_state_cases [OF run q(2)])
      case (1 p1)
      with state_accepted [of c k rk rp T p1 s now q] inv adm q l State show ?thesis by simp
    next
      case (2 p1)
      with epoch_accepted [of c k rk rp T p1 s now q] inv adm q l k State show ?thesis by simp
    qed
  qed
  then show thesis using that by blast
qed

lemma process_inv:
  assumes inv: "ledger_inv c k rk rp T l" and adm: "p_code p = pr_progress \<longrightarrow> admissible c k l b" and k: "constants_ok k"
    and run: "process c k now l b v = Some p"
  shows "\<exists>rk' rp'. ledger_inv c k rk' rp' T (p_ledger p)"
proof (cases "p_code p = pr_progress")
  case True
  from process_accepted [OF inv adm [rule_format, OF True] k run True] obtain e a new where
    "accepted c k l (p_ledger p) (generate_hash c b) e a new" .
  then show ?thesis unfolding accepted_def by (blast dest: inv_grow [OF inv])
next
  case False
  with process_rejected [OF run] inv show ?thesis by auto
qed

end
