(* ===== verification/Ledger_Rollback.thy ===== *)
theory Ledger_Rollback
  imports Ledger_Queries
begin

text \<open>
  \<^verbatim>\<open>rollback_visitor\<close> and \<^verbatim>\<open>ledger::rollback\<close> of \<^verbatim>\<open>secure/ledger.cpp\<close>.  The visitor removes the head of
  an account; the loop removes heads until a given block is gone.  Rolling back a send block
  whose amount was received first rolls back the account that received it, so that the two
  functions call each other.  A call has a number of steps (\<open>run\<close>); \<open>now\<close> gives the time at
  which a block is rolled back.
\<close>

type_synonym rollback_list = "block_entry list"
type_synonym rollback_result = "(bool \<times> ledger \<times> rollback_list) run"

section \<open>The visitor, without the nested rollbacks\<close>

text \<open>\<open>send_block\<close>, after its loop, which ends with the pending entry of the block present.\<close>

definition rollback_send :: "crypto \<Rightarrow> (block_hash \<Rightarrow> u64) \<Rightarrow> ledger \<Rightarrow> send_block \<Rightarrow> ledger option" where
  "rollback_send c now l block_a =
     (let hash = generate_hash c (Send block_a); h = send_h block_a;
          key = (send_destination h, hash)
      in do {
        pending \<leftarrow> store_pending_get l key;
        let info = get_or account_info_default (store_account_get l (pi_source pending));
        l \<leftarrow> store_pending_del l key;
        let l = cache_representation_add l (ai_representative info) (pi_amount pending);
        balance \<leftarrow> ledger_balance l (send_previous h);
        let new_info = \<lparr>ai_head = send_previous h, ai_representative = ai_representative info,
                        ai_open_block = ai_open_block info, ai_balance = balance,
                        ai_modified = now hash, ai_block_count = ai_block_count info - 1,
                        ai_epoch = epoch_0\<rparr>;
        l \<leftarrow> update_account l (pi_source pending) info new_info;
        l \<leftarrow> store_block_del l hash;
        l \<leftarrow> store_frontier_del l hash;
        let l = store_frontier_put l (send_previous h) (pi_source pending);
        store_block_successor_clear l (send_previous h) })"

definition rollback_receive ::
  "crypto \<Rightarrow> (block_hash \<Rightarrow> u64) \<Rightarrow> ledger \<Rightarrow> receive_block \<Rightarrow> ledger option" where
  "rollback_receive c now l block_a =
     (let hash = generate_hash c (Receive block_a); h = receive_h block_a in
      do {
        amount \<leftarrow> ledger_amount l hash;
        destination_account \<leftarrow> ledger_account l hash;
        (source_account, is_pruned) \<leftarrow> account_safe l (receive_source h) False;
        let info = get_or account_info_default (store_account_get l destination_account);
        let l = cache_representation_add l (ai_representative info) (0 - amount);
        balance \<leftarrow> ledger_balance l (receive_previous h);
        let new_info = \<lparr>ai_head = receive_previous h, ai_representative = ai_representative info,
                        ai_open_block = ai_open_block info, ai_balance = balance,
                        ai_modified = now hash, ai_block_count = ai_block_count info - 1,
                        ai_epoch = epoch_0\<rparr>;
        l \<leftarrow> update_account l destination_account info new_info;
        l \<leftarrow> store_block_del l hash;
        let l = store_pending_put l (destination_account, receive_source h)
                  \<lparr>pi_source = source_account, pi_amount = amount, pi_epoch = epoch_0\<rparr>;
        l \<leftarrow> store_frontier_del l hash;
        let l = store_frontier_put l (receive_previous h) destination_account;
        store_block_successor_clear l (receive_previous h) })"

definition rollback_open :: "crypto \<Rightarrow> ledger \<Rightarrow> open_block \<Rightarrow> ledger option" where
  "rollback_open c l block_a =
     (let hash = generate_hash c (Open block_a); h = open_h block_a in
      do {
        amount \<leftarrow> ledger_amount l hash;
        destination_account \<leftarrow> ledger_account l hash;
        (source_account, is_pruned) \<leftarrow> account_safe l (open_source h) False;
        let l = cache_representation_add l (block_representative (Open block_a)) (0 - amount);
        l \<leftarrow> update_account l destination_account account_info_default account_info_default;
        l \<leftarrow> store_block_del l hash;
        let l = store_pending_put l (destination_account, open_source h)
                  \<lparr>pi_source = source_account, pi_amount = amount, pi_epoch = epoch_0\<rparr>;
        store_frontier_del l hash })"

text \<open>\<open>rep_block\<close> is the result of \<open>representative (previous)\<close>, which the code computes first.\<close>

definition rollback_change ::
  "crypto \<Rightarrow> (block_hash \<Rightarrow> u64) \<Rightarrow> ledger \<Rightarrow> change_block \<Rightarrow> block_hash \<Rightarrow> ledger option" where
  "rollback_change c now l block_a rep_block =
     (let hash = generate_hash c (Change block_a); h = change_h block_a in
      do {
        acct \<leftarrow> ledger_account l (change_previous h);
        let info = get_or account_info_default (store_account_get l acct);
        balance \<leftarrow> ledger_balance l (change_previous h);
        block \<leftarrow> block_get (blocks_of l) rep_block;
        let representative = block_representative (fst block);
        let l = cache_representation_add_dual l (block_representative (Change block_a)) (0 - balance)
                  representative balance;
        l \<leftarrow> store_block_del l hash;
        let new_info = \<lparr>ai_head = change_previous h, ai_representative = representative,
                        ai_open_block = ai_open_block info, ai_balance = ai_balance info,
                        ai_modified = now hash, ai_block_count = ai_block_count info - 1,
                        ai_epoch = epoch_0\<rparr>;
        l \<leftarrow> update_account l acct info new_info;
        l \<leftarrow> store_frontier_del l hash;
        let l = store_frontier_put l (change_previous h) acct;
        store_block_successor_clear l (change_previous h) })"

text \<open>
  \<open>state_block\<close> in two parts, before and after its loop.  The first part computes the
  representative and the balance before the block and moves the weights.
\<close>

definition rollback_state_weights ::
  "ledger \<Rightarrow> state_block \<Rightarrow> block_hash \<Rightarrow> (ledger \<times> amount \<times> account) option" where
  "rollback_state_weights l block_a rep_block_hash =
     (let h = state_h block_a in
      do {
        balance \<leftarrow> ledger_balance l (state_previous h);
        if rep_block_hash \<noteq> 0 then
          do { block \<leftarrow> block_get (blocks_of l) rep_block_hash;
               let representative = block_representative (fst block);
               Some (cache_representation_add_dual l representative balance
                       (state_representative h) (0 - state_balance h), balance, representative) }
        else
          Some (cache_representation_add l (state_representative h) (0 - state_balance h), balance, 0) })"

definition rollback_state ::
  "crypto \<Rightarrow> ledger_constants \<Rightarrow> (block_hash \<Rightarrow> u64) \<Rightarrow> ledger \<Rightarrow> state_block \<Rightarrow> block_sideband \<Rightarrow> amount \<Rightarrow>
     account \<Rightarrow> account_info \<Rightarrow> ledger option" where
  "rollback_state c k now l block_a sideband_a balance representative info =
     (let hash = generate_hash c (State block_a); h = state_h block_a;
          is_send = state_balance h < balance
      in do {
        l \<leftarrow> (if is_send then store_pending_del l (state_link h, hash)
              else if state_link h \<noteq> 0 \<and> \<not> is_epoch_link k (state_link h) then
                do { (source_account, is_pruned) \<leftarrow> account_safe l (state_link h) False;
                     Some (store_pending_put l (state_account h, state_link h)
                       \<lparr>pi_source = source_account, pi_amount = state_balance h - balance,
                        pi_epoch = sb_source_epoch sideband_a\<rparr>) }
              else Some l);
        let previous_version = block_version (blocks_of l) (state_previous h);
        let new_info = \<lparr>ai_head = state_previous h, ai_representative = representative,
                        ai_open_block = ai_open_block info, ai_balance = balance,
                        ai_modified = now hash, ai_block_count = ai_block_count info - 1,
                        ai_epoch = previous_version\<rparr>;
        l \<leftarrow> update_account l (state_account h) info new_info;
        l \<leftarrow> (case block_get (blocks_of l) (state_previous h) of
                Some previous \<Rightarrow>
                  do { l \<leftarrow> store_block_successor_clear l (state_previous h);
                       Some (if block_type_of (fst previous) < bt_state
                             then store_frontier_put l (state_previous h) (state_account h) else l) }
              | None \<Rightarrow> Some l);
        store_block_del l hash })"

section \<open>Rollback\<close>

text \<open>
  The loops take the nested rollback as an argument, \<open>nested\<close>, and a number of steps; a rollback
  with \<open>Suc n\<close> steps runs its loops with \<open>n\<close> steps over the rollback with \<open>n\<close> steps.
\<close>

type_synonym nested_rollback = "ledger \<Rightarrow> block_hash \<Rightarrow> rollback_list \<Rightarrow> rollback_result"

text \<open>The loops of \<open>send_block\<close> and \<open>state_block\<close>: until the pending entry is found.\<close>

fun rollback_until ::
  "nat \<Rightarrow> nested_rollback \<Rightarrow> (ledger \<Rightarrow> bool) \<Rightarrow> account \<Rightarrow> ledger \<Rightarrow> rollback_list \<Rightarrow> rollback_result" where
  "rollback_until 0 nested found destination l list_a = Timeout"
| "rollback_until (Suc n) nested found destination l list_a =
     (if \<not> found l then
        run_bind (nested l (latest l destination) list_a) (\<lambda>(error, l, list_a).
          if \<not> error then rollback_until n nested found destination l list_a
          else Done (True, l, list_a))
      else Done (False, l, list_a))"

definition rollback_send_block ::
  "nat \<Rightarrow> nested_rollback \<Rightarrow> crypto \<Rightarrow> (block_hash \<Rightarrow> u64) \<Rightarrow> ledger \<Rightarrow> send_block \<Rightarrow> rollback_list \<Rightarrow>
     rollback_result" where
  "rollback_send_block n nested c now l b list_a =
     (let key = (send_destination (send_h b), generate_hash c (Send b)) in
      run_bind (rollback_until n nested (\<lambda>l. store_pending_get l key \<noteq> None)
          (send_destination (send_h b)) l list_a) (\<lambda>(error, l, list_a).
        if \<not> error
        then run_bind (run_of (rollback_send c now l b)) (\<lambda>l. Done (False, l, list_a))
        else Done (True, l, list_a)))"

text \<open>
  The local variable \<open>error\<close> of \<open>state_block\<close> hides the member that \<open>rollback\<close> reads: the visitor
  never reports an error for a state block.
\<close>

definition rollback_state_block ::
  "nat \<Rightarrow> nested_rollback \<Rightarrow> crypto \<Rightarrow> ledger_constants \<Rightarrow> (block_hash \<Rightarrow> u64) \<Rightarrow> ledger \<Rightarrow> state_block \<Rightarrow>
     block_sideband \<Rightarrow> rollback_list \<Rightarrow> rollback_result" where
  "rollback_state_block n nested c k now l b sideband_a list_a =
     (let h = state_h b; key = (state_link h, generate_hash c (State b)) in
      run_bind (if state_previous h \<noteq> 0 then ledger_representative n c l (state_previous h) else Done 0)
        (\<lambda>rep_block_hash.
      run_bind (run_of (rollback_state_weights l b rep_block_hash)) (\<lambda>(l, balance, representative).
      let error = store_account_get l (state_account h) = None;
          info = get_or account_info_default (store_account_get l (state_account h))
      in
      run_bind (if state_balance h < balance \<and> \<not> error
                then rollback_until n nested (\<lambda>l. store_pending_exists l key) (state_link h) l list_a
                else Done (error, l, list_a)) (\<lambda>(error, l, list_a).
      run_bind (run_of (rollback_state c k now l b sideband_a balance representative info))
        (\<lambda>l. Done (False, l, list_a))))))"

definition rollback_visit ::
  "nat \<Rightarrow> nested_rollback \<Rightarrow> crypto \<Rightarrow> ledger_constants \<Rightarrow> (block_hash \<Rightarrow> u64) \<Rightarrow> ledger \<Rightarrow> block_entry \<Rightarrow>
     rollback_list \<Rightarrow> rollback_result" where
  "rollback_visit n nested c k now l block_a list_a =
     (case fst block_a of
        Send b \<Rightarrow> rollback_send_block n nested c now l b list_a
      | Receive b \<Rightarrow>
          run_bind (run_of (rollback_receive c now l b)) (\<lambda>l. Done (False, l, list_a))
      | Open b \<Rightarrow>
          run_bind (run_of (rollback_open c l b)) (\<lambda>l. Done (False, l, list_a))
      | Change b \<Rightarrow>
          run_bind (ledger_representative n c l (change_previous (change_h b))) (\<lambda>rep_block.
          run_bind (run_of (rollback_change c now l b rep_block)) (\<lambda>l. Done (False, l, list_a)))
      | State b \<Rightarrow> rollback_state_block n nested c k now l b (snd block_a) list_a)"

text \<open>The loop of \<open>rollback\<close>.  \<open>account_info\<close> lives outside the loop of the code.\<close>

fun rollback_loop ::
  "nat \<Rightarrow> nat \<Rightarrow> nested_rollback \<Rightarrow> crypto \<Rightarrow> ledger_constants \<Rightarrow> (block_hash \<Rightarrow> u64) \<Rightarrow> block_hash \<Rightarrow> account \<Rightarrow>
     u64 \<Rightarrow> account_info \<Rightarrow> ledger \<Rightarrow> rollback_list \<Rightarrow> rollback_result" where
  "rollback_loop 0 m nested c k now block_a account_l height info l list_a = Timeout"
| "rollback_loop (Suc n) m nested c k now block_a account_l height info l list_a =
     (if block_exists (blocks_of l) block_a then
        if ch_height (snd (store_confirmation_height_get l account_l)) < height then
          let info = get_or info (store_account_get l account_l) in
          run_bind (run_of (block_get (blocks_of l) (ai_head info))) (\<lambda>block.
          run_bind (rollback_visit m nested c k now l block (list_a @ [block])) (\<lambda>(error, l, list_a).
            if \<not> error
            then rollback_loop n m nested c k now block_a account_l height info
                   (cache_block_count_add l (- 1)) list_a
            else Done (True, l, list_a)))
        else Done (True, l, list_a)
      else Done (False, l, list_a))"

fun rollback ::
  "nat \<Rightarrow> crypto \<Rightarrow> ledger_constants \<Rightarrow> (block_hash \<Rightarrow> u64) \<Rightarrow> ledger \<Rightarrow> block_hash \<Rightarrow> rollback_list \<Rightarrow>
     rollback_result" where
  "rollback 0 c k now l block_a list_a = Timeout"
| "rollback (Suc n) c k now l block_a list_a =
     run_bind (run_of (ledger_account l block_a)) (\<lambda>account_l.
     run_bind (run_of (block_account_height (blocks_of l) block_a)) (\<lambda>height.
       rollback_loop n n (rollback n c k now) c k now block_a account_l height account_info_default
         l list_a))"

section \<open>More steps\<close>

text \<open>A computation that ends does so in the same way when it is given more steps.\<close>

definition run_le :: "'a run \<Rightarrow> 'a run \<Rightarrow> bool" where
  "run_le x y \<longleftrightarrow> x = Timeout \<or> x = y"

lemma run_le_refl [simp, intro]: "run_le x x"
  by (simp add: run_le_def)

lemma run_le_Timeout [simp]: "run_le Timeout y"
  by (simp add: run_le_def)

lemma run_le_Done: "run_le (Done x) y \<longleftrightarrow> y = Done x"
  by (auto simp: run_le_def)

lemma run_le_bind:
  "run_le x y \<Longrightarrow> (\<And>z. run_le (f z) (g z)) \<Longrightarrow> run_le (run_bind x f) (run_bind y g)"
  unfolding run_le_def by (cases x) (auto, metis)

definition nested_le :: "nested_rollback \<Rightarrow> nested_rollback \<Rightarrow> bool" where
  "nested_le f g \<longleftrightarrow> (\<forall>l h ls. run_le (f l h ls) (g l h ls))"

lemma representative_mono:
  "n \<le> n' \<Longrightarrow> run_le (representative_compute n c l h) (representative_compute n' c l h)"
proof (induction n arbitrary: n' h)
  case (Suc n)
  then obtain j where j: "n' = Suc j" "n \<le> j" by (cases n') auto
  show ?case
    unfolding j representative_compute.simps
    by (rule run_le_bind) (auto simp: Let_def split: prod.splits intro: Suc.IH [OF j(2)])
qed simp

lemma ledger_representative_mono:
  "n \<le> n' \<Longrightarrow> run_le (ledger_representative n c l h) (ledger_representative n' c l h)"
  by (simp add: ledger_representative_def representative_calculated_def representative_mono)

lemma rollback_until_mono:
  assumes "nested_le f g"
  shows "n \<le> n' \<Longrightarrow> run_le (rollback_until n f found d l ls) (rollback_until n' g found d l ls)"
proof (induction n arbitrary: n' l ls)
  case (Suc n)
  then obtain j where j: "n' = Suc j" "n \<le> j" by (cases n') auto
  have "run_le (f l (latest l d) ls) (g l (latest l d) ls)" using assms by (simp add: nested_le_def)
  then show ?case
    unfolding j rollback_until.simps
    by (auto intro!: run_le_bind Suc.IH [OF j(2)] split: prod.splits)
qed simp

lemma rollback_visit_mono:
  assumes "nested_le f g" and "n \<le> n'"
  shows "run_le (rollback_visit n f c k now l b ls) (rollback_visit n' g c k now l b ls)"
  unfolding rollback_visit_def rollback_send_block_def rollback_state_block_def Let_def
  using rollback_until_mono [OF assms] ledger_representative_mono [OF assms(2)]
  by (cases "fst b") (auto intro!: run_le_bind split: prod.splits)

lemma rollback_loop_mono:
  assumes "nested_le f g" and "m \<le> m'"
  shows "n \<le> n' \<Longrightarrow> run_le (rollback_loop n m f c k now x a ht i l ls)
    (rollback_loop n' m' g c k now x a ht i l ls)"
proof (induction n arbitrary: n' i l ls)
  case (Suc n)
  then obtain j where j: "n' = Suc j" "n \<le> j" by (cases n') auto
  show ?case
    unfolding j rollback_loop.simps Let_def
    by (auto intro!: run_le_bind Suc.IH [OF j(2)] rollback_visit_mono [OF assms] split: prod.splits)
qed simp

lemma rollback_mono:
  "n \<le> n' \<Longrightarrow> nested_le (rollback n c k now) (rollback n' c k now)"
proof (induction n arbitrary: n')
  case 0
  show ?case by (simp add: nested_le_def)
next
  case (Suc n)
  then obtain j where j: "n' = Suc j" "n \<le> j" by (cases n') auto
  show ?case
    unfolding nested_le_def j rollback.simps
    by (auto intro!: run_le_bind rollback_loop_mono Suc.IH j(2))
qed

lemma rollback_more:
  "rollback n c k now l h ls = Done r \<Longrightarrow> n \<le> n' \<Longrightarrow> rollback n' c k now l h ls = Done r"
  by (metis nested_le_def rollback_mono run_le_Done)

end
