(* ===== verification/Rollback_Step.thy ===== *)
theory Rollback_Step
  imports Ledger_Step Ledger_Rollback
begin

text \<open>
  The removal of the head of an account by the rollback visitor: it reads \<open>grows\<close> backwards, so
  that the invariant holds again after it.  The visitor moves the weights of a state block
  before it rolls back the receivers of the block; the invariant of the ledger in between holds
  up to a difference \<open>d\<close> of the weights.
\<close>

declare split_paired_All [simp del] split_paired_Ex [simp del]

section \<open>Weights with a difference\<close>

definition unweigh :: "(account \<Rightarrow> amount) \<Rightarrow> ledger \<Rightarrow> ledger" where
  "unweigh d l =
     l\<lparr>l_cache := (l_cache l)\<lparr>lc_rep_weights := (\<lambda>r. Some (rep_get (weights_of l) r - d r))\<rparr>\<rparr>"

lemma unweigh_simps [simp]:
  "l_store (unweigh d l) = l_store l" "l_pruning (unweigh d l) = l_pruning l"
  "lc_block_count (l_cache (unweigh d l)) = lc_block_count (l_cache l)"
  "lc_account_count (l_cache (unweigh d l)) = lc_account_count (l_cache l)"
  "rep_get (weights_of (unweigh d l)) r = rep_get (weights_of l) r - d r"
  by (simp_all add: unweigh_def rep_get_def)

lemma weights_ok_cong:
  "(\<And>r. rep_get w r = rep_get w' r) \<Longrightarrow> weights_ok w accts = weights_ok w' accts"
  by (simp add: weights_ok_def)

lemma ledger_inv_cong:
  assumes "l_store l = l_store l'" "l_pruning l = l_pruning l'"
    "lc_block_count (l_cache l) = lc_block_count (l_cache l')"
    "lc_account_count (l_cache l) = lc_account_count (l_cache l')"
    "\<And>r. rep_get (weights_of l) r = rep_get (weights_of l') r"
  shows "ledger_inv c k rk rp T l = ledger_inv c k rk rp T l'"
  using assms weights_ok_cong [of "weights_of l" "weights_of l'"]
  by (simp add: ledger_inv_def tables_finite_def unpruned_def counts_ok_def)

lemma ledger_inv_unweigh_0: "ledger_inv c k rk rp T (unweigh (\<lambda>_. 0) l) = ledger_inv c k rk rp T l"
  by (rule ledger_inv_cong) simp_all

section \<open>The representative of a block\<close>

lemma representative_visit_keeps:
  "representative_visit c b = (if keeps_rep b then (block_previous b, 0) else (0, generate_hash c b))"
  by (cases b) (simp_all add: keeps_rep_def)

lemma representative_found:
  assumes l: "links_ok c k rk (blocks_of l)" and r: "reps_ok rp (blocks_of l)"
  shows "blocks_of l h \<noteq> None \<Longrightarrow> \<exists>n r e. representative_compute n c l h = Done r \<and> r \<noteq> 0 \<and>
    blocks_of l r = Some e \<and> block_representative (fst e) = rp h"
proof (induction "rk h" arbitrary: h rule: less_induct)
  case less
  then obtain e where e: "blocks_of l h = Some e" by auto
  note lk = links_okD [OF l e]
  have rp: "rep_ok rp h e" using r e by (simp add: reps_ok_def)
  show ?case
  proof (cases "keeps_rep (fst e)")
    case True
    then have "prev_of e \<noteq> 0" using lk by (auto simp: link_ok_def keeps_rep_def)
    with lk have "rk (prev_of e) < rk h" "blocks_of l (prev_of e) \<noteq> None"
      by (auto simp: link_ok_def)
    from less.hyps [OF this] obtain n r x where n: "representative_compute n c l (prev_of e) = Done r"
      "r \<noteq> 0" "blocks_of l r = Some x" "block_representative (fst x) = rp (prev_of e)" by blast
    have "representative_compute (Suc n) c l h = Done r"
      using n(1) e True by (simp add: representative_visit_keeps table_simps)
    with n rp True show ?thesis unfolding rep_ok_def by metis
  next
    case False
    have h: "generate_hash c (fst e) = h" "h \<noteq> 0" using lk by (simp_all add: link_ok_def)
    have "representative_compute (Suc 0) c l h = Done h"
      using e False h by (simp add: representative_visit_keeps table_simps)
    with e h rp False show ?thesis unfolding rep_ok_def by metis
  qed
qed

section \<open>Removing the head from the table\<close>

definition ungrow :: "block_table \<Rightarrow> block_hash \<Rightarrow> block_entry \<Rightarrow> block_table" where
  "ungrow bs h e = bs(h := None, prev_of e := map_option (with_successor 0) (bs (prev_of e)))"

text \<open>What is known of the head of an account.\<close>

lemma head_facts:
  assumes inv: "ledger_inv c k rk rp T l" and i: "accounts_of l a = Some i"
  obtains e where "blocks_of l (ai_head i) = Some e" "account_calculated e = a"
    "balance_calculated e = ai_balance i" "sb_height (snd e) = ai_block_count i"
    "entry_epoch e = ai_epoch i" "sb_successor (snd e) = 0" "rp (ai_head i) = ai_representative i"
    "link_ok c k rk (blocks_of l) (ai_head i) e"
proof -
  note v = ledger_invD [OF inv]
  from heads_okD [OF v(5) i] obtain e where e: "blocks_of l (ai_head i) = Some e"
    "account_calculated e = a" "balance_calculated e = ai_balance i"
    "sb_height (snd e) = ai_block_count i" "entry_epoch e = ai_epoch i" "sb_successor (snd e) = 0"
    "rp (ai_head i) = ai_representative i" by (auto simp: head_ok_def)
  with links_okD [OF v(3) e(1)] show thesis by (intro that)
qed

lemma head_prev:
  assumes "link_ok c k rk bs h e" and "prev_of e \<noteq> 0"
  obtains p where "bs (prev_of e) = Some p" "follows p e" "sb_successor (snd p) = h"
    "rk (prev_of e) < rk h"
  using assms by (auto simp: link_ok_def)

lemma ungrow_grow:
  assumes "links_ok c k rk bs" and "bs h = Some e" and "sb_successor (snd e) = 0"
  shows "grow_at (ungrow bs h e) h e" and "grow (ungrow bs h e) h e = bs"
proof -
  note lk = links_okD [OF assms(1,2)]
  have z: "bs 0 = None" by (rule links_zero [OF assms(1)])
  have h: "h \<noteq> 0" using lk by (simp add: link_ok_def)
  have ne: "prev_of e \<noteq> h"
  proof
    assume p: "prev_of e = h"
    then show False using lk h by (auto simp: link_ok_def)
  qed
  have p: "\<exists>p. bs (prev_of e) = Some p \<and> sb_successor (snd p) = h" if "prev_of e \<noteq> 0"
    using head_prev [OF lk that] by metis
  show g: "grow_at (ungrow bs h e) h e"
    using z h ne assms(3) by (auto simp: grow_at_def ungrow_def)
  show "grow (ungrow bs h e) h e = bs"
  proof
    fix x
    show "grow (ungrow bs h e) h e x = bs x"
    proof (cases "x = prev_of e \<and> x \<noteq> 0")
      case True
      with p obtain q where "bs x = Some q" "sb_successor (snd q) = h" by auto
      with True ne show ?thesis
        unfolding grow_apply [OF g] by (simp add: ungrow_def with_successor_same)
    next
      case False
      with z ne assms(2) show ?thesis
        unfolding grow_apply [OF g] by (auto simp: ungrow_def)
    qed
  qed
qed

text \<open>The information of the account after its head \<open>e\<close> is removed.\<close>

definition prev_info ::
  "(block_hash \<Rightarrow> account) \<Rightarrow> block_table \<Rightarrow> account_info \<Rightarrow> block_entry \<Rightarrow> u64 \<Rightarrow> account_info" where
  "prev_info rp bs i e t =
     \<lparr>ai_head = prev_of e, ai_representative = rp (prev_of e), ai_open_block = ai_open_block i,
      ai_balance = prev_balance bs e, ai_modified = t, ai_block_count = ai_block_count i - 1,
      ai_epoch = epoch_at bs (prev_of e)\<rparr>"

text \<open>How the pending table changes back.\<close>

definition unpend ::
  "block_table \<Rightarrow> (pending_key \<rightharpoonup> pending_info) \<Rightarrow> block_hash \<Rightarrow> block_entry \<Rightarrow>
     (pending_key \<rightharpoonup> pending_info) \<Rightarrow> bool" where
  "unpend bs pend h e pend0 \<longleftrightarrow>
     (case entry_sends e of
        Some d \<Rightarrow> pend (d, h) \<noteq> None \<and> pend0 = pend((d, h) := None)
      | None \<Rightarrow>
          (case entry_receives e of
             Some s \<Rightarrow>
               pend0 = pend((account_calculated e, s) \<mapsto>
                 \<lparr>pi_source = the (account_at bs s),
                  pi_amount = balance_calculated e - prev_balance bs e,
                  pi_epoch = entry_source_epoch e\<rparr>)
           | None \<Rightarrow> pend0 = pend))"

text \<open>Everything but the weights.\<close>

definition undone ::
  "(block_hash \<Rightarrow> account) \<Rightarrow> ledger \<Rightarrow> ledger \<Rightarrow> account \<Rightarrow> account_info \<Rightarrow> block_entry \<Rightarrow> u64 \<Rightarrow> bool" where
  "undone rp l l1 a i e t \<longleftrightarrow>
     blocks_of l1 = ungrow (blocks_of l) (ai_head i) e \<and>
     accounts_of l1 = (accounts_of l)
       (a := if prev_of e = 0 then None else Some (prev_info rp (blocks_of l) i e t)) \<and>
     unpend (blocks_of l) (pending_of l) (ai_head i) e (pending_of l1) \<and>
     frontiers_of l1 = (frontiers_of l)(ai_head i := None,
       prev_of e := (if legacy_at (blocks_of l) (prev_of e) then Some a else None)) \<and>
     heights_of l1 = heights_of l \<and> pruned_of l1 = pruned_of l \<and> l_pruning l1 = l_pruning l \<and>
     lc_block_count (l_cache l1) = lc_block_count (l_cache l) \<and>
     lc_account_count (l_cache l1) =
       lc_account_count (l_cache l) + (if prev_of e = 0 then - 1 else 0)"

section \<open>The invariant after the removal\<close>

lemma unpend_moves:
  assumes inv: "ledger_inv c k rk rp T l" and e: "blocks_of l h = Some e" "h \<noteq> genesis_hash c k"
    and s: "sb_successor (snd e) = 0" and u: "unpend (blocks_of l) (pending_of l) h e pend0"
  shows "moves k (ungrow (blocks_of l) h e) pend0 h e (pending_of l)"
    and "pend0 (d, h) = None"
proof -
  note v = ledger_invD [OF inv]
  let ?bs = "ungrow (blocks_of l) h e"
  note g = ungrow_grow [OF v(3) e(1) s]
  have ne: "prev_of e \<noteq> h" using g(1) by (simp add: grow_at_def)
  have pb: "prev_balance (blocks_of l) e = prev_balance ?bs e"
    using prev_balance_grow [OF g(1) ne] g(2) by simp
  have kd: "kind_ok k (blocks_of l) e = kind_ok k ?bs e"
    using kind_ok_grow(1) [OF g(1) ne] g(2) by simp
  have fl: "flow_ok k (genesis_hash c k) rk (blocks_of l) (pending_of l) h e"
    by (rule flow_okD [OF v(8) e])
  have at: "account_at (blocks_of l) h = Some (account_calculated e)"
    "sent_at (blocks_of l) h = prev_balance ?bs e - balance_calculated e"
    "epoch_at (blocks_of l) h = entry_epoch e" "sends_at (blocks_of l) h = entry_sends e"
    using e(1) pb by (simp_all add: account_at_def sent_at_def epoch_at_def sends_at_def)
  show "moves k ?bs pend0 h e (pending_of l)"
  proof (cases "entry_sends e")
    case (Some d)
    with u obtain p where p: "pending_of l (d, h) = Some p" "pend0 = (pending_of l)((d, h) := None)"
      by (auto simp: unpend_def)
    have "p = \<lparr>pi_source = account_calculated e, pi_amount = prev_balance ?bs e - balance_calculated e,
        pi_epoch = entry_epoch e\<rparr>"
      using pending_okD(2-4) [OF v(9) p(1)] at by simp
    with fl Some p kd pb show ?thesis by (simp add: moves_def flow_ok_def fun_upd_idem)
  next
    case sends: None
    show ?thesis
    proof (cases "entry_receives e")
      case None
      with fl u sends kd pb show ?thesis by (simp add: moves_def flow_ok_def unpend_def)
    next
      case (Some s)
      have rs: "receives_at (blocks_of l) (genesis_hash c k) h = Some s"
        using e Some sends by (simp add: receives_at_def)
      then have "pending_of l (account_calculated e, s) = None"
        using pending_okD(5) [OF v(9)] by (cases "pending_of l (account_calculated e, s)") auto
      moreover have "s \<noteq> h" using receives_source(2) [OF v(8) rs] by auto
      then have "account_at (blocks_of l) s = account_at ?bs s"
        using at_grow(1) [OF g(1), of s] g(2) by simp
      ultimately show ?thesis
        using fl u sends Some kd pb by (simp add: moves_def flow_ok_def unpend_def fun_upd_idem)
    qed
  qed
  show "pend0 (d, h) = None"
  proof (rule ccontr)
    assume "pend0 (d, h) \<noteq> None"
    with u have "pending_of l (d, h) \<noteq> None \<and> entry_sends e \<noteq> Some d \<or> entry_sends e = None \<and> entry_receives e = Some h"
      by (auto simp: unpend_def split: option.splits if_splits)
    moreover have "entry_sends e = Some d" if "pending_of l (d, h) \<noteq> None"
      using that pending_okD(1) [OF v(9), of d h] at by auto
    moreover have "entry_receives e \<noteq> Some h" if "entry_sends e = None"
      using fl that by (auto simp: flow_ok_def)
    ultimately show False by auto
  qed
qed

lemma undone_grows:
  assumes inv: "ledger_inv c k rk rp T (unweigh d' l)" and i: "accounts_of l a = Some i"
    and e: "blocks_of l (ai_head i) = Some e" and hg: "ai_head i \<noteq> genesis_hash c k"
    and un: "undone rp l l1 a i e t"
    and w: "\<And>r. rep_get (weights_of l1) r - d r = rep_get (weights_of l) r - d' r -
      (if ai_representative i = r then ai_balance i else 0) +
      (if prev_of e \<noteq> 0 \<and> rp (prev_of e) = r then prev_balance (blocks_of l) e else 0)"
  shows "grows k (unweigh d (cache_block_count_add l1 (- 1))) (unweigh d' l) (ai_head i) e a i"
proof -
  note v = ledger_invD [OF inv, simplified]
  from head_facts [OF inv, simplified, OF i] e have hd: "account_calculated e = a"
    "balance_calculated e = ai_balance i" "sb_height (snd e) = ai_block_count i"
    "entry_epoch e = ai_epoch i" "sb_successor (snd e) = 0"
    "link_ok c k rk (blocks_of l) (ai_head i) e" by auto
  note g = ungrow_grow [OF v(3) e hd(5)]
  have m: "moves k (ungrow (blocks_of l) (ai_head i) e) (pending_of l1) (ai_head i) e (pending_of l)"
    using unpend_moves(1) [OF inv, simplified, OF e hg hd(5)] un by (simp add: undone_def)
  have top: "prev_of e = 0 \<longrightarrow> ai_open_block i = ai_head i"
    using tops_okD [OF v(4) e] hd(1) i by (simp add: top_ok_def)
  have acc: "accounts_of l1 a = (if prev_of e = 0 then None else Some (prev_info rp (blocks_of l) i e t))"
    "(accounts_of l1)(a \<mapsto> i) = accounts_of l"
    using un i by (simp_all add: undone_def fun_upd_idem)
  have j: "joins (accounts_of l1) (ai_head i) e a i"
    using hd acc(1) top by (simp add: joins_def prev_info_def)
  have ht: "unat (sb_height (snd e)) = Suc (count_at (accounts_of l1) a)"
  proof (cases "prev_of e = 0")
    case True
    then show ?thesis using acc(1) hd(6) by (simp add: count_at_def link_ok_def)
  next
    case False
    from head_prev [OF hd(6) False] obtain p where "follows p e" .
    then have "unat (sb_height (snd e)) \<noteq> 0" by (simp add: follows_def)
    with hd(3) have nz: "ai_block_count i \<noteq> 0" by auto
    from unat_minus_one [OF nz] nz
    have "unat (ai_block_count i - 1) = unat (ai_block_count i) - 1" "unat (ai_block_count i) \<noteq> 0"
      by (simp_all add: unat_eq_0)
    then show ?thesis using False acc(1) hd(3) by (simp add: count_at_def prev_info_def)
  qed
  have rw: "reweighs (weights_of (unweigh d (cache_block_count_add l1 (- 1)))) (weights_of (unweigh d' l))
      (info_of (unweigh d (cache_block_count_add l1 (- 1))) a) i"
    unfolding reweighs_def using w acc(1)
    by (auto simp: cache_block_count_add_def info_of_def prev_info_def algebra_simps)
  show ?thesis
    unfolding grows_def using un g m acc j ht rw
    by (simp add: undone_def cache_block_count_add_def prev_info_def)
qed

lemma prev_info_head:
  assumes lk: "link_ok c k rk (blocks_of l) h e" and "prev_of e \<noteq> 0" and z: "prev_of e \<noteq> h"
    and "account_calculated e = a" and "sb_height (snd e) = ai_block_count i" and "ai_open_block i \<noteq> 0"
  shows "head_ok rp (ungrow (blocks_of l) h e) a (prev_info rp (blocks_of l) i e t)"
proof -
  from head_prev [OF lk assms(2)] obtain p where p: "blocks_of l (prev_of e) = Some p" "follows p e" .
  have "unat (sb_height (snd e)) = Suc (unat (sb_height (snd p)))" using p(2) by (simp add: follows_def)
  then have "unat (sb_height (snd p)) = unat (sb_height (snd e) - 1)"
    using unat_minus_one [of "sb_height (snd e)"] by fastforce
  then have "sb_height (snd p) = ai_block_count i - 1" using assms(5) by (intro word_eqI_unat) simp
  with p assms show ?thesis
    by (simp add: head_ok_def prev_info_def ungrow_def prev_balance_def epoch_at_def follows_def)
qed

lemma undone_inv:
  assumes inv: "ledger_inv c k rk rp T (unweigh d' l)" and i: "accounts_of l a = Some i"
    and e: "blocks_of l (ai_head i) = Some e"
    and cf: "\<not> confirmed_at (blocks_of l) (heights_of l) (ai_head i)"
    and un: "undone rp l l1 a i e t"
    and w: "\<And>r. rep_get (weights_of l1) r - d r = rep_get (weights_of l) r - d' r -
      (if ai_representative i = r then ai_balance i else 0) +
      (if prev_of e \<noteq> 0 \<and> rp (prev_of e) = r then prev_balance (blocks_of l) e else 0)"
  shows "ledger_inv c k rk rp T (unweigh d (cache_block_count_add l1 (- 1)))"
proof -
  note v = ledger_invD [OF inv, simplified]
  from head_facts [OF inv, simplified, OF i] e have hd: "account_calculated e = a"
    "sb_height (snd e) = ai_block_count i" "sb_successor (snd e) = 0"
    "link_ok c k rk (blocks_of l) (ai_head i) e" by auto
  have hg: "ai_head i \<noteq> genesis_hash c k" using cf v(12) by (auto simp: genesis_ok_def)
  note g = undone_grows [OF inv i e hg un w]
  have ne: "prev_of e \<noteq> ai_head i"
    using growsD(1) [OF g] by (simp add: grow_at_def)
  have op: "ai_open_block i \<noteq> 0" using heads_okD [OF v(5) i] by (simp add: head_ok_def)
  let ?l = "unweigh d (cache_block_count_add l1 (- 1))"
  have st: "l_store (cache_block_count_add l1 (- 1)) = l_store l1"
    by (simp add: cache_block_count_add_def)
  show ?thesis
  proof (rule inv_shrink [OF inv g])
    show "\<not> confirmed_at (blocks_of (unweigh d' l)) (heights_of (unweigh d' l)) (ai_head i)"
      using cf by simp
    show "pending_of ?l (x, ai_head i) = None" for x
      using unpend_moves(2) [OF inv, simplified, OF e hg hd(3)] un by (simp add: undone_def st)
    show "head_ok rp (blocks_of ?l) a j" if "accounts_of ?l a = Some j" for j
      using that un prev_info_head [OF hd(4) _ ne hd(1,2) op]
      by (auto simp: undone_def st split: if_splits)
    show "frontiers_of ?l = (frontiers_of (unweigh d' l))(ai_head i := None,
        prev_of e := if legacy_at (blocks_of ?l) (prev_of e) then Some a else None)"
      using un ne by (auto simp: undone_def legacy_at_def ungrow_def st split: option.splits)
  qed
qed

section \<open>What a rollback keeps\<close>

text \<open>
  Blocks up to the rank \<open>n\<close> stay, up to the successor field, and so do the accounts whose head
  is among them.
\<close>

definition kept :: "(block_hash \<Rightarrow> nat) \<Rightarrow> nat \<Rightarrow> ledger \<Rightarrow> ledger \<Rightarrow> bool" where
  "kept rk n l l1 \<longleftrightarrow>
     dom (blocks_of l1) \<subseteq> dom (blocks_of l) \<and> heights_of l1 = heights_of l \<and>
     (\<forall>x. rk x \<le> n \<longrightarrow> bview (blocks_of l1) x = bview (blocks_of l) x) \<and>
     (\<forall>a i. accounts_of l a = Some i \<longrightarrow> rk (ai_head i) \<le> n \<longrightarrow> accounts_of l1 a = Some i)"

lemma kept_refl [simp]: "kept rk n l l"
  by (simp add: kept_def)

lemma kept_trans: "kept rk n l l1 \<Longrightarrow> kept rk n l1 l2 \<Longrightarrow> kept rk n l l2"
  unfolding kept_def by (intro conjI; (elim conjE)?; (blast | simp))

lemma kept_le: "kept rk n l l1 \<Longrightarrow> m \<le> n \<Longrightarrow> kept rk m l l1"
  unfolding kept_def by (meson le_trans)

lemma kept_store: "l_store l1 = l_store l2 \<Longrightarrow> kept rk n l l1 = kept rk n l l2"
  "l_store l = l_store l' \<Longrightarrow> kept rk n l l1 = kept rk n l' l1"
  by (simp_all add: kept_def)

lemma undone_kept:
  assumes "undone rp l l1 a i e t" and "accounts_of l a = Some i" and "n < rk (ai_head i)"
  shows "kept rk n l (cache_block_count_add l1 (- 1))"
proof -
  have "bview (ungrow (blocks_of l) (ai_head i) e) x = bview (blocks_of l) x" if "rk x \<le> n" for x
  proof -
    have "x \<noteq> ai_head i" using that assms(3) by auto
    then show ?thesis
      by (cases "blocks_of l x") (auto simp: bview_def ungrow_def with_successor_def entry_view_def)
  qed
  moreover have "dom (ungrow (blocks_of l) (ai_head i) e) \<subseteq> dom (blocks_of l)"
    by (auto simp: ungrow_def split: if_splits)
  ultimately show ?thesis
    using assms by (auto simp: kept_def undone_def cache_block_count_add_def)
qed

lemma kept_entry:
  assumes "kept rk n l l1" and "blocks_of l x = Some e" and "rk x \<le> n"
  obtains e' where "blocks_of l1 x = Some e'" "entry_view e' = entry_view e"
proof -
  have "bview (blocks_of l1) x = Some (entry_view e)" using assms by (simp add: kept_def bview_apply)
  then show thesis using that by (auto simp: bview_apply)
qed

section \<open>The handlers\<close>

lemma successor_clear_with [table_simps]:
  "block_successor_clear m h = map_option (\<lambda>e. m(h \<mapsto> with_successor 0 e)) (m h)"
  by (auto simp: block_successor_clear_def with_successor_def split: option.splits)

lemmas rollback_ops [table_simps] =
  ledger_balance_def block_table_balance_def ledger_account_def block_table_account_def
  account_safe_def ledger_amount_def store_block_del_def block_del_def
  store_block_successor_clear_def store_account_del_def store_pending_del_def store_frontier_del_def

lemmas undone_defs = undone_def ungrow_def prev_info_def legacy_at_def

lemma head_common:
  assumes inv: "ledger_inv c k rk rp T (unweigh d l)" and i: "accounts_of l a = Some i"
    and e: "blocks_of l (ai_head i) = Some e"
  shows "generate_hash c (fst e) = ai_head i" "ai_head i \<noteq> 0" "prev_of e \<noteq> ai_head i"
    "account_calculated e = a" "balance_calculated e = ai_balance i"
    "rp (ai_head i) = ai_representative i" "a \<noteq> 0"
    "prev_of e = 0 \<Longrightarrow> block_type_of (fst e) = bt_open \<or> block_type_of (fst e) = bt_state"
    "keeps_rep (fst e) \<Longrightarrow> rp (prev_of e) = ai_representative i"
    "\<not> keeps_rep (fst e) \<Longrightarrow> block_representative (fst e) = ai_representative i"
    "blocks_of l 0 = None"
proof -
  note v = ledger_invD [OF inv, simplified]
  from head_facts [OF inv, simplified, OF i] e have hd: "account_calculated e = a"
    "balance_calculated e = ai_balance i" "rp (ai_head i) = ai_representative i"
    "sb_successor (snd e) = 0" "link_ok c k rk (blocks_of l) (ai_head i) e" by auto
  have rp: "rep_ok rp (ai_head i) e" using v(6) e by (simp add: reps_ok_def)
  show "generate_hash c (fst e) = ai_head i" "ai_head i \<noteq> 0" "account_calculated e = a"
    "balance_calculated e = ai_balance i" "rp (ai_head i) = ai_representative i" "a \<noteq> 0"
    "prev_of e = 0 \<Longrightarrow> block_type_of (fst e) = bt_open \<or> block_type_of (fst e) = bt_state"
    "keeps_rep (fst e) \<Longrightarrow> rp (prev_of e) = ai_representative i"
    "\<not> keeps_rep (fst e) \<Longrightarrow> block_representative (fst e) = ai_representative i"
    using hd rp by (auto simp: link_ok_def rep_ok_def)
  show "prev_of e \<noteq> ai_head i" using ungrow_grow(1) [OF v(3) e hd(4)] by (simp add: grow_at_def)
  show "blocks_of l 0 = None" by (rule links_zero [OF v(3)])
qed

text \<open>A legacy block at the head of an account.\<close>

lemma legacy_head:
  assumes inv: "ledger_inv c k rk rp T (unweigh d l)" and i: "accounts_of l a = Some i"
    and e: "blocks_of l (ai_head i) = Some e" and lg: "legacy (fst e)"
  shows "frontiers_of l (ai_head i) = Some a" and "ai_epoch i = epoch_0"
    and "prev_of e \<noteq> 0 \<Longrightarrow> \<exists>q. blocks_of l (prev_of e) = Some q \<and> legacy (fst q) \<and>
      prev_balance (blocks_of l) e = balance_calculated q \<and> epoch_at (blocks_of l) (prev_of e) = epoch_0 \<and>
      account_calculated q = a"
proof -
  note v = ledger_invD [OF inv, simplified]
  from head_facts [OF inv, simplified, OF i] e have hd: "entry_epoch e = ai_epoch i"
    "link_ok c k rk (blocks_of l) (ai_head i) e" "account_calculated e = a" by auto
  show "frontiers_of l (ai_head i) = Some a"
    using v(7) i e lg by (simp add: frontiers_ok_def legacy_at_def)
  show "ai_epoch i = epoch_0"
    using hd(1) lg by (auto simp: entry_epoch_def legacy_def split: block.splits)
  assume "prev_of e \<noteq> 0"
  from head_prev [OF hd(2) this] obtain q where "blocks_of l (prev_of e) = Some q" "follows q e" .
  with lg hd(3) show "\<exists>q. blocks_of l (prev_of e) = Some q \<and> legacy (fst q) \<and>
      prev_balance (blocks_of l) e = balance_calculated q \<and> epoch_at (blocks_of l) (prev_of e) = epoch_0 \<and>
      account_calculated q = a"
    by (auto simp: follows_def prev_balance_def epoch_at_def entry_epoch_def legacy_def split: block.splits)
qed

abbreviation weight_undone ::
  "(block_hash \<Rightarrow> account) \<Rightarrow> ledger \<Rightarrow> ledger \<Rightarrow> account_info \<Rightarrow> block_entry \<Rightarrow> bool" where
  "weight_undone rp l l1 i e \<equiv>
     \<forall>r. rep_get (weights_of l1) r = rep_get (weights_of l) r -
       (if ai_representative i = r then ai_balance i else 0) +
       (if prev_of e \<noteq> 0 \<and> rp (prev_of e) = r then prev_balance (blocks_of l) e else 0)"

lemma rollback_send_undone:
  assumes inv: "ledger_inv c k rk rp T (unweigh d l)" and i: "accounts_of l a = Some i"
    and e: "blocks_of l (ai_head i) = Some e" and b: "fst e = Send b"
    and p: "pending_of l (send_destination (send_h b), ai_head i) \<noteq> None"
  shows "\<exists>l1. rollback_send c now l b = Some l1 \<and> undone rp l l1 a i e (now (ai_head i)) \<and> weight_undone rp l l1 i e"
proof -
  note v = ledger_invD [OF inv, simplified]
  note hd = head_common [OF inv i e, unfolded b, simplified]
  have lg: "legacy (fst e)" "keeps_rep (Send b)" using b by (simp_all add: legacy_def keeps_rep_def)
  note L = legacy_head [OF inv i e lg(1), unfolded b, simplified]
  have pn: "send_previous (send_h b) \<noteq> 0" using hd(8) by auto
  from L(3) [OF pn] obtain q where q: "blocks_of l (send_previous (send_h b)) = Some q" "legacy (fst q)"
    "prev_balance (blocks_of l) e = balance_calculated q"
    "epoch_at (blocks_of l) (send_previous (send_h b)) = epoch_0"
    by auto
  from p obtain y where y: "pending_of l (send_destination (send_h b), ai_head i) = Some y" by auto
  have ys: "pi_source y = a" "pi_amount y = prev_balance (blocks_of l) e - ai_balance i"
    using pending_okD(2,3) [OF v(9) y] e hd by (simp_all add: account_at_def sent_at_def)
  show ?thesis
    using y ys i e L(1,2) q hd(1-3) hd(9) [OF lg(2)] pn b
    by (simp add: rollback_send_def table_simps update_account_def Let_def undone_defs unpend_def entry_sends_def)
qed

lemma rollback_receive_undone:
  assumes inv: "ledger_inv c k rk rp T (unweigh d l)" and i: "accounts_of l a = Some i"
    and e: "blocks_of l (ai_head i) = Some e" and b: "fst e = Receive b"
    and hg: "ai_head i \<noteq> genesis_hash c k"
  shows "\<exists>l1. rollback_receive c now l b = Some l1 \<and> undone rp l l1 a i e (now (ai_head i)) \<and> weight_undone rp l l1 i e"
proof -
  note v = ledger_invD [OF inv, simplified]
  note hd = head_common [OF inv i e, unfolded b, simplified]
  have lg: "legacy (fst e)" "keeps_rep (Receive b)" using b by (simp_all add: legacy_def keeps_rep_def)
  note L = legacy_head [OF inv i e lg(1), unfolded b, simplified]
  have pn: "receive_previous (receive_h b) \<noteq> 0" using hd(8) by auto
  from L(3) [OF pn] obtain q where q: "blocks_of l (receive_previous (receive_h b)) = Some q"
    "legacy (fst q)" "prev_balance (blocks_of l) e = balance_calculated q"
    "epoch_at (blocks_of l) (receive_previous (receive_h b)) = epoch_0"
    by auto
  from flow_okD [OF v(8) e hg] b have "pays (blocks_of l) e (receive_source (receive_h b))"
    "prev_balance (blocks_of l) e \<le> balance_calculated e"
    by (simp_all add: flow_ok_def entry_sends_def entry_receives_def)
  then obtain s where s: "blocks_of l (receive_source (receive_h b)) = Some s"
    and le: "balance_calculated q \<le> ai_balance i"
    using q(3) hd(5) by (auto simp: pays_def sends_at_def split: option.splits)
  have am: "amount_difference (ai_balance i) (balance_calculated q) = ai_balance i - balance_calculated q"
    using le by (auto simp: amount_difference_def)
  have pr: "\<not> l_pruning l" using v(2) by (simp add: unpruned_def)
  show ?thesis
    using i e L(1,2) q hd(1-5) hd(9) [OF lg(2)] pn b s am pr
    by (simp add: rollback_receive_def table_simps update_account_def Let_def undone_defs unpend_def entry_sends_def
        entry_receives_def entry_source_epoch_def account_at_def)
qed

lemma rollback_open_undone:
  assumes inv: "ledger_inv c k rk rp T (unweigh d l)" and i: "accounts_of l a = Some i"
    and e: "blocks_of l (ai_head i) = Some e" and b: "fst e = Open b"
    and hg: "ai_head i \<noteq> genesis_hash c k"
  shows "\<exists>l1. rollback_open c l b = Some l1 \<and> undone rp l l1 a i e (now (ai_head i)) \<and> weight_undone rp l l1 i e"
proof -
  note v = ledger_invD [OF inv, simplified]
  note hd = head_common [OF inv i e, unfolded b, simplified]
  have lg: "legacy (fst e)" "\<not> keeps_rep (Open b)" using b by (simp_all add: legacy_def keeps_rep_def)
  note L = legacy_head [OF inv i e lg(1), unfolded b, simplified]
  have pb: "prev_balance (blocks_of l) e = 0" using hd(11) b by (simp add: prev_balance_def)
  from flow_okD [OF v(8) e hg] b have "pays (blocks_of l) e (open_source (open_h b))"
    by (simp add: flow_ok_def entry_sends_def entry_receives_def)
  then obtain s where s: "blocks_of l (open_source (open_h b)) = Some s"
    by (auto simp: pays_def sends_at_def split: option.splits)
  have am: "amount_difference (ai_balance i) 0 = ai_balance i"
    by (auto simp: amount_difference_def word_gt_0)
  have pr: "\<not> l_pruning l" using v(2) by (simp add: unpruned_def)
  have f0: "frontiers_of l 0 = None"
    using hd(11) frontier_head [OF inv, simplified, of 0]
    by (cases "frontiers_of l 0") (auto simp: legacy_at_def)
  show ?thesis
    using i e L(1,2) hd(1-5) hd(10) [OF lg(2)] b s am pr pb hd(11) f0
    by (simp add: rollback_open_def table_simps update_account_def Let_def undone_defs unpend_def entry_sends_def
        entry_receives_def entry_source_epoch_def account_at_def fun_upd_twist fun_upd_idem)
qed

lemma rollback_change_undone:
  assumes inv: "ledger_inv c k rk rp T (unweigh d l)" and i: "accounts_of l a = Some i"
    and e: "blocks_of l (ai_head i) = Some e" and b: "fst e = Change b"
    and hg: "ai_head i \<noteq> genesis_hash c k"
    and r: "blocks_of l rb = Some x" "block_representative (fst x) = rp (prev_of e)"
  shows "\<exists>l1. rollback_change c now l b rb = Some l1 \<and> undone rp l l1 a i e (now (ai_head i)) \<and>
    weight_undone rp l l1 i e"
proof -
  note v = ledger_invD [OF inv, simplified]
  note hd = head_common [OF inv i e, unfolded b, simplified]
  have lg: "legacy (fst e)" "\<not> keeps_rep (Change b)" using b by (simp_all add: legacy_def keeps_rep_def)
  note L = legacy_head [OF inv i e lg(1), unfolded b, simplified]
  have pn: "change_previous (change_h b) \<noteq> 0" using hd(8) by auto
  from L(3) [OF pn] obtain q where q: "blocks_of l (change_previous (change_h b)) = Some q"
    "legacy (fst q)" "prev_balance (blocks_of l) e = balance_calculated q" "account_calculated q = a"
    "epoch_at (blocks_of l) (change_previous (change_h b)) = epoch_0"
    by auto
  from flow_okD [OF v(8) e hg] b have "balance_calculated q = ai_balance i"
    using q(3) hd(5) by (simp add: flow_ok_def entry_sends_def entry_receives_def)
  then show ?thesis
    using i e L(1,2) q hd(1-5) hd(10) [OF lg(2)] pn b r
    by (simp add: rollback_change_def table_simps update_account_def Let_def undone_defs unpend_def entry_sends_def
        entry_receives_def)
qed

section \<open>State blocks\<close>

text \<open>The difference of the weights that a state block makes before its receivers are rolled back.\<close>

definition state_shift ::
  "(block_hash \<Rightarrow> account) \<Rightarrow> block_table \<Rightarrow> account_info \<Rightarrow> block_entry \<Rightarrow> account \<Rightarrow> amount" where
  "state_shift rp bs i e r =
     (if prev_of e \<noteq> 0 \<and> rp (prev_of e) = r then prev_balance bs e else 0) -
     (if ai_representative i = r then ai_balance i else 0)"

lemma state_prev:
  assumes inv: "ledger_inv c k rk rp T (unweigh d l)" and i: "accounts_of l a = Some i"
    and e: "blocks_of l (ai_head i) = Some e"
  shows "ledger_balance l (prev_of e) = Some (prev_balance (blocks_of l) e)"
    and "block_version (blocks_of l) (prev_of e) = epoch_at (blocks_of l) (prev_of e)"
proof -
  note hd = head_common [OF inv i e]
  from head_facts [OF inv, simplified, OF i] e have lk: "link_ok c k rk (blocks_of l) (ai_head i) e" by auto
  show "ledger_balance l (prev_of e) = Some (prev_balance (blocks_of l) e)"
    using lk hd(11) by (auto simp: link_ok_def ledger_balance_def block_table_balance_def prev_balance_def
        split: if_splits)
  show "block_version (blocks_of l) (prev_of e) = epoch_at (blocks_of l) (prev_of e)"
    by (auto simp: block_version_def epoch_at_def entry_epoch_def split: option.splits block.splits)
qed

lemma rollback_state_weights_shift:
  assumes inv: "ledger_inv c k rk rp T (unweigh d l)" and i: "accounts_of l a = Some i"
    and e: "blocks_of l (ai_head i) = Some e" and b: "fst e = State b"
    and r: "if prev_of e = 0 then rb = 0
      else rb \<noteq> 0 \<and> (\<exists>x. blocks_of l rb = Some x \<and> block_representative (fst x) = rp (prev_of e))"
  shows "\<exists>l1. rollback_state_weights l b rb = Some (l1, prev_balance (blocks_of l) e,
      if prev_of e = 0 then 0 else rp (prev_of e)) \<and> l_store l1 = l_store l \<and>
    (\<forall>d. unweigh (\<lambda>r. d r + state_shift rp (blocks_of l) i e r) l1 = unweigh d l)"
proof -
  note hd = head_common [OF inv i e, unfolded b, simplified]
  note bal = state_prev(1) [OF inv i e, unfolded b, simplified]
  have rep: "state_representative (state_h b) = ai_representative i"
    using hd(10) by (simp add: keeps_rep_def)
  have pb: "prev_of e = 0 \<Longrightarrow> prev_balance (blocks_of l) e = 0"
    using hd(11) by (simp add: prev_balance_def)
  show ?thesis
  proof (cases "prev_of e = 0")
    case True
    with r bal rep hd(5) b pb show ?thesis
      by (auto simp: rollback_state_weights_def Let_def table_simps unweigh_def state_shift_def
          balance_calculated_def fun_eq_iff)
  next
    case False
    with r bal rep hd(5) b show ?thesis
      by (auto simp: rollback_state_weights_def Let_def table_simps unweigh_def state_shift_def
          balance_calculated_def fun_eq_iff)
  qed
qed

lemma type_less_state: "block_type_of b < bt_state \<longleftrightarrow> legacy b"
  by (cases b) (simp_all add: legacy_def less_block_type_def)

lemma frontier_none:
  assumes "ledger_inv c k rk rp T (unweigh d l)" and "\<not> legacy_at (blocks_of l) x"
  shows "frontiers_of l x = None"
  using ledger_invD(7) [OF assms(1), simplified] assms(2)
  by (cases "frontiers_of l x") (auto simp: frontiers_ok_def)

lemma rollback_state_undone:
  assumes inv: "ledger_inv c k rk rp T (unweigh d l)" and i: "accounts_of l a = Some i"
    and e: "blocks_of l (ai_head i) = Some e" and b: "fst e = State b"
    and hg: "ai_head i \<noteq> genesis_hash c k"
    and p: "entry_sends e \<noteq> None \<Longrightarrow> pending_of l (state_link (state_h b), ai_head i) \<noteq> None"
    and rep: "prev_of e \<noteq> 0 \<Longrightarrow> representative = rp (prev_of e)"
  shows "\<exists>l1. rollback_state c k now l b (snd e) (prev_balance (blocks_of l) e) representative i = Some l1 \<and>
    undone rp l l1 a i e (now (ai_head i)) \<and> weights_of l1 = weights_of l"
proof -
  note v = ledger_invD [OF inv, simplified]
  note hd = head_common [OF inv i e, unfolded b, simplified]
  from head_facts [OF inv, simplified, OF i] e have lk: "link_ok c k rk (blocks_of l) (ai_head i) e" by auto
  have fl: "flow_ok k (genesis_hash c k) rk (blocks_of l) (pending_of l) (ai_head i) e"
    by (rule flow_okD [OF v(8) e hg])
  let ?h = "state_h b"
  have sd: "entry_sends e = (if state_balance ?h < prev_balance (blocks_of l) e then Some (state_link ?h) else None)"
    and rc: "\<not> state_balance ?h < prev_balance (blocks_of l) e \<Longrightarrow> entry_receives e =
      (if state_link ?h \<noteq> 0 \<and> \<not> is_epoch_link k (state_link ?h) then Some (state_link ?h) else None)"
    using fl b by (auto simp: flow_ok_def kind_ok_def entry_sends_def entry_receives_def
        balance_calculated_def)
  have acc: "state_account ?h = a"
    using hd(4) b lk by (auto simp: account_calculated_def link_ok_def Let_def legacy_def split: if_splits)
  have sn: "account_safe l (state_link ?h) False = Some (the (account_at (blocks_of l) (state_link ?h)), False)"
    if "\<not> state_balance ?h < prev_balance (blocks_of l) e" "state_link ?h \<noteq> 0"
      "\<not> is_epoch_link k (state_link ?h)"
  proof -
    have "pays (blocks_of l) e (state_link ?h)" using fl sd rc that by (simp add: flow_ok_def)
    with v(2) show ?thesis
      by (auto simp: pays_def sends_at_def account_safe_def block_table_account_def account_at_def
          unpruned_def split: option.splits)
  qed
  define pend where "pend = (if state_balance ?h < prev_balance (blocks_of l) e
      then (pending_of l)((state_link ?h, ai_head i) := None)
      else if state_link ?h \<noteq> 0 \<and> \<not> is_epoch_link k (state_link ?h)
      then (pending_of l)((a, state_link ?h) \<mapsto> \<lparr>pi_source = the (account_at (blocks_of l) (state_link ?h)),
        pi_amount = state_balance ?h - prev_balance (blocks_of l) e,
        pi_epoch = sb_source_epoch (snd e)\<rparr>)
      else pending_of l)"
  let ?l = "l\<lparr>l_store := (l_store l)\<lparr>st_pending := pend\<rparr>\<rparr>"
  have step: "(if state_balance ?h < prev_balance (blocks_of l) e
       then store_pending_del l (state_link ?h, ai_head i)
       else if state_link ?h \<noteq> 0 \<and> \<not> is_epoch_link k (state_link ?h) then
         do { (source_account, is_pruned) \<leftarrow> account_safe l (state_link ?h) False;
              Some (store_pending_put l (state_account ?h, state_link ?h)
                \<lparr>pi_source = source_account, pi_amount = state_balance ?h - prev_balance (blocks_of l) e,
                 pi_epoch = sb_source_epoch (snd e)\<rparr>) }
       else Some l) = Some ?l"
    using p sd sn acc by (auto simp: pend_def store_pending_del_def store_pending_put_def)
  have up: "unpend (blocks_of l) (pending_of l) (ai_head i) e pend"
    using sd rc p hd(4,5) b
    by (auto simp: unpend_def pend_def entry_source_epoch_def balance_calculated_def)
  have fr0: "frontiers_of l (ai_head i) = None"
    using e b frontier_none [OF inv, of "ai_head i"] by (simp add: legacy_at_def legacy_def)
  have fr: "frontiers_of l 0 = None" using hd(11) frontier_none [OF inv, of 0] by (simp add: legacy_at_def)
  show ?thesis
  proof (cases "prev_of e = 0")
    case True
    then show ?thesis
      using b hd(1,2) i e up hd(11) acc fr0 fr
      unfolding rollback_state_def Let_def hd(1) step
      by (simp add: update_account_def table_simps undone_defs Let_def fun_upd_idem)
  next
    case False
    from head_prev [OF lk False] obtain q where "blocks_of l (prev_of e) = Some q" .
    with b have q: "blocks_of l (state_previous ?h) = Some q" by simp
    from q state_prev(2) [OF inv i e] b have ver: "block_version (blocks_of l) (state_previous ?h) = entry_epoch q"
      "epoch_at (blocks_of l) (state_previous ?h) = entry_epoch q" by (simp_all add: epoch_at_def)
    show ?thesis
    proof (cases "legacy (fst q)")
      case True
      then show ?thesis
        using b hd(1-3) i e up False acc fr0 q rep ver
        unfolding rollback_state_def Let_def hd(1) step
        by (simp add: update_account_def table_simps undone_defs Let_def type_less_state fun_upd_twist
            fun_upd_idem)
    next
      case nl: False
      then have "frontiers_of l (state_previous ?h) = None"
        using q frontier_none [OF inv] by (simp add: legacy_at_def)
      then show ?thesis
        using b hd(1-3) i e up False acc fr0 q rep ver nl
        unfolding rollback_state_def Let_def hd(1) step
        by (simp add: update_account_def table_simps undone_defs Let_def type_less_state fun_upd_twist
            fun_upd_idem)
    qed
  qed
qed

end
