(* ===== verification/Rollback_Correct.thy ===== *)
theory Rollback_Correct
  imports Rollback_Step
begin

text \<open>
  \<^verbatim>\<open>ledger::rollback\<close> is correct and terminates: a block that is not confirmed is removed, with
  every block that depends on it, the ledger keeps its invariant, and the returned list holds
  exactly the blocks that were removed.  The nested rollbacks are of blocks with a greater rank,
  which bounds their depth; each loop removes a block in every round.
\<close>

section \<open>The blocks that are removed\<close>

definition hashes :: "crypto \<Rightarrow> rollback_list \<Rightarrow> block_hash list" where
  "hashes c ls = map (\<lambda>b. generate_hash c (fst b)) ls"

lemma hashes_simps [simp]:
  "hashes c [] = []" "hashes c (b # ls) = generate_hash c (fst b) # hashes c ls"
  "hashes c (ls @ ls') = hashes c ls @ hashes c ls'"
  by (simp_all add: hashes_def)

definition listed :: "crypto \<Rightarrow> ledger \<Rightarrow> ledger \<Rightarrow> rollback_list \<Rightarrow> bool" where
  "listed c l l' new \<longleftrightarrow>
     distinct (hashes c new) \<and> set (hashes c new) = dom (blocks_of l) - dom (blocks_of l') \<and>
     (\<forall>x. blocks_of l' x \<noteq> None \<longrightarrow> bview (blocks_of l') x = bview (blocks_of l) x) \<and>
     heights_of l' = heights_of l"

lemma listed_dom: "listed c l l' new \<Longrightarrow> dom (blocks_of l') \<subseteq> dom (blocks_of l)"
proof
  fix x assume "listed c l l' new" and "x \<in> dom (blocks_of l')"
  then have "bview (blocks_of l') x = bview (blocks_of l) x" "blocks_of l' x \<noteq> None"
    by (auto simp: listed_def)
  then show "x \<in> dom (blocks_of l)" by (metis bview_None domIff)
qed

lemma listed_psubset:
  assumes "listed c l l' new" and "blocks_of l h \<noteq> None" and "blocks_of l' h = None"
  shows "dom (blocks_of l') \<subset> dom (blocks_of l)"
  using listed_dom [OF assms(1)] assms(2,3) by blast

lemma listed_Nil [simp]: "listed c l l []"
  by (simp add: listed_def)

lemma listed_append:
  assumes "listed c l l1 new" and "listed c l1 l2 new'"
  shows "listed c l l2 (new @ new')"
proof -
  note d = listed_dom [OF assms(1)] listed_dom [OF assms(2)]
  have "bview (blocks_of l2) x = bview (blocks_of l) x" if "blocks_of l2 x \<noteq> None" for x
  proof -
    have "blocks_of l1 x \<noteq> None" using that d(2) by auto
    with that assms show ?thesis by (simp add: listed_def)
  qed
  moreover have "set (hashes c (new @ new')) = dom (blocks_of l) - dom (blocks_of l2)"
    "distinct (hashes c (new @ new'))"
    using assms d unfolding listed_def by auto
  ultimately show ?thesis using assms by (simp add: listed_def)
qed

lemma listed_last:
  assumes "listed c l l1 new" and "blocks_of l1 h \<noteq> None" and "generate_hash c (fst b) = h"
    and d: "dom (blocks_of l2) = dom (blocks_of l1) - {h}"
    and v: "\<And>x. x \<noteq> h \<Longrightarrow> bview (blocks_of l2) x = bview (blocks_of l1) x" and "heights_of l2 = heights_of l1"
  shows "listed c l l2 (b # new)"
proof -
  have "bview (blocks_of l2) x = bview (blocks_of l) x" if "blocks_of l2 x \<noteq> None" for x
    using that d v [of x] assms(1) unfolding listed_def by (metis Diff_iff domIff singletonI)
  moreover have "blocks_of l h \<noteq> None" using listed_dom [OF assms(1)] assms(2) by auto
  ultimately show ?thesis using assms(1-4,6) unfolding listed_def by auto
qed

definition rolled ::
  "crypto \<Rightarrow> ledger_constants \<Rightarrow> (block_hash \<Rightarrow> nat) \<Rightarrow> (block_hash \<Rightarrow> account) \<Rightarrow> nat \<Rightarrow> (account \<Rightarrow> amount) \<Rightarrow>
     ledger \<Rightarrow> block_hash \<Rightarrow> ledger \<Rightarrow> rollback_list \<Rightarrow> bool" where
  "rolled c k rk rp T d l t l' new \<longleftrightarrow>
     ledger_inv c k rk rp T (unweigh d l') \<and> blocks_of l' t = None \<and>
     (\<forall>m < rk t. kept rk m l l') \<and> listed c l l' new"

abbreviation unconfirmed :: "ledger \<Rightarrow> block_hash \<Rightarrow> bool" where
  "unconfirmed l h \<equiv> \<not> confirmed_at (blocks_of l) (heights_of l) h"

text \<open>The nested rollbacks that a loop may call: of blocks above the rank \<open>m\<close>.\<close>

definition nested_ok ::
  "crypto \<Rightarrow> ledger_constants \<Rightarrow> (block_hash \<Rightarrow> nat) \<Rightarrow> (block_hash \<Rightarrow> account) \<Rightarrow> nat \<Rightarrow> (block_hash \<Rightarrow> u64) \<Rightarrow>
     nat \<Rightarrow> nat \<Rightarrow> bool" where
  "nested_ok c k rk rp T now B m \<longleftrightarrow>
     (\<forall>t d l ls. m < rk t \<longrightarrow> rk ` dom (blocks_of l) \<subseteq> {..B} \<longrightarrow>
        ledger_inv c k rk rp T (unweigh d l) \<longrightarrow> blocks_of l t \<noteq> None \<longrightarrow> unconfirmed l t \<longrightarrow>
        (\<exists>n l' new. rollback n c k now l t ls = Done (False, l', ls @ new) \<and>
           rolled c k rk rp T d l t l' new))"

lemma nested_okD:
  assumes "nested_ok c k rk rp T now B m" and "m < rk t" and "rk ` dom (blocks_of l) \<subseteq> {..B}"
    and "ledger_inv c k rk rp T (unweigh d l)" and "blocks_of l t \<noteq> None" and "unconfirmed l t"
  obtains n l' new where "rollback n c k now l t ls = Done (False, l', ls @ new)"
    "rolled c k rk rp T d l t l' new"
  using assms unfolding nested_ok_def by meson

lemma nested_ok_le: "nested_ok c k rk rp T now B m \<Longrightarrow> m \<le> m' \<Longrightarrow> nested_ok c k rk rp T now B m'"
  unfolding nested_ok_def by (meson le_less_trans)

section \<open>The head of the account of a block\<close>

lemma confirmed_view:
  assumes "entry_view e' = entry_view e" and "bs x = Some e" and "bs' x = Some e'"
  shows "confirmed_at bs' ht x = confirmed_at bs ht x"
  using assms entry_view_eq [OF assms(1)] by (simp add: confirmed_at_def)

lemma head_above:
  assumes inv: "ledger_inv c k rk rp T l" and x: "blocks_of l x = Some e" and un: "unconfirmed l x"
  obtains i where "accounts_of l (account_calculated e) = Some i" "unconfirmed l (ai_head i)"
    "x = ai_head i \<or> rk x < rk (ai_head i)"
proof -
  note v = ledger_invD [OF inv]
  from tops_okD [OF v(4) x] obtain i where i: "accounts_of l (account_calculated e) = Some i"
    by (auto elim: top_okE)
  from head_facts [OF inv i] obtain t where t: "blocks_of l (ai_head i) = Some t"
    "account_calculated t = account_calculated e" by metis
  have fin: "finite (dom (blocks_of l))" using v(1) by (simp add: tables_finite_def)
  from chain_top [OF fin v(3,4) x i] have c: "x = ai_head i \<or> rk x < rk (ai_head i)"
    and "sb_height (snd e) \<le> sb_height (snd t)"
    using t(1) x by (auto simp: word_le_nat_alt)
  with un x t have "unconfirmed l (ai_head i)" by (auto simp: confirmed_at_def)
  with i c show thesis by (intro that)
qed

section \<open>The receivers of a send block\<close>

lemma entry_view_sends: "entry_view e' = entry_view e \<Longrightarrow> entry_sends e' = entry_sends e"
  using entry_view_eq [of e' e] by (simp add: entry_sends_def split: block.splits)

lemma until_done:
  assumes nest: "nested_ok c k rk rp T now B (rk h)" and B: "rk ` dom (blocks_of l) \<subseteq> {..B}"
    and inv: "ledger_inv c k rk rp T (unweigh d l)" and h: "blocks_of l h = Some e"
    and s: "entry_sends e = Some x" and un: "unconfirmed l h"
    and found: "\<And>l. finite (dom (pending_of l)) \<Longrightarrow> found l \<longleftrightarrow> pending_of l (x, h) \<noteq> None"
  shows "\<exists>n l' new. rollback_until n (rollback n c k now) found x l ls = Done (False, l', ls @ new) \<and>
    ledger_inv c k rk rp T (unweigh d l') \<and> pending_of l' (x, h) \<noteq> None \<and> kept rk (rk h) l l' \<and>
    listed c l l' new"
  using B inv h s un
proof (induction "card (dom (blocks_of l))" arbitrary: l e ls rule: less_induct)
  case less
  note v = ledger_invD [OF less.prems(2), simplified]
  have fin: "finite (dom (blocks_of l))" "finite (dom (pending_of l))"
    using v(1) by (simp_all add: tables_finite_def)
  show ?case
  proof (cases "pending_of l (x, h) = None")
    case False
    then have "rollback_until (Suc 0) (rollback (Suc 0) c k now) found x l ls = Done (False, l, ls @ [])"
      using found [OF fin(2)] by simp
    with False less.prems(2) show ?thesis by (metis kept_refl listed_Nil)
  next
    case True
    have "h \<noteq> genesis_hash c k" using less.prems(5) v(12) by (auto simp: genesis_ok_def)
    from flow_okD [OF v(8) less.prems(3) this] True less.prems(4)
    obtain r where r: "receives_at (blocks_of l) (genesis_hash c k) r = Some h"
      "account_at (blocks_of l) r = Some x" by (auto simp: flow_ok_def received_def)
    then obtain er where er: "blocks_of l r = Some er" "account_calculated er = x"
      by (auto simp: account_at_def)
    have rk: "rk h < rk r" by (rule receives_source(2) [OF v(8) r(1)])
    have "unconfirmed l r" using v(11) r(1) less.prems(5) by (auto simp: conf_ok_def)
    from head_above [OF less.prems(2), simplified, OF er(1) this] er(2) obtain i where
      i: "accounts_of l x = Some i" "unconfirmed l (ai_head i)" "r = ai_head i \<or> rk r < rk (ai_head i)"
      by metis
    from head_facts [OF less.prems(2), simplified, OF i(1)]
    have t: "blocks_of l (ai_head i) \<noteq> None" by auto
    have lt: "rk h < rk (ai_head i)" using i(3) rk by auto
    from nested_okD [OF nest lt less.prems(1,2) t i(2)] obtain n1 l1 new1 where
      n1: "rollback n1 c k now l (ai_head i) ls = Done (False, l1, ls @ new1)"
      and r1: "rolled c k rk rp T d l (ai_head i) l1 new1" by blast
    have inv1: "ledger_inv c k rk rp T (unweigh d l1)" and k1: "kept rk (rk h) l l1"
      and li1: "listed c l l1 new1" and g1: "blocks_of l1 (ai_head i) = None"
      using r1 lt by (auto simp: rolled_def)
    have sub: "dom (blocks_of l1) \<subset> dom (blocks_of l)"
      using li1 t g1 by (intro listed_psubset)
    from kept_entry [OF k1 less.prems(3)] obtain e1 where
      e1: "blocks_of l1 h = Some e1" "entry_view e1 = entry_view e" by auto
    have un1: "unconfirmed l1 h"
      using less.prems(5) confirmed_view [of e1 e "blocks_of l" h "blocks_of l1"] less.prems(3) e1 k1
      by (simp add: kept_def)
    have "rk ` dom (blocks_of l1) \<subseteq> {..B}" using less.prems(1) sub by blast
    from less.hyps [OF psubset_card_mono [OF fin(1) sub] this inv1 e1(1) _ un1, of "ls @ new1"]
      entry_view_sends [OF e1(2)] less.prems(4)
    obtain n2 l2 new2 where
      n2: "rollback_until n2 (rollback n2 c k now) found x l1 (ls @ new1) = Done (False, l2, (ls @ new1) @ new2)"
      and l2: "ledger_inv c k rk rp T (unweigh d l2)" "pending_of l2 (x, h) \<noteq> None" "kept rk (rk h) l1 l2"
        "listed c l1 l2 new2" by auto
    define m where "m = max n1 n2"
    have "rollback (Suc m) c k now l (ai_head i) ls = Done (False, l1, ls @ new1)"
      by (rule rollback_more [OF n1]) (simp add: m_def)
    moreover have "rollback_until m (rollback (Suc m) c k now) found x l1 (ls @ new1) =
        Done (False, l2, (ls @ new1) @ new2)"
      using rollback_until_mono [OF rollback_mono, of n2 "Suc m" n2 m c k now found x l1 "ls @ new1"] n2
      by (simp add: m_def run_le_Done)
    ultimately have "rollback_until (Suc m) (rollback (Suc m) c k now) found x l ls =
        Done (False, l2, ls @ (new1 @ new2))"
      using found [OF fin(2)] True i(1) by (simp add: latest_def store_account_get_def)
    with l2 kept_trans [OF k1 l2(3)] listed_append [OF li1 l2(4)] show ?thesis by blast
  qed
qed

section \<open>One visit\<close>

text \<open>What the visitor achieves at the head \<open>e\<close> of an account; the caller then counts the block.\<close>

definition visited ::
  "crypto \<Rightarrow> ledger_constants \<Rightarrow> (block_hash \<Rightarrow> nat) \<Rightarrow> (block_hash \<Rightarrow> account) \<Rightarrow> nat \<Rightarrow> (block_hash \<Rightarrow> u64) \<Rightarrow>
     (account \<Rightarrow> amount) \<Rightarrow> ledger \<Rightarrow> block_hash \<Rightarrow> block_entry \<Rightarrow> rollback_list \<Rightarrow> bool" where
  "visited c k rk rp T now d l h e ls \<longleftrightarrow>
     (\<exists>n l1 new. rollback_visit n (rollback n c k now) c k now l e ls = Done (False, l1, ls @ new) \<and>
        rolled c k rk rp T d l h (cache_block_count_add l1 (- 1)) (e # new))"

lemma undone_rolled:
  assumes inv: "ledger_inv c k rk rp T (unweigh d' l')" and i: "accounts_of l' a = Some i"
    and e: "blocks_of l' (ai_head i) = Some e" and un: "unconfirmed l' (ai_head i)"
    and u: "undone rp l' l1 a i e t"
    and w: "\<And>r. rep_get (weights_of l1) r - d r = rep_get (weights_of l') r - d' r -
      (if ai_representative i = r then ai_balance i else 0) +
      (if prev_of e \<noteq> 0 \<and> rp (prev_of e) = r then prev_balance (blocks_of l') e else 0)"
    and k: "kept rk (rk (ai_head i)) l l'" and li: "listed c l l' new" and b: "fst e0 = fst e"
  shows "rolled c k rk rp T d l (ai_head i) (cache_block_count_add l1 (- 1)) (e0 # new)"
proof -
  let ?l = "cache_block_count_add l1 (- 1)"
  have st: "l_store ?l = l_store l1" by (simp add: cache_block_count_add_def)
  note hd = head_common [OF inv i e]
  have bl: "blocks_of l1 = ungrow (blocks_of l') (ai_head i) e" using u by (simp add: undone_def)
  have dm: "dom (blocks_of ?l) = dom (blocks_of l') - {ai_head i}"
    using hd(3) by (auto simp: st bl ungrow_def split: if_splits)
  have "ledger_inv c k rk rp T (unweigh d ?l)" by (rule undone_inv [OF inv i e un u w])
  moreover have "kept rk m l ?l" if "m < rk (ai_head i)" for m
    using kept_trans [OF kept_le [OF k] undone_kept [OF u i, where rk = rk and n = m]] that by simp
  moreover have "listed c l ?l (e0 # new)"
  proof (rule listed_last [OF li _ _ dm])
    show "bview (blocks_of ?l) x = bview (blocks_of l') x" if "x \<noteq> ai_head i" for x
      using that unfolding st bl
      by (cases "blocks_of l' x") (auto simp: bview_def ungrow_def with_successor_def entry_view_def)
    show "heights_of ?l = heights_of l'" using u by (simp add: st undone_def)
  qed (use e hd(1) b in auto)
  moreover have "blocks_of ?l (ai_head i) = None" using dm by blast
  ultimately show ?thesis by (simp add: rolled_def)
qed

text \<open>A visit without nested rollbacks.\<close>

lemma visited_direct:
  assumes inv: "ledger_inv c k rk rp T (unweigh d l)" and i: "accounts_of l a = Some i"
    and e: "blocks_of l (ai_head i) = Some e" and un: "unconfirmed l (ai_head i)"
    and u: "undone rp l l1 a i e t" and w: "weight_undone rp l l1 i e"
    and run: "rollback_visit n (rollback n c k now) c k now l e ls = Done (False, l1, ls)"
  shows "visited c k rk rp T now d l (ai_head i) e ls"
proof -
  have "rolled c k rk rp T d l (ai_head i) (cache_block_count_add l1 (- 1)) (e # [])"
    by (rule undone_rolled [OF inv i e un u]) (use w in \<open>simp_all add: algebra_simps\<close>)
  with run show ?thesis unfolding visited_def by (metis append_Nil2)
qed

text \<open>The ledger after the receivers of the head are rolled back.\<close>

lemma kept_head:
  assumes inv: "ledger_inv c k rk rp T (unweigh d l)" and inv': "ledger_inv c k rk rp T (unweigh d' l')"
    and i: "accounts_of l a = Some i" and e: "blocks_of l (ai_head i) = Some e"
    and un: "unconfirmed l (ai_head i)" and k: "kept rk (rk (ai_head i)) l l'"
  shows "accounts_of l' a = Some i" "blocks_of l' (ai_head i) = Some e" "unconfirmed l' (ai_head i)"
    "prev_balance (blocks_of l') e = prev_balance (blocks_of l) e"
proof -
  show i': "accounts_of l' a = Some i" using k i by (simp add: kept_def)
  from kept_entry [OF k e] obtain e' where e': "blocks_of l' (ai_head i) = Some e'"
    "entry_view e' = entry_view e" by auto
  have "sb_successor (snd e) = 0" "sb_successor (snd e') = 0"
    using head_facts [OF inv, simplified, OF i] head_facts [OF inv', simplified, OF i'] e e'(1) by auto
  with e'(2) have "e' = e"
    by (metis entry_view_def prod.collapse with_successor_def with_successor_same)
  with e' show e2: "blocks_of l' (ai_head i) = Some e" by simp
  with un e k show "unconfirmed l' (ai_head i)" by (simp add: confirmed_at_def kept_def)
  from head_facts [OF inv, simplified, OF i] e have lk: "link_ok c k rk (blocks_of l) (ai_head i) e" by auto
  show "prev_balance (blocks_of l') e = prev_balance (blocks_of l) e"
  proof (cases "prev_of e = 0")
    case True
    then show ?thesis
      using head_common(11) [OF inv i e] head_common(11) [OF inv' i' e2] by (simp add: prev_balance_def)
  next
    case False
    from head_prev [OF lk False] obtain p where p: "blocks_of l (prev_of e) = Some p"
      "rk (prev_of e) < rk (ai_head i)" .
    then have "bview (blocks_of l') (prev_of e) = bview (blocks_of l) (prev_of e)"
      using k by (simp add: kept_def)
    with p(1) obtain p' where "blocks_of l' (prev_of e) = Some p'" "entry_view p' = entry_view p"
      by (auto simp: bview_apply)
    with p(1) entry_view_eq(3) [of p' p] show ?thesis by (simp add: prev_balance_def)
  qed
qed

lemma visited_send:
  assumes nest: "nested_ok c k rk rp T now B (rk (ai_head i))" and B: "rk ` dom (blocks_of l) \<subseteq> {..B}"
    and inv: "ledger_inv c k rk rp T (unweigh d l)" and i: "accounts_of l a = Some i"
    and e: "blocks_of l (ai_head i) = Some e" and un: "unconfirmed l (ai_head i)" and b: "fst e = Send b"
  shows "visited c k rk rp T now d l (ai_head i) e ls"
proof -
  let ?x = "send_destination (send_h b)"
  have hash: "generate_hash c (Send b) = ai_head i" using head_common(1) [OF inv i e] b by simp
  have s: "entry_sends e = Some ?x" using b by (simp add: entry_sends_def)
  from until_done [OF nest B inv e s un, of "\<lambda>l. store_pending_get l (?x, ai_head i) \<noteq> None" ls]
  obtain n l' new where n: "rollback_until n (rollback n c k now)
      (\<lambda>l. store_pending_get l (?x, ai_head i) \<noteq> None) ?x l ls = Done (False, l', ls @ new)"
    and l': "ledger_inv c k rk rp T (unweigh d l')" "pending_of l' (?x, ai_head i) \<noteq> None"
      "kept rk (rk (ai_head i)) l l'" "listed c l l' new"
    by (auto simp: store_pending_get_def)
  note h' = kept_head [OF inv l'(1) i e un l'(3)]
  from rollback_send_undone [OF l'(1) h'(1,2) b l'(2), of now] obtain l1 where
    l1: "rollback_send c now l' b = Some l1" "undone rp l' l1 a i e (now (ai_head i))"
      "weight_undone rp l' l1 i e" by blast
  have "rollback_visit n (rollback n c k now) c k now l e ls = Done (False, l1, ls @ new)"
    using n l1(1) b hash by (simp add: rollback_visit_def rollback_send_block_def Let_def)
  moreover have "rolled c k rk rp T d l (ai_head i) (cache_block_count_add l1 (- 1)) (e # new)"
    by (rule undone_rolled [OF l'(1) h'(1,2,3) l1(2) _ l'(3,4) refl])
      (use l1(3) in \<open>simp add: algebra_simps\<close>)
  ultimately show ?thesis unfolding visited_def by blast
qed

lemma visited_state:
  assumes nest: "nested_ok c k rk rp T now B (rk (ai_head i))" and B: "rk ` dom (blocks_of l) \<subseteq> {..B}"
    and inv: "ledger_inv c k rk rp T (unweigh d l)" and i: "accounts_of l a = Some i"
    and e: "blocks_of l (ai_head i) = Some e" and un: "unconfirmed l (ai_head i)" and b: "fst e = State b"
  shows "visited c k rk rp T now d l (ai_head i) e ls"
proof -
  note v = ledger_invD [OF inv, simplified]
  note hd = head_common [OF inv i e]
  let ?h = "state_h b" and ?pb = "prev_balance (blocks_of l) e"
  have hash: "generate_hash c (State b) = ai_head i" and pv: "prev_of e = state_previous ?h"
    using hd(1) b by simp_all
  have hg: "ai_head i \<noteq> genesis_hash c k" using un v(12) by (auto simp: genesis_ok_def)
  from head_facts [OF inv, simplified, OF i] e have lk: "link_ok c k rk (blocks_of l) (ai_head i) e" by auto
  have acc: "state_account ?h = a"
    using hd(4) b lk by (auto simp: account_calculated_def link_ok_def Let_def legacy_def split: if_splits)
  have "\<exists>n rb. (if prev_of e \<noteq> 0 then ledger_representative n c l (prev_of e) else Done 0) = Done rb \<and>
      (if prev_of e = 0 then rb = 0
       else rb \<noteq> 0 \<and> (\<exists>x. blocks_of l rb = Some x \<and> block_representative (fst x) = rp (prev_of e)))"
  proof (cases "prev_of e = 0")
    case False
    from head_prev [OF lk False] have "blocks_of l (prev_of e) \<noteq> None" by (metis option.distinct(1))
    from representative_found [OF v(3,6) this] False show ?thesis
      by (auto simp: ledger_representative_def representative_calculated_def)
  qed simp
  then obtain n1 rb where n1: "(if prev_of e \<noteq> 0 then ledger_representative n1 c l (prev_of e) else Done 0) = Done rb"
    and rb: "if prev_of e = 0 then rb = 0
       else rb \<noteq> 0 \<and> (\<exists>x. blocks_of l rb = Some x \<and> block_representative (fst x) = rp (prev_of e))" by blast
  define rep where "rep = (if prev_of e = 0 then 0 else rp (prev_of e))"
  from rollback_state_weights_shift [OF inv i e b rb, folded rep_def] obtain l0 where
    l0: "rollback_state_weights l b rb = Some (l0, ?pb, rep)" "l_store l0 = l_store l"
      and sh: "unweigh (\<lambda>r. d r + state_shift rp (blocks_of l) i e r) l0 = unweigh d l" by blast
  let ?d = "\<lambda>r. d r + state_shift rp (blocks_of l) i e r"
  have inv0: "ledger_inv c k rk rp T (unweigh ?d l0)" using inv sh by simp
  let ?until = "\<lambda>n. if state_balance ?h < ?pb
      then rollback_until n (rollback n c k now)
        (\<lambda>l. store_pending_exists l (state_link ?h, ai_head i)) (state_link ?h) l0 ls
      else Done (False, l0, ls)"
  have sd: "entry_sends e = (if state_balance ?h < ?pb then Some (state_link ?h) else None)"
    using flow_okD [OF v(8) e hg] b by (auto simp: flow_ok_def kind_ok_def entry_sends_def balance_calculated_def)
  have "\<exists>n l' new. ?until n = Done (False, l', ls @ new) \<and> ledger_inv c k rk rp T (unweigh ?d l') \<and>
      (entry_sends e \<noteq> None \<longrightarrow> pending_of l' (state_link ?h, ai_head i) \<noteq> None) \<and>
      kept rk (rk (ai_head i)) l l' \<and> listed c l l' new"
  proof (cases "state_balance ?h < ?pb")
    case True
    have "rk ` dom (blocks_of l0) \<subseteq> {..B}" using B l0(2) by simp
    from until_done [OF nest this inv0, of e "state_link ?h"
        "\<lambda>l. store_pending_exists l (state_link ?h, ai_head i)" ls]
    show ?thesis
      using True e sd un l0(2) kept_store(2) [OF l0(2)]
      by (simp add: store_pending_exists_iff listed_def)
  next
    case False
    have "kept rk (rk (ai_head i)) l l0" "listed c l l0 []"
      using l0(2) by (simp_all add: kept_def listed_def)
    with False inv0 sd show ?thesis by (intro exI [of _ 0] exI [of _ l0] exI [of _ "[]"]) simp
  qed
  then obtain n2 l' new where n2: "?until n2 = Done (False, l', ls @ new)"
    and l': "ledger_inv c k rk rp T (unweigh ?d l')"
      "entry_sends e \<noteq> None \<Longrightarrow> pending_of l' (state_link ?h, ai_head i) \<noteq> None"
      "kept rk (rk (ai_head i)) l l'" "listed c l l' new" by blast
  note h' = kept_head [OF inv l'(1) i e un l'(3)]
  from rollback_state_undone [OF l'(1) h'(1,2) b hg l'(2), of rep now, unfolded h'(4)] obtain l1 where
    l1: "rollback_state c k now l' b (snd e) ?pb rep i = Some l1"
      "undone rp l' l1 a i e (now (ai_head i))" "weights_of l1 = weights_of l'" 
    by (auto simp: rep_def)
  define m where "m = max n1 n2"
  have r1: "(if prev_of e \<noteq> 0 then ledger_representative m c l (prev_of e) else Done 0) = Done rb"
    using n1 ledger_representative_mono [of n1 m c l "prev_of e"]
    by (auto simp: m_def run_le_Done split: if_splits)
  have r2: "?until m = Done (False, l', ls @ new)"
  proof (cases "state_balance ?h < ?pb")
    case True
    then show ?thesis
      using n2 rollback_until_mono [OF rollback_mono, of n2 m n2 m c k now
          "\<lambda>l. store_pending_exists l (state_link ?h, ai_head i)" "state_link ?h" l0 ls]
      by (simp add: m_def run_le_Done)
  qed (use n2 in simp)
  have "rollback_visit m (rollback m c k now) c k now l e ls = Done (False, l1, ls @ new)"
    unfolding rollback_visit_def b block.case rollback_state_block_def Let_def hash r1 [unfolded pv]
      run_bind.simps l0(1) run_of_simps prod.case
    using r2 l1(1) i
    by (cases "state_balance ?h < ?pb") (simp_all add: l0(2) acc store_account_get_def h'(1))
  moreover have "rolled c k rk rp T d l (ai_head i) (cache_block_count_add l1 (- 1)) (e # new)"
    by (rule undone_rolled [OF l'(1) h'(1,2,3) l1(2) _ l'(3,4) refl])
      (simp add: l1(3) state_shift_def h'(4))
  ultimately show ?thesis unfolding visited_def by blast
qed

lemma visited_head:
  assumes nest: "nested_ok c k rk rp T now B (rk (ai_head i))" and B: "rk ` dom (blocks_of l) \<subseteq> {..B}"
    and inv: "ledger_inv c k rk rp T (unweigh d l)" and i: "accounts_of l a = Some i"
    and e: "blocks_of l (ai_head i) = Some e" and un: "unconfirmed l (ai_head i)"
  shows "visited c k rk rp T now d l (ai_head i) e ls"
proof -
  note v = ledger_invD [OF inv, simplified]
  have hg: "ai_head i \<noteq> genesis_hash c k" using un v(12) by (auto simp: genesis_ok_def)
  show ?thesis
  proof (cases "fst e")
    case (Send b)
    show ?thesis by (rule visited_send [OF assms Send])
  next
    case (Receive b)
    from rollback_receive_undone [OF inv i e Receive hg, of now] obtain l1 where
      l1: "rollback_receive c now l b = Some l1" "undone rp l l1 a i e (now (ai_head i))"
        "weight_undone rp l l1 i e" by blast
    show ?thesis
      by (rule visited_direct [OF inv i e un l1(2,3), of 0]) (simp add: rollback_visit_def Receive l1(1))
  next
    case (Open b)
    from rollback_open_undone [OF inv i e Open hg, of now] obtain l1 where
      l1: "rollback_open c l b = Some l1" "undone rp l l1 a i e (now (ai_head i))"
        "weight_undone rp l l1 i e" by blast
    show ?thesis
      by (rule visited_direct [OF inv i e un l1(2,3), of 0]) (simp add: rollback_visit_def Open l1(1))
  next
    case (Change b)
    from head_facts [OF inv, simplified, OF i] e have lk: "link_ok c k rk (blocks_of l) (ai_head i) e" by auto
    then have "prev_of e \<noteq> 0" using Change by (auto simp: link_ok_def)
    from head_prev [OF lk this] have "blocks_of l (prev_of e) \<noteq> None" by (metis option.distinct(1))
    from representative_found [OF v(3,6) this] obtain n rb x where
      n: "representative_compute n c l (prev_of e) = Done rb" "blocks_of l rb = Some x"
        "block_representative (fst x) = rp (prev_of e)" by blast
    from rollback_change_undone [OF inv i e Change hg n(2,3), of now] obtain l1 where
      l1: "rollback_change c now l b rb = Some l1" "undone rp l l1 a i e (now (ai_head i))"
        "weight_undone rp l l1 i e" by blast
    show ?thesis
      by (rule visited_direct [OF inv i e un l1(2,3), of n])
        (use n(1) in \<open>simp add: rollback_visit_def Change l1(1) ledger_representative_def
          representative_calculated_def\<close>)
  next
    case (State b)
    show ?thesis by (rule visited_state [OF assms State])
  qed
qed

section \<open>The loop\<close>

lemma rolled_trans:
  assumes "rolled c k rk rp T d l h l1 new" and "rolled c k rk rp T d l1 x l2 new'" and "rk x \<le> rk h"
  shows "rolled c k rk rp T d l x l2 (new @ new')"
  using assms kept_trans listed_append unfolding rolled_def by (meson less_le_trans)

lemma loop_done:
  assumes nest: "nested_ok c k rk rp T now B (rk x)" and B: "rk ` dom (blocks_of l) \<subseteq> {..B}"
    and inv: "ledger_inv c k rk rp T (unweigh d l)" and x: "blocks_of l x = Some e"
    and un: "unconfirmed l x"
  shows "\<exists>n l' new. rollback_loop n n (rollback n c k now) c k now x (account_calculated e)
      (sb_height (snd e)) info l ls = Done (False, l', ls @ new) \<and> rolled c k rk rp T d l x l' new"
  using B inv x un
proof (induction "card (dom (blocks_of l))" arbitrary: l e info ls rule: less_induct)
  case less
  let ?a = "account_calculated e" and ?ht = "sb_height (snd e)"
  from head_above [OF less.prems(2), simplified, OF less.prems(3,4)] obtain i where
    i: "accounts_of l ?a = Some i" "unconfirmed l (ai_head i)" "x = ai_head i \<or> rk x < rk (ai_head i)"
    by metis
  from head_facts [OF less.prems(2), simplified, OF i(1)] obtain h where
    h: "blocks_of l (ai_head i) = Some h" by metis
  have le: "rk x \<le> rk (ai_head i)" using i(3) by auto
  from visited_head [OF nested_ok_le [OF nest le] less.prems(1,2) i(1) h i(2), of "ls @ [h]"]
  obtain n1 l1 new1 where
    n1: "rollback_visit n1 (rollback n1 c k now) c k now l h (ls @ [h]) = Done (False, l1, (ls @ [h]) @ new1)"
    and r1: "rolled c k rk rp T d l (ai_head i) (cache_block_count_add l1 (- 1)) (h # new1)"
    unfolding visited_def by blast
  let ?l1 = "cache_block_count_add l1 (- 1)"
  have cf: "ch_height (snd (store_confirmation_height_get l ?a)) < ?ht"
    using less.prems(3,4)
    by (auto simp: confirmed_at_def conf_at_def store_confirmation_height_get_def
        word_gt_0 split: option.splits)
  have vis: "rollback_visit n (rollback n c k now) c k now l h (ls @ [h]) = Done (False, l1, (ls @ [h]) @ new1)"
    if "n1 \<le> n" for n
    using rollback_visit_mono [OF rollback_mono [OF that, of c k now] that, of c k now l h "ls @ [h]"] n1
    by (simp add: run_le_Done)
  have step: "rollback_loop (Suc n) m (rollback m c k now) c k now x ?a ?ht info l ls =
      rollback_loop n m (rollback m c k now) c k now x ?a ?ht i ?l1 ((ls @ [h]) @ new1)" if "n1 \<le> m" for n m
    using vis [OF that] less.prems(3) cf i(1) h
    by (simp add: block_exists_def store_account_get_def block_get_def)
  show ?case
  proof (cases "x = ai_head i")
    case True
    then have "blocks_of ?l1 x = None" using r1 by (simp add: rolled_def)
    then have "rollback_loop (Suc (Suc n1)) (Suc (Suc n1)) (rollback (Suc (Suc n1)) c k now) c k now x ?a ?ht
        info l ls = Done (False, ?l1, ls @ (h # new1))"
      by (subst step) (simp_all add: block_exists_def)
    with r1 True show ?thesis by blast
  next
    case False
    with i(3) have lt: "rk x < rk (ai_head i)" by simp
    have k1: "kept rk (rk x) l ?l1" and inv1: "ledger_inv c k rk rp T (unweigh d ?l1)"
      and li: "listed c l ?l1 (h # new1)" and g: "blocks_of ?l1 (ai_head i) = None"
      using r1 lt by (simp_all add: rolled_def)
    from kept_entry [OF k1 less.prems(3)] obtain e1 where
      e1: "blocks_of ?l1 x = Some e1" "entry_view e1 = entry_view e" by auto
    note ev = entry_view_eq [OF e1(2)]
    have un1: "unconfirmed ?l1 x"
      using less.prems(4) confirmed_view [of e1 e "blocks_of l" x "blocks_of ?l1"] less.prems(3) e1 k1
      by (simp add: kept_def)
    have sub: "dom (blocks_of ?l1) \<subset> dom (blocks_of l)"
      using li g h by (intro listed_psubset) auto
    have fin: "finite (dom (blocks_of l))"
      using ledger_invD(1) [OF less.prems(2)] by (simp add: tables_finite_def)
    have B1: "rk ` dom (blocks_of ?l1) \<subseteq> {..B}" using less.prems(1) sub by blast
    from less.hyps [OF psubset_card_mono [OF fin sub] B1 inv1 e1(1) un1, of i "(ls @ [h]) @ new1"]
    obtain n2 l2 new2 where n2: "rollback_loop n2 n2 (rollback n2 c k now) c k now x ?a ?ht i ?l1
        ((ls @ [h]) @ new1) = Done (False, l2, ((ls @ [h]) @ new1) @ new2)"
      and r2: "rolled c k rk rp T d ?l1 x l2 new2" using ev by auto
    define m where "m = max n1 n2"
    have "rollback_loop m (Suc m) (rollback (Suc m) c k now) c k now x ?a ?ht i ?l1 ((ls @ [h]) @ new1) =
        Done (False, l2, ((ls @ [h]) @ new1) @ new2)"
      using n2 rollback_loop_mono [OF rollback_mono [of n2 "Suc m" c k now], of n2 "Suc m" n2 m c k now x ?a ?ht i
        ?l1 "(ls @ [h]) @ new1"]
      by (simp add: m_def run_le_Done)
    then have "rollback_loop (Suc m) (Suc m) (rollback (Suc m) c k now) c k now x ?a ?ht info l ls =
        Done (False, l2, ls @ ((h # new1) @ new2))"
      by (subst step) (simp_all add: m_def)
    with rolled_trans [OF r1 r2 le] show ?thesis by blast
  qed
qed

section \<open>Rollback\<close>

lemma all_nested_ok: "nested_ok c k rk rp T now B m"
proof (induction "B - m" arbitrary: m rule: less_induct)
  case less
  show ?case
    unfolding nested_ok_def
  proof (intro allI impI)
    fix t d l ls
    assume m: "m < rk t" and B: "rk ` dom (blocks_of l) \<subseteq> {..B}"
      and inv: "ledger_inv c k rk rp T (unweigh d l)" and "blocks_of l t \<noteq> None" and un: "unconfirmed l t"
    then obtain e where e: "blocks_of l t = Some e" by auto
    have "rk t \<le> B" using B e by auto
    with m have "B - rk t < B - m" by simp
    from less.hyps [OF this] have "nested_ok c k rk rp T now B (rk t)" .
    from loop_done [OF this B inv e un, of account_info_default ls] obtain n l' new where
      n: "rollback_loop n n (rollback n c k now) c k now t (account_calculated e) (sb_height (snd e))
        account_info_default l ls = Done (False, l', ls @ new)"
      and r: "rolled c k rk rp T d l t l' new" by blast
    have "rollback (Suc n) c k now l t ls = Done (False, l', ls @ new)"
      using n e by (simp add: ledger_account_def block_table_account_def block_account_height_def)
    with r show "\<exists>n l' new. rollback n c k now l t ls = Done (False, l', ls @ new) \<and>
        rolled c k rk rp T d l t l' new" by blast
  qed
qed

lemma rollback_unconfirmed:
  assumes inv: "ledger_inv c k rk rp T l" and "blocks_of l x \<noteq> None" and "unconfirmed l x"
  obtains n l' new where "rollback n c k now l x ls = Done (False, l', ls @ new)"
    "ledger_inv c k rk rp T l'" "blocks_of l' x = None" "listed c l l' new"
    "\<And>m. m < rk x \<Longrightarrow> kept rk m l l'"
proof -
  let ?B = "Max (rk ` dom (blocks_of l))"
  have fin: "finite (dom (blocks_of l))" using ledger_invD(1) [OF inv] by (simp add: tables_finite_def)
  have B: "rk ` dom (blocks_of l) \<subseteq> {..?B}" using fin by (auto intro!: Max_ge)
  have inv0: "ledger_inv c k rk rp T (unweigh (\<lambda>_. 0) l)" using inv by (simp add: ledger_inv_unweigh_0)
  obtain e where e: "blocks_of l x = Some e" using assms(2) by auto
  from loop_done [OF all_nested_ok B inv0 e assms(3), of now account_info_default ls] obtain n l' new where
    n: "rollback_loop n n (rollback n c k now) c k now x (account_calculated e) (sb_height (snd e))
      account_info_default l ls = Done (False, l', ls @ new)"
    and r: "rolled c k rk rp T (\<lambda>_. 0) l x l' new" by blast
  have "rollback (Suc n) c k now l x ls = Done (False, l', ls @ new)"
    using n e by (simp add: ledger_account_def block_table_account_def block_account_height_def)
  from that [OF this] r show thesis by (auto simp: rolled_def ledger_inv_unweigh_0)
qed

lemma rollback_confirmed:
  assumes "blocks_of l x = Some e" and "confirmed_at (blocks_of l) (heights_of l) x"
  shows "rollback (Suc (Suc n)) c k now l x ls = Done (True, l, ls)"
  using assms
  by (auto simp: confirmed_at_def conf_at_def ledger_account_def block_table_account_def
      block_account_height_def block_exists_def store_confirmation_height_get_def split: option.splits)

text \<open>Whatever number of steps is given, a rollback that returns keeps the invariant.\<close>

lemma rollback_inv:
  assumes inv: "ledger_inv c k rk rp T l" and x: "blocks_of l x \<noteq> None"
    and run: "rollback n c k now l x ls = Done (err, l', ls')"
  shows "ledger_inv c k rk rp T l'"
    and "err \<longleftrightarrow> confirmed_at (blocks_of l) (heights_of l) x"
    and "err \<Longrightarrow> l' = l \<and> ls' = ls" and "\<not> err \<Longrightarrow> blocks_of l' x = None"
    and "\<exists>new. ls' = ls @ new \<and> listed c l l' new"
proof -
  have det: "r = r'" if "rollback m c k now l x ls = Done r" "rollback m' c k now l x ls = Done r'" for m m' r r'
    using rollback_more [OF that(1), of "max m m'"] rollback_more [OF that(2), of "max m m'"] by simp
  have "ledger_inv c k rk rp T l' \<and> (err \<longleftrightarrow> confirmed_at (blocks_of l) (heights_of l) x) \<and>
      (err \<longrightarrow> l' = l \<and> ls' = ls) \<and> (\<not> err \<longrightarrow> blocks_of l' x = None) \<and>
      (\<exists>new. ls' = ls @ new \<and> listed c l l' new)"
  proof (cases "confirmed_at (blocks_of l) (heights_of l) x")
    case True
    from x obtain e where "blocks_of l x = Some e" by auto
    from det [OF run rollback_confirmed [OF this True, of 0]] have "err" "l' = l" "ls' = ls" by simp_all
    with True inv show ?thesis by simp
  next
    case False
    from rollback_unconfirmed [OF inv x False, of now ls] obtain n' l'' new where
      n': "rollback n' c k now l x ls = Done (False, l'', ls @ new)" and l'': "ledger_inv c k rk rp T l''"
      "blocks_of l'' x = None" "listed c l l'' new" by metis
    from det [OF run n'] have "\<not> err" "l' = l''" "ls' = ls @ new" by simp_all
    with False l'' show ?thesis by simp
  qed
  then show "ledger_inv c k rk rp T l'" and "err \<longleftrightarrow> confirmed_at (blocks_of l) (heights_of l) x"
    and "err \<Longrightarrow> l' = l \<and> ls' = ls" and "\<not> err \<Longrightarrow> blocks_of l' x = None"
    and "\<exists>new. ls' = ls @ new \<and> listed c l l' new" by blast+
qed

end
