(* ===== verification/Ledger_Chain.thy ===== *)
theory Ledger_Chain
  imports Rollback_Correct
begin

text \<open>
  The chain of an account: its blocks have the heights from one to the block count, each once.
  So the block counts of the accounts add up to the number of blocks, and a rollback cannot
  remove a block below a confirmation height.
\<close>

declare split_paired_All [simp del] split_paired_Ex [simp del]

definition sound :: "crypto \<Rightarrow> ledger_constants \<Rightarrow> ledger \<Rightarrow> bool" where
  "sound c k l \<longleftrightarrow> (\<exists>rk rp T. ledger_inv c k rk rp T l)"

section \<open>Heights\<close>

lemma block_facts:
  assumes inv: "ledger_inv c k rk rp T l" and x: "blocks_of l x = Some e"
  obtains i where "link_ok c k rk (blocks_of l) x e" "accounts_of l (account_calculated e) = Some i"
    "prev_of e = 0 \<Longrightarrow> ai_open_block i = x"
proof -
  note v = ledger_invD [OF inv]
  from tops_okD [OF v(4) x] obtain i where i: "accounts_of l (account_calculated e) = Some i"
    "prev_of e = 0 \<Longrightarrow> ai_open_block i = x" by (auto elim: top_okE)
  with links_okD [OF v(3) x] show thesis by (intro that)
qed

lemma block_link:
  assumes "ledger_inv c k rk rp T l" and "blocks_of l x = Some e"
  shows "link_ok c k rk (blocks_of l) x e"
  by (rule links_okD [OF ledger_invD(3) [OF assms(1)] assms(2)])

lemma height_pos:
  assumes "ledger_inv c k rk rp T l" and "blocks_of l x = Some e"
  shows "0 < unat (sb_height (snd e))"
  using block_link [OF assms] by (auto simp: link_ok_def follows_def split: if_splits)

lemma height_prev:
  assumes inv: "ledger_inv c k rk rp T l" and x: "blocks_of l x = Some e"
    and h: "unat (sb_height (snd e)) = Suc (Suc j)"
  obtains p where "blocks_of l (prev_of e) = Some p" "account_calculated p = account_calculated e"
    "unat (sb_height (snd p)) = Suc j" "sb_successor (snd p) = x"
proof -
  have "prev_of e \<noteq> 0" using block_link [OF inv x] h by (auto simp: link_ok_def split: if_splits)
  with block_link [OF inv x] h that show thesis by (auto simp: link_ok_def follows_def)
qed

lemma height_one:
  assumes inv: "ledger_inv c k rk rp T l" and x: "blocks_of l x = Some e"
    and h: "unat (sb_height (snd e)) = 1"
  shows "prev_of e = 0"
proof (rule ccontr)
  assume "prev_of e \<noteq> 0"
  with block_link [OF inv x] obtain p where p: "blocks_of l (prev_of e) = Some p" "follows p e"
    by (auto simp: link_ok_def)
  from height_pos [OF inv p(1)] p(2) h show False by (simp add: follows_def)
qed

lemma height_unique:
  assumes inv: "ledger_inv c k rk rp T l"
  shows "blocks_of l x = Some e \<Longrightarrow> blocks_of l y = Some f \<Longrightarrow>
    account_calculated e = account_calculated f \<Longrightarrow> unat (sb_height (snd e)) = unat (sb_height (snd f)) \<Longrightarrow> x = y"
proof (induction "unat (sb_height (snd e))" arbitrary: x e y f rule: less_induct)
  case less
  from height_pos [OF inv less.prems(1)] consider "unat (sb_height (snd e)) = 1"
    | j where "unat (sb_height (snd e)) = Suc (Suc j)"
    by (metis One_nat_def not0_implies_Suc less_numeral_extra(3))
  then show ?case
  proof cases
    case 1
    with less.prems(4) have "prev_of e = 0" "prev_of f = 0"
      using height_one [OF inv] less.prems(1,2) by simp_all
    with block_facts [OF inv less.prems(1)] block_facts [OF inv less.prems(2)] less.prems(3)
    show ?thesis by (metis option.inject)
  next
    case 2
    from height_prev [OF inv less.prems(1) 2] obtain p where p: "blocks_of l (prev_of e) = Some p"
      "account_calculated p = account_calculated e" "unat (sb_height (snd p)) = Suc j"
      "sb_successor (snd p) = x" .
    from height_prev [OF inv less.prems(2) 2 [unfolded less.prems(4)]] obtain q where
      q: "blocks_of l (prev_of f) = Some q" "account_calculated q = account_calculated f"
      "unat (sb_height (snd q)) = Suc j" "sb_successor (snd q) = y" .
    from less.hyps [OF _ p(1) q(1)] p q 2 less.prems(3) have "prev_of e = prev_of f"
      by simp
    with p q show ?thesis by simp
  qed
qed

lemma height_le_count:
  assumes inv: "ledger_inv c k rk rp T l" and x: "blocks_of l x = Some e"
  shows "unat (sb_height (snd e)) \<le> count_at (accounts_of l) (account_calculated e)"
proof -
  note v = ledger_invD [OF inv]
  from block_facts [OF inv x] obtain i where i: "accounts_of l (account_calculated e) = Some i" by metis
  from head_facts [OF inv i] obtain t where t: "blocks_of l (ai_head i) = Some t"
    "sb_height (snd t) = ai_block_count i" by metis
  have "finite (dom (blocks_of l))" using v(1) by (simp add: tables_finite_def)
  from chain_top [OF this v(3,4) x i] t x i show ?thesis by (auto simp: count_at_def)
qed

lemma height_exists:
  assumes inv: "ledger_inv c k rk rp T l"
  shows "0 < j \<Longrightarrow> j \<le> count_at (accounts_of l) a \<Longrightarrow>
    \<exists>x e. blocks_of l x = Some e \<and> account_calculated e = a \<and> unat (sb_height (snd e)) = j"
proof (induction "count_at (accounts_of l) a - j" arbitrary: j)
  case 0
  then obtain i where i: "accounts_of l a = Some i" "unat (ai_block_count i) = j"
    by (auto simp: count_at_def split: option.splits)
  from head_facts [OF inv i(1)] i(2) show ?case by metis
next
  case (Suc n)
  then have "n = count_at (accounts_of l) a - Suc j" "Suc j \<le> count_at (accounts_of l) a" by simp_all
  from Suc.hyps(1) [OF this(1) _ this(2)] obtain x e where e: "blocks_of l x = Some e"
    "account_calculated e = a" "unat (sb_height (snd e)) = Suc j" by auto
  obtain j' where "j = Suc j'" using Suc.prems(1) by (cases j) auto
  with e height_prev [OF inv e(1)] show ?case by metis
qed

section \<open>Counting blocks\<close>

lemma chain_count:
  assumes inv: "ledger_inv c k rk rp T l"
  shows "card (dom (blocks_of l)) = map_total (\<lambda>i. unat (ai_block_count i)) (accounts_of l)"
proof -
  let ?at = "\<lambda>x. case blocks_of l x of None \<Rightarrow> (0, 0)
    | Some e \<Rightarrow> (account_calculated e, unat (sb_height (snd e)))"
  let ?S = "SIGMA a : dom (accounts_of l). {1..count_at (accounts_of l) a}"
  have "bij_betw ?at (dom (blocks_of l)) ?S"
    unfolding bij_betw_def
  proof
    show "inj_on ?at (dom (blocks_of l))"
      using height_unique [OF inv] by (auto simp: inj_on_def)
    show "?at ` dom (blocks_of l) = ?S"
    proof (intro set_eqI iffI)
      fix z assume "z \<in> ?at ` dom (blocks_of l)"
      then obtain x e where e: "blocks_of l x = Some e" "z = (account_calculated e, unat (sb_height (snd e)))"
        by auto
      with height_pos [OF inv e(1)] height_le_count [OF inv e(1)] block_facts [OF inv e(1)]
      show "z \<in> ?S" by (auto simp: Suc_le_eq)
    next
      fix z assume "z \<in> ?S"
      then obtain a j where z: "z = (a, j)" "0 < j" "j \<le> count_at (accounts_of l) a" by auto
      from height_exists [OF inv z(2,3)] obtain x e where "blocks_of l x = Some e"
        "account_calculated e = a" "unat (sb_height (snd e)) = j" by blast
      with z(1) show "z \<in> ?at ` dom (blocks_of l)" by (intro image_eqI [of _ _ x]) auto
    qed
  qed
  then have "card (dom (blocks_of l)) = card ?S" by (rule bij_betw_same_card)
  also have "\<dots> = (\<Sum>a\<in>dom (accounts_of l). count_at (accounts_of l) a)"
    using ledger_invD(1) [OF inv] by (subst card_SigmaI) (auto simp: tables_finite_def)
  also have "\<dots> = map_total (\<lambda>i. unat (ai_block_count i)) (accounts_of l)"
    unfolding map_total_def by (rule sum.cong) (auto simp: count_at_def)
  finally show ?thesis .
qed

section \<open>Confirmed blocks\<close>

text \<open>
  A ledger with the same heights whose blocks are among those of another keeps its confirmed
  blocks.
\<close>

lemma confirmed_stays:
  assumes inv: "ledger_inv c k rk rp T l" and inv': "ledger_inv c k rk' rp' T' l'"
    and ht: "heights_of l' = heights_of l"
    and bs: "\<And>x. blocks_of l' x \<noteq> None \<Longrightarrow> bview (blocks_of l') x = bview (blocks_of l) x"
    and x: "confirmed_at (blocks_of l) (heights_of l) x"
  shows "confirmed_at (blocks_of l') (heights_of l') x \<and> bview (blocks_of l') x = bview (blocks_of l) x"
proof -
  from x obtain e where e: "blocks_of l x = Some e"
    "sb_height (snd e) \<le> conf_at (heights_of l) (account_calculated e)"
    by (auto simp: confirmed_at_def split: option.splits)
  let ?j = "unat (sb_height (snd e))"
  have "?j \<le> unat (conf_at (heights_of l') (account_calculated e))" using e(2) ht by (simp add: word_le_nat_alt)
  also have "\<dots> \<le> count_at (accounts_of l') (account_calculated e)"
    using ledger_invD(11) [OF inv'] by (simp add: conf_ok_def)
  finally obtain y f where f: "blocks_of l' y = Some f" "account_calculated f = account_calculated e"
    "unat (sb_height (snd f)) = ?j" using height_exists [OF inv' height_pos [OF inv e(1)]] by blast
  with bs [of y] obtain g where g: "blocks_of l y = Some g" "entry_view f = entry_view g"
    by (cases "blocks_of l y") (auto simp: bview_def)
  note eq = entry_view_eq [OF g(2)]
  from height_unique [OF inv g(1) e(1)] f eq have "y = x" by simp
  have "bview (blocks_of l') x = bview (blocks_of l) x" using bs [of x] f(1) \<open>y = x\<close> by simp
  moreover have "confirmed_at (blocks_of l') (heights_of l') x"
    using f \<open>y = x\<close> e(2) unfolding confirmed_at_def ht by (simp add: word_le_nat_alt)
  ultimately show ?thesis by blast
qed

lemma rollback_keeps_confirmed:
  assumes inv: "ledger_inv c k rk rp T l" and x: "blocks_of l x \<noteq> None"
    and run: "rollback n c k now l x ls = Done (err, l', ls')"
    and y: "confirmed_at (blocks_of l) (heights_of l) y"
  shows "confirmed_at (blocks_of l') (heights_of l') y \<and> bview (blocks_of l') y = bview (blocks_of l) y"
proof -
  from rollback_inv(5) [OF inv x run] obtain new where new: "listed c l l' new" by blast
  show ?thesis
    by (rule confirmed_stays [OF inv rollback_inv(1) [OF inv x run] _ _ y]) (use new in \<open>auto simp: listed_def\<close>)
qed

end
