(* ===== verification/Ledger_Reach.thy ===== *)
theory Ledger_Reach
  imports Ledger_Chain Cementing
begin

text \<open>
  The ledgers that a node can reach: from the first block, by processing blocks, by rolling
  blocks back and by cementing blocks.  The invariant holds in all of them.
\<close>

declare split_paired_All [simp del] split_paired_Ex [simp del]

section \<open>The first block\<close>

text \<open>
  The genesis block of a network opens its account and makes it its own representative; it names
  its account as its source.
\<close>

definition genesis_block_ok :: "crypto \<Rightarrow> ledger_constants \<Rightarrow> bool" where
  "genesis_block_ok c k \<longleftrightarrow>
     block_type_of (k_genesis k) = bt_open \<and> block_account (k_genesis k) \<noteq> 0 \<and>
     block_representative (k_genesis k) = block_account (k_genesis k) \<and>
     block_source (k_genesis k) = block_account (k_genesis k) \<and>
     genesis_hash c k \<noteq> 0 \<and> \<not> reserved_hash k (genesis_hash c k)"

definition max_supply :: nat where
  "max_supply = 2 ^ 128 - 1"

lemma unat_max_amount: "unat (- 1 :: amount) = max_supply"
  by (simp add: max_supply_def unsigned_minus_1_eq_mask mask_eq_exp_minus_1)

lemma map_total_single: "map_total f [a \<mapsto> x] = f x"
  by (simp add: map_total_def)

definition genesis_entry :: "ledger_constants \<Rightarrow> times \<Rightarrow> block_entry" where
  "genesis_entry k now = (k_genesis k, sideband_stored bt_open (genesis_sideband k (fst now)))"

definition genesis_info :: "crypto \<Rightarrow> ledger_constants \<Rightarrow> times \<Rightarrow> account_info" where
  "genesis_info c k now =
     \<lparr>ai_head = genesis_hash c k, ai_representative = block_account (k_genesis k),
      ai_open_block = genesis_hash c k, ai_balance = - 1, ai_modified = snd now, ai_block_count = 1,
      ai_epoch = epoch_0\<rparr>"

lemma init_tables:
  assumes "genesis_block_ok c k" and "store_initialize c k now empty_ledger = Some l"
  defines "h \<equiv> genesis_hash c k" and "a \<equiv> block_account (k_genesis k)"
  shows "blocks_of l = [h \<mapsto> genesis_entry k now]" "accounts_of l = [a \<mapsto> genesis_info c k now]"
    "pending_of l = Map.empty" "frontiers_of l = [h \<mapsto> a]"
    "heights_of l = [a \<mapsto> \<lparr>ch_height = 1, ch_frontier = h\<rparr>]"
    "pruned_of l = Map.empty" "\<not> l_pruning l" "lc_block_count (l_cache l) = 1"
    "lc_account_count (l_cache l) = 1" "weights_of l = [a \<mapsto> - 1]"
proof -
  obtain b where "k_genesis k = Open b"
    using assms(1) by (cases "k_genesis k") (auto simp: genesis_block_ok_def)
  with assms(2) show "blocks_of l = [h \<mapsto> genesis_entry k now]" "accounts_of l = [a \<mapsto> genesis_info c k now]"
    "pending_of l = Map.empty" "frontiers_of l = [h \<mapsto> a]"
    "heights_of l = [a \<mapsto> \<lparr>ch_height = 1, ch_frontier = h\<rparr>]"
    "pruned_of l = Map.empty" "\<not> l_pruning l" "lc_block_count (l_cache l) = 1"
    "lc_account_count (l_cache l) = 1" "weights_of l = [a \<mapsto> - 1]"
    by (auto simp: store_initialize_def Let_def bind_eq_Some store_del_Some block_put_def empty_ledger_def
        table_simps cache_cemented_count_add_def cache_canary_set_def cache_weights_set_def
        genesis_hash_def genesis_entry_def genesis_info_def h_def a_def representation_put_def rep_put_def)
qed

lemma genesis_entry_facts:
  fixes now :: times
  assumes "genesis_block_ok c k"
  defines "e \<equiv> genesis_entry k now"
  shows "fst e = k_genesis k" "account_calculated e = block_account (k_genesis k)"
    "balance_calculated e = - 1" "entry_epoch e = epoch_0" "sb_height (snd e) = 1"
    "sb_successor (snd e) = 0" "entry_sends e = None" "prev_of e = 0"
proof -
  obtain b where "k_genesis k = Open b"
    using assms(1) by (cases "k_genesis k") (auto simp: genesis_block_ok_def)
  then show "fst e = k_genesis k" "account_calculated e = block_account (k_genesis k)"
    "balance_calculated e = - 1" "entry_epoch e = epoch_0" "sb_height (snd e) = 1"
    "sb_successor (snd e) = 0" "entry_sends e = None" "prev_of e = 0"
    using assms(1)
    by (simp_all add: e_def genesis_entry_def entry_defs genesis_sideband_def genesis_block_ok_def)
qed

lemma init_inv:
  assumes "genesis_block_ok c k" and "store_initialize c k now empty_ledger = Some l"
  shows "ledger_inv c k (\<lambda>_. 0) (\<lambda>_. block_account (k_genesis k)) max_supply l"
proof -
  let ?h = "genesis_hash c k" and ?a = "block_account (k_genesis k)"
  define e where "e = genesis_entry k now"
  define i where "i = genesis_info c k now"
  note st = init_tables [OF assms, folded e_def i_def]
  note e = genesis_entry_facts [OF assms(1), of now, folded e_def]
  have i: "ai_head i = ?h" "ai_representative i = ?a" "ai_open_block i = ?h" "ai_balance i = - 1"
    "ai_block_count i = 1" "ai_epoch i = epoch_0" by (simp_all add: i_def genesis_info_def)
  have k: "?a \<noteq> 0" "block_representative (k_genesis k) = ?a" "?h \<noteq> 0" "\<not> reserved_hash k ?h"
    "generate_hash c (k_genesis k) = ?h" "block_type_of (k_genesis k) = bt_open"
    using assms(1) by (simp_all add: genesis_block_ok_def genesis_hash_def)
  have at: "receives_at [?h \<mapsto> e] ?h x = None" "sends_at [?h \<mapsto> e] x = None" for x
    using e by (auto simp: receives_at_def sends_at_def split: option.splits)
  have "tables_finite l" "unpruned l" using st by (simp_all add: tables_finite_def unpruned_def)
  moreover have "links_ok c k (\<lambda>_. 0) (blocks_of l)"
    unfolding st links_ok_def link_ok_def using e k by (auto simp: legacy_def epoch_0_small)
  moreover have "tops_ok (blocks_of l) (accounts_of l)"
    unfolding st tops_ok_def top_ok_def using e by (auto simp: i)
  moreover have "heads_ok (\<lambda>_. ?a) (blocks_of l) (accounts_of l)"
    unfolding st heads_ok_def head_ok_def using e k by (auto simp: i)
  moreover have "reps_ok (\<lambda>_. ?a) (blocks_of l)"
    unfolding st reps_ok_def rep_ok_def using e k by (auto simp: keeps_rep_def)
  moreover have "frontiers_ok (blocks_of l) (accounts_of l) (frontiers_of l)"
    unfolding st frontiers_ok_def using e by (auto simp: legacy_at_def legacy_def i k split: if_splits)
  moreover have "flows_ok k ?h (\<lambda>_. 0) (blocks_of l) (pending_of l)"
    unfolding st flows_ok_def by auto
  moreover have "pending_ok ?h (blocks_of l) (pending_of l)" "unique_ok ?h (blocks_of l)"
    unfolding st pending_ok_def unique_ok_def using at by auto
  moreover have "conf_ok ?h (blocks_of l) (accounts_of l) (heights_of l)"
    unfolding st conf_ok_def using at by (auto simp: conf_at_def count_at_def i)
  moreover have "genesis_ok c k (blocks_of l) (heights_of l)"
    unfolding st genesis_ok_def using e by (simp add: confirmed_at_def conf_at_def)
  moreover have "total_supply (accounts_of l) (pending_of l) = max_supply"
    unfolding st total_supply_def by (simp add: map_total_single i unat_max_amount)
  moreover have "weights_ok (weights_of l) (accounts_of l)"
    unfolding st weights_ok_def map_total_single by (auto simp: i rep_get_def)
  moreover have "counts_ok l" using st by (simp add: counts_ok_def)
  moreover have "max_supply < 2 ^ 128" by (simp add: max_supply_def)
  ultimately show ?thesis unfolding ledger_inv_def by blast
qed

lemma init_defined:
  assumes "genesis_block_ok c k"
  shows "\<exists>l. store_initialize c k now empty_ledger = Some l"
  using assms
  by (cases "k_genesis k")
    (auto simp: genesis_block_ok_def store_initialize_def Let_def store_block_put_def block_put_def)

section \<open>Cementing\<close>

text \<open>
  A write of a confirmation height may be applied when its block exists at that height and every
  source of the account up to that height is then confirmed.
\<close>

definition write_ok :: "crypto \<Rightarrow> ledger_constants \<Rightarrow> ledger \<Rightarrow> conf_height_details \<Rightarrow> bool" where
  "write_ok c k l p \<longleftrightarrow>
     (case blocks_of l (chd_hash p) of
        None \<Rightarrow> False
      | Some e \<Rightarrow> account_calculated e = chd_account p \<and> sb_height (snd e) = chd_height p) \<and>
     (\<forall>r s. receives_at (blocks_of l) (genesis_hash c k) r = Some s \<longrightarrow>
        account_at (blocks_of l) r = Some (chd_account p) \<longrightarrow>
        confirmed_at (blocks_of l) ((heights_of l)(chd_account p \<mapsto>
          \<lparr>ch_height = chd_height p, ch_frontier = chd_hash p\<rparr>)) r \<longrightarrow>
        confirmed_at (blocks_of l) ((heights_of l)(chd_account p \<mapsto>
          \<lparr>ch_height = chd_height p, ch_frontier = chd_hash p\<rparr>)) s)"

definition cement_one :: "ledger \<Rightarrow> conf_height_details \<Rightarrow> ledger" where
  "cement_one l p =
     (if ch_height (snd (store_confirmation_height_get l (chd_account p))) < chd_height p
      then store_confirmation_height_put (cache_cemented_count_add l (chd_num_blocks_confirmed p))
             (chd_account p) \<lparr>ch_height = chd_height p, ch_frontier = chd_hash p\<rparr>
      else l)"

fun writes_ok :: "crypto \<Rightarrow> ledger_constants \<Rightarrow> ledger \<Rightarrow> conf_height_details list \<Rightarrow> bool" where
  "writes_ok c k l [] = True"
| "writes_ok c k l (p # ps) = (write_ok c k l p \<and> writes_ok c k (cement_one l p) ps)"

lemma conf_get: "ch_height (snd (store_confirmation_height_get l a)) = conf_at (heights_of l) a"
  by (simp add: store_confirmation_height_get_def conf_at_def split: option.splits)

lemma confirmed_mono:
  assumes "\<And>a. conf_at ht a \<le> conf_at ht' a" and "confirmed_at bs ht x"
  shows "confirmed_at bs ht' x"
  using assms by (auto simp: confirmed_at_def split: option.splits intro: order_trans)

lemma cement_one_inv:
  assumes inv: "ledger_inv c k rk rp T l" and w: "write_ok c k l p"
  shows "ledger_inv c k rk rp T (cement_one l p)"
proof (cases "conf_at (heights_of l) (chd_account p) < chd_height p")
  case True
  note v = ledger_invD [OF inv]
  let ?ht = "(heights_of l)(chd_account p \<mapsto> \<lparr>ch_height = chd_height p, ch_frontier = chd_hash p\<rparr>)"
  let ?l = "cement_one l p"
  have st: "blocks_of ?l = blocks_of l" "accounts_of ?l = accounts_of l" "pending_of ?l = pending_of l"
    "frontiers_of ?l = frontiers_of l" "heights_of ?l = ?ht" "pruned_of ?l = pruned_of l"
    "l_pruning ?l = l_pruning l" "weights_of ?l = weights_of l"
    "lc_block_count (l_cache ?l) = lc_block_count (l_cache l)"
    "lc_account_count (l_cache ?l) = lc_account_count (l_cache l)"
    using True by (simp_all add: cement_one_def conf_get store_confirmation_height_put_def
        cache_cemented_count_add_def)
  have le: "conf_at (heights_of l) a \<le> conf_at ?ht a" for a
    using True by (auto simp: conf_at_def)
  obtain e where e: "blocks_of l (chd_hash p) = Some e" "account_calculated e = chd_account p"
    "sb_height (snd e) = chd_height p" using w by (auto simp: write_ok_def split: option.splits)
  have "unat (conf_at ?ht a) \<le> count_at (accounts_of l) a" for a
    using height_le_count [OF inv e(1)] e v(11) by (auto simp: conf_at_def conf_ok_def)
  moreover have "confirmed_at (blocks_of l) ?ht s"
    if r: "receives_at (blocks_of l) (genesis_hash c k) r = Some s" and cr: "confirmed_at (blocks_of l) ?ht r" for r s
  proof (cases "account_at (blocks_of l) r = Some (chd_account p)")
    case True
    with w r cr show ?thesis by (simp add: write_ok_def)
  next
    case False
    with cr have "confirmed_at (blocks_of l) (heights_of l) r"
      by (auto simp: confirmed_at_def account_at_def conf_at_def split: option.splits)
    with v(11) r have "confirmed_at (blocks_of l) (heights_of l) s" by (auto simp: conf_ok_def)
    then show ?thesis by (rule confirmed_mono [OF le])
  qed
  ultimately have "conf_ok (genesis_hash c k) (blocks_of l) (accounts_of l) ?ht" by (simp add: conf_ok_def)
  moreover have "genesis_ok c k (blocks_of l) ?ht"
    using v(12) confirmed_mono [OF le] by (simp add: genesis_ok_def)
  ultimately show ?thesis
    using v by (simp add: ledger_inv_def tables_finite_def unpruned_def counts_ok_def st)
qed (use inv in \<open>simp add: cement_one_def conf_get\<close>)

lemma cement_loop_ok:
  assumes "ledger_inv c k rk rp T l" and "writes_ok c k l ps"
    and "cement_loop cache l ps cem = Some (err, rest, l', cem')"
  shows "\<not> err \<and> rest = [] \<and> ledger_inv c k rk rp T l' \<and> l' = fold (\<lambda>p l. cement_one l p) ps l"
  using assms
proof (induction ps arbitrary: l cem)
  case (Cons p ps)
  note inv = cement_one_inv [OF Cons.prems(1), of p]
  from Cons.prems(2) have w: "write_ok c k l p" "writes_ok c k (cement_one l p) ps" by simp_all
  then obtain e where e: "blocks_of l (chd_hash p) = Some e" by (auto simp: write_ok_def split: option.splits)
  from Cons.prems(3) e obtain cem2 where "cement_loop cache (cement_one l p) ps cem2 = Some (err, rest, l', cem')"
    by (auto simp: cement_one_def Let_def block_get_def bind_eq_Some split: if_splits)
  from Cons.IH [OF inv [OF w(1)] w(2) this] show ?case by auto
qed simp

section \<open>The ledgers of a node\<close>

inductive ledger_step :: "crypto \<Rightarrow> ledger_constants \<Rightarrow> ledger \<Rightarrow> ledger \<Rightarrow> bool" for c k where
  step_process: "(p_code p = pr_progress \<longrightarrow> admissible c k l b) \<Longrightarrow> process c k now l b v = Some p \<Longrightarrow>
    ledger_step c k l (p_ledger p)"
| step_rollback: "blocks_of l h \<noteq> None \<Longrightarrow> rollback n c k clock l h ls = Done (err, l', ls') \<Longrightarrow>
    ledger_step c k l l'"
| step_cement: "writes_ok c k l ps \<Longrightarrow> cement_blocks cache l ps = Some (l', bs) \<Longrightarrow> ledger_step c k l l'"

inductive reachable :: "crypto \<Rightarrow> ledger_constants \<Rightarrow> ledger \<Rightarrow> bool" for c k where
  reach_start: "genesis_block_ok c k \<Longrightarrow> store_initialize c k now empty_ledger = Some l \<Longrightarrow> reachable c k l"
| reach_step: "reachable c k l \<Longrightarrow> ledger_step c k l l' \<Longrightarrow> reachable c k l'"

lemma cement_blocks_loop:
  assumes "cement_blocks cache l ps = Some (l', bs)"
  shows "cement_loop cache l ps [] = Some (False, fst (snd (the (cement_loop cache l ps []))), l', bs)"
  using assms by (auto simp: cement_blocks_def bind_eq_Some split: if_splits)

lemma cement_ok:
  assumes "ledger_inv c k rk rp T l" and "writes_ok c k l ps" and "cement_blocks cache l ps = Some (l', bs)"
  shows "ledger_inv c k rk rp T l'" and "l' = fold (\<lambda>p l. cement_one l p) ps l"
  using cement_loop_ok [OF assms(1,2) cement_blocks_loop [OF assms(3)]] by blast+

lemma step_inv:
  assumes "ledger_step c k l l'" and "ledger_inv c k rk rp T l" and "constants_ok k"
  shows "\<exists>rk' rp'. ledger_inv c k rk' rp' T l'"
  using assms(1)
proof cases
  case 1: (step_process p b now v)
  from process_inv [OF assms(2) 1(2) assms(3) 1(3)] 1(1) show ?thesis by simp
next
  case 2: (step_rollback h n clock ls err ls')
  from rollback_inv(1) [OF assms(2) 2] show ?thesis by blast
next
  case 3: (step_cement ps cache bs)
  from cement_ok(1) [OF assms(2) 3] show ?thesis by blast
qed

lemma reachable_inv:
  assumes "reachable c k l" and "constants_ok k"
  obtains rk rp where "ledger_inv c k rk rp max_supply l"
proof -
  from assms(1) have "\<exists>rk rp. ledger_inv c k rk rp max_supply l"
  proof induction
    case (reach_start now l)
    from init_inv [OF this] show ?case by blast
  next
    case (reach_step l l')
    from reach_step(3) obtain rk rp where "ledger_inv c k rk rp max_supply l" by blast
    from step_inv [OF reach_step(2) this assms(2)] show ?case .
  qed
  with that show thesis by blast
qed

lemma reachable_genesis: "reachable c k l \<Longrightarrow> genesis_block_ok c k"
  by (induction rule: reachable.induct)

section \<open>Confirmed blocks stay\<close>

lemma accepted_confirmed:
  assumes "accepted c k l l' h e a new" and x: "confirmed_at (blocks_of l) (heights_of l) x"
  shows "confirmed_at (blocks_of l') (heights_of l') x \<and> bview (blocks_of l') x = bview (blocks_of l) x"
proof -
  from assms(1) have g: "grow_at (blocks_of l) h e" "blocks_of l' = grow (blocks_of l) h e"
    "heights_of l' = heights_of l" by (simp_all add: accepted_def grows_def)
  from x obtain y where y: "blocks_of l x = Some y" by (auto simp: confirmed_at_def split: option.splits)
  with g(1) have "x \<noteq> h" by (auto simp: grow_at_def)
  with x y g show ?thesis
    by (auto simp: confirmed_grow bview_def grow_apply [OF g(1)] with_successor_def entry_view_def)
qed

lemma cement_one_confirmed:
  assumes "confirmed_at (blocks_of l) (heights_of l) x"
  shows "confirmed_at (blocks_of (cement_one l p)) (heights_of (cement_one l p)) x \<and>
    blocks_of (cement_one l p) = blocks_of l"
proof (cases "conf_at (heights_of l) (chd_account p) < chd_height p")
  case True
  let ?ht = "(heights_of l)(chd_account p \<mapsto> \<lparr>ch_height = chd_height p, ch_frontier = chd_hash p\<rparr>)"
  have "conf_at (heights_of l) a \<le> conf_at ?ht a" for a using True by (auto simp: conf_at_def)
  from confirmed_mono [OF this assms] True show ?thesis
    by (simp add: cement_one_def conf_get store_confirmation_height_put_def cache_cemented_count_add_def)
qed (use assms in \<open>simp add: cement_one_def conf_get\<close>)

lemma cement_confirmed:
  "confirmed_at (blocks_of l) (heights_of l) x \<Longrightarrow>
     confirmed_at (blocks_of (fold (\<lambda>p l. cement_one l p) ps l)) (heights_of (fold (\<lambda>p l. cement_one l p) ps l)) x \<and>
     blocks_of (fold (\<lambda>p l. cement_one l p) ps l) = blocks_of l"
proof (induction ps arbitrary: l)
  case (Cons p ps)
  from cement_one_confirmed [OF Cons.prems, of p] Cons.IH [of "cement_one l p"] show ?case by auto
qed simp

lemma step_confirmed:
  assumes "ledger_step c k l l'" and inv: "ledger_inv c k rk rp T l" and "constants_ok k"
    and x: "confirmed_at (blocks_of l) (heights_of l) x"
  shows "confirmed_at (blocks_of l') (heights_of l') x \<and> bview (blocks_of l') x = bview (blocks_of l) x"
  using assms(1)
proof cases
  case 1: (step_process p b now v)
  show ?thesis
  proof (cases "p_code p = pr_progress")
    case True
    from process_accepted [OF inv 1(2) [rule_format, OF True] assms(3) 1(3) True] obtain e a new where
      "accepted c k l (p_ledger p) (generate_hash c b) e a new" .
    from accepted_confirmed [OF this x] 1(1) show ?thesis by simp
  next
    case False
    with process_rejected [OF 1(3)] x 1(1) show ?thesis by simp
  qed
next
  case 2: (step_rollback h n clock ls err ls')
  from rollback_keeps_confirmed [OF inv 2 x] show ?thesis .
next
  case 3: (step_cement ps cache bs)
  from cement_ok(2) [OF inv 3] cement_confirmed [OF x, of ps] show ?thesis by auto
qed

end
