(* ===== verification/Ledger_Graph.thy ===== *)
theory Ledger_Graph
  imports Block_Graph Ledger_Reach
begin

text \<open>
  The blocks of a ledger as a graph of blocks, and what a list of writes of confirmation heights
  does to the ledger.
\<close>

declare split_paired_All [simp del] split_paired_Ex [simp del]

section \<open>The graph of a ledger\<close>

definition graph_rank :: "crypto \<Rightarrow> ledger_constants \<Rightarrow> ledger \<Rightarrow> block_hash \<Rightarrow> nat" where
  "graph_rank c k l = (SOME rk. \<exists>rp T. ledger_inv c k rk rp T l)"

text \<open>The account that a block sends to is not the hash of a block.\<close>

definition hashes_apart :: "ledger \<Rightarrow> bool" where
  "hashes_apart l \<longleftrightarrow> (\<forall>x e d. blocks_of l x = Some e \<longrightarrow> entry_sends e = Some d \<longrightarrow> blocks_of l d = None)"

definition graph_blocks :: "crypto \<Rightarrow> ledger_constants \<Rightarrow> ledger \<Rightarrow> block_hash set" where
  "graph_blocks c k l = {x. sound c k l \<and> genesis_block_ok c k \<and> hashes_apart l \<and> blocks_of l x \<noteq> None}"

definition graph_account :: "ledger \<Rightarrow> block_hash \<Rightarrow> account" where
  "graph_account l x = (case blocks_of l x of None \<Rightarrow> 0 | Some e \<Rightarrow> account_calculated e)"

definition graph_height :: "ledger \<Rightarrow> block_hash \<Rightarrow> nat" where
  "graph_height l x = (case blocks_of l x of None \<Rightarrow> 0 | Some e \<Rightarrow> unat (sb_height (snd e)))"

definition graph_source :: "crypto \<Rightarrow> ledger_constants \<Rightarrow> ledger \<Rightarrow> block_hash \<Rightarrow> block_hash option" where
  "graph_source c k l x = receives_at (blocks_of l) (genesis_hash c k) x"

lemma graph_rank_inv:
  assumes "sound c k l"
  obtains rp T where "ledger_inv c k (graph_rank c k l) rp T l"
proof -
  have "\<exists>rp T. ledger_inv c k (graph_rank c k l) rp T l"
    using assms unfolding graph_rank_def sound_def by (rule someI_ex)
  with that show thesis by blast
qed

lemma graph_blockE:
  assumes "x \<in> graph_blocks c k l"
  obtains rp T e where "ledger_inv c k (graph_rank c k l) rp T l" "blocks_of l x = Some e"
    "graph_account l x = account_calculated e" "graph_height l x = unat (sb_height (snd e))"
proof -
  from assms obtain e where "sound c k l" "blocks_of l x = Some e" by (auto simp: graph_blocks_def)
  with graph_rank_inv [OF this(1)] that show thesis by (metis graph_account_def graph_height_def option.simps(5))
qed

lemma chain_rank:
  assumes inv: "ledger_inv c k rk rp T l"
  shows "blocks_of l x = Some e \<Longrightarrow> blocks_of l y = Some f \<Longrightarrow> account_calculated e = account_calculated f \<Longrightarrow>
    unat (sb_height (snd e)) < unat (sb_height (snd f)) \<Longrightarrow> rk x < rk y"
proof (induction "unat (sb_height (snd f))" arbitrary: y f rule: less_induct)
  case less
  have "prev_of f \<noteq> 0"
    using block_link [OF inv less.prems(2)] height_pos [OF inv less.prems(1)] less.prems(4) by (auto simp: link_ok_def)
  with block_link [OF inv less.prems(2)] obtain p where p: "blocks_of l (prev_of f) = Some p" "follows p f"
    "rk (prev_of f) < rk y" by (auto simp: link_ok_def)
  then have h: "unat (sb_height (snd f)) = Suc (unat (sb_height (snd p)))" "account_calculated p = account_calculated f"
    by (simp_all add: follows_def)
  show ?case
  proof (cases "unat (sb_height (snd e)) = unat (sb_height (snd p))")
    case True
    from height_unique [OF inv less.prems(1) p(1)] True less.prems(3) h(2) p(3) show ?thesis by simp
  next
    case False
    with less.hyps [OF _ less.prems(1) p(1)] less.prems(3,4) h p(3) show ?thesis by simp
  qed
qed

lemma receives_stored:
  assumes inv: "ledger_inv c k rk rp T l" and r: "receives_at (blocks_of l) (genesis_hash c k) x = Some s"
  shows "blocks_of l s \<noteq> None \<and> rk s < rk x \<and> receives_at (blocks_of l) (genesis_hash c k) s = None"
proof -
  from r obtain e where e: "blocks_of l x = Some e" "x \<noteq> genesis_hash c k" "entry_sends e = None" "entry_receives e = Some s"
    by (auto simp: receives_at_def split: option.splits if_splits)
  from flow_okD [OF ledger_invD(8) [OF inv] e(1,2)] e(3,4) have "rk s < rk x" "pays (blocks_of l) e s"
    by (auto simp: flow_ok_def)
  then show ?thesis by (auto simp: pays_def sends_at_def receives_at_def split: option.splits)
qed

text \<open>
  What a processor that walks over the blocks relies on: the graph of the stored blocks, and how the
  blocks themselves show their place in it.
\<close>

locale ledger_walk = block_graph B ac ht rk src
  for B :: "block_hash set" and ac :: "block_hash \<Rightarrow> account" and ht rk :: "block_hash \<Rightarrow> nat"
    and src :: "block_hash \<Rightarrow> block_hash option" +
  fixes c :: crypto and k :: ledger_constants and bs :: block_table
  assumes walk_stored: "x \<in> B \<Longrightarrow> bs x \<noteq> None"
    and walk_all: "x \<in> B \<Longrightarrow> bs y \<noteq> None \<Longrightarrow> y \<in> B"
    and walk_account: "x \<in> B \<Longrightarrow> account_calculated (the (bs x)) = ac x"
    and walk_height: "x \<in> B \<Longrightarrow> unat (sb_height (snd (the (bs x)))) = ht x"
    and walk_hash: "x \<in> B \<Longrightarrow> x \<noteq> 0 \<and> generate_hash c (fst (the (bs x))) = x"
    and walk_previous: "x \<in> B \<Longrightarrow> y \<in> B \<Longrightarrow> ac y = ac x \<Longrightarrow> Suc (ht y) = ht x \<Longrightarrow> prev_of (the (bs x)) = y"
    and walk_receives: "x \<in> B \<Longrightarrow> src x = receives_at bs (genesis_hash c k) x"
    and walk_source: "x \<in> B \<Longrightarrow> src x =
      (let s = collect_source (fst (the (bs x)))
       in if s \<noteq> 0 \<and> \<not> is_epoch_link k s \<and> block_exists bs s then Some s else None)"

lemma collect_source_receives:
  assumes inv: "ledger_inv c k rk rp T l" and "hashes_apart l" and g: "genesis_block_ok c k" and e: "blocks_of l x = Some e"
  shows "receives_at (blocks_of l) (genesis_hash c k) x =
    (let s = collect_source (fst e)
     in if s \<noteq> 0 \<and> \<not> is_epoch_link k s \<and> block_exists (blocks_of l) s then Some s else None)"
proof (cases "x = genesis_hash c k")
  case True
  obtain b where b: "k_genesis k = Open b" using g by (cases "k_genesis k") (auto simp: genesis_block_ok_def)
  have "fst e = k_genesis k" using ledger_invD(12) [OF inv] True e by (auto simp: genesis_ok_def)
  then have "collect_source (fst e) = block_account (k_genesis k)"
    using b g by (auto simp: collect_source_def genesis_block_ok_def)
  moreover have "blocks_of l (block_account (k_genesis k)) = None"
    using block_link [OF inv] by (cases "blocks_of l (block_account (k_genesis k))") (auto simp: link_ok_def reserved_hash_def)
  ultimately show ?thesis using True e by (simp add: receives_at_def block_exists_def)
next
  case False
  from flow_okD [OF ledger_invD(8) [OF inv] e False] have f: "flow_ok k (genesis_hash c k) rk (blocks_of l) (pending_of l) x e" .
  have st: "s \<noteq> 0 \<and> \<not> is_epoch_link k s \<and> blocks_of l s \<noteq> None" if "receives_at (blocks_of l) (genesis_hash c k) x = Some s" for s
  proof -
    from receives_stored [OF inv that] obtain r where "blocks_of l s = Some r" by auto
    from block_link [OF inv this] show ?thesis using \<open>blocks_of l s = Some r\<close> by (simp add: link_ok_def reserved_hash_def)
  qed
  have nd: "blocks_of l d = None" if "entry_sends e = Some d" for d using assms(2) e that unfolding hashes_apart_def by blast
  have k: "kind_ok k (blocks_of l) e" using f by (simp add: flow_ok_def)
  show ?thesis
  proof (cases "receives_at (blocks_of l) (genesis_hash c k) x")
    case (Some s)
    then have "entry_sends e = None" "entry_receives e = Some s" using e by (auto simp: receives_at_def split: if_splits)
    then have "collect_source (fst e) = s"
      using st [OF Some] by (cases "fst e") (auto simp: collect_source_def entry_receives_def entry_sends_def split: if_splits)
    with Some st [OF Some] show ?thesis by (simp add: block_exists_def)
  next
    case None
    then have n: "entry_sends e \<noteq> None \<or> entry_receives e = None" using e False by (auto simp: receives_at_def split: if_splits)
    have "collect_source (fst e) = 0 \<or> is_epoch_link k (collect_source (fst e)) \<or> blocks_of l (collect_source (fst e)) = None"
    proof (cases "fst e")
      case (State b)
      with n nd k show ?thesis
        by (auto simp: collect_source_def entry_receives_def entry_sends_def kind_ok_def split: if_splits)
    qed (use n in \<open>auto simp: collect_source_def entry_receives_def entry_sends_def\<close>)
    with None show ?thesis by (auto simp: block_exists_def)
  qed
qed

interpretation ledger_graph: ledger_walk "graph_blocks c k l" "graph_account l" "graph_height l"
  "graph_rank c k l" "graph_source c k l" c k "blocks_of l" for c k l
proof
  show "finite (graph_blocks c k l)"
  proof (cases "sound c k l")
    case True
    then obtain rp T where "ledger_inv c k (graph_rank c k l) rp T l" by (rule graph_rank_inv)
    from ledger_invD(1) [OF this] have "finite (dom (blocks_of l))" by (simp add: tables_finite_def)
    then show ?thesis by (rule finite_subset [rotated]) (auto simp: graph_blocks_def)
  qed (simp add: graph_blocks_def)
next
  fix x assume "x \<in> graph_blocks c k l"
  then obtain rp T e where e: "ledger_inv c k (graph_rank c k l) rp T l" "blocks_of l x = Some e"
    "graph_height l x = unat (sb_height (snd e))" by (rule graph_blockE)
  from height_pos [OF e(1,2)] e(3) show "0 < graph_height l x" by simp
next
  fix x y assume xy: "x \<in> graph_blocks c k l" "y \<in> graph_blocks c k l" "graph_account l x = graph_account l y"
  from graph_blockE [OF xy(1)] obtain rp T e where e: "ledger_inv c k (graph_rank c k l) rp T l" "blocks_of l x = Some e"
    "graph_account l x = account_calculated e" "graph_height l x = unat (sb_height (snd e))" .
  from graph_blockE [OF xy(2)] obtain f where f: "blocks_of l y = Some f"
    "graph_account l y = account_calculated f" "graph_height l y = unat (sb_height (snd f))" by metis
  have a: "account_calculated e = account_calculated f" using e(3) f(2) xy(3) by simp
  show "x = y" if "graph_height l x = graph_height l y"
    using that e(4) f(3) by (intro height_unique [OF e(1,2) f(1) a]) simp
  show "graph_rank c k l x < graph_rank c k l y" if "graph_height l x < graph_height l y"
    using that e(4) f(3) by (intro chain_rank [OF e(1,2) f(1) a]) simp
next
  fix x n assume x: "x \<in> graph_blocks c k l" and n: "0 < n" "n \<le> graph_height l x"
  from graph_blockE [OF x] obtain rp T e where e: "ledger_inv c k (graph_rank c k l) rp T l" "blocks_of l x = Some e"
    "graph_account l x = account_calculated e" "graph_height l x = unat (sb_height (snd e))" .
  have "n \<le> count_at (accounts_of l) (account_calculated e)" using height_le_count [OF e(1,2)] n(2) e(4) by simp
  from height_exists [OF e(1) n(1) this] obtain y f where f: "blocks_of l y = Some f" "account_calculated f = account_calculated e"
    "unat (sb_height (snd f)) = n" by blast
  with x e(3) show "\<exists>y \<in> graph_blocks c k l. graph_account l y = graph_account l x \<and> graph_height l y = n"
    by (intro bexI [of _ y]) (auto simp: graph_account_def graph_height_def graph_blocks_def)
next
  fix x s assume x: "x \<in> graph_blocks c k l" and s: "graph_source c k l x = Some s"
  from graph_blockE [OF x] obtain rp T where "ledger_inv c k (graph_rank c k l) rp T l" by metis
  from receives_stored [OF this] s x show "s \<in> graph_blocks c k l \<and> graph_rank c k l s < graph_rank c k l x \<and> graph_source c k l s = None"
    by (auto simp: graph_source_def graph_blocks_def)
next
  fix x y s assume x: "x \<in> graph_blocks c k l" and s: "graph_source c k l x = Some s" "graph_source c k l y = Some s"
  from graph_blockE [OF x] obtain rp T where "ledger_inv c k (graph_rank c k l) rp T l" by metis
  from ledger_invD(10) [OF this] s show "x = y" by (auto simp: graph_source_def unique_ok_def)
next
  fix x assume x: "x \<in> graph_blocks c k l"
  then show "blocks_of l x \<noteq> None" by (simp add: graph_blocks_def)
  show "y \<in> graph_blocks c k l" if "blocks_of l y \<noteq> None" for y using x that by (simp add: graph_blocks_def)
  from graph_blockE [OF x] obtain rp T e where e: "ledger_inv c k (graph_rank c k l) rp T l" "blocks_of l x = Some e"
    "graph_account l x = account_calculated e" "graph_height l x = unat (sb_height (snd e))" .
  note lk = block_link [OF e(1,2)]
  from e(2-4) lk show "account_calculated (the (blocks_of l x)) = graph_account l x"
    "unat (sb_height (snd (the (blocks_of l x)))) = graph_height l x"
    "x \<noteq> 0 \<and> generate_hash c (fst (the (blocks_of l x))) = x" by (simp_all add: link_ok_def)
  show "graph_source c k l x = receives_at (blocks_of l) (genesis_hash c k) x" by (simp add: graph_source_def)
  have "genesis_block_ok c k" "hashes_apart l" using x by (simp_all add: graph_blocks_def)
  from collect_source_receives [OF e(1) this(2,1) e(2)] e(2)
  show "graph_source c k l x =
      (let s = collect_source (fst (the (blocks_of l x)))
       in if s \<noteq> 0 \<and> \<not> is_epoch_link k s \<and> block_exists (blocks_of l) s then Some s else None)"
    by (simp add: graph_source_def)
  fix y assume y: "y \<in> graph_blocks c k l" "graph_account l y = graph_account l x" "Suc (graph_height l y) = graph_height l x"
  from graph_blockE [OF y(1)] obtain f where f: "blocks_of l y = Some f" "graph_account l y = account_calculated f"
    "graph_height l y = unat (sb_height (snd f))" by metis
  have "prev_of e \<noteq> 0" using lk y(3) e(4) f(3) height_pos [OF e(1) f(1)] by (auto simp: link_ok_def)
  with lk obtain p where p: "blocks_of l (prev_of e) = Some p" "follows p e" by (auto simp: link_ok_def)
  have "prev_of e = y"
    by (rule height_unique [OF e(1) p(1) f(1)]) (use p(2) e f y in \<open>auto simp: follows_def\<close>)
  with e(2) show "prev_of (the (blocks_of l x)) = y" by simp
qed

end
