(* ===== verification/Cement_Writes.thy ===== *)
theory Cement_Writes
  imports Ledger_Graph
begin

text \<open>
  The writes of a processor as a plan over the graph of blocks, and what \<open>cement_blocks\<close> does with
  them.
\<close>

declare split_paired_All [simp del] split_paired_Ex [simp del]

definition conf_heights :: "ledger \<Rightarrow> account \<Rightarrow> nat" where
  "conf_heights l a = unat (conf_at (heights_of l) a)"

text \<open>A ledger whose confirmation heights and cemented count have changed, and nothing else.\<close>

definition recemented :: "ledger \<Rightarrow> nat \<Rightarrow> ledger \<Rightarrow> bool" where
  "recemented l n l' \<longleftrightarrow>
     (\<exists>ht. l' = l\<lparr>l_store := (l_store l)\<lparr>st_confirmation_height := ht\<rparr>,
               l_cache := (l_cache l)\<lparr>lc_cemented_count := lc_cemented_count (l_cache l) + of_nat n\<rparr>\<rparr>)"

lemma recemented_refl: "recemented l 0 l"
  unfolding recemented_def by (rule exI [of _ "heights_of l"]) simp

lemma recemented_trans: "recemented l m l' \<Longrightarrow> recemented l' n l'' \<Longrightarrow> recemented l (m + n) l''"
  unfolding recemented_def by (elim exE) (simp add: add.assoc, blast)

context ledger_walk
begin

definition entry :: "block_hash \<Rightarrow> block_entry" where
  "entry x = the (bs x)"

lemma entry_stored: "x \<in> B \<Longrightarrow> bs x = Some (entry x)"
  using walk_stored [of x] by (simp add: entry_def)

definition write_of :: "(account \<Rightarrow> nat) \<Rightarrow> block_hash \<Rightarrow> conf_height_details" where
  "write_of v x =
     conf_height_details_new (ac x) x (of_nat (ht x)) (of_nat (ht x - v (ac x))) (segment (ac x) (v (ac x)) (ht x))"

fun writes_of :: "(account \<Rightarrow> nat) \<Rightarrow> block_hash list \<Rightarrow> conf_height_details list" where
  "writes_of v [] = []"
| "writes_of v (x # xs) = write_of v x # writes_of (raise v x) xs"

lemma writes_of_append: "plan v xs v' \<Longrightarrow> writes_of v (xs @ ys) = writes_of v xs @ writes_of v' ys"
  by (induction xs arbitrary: v) auto

lemma height_word:
  assumes "x \<in> B"
  shows "of_nat (ht x) = sb_height (snd (entry x))" "unat (of_nat (ht x) :: u64) = ht x"
  unfolding walk_height [OF assms, symmetric] by (simp_all add: entry_def)

lemma entryE:
  assumes "x \<in> B"
  obtains e where "bs x = Some e" "account_calculated e = ac x" "unat (sb_height (snd e)) = ht x"
    "sb_height (snd e) = of_nat (ht x)" "entry x = e"
  using entry_stored [OF assms] walk_account [OF assms] walk_height [OF assms] height_word(1) [OF assms]
  by (metis entry_def)

lemma write_of_simps [simp]:
  "chd_account (write_of v x) = ac x" "chd_hash (write_of v x) = x" "chd_height (write_of v x) = of_nat (ht x)"
  "chd_num_blocks_confirmed (write_of v x) = of_nat (ht x - v (ac x))"
  "chd_block_callback_data (write_of v x) = segment (ac x) (v (ac x)) (ht x)"
  by (simp_all add: write_of_def conf_height_details_new_def)

lemma write_less:
  assumes "raise_ok v x" and "conf_heights l = v"
  shows "ch_height (snd (store_confirmation_height_get l (ac x))) < of_nat (ht x)"
proof -
  have "conf_heights l (ac x) < ht x" "x \<in> B" using assms by (auto simp: raise_ok_def)
  then show ?thesis unfolding conf_get by (simp add: conf_heights_def word_less_nat_alt height_word(2))
qed

lemma cement_one_write:
  assumes ok: "raise_ok v x" and v: "conf_heights l = v"
  shows "conf_heights (cement_one l (write_of v x)) = raise v x"
    and "blocks_of (cement_one l (write_of v x)) = blocks_of l"
    and "recemented l (length (segment (ac x) (v (ac x)) (ht x))) (cement_one l (write_of v x))"
proof -
  have x: "x \<in> B" using ok by (simp add: raise_ok_def)
  have one: "cement_one l (write_of v x) = store_confirmation_height_put
      (cache_cemented_count_add l (of_nat (ht x - v (ac x)))) (ac x) \<lparr>ch_height = of_nat (ht x), ch_frontier = x\<rparr>"
    using write_less [OF ok v] by (simp add: cement_one_def)
  show "conf_heights (cement_one l (write_of v x)) = raise v x"
    unfolding one using v
    by (auto simp: fun_eq_iff conf_heights_def conf_at_def raise_def store_confirmation_height_put_def
        cache_cemented_count_add_def height_word(2) [OF x])
  show "blocks_of (cement_one l (write_of v x)) = blocks_of l"
    unfolding one by (simp add: store_confirmation_height_put_def cache_cemented_count_add_def)
  show "recemented l (length (segment (ac x) (v (ac x)) (ht x))) (cement_one l (write_of v x))"
    unfolding one recemented_def
    by (rule exI [of _ "(heights_of l)(ac x \<mapsto> \<lparr>ch_height = of_nat (ht x), ch_frontier = x\<rparr>)"])
      (rule ledger.equality, simp_all add: store_confirmation_height_put_def cache_cemented_count_add_def)
qed

lemma write_of_ok:
  assumes ok: "raise_ok v x" and v: "conf_heights l = v" and bl: "blocks_of l = bs" and cl: "sources_closed v"
  shows "write_ok c k l (write_of v x)" and "sources_closed (raise v x)"
proof -
  have x: "x \<in> B" "v (ac x) < ht x" using ok by (simp_all add: raise_ok_def)
  show cl': "sources_closed (raise v x)"
    unfolding sources_closed_def
  proof (intro allI impI)
    fix y z assume y: "y \<in> B" "src y = Some z" "ht y \<le> raise v x (ac y)"
    show "ht z \<le> raise v x (ac z)"
    proof (cases "ht y \<le> v (ac y)")
      case True
      with y cl have "ht z \<le> v (ac z)" by (simp add: sources_closed_def)
      with x(2) show ?thesis by (auto simp: raise_def)
    next
      case False
      with y have "ac y = ac x" "v (ac x) < ht y" "ht y \<le> ht x" by (auto simp: raise_def split: if_splits)
      with ok y show ?thesis by (simp add: raise_ok_def)
    qed
  qed
  let ?ht = "(heights_of l)(ac x \<mapsto> \<lparr>ch_height = of_nat (ht x), ch_frontier = x\<rparr>)"
  have cf: "confirmed_at bs ?ht y \<longleftrightarrow> ht y \<le> raise v x (ac y)" if y: "y \<in> B" for y
  proof -
    obtain e where "bs y = Some e" "account_calculated e = ac y" "unat (sb_height (snd e)) = ht y" using y by (rule entryE)
    with v show ?thesis
      by (auto simp: confirmed_at_def conf_at_def conf_heights_def raise_def word_le_nat_alt height_word(2) [OF x(1)])
  qed
  have s: "confirmed_at bs ?ht z" if r: "receives_at bs (genesis_hash c k) y = Some z" "confirmed_at bs ?ht y" for y z
  proof -
    have y: "y \<in> B" using r(1) walk_all [OF x(1)] by (auto simp: receives_at_def split: option.splits)
    with r(1) walk_receives have s: "src y = Some z" by simp
    with cl' y r(2) cf [OF y] have "ht z \<le> raise v x (ac z)" by (simp add: sources_closed_def)
    with cf graph_source [OF y s] show ?thesis by simp
  qed
  obtain e where e: "bs x = Some e" "account_calculated e = ac x" "sb_height (snd e) = of_nat (ht x)"
    using x(1) by (rule entryE)
  show "write_ok c k l (write_of v x)"
    unfolding write_ok_def bl write_of_simps using e s by (intro conjI allI impI) (simp, blast)
qed

lemma those_entries: "set xs \<subseteq> B \<Longrightarrow> \<forall>h \<in> set xs. cache h = bs h \<Longrightarrow> those (map cache xs) = Some (map entry xs)"
  using entry_stored by (induction xs) auto

lemma cement_loop_write:
  assumes ok: "raise_ok v x" and v: "conf_heights l = v" and bl: "blocks_of l = bs"
    and cache: "\<forall>h \<in> set (segment (ac x) (v (ac x)) (ht x)). cache h = bs h"
  shows "cement_loop cache l (write_of v x # ps) cem =
    cement_loop cache (cement_one l (write_of v x)) ps (cem @ map entry (rev (segment (ac x) (v (ac x)) (ht x))))"
proof -
  have x: "x \<in> B" using ok by (simp add: raise_ok_def)
  have "set (rev (segment (ac x) (v (ac x)) (ht x))) \<subseteq> B" using segment_mem [OF x order_refl] by auto
  from those_entries [OF this, of cache] cache
  have "those (map cache (rev (segment (ac x) (v (ac x)) (ht x)))) = Some (map entry (rev (segment (ac x) (v (ac x)) (ht x))))"
    by simp
  then show ?thesis
    using write_less [OF ok v] entry_stored [OF x] by (simp add: cement_one_def block_get_def bl Let_def)
qed

lemma cement_writes:
  assumes "plan v xs v'" and "conf_heights l = v" and "blocks_of l = bs" and "sources_closed v"
    and "\<forall>h \<in> set (raised v xs). cache h = bs h"
  shows "\<exists>l'. cement_loop cache l (writes_of v xs) cem = Some (False, [], l', cem @ map entry (raised v xs)) \<and>
    conf_heights l' = v' \<and> blocks_of l' = bs \<and> sources_closed v' \<and> recemented l (length (raised v xs)) l' \<and>
    writes_ok c k l (writes_of v xs)"
  using assms
proof (induction xs arbitrary: v l cem)
  case Nil
  then show ?case by (simp add: recemented_refl)
next
  case (Cons x xs)
  let ?l = "cement_one l (write_of v x)" and ?seg = "segment (ac x) (v (ac x)) (ht x)"
  have ok: "raise_ok v x" and p: "plan (raise v x) xs v'" using Cons.prems(1) by simp_all
  note one = cement_one_write [OF ok Cons.prems(2)]
  note w = write_of_ok [OF ok Cons.prems(2-4)]
  have "blocks_of ?l = bs" "\<forall>h \<in> set (raised (raise v x) xs). cache h = bs h" using one(2) Cons.prems(3,5) by simp_all
  from Cons.IH [OF p one(1) this(1) w(2) this(2), of "cem @ map entry (rev ?seg)"] obtain l' where
    l': "cement_loop cache ?l (writes_of (raise v x) xs) (cem @ map entry (rev ?seg)) =
        Some (False, [], l', (cem @ map entry (rev ?seg)) @ map entry (raised (raise v x) xs))"
      "conf_heights l' = v'" "blocks_of l' = bs" "sources_closed v'" "recemented ?l (length (raised (raise v x) xs)) l'"
      "writes_ok c k ?l (writes_of (raise v x) xs)" by blast
  have "cement_loop cache l (writes_of v (x # xs)) cem = Some (False, [], l', cem @ map entry (raised v (x # xs)))"
    using cement_loop_write [OF ok Cons.prems(2,3)] Cons.prems(5) l'(1) by simp
  moreover have "recemented l (length (raised v (x # xs))) l'" using recemented_trans [OF one(3) l'(5)] by simp
  ultimately show ?case using l' w(1) by (intro exI [of _ l']) simp
qed

end

end
