(* ===== verification/Unbounded_Collect.thy ===== *)
theory Unbounded_Collect
  imports Cement_Writes
begin

text \<open>
  \<open>collect_unconfirmed_receive_and_sources_for_account\<close> goes down a chain: it leaves a pair and a
  record for every receive block, and the blocks in between belong to the receive block above them.
\<close>

declare split_paired_All [simp del] split_paired_Ex [simp del]

context ledger_walk
begin

definition cache_ok :: "confirmation_height_unbounded \<Rightarrow> bool" where
  "cache_ok st \<longleftrightarrow> (\<forall>h. cu_block_cache st h = None \<or> cu_block_cache st h = Some (bs h))"

definition framed :: "block_hash list \<Rightarrow> confirmation_height_unbounded \<Rightarrow> confirmation_height_unbounded \<Rightarrow> bool" where
  "framed hs st st' \<longleftrightarrow>
     cu_confirmed_iterated_pairs st' = cu_confirmed_iterated_pairs st \<and>
     cu_pending_writes st' = cu_pending_writes st \<and>
     cu_block_cache st' = (\<lambda>h. if h \<in> set hs then Some (bs h) else cu_block_cache st h) \<and>
     (\<forall>y. y \<notin> set hs \<longrightarrow> cu_implicit_receive_cemented_mapping st' y = cu_implicit_receive_cemented_mapping st y)"

fun new_pairs :: "nat \<Rightarrow> (block_hash \<times> block_hash list) list \<Rightarrow> receive_source_pair list" where
  "new_pairs m [] = []"
| "new_pairs m ((r, d) # rs) = \<lparr>rsp_receive_details = m, rsp_source_hash = source r\<rparr> # new_pairs (Suc m) rs"

fun pairs_made :: "confirmation_height_unbounded \<Rightarrow> nat \<Rightarrow> (block_hash \<times> block_hash list) list \<Rightarrow> bool" where
  "pairs_made st m [] = True"
| "pairs_made st m ((r, d) # rs) \<longleftrightarrow>
     cu_details st m = conf_height_details_new (ac r) r (of_nat (ht r)) (of_nat (Suc (length d))) (r # d) \<and>
     (\<forall>y \<in> set d. cu_implicit_receive_cemented_mapping st y = Some m) \<and> pairs_made st (Suc m) rs"

lemma framed_trans:
  "framed hs st st' \<Longrightarrow> framed hs' st' st'' \<Longrightarrow> set gs = set hs \<union> set hs' \<Longrightarrow> framed gs st st''"
  by (auto simp: framed_def fun_eq_iff)

lemma framed_cache_ok: "framed hs st st' \<Longrightarrow> cache_ok st \<Longrightarrow> cache_ok st'"
  by (simp add: framed_def cache_ok_def)

lemma cache_block_simps [simp]:
  "cu_confirmed_iterated_pairs (cache_block st h b) = cu_confirmed_iterated_pairs st"
  "cu_pending_writes (cache_block st h b) = cu_pending_writes st"
  "cu_implicit_receive_cemented_mapping (cache_block st h b) = cu_implicit_receive_cemented_mapping st"
  "cu_block_cache (cache_block st h b) = (cu_block_cache st)(h \<mapsto> b)"
  "cu_details (cache_block st h b) = cu_details st" "cu_next_details (cache_block st h b) = cu_next_details st"
  by (simp_all add: cache_block_def)

lemma get_block_cached:
  assumes "x \<in> B" and "cache_ok st" and "blocks_of l = bs"
  shows "get_block_and_sideband l st x = (Some (entry x), cache_block st x (Some (entry x)))"
proof (cases "cu_block_cache st x")
  case None
  then show ?thesis using entry_stored [OF assms(1)] assms(3) by (simp add: get_block_and_sideband_def block_get_def Let_def)
next
  case (Some b)
  with assms(2) have b: "b = bs x" by (auto simp: cache_ok_def dest: spec [of _ x])
  then have "cache_block st x (bs x) = st" using Some by (simp add: cache_block_def fun_upd_idem)
  with Some b entry_stored [OF assms(1)] show ?thesis by (simp add: get_block_and_sideband_def)
qed

section \<open>One block\<close>

lemma collect_step:
  assumes x: "x \<in> B" and c: "cache_ok st" and bl: "blocks_of l = bs" and "\<not> stopped (Suc n)" and "first \<Longrightarrow> b = entry x"
  shows "collect_loop k l stopped b a it (Suc n) x first orig hit st v =
    (let st = cache_block st x (Some (entry x)); previous = prev_of (entry x) in
     case src x of
       Some s \<Rightarrow>
         do { (st, v) \<leftarrow> collect_receive a x (it + of_nat (Suc n)) s hit st v;
              collect_loop k l stopped b a it n previous False False True st v }
     | None \<Rightarrow>
         if orig then
           collect_loop k l stopped b a it n previous False orig hit st
             (v\<lparr>cv_orig_block_callback_data := cv_orig_block_callback_data v @ [x]\<rparr>)
         else if \<not> hit then
           collect_loop k l stopped b a it n previous False orig hit st
             (v\<lparr>cv_block_callback_data := cv_block_callback_data v @ [x]\<rparr>)
         else do { st \<leftarrow> collect_below x st v; collect_loop k l stopped b a it n previous False orig hit st v })"
proof -
  have "x \<noteq> 0" using walk_hash [OF x] by simp
  moreover have "(if first then (Some b, cache_block st x (Some b)) else get_block_and_sideband l st x) =
      (Some (entry x), cache_block st x (Some (entry x)))"
    using get_block_cached [OF x c bl] assms(5) by simp
  moreover have "src x = (let s = collect_source (fst (entry x)) in
      if s \<noteq> 0 \<and> \<not> is_epoch_link k s \<and> block_exists bs s then Some s else None)"
    using walk_source [OF x] by (simp add: entry_def)
  ultimately show ?thesis using assms(4) bl by (simp add: Let_def)
qed

lemma collect_previous:
  assumes z: "z \<in> B" "ac z = a" "i + Suc n \<le> ht z"
  shows "collect_loop k l stopped b a it n (prev_of (entry (block_at a (i + Suc n)))) =
    collect_loop k l stopped b a it n (block_at a (i + n))"
proof (cases n)
  case (Suc m)
  let ?x = "block_at a (i + Suc n)" and ?y = "block_at a (i + n)"
  have "?x \<in> B" "ac ?x = a" "ht ?x = i + Suc n" "?y \<in> B" "ac ?y = a" "ht ?y = i + n"
    using block_at_below [OF z(1), of "i + Suc n"] block_at_below [OF z(1), of "i + n"] z Suc by auto
  then have "prev_of (entry ?x) = ?y" using walk_previous [of ?x ?y] by (simp add: entry_def)
  then show ?thesis by simp
qed (simp add: fun_eq_iff)

lemma block_at_step:
  assumes "z \<in> B" "ac z = a" "i + Suc n \<le> ht z"
  shows "block_at a (i + Suc n) \<in> B" "ac (block_at a (i + Suc n)) = a" "ht (block_at a (i + Suc n)) = i + Suc n"
    "segment a i (i + Suc n) = block_at a (i + Suc n) # segment a i (i + n)"
  using block_at_below [OF assms(1), of "i + Suc n"] assms(2,3) by auto

lemma collect_receive_hit:
  "collect_receive a x h s True st v =
     Some (st\<lparr>cu_details := (cu_details st)(cu_next_details st := conf_height_details_new a x h 1 [x]),
             cu_next_details := Suc (cu_next_details st)\<rparr>,
           v\<lparr>cv_receive_source_pairs := cv_receive_source_pairs v @
               [\<lparr>rsp_receive_details = cu_next_details st, rsp_source_hash = s\<rparr>]\<rparr>)"
  by (simp add: collect_receive_def Let_def)

section \<open>Below a receive block\<close>

lemma collect_hit:
  assumes z: "z \<in> B" "ac z = a" and bl: "blocks_of l = bs" and ns: "\<And>n. \<not> stopped n" and it: "unat it = i"
  shows "i + n \<le> ht z \<Longrightarrow> scan a i n = (d, rs) \<Longrightarrow> cv_receive_source_pairs v \<noteq> [] \<Longrightarrow>
    rsp_receive_details (last (cv_receive_source_pairs v)) = p \<Longrightarrow> p < cu_next_details st \<Longrightarrow> cache_ok st \<Longrightarrow>
    \<exists>st'. collect_loop k l stopped b a it n (block_at a (i + n)) False False True st v =
        Some (st', v\<lparr>cv_receive_source_pairs := cv_receive_source_pairs v @ new_pairs (cu_next_details st) rs\<rparr>) \<and>
      framed (segment a i (i + n)) st st' \<and> cu_next_details st' = cu_next_details st + length rs \<and>
      (\<forall>q < cu_next_details st. q \<noteq> p \<longrightarrow> cu_details st' q = cu_details st q) \<and>
      cu_details st' p = (cu_details st p)
        \<lparr>chd_num_blocks_confirmed := chd_num_blocks_confirmed (cu_details st p) + of_nat (length d),
         chd_block_callback_data := chd_block_callback_data (cu_details st p) @ d\<rparr> \<and>
      (\<forall>y \<in> set d. cu_implicit_receive_cemented_mapping st' y = Some p) \<and>
      pairs_made st' (cu_next_details st) rs"
proof (induction n arbitrary: d rs v p st)
  case 0
  then show ?case by (auto simp: framed_def)
next
  case (Suc n)
  let ?x = "block_at a (i + Suc n)" and ?m = "cu_next_details st"
  note x = block_at_step [OF z Suc.prems(1)]
  let ?c = "cache_block st ?x (Some (entry ?x))"
  have cok: "cache_ok ?c" using Suc.prems(6) entry_stored [OF x(1)] by (simp add: cache_ok_def)
  obtain d' rs' where s: "scan a i n = (d', rs')" by force
  have new: "y \<notin> set (segment a i (i + n))" if "y = ?x" for y
    using segment_mem [OF x(1), of "i + n" y i] x(2,3) that by simp
  have step: "collect_loop k l stopped b a it (Suc n) ?x False False True st v =
      (case src ?x of
         Some s \<Rightarrow>
           do { (st, v) \<leftarrow> collect_receive a ?x (it + of_nat (Suc n)) s True ?c v;
                collect_loop k l stopped b a it n (block_at a (i + n)) False False True st v }
       | None \<Rightarrow> do { st \<leftarrow> collect_below ?x ?c v; collect_loop k l stopped b a it n (block_at a (i + n)) False False True st v })"
    by (subst collect_step [OF x(1) Suc.prems(6) bl ns], simp)
      (unfold collect_previous [OF z Suc.prems(1)] Let_def, simp only: if_False not_True_eq_False)
  show ?case
  proof (cases "src ?x")
    case None
    then have sc: "d = ?x # d'" "rs = rs'" using Suc.prems(2) s by auto
    let ?s = "(details_update (\<lambda>d. d\<lparr>chd_num_blocks_confirmed := chd_num_blocks_confirmed d + 1,
                 chd_block_callback_data := chd_block_callback_data d @ [?x]\<rparr>) p ?c)
              \<lparr>cu_implicit_receive_cemented_mapping := (cu_implicit_receive_cemented_mapping st)(?x \<mapsto> p)\<rparr>"
    have sok: "cache_ok ?s" "p < cu_next_details ?s" using cok Suc.prems(5) by (simp_all add: cache_ok_def details_update_def)
    have "collect_below ?x ?c v = Some ?s" using Suc.prems(3,4) by (simp add: collect_below_def Let_def)
    with step None have run: "collect_loop k l stopped b a it (Suc n) ?x False False True st v =
        collect_loop k l stopped b a it n (block_at a (i + n)) False False True ?s v" by simp
    have f: "framed [?x] st ?s" using entry_stored [OF x(1)] by (auto simp: framed_def details_update_def)
    from Suc.IH [OF _ s Suc.prems(3,4) sok(2,1)] Suc.prems(1) obtain st' where
      st': "collect_loop k l stopped b a it n (block_at a (i + n)) False False True ?s v =
          Some (st', v\<lparr>cv_receive_source_pairs := cv_receive_source_pairs v @ new_pairs (cu_next_details ?s) rs'\<rparr>)"
        "framed (segment a i (i + n)) ?s st'" "cu_next_details st' = cu_next_details ?s + length rs'"
        "\<forall>q < cu_next_details ?s. q \<noteq> p \<longrightarrow> cu_details st' q = cu_details ?s q"
        "cu_details st' p = (cu_details ?s p)
          \<lparr>chd_num_blocks_confirmed := chd_num_blocks_confirmed (cu_details ?s p) + of_nat (length d'),
           chd_block_callback_data := chd_block_callback_data (cu_details ?s p) @ d'\<rparr>"
        "\<forall>y \<in> set d'. cu_implicit_receive_cemented_mapping st' y = Some p"
        "pairs_made st' (cu_next_details ?s) rs'" by auto
    have n: "cu_next_details ?s = ?m" by (simp add: details_update_def)
    have "cu_implicit_receive_cemented_mapping st' ?x = Some p"
      using st'(2) new by (simp add: framed_def)
    moreover have "framed (segment a i (i + Suc n)) st st'" by (rule framed_trans [OF f st'(2)]) (simp add: x(4))
    ultimately show ?thesis
      unfolding run sc using st'(1,3-7) unfolding n
      by (intro exI [of _ st']) (simp add: details_update_def add.assoc)
  next
    case (Some y)
    then have sc: "d = []" "rs = (?x, d') # rs'" and y: "source ?x = y" using Suc.prems(2) s by (auto simp: source_def)
    let ?s = "?c\<lparr>cu_details := (cu_details st)(?m := conf_height_details_new a ?x (it + of_nat (Suc n)) 1 [?x]),
             cu_next_details := Suc ?m\<rparr>"
    let ?v = "v\<lparr>cv_receive_source_pairs := cv_receive_source_pairs v @ [\<lparr>rsp_receive_details = ?m, rsp_source_hash = y\<rparr>]\<rparr>"
    have run: "collect_loop k l stopped b a it (Suc n) ?x False False True st v =
        collect_loop k l stopped b a it n (block_at a (i + n)) False False True ?s ?v"
      using step Some by (simp add: collect_receive_hit)
    have sok: "cache_ok ?s" using cok by (simp add: cache_ok_def)
    have f: "framed [?x] st ?s" using entry_stored [OF x(1)] by (auto simp: framed_def)
    from Suc.IH [OF _ s, of ?v ?m ?s] Suc.prems(1) sok obtain st' where
      st': "collect_loop k l stopped b a it n (block_at a (i + n)) False False True ?s ?v =
          Some (st', ?v\<lparr>cv_receive_source_pairs := cv_receive_source_pairs ?v @ new_pairs (Suc ?m) rs'\<rparr>)"
        "framed (segment a i (i + n)) ?s st'" "cu_next_details st' = Suc ?m + length rs'"
        "\<forall>q < Suc ?m. q \<noteq> ?m \<longrightarrow> cu_details st' q = cu_details ?s q"
        "cu_details st' ?m = (cu_details ?s ?m)
          \<lparr>chd_num_blocks_confirmed := chd_num_blocks_confirmed (cu_details ?s ?m) + of_nat (length d'),
           chd_block_callback_data := chd_block_callback_data (cu_details ?s ?m) @ d'\<rparr>"
        "\<forall>y \<in> set d'. cu_implicit_receive_cemented_mapping st' y = Some ?m"
        "pairs_made st' (Suc ?m) rs'" by auto
    have "it = of_nat i" unfolding it [symmetric] by simp
    then have "it + of_nat (Suc n) = of_nat (ht ?x)" unfolding x(3) by simp
    then have "pairs_made st' ?m rs"
      using st'(5-7) x(2) unfolding sc by (simp add: conf_height_details_new_def)
    moreover have "framed (segment a i (i + Suc n)) st st'" by (rule framed_trans [OF f st'(2)]) (simp add: x(4))
    moreover have "\<forall>q < ?m. cu_details st' q = cu_details st q" using st'(4) by auto
    moreover have "cu_next_details st' = ?m + length rs" using st'(3) by (simp add: sc)
    moreover have "collect_loop k l stopped b a it (Suc n) ?x False False True st v =
        Some (st', v\<lparr>cv_receive_source_pairs := cv_receive_source_pairs v @ new_pairs ?m rs\<rparr>)"
      unfolding run st'(1) using y by (simp add: sc)
    moreover have "cu_details st' p = cu_details st p" using st'(4) Suc.prems(5) by auto
    ultimately show ?thesis using sc(1) by (intro exI [of _ st']) (simp only: list.size list.set append_Nil2 of_nat_0 add_0_right, simp)
  qed
qed

section \<open>Above the first receive block\<close>

text \<open>
  The first receive block of a chain.  The blocks above it were put into the callback data of the
  original block or of the function; in the latter case they now go to the last pair.
\<close>

lemma collect_first_receive:
  assumes z: "z \<in> B" "ac z = a" and bl: "blocks_of l = bs" and ns: "\<And>n. \<not> stopped n" and it: "unat it = i"
    and n: "i + Suc n \<le> ht z" and sc: "scan a i n = (d, rs)" and c: "cache_ok st" and y: "src (block_at a (i + Suc n)) = Some y"
    and b: "first \<Longrightarrow> b = entry (block_at a (i + Suc n))"
    and st1: "st1 = (if cv_block_callback_data v = [] then st
      else details_update (\<lambda>d. d\<lparr>chd_source_block_callback_data := cv_block_callback_data v\<rparr>)
        (rsp_receive_details (last (cv_receive_source_pairs v))) st)"
    and ps: "cv_block_callback_data v = [] \<or> cv_receive_source_pairs v \<noteq> []"
  shows "\<exists>st'. collect_loop k l stopped b a it (Suc n) (block_at a (i + Suc n)) first orig False st v =
      Some (st', v\<lparr>cv_block_callback_data := [], cv_receive_source_pairs := cv_receive_source_pairs v @
        new_pairs (cu_next_details st) ((block_at a (i + Suc n), d) # rs)\<rparr>) \<and>
    framed (segment a i (i + Suc n)) st st' \<and> cu_next_details st' = cu_next_details st + Suc (length rs) \<and>
    (\<forall>q < cu_next_details st. cu_details st' q = cu_details st1 q) \<and>
    pairs_made st' (cu_next_details st) ((block_at a (i + Suc n), d) # rs)"
proof -
  let ?x = "block_at a (i + Suc n)" and ?m = "cu_next_details st"
  note x = block_at_step [OF z n]
  let ?c = "cache_block st ?x (Some (entry ?x))" and ?c1 = "cache_block st1 ?x (Some (entry ?x))"
  let ?s = "?c1\<lparr>cu_details := (cu_details st1)(?m := conf_height_details_new a ?x (it + of_nat (Suc n)) 1 [?x]),
             cu_next_details := Suc ?m\<rparr>"
  let ?v = "v\<lparr>cv_block_callback_data := [], cv_receive_source_pairs := cv_receive_source_pairs v @
      [\<lparr>rsp_receive_details = ?m, rsp_source_hash = y\<rparr>]\<rparr>"
  have rcv: "collect_receive a ?x (it + of_nat (Suc n)) y False ?c v = Some (?s, ?v)"
    using ps by (auto simp: collect_receive_def st1 details_update_def cache_block_def Let_def)
  have run: "collect_loop k l stopped b a it (Suc n) ?x first orig False st v =
      collect_loop k l stopped b a it n (block_at a (i + n)) False False True ?s ?v"
  proof -
    have "collect_loop k l stopped b a it (Suc n) ?x first orig False st v =
        do { (st, v) \<leftarrow> collect_receive a ?x (it + of_nat (Suc n)) y False ?c v;
             collect_loop k l stopped b a it n (prev_of (entry ?x)) False False True st v }"
      using b by (subst collect_step [OF x(1) c bl ns]) (simp_all add: y Let_def del: add_Suc_right)
    then show ?thesis unfolding rcv collect_previous [OF z n] by simp
  qed
  have st1f: "framed [] st st1" "cu_next_details st1 = ?m" by (auto simp: st1 framed_def details_update_def)
  have sok: "cache_ok ?s" using c entry_stored [OF x(1)] st1f(1) by (simp add: cache_ok_def framed_def)
  have f: "framed [?x] st ?s" using entry_stored [OF x(1)] st1f(1) by (auto simp: framed_def)
  from collect_hit [where stopped = stopped, OF z bl ns it _ sc, where v = ?v and p = ?m and st = ?s and b = b] n sok st1f(2) obtain st' where
    st': "collect_loop k l stopped b a it n (block_at a (i + n)) False False True ?s ?v =
        Some (st', ?v\<lparr>cv_receive_source_pairs := cv_receive_source_pairs ?v @ new_pairs (Suc ?m) rs\<rparr>)"
      "framed (segment a i (i + n)) ?s st'" "cu_next_details st' = Suc ?m + length rs"
      "\<forall>q < Suc ?m. q \<noteq> ?m \<longrightarrow> cu_details st' q = cu_details ?s q"
      "cu_details st' ?m = (cu_details ?s ?m)
        \<lparr>chd_num_blocks_confirmed := chd_num_blocks_confirmed (cu_details ?s ?m) + of_nat (length d),
         chd_block_callback_data := chd_block_callback_data (cu_details ?s ?m) @ d\<rparr>"
      "\<forall>y \<in> set d. cu_implicit_receive_cemented_mapping st' y = Some ?m"
      "pairs_made st' (Suc ?m) rs" by auto
  have "it = of_nat i" unfolding it [symmetric] by simp
  then have "it + of_nat (Suc n) = of_nat (ht ?x)" unfolding x(3) by simp
  then have "pairs_made st' ?m ((?x, d) # rs)" using st'(5-7) x(2) by (simp add: conf_height_details_new_def)
  moreover have "framed (segment a i (i + Suc n)) st st'" by (rule framed_trans [OF f st'(2)]) (simp add: x(4))
  moreover have "\<forall>q < ?m. cu_details st' q = cu_details st1 q" using st'(4) by auto
  moreover have "source ?x = y" using y by (simp add: source_def)
  then have "new_pairs ?m ((?x, d) # rs) = \<lparr>rsp_receive_details = ?m, rsp_source_hash = y\<rparr> # new_pairs (Suc ?m) rs" by simp
  then have "collect_loop k l stopped b a it (Suc n) ?x first orig False st v =
      Some (st', v\<lparr>cv_block_callback_data := [], cv_receive_source_pairs := cv_receive_source_pairs v @ new_pairs ?m ((?x, d) # rs)\<rparr>)"
    unfolding run st'(1) by simp
  moreover have "cu_next_details st' = ?m + Suc (length rs)" using st'(3) by simp
  ultimately show ?thesis by blast
qed

text \<open>All of a chain, from the original block and from a source.\<close>

lemma collect_original:
  assumes z: "z \<in> B" "ac z = a" and bl: "blocks_of l = bs" and ns: "\<And>n. \<not> stopped n" and it: "unat it = i"
  shows "i + n \<le> ht z \<Longrightarrow> scan a i n = (d, rs) \<Longrightarrow> cache_ok st \<Longrightarrow> cv_block_callback_data v = [] \<Longrightarrow>
    (first \<Longrightarrow> b = entry (block_at a (i + n))) \<Longrightarrow>
    \<exists>st'. collect_loop k l stopped b a it n (block_at a (i + n)) first True False st v =
        Some (st', v\<lparr>cv_orig_block_callback_data := cv_orig_block_callback_data v @ d,
          cv_receive_source_pairs := cv_receive_source_pairs v @ new_pairs (cu_next_details st) rs\<rparr>) \<and>
      framed (segment a i (i + n)) st st' \<and> cu_next_details st' = cu_next_details st + length rs \<and>
      (\<forall>q < cu_next_details st. cu_details st' q = cu_details st q) \<and> pairs_made st' (cu_next_details st) rs"
proof (induction n arbitrary: d rs v st first)
  case 0
  then show ?case by (auto simp: framed_def)
next
  case (Suc n)
  let ?x = "block_at a (i + Suc n)"
  note x = block_at_step [OF z Suc.prems(1)]
  obtain d' rs' where s: "scan a i n = (d', rs')" by force
  show ?case
  proof (cases "src ?x")
    case None
    then have sc: "d = ?x # d'" "rs = rs'" using Suc.prems(2) s by auto
    let ?c = "cache_block st ?x (Some (entry ?x))"
    let ?v = "v\<lparr>cv_orig_block_callback_data := cv_orig_block_callback_data v @ [?x]\<rparr>"
    have cok: "cache_ok ?c" using Suc.prems(3) entry_stored [OF x(1)] by (simp add: cache_ok_def)
    have f: "framed [?x] st ?c" using entry_stored [OF x(1)] by (auto simp: framed_def)
    have run: "collect_loop k l stopped b a it (Suc n) ?x first True False st v =
        collect_loop k l stopped b a it n (block_at a (i + n)) False True False ?c ?v"
      using Suc.prems(5) by (subst collect_step [OF x(1) Suc.prems(3) bl ns]) (simp_all add: None Let_def collect_previous [OF z Suc.prems(1)] del: add_Suc_right)
    from Suc.IH [OF _ s cok, of ?v False] Suc.prems(1,4) obtain st' where
      st': "collect_loop k l stopped b a it n (block_at a (i + n)) False True False ?c ?v =
          Some (st', ?v\<lparr>cv_orig_block_callback_data := cv_orig_block_callback_data ?v @ d',
            cv_receive_source_pairs := cv_receive_source_pairs ?v @ new_pairs (cu_next_details ?c) rs'\<rparr>)"
        "framed (segment a i (i + n)) ?c st'" "cu_next_details st' = cu_next_details ?c + length rs'"
        "\<forall>q < cu_next_details ?c. cu_details st' q = cu_details ?c q" "pairs_made st' (cu_next_details ?c) rs'" by auto
    moreover have "framed (segment a i (i + Suc n)) st st'" by (rule framed_trans [OF f st'(2)]) (simp add: x(4))
    ultimately show ?thesis unfolding run sc by (intro exI [of _ st']) simp
  next
    case (Some y)
    then have sc: "d = []" "rs = (?x, d') # rs'" using Suc.prems(2) s by auto
    have "v\<lparr>cv_block_callback_data := [], cv_receive_source_pairs := ps\<rparr> = v\<lparr>cv_receive_source_pairs := ps\<rparr>" for ps
      using Suc.prems(4) by (cases v) simp
    with collect_first_receive [where stopped = stopped and v = v and first = first and orig = True,
      OF z bl ns it Suc.prems(1) s Suc.prems(3) Some Suc.prems(5) refl] Suc.prems(4)
    show ?thesis unfolding sc by (simp del: collect_loop.simps)
  qed
qed

lemma collect_other:
  assumes z: "z \<in> B" "ac z = a" and bl: "blocks_of l = bs" and ns: "\<And>n. \<not> stopped n" and it: "unat it = i"
  shows "i + n \<le> ht z \<Longrightarrow> scan a i n = (d, rs) \<Longrightarrow> cache_ok st \<Longrightarrow> cv_receive_source_pairs v \<noteq> [] \<Longrightarrow>
    cv_block_callback_data v @ d \<noteq> [] \<Longrightarrow> (first \<Longrightarrow> b = entry (block_at a (i + n))) \<Longrightarrow>
    \<exists>st'. collect_loop k l stopped b a it n (block_at a (i + n)) first False False st v =
        Some (st', v\<lparr>cv_block_callback_data := (if rs = [] then cv_block_callback_data v @ d else []),
          cv_receive_source_pairs := cv_receive_source_pairs v @ new_pairs (cu_next_details st) rs\<rparr>) \<and>
      framed (segment a i (i + n)) st st' \<and> cu_next_details st' = cu_next_details st + length rs \<and>
      (\<forall>q < cu_next_details st. cu_details st' q =
         (if rs \<noteq> [] \<and> q = rsp_receive_details (last (cv_receive_source_pairs v))
          then (cu_details st q)\<lparr>chd_source_block_callback_data := cv_block_callback_data v @ d\<rparr>
          else cu_details st q)) \<and>
      pairs_made st' (cu_next_details st) rs"
proof (induction n arbitrary: d rs v st first)
  case 0
  then show ?case by (auto simp: framed_def)
next
  case (Suc n)
  let ?x = "block_at a (i + Suc n)"
  note x = block_at_step [OF z Suc.prems(1)]
  obtain d' rs' where s: "scan a i n = (d', rs')" by force
  show ?case
  proof (cases "src ?x")
    case None
    then have sc: "d = ?x # d'" "rs = rs'" using Suc.prems(2) s by auto
    let ?c = "cache_block st ?x (Some (entry ?x))"
    let ?v = "v\<lparr>cv_block_callback_data := cv_block_callback_data v @ [?x]\<rparr>"
    have cok: "cache_ok ?c" using Suc.prems(3) entry_stored [OF x(1)] by (simp add: cache_ok_def)
    have f: "framed [?x] st ?c" using entry_stored [OF x(1)] by (auto simp: framed_def)
    have run: "collect_loop k l stopped b a it (Suc n) ?x first False False st v =
        collect_loop k l stopped b a it n (block_at a (i + n)) False False False ?c ?v"
      using Suc.prems(6) by (subst collect_step [OF x(1) Suc.prems(3) bl ns]) (simp_all add: None Let_def collect_previous [OF z Suc.prems(1)] del: add_Suc_right)
    from Suc.IH [OF _ s cok, of ?v False] Suc.prems(1,4) obtain st' where
      st': "collect_loop k l stopped b a it n (block_at a (i + n)) False False False ?c ?v =
          Some (st', ?v\<lparr>cv_block_callback_data := (if rs' = [] then cv_block_callback_data ?v @ d' else []),
            cv_receive_source_pairs := cv_receive_source_pairs ?v @ new_pairs (cu_next_details ?c) rs'\<rparr>)"
        "framed (segment a i (i + n)) ?c st'" "cu_next_details st' = cu_next_details ?c + length rs'"
        "\<forall>q < cu_next_details ?c. cu_details st' q =
           (if rs' \<noteq> [] \<and> q = rsp_receive_details (last (cv_receive_source_pairs ?v))
            then (cu_details ?c q)\<lparr>chd_source_block_callback_data := cv_block_callback_data ?v @ d'\<rparr>
            else cu_details ?c q)" "pairs_made st' (cu_next_details ?c) rs'" by auto
    moreover have "framed (segment a i (i + Suc n)) st st'" by (rule framed_trans [OF f st'(2)]) (simp add: x(4))
    ultimately show ?thesis unfolding run sc by (intro exI [of _ st']) simp
  next
    case (Some y)
    then have sc: "d = []" "rs = (?x, d') # rs'" using Suc.prems(2) s by auto
    from collect_first_receive [where stopped = stopped and v = v and first = first and orig = False,
      OF z bl ns it Suc.prems(1) s Suc.prems(3) Some Suc.prems(6) refl] Suc.prems(4,5)
    show ?thesis unfolding sc by (simp add: details_update_def fun_upd_def del: collect_loop.simps) (elim exE conjE, rule exI, intro conjI; simp)
  qed
qed

end

end
