(* ===== verification/Unbounded_Step.thy ===== *)
theory Unbounded_Step
  imports Unbounded_Collect
begin

text \<open>
  The iterations of \<open>process\<close> are the steps of a walk over the graph of blocks: what the variables of
  the processor hold at each point of the walk, and what \<open>prepare_iterated_blocks_for_cementing\<close>
  adds to the writes.
\<close>

declare split_paired_All [simp del] split_paired_Ex [simp del]

context ledger_walk
begin

section \<open>The state of the processor at a point of the walk\<close>

definition heights_sim :: "ledger \<Rightarrow> confirmation_height_unbounded \<Rightarrow> (block_hash, account) walk \<Rightarrow> bool" where
  "heights_sim l st s \<longleftrightarrow>
     (\<forall>a. case cu_confirmed_iterated_pairs st a of
        None \<Rightarrow> wv s a = conf_heights l a \<and> wi s a = conf_heights l a
      | Some p \<Rightarrow> unat (cip_confirmed_height p) = wv s a \<and> unat (cip_iterated_height p) = wi s a)"

definition details_of :: "(block_hash, account) walk \<Rightarrow> block_hash \<Rightarrow> conf_height_details" where
  "details_of s r =
     \<lparr>chd_account = ac r, chd_hash = r, chd_height = of_nat (ht r),
      chd_num_blocks_confirmed = of_nat (ht r - wlo s r),
      chd_block_callback_data = segment (ac r) (wlo s r) (ht r),
      chd_source_block_callback_data =
        (case wtop s r of None \<Rightarrow> [] | Some t \<Rightarrow> segment (ac (source r)) t (ht (source r)))\<rparr>"

definition pair_sim ::
  "confirmation_height_unbounded \<Rightarrow> (block_hash, account) walk \<Rightarrow> receive_source_pair \<Rightarrow> block_hash \<Rightarrow> bool" where
  "pair_sim st s p r \<longleftrightarrow>
     rsp_source_hash p = source r \<and> rsp_receive_details p < cu_next_details st \<and>
     cu_details st (rsp_receive_details p) = details_of s r \<and>
     (\<forall>y. y \<in> B \<longrightarrow> ac y = ac r \<longrightarrow> wlo s r < ht y \<longrightarrow> ht y < ht r \<longrightarrow>
        cu_implicit_receive_cemented_mapping st y = Some (rsp_receive_details p))"

definition stack_sim ::
  "confirmation_height_unbounded \<Rightarrow> (block_hash, account) walk \<Rightarrow> receive_source_pair list \<Rightarrow> bool" where
  "stack_sim st s ps \<longleftrightarrow>
     list_all2 (pair_sim st s) (rev ps) (ws s) \<and> distinct (map rsp_receive_details ps)"

definition cache_sim :: "ledger \<Rightarrow> confirmation_height_unbounded \<Rightarrow> (block_hash, account) walk \<Rightarrow> bool" where
  "cache_sim l st s \<longleftrightarrow>
     cache_ok st \<and>
     (\<forall>x \<in> B. conf_heights l (ac x) < ht x \<longrightarrow> ht x \<le> wi s (ac x) \<longrightarrow> cu_block_cache st x = Some (bs x))"

definition writes_sim :: "ledger \<Rightarrow> confirmation_height_unbounded \<Rightarrow> (block_hash, account) walk \<Rightarrow> bool" where
  "writes_sim l st s \<longleftrightarrow>
     (\<exists>xs. plan (conf_heights l) xs (wv s) \<and> cu_pending_writes st = writes_of (conf_heights l) xs)"

lemma u64_bound: "unat (w :: u64) < 2 ^ 64"
proof -
  have "unat w < 2 ^ LENGTH(64)" by (rule unsigned_less)
  then show ?thesis by simp
qed

lemma height_bound: "x \<in> B \<Longrightarrow> ht x < 2 ^ 64"
  using height_word(2) [of x] u64_bound [of "of_nat (ht x)"] by simp

lemma word_nat: "n < 2 ^ 64 \<Longrightarrow> unat (of_nat n :: u64) = n"
  by (simp add: unat_of_nat take_bit_nat_eq_self)

lemma heights_bound:
  assumes "heights_sim l st s"
  shows "wv s a < 2 ^ 64" "wi s a < 2 ^ 64"
proof -
  from assms have "case cu_confirmed_iterated_pairs st a of
      None \<Rightarrow> wv s a = conf_heights l a \<and> wi s a = conf_heights l a
    | Some p \<Rightarrow> unat (cip_confirmed_height p) = wv s a \<and> unat (cip_iterated_height p) = wi s a"
    by (simp add: heights_sim_def)
  then obtain p q :: u64 where "wv s a = unat p" "wi s a = unat q" by (cases "cu_confirmed_iterated_pairs st a") (auto simp: conf_heights_def intro: sym)
  then show "wv s a < 2 ^ 64" "wi s a < 2 ^ 64" using u64_bound [of p] u64_bound [of q] by simp_all
qed

lemma heights_upd:
  assumes "heights_sim l st s" and "cu_confirmed_iterated_pairs st' = (cu_confirmed_iterated_pairs st)(a \<mapsto> p)"
    and "wv s' = (wv s)(a := unat (cip_confirmed_height p))" and "wi s' = (wi s)(a := unat (cip_iterated_height p))"
  shows "heights_sim l st' s'"
  unfolding heights_sim_def
proof
  fix b
  show "case cu_confirmed_iterated_pairs st' b of
      None \<Rightarrow> wv s' b = conf_heights l b \<and> wi s' b = conf_heights l b
    | Some p \<Rightarrow> unat (cip_confirmed_height p) = wv s' b \<and> unat (cip_iterated_height p) = wi s' b"
  proof (cases "b = a")
    case False
    with assms show ?thesis unfolding heights_sim_def
      by (cases "cu_confirmed_iterated_pairs st b") (auto dest: spec [of _ b])
  qed (simp add: assms(2-4))
qed

lemma current_sim:
  assumes "heights_sim l st s" and "wv s a \<le> wi s a"
  shows "current_heights l st a = (of_nat (wv s a), of_nat (wi s a))"
proof (cases "cu_confirmed_iterated_pairs st a")
  case None
  with assms(1) have "wv s a = conf_heights l a" "wi s a = conf_heights l a"
    unfolding heights_sim_def by (auto dest: spec [of _ a])
  with None show ?thesis by (simp add: current_heights_def conf_get conf_heights_def Let_def)
next
  case (Some p)
  with assms(1) have "unat (cip_confirmed_height p) = wv s a" "unat (cip_iterated_height p) = wi s a"
    unfolding heights_sim_def by (auto dest: spec [of _ a])
  moreover from this assms(2) have "max (cip_confirmed_height p) (cip_iterated_height p) = cip_iterated_height p"
    by (simp add: max_def word_le_nat_alt)
  ultimately show ?thesis using Some by (simp add: current_heights_def flip: \<open>unat _ = wv s a\<close> \<open>unat _ = wi s a\<close>)
qed

lemma erase_segment:
  assumes "i \<le> j" and "j \<le> n" and "unat w = j - i"
  shows "erase_back w (segment a i n) = Some (segment a j n)"
  using segment_take [OF assms(1,2), of a] assms by (simp add: erase_back_def)

lemma range_segment:
  assumes "i \<le> j" and "j \<le> m" and "m \<le> n" and "unat skip = j - i" and "unat w = m - j"
  shows "range_before skip w (segment a i n) = Some (segment a j m)"
proof -
  have "n - i - (j - i) - (m - j) = n - m" using assms by simp
  then show ?thesis
    using segment_drop [of i m n a] segment_take [of i j m a] assms by (simp add: range_before_def)
qed

section \<open>Preparing the block itself\<close>

definition prep_data ::
  "confirmation_height_unbounded \<Rightarrow> (block_hash, account) walk \<Rightarrow> block_hash \<Rightarrow> nat option \<Rightarrow> block_hash list \<Rightarrow>
     block_hash list \<Rightarrow> preparation_data" where
  "prep_data st s x rd cb ocb =
     \<lparr>pd_block_height = of_nat (ht x), pd_confirmation_height = of_nat (wv s (ac x)),
      pd_iterated_height = of_nat (wi s (ac x)), pd_account_it = cu_confirmed_iterated_pairs st (ac x),
      pd_account = ac x, pd_receive_details = rd, pd_already_traversed = (ht x \<le> wi s (ac x)), pd_current = x,
      pd_block_callback_data = cb, pd_orig_block_callback_data = ocb\<rparr>"

lemma prep_data_simps [simp]:
  "pd_block_height (prep_data st s x rd cb ocb) = of_nat (ht x)"
  "pd_confirmation_height (prep_data st s x rd cb ocb) = of_nat (wv s (ac x))"
  "pd_iterated_height (prep_data st s x rd cb ocb) = of_nat (wi s (ac x))"
  "pd_account_it (prep_data st s x rd cb ocb) = cu_confirmed_iterated_pairs st (ac x)"
  "pd_account (prep_data st s x rd cb ocb) = ac x"
  "pd_receive_details (prep_data st s x rd cb ocb) = rd"
  "pd_already_traversed (prep_data st s x rd cb ocb) = (ht x \<le> wi s (ac x))"
  "pd_current (prep_data st s x rd cb ocb) = x"
  "pd_block_callback_data (prep_data st s x rd cb ocb) = cb"
  "pd_orig_block_callback_data (prep_data st s x rd cb ocb) = ocb"
  by (simp_all add: prep_data_def)

definition visit :: "(block_hash, account) walk \<Rightarrow> block_hash \<Rightarrow> confirmation_height_unbounded \<Rightarrow> confirmation_height_unbounded" where
  "visit s x st =
     st\<lparr>cu_confirmed_iterated_pairs := (cu_confirmed_iterated_pairs st)(ac x \<mapsto>
          \<lparr>cip_confirmed_height = of_nat (ht x), cip_iterated_height = of_nat (max (wi s (ac x)) (ht x))\<rparr>)\<rparr>"

lemma visit_simps [simp]:
  "cu_pending_writes (visit s x st) = cu_pending_writes st" "cu_details (visit s x st) = cu_details st"
  "cu_next_details (visit s x st) = cu_next_details st" "cu_block_cache (visit s x st) = cu_block_cache st"
  "cu_implicit_receive_cemented_mapping (visit s x st) = cu_implicit_receive_cemented_mapping st"
  by (simp_all add: visit_def)

lemma details_update_simps [simp]:
  "cu_pending_writes (details_update f p st) = cu_pending_writes st"
  "cu_details (details_update f p st) = (cu_details st)(p := f (cu_details st p))"
  "cu_next_details (details_update f p st) = cu_next_details st"
  "cu_block_cache (details_update f p st) = cu_block_cache st"
  "cu_confirmed_iterated_pairs (details_update f p st) = cu_confirmed_iterated_pairs st"
  "cu_implicit_receive_cemented_mapping (details_update f p st) = cu_implicit_receive_cemented_mapping st"
  by (simp_all add: details_update_def)

lemma word_sub: "j \<le> i \<Longrightarrow> i < 2 ^ 64 \<Longrightarrow> (of_nat i - of_nat j :: u64) = of_nat (i - j) \<and> unat (of_nat (i - j) :: u64) = i - j"
  using word_nat [of "i - j"] by (simp add: of_nat_diff)

lemma word_less: "i < 2 ^ 64 \<Longrightarrow> j < 2 ^ 64 \<Longrightarrow> (of_nat i :: u64) < of_nat j \<longleftrightarrow> i < j"
  "i < 2 ^ 64 \<Longrightarrow> j < 2 ^ 64 \<Longrightarrow> (of_nat i :: u64) \<le> of_nat j \<longleftrightarrow> i \<le> j"
  by (simp_all add: word_less_nat_alt word_le_nat_alt word_nat)

lemma prepare_block_none:
  assumes "heights_sim l st s" and "x \<in> B" and "\<not> wv s (ac x) < ht x"
  shows "prepare_block alive (prep_data st s x rd cb ocb) st = Some st"
  using assms(3) word_less(1) [OF heights_bound(1) [OF assms(1)] height_bound [OF assms(2)]]
  by (simp add: prepare_block_def)

lemma prepare_block_write:
  assumes hs: "heights_sim l st s" and x: "x \<in> B" and v: "wv s (ac x) < ht x"
    and data: "prepare_callback_data alive (prep_data st s x rd cb ocb) (of_nat (ht x - wv s (ac x))) (visit s x st) =
      Some (segment (ac x) (wv s (ac x)) (ht x), st')"
  shows "prepare_block alive (prep_data st s x rd cb ocb) st =
    Some (st'\<lparr>cu_pending_writes := cu_pending_writes st' @ [write_of (wv s) x]\<rparr>)"
proof -
  let ?a = "ac x"
  note b = heights_bound [OF hs, of ?a] height_bound [OF x]
  have "(case cu_confirmed_iterated_pairs st ?a of
      Some pair \<Rightarrow>
        pair\<lparr>cip_confirmed_height := of_nat (ht x),
             cip_iterated_height := (if (of_nat (wi s ?a) :: u64) < of_nat (ht x) then of_nat (ht x) else cip_iterated_height pair)\<rparr>
    | None \<Rightarrow> \<lparr>cip_confirmed_height = of_nat (ht x), cip_iterated_height = of_nat (ht x)\<rparr>) =
    \<lparr>cip_confirmed_height = of_nat (ht x), cip_iterated_height = of_nat (max (wi s ?a) (ht x))\<rparr>"
  proof (cases "cu_confirmed_iterated_pairs st ?a")
    case None
    with hs have "wi s ?a = wv s ?a" unfolding heights_sim_def by (auto dest: spec [of _ ?a])
    with None v show ?thesis by simp
  next
    case (Some p)
    with hs have "unat (cip_iterated_height p) = wi s ?a" unfolding heights_sim_def by (auto dest: spec [of _ ?a])
    then have "cip_iterated_height p = of_nat (wi s ?a)" unfolding \<open>unat _ = _\<close> [symmetric] by simp
    with Some word_less(1) [OF b(2,3)] show ?thesis by (cases p) (simp add: max_def)
  qed
  moreover have "(of_nat (ht x) - of_nat (wv s ?a) :: u64) = of_nat (ht x - wv s ?a)"
    using word_sub [of "wv s ?a" "ht x"] b(3) v by simp
  ultimately show ?thesis
    unfolding prepare_block_def prep_data_simps Let_def using word_less(1) [OF b(1,3)] v data
    by (simp add: visit_def write_of_def del: of_nat_diff)
qed

lemma prepare_data_new:
  assumes "wi s (ac x) = wv s (ac x)" and "wv s (ac x) < ht x"
  shows "prepare_callback_data alive (prep_data st s x rd (segment (ac x) (wi s (ac x)) (ht x)) ocb) n st' =
    Some (segment (ac x) (wv s (ac x)) (ht x), st')"
  using assms by (simp add: prepare_callback_data_def)

lemma prepare_data_original:
  "prepare_callback_data alive (prep_data st s x None [] ocb) n st' = Some (ocb, st')"
  by (simp add: prepare_callback_data_def)

section \<open>Preparing a source that was visited before\<close>

lemma stack_simE:
  assumes "stack_sim st s ps" and "ws s = r # rest"
  obtains ps' p where "ps = ps' @ [p]" "pair_sim st s p r" "list_all2 (pair_sim st s) (rev ps') rest"
    "distinct (map rsp_receive_details ps')" "rsp_receive_details p \<notin> rsp_receive_details ` set ps'"
proof -
  from assms obtain p qs where "rev ps = p # qs" "pair_sim st s p r" "list_all2 (pair_sim st s) qs rest"
    by (auto simp: stack_sim_def list_all2_Cons2)
  moreover from this(1) have ps: "ps = rev qs @ [p]" by (metis rev_rev_ident rev.simps(2))
  moreover have "distinct (map rsp_receive_details (rev qs))" "rsp_receive_details p \<notin> rsp_receive_details ` set (rev qs)"
    using assms(1) unfolding ps stack_sim_def by simp_all
  ultimately show thesis using that [of "rev qs" p] by simp
qed

lemma stack_sim_mem:
  assumes "stack_sim st s ps" and "r \<in> set (ws s)"
  obtains p where "p \<in> set ps" "pair_sim st s p r"
  using assms unfolding stack_sim_def by (metis in_set_conv_nth list_all2_conv_all_nth nth_mem set_rev)

lemma details_of_simps [simp]:
  "chd_account (details_of s r) = ac r" "chd_hash (details_of s r) = r" "chd_height (details_of s r) = of_nat (ht r)"
  "chd_num_blocks_confirmed (details_of s r) = of_nat (ht r - wlo s r)"
  "chd_block_callback_data (details_of s r) = segment (ac r) (wlo s r) (ht r)"
  "chd_source_block_callback_data (details_of s r) =
     (case wtop s r of None \<Rightarrow> [] | Some t \<Rightarrow> segment (ac (source r)) t (ht (source r)))"
  by (simp_all add: details_of_def)

lemma word_sub_sub:
  "i \<le> j \<Longrightarrow> j \<le> n \<Longrightarrow> n < 2 ^ 64 \<Longrightarrow> unat (of_nat (n - i) - of_nat (n - j) :: u64) = j - i"
  using word_sub [of "n - j" "n - i"] by (simp del: of_nat_diff)

lemma prepare_data_seen:
  assumes w: "walk_ok h s" and r: "ws s = r # rest" and st: "stack_sim st s ps" and p: "pair_sim st s p r"
    and seen: "ht (source r) \<le> wi s (ac (source r))" and v: "wv s (ac (source r)) < ht (source r)"
    and alive: "rsp_receive_details ` set ps \<subseteq> alive"
  shows "prepare_callback_data alive (prep_data st s (source r) (Some (rsp_receive_details p)) [] ocb)
      (of_nat (ht (source r) - wv s (ac (source r)))) (visit s (source r) st) =
    Some (segment (ac (source r)) (wv s (ac (source r))) (ht (source r)),
      details_update (\<lambda>d. d\<lparr>chd_source_block_callback_data := []\<rparr>) (rsp_receive_details p) (visit s (source r) st))"
proof -
  let ?x = "source r" and ?p = "rsp_receive_details p"
  have r': "r \<in> set (ws s)" using r by simp
  note f = source_facts [OF w r']
  have d: "cu_details st ?p = details_of s r" using p by (simp add: pair_sim_def)
  note b = height_bound [OF f(2)]
  show ?thesis
  proof (cases "wtop s r")
    case (Some t)
    from walk_okD(8) [OF w r' Some] have t: "t < ht ?x" by simp
    have "t \<le> wv s (ac ?x)" by (rule top_source_back [OF w r Some])
    with t v b have "erase_back (of_nat (ht ?x - t) - of_nat (ht ?x - wv s (ac ?x))) (segment (ac ?x) t (ht ?x)) =
        Some (segment (ac ?x) (wv s (ac ?x)) (ht ?x))" by (intro erase_segment word_sub_sub) simp_all
    with d Some t show ?thesis by (simp add: prepare_callback_data_def del: of_nat_diff)
  next
    case None
    from top_source_inside [OF w r seen v None] obtain q where
      q: "q \<in> set (ws s)" "ac q = ac ?x" "ht ?x < ht q" "wlo s q \<le> wv s (ac q)" .
    from stack_sim_mem [OF st q(1)] obtain pq where pq: "pq \<in> set ps" "pair_sim st s pq q" .
    let ?q = "rsp_receive_details pq"
    have a: "?q \<in> alive" using pq(1) alive by auto
    have m: "cu_implicit_receive_cemented_mapping st ?x = Some ?q" and dq: "cu_details st ?q = details_of s q"
      using pq(2) f(2) q v by (auto simp: pair_sim_def)
    have bq: "ht q < 2 ^ 64" using height_bound walk_okD(4) [OF w q(1)] by simp
    have lq: "wlo s q \<le> wv s (ac ?x)" "wv s (ac ?x) \<le> ht q" using q v by simp_all
    have "(of_nat (ht q) - of_nat (wv s (ac ?x)) :: u64) = of_nat (ht q - wv s (ac ?x))"
      using word_sub [OF lq(2) bq] by simp
    with word_sub_sub [OF lq bq]
    have "unat (of_nat (ht q - wlo s q) - (of_nat (ht q) - of_nat (wv s (ac ?x))) :: u64) = wv s (ac ?x) - wlo s q" by simp
    moreover have "unat (of_nat (ht ?x - wv s (ac ?x)) :: u64) = ht ?x - wv s (ac ?x)" using b by (intro word_nat) simp
    ultimately have "range_before (of_nat (ht q - wlo s q) - (of_nat (ht q) - of_nat (wv s (ac ?x))))
        (of_nat (ht ?x - wv s (ac ?x))) (segment (ac q) (wlo s q) (ht q)) = Some (segment (ac ?x) (wv s (ac ?x)) (ht ?x))"
      using range_segment [of "wlo s q" "wv s (ac ?x)" "ht ?x" "ht q"] lq q(2,3) v by simp
    moreover have "erase_back 0 (segment (ac ?x) (wv s (ac ?x)) (ht ?x)) = Some (segment (ac ?x) (wv s (ac ?x)) (ht ?x))"
      using v by (intro erase_segment) simp_all
    ultimately show ?thesis using d dq m a None seen
      by (simp add: prepare_callback_data_def Let_def del: of_nat_diff)
  qed
qed

section \<open>Preparing the receive block\<close>

lemma prepare_receive_top:
  assumes r: "r \<in> B" and d: "cu_details st p = (details_of s r)\<lparr>chd_source_block_callback_data := []\<rparr>"
    and pr: "cu_confirmed_iterated_pairs st (ac r) = Some pair" and v: "cip_confirmed_height pair = of_nat (v (ac r))"
    and lo: "wlo s r \<le> v (ac r)" "v (ac r) < ht r"
  shows "prepare_receive p st =
    Some (st\<lparr>cu_confirmed_iterated_pairs := (cu_confirmed_iterated_pairs st)
               (ac r \<mapsto> pair\<lparr>cip_confirmed_height := of_nat (ht r)\<rparr>),
             cu_details := (cu_details st)(p := write_of v r),
             cu_pending_writes := cu_pending_writes st @ [write_of v r]\<rparr>)"
proof -
  have le: "v (ac r) \<le> ht r" using lo(2) by simp
  note b = height_bound [OF r]
  have n: "(of_nat (ht r) - of_nat (v (ac r)) :: u64) = of_nat (ht r - v (ac r))" using word_sub [OF le b] by simp
  have "erase_back (of_nat (ht r - wlo s r) - of_nat (ht r - v (ac r))) (segment (ac r) (wlo s r) (ht r)) =
      Some (segment (ac r) (v (ac r)) (ht r))"
    using erase_segment [OF lo(1) le] word_sub_sub [OF lo(1) le b] by (simp del: of_nat_diff)
  then have e: "erase_back (chd_num_blocks_confirmed (details_of s r) - of_nat (ht r - v (ac r)))
      (chd_block_callback_data (details_of s r)) = Some (segment (ac r) (v (ac r)) (ht r))" by (simp del: of_nat_diff)
  have "(details_of s r)\<lparr>chd_source_block_callback_data := [], chd_num_blocks_confirmed := of_nat (ht r - v (ac r)),
      chd_block_callback_data := segment (ac r) (v (ac r)) (ht r)\<rparr> = write_of v r"
    by (simp add: details_of_def write_of_def conf_height_details_new_def del: of_nat_diff)
  with e n show ?thesis using pr by (simp add: prepare_receive_def d v Let_def del: of_nat_diff details_of_simps(4,5))
qed

text \<open>What a step leaves alone besides the record of the receive block.\<close>

definition kept :: "nat \<Rightarrow> confirmation_height_unbounded \<Rightarrow> confirmation_height_unbounded \<Rightarrow> bool" where
  "kept p st st' \<longleftrightarrow>
     cu_implicit_receive_cemented_mapping st' = cu_implicit_receive_cemented_mapping st \<and>
     cu_block_cache st' = cu_block_cache st \<and> cu_next_details st' = cu_next_details st \<and>
     (\<forall>q. q \<noteq> p \<longrightarrow> cu_details st' q = cu_details st q)"

lemma prepare_pop:
  assumes w: "walk_ok h s" and r: "ws s = r # rest" and hs: "heights_sim l st s"
    and x: "x = source r" and seen: "x \<in> B"
    and st1: "prepare_block alive pd st = Some st1" and rd: "pd_receive_details pd = Some p"
    and cip: "cu_confirmed_iterated_pairs st1 =
      cu_confirmed_iterated_pairs (if wv s (ac x) < ht x then visit s x st else st)"
    and pend: "cu_pending_writes st1 = cu_pending_writes st @ (if wv s (ac x) < ht x then [write_of (wv s) x] else [])"
    and det: "cu_details st1 p = (details_of s r)\<lparr>chd_source_block_callback_data := []\<rparr>" and k1: "kept p st st1"
  shows "\<exists>st'. prepare_iterated_blocks_for_cementing alive pd st = Some st' \<and> kept p st st' \<and>
    heights_sim l st' (pop r s) \<and>
    cu_pending_writes st' = cu_pending_writes st @ writes_of (wv s) ((if wv s (ac x) < ht x then [x] else []) @ [r])"
proof -
  have r': "r \<in> set (ws s)" using r by simp
  note f = source_facts [OF w r', folded x] and d = walk_okD(4) [OF w r']
  let ?v = "if wv s (ac x) < ht x then raise (wv s) x else wv s"
  have xr: "ht x < ht r" if "ac x = ac r" using graph_height [OF f(2,5) that f(3)] .
  have lo: "wlo s r \<le> ?v (ac r)" "?v (ac r) < ht r"
    using top_lo [OF w r] d xr by (auto simp: raise_def)
  let ?i = "(wi s)(ac x := max (wi s (ac x)) (ht x))"
  have hs1: "heights_sim l st1 (s\<lparr>wv := ?v, wi := ?i\<rparr>)"
  proof (cases "wv s (ac x) < ht x")
    case True
    with height_bound [OF f(2)] heights_bound(2) [OF hs, of "ac x"] show ?thesis
      by (intro heights_upd [OF hs, of st1 "ac x" "\<lparr>cip_confirmed_height = of_nat (ht x), cip_iterated_height = of_nat (max (wi s (ac x)) (ht x))\<rparr>"])
        (simp_all add: cip visit_def raise_def word_nat)
  next
    case False
    then have "?i = wi s" using walk_okD(2) [OF w, of "ac x"] by (simp add: fun_eq_iff)
    with False hs cip show ?thesis by (simp add: heights_sim_def)
  qed
  obtain pair where pr: "cu_confirmed_iterated_pairs st1 (ac r) = Some pair"
  proof (cases "cu_confirmed_iterated_pairs st1 (ac r)")
    case None
    with cip have "cu_confirmed_iterated_pairs st (ac r) = None" by (auto simp: visit_def split: if_splits)
    with hs have "wi s (ac r) = wv s (ac r)" unfolding heights_sim_def by (auto dest: spec [of _ "ac r"])
    with d have False by auto
    then show thesis ..
  qed (rule that)
  with hs1 have hr: "unat (cip_confirmed_height pair) = ?v (ac r)"
    unfolding heights_sim_def by (auto dest: spec [of _ "ac r"])
  then have "cip_confirmed_height pair = of_nat (?v (ac r))" unfolding hr [symmetric] by simp
  from prepare_receive_top [where v = ?v, OF f(5) det pr this lo] have "\<exists>st'. prepare_receive p st1 = Some st' \<and>
      cu_confirmed_iterated_pairs st' = (cu_confirmed_iterated_pairs st1)(ac r \<mapsto> pair\<lparr>cip_confirmed_height := of_nat (ht r)\<rparr>) \<and>
      cu_pending_writes st' = cu_pending_writes st1 @ [write_of ?v r] \<and> kept p st1 st'"
    unfolding kept_def by (intro exI conjI, assumption) simp_all
  then obtain st' where
    st': "prepare_receive p st1 = Some st'" "cu_confirmed_iterated_pairs st' = (cu_confirmed_iterated_pairs st1)
               (ac r \<mapsto> pair\<lparr>cip_confirmed_height := of_nat (ht r)\<rparr>)"
      "cu_pending_writes st' = cu_pending_writes st1 @ [write_of ?v r]" "kept p st1 st'" by blast
  have "unat (cip_iterated_height pair) = ?i (ac r)"
    using hs1 pr unfolding heights_sim_def by (auto dest: spec [of _ "ac r"])
  then have "heights_sim l st' (pop r s)"
    using height_bound [OF f(5)]
    by (intro heights_upd [OF hs1 st'(2)]) (auto simp: fun_eq_iff pop_heights x raise_def word_nat max_def)
  moreover have "kept p st st'" using k1 st'(4) by (simp add: kept_def)
  moreover have "writes_of (wv s) ((if wv s (ac x) < ht x then [x] else []) @ [r]) =
      (if wv s (ac x) < ht x then [write_of (wv s) x] else []) @ [write_of ?v r]" by simp
  moreover have "prepare_iterated_blocks_for_cementing alive pd st = Some st'"
    using st1 rd st'(1) by (simp add: prepare_iterated_blocks_for_cementing_def)
  ultimately show ?thesis using st'(3) pend by (intro exI [of _ st']) simp
qed

end

end
