(* ===== verification/Unbounded_Walk.thy ===== *)
theory Unbounded_Walk
  imports Unbounded_Step
begin

text \<open>
  Every iteration of \<open>process\<close> is a step of the walk, and the writes at its end confirm exactly what
  the walk has settled.
\<close>

declare split_paired_All [simp del] split_paired_Ex [simp del]

fun notified :: "cement_event list \<Rightarrow> block_entry list" where
  "notified [] = []"
| "notified (Cemented bs # es) = bs @ notified es"
| "notified (Already_cemented h # es) = notified es"

lemma notified_append: "notified (es @ fs) = notified es @ notified fs"
  by (induction es rule: notified.induct) simp_all

definition running :: "iteration_env \<Rightarrow> bool" where
  "running env \<longleftrightarrow> (\<forall>n. \<not> ie_stopped_collecting env n) \<and> \<not> ie_stopped env \<and> \<not> ie_stopped_end env"

definition end_write ::
  "u64 \<Rightarrow> iteration_env \<Rightarrow> confirmation_height_unbounded \<Rightarrow> ledger \<Rightarrow> receive_source_pair list \<Rightarrow> cement_event list \<Rightarrow>
     (confirmation_height_unbounded \<times> ledger \<times> cement_event list) option" where
  "end_write batch_write_size env st l ps events =
     (if should_write batch_write_size env (ps = []) (cu_pending_writes st)
      then do { (st, l, cemented) \<leftarrow> write_pending st l; Some (st, l, events @ [Cemented cemented]) }
      else Some (st, l, events))"

context ledger_walk
begin

definition sim :: "block_hash \<Rightarrow> ledger \<Rightarrow> confirmation_height_unbounded \<Rightarrow> (block_hash, account) walk \<Rightarrow>
    receive_source_pair list \<Rightarrow> bool" where
  "sim h l st s ps \<longleftrightarrow>
     walk_ok h s \<and> blocks_of l = bs \<and> sources_closed (conf_heights l) \<and> heights_sim l st s \<and> stack_sim st s ps \<and>
     cache_sim l st s \<and> writes_sim l st s"

lemma simD:
  assumes "sim h l st s ps"
  shows "walk_ok h s" "blocks_of l = bs" "sources_closed (conf_heights l)" "heights_sim l st s" "stack_sim st s ps"
    "cache_sim l st s" "writes_sim l st s" "cache_ok st"
  using assms by (simp_all add: sim_def cache_sim_def)

section \<open>Writing\<close>

text \<open>What happened to the ledger: the notified blocks are the ones that were confirmed, in order.\<close>

definition history :: "ledger \<Rightarrow> ledger \<Rightarrow> block_entry list \<Rightarrow> bool" where
  "history l l' cem \<longleftrightarrow>
     (\<exists>xs. plan (conf_heights l) xs (conf_heights l') \<and> cem = map entry (raised (conf_heights l) xs)) \<and>
     recemented l (length cem) l' \<and> (reachable c k l \<longrightarrow> reachable c k l')"

lemma history_refl: "history l l []"
  unfolding history_def by (intro conjI exI [of _ "[]"]) (simp_all add: recemented_refl)

lemma history_trans:
  assumes "history l l' cem" and "history l' l'' cem'"
  shows "history l l'' (cem @ cem')"
proof -
  from assms obtain xs ys where "plan (conf_heights l) xs (conf_heights l')" "cem = map entry (raised (conf_heights l) xs)"
    "plan (conf_heights l') ys (conf_heights l'')" "cem' = map entry (raised (conf_heights l') ys)"
    unfolding history_def by blast
  then have "plan (conf_heights l) (xs @ ys) (conf_heights l'') \<and> cem @ cem' = map entry (raised (conf_heights l) (xs @ ys))"
    using plan_append raised_append by (metis map_append)
  moreover have "recemented l (length (cem @ cem')) l''"
    using assms recemented_trans [of l "length cem" l' "length cem'" l''] by (simp add: history_def)
  moreover have "reachable c k l \<longrightarrow> reachable c k l''" using assms by (simp add: history_def)
  ultimately show ?thesis unfolding history_def by blast
qed

lemma flush:
  assumes "sim h l st s ps"
  shows "\<exists>l' cem. write_pending st l = Some (st\<lparr>cu_pending_writes := []\<rparr>, l', cem) \<and>
    sim h l' (st\<lparr>cu_pending_writes := []\<rparr>) s ps \<and> history l l' cem \<and> conf_heights l' = wv s"
proof -
  note d = simD [OF assms] and w = walk_okD [OF simD(1) [OF assms]]
  let ?st = "st\<lparr>cu_pending_writes := []\<rparr>" and ?cache = "\<lambda>h. Option.bind (cu_block_cache st h) id"
  from d(7) obtain xs where xs: "plan (conf_heights l) xs (wv s)" "cu_pending_writes st = writes_of (conf_heights l) xs"
    unfolding writes_sim_def by blast
  have c: "\<forall>h \<in> set (raised (conf_heights l) xs). ?cache h = bs h"
  proof
    fix x assume "x \<in> set (raised (conf_heights l) xs)"
    then have "x \<in> B" "conf_heights l (ac x) < ht x" "ht x \<le> wi s (ac x)"
      using raised_set [OF xs(1)] w(2) [of "ac x"] by auto
    with d(6) show "?cache x = bs x" by (simp add: cache_sim_def)
  qed
  from cement_writes [OF xs(1) refl d(2,3) c, of "[]"] obtain l' where
    l': "cement_loop ?cache l (writes_of (conf_heights l) xs) [] = Some (False, [], l', map entry (raised (conf_heights l) xs))"
      "conf_heights l' = wv s" "blocks_of l' = bs" "sources_closed (wv s)"
      "recemented l (length (raised (conf_heights l) xs)) l'" "writes_ok c k l (writes_of (conf_heights l) xs)" by auto
  let ?cem = "map entry (raised (conf_heights l) xs)"
  have cb: "cement_blocks ?cache l (cu_pending_writes st) = Some (l', ?cem)" using l'(1) xs(2) by (simp add: cement_blocks_def)
  have hs: "heights_sim l' ?st s"
    unfolding heights_sim_def
  proof
    fix a
    show "case cu_confirmed_iterated_pairs ?st a of
        None \<Rightarrow> wv s a = conf_heights l' a \<and> wi s a = conf_heights l' a
      | Some p \<Rightarrow> unat (cip_confirmed_height p) = wv s a \<and> unat (cip_iterated_height p) = wi s a"
      using d(4) l'(2) unfolding heights_sim_def
      by (cases "cu_confirmed_iterated_pairs st a") (auto dest: spec [of _ a])
  qed
  have "sim h l' ?st s ps"
    unfolding sim_def
  proof (intro conjI)
    show "stack_sim ?st s ps" using d(5) by (simp add: stack_sim_def pair_sim_def [abs_def])
    show "cache_sim l' ?st s" using d(6) plan_mono [OF xs(1)] l'(2)
      by (auto simp: cache_sim_def cache_ok_def intro: le_less_trans)
    show "writes_sim l' ?st s" unfolding writes_sim_def by (rule exI [of _ "[]"]) (simp add: l'(2))
  qed (use d hs l' in simp_all)
  moreover have "history l l' ?cem"
    unfolding history_def using xs(1) l'(2,5,6) cb xs(2) by (auto intro: reach_step step_cement)
  ultimately show ?thesis using cb l'(2) by (simp add: write_pending_def)
qed

lemma end_write_sim:
  assumes "sim h l st s ps"
  shows "\<exists>st' l' es. end_write batch_write_size env st l ps events = Some (st', l', events @ es) \<and>
    sim h l' st' s ps \<and> history l l' (notified es)"
proof (cases "should_write batch_write_size env (ps = []) (cu_pending_writes st)")
  case True
  with flush [OF assms] show ?thesis by (fastforce simp: end_write_def)
next
  case False
  with assms history_refl [of l] show ?thesis by (auto simp: end_write_def)
qed

section \<open>An iteration, block by block\<close>

definition collected ::
  "block_hash \<Rightarrow> ledger \<Rightarrow> iteration_env \<Rightarrow> (block_hash, account) walk \<Rightarrow> block_hash \<Rightarrow> confirmation_height_unbounded \<Rightarrow>
     process_vars \<Rightarrow> (confirmation_height_unbounded \<times> collect_vars) option" where
  "collected h l env s x st v =
     (let st = cache_block st x (Some (entry x));
          cv = \<lparr>cv_receive_source_pairs = pv_receive_source_pairs v, cv_block_callback_data = [],
                cv_orig_block_callback_data = pv_orig_block_callback_data v\<rparr>
      in if ht x \<le> wi s (ac x) then Some (st, cv)
         else collect_loop k l (ie_stopped_collecting env) (entry x) (ac x) (of_nat (wi s (ac x)))
                (ht x - wi s (ac x)) x True (x = h) False st cv)"

definition advanced ::
  "(block_hash, account) walk \<Rightarrow> block_hash \<Rightarrow> nat option \<Rightarrow> confirmation_height_unbounded \<Rightarrow> nat \<Rightarrow>
     confirmation_height_unbounded \<Rightarrow> collect_vars \<Rightarrow> (confirmation_height_unbounded \<times> receive_source_pair list) option" where
  "advanced s x rd st0 n st cv =
     (if n = length (cv_receive_source_pairs cv) then
        do { st \<leftarrow> prepare_iterated_blocks_for_cementing
               (set_option rd \<union> rsp_receive_details ` set (cv_receive_source_pairs cv))
               (prep_data st0 s x rd (cv_block_callback_data cv) (cv_orig_block_callback_data cv)) st;
             Some (st, butlast (cv_receive_source_pairs cv)) }
      else Some (if wi s (ac x) < ht x then mark_iterated (ac x) (of_nat (wv s (ac x))) (of_nat (ht x)) st else st,
                 cv_receive_source_pairs cv))"

lemma iteration_eq:
  assumes s: "sim h l st s (pv_receive_source_pairs v)" and run: "running env" and x: "x \<in> B"
    and nx: "next_source h v = (rd, x)" and first: "pv_first_iter v \<Longrightarrow> x = h"
    and c1: "collected h l env s x st v = Some (st1, cv)"
    and c2: "advanced s x rd st (length (pv_receive_source_pairs v)) st1 cv = Some (st2, ps)"
  shows "\<exists>e0. notified e0 = [] \<and> unbounded_iteration c k batch_write_size env (entry h) st l v =
    do { (st, l, events) \<leftarrow> end_write batch_write_size env st2 l ps e0;
         Some (ps \<noteq> [] \<or> x \<noteq> h, st, l,
           \<lparr>pv_receive_details = rd, pv_current = x, pv_receive_source_pairs = ps,
            pv_orig_block_callback_data = cv_orig_block_callback_data cv, pv_first_iter = False\<rparr>, events) }"
proof -
  note d = simD [OF s] and w = walk_okD [OF simD(1) [OF s]]
  let ?h = "generate_hash c (fst (entry h))" and ?st = "cache_block st x (Some (entry x))"
  have h: "?h = h" using walk_hash [OF w(1)] by (simp add: entry_def)
  have b: "(if pv_first_iter v then (Some (entry h), cache_block st h (Some (entry h))) else get_block_and_sideband l st x) =
      (Some (entry x), ?st)" using get_block_cached [OF x d(8,2)] first by auto
  obtain e where e: "bs x = Some e" "account_calculated e = ac x" "sb_height (snd e) = of_nat (ht x)" "entry x = e"
    using entryE [OF x] by metis
  note bd = heights_bound [OF d(4), of "ac x"] height_bound [OF x]
  have cur: "current_heights l ?st (ac x) = (of_nat (wv s (ac x)), of_nat (wi s (ac x)))"
    using current_sim [OF d(4) w(2), of "ac x"] by (simp add: current_heights_def)
  have n: "unat (of_nat (ht x) - of_nat (wi s (ac x)) :: u64) = ht x - wi s (ac x)" if "\<not> ht x \<le> wi s (ac x)"
    using word_sub [of "wi s (ac x)" "ht x"] bd(3) that by simp
  define e0 where "e0 = (if cu_confirmed_iterated_pairs st (ac x) = None \<and> pv_first_iter v \<and> ht x \<le> wv s (ac x)
    then [Already_cemented h] else [])"
  have c1': "(if ht x \<le> wi s (ac x)
      then Some (?st, \<lparr>cv_receive_source_pairs = pv_receive_source_pairs v, cv_block_callback_data = [],
                cv_orig_block_callback_data = pv_orig_block_callback_data v\<rparr>)
      else collect_unconfirmed_receive_and_sources_for_account c k l (ie_stopped_collecting env)
             (of_nat (ht x)) (of_nat (wi s (ac x))) (entry x) x (ac x) (entry h) ?st
             \<lparr>cv_receive_source_pairs = pv_receive_source_pairs v, cv_block_callback_data = [],
                cv_orig_block_callback_data = pv_orig_block_callback_data v\<rparr>) = Some (st1, cv)"
    using c1 n h by (simp add: collected_def collect_unconfirmed_receive_and_sources_for_account_def Let_def split: if_splits)
  have "unbounded_iteration c k batch_write_size env (entry h) st l v =
    do { (st, l, events) \<leftarrow> end_write batch_write_size env st2 l ps e0;
         Some (ps \<noteq> [] \<or> x \<noteq> h, st, l,
           \<lparr>pv_receive_details = rd, pv_current = x, pv_receive_source_pairs = ps,
            pv_orig_block_callback_data = cv_orig_block_callback_data cv, pv_first_iter = False\<rparr>, events) }"
  proof -
    have a: "account_calculated (entry x) = ac x" "sb_height (snd (entry x)) = of_nat (ht x)" using e by simp_all
    have pd: "\<lparr>pd_block_height = of_nat (ht x), pd_confirmation_height = of_nat (wv s (ac x)),
        pd_iterated_height = of_nat (wi s (ac x)), pd_account_it = cu_confirmed_iterated_pairs st (ac x), pd_account = ac x,
        pd_receive_details = rd, pd_already_traversed = ht x \<le> wi s (ac x), pd_current = x,
        pd_block_callback_data = cb, pd_orig_block_callback_data = ocb\<rparr> = prep_data st s x rd cb ocb" for cb ocb
      by (simp add: prep_data_def)
    have r: "\<not> ie_stopped env" "\<not> ie_stopped_end env" using run by (simp_all add: running_def)
    let ?v = "v\<lparr>pv_receive_details := rd, pv_current := x, pv_receive_source_pairs := cv_receive_source_pairs cv,
        pv_orig_block_callback_data := cv_orig_block_callback_data cv, pv_first_iter := False\<rparr>"
    have c2': "(if length (pv_receive_source_pairs v) = length (cv_receive_source_pairs cv) then
          do { st \<leftarrow> prepare_iterated_blocks_for_cementing
                 (set_option rd \<union> rsp_receive_details ` set (cv_receive_source_pairs cv))
                 (prep_data st s x rd (cv_block_callback_data cv) (cv_orig_block_callback_data cv)) st1;
               Some (st, ?v\<lparr>pv_receive_source_pairs := butlast (cv_receive_source_pairs cv)\<rparr>) }
        else Some (if wi s (ac x) < ht x then mark_iterated (ac x) (of_nat (wv s (ac x))) (of_nat (ht x)) st1 else st1, ?v)) =
        Some (st2, \<lparr>pv_receive_details = rd, pv_current = x, pv_receive_source_pairs = ps,
          pv_orig_block_callback_data = cv_orig_block_callback_data cv, pv_first_iter = False\<rparr>)"
      using c2 by (cases v) (auto simp: advanced_def bind_eq_Some split: if_splits)
    show ?thesis
      unfolding unbounded_iteration_def Let_def h
      by (simp only: nx prod.case b Option.bind.simps(2) a cur cache_block_simps word_less(2) [OF bd(3,2)] word_less(2) [OF bd(3,1)]
          word_less(1) [OF bd(2,3)] c1' r if_False pd c2') (simp add: end_write_def e0_def)
  qed
  moreover have "notified e0 = []" by (simp add: e0_def)
  ultimately show ?thesis by blast
qed

text \<open>What collecting keeps: heights and writes, and what it noted about blocks that were visited before.\<close>

definition grown ::
  "(block_hash, account) walk \<Rightarrow> block_hash \<Rightarrow> confirmation_height_unbounded \<Rightarrow> confirmation_height_unbounded \<Rightarrow> bool" where
  "grown s x st st' \<longleftrightarrow>
     cu_confirmed_iterated_pairs st' = cu_confirmed_iterated_pairs st \<and> cu_pending_writes st' = cu_pending_writes st \<and>
     cu_next_details st \<le> cu_next_details st' \<and> cache_ok st' \<and>
     (\<forall>y \<in> B. cu_block_cache st y = Some (bs y) \<or> (ac y = ac x \<and> wi s (ac x) < ht y \<and> ht y \<le> ht x) \<longrightarrow>
        cu_block_cache st' y = Some (bs y)) \<and>
     (\<forall>y \<in> B. ht y \<le> wi s (ac y) \<longrightarrow>
        cu_implicit_receive_cemented_mapping st' y = cu_implicit_receive_cemented_mapping st y)"

lemma grown_seen:
  assumes "x \<in> B" and "cache_ok st" and "ht x \<le> wi s (ac x)"
  shows "grown s x st (cache_block st x (Some (entry x)))"
  using assms entry_stored [OF assms(1)] by (auto simp: grown_def cache_ok_def)

lemma grown_framed:
  assumes x: "x \<in> B" and c: "cache_ok st" and f: "framed (segment (ac x) (wi s (ac x)) (ht x)) (cache_block st x (Some (entry x))) st'"
    and n: "cu_next_details st \<le> cu_next_details st'"
  shows "grown s x st st'"
proof -
  have "cache_ok (cache_block st x (Some (entry x)))" using c entry_stored [OF x] by (simp add: cache_ok_def)
  from framed_cache_ok [OF f this] have "cache_ok st'" .
  moreover have "cu_implicit_receive_cemented_mapping st' y = cu_implicit_receive_cemented_mapping st y"
    if "y \<in> B" "ht y \<le> wi s (ac y)" for y
  proof -
    have "y \<notin> set (segment (ac x) (wi s (ac x)) (ht x))" using that segment_mem [OF x order_refl] by auto
    with f show ?thesis by (simp add: framed_def)
  qed
  ultimately show ?thesis
    using f n segment_mem [OF x order_refl] by (auto simp: grown_def framed_def entry_stored [OF x, symmetric])
qed

lemma pair_sim_grown:
  assumes w: "walk_ok h s" and r: "r \<in> set (ws s)" and g: "grown s x st st'" and p: "pair_sim st s p r"
    and d: "cu_details st' (rsp_receive_details p) = cu_details st (rsp_receive_details p)"
  shows "pair_sim st' s p r"
proof -
  have "cu_implicit_receive_cemented_mapping st' y = cu_implicit_receive_cemented_mapping st y"
    if "y \<in> B" "ac y = ac r" "ht y < ht r" for y
  proof -
    have "ht y \<le> wi s (ac y)" using walk_okD(4) [OF w r] that by simp
    with g that(1) show ?thesis by (simp add: grown_def)
  qed
  with p d g show ?thesis by (auto simp: pair_sim_def grown_def)
qed

lemma stack_sim_grown:
  assumes w: "walk_ok h s" and g: "grown s x st st'" and p: "stack_sim st s ps"
    and d: "\<And>q. q < cu_next_details st \<Longrightarrow> cu_details st' q = cu_details st q"
  shows "stack_sim st' s ps"
proof -
  have "list_all2 (pair_sim st' s) (rev ps) (ws s)"
  proof (rule list.rel_mono_strong)
    show "list_all2 (pair_sim st s) (rev ps) (ws s)" using p by (simp add: stack_sim_def)
    show "pair_sim st' s q r" if "q \<in> set (rev ps)" "r \<in> set (ws s)" "pair_sim st s q r" for q r
      using pair_sim_grown [OF w that(2) g that(3)] d that(3) by (simp add: pair_sim_def)
  qed
  with p show ?thesis by (simp add: stack_sim_def)
qed

lemma heights_sim_cong:
  "cu_confirmed_iterated_pairs st' = cu_confirmed_iterated_pairs st \<Longrightarrow> heights_sim l st' s = heights_sim l st s"
  by (simp add: heights_sim_def)

lemma prep_data_cong:
  "cu_confirmed_iterated_pairs st' = cu_confirmed_iterated_pairs st \<Longrightarrow> prep_data st' = prep_data st"
  by (simp add: fun_eq_iff prep_data_def)

section \<open>A receive block whose source is settled\<close>

lemma prepare_top:
  assumes w: "walk_ok h s" and r: "ws s = r # rest" and hs: "heights_sim l st s" and ss: "stack_sim st s ps"
    and p: "pair_sim st s p r" and alive: "rsp_receive_details ` set ps \<subseteq> alive"
    and cb: "ht (source r) \<le> wi s (ac (source r)) \<and> cb = [] \<or>
      wi s (ac (source r)) < ht (source r) \<and> cb = segment (ac (source r)) (wi s (ac (source r))) (ht (source r))"
  shows "\<exists>st'. prepare_iterated_blocks_for_cementing alive
      (prep_data st s (source r) (Some (rsp_receive_details p)) cb ocb) st = Some st' \<and>
    kept (rsp_receive_details p) st st' \<and> heights_sim l st' (pop r s) \<and>
    cu_pending_writes st' = cu_pending_writes st @
      writes_of (wv s) ((if wv s (ac (source r)) < ht (source r) then [source r] else []) @ [r])"
proof -
  let ?x = "source r" and ?p = "rsp_receive_details p"
  let ?pd = "prep_data st s ?x (Some ?p) cb ocb"
  have r': "r \<in> set (ws s)" using r by simp
  note f = source_facts [OF w r']
  have d: "cu_details st ?p = details_of s r" using p by (simp add: pair_sim_def)
  have keep: "(details_of s r)\<lparr>chd_source_block_callback_data := []\<rparr> = details_of s r" if "wtop s r = None"
    using that by (simp add: details_of_def)
  note pp = prepare_pop [OF w r hs refl f(2) _ prep_data_simps(6)]
  show ?thesis
  proof (cases "wv s (ac ?x) < ht ?x")
    case False
    then have "wtop s r = None" using walk_okD(8) [OF w r'] by (cases "wtop s r") auto
    with pp [OF prepare_block_none [OF hs f(2) False]] False keep d show ?thesis by (simp add: kept_def)
  next
    case True
    show ?thesis
    proof (cases "ht ?x \<le> wi s (ac ?x)")
      case seen: True
      with cb have "cb = []" by simp
      note pb = prepare_block_write [OF hs f(2) True prepare_data_seen [OF w r ss p seen True alive, folded \<open>cb = []\<close>]]
      show ?thesis by (rule pp [OF pb]) (use True d \<open>cb = []\<close> in \<open>simp_all add: kept_def\<close>)
    next
      case new: False
      then have n: "wi s (ac ?x) = wv s (ac ?x)" "wtop s r = None" using top_source_new [OF w r] by simp_all
      have "cb = segment (ac ?x) (wi s (ac ?x)) (ht ?x)" using cb new by simp
      note pb = prepare_block_write [OF hs f(2) True prepare_data_new [OF n(1) True, folded this]]
      show ?thesis by (rule pp [OF pb]) (use True d keep n in \<open>simp_all add: kept_def\<close>)
    qed
  qed
qed

lemma cache_sim_grown:
  assumes "cache_sim l st s" and "grown s x st st'" and "x \<in> B" and "\<And>a. wi s' a \<le> (if a = ac x then max (wi s a) (ht x) else wi s a)"
    and "cu_block_cache st'' = cu_block_cache st'"
  shows "cache_sim l st'' s'"
  unfolding cache_sim_def
proof (intro conjI ballI impI)
  show "cache_ok st''" using assms(2,5) by (simp add: grown_def cache_ok_def)
  fix y assume y: "y \<in> B" "conf_heights l (ac y) < ht y" "ht y \<le> wi s' (ac y)"
  have "cu_block_cache st y = Some (bs y) \<or> (ac y = ac x \<and> wi s (ac x) < ht y \<and> ht y \<le> ht x)"
  proof (cases "ht y \<le> wi s (ac y)")
    case True
    with assms(1) y show ?thesis by (simp add: cache_sim_def)
  next
    case False
    with y(3) assms(4) [of "ac y"] show ?thesis by (auto split: if_splits)
  qed
  with assms(2) y(1) have "cu_block_cache st' y = Some (bs y)" unfolding grown_def by blast
  with assms(5) show "cu_block_cache st'' y = Some (bs y)" by simp
qed

lemma scan_new:
  assumes w: "walk_ok h s" and r: "ws s = r # rest" and n: "wi s (ac (source r)) < ht (source r)"
    and sc: "scan (ac (source r)) (wi s (ac (source r))) (ht (source r) - wi s (ac (source r))) = (d, rs)"
  shows "d = segment (ac (source r)) (scan_top (wi s (ac (source r))) rs) (ht (source r))" and "d \<noteq> []"
    and "rs = [] \<Longrightarrow> y \<in> B \<Longrightarrow> ac y = ac (source r) \<Longrightarrow> wv s (ac y) < ht y \<Longrightarrow> ht y \<le> ht (source r) \<Longrightarrow> src y = None"
proof -
  let ?x = "source r" and ?i = "wi s (ac (source r))"
  have r': "r \<in> set (ws s)" using r by simp
  note f = source_facts [OF w r'] and i = top_source_new(1) [OF w r n]
  from scan_segment [OF f(2) refl _ sc] n have g: "d = segment (ac ?x) (scan_top ?i rs) (ht ?x)"
    "fst ` set rs = {y \<in> B. ac y = ac ?x \<and> src y \<noteq> None \<and> ?i < ht y \<and> ht y \<le> ht ?x}" by auto
  show "d = segment (ac ?x) (scan_top ?i rs) (ht ?x)" by (rule g(1))
  have b: "block_at (ac ?x) (Suc (?i + (ht ?x - Suc ?i))) = ?x" using block_at_eq [OF f(2)] n by simp
  obtain m where m: "ht ?x - ?i = Suc m" using n by (metis Suc_diff_Suc)
  then have "Suc (?i + m) = ht ?x" using n by simp
  then have "block_at (ac ?x) (Suc (?i + m)) = ?x" using block_at_eq [OF f(2)] by simp
  with sc f(4) show "d \<noteq> []" unfolding m by (auto simp: Let_def split: prod.splits)
  show "src y = None" if "rs = []" "y \<in> B" "ac y = ac ?x" "wv s (ac y) < ht y" "ht y \<le> ht ?x" for y
  proof -
    have "y \<notin> fst ` set rs" using that(1) by simp
    with that g(2) i show ?thesis by auto
  qed
qed

lemma advance_pop:
  assumes s: "sim h l st s ps" and r: "ws s = r # rest" and ps: "ps = ps' @ [p]" and p: "pair_sim st s p r"
    and g: "grown s (source r) st st1" and dt: "\<And>q. q < cu_next_details st \<Longrightarrow> cu_details st1 q = cu_details st q"
    and cv: "cv_receive_source_pairs cv = ps"
    and cb: "ht (source r) \<le> wi s (ac (source r)) \<and> cv_block_callback_data cv = [] \<or>
      wi s (ac (source r)) < ht (source r) \<and>
      cv_block_callback_data cv = segment (ac (source r)) (wi s (ac (source r))) (ht (source r))"
    and plain: "\<And>y. y \<in> B \<Longrightarrow> ac y = ac (source r) \<Longrightarrow> wv s (ac y) < ht y \<Longrightarrow> ht y \<le> ht (source r) \<Longrightarrow> src y = None"
  shows "\<exists>st2. advanced s (source r) (Some (rsp_receive_details p)) st (length ps) st1 cv = Some (st2, ps') \<and>
    sim h l st2 (pop r s) ps'"
proof -
  note d = simD [OF s]
  let ?x = "source r" and ?p = "rsp_receive_details p"
  have r': "r \<in> set (ws s)" using r by simp
  have cip: "cu_confirmed_iterated_pairs st1 = cu_confirmed_iterated_pairs st" using g by (simp add: grown_def)
  have hs: "heights_sim l st1 s" using d(4) heights_sim_cong [OF cip] by simp
  have ss: "stack_sim st1 s ps" by (rule stack_sim_grown [OF d(1) g d(5) dt])
  have p1: "pair_sim st1 s p r" by (rule pair_sim_grown [OF d(1) r' g p]) (use p dt in \<open>simp add: pair_sim_def\<close>)
  from prepare_top [OF d(1) r hs ss p1 _ cb, of "{?p} \<union> rsp_receive_details ` set ps" "cv_orig_block_callback_data cv"]
  obtain st2 where st2: "prepare_iterated_blocks_for_cementing ({?p} \<union> rsp_receive_details ` set ps)
      (prep_data st1 s ?x (Some ?p) (cv_block_callback_data cv) (cv_orig_block_callback_data cv)) st1 = Some st2"
    "kept ?p st1 st2" "heights_sim l st2 (pop r s)"
    "cu_pending_writes st2 = cu_pending_writes st1 @ writes_of (wv s) ((if wv s (ac ?x) < ht ?x then [?x] else []) @ [r])"
    by auto
  have "advanced s ?x (Some ?p) st (length ps) st1 cv = Some (st2, ps')"
    using st2(1) ps by (simp add: advanced_def cv prep_data_cong [OF cip])
  moreover have "sim h l st2 (pop r s) ps'"
    unfolding sim_def
  proof (intro conjI)
    show "walk_ok h (pop r s)" by (rule pop_ok [OF d(1) r plain])
    show "stack_sim st2 (pop r s) ps'"
    proof -
      from stack_simE [OF ss r] ps have l2: "list_all2 (pair_sim st1 s) (rev ps') rest" "distinct (map rsp_receive_details ps')"
        "?p \<notin> rsp_receive_details ` set ps'" by auto
      have "list_all2 (pair_sim st2 (pop r s)) (rev ps') rest"
      proof (rule list.rel_mono_strong [OF l2(1)])
        fix q z assume "q \<in> set (rev ps')" "pair_sim st1 s q z"
        moreover from this(1) l2(3) have "rsp_receive_details q \<noteq> ?p" by (metis imageI set_rev)
        ultimately show "pair_sim st2 (pop r s) q z" using st2(2) by (simp add: pair_sim_def kept_def details_of_def)
      qed
      with l2(2) r show ?thesis by (simp add: stack_sim_def)
    qed
    show "cache_sim l st2 (pop r s)"
      by (rule cache_sim_grown [OF d(6) g source_facts(2) [OF d(1) r']]) (use st2(2) in \<open>auto simp: pop_heights kept_def\<close>)
    show "writes_sim l st2 (pop r s)"
    proof -
      from d(7) obtain xs where xs: "plan (conf_heights l) xs (wv s)" "cu_pending_writes st = writes_of (conf_heights l) xs"
        unfolding writes_sim_def by blast
      let ?ys = "(if wv s (ac ?x) < ht ?x then [?x] else []) @ [r]"
      have "plan (conf_heights l) (xs @ ?ys) (wv (pop r s))" by (rule plan_append [OF xs(1) pop_plan [OF d(1) r plain]])
      moreover have "cu_pending_writes st2 = writes_of (conf_heights l) (xs @ ?ys)"
        using st2(4) xs(2) g writes_of_append [OF xs(1)] by (simp add: grown_def)
      ultimately show ?thesis unfolding writes_sim_def by blast
    qed
  qed (use d st2 in simp_all)
  ultimately show ?thesis by blast
qed

end

end
