(* ===== verification/Unbounded_Push.thy ===== *)
theory Unbounded_Push
  imports Unbounded_Walk
begin

text \<open>An iteration that finds receive blocks: they are put on top of the walk, with their records.\<close>

declare split_paired_All [simp del] split_paired_Ex [simp del]

context ledger_walk
begin

lemma new_pairs_simps [simp]:
  "length (new_pairs m rs) = length rs" "map rsp_receive_details (new_pairs m rs) = [m..<m + length rs]"
  by (induction m rs rule: new_pairs.induct) (simp_all add: upt_conv_Cons del: upt_Suc)

lemma mark_sim:
  assumes hs: "heights_sim l st s" and x: "x \<in> B" and "wv s' = wv s" and "wi s' = (wi s)(ac x := ht x)"
  shows "heights_sim l (mark_iterated (ac x) (of_nat (wv s (ac x))) (of_nat (ht x)) st) s'"
proof (cases "cu_confirmed_iterated_pairs st (ac x)")
  case None
  with assms(3,4) height_bound [OF x] heights_bound(1) [OF hs, of "ac x"] show ?thesis
    by (intro heights_upd [OF hs, of _ "ac x" "\<lparr>cip_confirmed_height = of_nat (wv s (ac x)), cip_iterated_height = of_nat (ht x)\<rparr>"])
      (simp_all add: mark_iterated_def word_nat)
next
  case (Some p)
  then have "unat (cip_confirmed_height p) = wv s (ac x)"
    using hs unfolding heights_sim_def by (auto dest: spec [of _ "ac x"])
  with Some assms(3,4) height_bound [OF x] show ?thesis
    by (intro heights_upd [OF hs, of _ "ac x" "p\<lparr>cip_iterated_height := of_nat (ht x)\<rparr>"]) (simp_all add: mark_iterated_def word_nat)
qed

lemma new_pairs_sim:
  assumes ok: "scan_ok a i R" "sorted_wrt (\<lambda>p q. ht (fst q) < ht (fst p)) R"
    and lo: "\<And>q. q \<in> fst ` set R \<Longrightarrow> wlo s q = scan_lo R q \<and> wtop s q = None"
  shows "pairs_made st m rs \<Longrightarrow> set rs \<subseteq> set R \<Longrightarrow> m + length rs \<le> cu_next_details st \<Longrightarrow>
    list_all2 (pair_sim st s) (new_pairs m rs) (map fst rs)"
proof (induction rs arbitrary: m)
  case (Cons p rs)
  obtain r d where p: "p = (r, d)" by force
  with Cons.prems(2) have "(r, d) \<in> set R" by simp
  from scan_lo_segment [OF ok this] have f: "r \<in> B" "ac r = a" "scan_lo R r < ht r" "r # d = segment a (scan_lo R r) (ht r)" by simp_all
  have l: "wlo s r = scan_lo R r" "wtop s r = None" using lo [of r] \<open>(r, d) \<in> set R\<close> by force+
  have n: "Suc (length d) = ht r - scan_lo R r" using arg_cong [OF f(4), of length] by simp
  have "conf_height_details_new (ac r) r (of_nat (ht r)) (of_nat (Suc (length d))) (r # d) = details_of s r"
    unfolding n f(4) by (simp add: details_of_def conf_height_details_new_def l f(2) del: of_nat_diff)
  moreover have "y \<in> set d" if "y \<in> B" "ac y = ac r" "scan_lo R r < ht y" "ht y < ht r" for y
  proof -
    have "y \<in> set (r # d)" unfolding f(4) using segment_mem [OF f(1) order_refl] that f(2) by simp
    with that(4) show ?thesis by auto
  qed
  ultimately have "pair_sim st s \<lparr>rsp_receive_details = m, rsp_source_hash = source r\<rparr> r"
    using Cons.prems unfolding p pair_sim_def l(1) by simp
  with Cons p show ?case by simp
qed simp

lemma advance_push:
  assumes s: "sim h l st s ps" and x: "x \<in> B" and new: "wi s (ac x) < ht x"
    and sc: "scan (ac x) (wi s (ac x)) (ht x - wi s (ac x)) = (d, rs)" and rs: "rs \<noteq> []"
    and f: "framed (segment (ac x) (wi s (ac x)) (ht x)) (cache_block st x (Some (entry x))) st1"
    and n: "cu_next_details st1 = cu_next_details st + length rs" and pm: "pairs_made st1 (cu_next_details st) rs"
    and cv: "cv_receive_source_pairs cv = ps @ new_pairs (cu_next_details st) rs"
    and w': "walk_ok h s'" and s': "wv s' = wv s" "wi s' = (wi s)(ac x := ht x)" "ws s' = rev (map fst rs) @ ws s"
    and lo: "\<And>q. q \<in> fst ` set rs \<Longrightarrow> wlo s' q = scan_lo rs q \<and> wtop s' q = None"
    and old: "list_all2 (pair_sim st1 s') (rev ps) (ws s)"
  shows "\<exists>st2. advanced s x rd st (length ps) st1 cv = Some (st2, ps @ new_pairs (cu_next_details st) rs) \<and>
    sim h l st2 s' (ps @ new_pairs (cu_next_details st) rs)"
proof -
  note d = simD [OF s]
  let ?st = "mark_iterated (ac x) (of_nat (wv s (ac x))) (of_nat (ht x)) st1"
  let ?ps = "ps @ new_pairs (cu_next_details st) rs"
  have g: "grown s x st st1" by (rule grown_framed [OF x d(8) f]) (simp add: n)
  then have cip: "cu_confirmed_iterated_pairs st1 = cu_confirmed_iterated_pairs st" by (simp add: grown_def)
  have hs: "heights_sim l st1 s" using d(4) heights_sim_cong [OF cip] by simp
  have mk: "cu_details ?st = cu_details st1" "cu_next_details ?st = cu_next_details st1" "cu_block_cache ?st = cu_block_cache st1"
    "cu_implicit_receive_cemented_mapping ?st = cu_implicit_receive_cemented_mapping st1"
    "cu_pending_writes ?st = cu_pending_writes st1" by (simp_all add: mark_iterated_def)
  have ps_eq: "pair_sim ?st s' = pair_sim st1 s'" by (simp add: pair_sim_def fun_eq_iff mk)
  from scan_segment [OF x refl _ sc] new have so: "scan_ok (ac x) (wi s (ac x)) rs"
    "sorted_wrt (\<lambda>p q. ht (fst q) < ht (fst p)) rs" by auto
  have "list_all2 (pair_sim st1 s') (new_pairs (cu_next_details st) rs) (map fst rs)"
    by (rule new_pairs_sim [OF so lo pm]) (simp_all add: n)
  then have l2: "list_all2 (pair_sim ?st s') (rev ?ps) (ws s')"
    using old unfolding ps_eq s'(3) by (simp add: list_all2_appendI)
  have ids: "q < cu_next_details st" if "q \<in> rsp_receive_details ` set ps" for q
  proof -
    from that obtain p where "p \<in> set ps" "q = rsp_receive_details p" by auto
    moreover from this obtain r where "pair_sim st s p r"
      using d(5) unfolding stack_sim_def by (metis in_set_conv_nth list_all2_conv_all_nth set_rev)
    ultimately show ?thesis by (simp add: pair_sim_def)
  qed
  have "sim h l ?st s' ?ps"
    unfolding sim_def
  proof (intro conjI)
    show "heights_sim l ?st s'" by (rule mark_sim [OF hs x s'(1,2)])
    show "stack_sim ?st s' ?ps" using l2 ids d(5) by (fastforce simp: stack_sim_def)
    show "cache_sim l ?st s'" by (rule cache_sim_grown [OF d(6) g x _ mk(3)]) (simp add: s'(2))
    show "writes_sim l ?st s'" using d(7) g by (simp add: writes_sim_def s'(1) mk(5) grown_def)
  qed (use d w' in simp_all)
  moreover have "advanced s x rd st (length ps) st1 cv = Some (?st, ?ps)"
    using new rs by (simp add: advanced_def cv)
  ultimately show ?thesis by blast
qed

end

end
