(* ===== verification/Unbounded_Correct.thy ===== *)
theory Unbounded_Correct
  imports Unbounded_Push
begin

text \<open>The loop of \<open>process\<close>: every iteration ends, the loop ends, and what is confirmed then.\<close>

declare split_paired_All [simp del] split_paired_Ex [simp del]

context ledger_walk
begin

text \<open>An iteration brings the processor from one point of the walk to another.\<close>

definition moves ::
  "u64 \<Rightarrow> iteration_env \<Rightarrow> block_hash \<Rightarrow> confirmation_height_unbounded \<Rightarrow> ledger \<Rightarrow> process_vars \<Rightarrow> bool \<Rightarrow>
     (block_hash, account) walk \<Rightarrow> nat option \<Rightarrow> block_hash list \<Rightarrow> bool" where
  "moves batch_write_size env h st l v continue s' rd ocb \<longleftrightarrow>
     (\<exists>st' l' v' es. unbounded_iteration c k batch_write_size env (entry h) st l v = Some (continue, st', l', v', es) \<and>
        sim h l' st' s' (pv_receive_source_pairs v') \<and> history l l' (notified es) \<and>
        pv_orig_block_callback_data v' = ocb \<and> pv_receive_details v' = rd \<and> \<not> pv_first_iter v')"

lemma movesI:
  assumes s: "sim h l st s (pv_receive_source_pairs v)" and run: "running env" and x: "x \<in> B"
    and nx: "next_source h v = (rd, x)" and first: "pv_first_iter v \<Longrightarrow> x = h"
    and c1: "collected h l env s x st v = Some (st1, cv)"
    and c2: "advanced s x rd st (length (pv_receive_source_pairs v)) st1 cv = Some (st2, ps)"
    and s': "sim h l st2 s' ps"
  shows "moves batch_write_size env h st l v (ps \<noteq> [] \<or> x \<noteq> h) s' rd (cv_orig_block_callback_data cv)"
proof -
  from iteration_eq [OF s run x nx first c1 c2, of batch_write_size] obtain e0 where
    e0: "notified e0 = []" "unbounded_iteration c k batch_write_size env (entry h) st l v =
      do { (st, l, events) \<leftarrow> end_write batch_write_size env st2 l ps e0;
           Some (ps \<noteq> [] \<or> x \<noteq> h, st, l,
             \<lparr>pv_receive_details = rd, pv_current = x, pv_receive_source_pairs = ps,
              pv_orig_block_callback_data = cv_orig_block_callback_data cv, pv_first_iter = False\<rparr>, events) }" by blast
  from end_write_sim [OF s', of batch_write_size env e0] obtain st' l' es where
    "end_write batch_write_size env st2 l ps e0 = Some (st', l', e0 @ es)" "sim h l' st' s' ps" "history l l' (notified es)"
    by blast
  with e0 show ?thesis by (simp add: moves_def notified_append)
qed

lemma block_at_top: "x \<in> B \<Longrightarrow> i < ht x \<Longrightarrow> block_at (ac x) (i + (ht x - i)) = x"
  using block_at_eq by simp

lemma original_not_source:
  assumes "walk_ok h s" and "r \<in> set (ws s)"
  shows "source r \<noteq> h"
  using needs_rank [of h r] walk_okD(4) [OF assms] source_facts(3) [OF assms] by auto

text \<open>Collecting from a source that was not visited before.\<close>

lemma collected_source:
  assumes s: "sim h l st s (pv_receive_source_pairs v)" and run: "running env" and r: "ws s = r # rest"
    and ps: "pv_receive_source_pairs v = ps' @ [p]" and new: "wi s (ac (source r)) < ht (source r)"
    and sc: "scan (ac (source r)) (wi s (ac (source r))) (ht (source r) - wi s (ac (source r))) = (d, rs)"
  shows "\<exists>st1. collected h l env s (source r) st v =
      Some (st1, \<lparr>cv_receive_source_pairs = pv_receive_source_pairs v @ new_pairs (cu_next_details st) rs,
        cv_block_callback_data = (if rs = [] then d else []),
        cv_orig_block_callback_data = pv_orig_block_callback_data v\<rparr>) \<and>
    framed (segment (ac (source r)) (wi s (ac (source r))) (ht (source r))) (cache_block st (source r) (Some (entry (source r)))) st1 \<and>
    cu_next_details st1 = cu_next_details st + length rs \<and>
    (\<forall>q < cu_next_details st. cu_details st1 q = (if rs \<noteq> [] \<and> q = rsp_receive_details p
        then (cu_details st q)\<lparr>chd_source_block_callback_data := d\<rparr> else cu_details st q)) \<and>
    pairs_made st1 (cu_next_details st) rs"
proof -
  note d = simD [OF s]
  let ?x = "source r" and ?i = "wi s (ac (source r))"
  let ?st = "cache_block st ?x (Some (entry ?x))"
  let ?cv = "\<lparr>cv_receive_source_pairs = pv_receive_source_pairs v, cv_block_callback_data = [],
    cv_orig_block_callback_data = pv_orig_block_callback_data v\<rparr>"
  have r': "r \<in> set (ws s)" using r by simp
  note f = source_facts [OF d(1) r'] and xh = original_not_source [OF d(1) r']
  have cok: "cache_ok ?st" using d(8) entry_stored [OF f(2)] by (simp add: cache_ok_def)
  have ns: "\<not> ie_stopped_collecting env n" for n using run by (simp add: running_def)
  have it: "unat (of_nat ?i :: u64) = ?i" by (rule word_nat [OF heights_bound(2) [OF d(4)]])
  from collect_other [where stopped = "ie_stopped_collecting env" and n = "ht ?x - ?i" and v = ?cv and first = True and b = "entry ?x",
      OF f(2) refl d(2) ns it _ sc cok] scan_new(2) [OF d(1) r new sc] new ps block_at_top [OF f(2) new] xh
  show ?thesis by (auto simp: collected_def Let_def)
qed

lemma push_old:
  assumes s: "sim h l st s (ps' @ [p])" and r: "ws s = r # rest" and p: "pair_sim st s p r"
    and g: "grown s (source r) st st1" and out: "\<And>z. z \<in> set (ws s) \<Longrightarrow> z \<notin> set R"
    and top: "ht (last R) = t"
    and dt: "\<And>q. q < cu_next_details st \<Longrightarrow> cu_details st1 q = (if q = rsp_receive_details p
        then (cu_details st q)\<lparr>chd_source_block_callback_data := segment (ac (source r)) t (ht (source r))\<rparr> else cu_details st q)"
  shows "list_all2 (pair_sim st1 (push_source r R lo s)) (rev (ps' @ [p])) (ws s)"
proof -
  note d = simD [OF s]
  let ?s = "push_source r R lo s" and ?p = "rsp_receive_details p"
  have r': "r \<in> set (ws s)" using r by simp
  from stack_simE [OF d(5) r] have rest: "list_all2 (pair_sim st s) (rev ps') rest"
    "rsp_receive_details p \<notin> rsp_receive_details ` set ps'" by auto
  have pr: "pair_sim st1 ?s q z" if "z \<in> set (ws s)" "pair_sim st s q z"
    "cu_details st1 (rsp_receive_details q) = details_of ?s z" for q z
    using that g walk_okD(4) [OF d(1) that(1)] out [OF that(1)] by (auto simp: pair_sim_def grown_def)
  have "pair_sim st1 ?s p r"
    by (rule pr [OF r' p]) (use dt p out [OF r'] top in \<open>simp add: pair_sim_def details_of_def\<close>)
  moreover have "list_all2 (pair_sim st1 ?s) (rev ps') rest"
  proof (rule list.rel_mono_strong [OF rest(1)])
    fix q z assume q: "q \<in> set (rev ps')" "z \<in> set rest" "pair_sim st s q z"
    have z: "z \<in> set (ws s)" "z \<noteq> r" using q(2) pop_rest(1,2) [OF d(1) r] by auto
    have qp: "rsp_receive_details q \<noteq> ?p" using q(1) rest(2) by (metis imageI set_rev)
    have "details_of ?s z = details_of s z" using out [OF z(1)] z(2) by (simp add: details_of_def)
    with dt q(3) qp have "cu_details st1 (rsp_receive_details q) = details_of ?s z" by (simp add: pair_sim_def)
    then show "pair_sim st1 ?s q z" by (rule pr [OF z(1) q(3)])
  qed
  ultimately show ?thesis using r by simp
qed

lemma step_source:
  assumes s: "sim h l st s (pv_receive_source_pairs v)" and run: "running env" and r: "ws s = r # rest"
    and first: "\<not> pv_first_iter v"
  shows "\<exists>s' p. moves batch_write_size env h st l v True s' (Some p) (pv_orig_block_callback_data v) \<and>
    walk_measure s' < walk_measure s \<and> wo s' = wo s \<and>
    reaches h (wv s) (wv s')"
proof -
  note d = simD [OF s]
  let ?ps = "pv_receive_source_pairs v" and ?x = "source r" and ?m = "cu_next_details st"
  have r': "r \<in> set (ws s)" using r by simp
  note f = source_facts [OF d(1) r'] and xh = original_not_source [OF d(1) r']
  from stack_simE [OF d(5) r] obtain ps' p where ps: "?ps = ps' @ [p]" and p: "pair_sim st s p r" by metis
  let ?p = "rsp_receive_details p" and ?i = "wi s (ac ?x)"
  have nx: "next_source h v = (Some ?p, ?x)" using ps p by (simp add: next_source_def Let_def pair_sim_def)
  have fin: ?thesis if a: "advanced s ?x (Some ?p) st (length ?ps) st1 cv = Some (st2, qs)" "sim h l st2 s' qs"
    and c: "collected h l env s ?x st v = Some (st1, cv)" "cv_orig_block_callback_data cv = pv_orig_block_callback_data v"
    and m: "walk_measure s' < walk_measure s" "wo s' = wo s"
      "reaches h (wv s) (wv s')" for st1 cv st2 qs s'
    using movesI [OF s run f(2) nx _ c(1) a] first c(2) xh m by auto
  have pop: ?thesis if c: "collected h l env s ?x st v = Some (st1, cv)" "cv_orig_block_callback_data cv = pv_orig_block_callback_data v"
    and a: "advanced s ?x (Some ?p) st (length ?ps) st1 cv = Some (st2, ps')" "sim h l st2 (pop r s) ps'" for st1 cv st2
    by (rule fin [OF a c]) (use pop_measure [OF d(1) r] reaches_pop [OF d(1) r] in auto)
  show ?thesis
  proof (cases "ht ?x \<le> ?i")
    case True
    let ?st = "cache_block st ?x (Some (entry ?x))"
    let ?cv = "\<lparr>cv_receive_source_pairs = ?ps, cv_block_callback_data = [],
      cv_orig_block_callback_data = pv_orig_block_callback_data v\<rparr>"
    from advance_pop [OF s r ps p grown_seen [OF f(2) d(8) True], of ?cv] True top_source_plain [OF d(1) r True]
    obtain st2 where "advanced s ?x (Some ?p) st (length ?ps) ?st ?cv = Some (st2, ps')" "sim h l st2 (pop r s) ps'" by auto
    moreover have "collected h l env s ?x st v = Some (?st, ?cv)" using True by (simp add: collected_def Let_def)
    ultimately show ?thesis by (intro pop) simp_all
  next
    case False
    then have new: "?i < ht ?x" by simp
    obtain d' rs where sc: "scan (ac ?x) ?i (ht ?x - ?i) = (d', rs)" by force
    note sn = scan_new [OF d(1) r new sc]
    let ?cv = "\<lparr>cv_receive_source_pairs = ?ps @ new_pairs ?m rs, cv_block_callback_data = (if rs = [] then d' else []),
        cv_orig_block_callback_data = pv_orig_block_callback_data v\<rparr>"
    from collected_source [OF s run r ps new sc] obtain st1 where col: "collected h l env s ?x st v = Some (st1, ?cv)"
      and st1: "framed (segment (ac ?x) ?i (ht ?x)) (cache_block st ?x (Some (entry ?x))) st1"
        "cu_next_details st1 = ?m + length rs"
        "\<forall>q < ?m. cu_details st1 q = (if rs \<noteq> [] \<and> q = ?p
          then (cu_details st q)\<lparr>chd_source_block_callback_data := d'\<rparr> else cu_details st q)"
        "pairs_made st1 ?m rs" by blast
    have g: "grown s ?x st st1" by (rule grown_framed [OF f(2) d(8) st1(1)]) (simp add: st1(2))
    show ?thesis
    proof (cases "rs = []")
      case True
      with sn(1) have "d' = segment (ac ?x) ?i (ht ?x)" by simp
      with advance_pop [OF s r ps p g, of ?cv] True st1(3) sn(3) [OF True] new obtain st2 where
        "advanced s ?x (Some ?p) st (length ?ps) st1 ?cv = Some (st2, ps')" "sim h l st2 (pop r s) ps'" by auto
      with col show ?thesis by (intro pop) simp_all
    next
      case False
      let ?R = "rev (map fst rs)"
      let ?s = "push_source r ?R (scan_lo rs) s"
      have i: "wv s (ac ?x) = ?i" using top_source_new(1) [OF d(1) r new] by simp
      have hx: "ht ?x = ?i + (ht ?x - ?i)" using new by simp
      note rc = scan_receives [OF f(2) refl hx sc False i]
      have out: "z \<notin> set ?R" if "z \<in> set (ws s)" for z using push_source_less(2) [OF d(1) r rc(1) _ that] by auto
      have lo: "wlo ?s q = scan_lo rs q \<and> wtop ?s q = None" if "q \<in> fst ` set rs" for q
        using that out [OF r'] by (auto simp: image_iff)
      have old: "list_all2 (pair_sim st1 ?s) (rev ?ps) (ws s)"
        unfolding ps by (rule push_old [OF s [unfolded ps] r p g out rc(2)]) (use st1(3) False sn(1) in auto)
      from advance_push [OF s f(2) new sc False st1(1,2,4) _ push_source_ok [OF d(1) r new rc(1)] _ _ _ lo old, of ?cv "Some ?p"]
      obtain st2 where st2: "advanced s ?x (Some ?p) st (length ?ps) st1 ?cv = Some (st2, ?ps @ new_pairs ?m rs)"
        "sim h l st2 ?s (?ps @ new_pairs ?m rs)" by auto
      have "walk_measure ?s < walk_measure s" by (rule push_measure [OF _ _ new f(2) rc(1) i]) simp_all
      then show ?thesis by (intro fin [OF st2 col]) simp_all
    qed
  qed
qed

section \<open>The original block\<close>

lemma advance_settle:
  assumes s: "sim h l st s []" and e: "ws s = []" and g: "grown s h st st1"
    and cv: "cv_receive_source_pairs cv = []" "cv_block_callback_data cv = []"
      "wv s (ac h) < ht h \<Longrightarrow> cv_orig_block_callback_data cv = segment (ac h) (wv s (ac h)) (ht h)"
    and plain: "\<And>y. y \<in> B \<Longrightarrow> ac y = ac h \<Longrightarrow> wv s (ac y) < ht y \<Longrightarrow> ht y \<le> ht h \<Longrightarrow> src y = None"
  shows "\<exists>st2. advanced s h None st 0 st1 cv = Some (st2, []) \<and> sim h l st2 (settle h s) []"
proof -
  note d = simD [OF s] and h = walk_okD(1) [OF simD(1) [OF s]]
  have cip: "cu_confirmed_iterated_pairs st1 = cu_confirmed_iterated_pairs st" using g by (simp add: grown_def)
  have hs: "heights_sim l st1 s" using d(4) heights_sim_cong [OF cip] by simp
  let ?xs = "if wv s (ac h) < ht h then [h] else []" and ?ocb = "cv_orig_block_callback_data cv"
  have "\<exists>st2. prepare_block {} (prep_data st1 s h None [] ?ocb) st1 = Some st2 \<and> cu_block_cache st2 = cu_block_cache st1 \<and>
      heights_sim l st2 (settle h s) \<and> cu_pending_writes st2 = cu_pending_writes st1 @ writes_of (wv s) ?xs"
  proof (cases "wv s (ac h) < ht h")
    case True
    note pb = prepare_block_write [OF hs h True prepare_data_original [of _ _ _ _ ?ocb, unfolded cv(3) [OF True]], of "{}"]
    have "heights_sim l ((visit s h st1)\<lparr>cu_pending_writes := w\<rparr>) (settle h s)" for w
      using True height_bound [OF h] heights_bound(2) [OF hs, of "ac h"]
      by (intro heights_upd [OF hs, of _ "ac h" "\<lparr>cip_confirmed_height = of_nat (ht h), cip_iterated_height = of_nat (max (wi s (ac h)) (ht h))\<rparr>"])
        (simp_all add: visit_def word_nat)
    with pb True cv(3) [OF True] show ?thesis by simp
  next
    case False
    have "wv (settle h s) = wv s" "wi (settle h s) = wi s"
      using False walk_okD(2) [OF d(1), of "ac h"] by (auto simp: fun_eq_iff)
    with hs have "heights_sim l st1 (settle h s)" by (simp only: heights_sim_def) simp
    with prepare_block_none [OF hs h False] False show ?thesis by simp
  qed
  then obtain st2 where st2: "prepare_block {} (prep_data st1 s h None [] ?ocb) st1 = Some st2"
    "cu_block_cache st2 = cu_block_cache st1" "heights_sim l st2 (settle h s)"
    "cu_pending_writes st2 = cu_pending_writes st1 @ writes_of (wv s) ?xs" by blast
  have "advanced s h None st 0 st1 cv = Some (st2, [])"
    using st2(1) by (simp add: advanced_def cv(1,2) prepare_iterated_blocks_for_cementing_def prep_data_cong [OF cip])
  moreover have "sim h l st2 (settle h s) []"
    unfolding sim_def
  proof (intro conjI)
    show "walk_ok h (settle h s)" by (rule settle_ok [OF d(1) e plain])
    show "stack_sim st2 (settle h s) []" using e by (simp add: stack_sim_def)
    show "cache_sim l st2 (settle h s)" by (rule cache_sim_grown [OF d(6) g h _ st2(2)]) simp
    from d(7) obtain xs where xs: "plan (conf_heights l) xs (wv s)" "cu_pending_writes st = writes_of (conf_heights l) xs"
      unfolding writes_sim_def by blast
    have "plan (conf_heights l) (xs @ ?xs) (wv (settle h s))" by (rule plan_append [OF xs(1) settle_plan [OF d(1) e plain]])
    moreover have "cu_pending_writes st2 = writes_of (conf_heights l) (xs @ ?xs)"
      using st2(4) xs(2) g writes_of_append [OF xs(1)] by (simp add: grown_def)
    ultimately show "writes_sim l st2 (settle h s)" unfolding writes_sim_def by blast
  qed (use d st2 in simp_all)
  ultimately show ?thesis by blast
qed

lemma step_last:
  assumes s: "sim h l st s (pv_receive_source_pairs v)" and run: "running env" and e: "ws s = []" and o: "wo s = Some t"
    and first: "\<not> pv_first_iter v" and rd: "pv_receive_details v \<noteq> None"
    and ocb: "pv_orig_block_callback_data v = segment (ac h) t (ht h)"
  shows "moves batch_write_size env h st l v False (settle h s) None (pv_orig_block_callback_data v)"
proof -
  note d = simD [OF s] and h = walk_okD(1) [OF simD(1) [OF s]]
  have ps: "pv_receive_source_pairs v = []" using d(5) e by (simp add: stack_sim_def)
  have nx: "next_source h v = (None, h)" using ps rd by (simp add: next_source_def)
  have seen: "ht h \<le> wi s (ac h)" using walk_okD(9) [OF d(1) o] by (simp add: expanded_def)
  let ?st = "cache_block st h (Some (entry h))"
  let ?cv = "\<lparr>cv_receive_source_pairs = pv_receive_source_pairs v, cv_block_callback_data = [],
      cv_orig_block_callback_data = pv_orig_block_callback_data v\<rparr>"
  have col: "collected h l env s h st v = Some (?st, ?cv)" using seen by (simp add: collected_def Let_def)
  from advance_settle [OF s [unfolded ps] e grown_seen [OF h d(8) seen], of ?cv] ps ocb settled_top [OF d(1) e o]
    settled_plain [OF d(1) e] o
  obtain st2 where "advanced s h None st 0 ?st ?cv = Some (st2, [])" "sim h l st2 (settle h s) []" by auto
  with movesI [OF s run h nx _ col, of st2 "[]" "settle h s"] first ps show ?thesis by simp
qed

lemma step_first:
  assumes s: "sim h l st s (pv_receive_source_pairs v)" and run: "running env" and o: "wo s = None"
    and v: "pv_first_iter v" "pv_receive_details v = None" "pv_current v = h" "pv_orig_block_callback_data v = []"
  shows "(\<exists>ocb. moves batch_write_size env h st l v False (settle h s) None ocb) \<or>
    (\<exists>R lo. moves batch_write_size env h st l v True (push_first h R lo s) None (segment (ac h) (ht (last R)) (ht h)) \<and>
      R \<noteq> [] \<and> walk_measure (push_first h R lo s) < walk_measure s)"
proof -
  note d = simD [OF s] and h = walk_okD(1) [OF simD(1) [OF s]]
  have e: "ws s = []" using walk_okD(10) [OF d(1) o] .
  have ps: "pv_receive_source_pairs v = []" using d(5) e by (simp add: stack_sim_def)
  have nx: "next_source h v = (None, h)" using ps v by (simp add: next_source_def)
  have i: "wv s (ac h) = wi s (ac h)" using idle_settled [OF d(1) o] by simp
  let ?st = "cache_block st h (Some (entry h))" and ?i = "wi s (ac h)" and ?m = "cu_next_details st"
  let ?cv = "\<lparr>cv_receive_source_pairs = [], cv_block_callback_data = [], cv_orig_block_callback_data = []\<rparr>"
  have stop: ?thesis if "collected h l env s h st v = Some (st1, cv)" "advanced s h None st 0 st1 cv = Some (st2, [])"
    "sim h l st2 (settle h s) []" for st1 cv st2
    using movesI [OF s run h nx _ that(1), of st2 "[]" "settle h s"] that ps by auto
  show ?thesis
  proof (cases "ht h \<le> ?i")
    case True
    then have col: "collected h l env s h st v = Some (?st, ?cv)" using ps v by (simp add: collected_def Let_def)
    from advance_settle [OF s [unfolded ps] e grown_seen [OF h d(8) True], of ?cv] True i
    obtain st2 where "advanced s h None st 0 ?st ?cv = Some (st2, [])" "sim h l st2 (settle h s) []" by auto
    with col show ?thesis by (rule stop)
  next
    case False
    then have new: "?i < ht h" by simp
    obtain d' rs where sc: "scan (ac h) ?i (ht h - ?i) = (d', rs)" by force
    have cok: "cache_ok ?st" using d(8) entry_stored [OF h] by (simp add: cache_ok_def)
    have ns: "\<not> ie_stopped_collecting env n" for n using run by (simp add: running_def)
    have it: "unat (of_nat ?i :: u64) = ?i" by (rule word_nat [OF heights_bound(2) [OF d(4)]])
    let ?cv1 = "\<lparr>cv_receive_source_pairs = new_pairs ?m rs, cv_block_callback_data = [], cv_orig_block_callback_data = d'\<rparr>"
    from collect_original [where stopped = "ie_stopped_collecting env" and n = "ht h - ?i" and v = ?cv and first = True and b = "entry h",
      OF h refl d(2) ns it _ sc cok] new block_at_top [OF h new] v ps
    obtain st1 where col: "collected h l env s h st v = Some (st1, ?cv1)"
      and st1: "framed (segment (ac h) ?i (ht h)) ?st st1" "cu_next_details st1 = ?m + length rs" "pairs_made st1 ?m rs"
      by (auto simp: collected_def Let_def)
    have g: "grown s h st st1" by (rule grown_framed [OF h d(8) st1(1)]) (simp add: st1(2))
    from scan_segment [OF h refl _ sc] new have sg: "d' = segment (ac h) (scan_top ?i rs) (ht h)"
      "fst ` set rs = {y \<in> B. ac y = ac h \<and> src y \<noteq> None \<and> ?i < ht y \<and> ht y \<le> ht h}" by auto
    show ?thesis
    proof (cases "rs = []")
      case True
      have "src y = None" if "y \<in> B" "ac y = ac h" "wv s (ac y) < ht y" "ht y \<le> ht h" for y
        using that sg(2) i True by auto
      with advance_settle [OF s [unfolded ps] e g, of ?cv1] True sg(1) i
      obtain st2 where "advanced s h None st 0 st1 ?cv1 = Some (st2, [])" "sim h l st2 (settle h s) []" by auto
      with col show ?thesis by (rule stop)
    next
      case False
      let ?R = "rev (map fst rs)"
      let ?s = "push_first h ?R (scan_lo rs) s"
      have hx: "ht h = ?i + (ht h - ?i)" using new by simp
      note rc = scan_receives [OF h refl hx sc False i]
      have lo: "wlo ?s q = scan_lo rs q \<and> wtop ?s q = None" if "q \<in> fst ` set rs" for q using that by (auto simp: image_iff)
      have old: "list_all2 (pair_sim st1 ?s) (rev []) (ws s)" using e by simp
      from advance_push [OF s [unfolded ps] h new sc False st1 _ push_first_ok [OF d(1) o new rc(1)] _ _ _ lo old, of ?cv1 None]
      obtain st2 where st2: "advanced s h None st 0 st1 ?cv1 = Some (st2, new_pairs ?m rs)" "sim h l st2 ?s (new_pairs ?m rs)" by auto
      have "walk_measure ?s < walk_measure s" by (rule push_measure [OF _ _ new h rc(1) i]) simp_all
      moreover have "new_pairs ?m rs \<noteq> []" using False new_pairs_simps(1) [of ?m rs] by (metis length_0_conv)
      ultimately show ?thesis
        using movesI [OF s run h nx _ col, of st2 "new_pairs ?m rs" ?s] st2 ps False sg(1) rc(2)
        by (intro disjI2 exI [of _ ?R] exI [of _ "scan_lo rs"]) simp
    qed
  qed
qed

section \<open>The loop\<close>

text \<open>What a call of \<open>process\<close> achieves.\<close>

definition finished ::
  "block_hash \<Rightarrow> ledger \<Rightarrow> (block_hash, account) walk \<Rightarrow> (confirmation_height_unbounded \<times> ledger \<times> cement_event list) run \<Rightarrow>
     bool" where
  "finished h l s r \<longleftrightarrow>
     (\<exists>st' l' es s'. r = Done (st', l', es) \<and> sim h l' st' s' [] \<and> wo s' = None \<and> ht h \<le> wv s' (ac h) \<and>
        history l l' (notified es) \<and> reaches h (wv s) (wv s'))"

lemma loop_stop:
  assumes "moves batch_write_size (env i) h st l v False (settle h s) rd ocb" and w: "walk_ok h s" and e: "ws s = []"
  shows "finished h l s (unbounded_loop (Suc n) c k batch_write_size env i (entry h) st l v)"
proof -
  from assms(1) obtain st' l' v' es where m: "unbounded_iteration c k batch_write_size (env i) (entry h) st l v = Some (False, st', l', v', es)"
    "sim h l' st' (settle h s) (pv_receive_source_pairs v')" "history l l' (notified es)" unfolding moves_def by blast
  from simD(5) [OF m(2)] e have "pv_receive_source_pairs v' = []" by (simp add: stack_sim_def)
  with m reaches_settle [OF w] show ?thesis
    unfolding finished_def by (intro exI [of _ st'] exI [of _ l'] exI [of _ es] exI [of _ "settle h s"]) (simp add: run_of_def)
qed

lemma loop_go:
  assumes "moves batch_write_size (env i) h st l v True s' rd ocb"
    and c: "reaches h (wv s) (wv s')"
    and more: "\<And>st' l' v'. sim h l' st' s' (pv_receive_source_pairs v') \<Longrightarrow> pv_orig_block_callback_data v' = ocb \<Longrightarrow>
      pv_receive_details v' = rd \<Longrightarrow> \<not> pv_first_iter v' \<Longrightarrow>
      finished h l' s' (unbounded_loop n c k batch_write_size env (Suc i) (entry h) st' l' v')"
  shows "finished h l s (unbounded_loop (Suc n) c k batch_write_size env i (entry h) st l v)"
proof -
  from assms(1) obtain st' l' v' es where m: "unbounded_iteration c k batch_write_size (env i) (entry h) st l v = Some (True, st', l', v', es)"
    "sim h l' st' s' (pv_receive_source_pairs v')" "history l l' (notified es)" "pv_orig_block_callback_data v' = ocb"
    "pv_receive_details v' = rd" "\<not> pv_first_iter v'" unfolding moves_def by blast
  from more [OF m(2,4-6)] obtain st'' l'' fs s'' where
    r: "unbounded_loop n c k batch_write_size env (Suc i) (entry h) st' l' v' = Done (st'', l'', fs)"
      "sim h l'' st'' s'' []" "wo s'' = None" "ht h \<le> wv s'' (ac h)" "history l' l'' (notified fs)"
      "reaches h (wv s') (wv s'')" unfolding finished_def by blast
  have "history l l'' (notified (es @ fs))" using history_trans [OF m(3) r(5)] by (simp add: notified_append)
  with m(1) r reaches_trans [OF c r(6)] show ?thesis
    unfolding finished_def by (intro exI [of _ st''] exI [of _ l''] exI [of _ "es @ fs"] exI [of _ s'']) (simp add: run_of_def)
qed

lemma loop_ok:
  assumes run: "\<And>i. running (env i)"
  shows "sim h l st s (pv_receive_source_pairs v) \<Longrightarrow> \<not> pv_first_iter v \<Longrightarrow> wo s = Some t \<Longrightarrow>
    pv_orig_block_callback_data v = segment (ac h) t (ht h) \<Longrightarrow> (ws s = [] \<Longrightarrow> pv_receive_details v \<noteq> None) \<Longrightarrow>
    walk_measure s < n \<Longrightarrow> finished h l s (unbounded_loop n c k batch_write_size env i (entry h) st l v)"
proof (induction n arbitrary: l st s v i)
  case (Suc n)
  show ?case
  proof (cases "ws s")
    case Nil
    show ?thesis
      by (rule loop_stop [OF step_last [OF Suc.prems(1) run Nil Suc.prems(3,2) Suc.prems(5) [OF Nil] Suc.prems(4)]
        simD(1) [OF Suc.prems(1)] Nil])
  next
    case (Cons r rest)
    from step_source [OF Suc.prems(1) run Cons Suc.prems(2), of batch_write_size] obtain s' p where
      m: "moves batch_write_size (env i) h st l v True s' (Some p) (pv_orig_block_callback_data v)"
        "walk_measure s' < walk_measure s" "wo s' = wo s"
        "reaches h (wv s) (wv s')" by blast
    show ?thesis
      by (rule loop_go [where env = env and i = i, OF m(1,4)], rule Suc.IH) (use m Suc.prems in simp_all)
  qed
qed simp

text \<open>A call of \<open>process\<close>, from a point between two calls.\<close>

definition idle :: "ledger \<Rightarrow> confirmation_height_unbounded \<Rightarrow> (block_hash, account) walk \<Rightarrow> bool" where
  "idle l st s \<longleftrightarrow> wo s = None \<and> (\<exists>h. sim h l st s [])"

lemma idle_sim:
  assumes "idle l st s" and h: "h \<in> B"
  shows "sim h l st s []"
proof -
  from assms obtain h' where "wo s = None" "sim h' l st s []" by (auto simp: idle_def)
  with idle_other [of h' s h] h show ?thesis by (simp add: sim_def)
qed

lemma idle_clear:
  assumes "idle l st s" and "pending_empty st"
  shows "\<exists>s'. idle l (clear_process_vars st) s' \<and> wv s' = wv s \<and> wi s' = wi s"
proof -
  from assms obtain h where o: "wo s = None" and s: "sim h l st s []" by (auto simp: idle_def)
  note d = simD [OF s]
  let ?s = "\<lparr>wv = wv s, wi = wv s, ws = [], wlo = wlo s, wtop = wtop s, wo = None\<rparr>"
  from d(7) assms(2) obtain xs where xs: "plan (conf_heights l) xs (wv s)" "writes_of (conf_heights l) xs = []"
    by (auto simp: writes_sim_def pending_empty_def)
  then have v: "wv s = conf_heights l" by (cases xs) simp_all
  have i: "wi s = wv s" using idle_settled [OF d(1) o] by (simp add: fun_eq_iff)
  have "sim h l (clear_process_vars st) ?s []"
    unfolding sim_def
  proof (intro conjI)
    show "walk_ok h ?s" by (rule idle_start [OF walk_okD(1,3) [OF d(1)]])
    show "heights_sim l (clear_process_vars st) ?s" by (simp add: heights_sim_def clear_process_vars_def v)
    show "stack_sim (clear_process_vars st) ?s []" by (simp add: stack_sim_def)
    show "cache_sim l (clear_process_vars st) ?s" by (simp add: cache_sim_def cache_ok_def clear_process_vars_def v)
    show "writes_sim l (clear_process_vars st) ?s" using d(7) by (simp add: writes_sim_def clear_process_vars_def)
  qed (use d in simp_all)
  then have "idle l (clear_process_vars st) ?s" by (auto simp: idle_def)
  with i show ?thesis by (intro exI [of _ ?s]) simp
qed

lemma process_ok:
  assumes s: "idle l st s" and h: "h \<in> B" and run: "\<And>i. running (env i)" and n: "2 * card B + 1 < n"
  shows "finished h l s (unbounded_process n c k batch_write_size env (entry h) st l)"
proof -
  let ?st = "if pending_empty st then clear_process_vars st else st"
  obtain s' where s': "idle l ?st s'" "wv s' = wv s" using s idle_clear [OF s] by (cases "pending_empty st") auto
  let ?v = "\<lparr>pv_receive_details = None, pv_current = generate_hash c (fst (entry h)),
        pv_receive_source_pairs = [], pv_orig_block_callback_data = [], pv_first_iter = True\<rparr>"
  have gh: "generate_hash c (fst (entry h)) = h" using walk_hash [OF h] by (simp add: entry_def)
  have sim: "sim h l ?st s' (pv_receive_source_pairs ?v)" and o: "wo s' = None"
    using idle_sim [OF s'(1) h] s'(1) by (simp_all add: idle_def)
  have e: "ws s' = []" using walk_okD(10) [OF simD(1) [OF sim] o] .
  have "card {y \<in> B. wi s' (ac y) < ht y} \<le> card B" by (rule card_mono) (auto simp: graph_finite)
  with n e obtain m where m: "n = Suc m" "walk_measure s' \<le> m" by (cases n) (auto simp: walk_measure_def)
  have "finished h l s' (unbounded_loop n c k batch_write_size env 0 (entry h) ?st l ?v)"
  proof -
    from step_first [OF sim run o, of batch_write_size 0] gh consider
      ocb where "moves batch_write_size (env 0) h ?st l ?v False (settle h s') None ocb"
      | R lo where "moves batch_write_size (env 0) h ?st l ?v True (push_first h R lo s') None (segment (ac h) (ht (last R)) (ht h))"
        "R \<noteq> []" "walk_measure (push_first h R lo s') < walk_measure s'" by auto
    then show ?thesis
    proof cases
      case 1
      from loop_stop [where env = env and i = 0, OF this simD(1) [OF sim] e] show ?thesis unfolding m(1) .
    next
      case 2
      show ?thesis unfolding m(1) by (rule loop_go [where env = env and i = 0, OF 2(1)], simp, rule loop_ok [OF run]) (use 2 m in simp_all)
    qed
  qed
  then show ?thesis using s'(2) by (simp add: unbounded_process_def finished_def)
qed

end

end
