(* ===== verification/Ledger_Sample.thy ===== *)
theory Ledger_Sample
  imports Ledger_Reach
begin

text \<open>
  A small network, whose genesis account sends an amount that a second account receives.  The
  theorems about ledgers are applied to its three ledgers.
\<close>

declare split_paired_All [simp del] split_paired_Ex [simp del]

section \<open>A network\<close>

text \<open>A digest of 32 bytes is the last number of the message plus 100.\<close>

definition sample_crypto :: crypto where
  "sample_crypto =
     \<lparr>blake2b = \<lambda>n xs.
        if n = 32 then write_be (word_of_be (drop (length xs - 32) xs) + 100 :: u256) else replicate n 0,
      ed25519_sign_open = \<lambda>m pk s. True,
      ed25519_sign = \<lambda>m prv pub. 0\<rparr>"

lemma hash_sample [simp]:
  "generate_hash sample_crypto (State s) = state_link (state_h s) + 100"
  "generate_hash sample_crypto (Open t) = open_account (open_h t) + 100"
  by (simp_all add: generate_hash_def sample_crypto_def hash_defs word_of_be_write_be)

definition sample_constants :: ledger_constants where
  "sample_constants =
     \<lparr>k_work = make_work_thresholds 0 0 0,
      k_genesis = Open \<lparr>open_h = \<lparr>open_source = 1, open_representative = 1, open_account = 1\<rparr>,
                        open_signature = 0, open_work = 0\<rparr>,
      k_genesis_amount = - 1, k_burn_account = 0,
      k_epochs = [(epoch_1, \<lparr>ei_signer = 1, ei_link = 2\<rparr>), (epoch_2, \<lparr>ei_signer = 1, ei_link = 3\<rparr>)],
      k_final_votes_canary_account = 1, k_final_votes_canary_height = 1\<rparr>"

lemma sample_genesis: "genesis_block_ok sample_crypto sample_constants"
  by (simp add: genesis_block_ok_def genesis_hash_def sample_constants_def reserved_hash_def
      is_epoch_link_def epochs_is_epoch_link_def)

lemma sample_constants_ok: "constants_ok sample_constants"
  by (auto simp: constants_ok_def sample_constants_def epochs_epoch_def epoch_defs split: if_splits)

section \<open>Three ledgers\<close>

definition sample_send_block :: state_block where
  "sample_send_block =
     \<lparr>state_h = \<lparr>state_account = 1, state_previous = 101, state_representative = 1,
                 state_balance = - 11, state_link = 5\<rparr>,
      state_signature = 0, state_work = 0\<rparr>"

definition sample_receive_block :: state_block where
  "sample_receive_block =
     \<lparr>state_h = \<lparr>state_account = 5, state_previous = 0, state_representative = 7, state_balance = 10,
                 state_link = 105\<rparr>,
      state_signature = 0, state_work = 0\<rparr>"

definition sample_0 :: ledger where
  "sample_0 = the (store_initialize sample_crypto sample_constants (0, 0) empty_ledger)"

definition sample_process :: "ledger \<Rightarrow> block \<Rightarrow> processor option" where
  "sample_process l b = process sample_crypto sample_constants (1, 2) l b sv_valid"

definition sample_1 :: ledger where
  "sample_1 = p_ledger (the (sample_process sample_0 (State sample_send_block)))"

definition sample_2 :: ledger where
  "sample_2 = p_ledger (the (sample_process sample_1 (State sample_receive_block)))"

lemma sample_init: "store_initialize sample_crypto sample_constants (0, 0) empty_ledger = Some sample_0"
  using init_defined [OF sample_genesis] by (auto simp: sample_0_def)

lemmas sample_eval =
  sample_constants_def sample_send_block_def sample_receive_block_def Let_def store_block_put_def
  block_put_def block_fill_value_def table_simps store_del_Some

lemma sample_0_eq:
  "sample_0 =
     \<lparr>l_store = \<lparr>st_blocks = [101 \<mapsto> (k_genesis sample_constants,
                                sideband_stored bt_open (genesis_sideband sample_constants 0))],
                 st_frontiers = [101 \<mapsto> 1],
                 st_accounts = [1 \<mapsto> \<lparr>ai_head = 101, ai_representative = 1, ai_open_block = 101,
                   ai_balance = - 1, ai_modified = 0, ai_block_count = 1, ai_epoch = epoch_0\<rparr>],
                 st_pending = Map.empty,
                 st_confirmation_height = [1 \<mapsto> \<lparr>ch_height = 1, ch_frontier = 101\<rparr>],
                 st_pruned = Map.empty\<rparr>,
      l_cache = \<lparr>lc_rep_weights = [1 \<mapsto> - 1], lc_cemented_count = 1, lc_block_count = 1,
                 lc_pruned_count = 0, lc_account_count = 1, lc_final_votes_confirmation_canary = True\<rparr>,
      l_pruning = False\<rparr>"
  by (simp add: sample_0_def store_initialize_def sample_eval empty_ledger_def representation_put_def rep_put_def
      genesis_sideband_def cache_cemented_count_add_def cache_canary_set_def cache_weights_set_def)

lemmas process_eval =
  sample_eval sample_process_def process_def process_state_def is_epoch_link_def
  epochs_is_epoch_link_def state_block_impl_def state_block_source_def state_block_commit_def
  block_or_pruned_exists_def ledger_processor_def work_sufficient_def work_threshold_def
  work_threshold_details_def block_work_version_def make_work_thresholds_def update_account_def
  epoch_defs

lemma sample_sent:
  "\<exists>p. sample_process sample_0 (State sample_send_block) = Some p \<and> p_code p = pr_progress"
  by (simp add: process_eval sample_0_eq)

lemma sample_1_tables:
  "accounts_of sample_1 = [1 \<mapsto> \<lparr>ai_head = 105, ai_representative = 1, ai_open_block = 101,
     ai_balance = - 11, ai_modified = 2, ai_block_count = 2, ai_epoch = epoch_0\<rparr>]"
  "pending_of sample_1 = [(5, 105) \<mapsto> \<lparr>pi_source = 1, pi_amount = 10, pi_epoch = epoch_0\<rparr>]"
  "heights_of sample_1 = [1 \<mapsto> \<lparr>ch_height = 1, ch_frontier = 101\<rparr>]"
  "blocks_of sample_1 105 = Some (State sample_send_block, sideband_stored bt_state
     \<lparr>sb_successor = 0, sb_account = 1, sb_balance = 0, sb_height = 2, sb_timestamp = 1,
      sb_details = \<lparr>bd_epoch = epoch_0, bd_is_send = True, bd_is_receive = False, bd_is_epoch = False\<rparr>,
      sb_source_epoch = epoch_0\<rparr>)"
  by (simp_all add: sample_1_def process_eval sample_0_eq)

lemma sample_1_fresh: "blocks_of sample_1 205 = None"
  by (simp add: sample_1_def process_eval sample_0_eq)

lemma sample_received:
  "\<exists>p. sample_process sample_1 (State sample_receive_block) = Some p \<and> p_code p = pr_progress"
  by (simp add: sample_1_def process_eval sample_0_eq)

lemma sample_2_tables:
  "accounts_of sample_2 =
     [1 \<mapsto> \<lparr>ai_head = 105, ai_representative = 1, ai_open_block = 101, ai_balance = - 11,
           ai_modified = 2, ai_block_count = 2, ai_epoch = epoch_0\<rparr>,
      5 \<mapsto> \<lparr>ai_head = 205, ai_representative = 7, ai_open_block = 205, ai_balance = 10,
           ai_modified = 2, ai_block_count = 1, ai_epoch = epoch_0\<rparr>]"
  "pending_of sample_2 = Map.empty" "pruned_of sample_2 = Map.empty"
  "heights_of sample_2 = [1 \<mapsto> \<lparr>ch_height = 1, ch_frontier = 101\<rparr>]"
  "blocks_of sample_2 105 = blocks_of sample_1 105"
  "blocks_of sample_2 205 = Some (State sample_receive_block, sideband_stored bt_state
     \<lparr>sb_successor = 0, sb_account = 5, sb_balance = 0, sb_height = 1, sb_timestamp = 1,
      sb_details = \<lparr>bd_epoch = epoch_0, bd_is_send = False, bd_is_receive = True, bd_is_epoch = False\<rparr>,
      sb_source_epoch = epoch_0\<rparr>)"
  by (simp_all add: sample_2_def sample_1_def process_eval sample_0_eq)

lemma sample_send_entry:
  obtains e where "blocks_of sample_1 105 = Some e" "blocks_of sample_2 105 = Some e"
    "fst e = State sample_send_block" "sb_height (snd e) = 2" "entry_sends e = Some 5" "account_calculated e = 1" "105 \<noteq> genesis_hash sample_crypto sample_constants"
  unfolding sample_2_tables sample_1_tables
  by (simp add: entry_defs details_unpack_packed epoch_0_small genesis_hash_def sample_constants_def
      sample_send_block_def)

lemma sample_admissible:
  "admissible sample_crypto sample_constants sample_0 (State sample_send_block)"
  "admissible sample_crypto sample_constants sample_1 (State sample_receive_block)"
  by (simp_all add: admissible_def reserved_hash_def epoch_open_ok_def sample_0_eq sample_1_tables
      is_epoch_link_def epochs_is_epoch_link_def sample_eval)

lemma sample_steps:
  "ledger_step sample_crypto sample_constants sample_0 sample_1"
  "ledger_step sample_crypto sample_constants sample_1 sample_2"
  using sample_sent step_process [OF impI [OF sample_admissible(1)]]
    sample_received step_process [OF impI [OF sample_admissible(2)]]
  unfolding sample_1_def sample_2_def sample_process_def by fastforce+

lemma sample_reachable:
  "reachable sample_crypto sample_constants sample_0"
  "reachable sample_crypto sample_constants sample_1"
  "reachable sample_crypto sample_constants sample_2"
  using reach_start [OF sample_genesis sample_init] sample_steps reach_step by blast+

end
