(* ===== verification/Ledger_Total.thy ===== *)
theory Ledger_Total
  imports Ledger_Chain
begin

text \<open>
  Processing a block never ends the program: every access of a handler finds its object, every
  deletion finds its key.  A block that is already stored is reported as old.
\<close>

declare split_paired_All [simp del] split_paired_Ex [simp del]

section \<open>The steps of a handler\<close>

lemma bind_defined: "m \<noteq> None \<Longrightarrow> (\<And>x. m = Some x \<Longrightarrow> f x \<noteq> None) \<Longrightarrow> Option.bind m f \<noteq> None"
  by (cases m) auto

lemma case_defined:
  "(m = None \<Longrightarrow> g \<noteq> None) \<Longrightarrow> (\<And>x. m = Some x \<Longrightarrow> f x \<noteq> None) \<Longrightarrow>
     (case m of None \<Rightarrow> g | Some x \<Rightarrow> f x) \<noteq> None"
  by (cases m) auto

lemma if_defined: "(b \<Longrightarrow> x \<noteq> None) \<Longrightarrow> (\<not> b \<Longrightarrow> y \<noteq> None) \<Longrightarrow> (if b then x else y) \<noteq> None"
  by simp

lemma Some_defined: "Some x \<noteq> None" by simp

lemmas defined_rules = bind_defined case_defined if_defined Some_defined

lemma block_put_some:
  assumes "block_previous b = 0 \<and> (\<exists>s. b = State s) \<or> (\<exists>s. b = Open s) \<or>
    blocks_of l (block_previous b) \<noteq> None"
  shows "store_block_put c l h b sb \<noteq> None"
  using block_put_defined [of b "blocks_of l" c h sb] assms by (auto simp: store_block_put_def)

lemma block_put_keeps:
  assumes "store_block_put c l h b sb = Some l'"
  shows "accounts_of l' = accounts_of l" "frontiers_of l' = frontiers_of l" "pending_of l' = pending_of l"
    "blocks_of l x \<noteq> None \<Longrightarrow> blocks_of l' x \<noteq> None"
proof -
  from assms obtain bs where bs: "block_put c (blocks_of l) h b sb = Some bs"
    "l' = l\<lparr>l_store := (l_store l)\<lparr>st_blocks := bs\<rparr>\<rparr>"
    by (auto simp: store_block_put_def bind_eq_Some)
  then show "accounts_of l' = accounts_of l" "frontiers_of l' = frontiers_of l" "pending_of l' = pending_of l"
    by simp_all
  assume "blocks_of l x \<noteq> None"
  then have "bview bs x \<noteq> None" unfolding bview_put [OF bs(1)] by (simp add: bview_def)
  with bs(2) show "blocks_of l' x \<noteq> None" by simp
qed

lemma ledger_balance_some: "blocks_of l h \<noteq> None \<Longrightarrow> ledger_balance l h \<noteq> None"
  by (simp add: ledger_balance_def block_table_balance_def)

lemma update_account_some:
  "ai_head new \<noteq> 0 \<Longrightarrow> ai_head old = 0 \<or> accounts_of l a \<noteq> None \<Longrightarrow> update_account l a old new \<noteq> None"
  using update_account_put_defined [of new old l a] by auto

lemma update_account_keeps:
  assumes "update_account l a old new = Some l'" and "ai_head new \<noteq> 0"
  shows "frontiers_of l' = frontiers_of l" "pending_of l' = pending_of l"
  using assms by (auto simp: update_account_put table_simps)

lemma del_some:
  "pending_of l key \<noteq> None \<Longrightarrow> store_pending_del l key \<noteq> None"
  "frontiers_of l h \<noteq> None \<Longrightarrow> store_frontier_del l h \<noteq> None"
  by (simp_all add: store_pending_del_def store_frontier_del_def)

lemma balance_after_put:
  "store_block_put c l h b sb = Some l' \<Longrightarrow> blocks_of l x \<noteq> None \<Longrightarrow> ledger_balance l' x \<noteq> None"
  using ledger_balance_some block_put_keeps(4) by blast

lemma cache_keeps [simp]:
  "l_store (cache_representation_add l r a) = l_store l"
  "l_store (cache_representation_add_dual l r a r' a') = l_store l"
  by (simp_all add: cache_representation_add_def cache_representation_add_dual_def)

lemma block_put_store:
  "store_block_put c l h b sb = Some l' \<Longrightarrow>
     accounts_of l' = accounts_of l \<and> frontiers_of l' = frontiers_of l \<and> pending_of l' = pending_of l"
  using block_put_keeps(1-3) by blast

lemma update_account_store:
  "update_account l a old new = Some l' \<Longrightarrow> ai_head new \<noteq> 0 \<Longrightarrow>
     frontiers_of l' = frontiers_of l \<and> pending_of l' = pending_of l"
  using update_account_keeps by blast

lemma del_store:
  "store_pending_del l key = Some l' \<Longrightarrow>
     accounts_of l' = accounts_of l \<and> frontiers_of l' = frontiers_of l \<and> blocks_of l' = blocks_of l"
  by (auto simp: store_del_Some)

lemmas step_stores = block_put_store update_account_store del_store

lemmas step_some = block_put_some balance_after_put update_account_some del_some

section \<open>Legacy blocks\<close>

definition frontiers_have_accounts :: "ledger \<Rightarrow> bool" where
  "frontiers_have_accounts l \<longleftrightarrow> (\<forall>h a. frontiers_of l h = Some a \<longrightarrow> accounts_of l a \<noteq> None)"

lemma frontier_account:
  assumes "frontiers_have_accounts l" and "get_or 0 (frontiers_of l h) \<noteq> 0"
  shows "frontiers_of l h \<noteq> None \<and> accounts_of l (get_or 0 (frontiers_of l h)) \<noteq> None"
  using assms by (auto simp: frontiers_have_accounts_def frontier_get_nonzero)

lemma change_defined:
  assumes f: "frontiers_have_accounts (p_ledger p)" and h: "generate_hash c (Change b) \<noteq> 0"
  shows "process_change c k now b p \<noteq> None"
  unfolding process_change_def Let_def
  by (intro defined_rules step_some)
    (auto simp: h table_simps dest!: step_stores frontier_account [OF f])

lemma send_defined:
  assumes f: "frontiers_have_accounts (p_ledger p)" and h: "generate_hash c (Send b) \<noteq> 0"
  shows "process_send c k now b p \<noteq> None"
  unfolding process_send_def Let_def
  by (intro defined_rules step_some)
    (auto simp: h table_simps dest!: step_stores frontier_account [OF f])

lemma receive_defined:
  assumes f: "frontiers_have_accounts (p_ledger p)" and h: "generate_hash c (Receive b) \<noteq> 0"
  shows "process_receive c k now b p \<noteq> None"
  unfolding process_receive_def Let_def
  by (intro defined_rules step_some)
    (auto simp: h table_simps dest!: step_stores frontier_account [OF f])

lemma open_defined:
  assumes h: "generate_hash c (Open b) \<noteq> 0"
  shows "process_open c k now b p \<noteq> None"
  unfolding process_open_def Let_def
  by (intro defined_rules step_some) (auto simp: h table_simps account_info_default_def)

section \<open>State blocks\<close>

lemma frontier_step_some: "frontier_step l h \<noteq> None"
  by (simp add: frontier_step_def table_simps store_frontier_del_def frontier_get_nonzero)

lemma pending_step_some:
  "is_send \<or> state_link (state_h b) = 0 \<or>
     pending_of l (state_account (state_h b), state_link (state_h b)) \<noteq> None \<Longrightarrow>
   pending_step l b h is_send amount e \<noteq> None"
  by (auto simp: pending_step_def store_pending_del_def)

lemma state_commit_defined:
  assumes h: "generate_hash c (State b) \<noteq> 0"
    and p: "state_previous (state_h b) = 0 \<or> blocks_of (p_ledger p) (state_previous (state_h b)) \<noteq> None"
    and l: "is_send \<or> state_link (state_h b) = 0 \<or>
      pending_of (p_ledger p) (state_account (state_h b), state_link (state_h b)) \<noteq> None"
    and i: "ai_head info = 0 \<or> accounts_of (p_ledger p) (state_account (state_h b)) \<noteq> None"
  shows "\<exists>q. state_block_commit c k now b p info e se is_send is_receive amount = Some q \<and>
    p_code q = (if work_sufficient c k (State b)
       \<lparr>bd_epoch = e, bd_is_send = is_send, bd_is_receive = is_receive, bd_is_epoch = False\<rparr>
       then pr_progress else pr_insufficient_work)"
proof -
  let ?h = "generate_hash c (State b)"
  let ?sb = "state_sideband b info e is_send is_receive False se now"
  let ?new = "state_info b info ?h (state_balance (state_h b)) e now"
  obtain l1 where l1: "store_block_put c (p_ledger p) ?h (State b) ?sb = Some l1"
    using block_put_some [of "State b" "p_ledger p" c ?h ?sb] p by auto
  note s1 = block_put_store [OF l1]
  obtain l2 where l2: "pending_step (weight_step l1 info (state_h b)) b ?h is_send amount e = Some l2"
    using pending_step_some [of is_send b "weight_step l1 info (state_h b)" ?h amount e] l s1
    by (auto simp: weight_step_eq)
  have "accounts_of l2 = accounts_of l1" using pending_step_Some [OF l2] by (simp add: weight_step_eq)
  then obtain l3 where l3: "update_account l2 (state_account (state_h b)) info ?new = Some l3"
    using update_account_some [of ?new info l2 "state_account (state_h b)"] h i s1 by auto
  obtain l4 where l4: "frontier_step l3 (ai_head info) = Some l4" using frontier_step_some by blast
  show ?thesis by (simp add: state_block_commit_steps l1 l2 l3 l4)
qed

lemma state_source_defined:
  assumes "generate_hash c (State b) \<noteq> 0"
    and "state_previous (state_h b) = 0 \<or> blocks_of (p_ledger p) (state_previous (state_h b)) \<noteq> None"
    and "ai_head info = 0 \<or> accounts_of (p_ledger p) (state_account (state_h b)) \<noteq> None"
  shows "state_block_source c k now b p info e is_send is_receive amount \<noteq> None"
proof -
  have "state_block_commit c k now b p info e' se is_send is_receive amount \<noteq> None"
    if "is_send \<or> state_link (state_h b) = 0 \<or>
      pending_of (p_ledger p) (state_account (state_h b), state_link (state_h b)) \<noteq> None" for e' se
    using state_commit_defined [OF assms(1,2) that assms(3)] by (metis option.distinct(1))
  then show ?thesis
    unfolding state_block_source_def Let_def
    by (intro defined_rules) (auto simp: store_pending_get_def)
qed

lemma state_impl_defined:
  assumes "generate_hash c (State b) \<noteq> 0"
  shows "state_block_impl c k now b p \<noteq> None"
  unfolding state_block_impl_def Let_def
  by (intro defined_rules state_source_defined [OF assms])
    (auto simp: table_simps account_info_default_def)

section \<open>Epoch blocks\<close>

lemma epoch_signer_some: "is_epoch_link k lnk \<Longrightarrow> epoch_signer k lnk \<noteq> None"
  using epochs_signer_defined [of "k_epochs k" lnk] by (auto simp: is_epoch_link_def epoch_signer_def)

lemma validate_defined:
  assumes "is_epoch_link k (state_link (state_h b))"
  shows "validate_epoch_block c k b p \<noteq> None"
  unfolding validate_epoch_block_def Let_def
  by (intro defined_rules epoch_signer_some [OF assms] ledger_balance_some) (simp add: block_exists_def)

lemma validate_facts:
  assumes "validate_epoch_block c k b p = Some (is_epoch, q)"
  shows "p_ledger q = p_ledger p"
    and "p_code q = pr_progress \<Longrightarrow> state_previous (state_h b) = 0 \<or>
      blocks_of (p_ledger p) (state_previous (state_h b)) \<noteq> None"
  using assms by (auto simp: validate_epoch_block_def Let_def bind_eq_Some block_exists_def split: if_splits)

lemma epoch_commit_defined:
  assumes h: "generate_hash c (State b) \<noteq> 0" and "is_epoch_link k (state_link (state_h b))"
    and p: "state_previous (state_h b) = 0 \<or> blocks_of (p_ledger p) (state_previous (state_h b)) \<noteq> None"
    and i: "ai_head info = 0 \<or> accounts_of (p_ledger p) (state_account (state_h b)) \<noteq> None"
  shows "epoch_block_commit c k now b p err info \<noteq> None"
proof -
  have "epochs_epoch (k_epochs k) (state_link (state_h b)) \<noteq> None"
    using assms(2) is_epoch_link_epoch [of "k_epochs k" "state_link (state_h b)"]
    by (auto simp: is_epoch_link_def)
  then show ?thesis
    unfolding epoch_block_commit_def Let_def frontier_step_def [symmetric]
    by (intro bind_defined if_defined Some_defined step_some frontier_step_some)
      (use p i in \<open>auto simp: h dest!: step_stores\<close>)
qed

lemma epoch_impl_defined:
  assumes "generate_hash c (State b) \<noteq> 0" and e: "is_epoch_link k (state_link (state_h b))"
    and "state_previous (state_h b) = 0 \<or> blocks_of (p_ledger p) (state_previous (state_h b)) \<noteq> None"
  shows "epoch_block_impl c k now b p \<noteq> None"
  unfolding epoch_block_impl_def Let_def
  by (intro defined_rules epoch_commit_defined [OF assms(1,2)] epoch_signer_some [OF e])
    (use assms(3) in \<open>auto simp: table_simps account_info_default_def\<close>)

lemma state_defined:
  assumes "generate_hash c (State b) \<noteq> 0"
  shows "process_state c k now b p \<noteq> None"
proof (cases "is_epoch_link k (state_link (state_h b))")
  case True
  from validate_defined [OF this, of c "p\<lparr>p_code := pr_progress\<rparr>"] obtain is_epoch q where
    q: "validate_epoch_block c k b (p\<lparr>p_code := pr_progress\<rparr>) = Some (is_epoch, q)" by auto
  note v = validate_facts [OF q]
  show ?thesis
  proof (cases "p_code q = pr_progress")
    case c: True
    with v have "state_previous (state_h b) = 0 \<or> blocks_of (p_ledger q) (state_previous (state_h b)) \<noteq> None"
      by simp
    from epoch_impl_defined [OF assms True this] state_impl_defined [OF assms] True c q show ?thesis
      by (simp add: process_state_def)
  qed (use True q in \<open>simp add: process_state_def\<close>)
qed (use state_impl_defined [OF assms] in \<open>simp add: process_state_def\<close>)

section \<open>Blocks\<close>

lemma process_defined:
  assumes inv: "ledger_inv c k rk rp T l" and h: "generate_hash c b \<noteq> 0"
  obtains p where "process c k now l b v = Some p"
proof -
  let ?p = "ledger_processor l v"
  have "frontiers_have_accounts l"
    unfolding frontiers_have_accounts_def using frontier_head [OF inv] by (metis option.distinct(1))
  then have f: "frontiers_have_accounts (p_ledger ?p)" by (simp add: ledger_processor_def)
  have "process_visit c k now b ?p \<noteq> None"
    using h send_defined [OF f] receive_defined [OF f] open_defined change_defined [OF f] state_defined
    by (cases b) auto
  then have "process c k now l b v \<noteq> None" by (auto simp: process_def)
  with that show thesis by auto
qed

lemma process_old:
  assumes inv: "ledger_inv c k rk rp T l" and e: "blocks_of l (generate_hash c b) = Some e" "fst e = b"
  shows "\<exists>p. process c k now l b v = Some p \<and> p_code p = pr_old \<and> p_ledger p = l"
proof -
  have ex: "block_or_pruned_exists l (generate_hash c b)" using e by (simp add: block_or_pruned_exists_def block_exists_def)
  let ?p = "ledger_processor l v"
  have l: "p_ledger ?p = l" by (simp add: ledger_processor_def)
  have "\<exists>p. process_visit c k now b ?p = Some p \<and> p_code p = pr_old \<and> p_ledger p = l"
  proof (cases b)
    case (State s)
    have prev: "state_previous (state_h s) = 0 \<or> blocks_of l (state_previous (state_h s)) \<noteq> None"
      using block_link [OF inv e(1)] e(2) State by (auto simp: link_ok_def split: if_splits)
    let ?q = "?p\<lparr>p_code := pr_progress\<rparr>"
    have impl: "\<exists>p. state_block_impl c k now s q = Some p \<and> p_code p = pr_old \<and> p_ledger p = l"
      "\<exists>p. epoch_block_impl c k now s q = Some p \<and> p_code p = pr_old \<and> p_ledger p = l"
      if "p_ledger q = l" for q
      using ex that State by (simp_all add: state_block_impl_def epoch_block_impl_def Let_def)
    show ?thesis
    proof (cases "is_epoch_link k (state_link (state_h s))")
      case True
      from validate_defined [OF this, of c ?q] obtain is_epoch q where
        q: "validate_epoch_block c k s ?q = Some (is_epoch, q)" by auto
      moreover have "p_code q = pr_progress"
        using q prev l by (auto simp: validate_epoch_block_def Let_def bind_eq_Some block_exists_def split: if_splits)
      ultimately show ?thesis
        using State True impl [of q] validate_facts(1) [OF q] l by (simp add: process_state_def)
    next
      case False
      then show ?thesis using State impl [of ?q] l by (simp add: process_state_def)
    qed
  qed (use ex l in \<open>simp_all add: process_send_def process_receive_def process_open_def process_change_def Let_def\<close>)
  then show ?thesis by (auto simp: process_def)
qed

section \<open>Blocks that are accepted\<close>

text \<open>
  A state block that follows the head of its account, with a good signature: the checks before
  its source is looked at.
\<close>

definition ready :: "crypto \<Rightarrow> ledger_constants \<Rightarrow> ledger \<Rightarrow> state_block \<Rightarrow> signature_verification \<Rightarrow> bool" where
  "ready c k l b v \<longleftrightarrow>
     generate_hash c (State b) \<noteq> 0 \<and> blocks_of l (generate_hash c (State b)) = None \<and>
     (v = sv_valid \<or> \<not> validate_message c (state_account (state_h b)) (generate_hash c (State b))
        (state_signature b)) \<and>
     state_account (state_h b) \<noteq> 0 \<and> state_previous (state_h b) = latest l (state_account (state_h b)) \<and>
     \<not> is_epoch_link k (state_link (state_h b))"

lemma ready_impl:
  assumes inv: "ledger_inv c k rk rp T l" and r: "ready c k l b v"
    and u: "accounts_of l (state_account (state_h b)) = None \<Longrightarrow> state_link (state_h b) \<noteq> 0"
  defines "info \<equiv> info_of l (state_account (state_h b))"
  defines "s \<equiv> state_balance (state_h b) < ai_balance info"
  shows "\<exists>q. p_ledger q = l \<and> process_visit c k now (State b) (ledger_processor l v) =
      state_block_source c k now b q info (ai_epoch info) s (\<not> s \<and> state_link (state_h b) \<noteq> 0)
        (state_amount info b s)" (is "\<exists>q. ?P q")
    and "ai_head info = 0 \<or> accounts_of l (state_account (state_h b)) \<noteq> None"
    and "state_previous (state_h b) = 0 \<or> blocks_of l (state_previous (state_h b)) \<noteq> None"
proof -
  let ?a = "state_account (state_h b)"
  have nx: "\<not> block_or_pruned_exists l (generate_hash c (State b))"
    using r ledger_invD(2) [OF inv]
    by (simp add: ready_def block_or_pruned_exists_def block_exists_def unpruned_def store_pruned_exists_def)
  have i: "info = account_info_default" if "accounts_of l ?a = None" using that by (simp add: info_def info_of_def)
  have hd: "blocks_of l (ai_head j) \<noteq> None \<and> ai_head j \<noteq> 0" if "accounts_of l ?a = Some j" for j
    using head_facts [OF inv that] links_zero [OF ledger_invD(3) [OF inv]] by (metis option.distinct(1))
  show "\<exists>q. ?P q"
  proof (cases "accounts_of l ?a")
    case None
    show ?thesis
      using r nx u [OF None] None i [OF None]
      by (intro exI [of _ "(ledger_processor l v)\<lparr>p_code := pr_progress, p_verified := sv_valid, p_previous_balance := Some 0\<rparr>"])
        (auto simp: ready_def process_state_def state_block_impl_def latest_def table_simps ledger_processor_def
          s_def state_amount_def account_info_default_def)
  next
    case (Some j)
    with hd [OF Some] r nx show ?thesis
      by (intro exI [of _ "(ledger_processor l v)\<lparr>p_code := pr_progress, p_verified := sv_valid,
          p_previous_balance := Some (ai_balance j)\<rparr>"])
        (auto simp: ready_def process_state_def state_block_impl_def latest_def table_simps ledger_processor_def
          s_def state_amount_def info_def info_of_def Let_def)
  qed
  show "ai_head info = 0 \<or> accounts_of l ?a \<noteq> None"
    using i by (auto simp: account_info_default_def)
  show "state_previous (state_h b) = 0 \<or> blocks_of l (state_previous (state_h b)) \<noteq> None"
    using r hd by (cases "accounts_of l ?a") (auto simp: ready_def latest_def store_account_get_def)
qed

lemma commit_accepts:
  assumes r: "ready c k l b v" and inv: "ledger_inv c k rk rp T l" and q: "p_ledger q = l"
    and i: "info = info_of l (state_account (state_h b))"
    and "ai_head info = 0 \<or> accounts_of l (state_account (state_h b)) \<noteq> None"
    and "state_previous (state_h b) = 0 \<or> blocks_of l (state_previous (state_h b)) \<noteq> None"
    and "is_send \<or> state_link (state_h b) = 0 \<or>
      pending_of l (state_account (state_h b), state_link (state_h b)) \<noteq> None"
    and w: "work_sufficient c k (State b)
      \<lparr>bd_epoch = e, bd_is_send = is_send, bd_is_receive = is_receive, bd_is_epoch = False\<rparr>"
    and run: "process_visit c k now (State b) (ledger_processor l v) =
      state_block_commit c k now b q info e se is_send is_receive amount"
  shows "\<exists>p new. process c k now l (State b) v = Some p \<and> p_code p = pr_progress \<and>
    accounts_of (p_ledger p) = (accounts_of l)(state_account (state_h b) \<mapsto> new) \<and>
    ai_head new = generate_hash c (State b) \<and> ai_balance new = state_balance (state_h b) \<and>
    pending_of (p_ledger p) =
      apply_pending (state_pending b (generate_hash c (State b)) is_send amount e) (pending_of l)"
proof -
  have h: "generate_hash c (State b) \<noteq> 0" using r by (simp add: ready_def)
  have nx: "\<not> block_or_pruned_exists (p_ledger q) (generate_hash c (State b))"
    using r ledger_invD(2) [OF inv] q
    by (simp add: ready_def block_or_pruned_exists_def block_exists_def unpruned_def store_pruned_exists_def)
  from state_commit_defined [OF h, of q is_send info k now e se is_receive amount] assms(5-7) q w obtain q' where
    q': "state_block_commit c k now b q info e se is_send is_receive amount = Some q'" "p_code q' = pr_progress"
    by auto
  from state_block_commit_progress(1) [OF q' h nx] i q
  have "commit c l (p_ledger q') (State b) (state_sideband b info e is_send is_receive False se now)
      (state_account (state_h b))
      (state_info b info (generate_hash c (State b)) (state_balance (state_h b)) e now)
      (state_pending b (generate_hash c (State b)) is_send amount e)" by simp
  then show ?thesis
    using run q' by (auto simp: process_def commit_def cache_block_count_add_def)
qed

lemma receive_goes_through:
  assumes inv: "ledger_inv c k rk rp T l" and r: "ready c k l b v"
    and i: "pending_of l (state_account (state_h b), state_link (state_h b)) = Some i"
  defines "info \<equiv> info_of l (state_account (state_h b))"
  assumes bal: "state_balance (state_h b) = ai_balance info + pi_amount i"
    and w: "work_sufficient c k (State b) \<lparr>bd_epoch = max (ai_epoch info) (pi_epoch i), bd_is_send = False,
      bd_is_receive = True, bd_is_epoch = False\<rparr>"
  shows "\<exists>p new. process c k now l (State b) v = Some p \<and> p_code p = pr_progress \<and>
    accounts_of (p_ledger p) = (accounts_of l)(state_account (state_h b) \<mapsto> new) \<and>
    ai_head new = generate_hash c (State b) \<and> ai_balance new = ai_balance info + pi_amount i \<and>
    pending_of (p_ledger p) = (pending_of l)((state_account (state_h b), state_link (state_h b)) := None)"
proof -
  note v = ledger_invD [OF inv]
  have ns: "\<not> state_balance (state_h b) < ai_balance info"
    using pending_no_overflow [OF inv i, of "state_account (state_h b)"] bal by (simp add: info_def not_less)
  have l0: "state_link (state_h b) \<noteq> 0" by (rule pending_epoch(3) [OF inv i])
  have ex: "block_or_pruned_exists l (state_link (state_h b))"
    using pending_source_exists [OF v(9) i] by (auto simp: block_or_pruned_exists_def block_exists_def)
  note ri = ready_impl [OF inv r l0, folded info_def]
  from ri(1) [of now] obtain q where q: "p_ledger q = l"
    "process_visit c k now (State b) (ledger_processor l v) =
      state_block_source c k now b q info (ai_epoch info) False True (state_amount info b False)"
    using ns l0 by auto
  have am: "state_amount info b False = pi_amount i" by (simp add: state_amount_def bal)
  have run: "process_visit c k now (State b) (ledger_processor l v) =
      state_block_commit c k now b q info (max (ai_epoch info) (pi_epoch i)) (pi_epoch i) False True (pi_amount i)"
    unfolding q(2) by (simp add: state_block_source_def Let_def l0 ex q(1) i store_pending_get_def am)
  from commit_accepts [OF r inv q(1) info_def [THEN meta_eq_to_obj_eq] ri(2,3) _ w run] i l0 bal
  show ?thesis by (simp add: state_pending_def)
qed

lemma send_goes_through:
  assumes inv: "ledger_inv c k rk rp T l" and r: "ready c k l b v"
    and i: "accounts_of l (state_account (state_h b)) = Some info"
    and bal: "state_balance (state_h b) < ai_balance info"
    and w: "work_sufficient c k (State b) \<lparr>bd_epoch = ai_epoch info, bd_is_send = True,
      bd_is_receive = False, bd_is_epoch = False\<rparr>"
  shows "\<exists>p new. process c k now l (State b) v = Some p \<and> p_code p = pr_progress \<and>
    accounts_of (p_ledger p) = (accounts_of l)(state_account (state_h b) \<mapsto> new) \<and>
    ai_head new = generate_hash c (State b) \<and> ai_balance new = state_balance (state_h b) \<and>
    pending_of (p_ledger p) = (pending_of l)((state_link (state_h b), generate_hash c (State b)) \<mapsto>
      \<lparr>pi_source = state_account (state_h b), pi_amount = ai_balance info - state_balance (state_h b),
       pi_epoch = ai_epoch info\<rparr>)"
proof -
  have info: "info = info_of l (state_account (state_h b))" using i by (simp add: info_of_def)
  have u: "state_link (state_h b) \<noteq> 0" if "accounts_of l (state_account (state_h b)) = None" using that i by simp
  note ri = ready_impl [OF inv r u, folded info]
  from ri(1) [of now] obtain q where q: "p_ledger q = l"
    "process_visit c k now (State b) (ledger_processor l v) =
      state_block_source c k now b q info (ai_epoch info) True False (state_amount info b True)"
    using bal by auto
  have run: "process_visit c k now (State b) (ledger_processor l v) =
      state_block_commit c k now b q info (ai_epoch info) epoch_0 True False (state_amount info b True)"
    unfolding q(2) by (simp add: state_block_source_def Let_def)
  from commit_accepts [OF r inv q(1) info ri(2,3) _ w run] show ?thesis
    by (simp add: state_pending_def state_amount_def)
qed

end
