(* ===== verification/Ledger_Determined.thy ===== *)
theory Ledger_Determined
  imports Ledger_Chain
begin

text \<open>
  The tables of a ledger are determined by its blocks: two ledgers that satisfy the invariant and
  hold the same blocks have the same pending table, frontiers, weights and counts, and the same
  accounts up to the time of their last change.
\<close>

declare split_paired_All [simp del] split_paired_Ex [simp del]

definition untimed :: "account_info \<Rightarrow> account_info" where
  "untimed i = i\<lparr>ai_modified := 0\<rparr>"

definition same_tables :: "ledger \<Rightarrow> ledger \<Rightarrow> bool" where
  "same_tables l l' \<longleftrightarrow>
     blocks_of l = blocks_of l' \<and>
     (\<forall>a. map_option untimed (accounts_of l a) = map_option untimed (accounts_of l' a)) \<and>
     pending_of l = pending_of l' \<and> frontiers_of l = frontiers_of l' \<and>
     (\<forall>r. rep_get (weights_of l) r = rep_get (weights_of l') r) \<and>
     lc_block_count (l_cache l) = lc_block_count (l_cache l') \<and>
     lc_account_count (l_cache l) = lc_account_count (l_cache l')"

lemma untimed_simps [simp]:
  "ai_head (untimed i) = ai_head i" "ai_representative (untimed i) = ai_representative i"
  "ai_open_block (untimed i) = ai_open_block i" "ai_balance (untimed i) = ai_balance i"
  "ai_block_count (untimed i) = ai_block_count i" "ai_epoch (untimed i) = ai_epoch i"
  by (simp_all add: untimed_def)

lemma untimed_eqI:
  "ai_head i = ai_head j \<Longrightarrow> ai_representative i = ai_representative j \<Longrightarrow>
   ai_open_block i = ai_open_block j \<Longrightarrow> ai_balance i = ai_balance j \<Longrightarrow>
   ai_block_count i = ai_block_count j \<Longrightarrow> ai_epoch i = ai_epoch j \<Longrightarrow> untimed i = untimed j"
  by (simp add: untimed_def)

section \<open>The blocks\<close>

lemma entry_view_same:
  assumes "entry_view e = entry_view e'" and "sb_successor (snd e) = sb_successor (snd e')"
  shows "e = e'"
proof -
  have "fst e = fst e'" and s: "(snd e)\<lparr>sb_successor := 0\<rparr> = (snd e')\<lparr>sb_successor := 0\<rparr>"
    using assms(1) by (simp_all add: entry_view_def)
  moreover have "snd e = (snd e)\<lparr>sb_successor := 0\<rparr>\<lparr>sb_successor := sb_successor (snd e)\<rparr>" by simp
  then have "snd e = snd e'" unfolding s assms(2) by simp
  ultimately show ?thesis by (simp add: prod_eq_iff)
qed

lemma successor_forward:
  assumes inv: "ledger_inv c k rk rp T l" and inv': "ledger_inv c k rk' rp' T' l'"
    and v: "bview (blocks_of l) = bview (blocks_of l')"
    and e: "blocks_of l x = Some e" and e': "blocks_of l' x = Some e'" and s: "sb_successor (snd e) \<noteq> 0"
  shows "sb_successor (snd e') = sb_successor (snd e)"
proof -
  let ?s = "sb_successor (snd e)"
  from tops_okD [OF ledger_invD(4) [OF inv] e] s obtain n where n: "blocks_of l ?s = Some n" "prev_of n = x"
    by (auto elim!: top_okE precedesE)
  have "map_option entry_view (blocks_of l' ?s) = Some (entry_view n)"
    using fun_cong [OF v, of ?s] n(1) by (simp add: bview_apply)
  then obtain n' where n': "blocks_of l' ?s = Some n'" "entry_view n' = entry_view n" by blast
  have "prev_of n' = x" using entry_view_eq(1) [OF n'(2)] n(2) by simp
  moreover have "x \<noteq> 0" using block_link [OF inv e] by (simp add: link_ok_def)
  ultimately show ?thesis using block_link [OF inv' n'(1)] e' by (auto simp: link_ok_def)
qed

lemma blocks_determined:
  assumes inv: "ledger_inv c k rk rp T l" and inv': "ledger_inv c k rk' rp' T' l'"
    and v: "bview (blocks_of l) = bview (blocks_of l')"
  shows "blocks_of l = blocks_of l'"
proof
  fix x
  show "blocks_of l x = blocks_of l' x"
  proof (cases "blocks_of l x")
    case None
    with fun_cong [OF v, of x] show ?thesis by (cases "blocks_of l' x") (auto simp: bview_def)
  next
    case (Some e)
    with fun_cong [OF v, of x] obtain e' where e': "blocks_of l' x = Some e'" "entry_view e = entry_view e'"
      by (cases "blocks_of l' x") (auto simp: bview_def)
    have "sb_successor (snd e) = sb_successor (snd e')"
      using successor_forward [OF inv inv' v Some e'(1)] successor_forward [OF inv' inv v [symmetric] e'(1) Some]
      by metis
    with e'(2) have "e = e'" by (metis entry_view_same)
    with Some e'(1) show ?thesis by simp
  qed
qed

section \<open>The accounts\<close>

lemma reps_determined:
  assumes inv: "ledger_inv c k rk rp T l" and inv': "ledger_inv c k rk' rp' T' l'"
    and b: "blocks_of l = blocks_of l'"
  shows "blocks_of l x = Some e \<Longrightarrow> rp x = rp' x"
proof (induction "rk x" arbitrary: x e rule: less_induct)
  case less
  have r: "rep_ok rp x e" "rep_ok rp' x e"
    using ledger_invD(6) [OF inv] ledger_invD(6) [OF inv'] less.prems b by (auto simp: reps_ok_def)
  show ?case
  proof (cases "keeps_rep (fst e)")
    case True
    then have "prev_of e \<noteq> 0" using block_link [OF inv less.prems] by (auto simp: link_ok_def keeps_rep_def)
    then obtain p where "blocks_of l (prev_of e) = Some p" "rk (prev_of e) < rk x"
      using block_link [OF inv less.prems] by (auto simp: link_ok_def)
    with less.hyps True r show ?thesis by (simp add: rep_ok_def)
  qed (use r in \<open>simp add: rep_ok_def\<close>)
qed

lemma account_determined:
  assumes inv: "ledger_inv c k rk rp T l" and inv': "ledger_inv c k rk' rp' T' l'"
    and b: "blocks_of l = blocks_of l'" and i: "accounts_of l a = Some i"
  obtains i' where "accounts_of l' a = Some i'" "untimed i = untimed i'"
proof -
  from head_facts [OF inv i] obtain e where e: "blocks_of l (ai_head i) = Some e"
    "account_calculated e = a" "balance_calculated e = ai_balance i" "sb_height (snd e) = ai_block_count i"
    "entry_epoch e = ai_epoch i" "sb_successor (snd e) = 0" "rp (ai_head i) = ai_representative i" by metis
  have e': "blocks_of l' (ai_head i) = Some e" using e(1) b by simp
  from tops_okD [OF ledger_invD(4) [OF inv'] e'] e(2,6) obtain i' where
    i': "accounts_of l' a = Some i'" "ai_head i' = ai_head i" by (auto elim: top_okE)
  from head_facts [OF inv' i'(1)] i'(2) e' have
    h: "balance_calculated e = ai_balance i'" "sb_height (snd e) = ai_block_count i'"
    "entry_epoch e = ai_epoch i'" "rp' (ai_head i) = ai_representative i'" by (metis option.inject)+
  have "0 < count_at (accounts_of l) a"
    using height_pos [OF inv e(1)] e(4) i by (simp add: count_at_def)
  with height_exists [OF inv, of 1 a] obtain x f where f: "blocks_of l x = Some f"
    "account_calculated f = a" "unat (sb_height (snd f)) = 1" by auto
  have p: "prev_of f = 0" by (rule height_one [OF inv f(1,3)])
  have "ai_open_block i = x" "ai_open_block i' = x"
    using block_facts [OF inv f(1)] block_facts [OF inv' f(1) [unfolded b]] f(2) p i i'(1)
    by (metis option.inject)+
  moreover have "rp (ai_head i) = rp' (ai_head i)" by (rule reps_determined [OF inv inv' b e(1)])
  ultimately show thesis using that i' h e by (metis untimed_eqI)
qed

lemma accounts_determined:
  assumes inv: "ledger_inv c k rk rp T l" and inv': "ledger_inv c k rk' rp' T' l'"
    and b: "blocks_of l = blocks_of l'"
  shows "map_option untimed (accounts_of l a) = map_option untimed (accounts_of l' a)"
proof (cases "accounts_of l a")
  case (Some i)
  from account_determined [OF inv inv' b Some] Some show ?thesis by (metis option.simps(9))
next
  case None
  then show ?thesis
    using account_determined [OF inv' inv b [symmetric], of a]
    by (metis option.distinct(1) option.exhaust option.map_disc_iff)
qed

section \<open>The other tables\<close>

lemma pending_forward:
  assumes inv: "ledger_inv c k rk rp T l" and inv': "ledger_inv c k rk' rp' T' l'"
    and b: "blocks_of l = blocks_of l'" and g: "sends_at (blocks_of l) (genesis_hash c k) = None"
    and i: "pending_of l (d, s) = Some i"
  shows "pending_of l' (d, s) = Some i"
proof -
  note p = pending_okD [OF ledger_invD(9) [OF inv] i]
  then obtain e where e: "blocks_of l s = Some e" "entry_sends e = Some d"
    by (auto simp: sends_at_def split: option.splits)
  have "s \<noteq> genesis_hash c k" using p(1) g by auto
  from flow_okD [OF ledger_invD(8) [OF inv'] e(1) [unfolded b] this] e(2) p(5) b obtain i' where
    i': "pending_of l' (d, s) = Some i'" by (auto simp: flow_ok_def received_def)
  from pending_okD [OF ledger_invD(9) [OF inv'] i'] p b have "i = i'"
    by (intro pending_info.equality) auto
  with i' show ?thesis by simp
qed

lemma pending_determined:
  assumes inv: "ledger_inv c k rk rp T l" and inv': "ledger_inv c k rk' rp' T' l'"
    and b: "blocks_of l = blocks_of l'" and g: "sends_at (blocks_of l) (genesis_hash c k) = None"
  shows "pending_of l = pending_of l'"
proof
  fix key :: pending_key
  obtain d s where "key = (d, s)" by (cases key)
  moreover have "sends_at (blocks_of l') (genesis_hash c k) = None" using g b by simp
  ultimately show "pending_of l key = pending_of l' key"
    using pending_forward [OF inv inv' b g, of d s] pending_forward [OF inv' inv b [symmetric], of d s]
    by (metis option.exhaust)
qed

lemma map_total_eq:
  assumes "\<And>k. map_option f (m k) = map_option f (m' k)"
  shows "map_total f m = map_total f m'"
proof -
  have "m k = None \<longleftrightarrow> m' k = None" for k using assms [of k] by (cases "m k"; cases "m' k") auto
  then have "dom m = dom m'" unfolding dom_def by simp
  moreover have "f (the (m k)) = f (the (m' k))" if "k \<in> dom m" for k
    using assms [of k] that by (cases "m k"; cases "m' k") auto
  ultimately show ?thesis by (simp add: map_total_def)
qed

lemma ledger_determined:
  assumes inv: "ledger_inv c k rk rp T l" and inv': "ledger_inv c k rk' rp' T' l'"
    and v: "bview (blocks_of l) = bview (blocks_of l')"
    and g: "sends_at (blocks_of l) (genesis_hash c k) = None"
  shows "same_tables l l'"
proof -
  note b = blocks_determined [OF inv inv' v]
  note a = accounts_determined [OF inv inv' b]
  have dm: "dom (accounts_of l) = dom (accounts_of l')"
    using a by (auto simp: dom_def) (metis map_option_eq_Some)+
  have w: "map_option f (accounts_of l x) = map_option f (accounts_of l' x)"
    if "\<And>i. f (untimed i) = f i" for f :: "account_info \<Rightarrow> 'z" and x
    using arg_cong [OF a [of x], of "map_option f"] that by (simp add: option.map_comp comp_def)
  have "rep_get (weights_of l) r = rep_get (weights_of l') r" for r
  proof -
    have "map_total (\<lambda>i. if ai_representative i = r then unat (ai_balance i) else 0) (accounts_of l) =
        map_total (\<lambda>i. if ai_representative i = r then unat (ai_balance i) else 0) (accounts_of l')"
      by (rule map_total_eq, rule w) simp
    then show ?thesis
      using ledger_invD(15) [OF inv] ledger_invD(15) [OF inv'] by (simp add: weights_ok_def)
  qed
  moreover have "frontiers_of l f = frontiers_of l' f" for f
  proof -
    have "(\<exists>i. accounts_of l x = Some i \<and> ai_head i = f \<and> legacy_at (blocks_of l) f) \<longleftrightarrow>
        (\<exists>i. accounts_of l' x = Some i \<and> ai_head i = f \<and> legacy_at (blocks_of l') f)" for x
      using w [of ai_head x] b by (cases "accounts_of l x"; cases "accounts_of l' x") auto
    then have "frontiers_of l f = Some x \<longleftrightarrow> frontiers_of l' f = Some x" for x
      using ledger_invD(7) [OF inv] ledger_invD(7) [OF inv'] by (simp add: frontiers_ok_def)
    then show ?thesis by (metis option.exhaust)
  qed
  ultimately show ?thesis
    using b a pending_determined [OF inv inv' b g] ledger_invD(16) [OF inv] ledger_invD(16) [OF inv'] dm
    by (auto simp: same_tables_def counts_ok_def)
qed

section \<open>Rolling back the last block\<close>

lemma genesis_sends:
  assumes "ledger_inv c k rk rp T l" and "block_type_of (k_genesis k) = bt_open"
  shows "sends_at (blocks_of l) (genesis_hash c k) = None"
proof -
  from ledger_invD(12) [OF assms(1)] obtain e where e: "blocks_of l (genesis_hash c k) = Some e" "fst e = k_genesis k"
    by (auto simp: genesis_ok_def split: option.splits)
  with assms(2) show ?thesis by (cases "k_genesis k") (auto simp: sends_at_def entry_sends_def)
qed

lemma new_unconfirmed:
  assumes inv: "ledger_inv c k rk rp T l" and inv': "ledger_inv c k rk' rp' T l'"
    and gr: "grows k l l' h e a new"
  shows "unconfirmed l' h"
proof
  note d = growsD [OF gr]
  assume "confirmed_at (blocks_of l') (heights_of l') h"
  with d have c: "sb_height (snd e) \<le> conf_at (heights_of l) (account_calculated e)"
    by (simp add: confirmed_grow)
  have e: "blocks_of l' h = Some e" using d(1,2) by (simp add: grow_apply)
  have "unat (sb_height (snd e)) \<le> unat (conf_at (heights_of l) (account_calculated e))"
    using c by (simp add: word_le_nat_alt)
  also have "\<dots> \<le> count_at (accounts_of l) (account_calculated e)"
    using ledger_invD(11) [OF inv] by (simp add: conf_ok_def)
  finally obtain y f where f: "blocks_of l y = Some f" "account_calculated f = account_calculated e"
    "unat (sb_height (snd f)) = unat (sb_height (snd e))"
    using height_exists [OF inv height_pos [OF inv' e]] by blast
  have yh: "y \<noteq> h" using f(1) d(1) by (auto simp: grow_at_def)
  then obtain f' where "blocks_of l' y = Some f'" "account_calculated f' = account_calculated f"
    "sb_height (snd f') = sb_height (snd f)"
    using f(1) d(1,2) by (cases "y = prev_of e") (auto simp: grow_apply)
  with height_unique [OF inv' _ e, of y f'] f yh show False by simp
qed

lemma process_rollback:
  assumes inv: "ledger_inv c k rk rp T l" and adm: "admissible c k l b" and k: "constants_ok k"
    and g: "block_type_of (k_genesis k) = bt_open"
    and run: "process c k now l b v = Some p" "p_code p = pr_progress"
  shows "\<exists>n l' e. rollback n c k clock (p_ledger p) (generate_hash c b) ls = Done (False, l', ls @ [e]) \<and>
    generate_hash c (fst e) = generate_hash c b \<and> same_tables l l' \<and> heights_of l' = heights_of l"
proof -
  let ?h = "generate_hash c b" and ?m = "p_ledger p"
  from process_accepted [OF inv adm k run] obtain e a new where
    acc: "accepted c k l ?m ?h e a new" "fst e = b" .
  then have gr: "grows k l ?m ?h e a new" by (simp add: accepted_def)
  note d = growsD [OF gr]
  from inv_grow [OF inv gr] acc(1) obtain rk' rp' where inv': "ledger_inv c k rk' rp' T ?m"
    and rk: "\<And>x. blocks_of l x \<noteq> None \<Longrightarrow> rk' x < rk' ?h" unfolding accepted_def by blast
  have eh: "blocks_of ?m ?h \<noteq> None" using d(1,2) by (simp add: grow_apply)
  from rollback_unconfirmed [OF inv' eh new_unconfirmed [OF inv inv' gr], of clock ls] obtain n l' nw where
    n: "rollback n c k clock ?m ?h ls = Done (False, l', ls @ nw)"
    and l': "ledger_inv c k rk' rp' T l'" "blocks_of l' ?h = None" "listed c ?m l' nw"
    "\<And>m. m < rk' ?h \<Longrightarrow> kept rk' m ?m l'" by metis
  have bv: "bview (blocks_of l) x = bview (blocks_of l') x" for x
  proof (cases "blocks_of l x")
    case (Some f)
    then have "rk' x < rk' ?h" "x \<noteq> ?h" using rk d(1) by (auto simp: grow_at_def)
    with l'(4) have "bview (blocks_of l') x = bview (blocks_of ?m) x" by (simp add: kept_def)
    also have "\<dots> = bview (blocks_of l) x"
      using Some \<open>x \<noteq> ?h\<close> d(1,2)
      by (auto simp: bview_def grow_apply with_successor_def entry_view_def)
    finally show ?thesis by simp
  next
    case None
    then have "x = ?h \<or> blocks_of ?m x = None" using d(1,2) by (simp add: grow_None)
    then have "blocks_of l' x = None" using l'(2) listed_dom [OF l'(3)] by blast
    with None show ?thesis by (simp add: bview_apply)
  qed
  then have "bview (blocks_of l) = bview (blocks_of l')" by blast
  from ledger_determined [OF inv l'(1) this genesis_sends [OF inv g]] have st: "same_tables l l'" .
  have "dom (blocks_of ?m) - dom (blocks_of l') = {?h}"
    using st d(1,2) by (auto simp: same_tables_def grow_apply grow_at_def split: if_splits)
  with l'(3) have nw: "distinct (hashes c nw)" "set (hashes c nw) = {?h}" "heights_of l' = heights_of ?m"
    by (simp_all add: listed_def)
  then have "hashes c nw = [?h]"
    by (metis distinct_card length_0_conv length_Suc_conv list.set(1) list.simps(15) card_insert_disjoint
        card.empty empty_iff finite.emptyI insert_not_empty singleton_iff list.set_intros(1))
  then obtain e' where "nw = [e']" "generate_hash c (fst e') = ?h" by (cases nw) (auto simp: hashes_def)
  with n st nw(3) d(7) show ?thesis by metis
qed

end
