(* ===== verification/Ledger_Restart.thy ===== *)
theory Ledger_Restart
  imports Ledger_Chain Ledger_Init
begin

text \<open>
  The start of a node on an existing database: the parallel traversal of a table visits every
  entry once, whatever the number of threads, and the cache that \<open>ledger_initialize\<close> computes is
  the cache that the ledger had.
\<close>

declare split_paired_All [simp del] split_paired_Ex [simp del]

section \<open>Ranges of a table\<close>

lemma iter_between_append: "iter_between (ys @ zs) zs = Some ys"
  by (induction ys) (simp_all add: iter_between.simps)

lemma iter_between_all: "iter_between ys [] = Some ys"
  using iter_between_append [of ys "[]"] by simp

definition table_part :: "('k::linorder \<rightharpoonup> 'v) \<Rightarrow> 'k \<Rightarrow> 'k \<Rightarrow> ('k \<times> 'v) list" where
  "table_part m a b =
     map (\<lambda>k. (k, the (m k))) (filter (\<lambda>k. a \<le> k \<and> k < b) (sorted_list_of_set (dom m)))"

lemma filter_split:
  assumes "sorted xs" and "a \<le> (b :: 'k::linorder)"
  shows "filter (\<lambda>k. a \<le> k) xs = filter (\<lambda>k. a \<le> k \<and> k < b) xs @ filter (\<lambda>k. b \<le> k) xs"
  using assms(1)
proof (induction xs)
  case (Cons x xs)
  show ?case
  proof (cases "b \<le> x")
    case True
    then have "filter (\<lambda>k. a \<le> k \<and> k < b) (x # xs) = []" using Cons.prems by (auto simp: filter_empty_conv)
    moreover have "filter (\<lambda>k. a \<le> k) (x # xs) = x # xs" "filter (\<lambda>k. b \<le> k) (x # xs) = x # xs"
      using Cons.prems True assms(2) by (auto simp: filter_id_conv)
    ultimately show ?thesis by simp
  next
    case False
    with Cons show ?thesis by auto
  qed
qed simp

lemma table_from_split: "a \<le> b \<Longrightarrow> table_from m a = table_part m a b @ table_from m b"
  unfolding table_from_def table_part_def map_append [symmetric]
  by (subst filter_split [of _ a b]) simp_all

lemma table_from_zero: "table_from m (0 :: u256) = table_all m"
  by (simp add: table_from_def table_all_def)

definition range_part :: "(u256 \<rightharpoonup> 'v) \<Rightarrow> u256 \<times> u256 \<times> bool \<Rightarrow> (u256 \<times> 'v) list" where
  "range_part m r = (case r of (s, e, is_last) \<Rightarrow> if is_last then table_from m s else table_part m s e)"

lemma traversal_range_part:
  assumes "is_last \<or> s \<le> e"
  shows "traversal_range m (s, e, is_last) = Some (range_part m (s, e, is_last))"
  using assms
  by (auto simp: traversal_range_def range_part_def iter_between_all iter_between_append
      table_from_split [of s e])

lemma for_each_par_fold:
  assumes "\<And>s e is_last. (s, e, is_last) \<in> set rs \<Longrightarrow> is_last \<or> s \<le> e"
  shows "for_each_par action m rs x = Some (fold action (map (range_part m) rs) x)"
  using assms
proof (induction rs arbitrary: x)
  case (Cons r rs)
  obtain s e i where r: "r = (s, e, i)" by (cases r)
  have "traversal_range m r = Some (range_part m r)"
    unfolding r using Cons.prems r by (intro traversal_range_part) auto
  with Cons show ?case by simp
qed simp

section \<open>The ranges of the threads\<close>

definition split_at :: "nat \<Rightarrow> nat \<Rightarrow> u256" where
  "split_at n i = of_nat i * (- 1 div of_nat n)"

lemma unat_split_at:
  assumes "0 < n" and "n < 2 ^ 256" and "i \<le> n"
  shows "unat (split_at n i) = i * ((2 ^ 256 - 1) div n)"
proof -
  have m: "unat (- 1 :: u256) = 2 ^ 256 - 1" by (simp add: unsigned_minus_1_eq_mask mask_eq_exp_minus_1)
  have n: "unat (of_nat n :: u256) = n" "unat (of_nat i :: u256) = i"
    using assms by (simp_all add: unat_of_nat take_bit_nat_eq_self)
  have d: "unat (- 1 div of_nat n :: u256) = (2 ^ 256 - 1) div n"
    by (simp add: unat_div_distrib m n)
  have "i * ((2 ^ 256 - 1) div n) \<le> n * ((2 ^ 256 - 1) div n)" using assms(3) by (rule mult_le_mono1)
  also have "\<dots> \<le> 2 ^ 256 - 1" by (rule times_div_less_eq_dividend)
  finally have "unat (of_nat i :: u256) * unat (- 1 div of_nat n :: u256) < 2 ^ LENGTH(256)"
    unfolding d n by simp
  from iffD1 [OF unat_mult_lem this] show ?thesis unfolding split_at_def d n .
qed

lemma split_at_mono:
  assumes "0 < n" and "n < 2 ^ 256" and "i \<le> j" and "j \<le> n"
  shows "split_at n i \<le> split_at n j"
  using assms unat_split_at [OF assms(1,2), of i] unat_split_at [OF assms(1,2), of j]
  by (simp add: word_le_nat_alt mult_le_mono1)

lemma traversal_ranges_eq:
  "traversal_ranges n = map (\<lambda>i. (split_at n i, split_at n (Suc i), i = n - 1)) [0..<n]"
  by (simp add: traversal_ranges_def split_at_def Let_def)

lemma ranges_ordered:
  assumes "0 < n" and "n < 2 ^ 256" and "(s, e, is_last) \<in> set (traversal_ranges n)"
  shows "is_last \<or> s \<le> e"
  using assms split_at_mono [OF assms(1,2)] by (auto simp: traversal_ranges_eq)

lemma parts_from:
  assumes "0 < n" and "n < 2 ^ 256"
  shows "i < n \<Longrightarrow> concat (map (\<lambda>i. range_part m (split_at n i, split_at n (Suc i), i = n - 1)) [i..<n]) =
    table_from m (split_at n i)"
proof (induction "n - i" arbitrary: i)
  case (Suc d)
  show ?case
  proof (cases "i = n - 1")
    case True
    with Suc.prems have "[i..<n] = [i]" by (cases n) auto
    with True show ?thesis by (simp add: range_part_def)
  next
    case False
    then have i: "Suc i < n" "d = n - Suc i" using Suc by simp_all
    have "split_at n i \<le> split_at n (Suc i)" using i by (intro split_at_mono [OF assms]) auto
    with Suc.hyps(1) [OF i(2,1)] False Suc.prems show ?thesis
      by (simp add: upt_conv_Cons range_part_def table_from_split [symmetric])
  qed
qed simp

lemma ranges_cover:
  assumes "0 < n" and "n < 2 ^ 256"
  shows "concat (map (range_part m) (traversal_ranges n)) = table_all m"
  using parts_from [OF assms, of 0 m] assms
  by (simp add: traversal_ranges_eq comp_def table_from_zero split_at_def)

section \<open>Sums over a table\<close>

lemma sum_table_all:
  fixes f :: "'v \<Rightarrow> 'a::len word"
  assumes "finite (dom m)"
  shows "(\<Sum>(k, v)\<leftarrow>table_all m. f v) = of_nat (map_total (\<lambda>v. unat (f v)) m)"
proof -
  have "(\<Sum>(k, v)\<leftarrow>table_all m. f v) = (\<Sum>k\<leftarrow>sorted_list_of_set (dom m). f (the (m k)))"
    by (simp add: table_all_def comp_def)
  also have "\<dots> = (\<Sum>k\<in>dom m. f (the (m k)))"
    using assms by (simp add: sum_list_distinct_conv_sum_set)
  finally show ?thesis by (simp add: map_total_def of_nat_sum)
qed

lemma length_table_all: "finite (dom m) \<Longrightarrow> length (table_all m) = card (dom m)"
  by (simp add: table_all_def)

lemma sum_rep_table:
  assumes "finite (dom w)"
  shows "(\<Sum>(a, x)\<leftarrow>table_all w. if a = r then x else 0) = rep_get w r"
proof -
  have "(\<Sum>(a, x)\<leftarrow>table_all w. if a = r then x else 0) =
      (\<Sum>a\<leftarrow>sorted_list_of_set (dom w). if a = r then the (w a) else 0)"
    by (simp add: table_all_def comp_def)
  also have "\<dots> = (\<Sum>a\<in>dom w. if a = r then the (w a) else 0)"
    using assms by (simp add: sum_list_distinct_conv_sum_set)
  also have "\<dots> = rep_get w r"
    using assms by (auto simp: rep_get_def sum.delta domIff split: option.splits)
  finally show ?thesis .
qed

section \<open>The cache\<close>

lemma finite_representation_add: "finite (dom w) \<Longrightarrow> finite (dom (representation_add w r x))"
  by (simp add: representation_add_def rep_put_def Let_def split: option.splits)

lemma fold_accounts:
  assumes "fold (\<lambda>(a, info) (bc, ac, w).
      (bc + ai_block_count info, ac + 1, representation_add w (ai_representative info) (ai_balance info)))
      entries (bc, ac, w) = (bc', ac', w')" and "finite (dom w)"
  shows "bc' = bc + (\<Sum>(a, i)\<leftarrow>entries. ai_block_count i) \<and> ac' = ac + of_nat (length entries) \<and>
    finite (dom w') \<and>
    (\<forall>r. rep_get w' r = rep_get w r + (\<Sum>(a, i)\<leftarrow>entries. if ai_representative i = r then ai_balance i else 0))"
  using assms
proof (induction entries arbitrary: bc ac w)
  case (Cons x entries)
  obtain a i where x: "x = (a, i)" by (cases x)
  from Cons.prems x have run: "fold (\<lambda>(a, info) (bc, ac, w).
      (bc + ai_block_count info, ac + 1, representation_add w (ai_representative info) (ai_balance info)))
      entries (bc + ai_block_count i, ac + 1, representation_add w (ai_representative i) (ai_balance i)) =
      (bc', ac', w')" by simp
  have "finite (dom (representation_add w (ai_representative i) (ai_balance i)))"
    using Cons.prems(2) by (rule finite_representation_add)
  from Cons.IH [OF run this] x show ?case by (auto simp: algebra_simps)
qed auto

lemma initialize_accounts_cache:
  shows "l_store (initialize_accounts es l) = l_store l" "l_pruning (initialize_accounts es l) = l_pruning l"
    and "lc_block_count (l_cache (initialize_accounts es l)) =
      lc_block_count (l_cache l) + (\<Sum>(a, i)\<leftarrow>es. ai_block_count i)"
    and "lc_account_count (l_cache (initialize_accounts es l)) = lc_account_count (l_cache l) + of_nat (length es)"
    and "lc_cemented_count (l_cache (initialize_accounts es l)) = lc_cemented_count (l_cache l)"
    and "rep_get (weights_of (initialize_accounts es l)) r =
      rep_get (weights_of l) r + (\<Sum>(a, i)\<leftarrow>es. if ai_representative i = r then ai_balance i else 0)"
proof -
  obtain bc and ac :: u64 and w where f: "fold (\<lambda>(a, info) (bc, ac, w).
      (bc + ai_block_count info, ac + 1, representation_add w (ai_representative info) (ai_balance info)))
      es (0, 0, Map.empty) = (bc, ac, w)" by (rule prod_cases3)
  note c = fold_accounts [OF f, simplified]
  have e: "initialize_accounts es l = cache_weights_set
      (cache_account_count_add (cache_block_count_add l bc) ac)
      (copy_from (weights_of l) (table_all w))"
    by (simp add: initialize_accounts_def f Let_def cache_account_count_add_def cache_block_count_add_def)
  note d = cache_weights_set_def cache_account_count_add_def cache_block_count_add_def
  show "l_store (initialize_accounts es l) = l_store l" "l_pruning (initialize_accounts es l) = l_pruning l"
    "lc_cemented_count (l_cache (initialize_accounts es l)) = lc_cemented_count (l_cache l)"
    by (simp_all add: e d)
  show "lc_block_count (l_cache (initialize_accounts es l)) =
      lc_block_count (l_cache l) + (\<Sum>(a, i)\<leftarrow>es. ai_block_count i)"
    "lc_account_count (l_cache (initialize_accounts es l)) = lc_account_count (l_cache l) + of_nat (length es)"
    using c by (simp_all add: e d)
  show "rep_get (weights_of (initialize_accounts es l)) r =
      rep_get (weights_of l) r + (\<Sum>(a, i)\<leftarrow>es. if ai_representative i = r then ai_balance i else 0)"
    using c by (simp add: e d rep_get_copy_from sum_rep_table) (simp add: rep_get_def)
qed

lemma fold_initialize_accounts:
  "l_store (fold initialize_accounts ess l) = l_store l"
  "l_pruning (fold initialize_accounts ess l) = l_pruning l"
  "lc_block_count (l_cache (fold initialize_accounts ess l)) =
     lc_block_count (l_cache l) + (\<Sum>(a, i)\<leftarrow>concat ess. ai_block_count i)"
  "lc_account_count (l_cache (fold initialize_accounts ess l)) =
     lc_account_count (l_cache l) + of_nat (length (concat ess))"
  "lc_cemented_count (l_cache (fold initialize_accounts ess l)) = lc_cemented_count (l_cache l)"
  "rep_get (weights_of (fold initialize_accounts ess l)) r =
     rep_get (weights_of l) r + (\<Sum>(a, i)\<leftarrow>concat ess. if ai_representative i = r then ai_balance i else 0)"
  by (induction ess arbitrary: l) (simp_all add: initialize_accounts_cache algebra_simps)

lemma initialize_heights_eq:
  "initialize_heights es l = cache_cemented_count_add l (\<Sum>(a, i)\<leftarrow>es. ch_height i)"
proof -
  have "fold (\<lambda>(a, info) n. n + ch_height info) es n = n + (\<Sum>(a, i)\<leftarrow>es. ch_height i)" for n
    by (induction es arbitrary: n) (auto simp: algebra_simps)
  then show ?thesis by (simp add: initialize_heights_def)
qed

lemma fold_initialize_heights:
  "fold initialize_heights ess l = cache_cemented_count_add l (\<Sum>(a, i)\<leftarrow>concat ess. ch_height i)"
  by (induction ess arbitrary: l)
    (simp_all add: initialize_heights_eq cache_cemented_count_add_def algebra_simps)

text \<open>The cache of a new \<open>ledger\<close> object.\<close>

definition ledger_cache_default :: ledger_cache where
  "ledger_cache_default =
     \<lparr>lc_rep_weights = Map.empty, lc_cemented_count = 0, lc_block_count = 0, lc_pruned_count = 0,
      lc_account_count = 0, lc_final_votes_confirmation_canary = False\<rparr>"

lemma ledger_initialize_cache:
  assumes inv: "ledger_inv c k rk rp T l" and n: "0 < n" "n < 2 ^ 256" and ht: "finite (dom (heights_of l))"
  shows "\<exists>l'. ledger_initialize k n generate_cache_default (l\<lparr>l_cache := ledger_cache_default\<rparr>) = Some l' \<and>
    l_store l' = l_store l \<and> lc_block_count (l_cache l') = lc_block_count (l_cache l) \<and>
    lc_account_count (l_cache l') = lc_account_count (l_cache l) \<and>
    (\<forall>r. rep_get (weights_of l') r = rep_get (weights_of l) r) \<and>
    lc_cemented_count (l_cache l') = of_nat (map_total (\<lambda>i. unat (ch_height i)) (heights_of l))"
proof -
  note v = ledger_invD [OF inv]
  have fin: "finite (dom (accounts_of l))" using v(1) by (simp add: tables_finite_def)
  let ?l0 = "l\<lparr>l_cache := ledger_cache_default\<rparr>"
  let ?l1 = "fold initialize_accounts (map (range_part (accounts_of l)) (traversal_ranges n)) ?l0"
  have "l_store ?l1 = l_store l" by (simp add: fold_initialize_accounts)
  moreover have "lc_block_count (l_cache ?l1) = lc_block_count (l_cache l)"
    using v(16) chain_count [OF inv] sum_table_all [OF fin, of ai_block_count]
    by (simp add: fold_initialize_accounts ranges_cover [OF n] counts_ok_def ledger_cache_default_def)
  moreover have "lc_account_count (l_cache ?l1) = lc_account_count (l_cache l)"
    using v(16) fin
    by (simp add: fold_initialize_accounts ranges_cover [OF n] counts_ok_def ledger_cache_default_def
        length_table_all)
  moreover have "rep_get (weights_of ?l1) r = rep_get (weights_of l) r" for r
  proof -
    have "map_total (\<lambda>i. unat (if ai_representative i = r then ai_balance i else 0)) (accounts_of l) =
        map_total (\<lambda>i. if ai_representative i = r then unat (ai_balance i) else 0) (accounts_of l)"
      by (rule map_total_cong) simp
    then show ?thesis
      using v(15) sum_table_all [OF fin, of "\<lambda>i. if ai_representative i = r then ai_balance i else 0"]
      by (simp add: fold_initialize_accounts ranges_cover [OF n] weights_ok_def ledger_cache_default_def)
        (simp add: rep_get_def)
  qed
  moreover have "lc_cemented_count (l_cache ?l1) = 0"
    by (simp add: fold_initialize_accounts ledger_cache_default_def)
  moreover have "for_each_par initialize_accounts (accounts_of l) (traversal_ranges n) ?l0 = Some ?l1"
    by (rule for_each_par_fold [OF ranges_ordered [OF n]])
  moreover have "for_each_par initialize_heights (heights_of l) (traversal_ranges n) ?l1 =
      Some (cache_cemented_count_add ?l1 (of_nat (map_total (\<lambda>i. unat (ch_height i)) (heights_of l))))"
    by (subst for_each_par_fold [OF ranges_ordered [OF n]], assumption)
      (simp add: fold_initialize_heights ranges_cover [OF n] sum_table_all [OF ht])
  ultimately show ?thesis
    by (simp add: ledger_initialize_def generate_cache_default_def cache_cemented_count_add_def
        cache_canary_set_def Let_def split: prod.splits bool.splits)
qed

end
