(* ===== verification/Ledger_Lookup.thy ===== *)
theory Ledger_Lookup
  imports Ledger_Restart Ledger_Reach
begin

text \<open>
  What the queries of \<^verbatim>\<open>secure/ledger.cpp\<close> return on the ledgers that a node reaches: receivable
  sums, the search for a receive block, and the dependencies of a block.
\<close>

declare split_paired_All [simp del] split_paired_Ex [simp del]

section \<open>Receivable amounts\<close>

definition receivable :: "ledger \<Rightarrow> account \<Rightarrow> bool \<Rightarrow> pending_key set" where
  "receivable l a only_confirmed =
     {key \<in> dom (pending_of l). fst key = a \<and> (only_confirmed \<longrightarrow> block_confirmed l (snd key))}"

lemma fold_receivable:
  "fold (\<lambda>(key, info) result. if oc then (if block_confirmed l (snd key) then result + pi_amount info else result)
       else result + pi_amount info) es x =
     x + (\<Sum>(key, info)\<leftarrow>filter (\<lambda>(key, info). oc \<longrightarrow> block_confirmed l (snd key)) es. pi_amount info)"
proof (induction es arbitrary: x)
  case (Cons e es)
  then show ?case by (cases e) (simp add: algebra_simps)
qed simp

lemma next_account:
  fixes a :: account
  assumes "a \<noteq> - 1"
  shows "a < a + 1" and "\<And>x. x < a + 1 \<longleftrightarrow> x \<le> a"
proof -
  have "1 + a \<noteq> 0" using assms by (simp add: add.commute eq_neg_iff_add_eq_0)
  then have u: "unat (a + 1) = unat a + 1" by (simp add: unatSuc add.commute)
  then show "a < a + 1" "x < a + 1 \<longleftrightarrow> x \<le> a" for x by (simp_all add: word_less_nat_alt word_le_nat_alt less_Suc_eq_le)
qed

lemma account_keys:
  fixes key :: pending_key
  assumes "a \<noteq> - 1"
  shows "(a, 0) \<le> key \<and> key < (a + 1, 0) \<longleftrightarrow> fst key = a"
proof -
  obtain x y where key: "key = (x, y)" by (cases key)
  have "(a, 0) \<le> key \<longleftrightarrow> a \<le> x" by (auto simp: key less_eq_prod_def)
  moreover have "key < (a + 1, 0) \<longleftrightarrow> x < a + 1" by (auto simp: key less_prod_def)
  ultimately show ?thesis unfolding next_account(2) [OF assms] by (auto simp: key)
qed

lemma account_receivable_sum:
  assumes fin: "finite (dom (pending_of l))" and a: "a \<noteq> - 1"
  shows "account_receivable l a oc =
    Some (of_nat (\<Sum>key\<in>receivable l a oc. unat (pi_amount (the (pending_of l key)))))"
proof -
  have le: "(a, 0) \<le> (a + 1, 0 :: u256)" using next_account(1) [OF a] by (simp add: less_eq_prod_def)
  let ?p = "table_part (pending_of l) (a, 0) (a + 1, 0)"
  have run: "account_receivable l a oc =
      Some (\<Sum>(key, info)\<leftarrow>filter (\<lambda>(key, info). oc \<longrightarrow> block_confirmed l (snd key)) ?p. pi_amount info)"
    unfolding account_receivable_def Let_def table_from_split [OF le] iter_between_append
    by (simp add: fold_receivable)
  have p: "?p = map (\<lambda>key. (key, the (pending_of l key)))
      (filter (\<lambda>key. fst key = a) (sorted_list_of_set (dom (pending_of l))))"
    unfolding table_part_def account_keys [OF a] ..
  have "(\<Sum>(key, info)\<leftarrow>filter (\<lambda>(key, info). oc \<longrightarrow> block_confirmed l (snd key)) ?p. pi_amount info) =
      (\<Sum>key\<leftarrow>filter (\<lambda>key. oc \<longrightarrow> block_confirmed l (snd key))
        (filter (\<lambda>key. fst key = a) (sorted_list_of_set (dom (pending_of l)))). pi_amount (the (pending_of l key)))"
    unfolding p by (simp add: filter_map comp_def)
  also have "\<dots> = (\<Sum>key\<in>receivable l a oc. pi_amount (the (pending_of l key)))"
    using fin by (subst sum_list_distinct_conv_sum_set) (auto simp: receivable_def intro!: sum.cong)
  finally show ?thesis unfolding run by (simp add: of_nat_sum)
qed

text \<open>The last account has no next account: the end of its range is the start of the table.\<close>

lemma iter_between_behind:
  "length ys < length zs \<Longrightarrow> iter_between ys zs = None"
  by (induction ys) (auto simp: iter_between.simps)

lemma account_receivable_last:
  assumes fin: "finite (dom (pending_of l))"
  shows "account_receivable l (- 1) oc =
    (if \<exists>key \<in> dom (pending_of l). fst key \<noteq> - 1 then None else Some 0)"
proof -
  let ?t = "sorted_list_of_set (dom (pending_of l))"
  have top: "- 1 \<le> x \<longleftrightarrow> x = (- 1 :: account)" for x by (metis order_antisym order_refl word_order.extremum)
  have from0: "table_from (pending_of l) (0, 0) = map (\<lambda>key. (key, the (pending_of l key))) ?t"
    by (simp add: table_from_def less_eq_prod_def)
  have from1: "table_from (pending_of l) (- 1, 0) =
      map (\<lambda>key. (key, the (pending_of l key))) (filter (\<lambda>key. fst key = - 1) ?t)"
    unfolding table_from_def
    by (intro arg_cong [where f = "map _"] filter_cong) (auto simp: less_eq_prod_def top)
  show ?thesis
  proof (cases "\<exists>key \<in> dom (pending_of l). fst key \<noteq> - 1")
    case True
    then obtain key where "key \<in> set ?t" "fst key \<noteq> - 1" using fin by auto
    then have "length (filter (\<lambda>key. fst key = - 1) ?t) < length ?t" by (rule length_filter_less)
    with True show ?thesis
      by (simp add: account_receivable_def from0 from1 iter_between_behind)
  next
    case False
    then have "filter (\<lambda>key. fst key = - 1) ?t = ?t" using fin by (auto simp: filter_id_conv)
    with False show ?thesis
      by (simp add: account_receivable_def from0 from1 iter_between.simps)
  qed
qed

section \<open>Cemented frontiers\<close>

text \<open>The frontier of a confirmation height is the block of the account at that height.\<close>

definition heights_ok :: "ledger \<Rightarrow> bool" where
  "heights_ok l \<longleftrightarrow> finite (dom (heights_of l)) \<and>
     (\<forall>a i. heights_of l a = Some i \<longrightarrow>
       (\<exists>e. blocks_of l (ch_frontier i) = Some e \<and> account_calculated e = a \<and> sb_height (snd e) = ch_height i))"

lemma heights_ok_view:
  assumes "heights_ok l" and ht: "heights_of l' = heights_of l"
    and bv: "\<And>x. confirmed_at (blocks_of l) (heights_of l) x \<Longrightarrow> bview (blocks_of l') x = bview (blocks_of l) x"
  shows "heights_ok l'"
  unfolding heights_ok_def ht
proof (intro conjI allI impI)
  show "finite (dom (heights_of l))" using assms(1) by (simp add: heights_ok_def)
  fix a i assume i: "heights_of l a = Some i"
  with assms(1) obtain e where e: "blocks_of l (ch_frontier i) = Some e" "account_calculated e = a"
    "sb_height (snd e) = ch_height i" by (metis heights_ok_def)
  then have "confirmed_at (blocks_of l) (heights_of l) (ch_frontier i)"
    using i by (simp add: confirmed_at_def conf_at_def)
  from bv [OF this] e(1) obtain e' where e': "blocks_of l' (ch_frontier i) = Some e'" "entry_view e' = entry_view e"
    by (auto simp: bview_apply)
  note v = entry_view_eq [OF e'(2)]
  show "\<exists>e. blocks_of l' (ch_frontier i) = Some e \<and> account_calculated e = a \<and> sb_height (snd e) = ch_height i"
    using e'(1) v e by auto
qed

lemma cement_one_heights_ok:
  assumes "heights_ok l" and w: "write_ok c k l p"
  shows "heights_ok (cement_one l p)"
proof (cases "conf_at (heights_of l) (chd_account p) < chd_height p")
  case True
  obtain e where e: "blocks_of l (chd_hash p) = Some e" "account_calculated e = chd_account p"
    "sb_height (snd e) = chd_height p" using w by (auto simp: write_ok_def split: option.splits)
  have st: "blocks_of (cement_one l p) = blocks_of l" "heights_of (cement_one l p) =
      (heights_of l)(chd_account p \<mapsto> \<lparr>ch_height = chd_height p, ch_frontier = chd_hash p\<rparr>)"
    using True by (simp_all add: cement_one_def conf_get store_confirmation_height_put_def
        cache_cemented_count_add_def)
  show ?thesis using assms(1) e unfolding heights_ok_def st by auto
qed (use assms in \<open>simp add: cement_one_def conf_get\<close>)

lemma cement_heights_ok:
  assumes "heights_ok l" and "writes_ok c k l ps"
  shows "heights_ok (fold (\<lambda>p l. cement_one l p) ps l)"
  using assms
proof (induction ps arbitrary: l)
  case (Cons p ps)
  then show ?case using cement_one_heights_ok [of l c k p] by simp
qed simp

lemma step_heights_ok:
  assumes step: "ledger_step c k l l'" and inv: "ledger_inv c k rk rp T l" and k: "constants_ok k"
    and ok: "heights_ok l"
  shows "heights_ok l'"
proof -
  have bv: "bview (blocks_of l') x = bview (blocks_of l) x" if "confirmed_at (blocks_of l) (heights_of l) x" for x
    using step_confirmed [OF step inv k that] by blast
  from step show ?thesis
  proof cases
    case 1: (step_process p b now v)
    have "heights_of l' = heights_of l"
    proof (cases "p_code p = pr_progress")
      case True
      from process_accepted [OF inv 1(2) [rule_format, OF True] k 1(3) True] 1(1) show ?thesis
        by (metis accepted_def growsD(7))
    qed (use process_rejected [OF 1(3)] 1(1) in simp)
    from heights_ok_view [OF ok this bv] show ?thesis .
  next
    case 2: (step_rollback h n clock ls err ls')
    from rollback_inv(5) [OF inv 2] have "heights_of l' = heights_of l" by (auto simp: listed_def)
    from heights_ok_view [OF ok this bv] show ?thesis .
  next
    case 3: (step_cement ps cache bs)
    from cement_ok(2) [OF inv 3] cement_heights_ok [OF ok 3(1)] show ?thesis by simp
  qed
qed

lemma reachable_heights_ok:
  assumes "reachable c k l" and "constants_ok k"
  shows "heights_ok l"
  using assms(1)
proof induction
  case (reach_start now l)
  show ?case
    unfolding heights_ok_def init_tables [OF reach_start]
    using genesis_entry_facts [OF reach_start(1), of now] by auto
next
  case (reach_step l l')
  from reachable_inv [OF reach_step(1) assms(2)] obtain rk rp where "ledger_inv c k rk rp max_supply l" .
  from step_heights_ok [OF reach_step(2) this assms(2) reach_step(3)] show ?case .
qed

section \<open>The receive block of a send block\<close>

definition source_of :: "block_entry \<Rightarrow> block_hash" where
  "source_of e =
     (case fst e of
        State b \<Rightarrow> if bd_is_receive (sb_details (snd e)) then state_link (state_h b) else block_source (State b)
      | b \<Rightarrow> block_source b)"

lemma find_receive_block_Some:
  "find_receive_block (Suc n) l (Some e) s =
     (if s = source_of e then Done (Some e)
      else find_receive_block n l (blocks_of l (prev_of e)) s)"
  by (simp add: source_of_def Let_def block_get_def split: block.splits)

lemma find_receive_found:
  assumes inv: "ledger_inv c k rk rp T l"
  shows "blocks_of l x = Some e \<Longrightarrow> \<exists>n r. (\<forall>m \<ge> n. find_receive_block m l (Some e) s = Done r) \<and>
    (case r of
       None \<Rightarrow> \<forall>y f. blocks_of l y = Some f \<longrightarrow> account_calculated f = account_calculated e \<longrightarrow>
         sb_height (snd f) \<le> sb_height (snd e) \<longrightarrow> source_of f \<noteq> s
     | Some f \<Rightarrow> \<exists>y. blocks_of l y = Some f \<and> account_calculated f = account_calculated e \<and>
         sb_height (snd f) \<le> sb_height (snd e) \<and> source_of f = s)"
proof (induction "unat (sb_height (snd e))" arbitrary: x e rule: less_induct)
  case less
  have more: "\<forall>m \<ge> Suc n. find_receive_block m l (Some e) s = Done r"
    if "\<forall>m \<ge> n. find_receive_block m l (blocks_of l (prev_of e)) s = Done r" "s \<noteq> source_of e" for n r
  proof (intro allI impI)
    fix m assume "Suc n \<le> m"
    then obtain m' where "m = Suc m'" "n \<le> m'" by (cases m) auto
    with that show "find_receive_block m l (Some e) s = Done r" by (simp only: find_receive_block_Some) simp
  qed
  have self: "y = x" if "blocks_of l y = Some f" "account_calculated f = account_calculated e"
    "unat (sb_height (snd f)) = unat (sb_height (snd e))" for y f
    using height_unique [OF inv that(1) less.prems that(2,3)] .
  show ?case
  proof (cases "s = source_of e")
    case True
    have "\<forall>m \<ge> 1. find_receive_block m l (Some e) s = Done (Some e)"
    proof (intro allI impI)
      fix m :: nat assume "1 \<le> m"
      then obtain m' where "m = Suc m'" by (cases m) auto
      with True show "find_receive_block m l (Some e) s = Done (Some e)" by (simp only: find_receive_block_Some) simp
    qed
    with True less.prems show ?thesis by (intro exI [of _ 1] exI [of _ "Some e"]) auto
  next
    case ns: False
    show ?thesis
    proof (cases "prev_of e = 0")
      case True
      then have h: "sb_height (snd e) = 1" using block_link [OF inv less.prems] by (simp add: link_ok_def)
      have "blocks_of l (prev_of e) = None" using True links_zero [OF ledger_invD(3) [OF inv]] by simp
      then have "\<forall>m \<ge> 1. find_receive_block m l (blocks_of l (prev_of e)) s = Done None"
        by (metis One_nat_def Suc_le_D find_receive_block.simps(2))
      from more [OF this ns] have run: "\<forall>m \<ge> Suc 1. find_receive_block m l (Some e) s = Done None" .
      have "source_of f \<noteq> s" if "blocks_of l y = Some f" "account_calculated f = account_calculated e"
        "sb_height (snd f) \<le> sb_height (snd e)" for y f
      proof -
        have "unat (sb_height (snd f)) = unat (sb_height (snd e))"
          using height_pos [OF inv that(1)] that(3) h by (simp add: word_le_nat_alt)
        with self that less.prems ns show ?thesis by auto
      qed
      with run show ?thesis by (intro exI [of _ "Suc 1"] exI [of _ None]) auto
    next
      case False
      then obtain p where p: "blocks_of l (prev_of e) = Some p" "account_calculated p = account_calculated e"
        "unat (sb_height (snd e)) = Suc (unat (sb_height (snd p)))"
        using block_link [OF inv less.prems] by (auto simp: link_ok_def follows_def)
      have lt: "unat (sb_height (snd p)) < unat (sb_height (snd e))" using p(3) by simp
      from less.hyps [OF lt p(1)] obtain n r where
        n: "\<forall>m \<ge> n. find_receive_block m l (blocks_of l (prev_of e)) s = Done r" and
        r: "case r of
            None \<Rightarrow> \<forall>y f. blocks_of l y = Some f \<longrightarrow> account_calculated f = account_calculated p \<longrightarrow>
              sb_height (snd f) \<le> sb_height (snd p) \<longrightarrow> source_of f \<noteq> s
          | Some f \<Rightarrow> \<exists>y. blocks_of l y = Some f \<and> account_calculated f = account_calculated p \<and>
              sb_height (snd f) \<le> sb_height (snd p) \<and> source_of f = s"
        unfolding p(1) by blast
      have cases: "y = x \<or> sb_height (snd f) \<le> sb_height (snd p)"
        if "blocks_of l y = Some f" "account_calculated f = account_calculated e"
          "sb_height (snd f) \<le> sb_height (snd e)" for y f
        using self [OF that(1,2)] that(3) p(3) by (auto simp: word_le_nat_alt le_Suc_eq)
      have "case r of
          None \<Rightarrow> \<forall>y f. blocks_of l y = Some f \<longrightarrow> account_calculated f = account_calculated e \<longrightarrow>
            sb_height (snd f) \<le> sb_height (snd e) \<longrightarrow> source_of f \<noteq> s
        | Some f \<Rightarrow> \<exists>y. blocks_of l y = Some f \<and> account_calculated f = account_calculated e \<and>
            sb_height (snd f) \<le> sb_height (snd e) \<and> source_of f = s"
      proof (cases r)
        case None
        have "source_of f \<noteq> s" if "blocks_of l y = Some f" "account_calculated f = account_calculated e"
          "sb_height (snd f) \<le> sb_height (snd e)" for y f
          using cases [OF that] that(1,2) r None ns less.prems p(2) by auto
        with None show ?thesis by simp
      next
        case (Some f)
        have "sb_height (snd f) \<le> sb_height (snd e)" if "sb_height (snd f) \<le> sb_height (snd p)"
          using that p(3) by (simp add: word_le_nat_alt)
        with Some r p(2) show ?thesis by auto
      qed
      with more [OF n ns] show ?thesis by blast
    qed
  qed
qed

lemma genesis_stored:
  assumes "ledger_inv c k rk rp T l" and "genesis_block_ok c k"
  obtains e b where "blocks_of l (genesis_hash c k) = Some e" "fst e = Open b" "k_genesis k = Open b"
proof -
  from ledger_invD(12) [OF assms(1)] obtain e where
    "blocks_of l (genesis_hash c k) = Some e" "fst e = k_genesis k"
    by (auto simp: genesis_ok_def split: option.splits)
  moreover obtain b where "k_genesis k = Open b"
    using assms(2) by (cases "k_genesis k") (auto simp: genesis_block_ok_def)
  ultimately show thesis using that by simp
qed

lemma source_receives:
  assumes inv: "ledger_inv c k rk rp T l" and g: "genesis_block_ok c k"
    and f: "blocks_of l y = Some f" and s: "blocks_of l s \<noteq> None"
  shows "source_of f = s \<longleftrightarrow> receives_at (blocks_of l) (genesis_hash c k) y = Some s"
proof (cases "y = genesis_hash c k")
  case True
  from genesis_stored [OF inv g] obtain e b where "blocks_of l (genesis_hash c k) = Some e" "fst e = Open b"
    "k_genesis k = Open b" .
  then have "source_of f = block_account (k_genesis k)"
    using True f g by (simp add: source_of_def genesis_block_ok_def)
  moreover have "s \<noteq> block_account (k_genesis k)"
    using s block_link [OF inv] by (auto simp: link_ok_def reserved_hash_def)
  ultimately show ?thesis using True f by (simp add: receives_at_def)
next
  case False
  have "s \<noteq> 0" using s links_zero [OF ledger_invD(3) [OF inv]] by auto
  moreover from flow_okD [OF ledger_invD(8) [OF inv] f False] have "kind_ok k (blocks_of l) f"
    by (simp add: flow_ok_def)
  ultimately show ?thesis
    using False f
    by (auto simp: source_of_def receives_at_def entry_sends_def entry_receives_def kind_ok_def split: block.splits)
qed

lemma find_receive_correct:
  assumes inv: "ledger_inv c k rk rp T l" and ok: "heights_ok l" and g: "genesis_block_ok c k"
    and s: "blocks_of l s \<noteq> None"
  shows "\<exists>n r. (\<forall>m \<ge> n. find_receive_block_by_send_hash m l d s = Done r) \<and>
    (case r of
       Some f \<Rightarrow> \<exists>y. blocks_of l y = Some f \<and> account_calculated f = d \<and>
         receives_at (blocks_of l) (genesis_hash c k) y = Some s \<and> confirmed_at (blocks_of l) (heights_of l) y
     | None \<Rightarrow> \<forall>y. receives_at (blocks_of l) (genesis_hash c k) y = Some s \<longrightarrow> account_at (blocks_of l) y = Some d \<longrightarrow>
         \<not> confirmed_at (blocks_of l) (heights_of l) y)"
proof (cases "heights_of l d")
  case None
  have "\<not> confirmed_at (blocks_of l) (heights_of l) y" if "account_at (blocks_of l) y = Some d" for y
  proof
    assume "confirmed_at (blocks_of l) (heights_of l) y"
    with that None obtain f where f: "blocks_of l y = Some f" "sb_height (snd f) = 0"
      by (auto simp: account_at_def confirmed_at_def conf_at_def)
    with height_pos [OF inv f(1)] show False by simp
  qed
  with None show ?thesis
    by (intro exI [of _ 0] exI [of _ None])
      (simp add: find_receive_block_by_send_hash_def store_confirmation_height_get_def)
next
  case (Some i)
  with ok obtain e where e: "blocks_of l (ch_frontier i) = Some e" "account_calculated e = d"
    "sb_height (snd e) = ch_height i" by (metis heights_ok_def)
  have cf: "confirmed_at (blocks_of l) (heights_of l) y \<longleftrightarrow> sb_height (snd f) \<le> sb_height (snd e)"
    if "blocks_of l y = Some f" "account_calculated f = d" for y f
    using that Some e by (simp add: confirmed_at_def conf_at_def)
  from find_receive_found [OF inv e(1), of s] obtain n r where
    n: "\<forall>m \<ge> n. find_receive_block m l (Some e) s = Done r" and r: "case r of
       None \<Rightarrow> \<forall>y f. blocks_of l y = Some f \<longrightarrow> account_calculated f = account_calculated e \<longrightarrow>
         sb_height (snd f) \<le> sb_height (snd e) \<longrightarrow> source_of f \<noteq> s
     | Some f \<Rightarrow> \<exists>y. blocks_of l y = Some f \<and> account_calculated f = account_calculated e \<and>
         sb_height (snd f) \<le> sb_height (snd e) \<and> source_of f = s" by blast
  have run: "find_receive_block_by_send_hash m l d s = find_receive_block m l (Some e) s" for m
    using Some e(1) by (simp add: find_receive_block_by_send_hash_def store_confirmation_height_get_def block_get_def)
  have "case r of
       Some f \<Rightarrow> \<exists>y. blocks_of l y = Some f \<and> account_calculated f = d \<and>
         receives_at (blocks_of l) (genesis_hash c k) y = Some s \<and> confirmed_at (blocks_of l) (heights_of l) y
     | None \<Rightarrow> \<forall>y. receives_at (blocks_of l) (genesis_hash c k) y = Some s \<longrightarrow> account_at (blocks_of l) y = Some d \<longrightarrow>
         \<not> confirmed_at (blocks_of l) (heights_of l) y"
  proof (cases r)
    case None
    have "\<not> confirmed_at (blocks_of l) (heights_of l) y"
      if "receives_at (blocks_of l) (genesis_hash c k) y = Some s" "account_at (blocks_of l) y = Some d" for y
    proof -
      from that(2) obtain f where f: "blocks_of l y = Some f" "account_calculated f = d"
        by (auto simp: account_at_def)
      have "source_of f = s" using source_receives [OF inv g f(1) s] that(1) by simp
      with r None f e(2) cf [OF f] show ?thesis by auto
    qed
    with None show ?thesis by simp
  next
    case f: (Some f)
    with r e(2) obtain y where y: "blocks_of l y = Some f" "account_calculated f = d"
      "sb_height (snd f) \<le> sb_height (snd e)" "source_of f = s" by auto
    with cf [OF y(1,2)] source_receives [OF inv g y(1) s] f show ?thesis by auto
  qed
  with n show ?thesis unfolding run by blast
qed

section \<open>Dependencies\<close>

lemma confirmed_prev:
  assumes inv: "ledger_inv c k rk rp T l" and e: "blocks_of l h = Some e"
    and "confirmed_at (blocks_of l) (heights_of l) h"
  shows "prev_of e = 0 \<or> confirmed_at (blocks_of l) (heights_of l) (prev_of e)"
proof (cases "prev_of e = 0")
  case False
  then obtain p where "blocks_of l (prev_of e) = Some p" "account_calculated p = account_calculated e"
    "unat (sb_height (snd e)) = Suc (unat (sb_height (snd p)))"
    using block_link [OF inv e] by (auto simp: link_ok_def follows_def)
  with assms(3) e show ?thesis by (simp add: confirmed_at_def word_le_nat_alt)
qed simp

lemma confirmed_dependents:
  assumes inv: "ledger_inv c k rk rp T l" and g: "genesis_block_ok c k"
    and e: "blocks_of l h = Some e" and cf: "confirmed_at (blocks_of l) (heights_of l) h"
    and bc: "\<And>x. block_confirmed l x = confirmed_at (blocks_of l) (heights_of l) x"
  shows "dependents_confirmed k l (fst e) (Some (snd e)) = Some True"
proof -
  have prev: "prev_of e = 0 \<or> confirmed_at (blocks_of l) (heights_of l) (prev_of e)"
    by (rule confirmed_prev [OF inv e cf])
  have src: "confirmed_at (blocks_of l) (heights_of l) s" if "h \<noteq> genesis_hash c k" "entry_sends e = None"
    "entry_receives e = Some s" for s
  proof -
    have "receives_at (blocks_of l) (genesis_hash c k) h = Some s" using that e by (simp add: receives_at_def)
    with ledger_invD(11) [OF inv] cf show ?thesis by (simp add: conf_ok_def)
  qed
  show ?thesis
  proof (cases "h = genesis_hash c k")
    case True
    from genesis_stored [OF inv g] obtain e' b where "blocks_of l (genesis_hash c k) = Some e'"
      "fst e' = Open b" "k_genesis k = Open b" .
    with True e g show ?thesis by (simp add: dependents_confirmed_def genesis_block_ok_def)
  next
    case False
    from flow_okD [OF ledger_invD(8) [OF inv] e False] have kd: "kind_ok k (blocks_of l) e"
      by (simp add: flow_ok_def)
    show ?thesis
      using prev src [OF False] kd
      by (cases "fst e")
        (auto simp: dependents_confirmed_def bc entry_sends_def entry_receives_def kind_ok_def Let_def
          ledger_is_send_def)
  qed
qed

end
