(* ===== verification/Pruning_Correct.thy ===== *)
theory Pruning_Correct
  imports Ledger_Chain Ledger_Init
begin

text \<open>
  \<^verbatim>\<open>ledger::pruning_action\<close> moves a block and the blocks below it, down to the first block of the
  account or to the genesis block, from the block table to the pruned table.
\<close>

declare split_paired_All [simp del] split_paired_Ex [simp del]

text \<open>The blocks that are pruned with a block \<open>e\<close>.\<close>

definition chain_below :: "block_table \<Rightarrow> block_hash \<Rightarrow> block_entry \<Rightarrow> block_hash set" where
  "chain_below bs g e =
     {y. y \<noteq> g \<and> (\<exists>f. bs y = Some f \<and> account_calculated f = account_calculated e \<and>
           sb_height (snd f) \<le> sb_height (snd e))}"

text \<open>A ledger whose blocks in a set \<open>P\<close> have been pruned.\<close>

definition pruned_ledger :: "ledger \<Rightarrow> block_hash set \<Rightarrow> ledger \<Rightarrow> bool" where
  "pruned_ledger l0 P l \<longleftrightarrow>
     blocks_of l = (\<lambda>y. if y \<in> P then None else blocks_of l0 y) \<and>
     pruned_of l = (\<lambda>y. if y \<in> P then Some () else None) \<and>
     accounts_of l = accounts_of l0 \<and> pending_of l = pending_of l0 \<and> frontiers_of l = frontiers_of l0 \<and>
     heights_of l = heights_of l0 \<and> weights_of l = weights_of l0 \<and>
     lc_block_count (l_cache l) = lc_block_count (l_cache l0) \<and>
     lc_account_count (l_cache l) = lc_account_count (l_cache l0)"

lemma pruned_ledger_refl: "unpruned l \<Longrightarrow> pruned_ledger l {} l"
  by (simp add: pruned_ledger_def unpruned_def)

lemma pruned_ledger_step:
  assumes "pruned_ledger l0 P l" and "blocks_of l x = Some e"
  obtains l1 where "store_block_del l x = Some l1"
    "pruned_ledger l0 (insert x P) ((store_pruned_put l1 x)\<lparr>l_cache := (l_cache (store_pruned_put l1 x))
       \<lparr>lc_pruned_count := lc_pruned_count (l_cache (store_pruned_put l1 x)) + 1\<rparr>\<rparr>)"
proof -
  let ?l1 = "l\<lparr>l_store := (l_store l)\<lparr>st_blocks := (blocks_of l)(x := None)\<rparr>\<rparr>"
  have "store_block_del l x = Some ?l1" using assms(2) by (simp add: store_block_del_def block_del_def)
  moreover have "pruned_ledger l0 (insert x P) ((store_pruned_put ?l1 x)\<lparr>l_cache := (l_cache (store_pruned_put ?l1 x))
       \<lparr>lc_pruned_count := lc_pruned_count (l_cache (store_pruned_put ?l1 x)) + 1\<rparr>\<rparr>)"
    using assms(1) by (auto simp: pruned_ledger_def store_pruned_put_def)
  ultimately show thesis by (rule that)
qed

lemma chain_below_prev:
  assumes inv: "ledger_inv c k rk rp T l" and e: "blocks_of l x = Some e" and p: "blocks_of l (prev_of e) = Some p"
    and "prev_of e \<noteq> 0" and "x \<noteq> g"
  shows "chain_below (blocks_of l) g e = insert x (chain_below (blocks_of l) g p)"
    and "x \<notin> chain_below (blocks_of l) g p"
proof -
  have f: "account_calculated p = account_calculated e"
    "unat (sb_height (snd e)) = Suc (unat (sb_height (snd p)))"
    using block_link [OF inv e] p assms(4) by (auto simp: link_ok_def follows_def)
  have "y = x \<or> sb_height (snd q) \<le> sb_height (snd p)"
    if "blocks_of l y = Some q" "account_calculated q = account_calculated e"
      "sb_height (snd q) \<le> sb_height (snd e)" for y q
    using height_unique [OF inv that(1) e that(2)] that(3) f(2) by (auto simp: word_le_nat_alt le_Suc_eq)
  moreover have "sb_height (snd q) \<le> sb_height (snd e)" if "sb_height (snd q) \<le> sb_height (snd p)" for q :: block_entry
    using that f(2) by (simp add: word_le_nat_alt)
  ultimately show "chain_below (blocks_of l) g e = insert x (chain_below (blocks_of l) g p)"
    using e f(1) assms(5) by (auto simp: chain_below_def)
  show "x \<notin> chain_below (blocks_of l) g p" using e f by (auto simp: chain_below_def word_le_nat_alt)
qed

lemma chain_below_first:
  assumes inv: "ledger_inv c k rk rp T l" and e: "blocks_of l x = Some e" and "prev_of e = 0"
  shows "chain_below (blocks_of l) g e = {x} - {g}"
proof -
  have h: "sb_height (snd e) = 1" using block_link [OF inv e] assms(3) by (simp add: link_ok_def)
  have u: "y = x" if "blocks_of l y = Some q" "account_calculated q = account_calculated e"
    "sb_height (snd q) \<le> sb_height (snd e)" for y q
  proof (rule height_unique [OF inv that(1) e that(2)])
    have "unat (sb_height (snd q)) \<le> 1" using that(3) unfolding h word_le_nat_alt by simp
    with height_pos [OF inv that(1)] show "unat (sb_height (snd q)) = unat (sb_height (snd e))" by (simp add: h)
  qed
  show ?thesis unfolding chain_below_def using u e order_refl by blast
qed

lemma finite_chain_below: "finite (dom bs) \<Longrightarrow> finite (chain_below bs g e)"
  by (rule finite_subset [of _ "dom bs"]) (auto simp: chain_below_def)

lemma pruning_stops:
  assumes "h = 0 \<or> h = genesis_hash c k" and "0 < m"
  shows "pruning_action m c k batch l h cnt = Done (cnt, l)"
  using assms by (cases m) (auto simp: genesis_hash_def)

lemma pruning_loop:
  assumes inv: "ledger_inv c k rk rp T l0" and b: "batch \<noteq> 0"
  shows "blocks_of l0 x = Some e \<Longrightarrow> pruned_ledger l0 P l \<Longrightarrow> (\<forall>y\<in>P. rk x < rk y) \<Longrightarrow>
    \<exists>n l'. (\<forall>m \<ge> n. pruning_action m c k batch l x cnt =
        Done (cnt + of_nat (card (chain_below (blocks_of l0) (genesis_hash c k) e)), l')) \<and>
      pruned_ledger l0 (P \<union> chain_below (blocks_of l0) (genesis_hash c k) e) l'"
proof (induction "unat (sb_height (snd e))" arbitrary: x e P l cnt rule: less_induct)
  case less
  let ?g = "genesis_hash c k"
  have x0: "x \<noteq> 0" using block_link [OF inv less.prems(1)] by (simp add: link_ok_def)
  have fin: "finite (dom (blocks_of l0))" using ledger_invD(1) [OF inv] by (simp add: tables_finite_def)
  show ?case
  proof (cases "x = ?g")
    case True
    then have "prev_of e = 0"
      using ledger_invD(12) [OF inv] less.prems(1) by (auto simp: genesis_ok_def)
    from chain_below_first [OF inv less.prems(1) this] True
    have "chain_below (blocks_of l0) ?g e = {}" by simp
    with True less.prems(2) show ?thesis
      by (intro exI [of _ 1] exI [of _ l]) (simp add: pruning_stops)
  next
    case False
    have "x \<notin> P" using less.prems(3) by blast
    with less.prems(1,2) have xe: "blocks_of l x = Some e" by (simp add: pruned_ledger_def)
    from pruned_ledger_step [OF less.prems(2) xe] obtain l1 where l1: "store_block_del l x = Some l1"
      and p1: "pruned_ledger l0 (insert x P) ((store_pruned_put l1 x)\<lparr>l_cache := (l_cache (store_pruned_put l1 x))
       \<lparr>lc_pruned_count := lc_pruned_count (l_cache (store_pruned_put l1 x)) + 1\<rparr>\<rparr>)" .
    let ?l1 = "(store_pruned_put l1 x)\<lparr>l_cache := (l_cache (store_pruned_put l1 x))
       \<lparr>lc_pruned_count := lc_pruned_count (l_cache (store_pruned_put l1 x)) + 1\<rparr>\<rparr>"
    have run: "pruning_action (Suc m) c k batch l x cnt = pruning_action m c k batch ?l1 (prev_of e) (cnt + 1)" for m
      using x0 False xe l1 b by (simp add: genesis_hash_def block_get_def Let_def)
    show ?thesis
    proof (cases "prev_of e = 0")
      case True
      from chain_below_first [OF inv less.prems(1) True] False have cb: "chain_below (blocks_of l0) ?g e = {x}"
        by auto
      have "pruning_action m c k batch l x cnt = Done (cnt + 1, ?l1)" if "2 \<le> m" for m
      proof -
        obtain m' where "m = Suc m'" "0 < m'" using \<open>2 \<le> m\<close> by (cases m) auto
        with run True show ?thesis by (simp add: pruning_stops del: pruning_action.simps)
      qed
      then show ?thesis using p1 unfolding cb by (intro exI [of _ 2] exI [of _ ?l1]) simp
    next
      case pn: False
      then obtain p where p: "blocks_of l0 (prev_of e) = Some p" "rk (prev_of e) < rk x"
        "unat (sb_height (snd p)) < unat (sb_height (snd e))"
        using block_link [OF inv less.prems(1)] by (auto simp: link_ok_def follows_def)
      have "\<forall>y\<in>insert x P. rk (prev_of e) < rk y" using p(2) less.prems(3) by auto
      from less.hyps [OF p(3,1) p1 this, of "cnt + 1"] obtain n l' where
        n: "\<forall>m \<ge> n. pruning_action m c k batch ?l1 (prev_of e) (cnt + 1) =
          Done (cnt + 1 + of_nat (card (chain_below (blocks_of l0) ?g p)), l')"
        and l': "pruned_ledger l0 (insert x P \<union> chain_below (blocks_of l0) ?g p) l'" by blast
      note cb = chain_below_prev [OF inv less.prems(1) p(1) pn False]
      have "card (chain_below (blocks_of l0) ?g e) = Suc (card (chain_below (blocks_of l0) ?g p))"
        unfolding cb(1) using cb(2) finite_chain_below [OF fin] by simp
      moreover have "pruning_action m c k batch l x cnt =
          Done (cnt + 1 + of_nat (card (chain_below (blocks_of l0) ?g p)), l')" if "Suc n \<le> m" for m
      proof -
        obtain m' where "m = Suc m'" "n \<le> m'" using \<open>Suc n \<le> m\<close> by (cases m) auto
        with run n show ?thesis by simp
      qed
      ultimately show ?thesis using l' unfolding cb(1)
        by (intro exI [of _ "Suc n"] exI [of _ l']) (simp add: algebra_simps)
    qed
  qed
qed

lemma pruned_exists:
  assumes "pruned_ledger l0 P l" and "unpruned l0" and "P \<subseteq> dom (blocks_of l0)"
  shows "block_or_pruned_exists l x = block_or_pruned_exists l0 x"
  using assms
  by (auto simp: block_or_pruned_exists_def pruned_ledger_def unpruned_def store_pruned_exists_def block_exists_def)

end
