(* ===== verification/Bank.thy ===== *)
theory Bank
  imports Ledger_Reach
begin

text \<open>
  What the ledger promises, as a bank: accounts with balances, and amounts in transit from one
  account to another.  Processing a block is one transaction of the bank or none.
\<close>

declare split_paired_All [simp del] split_paired_Ex [simp del]

section \<open>A bank\<close>

record bank =
  bank_balance :: "account \<Rightarrow> nat"
  bank_transit :: "pending_key \<rightharpoonup> nat"

datatype transaction =
  Pay account account block_hash nat
| Collect account block_hash
| Nothing

fun bank_apply :: "transaction \<Rightarrow> bank \<Rightarrow> bank option" where
  "bank_apply (Pay a d t n) b =
     (if n \<le> bank_balance b a \<and> bank_transit b (d, t) = None
      then Some (b\<lparr>bank_balance := (bank_balance b)(a := bank_balance b a - n),
                   bank_transit := (bank_transit b)((d, t) \<mapsto> n)\<rparr>)
      else None)"
| "bank_apply (Collect a t) b =
     (case bank_transit b (a, t) of
        None \<Rightarrow> None
      | Some n \<Rightarrow> Some (b\<lparr>bank_balance := (bank_balance b)(a := bank_balance b a + n),
                          bank_transit := (bank_transit b)((a, t) := None)\<rparr>))"
| "bank_apply Nothing b = Some b"

inductive bank_step :: "bank \<Rightarrow> bank \<Rightarrow> bool" where
  "bank_apply t b = Some b' \<Longrightarrow> bank_step b b'"

lemma bank_eqI:
  "bank_balance b' = f \<Longrightarrow> bank_transit b' = m \<Longrightarrow> (b :: bank)\<lparr>bank_balance := f, bank_transit := m\<rparr> = b'"
  by simp

section \<open>Simulation\<close>

locale simulation =
  fixes step :: "'s \<Rightarrow> 's \<Rightarrow> bool" and spec :: "'a \<Rightarrow> 'a \<Rightarrow> bool" and abs :: "'s \<Rightarrow> 'a"
    and inv :: "'s \<Rightarrow> bool"
  assumes inv_step: "step s s' \<Longrightarrow> inv s \<Longrightarrow> inv s'"
    and sim_step: "step s s' \<Longrightarrow> inv s \<Longrightarrow> spec (abs s) (abs s') \<or> abs s' = abs s"
begin

lemma inv_steps: "step\<^sup>*\<^sup>* s s' \<Longrightarrow> inv s \<Longrightarrow> inv s'"
  by (induction rule: rtranclp_induct) (auto intro: inv_step)

lemma sim_steps: "step\<^sup>*\<^sup>* s s' \<Longrightarrow> inv s \<Longrightarrow> spec\<^sup>*\<^sup>* (abs s) (abs s')"
proof (induction rule: rtranclp_induct)
  case (step y z)
  from step have "inv y" by (auto intro: inv_steps)
  with sim_step [OF step(2)] step(3,4) show ?case by (metis rtranclp.rtrancl_into_rtrancl)
qed simp

end

section \<open>The bank of a ledger\<close>

definition bank_of :: "ledger \<Rightarrow> bank" where
  "bank_of l =
     \<lparr>bank_balance = \<lambda>a. unat (ai_balance (info_of l a)),
      bank_transit = \<lambda>key. map_option (\<lambda>i. unat (pi_amount i)) (pending_of l key)\<rparr>"

text \<open>The transaction of a stored block; \<open>n\<close> is the balance before it.\<close>

definition transaction_of :: "block_hash \<Rightarrow> amount \<Rightarrow> block_entry \<Rightarrow> transaction" where
  "transaction_of h n e =
     (case entry_sends e of
        Some d \<Rightarrow> Pay (account_calculated e) d h (unat n - unat (balance_calculated e))
      | None \<Rightarrow>
          (case entry_receives e of Some s \<Rightarrow> Collect (account_calculated e) s | None \<Rightarrow> Nothing))"

lemma grows_transaction:
  assumes gr: "grows k l l' h e a new" and hd: "heads_ok rp (blocks_of l) (accounts_of l)"
    and ph: "\<And>d. pending_of l (d, h) = None"
  shows "bank_apply (transaction_of h (ai_balance (info_of l a)) e) (bank_of l) = Some (bank_of l')"
proof -
  note d = growsD [OF gr]
  have "blocks_of l 0 = None" using d(1) by (simp add: grow_at_def)
  from prev_balance_info [OF hd this d(3)]
  have pb: "prev_balance (blocks_of l) e = ai_balance (info_of l a)" .
  have a: "account_calculated e = a" and nb: "balance_calculated e = ai_balance new"
    using d(3) by (simp_all add: joins_def)
  have bal: "bank_balance (bank_of l') = (bank_balance (bank_of l))(a := unat (ai_balance new))"
    by (auto simp: bank_of_def info_of_def d(4))
  have tr: "bank_transit (bank_of l') = (\<lambda>key. map_option (\<lambda>i. unat (pi_amount i)) (pending_of l' key))"
    by (simp add: bank_of_def)
  have ba: "bank_balance (bank_of l) a = unat (ai_balance (info_of l a))" by (simp add: bank_of_def)
  have m: "moves k (blocks_of l) (pending_of l) h e (pending_of l')" by (rule d(5))
  show ?thesis
  proof (cases "entry_sends e")
    case (Some x)
    with m have le: "ai_balance new \<le> ai_balance (info_of l a)" and pend: "pending_of l' = (pending_of l)((x, h) \<mapsto>
        \<lparr>pi_source = a, pi_amount = ai_balance (info_of l a) - ai_balance new, pi_epoch = entry_epoch e\<rparr>)"
      by (simp_all add: moves_def pb a nb)
    have am: "unat (ai_balance (info_of l a) - ai_balance new) = unat (ai_balance (info_of l a)) - unat (ai_balance new)"
      using le by (rule unat_sub)
    have t: "bank_transit (bank_of l') = (bank_transit (bank_of l))((x, h) \<mapsto>
        unat (ai_balance (info_of l a)) - unat (ai_balance new))"
      unfolding tr pend by (auto simp: bank_of_def am)
    have "bank_transit (bank_of l) (x, h) = None" by (simp add: bank_of_def ph)
    then show ?thesis
      using bank_eqI [OF bal t, of "bank_of l"] Some le by (simp add: transaction_of_def a nb ba word_le_nat_alt)
  next
    case None
    show ?thesis
    proof (cases "entry_receives e")
      case s: (Some s)
      with m None have le: "ai_balance (info_of l a) \<le> ai_balance new"
        and pend: "pending_of l' = (pending_of l)((a, s) := None)"
        "map_option (\<lambda>i. unat (pi_amount i)) (pending_of l (a, s)) =
          Some (unat (ai_balance new - ai_balance (info_of l a)))"
        by (simp_all add: moves_def pb a nb)
      have am: "unat (ai_balance new - ai_balance (info_of l a)) = unat (ai_balance new) - unat (ai_balance (info_of l a))"
        using le by (rule unat_sub)
      have t: "bank_transit (bank_of l') = (bank_transit (bank_of l))((a, s) := None)"
        unfolding tr pend(1) by (auto simp: bank_of_def)
      have "bank_transit (bank_of l) (a, s) = Some (unat (ai_balance new) - unat (ai_balance (info_of l a)))"
        using pend(2) by (simp add: bank_of_def am)
      then show ?thesis
        using bank_eqI [OF bal t, of "bank_of l"] None s le by (simp add: transaction_of_def a ba word_le_nat_alt)
    next
      case r: None
      with m None have "ai_balance new = ai_balance (info_of l a)" "pending_of l' = pending_of l"
        by (simp_all add: moves_def pb nb)
      then have "bank_balance (bank_of l') = bank_balance (bank_of l)"
        "bank_transit (bank_of l') = bank_transit (bank_of l)"
        using bal ba by (auto simp: bank_of_def)
      then have "bank_of l' = bank_of l" by (simp add: bank.equality)
      then show ?thesis using None r by (simp add: transaction_of_def)
    qed
  qed
qed

lemma process_transaction:
  assumes inv: "ledger_inv c k rk rp T l" and adm: "admissible c k l b" and k: "constants_ok k"
    and run: "process c k now l b v = Some p" and pg: "p_code p = pr_progress"
  obtains e where "blocks_of (p_ledger p) (generate_hash c b) = Some e" "fst e = b"
    "bank_apply (transaction_of (generate_hash c b) (ai_balance (info_of l (account_calculated e))) e) (bank_of l) =
       Some (bank_of (p_ledger p))"
proof -
  from process_accepted [OF inv adm k run pg] obtain e a new where
    "accepted c k l (p_ledger p) (generate_hash c b) e a new" "fst e = b" .
  then have gr: "grows k l (p_ledger p) (generate_hash c b) e a new" and b: "fst e = b"
    by (simp_all add: accepted_def)
  note d = growsD [OF gr]
  have "pending_of l (x, generate_hash c b) = None" for x
    using pending_source_exists [OF ledger_invD(9) [OF inv], of x "generate_hash c b"] d(1)
    by (cases "pending_of l (x, generate_hash c b)") (auto simp: grow_at_def)
  from grows_transaction [OF gr ledger_invD(5) [OF inv] this]
  have "bank_apply (transaction_of (generate_hash c b) (ai_balance (info_of l a)) e) (bank_of l) =
      Some (bank_of (p_ledger p))" .
  moreover have "account_calculated e = a" using d(3) by (simp add: joins_def)
  moreover have "blocks_of (p_ledger p) (generate_hash c b) = Some e" using d(1,2) by (simp add: grow_apply)
  ultimately show thesis using that b by simp
qed

section \<open>Sequences of blocks\<close>

inductive process_step :: "crypto \<Rightarrow> ledger_constants \<Rightarrow> ledger \<Rightarrow> ledger \<Rightarrow> bool" for c k where
  "constants_ok k \<Longrightarrow> process c k now l b v = Some p \<Longrightarrow> (p_code p = pr_progress \<longrightarrow> admissible c k l b) \<Longrightarrow>
    process_step c k l (p_ledger p)"

interpretation ledger_bank: simulation "process_step c k" bank_step bank_of "sound c k" for c k
proof
  fix l l' assume step: "process_step c k l l'" and s: "sound c k l"
  from s obtain rk rp T where inv: "ledger_inv c k rk rp T l" by (auto simp: sound_def)
  from step obtain b now v p where p: "constants_ok k" "p_code p = pr_progress \<longrightarrow> admissible c k l b" "process c k now l b v = Some p"
    "l' = p_ledger p" by (blast elim: process_step.cases)
  from process_inv [OF inv p(2,1,3)] show "sound c k l'" unfolding sound_def p(4) by blast
  show "bank_step (bank_of l) (bank_of l') \<or> bank_of l' = bank_of l"
  proof (cases "p_code p = pr_progress")
    case True
    from process_transaction [OF inv p(2) [rule_format, OF True] p(1,3) True] show ?thesis unfolding p(4) by (metis bank_step.intros)
  next
    case False
    with process_rejected [OF p(3)] p(4) show ?thesis by simp
  qed
qed

end
