(* ===== verification/Ledger_Theorems.thy ===== *)
theory Ledger_Theorems
  imports Ledger_Sample Ledger_Total Ledger_Determined Ledger_Lookup Pruning_Correct Bank
begin

text \<open>
  What the invariant says about every ledger that a node reaches, and what rollback does to
  such a ledger.
\<close>

declare split_paired_All [simp del] split_paired_Ex [simp del]

section \<open>Balances\<close>

text \<open>
  C1: money is neither made nor lost.  In every ledger that a node reaches by processing,
  rolling back and cementing blocks, the balances of the accounts and the amounts that are
  sent and not yet received add up to the amount of the genesis block.  The blocks accepted on the way
  are \<open>admissible\<close>: their hashes are neither zero nor reserved, no account is at the last height, and no epoch block opens
  an account while it names a previous block, which the code does not check;
  confirmation heights are written as \<open>writes_ok\<close> says.
\<close>

theorem supply_conserved:
  assumes "reachable c k l" and "constants_ok k"
  shows "total_supply (accounts_of l) (pending_of l) = 2 ^ 128 - 1"
  using reachable_inv [OF assms] by (metis ledger_invD(13) max_supply_def)

theorem supply_conserved_witness:
  "total_supply (accounts_of sample_1) (pending_of sample_1) = 2 ^ 128 - 1 \<and>
   pending_of sample_1 (5, 105) = Some \<lparr>pi_source = 1, pi_amount = 10, pi_epoch = epoch_0\<rparr>"
  using supply_conserved [OF sample_reachable(2) sample_constants_ok]
  by (simp add: sample_1_tables)

text \<open>
  C3: the cached weight of a representative is the sum of the balances of the accounts that
  name it; the unsigned arithmetic of the cache never loses a carry.  The blocks accepted on the way
  are \<open>admissible\<close>: their hashes are neither zero nor reserved, no account is at the last height, and no epoch block opens
  an account while it names a previous block, which the code does not check;
  confirmation heights are written as \<open>writes_ok\<close> says.
\<close>

theorem weights_exact:
  assumes "reachable c k l" and "constants_ok k"
  shows "unat (representation_get (weights_of l) r) =
    map_total (\<lambda>i. if ai_representative i = r then unat (ai_balance i) else 0) (accounts_of l)"
proof -
  from reachable_inv [OF assms] obtain rk rp where inv: "ledger_inv c k rk rp max_supply l" .
  from weight_le_supply [OF ledger_invD(15) [OF inv], of "pending_of l"] ledger_invD(13,14) [OF inv] show ?thesis
    by (simp add: representation_get_def)
qed

theorem weights_exact_witness:
  "unat (representation_get (weights_of sample_2) 7) = 10"
  using weights_exact [OF sample_reachable(3) sample_constants_ok, of 7]
  by (simp add: sample_2_tables map_total_def)

text \<open>
  C2: every amount that is sent arrives once.  A send block of a reachable ledger either has an
  entry in the pending table, with its amount and sender, and no block receives it; or it has no
  entry and exactly one block receives it, a block of the destination account whose balance
  grows by the amount.  The blocks accepted on the way
  are \<open>admissible\<close>: their hashes are neither zero nor reserved, no account is at the last height, and no epoch block opens
  an account while it names a previous block, which the code does not check;
  confirmation heights are written as \<open>writes_ok\<close> says.
\<close>

theorem sent_amount_arrives_once:
  assumes "reachable c k l" and "constants_ok k"
    and "blocks_of l s = Some e" and "s \<noteq> genesis_hash c k" and "entry_sends e = Some d"
  shows "case pending_of l (d, s) of
      Some i \<Rightarrow> pi_source i = account_calculated e \<and> pi_amount i = sent_at (blocks_of l) s \<and>
        (\<forall>r. receives_at (blocks_of l) (genesis_hash c k) r \<noteq> Some s)
    | None \<Rightarrow> \<exists>!r. receives_at (blocks_of l) (genesis_hash c k) r = Some s \<and>
        (\<exists>f. blocks_of l r = Some f \<and> account_calculated f = d \<and>
           unat (balance_calculated f) =
             unat (prev_balance (blocks_of l) f) + unat (sent_at (blocks_of l) s))"
proof -
  from reachable_inv [OF assms(1,2)] obtain rk rp where inv: "ledger_inv c k rk rp max_supply l" .
  note v = ledger_invD [OF inv]
  show ?thesis
  proof (cases "pending_of l (d, s)")
    case (Some i)
    from pending_okD [OF v(9) this] assms(3) Some show ?thesis by (auto simp: account_at_def)
  next
    case None
    from flow_okD [OF v(8) assms(3,4)] None assms(5) obtain r where
      r: "receives_at (blocks_of l) (genesis_hash c k) r = Some s" "account_at (blocks_of l) r = Some d"
      by (auto simp: flow_ok_def received_def)
    then obtain f where f: "blocks_of l r = Some f" "account_calculated f = d" "r \<noteq> genesis_hash c k"
      "entry_sends f = None" "entry_receives f = Some s"
      by (auto simp: account_at_def receives_at_def split: if_splits)
    from flow_okD [OF v(8) f(1,3)] f(4,5)
    have p: "prev_balance (blocks_of l) f \<le> balance_calculated f"
      "balance_calculated f - prev_balance (blocks_of l) f = sent_at (blocks_of l) s"
      by (simp_all add: flow_ok_def pays_def)
    have "unat (balance_calculated f) =
        unat (prev_balance (blocks_of l) f) + unat (sent_at (blocks_of l) s)"
      using p(1) unat_sub [OF p(1)] p(2) by (simp add: word_le_nat_alt)
    with r f None v(10) show ?thesis by (auto simp: unique_ok_def)
  qed
qed

theorem sent_amount_arrives_once_witness:
  "pending_of sample_2 (5, 105) = None \<and>
   (\<exists>!r. receives_at (blocks_of sample_2) (genesis_hash sample_crypto sample_constants) r = Some 105 \<and>
     (\<exists>f. blocks_of sample_2 r = Some f \<and> account_calculated f = 5 \<and>
        unat (balance_calculated f) =
          unat (prev_balance (blocks_of sample_2) f) + unat (sent_at (blocks_of sample_2) 105)))"
proof -
  obtain e where e: "blocks_of sample_2 105 = Some e" "entry_sends e = Some 5"
    "105 \<noteq> genesis_hash sample_crypto sample_constants" by (metis sample_send_entry)
  from sent_amount_arrives_once [OF sample_reachable(3) sample_constants_ok e(1,3,2)]
  show ?thesis by (simp only: sample_2_tables(2) option.case)
qed

section \<open>Chains\<close>

text \<open>
  C7: the information of an account describes its chain.  The head is a block of the account
  without a successor, with the balance and the height of the account; the blocks of the account
  have the heights from one to the block count, each height once; and the cached number of
  blocks is the sum of the block counts.  The blocks accepted on the way
  are \<open>admissible\<close>: their hashes are neither zero nor reserved, no account is at the last height, and no epoch block opens
  an account while it names a previous block, which the code does not check;
  confirmation heights are written as \<open>writes_ok\<close> says.
\<close>

theorem account_describes_chain:
  assumes "reachable c k l" and "constants_ok k" and "accounts_of l a = Some i"
  shows "(\<exists>e. blocks_of l (ai_head i) = Some e \<and> account_calculated e = a \<and>
        balance_calculated e = ai_balance i \<and> sb_height (snd e) = ai_block_count i \<and>
        sb_successor (snd e) = 0) \<and>
    (\<forall>j \<in> {1..unat (ai_block_count i)}.
      \<exists>!h. \<exists>e. blocks_of l h = Some e \<and> account_calculated e = a \<and> unat (sb_height (snd e)) = j) \<and>
    (\<forall>h e. blocks_of l h = Some e \<longrightarrow> account_calculated e = a \<longrightarrow>
      sb_height (snd e) \<in> {1..ai_block_count i}) \<and>
    lc_block_count (l_cache l) = of_nat (map_total (\<lambda>i. unat (ai_block_count i)) (accounts_of l))"
proof -
  from reachable_inv [OF assms(1,2)] obtain rk rp where inv: "ledger_inv c k rk rp max_supply l" .
  have cnt: "count_at (accounts_of l) a = unat (ai_block_count i)" using assms(3) by (simp add: count_at_def)
  have "\<exists>!h. \<exists>e. blocks_of l h = Some e \<and> account_calculated e = a \<and> unat (sb_height (snd e)) = j"
    if "j \<in> {1..unat (ai_block_count i)}" for j
    using height_exists [OF inv, of j a] height_unique [OF inv] that cnt by (auto simp: Suc_le_eq)
  moreover have "sb_height (snd e) \<in> {1..ai_block_count i}"
    if "blocks_of l h = Some e" "account_calculated e = a" for h e
    using height_pos [OF inv that(1)] height_le_count [OF inv that(1)] that(2) cnt
    by (auto simp: word_le_nat_alt Suc_le_eq)
  moreover have "lc_block_count (l_cache l) = of_nat (map_total (\<lambda>i. unat (ai_block_count i)) (accounts_of l))"
    using ledger_invD(16) [OF inv] chain_count [OF inv] by (simp add: counts_ok_def)
  moreover from head_facts [OF inv assms(3)] obtain e where "blocks_of l (ai_head i) = Some e"
    "account_calculated e = a" "balance_calculated e = ai_balance i" "sb_height (snd e) = ai_block_count i"
    "sb_successor (snd e) = 0" by metis
  ultimately show ?thesis by blast
qed

theorem account_describes_chain_witness:
  "\<exists>!h. \<exists>e. blocks_of sample_2 h = Some e \<and> account_calculated e = 1 \<and> unat (sb_height (snd e)) = 2"
proof -
  have a: "accounts_of sample_2 1 = Some \<lparr>ai_head = 105, ai_representative = 1, ai_open_block = 101,
     ai_balance = - 11, ai_modified = 2, ai_block_count = 2, ai_epoch = epoch_0\<rparr>"
    by (simp add: sample_2_tables)
  from account_describes_chain [OF sample_reachable(3) sample_constants_ok a] show ?thesis by simp
qed

text \<open>
  C8: every stored block is well formed.  Its key is its hash and not zero; it has an account and
  an epoch that fits the five bits of the stored details; a block without a predecessor is an
  open or state block of height one, and any other block follows a stored block of the same
  account, whose successor it is.  The blocks accepted on the way
  are \<open>admissible\<close>: their hashes are neither zero nor reserved, no account is at the last height, and no epoch block opens
  an account while it names a previous block, which the code does not check;
  confirmation heights are written as \<open>writes_ok\<close> says.
\<close>

theorem stored_block_well_formed:
  assumes "reachable c k l" and "constants_ok k" and "blocks_of l h = Some e"
  shows "h \<noteq> 0 \<and> generate_hash c (fst e) = h \<and> account_calculated e \<noteq> 0 \<and> entry_epoch e < 32 \<and>
    (if prev_of e = 0 then sb_height (snd e) = 1 \<and> block_type_of (fst e) \<in> {bt_open, bt_state}
     else \<exists>p. blocks_of l (prev_of e) = Some p \<and> account_calculated p = account_calculated e \<and>
       unat (sb_height (snd e)) = unat (sb_height (snd p)) + 1 \<and> sb_successor (snd p) = h)"
proof -
  from reachable_inv [OF assms(1,2)] obtain rk rp where inv: "ledger_inv c k rk rp max_supply l" .
  from block_link [OF inv assms(3)] show ?thesis by (auto simp: link_ok_def follows_def)
qed

theorem stored_block_well_formed_witness:
  "\<exists>p. blocks_of sample_2 101 = Some p \<and> sb_successor (snd p) = 105"
proof -
  obtain e where e: "blocks_of sample_2 105 = Some e" "fst e = State sample_send_block"
    by (metis sample_send_entry)
  from stored_block_well_formed [OF sample_reachable(3) sample_constants_ok e(1)] e(2) show ?thesis
    by (auto simp: sample_send_block_def)
qed

section \<open>Rollback\<close>

lemma confirmed_iff:
  assumes "ledger_inv c k rk rp T l"
  shows "block_confirmed l h = confirmed_at (blocks_of l) (heights_of l) h"
  using ledger_invD(2) [OF assms]
  by (auto simp: block_confirmed_def confirmed_at_def account_calculated_def conf_at_def Let_def
      unpruned_def store_pruned_exists_def block_get_def store_confirmation_height_get_def
      split: option.splits)

lemma sample_105: "\<not> block_confirmed sample_2 105"
proof -
  obtain e where e: "blocks_of sample_2 105 = Some e" "sb_height (snd e) = 2" "account_calculated e = 1"
    by (metis sample_send_entry)
  then show ?thesis
    by (auto simp: block_confirmed_def account_calculated_def block_get_def store_pruned_exists_def
        store_confirmation_height_get_def sample_2_tables(2-4) Let_def word_le_nat_alt)
qed

lemma sample_unconfirmed:
  obtains n l' ls where
    "rollback n sample_crypto sample_constants (\<lambda>_. 0) sample_2 105 [] = Done (False, l', ls)"
    "blocks_of l' 105 = None"
proof -
  from reachable_inv [OF sample_reachable(3) sample_constants_ok] obtain rk rp where
    inv: "ledger_inv sample_crypto sample_constants rk rp max_supply sample_2" .
  have b: "blocks_of sample_2 105 \<noteq> None" by (metis sample_send_entry option.distinct(1))
  have "unconfirmed sample_2 105" using sample_105 confirmed_iff [OF inv] by blast
  from rollback_unconfirmed [OF inv b this, of "\<lambda>_. 0" "[]"] that show thesis by metis
qed

text \<open>
  C4: rollback terminates.  With enough steps it returns, and more steps do not change the
  result.  A confirmed block is refused and nothing changes; a block that is not confirmed is
  gone afterwards.  No part of it ends the program.  The blocks accepted on the way
  are \<open>admissible\<close>: their hashes are neither zero nor reserved, no account is at the last height, and no epoch block opens
  an account while it names a previous block, which the code does not check;
  confirmation heights are written as \<open>writes_ok\<close> says.
\<close>

theorem rollback_terminates:
  assumes "reachable c k l" and "constants_ok k" and "blocks_of l h \<noteq> None"
  shows "\<exists>n l' ls'. (\<forall>m \<ge> n. rollback m c k now l h ls = Done (block_confirmed l h, l', ls')) \<and>
    (if block_confirmed l h then l' = l \<and> ls' = ls else blocks_of l' h = None)"
proof -
  from reachable_inv [OF assms(1,2)] obtain rk rp where inv: "ledger_inv c k rk rp max_supply l" .
  note cf = confirmed_iff [OF inv, of h]
  show ?thesis
  proof (cases "block_confirmed l h")
    case True
    from assms(3) obtain e where "blocks_of l h = Some e" by auto
    from rollback_confirmed [OF this, of 0 c k now ls] True cf
    have run: "rollback 2 c k now l h ls = Done (True, l, ls)" by (simp add: numeral_2_eq_2)
    show ?thesis
      using True rollback_more [OF run] by (intro exI [of _ 2] exI [of _ l] exI [of _ ls]) simp
  next
    case False
    with cf have "unconfirmed l h" by simp
    from rollback_unconfirmed [OF inv assms(3) this, of now ls] obtain n l' new where
      run: "rollback n c k now l h ls = Done (False, l', ls @ new)" "blocks_of l' h = None" by metis
    show ?thesis
      using False run(2) rollback_more [OF run(1)]
      by (intro exI [of _ n] exI [of _ l'] exI [of _ "ls @ new"]) simp
  qed
qed

theorem rollback_terminates_witness:
  "\<exists>n l' ls'. rollback n sample_crypto sample_constants (\<lambda>_. 0) sample_2 105 [] = Done (False, l', ls') \<and>
     blocks_of l' 105 = None"
proof -
  have "blocks_of sample_2 105 \<noteq> None" by (metis sample_send_entry option.distinct(1))
  with rollback_terminates [OF sample_reachable(3) sample_constants_ok, of 105 "\<lambda>_. 0" "[]"] sample_105
  show ?thesis by auto
qed

text \<open>
  C6: rollback removes what it says.  The blocks added to the list of a rollback that returns are
  the blocks that were removed, each once; every other block is as it was, except for its
  successor, and no confirmation height changes.  The blocks accepted on the way
  are \<open>admissible\<close>: their hashes are neither zero nor reserved, no account is at the last height, and no epoch block opens
  an account while it names a previous block, which the code does not check;
  confirmation heights are written as \<open>writes_ok\<close> says.
\<close>

theorem rollback_list_exact:
  assumes "reachable c k l" and "constants_ok k" and "blocks_of l h \<noteq> None"
    and "rollback n c k now l h ls = Done (err, l', ls')"
  shows "\<exists>new. ls' = ls @ new \<and> distinct (hashes c new) \<and>
    set (hashes c new) = dom (blocks_of l) - dom (blocks_of l') \<and>
    (\<forall>x. blocks_of l' x \<noteq> None \<longrightarrow> bview (blocks_of l') x = bview (blocks_of l) x) \<and>
    heights_of l' = heights_of l"
proof -
  from reachable_inv [OF assms(1,2)] obtain rk rp where inv: "ledger_inv c k rk rp max_supply l" .
  from rollback_inv(5) [OF inv assms(3,4)] show ?thesis by (simp add: listed_def)
qed

theorem rollback_list_exact_witness:
  "\<exists>n l' ls'. rollback n sample_crypto sample_constants (\<lambda>_. 0) sample_2 105 [] = Done (False, l', ls') \<and>
     set (hashes sample_crypto ls') = dom (blocks_of sample_2) - dom (blocks_of l') \<and>
     105 \<in> set (hashes sample_crypto ls')"
proof -
  have b: "blocks_of sample_2 105 \<noteq> None" by (metis sample_send_entry option.distinct(1))
  from sample_unconfirmed obtain n l' ls' where run:
    "rollback n sample_crypto sample_constants (\<lambda>_. 0) sample_2 105 [] = Done (False, l', ls')"
    "blocks_of l' 105 = None" by metis
  from rollback_list_exact [OF sample_reachable(3) sample_constants_ok b run(1)] have
    "set (hashes sample_crypto ls') = dom (blocks_of sample_2) - dom (blocks_of l')" by auto
  with run b show ?thesis by blast
qed

text \<open>
  C5: a confirmed block stays.  No step of a node, whether it processes, rolls back or cements
  blocks, removes or changes a block at or below the confirmation height of its account, and the
  block stays confirmed.  The blocks accepted on the way
  are \<open>admissible\<close>: their hashes are neither zero nor reserved, no account is at the last height, and no epoch block opens
  an account while it names a previous block, which the code does not check;
  confirmation heights are written as \<open>writes_ok\<close> says.
\<close>

theorem confirmed_block_stays:
  assumes "reachable c k l" and "constants_ok k" and "ledger_step c k l l'" and "block_confirmed l h"
  shows "block_confirmed l' h \<and> map_option fst (blocks_of l' h) = map_option fst (blocks_of l h)"
proof -
  from reachable_inv [OF assms(1,2)] obtain rk rp where inv: "ledger_inv c k rk rp max_supply l" .
  from reachable_inv [OF reach_step [OF assms(1,3)] assms(2)] obtain rk' rp' where
    inv': "ledger_inv c k rk' rp' max_supply l'" .
  have "map_option fst m = map_option fst m'" if "map_option entry_view m = map_option entry_view m'" for m m'
    using that by (cases m; cases m') (auto dest: entry_view_eq(1))
  with step_confirmed [OF assms(3) inv assms(2) assms(4) [unfolded confirmed_iff [OF inv]]]
  show ?thesis unfolding confirmed_iff [OF inv'] bview_apply by blast
qed

theorem confirmed_block_stays_witness:
  "block_confirmed sample_0 101 \<and> block_confirmed sample_1 101 \<and>
   map_option fst (blocks_of sample_1 101) = Some (k_genesis sample_constants)"
proof -
  have "block_confirmed sample_0 101"
    by (simp add: block_confirmed_def sample_eval sample_0_eq store_confirmation_height_get_def
        sideband_stored_def)
  with confirmed_block_stays [OF sample_reachable(1) sample_constants_ok sample_steps(1), of 101]
  show ?thesis by (simp add: sample_0_eq)
qed

section \<open>Processing\<close>

text \<open>
  C12: processing a block never ends the program.  Every block whose hash is not zero is answered
  with a result code; the ledger is unchanged unless the code is progress; and a block that is
  already stored is answered with old.  The blocks accepted on the way
  are \<open>admissible\<close>: their hashes are neither zero nor reserved, no account is at the last height, and no epoch block opens
  an account while it names a previous block, which the code does not check;
  confirmation heights are written as \<open>writes_ok\<close> says.
\<close>

theorem process_total:
  assumes "reachable c k l" and "constants_ok k" and "generate_hash c b \<noteq> 0"
  shows "\<exists>p. process c k now l b v = Some p \<and> (p_code p \<noteq> pr_progress \<longrightarrow> p_ledger p = l) \<and>
    (map_option fst (blocks_of l (generate_hash c b)) = Some b \<longrightarrow> p_code p = pr_old)"
proof -
  from reachable_inv [OF assms(1,2)] obtain rk rp where inv: "ledger_inv c k rk rp max_supply l" .
  from process_defined [OF inv assms(3)] obtain p where p: "process c k now l b v = Some p" .
  have "p_code p = pr_old" if "map_option fst (blocks_of l (generate_hash c b)) = Some b"
    using process_old [OF inv, of b _ now v] that p by auto
  with p process_rejected [OF p] show ?thesis by blast
qed

theorem process_total_witness:
  "\<exists>p. process sample_crypto sample_constants (3, 3) sample_2 (State sample_send_block) sv_unknown = Some p \<and>
     p_code p = pr_old \<and> p_ledger p = sample_2"
proof -
  have h: "generate_hash sample_crypto (State sample_send_block) = 105" by (simp add: sample_send_block_def)
  obtain e where "blocks_of sample_2 105 = Some e" "fst e = State sample_send_block" by (metis sample_send_entry)
  with process_total [OF sample_reachable(3) sample_constants_ok, of "State sample_send_block" "(3, 3)" sv_unknown] h
  show ?thesis by auto
qed

text \<open>
  C13: an amount that was sent can be collected.  For every pending entry of an account other than the burn account zero, whose
  blocks the code refuses, a state block of the account is accepted that follows its head, names the
  send block, adds the amount to the balance, has a good signature and enough work, and has a hash that is not zero and not that of a
  stored block; the send block is not an epoch link.  It removes the entry, and the addition does not wrap around.  The
  blocks accepted before are \<open>admissible\<close>: no reserved hash, no account at the last height, and no epoch
  block that opens an account while it names a previous block, which the code does not check;
  confirmation heights are written as \<open>writes_ok\<close> says.
\<close>

theorem pending_amount_collectable:
  assumes "reachable c k l" and "constants_ok k" and "ready c k l b v"
    and "pending_of l (state_account (state_h b), state_link (state_h b)) = Some i"
    and "state_balance (state_h b) = ai_balance (info_of l (state_account (state_h b))) + pi_amount i"
    and "work_sufficient c k (State b) \<lparr>bd_epoch = max (ai_epoch (info_of l (state_account (state_h b)))) (pi_epoch i),
      bd_is_send = False, bd_is_receive = True, bd_is_epoch = False\<rparr>"
  shows "\<exists>p new. process c k now l (State b) v = Some p \<and> p_code p = pr_progress \<and>
    accounts_of (p_ledger p) (state_account (state_h b)) = Some new \<and>
    unat (ai_balance new) = unat (ai_balance (info_of l (state_account (state_h b)))) + unat (pi_amount i) \<and>
    pending_of (p_ledger p) = (pending_of l)((state_account (state_h b), state_link (state_h b)) := None)"
proof -
  from reachable_inv [OF assms(1,2)] obtain rk rp where inv: "ledger_inv c k rk rp max_supply l" .
  from receive_goes_through [OF inv assms(3-6), of now] obtain p new where
    p: "process c k now l (State b) v = Some p" "p_code p = pr_progress"
    "accounts_of (p_ledger p) = (accounts_of l)(state_account (state_h b) \<mapsto> new)"
    "ai_balance new = ai_balance (info_of l (state_account (state_h b))) + pi_amount i"
    "pending_of (p_ledger p) = (pending_of l)((state_account (state_h b), state_link (state_h b)) := None)" by blast
  have "unat (ai_balance new) = unat (ai_balance (info_of l (state_account (state_h b)))) + unat (pi_amount i)"
    using pending_no_overflow [OF inv assms(4), of "state_account (state_h b)"] unfolding p(4)
    by (simp add: unat_plus_simple)
  with p show ?thesis by auto
qed

theorem pending_amount_collectable_witness:
  "\<exists>p new. process sample_crypto sample_constants (1, 2) sample_1 (State sample_receive_block) sv_valid = Some p \<and>
     p_code p = pr_progress \<and> accounts_of (p_ledger p) 5 = Some new \<and> unat (ai_balance new) = 10"
proof -
  have r: "ready sample_crypto sample_constants sample_1 sample_receive_block sv_valid"
    by (simp add: ready_def sample_receive_block_def latest_def sample_1_tables store_account_get_def sample_1_fresh
        sample_constants_def is_epoch_link_def epochs_is_epoch_link_def)
  show ?thesis
    using pending_amount_collectable [OF sample_reachable(2) sample_constants_ok r,
        of "\<lparr>pi_source = 1, pi_amount = 10, pi_epoch = epoch_0\<rparr>" "(1, 2)"]
    by (auto simp: sample_receive_block_def sample_1_tables info_of_def account_info_default_def work_sufficient_def
        sample_constants_def work_threshold_def work_threshold_details_def make_work_thresholds_def
        block_work_version_def epoch_defs)
qed

text \<open>
  A balance can be spent.  A state block of an account that follows its head, lowers its
  balance, is signed and has enough work is accepted, and the difference is pending for the
  destination.
\<close>

theorem balance_spendable:
  assumes "reachable c k l" and "constants_ok k" and "ready c k l b v"
    and "accounts_of l (state_account (state_h b)) = Some info" and "state_balance (state_h b) < ai_balance info"
    and "work_sufficient c k (State b)
      \<lparr>bd_epoch = ai_epoch info, bd_is_send = True, bd_is_receive = False, bd_is_epoch = False\<rparr>"
  shows "\<exists>p new i. process c k now l (State b) v = Some p \<and> p_code p = pr_progress \<and>
    accounts_of (p_ledger p) (state_account (state_h b)) = Some new \<and>
    ai_balance new = state_balance (state_h b) \<and>
    pending_of (p_ledger p) (state_link (state_h b), generate_hash c (State b)) = Some i \<and>
    unat (ai_balance info) = unat (ai_balance new) + unat (pi_amount i)"
proof -
  from reachable_inv [OF assms(1,2)] obtain rk rp where inv: "ledger_inv c k rk rp max_supply l" .
  have "unat (ai_balance info) = unat (state_balance (state_h b)) +
      unat (ai_balance info - state_balance (state_h b))"
    using assms(5) unat_sub [of "state_balance (state_h b)" "ai_balance info"]
    by (simp add: word_less_nat_alt word_le_nat_alt)
  with send_goes_through [OF inv assms(3-6), of now] show ?thesis by fastforce
qed

theorem balance_spendable_witness:
  "\<exists>p i. process sample_crypto sample_constants (1, 2) sample_0 (State sample_send_block) sv_valid = Some p \<and>
     p_code p = pr_progress \<and> pending_of (p_ledger p) (5, 105) = Some i \<and> unat (pi_amount i) = 10"
proof -
  have r: "ready sample_crypto sample_constants sample_0 sample_send_block sv_valid"
    by (simp add: ready_def sample_send_block_def latest_def sample_0_eq store_account_get_def
        sample_constants_def is_epoch_link_def epochs_is_epoch_link_def)
  have "\<exists>p new i. process sample_crypto sample_constants (1, 2) sample_0 (State sample_send_block) sv_valid = Some p \<and>
     p_code p = pr_progress \<and> accounts_of (p_ledger p) 1 = Some new \<and> ai_balance new = - 11 \<and>
     pending_of (p_ledger p) (5, 105) = Some i \<and> unat (- 1 :: amount) = unat (ai_balance new) + unat (pi_amount i)"
    using balance_spendable [OF sample_reachable(1) sample_constants_ok r, of _ "(1, 2)"]
    by (simp add: sample_send_block_def sample_0_eq work_sufficient_def sample_constants_def work_threshold_def
        work_threshold_details_def make_work_thresholds_def block_work_version_def epoch_defs)
  moreover have "unat (- 1 :: amount) = unat (- 11 :: amount) + 10" 
    by (simp add: unsigned_minus_1_eq_mask mask_eq_exp_minus_1)
  ultimately show ?thesis by auto
qed

section \<open>A block that crosses accounts\<close>

text \<open>
  Why \<open>admissible\<close> speaks of epoch blocks.  The genesis account sends everything to account 5, as block 105.  The code
  then accepts the epoch block 102, which opens account 5 and names block 105 of the genesis account as its previous block: it
  becomes the successor of block 105, and the chains of the two accounts run together.
\<close>

definition drain_block :: state_block where
  "drain_block =
     \<lparr>state_h = \<lparr>state_account = 1, state_previous = 101, state_representative = 1, state_balance = 0, state_link = 5\<rparr>,
      state_signature = 0, state_work = 0\<rparr>"

definition crossing_block :: state_block where
  "crossing_block =
     \<lparr>state_h = \<lparr>state_account = 5, state_previous = 105, state_representative = 0, state_balance = 0, state_link = 2\<rparr>,
      state_signature = 0, state_work = 0\<rparr>"

definition drained :: ledger where
  "drained = p_ledger (the (sample_process sample_0 (State drain_block)))"


lemma u128_top_pos: "(0 :: u128) < - 1"
  by (simp add: word_gt_0)

lemma drained_step: "\<exists>p. sample_process sample_0 (State drain_block) = Some p"
  by (simp add: process_eval sample_0_eq drain_block_def u128_top_pos)

lemma drained_eq:
  "drained =
     \<lparr>l_store = \<lparr>st_blocks = [101 \<mapsto> (k_genesis sample_constants,
                                (sideband_stored bt_open (genesis_sideband sample_constants 0))\<lparr>sb_successor := 105\<rparr>),
                              105 \<mapsto> (State drain_block, sideband_stored bt_state
         \<lparr>sb_successor = 0, sb_account = 1, sb_balance = 0, sb_height = 2, sb_timestamp = 1,
          sb_details = \<lparr>bd_epoch = epoch_0, bd_is_send = True, bd_is_receive = False, bd_is_epoch = False\<rparr>,
          sb_source_epoch = epoch_0\<rparr>)],
                 st_frontiers = Map.empty,
                 st_accounts = [1 \<mapsto> \<lparr>ai_head = 105, ai_representative = 1, ai_open_block = 101,
                   ai_balance = 0, ai_modified = 2, ai_block_count = 2, ai_epoch = epoch_0\<rparr>],
                 st_pending = [(5, 105) \<mapsto> \<lparr>pi_source = 1, pi_amount = - 1, pi_epoch = epoch_0\<rparr>],
                 st_confirmation_height = [1 \<mapsto> \<lparr>ch_height = 1, ch_frontier = 101\<rparr>],
                 st_pruned = Map.empty\<rparr>,
      l_cache = \<lparr>lc_rep_weights = representation_add_dual [1 \<mapsto> - 1] 1 1 1 0, lc_cemented_count = 1, lc_block_count = 2,
                 lc_pruned_count = 0, lc_account_count = 1, lc_final_votes_confirmation_canary = True\<rparr>,
      l_pruning = False\<rparr>"
  by (simp add: process_eval sample_0_eq drain_block_def drained_def u128_top_pos fun_upd_twist [of "101 :: u256" 105])

lemma drained_reachable: "reachable sample_crypto sample_constants drained"
proof -
  have "admissible sample_crypto sample_constants sample_0 (State drain_block)"
    by (simp add: admissible_def reserved_hash_def epoch_open_ok_def sample_0_eq is_epoch_link_def epochs_is_epoch_link_def sample_eval drain_block_def)
  with drained_step have "ledger_step sample_crypto sample_constants sample_0 drained"
    using step_process [OF impI] unfolding drained_def sample_process_def by fastforce
  with sample_reachable(1) reach_step show ?thesis by blast
qed


lemma sample_signed: "\<not> validate_message sample_crypto pk m s"
  by (simp add: validate_message_def sample_crypto_def)

theorem epoch_open_crosses_accounts:
  "\<exists>p e f. process sample_crypto sample_constants (1, 2) drained (State crossing_block) sv_unknown = Some p \<and> p_code p = pr_progress \<and>
    blocks_of (p_ledger p) 102 = Some f \<and> account_calculated f = 5 \<and> prev_of f = 105 \<and>
    blocks_of (p_ledger p) 105 = Some e \<and> account_calculated e = 1 \<and> sb_successor (snd e) = 102"
  by (simp add: process_eval drained_eq drain_block_def crossing_block_def validate_epoch_block_def sample_signed balance_calculated_def
     epoch_block_impl_def epoch_signer_def epochs_signer_def epochs_epoch_def epoch_block_commit_def store_pending_any_iff account_calculated_def sideband_stored_def)

section \<open>Blocks determine the ledger\<close>

text \<open>
  C10: the tables are a function of the blocks.  Two ledgers that a node can reach, by whatever
  steps and in whatever order, and that hold the same blocks have the same pending entries,
  frontiers, weights and counts, and the same accounts up to the time of their last change.  The blocks accepted on the way
  are \<open>admissible\<close>: their hashes are neither zero nor reserved, no account is at the last height, and no epoch block opens
  an account while it names a previous block, which the code does not check;
  confirmation heights are written as \<open>writes_ok\<close> says.
\<close>

theorem blocks_determine_ledger:
  assumes "reachable c k l" and "reachable c k l'" and "constants_ok k"
    and "\<And>h. map_option entry_view (blocks_of l h) = map_option entry_view (blocks_of l' h)"
  shows "same_tables l l'"
proof -
  from reachable_inv [OF assms(1,3)] obtain rk rp where inv: "ledger_inv c k rk rp max_supply l" .
  from reachable_inv [OF assms(2,3)] obtain rk' rp' where inv': "ledger_inv c k rk' rp' max_supply l'" .
  have "block_type_of (k_genesis k) = bt_open"
    using reachable_genesis [OF assms(1)] by (simp add: genesis_block_ok_def)
  from ledger_determined [OF inv inv' _ genesis_sends [OF inv this]] assms(4) show ?thesis
    by (simp add: bview_def)
qed

text \<open>The same blocks, the last of them accepted at a later time.\<close>

definition sample_2_late :: ledger where
  "sample_2_late = p_ledger (the (process sample_crypto sample_constants (1, 9) sample_1 (State sample_receive_block) sv_valid))"

lemma sample_late_reachable: "reachable sample_crypto sample_constants sample_2_late"
proof -
  have "\<exists>p. process sample_crypto sample_constants (1, 9) sample_1 (State sample_receive_block) sv_valid = Some p"
    by (simp add: sample_1_def process_eval sample_0_eq)
  then have "ledger_step sample_crypto sample_constants sample_1 sample_2_late"
    using step_process [OF impI [OF sample_admissible(2)]] unfolding sample_2_late_def by fastforce
  with sample_reachable(2) reach_step show ?thesis by blast
qed

theorem blocks_determine_ledger_witness:
  "accounts_of sample_2 \<noteq> accounts_of sample_2_late \<and> same_tables sample_2 sample_2_late"
proof
  have "accounts_of sample_2_late 5 \<noteq> accounts_of sample_2 5"
    by (simp add: sample_2_late_def sample_2_def sample_1_def process_eval sample_0_eq)
  then show "accounts_of sample_2 \<noteq> accounts_of sample_2_late" by metis
  have "blocks_of sample_2 = blocks_of sample_2_late"
    by (simp add: sample_2_late_def sample_2_def sample_1_def process_eval sample_0_eq)
  then show "same_tables sample_2 sample_2_late"
    by (intro blocks_determine_ledger [OF sample_reachable(3) sample_late_reachable sample_constants_ok]) simp
qed

text \<open>
  C11: rolling back the last block undoes it.  After a block was accepted, a rollback of this block
  removes it and no other block, and the ledger has the tables it had before the block.  The block and the blocks accepted
  before are \<open>admissible\<close>: their hashes are neither zero nor reserved, no account is at the last height, and no epoch block
  opens an account while it names a previous block, which the code does not check;
  confirmation heights are written as \<open>writes_ok\<close> says.
\<close>

theorem rollback_undoes_process:
  assumes "reachable c k l" and "constants_ok k" and "admissible c k l b"
    and "process c k now l b v = Some p" and "p_code p = pr_progress"
  shows "\<exists>n l' e. rollback n c k clock (p_ledger p) (generate_hash c b) ls = Done (False, l', ls @ [e]) \<and>
    generate_hash c (fst e) = generate_hash c b \<and> same_tables l l' \<and> heights_of l' = heights_of l"
proof -
  from reachable_inv [OF assms(1,2)] obtain rk rp where inv: "ledger_inv c k rk rp max_supply l" .
  have "block_type_of (k_genesis k) = bt_open"
    using reachable_genesis [OF assms(1)] by (simp add: genesis_block_ok_def)
  from process_rollback [OF inv assms(3,2) this assms(4,5)] show ?thesis .
qed

theorem rollback_undoes_process_witness:
  "\<exists>n l' e. rollback n sample_crypto sample_constants (\<lambda>_. 9) sample_2 205 [] = Done (False, l', [e]) \<and>
     same_tables sample_1 l'"
proof -
  obtain p where p: "process sample_crypto sample_constants (1, 2) sample_1 (State sample_receive_block) sv_valid = Some p"
    "p_code p = pr_progress" using sample_received by (auto simp: sample_process_def)
  then have "p_ledger p = sample_2" by (simp add: sample_2_def sample_process_def)
  with rollback_undoes_process [OF sample_reachable(2) sample_constants_ok sample_admissible(2) p, of "\<lambda>_. 9" "[]"]
  show ?thesis by (auto simp: sample_receive_block_def)
qed

section \<open>Restart\<close>

text \<open>
  C16: a node that starts on an existing database rebuilds its cache.  With any number of threads,
  \<open>ledger_initialize\<close> on the stored tables returns the block count, the account count and the
  weights that the running node had, and the sum of the confirmation heights as cemented count.  The blocks accepted on the way
  are \<open>admissible\<close>: their hashes are neither zero nor reserved, no account is at the last height, and no epoch block opens
  an account while it names a previous block, which the code does not check;
  confirmation heights are written as \<open>writes_ok\<close> says.
\<close>

theorem restart_rebuilds_cache:
  assumes "reachable c k l" and "constants_ok k" and "0 < n" and "n < 2 ^ 256"
  shows "\<exists>l'. ledger_initialize k n generate_cache_default (l\<lparr>l_cache := ledger_cache_default\<rparr>) = Some l' \<and>
    l_store l' = l_store l \<and> lc_block_count (l_cache l') = lc_block_count (l_cache l) \<and>
    lc_account_count (l_cache l') = lc_account_count (l_cache l) \<and>
    (\<forall>r. representation_get (weights_of l') r = representation_get (weights_of l) r) \<and>
    lc_cemented_count (l_cache l') = of_nat (map_total (\<lambda>i. unat (ch_height i)) (heights_of l))"
proof -
  from reachable_inv [OF assms(1,2)] obtain rk rp where inv: "ledger_inv c k rk rp max_supply l" .
  have "finite (dom (heights_of l))" using reachable_heights_ok [OF assms(1,2)] by (simp add: heights_ok_def)
  from ledger_initialize_cache [OF inv assms(3,4) this] show ?thesis by simp
qed

theorem restart_rebuilds_cache_witness:
  "\<exists>l'. ledger_initialize sample_constants (traversal_thread_count 2) generate_cache_default
       (sample_2\<lparr>l_cache := ledger_cache_default\<rparr>) = Some l' \<and>
     lc_account_count (l_cache l') = lc_account_count (l_cache sample_2)"
proof -
  have "traversal_thread_count 2 = 20" by (simp add: traversal_thread_count_def max_def min_def word_le_nat_alt)
  with restart_rebuilds_cache [OF sample_reachable(3) sample_constants_ok, of "traversal_thread_count 2"]
  show ?thesis by auto
qed

section \<open>Queries\<close>

text \<open>
  C32: the receivable amount of an account is the exact sum of its pending amounts, and of those
  with a confirmed source block if only these are asked for; the 128-bit sum does not wrap
  around.  This is for every account but the one with the largest number.  The blocks accepted on the way
  are \<open>admissible\<close>: their hashes are neither zero nor reserved, no account is at the last height, and no epoch block opens
  an account while it names a previous block, which the code does not check;
  confirmation heights are written as \<open>writes_ok\<close> says.
\<close>

theorem receivable_exact:
  assumes "reachable c k l" and "constants_ok k" and "a \<noteq> - 1"
  shows "\<exists>r. account_receivable l a only_confirmed = Some r \<and>
    unat r = (\<Sum>key \<in> {key \<in> dom (pending_of l). fst key = a \<and> (only_confirmed \<longrightarrow> block_confirmed l (snd key))}.
      unat (pi_amount (the (pending_of l key))))"
proof -
  from reachable_inv [OF assms(1,2)] obtain rk rp where inv: "ledger_inv c k rk rp max_supply l" .
  have fin: "finite (dom (pending_of l))" using ledger_invD(1) [OF inv] by (simp add: tables_finite_def)
  let ?n = "\<Sum>key\<in>receivable l a only_confirmed. unat (pi_amount (the (pending_of l key)))"
  have "?n \<le> map_total (\<lambda>i. unat (pi_amount i)) (pending_of l)"
    unfolding map_total_def using fin by (intro sum_mono2) (auto simp: receivable_def)
  also have "\<dots> < 2 ^ 128"
    using ledger_invD(13,14) [OF inv] by (simp add: total_supply_def)
  finally have "unat (of_nat ?n :: amount) = ?n" 
    by (simp add: unat_of_nat take_bit_nat_eq_self del: of_nat_sum)
  with account_receivable_sum [OF fin assms(3), of only_confirmed] show ?thesis by (simp add: receivable_def)
qed

theorem receivable_exact_witness: "\<exists>r. account_receivable sample_1 5 False = Some r \<and> unat r = 10"
proof -
  have "{key \<in> dom (pending_of sample_1). fst key = 5 \<and> (False \<longrightarrow> block_confirmed sample_1 (snd key))} = {(5, 105)}"
    by (auto simp: sample_1_tables)
  moreover have "pending_of sample_1 (5, 105) = Some \<lparr>pi_source = 1, pi_amount = 10, pi_epoch = epoch_0\<rparr>"
    by (simp add: sample_1_tables)
  ultimately show ?thesis using receivable_exact [OF sample_reachable(2) sample_constants_ok, of 5 False] by simp
qed

text \<open>
  For the account with the largest number the end of the range wraps around to the start of
  the table.  The loop then runs past the end of the table as soon as any other account has a
  pending amount, and otherwise the result is zero whatever is pending for this account.
\<close>

theorem receivable_last_account:
  assumes "reachable c k l" and "constants_ok k"
  shows "account_receivable l (- 1) only_confirmed =
    (if \<exists>key. pending_of l key \<noteq> None \<and> fst key \<noteq> - 1 then None else Some 0)"
proof -
  from reachable_inv [OF assms] obtain rk rp where inv: "ledger_inv c k rk rp max_supply l" .
  have fin: "finite (dom (pending_of l))" using ledger_invD(1) [OF inv] by (simp add: tables_finite_def)
  show ?thesis unfolding account_receivable_last [OF fin] by (simp add: dom_def Bex_def)
qed

theorem receivable_last_account_witness:
  "account_receivable sample_1 (- 1) False = None \<and> account_receivable sample_0 (- 1) False = Some 0"
proof -
  have "\<exists>key. pending_of sample_1 key \<noteq> None \<and> fst key \<noteq> - 1"
    by (rule exI [of _ "(5, 105)"]) (simp add: sample_1_tables)
  then show ?thesis
    using receivable_last_account [OF sample_reachable(2) sample_constants_ok, of False]
      receivable_last_account [OF sample_reachable(1) sample_constants_ok, of False]
    by (simp add: sample_0_eq)
qed

text \<open>
  C33: the search for the block that received a send terminates.  It returns the receive block if
  the destination has received the send in a confirmed block, and nothing otherwise.  The blocks accepted on the way
  are \<open>admissible\<close>: their hashes are neither zero nor reserved, no account is at the last height, and no epoch block opens
  an account while it names a previous block, which the code does not check;
  confirmation heights are written as \<open>writes_ok\<close> says.
\<close>

theorem find_receive_exact:
  assumes "reachable c k l" and "constants_ok k" and "blocks_of l s \<noteq> None"
  shows "\<exists>n r. (\<forall>m \<ge> n. find_receive_block_by_send_hash m l d s = Done r) \<and>
    (case r of
       Some f \<Rightarrow> \<exists>y. blocks_of l y = Some f \<and> account_calculated f = d \<and>
         receives_at (blocks_of l) (genesis_hash c k) y = Some s \<and> block_confirmed l y
     | None \<Rightarrow> \<forall>y. receives_at (blocks_of l) (genesis_hash c k) y = Some s \<longrightarrow> account_at (blocks_of l) y = Some d \<longrightarrow>
         \<not> block_confirmed l y)"
proof -
  from reachable_inv [OF assms(1,2)] obtain rk rp where inv: "ledger_inv c k rk rp max_supply l" .
  show ?thesis
    unfolding confirmed_iff [OF inv]
    by (rule find_receive_correct [OF inv reachable_heights_ok [OF assms(1,2)] reachable_genesis [OF assms(1)] assms(3)])
qed

text \<open>The receive block 205 is stored and not confirmed.\<close>

theorem find_receive_exact_witness:
  "\<exists>n. \<forall>m \<ge> n. find_receive_block_by_send_hash m sample_2 5 105 = Done None"
proof -
  have s: "blocks_of sample_2 105 \<noteq> None" by (simp add: sample_2_tables sample_1_tables)
  from reachable_inv [OF sample_reachable(3) sample_constants_ok] obtain rk rp where
    inv: "ledger_inv sample_crypto sample_constants rk rp max_supply sample_2" .
  have n: "\<not> block_confirmed sample_2 y" if "blocks_of sample_2 y = Some f" "account_calculated f = 5" for y f
    using that height_pos [OF inv that(1)] sample_2_tables(4) by (auto simp: confirmed_iff [OF inv] confirmed_at_def conf_at_def word_le_nat_alt)
  from find_receive_exact [OF sample_reachable(3) sample_constants_ok s, of 5] obtain m0 r where
    r: "\<forall>m \<ge> m0. find_receive_block_by_send_hash m sample_2 5 105 = Done r" "\<And>f. r = Some f \<Longrightarrow>
      \<exists>y. blocks_of sample_2 y = Some f \<and> account_calculated f = 5 \<and> block_confirmed sample_2 y" by fastforce
  with n have "r = None" by (cases r) blast+
  with r(1) show ?thesis by blast
qed

text \<open>
  On a ledger whose heights were written as \<open>writes_ok\<close> says, every confirmed block has its dependencies confirmed: the previous
  block of the account and the send block that it receives.
\<close>

lemma confirmed_closed:
  assumes "reachable c k l" and "constants_ok k" and "blocks_of l h = Some e" and "block_confirmed l h"
  shows "dependents_confirmed k l (fst e) (Some (snd e)) = Some True"
proof -
  from reachable_inv [OF assms(1,2)] obtain rk rp where inv: "ledger_inv c k rk rp max_supply l" .
  note cf = confirmed_iff [OF inv]
  from confirmed_dependents [OF inv reachable_genesis [OF assms(1)] assms(3) assms(4) [unfolded cf] cf]
  show ?thesis .
qed

section \<open>Pruning\<close>

text \<open>
  C31: pruning terminates and forgets no block.  From a stored block it removes this block and the
  blocks below it in the account, the genesis block excepted, and returns their number; every hash
  that was known before is known after, and accounts, pending amounts and weights stay.  The blocks accepted on the way
  are \<open>admissible\<close>: their hashes are neither zero nor reserved, no account is at the last height, and no epoch block opens
  an account while it names a previous block, which the code does not check;
  confirmation heights are written as \<open>writes_ok\<close> says.
\<close>

theorem pruning_keeps_hashes:
  assumes "reachable c k l" and "constants_ok k" and "blocks_of l h = Some e" and "batch \<noteq> 0"
  shows "\<exists>n l'. (\<forall>m \<ge> n. pruning_action m c k batch l h 0 =
      Done (of_nat (card (chain_below (blocks_of l) (genesis_hash c k) e)), l')) \<and>
    (\<forall>x. blocks_of l' x = (if x \<in> chain_below (blocks_of l) (genesis_hash c k) e then None else blocks_of l x)) \<and>
    (\<forall>x. block_or_pruned_exists l' x = block_or_pruned_exists l x) \<and>
    accounts_of l' = accounts_of l \<and> pending_of l' = pending_of l \<and> weights_of l' = weights_of l"
proof -
  from reachable_inv [OF assms(1,2)] obtain rk rp where inv: "ledger_inv c k rk rp max_supply l" .
  let ?P = "chain_below (blocks_of l) (genesis_hash c k) e"
  have u: "unpruned l" by (rule ledger_invD(2) [OF inv])
  from pruning_loop [OF inv assms(4,3) pruned_ledger_refl [OF u], of 0] obtain n l' where
    n: "\<forall>m \<ge> n. pruning_action m c k batch l h 0 = Done (of_nat (card ?P), l')" and p: "pruned_ledger l ?P l'"
    by auto
  have "?P \<subseteq> dom (blocks_of l)" by (auto simp: chain_below_def)
  from pruned_exists [OF p u this] n p show ?thesis
    unfolding pruned_ledger_def by (intro exI [of _ n] exI [of _ l']) simp
qed

theorem pruning_keeps_hashes_witness:
  "\<exists>n l'. pruning_action n sample_crypto sample_constants 1 sample_2 105 0 = Done (1, l') \<and>
     block_or_pruned_exists l' 105 = block_or_pruned_exists sample_2 105"
proof -
  obtain e where e: "blocks_of sample_2 105 = Some e" "account_calculated e = 1" by (rule sample_send_entry)
  have g: "genesis_hash sample_crypto sample_constants = 101" by (simp add: genesis_hash_def sample_constants_def)
  have "dom (blocks_of sample_2) = {205, 101, 105}"
    by (simp add: sample_2_def sample_1_def process_eval sample_0_eq)
  then have d: "y \<in> {205, 101, 105}" if "blocks_of sample_2 y = Some f" for y f using that by blast
  have "account_calculated f \<noteq> 1" if "blocks_of sample_2 205 = Some f" for f
    using that by (auto simp: sample_2_tables account_calculated_def sample_receive_block_def)
  then have "chain_below (blocks_of sample_2) (genesis_hash sample_crypto sample_constants) e = {105}"
    using d e by (fastforce simp: chain_below_def g)
  with pruning_keeps_hashes [OF sample_reachable(3) sample_constants_ok e(1), of 1] show ?thesis
    by (metis One_nat_def card.empty card_insert_disjoint empty_iff finite.emptyI of_nat_1 order_refl zero_neq_one)
qed

section \<open>The ledger is a bank\<close>

text \<open>
  C9: the ledger refines a bank.  Every sequence of processed blocks, accepted or refused, is a
  sequence of transactions of the bank: payments out of a sufficient balance into transit, and
  collections from transit.  The blocks accepted on the way
  are \<open>admissible\<close>: their hashes are neither zero nor reserved, no account is at the last height, and no epoch block opens
  an account while it names a previous block, which the code does not check;
  confirmation heights are written as \<open>writes_ok\<close> says.
\<close>

theorem ledger_refines_bank:
  assumes "reachable c k l" and "constants_ok k" and "(process_step c k)\<^sup>*\<^sup>* l l'"
  shows "bank_step\<^sup>*\<^sup>* (bank_of l) (bank_of l')"
proof (rule ledger_bank.sim_steps [OF assms(3)])
  from reachable_inv [OF assms(1,2)] show "sound c k l" unfolding sound_def by metis
qed

theorem ledger_refines_bank_witness: "bank_step\<^sup>*\<^sup>* (bank_of sample_0) (bank_of sample_2)"
proof (rule ledger_refines_bank [OF sample_reachable(1) sample_constants_ok])
  from sample_sent sample_received have
    "process_step sample_crypto sample_constants sample_0 sample_1"
    "process_step sample_crypto sample_constants sample_1 sample_2"
    using process_step.intros [OF sample_constants_ok _ impI [OF sample_admissible(1)]]
      process_step.intros [OF sample_constants_ok _ impI [OF sample_admissible(2)]]
    unfolding sample_1_def sample_2_def sample_process_def by fastforce+
  then show "(process_step sample_crypto sample_constants)\<^sup>*\<^sup>* sample_0 sample_2" by simp
qed

end
