(* ===== verification/Unbounded_Theorems.thy ===== *)
theory Unbounded_Theorems
  imports Unbounded_Correct Ledger_Theorems
begin

text \<open>
  The blocks that a block of a ledger depends on, and what the walk of \<open>confirmation_height_unbounded\<close> says of them
  on a ledger that a node reaches.
\<close>

declare split_paired_All [simp del] split_paired_Ex [simp del]

text \<open>The blocks that a block depends on: the previous one, the source of a receive, and so on.\<close>

inductive depends :: "crypto \<Rightarrow> ledger_constants \<Rightarrow> ledger \<Rightarrow> block_hash \<Rightarrow> block_hash \<Rightarrow> bool" for c k l h where
  depends_self: "blocks_of l h \<noteq> None \<Longrightarrow> depends c k l h h"
| depends_previous: "depends c k l h x \<Longrightarrow> blocks_of l x = Some e \<Longrightarrow> prev_of e \<noteq> 0 \<Longrightarrow> depends c k l h (prev_of e)"
| depends_source: "depends c k l h x \<Longrightarrow> receives_at (blocks_of l) (genesis_hash c k) x = Some s \<Longrightarrow> depends c k l h s"

definition walkable :: "crypto \<Rightarrow> ledger_constants \<Rightarrow> ledger \<Rightarrow> bool" where
  "walkable c k l \<longleftrightarrow> reachable c k l \<and> constants_ok k \<and> hashes_apart l"


lemma graph_blocks_walkable:
  assumes "walkable c k l"
  shows "x \<in> graph_blocks c k l \<longleftrightarrow> blocks_of l x \<noteq> None"
proof -
  have "sound c k l" using assms reachable_inv unfolding walkable_def sound_def by metis
  moreover have "genesis_block_ok c k" using assms reachable_genesis unfolding walkable_def by blast
  ultimately show ?thesis using assms by (simp add: graph_blocks_def walkable_def)
qed

lemma depends_below:
  assumes w: "walkable c k l"
  shows "depends c k l h x \<Longrightarrow> x \<in> graph_blocks c k l \<Longrightarrow> z \<in> graph_blocks c k l \<Longrightarrow> graph_account l z = graph_account l x \<Longrightarrow>
    graph_height l z < graph_height l x \<Longrightarrow> depends c k l h z"
proof (induction "graph_height l x" arbitrary: x rule: less_induct)
  case less
  let ?n = "graph_height l x - 1"
  have n: "0 < ?n" "?n \<le> graph_height l x" using less.prems(5) ledger_graph.graph_pos [OF less.prems(3)] by simp_all
  from ledger_graph.graph_below [OF less.prems(2) n] obtain y where
    y: "y \<in> graph_blocks c k l" "graph_account l y = graph_account l x" "graph_height l y = ?n" by blast
  then have "Suc (graph_height l y) = graph_height l x" using n by simp
  from ledger_graph.walk_previous [OF less.prems(2) y(1,2) this] have p: "prev_of (the (blocks_of l x)) = y" .
  obtain e where e: "blocks_of l x = Some e" using less.prems(2) graph_blocks_walkable [OF w] by blast
  have "y \<noteq> 0" using ledger_graph.walk_hash [OF y(1)] by simp
  with depends_previous [OF less.prems(1) e] p e have dy: "depends c k l h y" by simp
  show ?case
  proof (cases "z = y")
    case False
    have "graph_height l z \<noteq> graph_height l y"
      using ledger_graph.graph_inj [OF less.prems(3) y(1)] less.prems(4) y(2) False by auto
    with less.prems(5) y(3) have "graph_height l z < graph_height l y" by simp
    with less.hyps [OF _ dy y(1) less.prems(3)] less.prems(4) y(2,3) n show ?thesis by simp
  qed (use dy in simp)
qed

lemma depends_needs:
  assumes w: "walkable c k l"
  shows "depends c k l h x \<longleftrightarrow> ledger_graph.needs c k l h x"
proof
  note b = graph_blocks_walkable [OF w]
  assume "depends c k l h x"
  then show "ledger_graph.needs c k l h x"
  proof induction
    case depends_self
    then show ?case using b by (intro ledger_graph.needs_self) simp
  next
    case (depends_previous x e)
    have x: "x \<in> graph_blocks c k l" using depends_previous(2) b by simp
    from x obtain rp T where inv: "ledger_inv c k (graph_rank c k l) rp T l" by (metis graph_blockE)
    from block_link [OF inv depends_previous(2)] depends_previous(3) obtain p where
      "blocks_of l (prev_of e) = Some p" "follows p e" by (auto simp: link_ok_def)
    with depends_previous(2) b show ?case
      by (intro ledger_graph.needs_below [OF depends_previous(4)])
        (auto simp: graph_account_def graph_height_def follows_def)
  next
    case (depends_source x s)
    then show ?case by (intro ledger_graph.needs_source [OF depends_source(3)]) (simp add: graph_source_def)
  qed
next
  note b = graph_blocks_walkable [OF w]
  assume "ledger_graph.needs c k l h x"
  then show "depends c k l h x"
  proof (induction rule: ledger_graph.needs.induct)
    case needs_self
    then show ?case using b by (intro depends_self) simp
  next
    case (needs_below x z)
    from depends_below [OF w needs_below(5) ledger_graph.needs_stored [OF needs_below(1)] needs_below(2-4)] show ?case .
  next
    case (needs_source x z)
    then show ?case by (intro depends_source [OF needs_source(3)]) (simp add: graph_source_def)
  qed
qed

section \<open>Heights and confirmed blocks\<close>

lemma confirmed_height:
  assumes w: "walkable c k l" and r: "reachable c k l'" and b: "blocks_of l' = blocks_of l"
  shows "block_confirmed l' x \<longleftrightarrow> blocks_of l x \<noteq> None \<and> graph_height l x \<le> conf_heights l' (graph_account l x)"
proof -
  have "constants_ok k" using w by (simp add: walkable_def)
  from reachable_inv [OF r this] obtain rk rp where "ledger_inv c k rk rp max_supply l'" .
  from confirmed_iff [OF this, of x] b show ?thesis
    by (auto simp: confirmed_at_def graph_height_def graph_account_def conf_heights_def word_le_nat_alt split: option.splits)
qed

lemma initial_closed:
  assumes w: "walkable c k l"
  shows "ledger_graph.sources_closed c k l (conf_heights l)"
proof -
  have r: "reachable c k l" "constants_ok k" using w by (simp_all add: walkable_def)
  note cf = confirmed_height [OF w r(1) refl]
  from reachable_inv [OF r] obtain rk rp where inv: "ledger_inv c k rk rp max_supply l" .
  have "graph_height l y \<le> conf_heights l (graph_account l y)"
    if "x \<in> graph_blocks c k l" "graph_source c k l x = Some y" "graph_height l x \<le> conf_heights l (graph_account l x)" for x y
    using that cf [of x] cf [of y] graph_blocks_walkable [OF w] confirmed_iff [OF inv] ledger_invD(11) [OF inv]
    unfolding conf_ok_def graph_source_def by blast
  then show ?thesis by (auto simp: ledger_graph.sources_closed_def)
qed

text \<open>The processor before a call: nothing waits to be written.\<close>

lemma idle_initial:
  assumes w: "walkable c k l" and b: "blocks_of l h \<noteq> None" and e: "pending_empty st"
  shows "\<exists>s. ledger_graph.idle c k l l (clear_process_vars st) s \<and> wv s = conf_heights l"
proof -
  let ?s = "\<lparr>wv = conf_heights l, wi = conf_heights l, ws = [], wlo = \<lambda>_. 0, wtop = \<lambda>_. None, wo = None\<rparr>"
  have h: "h \<in> graph_blocks c k l" using graph_blocks_walkable [OF w] b by simp
  note cl = initial_closed [OF w]
  have "ledger_graph.sim c k l h l (clear_process_vars st) ?s []"
    unfolding ledger_graph.sim_def
  proof (intro conjI)
    show "ledger_graph.walk_ok c k l h ?s" by (rule ledger_graph.idle_start [OF h]) (use cl in \<open>auto simp: ledger_graph.sources_closed_def\<close>)
    show "ledger_graph.sources_closed c k l (conf_heights l)" by (rule cl)
    show "ledger_graph.heights_sim l (clear_process_vars st) ?s" by (simp add: ledger_graph.heights_sim_def clear_process_vars_def)
    show "ledger_graph.stack_sim c k l (clear_process_vars st) ?s []" by (simp add: ledger_graph.stack_sim_def)
    show "ledger_graph.cache_sim c k l l (clear_process_vars st) ?s"
      by (simp add: ledger_graph.cache_sim_def ledger_graph.cache_ok_def clear_process_vars_def)
    show "ledger_graph.writes_sim c k l l (clear_process_vars st) ?s"
      unfolding ledger_graph.writes_sim_def using e by (intro exI [of _ "[]"]) (simp add: clear_process_vars_def pending_empty_def)
  qed simp
  then show ?thesis by (intro exI [of _ ?s]) (auto simp: ledger_graph.idle_def)
qed

section \<open>The sample ledger\<close>

lemma sample_2_blocks:
  "blocks_of sample_2 x \<noteq> None \<longleftrightarrow> x = 101 \<or> x = 105 \<or> x = 205"
  by (simp add: sample_2_def sample_1_def process_eval sample_0_eq)

lemma sample_2_sends:
  "blocks_of sample_2 x = Some e \<Longrightarrow> entry_sends e = Some d \<Longrightarrow> d = 5"
  by (auto simp: sample_2_def sample_1_def process_eval sample_0_eq entry_defs details_unpack_packed epoch_0_small split: if_splits)

lemma sample_walkable: "walkable sample_crypto sample_constants sample_2"
proof -
  have "blocks_of sample_2 5 = None" using sample_2_blocks [of 5] by simp
  with sample_2_sends have "hashes_apart sample_2" unfolding hashes_apart_def by blast
  with sample_reachable(3) sample_constants_ok show ?thesis by (simp add: walkable_def)
qed

lemma sample_2_card: "2 * card (dom (blocks_of sample_2)) + 1 < 8"
proof -
  have "dom (blocks_of sample_2) = {101, 105, 205}" using sample_2_blocks by (auto simp: dom_def)
  then show ?thesis by simp
qed

lemma sample_depends: "depends sample_crypto sample_constants sample_2 205 105"
proof (rule depends_source)
  show "depends sample_crypto sample_constants sample_2 205 205"
    by (rule depends_self) (use sample_2_blocks in blast)
  show "receives_at (blocks_of sample_2) (genesis_hash sample_crypto sample_constants) 205 = Some 105"
    by (simp add: receives_at_def sample_2_tables entry_defs details_unpack_packed epoch_0_small genesis_hash_def
        sample_constants_def sample_receive_block_def)
qed

definition sample_env :: iteration_env where
  "sample_env = \<lparr>ie_stopped_collecting = \<lambda>_. False, ie_stopped = False, ie_min_time_exceeded = False,
     ie_awaiting_processing_size = 0, ie_write_queue = True, ie_stopped_end = False\<rparr>"

definition sample_unbounded :: confirmation_height_unbounded where
  "sample_unbounded = \<lparr>cu_confirmed_iterated_pairs = Map.empty, cu_pending_writes = [],
     cu_implicit_receive_cemented_mapping = Map.empty, cu_block_cache = Map.empty,
     cu_details = \<lambda>_. conf_height_details_new 0 0 0 0 [], cu_next_details = 0\<rparr>"

lemma sample_processor: "\<forall>i :: nat. running ((\<lambda>_. sample_env) i)" "pending_empty sample_unbounded"
  by (simp_all add: running_def sample_env_def pending_empty_def sample_unbounded_def)

section \<open>The order of the notifications\<close>

text \<open>A block is notified after the blocks that it depends on.\<close>

lemma order_step:
  assumes w: "walkable c k l" and xs: "ledger_graph.plan c k l (conf_heights l) xs v"
    and hs: "ledger_graph.raised c k l (conf_heights l) xs = ys @ y # zs"
    and x: "x = y \<or> block_confirmed l x \<or> x \<in> set ys" and z: "z \<in> graph_blocks c k l" "x \<in> graph_blocks c k l"
      "graph_source c k l x = Some z \<or> graph_account l z = graph_account l x \<and> graph_height l z < graph_height l x"
  shows "z = y \<or> block_confirmed l z \<or> z \<in> set ys"
proof -
  have "reachable c k l" using w by (simp add: walkable_def)
  note cf = confirmed_height [OF w this refl] and gb = graph_blocks_walkable [OF w] and cl = initial_closed [OF w]
  show ?thesis
  proof (cases "block_confirmed l x")
    case True
    with z cl cf [of x] cf [of z] gb have "block_confirmed l z" by (auto simp: ledger_graph.sources_closed_def)
    then show ?thesis by simp
  next
    case False
    obtain as bs where ab: "ledger_graph.raised c k l (conf_heights l) xs = as @ x # bs" "set as \<subseteq> set ys"
    proof (cases "x = y")
      case True
      with hs that show thesis by auto
    next
      case n: False
      with x False have "x \<in> set ys" by simp
      then obtain as bs where "ys = as @ x # bs" by (metis split_list)
      with hs that [of as "bs @ y # zs"] show thesis by auto
    qed
    from ledger_graph.raised_before [OF xs cl ab(1)] z ab(2) cf [of z] gb show ?thesis
      unfolding ledger_graph.before_def by blast
  qed
qed

lemma history_order:
  assumes w: "walkable c k l" and xs: "ledger_graph.plan c k l (conf_heights l) xs v"
    and hs: "ledger_graph.raised c k l (conf_heights l) xs = ys @ y # zs" and d: "depends c k l y x"
  shows "x = y \<or> block_confirmed l x \<or> x \<in> set ys"
  using d
proof induction
  case (depends_previous x e)
  have x: "x \<in> graph_blocks c k l" using depends_previous(2) graph_blocks_walkable [OF w] by simp
  then obtain rp T where inv: "ledger_inv c k (graph_rank c k l) rp T l" by (metis graph_blockE)
  from block_link [OF inv depends_previous(2)] depends_previous(3) obtain p where
    "blocks_of l (prev_of e) = Some p" "follows p e" by (auto simp: link_ok_def)
  with depends_previous(2) show ?case
    by (intro order_step [OF w xs hs depends_previous(4) _ x])
      (auto simp: graph_blocks_walkable [OF w] graph_account_def graph_height_def follows_def)
next
  case (depends_source x s)
  have x: "x \<in> graph_blocks c k l"
    using depends_source(2) graph_blocks_walkable [OF w] by (auto simp: receives_at_def split: option.splits)
  have s: "graph_source c k l x = Some s" using depends_source(2) by (simp add: graph_source_def)
  from order_step [OF w xs hs depends_source(3) _ x] ledger_graph.graph_source [OF x s] s show ?case by simp
qed simp

end
