(* ===== verification/Height_Theorems.thy ===== *)
theory Height_Theorems
  imports Height_Processor Unbounded_Theorems
begin

declare split_paired_All [simp del] split_paired_Ex [simp del]

text \<open>
  What the thread of the confirmation height processor does to a ledger: the blocks that were added become confirmed
  with everything they depend on, and nothing else.
\<close>

section \<open>Between two calls\<close>

text \<open>
  The processor between two calls of \<open>process\<close>: \<open>l0\<close> is the ledger at the start of the batch and \<open>v\<close> the heights
  that the ledger has once the waiting writes are made.
\<close>

definition between ::
  "crypto \<Rightarrow> ledger_constants \<Rightarrow> ledger \<Rightarrow> ledger \<Rightarrow> confirmation_height_unbounded \<Rightarrow> (account \<Rightarrow> nat) \<Rightarrow> bool" where
  "between c k l0 l st v \<longleftrightarrow>
     (\<exists>w. (ledger_graph.idle c k l0 l st w \<or> pending_empty st \<and> ledger_graph.idle c k l0 l (clear_process_vars st) w) \<and> wv w = v)"

lemma between_start:
  assumes "walkable c k l" and "blocks_of l h \<noteq> None" and "pending_empty st"
  shows "between c k l l st (conf_heights l)"
  using idle_initial [OF assms] assms(3) by (auto simp: between_def)

lemma process_clear:
  "pending_empty st \<Longrightarrow> unbounded_process n c k batch_write_size env b (clear_process_vars st) l =
     unbounded_process n c k batch_write_size env b st l"
  by (simp add: unbounded_process_def pending_empty_def clear_process_vars_def)

lemma between_process:
  assumes w: "walkable c k l0" and bt: "between c k l0 l st v" and b: "blocks_of l0 h = Some b" and run: "\<forall>i. running (env i)"
    and n: "2 * card (dom (blocks_of l0)) + 1 < n"
  shows "\<exists>st' l' es v'. unbounded_process n c k batch_write_size env b st l = Done (st', l', es) \<and> between c k l0 l' st' v' \<and>
    ledger_graph.history c k l0 l l' (notified es) \<and> graph_height l0 h \<le> v' (graph_account l0 h) \<and>
    ledger_graph.reaches c k l0 h v v'"
proof -
  note gb = graph_blocks_walkable [OF w]
  have h: "h \<in> graph_blocks c k l0" using b gb by simp
  have "graph_blocks c k l0 = dom (blocks_of l0)" using gb by auto
  with n have cb: "2 * card (graph_blocks c k l0) + 1 < n" by simp
  have eb: "ledger_graph.entry l0 h = b" using b by (simp add: ledger_graph.entry_def)
  from bt obtain u st1 where u: "ledger_graph.idle c k l0 l st1 u" "wv u = v" and st1: "st1 = st \<or> pending_empty st \<and> st1 = clear_process_vars st"
    unfolding between_def by blast
  from ledger_graph.process_ok [OF u(1) h _ cb, of env batch_write_size] run obtain st' l' es u' where
    p: "unbounded_process n c k batch_write_size env b st1 l = Done (st', l', es)"
      "ledger_graph.sim c k l0 h l' st' u' []" "wo u' = None" "graph_height l0 h \<le> wv u' (graph_account l0 h)"
      "ledger_graph.history c k l0 l l' (notified es)" "ledger_graph.reaches c k l0 h (wv u) (wv u')"
    unfolding ledger_graph.finished_def eb by blast
  have "ledger_graph.idle c k l0 l' st' u'" using p(2,3) by (auto simp: ledger_graph.idle_def)
  then have "between c k l0 l' st' (wv u')" by (auto simp: between_def)
  moreover have "unbounded_process n c k batch_write_size env b st l = Done (st', l', es)"
    using p(1) st1 process_clear [of st n c k batch_write_size env b l] by auto
  ultimately show ?thesis using p u(2) by blast
qed

lemma between_facts:
  assumes "between c k l0 l st v"
  shows "blocks_of l = blocks_of l0" and "ledger_graph.sources_closed c k l0 (conf_heights l)"
    and "pending_empty st \<Longrightarrow> v = conf_heights l"
proof -
  from assms obtain u st1 where u: "ledger_graph.idle c k l0 l st1 u" "wv u = v"
    and st1: "st1 = st \<or> pending_empty st \<and> st1 = clear_process_vars st" unfolding between_def by blast
  then obtain h where s: "ledger_graph.sim c k l0 h l st1 u []" by (auto simp: ledger_graph.idle_def)
  note d = ledger_graph.simD [OF s]
  show "blocks_of l = blocks_of l0" and "ledger_graph.sources_closed c k l0 (conf_heights l)" using d(2,3) .
  assume e: "pending_empty st"
  then have "cu_pending_writes st1 = []" using st1 by (auto simp: pending_empty_def clear_process_vars_def)
  with d(7) obtain xs where xs: "ledger_graph.plan c k l0 (conf_heights l) xs (wv u)"
      "ledger_graph.writes_of c k l0 (conf_heights l) xs = []"
    by (auto simp: ledger_graph.writes_sim_def)
  then have "wv u = conf_heights l" by (cases xs) simp_all
  with u(2) show "v = conf_heights l" by simp
qed

lemma between_flush:
  assumes "between c k l0 l st v" and "\<not> pending_empty st"
  shows "\<exists>l' cem. write_pending st l = Some (st\<lparr>cu_pending_writes := []\<rparr>, l', cem) \<and>
    ledger_graph.history c k l0 l l' cem \<and> conf_heights l' = v \<and> blocks_of l' = blocks_of l0 \<and> 
    ledger_graph.sources_closed c k l0 v"
proof -
  from assms obtain h u where s: "ledger_graph.sim c k l0 h l st u []" and v: "wv u = v"
    by (auto simp: between_def ledger_graph.idle_def)
  from ledger_graph.flush [OF s] obtain l' cem where q: "write_pending st l = Some (st\<lparr>cu_pending_writes := []\<rparr>, l', cem)"
      "ledger_graph.sim c k l0 h l' (st\<lparr>cu_pending_writes := []\<rparr>) u []"
      "ledger_graph.history c k l0 l l' cem" "conf_heights l' = wv u" by blast
  with ledger_graph.simD(2,3) [OF q(2)] v show ?thesis by auto
qed

section \<open>A batch\<close>

text \<open>
  \<open>confirmation_height_unbounded\<close> is used for every block that is added: it was asked for, or the ledger is small.
\<close>

definition uses_unbounded :: "confirmation_height_mode \<Rightarrow> ledger \<Rightarrow> bool" where
  "uses_unbounded mode_a l \<longleftrightarrow>
     mode_a = Hm_unbounded \<or> mode_a = Hm_automatic \<and> lc_block_count (l_cache l) < of_nat unbounded_cutoff"

lemma uses_unbounded_history:
  "ledger_graph.history c k l0 l l' cem \<Longrightarrow> uses_unbounded mode_a l' = uses_unbounded mode_a l"
  by (auto simp: ledger_graph.history_def recemented_def uses_unbounded_def)

lemma turn_process:
  assumes "\<not> hp_stopped s" "\<not> hp_paused s" "hp_awaiting_processing s = b # bs" "uses_unbounded mode_a l"
    and "unbounded_process n c k batch_write_size env b (hp_unbounded s) l = Done (st, l', es)"
  shows "\<exists>s'. height_turn n c k mode_a batch_write_size env s l = Done (Turned s' l' es) \<and> hp_unbounded s' = st \<and>
    hp_awaiting_processing s' = bs \<and> \<not> hp_stopped s' \<and> \<not> hp_paused s'"
  using assms unfolding uses_unbounded_def
  by (auto simp: height_turn_def Let_def set_next_hash_def within_unbounded_selection_def run_bind_Done)

lemma turn_flush:
  assumes "\<not> hp_stopped s" "\<not> hp_paused s" "hp_awaiting_processing s = []" "\<not> pending_empty (hp_unbounded s)"
    and "write_pending (hp_unbounded s) l = Some (st, l', cem)"
  shows "height_turn n c k mode_a batch_write_size env s l =
    Done (Turned (lock_and_cleanup (s\<lparr>hp_unbounded := st\<rparr>)) l' [Cemented cem])"
  using assms by (simp add: height_turn_def run_bind_Done run_of_Done)

lemma turn_idle:
  assumes "\<not> hp_stopped s" "\<not> hp_paused s" "hp_awaiting_processing s = []" "pending_empty (hp_unbounded s)"
  shows "height_turn n c k mode_a batch_write_size env s l = Done (Turned (lock_and_cleanup s) l [])"
  using assms by (simp add: height_turn_def)

definition hash_of :: "crypto \<Rightarrow> block_entry \<Rightarrow> block_hash" where
  "hash_of c b = generate_hash c (fst b)"

text \<open>What the waiting blocks may add to the heights.\<close>

definition gathers :: "crypto \<Rightarrow> ledger_constants \<Rightarrow> ledger \<Rightarrow> block_hash set \<Rightarrow> (account \<Rightarrow> nat) \<Rightarrow> (account \<Rightarrow> nat) \<Rightarrow> bool" where
  "gathers c k l0 hs v v' \<longleftrightarrow>
     (\<forall>u H. hs \<subseteq> H \<longrightarrow> ledger_graph.confined c k l0 u H v \<longrightarrow> ledger_graph.confined c k l0 u H v') \<and> (\<forall>a. v a \<le> v' a) \<and>
     (\<forall>h \<in> hs. graph_height l0 h \<le> v' (graph_account l0 h))"

lemma gathers_empty: "gathers c k l0 {} v v"
  by (simp add: gathers_def)

lemma gathers_insert:
  assumes "ledger_graph.reaches c k l0 h u v" and "graph_height l0 h \<le> v (graph_account l0 h)" and "gathers c k l0 hs v w"
  shows "gathers c k l0 (insert h hs) u w"
  using assms unfolding gathers_def ledger_graph.reaches_def by (auto intro: order_trans)

lemma batch_run:
  assumes w: "walkable c k l0" and n: "2 * card (dom (blocks_of l0)) + 1 < n"
  shows "\<lbrakk>hp_awaiting_processing s = bs; \<not> hp_stopped s; \<not> hp_paused s; uses_unbounded mode_a l;
      between c k l0 l (hp_unbounded s) v; \<forall>b \<in> set bs. blocks_of l0 (hash_of c b) = Some b;
      length envs = length bs; \<forall>env \<in> set envs. \<forall>i. running (env i)\<rbrakk> \<Longrightarrow>
    \<exists>s' l' es v'. height_turns n c k mode_a batch_write_size envs s l = Done (Turned s' l' es) \<and>
      hp_awaiting_processing s' = [] \<and> \<not> hp_stopped s' \<and> \<not> hp_paused s' \<and> between c k l0 l' (hp_unbounded s') v' \<and>
      ledger_graph.history c k l0 l l' (notified es) \<and> gathers c k l0 (hash_of c ` set bs) v v'"
proof (induction bs arbitrary: s l v envs)
  case Nil
  have "gathers c k l0 (hash_of c ` set []) v v" by (simp add: gathers_empty)
  with Nil show ?case
    by (intro exI [of _ s] exI [of _ l] exI [of _ "[]"] exI [of _ v]) (simp add: ledger_graph.history_refl)
next
  case (Cons b bs)
  from Cons.prems(7) obtain env envs' where e: "envs = env # envs'" "length envs' = length bs" by (cases envs) auto
  have r: "\<forall>i. running (env i)" and b: "blocks_of l0 (hash_of c b) = Some b" using Cons.prems(6,8) e by simp_all
  from between_process [OF w Cons.prems(5) b r n, of batch_write_size] obtain st l1 es v1 where
    p: "unbounded_process n c k batch_write_size env b (hp_unbounded s) l = Done (st, l1, es)" "between c k l0 l1 st v1"
      "ledger_graph.history c k l0 l l1 (notified es)" "graph_height l0 (hash_of c b) \<le> v1 (graph_account l0 (hash_of c b))"
      "ledger_graph.reaches c k l0 (hash_of c b) v v1" by blast
  from turn_process [OF Cons.prems(2,3,1,4) p(1)] obtain s1 where
    s1: "height_turn n c k mode_a batch_write_size env s l = Done (Turned s1 l1 es)" "hp_unbounded s1 = st"
      "hp_awaiting_processing s1 = bs" "\<not> hp_stopped s1" "\<not> hp_paused s1" by blast
  have "uses_unbounded mode_a l1" using uses_unbounded_history [OF p(3)] Cons.prems(4) by simp
  from Cons.IH [OF s1(3,4,5) this, of v1 envs'] p(2) s1(2) Cons.prems(6,8) e obtain s2 l2 fs v2 where
    q: "height_turns n c k mode_a batch_write_size envs' s1 l1 = Done (Turned s2 l2 fs)" "hp_awaiting_processing s2 = []"
      "\<not> hp_stopped s2" "\<not> hp_paused s2" "between c k l0 l2 (hp_unbounded s2) v2"
      "ledger_graph.history c k l0 l1 l2 (notified fs)" "gathers c k l0 (hash_of c ` set bs) v1 v2" by auto
  have "height_turns n c k mode_a batch_write_size envs s l = Done (Turned s2 l2 (es @ fs))"
    using e(1) s1(1) q(1) by (simp add: run_bind_Done)
  moreover have "ledger_graph.history c k l0 l l2 (notified (es @ fs))"
    using ledger_graph.history_trans [OF p(3) q(6)] by (simp add: notified_append)
  moreover have "gathers c k l0 (hash_of c ` set (b # bs)) v v2" using gathers_insert [OF p(5,4) q(7)] by simp
  ultimately show ?case using q(2-5) by blast
qed

lemma height_turns_Cons:
  assumes "height_turns n c k mode_a batch_write_size (env # envs) s l = Done (Turned s' l' es)"
  obtains s1 l1 es1 es2 where "height_turn n c k mode_a batch_write_size env s l = Done (Turned s1 l1 es1)"
    "height_turns n c k mode_a batch_write_size envs s1 l1 = Done (Turned s' l' es2)" "es = es1 @ es2"
  using assms by (cases "height_turn n c k mode_a batch_write_size env s l") 
    (auto elim!: run_bind.elims split: height_outcome.splits)

lemma height_turns_append:
  assumes "height_turns n c k mode_a batch_write_size envs s l = Done (Turned s' l' es)"
    and "height_turn n c k mode_a batch_write_size env s' l' = Done (Turned s'' l'' fs)"
  shows "height_turns n c k mode_a batch_write_size (envs @ [env]) s l = Done (Turned s'' l'' (es @ fs))"
  using assms
proof (induction envs arbitrary: s l es)
  case Nil
  then show ?case by (simp add: run_bind_Done)
next
  case (Cons e envs)
  from Cons.prems(1) obtain s1 l1 es1 es2 where
    "height_turn n c k mode_a batch_write_size e s l = Done (Turned s1 l1 es1)"
    "height_turns n c k mode_a batch_write_size envs s1 l1 = Done (Turned s' l' es2)" "es = es1 @ es2"
    by (rule height_turns_Cons)
  with Cons.IH [OF _ Cons.prems(2)] show ?case by (simp add: run_bind_Done)
qed

lemma cleanup_simps [simp]:
  "hp_awaiting_processing (lock_and_cleanup s) = hp_awaiting_processing s" "hp_stopped (lock_and_cleanup s) = hp_stopped s"
  "hp_paused (lock_and_cleanup s) = hp_paused s" "hp_unbounded (lock_and_cleanup s) = clear_process_vars (hp_unbounded s)"
  by (simp_all add: lock_and_cleanup_def)

lemma pending_clear [simp]: "pending_empty (clear_process_vars st) = pending_empty st"
  by (simp add: pending_empty_def clear_process_vars_def)

text \<open>The turn after the last block: what waits is written.\<close>

lemma last_turn:
  assumes bt: "between c k l0 l (hp_unbounded s) v" and s: "\<not> hp_stopped s" "\<not> hp_paused s" "hp_awaiting_processing s = []"
  shows "\<exists>s' l' es. height_turn n c k mode_a batch_write_size env s l = Done (Turned s' l' es) \<and>
    hp_awaiting_processing s' = [] \<and> pending_empty (hp_unbounded s') \<and> ledger_graph.history c k l0 l l' (notified es) \<and>
    blocks_of l' = blocks_of l0 \<and> conf_heights l' = v \<and> ledger_graph.sources_closed c k l0 v"
proof (cases "pending_empty (hp_unbounded s)")
  case True
  with between_facts [OF bt] turn_idle [OF s True] s(3) ledger_graph.history_refl show ?thesis by (auto intro!: exI [of _ "[]"])
next
  case False
  from between_flush [OF bt False] obtain l' cem where
    f: "write_pending (hp_unbounded s) l = Some ((hp_unbounded s)\<lparr>cu_pending_writes := []\<rparr>, l', cem)"
      "ledger_graph.history c k l0 l l' cem" "conf_heights l' = v" "blocks_of l' = blocks_of l0"
      "ledger_graph.sources_closed c k l0 v" by blast
  show ?thesis
    by (intro exI conjI, rule turn_flush [OF s False f(1)])
      (use f s(3) in \<open>simp_all add: pending_empty_def clear_process_vars_def\<close>)
qed

text \<open>The processor at the start of a batch: blocks of the ledger wait, and nothing waits to be written.\<close>

definition batch_ready :: "crypto \<Rightarrow> confirmation_height_mode \<Rightarrow> height_processor \<Rightarrow> ledger \<Rightarrow> bool" where
  "batch_ready c mode_a s l \<longleftrightarrow>
     \<not> hp_stopped s \<and> \<not> hp_paused s \<and> pending_empty (hp_unbounded s) \<and> uses_unbounded mode_a l \<and>
     (\<forall>b \<in> set (hp_awaiting_processing s). blocks_of l (hash_of c b) = Some b)"

lemma walkable_genesis:
  assumes "walkable c k l"
  shows "blocks_of l (genesis_hash c k) \<noteq> None"
proof -
  from assms reachable_inv obtain rk rp where "ledger_inv c k rk rp max_supply l" unfolding walkable_def by metis
  from ledger_invD(12) [OF this] show ?thesis by (auto simp: genesis_ok_def split: option.splits)
qed

lemma batch_result:
  assumes w: "walkable c k l" and s: "batch_ready c mode_a s l" and n: "2 * card (dom (blocks_of l)) + 1 < n"
    and envs: "length envs = length (hp_awaiting_processing s)" "\<forall>env \<in> set envs. \<forall>i. running (env i)"
  shows "\<exists>s' l' es. height_turns n c k mode_a batch_write_size (envs @ [env]) s l = Done (Turned s' l' es) \<and>
    hp_awaiting_processing s' = [] \<and> pending_empty (hp_unbounded s') \<and> reachable c k l' \<and> blocks_of l' = blocks_of l \<and>
    ledger_graph.history c k l l l' (notified es) \<and> ledger_graph.sources_closed c k l (conf_heights l') \<and>
    gathers c k l (hash_of c ` set (hp_awaiting_processing s)) (conf_heights l) (conf_heights l')"
proof -
  note s = s [unfolded batch_ready_def]
  from s have e: "pending_empty (hp_unbounded s)" and st: "\<not> hp_stopped s" "\<not> hp_paused s" and u: "uses_unbounded mode_a l"
    and b: "\<forall>b \<in> set (hp_awaiting_processing s). blocks_of l (hash_of c b) = Some b" by simp_all
  from batch_run [OF w n refl st u between_start [OF w walkable_genesis [OF w] e] b envs, of batch_write_size]
  obtain s1 l1 es v where p: "height_turns n c k mode_a batch_write_size envs s l = Done (Turned s1 l1 es)"
      "hp_awaiting_processing s1 = []" "\<not> hp_stopped s1" "\<not> hp_paused s1" "between c k l l1 (hp_unbounded s1) v"
      "ledger_graph.history c k l l l1 (notified es)"
      "gathers c k l (hash_of c ` set (hp_awaiting_processing s)) (conf_heights l) v" by blast
  from last_turn [OF p(5,3,4,2), of n mode_a batch_write_size env] obtain s2 l2 fs where
    q: "height_turn n c k mode_a batch_write_size env s1 l1 = Done (Turned s2 l2 fs)" "hp_awaiting_processing s2 = []"
      "pending_empty (hp_unbounded s2)" "ledger_graph.history c k l l1 l2 (notified fs)" "blocks_of l2 = blocks_of l"
      "conf_heights l2 = v" "ledger_graph.sources_closed c k l v" by blast
  have h: "ledger_graph.history c k l l l2 (notified (es @ fs))"
    using ledger_graph.history_trans [OF p(6) q(4)] by (simp add: notified_append)
  moreover have "reachable c k l2" using h w by (simp add: ledger_graph.history_def walkable_def)
  ultimately show ?thesis using height_turns_append [OF p(1) q(1)] q p(7) by (intro exI conjI) auto
qed

lemma batch_settled:
  assumes w: "walkable c k l" and l': "reachable c k l'" "blocks_of l' = blocks_of l"
    and cl: "ledger_graph.sources_closed c k l (conf_heights l')" and g: "gathers c k l hs (conf_heights l) (conf_heights l')"
  shows "block_confirmed l' x \<longleftrightarrow> block_confirmed l x \<or> (\<exists>h \<in> hs. depends c k l h x)"
proof -
  have r: "reachable c k l" using w by (simp add: walkable_def)
  note gb = graph_blocks_walkable [OF w] and cf = confirmed_height [OF w r refl] confirmed_height [OF w l']
  have "ledger_graph.confined c k l (conf_heights l) hs (conf_heights l)" by (simp add: ledger_graph.confined_def)
  with g have c: "ledger_graph.confined c k l (conf_heights l) hs (conf_heights l')" by (auto simp: gathers_def)
  show ?thesis
  proof
    assume "block_confirmed l' x"
    with c gb show "block_confirmed l x \<or> (\<exists>h \<in> hs. depends c k l h x)"
      unfolding cf depends_needs [OF w] ledger_graph.confined_def by auto
  next
    assume "block_confirmed l x \<or> (\<exists>h \<in> hs. depends c k l h x)"
    then show "block_confirmed l' x"
    proof
      assume "block_confirmed l x"
      with g show ?thesis unfolding cf gathers_def by (meson order_trans)
    next
      assume "\<exists>h \<in> hs. depends c k l h x"
      then obtain h where h: "h \<in> hs" "ledger_graph.needs c k l h x" by (auto simp: depends_needs [OF w])
      with g have "graph_height l h \<le> conf_heights l' (graph_account l h)" by (simp add: gathers_def)
      from ledger_graph.needs_confirmed [OF cl this h(2)] ledger_graph.needs_stored [OF h(2)] gb show ?thesis by (simp add: cf)
    qed
  qed
qed

section \<open>The states of the node\<close>

text \<open>
  The ledger with the processor: blocks are processed and rolled back while no write waits, blocks are added at any
  time, and the thread takes its turns.  A turn is one with \<open>confirmation_height_unbounded\<close>, during which the node is not
  stopped; the block that it takes is one of the ledger, and no account that money is sent to is the hash of a block.
\<close>

inductive height_reach :: "crypto \<Rightarrow> ledger_constants \<Rightarrow> height_processor \<Rightarrow> ledger \<Rightarrow> bool" for c k where
  hr_start: "genesis_block_ok c k \<Longrightarrow> store_initialize c k now empty_ledger = Some l \<Longrightarrow> pending_empty st \<Longrightarrow>
    height_reach c k (height_processor_new st) l"
| hr_process: "height_reach c k s l \<Longrightarrow> pending_empty (hp_unbounded s) \<Longrightarrow> process c k now l b v = Some p \<Longrightarrow>
    (p_code p = pr_progress \<longrightarrow> admissible c k l b) \<Longrightarrow> height_reach c k s (p_ledger p)"
| hr_rollback: "height_reach c k s l \<Longrightarrow> pending_empty (hp_unbounded s) \<Longrightarrow> blocks_of l h \<noteq> None \<Longrightarrow>
    rollback n c k clock l h ls = Done (err, l', ls') \<Longrightarrow> height_reach c k s l'"
| hr_add: "height_reach c k s l \<Longrightarrow> height_reach c k (height_add c b s) l"
| hr_pause: "height_reach c k s l \<Longrightarrow> height_reach c k (height_pause s) l"
| hr_unpause: "height_reach c k s l \<Longrightarrow> height_reach c k (height_unpause s) l"
| hr_stop: "height_reach c k s l \<Longrightarrow> height_reach c k (height_stop s) l"
| hr_turn: "height_reach c k s l \<Longrightarrow> hashes_apart l \<Longrightarrow> 2 * card (dom (blocks_of l)) + 1 < n \<Longrightarrow> \<forall>i. running (env i) \<Longrightarrow>
    \<forall>b bs. hp_awaiting_processing s = b # bs \<longrightarrow> blocks_of l (hash_of c b) = Some b \<Longrightarrow>
    height_turn n c k mode_a batch_write_size env s l = Done (Turned s' l' es) \<Longrightarrow> height_reach c k s' l'"

definition height_inv :: "crypto \<Rightarrow> ledger_constants \<Rightarrow> confirmation_height_unbounded \<Rightarrow> ledger \<Rightarrow> bool" where
  "height_inv c k st l \<longleftrightarrow>
     reachable c k l \<and> (pending_empty st \<or> (\<exists>l0 v. walkable c k l0 \<and> between c k l0 l st v))"

lemma height_fields [simp]:
  "hp_unbounded (height_processor_new st) = st" "hp_unbounded (height_add c b s) = hp_unbounded s"
  "hp_unbounded (height_pause s) = hp_unbounded s" "hp_unbounded (height_unpause s) = hp_unbounded s"
  "hp_unbounded (height_stop s) = hp_unbounded s"
  by (simp_all add: height_processor_new_def height_add_def height_pause_def height_unpause_def height_stop_def)

lemma turn_cases:
  assumes "height_turn n c k mode_a batch_write_size env s l = Done (Turned s' l' es)"
  obtains (rest) "l' = l" "hp_unbounded s' = hp_unbounded s \<or> hp_unbounded s' = clear_process_vars (hp_unbounded s) \<and> pending_empty (hp_unbounded s)"
  | (block) b bs st where "hp_awaiting_processing s = b # bs" "hp_unbounded s' = st"
      "unbounded_process n c k batch_write_size env b (hp_unbounded s) l = Done (st, l', es)"
  | (flush) st cem where "\<not> pending_empty (hp_unbounded s)" "write_pending (hp_unbounded s) l = Some (st, l', cem)"
      "hp_unbounded s' = clear_process_vars st"
proof -
  consider (a) "hp_stopped s \<or> hp_paused s" | (b) b bs where "\<not> hp_stopped s" "\<not> hp_paused s" "hp_awaiting_processing s = b # bs"
    | (c) "\<not> hp_stopped s" "\<not> hp_paused s" "hp_awaiting_processing s = []" by (cases "hp_awaiting_processing s") auto
  then show thesis
  proof cases
    case a
    with assms rest show ?thesis by (auto simp: height_turn_def split: if_splits)
  next
    case b
    with assms block [of b bs] show ?thesis
      by (auto simp: height_turn_def Let_def set_next_hash_def run_bind_Done split: if_splits)
  next
    case c
    with assms rest flush show ?thesis
      by (auto simp: height_turn_def run_bind_Done run_of_Done split: if_splits)
  qed
qed

lemma turn_inv:
  assumes i: "height_inv c k (hp_unbounded s) l" and k: "constants_ok k" and h: "hashes_apart l"
    and n: "2 * card (dom (blocks_of l)) + 1 < n" and run: "\<forall>i. running (env i)"
    and b: "\<forall>b bs. hp_awaiting_processing s = b # bs \<longrightarrow> blocks_of l (hash_of c b) = Some b"
    and t: "height_turn n c k mode_a batch_write_size env s l = Done (Turned s' l' es)"
  shows "height_inv c k (hp_unbounded s') l' \<and> blocks_of l' = blocks_of l"
proof -
  have r: "reachable c k l" using i by (simp add: height_inv_def)
  have w: "walkable c k l" using r k h by (simp add: walkable_def)
  from between_start [OF w walkable_genesis [OF w]] w i obtain l0 v where
    l0: "walkable c k l0" "between c k l0 l (hp_unbounded s) v" unfolding height_inv_def by blast
  note bl = between_facts(1) [OF l0(2)]
  from t show ?thesis
  proof (cases rule: turn_cases)
    case rest
    with i show ?thesis by (auto simp: height_inv_def)
  next
    case (block x xs st)
    have "blocks_of l0 (hash_of c x) = Some x" using b block(1) bl by simp
    from between_process [OF l0 this run, of n batch_write_size] n bl block(3) obtain v' where
      v': "between c k l0 l' st v'" "ledger_graph.history c k l0 l l' (notified es)" by auto
    with r l0(1) block(2) bl between_facts(1) [OF v'(1)] show ?thesis by (auto simp: height_inv_def ledger_graph.history_def)
  next
    case (flush st cem)
    from between_flush [OF l0(2) flush(1)] flush(2,3) r bl show ?thesis
      by (auto simp: height_inv_def ledger_graph.history_def pending_empty_def clear_process_vars_def)
  qed
qed

lemma height_reach_inv:
  assumes "height_reach c k s l" and k: "constants_ok k"
  shows "height_inv c k (hp_unbounded s) l"
  using assms(1)
proof induction
  case (hr_start now l st)
  then show ?case using reach_start by (auto simp: height_inv_def)
next
  case (hr_process s l now b v p)
  from hr_process(5) have "reachable c k l" by (simp add: height_inv_def)
  from reach_step [OF this step_process [OF hr_process(4,3)]] hr_process(2) show ?case by (simp add: height_inv_def)
next
  case (hr_rollback s l h n clock ls err l' ls')
  from hr_rollback(5) have "reachable c k l" by (simp add: height_inv_def)
  from reach_step [OF this step_rollback [OF hr_rollback(3,4)]] hr_rollback(2) show ?case by (simp add: height_inv_def)
next
  case (hr_turn s l n env mode_a batch_write_size s' l' es)
  from turn_inv [OF hr_turn(7) k hr_turn(2-6)] show ?case ..
qed simp_all

lemma turn_awaiting:
  "height_turn n c k mode_a batch_write_size env s l = Done (Turned s' l' es) \<Longrightarrow>
    set (hp_awaiting_processing s') \<subseteq> set (hp_awaiting_processing s)"
  by (cases "hp_awaiting_processing s")
    (auto simp: height_turn_def Let_def set_next_hash_def run_bind_Done split: if_splits)

lemma turns_reach:
  "\<lbrakk>height_reach c k s l; constants_ok k; hashes_apart l; 2 * card (dom (blocks_of l)) + 1 < n;
    \<forall>env \<in> set envs. \<forall>i. running (env i); \<forall>b \<in> set (hp_awaiting_processing s). blocks_of l (hash_of c b) = Some b;
    height_turns n c k mode_a batch_write_size envs s l = Done (Turned s' l' es)\<rbrakk> \<Longrightarrow>
   height_reach c k s' l' \<and> blocks_of l' = blocks_of l"
proof (induction envs arbitrary: s l es)
  case (Cons env envs)
  from Cons.prems(7) obtain s1 l1 es1 es2 where
    t: "height_turn n c k mode_a batch_write_size env s l = Done (Turned s1 l1 es1)"
      "height_turns n c k mode_a batch_write_size envs s1 l1 = Done (Turned s' l' es2)"
    by (rule height_turns_Cons)
  have r: "\<forall>i. running (env i)" and b: "\<forall>b bs. hp_awaiting_processing s = b # bs \<longrightarrow> blocks_of l (hash_of c b) = Some b"
    using Cons.prems(5,6) by simp_all
  note h = hr_turn [OF Cons.prems(1,3,4) r b t(1)]
  from turn_inv [OF height_reach_inv [OF Cons.prems(1,2)] Cons.prems(2,3,4) r b t(1)] have l1: "blocks_of l1 = blocks_of l" ..
  then have "hashes_apart l1" "\<forall>b \<in> set (hp_awaiting_processing s1). blocks_of l1 (hash_of c b) = Some b"
    using Cons.prems(3,6) turn_awaiting [OF t(1)] by (auto simp: hashes_apart_def)
  with Cons.IH [OF h Cons.prems(2) _ _ _ _ t(2)] Cons.prems(4,5) l1 show ?case by simp
qed simp

section \<open>The sample ledger\<close>

definition sample_entry :: "block_hash \<Rightarrow> block_entry" where
  "sample_entry h = the (blocks_of sample_2 h)"

text \<open>The send 105 and the receive 205 wait.\<close>

definition sample_height :: height_processor where
  "sample_height =
     height_add sample_crypto (sample_entry 205)
       (height_add sample_crypto (sample_entry 105) (height_processor_new sample_unbounded))"

lemma sample_entries:
  "blocks_of sample_2 105 = Some (sample_entry 105)" "blocks_of sample_2 205 = Some (sample_entry 205)"
  using sample_2_blocks [of 105] sample_2_blocks [of 205] by (auto simp: sample_entry_def)

lemma sample_hashes: "hash_of sample_crypto (sample_entry 105) = 105" "hash_of sample_crypto (sample_entry 205) = 205"
  using ledger_graph.walk_hash [of 105 sample_crypto sample_constants sample_2]
    ledger_graph.walk_hash [of 205 sample_crypto sample_constants sample_2] graph_blocks_walkable [OF sample_walkable] sample_2_blocks
  by (simp_all add: hash_of_def sample_entry_def)

lemma sample_height_fields:
  "hp_awaiting_processing sample_height = [sample_entry 105, sample_entry 205]" "hp_unbounded sample_height = sample_unbounded"
  "\<not> hp_stopped sample_height" "\<not> hp_paused sample_height"
  using sample_hashes by (simp_all add: sample_height_def height_add_def height_processor_new_def hash_of_def)

lemma sample_ready: "batch_ready sample_crypto Hm_unbounded sample_height sample_2"
  using sample_processor sample_entries sample_hashes by (simp add: batch_ready_def sample_height_fields uses_unbounded_def)

lemma sample_205: "\<not> block_confirmed sample_2 205"
proof -
  from reachable_inv [OF sample_reachable(3) sample_constants_ok] obtain rk rp where
    inv: "ledger_inv sample_crypto sample_constants rk rp max_supply sample_2" .
  have "account_calculated (sample_entry 205) = 5" "sb_height (snd (sample_entry 205)) = 1"
    by (simp_all add: sample_entry_def sample_2_tables account_calculated_def sample_receive_block_def sideband_stored_def)
  then show ?thesis unfolding confirmed_iff [OF inv]
    by (simp add: confirmed_at_def sample_entries conf_at_def sample_2_tables(4))
qed

section \<open>What a batch does\<close>

text \<open>
  C17: the blocks that were added become confirmed with everything they depend on, and nothing else.  Blocks of a
  ledger wait in the confirmation height processor, which has no write waiting and is neither stopped nor paused.
  A turn of its thread for each of them and one more return, whatever the sizes of the batches and the times at
  which the database can be written, also when writes of one block still wait as the next is taken.  Then nothing waits,
  the ledger is one that a node reaches, and a block is confirmed iff it was confirmed before or one of the added blocks
  depends on it.  This is for ledgers reached as \<open>reachable\<close> says in which no account that money is sent to is the hash of
  a block, for turns in which the node is not stopped and the blocks of the ledger do not change, and
  for the unbounded processor: it is asked for, or the ledger has fewer blocks than the cutoff.
\<close>

theorem height_batch_confirms:
  assumes "walkable c k l" and "batch_ready c mode_a s l" and "2 * card (dom (blocks_of l)) + 1 < n"
    and "length envs = length (hp_awaiting_processing s)" and "\<forall>env \<in> set envs. \<forall>i. running (env i)"
  shows "\<exists>s' l' es. height_turns n c k mode_a batch_write_size (envs @ [env]) s l = Done (Turned s' l' es) \<and>
    hp_awaiting_processing s' = [] \<and> pending_empty (hp_unbounded s') \<and> reachable c k l' \<and>
    (\<forall>x. block_confirmed l' x \<longleftrightarrow>
       block_confirmed l x \<or> (\<exists>b \<in> set (hp_awaiting_processing s). depends c k l (hash_of c b) x))"
proof -
  from batch_result [OF assms, of batch_write_size env] obtain s' l' es where
    p: "height_turns n c k mode_a batch_write_size (envs @ [env]) s l = Done (Turned s' l' es)" "hp_awaiting_processing s' = []"
      "pending_empty (hp_unbounded s')" "reachable c k l'" "blocks_of l' = blocks_of l"
      "ledger_graph.sources_closed c k l (conf_heights l')"
      "gathers c k l (hash_of c ` set (hp_awaiting_processing s)) (conf_heights l) (conf_heights l')" by blast
  have "block_confirmed l' x \<longleftrightarrow> block_confirmed l x \<or> (\<exists>b \<in> set (hp_awaiting_processing s). depends c k l (hash_of c b) x)" for x
    using batch_settled [OF assms(1) p(4-7), of x] by auto
  with p(1-4) show ?thesis by (intro exI conjI allI) auto
qed

theorem height_batch_confirms_witness:
  "\<exists>s' l' es. height_turns 8 sample_crypto sample_constants Hm_unbounded 16384 (replicate 3 (\<lambda>_. sample_env)) sample_height sample_2 =
      Done (Turned s' l' es) \<and>
    \<not> block_confirmed sample_2 105 \<and> block_confirmed l' 105 \<and> block_confirmed l' 205"
proof -
  let ?e = "\<lambda>_ :: nat. sample_env"
  have "depends sample_crypto sample_constants sample_2 205 205" by (rule depends_self) (use sample_2_blocks in blast)
  moreover have "\<forall>env \<in> set [?e, ?e]. \<forall>i. running (env i)" "length [?e, ?e] = length (hp_awaiting_processing sample_height)"
    using sample_processor by (simp_all add: sample_height_fields)
  note height_batch_confirms [OF sample_walkable sample_ready sample_2_card this(2,1), of 16384 ?e]
  ultimately show ?thesis using sample_depends sample_105
    by (auto simp: sample_height_fields sample_hashes numeral_3_eq_3)
qed

text \<open>
  C18: the observers are told of every block that becomes confirmed, once, and after the blocks that it
  depends on.  In such a batch the blocks of the notifications are exactly the blocks that are confirmed afterwards and were
  not before, as the ledger stores them; the cemented count grows by their number.  The conditions are those of
  the batch: a ledger as \<open>reachable\<close> says in which no account that money is sent to is the hash of a block, the unbounded
  processor, no stop, and no change of the blocks meanwhile.
\<close>

theorem height_batch_notifies:
  assumes "walkable c k l" and "batch_ready c mode_a s l" and "2 * card (dom (blocks_of l)) + 1 < n"
    and "length envs = length (hp_awaiting_processing s)" and "\<forall>env \<in> set envs. \<forall>i. running (env i)"
    and "height_turns n c k mode_a batch_write_size (envs @ [env]) s l = Done (Turned s' l' es)"
  shows "\<exists>hs. notified es = map (\<lambda>x. the (blocks_of l x)) hs \<and> distinct hs \<and>
    set hs = {x. block_confirmed l' x \<and> \<not> block_confirmed l x} \<and>
    (\<forall>ys y zs x. hs = ys @ y # zs \<and> depends c k l y x \<longrightarrow> x = y \<or> block_confirmed l x \<or> x \<in> set ys) \<and>
    lc_cemented_count (l_cache l') = lc_cemented_count (l_cache l) + of_nat (length hs)"
proof -
  note w = assms(1) and gb = graph_blocks_walkable [OF assms(1)]
  from batch_result [OF assms(1-5), of batch_write_size env] assms(6)
  have p: "ledger_graph.history c k l l l' (notified es)" "blocks_of l' = blocks_of l" "reachable c k l'" by auto
  then obtain xs where xs: "ledger_graph.plan c k l (conf_heights l) xs (conf_heights l')"
    "notified es = map (ledger_graph.entry l) (ledger_graph.raised c k l (conf_heights l) xs)"
    "recemented l (length (notified es)) l'" unfolding ledger_graph.history_def by blast
  let ?hs = "ledger_graph.raised c k l (conf_heights l) xs"
  have r: "reachable c k l" using w by (simp add: walkable_def)
  have "set ?hs = {x. block_confirmed l' x \<and> \<not> block_confirmed l x}"
    using ledger_graph.raised_set [OF xs(1)] gb
    unfolding confirmed_height [OF w r refl] confirmed_height [OF w p(3,2)] by auto
  moreover have "notified es = map (\<lambda>x. the (blocks_of l x)) ?hs" using xs(2) by (simp add: ledger_graph.entry_def)
  moreover have "lc_cemented_count (l_cache l') = lc_cemented_count (l_cache l) + of_nat (length ?hs)"
    using xs(2,3) by (auto simp: recemented_def)
  ultimately show ?thesis
    using ledger_graph.raised_distinct [OF xs(1)] history_order [OF w xs(1)] by blast
qed

lemma sample_height_reach: "height_reach sample_crypto sample_constants sample_height sample_2"
proof -
  note st = hr_start [OF sample_genesis sample_init sample_processor(2)]
  have "height_reach sample_crypto sample_constants (height_processor_new sample_unbounded) sample_1"
    using sample_sent hr_process [OF st _ _ impI [OF sample_admissible(1)]] sample_processor(2)
    unfolding sample_1_def sample_process_def by fastforce
  from hr_process [OF this _ _ impI [OF sample_admissible(2)]] sample_received sample_processor(2)
  have "height_reach sample_crypto sample_constants (height_processor_new sample_unbounded) sample_2"
    unfolding sample_2_def sample_process_def by fastforce
  from hr_add [OF hr_add [OF this]] show ?thesis unfolding sample_height_def .
qed

lemma sample_batch:
  "\<exists>s' l' es. height_turns 8 sample_crypto sample_constants Hm_unbounded 16384 ([\<lambda>_. sample_env, \<lambda>_. sample_env] @ [\<lambda>_. sample_env])
      sample_height sample_2 = Done (Turned s' l' es) \<and> block_confirmed l' 105 \<and> block_confirmed l' 205 \<and>
    height_reach sample_crypto sample_constants s' l' \<and> blocks_of l' = blocks_of sample_2"
proof -
  let ?e = "\<lambda>_ :: nat. sample_env"
  have e: "length [?e, ?e] = length (hp_awaiting_processing sample_height)" "\<forall>env \<in> set [?e, ?e]. \<forall>i. running (env i)"
    "\<forall>env \<in> set ([?e, ?e] @ [?e]). \<forall>i. running (env i)"
    using sample_processor by (simp_all add: sample_height_fields)
  from batch_result [OF sample_walkable sample_ready sample_2_card e(1,2), of 16384 ?e] obtain s' l' es where
    p: "height_turns 8 sample_crypto sample_constants Hm_unbounded 16384 ([?e, ?e] @ [?e]) sample_height sample_2 = Done (Turned s' l' es)"
      "reachable sample_crypto sample_constants l'" "blocks_of l' = blocks_of sample_2"
      "ledger_graph.sources_closed sample_crypto sample_constants sample_2 (conf_heights l')"
      "gathers sample_crypto sample_constants sample_2 (hash_of sample_crypto ` set (hp_awaiting_processing sample_height))
         (conf_heights sample_2) (conf_heights l')" by blast
  have "depends sample_crypto sample_constants sample_2 205 205" by (rule depends_self) (use sample_2_blocks in blast)
  with batch_settled [OF sample_walkable p(2-5)] sample_depends have "block_confirmed l' 105" "block_confirmed l' 205"
    by (auto simp: sample_height_fields sample_hashes)
  moreover have "hashes_apart sample_2" using sample_walkable by (simp add: walkable_def)
  from turns_reach [OF sample_height_reach sample_constants_ok this sample_2_card e(3) _ p(1)]
  have "height_reach sample_crypto sample_constants s' l'" using sample_ready by (simp add: batch_ready_def)
  ultimately show ?thesis using p(1,3) by blast
qed

theorem height_batch_notifies_witness:
  "\<exists>s' l' es hs. height_turns 8 sample_crypto sample_constants Hm_unbounded 16384 (replicate 3 (\<lambda>_. sample_env)) sample_height sample_2 =
      Done (Turned s' l' es) \<and>
    notified es = map (\<lambda>x. the (blocks_of sample_2 x)) hs \<and> distinct hs \<and> 105 \<in> set hs \<and> 205 \<in> set hs"
proof -
  let ?e = "\<lambda>_ :: nat. sample_env"
  have e: "length [?e, ?e] = length (hp_awaiting_processing sample_height)" "\<forall>env \<in> set [?e, ?e]. \<forall>i. running (env i)"
    using sample_processor by (simp_all add: sample_height_fields)
  from sample_batch obtain s' l' es where
    p: "height_turns 8 sample_crypto sample_constants Hm_unbounded 16384 ([?e, ?e] @ [?e]) sample_height sample_2 = Done (Turned s' l' es)"
      "block_confirmed l' 105" "block_confirmed l' 205" by blast
  from height_batch_notifies [OF sample_walkable sample_ready sample_2_card e p(1)] p(2,3) sample_105 sample_205 obtain hs where
    "notified es = map (\<lambda>x. the (blocks_of sample_2 x)) hs" "distinct hs" "105 \<in> set hs" "205 \<in> set hs" by blast
  moreover have "replicate 3 ?e = [?e, ?e] @ [?e]" by (simp add: numeral_3_eq_3)
  ultimately show ?thesis using p(1) by metis
qed



end
