(* ===== verification/Election_Data.thy ===== *)
theory Election_Data
  imports Votes "HOL-Library.AList"
begin

text \<open>
  The data of an election of \<^verbatim>\<open>node/election.hpp\<close>.  A hash map is an association list with one entry
  per key; where the order of its iteration can be seen, the order is the parameter \<open>ee_order\<close>.
  Times are nanoseconds: \<open>ee_now\<close> is the steady clock and \<open>ee_system_now\<close> the system clock, each
  read once per operation.  What an operation does to the rest of the node is a list of effects.
\<close>

datatype state_t =
  St_passive | St_active | St_confirmed | St_expired_confirmed | St_expired_unconfirmed

datatype election_status_type =
  Ongoing | Active_confirmed_quorum | Active_confirmation_height | Inactive_confirmation_height | Stopped

datatype election_behavior = Normal | Optimistic

record vote_info =
  vi_time :: int
  vi_timestamp :: u64
  vi_hash :: block_hash

record election_status =
  es_winner :: block
  es_tally :: u128
  es_final_tally :: u128
  es_election_end :: int
  es_election_duration :: int
  es_confirmation_request_count :: u32
  es_block_count :: u32
  es_voter_count :: u32
  es_type :: election_status_type

type_synonym last_blocks = "(block_hash \<times> block) list"
type_synonym last_votes = "(account \<times> vote_info) list"
type_synonym block_weights = "(block_hash \<times> u128) list"

record election =
  el_state :: state_t
  el_state_start :: int
  el_last_block :: int
  el_last_req :: int
  el_confirmation_request_count :: u32
  el_status :: election_status
  el_height :: u64
  el_root :: root
  el_qualified_root :: qualified_root
  el_last_blocks :: last_blocks
  el_last_votes :: last_votes
  el_is_quorum :: bool
  el_final_weight :: u128
  el_last_tally :: block_weights
  el_behavior :: election_behavior
  el_election_start :: int

record election_env =
  ee_now :: int
  ee_system_now :: int
  ee_weight :: "account \<Rightarrow> u128"
  ee_delta :: u128
  ee_trended :: u128
  ee_dev_network :: bool
  ee_canary :: bool
  ee_voting :: bool
  ee_history :: "root \<Rightarrow> block_hash \<Rightarrow> account list"
  ee_inactive_tally :: "block_hash \<Rightarrow> u128"
  ee_order :: "block_hash list \<Rightarrow> block_hash list"

type_synonym channel = nat

datatype election_effect =
  Generator_add root block_hash
| Final_generator_add root block_hash
| Process_confirmed election_status
| Confirmation_action block
| Force block
| History_erase root
| Live_vote account
| Publish_filter_clear block
| Flood_block block
| Active_erase_hash block_hash
| Send_publish channel block
| Flood_publish block
| Send_confirm_req channel "(block_hash \<times> root) list"

text \<open>
  The state an operation of an election works on: the election, the hashes that
  \<open>active_transactions::election_winner_details\<close> holds, and the effects so far.
\<close>

record election_ctx =
  ec_election :: election
  ec_winners :: "block_hash set"
  ec_effects :: "election_effect list"

definition emit :: "election_effect \<Rightarrow> election_ctx \<Rightarrow> election_ctx" where
  "emit f x = x\<lparr>ec_effects := ec_effects x @ [f]\<rparr>"

definition with_election :: "(election \<Rightarrow> election) \<Rightarrow> election_ctx \<Rightarrow> election_ctx" where
  "with_election f x = x\<lparr>ec_election := f (ec_election x)\<rparr>"

definition winner_hash :: "crypto \<Rightarrow> election \<Rightarrow> block_hash" where
  "winner_hash c e = generate_hash c (es_winner (el_status e))"

definition milliseconds :: int where
  "milliseconds = 10 ^ 6"

definition seconds :: int where
  "seconds = 10 ^ 9"

definition base_latency :: "bool \<Rightarrow> int" where
  "base_latency dev_network = (if dev_network then 25 * milliseconds else 1000 * milliseconds)"

definition optimistic :: "election \<Rightarrow> bool" where
  "optimistic e \<longleftrightarrow> el_behavior e = Optimistic"

lemma ctx_simps [simp]:
  "ec_election (emit f x) = ec_election x"
  "ec_winners (emit f x) = ec_winners x"
  "ec_effects (emit f x) = ec_effects x @ [f]"
  "ec_election (with_election g x) = g (ec_election x)"
  "ec_winners (with_election g x) = ec_winners x"
  "ec_effects (with_election g x) = ec_effects x"
  by (simp_all add: emit_def with_election_def)

end
