(* ===== verification/Solicitor.thy ===== *)
theory Solicitor
  imports Election_Data
begin

text \<open>
  \<^verbatim>\<open>node/confirmation_solicitor.cpp\<close>: batches the requests for confirmation that the elections make in one
  round of the request loop and limits the broadcasts of their winners.  A channel is its identity.
\<close>

record representative =
  rp_account :: account
  rp_weight :: u128
  rp_channel :: channel

record solicitor =
  so_max_block_broadcasts :: nat
  so_max_election_requests :: nat
  so_max_election_broadcasts :: nat
  so_rebroadcasted :: u32
  so_representatives_requests :: "representative list"
  so_representatives_broadcasts :: "representative list"
  so_requests :: "(channel \<times> (block_hash \<times> root) list) list"
  so_prepared :: bool

definition confirm_req_hashes_max :: nat where
  "confirm_req_hashes_max = 7"

definition solicitor_new :: "bool \<Rightarrow> nat \<Rightarrow> solicitor" where
  "solicitor_new dev_network fanout =
     \<lparr>so_max_block_broadcasts = (if dev_network then 4 else 30),
      so_max_election_requests = 50,
      so_max_election_broadcasts = max (fanout div 2) 1,
      so_rebroadcasted = 0, so_representatives_requests = [], so_representatives_broadcasts = [],
      so_requests = [], so_prepared = False\<rparr>"

definition solicitor_prepare :: "representative list \<Rightarrow> solicitor \<Rightarrow> solicitor" where
  "solicitor_prepare representatives_a s =
     s\<lparr>so_requests := [], so_rebroadcasted := 0, so_representatives_requests := representatives_a,
       so_representatives_broadcasts := representatives_a, so_prepared := True\<rparr>"

text \<open>A recorded vote for another block than \<open>hash\<close>.\<close>

definition vote_different :: "block_hash \<Rightarrow> last_votes \<Rightarrow> account \<Rightarrow> bool" where
  "vote_different hash votes account =
     (case map_of votes account of None \<Rightarrow> False | Some v \<Rightarrow> vi_hash v \<noteq> hash)"

text \<open>
  The representatives a winner is sent to.  One that voted for another block does not count towards
  the limit.
\<close>

fun broadcast_targets :: "nat \<Rightarrow> block_hash \<Rightarrow> last_votes \<Rightarrow> representative list \<Rightarrow> nat \<Rightarrow> channel list" where
  "broadcast_targets max_broadcasts hash votes [] count = []"
| "broadcast_targets max_broadcasts hash votes (i # reps) count =
     (if count < max_broadcasts then
        let exists = map_of votes (rp_account i) \<noteq> None; different = vote_different hash votes (rp_account i)
        in if \<not> exists \<or> different
           then rp_channel i # broadcast_targets max_broadcasts hash votes reps
                                 (count + (if different then 0 else 1))
           else broadcast_targets max_broadcasts hash votes reps count
      else [])"

text \<open>True is an error, as in the source: nothing was sent.\<close>

definition solicitor_broadcast ::
  "crypto \<Rightarrow> election \<Rightarrow> solicitor \<Rightarrow> bool \<times> solicitor \<times> election_effect list" where
  "solicitor_broadcast c e s =
     (let s' = s\<lparr>so_rebroadcasted := so_rebroadcasted s + 1\<rparr>;
          winner = es_winner (el_status e)
      in if unat (so_rebroadcasted s) < so_max_block_broadcasts s
         then (False, s',
               map (\<lambda>ch. Send_publish ch winner)
                 (broadcast_targets (so_max_election_broadcasts s) (generate_hash c winner)
                    (el_last_votes e) (so_representatives_broadcasts s) 0)
               @ [Flood_publish winner])
         else (True, s', []))"

text \<open>
  Whether a representative is asked: it has no vote, none that is final where a final one is needed, or one
  for another block.
\<close>

definition vote_wanted :: "election \<Rightarrow> block_hash \<Rightarrow> account \<Rightarrow> bool" where
  "vote_wanted e hash account =
     (case map_of (el_last_votes e) account of
        None \<Rightarrow> True
      | Some v \<Rightarrow> \<not> (\<not> el_is_quorum e \<or> vi_timestamp v = - 1) \<or> vi_hash v \<noteq> hash)"

text \<open>
  One pass over the representatives.  The result is the list that stays, the queues, and whether no
  request was queued; a representative whose queue is full is dropped for the rest of the round.
\<close>

fun solicitor_requests ::
  "nat \<Rightarrow> nat \<Rightarrow> block_hash \<Rightarrow> root \<Rightarrow> election \<Rightarrow> representative list \<Rightarrow>
   (channel \<times> (block_hash \<times> root) list) list \<Rightarrow> nat \<Rightarrow> bool \<Rightarrow>
   representative list \<times> (channel \<times> (block_hash \<times> root) list) list \<times> bool" where
  "solicitor_requests max_requests max_channel hash root_a e [] requests count err = ([], requests, err)"
| "solicitor_requests max_requests max_channel hash root_a e (rep # reps) requests count err =
     (if count < max_requests then
        if vote_wanted e hash (rp_account rep) then
          let different = vote_different hash (el_last_votes e) (rp_account rep);
              requests = AList.map_default (rp_channel rep) [] id requests;
              queue = the (map_of requests (rp_channel rep))
          in if length queue < max_channel then
               apfst (Cons rep)
                 (solicitor_requests max_requests max_channel hash root_a e reps
                    (AList.update (rp_channel rep) (queue @ [(hash, root_a)]) requests)
                    (count + (if different then 0 else 1)) False)
             else solicitor_requests max_requests max_channel hash root_a e reps requests count err
        else apfst (Cons rep)
               (solicitor_requests max_requests max_channel hash root_a e reps requests count err)
      else (rep # reps, requests, err))"

definition solicitor_add :: "crypto \<Rightarrow> nat \<Rightarrow> election \<Rightarrow> solicitor \<Rightarrow> bool \<times> solicitor" where
  "solicitor_add c confirm_req_batches_max e s =
     (let max_channel_requests = confirm_req_batches_max * confirm_req_hashes_max;
          winner = es_winner (el_status e);
          (reps, requests, err) =
            solicitor_requests (so_max_election_requests s) max_channel_requests
              (generate_hash c winner) (block_root winner) e (so_representatives_requests s)
              (so_requests s) 0 True
      in (err, s\<lparr>so_representatives_requests := reps, so_requests := requests\<rparr>))"

text \<open>Each queue leaves in messages of at most \<open>confirm_req_hashes_max\<close> pairs.\<close>

fun flush_queue :: "channel \<Rightarrow> (block_hash \<times> root) list \<Rightarrow> (block_hash \<times> root) list \<Rightarrow> election_effect list" where
  "flush_queue ch [] batch = (if batch = [] then [] else [Send_confirm_req ch batch])"
| "flush_queue ch (root_hash # rest) batch =
     (let batch = batch @ [root_hash]
      in if length batch = confirm_req_hashes_max
         then Send_confirm_req ch batch # flush_queue ch rest []
         else flush_queue ch rest batch)"

definition solicitor_flush :: "solicitor \<Rightarrow> solicitor \<times> election_effect list" where
  "solicitor_flush s =
     (s\<lparr>so_prepared := False\<rparr>, concat (map (\<lambda>(ch, queue). flush_queue ch queue []) (so_requests s)))"

section \<open>Requests\<close>

text \<open>
  The messages of a flush: each has between one and \<open>confirm_req_hashes_max\<close> pairs, and together
  they carry the queue in its order.
\<close>

fun payload :: "election_effect \<Rightarrow> (block_hash \<times> root) list" where
  "payload (Send_confirm_req ch pairs) = pairs"
| "payload _ = []"

lemma flush_queue_batches:
  assumes "length batch < confirm_req_hashes_max"
  shows "concat (map payload (flush_queue ch queue batch)) = batch @ queue"
    and "\<forall>m \<in> set (flush_queue ch queue batch).
      \<exists>pairs. m = Send_confirm_req ch pairs \<and> pairs \<noteq> [] \<and> length pairs \<le> confirm_req_hashes_max"
  using assms
  by (induction ch queue batch rule: flush_queue.induct) (auto simp: Let_def confirm_req_hashes_max_def)

text \<open>No queue grows past its limit, and the representatives that stay are those that were there.\<close>

definition queues_ok :: "nat \<Rightarrow> (channel \<times> (block_hash \<times> root) list) list \<Rightarrow> bool" where
  "queues_ok n requests \<longleftrightarrow> (\<forall>ch queue. map_of requests ch = Some queue \<longrightarrow> length queue \<le> n)"

lemma map_of_default:
  "map_of (AList.map_default k w id al) = (map_of al)(k \<mapsto> (case map_of al k of None \<Rightarrow> w | Some q \<Rightarrow> q))"
proof (induction al)
  case (Cons p al)
  then show ?case by (cases p) (auto simp: fun_eq_iff)
qed simp

lemma solicitor_requests_ok:
  "queues_ok max_channel requests \<Longrightarrow>
     case solicitor_requests max_requests max_channel hash root_a e reps requests count err of
       (reps', requests', err') \<Rightarrow> queues_ok max_channel requests' \<and> set reps' \<subseteq> set reps \<and> (err' \<longrightarrow> err)"
proof (induction max_requests max_channel hash root_a e reps requests count err rule: solicitor_requests.induct)
  case (2 max_requests max_channel hash root_a e rep reps requests count err)
  let ?r = "AList.map_default (rp_channel rep) [] id requests"
  let ?q = "the (map_of ?r (rp_channel rep))"
  have q: "queues_ok max_channel ?r"
    using "2.prems" by (auto simp: queues_ok_def map_of_default simp del: map_of_eq_Some_iff split: option.splits)
  show ?case
  proof (cases "count < max_requests")
    case False
    then show ?thesis using "2.prems" by simp
  next
    case c: True
    show ?thesis
    proof (cases "vote_wanted e hash (rp_account rep)")
      case False
      then show ?thesis using "2.IH"(3) [OF c False "2.prems"] c by (auto split: prod.splits)
    next
      case w: True
      show ?thesis
      proof (cases "length ?q < max_channel")
        case True
        have u: "queues_ok max_channel (AList.update (rp_channel rep) (?q @ [(hash, root_a)]) ?r)"
          using q True by (auto simp: queues_ok_def update_conv' simp del: map_of_eq_Some_iff)
        show ?thesis using "2.IH"(1) [OF c w refl refl refl True u] c w True by (auto simp: Let_def split: prod.splits)
      next
        case False
        then show ?thesis using "2.IH"(2) [OF c w refl refl refl False q] c w by (auto simp: Let_def split: prod.splits)
      qed
    qed
  qed
qed auto

end
