(* ===== verification/Online_Reps.thy ===== *)
theory Online_Reps
  imports Ledger_State
begin

text \<open>
  \<^verbatim>\<open>node/online_reps.cpp\<close>: the representatives that voted lately, the samples of their weight, and the
  quorum that an election needs.  Times are nanoseconds of the steady clock; the table of samples is
  keyed by the time of the sample.
\<close>

record rep_info =
  ri_time :: int
  ri_account :: account

record online_reps =
  or_reps :: "rep_info list"
  or_trended :: u128
  or_online :: u128

definition online_weight_quorum :: u256 where
  "online_weight_quorum = 34"

definition calculate_online :: "(account \<Rightarrow> u128) \<Rightarrow> rep_info list \<Rightarrow> u128" where
  "calculate_online weight reps = sum_list (map (\<lambda>i. weight (ri_account i)) reps)"

text \<open>The median of the samples and the configured minimum: the element in the middle of the sorted values.\<close>

definition calculate_trend :: "u128 \<Rightarrow> (u64 \<rightharpoonup> u128) \<Rightarrow> u128" where
  "calculate_trend online_weight_minimum online_weight =
     (let items = online_weight_minimum # map snd (table_all online_weight)
      in sort items ! (length items div 2))"

definition online_reps_new :: "u128 \<Rightarrow> (u64 \<rightharpoonup> u128) \<Rightarrow> online_reps" where
  "online_reps_new online_weight_minimum online_weight =
     \<lparr>or_reps = [], or_trended = calculate_trend online_weight_minimum online_weight, or_online = 0\<rparr>"

text \<open>The container is ordered by time; elements of the same time keep the order of their insertion.\<close>

definition reps_insert :: "rep_info \<Rightarrow> rep_info list \<Rightarrow> rep_info list" where
  "reps_insert i reps =
     takeWhile (\<lambda>j. ri_time j \<le> ri_time i) reps @ i # dropWhile (\<lambda>j. ri_time j \<le> ri_time i) reps"

definition observe :: "(account \<Rightarrow> u128) \<Rightarrow> u64 \<Rightarrow> int \<Rightarrow> account \<Rightarrow> online_reps \<Rightarrow> online_reps" where
  "observe weight weight_period now rep_a s =
     (if 0 < weight rep_a then
        let new_insert = rep_a \<notin> ri_account ` set (or_reps s);
            reps = reps_insert \<lparr>ri_time = now, ri_account = rep_a\<rparr>
                     (filter (\<lambda>i. ri_account i \<noteq> rep_a) (or_reps s));
            cutoff = now - int (unat weight_period) * 10 ^ 9;
            kept = dropWhile (\<lambda>i. ri_time i < cutoff) reps;
            trimmed = kept \<noteq> reps
        in s\<lparr>or_reps := kept,
             or_online := (if new_insert \<or> trimmed then calculate_online weight kept else or_online s)\<rparr>
      else s)"

text \<open>The oldest samples make room for the new one.\<close>

fun discard_oldest :: "nat \<Rightarrow> nat \<Rightarrow> (u64 \<rightharpoonup> u128) \<Rightarrow> (u64 \<rightharpoonup> u128) option" where
  "discard_oldest max_weight_samples 0 t = (if max_weight_samples \<le> card (dom t) then None else Some t)"
| "discard_oldest max_weight_samples (Suc n) t =
     (if max_weight_samples \<le> card (dom t) then
        case table_all t of
          [] \<Rightarrow> None
        | (key, _) # _ \<Rightarrow> discard_oldest max_weight_samples n (t(key := None))
      else Some t)"

definition sample ::
  "u128 \<Rightarrow> nat \<Rightarrow> u64 \<Rightarrow> online_reps \<Rightarrow> (u64 \<rightharpoonup> u128) \<Rightarrow> (online_reps \<times> (u64 \<rightharpoonup> u128)) option" where
  "sample online_weight_minimum max_weight_samples now s t =
     do { t \<leftarrow> discard_oldest max_weight_samples (card (dom t)) t;
          let t = t(now \<mapsto> or_online s);
          Some (s\<lparr>or_trended := calculate_trend online_weight_minimum t\<rparr>, t) }"

text \<open>The product is computed with 256 bits.\<close>

definition delta :: "u128 \<Rightarrow> online_reps \<Rightarrow> u128" where
  "delta online_weight_minimum s =
     (let weight = ucast (max (max (or_online s) (or_trended s)) online_weight_minimum) :: u256
      in ucast ((weight * online_weight_quorum) div 100))"

definition online_list :: "online_reps \<Rightarrow> account list" where
  "online_list s = map ri_account (or_reps s)"

definition online_clear :: "online_reps \<Rightarrow> online_reps" where
  "online_clear s = s\<lparr>or_reps := [], or_online := 0\<rparr>"

text \<open>\<^verbatim>\<open>node::minimum_principal_weight\<close>.\<close>

definition principal_weight_factor :: u128 where
  "principal_weight_factor = 1000"

definition minimum_principal_weight :: "u128 \<Rightarrow> u128" where
  "minimum_principal_weight online_stake = online_stake div principal_weight_factor"

section \<open>Facts\<close>

lemma quorum_product:
  fixes w :: u128
  shows "unat (ucast ((ucast w :: u256) * 34 div 100) :: u128) = unat w * 34 div 100"
proof -
  have b: "unat w < 2 ^ 128" using unsigned_less [of w, where ?'a = nat] by simp
  then have "take_bit 256 (unat w) = unat w"
    by (intro take_bit_nat_eq_self) simp
  then have "unat (ucast w :: u256) = unat w"
    by (simp add: unsigned_ucast_eq)
  then have "unat ((ucast w :: u256) * 34) = unat w * 34"
    using b by (simp add: unat_word_ariths)
  then have "unat ((ucast w :: u256) * 34 div 100) = unat w * 34 div 100"
    by (simp add: unat_div_distrib)
  then show ?thesis
    using b by (simp add: unsigned_ucast_eq take_bit_nat_eq_self)
qed

lemma delta_exact:
  "unat (delta m s) = unat (max (max (or_online s) (or_trended s)) m) * 34 div 100"
  by (simp only: delta_def online_weight_quorum_def Let_def quorum_product)

section \<open>Observed representatives\<close>

definition online_ok :: "(account \<Rightarrow> u128) \<Rightarrow> online_reps \<Rightarrow> bool" where
  "online_ok weight s \<longleftrightarrow> sorted (map ri_time (or_reps s)) \<and> distinct (map ri_account (or_reps s))
     \<and> or_online s = calculate_online weight (or_reps s)"

lemma sorted_map_filter': "sorted (map f xs) \<Longrightarrow> sorted (map f (filter P xs))"
  by (induction xs) auto

lemma reps_insert_latest:
  "\<forall>j \<in> set reps. ri_time j \<le> ri_time i \<Longrightarrow> reps_insert i reps = reps @ [i]"
  by (simp add: reps_insert_def)

lemma sorted_drop_old:
  "sorted (map ri_time reps) \<Longrightarrow>
     dropWhile (\<lambda>i. ri_time i < cutoff) reps = filter (\<lambda>i. cutoff \<le> ri_time i) reps"
proof (induction reps)
  case (Cons i reps)
  then show ?case
    by (cases "ri_time i < cutoff") (auto simp: filter_id_conv intro!: filter_id_conv [THEN iffD2, symmetric])
qed simp

text \<open>
  The representatives online after a vote at \<open>now\<close>: those that voted within the period, and the
  voter if it has weight.
\<close>

lemma observe_reps:
  assumes ok: "online_ok weight s" and t: "\<forall>j \<in> set (or_reps s). ri_time j \<le> now" and w: "0 < weight rep"
  shows "or_reps (observe weight period now rep s) =
    filter (\<lambda>i. now - int (unat period) * 10 ^ 9 \<le> ri_time i \<and> ri_account i \<noteq> rep) (or_reps s)
      @ [\<lparr>ri_time = now, ri_account = rep\<rparr>]"
proof -
  let ?c = "now - int (unat period) * 10 ^ 9" and ?i = "\<lparr>ri_time = now, ri_account = rep\<rparr>"
  let ?f = "filter (\<lambda>i. ri_account i \<noteq> rep) (or_reps s)"
  have ins: "reps_insert ?i ?f = ?f @ [?i]" using t by (intro reps_insert_latest) simp
  have "sorted (map ri_time (?f @ [?i]))"
    using ok t by (auto simp: online_ok_def sorted_append sorted_map_filter')
  then have "dropWhile (\<lambda>i. ri_time i < ?c) (?f @ [?i]) = filter (\<lambda>i. ?c \<le> ri_time i) (?f @ [?i])"
    by (rule sorted_drop_old)
  then show ?thesis using w by (simp add: observe_def Let_def ins) (simp add: conj_commute)
qed

lemma observe_ok:
  assumes ok: "online_ok weight s" and t: "\<forall>j \<in> set (or_reps s). ri_time j \<le> now"
  shows "online_ok weight (observe weight period now rep s)"
proof (cases "0 < weight rep")
  case False
  then show ?thesis using ok by (simp add: observe_def)
next
  case w: True
  let ?o = "observe weight period now rep s"
  let ?c = "now - int (unat period) * 10 ^ 9" and ?i = "\<lparr>ri_time = now, ri_account = rep\<rparr>"
  note r = observe_reps [where period = period, OF assms w]
  have srt: "sorted (map ri_time (or_reps ?o))"
    using ok t by (auto simp: r online_ok_def sorted_append sorted_map_filter')
  have dst: "distinct (map ri_account (or_reps ?o))"
    using ok by (auto simp: r online_ok_def distinct_map_filter)
  have "or_online ?o = calculate_online weight (or_reps ?o)"
  proof (cases "rep \<in> ri_account ` set (or_reps s) \<and> (\<forall>j \<in> set (or_reps s). ri_account j \<noteq> rep \<longrightarrow> ?c \<le> ri_time j)")
    case False
    let ?f = "filter (\<lambda>i. ri_account i \<noteq> rep) (or_reps s)"
    have ins: "reps_insert ?i ?f = ?f @ [?i]" using t by (intro reps_insert_latest) simp
    have "dropWhile (\<lambda>i. ri_time i < ?c) (?f @ [?i]) \<noteq> ?f @ [?i]"
      if m: "j \<in> set (or_reps s)" "ri_account j \<noteq> rep" "ri_time j < ?c" for j
    proof
      assume a: "dropWhile (\<lambda>i. ri_time i < ?c) (?f @ [?i]) = ?f @ [?i]"
      have "sorted (map ri_time (?f @ [?i]))"
        using ok t by (auto simp: online_ok_def sorted_append sorted_map_filter')
      from sorted_drop_old [OF this, of ?c] a have "filter (\<lambda>i. ?c \<le> ri_time i) (?f @ [?i]) = ?f @ [?i]" by simp
      then have "\<forall>j \<in> set (?f @ [?i]). ?c \<le> ri_time j" by (simp only: filter_id_conv)
      then show False using m by auto
    qed
    then show ?thesis using False w by (auto simp: observe_def Let_def ins not_le)
  next
    case True
    let ?f = "filter (\<lambda>i. ri_account i \<noteq> rep) (or_reps s)"
    have f: "or_reps ?o = ?f @ [?i]" unfolding r using True by (auto intro!: filter_cong)
    have ins: "reps_insert ?i ?f = ?f @ [?i]" using t by (intro reps_insert_latest) simp
    have "dropWhile (\<lambda>i. ri_time i < ?c) (?f @ [?i]) = ?f @ [?i]"
      using True by (cases ?f) (auto simp: filter_eq_Cons_iff)
    then have "or_online ?o = or_online s" using True w by (simp add: observe_def Let_def ins)
    moreover have "calculate_online weight (or_reps ?o) = calculate_online weight (or_reps s)"
    proof -
      have d: "distinct (map ri_account (or_reps s))" using ok by (simp add: online_ok_def)
      have l: "calculate_online weight xs = sum_list (map weight (map ri_account xs))" for xs
        by (simp add: calculate_online_def comp_def)
      have "set (map ri_account (or_reps ?o)) = set (map ri_account (or_reps s))"
        unfolding f using True by auto
      then show ?thesis
        unfolding l sum_list_distinct_conv_sum_set [OF d] sum_list_distinct_conv_sum_set [OF dst] by simp
    qed
    ultimately show ?thesis using ok by (simp add: online_ok_def)
  qed
  then show ?thesis using srt dst by (simp add: online_ok_def)
qed

section \<open>Samples\<close>

lemma table_all_keys: "finite (dom t) \<Longrightarrow> map fst (table_all t) = sorted_list_of_set (dom t)"
  by (simp add: table_all_def comp_def)

text \<open>The loop ends, and what it leaves is below the limit and later than what it removed.\<close>

lemma discard_oldest_returns:
  assumes "finite (dom t)" "card (dom t) \<le> n" "0 < m"
  shows "\<exists>t'. discard_oldest m n t = Some t' \<and> card (dom t') < m \<and> t' \<subseteq>\<^sub>m t
    \<and> (\<forall>k \<in> dom t - dom t'. \<forall>k' \<in> dom t'. k < k')"
  using assms
proof (induction n arbitrary: t)
  case 0
  then show ?case by auto
next
  case (Suc n)
  show ?case
  proof (cases "m \<le> card (dom t)")
    case False
    then show ?thesis by simp
  next
    case True
    then have ne: "dom t \<noteq> {}" using Suc.prems(3) by auto
    have keys: "map fst (table_all t) = sorted_list_of_set (dom t)" by (rule table_all_keys [OF Suc.prems(1)])
    have "table_all t \<noteq> []" using ne Suc.prems(1) by (simp add: table_all_def)
    then obtain k0 v0 rest where ta: "table_all t = (k0, v0) # rest"
      by (cases "table_all t") auto
    have k0: "k0 \<in> dom t" "\<forall>k \<in> dom t. k0 \<le> k"
    proof -
      have "sorted_list_of_set (dom t) = k0 # map fst rest" using keys ta by simp
      then show "k0 \<in> dom t" "\<forall>k \<in> dom t. k0 \<le> k"
        using set_sorted_list_of_set [OF Suc.prems(1)] sorted_sorted_list_of_set [of "dom t"]
        by (auto simp: image_iff)
    qed
    let ?t = "t(k0 := None)"
    have d: "dom ?t = dom t - {k0}" by auto
    have "card (dom ?t) \<le> n" using Suc.prems k0(1) by (simp add: d card_Diff_singleton)
    moreover have "finite (dom ?t)" using Suc.prems(1) by (simp add: d)
    ultimately obtain t' where
      t': "discard_oldest m n ?t = Some t'" "card (dom t') < m" "t' \<subseteq>\<^sub>m ?t"
        "\<forall>k \<in> dom ?t - dom t'. \<forall>k' \<in> dom t'. k < k'" using Suc.IH [of ?t] Suc.prems(3) by blast
    have sub: "dom t' \<subseteq> dom t - {k0}" using t'(3) d by (metis map_le_implies_dom_le)
    have "t' \<subseteq>\<^sub>m t" using t'(3) sub by (force simp: map_le_def)
    moreover have "\<forall>k \<in> dom t - dom t'. \<forall>k' \<in> dom t'. k < k'"
    proof (intro ballI)
      fix k k' assume k: "k \<in> dom t - dom t'" "k' \<in> dom t'"
      show "k < k'"
      proof (cases "k = k0")
        case True
        have "k' \<in> dom t" "k' \<noteq> k0" using k(2) sub by auto
        then show ?thesis using True k0(2) by force
      next
        case False
        then show ?thesis using t'(4) k by (auto simp: d)
      qed
    qed
    ultimately show ?thesis using True ta t' by simp
  qed
qed

text \<open>
  The middle of the sorted values: more than half of the items are at most the trend, and at least half
  of them at least the trend.
\<close>

definition trend_items :: "u128 \<Rightarrow> (u64 \<rightharpoonup> u128) \<Rightarrow> u128 list" where
  "trend_items m t = m # map snd (table_all t)"

lemma trend_is_median:
  shows "length (trend_items m t) div 2 < length (filter (\<lambda>w. w \<le> calculate_trend m t) (trend_items m t))"
    and "length (trend_items m t) \<le> 2 * length (filter (\<lambda>w. calculate_trend m t \<le> w) (trend_items m t))"
proof -
  let ?s = "sort (trend_items m t)" and ?n = "length (trend_items m t)"
  let ?i = "?n div 2"
  have tr: "calculate_trend m t = ?s ! ?i" by (simp add: calculate_trend_def trend_items_def Let_def)
  have i: "?i < length ?s" by (simp add: trend_items_def)
  have cnt: "length (filter P (trend_items m t)) = length (filter P ?s)" for P
  proof -
    have "length (filter P (trend_items m t)) = length (sort (filter P (trend_items m t)))" by simp
    then show ?thesis by (simp only: filter_sort)
  qed
  have "{..?i} \<subseteq> {j. j < length ?s \<and> ?s ! j \<le> ?s ! ?i}"
    using i by (auto intro: sorted_nth_mono)
  then have "card {..?i} \<le> length (filter (\<lambda>w. w \<le> ?s ! ?i) ?s)"
    unfolding length_filter_conv_card by (intro card_mono) auto
  then show "?n div 2 < length (filter (\<lambda>w. w \<le> calculate_trend m t) (trend_items m t))"
    by (simp add: cnt tr)
  have "{?i..<?n} \<subseteq> {j. j < length ?s \<and> ?s ! ?i \<le> ?s ! j}"
    by (auto intro: sorted_nth_mono)
  then have "card {?i..<?n} \<le> length (filter (\<lambda>w. ?s ! ?i \<le> w) ?s)"
    unfolding length_filter_conv_card by (intro card_mono) auto
  then show "?n \<le> 2 * length (filter (\<lambda>w. calculate_trend m t \<le> w) (trend_items m t))"
    by (simp add: cnt tr)
qed

text \<open>
  \<open>sample\<close> returns.  It stores the online weight under the present time and keeps at most the
  configured number of samples; a sample it drops is older than each one that stays.  The trend it sets is a
  median of the samples and the configured minimum: more than half of them are at most the trend and
  at least half of them at least the trend.
\<close>

theorem sample_sets_median:
  assumes "finite (dom t)" and "0 < m"
  shows "\<exists>s' t'. sample lo m now s t = Some (s', t') \<and> t' now = Some (or_online s) \<and> card (dom t') \<le> m
    \<and> (\<forall>k \<in> dom t - dom t'. \<forall>k' \<in> dom t' - {now}. k < k')
    \<and> length (trend_items lo t') < 2 * length (filter (\<lambda>w. w \<le> or_trended s') (trend_items lo t'))
    \<and> length (trend_items lo t') \<le> 2 * length (filter (\<lambda>w. or_trended s' \<le> w) (trend_items lo t'))"
proof -
  from discard_oldest_returns [OF assms(1) le_refl assms(2)] obtain u where
    u: "discard_oldest m (card (dom t)) t = Some u" "card (dom u) < m"
      "u \<subseteq>\<^sub>m t" "\<forall>k \<in> dom t - dom u. \<forall>k' \<in> dom u. k < k'" by blast
  let ?t = "u(now \<mapsto> or_online s)"
  have "finite (dom u)" using u(3) assms(1) by (auto dest: map_le_implies_dom_le finite_subset)
  then have "card (dom ?t) \<le> m" using u(2) by (simp add: card_insert_if)
  moreover have "\<forall>k \<in> dom t - dom ?t. \<forall>k' \<in> dom ?t - {now}. k < k'" using u(4) by auto
  ultimately show ?thesis
    using trend_is_median [of lo ?t] by (simp add: sample_def u(1) Let_def)
qed

theorem sample_sets_median_witness:
  "\<exists>s' t'. sample 5 1 20 \<lparr>or_reps = [], or_trended = 0, or_online = 7\<rparr> [10 \<mapsto> 3] = Some (s', t')
     \<and> t' 20 = Some 7 \<and> card (dom t') \<le> 1"
  using sample_sets_median [of "[10 \<mapsto> 3]" 1 5 20 "\<lparr>or_reps = [], or_trended = 0, or_online = 7\<rparr>"] by auto

text \<open>
  The representatives online.  When a representative with weight votes, it is online, and so are
  exactly those that voted within the period; the online weight is the sum of their weights.
\<close>

theorem observe_online:
  assumes "online_ok weight s" and "\<forall>j \<in> set (or_reps s). ri_time j \<le> now" and "0 < weight rep"
  shows "set (online_list (observe weight period now rep s)) =
      insert rep {ri_account j | j. j \<in> set (or_reps s) \<and> now - int (unat period) * 10 ^ 9 \<le> ri_time j}
    \<and> or_online (observe weight period now rep s) = (\<Sum>a \<in> set (online_list (observe weight period now rep s)). weight a)"
proof -
  let ?o = "observe weight period now rep s"
  have ok: "online_ok weight ?o" by (rule observe_ok [OF assms(1,2)])
  then have "or_online ?o = sum_list (map weight (map ri_account (or_reps ?o)))"
    by (simp add: online_ok_def calculate_online_def comp_def)
  also have "\<dots> = (\<Sum>a \<in> set (online_list ?o). weight a)"
    unfolding online_list_def using ok by (intro sum_list_distinct_conv_sum_set) (simp add: online_ok_def)
  finally show ?thesis
    using observe_reps [where period = period, OF assms] by (auto simp: online_list_def)
qed

theorem observe_online_witness:
  "or_online (observe (\<lambda>a. 3) 300 (10 ^ 12) 2
     \<lparr>or_reps = [\<lparr>ri_time = 10 ^ 10, ri_account = 1\<rparr>], or_trended = 0, or_online = 3\<rparr>) = 3"
proof -
  let ?s = "\<lparr>or_reps = [\<lparr>ri_time = 10 ^ 10, ri_account = 1\<rparr>], or_trended = 0, or_online = 3\<rparr>"
  have "online_ok (\<lambda>a. 3) ?s" by (simp add: online_ok_def calculate_online_def)
  from observe_online [OF this, where now = "10 ^ 12" and rep = 2 and period = 300]
  have "set (online_list (observe (\<lambda>a. 3) 300 (10 ^ 12) 2 ?s)) = {2}
      \<and> or_online (observe (\<lambda>a. 3) 300 (10 ^ 12) 2 ?s) = (\<Sum>a \<in> set (online_list (observe (\<lambda>a. 3) 300 (10 ^ 12) 2 ?s)). 3)"
    by auto
  then show ?thesis by simp
qed

end
