(* ===== verification/Election.thy ===== *)
theory Election
  imports Solicitor Online_Reps
begin

text \<open>
  \<^verbatim>\<open>node/election.cpp\<close>: the votes on the blocks of one root, the state machine of an election and the
  confirmation of its winner.  An operation runs with the mutex of the election held; the short
  windows in which the source releases it are not modelled, so the operations are atomic.  The
  value None is an access past the end of the tally.
\<close>

section \<open>State machine\<close>

definition confirmed :: "election \<Rightarrow> bool" where
  "confirmed e \<longleftrightarrow> el_state e = St_confirmed \<or> el_state e = St_expired_confirmed"

definition failed :: "election \<Rightarrow> bool" where
  "failed e \<longleftrightarrow> el_state e = St_expired_unconfirmed"

fun valid_change :: "state_t \<Rightarrow> state_t \<Rightarrow> bool" where
  "valid_change St_passive desired \<longleftrightarrow>
     desired = St_active \<or> desired = St_confirmed \<or> desired = St_expired_unconfirmed"
| "valid_change St_active desired \<longleftrightarrow> desired = St_confirmed \<or> desired = St_expired_unconfirmed"
| "valid_change St_confirmed desired \<longleftrightarrow> desired = St_expired_confirmed"
| "valid_change St_expired_unconfirmed desired \<longleftrightarrow> False"
| "valid_change St_expired_confirmed desired \<longleftrightarrow> False"

text \<open>True: the state was not changed.\<close>

definition state_change :: "int \<Rightarrow> state_t \<Rightarrow> state_t \<Rightarrow> election \<Rightarrow> bool \<times> election" where
  "state_change now expected_a desired_a e =
     (if valid_change expected_a desired_a \<and> el_state e = expected_a
      then (False, e\<lparr>el_state := desired_a, el_state_start := now\<rparr>)
      else (True, e))"

definition transition_active :: "int \<Rightarrow> election \<Rightarrow> election" where
  "transition_active now e = snd (state_change now St_passive St_active e)"

section \<open>Construction\<close>

definition null_account :: account where
  "null_account = 0"

definition election_new ::
  "crypto \<Rightarrow> election_env \<Rightarrow> block \<Rightarrow> u64 \<Rightarrow> election_behavior \<Rightarrow> election \<times> election_effect list" where
  "election_new c v block_a height behavior_a =
     (let hash = generate_hash c block_a in
      (\<lparr>el_state = St_passive, el_state_start = ee_now v, el_last_block = ee_now v, el_last_req = 0,
        el_confirmation_request_count = 0,
        el_status = \<lparr>es_winner = block_a, es_tally = 0, es_final_tally = 0,
                     es_election_end = ee_system_now v div milliseconds, es_election_duration = 0,
                     es_confirmation_request_count = 0, es_block_count = 1, es_voter_count = 0,
                     es_type = Ongoing\<rparr>,
        el_height = height, el_root = block_root block_a,
        el_qualified_root = block_qualified_root block_a,
        el_last_blocks = [(hash, block_a)],
        el_last_votes = [(null_account, \<lparr>vi_time = ee_now v, vi_timestamp = 0, vi_hash = hash\<rparr>)],
        el_is_quorum = False, el_final_weight = 0, el_last_tally = [],
        el_behavior = behavior_a, el_election_start = ee_now v\<rparr>,
       if ee_voting v then [Generator_add (block_root block_a) hash] else []))"

section \<open>Tally\<close>

text \<open>
  \<open>tally_t\<close> is a map from weights to blocks in descending order: a second block of the same weight is
  not entered.
\<close>

type_synonym tally_t = "(u128 \<times> block) list"

fun tally_emplace :: "u128 \<Rightarrow> block \<Rightarrow> tally_t \<Rightarrow> tally_t" where
  "tally_emplace amount block [] = [(amount, block)]"
| "tally_emplace amount block ((a, b) # t) =
     (if a < amount then (amount, block) # (a, b) # t
      else if a = amount then (a, b) # t
      else (a, b) # tally_emplace amount block t)"

definition weight_add :: "block_hash \<Rightarrow> u128 \<Rightarrow> block_weights \<Rightarrow> block_weights" where
  "weight_add hash weight = AList.map_default hash weight (\<lambda>w. w + weight)"

definition vote_weights :: "election_env \<Rightarrow> last_votes \<Rightarrow> block_weights" where
  "vote_weights v votes =
     fold (\<lambda>(account, info). weight_add (vi_hash info) (ee_weight v account)) votes []"

definition final_timestamp :: u64 where
  "final_timestamp = - 1"

definition final_votes :: "last_votes \<Rightarrow> last_votes" where
  "final_votes votes = filter (\<lambda>(account, info). vi_timestamp info = final_timestamp) votes"

definition tally_blocks :: "election_env \<Rightarrow> last_blocks \<Rightarrow> block_weights \<Rightarrow> tally_t" where
  "tally_blocks v blocks weights =
     fold (\<lambda>hash t. case (map_of blocks hash, map_of weights hash) of
                      (Some block, Some amount) \<Rightarrow> tally_emplace amount block t
                    | _ \<Rightarrow> t)
          (ee_order v (map fst weights)) []"

definition tally_impl :: "crypto \<Rightarrow> election_env \<Rightarrow> election \<Rightarrow> tally_t \<times> election" where
  "tally_impl c v e =
     (let weights = vote_weights v (el_last_votes e);
          final_weights = vote_weights v (final_votes (el_last_votes e));
          result = tally_blocks v (el_last_blocks e) weights;
          e = e\<lparr>el_last_tally := weights\<rparr>
      in (result,
          case result of
            [] \<Rightarrow> e
          | (_, winner) # _ \<Rightarrow>
              (case map_of final_weights (generate_hash c winner) of
                 None \<Rightarrow> e
               | Some weight \<Rightarrow> e\<lparr>el_final_weight := weight\<rparr>)))"

definition have_quorum :: "u128 \<Rightarrow> tally_t \<Rightarrow> bool option" where
  "have_quorum delta_l tally_a =
     (case tally_a of
        [] \<Rightarrow> None
      | (first, _) # rest \<Rightarrow>
          let second = (case rest of [] \<Rightarrow> 0 | (w, _) # _ \<Rightarrow> w)
          in if second \<le> first then Some (delta_l \<le> first - second) else None)"

section \<open>Confirmation\<close>

definition confirm_once ::
  "crypto \<Rightarrow> election_env \<Rightarrow> election_status_type \<Rightarrow> election_ctx \<Rightarrow> election_ctx" where
  "confirm_once c v type_a x =
     (let e = ec_election x;
          hash = winner_hash c e;
          x = x\<lparr>ec_election := e\<lparr>el_state := St_confirmed\<rparr>\<rparr>
      in if el_state e \<noteq> St_confirmed \<and> hash \<notin> ec_winners x then
           let status = (el_status e)
                 \<lparr>es_election_end := ee_system_now v div milliseconds,
                  es_election_duration := (ee_now v - el_election_start e) div milliseconds,
                  es_confirmation_request_count := el_confirmation_request_count e,
                  es_block_count := of_nat (length (el_last_blocks e)),
                  es_voter_count := of_nat (length (el_last_votes e)),
                  es_type := type_a\<rparr>
           in emit (Confirmation_action (es_winner status))
                (emit (Process_confirmed status)
                  (with_election (\<lambda>e. e\<lparr>el_status := status\<rparr>) (x\<lparr>ec_winners := insert hash (ec_winners x)\<rparr>)))
         else x)"

definition remove_votes :: "election_env \<Rightarrow> block_hash \<Rightarrow> election_ctx \<Rightarrow> election_ctx" where
  "remove_votes v hash_a x =
     (if ee_voting v then
        let e = ec_election x; accounts = ee_history v (el_root e) hash_a
        in emit (History_erase (el_root e))
             (x\<lparr>ec_election := e\<lparr>el_last_votes := fold AList.delete accounts (el_last_votes e)\<rparr>\<rparr>)
      else x)"

text \<open>
  \<open>confirm_if_quorum\<close> in three parts: the block with the most votes takes over when the votes
  together reach the quorum, and with a quorum of its own the winner is confirmed.
\<close>

definition switch_winner :: "crypto \<Rightarrow> election_env \<Rightarrow> tally_t \<Rightarrow> block \<Rightarrow> election_ctx \<Rightarrow> election_ctx" where
  "switch_winner c v tally block_l x =
     (let status_winner_hash = winner_hash c (ec_election x) in
      if ee_delta v \<le> sum_list (map fst tally) \<and> generate_hash c block_l \<noteq> status_winner_hash
      then emit (Force block_l)
             (remove_votes v status_winner_hash
               (with_election (\<lambda>e. e\<lparr>el_status := (el_status e)\<lparr>es_winner := block_l\<rparr>\<rparr>) x))
      else x)"

definition confirm_quorum :: "crypto \<Rightarrow> election_env \<Rightarrow> election_ctx \<Rightarrow> election_ctx" where
  "confirm_quorum c v x =
     (let was_quorum = el_is_quorum (ec_election x);
          x = (if ee_canary v then with_election (\<lambda>e. e\<lparr>el_is_quorum := True\<rparr>) x else x);
          x = (if ee_canary v \<and> \<not> was_quorum \<and> ee_voting v
               then emit (Final_generator_add (el_root (ec_election x)) (winner_hash c (ec_election x))) x
               else x)
      in if \<not> ee_canary v \<or> ee_delta v \<le> el_final_weight (ec_election x)
         then confirm_once c v Active_confirmed_quorum x
         else x)"

definition confirm_if_quorum :: "crypto \<Rightarrow> election_env \<Rightarrow> election_ctx \<Rightarrow> election_ctx option" where
  "confirm_if_quorum c v x =
     (case tally_impl c v (ec_election x) of
        ([], _) \<Rightarrow> None
      | ((tally, block_l) # rest, e) \<Rightarrow>
          let e = e\<lparr>el_status := (el_status e)\<lparr>es_tally := tally, es_final_tally := el_final_weight e\<rparr>\<rparr>;
              x = switch_winner c v ((tally, block_l) # rest) block_l (x\<lparr>ec_election := e\<rparr>)
          in (case have_quorum (ee_delta v) ((tally, block_l) # rest) of
                None \<Rightarrow> None
              | Some quorum \<Rightarrow> Some (if quorum then confirm_quorum c v x else x)))"

section \<open>Votes\<close>

definition election_find :: "block_hash \<Rightarrow> election \<Rightarrow> block option" where
  "election_find hash_a e = map_of (el_last_blocks e) hash_a"

definition cooldown :: "u128 \<Rightarrow> u128 \<Rightarrow> int" where
  "cooldown online_stake weight =
     (if weight < online_stake div 100 then 15 else if weight < online_stake div 20 then 5 else 1)"

text \<open>What a vote does to the recorded vote of its representative: whether it is a replay, and whether it is entered.\<close>

definition vote_decision ::
  "int \<Rightarrow> int \<Rightarrow> vote_info option \<Rightarrow> u64 \<Rightarrow> block_hash \<Rightarrow> bool \<times> bool" where
  "vote_decision now cooldown_a last_vote timestamp_a block_hash_a =
     (case last_vote of
        None \<Rightarrow> (False, True)
      | Some l \<Rightarrow>
          if vi_timestamp l < timestamp_a \<or> vi_timestamp l = timestamp_a \<and> vi_hash l < block_hash_a
          then (False, (timestamp_a = final_timestamp \<and> vi_timestamp l < timestamp_a)
                       \<or> vi_time l \<le> now - cooldown_a * seconds)
          else (True, False))"

text \<open>The result is \<open>election_vote_result\<close>: replay and processed.\<close>

definition election_vote ::
  "crypto \<Rightarrow> election_env \<Rightarrow> account \<Rightarrow> u64 \<Rightarrow> block_hash \<Rightarrow> election_ctx \<Rightarrow> ((bool \<times> bool) \<times> election_ctx) option" where
  "election_vote c v rep timestamp_a block_hash_a x =
     (let online_stake = ee_trended v; weight = ee_weight v rep
      in if ee_dev_network v \<or> minimum_principal_weight online_stake < weight then
           let e = ec_election x;
               (replay, should_process) =
                 vote_decision (ee_now v) (cooldown online_stake weight) (map_of (el_last_votes e) rep)
                   timestamp_a block_hash_a
           in if should_process then
                let info = \<lparr>vi_time = ee_now v, vi_timestamp = timestamp_a, vi_hash = block_hash_a\<rparr>;
                    x = emit (Live_vote rep)
                          (with_election (\<lambda>e. e\<lparr>el_last_votes := AList.update rep info (el_last_votes e)\<rparr>) x)
                in if \<not> confirmed (ec_election x)
                   then map_option (Pair (replay, should_process)) (confirm_if_quorum c v x)
                   else Some ((replay, should_process), x)
              else Some ((replay, should_process), x)
         else Some ((False, False), x))"

section \<open>Blocks\<close>

definition max_blocks :: nat where
  "max_blocks = 10"

definition remove_block :: "crypto \<Rightarrow> block_hash \<Rightarrow> election_ctx \<Rightarrow> election_ctx" where
  "remove_block c hash_a x =
     (let e = ec_election x in
      if winner_hash c e \<noteq> hash_a then
        case map_of (el_last_blocks e) hash_a of
          None \<Rightarrow> x
        | Some block \<Rightarrow>
            emit (Publish_filter_clear block)
              (x\<lparr>ec_election := e
                  \<lparr>el_last_votes := filter (\<lambda>(account, info). vi_hash info \<noteq> hash_a) (el_last_votes e),
                   el_last_blocks := AList.delete hash_a (el_last_blocks e)\<rparr>\<rparr>)
      else x)"

text \<open>The block that gives way to a new one, zero for none.\<close>

definition replaced_block :: "crypto \<Rightarrow> election_env \<Rightarrow> block_hash \<Rightarrow> election \<Rightarrow> block_hash option" where
  "replaced_block c v hash_a e =
     (let order = ee_order v (map fst (el_last_tally e));
          sorted = sort_key snd (map (\<lambda>hash. (hash, the (map_of (el_last_tally e) hash))) order);
          inactive_tally = ee_inactive_tally v hash_a
      in if 0 < inactive_tally \<and> length sorted < max_blocks then
           Some (case find (\<lambda>hash. hash \<notin> fst ` set sorted \<and> hash \<noteq> winner_hash c e)
                        (ee_order v (map fst (el_last_blocks e))) of
                   None \<Rightarrow> 0
                 | Some hash \<Rightarrow> hash)
         else if 0 < inactive_tally then
           (case sorted of
              [] \<Rightarrow> None
            | (front, front_tally) # others \<Rightarrow>
                if front_tally < inactive_tally then
                  if front \<noteq> winner_hash c e then Some front
                  else (case others of
                          [] \<Rightarrow> None
                        | (second, second_tally) # _ \<Rightarrow>
                            Some (if second_tally < inactive_tally then second else 0))
                else Some 0)
         else Some 0)"

definition replace_by_weight ::
  "crypto \<Rightarrow> election_env \<Rightarrow> block_hash \<Rightarrow> election_ctx \<Rightarrow> (bool \<times> election_ctx) option" where
  "replace_by_weight c v hash_a x =
     (case replaced_block c v hash_a (ec_election x) of
        None \<Rightarrow> None
      | Some hash \<Rightarrow>
          Some (if hash \<noteq> 0 then (True, remove_block c hash (emit (Active_erase_hash hash) x))
                else (False, x)))"

text \<open>
  \<open>publish\<close> in two parts: whether the block may enter, with the room it needs, and its entry.  True
  means that the block was not added.
\<close>

definition publish_room :: "crypto \<Rightarrow> election_env \<Rightarrow> block \<Rightarrow> election_ctx \<Rightarrow> (bool \<times> election_ctx) option" where
  "publish_room c v block_a x =
     (let hash = generate_hash c block_a; e = ec_election x
      in if \<not> confirmed e \<and> max_blocks \<le> length (el_last_blocks e) \<and> map_of (el_last_blocks e) hash = None
         then (case replace_by_weight c v hash x of
                 None \<Rightarrow> None
               | Some (replaced, x) \<Rightarrow>
                   Some (if replaced then (False, x) else (True, emit (Publish_filter_clear block_a) x)))
         else Some (confirmed e, x))"

definition publish_entry :: "crypto \<Rightarrow> block \<Rightarrow> election_ctx \<Rightarrow> bool \<times> election_ctx" where
  "publish_entry c block_a x =
     (let hash = generate_hash c block_a;
          y = with_election (\<lambda>e. e\<lparr>el_last_blocks := AList.update hash block_a (el_last_blocks e)\<rparr>) x
      in case map_of (el_last_blocks (ec_election x)) hash of
           None \<Rightarrow> (False, y)
         | Some _ \<Rightarrow>
             (True,
              if winner_hash c (ec_election y) = hash
              then emit (Flood_block block_a)
                     (with_election (\<lambda>e. e\<lparr>el_status := (el_status e)\<lparr>es_winner := block_a\<rparr>\<rparr>) y)
              else y))"

definition election_publish ::
  "crypto \<Rightarrow> election_env \<Rightarrow> block \<Rightarrow> election_ctx \<Rightarrow> (bool \<times> election_ctx) option" where
  "election_publish c v block_a x =
     (case publish_room c v block_a x of
        None \<Rightarrow> None
      | Some (result, x) \<Rightarrow> Some (if result then (True, x) else publish_entry c block_a x))"

section \<open>Cached votes\<close>

text \<open>\<open>time_point::min\<close>.\<close>

definition time_point_min :: int where
  "time_point_min = - (2 ^ 63)"

fun insert_cached_votes :: "block_hash \<Rightarrow> (account \<times> u64) list \<Rightarrow> last_votes \<Rightarrow> last_votes" where
  "insert_cached_votes hash [] votes = votes"
| "insert_cached_votes hash ((rep, timestamp) # voters) votes =
     insert_cached_votes hash voters
       (case map_of votes rep of
          None \<Rightarrow> AList.update rep \<lparr>vi_time = time_point_min, vi_timestamp = timestamp, vi_hash = hash\<rparr> votes
        | Some _ \<Rightarrow> votes)"

definition insert_inactive_votes_cache ::
  "crypto \<Rightarrow> election_env \<Rightarrow> block_hash \<Rightarrow> (account \<times> u64) list \<Rightarrow> election_ctx \<Rightarrow> (nat \<times> election_ctx) option" where
  "insert_inactive_votes_cache c v hash voters x =
     (let x = with_election (\<lambda>e. e\<lparr>el_last_votes := insert_cached_votes hash voters (el_last_votes e)\<rparr>) x
      in if \<not> confirmed (ec_election x) \<and> 1 < length (el_last_votes (ec_election x))
         then map_option (Pair (length voters)) (confirm_if_quorum c v x)
         else Some (length voters, x))"

section \<open>Votes of the node\<close>

definition generate_votes :: "crypto \<Rightarrow> election_env \<Rightarrow> election_ctx \<Rightarrow> election_ctx option" where
  "generate_votes c v x =
     (if ee_voting v then
        let e = ec_election x;
            decided = (if confirmed e then Some (True, x)
                       else (case tally_impl c v e of (tally, e) \<Rightarrow>
                               map_option (\<lambda>q. (q, x\<lparr>ec_election := e\<rparr>)) (have_quorum (ee_delta v) tally)))
        in (case decided of
              None \<Rightarrow> None
            | Some (True, x) \<Rightarrow>
                Some (emit (Final_generator_add (el_root (ec_election x)) (winner_hash c (ec_election x))) x)
            | Some (False, x) \<Rightarrow>
                Some (emit (Generator_add (el_root (ec_election x)) (winner_hash c (ec_election x))) x))
      else Some x)"

section \<open>Time\<close>

text \<open>The solicitor is threaded through; the batches limit is a value of the configuration.\<close>

definition broadcast_block ::
  "crypto \<Rightarrow> election_env \<Rightarrow> solicitor \<times> election_ctx \<Rightarrow> solicitor \<times> election_ctx" where
  "broadcast_block c v = (\<lambda>(s, x).
     if base_latency (ee_dev_network v) * 15 < ee_now v - el_last_block (ec_election x) then
       case solicitor_broadcast c (ec_election x) s of
         (err, s, effects) \<Rightarrow>
           (s, (if err then x else with_election (\<lambda>e. e\<lparr>el_last_block := ee_now v\<rparr>) x)
                 \<lparr>ec_effects := ec_effects x @ effects\<rparr>)
     else (s, x))"

definition send_confirm_req ::
  "crypto \<Rightarrow> election_env \<Rightarrow> nat \<Rightarrow> solicitor \<times> election_ctx \<Rightarrow> solicitor \<times> election_ctx" where
  "send_confirm_req c v confirm_req_batches_max = (\<lambda>(s, x).
     if base_latency (ee_dev_network v) * (if optimistic (ec_election x) then 10 else 5)
        < ee_now v - el_last_req (ec_election x) then
       case solicitor_add c confirm_req_batches_max (ec_election x) s of
         (err, s) \<Rightarrow>
           (s, if err then x
               else with_election (\<lambda>e. e\<lparr>el_last_req := ee_now v,
                      el_confirmation_request_count := el_confirmation_request_count e + 1\<rparr>) x)
     else (s, x))"

definition passive_duration_factor :: int where
  "passive_duration_factor = 5"

definition confirmed_duration_factor :: int where
  "confirmed_duration_factor = 5"

definition expire_time :: "election \<Rightarrow> int" where
  "expire_time e = (if optimistic e then 60 * 1000 else 5 * 60 * 1000) * milliseconds"

definition transition_state ::
  "crypto \<Rightarrow> election_env \<Rightarrow> nat \<Rightarrow> solicitor \<times> election_ctx \<Rightarrow> bool \<times> solicitor \<times> election_ctx" where
  "transition_state c v confirm_req_batches_max = (\<lambda>(s, x).
     let e = ec_election x; elapsed = ee_now v - el_state_start e in
     case el_state e of
       St_passive \<Rightarrow>
         (False, s,
          if base_latency (ee_dev_network v) * passive_duration_factor < elapsed
          then with_election (snd \<circ> state_change (ee_now v) St_passive St_active) x else x)
     | St_active \<Rightarrow>
         (False, send_confirm_req c v confirm_req_batches_max (broadcast_block c v (s, x)))
     | St_confirmed \<Rightarrow>
         (if base_latency (ee_dev_network v) * confirmed_duration_factor < elapsed
          then (True, s, with_election (snd \<circ> state_change (ee_now v) St_confirmed St_expired_confirmed) x)
          else (False, s, x))
     | St_expired_unconfirmed \<Rightarrow> (False, s, x)
     | St_expired_confirmed \<Rightarrow> (False, s, x))"

definition transition_time ::
  "crypto \<Rightarrow> election_env \<Rightarrow> nat \<Rightarrow> solicitor \<times> election_ctx \<Rightarrow> bool \<times> solicitor \<times> election_ctx" where
  "transition_time c v confirm_req_batches_max sx =
     (let (result, s, x) = transition_state c v confirm_req_batches_max sx;
          e = ec_election x
      in if \<not> confirmed e \<and> expire_time e < ee_now v - el_election_start e then
           (case state_change (ee_now v) (el_state e) St_expired_unconfirmed e of
              (True, e) \<Rightarrow> (result, s, x)
            | (False, e) \<Rightarrow>
                (True, s, x\<lparr>ec_election := e\<lparr>el_status := (el_status e)\<lparr>es_type := Stopped\<rparr>\<rparr>\<rparr>))
         else (result, s, x))"

section \<open>Information\<close>

definition current_status :: "crypto \<Rightarrow> election_env \<Rightarrow> election \<Rightarrow> (election_status \<times> last_votes \<times> tally_t) \<times> election" where
  "current_status c v e =
     (let status = (el_status e)
            \<lparr>es_confirmation_request_count := el_confirmation_request_count e,
             es_block_count := of_nat (length (el_last_blocks e)),
             es_voter_count := of_nat (length (el_last_votes e))\<rparr>;
          (tally, e') = tally_impl c v e
      in ((status, el_last_votes e, tally), e'))"

record vote_with_weight_info =
  vw_representative :: account
  vw_time :: int
  vw_timestamp :: u64
  vw_hash :: block_hash
  vw_weight :: u128

text \<open>
  Descending by weight.  The representatives are visited in the order of the iteration over the
  votes, which is an argument; those of equal weight keep it.
\<close>

definition votes_with_weight ::
  "(account list \<Rightarrow> account list) \<Rightarrow> rep_weights \<Rightarrow> election \<Rightarrow> vote_with_weight_info list" where
  "votes_with_weight order weights e =
     rev (sort_key vw_weight (rev
       (map (\<lambda>rep. let info = the (map_of (el_last_votes e) rep) in
               \<lparr>vw_representative = rep, vw_time = vi_time info, vw_timestamp = vi_timestamp info,
                vw_hash = vi_hash info, vw_weight = representation_get weights rep\<rparr>)
          (filter (\<lambda>rep. rep \<noteq> null_account) (order (map fst (el_last_votes e)))))))"

text \<open>Only on the development network; None is the failed assertion.\<close>

definition force_confirm ::
  "crypto \<Rightarrow> election_env \<Rightarrow> election_status_type \<Rightarrow> election_ctx \<Rightarrow> election_ctx option" where
  "force_confirm c v type_a x = (if ee_dev_network v then Some (confirm_once c v type_a x) else None)"

end
