(* ===== verification/Election_Tally.thy ===== *)
theory Election_Tally
  imports Election
begin

declare split_paired_All [simp del] split_paired_Ex [simp del]

text \<open>
  What the tally of an election holds: the weight of every known block that has votes, once per
  weight, in descending order, and what a quorum of it says about the votes.
\<close>

definition order_ok :: "election_env \<Rightarrow> bool" where
  "order_ok v \<longleftrightarrow> (\<forall>xs. set (ee_order v xs) = set xs \<and> length (ee_order v xs) = length xs)"

definition votes_for :: "election_env \<Rightarrow> last_votes \<Rightarrow> block_hash \<Rightarrow> u128" where
  "votes_for v votes hash =
     sum_list (map (\<lambda>(account, info). ee_weight v account) (filter (\<lambda>(account, info). vi_hash info = hash) votes))"

definition voted :: "last_votes \<Rightarrow> block_hash set" where
  "voted votes = (\<lambda>(account, info). vi_hash info) ` set votes"

text \<open>The votes as numbers, without wrap-around.\<close>

definition weight_for :: "election_env \<Rightarrow> last_votes \<Rightarrow> block_hash \<Rightarrow> nat" where
  "weight_for v votes hash =
     sum_list (map (\<lambda>(account, info). unat (ee_weight v account)) (filter (\<lambda>(account, info). vi_hash info = hash) votes))"

definition total_weight :: "election_env \<Rightarrow> last_votes \<Rightarrow> nat" where
  "total_weight v votes = sum_list (map (\<lambda>(account, info). unat (ee_weight v account)) votes)"

section \<open>Weights\<close>

lemma map_of_weight_add:
  "map_of (weight_add h w al) = (map_of al)(h \<mapsto> (case map_of al h of None \<Rightarrow> w | Some a \<Rightarrow> a + w))"
proof (induction al)
  case Nil
  then show ?case by (simp add: weight_add_def)
next
  case (Cons p al)
  then show ?case by (cases p) (auto simp: weight_add_def fun_eq_iff split: option.splits)
qed

lemma keys_weight_add:
  "fst ` set (weight_add h w al) = insert h (fst ` set al)"
  using arg_cong [OF map_of_weight_add [of h w al], of dom] by (simp add: dom_map_of_conv_image_fst)

lemma vote_weights_fold:
  "map_of (fold (\<lambda>(account, info). weight_add (vi_hash info) (ee_weight v account)) votes al) h =
     (if h \<in> voted votes
      then Some (votes_for v votes h + (case map_of al h of None \<Rightarrow> 0 | Some a \<Rightarrow> a))
      else map_of al h)"
proof (induction votes arbitrary: al)
  case Nil
  then show ?case by (simp add: voted_def)
next
  case (Cons p votes)
  obtain a i where p: "p = (a, i)" by (cases p)
  have n: "votes_for v votes k = 0" if "k \<notin> voted votes" for k
  proof -
    have "filter (\<lambda>(account, info). vi_hash info = k) votes = []"
      using that by (auto simp: voted_def filter_empty_conv)
    then show ?thesis by (simp add: votes_for_def)
  qed
  have c: "votes_for v (p # votes) h = (if vi_hash i = h then ee_weight v a else 0) + votes_for v votes h"
    by (simp add: votes_for_def p)
  have m: "h \<in> voted (p # votes) \<longleftrightarrow> h = vi_hash i \<or> h \<in> voted votes"
    by (auto simp: voted_def p)
  show ?case
    unfolding c m by (simp add: p Cons.IH map_of_weight_add n algebra_simps split: option.split)
qed

lemma map_of_vote_weights:
  "map_of (vote_weights v votes) h = (if h \<in> voted votes then Some (votes_for v votes h) else None)"
  by (simp add: vote_weights_def vote_weights_fold)

lemma keys_vote_weights: "fst ` set (vote_weights v votes) = voted votes"
proof -
  have "dom (map_of (vote_weights v votes)) = voted votes"
    by (auto simp: dom_def map_of_vote_weights)
  then show ?thesis by (simp add: dom_map_of_conv_image_fst)
qed

lemma weight_for_le_total: "weight_for v votes h \<le> total_weight v votes"
proof (induction votes)
  case Nil
  then show ?case by (simp add: weight_for_def)
next
  case (Cons p votes)
  then show ?case by (cases p) (auto simp: weight_for_def total_weight_def)
qed

lemma unat_sum_list:
  fixes ws :: "u128 list"
  assumes "sum_list (map unat ws) < 2 ^ 128"
  shows "unat (sum_list ws) = sum_list (map unat ws)"
  using assms
proof (induction ws)
  case Nil
  then show ?case by simp
next
  case (Cons w ws)
  then have "unat (sum_list ws) = sum_list (map unat ws)" by simp
  with Cons.prems show ?case by (simp add: unat_word_ariths)
qed

lemma unat_votes_for:
  assumes "total_weight v votes < 2 ^ 128"
  shows "unat (votes_for v votes h) = weight_for v votes h"
proof -
  let ?l = "filter (\<lambda>(account, info). vi_hash info = h) votes"
  have eq: "map unat (map (\<lambda>(account, info). ee_weight v account) ?l)
            = map (\<lambda>(account, info). unat (ee_weight v account)) ?l"
    by (simp add: case_prod_beta comp_def)
  have "sum_list (map unat (map (\<lambda>(account, info). ee_weight v account) ?l)) < 2 ^ 128"
    unfolding eq using weight_for_le_total [of v votes h] assms by (simp only: weight_for_def)
  from unat_sum_list [OF this] show ?thesis
    unfolding votes_for_def weight_for_def eq .
qed

section \<open>The tally\<close>

definition tally_sorted :: "tally_t \<Rightarrow> bool" where
  "tally_sorted t \<longleftrightarrow> sorted_wrt (\<lambda>p q. fst q < fst p) t"

lemma tally_emplace_keys: "fst ` set (tally_emplace a b t) = insert a (fst ` set t)"
  by (induction a b t rule: tally_emplace.induct) auto

lemma tally_emplace_set: "set (tally_emplace a b t) \<subseteq> insert (a, b) (set t)"
  by (induction a b t rule: tally_emplace.induct) auto

lemma tally_emplace_sorted: "tally_sorted t \<Longrightarrow> tally_sorted (tally_emplace a b t)"
proof (induction a b t rule: tally_emplace.induct)
  case (2 amount block a b t)
  have k: "p \<in> set (tally_emplace amount block t) \<Longrightarrow> fst p = amount \<or> p \<in> set t" for p
    using tally_emplace_set [of amount block t] by auto
  from 2 show ?case
    by (auto simp: tally_sorted_def dest!: k)
qed (simp add: tally_sorted_def)

definition tally_step ::
  "last_blocks \<Rightarrow> block_weights \<Rightarrow> block_hash \<Rightarrow> tally_t \<Rightarrow> tally_t" where
  "tally_step blocks weights hash t =
     (case (map_of blocks hash, map_of weights hash) of
        (Some block, Some amount) \<Rightarrow> tally_emplace amount block t
      | _ \<Rightarrow> t)"

lemma tally_blocks_fold:
  "tally_blocks v blocks weights = fold (tally_step blocks weights) (ee_order v (map fst weights)) []"
  by (simp add: tally_blocks_def tally_step_def [abs_def])

definition entered :: "last_blocks \<Rightarrow> block_weights \<Rightarrow> block_hash \<Rightarrow> bool" where
  "entered blocks weights hash \<longleftrightarrow> map_of blocks hash \<noteq> None \<and> map_of weights hash \<noteq> None"

lemma tally_step_sorted: "tally_sorted t \<Longrightarrow> tally_sorted (tally_step blocks weights hash t)"
  by (auto simp: tally_step_def tally_emplace_sorted split: option.splits)

lemma tally_step_keys:
  "fst ` set (tally_step blocks weights hash t) =
     fst ` set t \<union> (if entered blocks weights hash then {the (map_of weights hash)} else {})"
  by (auto simp: tally_step_def entered_def tally_emplace_keys split: option.splits)

lemma tally_step_set:
  "set (tally_step blocks weights hash t) \<subseteq>
     set t \<union> (if entered blocks weights hash
              then {(the (map_of weights hash), the (map_of blocks hash))} else {})"
  using tally_emplace_set by (auto simp: tally_step_def entered_def split: option.splits)

lemma tally_fold_sorted: "tally_sorted t \<Longrightarrow> tally_sorted (fold (tally_step blocks weights) hs t)"
  by (induction hs arbitrary: t) (auto simp: tally_step_sorted)

lemma tally_fold_keys:
  "fst ` set (fold (tally_step blocks weights) hs t) =
     fst ` set t \<union> (\<lambda>h. the (map_of weights h)) ` {h \<in> set hs. entered blocks weights h}"
proof (induction hs arbitrary: t)
  case (Cons h hs)
  have "{k \<in> set (h # hs). entered blocks weights k}
        = (if entered blocks weights h then {h} else {}) \<union> {k \<in> set hs. entered blocks weights k}"
    by auto
  then show ?case by (simp add: Cons.IH tally_step_keys image_Un del: set_simps)
qed simp

lemma tally_fold_set:
  "set (fold (tally_step blocks weights) hs t) \<subseteq>
     set t \<union> (\<lambda>h. (the (map_of weights h), the (map_of blocks h))) ` {h \<in> set hs. entered blocks weights h}"
proof (induction hs arbitrary: t)
  case (Cons h hs)
  have "{k \<in> set (h # hs). entered blocks weights k}
        = (if entered blocks weights h then {h} else {}) \<union> {k \<in> set hs. entered blocks weights k}"
    by auto
  then show ?case
    using Cons.IH [of "tally_step blocks weights h t"] tally_step_set [of blocks weights h t]
    by (simp add: image_Un del: set_simps split: if_splits) blast+
qed simp

lemma tally_facts:
  assumes "order_ok v"
  shows "tally_sorted (tally_blocks v blocks (vote_weights v votes))"
    and "fst ` set (tally_blocks v blocks (vote_weights v votes)) =
           votes_for v votes ` (voted votes \<inter> fst ` set blocks)"
    and "(w, b) \<in> set (tally_blocks v blocks (vote_weights v votes)) \<Longrightarrow>
           \<exists>h \<in> voted votes. map_of blocks h = Some b \<and> w = votes_for v votes h"
proof -
  have e: "{h \<in> set (ee_order v (map fst (vote_weights v votes))). entered blocks (vote_weights v votes) h}
           = voted votes \<inter> fst ` set blocks"
    using assms by (auto simp: order_ok_def entered_def map_of_vote_weights keys_vote_weights map_of_eq_None_iff)
  show "tally_sorted (tally_blocks v blocks (vote_weights v votes))"
    unfolding tally_blocks_fold by (rule tally_fold_sorted) (simp add: tally_sorted_def)
  show "fst ` set (tally_blocks v blocks (vote_weights v votes)) =
           votes_for v votes ` (voted votes \<inter> fst ` set blocks)"
    unfolding tally_blocks_fold tally_fold_keys e by (auto simp: map_of_vote_weights)
  assume "(w, b) \<in> set (tally_blocks v blocks (vote_weights v votes))"
  then have "(w, b) \<in> (\<lambda>h. (the (map_of (vote_weights v votes) h), the (map_of blocks h)))
                       ` (voted votes \<inter> fst ` set blocks)"
    unfolding tally_blocks_fold
    using tally_fold_set [of blocks "vote_weights v votes" "ee_order v (map fst (vote_weights v votes))" "[]"] e
    by auto
  then obtain h where h: "h \<in> voted votes" "h \<in> fst ` set blocks"
      "w = the (map_of (vote_weights v votes) h)" "b = the (map_of blocks h)" by auto
  from h(2) obtain b' where "map_of blocks h = Some b'"
    by (cases "map_of blocks h") (auto simp: map_of_eq_None_iff)
  with h show "\<exists>h \<in> voted votes. map_of blocks h = Some b \<and> w = votes_for v votes h"
    by (auto simp: map_of_vote_weights)
qed

end
