(* ===== verification/Election_Quorum.thy ===== *)
theory Election_Quorum
  imports Election_Tally
begin

declare split_paired_All [simp del] split_paired_Ex [simp del]

text \<open>
  When an election is confirmed: the block with the most votes leads every block of another weight by
  the quorum, and a block that does so is confirmed.
\<close>

section \<open>Sums\<close>

lemma sum_weight_for:
  assumes "finite S" "voted votes \<subseteq> S"
  shows "(\<Sum>h \<in> S. weight_for v votes h) = total_weight v votes"
  using assms(2)
proof (induction votes)
  case Nil
  then show ?case by (simp add: weight_for_def total_weight_def)
next
  case (Cons p votes)
  obtain a i where p: "p = (a, i)" by (cases p)
  have w: "weight_for v (p # votes) h = (if h = vi_hash i then unat (ee_weight v a) else 0) + weight_for v votes h" for h
    by (simp add: weight_for_def p)
  have "vi_hash i \<in> S" using Cons.prems by (auto simp: voted_def p)
  moreover have "voted votes \<subseteq> S" using Cons.prems by (auto simp: voted_def)
  ultimately show ?case
    unfolding w by (simp add: sum.distrib Cons.IH assms(1)) (simp add: total_weight_def p)
qed

lemma finite_voted [simp]: "finite (voted votes)"
  by (simp add: voted_def)

lemma tally_distinct: "tally_sorted t \<Longrightarrow> distinct (map fst t)"
  by (induction t) (auto simp: tally_sorted_def)

lemma tally_sum:
  assumes o: "order_ok v" and t: "total_weight v votes < 2 ^ 128"
  shows "sum_list (map (unat \<circ> fst) (tally_blocks v blocks (vote_weights v votes))) \<le> total_weight v votes"
proof -
  let ?t = "tally_blocks v blocks (vote_weights v votes)"
  let ?S = "voted votes \<inter> fst ` set blocks"
  have d: "distinct (map fst ?t)" by (rule tally_distinct [OF tally_facts(1) [OF o]])
  have "sum_list (map (unat \<circ> fst) ?t) = sum_list (map unat (map fst ?t))" by simp
  also have "\<dots> = sum unat (fst ` set ?t)"
    using sum_list_distinct_conv_sum_set [OF d, of unat] by simp
  also have "\<dots> = sum unat (votes_for v votes ` ?S)" by (simp add: tally_facts(2) [OF o])
  also have "\<dots> \<le> (\<Sum>h \<in> ?S. unat (votes_for v votes h))"
    using sum_image_le [of ?S unat "votes_for v votes"] by (simp add: comp_def)
  also have "\<dots> = (\<Sum>h \<in> ?S. weight_for v votes h)" by (simp add: unat_votes_for [OF t])
  also have "\<dots> \<le> (\<Sum>h \<in> voted votes. weight_for v votes h)"
    by (rule sum_mono2) auto
  also have "\<dots> = total_weight v votes" by (rule sum_weight_for) auto
  finally show ?thesis .
qed

section \<open>The leading block\<close>

definition known_voted :: "election \<Rightarrow> block_hash set" where
  "known_voted e = voted (el_last_votes e) \<inter> fst ` set (el_last_blocks e)"

definition leads :: "election_env \<Rightarrow> election \<Rightarrow> block_hash \<Rightarrow> bool" where
  "leads v e h \<longleftrightarrow> h \<in> known_voted e
     \<and> (\<forall>k \<in> known_voted e. weight_for v (el_last_votes e) k \<le> weight_for v (el_last_votes e) h)"

definition quorum_over :: "election_env \<Rightarrow> election \<Rightarrow> block_hash \<Rightarrow> bool" where
  "quorum_over v e h \<longleftrightarrow> unat (ee_delta v) \<le> weight_for v (el_last_votes e) h
     \<and> (\<forall>k \<in> known_voted e. weight_for v (el_last_votes e) k < weight_for v (el_last_votes e) h \<longrightarrow>
          weight_for v (el_last_votes e) k + unat (ee_delta v) \<le> weight_for v (el_last_votes e) h)"

definition blocks_keyed :: "crypto \<Rightarrow> last_blocks \<Rightarrow> bool" where
  "blocks_keyed c blocks \<longleftrightarrow> (\<forall>(hash, block) \<in> set blocks. generate_hash c block = hash)"

definition light :: "election_env \<Rightarrow> election \<Rightarrow> bool" where
  "light v e \<longleftrightarrow> total_weight v (el_last_votes e) < 2 ^ 128"

lemma blocks_keyedD: "blocks_keyed c blocks \<Longrightarrow> map_of blocks h = Some b \<Longrightarrow> generate_hash c b = h"
  by (auto simp: blocks_keyed_def dest: map_of_SomeD)

lemma tally_head:
  assumes o: "order_ok v" and l: "light v e" and k: "blocks_keyed c (el_last_blocks e)"
    and t: "tally_blocks v (el_last_blocks e) (vote_weights v (el_last_votes e)) = (w, b) # rest"
  shows "map_of (el_last_blocks e) (generate_hash c b) = Some b"
    and "unat w = weight_for v (el_last_votes e) (generate_hash c b)"
    and "leads v e (generate_hash c b)"
    and "have_quorum (ee_delta v) ((w, b) # rest) = Some (quorum_over v e (generate_hash c b))"
    and "unat (sum_list (map fst ((w, b) # rest))) \<ge> unat w"
proof -
  let ?V = "el_last_votes e" and ?B = "el_last_blocks e"
  note T = l [unfolded light_def]
  note tf = tally_facts [OF o, where blocks = ?B and votes = ?V, unfolded t]
  note u = unat_votes_for [OF T]
  from tf(3) [where w = w and b = b] obtain h where h: "h \<in> voted ?V" "map_of ?B h = Some b" "w = votes_for v ?V h" by auto
  have hb: "generate_hash c b = h" by (rule blocks_keyedD [OF k h(2)])
  show "map_of ?B (generate_hash c b) = Some b" by (simp add: hb h)
  show w: "unat w = weight_for v ?V (generate_hash c b)" by (simp add: hb h u)
  have K: "known_voted e = voted ?V \<inter> fst ` set ?B" by (simp add: known_voted_def)
  have hK: "h \<in> known_voted e" using h by (force simp: K dest: map_of_SomeD)
  have img: "weight_for v ?V ` known_voted e = unat ` fst ` set ((w, b) # rest)"
    by (simp only: tf(2) K image_image u)
  have top: "unat a \<le> unat w" if "a \<in> fst ` set ((w, b) # rest)" for a
    using tf(1) that by (auto simp: tally_sorted_def word_less_nat_alt intro: less_imp_le)
  show ld: "leads v e (generate_hash c b)"
    using hK img top unfolding leads_def hb w [unfolded hb, symmetric] by (metis (no_types, lifting) imageE imageI)
  show "unat (sum_list (map fst ((w, b) # rest))) \<ge> unat w"
  proof -
    have "sum_list (map (unat \<circ> fst) ((w, b) # rest)) < 2 ^ 128"
      using tally_sum [OF o T, of ?B] T unfolding t by linarith
    then have "unat (sum_list (map fst ((w, b) # rest))) = sum_list (map unat (map fst ((w, b) # rest)))"
      by (intro unat_sum_list) simp
    then show ?thesis by simp
  qed
  show "have_quorum (ee_delta v) ((w, b) # rest) = Some (quorum_over v e (generate_hash c b))"
  proof (cases rest)
    case Nil
    then have "\<forall>k \<in> known_voted e. weight_for v ?V k = unat w" using img by auto
    then show ?thesis
      using w unfolding have_quorum_def quorum_over_def Nil by (simp add: word_le_nat_alt)
  next
    case (Cons p rest')
    obtain w2 b2 where p: "p = (w2, b2)" by (cases p)
    have s: "unat w2 < unat w" using tf(1) by (simp add: Cons p tally_sorted_def word_less_nat_alt)
    then have le: "w2 \<le> w" by (simp add: word_le_nat_alt)
    have below: "unat a \<le> unat w2" if "a \<in> fst ` set rest" for a
      using tf(1) that by (auto simp: Cons p tally_sorted_def word_less_nat_alt intro: less_imp_le)
    have "unat w2 \<in> weight_for v ?V ` known_voted e" unfolding img by (simp add: Cons p)
    then have m: "\<exists>k \<in> known_voted e. weight_for v ?V k = unat w2" by force
    have b2: "weight_for v ?V k \<le> unat w2" if k: "k \<in> known_voted e" "weight_for v ?V k < unat w" for k
    proof -
      have "weight_for v ?V k \<in> unat ` fst ` set ((w, b) # rest)" using k(1) img by blast
      then obtain a where a: "a \<in> fst ` set ((w, b) # rest)" "weight_for v ?V k = unat a" by blast
      then have "a \<in> fst ` set rest" using k(2) by auto
      then show ?thesis using below a(2) by simp
    qed
    have "ee_delta v \<le> w - w2 \<longleftrightarrow> unat w2 + unat (ee_delta v) \<le> unat w"
      using s le by (auto simp: word_le_nat_alt unat_sub)
    also have "\<dots> \<longleftrightarrow> quorum_over v e (generate_hash c b)"
      unfolding quorum_over_def w [symmetric] using m s b2 by (auto; fastforce)
    finally show ?thesis
      by (simp add: have_quorum_def Cons p le)
  qed
qed

end
