(* ===== verification/Election_Inv.thy ===== *)
theory Election_Inv
  imports Election_Quorum
begin

declare split_paired_All [simp del] split_paired_Ex [simp del]

text \<open>The invariant of an election and what each operation does to it.\<close>

definition election_inv :: "crypto \<Rightarrow> election \<Rightarrow> bool" where
  "election_inv c e \<longleftrightarrow>
     blocks_keyed c (el_last_blocks e) \<and> distinct (map fst (el_last_blocks e))
     \<and> distinct (map fst (el_last_votes e))
     \<and> map_of (el_last_blocks e) (winner_hash c e) = Some (es_winner (el_status e))"

definition is_report :: "election_effect \<Rightarrow> bool" where
  "is_report f = (case f of Process_confirmed s \<Rightarrow> True | _ \<Rightarrow> False)"

definition reports :: "election_ctx \<Rightarrow> election_effect list" where
  "reports x = filter is_report (ec_effects x)"

lemma is_report_simps [simp]:
  "is_report (Process_confirmed s)"
  "\<not> is_report (Generator_add r h)" "\<not> is_report (Final_generator_add r h)"
  "\<not> is_report (Confirmation_action b)" "\<not> is_report (Force b)" "\<not> is_report (History_erase r)"
  "\<not> is_report (Live_vote a)" "\<not> is_report (Publish_filter_clear b)" "\<not> is_report (Flood_block b)"
  "\<not> is_report (Active_erase_hash h)" "\<not> is_report (Send_publish ch b)" "\<not> is_report (Flood_publish b)"
  "\<not> is_report (Send_confirm_req ch l)"
  by (simp_all add: is_report_def)

lemma reports_simps [simp]:
  "reports (emit f x) = reports x @ (if is_report f then [f] else [])"
  "reports (with_election g x) = reports x"
  "reports (ec_election_update u x) = reports x"
  "reports (ec_winners_update w x) = reports x"
  by (simp_all add: reports_def)

section \<open>The parts of a confirmation\<close>

lemma winner_hash_simps [simp]:
  "winner_hash c (e\<lparr>el_state := st\<rparr>) = winner_hash c e"
  "winner_hash c (e\<lparr>el_state_start := t\<rparr>) = winner_hash c e"
  "winner_hash c (e\<lparr>el_last_block := t\<rparr>) = winner_hash c e"
  "winner_hash c (e\<lparr>el_last_req := t\<rparr>) = winner_hash c e"
  "winner_hash c (e\<lparr>el_confirmation_request_count := n\<rparr>) = winner_hash c e"
  "winner_hash c (e\<lparr>el_last_votes := vs\<rparr>) = winner_hash c e"
  "winner_hash c (e\<lparr>el_last_blocks := bs\<rparr>) = winner_hash c e"
  "winner_hash c (e\<lparr>el_is_quorum := q\<rparr>) = winner_hash c e"
  "winner_hash c (e\<lparr>el_final_weight := w\<rparr>) = winner_hash c e"
  "winner_hash c (e\<lparr>el_last_tally := t'\<rparr>) = winner_hash c e"
  "winner_hash c (e\<lparr>el_status := s\<rparr>) = generate_hash c (es_winner s)"
  by (simp_all add: winner_hash_def)

definition votes_removed :: "election_env \<Rightarrow> block_hash \<Rightarrow> election \<Rightarrow> last_votes" where
  "votes_removed v hash e =
     (if ee_voting v then fold AList.delete (ee_history v (el_root e) hash) (el_last_votes e)
      else el_last_votes e)"

lemma remove_votes_facts [simp]:
  "ec_election (remove_votes v h x) =
     (ec_election x)\<lparr>el_last_votes := votes_removed v h (ec_election x)\<rparr>"
  "ec_winners (remove_votes v h x) = ec_winners x"
  "reports (remove_votes v h x) = reports x"
  by (simp_all add: remove_votes_def votes_removed_def Let_def)

lemma fold_delete_map_of:
  "map_of (fold AList.delete ks al) k = (if k \<in> set ks then None else map_of al k)"
  by (induction ks arbitrary: al) (auto simp: delete_conv')

lemma fold_delete_distinct:
  "distinct (map fst al) \<Longrightarrow> distinct (map fst (fold AList.delete ks al))"
  by (induction ks arbitrary: al) (auto simp: distinct_delete)

lemma fold_delete_subset: "set (fold AList.delete ks al) \<subseteq> set al"
proof (induction ks arbitrary: al)
  case (Cons k ks)
  then show ?case using Cons [of "AList.delete k al"] by (auto simp: AList.delete_eq)
qed simp

lemma votes_removed_distinct [simp]:
  "distinct (map fst (el_last_votes e)) \<Longrightarrow> distinct (map fst (votes_removed v h e))"
  by (simp add: votes_removed_def fold_delete_distinct)

definition switched :: "crypto \<Rightarrow> election_env \<Rightarrow> tally_t \<Rightarrow> block \<Rightarrow> election \<Rightarrow> bool" where
  "switched c v t b e \<longleftrightarrow> ee_delta v \<le> sum_list (map fst t) \<and> generate_hash c b \<noteq> winner_hash c e"

lemma switch_winner_facts:
  "ec_election (switch_winner c v t b x) =
     (if switched c v t b (ec_election x)
      then (ec_election x)\<lparr>el_status := (el_status (ec_election x))\<lparr>es_winner := b\<rparr>,
             el_last_votes := votes_removed v (winner_hash c (ec_election x)) (ec_election x)\<rparr>
      else ec_election x)"
  "ec_winners (switch_winner c v t b x) = ec_winners x"
  "reports (switch_winner c v t b x) = reports x"
  by (auto simp: switch_winner_def switched_def Let_def votes_removed_def)

definition confirm_status :: "election_env \<Rightarrow> election_status_type \<Rightarrow> election \<Rightarrow> election_status" where
  "confirm_status v type_a e = (el_status e)
     \<lparr>es_election_end := ee_system_now v div milliseconds,
      es_election_duration := (ee_now v - el_election_start e) div milliseconds,
      es_confirmation_request_count := el_confirmation_request_count e,
      es_block_count := of_nat (length (el_last_blocks e)),
      es_voter_count := of_nat (length (el_last_votes e)),
      es_type := type_a\<rparr>"

lemma confirm_status_winner [simp]: "es_winner (confirm_status v ty e) = es_winner (el_status e)"
  by (simp add: confirm_status_def)

definition confirms :: "crypto \<Rightarrow> election_ctx \<Rightarrow> bool" where
  "confirms c x \<longleftrightarrow> el_state (ec_election x) \<noteq> St_confirmed \<and> winner_hash c (ec_election x) \<notin> ec_winners x"

lemma confirm_once_facts:
  "ec_election (confirm_once c v ty x) =
     (if confirms c x
      then (ec_election x)\<lparr>el_state := St_confirmed, el_status := confirm_status v ty (ec_election x)\<rparr>
      else (ec_election x)\<lparr>el_state := St_confirmed\<rparr>)"
  "reports (confirm_once c v ty x) =
     reports x @ (if confirms c x then [Process_confirmed (confirm_status v ty (ec_election x))] else [])"
  "ec_winners (confirm_once c v ty x) =
     (if confirms c x then insert (winner_hash c (ec_election x)) (ec_winners x) else ec_winners x)"
  by (simp_all add: confirm_once_def confirms_def confirm_status_def Let_def)

definition finishes :: "election_env \<Rightarrow> election \<Rightarrow> bool" where
  "finishes v e \<longleftrightarrow> \<not> ee_canary v \<or> ee_delta v \<le> el_final_weight e"

definition quorum_seen :: "election_env \<Rightarrow> election \<Rightarrow> election" where
  "quorum_seen v e = (if ee_canary v then e\<lparr>el_is_quorum := True\<rparr> else e)"

lemma quorum_seen_simps [simp]:
  "el_state (quorum_seen v e) = el_state e" "el_status (quorum_seen v e) = el_status e"
  "el_last_blocks (quorum_seen v e) = el_last_blocks e" "el_last_votes (quorum_seen v e) = el_last_votes e"
  "el_final_weight (quorum_seen v e) = el_final_weight e" "winner_hash c (quorum_seen v e) = winner_hash c e"
  "el_election_start (quorum_seen v e) = el_election_start e"
  "el_confirmation_request_count (quorum_seen v e) = el_confirmation_request_count e"
  "confirm_status v' ty (quorum_seen v e) = confirm_status v' ty e"
  by (simp_all add: quorum_seen_def confirm_status_def)

lemma confirm_quorum_facts:
  "ec_election (confirm_quorum c v x) =
     (let e = quorum_seen v (ec_election x) in
      if finishes v e then
        if confirms c x then e\<lparr>el_state := St_confirmed, el_status := confirm_status v Active_confirmed_quorum e\<rparr>
        else e\<lparr>el_state := St_confirmed\<rparr>
      else e)"
  "reports (confirm_quorum c v x) =
     reports x @ (if finishes v (ec_election x) \<and> confirms c x
                  then [Process_confirmed (confirm_status v Active_confirmed_quorum (ec_election x))] else [])"
  by (cases "ee_canary v"; cases "el_is_quorum (ec_election x)"; cases "ee_voting v";
      simp add: confirm_quorum_def Let_def finishes_def quorum_seen_def confirm_once_facts confirms_def
        confirm_status_def)+

section \<open>Confirmation by quorum\<close>

definition fresh_final :: "election_env \<Rightarrow> election \<Rightarrow> block_hash \<Rightarrow> u128" where
  "fresh_final v e h =
     (if h \<in> voted (final_votes (el_last_votes e)) then votes_for v (final_votes (el_last_votes e)) h
      else el_final_weight e)"

definition the_tally :: "election_env \<Rightarrow> election \<Rightarrow> tally_t" where
  "the_tally v e = tally_blocks v (el_last_blocks e) (vote_weights v (el_last_votes e))"

lemma tally_impl_fst: "fst (tally_impl c v e) = the_tally v e"
  by (simp add: tally_impl_def the_tally_def Let_def)

lemma tally_impl_facts:
  "el_state (snd (tally_impl c v e)) = el_state e"
  "el_status (snd (tally_impl c v e)) = el_status e"
  "el_last_blocks (snd (tally_impl c v e)) = el_last_blocks e"
  "el_last_votes (snd (tally_impl c v e)) = el_last_votes e"
  "el_root (snd (tally_impl c v e)) = el_root e"
  "el_qualified_root (snd (tally_impl c v e)) = el_qualified_root e"
  "el_last_tally (snd (tally_impl c v e)) = vote_weights v (el_last_votes e)"
  "winner_hash c' (snd (tally_impl c v e)) = winner_hash c' e"
  by (auto simp: tally_impl_def Let_def winner_hash_def split: list.split option.split)

lemma tally_impl_final:
  "the_tally v e = (w, b) # rest \<Longrightarrow>
     el_final_weight (snd (tally_impl c v e)) = fresh_final v e (generate_hash c b)"
  by (auto simp: tally_impl_def Let_def the_tally_def fresh_final_def map_of_vote_weights)

lemma tally_empty_iff:
  assumes "order_ok v"
  shows "the_tally v e = [] \<longleftrightarrow> known_voted e = {}"
proof -
  have "the_tally v e = [] \<longleftrightarrow> fst ` set (the_tally v e) = {}" by simp
  then show ?thesis by (simp add: the_tally_def known_voted_def tally_facts(2) [OF assms])
qed

text \<open>The election after a tally, with the weights of the tally in its status.\<close>

definition tallied :: "crypto \<Rightarrow> election_env \<Rightarrow> u128 \<Rightarrow> election \<Rightarrow> election" where
  "tallied c v w e =
     (let e = snd (tally_impl c v e)
      in e\<lparr>el_status := (el_status e)\<lparr>es_tally := w, es_final_tally := el_final_weight e\<rparr>\<rparr>)"

lemma tallied_facts [simp]:
  "el_state (tallied c v w e) = el_state e"
  "es_winner (el_status (tallied c v w e)) = es_winner (el_status e)"
  "el_last_blocks (tallied c v w e) = el_last_blocks e"
  "el_last_votes (tallied c v w e) = el_last_votes e"
  "el_root (tallied c v w e) = el_root e"
  "el_qualified_root (tallied c v w e) = el_qualified_root e"
  "el_final_weight (tallied c v w e) = el_final_weight (snd (tally_impl c v e))"
  "winner_hash c' (tallied c v w e) = winner_hash c' e"
  by (simp_all add: tallied_def Let_def tally_impl_facts winner_hash_def)

lemma confirm_if_quorum_unfold:
  "confirm_if_quorum c v x =
     (case the_tally v (ec_election x) of
        [] \<Rightarrow> None
      | (w, b) # rest \<Rightarrow>
          map_option
            (\<lambda>quorum. let y = switch_winner c v ((w, b) # rest) b (x\<lparr>ec_election := tallied c v w (ec_election x)\<rparr>)
                      in if quorum then confirm_quorum c v y else y)
            (have_quorum (ee_delta v) ((w, b) # rest)))"
proof -
  obtain t e' where te: "tally_impl c v (ec_election x) = (t, e')" by (cases "tally_impl c v (ec_election x)")
  have t: "the_tally v (ec_election x) = t" using tally_impl_fst [of c v "ec_election x"] by (simp add: te)
  have e': "tallied c v w (ec_election x) =
      e'\<lparr>el_status := (el_status e')\<lparr>es_tally := w, es_final_tally := el_final_weight e'\<rparr>\<rparr>" for w
    by (simp add: tallied_def te)
  show ?thesis
    unfolding confirm_if_quorum_def te t e'
    by (cases t) (auto simp: Let_def split: option.split)
qed

lemma confirm_if_quorum_returns:
  assumes "order_ok v" "light v (ec_election x)" "election_inv c (ec_election x)" "known_voted (ec_election x) \<noteq> {}"
  shows "\<exists>x'. confirm_if_quorum c v x = Some x'"
proof -
  have "the_tally v (ec_election x) \<noteq> []" using assms by (simp add: tally_empty_iff)
  then obtain w b rest where t: "the_tally v (ec_election x) = (w, b) # rest"
    by (cases "the_tally v (ec_election x)") auto
  from tally_head(4) [OF assms(1,2) _ t [unfolded the_tally_def], of c] assms(3)
  show ?thesis by (simp add: confirm_if_quorum_unfold t election_inv_def)
qed

text \<open>
  What a call of \<open>confirm_if_quorum\<close> did, in terms of the votes it saw: \<open>h\<close> is the block with
  the most votes.
\<close>

lemma confirm_if_quorum_facts:
  assumes o: "order_ok v" and l: "light v (ec_election x)" and i: "election_inv c (ec_election x)"
    and s: "confirm_if_quorum c v x = Some x'"
  obtains h where "leads v (ec_election x) h"
    and "el_state (ec_election x') =
      (if quorum_over v (ec_election x) h \<and> (\<not> ee_canary v \<or> ee_delta v \<le> fresh_final v (ec_election x) h)
       then St_confirmed else el_state (ec_election x))"
    and "quorum_over v (ec_election x) h \<Longrightarrow> winner_hash c (ec_election x') = h"
    and "el_final_weight (ec_election x') = fresh_final v (ec_election x) h"
    and "el_last_blocks (ec_election x') = el_last_blocks (ec_election x)"
    and "el_qualified_root (ec_election x') = el_qualified_root (ec_election x)"
    and "election_inv c (ec_election x')"
    and "set (el_last_votes (ec_election x')) \<subseteq> set (el_last_votes (ec_election x))"
    and "\<exists>new. reports x' = reports x @ new \<and> length new \<le> 1
           \<and> (new \<noteq> [] \<longrightarrow> el_state (ec_election x) \<noteq> St_confirmed \<and> el_state (ec_election x') = St_confirmed
                \<and> new = [Process_confirmed (el_status (ec_election x'))])"
proof -
  let ?e = "ec_election x"
  note i' = i [unfolded election_inv_def]
  obtain w b rest where t: "the_tally v ?e = (w, b) # rest"
    using s by (auto simp: confirm_if_quorum_unfold split: list.splits)
  let ?h = "generate_hash c b" and ?T = "(w, b) # rest"
  have k: "blocks_keyed c (el_last_blocks ?e)" using i' by simp
  note th = tally_head [OF o l k t [unfolded the_tally_def]]
  let ?y = "switch_winner c v ?T b (x\<lparr>ec_election := tallied c v w ?e\<rparr>)"
  have x': "x' = (if quorum_over v ?e ?h then confirm_quorum c v ?y else ?y)"
    using s by (simp add: confirm_if_quorum_unfold t th(4) Let_def)
  have y: "el_state (ec_election ?y) = el_state ?e" "el_final_weight (ec_election ?y) = fresh_final v ?e ?h"
      "el_last_blocks (ec_election ?y) = el_last_blocks ?e"
      "el_qualified_root (ec_election ?y) = el_qualified_root ?e" "reports ?y = reports x"
      "set (el_last_votes (ec_election ?y)) \<subseteq> set (el_last_votes ?e)"
      "distinct (map fst (el_last_votes (ec_election ?y)))"
    using i' fold_delete_subset
    by (auto simp: switch_winner_facts tally_impl_final [OF t] votes_removed_def fold_delete_distinct)
  have wq: "winner_hash c (ec_election ?y) = ?h" if q: "quorum_over v ?e ?h"
  proof -
    have "ee_delta v \<le> sum_list (map fst ?T)"
      using q th(2,5) by (simp add: quorum_over_def word_le_nat_alt)
    then show ?thesis by (auto simp: switch_winner_facts switched_def)
  qed
  have wm: "map_of (el_last_blocks ?e) (winner_hash c (ec_election ?y)) = Some (es_winner (el_status (ec_election ?y)))"
    using i' th(1) by (auto simp: switch_winner_facts)
  show thesis
  proof (rule that [of ?h])
    show "leads v ?e ?h" by (rule th(3))
    show "el_state (ec_election x') =
      (if quorum_over v ?e ?h \<and> (\<not> ee_canary v \<or> ee_delta v \<le> fresh_final v ?e ?h)
       then St_confirmed else el_state ?e)"
      by (simp add: x' y confirm_quorum_facts Let_def finishes_def)
    show "winner_hash c (ec_election x') = ?h" if q: "quorum_over v ?e ?h"
      using wq [OF q] by (simp add: x' q confirm_quorum_facts Let_def winner_hash_def)
    show "el_final_weight (ec_election x') = fresh_final v ?e ?h"
      by (simp add: x' y confirm_quorum_facts Let_def)
    show "el_last_blocks (ec_election x') = el_last_blocks ?e"
      by (simp add: x' y confirm_quorum_facts Let_def)
    show "el_qualified_root (ec_election x') = el_qualified_root ?e"
      by (simp add: x' y confirm_quorum_facts Let_def quorum_seen_def)
    show "election_inv c (ec_election x')"
      using i' y(3,7) wm by (simp add: x' election_inv_def confirm_quorum_facts Let_def winner_hash_def)
    show "set (el_last_votes (ec_election x')) \<subseteq> set (el_last_votes ?e)"
      using y(6) by (simp add: x' confirm_quorum_facts Let_def)
    show "\<exists>new. reports x' = reports x @ new \<and> length new \<le> 1
           \<and> (new \<noteq> [] \<longrightarrow> el_state ?e \<noteq> St_confirmed \<and> el_state (ec_election x') = St_confirmed
                \<and> new = [Process_confirmed (el_status (ec_election x'))])"
      using y(1,5) by (simp add: x' confirm_quorum_facts Let_def confirms_def finishes_def)
  qed
qed

end
