(* ===== verification/Election_Run.thy ===== *)
theory Election_Run
  imports Election_Inv
begin

declare split_paired_All [simp del] split_paired_Ex [simp del]

text \<open>
  The operations the node performs on an election, one after the other and each with the state of the
  node it meets.  \<open>force_confirm\<close> belongs to the tests and is not one of them.
\<close>

datatype election_op =
  Op_vote account u64 block_hash
| Op_publish block
| Op_cache block_hash "(account \<times> u64) list"
| Op_generate
| Op_time solicitor nat
| Op_activate
| Op_confirm_height block_hash
| Op_status
| Op_winner_done block_hash

text \<open>
  The election part of \<open>active_transactions::confirm_block\<close>: a block whose confirmation height was
  set decides the election that it leads.
\<close>

definition confirm_height :: "crypto \<Rightarrow> election_env \<Rightarrow> block_hash \<Rightarrow> election_ctx \<Rightarrow> election_ctx" where
  "confirm_height c v hash x =
     (if winner_hash c (ec_election x) = hash \<and> \<not> confirmed (ec_election x)
      then confirm_once c v Active_confirmation_height x else x)"

fun election_exec :: "crypto \<Rightarrow> election_env \<Rightarrow> election_op \<Rightarrow> election_ctx \<Rightarrow> election_ctx option" where
  "election_exec c v (Op_vote rep timestamp hash) x = map_option snd (election_vote c v rep timestamp hash x)"
| "election_exec c v (Op_publish block) x = map_option snd (election_publish c v block x)"
| "election_exec c v (Op_cache hash voters) x = map_option snd (insert_inactive_votes_cache c v hash voters x)"
| "election_exec c v Op_generate x = generate_votes c v x"
| "election_exec c v (Op_time s batches) x = Some (snd (snd (transition_time c v batches (s, x))))"
| "election_exec c v Op_activate x = Some (with_election (transition_active (ee_now v)) x)"
| "election_exec c v (Op_confirm_height hash) x = Some (confirm_height c v hash x)"
| "election_exec c v Op_status x = Some (with_election (\<lambda>e. snd (current_status c v e)) x)"
| "election_exec c v (Op_winner_done hash) x = Some (x\<lparr>ec_winners := ec_winners x - {hash}\<rparr>)"

fun election_run :: "crypto \<Rightarrow> (election_env \<times> election_op) list \<Rightarrow> election_ctx \<Rightarrow> election_ctx option" where
  "election_run c [] x = Some x"
| "election_run c ((v, op) # ops) x = Option.bind (election_exec c v op x) (election_run c ops)"

text \<open>The weights of the representatives never exceed the supply, which 128 bits hold.\<close>

definition weights_bounded :: "election_env \<Rightarrow> bool" where
  "weights_bounded v \<longleftrightarrow> (\<forall>A. finite A \<longrightarrow> (\<Sum>a \<in> A. unat (ee_weight v a)) < 2 ^ 128)"

definition env_ok :: "election_env \<Rightarrow> bool" where
  "env_ok v \<longleftrightarrow> order_ok v \<and> weights_bounded v"

lemma light_if_bounded:
  assumes "weights_bounded v" "distinct (map fst (el_last_votes e))"
  shows "light v e"
proof -
  have "total_weight v (el_last_votes e) = sum_list (map (\<lambda>a. unat (ee_weight v a)) (map fst (el_last_votes e)))"
    by (simp add: total_weight_def case_prod_unfold comp_def)
  also have "\<dots> = (\<Sum>a \<in> set (map fst (el_last_votes e)). unat (ee_weight v a))"
    by (rule sum_list_distinct_conv_sum_set [OF assms(2)])
  finally show ?thesis using assms(1) by (simp add: light_def weights_bounded_def)
qed

section \<open>What an operation keeps\<close>

text \<open>The votes that a tally of the operation sees.\<close>

fun at_tally :: "election_env \<Rightarrow> election_op \<Rightarrow> election \<Rightarrow> election" where
  "at_tally v (Op_vote rep timestamp hash) e =
     e\<lparr>el_last_votes := AList.update rep \<lparr>vi_time = ee_now v, vi_timestamp = timestamp, vi_hash = hash\<rparr> (el_last_votes e)\<rparr>"
| "at_tally v (Op_cache hash voters) e = e\<lparr>el_last_votes := insert_cached_votes hash voters (el_last_votes e)\<rparr>"
| "at_tally v op e = e"

text \<open>One step, as the lemmas on runs use it.\<close>

definition good_step :: "crypto \<Rightarrow> election_env \<Rightarrow> election_op \<Rightarrow> election_ctx \<Rightarrow> election_ctx \<Rightarrow> bool" where
  "good_step c v op x x' \<longleftrightarrow>
     election_inv c (ec_election x')
     \<and> (confirmed (ec_election x) \<longrightarrow> confirmed (ec_election x')
          \<and> winner_hash c (ec_election x') = winner_hash c (ec_election x) \<and> reports x' = reports x)
     \<and> (\<not> confirmed (ec_election x) \<longrightarrow>
          reports x' = reports x
          \<or> confirmed (ec_election x') \<and> reports x' = reports x @ [Process_confirmed (el_status (ec_election x'))])
     \<and> (\<not> confirmed (ec_election x) \<and> confirmed (ec_election x') \<longrightarrow>
          op = Op_confirm_height (winner_hash c (ec_election x))
            \<and> winner_hash c (ec_election x') = winner_hash c (ec_election x)
          \<or> (let s = at_tally v op (ec_election x); h = winner_hash c (ec_election x')
             in leads v s h \<and> quorum_over v s h \<and> (ee_canary v \<longrightarrow> ee_delta v \<le> fresh_final v s h)))"

lemma confirmed_simps [simp]:
  "confirmed (e\<lparr>el_state := st\<rparr>) \<longleftrightarrow> st = St_confirmed \<or> st = St_expired_confirmed"
  "confirmed (e\<lparr>el_state_start := t\<rparr>) = confirmed e"
  "confirmed (e\<lparr>el_last_block := t\<rparr>) = confirmed e"
  "confirmed (e\<lparr>el_last_req := t\<rparr>) = confirmed e"
  "confirmed (e\<lparr>el_confirmation_request_count := n\<rparr>) = confirmed e"
  "confirmed (e\<lparr>el_last_votes := vs\<rparr>) = confirmed e"
  "confirmed (e\<lparr>el_last_blocks := bs\<rparr>) = confirmed e"
  "confirmed (e\<lparr>el_status := s\<rparr>) = confirmed e"
  by (simp_all add: confirmed_def)

lemma good_confirm_if_quorum:
  assumes v: "env_ok v" and i: "election_inv c (ec_election y)" and n: "\<not> confirmed (ec_election y)"
    and y: "ec_election y = at_tally v op (ec_election x)" "reports y = reports x" "confirmed (ec_election y) = confirmed (ec_election x)"
    and s: "confirm_if_quorum c v y = Some x'"
  shows "good_step c v op x x'"
proof -
  have l: "light v (ec_election y)"
    using v i by (auto simp: env_ok_def election_inv_def intro: light_if_bounded)
  have o: "order_ok v" using v by (simp add: env_ok_def)
  obtain h where h: "leads v (ec_election y) h"
      "el_state (ec_election x') =
        (if quorum_over v (ec_election y) h \<and> (\<not> ee_canary v \<or> ee_delta v \<le> fresh_final v (ec_election y) h)
         then St_confirmed else el_state (ec_election y))"
      "quorum_over v (ec_election y) h \<Longrightarrow> winner_hash c (ec_election x') = h"
      "election_inv c (ec_election x')"
      "\<exists>new. reports x' = reports y @ new \<and> length new \<le> 1
           \<and> (new \<noteq> [] \<longrightarrow> el_state (ec_election y) \<noteq> St_confirmed \<and> el_state (ec_election x') = St_confirmed
                \<and> new = [Process_confirmed (el_status (ec_election x'))])"
    by (rule confirm_if_quorum_facts [OF o l i s]) blast
  have nc: "\<not> confirmed (ec_election x)" using n y(3) by simp
  have "confirmed (ec_election x') \<longrightarrow> quorum_over v (ec_election y) h
          \<and> (ee_canary v \<longrightarrow> ee_delta v \<le> fresh_final v (ec_election y) h)"
    using h(2) n by (auto simp: confirmed_def split: if_splits)
  moreover have "reports x' = reports x
          \<or> confirmed (ec_election x') \<and> reports x' = reports x @ [Process_confirmed (el_status (ec_election x'))]"
    using h(5) y(2) by (auto simp: confirmed_def)
  ultimately show ?thesis
    using h(1,3,4) nc unfolding good_step_def Let_def y(1) [symmetric] by blast
qed

lemma inv_votes:
  "election_inv c e \<Longrightarrow> distinct (map fst vs) \<Longrightarrow> election_inv c (e\<lparr>el_last_votes := vs\<rparr>)"
  by (simp add: election_inv_def)

lemma insert_cached_distinct:
  "distinct (map fst votes) \<Longrightarrow> distinct (map fst (insert_cached_votes hash voters votes))"
  by (induction hash voters votes rule: insert_cached_votes.induct)
     (auto simp: distinct_update split: option.split)

lemma good_refl: "election_inv c (ec_election x) \<Longrightarrow> good_step c v op x x"
  by (simp add: good_step_def)

text \<open>An operation that leaves the state, the winner and the reports alone.\<close>

lemma good_quiet:
  assumes "election_inv c (ec_election x')" "confirmed (ec_election x') = confirmed (ec_election x)"
    "winner_hash c (ec_election x') = winner_hash c (ec_election x)" "reports x' = reports x"
  shows "good_step c v op x x'"
  using assms by (auto simp: good_step_def)

text \<open>The election with the vote recorded.\<close>

definition entered_vote :: "election_env \<Rightarrow> account \<Rightarrow> u64 \<Rightarrow> block_hash \<Rightarrow> election_ctx \<Rightarrow> election_ctx" where
  "entered_vote v rep ts h x =
     emit (Live_vote rep) (with_election (\<lambda>e. at_tally v (Op_vote rep ts h) e) x)"

definition eligible :: "election_env \<Rightarrow> account \<Rightarrow> bool" where
  "eligible v rep \<longleftrightarrow> ee_dev_network v \<or> minimum_principal_weight (ee_trended v) < ee_weight v rep"

definition decision :: "election_env \<Rightarrow> account \<Rightarrow> u64 \<Rightarrow> block_hash \<Rightarrow> election \<Rightarrow> bool \<times> bool" where
  "decision v rep ts h e =
     (if eligible v rep
      then vote_decision (ee_now v) (cooldown (ee_trended v) (ee_weight v rep)) (map_of (el_last_votes e) rep) ts h
      else (False, False))"

lemma election_vote_unfold:
  "election_vote c v rep ts h x =
     (let d = decision v rep ts h (ec_election x); y = entered_vote v rep ts h x
      in if snd d then
           if confirmed (ec_election x) then Some (d, y) else map_option (Pair d) (confirm_if_quorum c v y)
         else Some (d, x))"
  by (cases "eligible v rep";
      cases "vote_decision (ee_now v) (cooldown (ee_trended v) (ee_weight v rep)) (map_of (el_last_votes (ec_election x)) rep) ts h")
     (simp_all add: election_vote_def decision_def eligible_def entered_vote_def Let_def)

lemma entered_vote_facts:
  assumes "election_inv c (ec_election x)"
  shows "election_inv c (ec_election (entered_vote v rep ts h x))"
    and "ec_election (entered_vote v rep ts h x) = at_tally v (Op_vote rep ts h) (ec_election x)"
    and "reports (entered_vote v rep ts h x) = reports x"
    and "confirmed (ec_election (entered_vote v rep ts h x)) = confirmed (ec_election x)"
    and "winner_hash c (ec_election (entered_vote v rep ts h x)) = winner_hash c (ec_election x)"
  using assms by (simp_all add: entered_vote_def election_inv_def distinct_update)

lemma good_vote:
  assumes v: "env_ok v" and i: "election_inv c (ec_election x)"
    and s: "election_vote c v rep ts h x = Some (r, x')"
  shows "good_step c v (Op_vote rep ts h) x x'"
proof -
  let ?y = "entered_vote v rep ts h x"
  note e = entered_vote_facts [OF i, of v rep ts h]
  have "x' = x \<or> x' = ?y \<or> \<not> confirmed (ec_election ?y) \<and> confirm_if_quorum c v ?y = Some x'"
    using s by (auto simp: election_vote_unfold Let_def e(4) split: if_splits)
  then consider "x' = x" | "x' = ?y" | "\<not> confirmed (ec_election ?y)" "confirm_if_quorum c v ?y = Some x'" by blast
  then show ?thesis
  proof cases
    case 1
    then show ?thesis using good_refl [OF i] by simp
  next
    case 2
    then show ?thesis using e by (intro good_quiet) simp_all
  next
    case 3
    then show ?thesis by (intro good_confirm_if_quorum [OF v e(1) 3(1) e(2,3,4)])
  qed
qed

lemma good_cache:
  assumes v: "env_ok v" and i: "election_inv c (ec_election x)"
    and s: "insert_inactive_votes_cache c v h voters x = Some (n, x')"
  shows "good_step c v (Op_cache h voters) x x'"
proof -
  let ?y = "with_election (\<lambda>e. e\<lparr>el_last_votes := insert_cached_votes h voters (el_last_votes e)\<rparr>) x"
  have iy: "election_inv c (ec_election ?y)"
    using i by (simp add: election_inv_def insert_cached_distinct)
  from s consider "\<not> confirmed (ec_election ?y)" "confirm_if_quorum c v ?y = Some x'" | "x' = ?y"
    by (auto simp: insert_inactive_votes_cache_def Let_def split: if_splits)
  then show ?thesis
  proof cases
    case 1
    then show ?thesis by (intro good_confirm_if_quorum [OF v iy]) simp_all
  next
    case 2
    then show ?thesis using iy by (intro good_quiet) simp_all
  qed
qed

section \<open>Blocks\<close>

lemma keyed_delete: "blocks_keyed c bs \<Longrightarrow> blocks_keyed c (AList.delete h bs)"
  by (auto simp: blocks_keyed_def AList.delete_eq)

lemma remove_block_facts:
  assumes "election_inv c (ec_election x)"
  shows "election_inv c (ec_election (remove_block c h x))"
    and "confirmed (ec_election (remove_block c h x)) = confirmed (ec_election x)"
    and "el_status (ec_election (remove_block c h x)) = el_status (ec_election x)"
    and "reports (remove_block c h x) = reports x"
    and "set (el_last_blocks (ec_election (remove_block c h x))) \<subseteq> set (el_last_blocks (ec_election x))"
proof -
  show "election_inv c (ec_election (remove_block c h x))"
    using assms unfolding election_inv_def remove_block_def Let_def
    by (auto simp: distinct_map_filter keyed_delete distinct_delete delete_conv' simp del: map_of_eq_Some_iff
        split: option.split)
qed (auto simp: remove_block_def Let_def AList.delete_eq split: option.split)

lemma replace_by_weight_facts:
  assumes i: "election_inv c (ec_election x)" and s: "replace_by_weight c v h x = Some (r, x')"
  shows "election_inv c (ec_election x')"
    and "confirmed (ec_election x') = confirmed (ec_election x)"
    and "el_status (ec_election x') = el_status (ec_election x)"
    and "reports x' = reports x"
    and "set (el_last_blocks (ec_election x')) \<subseteq> set (el_last_blocks (ec_election x))"
proof -
  from s consider "x' = x" | k where "x' = remove_block c k (emit (Active_erase_hash k) x)"
    by (auto simp: replace_by_weight_def split: option.splits if_splits)
  note cs = this
  note f = remove_block_facts [of c "emit (Active_erase_hash k) x" k for k, simplified ctx_simps, OF i]
  show "election_inv c (ec_election x')" using i f(1) by (cases rule: cs) simp_all
  show "confirmed (ec_election x') = confirmed (ec_election x)" using i f(2) by (cases rule: cs) simp_all
  show "el_status (ec_election x') = el_status (ec_election x)" using i f(3) by (cases rule: cs) simp_all
  show "reports x' = reports x" using i f(4) by (cases rule: cs) simp_all
  show "set (el_last_blocks (ec_election x')) \<subseteq> set (el_last_blocks (ec_election x))"
    using f(5) by (cases rule: cs) simp_all
qed

lemma update_subset: "set (AList.update k w al) \<subseteq> insert (k, w) (set al)"
  by (induction al) auto

lemma keyed_update: "blocks_keyed c bs \<Longrightarrow> blocks_keyed c (AList.update (generate_hash c b) b bs)"
  using update_subset [of "generate_hash c b" b bs] by (auto simp: blocks_keyed_def)

text \<open>A block entered under its hash; with the hash of the winner it is the winner as well.\<close>

lemma inv_put_block:
  assumes i: "election_inv c e" and w: "winner_hash c e = generate_hash c b \<Longrightarrow> w = b"
    "winner_hash c e \<noteq> generate_hash c b \<Longrightarrow> w = es_winner (el_status e)"
  shows "election_inv c (e\<lparr>el_last_blocks := AList.update (generate_hash c b) b (el_last_blocks e),
                          el_status := (el_status e)\<lparr>es_winner := w\<rparr>\<rparr>)"
proof -
  have "generate_hash c w = winner_hash c e" using w by (cases "winner_hash c e = generate_hash c b") (simp_all add: winner_hash_def)
  then show ?thesis
    using i w by (auto simp: election_inv_def keyed_update distinct_update update_conv' simp del: map_of_eq_Some_iff)
qed

lemma publish_entry_facts:
  assumes i: "election_inv c (ec_election x)"
  shows "election_inv c (ec_election (snd (publish_entry c b x)))"
    and "el_state (ec_election (snd (publish_entry c b x))) = el_state (ec_election x)"
    and "winner_hash c (ec_election (snd (publish_entry c b x))) = winner_hash c (ec_election x)"
    and "reports (snd (publish_entry c b x)) = reports x"
proof -
  let ?e = "ec_election x" and ?h = "generate_hash c b"
  let ?put = "?e\<lparr>el_last_blocks := AList.update ?h b (el_last_blocks ?e)\<rparr>"
  have none: "map_of (el_last_blocks ?e) ?h = None \<Longrightarrow> winner_hash c ?e \<noteq> ?h"
    using i by (auto simp: election_inv_def simp del: map_of_eq_Some_iff)
  have ne: "election_inv c ?put" if "winner_hash c ?e \<noteq> ?h"
    using inv_put_block [OF i, of b "es_winner (el_status ?e)"] that by simp
  have eq: "election_inv c (?put\<lparr>el_status := (el_status ?e)\<lparr>es_winner := b\<rparr>\<rparr>)" if "winner_hash c ?e = ?h"
    using inv_put_block [OF i, of b b] that by simp
  show "election_inv c (ec_election (snd (publish_entry c b x)))"
    using none ne eq by (auto simp: publish_entry_def Let_def split: option.split)
qed (auto simp: publish_entry_def Let_def split: option.split)

lemma publish_room_facts:
  assumes i: "election_inv c (ec_election x)" and s: "publish_room c v b x = Some (r, x')"
  shows "election_inv c (ec_election x')"
    and "confirmed (ec_election x') = confirmed (ec_election x)"
    and "el_status (ec_election x') = el_status (ec_election x)"
    and "reports x' = reports x"
proof -
  from s consider "x' = x" | q y where "x' = y \<or> x' = emit (Publish_filter_clear b) y"
      "replace_by_weight c v (generate_hash c b) x = Some (q, y)"
    by (auto simp: publish_room_def Let_def split: if_splits option.splits)
  note cs = this
  note f = replace_by_weight_facts [OF i]
  show "election_inv c (ec_election x')" using i by (cases rule: cs) (auto dest: f)
  show "confirmed (ec_election x') = confirmed (ec_election x)" by (cases rule: cs) (auto dest: f)
  show "el_status (ec_election x') = el_status (ec_election x)" by (cases rule: cs) (auto dest: f)
  show "reports x' = reports x" by (cases rule: cs) (auto dest: f)
qed

lemma good_publish:
  assumes i: "election_inv c (ec_election x)" and s: "election_publish c v b x = Some (r, x')"
  shows "good_step c v (Op_publish b) x x'"
proof -
  from s obtain q y where y: "publish_room c v b x = Some (q, y)" and x': "x' = y \<or> x' = snd (publish_entry c b y)"
    by (cases "publish_room c v b x") (auto simp: election_publish_def split: if_splits prod.splits)
  note f = publish_room_facts [OF i y]
  note g = publish_entry_facts [OF f(1), of b]
  from x' f g show ?thesis
    by (intro good_quiet) (auto simp: winner_hash_def confirmed_def)
qed

section \<open>Time and votes of the node\<close>

lemma inv_simps [simp]:
  "election_inv c (e\<lparr>el_state := st\<rparr>) = election_inv c e"
  "election_inv c (e\<lparr>el_state_start := t\<rparr>) = election_inv c e"
  "election_inv c (e\<lparr>el_last_block := t\<rparr>) = election_inv c e"
  "election_inv c (e\<lparr>el_last_req := t\<rparr>) = election_inv c e"
  "election_inv c (e\<lparr>el_confirmation_request_count := n\<rparr>) = election_inv c e"
  "es_winner s = es_winner (el_status e) \<Longrightarrow> election_inv c (e\<lparr>el_status := s\<rparr>) = election_inv c e"
  by (simp_all add: election_inv_def winner_hash_def)

lemma tally_impl_inv: "election_inv c (snd (tally_impl c v e)) = election_inv c e"
  by (simp add: election_inv_def tally_impl_facts)

lemma good_generate:
  assumes i: "election_inv c (ec_election x)" and s: "generate_votes c v x = Some x'"
  shows "good_step c v Op_generate x x'"
proof -
  have t: "election_inv c (snd (tally_impl c v (ec_election x)))"
    "confirmed (snd (tally_impl c v (ec_election x))) = confirmed (ec_election x)"
    "winner_hash c (snd (tally_impl c v (ec_election x))) = winner_hash c (ec_election x)"
    using i by (simp_all add: tally_impl_inv tally_impl_facts confirmed_def)
  show ?thesis
    using s i t
    by (intro good_quiet)
       (auto simp: generate_votes_def Let_def split: if_splits option.splits bool.splits prod.splits)
qed

lemma good_status:
  "election_inv c (ec_election x) \<Longrightarrow>
     good_step c v Op_status x (with_election (\<lambda>e. snd (current_status c v e)) x)"
  by (intro good_quiet)
     (simp_all add: current_status_def Let_def case_prod_unfold tally_impl_inv tally_impl_facts confirmed_def)

definition quiet :: "crypto \<Rightarrow> election_ctx \<Rightarrow> election_ctx \<Rightarrow> bool" where
  "quiet c x x' \<longleftrightarrow> (election_inv c (ec_election x) \<longrightarrow> election_inv c (ec_election x'))
     \<and> confirmed (ec_election x') = confirmed (ec_election x)
     \<and> winner_hash c (ec_election x') = winner_hash c (ec_election x) \<and> reports x' = reports x
     \<and> el_last_votes (ec_election x') = el_last_votes (ec_election x)"

lemma quiet_refl [simp]: "quiet c x x"
  by (simp add: quiet_def)

lemma quiet_trans: "quiet c x y \<Longrightarrow> quiet c y z \<Longrightarrow> quiet c x z"
  by (auto simp: quiet_def)

lemma reports_effects: "filter is_report fs = [] \<Longrightarrow> reports (x\<lparr>ec_effects := ec_effects x @ fs\<rparr>) = reports x"
  by (simp add: reports_def)

lemma solicitor_broadcast_reports: "filter is_report (snd (snd (solicitor_broadcast c e s))) = []"
  by (auto simp: solicitor_broadcast_def Let_def filter_empty_conv)

lemma quiet_broadcast: "quiet c x (snd (broadcast_block c v (s, x)))"
proof -
  obtain err s' fs where b: "solicitor_broadcast c (ec_election x) s = (err, s', fs)"
    by (cases "solicitor_broadcast c (ec_election x) s")
  have "filter is_report fs = []" using solicitor_broadcast_reports [of c "ec_election x" s] by (simp add: b)
  then show ?thesis
    by (auto simp: broadcast_block_def b quiet_def reports_def with_election_def)
qed

lemma quiet_request: "quiet c x (snd (send_confirm_req c v n (s, x)))"
  by (auto simp: send_confirm_req_def quiet_def split: prod.split)

lemma quiet_transition_state: "quiet c x (snd (snd (transition_state c v n (s, x))))"
proof -
  have a: "quiet c x (snd (send_confirm_req c v n (broadcast_block c v (s, x))))"
    using quiet_trans [OF quiet_broadcast [of c x v s]
        quiet_request [of c "snd (broadcast_block c v (s, x))" v n "fst (broadcast_block c v (s, x))"]] by simp
  show ?thesis
  proof (cases "el_state (ec_election x)")
    case St_active
    then show ?thesis using a by (simp add: transition_state_def Let_def)
  qed (auto simp: transition_state_def Let_def quiet_def state_change_def confirmed_def)
qed

lemma quiet_time: "quiet c x (snd (snd (transition_time c v n (s, x))))"
proof -
  obtain r s' y where t: "transition_state c v n (s, x) = (r, s', y)" by (cases "transition_state c v n (s, x)")
  have q: "quiet c x y" using quiet_transition_state [of c x v n s] by (simp add: t)
  have "quiet c y (snd (snd (transition_time c v n (s, x))))"
    by (auto simp: transition_time_def t Let_def quiet_def state_change_def confirmed_def winner_hash_def [symmetric])
  then show ?thesis by (rule quiet_trans [OF q])
qed

lemma good_confirm_height:
  assumes "election_inv c (ec_election x)"
  shows "good_step c v (Op_confirm_height h) x (confirm_height c v h x)"
  using assms
  by (auto simp: good_step_def confirm_height_def confirm_once_facts confirms_def confirmed_def winner_hash_def [symmetric])

lemma good_quietI: "election_inv c (ec_election x) \<Longrightarrow> quiet c x x' \<Longrightarrow> good_step c v op x x'"
  by (intro good_quiet) (simp_all add: quiet_def)

theorem election_exec_good:
  assumes "env_ok v" "election_inv c (ec_election x)" "election_exec c v op x = Some x'"
  shows "good_step c v op x x'"
proof (cases op)
  case (Op_vote rep ts h)
  then show ?thesis using assms good_vote by auto
next
  case (Op_publish b)
  then show ?thesis using assms good_publish by auto
next
  case (Op_cache h voters)
  then show ?thesis using assms good_cache by auto
next
  case Op_generate
  then show ?thesis using assms good_generate by auto
next
  case (Op_time s n)
  then show ?thesis using assms quiet_time [of c x v n s] by (auto intro: good_quietI)
next
  case Op_activate
  then have x': "x' = with_election (transition_active (ee_now v)) x" using assms by simp
  show ?thesis
    unfolding x' using assms(2)
    by (intro good_quiet) (auto simp: transition_active_def state_change_def confirmed_def)
next
  case (Op_confirm_height h)
  then show ?thesis using assms good_confirm_height by auto
next
  case Op_status
  then show ?thesis using assms good_status by auto
next
  case (Op_winner_done h)
  then have "x' = x\<lparr>ec_winners := ec_winners x - {h}\<rparr>" using assms by simp
  then show ?thesis using assms(2) by (intro good_quiet) simp_all
qed

section \<open>Runs\<close>

definition envs_ok :: "(election_env \<times> election_op) list \<Rightarrow> bool" where
  "envs_ok ops \<longleftrightarrow> (\<forall>(v, op) \<in> set ops. env_ok v)"

lemma run_split:
  assumes "election_run c ((v, op) # ops) x = Some x'"
  obtains y where "election_exec c v op x = Some y" "election_run c ops y = Some x'"
  using assms by (cases "election_exec c v op x") auto

lemma run_inv:
  "envs_ok ops \<Longrightarrow> election_inv c (ec_election x) \<Longrightarrow> election_run c ops x = Some x' \<Longrightarrow>
     election_inv c (ec_election x')"
proof (induction ops arbitrary: x)
  case (Cons p ops)
  obtain v op where p: "p = (v, op)" by (cases p)
  from Cons.prems(3) obtain y where y: "election_exec c v op x = Some y" "election_run c ops y = Some x'"
    unfolding p by (rule run_split)
  have "good_step c v op x y" using Cons.prems y by (intro election_exec_good) (auto simp: envs_ok_def p)
  then show ?case using Cons y by (auto simp: good_step_def envs_ok_def)
qed simp

text \<open>Once confirmed, an election keeps its winner and reports nothing more.\<close>

lemma run_confirmed:
  "envs_ok ops \<Longrightarrow> election_inv c (ec_election x) \<Longrightarrow> confirmed (ec_election x) \<Longrightarrow> election_run c ops x = Some x' \<Longrightarrow>
     confirmed (ec_election x') \<and> winner_hash c (ec_election x') = winner_hash c (ec_election x) \<and> reports x' = reports x"
proof (induction ops arbitrary: x)
  case (Cons p ops)
  obtain v op where p: "p = (v, op)" by (cases p)
  from Cons.prems(4) obtain y where y: "election_exec c v op x = Some y" "election_run c ops y = Some x'"
    unfolding p by (rule run_split)
  have "good_step c v op x y" using Cons.prems y by (intro election_exec_good) (auto simp: envs_ok_def p)
  then show ?case using Cons.IH [of y] Cons.prems y by (auto simp: good_step_def envs_ok_def)
qed simp

text \<open>An election reports at most once, and then its winner.\<close>

lemma run_reports:
  assumes "envs_ok ops" "election_inv c (ec_election x)" "\<not> confirmed (ec_election x)" "election_run c ops x = Some x'"
  shows "reports x' = reports x
    \<or> confirmed (ec_election x') \<and> (\<exists>s. reports x' = reports x @ [Process_confirmed s]
          \<and> generate_hash c (es_winner s) = winner_hash c (ec_election x'))"
  using assms
proof (induction ops arbitrary: x)
  case (Cons p ops)
  obtain v op where p: "p = (v, op)" by (cases p)
  from Cons.prems(4) obtain y where y: "election_exec c v op x = Some y" "election_run c ops y = Some x'"
    unfolding p by (rule run_split)
  have g: "good_step c v op x y" using Cons.prems y by (intro election_exec_good) (auto simp: envs_ok_def p)
  have o: "envs_ok ops" using Cons.prems(1) by (simp add: envs_ok_def)
  have iy: "election_inv c (ec_election y)" using g by (simp add: good_step_def)
  show ?case
  proof (cases "confirmed (ec_election y)")
    case True
    have "reports y = reports x \<or> reports y = reports x @ [Process_confirmed (el_status (ec_election y))]"
      using g Cons.prems(3) by (auto simp: good_step_def)
    with run_confirmed [OF o iy True y(2)] show ?thesis by (auto simp: winner_hash_def)
  next
    case False
    then have "reports y = reports x" using g Cons.prems(3) by (auto simp: good_step_def)
    with Cons.IH [OF o iy False y(2)] show ?thesis by simp
  qed
qed simp

end
