(* ===== verification/Election_Blocks.thy ===== *)
theory Election_Blocks
  imports Election_Run
begin

declare split_paired_All [simp del] split_paired_Ex [simp del]

text \<open>How many blocks an election holds.\<close>

definition tally_known :: "election \<Rightarrow> bool" where
  "tally_known e \<longleftrightarrow> distinct (map fst (el_last_tally e))
     \<and> fst ` set (el_last_tally e) \<subseteq> fst ` set (el_last_blocks e)"

definition sorted_tally :: "election_env \<Rightarrow> election \<Rightarrow> (block_hash \<times> u128) list" where
  "sorted_tally v e =
     sort_key snd (map (\<lambda>hash. (hash, the (map_of (el_last_tally e) hash))) (ee_order v (map fst (el_last_tally e))))"

lemma sorted_tally_facts:
  assumes "order_ok v"
  shows "length (sorted_tally v e) = length (el_last_tally e)"
    and "fst ` set (sorted_tally v e) = fst ` set (el_last_tally e)"
    and "distinct (map fst (el_last_tally e)) \<Longrightarrow> distinct (map fst (sorted_tally v e))"
proof -
  let ?o = "ee_order v (map fst (el_last_tally e))"
  have o: "set ?o = fst ` set (el_last_tally e)" "length ?o = length (el_last_tally e)"
    using assms by (simp_all add: order_ok_def)
  show l: "length (sorted_tally v e) = length (el_last_tally e)" by (simp add: sorted_tally_def o)
  show s: "fst ` set (sorted_tally v e) = fst ` set (el_last_tally e)"
    by (simp add: sorted_tally_def o(1) image_image)
  assume "distinct (map fst (el_last_tally e))"
  then have "card (fst ` set (el_last_tally e)) = length (el_last_tally e)"
    using distinct_card by fastforce
  then show "distinct (map fst (sorted_tally v e))"
    by (intro card_distinct) (simp add: s l)
qed

lemma replaced_block_unfold:
  "replaced_block c v h e =
     (let sorted = sorted_tally v e; inactive = ee_inactive_tally v h
      in if 0 < inactive \<and> length sorted < max_blocks then
           Some (case find (\<lambda>k. k \<notin> fst ` set sorted \<and> k \<noteq> winner_hash c e) (ee_order v (map fst (el_last_blocks e))) of
                   None \<Rightarrow> 0 | Some k \<Rightarrow> k)
         else if 0 < inactive then
           (case sorted of
              [] \<Rightarrow> None
            | (front, a) # others \<Rightarrow>
                if a < inactive then
                  if front \<noteq> winner_hash c e then Some front
                  else (case others of [] \<Rightarrow> None | (second, b) # _ \<Rightarrow> Some (if b < inactive then second else 0))
                else Some 0)
         else Some 0)"
  by (simp add: replaced_block_def sorted_tally_def Let_def)

text \<open>The tally has enough entries for every access.\<close>

lemma replaced_block_returns:
  assumes "order_ok v"
  shows "\<exists>k. replaced_block c v h e = Some k"
proof (cases "length (sorted_tally v e) < max_blocks")
  case True
  then show ?thesis by (auto simp: replaced_block_unfold Let_def)
next
  case False
  then have "2 \<le> length (sorted_tally v e)" by (simp add: max_blocks_def)
  then obtain p q rest where "sorted_tally v e = p # q # rest"
    by (metis (no_types, lifting) One_nat_def Suc_1 Suc_le_length_iff)
  then show ?thesis by (cases p; cases q) (auto simp: replaced_block_unfold Let_def)
qed

lemma publish_returns:
  "order_ok v \<Longrightarrow> \<exists>r. election_publish c v b x = Some r"
  using replaced_block_returns [of v c "generate_hash c b" "ec_election x"]
  by (auto simp: election_publish_def publish_room_def Let_def replace_by_weight_def split: option.split)

lemma replaced_block_known:
  assumes o: "order_ok v" and k: "tally_known e" and r: "replaced_block c v h e = Some d" and d: "d \<noteq> 0"
  shows "d \<in> fst ` set (el_last_blocks e) \<and> d \<noteq> winner_hash c e"
proof -
  note f = sorted_tally_facts [OF o, of e]
  have ok: "set (ee_order v (map fst (el_last_blocks e))) = fst ` set (el_last_blocks e)"
    using o by (simp add: order_ok_def)
  have known: "p \<in> set (sorted_tally v e) \<Longrightarrow> fst p \<in> fst ` set (el_last_blocks e)" for p
    using f(2) k by (force simp: tally_known_def)
  show ?thesis
  proof (cases "0 < ee_inactive_tally v h \<and> length (sorted_tally v e) < max_blocks")
    case True
    then obtain i where "find (\<lambda>k. k \<notin> fst ` set (sorted_tally v e) \<and> k \<noteq> winner_hash c e)
        (ee_order v (map fst (el_last_blocks e))) = Some d"
      using r d by (auto simp: replaced_block_unfold Let_def split: option.splits)
    then show ?thesis using ok nth_mem by (fastforce simp: find_Some_iff)
  next
    case False
    then obtain front a others where s: "sorted_tally v e = (front, a) # others"
      using r d by (auto simp: replaced_block_unfold Let_def split: if_splits list.splits)
    show ?thesis
    proof (cases "front = winner_hash c e")
      case ne: False
      then have "d = front" using r d False by (auto simp: replaced_block_unfold Let_def s split: if_splits)
      then show ?thesis using known [of "(front, a)"] ne by (simp add: s)
    next
      case True
      then obtain b rest where o2: "others = (d, b) # rest"
        using r d False by (auto simp: replaced_block_unfold Let_def s split: if_splits list.splits)
      have "d \<noteq> front" using f(3) k by (auto simp: tally_known_def s o2)
      then show ?thesis using known [of "(d, b)"] True by (simp add: s o2)
    qed
  qed
qed

lemma delete_length:
  "distinct (map fst al) \<Longrightarrow> k \<in> fst ` set al \<Longrightarrow> Suc (length (AList.delete k al)) = length al"
proof (induction al)
  case (Cons p al)
  obtain a b where p: "p = (a, b)" by (cases p)
  show ?case
  proof (cases "a = k")
    case True
    then have "k \<notin> fst ` set al" using Cons.prems p by auto
    then have "AList.delete k al = al" by simp
    then show ?thesis by (simp add: p True)
  next
    case False
    then show ?thesis using Cons p by auto
  qed
qed simp

lemma update_length:
  "length (AList.update k w al) = (if k \<in> fst ` set al then length al else Suc (length al))"
  by (induction al) auto

lemma publish_entry_length:
  "length (el_last_blocks (ec_election (snd (publish_entry c b x)))) =
     (if map_of (el_last_blocks (ec_election x)) (generate_hash c b) = None
      then Suc (length (el_last_blocks (ec_election x))) else length (el_last_blocks (ec_election x)))"
  by (auto simp: publish_entry_def Let_def update_length map_of_eq_None_iff split: option.split)

lemma publish_limit:
  assumes o: "order_ok v" and i: "election_inv c (ec_election x)" and k: "tally_known (ec_election x)"
    and l: "length (el_last_blocks (ec_election x)) \<le> max_blocks"
    and s: "election_publish c v b x = Some (r, x')"
  shows "length (el_last_blocks (ec_election x')) \<le> max_blocks"
proof -
  let ?e = "ec_election x" and ?h = "generate_hash c b"
  show ?thesis
  proof (cases "\<not> confirmed ?e \<and> max_blocks \<le> length (el_last_blocks ?e) \<and> map_of (el_last_blocks ?e) ?h = None")
    case False
    then show ?thesis using s l
      by (auto simp: election_publish_def publish_room_def Let_def publish_entry_length split: if_splits dest!: arg_cong [of "publish_entry c b x" _ snd])
  next
    case True
    from replaced_block_returns [OF o] obtain d where d: "replaced_block c v ?h ?e = Some d" by blast
    show ?thesis
    proof (cases "d = 0")
      case z: True
      then show ?thesis using s True d l
        by (auto simp: election_publish_def publish_room_def Let_def replace_by_weight_def)
    next
      case nz: False
      let ?y = "remove_block c d (emit (Active_erase_hash d) x)"
      note kn = replaced_block_known [OF o k d nz]
      have "Suc (length (el_last_blocks (ec_election ?y))) = length (el_last_blocks ?e)"
      proof -
        from kn obtain bl where "map_of (el_last_blocks ?e) d = Some bl"
          by (cases "map_of (el_last_blocks ?e) d") (auto simp: map_of_eq_None_iff)
        then show ?thesis using kn i
          by (auto simp: remove_block_def Let_def election_inv_def delete_length simp del: map_of_eq_Some_iff)
      qed
      moreover have "x' = snd (publish_entry c b ?y)"
        using s True d nz by (simp add: election_publish_def publish_room_def Let_def replace_by_weight_def)
      ultimately show ?thesis using l by (simp add: publish_entry_length)
    qed
  qed
qed

text \<open>
  When the block with the least votes of the tally is none of the blocks of the election, nothing makes
  room for the new block.
\<close>

theorem publish_past_limit:
  assumes n: "\<not> confirmed (ec_election x)" and f: "max_blocks \<le> length (el_last_blocks (ec_election x))"
    and new: "map_of (el_last_blocks (ec_election x)) (generate_hash c b) = None"
    and t: "sorted_tally v (ec_election x) = (front, a) # others" "max_blocks \<le> length (sorted_tally v (ec_election x))"
    and u: "map_of (el_last_blocks (ec_election x)) front = None" "front \<noteq> 0" "front \<noteq> winner_hash c (ec_election x)"
    and w: "a < ee_inactive_tally v (generate_hash c b)"
  shows "\<exists>x'. election_publish c v b x = Some (False, x')
    \<and> length (el_last_blocks (ec_election x')) = Suc (length (el_last_blocks (ec_election x)))"
proof -
  have p: "0 < ee_inactive_tally v (generate_hash c b)" using w by (metis word_gt_0 word_not_simps(1))
  have d: "replaced_block c v (generate_hash c b) (ec_election x) = Some front"
    using t u w p by (simp add: replaced_block_unfold Let_def)
  have r: "remove_block c front (emit (Active_erase_hash front) x) = emit (Active_erase_hash front) x"
    using u by (simp add: remove_block_def Let_def)
  show ?thesis
    using n f new d u r
    by (simp add: election_publish_def publish_room_def Let_def replace_by_weight_def publish_entry_def update_length)
       (simp add: map_of_eq_None_iff)
qed

end
