(* ===== verification/Election_Sample.thy ===== *)
theory Election_Sample
  imports Election_Run Ledger_Sample
begin

declare split_paired_All [simp del] split_paired_Ex [simp del]

text \<open>
  Elections on a few concrete blocks, among them the runs that show what the quorum of 34 percent, the
  map of the tally and the weight of earlier final votes permit.
\<close>

definition fork_block :: "link \<Rightarrow> block" where
  "fork_block n =
     State \<lparr>state_h = \<lparr>state_account = 1, state_previous = 101, state_representative = 1,
                       state_balance = 0, state_link = n\<rparr>,
            state_signature = 0, state_work = 0\<rparr>"

lemma fork_block_simps [simp]:
  "generate_hash sample_crypto (fork_block n) = n + 100"
  "block_root (fork_block n) = 101"
  "block_qualified_root (fork_block n) = (101, 101)"
  by (simp_all add: fork_block_def state_root_def block_qualified_root_def)

text \<open>The representatives of account numbers 1, 2 and so on have the weights of the list.\<close>

definition listed_weight :: "u128 list \<Rightarrow> account \<Rightarrow> u128" where
  "listed_weight ws a = (if 0 < unat a \<and> unat a \<le> length ws then ws ! (unat a - 1) else 0)"

definition sample_env :: "u128 list \<Rightarrow> u128 \<Rightarrow> election_env" where
  "sample_env ws d =
     \<lparr>ee_now = 10 ^ 12, ee_system_now = 10 ^ 12, ee_weight = listed_weight ws, ee_delta = d,
      ee_trended = 100, ee_dev_network = False, ee_canary = True, ee_voting = False,
      ee_history = (\<lambda>r h. []), ee_inactive_tally = (\<lambda>h. 0), ee_order = (\<lambda>xs. xs)\<rparr>"

definition sample_start :: "u128 list \<Rightarrow> u128 \<Rightarrow> block \<Rightarrow> election_ctx" where
  "sample_start ws d b =
     \<lparr>ec_election = fst (election_new sample_crypto (sample_env ws d) b 2 Normal), ec_winners = {}, ec_effects = []\<rparr>"

lemma listed_weight_bounded:
  assumes "sum_list (map unat ws) < 2 ^ 128"
  shows "weights_bounded (sample_env ws d)"
proof -
  have "(\<Sum>a \<in> A. unat (listed_weight ws a)) \<le> sum_list (map unat ws)" if "finite A" for A
  proof -
    let ?B = "{a \<in> A. 0 < unat a \<and> unat a \<le> length ws}"
    have "(\<Sum>a \<in> A. unat (listed_weight ws a)) = (\<Sum>a \<in> ?B. unat (listed_weight ws a))"
      by (rule sum.mono_neutral_right) (use that in \<open>auto simp: listed_weight_def\<close>)
    also have "\<dots> = (\<Sum>a \<in> ?B. unat (ws ! (unat a - 1)))"
      by (rule sum.cong) (auto simp: listed_weight_def)
    also have "\<dots> = (\<Sum>i \<in> (\<lambda>a. unat a - 1) ` ?B. unat (ws ! i))"
      by (rule sum.reindex [symmetric, unfolded comp_def])
         (auto simp: inj_on_def word_unat_eq_iff)
    also have "\<dots> \<le> (\<Sum>i < length ws. unat (ws ! i))"
      by (rule sum_mono2) auto
    also have "\<dots> = sum_list (map unat ws)"
      by (simp add: sum_list_sum_nth atLeast0LessThan)
    finally show ?thesis .
  qed
  then show ?thesis using assms by (auto simp: weights_bounded_def sample_env_def intro: le_less_trans)
qed

lemma sample_env_ok: "sum_list (map unat ws) < 2 ^ 128 \<Longrightarrow> env_ok (sample_env ws d)"
  by (simp add: env_ok_def order_ok_def listed_weight_bounded) (simp add: sample_env_def)

lemma new_inv: "election_inv c (fst (election_new c v b ht bh))"
  by (simp add: election_new_def Let_def election_inv_def blocks_keyed_def winner_hash_def)

lemma sample_start_inv: "election_inv sample_crypto (ec_election (sample_start ws d b))"
  by (simp add: sample_start_def new_inv)

lemmas election_eval =
  sample_start_def sample_env_def election_new_def Let_def election_vote_unfold decision_def eligible_def
  vote_decision_def minimum_principal_weight_def principal_weight_factor_def listed_weight_def
  entered_vote_def confirm_if_quorum_unfold the_tally_def vote_weights_def weight_add_def tally_blocks_def
  have_quorum_def switch_winner_def confirm_quorum_def confirm_once_def tallied_def tally_impl_def
  final_votes_def final_timestamp_def winner_hash_def confirmed_def null_account_def emit_def with_election_def
  remove_votes_def cooldown_def seconds_def

section \<open>Two blocks confirmed for one root\<close>

definition online_100 :: online_reps where
  "online_100 = \<lparr>or_reps = [], or_trended = 100, or_online = 100\<rparr>"

lemma delta_online_100: "delta 0 online_100 = 34"
  by (simp add: delta_def online_100_def online_weight_quorum_def)

text \<open>
  Two nodes hold elections for the same root.  Representatives 1 and 2 have half of the online weight
  each and cast one final vote each, for different blocks.  Each node receives one of the votes first
  and confirms its block.
\<close>

theorem conflicting_confirmations:
  "\<exists>x y. election_run sample_crypto [(sample_env [50, 50] (delta 0 online_100), Op_vote 1 final_timestamp 105)]
           (sample_start [50, 50] (delta 0 online_100) (fork_block 5)) = Some x
       \<and> election_run sample_crypto [(sample_env [50, 50] (delta 0 online_100), Op_vote 2 final_timestamp 106)]
           (sample_start [50, 50] (delta 0 online_100) (fork_block 6)) = Some y
       \<and> confirmed (ec_election x) \<and> confirmed (ec_election y)
       \<and> el_qualified_root (ec_election x) = el_qualified_root (ec_election y)
       \<and> winner_hash sample_crypto (ec_election x) = 105 \<and> winner_hash sample_crypto (ec_election y) = 106"
  by (simp add: delta_online_100 election_eval)

section \<open>Equal weights\<close>

text \<open>
  Two blocks with the same votes share the one entry that the tally has for their weight, so that the
  lead of the first is counted against nothing.
\<close>

theorem tie_confirmed:
  "\<exists>x. election_run sample_crypto
         [(sample_env [40, 40] 34, Op_publish (fork_block 6)),
          (sample_env [40, 40] 34, Op_vote 2 5 106),
          (sample_env [40, 40] 34, Op_vote 1 final_timestamp 105)]
         (sample_start [40, 40] 34 (fork_block 5)) = Some x
     \<and> confirmed (ec_election x) \<and> winner_hash sample_crypto (ec_election x) = 105
     \<and> weight_for (sample_env [40, 40] 34) (el_last_votes (ec_election x)) 105 = 40
     \<and> weight_for (sample_env [40, 40] 34) (el_last_votes (ec_election x)) 106 = 40"
  by (simp add: election_eval election_publish_def publish_room_def publish_entry_def max_blocks_def weight_for_def)

section \<open>Final weight of an earlier winner\<close>

text \<open>
  The final weight of a block that led once stays when another block leads that has no final vote.
  Between the second and the third vote the first representative loses its delegations.
\<close>

theorem stale_final_weight:
  "\<exists>x. election_run sample_crypto
         [(sample_env [40, 38, 22] 34, Op_publish (fork_block 6)),
          (sample_env [40, 38, 22] 34, Op_vote 2 5 106),
          (sample_env [40, 38, 22] 34, Op_vote 1 final_timestamp 105),
          (sample_env [0, 38, 22] 34, Op_vote 3 5 106)]
         (sample_start [40, 38, 22] 34 (fork_block 5)) = Some x
     \<and> confirmed (ec_election x) \<and> winner_hash sample_crypto (ec_election x) = 106
     \<and> 106 \<notin> voted (final_votes (el_last_votes (ec_election x)))"
  by (simp add: election_eval election_publish_def publish_room_def publish_entry_def max_blocks_def voted_def) auto

end
