(* ===== verification/Election_Theorems.thy ===== *)
theory Election_Theorems
  imports Election_Blocks Election_Sample Ledger_Reach
begin

declare split_paired_All [simp del] split_paired_Ex [simp del]

text \<open>What elections guarantee, over the weights of a ledger and over any sequence of operations.\<close>

section \<open>Weights of the ledger\<close>

definition ledger_env :: "ledger \<Rightarrow> election_env \<Rightarrow> bool" where
  "ledger_env l v \<longleftrightarrow> order_ok v \<and> ee_weight v = representation_get (weights_of l)"

lemma reachable_weight:
  assumes "reachable c k l" and "constants_ok k"
  shows "unat (representation_get (weights_of l) r) =
    map_total (\<lambda>i. if ai_representative i = r then unat (ai_balance i) else 0) (accounts_of l)"
proof -
  from reachable_inv [OF assms] obtain rk rp where inv: "ledger_inv c k rk rp max_supply l" .
  show ?thesis
    using weight_le_supply [OF ledger_invD(15) [OF inv], of "pending_of l" r] ledger_invD(13,14) [OF inv]
    by (simp add: representation_get_def)
qed

lemma ledger_weights_bounded:
  assumes r: "reachable c k l" "constants_ok k" and A: "finite A"
  shows "(\<Sum>a \<in> A. unat (representation_get (weights_of l) a)) < 2 ^ 128"
proof -
  from reachable_inv [OF r] obtain rk rp where inv: "ledger_inv c k rk rp max_supply l" .
  note w = reachable_weight [OF r]
  let ?b = "\<lambda>i. unat (ai_balance i)"
  let ?m = "\<lambda>r. map_total (\<lambda>i. if ai_representative i = r then ?b i else 0) (accounts_of l)"
  have fin: "finite (dom (accounts_of l))" using ledger_invD(1) [OF inv] by (simp add: tables_finite_def)
  have "(\<Sum>a \<in> A. ?m a) = (\<Sum>k \<in> dom (accounts_of l). \<Sum>a \<in> A.
      (if ai_representative (the (accounts_of l k)) = a then ?b (the (accounts_of l k)) else 0))"
    unfolding map_total_def by (rule sum.swap)
  also have "\<dots> \<le> (\<Sum>k \<in> dom (accounts_of l). ?b (the (accounts_of l k)))"
    by (rule sum_mono) (simp add: A)
  also have "\<dots> = map_total ?b (accounts_of l)" by (simp add: map_total_def)
  also have "\<dots> < 2 ^ 128" using ledger_invD(13,14) [OF inv] by (simp add: total_supply_def)
  finally show ?thesis unfolding w .
qed

lemma ledger_env_ok: "reachable c k l \<Longrightarrow> constants_ok k \<Longrightarrow> ledger_env l v \<Longrightarrow> env_ok v"
  unfolding env_ok_def ledger_env_def weights_bounded_def using ledger_weights_bounded by simp

section \<open>Quorums\<close>

text \<open>
  Two sets of voters whose weights together exceed the weight of all voters and of the faulty ones
  have a voter in common that is not faulty.
\<close>

locale weighted_voters =
  fixes weight :: "'r \<Rightarrow> nat" and voters :: "'r set"
  assumes finite_voters: "finite voters"
begin

lemma quorums_meet:
  assumes s: "A \<subseteq> voters" "B \<subseteq> voters" "F \<subseteq> voters"
    and w: "sum weight voters + sum weight F < sum weight A + sum weight B"
  shows "\<exists>a \<in> A \<inter> B. a \<notin> F"
proof (rule ccontr)
  assume "\<not> ?thesis"
  then have "A \<inter> B \<subseteq> F" by blast
  then have i: "sum weight (A \<inter> B) \<le> sum weight F"
    using s(3) finite_voters by (intro sum_mono2) (auto dest: finite_subset)
  have u: "sum weight (A \<union> B) \<le> sum weight voters"
    using s finite_voters by (intro sum_mono2) auto
  have "sum weight A + sum weight B = sum weight (A \<union> B) + sum weight (A \<inter> B)"
    using s finite_voters by (intro sum.union_inter [symmetric]) (auto dest: finite_subset)
  with w i u show False by linarith
qed

end

interpretation representatives: weighted_voters "\<lambda>a. unat (ee_weight v a)" "set reps" for v reps
  by unfold_locales simp

definition supporters :: "last_votes \<Rightarrow> block_hash \<Rightarrow> account set" where
  "supporters votes h = {a. \<exists>i. (a, i) \<in> set votes \<and> vi_hash i = h}"

lemma weight_for_supporters:
  assumes "distinct (map fst votes)"
  shows "weight_for v votes h = (\<Sum>a \<in> supporters votes h. unat (ee_weight v a))"
proof -
  let ?l = "filter (\<lambda>(a, i). vi_hash i = h) votes"
  have d: "distinct (map fst ?l)" using assms by (rule distinct_map_filter)
  have "weight_for v votes h = sum_list (map (\<lambda>a. unat (ee_weight v a)) (map fst ?l))"
    by (simp add: weight_for_def case_prod_unfold comp_def)
  also have "\<dots> = (\<Sum>a \<in> set (map fst ?l). unat (ee_weight v a))"
    by (rule sum_list_distinct_conv_sum_set [OF d])
  also have "set (map fst ?l) = supporters votes h"
    by (force simp: supporters_def)
  finally show ?thesis .
qed

section \<open>Votes move forward\<close>

definition vote_before :: "vote_info \<Rightarrow> vote_info \<Rightarrow> bool" where
  "vote_before l l' \<longleftrightarrow>
     vi_timestamp l < vi_timestamp l' \<or> vi_timestamp l = vi_timestamp l' \<and> vi_hash l \<le> vi_hash l'"

lemma vote_before_refl [simp]: "vote_before l l"
  by (simp add: vote_before_def)

lemma insert_cached_keeps:
  "map_of votes rep = Some l \<Longrightarrow> map_of (insert_cached_votes h voters votes) rep = Some l"
proof (induction h voters votes rule: insert_cached_votes.induct)
  case (2 hash r timestamp voters votes)
  then show ?case by (cases "r = rep") (auto simp: update_conv' simp del: map_of_eq_Some_iff split: option.split)
qed simp

lemma subset_recorded:
  assumes "distinct (map fst vs)" "distinct (map fst vs')" "set vs' \<subseteq> set vs" "map_of vs' rep = Some l'" "map_of vs rep = Some l"
  shows "l' = l"
  using assms by (metis map_of_SomeD map_of_is_SomeI option.inject subsetD)

lemma confirm_votes_subset:
  assumes "env_ok v" "election_inv c (ec_election y)" "confirm_if_quorum c v y = Some x'"
  shows "set (el_last_votes (ec_election x')) \<subseteq> set (el_last_votes (ec_election y))"
proof -
  have "order_ok v" "light v (ec_election y)"
    using assms(1,2) by (auto simp: env_ok_def election_inv_def intro: light_if_bounded)
  from confirm_if_quorum_facts [OF this assms(2,3)] show ?thesis by blast
qed

lemma quiet_votes:
  "el_last_votes (ec_election (snd (snd (transition_time c v n (s, x))))) = el_last_votes (ec_election x)"
  using quiet_time [of c x v n s] by (simp add: quiet_def)

lemma remove_block_votes:
  "set (el_last_votes (ec_election (remove_block c k x))) \<subseteq> set (el_last_votes (ec_election x))"
  by (auto simp: remove_block_def Let_def split: option.split)

lemma publish_votes:
  assumes "election_publish c v b x = Some (r, x')"
  shows "set (el_last_votes (ec_election x')) \<subseteq> set (el_last_votes (ec_election x))"
proof -
  have e: "el_last_votes (ec_election (snd (publish_entry c b y))) = el_last_votes (ec_election y)" for y
    by (auto simp: publish_entry_def Let_def split: option.split)
  from assms obtain q y where y: "publish_room c v b x = Some (q, y)" and x': "x' = y \<or> x' = snd (publish_entry c b y)"
    by (cases "publish_room c v b x") (auto simp: election_publish_def split: if_splits prod.splits)
  have "set (el_last_votes (ec_election y)) \<subseteq> set (el_last_votes (ec_election x))"
    using y remove_block_votes [of c _ "emit (Active_erase_hash k) x" for k]
    by (auto simp: publish_room_def Let_def replace_by_weight_def split: if_splits option.splits) force+
  then show ?thesis using x' e by auto
qed

text \<open>The votes after an operation are votes from before or votes that it entered.\<close>

lemma exec_votes:
  assumes v: "env_ok v" and i: "election_inv c (ec_election x)" and s: "election_exec c v op x = Some x'"
  shows "set (el_last_votes (ec_election x')) \<subseteq> set (el_last_votes (ec_election x))
    \<or> set (el_last_votes (ec_election x')) \<subseteq> set (el_last_votes (at_tally v op (ec_election x)))
      \<and> (\<forall>rep ts h. op = Op_vote rep ts h \<longrightarrow> snd (decision v rep ts h (ec_election x)))"
proof (cases op)
  case (Op_vote rep ts h)
  let ?y = "entered_vote v rep ts h x"
  note e = entered_vote_facts [OF i, of v rep ts h]
  have "x' = x \<or> snd (decision v rep ts h (ec_election x)) \<and> (x' = ?y \<or> confirm_if_quorum c v ?y = Some x')"
    using s by (auto simp: Op_vote election_vote_unfold Let_def split: if_splits)
  then show ?thesis using confirm_votes_subset [OF v e(1)] by (auto simp: Op_vote e(2))
next
  case (Op_publish b)
  then show ?thesis using s publish_votes [of c v b x _ x'] by auto
next
  case (Op_cache h voters)
  let ?y = "with_election (\<lambda>e. e\<lparr>el_last_votes := insert_cached_votes h voters (el_last_votes e)\<rparr>) x"
  have iy: "election_inv c (ec_election ?y)" using i by (simp add: election_inv_def insert_cached_distinct)
  have "x' = ?y \<or> confirm_if_quorum c v ?y = Some x'"
    using s by (auto simp: Op_cache insert_inactive_votes_cache_def Let_def split: if_splits)
  then show ?thesis using confirm_votes_subset [OF v iy] by (auto simp: Op_cache)
next
  case Op_generate
  then have "el_last_votes (ec_election x') = el_last_votes (ec_election x)"
    using s tally_impl_facts(4) [of c v "ec_election x"]
    by (auto simp: generate_votes_def Let_def split: if_splits option.splits bool.splits prod.splits)
  then show ?thesis by simp
next
  case (Op_time s n)
  then show ?thesis using \<open>election_exec c v op x = Some x'\<close> quiet_votes [of c v n s x] by auto
next
  case Op_activate
  then show ?thesis using s by (auto simp: transition_active_def state_change_def split: if_splits)
next
  case (Op_confirm_height h)
  then show ?thesis using s by (auto simp: confirm_height_def confirm_once_facts split: if_splits)
next
  case Op_status
  then show ?thesis using s by (auto simp: current_status_def Let_def case_prod_unfold tally_impl_facts)
next
  case (Op_winner_done h)
  then show ?thesis using s by auto
qed

text \<open>
  C22: no operation moves the recorded vote of a representative backwards.  When a representative has a
  vote on record before and after an operation, the later one has a later timestamp, or the same
  timestamp and a hash that is not smaller; only a processed vote of that representative replaces it.
\<close>

theorem recorded_vote_moves_forward:
  assumes "env_ok v" and "election_inv c (ec_election x)" and "election_exec c v op x = Some x'"
    and "map_of (el_last_votes (ec_election x)) rep = Some l"
    and "map_of (el_last_votes (ec_election x')) rep = Some l'"
  shows "vote_before l l' \<and>
    (l' \<noteq> l \<longrightarrow> (\<exists>ts h. op = Op_vote rep ts h \<and> snd (decision v rep ts h (ec_election x))))"
proof -
  let ?e = "ec_election x" and ?e' = "ec_election x'"
  have d: "distinct (map fst (el_last_votes ?e))" "distinct (map fst (el_last_votes ?e'))"
    using assms(2) election_exec_good [OF assms(1-3)] by (simp_all add: election_inv_def good_step_def)
  have "l' = l \<or> vote_before l l' \<and> (\<exists>ts h. op = Op_vote rep ts h \<and> snd (decision v rep ts h ?e))"
  proof (cases "set (el_last_votes ?e') \<subseteq> set (el_last_votes ?e)")
    case True
    then show ?thesis using subset_recorded [OF d] assms(4,5) by blast
  next
    case False
    let ?t = "at_tally v op ?e"
    have sub: "set (el_last_votes ?e') \<subseteq> set (el_last_votes ?t)"
      and dec: "\<And>rep ts h. op = Op_vote rep ts h \<Longrightarrow> snd (decision v rep ts h ?e)"
      using exec_votes [OF assms(1-3)] False by auto
    have dt: "distinct (map fst (el_last_votes ?t))"
      using d(1) by (cases op) (simp_all add: distinct_update insert_cached_distinct)
    have rec: "map_of (el_last_votes ?t) rep = Some m \<Longrightarrow> l' = m" for m
      using subset_recorded [OF dt d(2) sub assms(5)] by blast
    show ?thesis
    proof (cases "\<exists>ts h. op = Op_vote rep ts h")
      case True
      then obtain ts h where op: "op = Op_vote rep ts h" by blast
      then have "l' = \<lparr>vi_time = ee_now v, vi_timestamp = ts, vi_hash = h\<rparr>"
        by (intro rec) (simp add: update_conv')
      moreover have "vi_timestamp l < ts \<or> vi_timestamp l = ts \<and> vi_hash l < h"
        using dec [OF op] assms(4) by (auto simp: decision_def vote_decision_def split: if_splits)
      ultimately show ?thesis using dec [OF op] op by (auto simp: vote_before_def)
    next
      case no: False
      then have "map_of (el_last_votes ?t) rep = Some l"
        using assms(4) by (cases op) (auto simp: update_conv' insert_cached_keeps simp del: map_of_eq_Some_iff)
      then show ?thesis using rec by blast
    qed
  qed
  then show ?thesis by auto
qed

section \<open>Confirmation\<close>

text \<open>
  C19: an election that becomes confirmed by an operation other than the cementing of its winner has a
  quorum: in the votes that the tally saw, the winner has the most votes, at least the quorum, and it
  leads every block of another weight by the quorum; once final votes are required, the weight of
  final votes the election holds reaches the quorum.  The weights are those of a ledger of \<open>reachable\<close>, whose accepted blocks are
  \<open>admissible\<close> (no epoch block opens an account while it names a previous block).
\<close>

theorem confirmed_only_with_quorum:
  assumes "reachable c k l" and "constants_ok k" and "ledger_env l v" and "election_inv c (ec_election x)"
    and "\<not> confirmed (ec_election x)" and "election_exec c v op x = Some x'" and "confirmed (ec_election x')"
    and "op \<noteq> Op_confirm_height (winner_hash c (ec_election x))"
  shows "let s = at_tally v op (ec_election x); h = winner_hash c (ec_election x'); w = weight_for v (el_last_votes s) in
    h \<in> known_voted s \<and> unat (ee_delta v) \<le> w h
    \<and> (\<forall>b \<in> known_voted s. w b = w h \<or> w b + unat (ee_delta v) \<le> w h)
    \<and> (ee_canary v \<longrightarrow> ee_delta v \<le> fresh_final v s h)"
proof -
  have "good_step c v op x x'" by (rule election_exec_good [OF ledger_env_ok [OF assms(1-3)] assms(4,6)])
  then show ?thesis
    using assms(5,7,8) by (fastforce simp: good_step_def Let_def leads_def quorum_over_def le_less)
qed

text \<open>
  C20: a quorum confirms.  When a processed vote leaves one known block ahead of every other by the quorum,
  and the final votes for it reach the quorum where they are required, the call returns, the election is
  confirmed and that block is its winner.  The weights are those of a ledger of \<open>reachable\<close>, whose accepted blocks are
  \<open>admissible\<close> (no epoch block opens an account while it names a previous block).
\<close>

theorem quorum_confirms:
  assumes "reachable c k l" and "constants_ok k" and "ledger_env l v" and "election_inv c (ec_election x)"
    and "\<not> confirmed (ec_election x)" and "snd (decision v rep ts h (ec_election x))"
    and "s = at_tally v (Op_vote rep ts h) (ec_election x)" and "0 < ee_delta v"
    and "b \<in> known_voted s" and "unat (ee_delta v) \<le> weight_for v (el_last_votes s) b"
    and "\<forall>d \<in> known_voted s - {b}. weight_for v (el_last_votes s) d + unat (ee_delta v) \<le> weight_for v (el_last_votes s) b"
    and "ee_canary v \<longrightarrow> unat (ee_delta v) \<le> weight_for v (final_votes (el_last_votes s)) b"
  shows "\<exists>r x'. election_vote c v rep ts h x = Some (r, x') \<and> confirmed (ec_election x')
    \<and> winner_hash c (ec_election x') = b"
proof -
  let ?y = "entered_vote v rep ts h x"
  note ok = ledger_env_ok [OF assms(1-3)]
  note e = entered_vote_facts [OF assms(4), of v rep ts h]
  have y: "ec_election ?y = s" by (simp add: e(2) assms(7))
  have l: "order_ok v" "light v (ec_election ?y)"
    using ok e(1) by (auto simp: env_ok_def election_inv_def intro: light_if_bounded)
  have dp: "0 < unat (ee_delta v)" using assms(8) by (simp add: word_less_nat_alt)
  obtain x' where x': "confirm_if_quorum c v ?y = Some x'"
    using confirm_if_quorum_returns [OF l e(1)] assms(9) y by auto
  from confirm_if_quorum_facts [OF l e(1) x'] obtain g where g: "leads v s g"
      "el_state (ec_election x') =
        (if quorum_over v s g \<and> (\<not> ee_canary v \<or> ee_delta v \<le> fresh_final v s g)
         then St_confirmed else el_state s)"
      "quorum_over v s g \<Longrightarrow> winner_hash c (ec_election x') = g"
    unfolding y by blast
  have gb: "g = b"
  proof (rule ccontr)
    assume ne: "g \<noteq> b"
    then have "weight_for v (el_last_votes s) g + unat (ee_delta v) \<le> weight_for v (el_last_votes s) b"
      using assms(11) g(1) by (simp add: leads_def)
    moreover have "weight_for v (el_last_votes s) b \<le> weight_for v (el_last_votes s) g"
      using g(1) assms(9) by (simp add: leads_def)
    ultimately show False using dp by simp
  qed
  have q: "quorum_over v s b" using assms(10,11) by (auto simp: quorum_over_def)
  have f: "ee_canary v \<Longrightarrow> ee_delta v \<le> fresh_final v s b"
  proof -
    assume "ee_canary v"
    then have w: "unat (ee_delta v) \<le> weight_for v (final_votes (el_last_votes s)) b" using assms(12) by simp
    have "b \<in> voted (final_votes (el_last_votes s))"
    proof (rule ccontr)
      assume "b \<notin> voted (final_votes (el_last_votes s))"
      then have "filter (\<lambda>(a, i). vi_hash i = b) (final_votes (el_last_votes s)) = []"
        by (auto simp: voted_def filter_empty_conv)
      then have "weight_for v (final_votes (el_last_votes s)) b = 0" by (simp add: weight_for_def)
      with w dp show False by simp
    qed
    moreover have "total_weight v (final_votes (el_last_votes s)) < 2 ^ 128"
    proof -
      have "distinct (map fst (final_votes (el_last_votes s)))"
        using e(1) unfolding y election_inv_def final_votes_def by (simp add: distinct_map_filter)
      then have "light v (s\<lparr>el_last_votes := final_votes (el_last_votes s)\<rparr>)"
        using ok by (intro light_if_bounded) (simp_all add: env_ok_def)
      then show ?thesis by (simp add: light_def)
    qed
    ultimately show ?thesis using w by (simp add: fresh_final_def word_le_nat_alt unat_votes_for)
  qed
  have "confirmed (ec_election x')" "winner_hash c (ec_election x') = b"
    using g(2,3) q f by (auto simp: gb confirmed_def)
  then show ?thesis
    using assms(5,6) x' by (simp add: election_vote_unfold Let_def)
qed

text \<open>
  C21: the life of an election.  Whatever operations the node performs on a new election, in whatever order, the
  calls that return leave an election whose winner is one of its blocks; it hands at most one status to
  the node as confirmed, and then it is confirmed and the status names its winner; once confirmed it
  stays so and further operations neither change the winner nor report again.
\<close>

theorem election_reports_once:
  assumes "envs_ok ops" and "envs_ok later"
    and "election_run c ops \<lparr>ec_election = fst (election_new c v b ht bh), ec_winners = ws, ec_effects = []\<rparr> = Some x"
    and "election_run c later x = Some y"
  shows "map_of (el_last_blocks (ec_election x)) (winner_hash c (ec_election x)) = Some (es_winner (el_status (ec_election x)))
    \<and> (reports x = [] \<or> (\<exists>s. reports x = [Process_confirmed s] \<and> confirmed (ec_election x)
          \<and> generate_hash c (es_winner s) = winner_hash c (ec_election x)))
    \<and> (confirmed (ec_election x) \<longrightarrow> confirmed (ec_election y)
          \<and> winner_hash c (ec_election y) = winner_hash c (ec_election x) \<and> reports y = reports x)"
proof -
  let ?x0 = "\<lparr>ec_election = fst (election_new c v b ht bh), ec_winners = ws, ec_effects = []\<rparr>"
  have i0: "election_inv c (ec_election ?x0)" by (simp add: new_inv)
  have n0: "\<not> confirmed (ec_election ?x0)" by (simp add: election_new_def Let_def confirmed_def)
  have i: "election_inv c (ec_election x)" by (rule run_inv [OF assms(1) i0 assms(3)])
  have "reports x = [] \<or> (\<exists>s. reports x = [Process_confirmed s] \<and> confirmed (ec_election x)
          \<and> generate_hash c (es_winner s) = winner_hash c (ec_election x))"
    using run_reports [OF assms(1) i0 n0 assms(3)] by (auto simp: reports_def)
  then show ?thesis
    using i run_confirmed [OF assms(2) i _ assms(4)] unfolding election_inv_def by blast
qed

section \<open>Agreement\<close>

text \<open>An operation that confirms with final votes for the winner.\<close>

definition final_confirmation :: "crypto \<Rightarrow> election_env \<Rightarrow> election_op \<Rightarrow> election_ctx \<Rightarrow> election_ctx \<Rightarrow> bool" where
  "final_confirmation c v op x x' \<longleftrightarrow>
     env_ok v \<and> ee_canary v \<and> election_inv c (ec_election x) \<and> \<not> confirmed (ec_election x)
     \<and> op \<noteq> Op_confirm_height (winner_hash c (ec_election x))
     \<and> election_exec c v op x = Some x' \<and> confirmed (ec_election x')
     \<and> winner_hash c (ec_election x') \<in> voted (final_votes (el_last_votes (at_tally v op (ec_election x))))"

lemma at_tally_distinct:
  "election_inv c e \<Longrightarrow> distinct (map fst (el_last_votes (at_tally v op e)))"
  by (cases op) (simp_all add: election_inv_def distinct_update insert_cached_distinct)

lemma final_confirmation_weight:
  assumes "final_confirmation c v op x x'"
  defines "votes \<equiv> final_votes (el_last_votes (at_tally v op (ec_election x)))"
  shows "unat (ee_delta v) \<le> (\<Sum>a \<in> supporters votes (winner_hash c (ec_election x')). unat (ee_weight v a))"
proof -
  let ?s = "at_tally v op (ec_election x)" and ?h = "winner_hash c (ec_election x')"
  note f = assms(1) [unfolded final_confirmation_def]
  have "good_step c v op x x'" using f by (intro election_exec_good) auto
  then have q: "ee_delta v \<le> fresh_final v ?s ?h" using f by (auto simp: good_step_def Let_def)
  have d: "distinct (map fst votes)"
    using f at_tally_distinct [of c "ec_election x" v op] unfolding votes_def final_votes_def
    by (simp add: distinct_map_filter)
  then have "light v (?s\<lparr>el_last_votes := votes\<rparr>)"
    using f by (intro light_if_bounded) (auto simp: env_ok_def)
  then have "unat (votes_for v votes ?h) = weight_for v votes ?h"
    by (simp add: light_def unat_votes_for)
  moreover have "fresh_final v ?s ?h = votes_for v votes ?h"
    using f by (simp add: fresh_final_def votes_def)
  ultimately show ?thesis using q weight_for_supporters [OF d, of v ?h] by (simp add: word_le_nat_alt)
qed

text \<open>
  C23: agreement.  Two nodes with the same weights confirm blocks with final votes.  Each representative
  outside the faulty set has no final votes for two blocks.  When the two quorums together exceed the
  weight of all representatives and of the faulty ones, the blocks are the same.
\<close>

theorem final_votes_agree:
  assumes "final_confirmation c v1 op1 x1 y1" and "final_confirmation c v2 op2 x2 y2"
    and "ee_weight v1 = ee_weight v2"
    and "fst ` set (el_last_votes (at_tally v1 op1 (ec_election x1))) \<subseteq> set reps"
    and "fst ` set (el_last_votes (at_tally v2 op2 (ec_election x2))) \<subseteq> set reps" and "faulty \<subseteq> set reps"
    and "\<forall>a h1 h2. a \<notin> faulty
      \<and> a \<in> supporters (final_votes (el_last_votes (at_tally v1 op1 (ec_election x1)))) h1
      \<and> a \<in> supporters (final_votes (el_last_votes (at_tally v2 op2 (ec_election x2)))) h2 \<longrightarrow> h1 = h2"
    and "(\<Sum>a \<in> set reps. unat (ee_weight v1 a)) + (\<Sum>a \<in> faulty. unat (ee_weight v1 a))
      < unat (ee_delta v1) + unat (ee_delta v2)"
  shows "winner_hash c (ec_election y1) = winner_hash c (ec_election y2)"
proof -
  let ?V1 = "final_votes (el_last_votes (at_tally v1 op1 (ec_election x1)))"
  let ?V2 = "final_votes (el_last_votes (at_tally v2 op2 (ec_election x2)))"
  let ?A = "supporters ?V1 (winner_hash c (ec_election y1))"
  let ?B = "supporters ?V2 (winner_hash c (ec_election y2))"
  have sub: "?A \<subseteq> set reps" "?B \<subseteq> set reps"
    using assms(4,5) by (force simp: supporters_def final_votes_def)+
  have "(\<Sum>a \<in> set reps. unat (ee_weight v1 a)) + (\<Sum>a \<in> faulty. unat (ee_weight v1 a))
      < (\<Sum>a \<in> ?A. unat (ee_weight v1 a)) + (\<Sum>a \<in> ?B. unat (ee_weight v1 a))"
    using final_confirmation_weight [OF assms(1)] final_confirmation_weight [OF assms(2)] assms(3,8) by simp
  from representatives.quorums_meet [OF sub assms(6) this] show ?thesis using assms(7) by blast
qed

section \<open>Examples\<close>

definition ledger_sample_env :: election_env where
  "ledger_sample_env = (sample_env [] 6)\<lparr>ee_weight := representation_get (weights_of sample_2)\<rparr>"

lemma ledger_sample_env: "ledger_env sample_2 ledger_sample_env"
  by (simp add: ledger_env_def ledger_sample_env_def order_ok_def sample_env_def)

lemma sample_2_weight: "representation_get (weights_of sample_2) 7 = 10" "representation_get (weights_of sample_2) 0 = 0"
  using reachable_weight [OF sample_reachable(3) sample_constants_ok, of 7]
    reachable_weight [OF sample_reachable(3) sample_constants_ok, of 0]
  by (simp_all add: sample_2_tables map_total_def word_unat_eq_iff)

definition sample_election :: election_ctx where
  "sample_election = sample_start [] 6 (fork_block 5)"

definition sample_confirmed :: election_ctx where
  "sample_confirmed = the (election_exec sample_crypto ledger_sample_env (Op_vote 7 final_timestamp 105) sample_election)"

lemma sample_election_facts:
  "election_inv sample_crypto (ec_election sample_election)" "\<not> confirmed (ec_election sample_election)"
  "winner_hash sample_crypto (ec_election sample_election) = 105"
  by (simp_all add: sample_election_def sample_start_inv) (simp_all add: election_eval)

lemma sample_confirmed_facts:
  "election_exec sample_crypto ledger_sample_env (Op_vote 7 final_timestamp 105) sample_election = Some sample_confirmed"
  "confirmed (ec_election sample_confirmed)" "winner_hash sample_crypto (ec_election sample_confirmed) = 105"
  by (simp_all add: sample_confirmed_def sample_election_def ledger_sample_env_def election_eval sample_2_weight [unfolded representation_get_def])

lemma sample_env_is_ok: "env_ok ledger_sample_env"
  by (rule ledger_env_ok [OF sample_reachable(3) sample_constants_ok ledger_sample_env])

lemmas sample_election_eval =
  sample_election_def ledger_sample_env_def election_eval sample_2_weight [unfolded representation_get_def]

theorem confirmed_only_with_quorum_witness:
  "unat (ee_delta ledger_sample_env)
     \<le> weight_for ledger_sample_env
         (el_last_votes (at_tally ledger_sample_env (Op_vote 7 final_timestamp 105) (ec_election sample_election))) 105"
  using confirmed_only_with_quorum [OF sample_reachable(3) sample_constants_ok ledger_sample_env
      sample_election_facts(1,2) sample_confirmed_facts(1,2)]
  by (simp add: Let_def sample_confirmed_facts(3))

theorem quorum_confirms_witness:
  "\<exists>r x'. election_vote sample_crypto ledger_sample_env 7 final_timestamp 105 sample_election = Some (r, x')
     \<and> confirmed (ec_election x') \<and> winner_hash sample_crypto (ec_election x') = 105"
proof (rule quorum_confirms [OF sample_reachable(3) sample_constants_ok ledger_sample_env sample_election_facts(1,2) _ refl])
  show "snd (decision ledger_sample_env 7 final_timestamp 105 (ec_election sample_election))"
    by (simp add: sample_election_eval)
qed (auto simp: sample_election_eval known_voted_def voted_def weight_for_def)

definition sample_voted :: election_ctx where
  "sample_voted = the (election_exec sample_crypto ledger_sample_env (Op_vote 7 16 106) sample_election)"

definition sample_revoted :: election_ctx where
  "sample_revoted = the (election_exec sample_crypto ledger_sample_env (Op_vote 7 final_timestamp 105) sample_voted)"

lemma sample_voted_facts:
  "election_exec sample_crypto ledger_sample_env (Op_vote 7 16 106) sample_election = Some sample_voted"
  "map_of (el_last_votes (ec_election sample_voted)) 7 = Some \<lparr>vi_time = 10 ^ 12, vi_timestamp = 16, vi_hash = 106\<rparr>"
  "election_exec sample_crypto ledger_sample_env (Op_vote 7 final_timestamp 105) sample_voted = Some sample_revoted"
  "map_of (el_last_votes (ec_election sample_revoted)) 7 =
     Some \<lparr>vi_time = 10 ^ 12, vi_timestamp = final_timestamp, vi_hash = 105\<rparr>"
  by (simp_all add: sample_voted_def sample_revoted_def sample_election_eval)

theorem recorded_vote_moves_forward_witness:
  "vote_before \<lparr>vi_time = 10 ^ 12, vi_timestamp = 16, vi_hash = 106\<rparr>
     \<lparr>vi_time = 10 ^ 12, vi_timestamp = final_timestamp, vi_hash = 105\<rparr>"
proof -
  have "election_inv sample_crypto (ec_election sample_voted)"
    using election_exec_good [OF sample_env_is_ok sample_election_facts(1) sample_voted_facts(1)]
    by (simp add: good_step_def)
  from recorded_vote_moves_forward [OF sample_env_is_ok this sample_voted_facts(3,2,4)] show ?thesis by simp
qed

theorem election_reports_once_witness:
  "winner_hash sample_crypto (ec_election (confirm_height sample_crypto ledger_sample_env 105 sample_confirmed)) = 105
   \<and> reports (confirm_height sample_crypto ledger_sample_env 105 sample_confirmed) = reports sample_confirmed"
proof -
  let ?ops = "[(ledger_sample_env, Op_vote 7 final_timestamp 105)]"
  let ?later = "[(ledger_sample_env, Op_confirm_height 105)]"
  have ok: "envs_ok ?ops" "envs_ok ?later" by (simp_all add: envs_ok_def sample_env_is_ok)
  have r: "election_run sample_crypto ?ops
      \<lparr>ec_election = fst (election_new sample_crypto (sample_env [] 6) (fork_block 5) 2 Normal), ec_winners = {}, ec_effects = []\<rparr>
      = Some sample_confirmed"
    using sample_confirmed_facts(1) by (auto simp: sample_election_def sample_start_def)
  have l: "election_run sample_crypto ?later sample_confirmed
      = Some (confirm_height sample_crypto ledger_sample_env 105 sample_confirmed)" by simp
  from election_reports_once [OF ok r l] sample_confirmed_facts(2,3) show ?thesis by simp
qed

text \<open>Another node started with the other block of the fork.\<close>

definition other_election :: election_ctx where
  "other_election = the (election_exec sample_crypto ledger_sample_env (Op_publish (fork_block 5)) (sample_start [] 6 (fork_block 6)))"

definition other_confirmed :: election_ctx where
  "other_confirmed = the (election_exec sample_crypto ledger_sample_env (Op_vote 7 final_timestamp 105) other_election)"

lemmas other_election_eval =
  other_election_def sample_election_eval election_publish_def publish_room_def publish_entry_def max_blocks_def

lemma other_election_facts:
  "election_inv sample_crypto (ec_election other_election)" "\<not> confirmed (ec_election other_election)"
  "winner_hash sample_crypto (ec_election other_election) = 106"
  "election_exec sample_crypto ledger_sample_env (Op_vote 7 final_timestamp 105) other_election = Some other_confirmed"
  "confirmed (ec_election other_confirmed)"
proof -
  have "election_exec sample_crypto ledger_sample_env (Op_publish (fork_block 5)) (sample_start [] 6 (fork_block 6)) = Some other_election"
    by (simp add: other_election_eval)
  from election_exec_good [OF sample_env_is_ok sample_start_inv this]
  show "election_inv sample_crypto (ec_election other_election)" by (simp add: good_step_def)
qed (simp_all add: other_confirmed_def other_election_eval)

theorem final_votes_agree_witness:
  "winner_hash sample_crypto (ec_election sample_confirmed) = winner_hash sample_crypto (ec_election other_confirmed)"
proof (rule final_votes_agree [where reps = "[0, 7]" and faulty = "{}"])
  show "final_confirmation sample_crypto ledger_sample_env (Op_vote 7 final_timestamp 105) sample_election sample_confirmed"
    using sample_env_is_ok sample_election_facts sample_confirmed_facts
    by (simp add: final_confirmation_def) (simp add: sample_election_eval voted_def)
  have "winner_hash sample_crypto (ec_election other_confirmed) = 105"
    by (simp add: other_confirmed_def other_election_eval)
  then show "final_confirmation sample_crypto ledger_sample_env (Op_vote 7 final_timestamp 105) other_election other_confirmed"
    using sample_env_is_ok other_election_facts
    by (simp add: final_confirmation_def) (simp add: other_election_eval voted_def)
qed (auto simp: other_election_eval supporters_def)

section \<open>Number of blocks\<close>

text \<open>
  C24: \<open>publish\<close> returns and keeps an election at ten blocks at most, as long as the blocks of its last tally
  are blocks of the election.
\<close>

theorem publish_keeps_limit:
  assumes "order_ok v" and "election_inv c (ec_election x)" and "tally_known (ec_election x)"
    and "length (el_last_blocks (ec_election x)) \<le> max_blocks"
  shows "\<exists>r x'. election_publish c v b x = Some (r, x')
    \<and> length (el_last_blocks (ec_election x')) \<le> max_blocks"
proof -
  from publish_returns [OF assms(1), of c b x] obtain r x' where "election_publish c v b x = Some (r, x')" by auto
  with publish_limit [OF assms this] show ?thesis by blast
qed

theorem publish_keeps_limit_witness:
  "\<exists>r x'. election_publish sample_crypto ledger_sample_env (fork_block 6) sample_election = Some (r, x')
    \<and> length (el_last_blocks (ec_election x')) \<le> max_blocks"
  by (rule publish_keeps_limit [OF _ sample_election_facts(1)])
     (simp_all add: tally_known_def order_ok_def max_blocks_def, simp_all add: sample_election_eval)

end
