(* ===== verification/Voting.thy ===== *)
theory Voting
  imports Votes Ledger_Queries
begin

declare split_paired_All [simp del] split_paired_Ex [simp del]

text \<open>
  \<^verbatim>\<open>node/voting.cpp\<close> and \<^verbatim>\<open>node/request_aggregator.cpp\<close>: the votes of the representatives of the node.
  Times are nanoseconds of the steady clock, read once per operation.  Votes are shared objects: a
  vote carries the number under which it was made, and two pointers are equal when the numbers are.
\<close>

section \<open>Spacing\<close>

record spacing_entry =
  sp_root :: root
  sp_time :: int
  sp_hash :: block_hash

type_synonym vote_spacing = "spacing_entry list"

definition spacing_trim :: "int \<Rightarrow> int \<Rightarrow> vote_spacing \<Rightarrow> vote_spacing" where
  "spacing_trim delay now recent = filter (\<lambda>e. \<not> sp_time e \<le> now - delay) recent"

definition spacing_votable :: "int \<Rightarrow> int \<Rightarrow> vote_spacing \<Rightarrow> root \<Rightarrow> block_hash \<Rightarrow> bool" where
  "spacing_votable delay now recent root_a hash_a =
     list_all (\<lambda>item. sp_root item = root_a \<longrightarrow> hash_a = sp_hash item \<or> sp_time item < now - delay) recent"

fun spacing_touch :: "int \<Rightarrow> root \<Rightarrow> vote_spacing \<Rightarrow> vote_spacing" where
  "spacing_touch now root_a [] = []"
| "spacing_touch now root_a (e # recent) =
     (if sp_root e = root_a then e\<lparr>sp_time := now\<rparr> # recent else e # spacing_touch now root_a recent)"

text \<open>An entry that exists keeps its hash.\<close>

definition spacing_flag :: "int \<Rightarrow> int \<Rightarrow> vote_spacing \<Rightarrow> root \<Rightarrow> block_hash \<Rightarrow> vote_spacing" where
  "spacing_flag delay now recent root_a hash_a =
     (let recent = spacing_trim delay now recent
      in if list_ex (\<lambda>e. sp_root e = root_a) recent then spacing_touch now root_a recent
         else recent @ [\<lparr>sp_root = root_a, sp_time = now, sp_hash = hash_a\<rparr>])"

section \<open>Local votes\<close>

type_synonym vote_ref = "nat \<times> vote"

record local_vote =
  lv_root :: root
  lv_hash :: block_hash
  lv_vote :: vote_ref

type_synonym local_vote_history = "local_vote list"

definition lv_account :: "local_vote \<Rightarrow> account" where
  "lv_account e = vote_account (snd (lv_vote e))"

definition lv_timestamp :: "local_vote \<Rightarrow> u64" where
  "lv_timestamp e = vote_timestamp (snd (lv_vote e))"

definition history_clean :: "nat \<Rightarrow> local_vote_history \<Rightarrow> local_vote_history" where
  "history_clean max_cache h = drop (length h - max_cache) h"

text \<open>Votes of the root for another hash go, and those of the account that are not newer.\<close>

definition history_add :: "nat \<Rightarrow> root \<Rightarrow> block_hash \<Rightarrow> vote_ref \<Rightarrow> local_vote_history \<Rightarrow> local_vote_history" where
  "history_add max_cache root_a hash_a vote_a h =
     (let h = history_clean max_cache h;
          same = (\<lambda>i. vote_account (snd vote_a) = lv_account i);
          kept = filter (\<lambda>i. \<not> (lv_root i = root_a \<and>
                   (lv_hash i \<noteq> hash_a \<or> same i \<and> lv_timestamp i \<le> vote_timestamp (snd vote_a)))) h;
          add_vote = \<not> list_ex (\<lambda>i. lv_root i = root_a \<and> lv_hash i = hash_a \<and> same i
                        \<and> vote_timestamp (snd vote_a) < lv_timestamp i) h
      in if add_vote then kept @ [\<lparr>lv_root = root_a, lv_hash = hash_a, lv_vote = vote_a\<rparr>] else kept)"

definition history_erase :: "root \<Rightarrow> local_vote_history \<Rightarrow> local_vote_history" where
  "history_erase root_a h = filter (\<lambda>i. lv_root i \<noteq> root_a) h"

definition history_votes :: "root \<Rightarrow> block_hash \<Rightarrow> bool \<Rightarrow> local_vote_history \<Rightarrow> vote_ref list" where
  "history_votes root_a hash_a is_final_a h =
     map lv_vote (filter (\<lambda>e. lv_root e = root_a \<and> lv_hash e = hash_a
                            \<and> (\<not> is_final_a \<or> lv_timestamp e = - 1)) h)"

definition history_exists :: "root \<Rightarrow> local_vote_history \<Rightarrow> bool" where
  "history_exists root_a h = list_ex (\<lambda>e. lv_root e = root_a) h"

text \<open>\<open>consistency_check\<close>: the votes of a root are for one hash and of different accounts.\<close>

definition consistency_check :: "root \<Rightarrow> local_vote_history \<Rightarrow> bool" where
  "consistency_check root_a h =
     (let range = filter (\<lambda>e. lv_root e = root_a) h
      in list_all (\<lambda>e. lv_hash e = lv_hash (hd range)) range \<and> distinct (map lv_account range))"

section \<open>Final votes\<close>

type_synonym final_vote_table = "qualified_root \<rightharpoonup> block_hash"

definition final_vote_put ::
  "final_vote_table \<Rightarrow> qualified_root \<Rightarrow> block_hash \<Rightarrow> bool \<times> final_vote_table" where
  "final_vote_put t root_a hash_a =
     (case t root_a of
        Some value \<Rightarrow> (value = hash_a, t)
      | None \<Rightarrow> (True, t(root_a \<mapsto> hash_a)))"

definition final_vote_get :: "final_vote_table \<Rightarrow> root \<Rightarrow> block_hash list" where
  "final_vote_get t root_a =
     map (\<lambda>p. the (t (root_a, p))) (sorted_list_of_set {p. t (root_a, p) \<noteq> None})"

definition final_vote_del :: "final_vote_table \<Rightarrow> root \<Rightarrow> final_vote_table" where
  "final_vote_del t root_a = (\<lambda>qr. if fst qr = root_a then None else t qr)"

section \<open>Generator\<close>

type_synonym candidate_t = "root \<times> block_hash"
type_synonym request_t = "candidate_t list \<times> nat"

record vote_generator =
  vg_is_final :: bool
  vg_candidates :: "candidate_t list"
  vg_requests :: "request_t list"
  vg_spacing :: vote_spacing

datatype vote_effect =
  Broadcast_action vote_ref
| Reply_action vote_ref nat

record voting =
  vo_generator :: vote_generator
  vo_history :: local_vote_history
  vo_final_votes :: final_vote_table
  vo_next :: nat
  vo_effects :: "vote_effect list"

record voting_env =
  ve_now :: int
  ve_now_ms :: u64
  ve_delay :: int
  ve_max_cache :: nat
  ve_reps :: "(account \<times> u256) list"

definition confirm_ack_hashes_max :: nat where
  "confirm_ack_hashes_max = 12"

definition max_requests :: nat where
  "max_requests = 2048"

definition generator_candidate :: "candidate_t \<Rightarrow> voting \<Rightarrow> voting" where
  "generator_candidate cand s =
     s\<lparr>vo_generator := (vo_generator s)\<lparr>vg_candidates := vg_candidates (vo_generator s) @ [cand]\<rparr>\<rparr>"

text \<open>None is an abort of the ledger.\<close>

definition generator_add ::
  "ledger_constants \<Rightarrow> ledger \<Rightarrow> root \<Rightarrow> block_hash \<Rightarrow> voting \<Rightarrow> voting option" where
  "generator_add k l root_a hash_a s =
     (let is_final = vg_is_final (vo_generator s);
          cached_votes = history_votes root_a hash_a is_final (vo_history s)
      in if cached_votes \<noteq> [] then
           Some (s\<lparr>vo_effects := vo_effects s @ map Broadcast_action cached_votes\<rparr>)
         else
           case block_get (blocks_of l) hash_a of
             None \<Rightarrow> Some s
           | Some (block, sideband) \<Rightarrow>
               do { dependents \<leftarrow> dependents_confirmed k l block (Some sideband);
                    let (should_vote, t) =
                          (if is_final \<and> dependents
                           then final_vote_put (vo_final_votes s) (block_qualified_root block) hash_a
                           else (dependents, vo_final_votes s));
                    let s = s\<lparr>vo_final_votes := t\<rparr>;
                    Some (if should_vote then generator_candidate (root_a, hash_a) s else s) })"

fun candidates_of ::
  "crypto \<Rightarrow> ledger_constants \<Rightarrow> ledger \<Rightarrow> (block \<times> block_sideband option) list \<Rightarrow> candidate_t list option" where
  "candidates_of c k l [] = Some []"
| "candidates_of c k l ((block, sideband) # blocks) =
     do { d \<leftarrow> dependents_confirmed k l block sideband;
          cands \<leftarrow> candidates_of c k l blocks;
          Some (if d then (block_root block, generate_hash c block) # cands else cands) }"

definition generator_generate ::
  "crypto \<Rightarrow> ledger_constants \<Rightarrow> ledger \<Rightarrow> (block \<times> block_sideband option) list \<Rightarrow> nat \<Rightarrow> voting \<Rightarrow> (nat \<times> voting) option" where
  "generator_generate c k l blocks_a channel_a s =
     do { cands \<leftarrow> candidates_of c k l blocks_a;
          let requests = vg_requests (vo_generator s) @ [(cands, channel_a)];
          let requests = drop (length requests - max_requests) requests;
          Some (length cands, s\<lparr>vo_generator := (vo_generator s)\<lparr>vg_requests := requests\<rparr>\<rparr>) }"

text \<open>
  One batch: cached votes are sent, each once, and up to \<open>confirm_ack_hashes_max\<close> pairs with
  different roots are collected.  The result has the candidates that are left, the votes that were sent
  and the collected pairs.
\<close>

fun collect_batch ::
  "bool \<Rightarrow> local_vote_history \<Rightarrow> (root \<Rightarrow> block_hash \<Rightarrow> bool) \<Rightarrow> candidate_t list \<Rightarrow> vote_ref list \<Rightarrow>
   candidate_t list \<Rightarrow> candidate_t list \<times> vote_ref list \<times> candidate_t list" where
  "collect_batch is_final history votable [] sent batch = ([], sent, batch)"
| "collect_batch is_final history votable ((r, h) # cands) sent batch =
     (if length batch < confirm_ack_hashes_max then
        let cached_votes = history_votes r h is_final history;
            sent = fold (\<lambda>v sent. if fst v \<in> fst ` set sent then sent else sent @ [v]) cached_votes sent
        in collect_batch is_final history votable cands sent
             (if cached_votes = [] \<and> r \<notin> fst ` set batch \<and> votable r h then batch @ [(r, h)] else batch)
      else ((r, h) # cands, sent, batch))"

text \<open>One vote for each representative, all for the same hashes.\<close>

definition make_vote :: "crypto \<Rightarrow> voting_env \<Rightarrow> bool \<Rightarrow> block_hash list \<Rightarrow> account \<times> u256 \<Rightarrow> vote" where
  "make_vote c v is_final hashes_a = (\<lambda>(pub, prv).
     vote_make_hashes c pub prv (if is_final then timestamp_max else ve_now_ms v)
       (if is_final then duration_max else 9) hashes_a)"

fun vote_entries :: "voting_env \<Rightarrow> vote_ref \<Rightarrow> candidate_t list \<Rightarrow> voting \<Rightarrow> voting" where
  "vote_entries v vote_a [] s = s"
| "vote_entries v vote_a ((r, h) # batch) s =
     vote_entries v vote_a batch
       (s\<lparr>vo_history := history_add (ve_max_cache v) r h vote_a (vo_history s),
          vo_generator := (vo_generator s)
            \<lparr>vg_spacing := spacing_flag (ve_delay v) (ve_now v) (vg_spacing (vo_generator s)) r h\<rparr>\<rparr>)"

fun generator_vote ::
  "crypto \<Rightarrow> voting_env \<Rightarrow> candidate_t list \<Rightarrow> (vote_ref \<Rightarrow> vote_effect) \<Rightarrow> (account \<times> u256) list \<Rightarrow> voting \<Rightarrow> voting" where
  "generator_vote c v batch action [] s = s"
| "generator_vote c v batch action (rep # reps) s =
     (let vote_l = (vo_next s, make_vote c v (vg_is_final (vo_generator s)) (map snd batch) rep);
          s = vote_entries v vote_l batch (s\<lparr>vo_next := vo_next s + 1\<rparr>)
      in generator_vote c v batch action reps (s\<lparr>vo_effects := vo_effects s @ [action vote_l]\<rparr>))"

definition generator_votable :: "voting_env \<Rightarrow> voting \<Rightarrow> root \<Rightarrow> block_hash \<Rightarrow> bool" where
  "generator_votable v s = spacing_votable (ve_delay v) (ve_now v) (vg_spacing (vo_generator s))"

definition generator_broadcast :: "crypto \<Rightarrow> voting_env \<Rightarrow> voting \<Rightarrow> voting" where
  "generator_broadcast c v s =
     (let g = vo_generator s;
          (cands, sent, batch) =
            collect_batch (vg_is_final g) (vo_history s) (generator_votable v s) (vg_candidates g) [] [];
          s = s\<lparr>vo_generator := g\<lparr>vg_candidates := cands\<rparr>, vo_effects := vo_effects s @ map Broadcast_action sent\<rparr>
      in generator_vote c v batch Broadcast_action (if batch = [] then [] else ve_reps v) s)"

lemma collect_batch_shorter:
  "length (fst (collect_batch f h w cands sent batch)) \<le> length cands"
proof (induction cands arbitrary: sent batch)
  case (Cons p cands)
  then show ?case by (cases p) (simp add: Let_def le_SucI)
qed simp

lemma collect_batch_shorter_strict:
  "cands \<noteq> [] \<Longrightarrow> length batch < confirm_ack_hashes_max \<Longrightarrow>
     length (fst (collect_batch f h w cands sent batch)) < length cands"
proof (cases cands)
  case (Cons p cands')
  assume "length batch < confirm_ack_hashes_max"
  then show ?thesis using Cons collect_batch_shorter by (cases p) (simp add: Let_def less_Suc_eq_le)
qed simp

lemma batch_starts: "length ([] :: candidate_t list) < confirm_ack_hashes_max"
  by (simp add: confirm_ack_hashes_max_def)

text \<open>A request is answered batch by batch; a cached vote is sent once per request.\<close>

function reply_loop ::
  "crypto \<Rightarrow> voting_env \<Rightarrow> nat \<Rightarrow> candidate_t list \<Rightarrow> vote_ref list \<Rightarrow> voting \<Rightarrow> voting" where
  "reply_loop c v channel cands sent s =
     (if cands = [] then s
      else
        let g = vo_generator s;
            (cands', sent', batch) =
              collect_batch (vg_is_final g) (vo_history s) (generator_votable v s) cands sent [];
            s = s\<lparr>vo_effects := vo_effects s @ map (\<lambda>r. Reply_action r channel) (drop (length sent) sent')\<rparr>;
            s = generator_vote c v batch (\<lambda>r. Reply_action r channel) (if batch = [] then [] else ve_reps v) s
        in reply_loop c v channel cands' sent' s)"
  by auto
termination
  by (relation "measure (\<lambda>(c, v, ch, cands, sent, s). length cands)")
     (simp_all, metis batch_starts collect_batch_shorter_strict fst_conv)

declare reply_loop.simps [simp del]

definition generator_reply :: "crypto \<Rightarrow> voting_env \<Rightarrow> request_t \<Rightarrow> voting \<Rightarrow> voting" where
  "generator_reply c v request s = reply_loop c v (snd request) (fst request) [] s"

text \<open>One turn of the thread: a full batch first, then a request, then what there is.\<close>

definition generator_turn :: "crypto \<Rightarrow> voting_env \<Rightarrow> voting \<Rightarrow> voting" where
  "generator_turn c v s =
     (let g = vo_generator s in
      if confirm_ack_hashes_max \<le> length (vg_candidates g) then generator_broadcast c v s
      else (case vg_requests g of
              request # rest \<Rightarrow> generator_reply c v request (s\<lparr>vo_generator := g\<lparr>vg_requests := rest\<rparr>\<rparr>)
            | [] \<Rightarrow> if vg_candidates g \<noteq> [] then generator_broadcast c v s else s))"

section \<open>Requests\<close>

text \<open>Sorted by hash, the first of those with the same hash stays.\<close>

fun unique_by :: "('a \<Rightarrow> 'b) \<Rightarrow> 'a list \<Rightarrow> 'a list" where
  "unique_by f (x # y # xs) = (if f x = f y then unique_by f (x # xs) else x # unique_by f (y # xs))"
| "unique_by f xs = xs"

definition erase_duplicates :: "(block_hash \<times> root) list \<Rightarrow> (block_hash \<times> root) list" where
  "erase_duplicates requests_a = unique_by fst (sort_key fst requests_a)"

record aggregation =
  ag_cached :: "vote_ref list"
  ag_publish :: "block list"
  ag_generate :: "block_entry list"
  ag_generate_final :: "block_entry list"

definition confirmed_in_ledger :: "ledger \<Rightarrow> block_entry \<Rightarrow> bool" where
  "confirmed_in_ledger l e \<longleftrightarrow>
     sb_height (snd e) \<le> ch_height (snd (store_confirmation_height_get l (account_calculated e)))"

text \<open>The search for the block to vote for: the block, whether votes are generated, and whether they are final.\<close>

definition find_final_block ::
  "final_vote_table \<Rightarrow> ledger \<Rightarrow> root \<Rightarrow> block_entry list \<times> block_entry option \<times> bool" where
  "find_final_block t l root_a =
     (case final_vote_get t root_a of
        [] \<Rightarrow> ([], None, False)
      | [h] \<Rightarrow> ([], block_get (blocks_of l) h, True)
      | h # h' # _ \<Rightarrow>
          (case block_get (blocks_of l) h of
             None \<Rightarrow> ([], None, True)
           | Some block \<Rightarrow> ([block], block_get (blocks_of l) h', True)))"

definition find_by_root ::
  "local_vote_history \<Rightarrow> ledger \<Rightarrow> root \<Rightarrow> bool \<Rightarrow> vote_ref list \<times> block_entry option \<times> bool \<times> bool" where
  "find_by_root history l root_a generate_final_vote =
     (if root_a = 0 then ([], None, True, generate_final_vote)
      else
        let successor = block_successor (blocks_of l) root_a;
            successor = (if successor = 0
                         then (case store_account_get l root_a of None \<Rightarrow> 0 | Some info \<Rightarrow> ai_open_block info)
                         else successor)
        in if successor = 0 then ([], None, True, generate_final_vote)
           else
             let block = block_get (blocks_of l) successor;
                 votes = history_votes root_a successor False history;
                 generate_vote = (votes = [])
             in (votes, block, generate_vote,
                 case block of
                   Some e \<Rightarrow> if generate_vote then confirmed_in_ledger l e else generate_final_vote
                 | None \<Rightarrow> generate_final_vote))"

text \<open>Steps 2 to 5: further blocks for final votes, cached votes, the block, whether to vote and whether finally.\<close>

definition aggregate_find ::
  "(block_hash \<Rightarrow> block_entry option) \<Rightarrow> local_vote_history \<Rightarrow> final_vote_table \<Rightarrow> ledger \<Rightarrow> block_hash \<Rightarrow> root \<Rightarrow>
   block_entry list \<times> vote_ref list \<times> block_entry option \<times> bool \<times> bool" where
  "aggregate_find winner history t l hash root_a =
     (let (other, block, final) = find_final_block t l root_a;
          block = (if block = None then winner hash else block)
      in case block of
           Some e \<Rightarrow> (other, [], Some e, True, final)
         | None \<Rightarrow>
             (case block_get (blocks_of l) hash of
                Some e \<Rightarrow> (other, [], Some e, True, confirmed_in_ledger l e)
              | None \<Rightarrow> (other, find_by_root history l root_a final)))"

definition aggregate_emit ::
  "crypto \<Rightarrow> block_hash \<Rightarrow> block_entry option \<Rightarrow> bool \<Rightarrow> bool \<Rightarrow> aggregation \<Rightarrow> aggregation" where
  "aggregate_emit c hash block generate_vote generate_final_vote a =
     (case block of
        None \<Rightarrow> a
      | Some e \<Rightarrow>
          let a = (if \<not> generate_vote then a
                   else if generate_final_vote then a\<lparr>ag_generate_final := ag_generate_final a @ [e]\<rparr>
                   else a\<lparr>ag_generate := ag_generate a @ [e]\<rparr>)
          in if generate_hash c (fst e) \<noteq> hash then a\<lparr>ag_publish := ag_publish a @ [fst e]\<rparr> else a)"

definition aggregate_one ::
  "crypto \<Rightarrow> (block_hash \<Rightarrow> block_entry option) \<Rightarrow> local_vote_history \<Rightarrow> final_vote_table \<Rightarrow> ledger \<Rightarrow>
   block_hash \<times> root \<Rightarrow> aggregation \<Rightarrow> aggregation" where
  "aggregate_one c winner history t l = (\<lambda>(hash, root_a) a.
     let find_votes = history_votes root_a hash False history in
     if find_votes \<noteq> [] then a\<lparr>ag_cached := ag_cached a @ find_votes\<rparr>
     else
       let (other, votes, block, generate_vote, final) = aggregate_find winner history t l hash root_a
       in aggregate_emit c hash block generate_vote final
            (a\<lparr>ag_generate_final := ag_generate_final a @ other, ag_cached := ag_cached a @ votes\<rparr>))"

definition aggregate ::
  "crypto \<Rightarrow> (block_hash \<Rightarrow> block_entry option) \<Rightarrow> local_vote_history \<Rightarrow> final_vote_table \<Rightarrow> ledger \<Rightarrow>
   (block_hash \<times> root) list \<Rightarrow> aggregation" where
  "aggregate c winner history t l requests_a =
     (let a = fold (aggregate_one c winner history t l) requests_a
                \<lparr>ag_cached = [], ag_publish = [], ag_generate = [], ag_generate_final = []\<rparr>
      in a\<lparr>ag_cached := unique_by fst (sort_key fst (ag_cached a))\<rparr>)"

end
