(* ===== verification/Voting_Theorems.thy ===== *)
theory Voting_Theorems
  imports Voting Ledger_Sample
begin

declare split_paired_All [simp del] split_paired_Ex [simp del]

text \<open>The cache of local votes, the spacing of votes and the votes that a final generator casts.\<close>

section \<open>Local votes\<close>

definition compatible :: "local_vote \<Rightarrow> local_vote \<Rightarrow> bool" where
  "compatible e e' \<longleftrightarrow> (lv_root e = lv_root e' \<longrightarrow> lv_hash e = lv_hash e' \<and> lv_account e \<noteq> lv_account e')"

lemma compatible_check:
  assumes "sorted_wrt compatible h"
  shows "consistency_check r h"
proof -
  let ?l = "filter (\<lambda>e. lv_root e = r) h"
  have s: "sorted_wrt compatible ?l" by (rule sorted_wrt_filter [OF assms])
  have root: "\<forall>e \<in> set ?l. lv_root e = r" by simp
  have d: "distinct (map lv_account l) \<and> (\<forall>e \<in> set l. lv_hash e = lv_hash (hd l))"
    if "sorted_wrt compatible l" "\<forall>e \<in> set l. lv_root e = r" for l
    using that
  proof (induction l)
    case (Cons e l)
    have c: "lv_hash e' = lv_hash e" "lv_account e' \<noteq> lv_account e" if m: "e' \<in> set l" for e'
    proof -
      have "compatible e e'" using Cons.prems(1) m by simp
      moreover have "lv_root e = lv_root e'" using Cons.prems(2) m by simp
      ultimately show "lv_hash e' = lv_hash e" "lv_account e' \<noteq> lv_account e"
        unfolding compatible_def by metis+
    qed
    have "distinct (map lv_account l)" using Cons.IH Cons.prems by simp
    moreover have "lv_account e \<notin> lv_account ` set l" using c(2) by force
    ultimately show ?case using c(1) by simp
  qed simp
  show ?thesis unfolding consistency_check_def Let_def using d [OF s root] by (simp add: list_all_iff)
qed

lemma sorted_wrt_drop: "sorted_wrt P xs \<Longrightarrow> sorted_wrt P (drop n xs)"
  by (metis append_take_drop_id sorted_wrt_append)

lemma history_add_compatible:
  assumes "sorted_wrt compatible h"
  shows "sorted_wrt compatible (history_add m r hash v h)"
proof -
  let ?h = "history_clean m h"
  let ?same = "\<lambda>i. vote_account (snd v) = lv_account i"
  let ?kept = "filter (\<lambda>i. \<not> (lv_root i = r \<and> (lv_hash i \<noteq> hash \<or> ?same i \<and> lv_timestamp i \<le> vote_timestamp (snd v)))) ?h"
  let ?e = "\<lparr>lv_root = r, lv_hash = hash, lv_vote = v\<rparr>"
  have s: "sorted_wrt compatible ?h" using assms by (simp add: history_clean_def sorted_wrt_drop)
  then have k: "sorted_wrt compatible ?kept" by (rule sorted_wrt_filter)
  have "compatible i ?e"
    if "i \<in> set ?kept" "\<not> list_ex (\<lambda>i. lv_root i = r \<and> lv_hash i = hash \<and> ?same i \<and> vote_timestamp (snd v) < lv_timestamp i) ?h" for i
    using that by (auto simp: compatible_def lv_account_def list_ex_iff not_le)
  then show ?thesis using k by (auto simp: history_add_def Let_def sorted_wrt_append)
qed

lemma history_add_length: "0 < m \<Longrightarrow> length (history_add m r hash v h) \<le> Suc m"
proof -
  have "length (filter P (history_clean m h)) \<le> m" for P
    by (rule order_trans [OF length_filter_le]) (simp add: history_clean_def)
  then show ?thesis by (auto simp: history_add_def Let_def intro: le_SucI)
qed

datatype history_op = H_add root block_hash vote_ref | H_erase root

fun history_run :: "nat \<Rightarrow> history_op list \<Rightarrow> local_vote_history \<Rightarrow> local_vote_history" where
  "history_run m [] h = h"
| "history_run m (H_add r hash v # ops) h = history_run m ops (history_add m r hash v h)"
| "history_run m (H_erase r # ops) h = history_run m ops (history_erase r h)"

lemma history_run_ok:
  "0 < m \<Longrightarrow> sorted_wrt compatible h \<Longrightarrow> length h \<le> Suc m \<Longrightarrow>
     sorted_wrt compatible (history_run m ops h) \<and> length (history_run m ops h) \<le> Suc m"
proof (induction m ops h rule: history_run.induct)
  case (2 m r hash v ops h)
  then show ?case by (simp add: history_add_compatible history_add_length)
next
  case (3 m r ops h)
  have "length (history_erase r h) \<le> Suc m"
    using 3 by (auto simp: history_erase_def intro: order_trans [OF length_filter_le])
  then show ?case using 3 by (simp add: history_erase_def sorted_wrt_filter)
qed simp

text \<open>
  C27: the cache of local votes.  After any sequence of additions and removals the votes cached for a root
  are all for one hash and of different representatives, and the cache holds at most one vote more than
  its limit.
\<close>

theorem local_votes_consistent:
  assumes "0 < max_cache"
  shows "consistency_check r (history_run max_cache ops []) \<and> length (history_run max_cache ops []) \<le> Suc max_cache"
  using history_run_ok [OF assms, of "[]" ops] by (simp add: compatible_check)

theorem local_votes_consistent_witness:
  "consistency_check 1 (history_run 2 [H_add 1 5 (0, \<lparr>vote_timestamp_m = 16, vote_blocks = [], vote_account = 3, vote_signature = 0\<rparr>),
     H_add 1 6 (1, \<lparr>vote_timestamp_m = 32, vote_blocks = [], vote_account = 4, vote_signature = 0\<rparr>)] [])"
  using local_votes_consistent [of 2 1] by (simp del: history_run.simps)

section \<open>Spacing\<close>

text \<open>Votes at given times, each allowed by the spacing.\<close>

fun spaced_run :: "int \<Rightarrow> (int \<times> root \<times> block_hash) list \<Rightarrow> vote_spacing \<Rightarrow> vote_spacing option" where
  "spaced_run delay [] s = Some s"
| "spaced_run delay ((now, r, h) # events) s =
     (if spacing_votable delay now s r h then spaced_run delay events (spacing_flag delay now s r h) else None)"

definition spacing_ok :: "vote_spacing \<Rightarrow> bool" where
  "spacing_ok s \<longleftrightarrow> distinct (map sp_root s)"

text \<open>A vote within the delay has an entry with its hash that is not older.\<close>

definition remembered :: "int \<Rightarrow> int \<Rightarrow> vote_spacing \<Rightarrow> int \<times> root \<times> block_hash \<Rightarrow> bool" where
  "remembered delay now s = (\<lambda>(t, r, h).
     now - delay < t \<longrightarrow> (\<exists>e \<in> set s. sp_root e = r \<and> sp_hash e = h \<and> t \<le> sp_time e))"

lemma spacing_touch_roots: "map sp_root (spacing_touch now r s) = map sp_root s"
  by (induction now r s rule: spacing_touch.induct) auto

lemma spacing_touch_keeps:
  "e \<in> set s \<Longrightarrow> sp_time e \<le> now \<Longrightarrow>
     \<exists>e' \<in> set (spacing_touch now r s). sp_root e' = sp_root e \<and> sp_hash e' = sp_hash e \<and> sp_time e \<le> sp_time e'"
  by (induction now r s rule: spacing_touch.induct) (auto intro: bexI)

lemma spacing_touch_marks:
  "distinct (map sp_root s) \<Longrightarrow> e \<in> set s \<Longrightarrow> sp_root e = r \<Longrightarrow> e\<lparr>sp_time := now\<rparr> \<in> set (spacing_touch now r s)"
  by (induction now r s rule: spacing_touch.induct) (auto simp: image_iff)

lemma spacing_flag_times:
  "\<forall>e \<in> set s. sp_time e \<le> now \<Longrightarrow> \<forall>e \<in> set (spacing_flag delay now s r h). sp_time e \<le> now"
proof -
  have tch: "\<forall>e \<in> set s. sp_time e \<le> now \<Longrightarrow> \<forall>e \<in> set (spacing_touch now r s). sp_time e \<le> now" for s
    by (induction now r s rule: spacing_touch.induct) auto
  assume "\<forall>e \<in> set s. sp_time e \<le> now"
  then have "\<forall>e \<in> set (spacing_trim delay now s). sp_time e \<le> now" by (simp add: spacing_trim_def)
  then show ?thesis using tch [of "spacing_trim delay now s"] by (auto simp: spacing_flag_def Let_def)
qed

lemma spacing_flag_ok: "spacing_ok s \<Longrightarrow> spacing_ok (spacing_flag delay now s r h)"
  by (auto simp: spacing_ok_def spacing_flag_def Let_def spacing_touch_roots spacing_trim_def distinct_map_filter list_ex_iff)

lemma spacing_flag_remembers:
  assumes ok: "spacing_ok s" and v: "spacing_votable delay now s r h" and d: "0 \<le> delay"
    and t: "\<forall>e \<in> set s. sp_time e \<le> now"
  shows "remembered delay now (spacing_flag delay now s r h) (now, r, h)"
proof -
  let ?s = "spacing_trim delay now s"
  have okt: "distinct (map sp_root ?s)" using ok by (simp add: spacing_ok_def spacing_trim_def distinct_map_filter)
  show ?thesis
  proof (cases "list_ex (\<lambda>e. sp_root e = r) ?s")
    case True
    then obtain e where e: "e \<in> set ?s" "sp_root e = r" by (auto simp: list_ex_iff)
    have "sp_hash e = h"
      using v e by (auto simp: spacing_votable_def spacing_trim_def list_all_iff)
    moreover have "e\<lparr>sp_time := now\<rparr> \<in> set (spacing_touch now r ?s)"
      by (rule spacing_touch_marks [OF okt e])
    ultimately show ?thesis using True e
      by (auto simp: remembered_def spacing_flag_def Let_def intro!: bexI [of _ "e\<lparr>sp_time := now\<rparr>"])
  next
    case False
    then show ?thesis by (simp add: remembered_def spacing_flag_def Let_def)
  qed
qed

lemma spacing_flag_keeps:
  assumes m: "remembered delay past s ev" and le: "past \<le> now" and t: "\<forall>e \<in> set s. sp_time e \<le> now"
  shows "remembered delay now (spacing_flag delay now s r h) ev"
proof -
  obtain u q k where ev: "ev = (u, q, k)" by (cases ev) auto
  show ?thesis
  proof (cases "now - delay < u")
    case True
    then obtain e where e: "e \<in> set s" "sp_root e = q" "sp_hash e = k" "u \<le> sp_time e"
      using m le by (auto simp: remembered_def ev)
    have et: "e \<in> set (spacing_trim delay now s)" using e True by (simp add: spacing_trim_def)
    have "\<exists>e' \<in> set (spacing_flag delay now s r h). sp_root e' = q \<and> sp_hash e' = k \<and> sp_time e \<le> sp_time e'"
    proof (cases "list_ex (\<lambda>e. sp_root e = r) (spacing_trim delay now s)")
      case True
      then show ?thesis
        using spacing_touch_keeps [OF et, of now r] t e by (auto simp: spacing_flag_def Let_def)
    next
      case False
      then show ?thesis using et e by (auto simp: spacing_flag_def Let_def intro!: bexI [of _ e])
    qed
    then show ?thesis using e(4) by (force simp: remembered_def ev)
  qed (simp add: remembered_def ev)
qed

lemma spaced_run_pairs:
  assumes "spaced_run delay events s = Some s'" "sorted (map fst events)" "spacing_ok s" "0 \<le> delay"
    and "\<forall>e \<in> set s. \<forall>ev \<in> set events. sp_time e \<le> fst ev"
    and "past \<le> now0" "\<forall>ev \<in> set events. now0 \<le> fst ev" "remembered delay now0 s (past, r, h)"
    and "(t, r, h') \<in> set events" "h' \<noteq> h"
  shows "past + delay \<le> t"
  using assms
proof (induction events arbitrary: s now0)
  case (Cons ev events)
  obtain now q k where ev: "ev = (now, q, k)" by (cases ev) auto
  have v: "spacing_votable delay now s q k" and run: "spaced_run delay events (spacing_flag delay now s q k) = Some s'"
    using Cons.prems(1) by (auto simp: ev split: if_splits)
  show ?case
  proof (cases "(t, r, h') = ev")
    case True
    then have eq: "t = now" "q = r" "k = h'" by (auto simp: ev)
    show ?thesis
    proof (rule ccontr)
      assume "\<not> past + delay \<le> t"
      then have "now - delay < past" using eq by simp
      moreover have "now0 \<le> now" using Cons.prems(7) by (simp add: ev)
      ultimately obtain e where "e \<in> set s" "sp_root e = r" "sp_hash e = h" "past \<le> sp_time e"
        using Cons.prems(8) by (auto simp: remembered_def)
      then show False
        using v eq Cons.prems(10) \<open>now - delay < past\<close> by (auto simp: spacing_votable_def list_all_iff)
    qed
  next
    case False
    have in': "(t, r, h') \<in> set events" using Cons.prems(9) False by auto
    have tm: "\<forall>e \<in> set s. sp_time e \<le> now" using Cons.prems(5) by (simp add: ev)
    have le: "\<forall>ev \<in> set events. now \<le> fst ev" using Cons.prems(2) by (simp add: ev)
    show ?thesis
    proof (rule Cons.IH [OF run])
      show "sorted (map fst events)" using Cons.prems(2) by simp
      show "spacing_ok (spacing_flag delay now s q k)" by (rule spacing_flag_ok [OF Cons.prems(3)])
      show "0 \<le> delay" by (rule Cons.prems(4))
      show "\<forall>e \<in> set (spacing_flag delay now s q k). \<forall>ev \<in> set events. sp_time e \<le> fst ev"
        using spacing_flag_times [OF tm, of delay q k] le by fastforce
      show "past \<le> now" using Cons.prems(6,7) by (simp add: ev)
      show "\<forall>ev \<in> set events. now \<le> fst ev" by (rule le)
      show "remembered delay now (spacing_flag delay now s q k) (past, r, h)"
        using spacing_flag_keeps [OF Cons.prems(8) _ tm] Cons.prems(7) by (simp add: ev)
    qed (use in' Cons.prems(10) in auto)
  qed
qed simp

text \<open>
  C26: the spacing of votes.  When votes are cast one after the other, each allowed by the spacing at its time,
  two votes for different blocks of one root are at least the configured delay apart.
\<close>

theorem votes_spaced:
  assumes "spaced_run delay (before @ (t, r, h) # between @ (t', r, h') # after) [] = Some s"
    and "sorted (map fst (before @ (t, r, h) # between @ (t', r, h') # after))" and "0 \<le> delay" and "h' \<noteq> h"
  shows "t + delay \<le> t'"
proof -
  have split: "\<exists>s. spaced_run delay xs s0 = Some s \<and> spaced_run delay ys s = Some s'"
    if "spaced_run delay (xs @ ys) s0 = Some s'" for xs ys s0 s'
    using that by (induction delay xs s0 rule: spaced_run.induct) (auto split: if_splits)
  have inv: "spacing_ok s \<and> (\<forall>e \<in> set s. sp_time e \<le> m)"
    if "spaced_run delay xs s0 = Some s" "spacing_ok s0" "sorted (map fst xs)" "\<forall>ev \<in> set xs. fst ev \<le> m"
      "\<forall>e \<in> set s0. sp_time e \<le> (if xs = [] then m else fst (hd xs))" for xs s0 s m
    using that
  proof (induction xs arbitrary: s0)
    case (Cons ev xs)
    obtain now q k where ev: "ev = (now, q, k)" by (cases ev) auto
    have run: "spaced_run delay xs (spacing_flag delay now s0 q k) = Some s"
      using Cons.prems(1) by (auto simp: ev split: if_splits)
    have tm: "\<forall>e \<in> set s0. sp_time e \<le> now" using Cons.prems(5) by (simp add: ev)
    have "\<forall>e \<in> set (spacing_flag delay now s0 q k). sp_time e \<le> (if xs = [] then m else fst (hd xs))"
      using spacing_flag_times [OF tm, of delay q k] Cons.prems(3,4) by (cases xs) (force simp: ev)+
    then show ?case using Cons.IH [OF run spacing_flag_ok [OF Cons.prems(2)]] Cons.prems(3,4) by auto
  qed simp
  let ?rest = "between @ (t', r, h') # after"
  from split [OF assms(1)] obtain s1 where
    s1: "spaced_run delay before [] = Some s1" "spaced_run delay ((t, r, h) # ?rest) s1 = Some s" by blast
  have i1: "spacing_ok s1 \<and> (\<forall>e \<in> set s1. sp_time e \<le> t)"
    using s1(1) by (rule inv) (use assms(2) in \<open>auto simp: spacing_ok_def sorted_append\<close>)
  have v: "spacing_votable delay t s1 r h" and run: "spaced_run delay ?rest (spacing_flag delay t s1 r h) = Some s"
    using s1(2) by (auto split: if_splits)
  have tm: "\<forall>ev \<in> set ?rest. t \<le> fst ev" using assms(2) by (auto simp: sorted_append)
  show ?thesis
  proof (rule spaced_run_pairs [OF run])
    show "sorted (map fst ?rest)" using assms(2) by (auto simp: sorted_append)
    show "spacing_ok (spacing_flag delay t s1 r h)" using i1 by (simp add: spacing_flag_ok)
    show "\<forall>e \<in> set (spacing_flag delay t s1 r h). \<forall>ev \<in> set ?rest. sp_time e \<le> fst ev"
      using spacing_flag_times [of s1 t delay r h] i1 tm by fastforce
    show "remembered delay t (spacing_flag delay t s1 r h) (t, r, h)"
      by (rule spacing_flag_remembers) (use i1 v assms(3) in auto)
  qed (use assms tm in auto)
qed

theorem votes_spaced_witness:
  "spaced_run 15 [(0, 1, 5), (20, 1, 6)] [] \<noteq> None \<and> (0 :: int) + 15 \<le> 20"
proof -
  have r: "spaced_run 15 [(0, 1, 5), (20, 1, 6)] [] \<noteq> None"
    by (simp add: spacing_votable_def spacing_flag_def spacing_trim_def Let_def)
  then show ?thesis
    using votes_spaced [where delay = 15 and before = "[]" and between = "[]" and after = "[]" and r = 1 and h = 5 and h' = 6
        and t = 0 and t' = 20] by auto
qed

section \<open>Final votes\<close>

text \<open>The steps of a generator that elections feed, each with the ledger or the environment it meets.\<close>

datatype voting_op = Vo_add ledger root block_hash | Vo_turn voting_env

fun voting_run :: "crypto \<Rightarrow> ledger_constants \<Rightarrow> voting_op list \<Rightarrow> voting \<Rightarrow> voting option" where
  "voting_run c k [] s = Some s"
| "voting_run c k (Vo_add l r h # ops) s = Option.bind (generator_add k l r h s) (voting_run c k ops)"
| "voting_run c k (Vo_turn v # ops) s = voting_run c k ops (generator_turn c v s)"

definition final_start :: voting where
  "final_start =
     \<lparr>vo_generator = \<lparr>vg_is_final = True, vg_candidates = [], vg_requests = [], vg_spacing = []\<rparr>,
      vo_history = [], vo_final_votes = Map.empty, vo_next = 0, vo_effects = []\<rparr>"

text \<open>A hash under which the table of final votes has a block of that hash.\<close>

definition recorded :: "crypto \<Rightarrow> (block \<Rightarrow> bool) \<Rightarrow> final_vote_table \<Rightarrow> block_hash \<Rightarrow> bool" where
  "recorded c P t h \<longleftrightarrow> (\<exists>b. P b \<and> generate_hash c b = h \<and> t (block_qualified_root b) = Some h)"

definition vote_recorded :: "crypto \<Rightarrow> (block \<Rightarrow> bool) \<Rightarrow> final_vote_table \<Rightarrow> vote \<Rightarrow> bool" where
  "vote_recorded c P t v \<longleftrightarrow> (\<forall>h. Vote_hash h \<in> set (vote_blocks v) \<longrightarrow> recorded c P t h)"

fun effect_vote :: "vote_effect \<Rightarrow> vote" where
  "effect_vote (Broadcast_action r) = snd r"
| "effect_vote (Reply_action r ch) = snd r"

definition generator_inv :: "crypto \<Rightarrow> (block \<Rightarrow> bool) \<Rightarrow> voting \<Rightarrow> bool" where
  "generator_inv c P s \<longleftrightarrow> vg_is_final (vo_generator s) \<and> vg_requests (vo_generator s) = []
     \<and> (\<forall>(r, h) \<in> set (vg_candidates (vo_generator s)). recorded c P (vo_final_votes s) h)
     \<and> (\<forall>e \<in> set (vo_history s). vote_recorded c P (vo_final_votes s) (snd (lv_vote e)))
     \<and> (\<forall>f \<in> set (vo_effects s). vote_recorded c P (vo_final_votes s) (effect_vote f))"

lemma recorded_mono: "t \<subseteq>\<^sub>m t' \<Longrightarrow> recorded c P t h \<Longrightarrow> recorded c P t' h"
  by (auto simp: recorded_def map_le_def dom_def)

lemma vote_recorded_mono: "t \<subseteq>\<^sub>m t' \<Longrightarrow> vote_recorded c P t v \<Longrightarrow> vote_recorded c P t' v"
  by (auto simp: vote_recorded_def intro: recorded_mono)

lemma final_vote_put_grows: "t \<subseteq>\<^sub>m snd (final_vote_put t qr h)"
  by (auto simp: final_vote_put_def map_le_def split: option.split)

lemma final_vote_put_true: "fst (final_vote_put t qr h) \<Longrightarrow> snd (final_vote_put t qr h) qr = Some h"
  by (auto simp: final_vote_put_def split: option.splits)

lemma history_votes_in: "v \<in> set (history_votes r h f hs) \<Longrightarrow> \<exists>e \<in> set hs. v = lv_vote e"
  by (auto simp: history_votes_def)

definition ledger_keyed :: "crypto \<Rightarrow> (block \<Rightarrow> bool) \<Rightarrow> ledger \<Rightarrow> bool" where
  "ledger_keyed c P l \<longleftrightarrow> (\<forall>h b sb. blocks_of l h = Some (b, sb) \<longrightarrow> generate_hash c b = h \<and> P b)"

lemma generator_add_inv:
  assumes i: "generator_inv c P s" and l: "ledger_keyed c P l" and s: "generator_add k l r h s = Some s'"
  shows "generator_inv c P s' \<and> vo_final_votes s \<subseteq>\<^sub>m vo_final_votes s'"
proof (cases "history_votes r h True (vo_history s) = []")
  case False
  then have "s' = s\<lparr>vo_effects := vo_effects s @ map Broadcast_action (history_votes r h True (vo_history s))\<rparr>"
    using s i by (simp add: generator_add_def generator_inv_def Let_def)
  then show ?thesis using i by (auto simp: generator_inv_def dest!: history_votes_in)
next
  case True
  show ?thesis
  proof (cases "blocks_of l h")
    case None
    then show ?thesis using s i True by (simp add: generator_add_def generator_inv_def Let_def block_get_def)
  next
    case (Some e)
    obtain b sb where e: "e = (b, sb)" by (cases e)
    obtain d where d: "dependents_confirmed k l b (Some sb) = Some d"
      using s i True Some e by (cases "dependents_confirmed k l b (Some sb)")
        (auto simp: generator_add_def generator_inv_def Let_def block_get_def)
    obtain sv t where p: "final_vote_put (vo_final_votes s) (block_qualified_root b) h = (sv, t)" by fastforce
    have g: "vo_final_votes s \<subseteq>\<^sub>m t" using final_vote_put_grows [of "vo_final_votes s" "block_qualified_root b" h] by (simp add: p)
    have rec: "sv \<Longrightarrow> recorded c P t h"
      using final_vote_put_true [of "vo_final_votes s" "block_qualified_root b" h] l Some
      by (auto simp: p recorded_def ledger_keyed_def e)
    have "s' = (if d \<and> sv then generator_candidate (r, h) (s\<lparr>vo_final_votes := t\<rparr>)
                else if d then s\<lparr>vo_final_votes := t\<rparr> else s)"
      using s i True Some e d p by (auto simp: generator_add_def generator_inv_def Let_def block_get_def)
    then show ?thesis
      using i g rec recorded_mono [OF g] vote_recorded_mono [OF g]
      by (auto simp: generator_inv_def generator_candidate_def)
  qed
qed

lemma history_add_votes:
  "e \<in> set (history_add m r h v hs) \<Longrightarrow> e \<in> set hs \<or> lv_vote e = v"
  by (auto simp: history_add_def Let_def history_clean_def dest: in_set_dropD split: if_splits)

lemma vote_entries_facts:
  "vo_final_votes (vote_entries v w batch s) = vo_final_votes s
   \<and> vo_effects (vote_entries v w batch s) = vo_effects s \<and> vo_next (vote_entries v w batch s) = vo_next s
   \<and> vg_is_final (vo_generator (vote_entries v w batch s)) = vg_is_final (vo_generator s)
   \<and> vg_requests (vo_generator (vote_entries v w batch s)) = vg_requests (vo_generator s)
   \<and> vg_candidates (vo_generator (vote_entries v w batch s)) = vg_candidates (vo_generator s)
   \<and> (\<forall>e \<in> set (vo_history (vote_entries v w batch s)). e \<in> set (vo_history s) \<or> lv_vote e = w)"
proof (induction v w batch s rule: vote_entries.induct)
  case (2 v w r h batch s)
  then show ?case by (auto dest!: history_add_votes)
qed simp

lemma make_vote_blocks: "vote_blocks (make_vote c v f hs rep) = map Vote_hash hs"
  by (cases rep) (simp add: make_vote_def vote_make_hashes_def Let_def)

lemma generator_vote_inv:
  assumes "generator_inv c P s" "\<forall>(r, h) \<in> set batch. recorded c P (vo_final_votes s) h" "\<And>r. effect_vote (action r) = snd r"
  shows "generator_inv c P (generator_vote c v batch action reps s)
    \<and> vo_final_votes (generator_vote c v batch action reps s) = vo_final_votes s"
  using assms
proof (induction reps arbitrary: s)
  case (Cons rep reps)
  let ?w = "(vo_next s, make_vote c v (vg_is_final (vo_generator s)) (map snd batch) rep)"
  let ?s = "vote_entries v ?w batch (s\<lparr>vo_next := vo_next s + 1\<rparr>)"
  let ?z = "?s\<lparr>vo_effects := vo_effects ?s @ [action ?w]\<rparr>"
  have vr: "vote_recorded c P (vo_final_votes s) (snd ?w)"
    using Cons.prems(2) by (auto simp: vote_recorded_def make_vote_blocks)
  have "generator_inv c P ?z"
    using Cons.prems(1,3) vr vote_entries_facts [of v ?w batch "s\<lparr>vo_next := vo_next s + 1\<rparr>"]
    by (auto simp: generator_inv_def)
  moreover have "vo_final_votes ?z = vo_final_votes s"
    using vote_entries_facts [of v ?w batch "s\<lparr>vo_next := vo_next s + 1\<rparr>"] by simp
  ultimately show ?case using Cons.IH [of ?z] Cons.prems(2,3) by (simp add: Let_def)
qed simp

lemma collect_batch_facts:
  assumes "collect_batch f hs w cands sent batch = (cands', sent', batch')"
  shows "set cands' \<subseteq> set cands" "set batch' \<subseteq> set batch \<union> set cands"
    "\<forall>x \<in> set sent'. x \<in> set sent \<or> (\<exists>e \<in> set hs. x = lv_vote e)"
proof -
  have f: "\<forall>x \<in> set (fold (\<lambda>v sent. if fst v \<in> fst ` set sent then sent else sent @ [v]) vs sent0). x \<in> set sent0 \<or> x \<in> set vs"
    for vs sent0 :: "vote_ref list"
  proof (induction vs arbitrary: sent0)
    case (Cons v vs)
    then show ?case using Cons.IH [of sent0] Cons.IH [of "sent0 @ [v]"] by auto
  qed simp
  have "set cands' \<subseteq> set cands \<and> set batch' \<subseteq> set batch \<union> set cands
    \<and> (\<forall>x \<in> set sent'. x \<in> set sent \<or> (\<exists>e \<in> set hs. x = lv_vote e))"
    using assms
  proof (induction f hs w cands sent batch arbitrary: cands' sent' batch' rule: collect_batch.induct)
    case (2 f hs w r h cands sent batch)
    show ?case
    proof (cases "length batch < confirm_ack_hashes_max")
      case False
      then show ?thesis using "2.prems" by auto
    next
      case True
      let ?vs = "history_votes r h f hs"
      let ?sent = "fold (\<lambda>v sent. if fst v \<in> fst ` set sent then sent else sent @ [v]) ?vs sent"
      let ?b = "if ?vs = [] \<and> r \<notin> fst ` set batch \<and> w r h then batch @ [(r, h)] else batch"
      have "collect_batch f hs w cands ?sent ?b = (cands', sent', batch')"
        using "2.prems" True by (simp add: Let_def)
      note ih = "2.IH" [OF True refl refl this]
      have "set ?b \<subseteq> insert (r, h) (set batch)" by auto
      then show ?thesis using ih f [of ?vs sent] by (fastforce dest: history_votes_in)
    qed
  qed auto
  then show "set cands' \<subseteq> set cands" "set batch' \<subseteq> set batch \<union> set cands"
    "\<forall>x \<in> set sent'. x \<in> set sent \<or> (\<exists>e \<in> set hs. x = lv_vote e)" by auto
qed

lemma generator_broadcast_inv:
  assumes i: "generator_inv c P s"
  shows "generator_inv c P (generator_broadcast c v s) \<and> vo_final_votes (generator_broadcast c v s) = vo_final_votes s"
proof -
  let ?g = "vo_generator s"
  obtain cands sent batch where cb: "collect_batch (vg_is_final ?g) (vo_history s) (generator_votable v s)
      (vg_candidates ?g) [] [] = (cands, sent, batch)" by (metis prod_cases3)
  note f = collect_batch_facts [OF cb]
  let ?s = "s\<lparr>vo_generator := ?g\<lparr>vg_candidates := cands\<rparr>, vo_effects := vo_effects s @ map Broadcast_action sent\<rparr>"
  have "generator_inv c P ?s" using i f by (auto simp: generator_inv_def subset_iff)
  moreover have "\<forall>(r, h) \<in> set batch. recorded c P (vo_final_votes ?s) h"
    using i f(2) by (auto simp: generator_inv_def subset_iff)
  ultimately show ?thesis
    using generator_vote_inv [of c P ?s batch Broadcast_action] by (simp add: generator_broadcast_def cb Let_def)
qed

lemma generator_turn_inv:
  assumes i: "generator_inv c P s"
  shows "generator_inv c P (generator_turn c v s) \<and> vo_final_votes (generator_turn c v s) = vo_final_votes s"
proof -
  have "vg_requests (vo_generator s) = []" using i by (simp add: generator_inv_def)
  then show ?thesis using i generator_broadcast_inv [OF i, of v] by (simp add: generator_turn_def Let_def)
qed

lemma voting_run_inv:
  "generator_inv c P s \<Longrightarrow> \<forall>op \<in> set ops. \<forall>l r h. op = Vo_add l r h \<longrightarrow> ledger_keyed c P l \<Longrightarrow>
     voting_run c k ops s = Some s' \<Longrightarrow> generator_inv c P s'"
proof (induction ops arbitrary: s)
  case (Cons op ops)
  show ?case
  proof (cases op)
    case (Vo_add l r h)
    then obtain y where y: "generator_add k l r h s = Some y" "voting_run c k ops y = Some s'"
      using Cons.prems(3) by (cases "generator_add k l r h s") auto
    have "generator_inv c P y" using generator_add_inv [OF Cons.prems(1) _ y(1)] Cons.prems(2) Vo_add by simp
    then show ?thesis using Cons.IH y(2) Cons.prems(2) by simp
  next
    case (Vo_turn v)
    then have r: "voting_run c k ops (generator_turn c v s) = Some s'" using Cons.prems(3) by simp
    show ?thesis using Cons.IH [OF _ _ r] generator_turn_inv [OF Cons.prems(1), of v] Cons.prems(2) by simp
  qed
qed simp

text \<open>
  C25: one final vote for a root.  A final generator that is fed by elections votes for one block of each
  qualified root: whatever is added to it, in whatever order and over whatever ledgers, the final votes
  it sends for two blocks of the same qualified root are for the same hash.  The blocks of the ledgers are
  stored under their hashes, and none of them collides with one of the two blocks.
\<close>

theorem one_final_vote_per_root:
  assumes "voting_run c k ops final_start = Some s"
    and "\<forall>op \<in> set ops. \<forall>l r h. op = Vo_add l r h \<longrightarrow> ledger_keyed c P l"
    and "f \<in> set (vo_effects s)" and "Vote_hash (generate_hash c b) \<in> set (vote_blocks (effect_vote f))"
    and "f' \<in> set (vo_effects s)" and "Vote_hash (generate_hash c b') \<in> set (vote_blocks (effect_vote f'))"
    and "\<forall>d. P d \<and> generate_hash c d \<in> {generate_hash c b, generate_hash c b'} \<longrightarrow> block_qualified_root d = qr"
  shows "generate_hash c b = generate_hash c b'"
proof -
  have "generator_inv c P final_start" by (simp add: generator_inv_def final_start_def)
  then have i: "generator_inv c P s" using voting_run_inv [OF _ assms(2,1)] by simp
  have "recorded c P (vo_final_votes s) (generate_hash c b)" "recorded c P (vo_final_votes s) (generate_hash c b')"
    using i assms(3-6) by (auto simp: generator_inv_def vote_recorded_def)
  then obtain d d' where
    d: "P d" "generate_hash c d = generate_hash c b" "vo_final_votes s (block_qualified_root d) = Some (generate_hash c b)" and
    d': "P d'" "generate_hash c d' = generate_hash c b'" "vo_final_votes s (block_qualified_root d') = Some (generate_hash c b')"
    by (auto simp: recorded_def)
  have "block_qualified_root d = qr" "block_qualified_root d' = qr" using assms(7) d d' by auto
  then show ?thesis using d(3) d'(3) by simp
qed

section \<open>Examples\<close>

definition vote_block :: block where
  "vote_block = Open \<lparr>open_h = \<lparr>open_source = 1, open_representative = 1, open_account = 5\<rparr>,
                      open_signature = 0, open_work = 0\<rparr>"

definition vote_ledger :: ledger where
  "vote_ledger = empty_ledger
     \<lparr>l_store := (l_store empty_ledger)\<lparr>st_blocks := [105 \<mapsto> (vote_block, block_sideband_default)]\<rparr>\<rparr>"

definition vote_env :: voting_env where
  "vote_env = \<lparr>ve_now = 10 ^ 12, ve_now_ms = 1000, ve_delay = 15 * 10 ^ 9, ve_max_cache = 256, ve_reps = [(7, 1)]\<rparr>"

definition vote_ops :: "voting_op list" where
  "vote_ops = [Vo_add vote_ledger 5 105, Vo_turn vote_env]"

lemmas voting_eval =
  vote_block_def vote_ledger_def vote_env_def generator_add_def generator_turn_def
  generator_broadcast_def generator_candidate_def generator_votable_def final_vote_put_def
  history_votes_def history_add_def history_clean_def spacing_votable_def spacing_flag_def spacing_trim_def
  make_vote_def vote_make_hashes_def dependents_confirmed_def sample_constants_def confirm_ack_hashes_max_def
  final_start_def block_get_def Let_def block_qualified_root_def

definition final_sent :: voting where
  "final_sent = the (voting_run sample_crypto sample_constants vote_ops final_start)"

lemma final_sent_facts:
  "voting_run sample_crypto sample_constants vote_ops final_start = Some final_sent"
  "\<exists>v. vo_effects final_sent = [Broadcast_action v] \<and> vote_blocks (snd v) = [Vote_hash 105]"
  by (simp_all add: final_sent_def vote_ops_def voting_eval empty_ledger_def)

theorem one_final_vote_per_root_witness:
  "voting_run sample_crypto sample_constants vote_ops final_start = Some final_sent
   \<and> (\<exists>v. vo_effects final_sent = [Broadcast_action v] \<and> vote_blocks (snd v) = [Vote_hash (generate_hash sample_crypto vote_block)])
   \<and> generate_hash sample_crypto vote_block = generate_hash sample_crypto vote_block"
proof -
  from final_sent_facts(2) obtain v where v: "vo_effects final_sent = [Broadcast_action v]" "vote_blocks (snd v) = [Vote_hash 105]" by blast
  have h: "generate_hash sample_crypto vote_block = 105" by (simp add: vote_block_def)
  have "generate_hash sample_crypto vote_block = generate_hash sample_crypto vote_block"
    by (rule one_final_vote_per_root [OF final_sent_facts(1), where P = "\<lambda>b. b = vote_block" and f = "Broadcast_action v"
          and f' = "Broadcast_action v"])
       (auto simp: v h vote_ops_def ledger_keyed_def vote_ledger_def split: if_splits)
  then show ?thesis using final_sent_facts v h by auto
qed

text \<open>
  A request for votes is answered with a final vote for the winner of an election although the table of
  final votes names another block of the same root, one that the ledger does not hold.
\<close>

definition recorded_other :: final_vote_table where
  "recorded_other = [(5, 0) \<mapsto> 999]"

lemma recorded_other_get: "final_vote_get recorded_other 5 = [999]"
proof -
  have "{p. recorded_other (5, p) \<noteq> None} = {0}" by (auto simp: recorded_other_def)
  then show ?thesis by (simp add: final_vote_get_def recorded_other_def)
qed

theorem second_final_vote:
  "block_qualified_root vote_block = (5, 0) \<and> recorded_other (5, 0) = Some 999
   \<and> ag_generate_final (aggregate sample_crypto (\<lambda>h. if h = 105 then Some (vote_block, block_sideband_default) else None)
       [] recorded_other empty_ledger [(105, 5)]) = [(vote_block, block_sideband_default)]
   \<and> (\<exists>n s v. generator_generate sample_crypto sample_constants empty_ledger [(vote_block, Some block_sideband_default)] 3
              (final_start\<lparr>vo_final_votes := recorded_other\<rparr>) = Some (n, s)
        \<and> vo_effects (generator_turn sample_crypto vote_env s) = [Reply_action v 3]
        \<and> vote_timestamp (snd v) = - 1 \<and> vote_blocks (snd v) = [Vote_hash 105])"
proof -
  have f: "find_final_block recorded_other empty_ledger 5 = ([], None, True)"
    by (simp add: find_final_block_def recorded_other_get block_get_def empty_ledger_def)
  have g: "\<exists>n s v. generator_generate sample_crypto sample_constants empty_ledger [(vote_block, Some block_sideband_default)] 3
              (final_start\<lparr>vo_final_votes := recorded_other\<rparr>) = Some (n, s)
        \<and> vo_effects (generator_turn sample_crypto vote_env s) = [Reply_action v 3]
        \<and> vote_timestamp (snd v) = - 1 \<and> vote_blocks (snd v) = [Vote_hash 105]"
    by (simp add: voting_eval empty_ledger_def recorded_other_def generator_generate_def generator_reply_def reply_loop.simps
       max_requests_def vote_timestamp_def vote_packed_timestamp_def timestamp_max_def duration_max_def timestamp_mask_def)
  have a: "ag_generate_final (aggregate sample_crypto (\<lambda>h. if h = 105 then Some (vote_block, block_sideband_default) else None)
       [] recorded_other empty_ledger [(105, 5)]) = [(vote_block, block_sideband_default)]"
    by (simp add: aggregate_def aggregate_one_def aggregate_find_def aggregate_emit_def f erase_duplicates_def history_votes_def Let_def)
  have "block_qualified_root vote_block = (5, 0)" "recorded_other (5, 0) = Some 999"
    by (simp_all add: vote_block_def recorded_other_def block_qualified_root_def)
  with a g show ?thesis by blast
qed

end
