(* ===== verification/Aggregator.thy ===== *)
theory Aggregator
  imports Voting
begin

declare split_paired_All [simp del] split_paired_Ex [simp del]

text \<open>
  \<^verbatim>\<open>request_aggregator\<close> of \<^verbatim>\<open>node/request_aggregator.cpp\<close>: requests for votes wait in one pool per endpoint until
  the deadline of the pool.  The container is the list of its deadline index: it is ordered by deadline and an
  element is put behind those with the same deadline.  Endpoints and channels are numbers; \<open>now\<close> is the
  steady clock, read once per operation.
\<close>

record channel_pool =
  cp_hashes_roots :: "(block_hash \<times> root) list"
  cp_channel :: nat
  cp_endpoint :: nat
  cp_start :: int
  cp_deadline :: int

record aggregator_config =
  ac_max_delay :: int
  ac_small_delay :: int
  ac_max_channel_requests :: nat

fun pool_insert :: "channel_pool \<Rightarrow> channel_pool list \<Rightarrow> channel_pool list" where
  "pool_insert p [] = [p]"
| "pool_insert p (q # qs) = (if cp_deadline q \<le> cp_deadline p then q # pool_insert p qs else p # q # qs)"

text \<open>An element whose deadline changes stays in place when the order allows it.\<close>

definition pool_modify :: "nat \<Rightarrow> (channel_pool \<Rightarrow> channel_pool) \<Rightarrow> channel_pool list \<Rightarrow> channel_pool list" where
  "pool_modify endpoint f pools =
     (let before = takeWhile (\<lambda>p. cp_endpoint p \<noteq> endpoint) pools
      in case dropWhile (\<lambda>p. cp_endpoint p \<noteq> endpoint) pools of
           [] \<Rightarrow> pools
         | p # after \<Rightarrow>
             let q = f p in
             if list_all (\<lambda>x. cp_deadline x \<le> cp_deadline q) before \<and> list_all (\<lambda>x. cp_deadline q \<le> cp_deadline x) after
             then before @ q # after else pool_insert q (before @ after))"

definition pool_extend ::
  "aggregator_config \<Rightarrow> int \<Rightarrow> nat \<Rightarrow> (block_hash \<times> root) list \<Rightarrow> channel_pool \<Rightarrow> channel_pool" where
  "pool_extend ac now channel_a hashes_roots_a p =
     (let p = p\<lparr>cp_channel := channel_a\<rparr> in
      if length (cp_hashes_roots p) + length hashes_roots_a \<le> ac_max_channel_requests ac
      then p\<lparr>cp_deadline := min (cp_start p + ac_max_delay ac) (now + ac_small_delay ac),
             cp_hashes_roots := hashes_roots_a @ cp_hashes_roots p\<rparr>
      else p)"

text \<open>
  A new pool has the deadline of a default time point, the epoch of the clock.  When the oldest pool is far
  beyond its deadline the request is dropped.
\<close>

definition aggregator_add ::
  "aggregator_config \<Rightarrow> int \<Rightarrow> nat \<Rightarrow> nat \<Rightarrow> (block_hash \<times> root) list \<Rightarrow> channel_pool list \<Rightarrow> channel_pool list" where
  "aggregator_add ac now channel_a endpoint hashes_roots_a pools =
     (if pools = [] \<or> now < cp_deadline (hd pools) + 2 * ac_max_delay ac then
        let pools = (if list_ex (\<lambda>p. cp_endpoint p = endpoint) pools then pools
                     else pool_insert \<lparr>cp_hashes_roots = [], cp_channel = channel_a, cp_endpoint = endpoint,
                                        cp_start = now, cp_deadline = 0\<rparr> pools)
        in pool_modify endpoint (pool_extend ac now channel_a hashes_roots_a) pools
      else pools)"

text \<open>The pool that is due, if there is one, and the pools that are left.\<close>

definition aggregator_due :: "int \<Rightarrow> channel_pool list \<Rightarrow> (nat \<times> (block_hash \<times> root) list) option \<times> channel_pool list" where
  "aggregator_due now pools =
     (case pools of
        [] \<Rightarrow> (None, [])
      | front # rest \<Rightarrow>
          if cp_deadline front < now then (Some (cp_channel front, cp_hashes_roots front), rest) else (None, pools))"

datatype aggregator_effect =
  Send_publish block nat
| Send_ack vote_ref nat

record aggregator_state =
  as_pools :: "channel_pool list"
  as_voting :: voting
  as_final_generator :: vote_generator
  as_effects :: "aggregator_effect list"

definition generate_with ::
  "crypto \<Rightarrow> ledger_constants \<Rightarrow> ledger \<Rightarrow> block_entry list \<Rightarrow> nat \<Rightarrow> voting \<Rightarrow> voting option" where
  "generate_with c k l remaining channel_a s =
     (if remaining = [] then Some s
      else map_option snd (generator_generate c k l (map (\<lambda>(b, sb). (b, Some sb)) remaining) channel_a s))"

text \<open>
  One turn of the thread: the requests of the pool that is due are answered from the cache, and the blocks
  that are left go to the two generators, which share the cache and the table of final votes.
\<close>

definition aggregator_turn ::
  "crypto \<Rightarrow> ledger_constants \<Rightarrow> (block_hash \<Rightarrow> block_entry option) \<Rightarrow> ledger \<Rightarrow> int \<Rightarrow> aggregator_state \<Rightarrow>
   aggregator_state option" where
  "aggregator_turn c k winner l now s =
     (case aggregator_due now (as_pools s) of
        (None, _) \<Rightarrow> Some s
      | (Some (channel_a, hashes_roots), pools) \<Rightarrow>
          let vo = as_voting s;
              a = aggregate c winner (vo_history vo) (vo_final_votes vo) l (erase_duplicates hashes_roots);
              effects = map (\<lambda>b. Send_publish b channel_a) (ag_publish a) @ map (\<lambda>v. Send_ack v channel_a) (ag_cached a)
          in do { vo' \<leftarrow> generate_with c k l (ag_generate a) channel_a vo;
                  fo \<leftarrow> generate_with c k l (ag_generate_final a) channel_a (vo\<lparr>vo_generator := as_final_generator s\<rparr>);
                  Some (s\<lparr>as_pools := pools, as_voting := vo', as_final_generator := vo_generator fo,
                          as_effects := as_effects s @ effects\<rparr>) })"

section \<open>Pools\<close>

definition pool_ok :: "aggregator_config \<Rightarrow> channel_pool \<Rightarrow> bool" where
  "pool_ok ac p \<longleftrightarrow> length (cp_hashes_roots p) \<le> ac_max_channel_requests ac
     \<and> (cp_deadline p = 0 \<or> cp_deadline p \<le> cp_start p + ac_max_delay ac)"

definition pools_ok :: "aggregator_config \<Rightarrow> channel_pool list \<Rightarrow> bool" where
  "pools_ok ac pools \<longleftrightarrow> distinct (map cp_endpoint pools) \<and> sorted (map cp_deadline pools) \<and> list_all (pool_ok ac) pools"

lemma set_pool_insert [simp]: "set (pool_insert p pools) = insert p (set pools)"
  by (induction pools) auto

lemma distinct_pool_insert [simp]:
  "distinct (map cp_endpoint (pool_insert p pools)) \<longleftrightarrow> cp_endpoint p \<notin> cp_endpoint ` set pools \<and> distinct (map cp_endpoint pools)"
  by (induction pools) auto

lemma sorted_pool_insert [simp]: "sorted (map cp_deadline (pool_insert p pools)) = sorted (map cp_deadline pools)"
  by (induction pools) auto

lemma pool_insert_ok:
  "pools_ok ac pools \<Longrightarrow> pool_ok ac p \<Longrightarrow> cp_endpoint p \<notin> cp_endpoint ` set pools \<Longrightarrow> pools_ok ac (pool_insert p pools)"
  by (auto simp: pools_ok_def list_all_iff)

lemma pool_extend_ok: "pool_ok ac p \<Longrightarrow> pool_ok ac (pool_extend ac now ch hr p)"
  by (auto simp: pool_ok_def pool_extend_def Let_def)

lemma pool_modify_ok:
  assumes "pools_ok ac pools" "\<And>p. pool_ok ac p \<Longrightarrow> pool_ok ac (f p)" "\<And>p. cp_endpoint (f p) = cp_endpoint p"
  shows "pools_ok ac (pool_modify endpoint f pools)"
proof (cases "dropWhile (\<lambda>p. cp_endpoint p \<noteq> endpoint) pools")
  case Nil
  then show ?thesis using assms(1) unfolding pool_modify_def Let_def Nil by simp
next
  case (Cons p after)
  define before where "before = takeWhile (\<lambda>p. cp_endpoint p \<noteq> endpoint) pools"
  have pools: "pools = before @ p # after" using takeWhile_dropWhile_id [of _ pools] Cons before_def by metis
  have i: "pools_ok ac (before @ p # after)" using assms(1) pools by simp
  have rest: "pools_ok ac (before @ after)" using i by (auto simp: pools_ok_def sorted_append)
  have q: "pool_ok ac (f p)" "cp_endpoint (f p) \<notin> cp_endpoint ` set (before @ after)"
    using i assms(2,3) by (auto simp: pools_ok_def list_all_iff)
  have "pools_ok ac (before @ f p # after)"
    if "list_all (\<lambda>x. cp_deadline x \<le> cp_deadline (f p)) before" "list_all (\<lambda>x. cp_deadline (f p) \<le> cp_deadline x) after"
    using i q that by (auto simp: pools_ok_def sorted_append list_all_iff assms(3))
  then show ?thesis
    using pool_insert_ok [OF rest q]
    unfolding pool_modify_def Let_def before_def [symmetric] Cons by auto
qed

lemma pool_emplace_ok:
  assumes "pools_ok ac pools"
  shows "pools_ok ac (if list_ex (\<lambda>p. cp_endpoint p = e) pools then pools
           else pool_insert \<lparr>cp_hashes_roots = [], cp_channel = ch, cp_endpoint = e, cp_start = now, cp_deadline = 0\<rparr> pools)"
proof (cases "list_ex (\<lambda>p. cp_endpoint p = e) pools")
  case False
  then show ?thesis using assms by (auto intro!: pool_insert_ok simp: pool_ok_def list_ex_iff)
qed (simp add: assms)

lemma pool_extend_endpoint [simp]: "cp_endpoint (pool_extend ac now ch hr p) = cp_endpoint p"
  by (simp add: pool_extend_def Let_def)

lemma aggregator_add_ok:
  assumes "pools_ok ac pools"
  shows "pools_ok ac (aggregator_add ac now ch e hr pools)"
  using assms pool_modify_ok [OF pool_emplace_ok [OF assms] pool_extend_ok pool_extend_endpoint]
  unfolding aggregator_add_def Let_def by (rule_tac if_split [THEN iffD2]) simp

lemma aggregator_due_ok: "pools_ok ac pools \<Longrightarrow> pools_ok ac (snd (aggregator_due now pools))"
  by (auto simp: aggregator_due_def pools_ok_def split: list.splits)

datatype aggregator_op = Ag_add int nat nat "(block_hash \<times> root) list" | Ag_turn int

fun aggregator_run :: "aggregator_config \<Rightarrow> aggregator_op list \<Rightarrow> channel_pool list \<Rightarrow> channel_pool list" where
  "aggregator_run ac [] pools = pools"
| "aggregator_run ac (Ag_add now ch e hr # ops) pools = aggregator_run ac ops (aggregator_add ac now ch e hr pools)"
| "aggregator_run ac (Ag_turn now # ops) pools = aggregator_run ac ops (snd (aggregator_due now pools))"

text \<open>
  The pools of the aggregator: one per endpoint, in the order of their deadlines, none with more requests than
  the limit and none with a deadline later than the longest delay after its start.
\<close>

theorem aggregator_pools_ok: "pools_ok ac (aggregator_run ac ops [])"
proof -
  have "pools_ok ac pools \<Longrightarrow> pools_ok ac (aggregator_run ac ops pools)" for pools
    by (induction ac ops pools rule: aggregator_run.induct) (simp_all add: aggregator_add_ok aggregator_due_ok)
  then show ?thesis by (simp add: pools_ok_def)
qed

section \<open>Answers\<close>

lemma unique_by_set: "set (unique_by f xs) \<subseteq> set xs"
  by (induction f xs rule: unique_by.induct) auto

lemma unique_by_image: "f ` set (unique_by f xs) = f ` set xs"
  by (induction f xs rule: unique_by.induct) auto

lemma unique_by_distinct:
  fixes f :: "'a \<Rightarrow> 'b :: linorder"
  shows "sorted (map f xs) \<Longrightarrow> distinct (map f (unique_by f xs))"
proof (induction f xs rule: unique_by.induct)
  case (1 f x y xs)
  show ?case
  proof (cases "f x = f y")
    case False
    then have "\<forall>z \<in> set (y # xs). f x < f z" using "1.prems" by (auto simp: less_le)
    then have "f x \<notin> f ` set (unique_by f (y # xs))" unfolding unique_by_image by auto
    then show ?thesis using 1 False by simp
  qed (use 1 in simp)
qed simp_all

lemma erase_duplicates_props:
  "distinct (map fst (erase_duplicates rs))" "fst ` set (erase_duplicates rs) = fst ` set rs" "set (erase_duplicates rs) \<subseteq> set rs"
  using unique_by_set [of fst "sort_key fst rs"] unique_by_image [of fst "sort_key fst rs"]
  by (auto simp: erase_duplicates_def unique_by_distinct)

text \<open>
  Final votes on request: a block goes to the final generator only when the table of final votes names it for
  the root, when it is the winner of an election and the table names some block for the root, or when it is
  cemented.
\<close>

definition final_source ::
  "(block_hash \<Rightarrow> block_entry option) \<Rightarrow> final_vote_table \<Rightarrow> ledger \<Rightarrow> block_hash \<times> root \<Rightarrow> block_entry \<Rightarrow> bool" where
  "final_source winner t l = (\<lambda>(hash, root_a) e.
     (\<exists>h \<in> set (final_vote_get t root_a). block_get (blocks_of l) h = Some e)
     \<or> winner hash = Some e \<and> final_vote_get t root_a \<noteq> []
     \<or> confirmed_in_ledger l e)"

lemma find_final_block_source:
  assumes "find_final_block t l r = (other, block, final)"
  shows "\<forall>e. e \<in> set other \<or> block = Some e \<longrightarrow> (\<exists>h \<in> set (final_vote_get t r). block_get (blocks_of l) h = Some e)"
    and "final \<longleftrightarrow> final_vote_get t r \<noteq> []"
  using assms by (auto simp: find_final_block_def split: list.splits option.splits)

lemma find_by_root_source:
  "find_by_root history l r final = (votes, Some e, True, True) \<Longrightarrow> confirmed_in_ledger l e"
  by (auto simp: find_by_root_def Let_def split: if_splits option.splits)

lemma find_by_root_votes: "find_by_root history l r final = (votes, b, g, f) \<Longrightarrow> set votes \<subseteq> lv_vote ` set history"
  by (auto simp: find_by_root_def Let_def history_votes_def split: if_splits option.splits)

lemma aggregate_find_source:
  assumes "aggregate_find winner history t l h r = (other, votes, block, g, final)"
  shows "\<forall>e. e \<in> set other \<or> block = Some e \<and> g \<and> final \<longrightarrow> final_source winner t l (h, r) e"
    and "set votes \<subseteq> lv_vote ` set history"
proof -
  obtain other' b f where ff: "find_final_block t l r = (other', b, f)" by (metis prod_cases3)
  note src = find_final_block_source [OF ff]
  show "\<forall>e. e \<in> set other \<or> block = Some e \<and> g \<and> final \<longrightarrow> final_source winner t l (h, r) e"
    using assms src find_by_root_source [of history l r f votes]
    by (auto simp: aggregate_find_def ff final_source_def split: option.splits if_splits)
  show "set votes \<subseteq> lv_vote ` set history"
    using assms find_by_root_votes [of history l r f votes block g final]
    by (auto simp: aggregate_find_def ff split: option.splits if_splits)
qed

lemma aggregate_emit_fields:
  "ag_cached (aggregate_emit c h b g f a) = ag_cached a"
  "set (ag_generate_final (aggregate_emit c h b g f a)) =
     set (ag_generate_final a) \<union> {e. b = Some e \<and> g \<and> f}"
  by (auto simp: aggregate_emit_def Let_def split: option.splits)

lemma aggregate_one_source:
  "e \<in> set (ag_generate_final (aggregate_one c winner history t l q a)) \<Longrightarrow>
     e \<in> set (ag_generate_final a) \<or> final_source winner t l q e"
  "v \<in> set (ag_cached (aggregate_one c winner history t l q a)) \<Longrightarrow>
     v \<in> set (ag_cached a) \<or> v \<in> lv_vote ` set history"
proof -
  obtain h r where q: "q = (h, r)" by (cases q)
  obtain other votes b g f where ff: "aggregate_find winner history t l h r = (other, votes, b, g, f)" by (metis prod_cases5)
  note src = aggregate_find_source [OF ff]
  show "e \<in> set (ag_generate_final (aggregate_one c winner history t l q a)) \<Longrightarrow>
     e \<in> set (ag_generate_final a) \<or> final_source winner t l q e"
    using src by (auto simp: q aggregate_one_def ff aggregate_emit_fields Let_def split: if_splits)
  show "v \<in> set (ag_cached (aggregate_one c winner history t l q a)) \<Longrightarrow>
     v \<in> set (ag_cached a) \<or> v \<in> lv_vote ` set history"
    using src by (auto simp: q aggregate_one_def ff aggregate_emit_fields history_votes_def Let_def split: if_splits)
qed

theorem aggregate_sources:
  "(\<forall>e \<in> set (ag_generate_final (aggregate c winner history t l requests)). \<exists>q \<in> set requests. final_source winner t l q e)
   \<and> (\<forall>v \<in> set (ag_cached (aggregate c winner history t l requests)). v \<in> lv_vote ` set history)"
proof -
  have f: "e \<in> set (ag_generate_final (fold (aggregate_one c winner history t l) requests a)) \<Longrightarrow>
      e \<in> set (ag_generate_final a) \<or> (\<exists>q \<in> set requests. final_source winner t l q e)" for e a
  proof (induction requests arbitrary: a)
    case (Cons q requests)
    then show ?case using aggregate_one_source(1) [of e c winner history t l q a] by fastforce
  qed simp
  have v: "v \<in> set (ag_cached (fold (aggregate_one c winner history t l) requests a)) \<Longrightarrow>
      v \<in> set (ag_cached a) \<or> v \<in> lv_vote ` set history" for v a
  proof (induction requests arbitrary: a)
    case (Cons q requests)
    then show ?case using aggregate_one_source(2) [of v c winner history t l q a] by fastforce
  qed simp
  show ?thesis using f v unique_by_set by (fastforce simp: aggregate_def Let_def)
qed

end
