(* ===== verification/Block_Processor.thy ===== *)
theory Block_Processor
  imports Ledger_Rollback
begin

declare split_paired_All [simp del] split_paired_Ex [simp del]

text \<open>
  \<^verbatim>\<open>node/blockprocessor.cpp\<close>, \<^verbatim>\<open>node/state_block_signature_verification.cpp\<close> and
  \<^verbatim>\<open>node/unchecked_map.cpp\<close>: the way of a block from the network to the ledger.  Signatures of state blocks
  are checked in batches, blocks with a gap wait in the unchecked table until the block they depend
  on arrives, and a winner of an election replaces the block of its root.  Each function is one turn of the
  thread that runs it; what a turn does to the rest of the node is a list of effects, and
  the events of a batch run when the batch ends.  \<open>Abort\<close> is a failed assertion.
\<close>

section \<open>State\<close>

datatype unchecked_item =
  U_insert u256 unchecked_info
| U_query u256

datatype bp_event =
  Ev_process_live block_hash block
| Ev_gap_add block_hash
| Ev_requeue_invalid block_hash unchecked_info
| Ev_active_publish block

datatype bp_effect =
  Ef_history_erase root
| Ef_active_erase block
| Ef_gap_erase block_hash
| Ef_lazy_requeue block_hash block_hash

type_synonym verification_item = "block \<times> account \<times> signature_verification"

record block_processor =
  bp_blocks :: "unchecked_info list"
  bp_forced :: "block list"
  bp_state_blocks :: "verification_item list"
  bp_buffer :: "unchecked_item list"
  bp_unchecked :: "unchecked_key \<rightharpoonup> unchecked_info"
  bp_ledger :: ledger
  bp_events :: "bp_event list"
  bp_effects :: "bp_effect list"

text \<open>The clocks that a turn reads, which blocks arrived lately, and the steps of a rollback.\<close>

record bp_env =
  be_times :: times
  be_seconds :: u64
  be_clock :: "block_hash \<Rightarrow> u64"
  be_recent :: "block_hash \<Rightarrow> bool"
  be_steps :: nat

definition unchecked_info_new :: "u64 \<Rightarrow> block \<Rightarrow> account \<Rightarrow> signature_verification \<Rightarrow> unchecked_info" where
  "unchecked_info_new now block_a account_a verified_a =
     \<lparr>ui_block = block_a, ui_account = account_a, ui_modified = now, ui_verified = verified_a\<rparr>"

section \<open>Entry\<close>

definition processor_add :: "unchecked_info \<Rightarrow> block_processor \<Rightarrow> block_processor" where
  "processor_add info_a s =
     (let block = ui_block info_a; acct = ui_account info_a; verified = ui_verified info_a
      in if verified = sv_unknown \<and> (block_type_of block = bt_state \<or> block_type_of block = bt_open \<or> acct \<noteq> 0)
         then s\<lparr>bp_state_blocks := bp_state_blocks s @ [(block, acct, verified)]\<rparr>
         else s\<lparr>bp_blocks := bp_blocks s @ [info_a]\<rparr>)"

definition processor_add_local :: "unchecked_info \<Rightarrow> block_processor \<Rightarrow> block_processor run" where
  "processor_add_local info_a s =
     (if ui_verified info_a = sv_unknown \<and> (block_type_of (ui_block info_a) = bt_state \<or> ui_account info_a \<noteq> 0)
      then Done (s\<lparr>bp_state_blocks := bp_state_blocks s @ [(ui_block info_a, ui_account info_a, ui_verified info_a)]\<rparr>)
      else Abort)"

definition processor_force :: "block \<Rightarrow> block_processor \<Rightarrow> block_processor" where
  "processor_force block_a s = s\<lparr>bp_forced := bp_forced s @ [block_a]\<rparr>"

definition have_blocks_ready :: "block_processor \<Rightarrow> bool" where
  "have_blocks_ready s \<longleftrightarrow> bp_blocks s \<noteq> [] \<or> bp_forced s \<noteq> []"

definition have_blocks :: "block_processor \<Rightarrow> bool" where
  "have_blocks s \<longleftrightarrow> have_blocks_ready s \<or> length (bp_state_blocks s) \<noteq> 0"

definition processor_size :: "block_processor \<Rightarrow> nat" where
  "processor_size s = length (bp_blocks s) + length (bp_state_blocks s) + length (bp_forced s)"

definition processor_full :: "nat \<Rightarrow> block_processor \<Rightarrow> bool" where
  "processor_full full_size s \<longleftrightarrow> full_size \<le> processor_size s"

definition processor_half_full :: "nat \<Rightarrow> block_processor \<Rightarrow> bool" where
  "processor_half_full full_size s \<longleftrightarrow> full_size div 2 \<le> processor_size s"

section \<open>Signatures\<close>

definition requeue_invalid :: "block_hash \<Rightarrow> unchecked_info \<Rightarrow> block_processor \<Rightarrow> block_processor" where
  "requeue_invalid hash_a info_a s =
     s\<lparr>bp_effects := bp_effects s @ [Ef_lazy_requeue hash_a (block_previous (ui_block info_a))]\<rparr>"

text \<open>The account that must have signed a block.\<close>

definition verification_account :: "ledger_constants \<Rightarrow> verification_item \<Rightarrow> account option" where
  "verification_account k = (\<lambda>(block, acct, _).
     if block_link block \<noteq> 0 \<and> is_epoch_link k (block_link block) then epoch_signer k (block_link block)
     else if acct \<noteq> 0 then Some acct
     else Some (block_account block))"

definition process_verified_state_block ::
  "crypto \<Rightarrow> ledger_constants \<Rightarrow> u64 \<Rightarrow> verification_item \<Rightarrow> bool \<Rightarrow> block_processor \<Rightarrow> block_processor" where
  "process_verified_state_block c k now = (\<lambda>(block, acct, verified) verification s.
     if block_link block \<noteq> 0 \<and> is_epoch_link k (block_link block) then
       s\<lparr>bp_blocks := bp_blocks s @
           [unchecked_info_new now block acct (if verification then sv_valid_epoch else sv_unknown)]\<rparr>
     else if verification then
       s\<lparr>bp_blocks := bp_blocks s @ [unchecked_info_new now block acct sv_valid]\<rparr>
     else requeue_invalid (generate_hash c block) (unchecked_info_new now block acct verified) s)"

fun verify_state_blocks ::
  "crypto \<Rightarrow> ledger_constants \<Rightarrow> u64 \<Rightarrow> verification_item list \<Rightarrow> block_processor \<Rightarrow> block_processor run" where
  "verify_state_blocks c k now [] s = Done s"
| "verify_state_blocks c k now (item # items) s =
     run_bind (run_of (verification_account k item)) (\<lambda>acct.
       verify_state_blocks c k now items
         (process_verified_state_block c k now item
            (\<not> validate_message c acct (generate_hash c (fst item)) (block_signature (fst item))) s))"

definition verification_turn ::
  "crypto \<Rightarrow> ledger_constants \<Rightarrow> u64 \<Rightarrow> nat \<Rightarrow> block_processor \<Rightarrow> block_processor run" where
  "verification_turn c k now max_count s =
     verify_state_blocks c k now (take max_count (bp_state_blocks s))
       (s\<lparr>bp_state_blocks := drop max_count (bp_state_blocks s)\<rparr>)"

section \<open>Unchecked blocks\<close>

definition unchecked_put :: "u256 \<Rightarrow> unchecked_info \<Rightarrow> block_processor \<Rightarrow> block_processor" where
  "unchecked_put dependency info s = s\<lparr>bp_buffer := bp_buffer s @ [U_insert dependency info]\<rparr>"

definition unchecked_trigger :: "u256 \<Rightarrow> block_processor \<Rightarrow> block_processor" where
  "unchecked_trigger dependency s = s\<lparr>bp_buffer := bp_buffer s @ [U_query dependency]\<rparr>"

text \<open>The bounds of the entries of a dependency, without an end when the next dependency wraps around.\<close>

definition equal_range :: "u256 \<Rightarrow> unchecked_key \<times> unchecked_key option" where
  "equal_range dependency =
     ((dependency, 0), if dependency < dependency + 1 then Some (dependency + 1, 0) else None)"

definition key_less :: "unchecked_key \<Rightarrow> unchecked_key \<Rightarrow> bool" where
  "key_less x y \<longleftrightarrow> fst x < fst y \<or> fst x = fst y \<and> snd x < snd y"

definition in_range :: "unchecked_key \<times> unchecked_key option \<Rightarrow> unchecked_key \<Rightarrow> bool" where
  "in_range bounds key \<longleftrightarrow>
     \<not> key_less key (fst bounds) \<and> (case snd bounds of None \<Rightarrow> True | Some n \<Rightarrow> key_less key n)"

lemma equal_range_dependency [simp]: "in_range (equal_range dependency) key \<longleftrightarrow> fst key = dependency"
proof -
  have "dependency < dependency + 1 \<Longrightarrow> x < dependency + 1 \<longleftrightarrow> x \<le> dependency" for x :: u256
    by (simp add: word_less_nat_alt word_le_nat_alt unat_word_ariths split: if_splits) (metis add.commute less_Suc_eq_le mod_less mod_Suc plus_1_eq_Suc unsigned_less not_less_zero)
  moreover have "\<not> dependency < dependency + 1 \<Longrightarrow> x \<le> dependency" for x :: u256
    using unsigned_less [of x, where 'a = nat] unsigned_less [of dependency, where 'a = nat]
    by (cases "unat dependency + 1 < 2 ^ 256") (auto simp: word_less_nat_alt word_le_nat_alt unat_word_ariths)
  ultimately show ?thesis
    by (auto simp: in_range_def equal_range_def key_less_def not_less intro: antisym)
qed

text \<open>The entries of a dependency in the order of the table.\<close>

definition unchecked_range :: "(unchecked_key \<rightharpoonup> unchecked_info) \<Rightarrow> u256 \<Rightarrow> unchecked_info list" where
  "unchecked_range m dependency =
     map (\<lambda>h. the (m (dependency, h)))
       (sorted_list_of_set {h. in_range (equal_range dependency) (dependency, h) \<and> m (dependency, h) \<noteq> None})"

definition unchecked_write ::
  "crypto \<Rightarrow> bool \<Rightarrow> u64 \<Rightarrow> unchecked_item \<Rightarrow> block_processor \<Rightarrow> block_processor" where
  "unchecked_write c disable_delete now item s =
     (case item of
        U_insert dependency info \<Rightarrow>
          s\<lparr>bp_unchecked := (bp_unchecked s)((dependency, generate_hash c (ui_block info)) \<mapsto>
              unchecked_info_new now (ui_block info) (ui_account info) (ui_verified info))\<rparr>
      | U_query dependency \<Rightarrow>
          let s' = fold processor_add (unchecked_range (bp_unchecked s) dependency) s
          in if disable_delete then s'
             else s'\<lparr>bp_unchecked := (\<lambda>key. if in_range (equal_range dependency) key then None else bp_unchecked s' key)\<rparr>)"

definition unchecked_turn :: "crypto \<Rightarrow> bool \<Rightarrow> u64 \<Rightarrow> block_processor \<Rightarrow> block_processor" where
  "unchecked_turn c disable_delete now s =
     fold (unchecked_write c disable_delete now) (bp_buffer s) (s\<lparr>bp_buffer := []\<rparr>)"

section \<open>Processing\<close>

definition queue_unchecked :: "u256 \<Rightarrow> block_processor \<Rightarrow> block_processor" where
  "queue_unchecked hash_or_account_a s =
     (let s = unchecked_trigger hash_or_account_a s
      in s\<lparr>bp_effects := bp_effects s @ [Ef_gap_erase hash_or_account_a]\<rparr>)"

definition add_event :: "bp_event \<Rightarrow> block_processor \<Rightarrow> block_processor" where
  "add_event e s = s\<lparr>bp_events := bp_events s @ [e]\<rparr>"

text \<open>A send of an epoch before the last may open the pending entry that an epoch block waits for.\<close>

definition opens_pending :: "block \<Rightarrow> block_sideband \<Rightarrow> bool" where
  "opens_pending block sb \<longleftrightarrow>
     block_type_of block = bt_send
     \<or> (block_type_of block = bt_state \<and> bd_is_send (sb_details sb) \<and> bd_epoch (sb_details sb) < epoch_max)"

definition process_progress ::
  "crypto \<Rightarrow> bp_env \<Rightarrow> unchecked_info \<Rightarrow> bool \<Rightarrow> block_sideband \<Rightarrow> block_processor \<Rightarrow> block_processor run" where
  "process_progress c v info_a forced_a sb s =
     (let block = ui_block info_a; hash = generate_hash c block in
      if ui_account info_a = 0 \<or> ui_account info_a = account_calculated (block, sb) then
        let s = (if be_recent v hash \<or> forced_a then add_event (Ev_process_live hash block) s else s);
            s = queue_unchecked hash s
        in Done (if opens_pending block sb
                 then queue_unchecked (if block_destination block = 0 then block_link block else block_destination block) s
                 else s)
      else Abort)"

definition process_one ::
  "crypto \<Rightarrow> ledger_constants \<Rightarrow> bp_env \<Rightarrow> unchecked_info \<Rightarrow> bool \<Rightarrow> block_processor \<Rightarrow> block_processor run" where
  "process_one c k v info_a forced_a s =
     (let block = ui_block info_a; hash = generate_hash c block in
      run_bind (run_of (process c k (be_times v) (bp_ledger s) block (ui_verified info_a))) (\<lambda>p.
        let s = s\<lparr>bp_ledger := p_ledger p\<rparr>; info = info_a\<lparr>ui_verified := p_verified p\<rparr>
        in case p_code p of
             pr_progress \<Rightarrow> run_bind (run_of (p_sideband p)) (\<lambda>sb. process_progress c v info_a forced_a sb s)
           | pr_gap_previous \<Rightarrow> Done (add_event (Ev_gap_add hash) (unchecked_put (block_previous block) info s))
           | pr_gap_source \<Rightarrow>
               run_bind (run_of (ledger_block_source (p_ledger p) block None)) (\<lambda>source.
                 Done (add_event (Ev_gap_add hash) (unchecked_put source info s)))
           | pr_gap_epoch_open_pending \<Rightarrow> Done (unchecked_put (block_account block) info s)
           | pr_bad_signature \<Rightarrow> Done (add_event (Ev_requeue_invalid hash info_a) s)
           | pr_fork \<Rightarrow> Done (add_event (Ev_active_publish block) s)
           | _ \<Rightarrow> Done s))"

text \<open>A forced block replaces the block of its root, with everything that depends on that.\<close>

definition erase_rolled_back ::
  "crypto \<Rightarrow> block_hash \<Rightarrow> rollback_list \<Rightarrow> block_processor \<Rightarrow> block_processor" where
  "erase_rolled_back c successor_hash list_a s =
     s\<lparr>bp_effects := bp_effects s @
         concat (map (\<lambda>i. Ef_history_erase (block_root (fst i)) #
                   (if generate_hash c (fst i) \<noteq> successor_hash then [Ef_active_erase (fst i)] else [])) list_a)\<rparr>"

definition force_rollback ::
  "crypto \<Rightarrow> ledger_constants \<Rightarrow> bp_env \<Rightarrow> block \<Rightarrow> block_processor \<Rightarrow> block_processor run" where
  "force_rollback c k v block s =
     (case ledger_successor (bp_ledger s) (block_qualified_root block) of
        None \<Rightarrow> Done s
      | Some successor \<Rightarrow>
          let successor_hash = generate_hash c (fst successor) in
          if successor_hash \<noteq> generate_hash c block then
            run_bind (rollback (be_steps v) c k (be_clock v) (bp_ledger s) successor_hash []) (\<lambda>(error, l, list_a).
              Done (erase_rolled_back c successor_hash list_a (s\<lparr>bp_ledger := l\<rparr>)))
          else Done s)"

text \<open>The next block, forced blocks first, and whether it is forced.\<close>

definition next_block :: "u64 \<Rightarrow> block_processor \<Rightarrow> (unchecked_info \<times> bool \<times> block_processor) option" where
  "next_block now s =
     (case bp_forced s of
        block # rest \<Rightarrow> Some (unchecked_info_new now block 0 sv_unknown, True, s\<lparr>bp_forced := rest\<rparr>)
      | [] \<Rightarrow>
          (case bp_blocks s of
             info # rest \<Rightarrow> Some (info, False, s\<lparr>bp_blocks := rest\<rparr>)
           | [] \<Rightarrow> None))"

definition prepare_forced ::
  "crypto \<Rightarrow> ledger_constants \<Rightarrow> bp_env \<Rightarrow> unchecked_info \<Rightarrow> bool \<Rightarrow> block_processor \<Rightarrow> block_processor run" where
  "prepare_forced c k v info force s = (if force then force_rollback c k v (ui_block info) s else Done s)"

definition process_next ::
  "crypto \<Rightarrow> ledger_constants \<Rightarrow> bp_env \<Rightarrow> block_processor \<Rightarrow> block_processor run" where
  "process_next c k v s =
     (case next_block (be_seconds v) s of
        None \<Rightarrow> Done s
      | Some (info, force, s) \<Rightarrow>
          run_bind (prepare_forced c k v info force s) (\<lambda>s. process_one c k v info force s))"

text \<open>
  A batch: the environments are those of the blocks the batch gets to before its time or its size is
  reached; the events run at the end.
\<close>

fun process_blocks :: "crypto \<Rightarrow> ledger_constants \<Rightarrow> bp_env list \<Rightarrow> block_processor \<Rightarrow> block_processor run" where
  "process_blocks c k [] s = Done s"
| "process_blocks c k (v # vs) s =
     (if have_blocks_ready s then run_bind (process_next c k v s) (process_blocks c k vs) else Done s)"

definition process_batch ::
  "crypto \<Rightarrow> ledger_constants \<Rightarrow> bp_env list \<Rightarrow> block_processor \<Rightarrow> (bp_event list \<times> block_processor) run" where
  "process_batch c k vs s =
     run_bind (process_blocks c k vs s) (\<lambda>s. Done (bp_events s, s\<lparr>bp_events := []\<rparr>))"

end
