(* ===== verification/Block_Signed.thy ===== *)
theory Block_Signed
  imports Block_Processor Ledger_Reach
begin

declare split_paired_All [simp del] split_paired_Ex [simp del]

text \<open>
  Signatures.  The ledger trusts the tag that comes with a block; the tag is made by the check of signatures in
  batches, by the ledger itself when a block has a gap, and is stored with the block in the unchecked
  table.  The theorem at the end says that it can be trusted: every block that a node has accepted is signed by
  its account or, for an epoch block, by the signer of the epoch.
\<close>

section \<open>What the ledger checks\<close>

definition signed_by :: "crypto \<Rightarrow> block \<Rightarrow> account \<Rightarrow> bool" where
  "signed_by c b a \<longleftrightarrow> \<not> validate_message c a (generate_hash c b) (block_signature b)"

definition epoch_signed :: "crypto \<Rightarrow> ledger_constants \<Rightarrow> block \<Rightarrow> bool" where
  "epoch_signed c k b \<longleftrightarrow>
     is_epoch_link k (block_link b) \<and> (\<exists>s. epoch_signer k (block_link b) = Some s \<and> signed_by c b s)"

text \<open>The account whose signature the ledger asks for.\<close>

definition owner_in :: "ledger \<Rightarrow> block \<Rightarrow> account" where
  "owner_in l b =
     (case b of Open _ \<Rightarrow> block_account b | State _ \<Rightarrow> block_account b
      | _ \<Rightarrow> store_frontier_get l (block_previous b))"

definition own_account :: "block \<Rightarrow> bool" where
  "own_account b \<longleftrightarrow> block_type_of b \<in> {bt_open, bt_state}"

definition tag_made :: "crypto \<Rightarrow> ledger_constants \<Rightarrow> ledger \<Rightarrow> block \<Rightarrow> signature_verification \<Rightarrow> signature_verification \<Rightarrow> bool" where
  "tag_made c k l b v v' \<longleftrightarrow>
     v' = v \<or> v' = sv_invalid \<or> (v' = sv_valid \<and> signed_by c b (owner_in l b) \<and> (\<not> own_account b \<longrightarrow> owner_in l b \<noteq> 0))
     \<or> (v' = sv_valid_epoch \<and> epoch_signed c k b)"

definition entry_signed :: "crypto \<Rightarrow> ledger_constants \<Rightarrow> ledger \<Rightarrow> block \<Rightarrow> signature_verification \<Rightarrow> block_sideband option \<Rightarrow> bool" where
  "entry_signed c k l b v sb \<longleftrightarrow>
     (\<exists>s. sb = Some s \<and> account_calculated (b, s) = owner_in l b \<and> owner_in l b \<noteq> 0) \<and>
     (v = sv_valid \<or> signed_by c b (owner_in l b) \<or> epoch_signed c k b
      \<or> v = sv_valid_epoch \<and> is_epoch_link k (block_link b))"

lemma legacy_tag:
  "process_send c k now bs p = Some q \<Longrightarrow> tag_made c k (p_ledger p) (Send bs) (p_verified p) (p_verified q)"
  "process_change c k now bc p = Some q \<Longrightarrow> tag_made c k (p_ledger p) (Change bc) (p_verified p) (p_verified q)"
  "process_receive c k now br p = Some q \<Longrightarrow> tag_made c k (p_ledger p) (Receive br) (p_verified p) (p_verified q)"
  "process_open c k now bo p = Some q \<Longrightarrow> tag_made c k (p_ledger p) (Open bo) (p_verified p) (p_verified q)"
  by (auto simp: process_send_def process_change_def process_receive_def process_open_def Let_def bind_eq_Some
      tag_made_def owner_in_def own_account_def signed_by_def split: if_splits option.splits)

lemma entry_signedI:
  assumes "\<exists>s. sb = Some s \<and> sb_account s = owner_in l b" "block_account b = 0 \<or> block_account b = owner_in l b" "owner_in l b \<noteq> 0"
    and "v = sv_valid \<or> signed_by c b (owner_in l b) \<or> epoch_signed c k b \<or> v = sv_valid_epoch \<and> is_epoch_link k (block_link b)"
  shows "entry_signed c k l b v sb"
  using assms by (auto simp: entry_signed_def account_calculated_def Let_def)

lemma legacy_entry:
  assumes "p_code q = pr_progress"
  shows "process_send c k now bs p = Some q \<Longrightarrow> entry_signed c k (p_ledger p) (Send bs) (p_verified p) (p_sideband q)"
    and "process_change c k now bc p = Some q \<Longrightarrow> entry_signed c k (p_ledger p) (Change bc) (p_verified p) (p_sideband q)"
    and "process_receive c k now br p = Some q \<Longrightarrow> entry_signed c k (p_ledger p) (Receive br) (p_verified p) (p_sideband q)"
    and "process_open c k now bo p = Some q \<Longrightarrow> constants_ok k \<Longrightarrow>
      entry_signed c k (p_ledger p) (Open bo) (p_verified p) (p_sideband q)"
     apply (rule entry_signedI; clarsimp simp: process_send_def Let_def progress_rules assms owner_in_def signed_by_def)
    apply (rule entry_signedI; clarsimp simp: process_change_def Let_def progress_rules assms owner_in_def signed_by_def)
   apply (rule entry_signedI; clarsimp simp: process_receive_def Let_def progress_rules assms owner_in_def signed_by_def)
  apply (rule entry_signedI; clarsimp simp: process_open_def Let_def progress_rules assms owner_in_def signed_by_def constants_ok_def)
  done

lemma state_commit_tag:
  assumes "state_block_commit c k now b p info e se is_send is_receive amt = Some q"
  shows "p_verified q = p_verified p \<and>
    (p_code q = pr_progress \<longrightarrow> (\<exists>s. p_sideband q = Some s \<and> sb_account s = state_account (state_h b)))"
  using assms
  by (cases "work_sufficient c k (State b) \<lparr>bd_epoch = e, bd_is_send = is_send, bd_is_receive = is_receive, bd_is_epoch = False\<rparr>")
     (auto simp: state_block_commit_def Let_def bind_eq_Some)

lemma state_source_tag:
  assumes "state_block_source c k now b p info e is_send is_receive amt = Some q"
  shows "p_verified q = p_verified p \<and>
    (p_code q = pr_progress \<longrightarrow> (\<exists>s. p_sideband q = Some s \<and> sb_account s = state_account (state_h b)))"
  using assms
  by (auto simp: state_block_source_def Let_def dest!: state_commit_tag split: if_splits option.splits)

lemma state_impl_tag:
  assumes "state_block_impl c k now b p = Some q"
  shows "p_verified q = p_verified p \<or> p_verified q = sv_valid \<and> signed_by c (State b) (state_account (state_h b))"
  using assms
  by (auto simp: state_block_impl_def Let_def signed_by_def dest!: state_source_tag split: if_splits option.splits)

lemma state_impl_entry:
  assumes "state_block_impl c k now b p = Some q" and "p_code q = pr_progress"
  shows "entry_signed c k l (State b) (p_verified p) (p_sideband q)"
proof -
  have v: "p_verified p = sv_valid \<or> signed_by c (State b) (state_account (state_h b))" "state_account (state_h b) \<noteq> 0"
    using assms(1) by (auto simp: state_block_impl_def Let_def progress_if [OF assms(2)] signed_by_def)
  have "\<exists>s. p_sideband q = Some s \<and> sb_account s = state_account (state_h b)"
    using assms
    by (cases "store_account_get (p_ledger p) (state_account (state_h b))")
       (auto simp: state_block_impl_def Let_def progress_if [OF assms(2)] dest!: state_source_tag)
  then show ?thesis using v by (intro entry_signedI) (auto simp: owner_in_def)
qed

lemma epoch_commit_tag:
  assumes "epoch_block_commit c k now b p err info = Some q"
  shows "p_verified q = p_verified p \<and>
    (p_code q = pr_progress \<longrightarrow> (\<exists>s. p_sideband q = Some s \<and> sb_account s = state_account (state_h b)))"
  using assms by (auto simp: epoch_block_commit_def Let_def bind_eq_Some split: if_splits)

lemma epoch_impl_tag:
  assumes "epoch_block_impl c k now b p = Some q" and "is_epoch_link k (state_link (state_h b))"
  shows "p_verified q = p_verified p \<or> p_verified q = sv_valid_epoch \<and> epoch_signed c k (State b)"
proof (cases "p_verified p = sv_valid_epoch \<or> epoch_signed c k (State b)")
  case True
  then show ?thesis using assms(1)
    by (auto simp: epoch_block_impl_def Let_def bind_eq_Some dest!: epoch_commit_tag split: if_splits option.splits)
next
  case False
  then show ?thesis using assms
    by (cases "block_or_pruned_exists (p_ledger p) (generate_hash c (State b))"; cases "epoch_signer k (state_link (state_h b))")
       (auto simp: epoch_block_impl_def Let_def epoch_signed_def signed_by_def)
qed

lemma epoch_impl_entry:
  assumes "epoch_block_impl c k now b p = Some q" and "is_epoch_link k (state_link (state_h b))" and "p_code q = pr_progress"
  shows "entry_signed c k l (State b) (p_verified p) (p_sideband q)"
proof -
  have v: "p_verified p = sv_valid_epoch \<or> epoch_signed c k (State b)" "state_account (state_h b) \<noteq> 0"
    using assms(1,2)
    by (auto simp: epoch_block_impl_def Let_def progress_if [OF assms(3)] signed_by_def bind_eq_Some epoch_signed_def
        split: if_splits)
  have "\<exists>s. p_sideband q = Some s \<and> sb_account s = state_account (state_h b)"
    using assms
    by (cases "store_account_get (p_ledger p) (state_account (state_h b))")
       (auto simp: epoch_block_impl_def Let_def progress_if [OF assms(3)] bind_eq_Some dest!: epoch_commit_tag)
  then show ?thesis using v assms(2) by (intro entry_signedI) (auto simp: owner_in_def)
qed

lemma validate_epoch_tag:
  assumes "validate_epoch_block c k b p = Some (is_epoch, q)" and "is_epoch_link k (state_link (state_h b))"
  shows "p_verified q = p_verified p \<or> p_verified q = sv_invalid
      \<or> p_verified q = sv_valid \<and> signed_by c (State b) (state_account (state_h b))
      \<or> p_verified q = sv_valid_epoch \<and> epoch_signed c k (State b)"
    and "p_code p = pr_progress \<Longrightarrow> p_code q = pr_progress \<Longrightarrow> p_verified q = p_verified p"
proof -
  let ?h = "generate_hash c (State b)" and ?s = "state_signature b" and ?prev = "state_previous (state_h b)"
  have "(p_verified q = p_verified p \<or> p_verified q = sv_invalid
      \<or> p_verified q = sv_valid \<and> signed_by c (State b) (state_account (state_h b))
      \<or> p_verified q = sv_valid_epoch \<and> epoch_signed c k (State b))
    \<and> (p_code p = pr_progress \<and> p_code q = pr_progress \<longrightarrow> p_verified q = p_verified p)"
  proof (cases "?prev \<noteq> 0 \<and> \<not> block_exists (blocks_of (p_ledger p)) ?prev \<and> p_verified p = sv_unknown
        \<and> validate_message c (state_account (state_h b)) ?h ?s")
    case True
    then show ?thesis
      using assms
      by (cases "epoch_signer k (state_link (state_h b))"; cases "validate_message c (the (epoch_signer k (state_link (state_h b)))) ?h ?s")
         (auto simp: validate_epoch_block_def Let_def signed_by_def epoch_signed_def)
  next
    case False
    then show ?thesis
      using assms(1)
      by (cases "?prev = 0"; cases "block_exists (blocks_of (p_ledger p)) ?prev"; cases "p_verified p = sv_unknown")
         (auto simp: validate_epoch_block_def Let_def bind_eq_Some signed_by_def)
  qed
  then show "p_verified q = p_verified p \<or> p_verified q = sv_invalid
      \<or> p_verified q = sv_valid \<and> signed_by c (State b) (state_account (state_h b))
      \<or> p_verified q = sv_valid_epoch \<and> epoch_signed c k (State b)"
    and "p_code p = pr_progress \<Longrightarrow> p_code q = pr_progress \<Longrightarrow> p_verified q = p_verified p" by blast+
qed

lemma process_state_tag:
  assumes "process_state c k now b p = Some q"
  shows "tag_made c k (p_ledger p) (State b) (p_verified p) (p_verified q)"
    and "p_code q = pr_progress \<Longrightarrow> entry_signed c k (p_ledger p) (State b) (p_verified p) (p_sideband q)"
proof -
  let ?p = "p\<lparr>p_code := pr_progress\<rparr>" and ?ep = "is_epoch_link k (state_link (state_h b))"
  obtain ep r where r: "(if ?ep then validate_epoch_block c k b ?p else Some (False, ?p)) = Some (ep, r)"
    and q: "(if p_code r = pr_progress then if ep then epoch_block_impl c k now b r else state_block_impl c k now b r
             else Some r) = Some q"
    using assms by (auto simp: process_state_def Let_def bind_eq_Some split: prod.splits)
  have ve: "p_verified r = p_verified p \<or> p_verified r = sv_invalid
      \<or> p_verified r = sv_valid \<and> signed_by c (State b) (state_account (state_h b))
      \<or> p_verified r = sv_valid_epoch \<and> epoch_signed c k (State b)"
    using r validate_epoch_tag(1) [of c k b ?p ep r] by (auto split: if_splits)
  have vp: "p_code r = pr_progress \<Longrightarrow> p_verified r = p_verified p"
    using r validate_epoch_tag(2) [of c k b ?p ep r] by (auto split: if_splits)
  have ep: "ep \<Longrightarrow> ?ep" using r by (auto split: if_splits)
  show "tag_made c k (p_ledger p) (State b) (p_verified p) (p_verified q)"
    using q ve vp ep epoch_impl_tag [of c k now b r q] state_impl_tag [of c k now b r q]
    by (auto simp: tag_made_def owner_in_def own_account_def split: if_splits)
  show "p_code q = pr_progress \<Longrightarrow> entry_signed c k (p_ledger p) (State b) (p_verified p) (p_sideband q)"
    using q vp ep epoch_impl_entry [of c k now b r q] state_impl_entry [of c k now b r q]
    by (auto split: if_splits)
qed

lemma process_tag:
  assumes "process c k now l b v = Some p"
  shows "tag_made c k l b v (p_verified p)"
    and "p_code p = pr_progress \<Longrightarrow> constants_ok k \<Longrightarrow> entry_signed c k l b v (p_sideband p)"
proof -
  obtain q where q: "process_visit c k now b (ledger_processor l v) = Some q"
    and p: "p_verified p = p_verified q" "p_code p = p_code q" "p_sideband p = p_sideband q"
    using assms by (auto simp: process_def bind_eq_Some split: if_splits)
  have s: "p_ledger (ledger_processor l v) = l" "p_verified (ledger_processor l v) = v"
    by (simp_all add: ledger_processor_def)
  show "tag_made c k l b v (p_verified p)"
    using q legacy_tag [of c k now _ "ledger_processor l v" q] process_state_tag(1) [of c k now _ "ledger_processor l v" q]
    unfolding p s by (cases b) auto
  show "p_code p = pr_progress \<Longrightarrow> constants_ok k \<Longrightarrow> entry_signed c k l b v (p_sideband p)"
    using q legacy_entry [of q c k now _ "ledger_processor l v"] process_state_tag(2) [of c k now _ "ledger_processor l v" q]
    unfolding p s by (cases b) auto
qed

section \<open>The nodes that accept blocks\<close>

text \<open>
  The accepted blocks of the past with their accounts.  Blocks come from the network with any account and
  without a tag; winners of elections are forced; cementing is done by another thread.  Nothing is asked of a block
  that the ledger refuses.  A block that it accepts is \<open>admissible\<close>, and its hash is not that of a block at
  another place that was accepted before.
\<close>

definition accepts :: "crypto \<Rightarrow> ledger_constants \<Rightarrow> u64 \<times> u64 \<Rightarrow> ledger \<Rightarrow> unchecked_info \<Rightarrow> bool" where
  "accepts c k now l info \<longleftrightarrow>
     (case process c k now l (ui_block info) (ui_verified info) of None \<Rightarrow> False | Some p \<Rightarrow> p_code p = pr_progress)"

type_synonym seen = "block_hash \<rightharpoonup> block \<times> account"

definition seen_after :: "crypto \<Rightarrow> block \<Rightarrow> ledger \<Rightarrow> seen \<Rightarrow> seen" where
  "seen_after c b l seen =
     (case blocks_of l (generate_hash c b) of
        None \<Rightarrow> seen
      | Some e \<Rightarrow> if seen (generate_hash c b) = None then seen(generate_hash c b \<mapsto> (b, account_calculated e)) else seen)"

text \<open>
  What the hash of a block must determine: its place in a chain.  Signature and work are not part of the hash, and
  a receive and a change block may have one hash.
\<close>

definition same_place :: "block \<Rightarrow> block \<Rightarrow> bool" where
  "same_place b b' \<longleftrightarrow>
     own_account b = own_account b' \<and> block_previous b = block_previous b' \<and> block_account b = block_account b'"

definition no_collision :: "crypto \<Rightarrow> seen \<Rightarrow> block \<Rightarrow> bool" where
  "no_collision c seen b \<longleftrightarrow> (case seen (generate_hash c b) of None \<Rightarrow> True | Some (b', a) \<Rightarrow> same_place b' b)"

definition processor_new :: "ledger \<Rightarrow> block_processor" where
  "processor_new l =
     \<lparr>bp_blocks = [], bp_forced = [], bp_state_blocks = [], bp_buffer = [], bp_unchecked = Map.empty, bp_ledger = l,
      bp_events = [], bp_effects = []\<rparr>"

inductive bp_reach :: "crypto \<Rightarrow> ledger_constants \<Rightarrow> seen \<Rightarrow> block_processor \<Rightarrow> bool" for c k where
  br_start: "genesis_block_ok c k \<Longrightarrow> store_initialize c k now empty_ledger = Some l \<Longrightarrow>
    bp_reach c k [genesis_hash c k \<mapsto> (k_genesis k, block_account (k_genesis k))] (processor_new l)"
| br_add: "bp_reach c k seen s \<Longrightarrow> bp_reach c k seen (processor_add (unchecked_info_new now b a sv_unknown) s)"
| br_add_local: "bp_reach c k seen s \<Longrightarrow> processor_add_local info s = Done s' \<Longrightarrow> bp_reach c k seen s'"
| br_force: "bp_reach c k seen s \<Longrightarrow> bp_reach c k seen (processor_force b s)"
| br_verify: "bp_reach c k seen s \<Longrightarrow> verification_turn c k now n s = Done s' \<Longrightarrow> bp_reach c k seen s'"
| br_unchecked: "bp_reach c k seen s \<Longrightarrow> bp_reach c k seen (unchecked_turn c d now s)"
| br_process: "bp_reach c k seen s \<Longrightarrow> next_block (be_seconds v) s = Some (info, force, s1) \<Longrightarrow>
    prepare_forced c k v info force s1 = Done s2 \<Longrightarrow> process_one c k v info force s2 = Done s' \<Longrightarrow>
    (accepts c k (be_times v) (bp_ledger s2) info \<longrightarrow>
       admissible c k (bp_ledger s2) (ui_block info) \<and> no_collision c seen (ui_block info)) \<Longrightarrow>
    bp_reach c k (seen_after c (ui_block info) (bp_ledger s') seen) s'"
| br_cement: "bp_reach c k seen s \<Longrightarrow> writes_ok c k (bp_ledger s) ps \<Longrightarrow>
    cement_blocks cache (bp_ledger s) ps = Some (l, bs) \<Longrightarrow> bp_reach c k seen (s\<lparr>bp_ledger := l\<rparr>)"
| br_events: "bp_reach c k seen s \<Longrightarrow> bp_reach c k seen (s\<lparr>bp_events := [], bp_effects := []\<rparr>)"

section \<open>Tags\<close>

definition tag_ok :: "crypto \<Rightarrow> ledger_constants \<Rightarrow> seen \<Rightarrow> block \<Rightarrow> account \<Rightarrow> signature_verification \<Rightarrow> bool" where
  "tag_ok c k seen b a v \<longleftrightarrow>
     (v = sv_valid \<longrightarrow>
        a \<noteq> 0 \<and> signed_by c b a
        \<or> own_account b \<and> signed_by c b (block_account b)
        \<or> \<not> own_account b \<and> (\<exists>b' owner. seen (block_previous b) = Some (b', owner) \<and> signed_by c b owner))
     \<and> (v = sv_valid_epoch \<longrightarrow> epoch_signed c k b)"

abbreviation info_ok :: "crypto \<Rightarrow> ledger_constants \<Rightarrow> seen \<Rightarrow> unchecked_info \<Rightarrow> bool" where
  "info_ok c k seen i \<equiv> tag_ok c k seen (ui_block i) (ui_account i) (ui_verified i)"

definition item_ok :: "crypto \<Rightarrow> ledger_constants \<Rightarrow> seen \<Rightarrow> unchecked_item \<Rightarrow> bool" where
  "item_ok c k seen item \<longleftrightarrow> (case item of U_insert d i \<Rightarrow> info_ok c k seen i | U_query d \<Rightarrow> True)"

definition tags_ok :: "crypto \<Rightarrow> ledger_constants \<Rightarrow> seen \<Rightarrow> block_processor \<Rightarrow> bool" where
  "tags_ok c k seen s \<longleftrightarrow>
     (\<forall>i \<in> set (bp_blocks s). info_ok c k seen i) \<and> (\<forall>i \<in> ran (bp_unchecked s). info_ok c k seen i)
     \<and> (\<forall>item \<in> set (bp_buffer s). item_ok c k seen item)
     \<and> (\<forall>item \<in> set (bp_state_blocks s). own_account (fst item) \<or> fst (snd item) \<noteq> 0)"

lemma sv_distinct [simp]: "sv_unknown \<noteq> sv_valid" "sv_unknown \<noteq> sv_valid_epoch" "sv_valid \<noteq> sv_valid_epoch"
  "sv_invalid \<noteq> sv_valid" "sv_invalid \<noteq> sv_valid_epoch"
  "sv_valid \<noteq> sv_unknown" "sv_valid_epoch \<noteq> sv_unknown" "sv_valid_epoch \<noteq> sv_valid" "sv_valid \<noteq> sv_invalid"
  "sv_valid_epoch \<noteq> sv_invalid"
  by (simp_all add: sv_defs)

lemma unchecked_info_new_fields [simp]:
  "ui_block (unchecked_info_new now b a v) = b" "ui_account (unchecked_info_new now b a v) = a"
  "ui_verified (unchecked_info_new now b a v) = v"
  by (simp_all add: unchecked_info_new_def)

lemma tag_ok_unknown [simp]: "tag_ok c k seen b a sv_unknown" "tag_ok c k seen b a sv_invalid"
  by (simp_all add: tag_ok_def)

lemma tag_ok_mono: "tag_ok c k seen b a v \<Longrightarrow> seen \<subseteq>\<^sub>m seen' \<Longrightarrow> tag_ok c k seen' b a v"
  by (auto simp: tag_ok_def map_le_def dom_def)

lemma tags_ok_mono:
  assumes "tags_ok c k seen s" and "seen \<subseteq>\<^sub>m seen'"
  shows "tags_ok c k seen' s"
proof -
  have "item_ok c k seen item \<Longrightarrow> item_ok c k seen' item" for item
    by (cases item) (auto simp: item_ok_def intro: tag_ok_mono [OF _ assms(2)])
  then show ?thesis using assms by (auto simp: tags_ok_def intro: tag_ok_mono [OF _ assms(2)])
qed

lemma processor_add_fields [simp]:
  "bp_ledger (processor_add i s) = bp_ledger s" "bp_unchecked (processor_add i s) = bp_unchecked s"
  "bp_buffer (processor_add i s) = bp_buffer s" "bp_forced (processor_add i s) = bp_forced s"
  by (simp_all add: processor_add_def Let_def)

lemma processor_add_blocks: "set (bp_blocks (processor_add i s)) \<subseteq> insert i (set (bp_blocks s))"
  by (simp add: processor_add_def Let_def) blast

lemma processor_add_tags: "tags_ok c k seen s \<Longrightarrow> info_ok c k seen i \<Longrightarrow> tags_ok c k seen (processor_add i s)"
  using processor_add_blocks [of i s]
  by (auto simp: tags_ok_def) (auto simp: processor_add_def Let_def own_account_def split: if_splits)

lemma fold_add_tags:
  "tags_ok c k seen s \<Longrightarrow> \<forall>i \<in> set is. info_ok c k seen i \<Longrightarrow> tags_ok c k seen (fold processor_add is s)"
  by (induction "is" arbitrary: s) (simp_all add: processor_add_tags)

lemma fold_add_fields [simp]:
  "bp_ledger (fold processor_add is s) = bp_ledger s" "bp_unchecked (fold processor_add is s) = bp_unchecked s"
  by (induction "is" arbitrary: s) simp_all

section \<open>The invariant\<close>

definition ledger_seen :: "seen \<Rightarrow> ledger \<Rightarrow> bool" where
  "ledger_seen seen l \<longleftrightarrow> 
     (\<forall>h e. blocks_of l h = Some e \<longrightarrow> (\<exists>b. seen h = Some (b, account_calculated e) \<and> same_place b (fst e)))"

definition seen_ok :: "seen \<Rightarrow> bool" where
  "seen_ok seen \<longleftrightarrow>
     (\<forall>h b a. seen h = Some (b, a) \<longrightarrow>
        (if own_account b then a = block_account b else \<exists>b'. seen (block_previous b) = Some (b', a)))"

definition ledger_signed :: "crypto \<Rightarrow> ledger_constants \<Rightarrow> ledger \<Rightarrow> bool" where
  "ledger_signed c k l \<longleftrightarrow>
     (\<forall>h e. blocks_of l h = Some e \<and> h \<noteq> genesis_hash c k \<longrightarrow>
        signed_by c (fst e) (account_calculated e) \<or> epoch_signed c k (fst e))"

definition bp_inv :: "crypto \<Rightarrow> ledger_constants \<Rightarrow> seen \<Rightarrow> block_processor \<Rightarrow> bool" where
  "bp_inv c k seen s \<longleftrightarrow>
     reachable c k (bp_ledger s) \<and> ledger_seen seen (bp_ledger s) \<and> seen_ok seen \<and> ledger_signed c k (bp_ledger s) \<and>
     tags_ok c k seen s"

lemma bp_inv_queues:
  "bp_inv c k seen s \<Longrightarrow> bp_ledger s' = bp_ledger s \<Longrightarrow> tags_ok c k seen s' \<Longrightarrow> bp_inv c k seen s'"
  by (simp add: bp_inv_def)

lemma account_successor [simp]: "account_calculated (b, s\<lparr>sb_successor := h\<rparr>) = account_calculated (b, s)"
  by (simp add: account_calculated_def Let_def)

lemma account_view [simp]: "account_calculated (entry_view e) = account_calculated e"
  by (simp add: entry_view_def)

lemma view_account: "bview m h = bview m' h \<Longrightarrow> m h = Some e \<Longrightarrow> \<exists>e'. m' h = Some e' \<and> fst e' = fst e \<and> account_calculated e' = account_calculated e"
  by (cases "m' h") (auto simp: bview_def dest: arg_cong [where f = account_calculated], auto simp: entry_view_def)

lemma ledger_seenD:
  "ledger_seen seen l \<Longrightarrow> blocks_of l h = Some e \<Longrightarrow>
    \<exists>b. seen h = Some (b, account_calculated e) \<and> same_place b (fst e)"
  unfolding ledger_seen_def by blast

lemma ledger_signedD:
  "ledger_signed c k l \<Longrightarrow> blocks_of l h = Some e \<Longrightarrow> h \<noteq> genesis_hash c k \<Longrightarrow>
    signed_by c (fst e) (account_calculated e) \<or> epoch_signed c k (fst e)"
  unfolding ledger_signed_def by blast

lemma ledger_seen_view:
  assumes "\<And>x. blocks_of l' x \<noteq> None \<Longrightarrow> bview (blocks_of l') x = bview (blocks_of l) x"
  shows "ledger_seen seen l \<Longrightarrow> ledger_seen seen l'" and "ledger_signed c k l \<Longrightarrow> ledger_signed c k l'"
proof -
  have v: "\<exists>e'. blocks_of l h = Some e' \<and> fst e' = fst e \<and> account_calculated e' = account_calculated e"
    if "blocks_of l' h = Some e" for h e
    using view_account [OF assms [of h] that] that by simp
  show "ledger_seen seen l \<Longrightarrow> ledger_seen seen l'" "ledger_signed c k l \<Longrightarrow> ledger_signed c k l'"
    unfolding ledger_seen_def ledger_signed_def using v by metis+
qed

text \<open>The account of an accepted block is the one whose signature was asked for.\<close>

lemma accepted_owner:
  assumes inv: "ledger_inv c k rk rp T l" and inv': "ledger_inv c k rk' rp' T l'"
    and acc: "accepted c k l l' h e a new" and o: "owner_in l (fst e) \<noteq> 0"
  shows "account_calculated e = owner_in l (fst e)"
proof (cases "own_account (fst e)")
  case True
  then show ?thesis using o by (cases "fst e") (auto simp: owner_in_def own_account_def account_calculated_def)
next
  case False
  let ?p = "block_previous (fst e)"
  from acc have g: "grow_at (blocks_of l) h e" "blocks_of l' = grow (blocks_of l) h e"
    by (simp_all add: accepted_def grows_def)
  then have e: "blocks_of l' h = Some e" by (simp add: grow_apply)
  from links_okD [OF ledger_invD(3) [OF inv'] e] False obtain p where
    p: "blocks_of l' ?p = Some p" "account_calculated p = account_calculated e" "?p \<noteq> 0"
    by (auto simp: link_ok_def follows_def own_account_def split: if_splits)
  have "?p \<noteq> h" using g(1) by (simp add: grow_at_def)
  with p g obtain q where q: "blocks_of l ?p = Some q" "account_calculated q = account_calculated p"
    by (auto simp: grow_apply [OF g(1)] with_successor_def)
  from False o have f: "frontiers_of l ?p = Some (owner_in l (fst e))"
    by (cases "fst e"; cases "frontiers_of l ?p") (auto simp: owner_in_def own_account_def store_frontier_get_def)
  with ledger_invD(7) [OF inv] obtain i where "accounts_of l (owner_in l (fst e)) = Some i" "ai_head i = ?p"
    by (auto simp: frontiers_ok_def)
  with heads_okD [OF ledger_invD(5) [OF inv]] q have "account_calculated q = owner_in l (fst e)"
    by (fastforce simp: head_ok_def)
  with p q show ?thesis by simp
qed

lemma frontier_seen:
  assumes inv: "ledger_inv c k rk rp T l" and ls: "ledger_seen seen l" and "store_frontier_get l h \<noteq> 0"
  shows "\<exists>b. seen h = Some (b, store_frontier_get l h)"
proof -
  from assms(3) have f: "frontiers_of l h = Some (store_frontier_get l h)"
    by (cases "frontiers_of l h") (auto simp: store_frontier_get_def)
  with ledger_invD(7) [OF inv] obtain i where i: "accounts_of l (store_frontier_get l h) = Some i" "ai_head i = h"
    by (auto simp: frontiers_ok_def)
  with heads_okD [OF ledger_invD(5) [OF inv]] obtain e where "blocks_of l h = Some e"
    "account_calculated e = store_frontier_get l h" by (fastforce simp: head_ok_def)
  with ledger_seenD [OF ls] show ?thesis by fastforce
qed

lemma tag_made_ok:
  assumes inv: "ledger_inv c k rk rp T l" and ls: "ledger_seen seen l"
    and t: "tag_made c k l b v v'" and "tag_ok c k seen b a v"
  shows "tag_ok c k seen b a v'"
proof -
  have "\<exists>b' owner. seen (block_previous b) = Some (b', owner) \<and> signed_by c b owner"
    if "\<not> own_account b" "owner_in l b \<noteq> 0" "signed_by c b (owner_in l b)"
    using that frontier_seen [OF inv ls, of "block_previous b"]
    by (cases b) (auto simp: owner_in_def own_account_def)
  moreover have "own_account b \<Longrightarrow> owner_in l b = block_account b"
    by (cases b) (auto simp: owner_in_def own_account_def)
  ultimately have "tag_ok c k seen b a sv_valid" if "signed_by c b (owner_in l b)" "\<not> own_account b \<longrightarrow> owner_in l b \<noteq> 0"
    using that by (cases "own_account b") (simp_all add: tag_ok_def)
  moreover have "epoch_signed c k b \<Longrightarrow> tag_ok c k seen b a sv_valid_epoch"
    by (simp add: tag_ok_def)
  ultimately show ?thesis
    using t assms(4) unfolding tag_made_def by (elim disjE conjE) simp_all
qed

section \<open>The turns of the threads\<close>

declare run_of_Done [simp]

lemma verified_tags:
  assumes "tags_ok c k seen s" and "verification_account k (b, a, v) = Some acct" and "own_account b \<or> a \<noteq> 0"
  shows "tags_ok c k seen (process_verified_state_block c k now (b, a, v)
      (\<not> validate_message c acct (generate_hash c b) (block_signature b)) s)"
proof -
  have "tag_ok c k seen b a sv_valid_epoch" if "block_link b \<noteq> 0 \<and> is_epoch_link k (block_link b)" "signed_by c b acct"
    using that assms(2) by (simp add: tag_ok_def epoch_signed_def verification_account_def)
  moreover have "tag_ok c k seen b a sv_valid" if "\<not> (block_link b \<noteq> 0 \<and> is_epoch_link k (block_link b))" "signed_by c b acct"
    using that assms(2,3) by (auto simp: tag_ok_def verification_account_def split: if_splits)
  ultimately show ?thesis
    using assms(1)
    by (auto simp: process_verified_state_block_def tags_ok_def requeue_invalid_def signed_by_def)
qed

lemma verify_tags:
  "verify_state_blocks c k now items s = Done s' \<Longrightarrow> tags_ok c k seen s \<Longrightarrow>
     \<forall>item \<in> set items. own_account (fst item) \<or> fst (snd item) \<noteq> 0 \<Longrightarrow>
     tags_ok c k seen s' \<and> bp_ledger s' = bp_ledger s"
proof (induction items arbitrary: s)
  case (Cons item items)
  obtain b a v where item: "item = (b, a, v)" by (cases item)
  from Cons.prems(1) obtain acct where acct: "verification_account k item = Some acct"
    and run: "verify_state_blocks c k now items (process_verified_state_block c k now item
      (\<not> validate_message c acct (generate_hash c b) (block_signature b)) s) = Done s'"
    by (auto simp: run_bind_Done item)
  have "bp_ledger (process_verified_state_block c k now item x s) = bp_ledger s" for x
    by (simp add: process_verified_state_block_def requeue_invalid_def item)
  moreover have "tags_ok c k seen (process_verified_state_block c k now item
      (\<not> validate_message c acct (generate_hash c b) (block_signature b)) s)"
    using verified_tags [OF Cons.prems(2)] acct Cons.prems(3) by (simp add: item)
  ultimately show ?case using Cons.IH [OF run] Cons.prems(3) by simp
qed simp

lemma verification_turn_inv:
  assumes "bp_inv c k seen s" and "verification_turn c k now n s = Done s'"
  shows "bp_inv c k seen s'"
proof -
  let ?s = "s\<lparr>bp_state_blocks := drop n (bp_state_blocks s)\<rparr>"
  have t: "tags_ok c k seen ?s" "\<forall>item \<in> set (take n (bp_state_blocks s)). own_account (fst item) \<or> fst (snd item) \<noteq> 0"
    using assms(1) by (auto simp: bp_inv_def tags_ok_def dest: in_set_dropD in_set_takeD)
  from verify_tags [OF assms(2) [unfolded verification_turn_def] t] assms(1)
  show ?thesis by (auto intro: bp_inv_queues)
qed

lemma unchecked_range_ran: "set (unchecked_range m d) \<subseteq> ran m"
proof -
  have "the (m (d, h)) \<in> ran m" if "h \<in> set (sorted_list_of_set {h. m (d, h) \<noteq> None})" for h
  proof (cases "finite {h. m (d, h) \<noteq> None}")
    case True
    then show ?thesis using that by (auto intro: ranI)
  qed (use that in simp)
  then show ?thesis by (auto simp: unchecked_range_def)
qed

lemma unchecked_write_tags:
  assumes "tags_ok c k seen s" and "item_ok c k seen item"
  shows "tags_ok c k seen (unchecked_write c d now item s) \<and> bp_ledger (unchecked_write c d now item s) = bp_ledger s"
proof (cases item)
  case (U_insert dep info)
  have "ran (m(x \<mapsto> y)) \<subseteq> insert y (ran m)" for m :: "unchecked_key \<rightharpoonup> unchecked_info" and x y
    by (auto simp: ran_def split: if_splits)
  then show ?thesis using assms U_insert by (fastforce simp: unchecked_write_def tags_ok_def item_ok_def)
next
  case (U_query dep)
  let ?s = "fold processor_add (unchecked_range (bp_unchecked s) dep) s"
  have "\<forall>i \<in> set (unchecked_range (bp_unchecked s) dep). info_ok c k seen i"
    using unchecked_range_ran [of "bp_unchecked s" dep] assms(1) by (auto simp: tags_ok_def)
  from fold_add_tags [OF assms(1) this] have t: "tags_ok c k seen ?s" .
  have "ran (\<lambda>key. if fst key = dep then None else bp_unchecked ?s key) \<subseteq> ran (bp_unchecked s)"
    by (auto simp: ran_def split: if_splits)
  with t show ?thesis by (auto simp: U_query unchecked_write_def Let_def tags_ok_def)
qed

lemma unchecked_turn_inv:
  assumes "bp_inv c k seen s"
  shows "bp_inv c k seen (unchecked_turn c d now s)"
proof -
  have "\<forall>item \<in> set items. item_ok c k seen item \<Longrightarrow> tags_ok c k seen s \<Longrightarrow>
      tags_ok c k seen (fold (unchecked_write c d now) items s) \<and> bp_ledger (fold (unchecked_write c d now) items s) = bp_ledger s"
    for items s
    by (induction items arbitrary: s) (simp_all add: unchecked_write_tags)
  from this [of "bp_buffer s" "s\<lparr>bp_buffer := []\<rparr>"] assms show ?thesis
    by (auto simp: bp_inv_def tags_ok_def unchecked_turn_def)
qed

section \<open>Accepting a block\<close>

lemma accepted_entries:
  assumes "accepted c k l l' h e a new" and "blocks_of l' x = Some e'"
  shows "x = h \<and> e' = e \<or>
    x \<noteq> h \<and> (\<exists>q. blocks_of l x = Some q \<and> fst q = fst e' \<and> account_calculated q = account_calculated e')"
proof -
  from assms(1) have g: "grow_at (blocks_of l) h e" "blocks_of l' = grow (blocks_of l) h e"
    by (simp_all add: accepted_def grows_def)
  with assms(2) show ?thesis
    by (auto simp: grow_apply [OF g(1)] with_successor_def split: if_splits)
qed

lemma accepted_previous:
  assumes inv': "ledger_inv c k rk' rp' T l'" and acc: "accepted c k l l' h e a new" and "\<not> own_account (fst e)"
    and ls: "ledger_seen seen l"
  shows "\<exists>b'. seen (block_previous (fst e)) = Some (b', account_calculated e)"
proof -
  let ?p = "block_previous (fst e)"
  from acc have g: "grow_at (blocks_of l) h e" "blocks_of l' = grow (blocks_of l) h e"
    by (simp_all add: accepted_def grows_def)
  then have e: "blocks_of l' h = Some e" by (simp add: grow_apply)
  from links_okD [OF ledger_invD(3) [OF inv'] e] assms(3) obtain p where
    p: "blocks_of l' ?p = Some p" "account_calculated p = account_calculated e" "?p \<noteq> 0"
    by (auto simp: link_ok_def follows_def own_account_def split: if_splits)
  have "?p \<noteq> h" using g(1) by (simp add: grow_at_def)
  with p g obtain q where "blocks_of l ?p = Some q" "account_calculated q = account_calculated p"
    by (auto simp: grow_apply [OF g(1)] with_successor_def)
  with ledger_seenD [OF ls] p(2) show ?thesis by fastforce
qed

lemma same_place_refl [simp]: "same_place b b"
  by (simp add: same_place_def)

lemma accepted_seen:
  assumes inv: "ledger_inv c k rk rp T l" and inv': "ledger_inv c k rk' rp' T l'"
    and acc: "accepted c k l l' h e a new" and h: "h = generate_hash c (fst e)" and o: "owner_in l (fst e) \<noteq> 0"
    and ls: "ledger_seen seen l" and so: "seen_ok seen" and nc: "no_collision c seen (fst e)"
  defines "seen' \<equiv> seen_after c (fst e) l' seen"
  shows "seen \<subseteq>\<^sub>m seen'" "ledger_seen seen' l'" "seen_ok seen'"
proof -
  from acc have g: "grow_at (blocks_of l) h e" "blocks_of l' = grow (blocks_of l) h e"
    by (simp_all add: accepted_def grows_def)
  have s: "seen' = (if seen h = None then seen(h \<mapsto> (fst e, account_calculated e)) else seen)"
    using g h by (simp add: seen'_def seen_after_def grow_apply)
  then show le: "seen \<subseteq>\<^sub>m seen'" by (auto simp: map_le_def)
  have prev: "\<exists>b'. seen (block_previous (fst e)) = Some (b', account_calculated e)" if "\<not> own_account (fst e)"
    using accepted_previous [OF inv' acc that ls] .
  have own: "account_calculated e = block_account (fst e)" if "own_account (fst e)"
    using accepted_owner [OF inv inv' acc o] that by (cases "fst e") (auto simp: owner_in_def own_account_def)
  have "\<exists>b'. seen' h = Some (b', account_calculated e) \<and> same_place b' (fst e)"
  proof (cases "seen h")
    case (Some x)
    then obtain b' a' where x: "seen h = Some (b', a')" by (cases x) auto
    have p: "same_place b' (fst e)" using nc x h by (simp add: no_collision_def)
    from so x have "if own_account b' then a' = block_account b' else \<exists>b. seen (block_previous b') = Some (b, a')"
      unfolding seen_ok_def by blast
    with p prev own have "a' = account_calculated e" by (auto simp: same_place_def split: if_splits)
    with x p show ?thesis by (simp add: s)
  qed (simp add: s)
  moreover have "seen' x = seen x" if "x \<noteq> h" for x using that by (simp add: s)
  ultimately show "ledger_seen seen' l'"
    unfolding ledger_seen_def using accepted_entries [OF acc] ledger_seenD [OF ls] by metis
  show "seen_ok seen'"
    unfolding seen_ok_def
  proof (intro allI impI)
    fix x b' a' assume x: "seen' x = Some (b', a')"
    show "if own_account b' then a' = block_account b' else \<exists>b. seen' (block_previous b') = Some (b, a')"
    proof (cases "x = h \<and> seen h = None")
      case True
      with x have b': "b' = fst e" "a' = account_calculated e" by (simp_all add: s)
      with prev own le show ?thesis by (auto simp: map_le_def dom_def)
    next
      case False
      with x have "seen x = Some (b', a')" by (auto simp: s split: if_splits)
      with so have "if own_account b' then a' = block_account b' else \<exists>b. seen (block_previous b') = Some (b, a')"
        unfolding seen_ok_def by blast
      with le show ?thesis by (auto simp: map_le_def dom_def split: if_splits)
    qed
  qed
qed

lemma seen_after_known: "ledger_seen seen l \<Longrightarrow> seen_after c b l seen = seen"
  by (auto simp: seen_after_def dest: ledger_seenD split: option.splits)

lemma accepted_ledger_signed:
  assumes acc: "accepted c k l l' h e a new" and s: "ledger_signed c k l"
    and "signed_by c (fst e) (account_calculated e) \<or> epoch_signed c k (fst e)"
  shows "ledger_signed c k l'"
  unfolding ledger_signed_def using accepted_entries [OF acc] ledger_signedD [OF s] assms(3) by metis

lemma process_progress_Done:
  "process_progress c v info force sb s = Done s' \<Longrightarrow>
    bp_ledger s' = bp_ledger s \<and> (ui_account info = 0 \<or> ui_account info = account_calculated (ui_block info, sb)) \<and>
    (\<forall>seen. tags_ok c k seen s \<longrightarrow> tags_ok c k seen s')"
  by (auto simp: process_progress_def queue_unchecked_def unchecked_trigger_def add_event_def
       Let_def tags_ok_def item_ok_def split: if_splits)

lemma unchecked_put_tags:
  assumes "tags_ok c k seen s" and "info_ok c k seen info"
  shows "tags_ok c k seen (unchecked_put dep info s)"
  using assms by (auto simp: unchecked_put_def tags_ok_def item_ok_def)

lemma process_one_ledger:
  assumes "process_one c k v info force s = Done s'"
  obtains p where "process c k (be_times v) (bp_ledger s) (ui_block info) (ui_verified info) = Some p"
    "bp_ledger s' = p_ledger p"
    "p_code p = pr_progress \<longrightarrow> (\<exists>sb. p_sideband p = Some sb \<and>
       (ui_account info = 0 \<or> ui_account info = account_calculated (ui_block info, sb)))"
    "\<forall>seen. tags_ok c k seen s \<longrightarrow> tag_ok c k seen (ui_block info) (ui_account info) (p_verified p) \<longrightarrow> tags_ok c k seen s'"
proof -
  from assms obtain p where p: "process c k (be_times v) (bp_ledger s) (ui_block info) (ui_verified info) = Some p"
    and r: "process_one c k v info force s = Done s'"
    by (auto simp: process_one_def Let_def run_bind_Done run_of_Done)
  have l [simp]: "tags_ok c k seen (s\<lparr>bp_ledger := l\<rparr>) = tags_ok c k seen s"
    "tags_ok c k seen (add_event ev s) = tags_ok c k seen s" "bp_ledger (add_event ev s) = bp_ledger s"
    "bp_ledger (unchecked_put dep i s) = bp_ledger s" for seen l ev dep i and s :: block_processor
    by (simp_all add: tags_ok_def add_event_def unchecked_put_def)
  show thesis
  proof (rule that [OF p])
    show "bp_ledger s' = p_ledger p"
      using r by (cases "p_code p") (auto simp: process_one_def Let_def p run_bind_Done run_of_Done dest!: process_progress_Done)
    show "p_code p = pr_progress \<longrightarrow> (\<exists>sb. p_sideband p = Some sb \<and>
       (ui_account info = 0 \<or> ui_account info = account_calculated (ui_block info, sb)))"
      using r by (auto simp: process_one_def Let_def p run_bind_Done run_of_Done dest!: process_progress_Done)
    show "\<forall>seen. tags_ok c k seen s \<longrightarrow> tag_ok c k seen (ui_block info) (ui_account info) (p_verified p) \<longrightarrow> tags_ok c k seen s'"
      using r by (cases "p_code p")
       (auto simp: process_one_def Let_def p run_bind_Done run_of_Done dest!: process_progress_Done [where k = k]
         intro!: unchecked_put_tags)
  qed
qed

lemma progress_sideband:
  assumes "process c k now l b v = Some p" and "p_code p = pr_progress"
    and "accepted c k l (p_ledger p) h e a new" and "fst e = b" and "constants_ok k"
    and "ledger_inv c k rk rp T l" and "ledger_inv c k rk' rp' T (p_ledger p)"
  shows "account_calculated e = owner_in l b \<and> owner_in l b \<noteq> 0 \<and>
    (\<forall>sb. p_sideband p = Some sb \<longrightarrow> account_calculated (b, sb) = owner_in l b)"
  using process_tag(2) [OF assms(1,2,5)] accepted_owner [OF assms(6,7,3)] assms(4)
  by (auto simp: entry_signed_def)

text \<open>A block that is accepted with a tag of the queues is signed.\<close>

lemma accepted_signed:
  assumes "entry_signed c k l b v sb" and "tag_ok c k seen b a v" and "a = 0 \<or> a = owner_in l b"
    and "\<not> own_account b \<Longrightarrow> \<exists>b'. seen (block_previous b) = Some (b', owner_in l b)"
  shows "signed_by c b (owner_in l b) \<or> epoch_signed c k b"
proof (cases "v = sv_valid")
  case True
  have "own_account b \<Longrightarrow> owner_in l b = block_account b" by (cases b) (auto simp: owner_in_def own_account_def)
  with True assms(2-4) show ?thesis by (auto simp: tag_ok_def)
next
  case False
  with assms(1,2) show ?thesis by (auto simp: entry_signed_def tag_ok_def)
qed

lemma process_one_inv:
  assumes inv: "bp_inv c k seen s" and k: "constants_ok k" and i: "info_ok c k seen info"
    and ok: "accepts c k (be_times v) (bp_ledger s) info \<longrightarrow>
      admissible c k (bp_ledger s) (ui_block info) \<and> no_collision c seen (ui_block info)"
    and run: "process_one c k v info force s = Done s'"
  shows "bp_inv c k (seen_after c (ui_block info) (bp_ledger s') seen) s'"
proof -
  let ?b = "ui_block info" and ?l = "bp_ledger s"
  let ?seen = "seen_after c ?b (bp_ledger s') seen"
  from run obtain p where p: "process c k (be_times v) ?l ?b (ui_verified info) = Some p" and l': "bp_ledger s' = p_ledger p"
    and sb: "p_code p = pr_progress \<longrightarrow> (\<exists>sb. p_sideband p = Some sb \<and>
       (ui_account info = 0 \<or> ui_account info = account_calculated (?b, sb)))"
    and t: "\<forall>seen. tags_ok c k seen s \<longrightarrow> tag_ok c k seen ?b (ui_account info) (p_verified p) \<longrightarrow> tags_ok c k seen s'"
    by (rule process_one_ledger)
  from inv have r: "reachable c k ?l" and ls: "ledger_seen seen ?l" and so: "seen_ok seen"
    and ss: "ledger_signed c k ?l" and ts: "tags_ok c k seen s" by (simp_all add: bp_inv_def)
  from reachable_inv [OF r k] obtain rk rp where li: "ledger_inv c k rk rp max_supply ?l" by blast
  have tv: "tags_ok c k seen s'"
    using t ts tag_made_ok [OF li ls process_tag(1) [OF p] i] by blast
  have adm: "admissible c k ?l ?b" and nc: "no_collision c seen ?b" if "p_code p = pr_progress"
    using ok p that by (simp_all add: accepts_def)
  have r': "reachable c k (bp_ledger s')" unfolding l' by (rule reach_step [OF r step_process [OF impI [OF adm] p]])
  show ?thesis
  proof (cases "p_code p = pr_progress")
    case False
    then have "bp_ledger s' = ?l" using process_rejected [OF p] l' by simp
    with inv tv seen_after_known [OF ls] show ?thesis by (simp add: bp_inv_def)
  next
    case True
    from process_inv [OF li impI [OF adm] k p] obtain rk' rp' where li': "ledger_inv c k rk' rp' max_supply (p_ledger p)" by blast
    from process_accepted [OF li adm [OF True] k p True] obtain e a new where
      acc: "accepted c k ?l (p_ledger p) (generate_hash c ?b) e a new" and e: "fst e = ?b" by blast
    note o = progress_sideband [OF p True acc e k li li']
    have s: "seen \<subseteq>\<^sub>m ?seen" "ledger_seen ?seen (bp_ledger s')" "seen_ok ?seen"
      using accepted_seen [OF li li' acc _ _ ls so] e o nc [OF True] unfolding l' by auto
    have "ui_account info = 0 \<or> ui_account info = owner_in ?l ?b" using sb True o by auto
    then have "signed_by c ?b (owner_in ?l ?b) \<or> epoch_signed c k ?b"
      using accepted_signed [OF process_tag(2) [OF p True k] i] accepted_previous [OF li' acc _ ls] e o by simp
    with accepted_ledger_signed [OF acc ss] e o have "ledger_signed c k (bp_ledger s')" by (simp add: l')
    with r' s(2,3) tags_ok_mono [OF tv s(1)] show ?thesis by (simp add: bp_inv_def)
  qed
qed

lemma successor_listed:
  assumes inv: "ledger_inv c k rk rp T l" and "ledger_successor l root = Some e"
  shows "blocks_of l (generate_hash c (fst e)) \<noteq> None"
proof -
  from assms(2) obtain h where "blocks_of l h = Some e"
    by (auto simp: ledger_successor_def Let_def block_get_def split: prod.splits if_splits)
  with links_okD [OF ledger_invD(3) [OF inv] this] show ?thesis by (simp add: link_ok_def)
qed

lemma erase_rolled_back_fields [simp]:
  "bp_ledger (erase_rolled_back c h ls s) = bp_ledger s"
  "tags_ok c k seen (erase_rolled_back c h ls (s\<lparr>bp_ledger := l\<rparr>)) = tags_ok c k seen s"
  by (simp_all add: erase_rolled_back_def tags_ok_def)

lemma force_rollback_inv:
  assumes inv: "bp_inv c k seen s" and k: "constants_ok k" and run: "force_rollback c k v b s = Done s'"
  shows "bp_inv c k seen s'"
proof (cases "s' = s")
  case False
  with run obtain e err l ls where e: "ledger_successor (bp_ledger s) (block_qualified_root b) = Some e"
    and rb: "rollback (be_steps v) c k (be_clock v) (bp_ledger s) (generate_hash c (fst e)) [] = Done (err, l, ls)"
    and s': "s' = erase_rolled_back c (generate_hash c (fst e)) ls (s\<lparr>bp_ledger := l\<rparr>)"
    unfolding force_rollback_def Let_def
    by (cases "ledger_successor (bp_ledger s) (block_qualified_root b)")
       (auto simp: run_bind_Done split: if_split_asm)
  from inv have r: "reachable c k (bp_ledger s)" and ls: "ledger_seen seen (bp_ledger s)" by (simp_all add: bp_inv_def)
  from reachable_inv [OF r k] obtain rk rp where li: "ledger_inv c k rk rp max_supply (bp_ledger s)" by blast
  note x = successor_listed [OF li e]
  from rollback_inv(5) [OF li x rb] have v: "\<And>x. blocks_of l x \<noteq> None \<Longrightarrow> bview (blocks_of l) x = bview (blocks_of (bp_ledger s)) x"
    by (auto simp: listed_def)
  from inv have "ledger_seen seen l" "ledger_signed c k l"
    by (auto simp: bp_inv_def intro: ledger_seen_view [OF v])
  with inv reach_step [OF r step_rollback [OF x rb]] show ?thesis
    by (simp add: s' bp_inv_def)
qed (use inv in simp)

lemma next_block_inv:
  assumes "bp_inv c k seen s" and "next_block now s = Some (info, force, s')"
  shows "bp_inv c k seen s'" and "info_ok c k seen info"
proof -
  consider b rest where "bp_forced s = b # rest" | i rest where "bp_forced s = []" "bp_blocks s = i # rest"
    using assms(2) by (cases "bp_forced s"; cases "bp_blocks s") (auto simp: next_block_def)
  then have "bp_inv c k seen s' \<and> info_ok c k seen info"
    using assms by cases (auto simp: next_block_def bp_inv_def tags_ok_def)
  then show "bp_inv c k seen s'" and "info_ok c k seen info" by blast+
qed

lemma cement_one_blocks [simp]: "blocks_of (cement_one l p) = blocks_of l"
  by (simp add: cement_one_def store_confirmation_height_put_def cache_cemented_count_add_def)

lemma cement_fold_blocks [simp]: "blocks_of (fold (\<lambda>p l. cement_one l p) ps l) = blocks_of l"
  by (induction ps arbitrary: l) simp_all

lemma start_inv:
  assumes g: "genesis_block_ok c k" and i: "store_initialize c k now empty_ledger = Some l"
  shows "bp_inv c k [genesis_hash c k \<mapsto> (k_genesis k, block_account (k_genesis k))] (processor_new l)"
  using reach_start [OF g i] genesis_entry_facts [OF g] init_tables(1) [OF g i] g
  by (auto simp: bp_inv_def processor_new_def tags_ok_def seen_ok_def ledger_signed_def ledger_seen_def own_account_def
      genesis_block_ok_def split: if_splits)

theorem bp_reach_inv:
  assumes "bp_reach c k seen s" and "constants_ok k"
  shows "bp_inv c k seen s"
  using assms(1)
proof induction
  case (br_start now l)
  then show ?case by (rule start_inv)
next
  case (br_add seen s now b a)
  then show ?case by (auto simp: bp_inv_def intro: processor_add_tags)
next
  case (br_add_local seen s info s')
  then show ?case
    by (auto simp: bp_inv_def processor_add_local_def tags_ok_def own_account_def split: if_splits)
next
  case (br_force seen s b)
  then show ?case by (simp add: bp_inv_def processor_force_def tags_ok_def)
next
  case (br_events seen s)
  then show ?case by (simp add: bp_inv_def tags_ok_def)
next
  case (br_process seen s v info force s1 s2 s')
  note n = next_block_inv [OF br_process.IH br_process.hyps(2)]
  have "bp_inv c k seen s2"
    using br_process.hyps(3) n(1) force_rollback_inv [OF n(1) assms(2)] by (auto simp: prepare_forced_def split: if_splits)
  from process_one_inv [OF this assms(2) n(2) br_process.hyps(5,4)] show ?case .
next
  case (br_cement seen s ps cache l bs)
  from reachable_inv [of c k "bp_ledger s"] br_cement.IH assms(2) obtain rk rp where
    "ledger_inv c k rk rp max_supply (bp_ledger s)" by (auto simp: bp_inv_def)
  from cement_ok(2) [OF this br_cement.hyps(2,3)] br_cement.IH reach_step [OF _ step_cement [OF br_cement.hyps(2,3)]]
  show ?case by (auto simp: bp_inv_def ledger_seen_def ledger_signed_def tags_ok_def)
qed (blast intro: verification_turn_inv unchecked_turn_inv)+

end
