(* ===== verification/Block_Theorems.thy ===== *)
theory Block_Theorems
  imports Block_Signed Ledger_Sample
begin

declare split_paired_All [simp del] split_paired_Ex [simp del]

text \<open>
  What the block processor guarantees about signatures, and a run of it on a small ledger: a block that
  is signed by its account is accepted; a block that is signed by another account which the peer named
  stops the node.
\<close>

section \<open>A signature scheme for samples\<close>

text \<open>A signature is the number of the account that made it.\<close>

definition key_crypto :: crypto where
  "key_crypto = sample_crypto\<lparr>ed25519_sign_open := \<lambda>m pk s. s = ucast pk\<rparr>"

definition key_block :: "signature \<Rightarrow> block" where
  "key_block s = State (sample_send_block\<lparr>state_signature := s\<rparr>)"

definition sample_bp_env :: bp_env where
  "sample_bp_env = \<lparr>be_times = (1, 2), be_seconds = 1, be_clock = (\<lambda>_. 0), be_recent = (\<lambda>_. True), be_steps = 10\<rparr>"

lemma key_hash [simp]:
  "generate_hash key_crypto (State s) = state_link (state_h s) + 100"
  "generate_hash key_crypto (Open t) = open_account (open_h t) + 100"
  by (simp_all add: generate_hash_def key_crypto_def sample_crypto_def hash_defs word_of_be_write_be)

lemma key_validate [simp]: "validate_message key_crypto a h s = (s \<noteq> ucast a)"
  by (simp add: validate_message_def key_crypto_def)

lemma key_genesis: "genesis_block_ok key_crypto sample_constants"
  by (simp add: genesis_block_ok_def genesis_hash_def sample_constants_def reserved_hash_def
      is_epoch_link_def epochs_is_epoch_link_def)

lemma key_init: "store_initialize key_crypto sample_constants (0, 0) empty_ledger = Some sample_0"
proof -
  from init_defined [OF key_genesis] obtain l where
    l: "store_initialize key_crypto sample_constants (0, 0) empty_ledger = Some l" by blast
  then have "l = the (store_initialize key_crypto sample_constants (0, 0) empty_ledger)" by simp
  also have "\<dots> = sample_0"
    unfolding sample_0_eq
    by (simp add: store_initialize_def sample_eval empty_ledger_def representation_put_def rep_put_def
      genesis_sideband_def cache_cemented_count_add_def cache_canary_set_def cache_weights_set_def)
  finally show ?thesis using l by simp
qed

definition queued :: "account \<Rightarrow> signature \<Rightarrow> block_processor" where
  "queued a s = processor_add (unchecked_info_new 0 (key_block s) a sv_unknown) (processor_new sample_0)"

definition tagged :: "account \<Rightarrow> signature \<Rightarrow> block_processor" where
  "tagged a s = (processor_new sample_0)\<lparr>bp_blocks := [unchecked_info_new 1 (key_block s) a sv_valid]\<rparr>"

lemma queued_verified:
  "s = ucast (if a = 0 then 1 else a) \<Longrightarrow> verification_turn key_crypto sample_constants 1 1 (queued a s) = Done (tagged a s)"
  by (simp add: queued_def tagged_def processor_add_def processor_new_def key_block_def verification_turn_def
      verification_account_def process_verified_state_block_def unchecked_info_new_def is_epoch_link_def
      epochs_is_epoch_link_def sample_eval)

lemma key_processed:
  "\<exists>p. process key_crypto sample_constants (1, 2) sample_0 (key_block s) sv_valid = Some p \<and> p_code p = pr_progress
    \<and> (\<exists>sb. p_sideband p = Some sb \<and> account_calculated (key_block s, sb) = 1)
    \<and> (\<exists>e. blocks_of (p_ledger p) 105 = Some e \<and> fst e = key_block s \<and> account_calculated e = 1)"
  by (simp add: process_eval sample_0_eq key_block_def account_calculated_def)

section \<open>A node that stops\<close>

text \<open>
  The account that comes with a block is the peer's: the client of a bulk pull takes the account of the first
  block for all the blocks that follow.  A block of account 1 with a signature of account 7 and the
  account 7 passes the check of signatures, which asks for a signature of 7, and the ledger, which trusts the
  tag; the assertion after that fails and the node stops.
\<close>

theorem named_account_stops_node:
  "run_bind (verification_turn key_crypto sample_constants 1 1 (queued 7 7))
     (process_next key_crypto sample_constants sample_bp_env) = Abort"
proof -
  have "process_next key_crypto sample_constants sample_bp_env (tagged 7 7) = Abort"
    using key_processed [of 7]
    by (auto simp: process_next_def next_block_def tagged_def processor_new_def prepare_forced_def process_one_def
        sample_bp_env_def unchecked_info_new_def process_progress_def)
  then show ?thesis using queued_verified [of 7 7] by simp
qed

section \<open>Every accepted block is signed\<close>

text \<open>
  C14: every block that a node has accepted, other than the genesis block, is signed by its account or is an
  epoch block that is signed by the signer of its epoch, in every order of the threads: adding, checking
  signatures, waiting in the unchecked table, forced winners with their rollbacks, and cementing.  The ledger of such a node is
  reachable by the steps of the ledger.  Peers send any blocks with any accounts, and nothing is asked of the blocks that the
  ledger refuses.  Of a block that it accepts it is asked that its hash is neither zero nor reserved and is not the hash of a
  block at another place that was accepted before, that no account is at the last height, and that it is not an epoch block that
  opens an account while it names a previous block.  Heights are written as \<open>writes_ok\<close> says.
\<close>

theorem accepted_blocks_signed:
  assumes "bp_reach c k seen s" and "constants_ok k" and "blocks_of (bp_ledger s) h = Some e" and "h \<noteq> genesis_hash c k"
  shows "reachable c k (bp_ledger s) \<and> (signed_by c (fst e) (account_calculated e) \<or> epoch_signed c k (fst e))"
  using bp_reach_inv [OF assms(1,2)] assms(3,4) unfolding bp_inv_def ledger_signed_def by blast

lemma key_run:
  obtains seen s e where "bp_reach key_crypto sample_constants seen s" "blocks_of (bp_ledger s) 105 = Some e"
    "fst e = key_block 1" "account_calculated e = 1"
proof -
  let ?c = key_crypto and ?k = sample_constants and ?v = sample_bp_env
  have "bp_reach ?c ?k [genesis_hash ?c ?k \<mapsto> (k_genesis ?k, block_account (k_genesis ?k))] (tagged 0 1)" (is "bp_reach _ _ ?seen _")
    by (rule br_verify [OF br_add [OF br_start [OF key_genesis key_init]] queued_verified [unfolded queued_def, of 1 0]]) simp
  moreover obtain i s1 where n: "next_block (be_seconds ?v) (tagged 0 1) = Some (i, False, s1)" "ui_block i = key_block 1"
    "ui_verified i = sv_valid" "ui_account i = 0" "bp_ledger s1 = sample_0"
    by (simp add: next_block_def tagged_def processor_new_def unchecked_info_new_def)
  moreover have "prepare_forced ?c ?k ?v i False s1 = Done s1" by (simp add: prepare_forced_def)
  moreover obtain p where p: "process ?c ?k (1, 2) sample_0 (key_block 1) sv_valid = Some p" "p_code p = pr_progress"
    "\<exists>e. blocks_of (p_ledger p) 105 = Some e \<and> fst e = key_block 1 \<and> account_calculated e = 1"
    "\<exists>sb. p_sideband p = Some sb" using key_processed [of 1] by blast
  have "\<exists>s. process_one ?c ?k ?v i False s1 = Done s \<and> bp_ledger s = p_ledger p"
    using p n by (auto simp: process_one_def process_progress_def sample_bp_env_def Let_def queue_unchecked_def
        unchecked_trigger_def add_event_def)
  then obtain s where "process_one ?c ?k ?v i False s1 = Done s" "bp_ledger s = p_ledger p" by blast
  moreover have "admissible ?c ?k (bp_ledger s1) (ui_block i)"
    using n by (simp add: admissible_def reserved_hash_def epoch_open_ok_def sample_0_eq is_epoch_link_def
        epochs_is_epoch_link_def sample_eval key_block_def)
  moreover have "no_collision ?c ?seen (ui_block i)"
    using n by (simp add: no_collision_def genesis_hash_def key_block_def sample_eval)
  ultimately have "bp_reach ?c ?k (seen_after ?c (ui_block i) (bp_ledger s) ?seen) s"
    using br_process [of ?c ?k ?seen "tagged 0 1" ?v i False s1 s1 s] by blast
  with \<open>bp_ledger s = p_ledger p\<close> p(3) that show thesis by auto
qed

lemma accepted_blocks_signed_witness:
  "\<exists>(s :: block_processor) e. blocks_of (bp_ledger s) 105 = Some e \<and> fst e = key_block 1 \<and> reachable key_crypto sample_constants (bp_ledger s)
     \<and> (signed_by key_crypto (fst e) 1 \<or> epoch_signed key_crypto sample_constants (fst e))"
proof -
  obtain seen s e where r: "bp_reach key_crypto sample_constants seen s" and e: "blocks_of (bp_ledger s) 105 = Some e"
    "fst e = key_block 1" "account_calculated e = 1" by (rule key_run)
  have "105 \<noteq> genesis_hash key_crypto sample_constants" by (simp add: genesis_hash_def sample_constants_def)
  from accepted_blocks_signed [OF r sample_constants_ok e(1) this] e show ?thesis
    by (intro exI [of _ s] exI [of _ e]) simp
qed

section \<open>Blocks that wait\<close>

definition in_queue :: "crypto \<Rightarrow> block_hash \<Rightarrow> block_processor \<Rightarrow> bool" where
  "in_queue c h s \<longleftrightarrow>
     (\<exists>i \<in> set (bp_blocks s). generate_hash c (ui_block i) = h)
     \<or> (\<exists>item \<in> set (bp_state_blocks s). generate_hash c (fst item) = h)"

definition keyed :: "crypto \<Rightarrow> block_processor \<Rightarrow> bool" where
  "keyed c s \<longleftrightarrow> (\<forall>dep h i. bp_unchecked s (dep, h) = Some i \<longrightarrow> generate_hash c (ui_block i) = h)"

lemma processor_add_queue:
  "in_queue c (generate_hash c (ui_block i)) (processor_add i s)" "in_queue c h s \<Longrightarrow> in_queue c h (processor_add i s)"
  by (auto simp: in_queue_def processor_add_def Let_def)

lemma fold_add_queue:
  "in_queue c h s \<or> (\<exists>i \<in> set xs. generate_hash c (ui_block i) = h) \<Longrightarrow> in_queue c h (fold processor_add xs s)"
  by (induction xs arbitrary: s) (auto simp: processor_add_queue)

lemma unchecked_range_mem: "m (dep, h) = Some i \<Longrightarrow> i \<in> set (unchecked_range m dep)"
  by (force simp: unchecked_range_def)

lemma write_keyed: "keyed c s \<Longrightarrow> keyed c (unchecked_write c d now item s)"
  by (cases item) (auto simp: keyed_def unchecked_write_def Let_def split: if_splits)

lemma write_queue: "in_queue c h s \<Longrightarrow> in_queue c h (unchecked_write c d now item s)"
  by (cases item) (auto simp: unchecked_write_def Let_def in_queue_def [of _ _ "bp_unchecked_update _ _"]
     in_queue_def [symmetric] intro: fold_add_queue)

lemma write_query:
  assumes "keyed c s" and "bp_unchecked s (dep, h) = Some i"
  shows "in_queue c h (unchecked_write c d now (U_query dep) s)"
proof -
  have "in_queue c h (fold processor_add (unchecked_range (bp_unchecked s) dep) s)"
    using assms unchecked_range_mem [of "bp_unchecked s" dep h i] by (intro fold_add_queue) (auto simp: keyed_def)
  then show ?thesis by (simp add: unchecked_write_def Let_def in_queue_def)
qed

lemma write_waits:
  assumes "keyed c s" and "bp_unchecked s (dep, h) = Some i"
  shows "in_queue c h (unchecked_write c d now item s) \<or> (\<exists>i. bp_unchecked (unchecked_write c d now item s) (dep, h) = Some i)"
proof (cases item)
  case (U_query dep')
  with assms write_query [OF assms] show ?thesis
    by (cases "dep' = dep") (auto simp: unchecked_write_def Let_def)
qed (use assms in \<open>auto simp: unchecked_write_def\<close>)

lemma writes_requeue:
  assumes "keyed c s" and "in_queue c h s \<or> (\<exists>i. bp_unchecked s (dep, h) = Some i) \<and> U_query dep \<in> set items"
  shows "in_queue c h (fold (unchecked_write c d now) items s)"
  using assms
proof (induction items arbitrary: s)
  case (Cons item items)
  have k: "keyed c (unchecked_write c d now item s)" by (rule write_keyed [OF Cons.prems(1)])
  have "in_queue c h (unchecked_write c d now item s)
      \<or> (\<exists>i. bp_unchecked (unchecked_write c d now item s) (dep, h) = Some i) \<and> U_query dep \<in> set items"
    using Cons.prems(2) write_queue [of c h s] write_query [OF Cons.prems(1)] write_waits [OF Cons.prems(1), of dep h]
    by (metis set_ConsD)
  from Cons.IH [OF k this] show ?case by simp
qed auto

lemma process_one_unchecked:
  assumes "process_one c k v info force s = Done s'"
  shows "bp_unchecked s' = bp_unchecked s"
    and "process c k (be_times v) (bp_ledger s) (ui_block info) (ui_verified info) = Some p \<Longrightarrow> p_code p = pr_progress \<Longrightarrow>
      U_query (generate_hash c (ui_block info)) \<in> set (bp_buffer s')"
proof -
  from assms obtain p where p: "process c k (be_times v) (bp_ledger s) (ui_block info) (ui_verified info) = Some p"
    by (auto simp: process_one_def Let_def run_bind_Done run_of_Done)
  have pp: "process_progress c v info force sb t = Done t' \<Longrightarrow>
     bp_unchecked t' = bp_unchecked t \<and> U_query (generate_hash c (ui_block info)) \<in> set (bp_buffer t')" for sb t t'
    by (auto simp: process_progress_def Let_def queue_unchecked_def unchecked_trigger_def add_event_def split: if_splits)
  show "bp_unchecked s' = bp_unchecked s"
    using assms by (cases "p_code p")
     (auto simp: process_one_def Let_def p run_bind_Done add_event_def unchecked_put_def dest!: pp)
  show "process c k (be_times v) (bp_ledger s) (ui_block info) (ui_verified info) = Some p \<Longrightarrow> p_code p = pr_progress \<Longrightarrow>
      U_query (generate_hash c (ui_block info)) \<in> set (bp_buffer s')" for p
    using assms by (auto simp: process_one_def Let_def run_bind_Done dest!: pp)
qed

lemma verify_unchecked: "verify_state_blocks c k now items s = Done s' \<Longrightarrow> bp_unchecked s' = bp_unchecked s"
  by (induction items arbitrary: s)
     (auto simp: run_bind_Done process_verified_state_block_def requeue_invalid_def split: prod.splits if_splits)

lemma keyed_unchecked: "keyed c s \<Longrightarrow> bp_unchecked s' = bp_unchecked s \<Longrightarrow> keyed c s'"
  by (simp add: keyed_def)

lemma prepare_unchecked: "prepare_forced c k v info force s = Done s' \<Longrightarrow> bp_unchecked s' = bp_unchecked s"
  by (cases "ledger_successor (bp_ledger s) (block_qualified_root (ui_block info))")
     (auto simp: prepare_forced_def force_rollback_def Let_def erase_rolled_back_def run_bind_Done split: if_split_asm)

lemma next_unchecked: "next_block now s = Some (info, force, s') \<Longrightarrow> bp_unchecked s' = bp_unchecked s"
  by (auto simp: next_block_def split: list.splits)

lemma bp_reach_keyed: "bp_reach c k seen s \<Longrightarrow> keyed c s"
proof (induction rule: bp_reach.induct)
  case (br_process seen s v info force s1 s2 s')
  from br_process.IH show ?case
    by (rule keyed_unchecked) (simp add: process_one_unchecked(1) [OF br_process.hyps(4)]
      prepare_unchecked [OF br_process.hyps(3)] next_unchecked [OF br_process.hyps(2)])
next
  case (br_unchecked seen s d now)
  have "keyed c s \<Longrightarrow> keyed c (fold (unchecked_write c d now) items s)" for items s
    by (induction items arbitrary: s) (simp_all add: write_keyed)
  moreover have "keyed c (s\<lparr>bp_buffer := []\<rparr>)" using br_unchecked.IH by (simp add: keyed_def)
  ultimately show ?case unfolding unchecked_turn_def .
next
  case (br_verify seen s now n s')
  from br_verify.IH show ?case
    by (rule keyed_unchecked) (use verify_unchecked [OF br_verify.hyps(2) [unfolded verification_turn_def]] in simp)
next
  case (br_add_local seen s info s')
  from br_add_local.IH show ?case
    by (rule keyed_unchecked) (use br_add_local.hyps(2) in \<open>auto simp: processor_add_local_def split: if_splits\<close>)
next
  case (br_start now l)
  show ?case by (simp add: keyed_def processor_new_def)
qed (simp_all add: keyed_def processor_force_def)

text \<open>
  C15: a block that waits for another is not lost: when the block it waits for is accepted, the next turn of the
  thread of the unchecked table puts it back into a queue of the processor.  The processor is in a state that it reaches; of the blocks
  accepted on the way it is asked what \<open>bp_reach\<close> says: they are \<open>admissible\<close> and collide with no block at another place.
\<close>

theorem waiting_block_requeued:
  assumes "bp_reach c k seen s" and "bp_unchecked s (generate_hash c (ui_block info), h) = Some i"
    and "process_one c k v info force s = Done s'"
    and "process c k (be_times v) (bp_ledger s) (ui_block info) (ui_verified info) = Some p" and "p_code p = pr_progress"
  shows "in_queue c h (unchecked_turn c d now s')"
proof -
  note u = process_one_unchecked [OF assms(3)]
  have "keyed c (s'\<lparr>bp_buffer := []\<rparr>)" using bp_reach_keyed [OF assms(1)] by (simp add: keyed_def u(1))
  then show ?thesis unfolding unchecked_turn_def
    by (rule writes_requeue [where dep = "generate_hash c (ui_block info)"]) (use assms u in auto)
qed

definition key_receive :: block where
  "key_receive = State (sample_receive_block\<lparr>state_signature := 5\<rparr>)"

definition waiting :: block_processor where
  "waiting = (processor_new sample_0)\<lparr>bp_unchecked := [(105, 205) \<mapsto> unchecked_info_new 1 key_receive 0 sv_valid],
     bp_events := [Ev_gap_add 205]\<rparr>"

lemma key_gap:
  "\<exists>p. process key_crypto sample_constants (1, 2) sample_0 key_receive sv_valid = Some p \<and> p_code p = pr_gap_source
     \<and> p_verified p = sv_valid \<and> ledger_block_source sample_0 key_receive None = Some 105"
  by (simp add: process_eval sample_0_eq key_receive_def ledger_block_source_def ledger_is_send_def)

lemma waiting_reach: "\<exists>seen. bp_reach key_crypto sample_constants seen waiting"
proof -
  let ?c = key_crypto and ?k = sample_constants and ?v = sample_bp_env
  let ?i = "unchecked_info_new 1 key_receive 0 sv_valid" and ?n = "processor_new sample_0"
  let ?q = "processor_add (unchecked_info_new 0 key_receive 0 sv_unknown) ?n"
  have v: "verification_turn ?c ?k 1 1 ?q = Done (?n\<lparr>bp_blocks := [?i]\<rparr>)"
    by (simp add: processor_add_def processor_new_def key_receive_def verification_turn_def
      verification_account_def process_verified_state_block_def unchecked_info_new_def is_epoch_link_def
      epochs_is_epoch_link_def sample_eval)
  have r: "bp_reach ?c ?k [genesis_hash ?c ?k \<mapsto> (k_genesis ?k, block_account (k_genesis ?k))] (?n\<lparr>bp_blocks := [?i]\<rparr>)"
    (is "bp_reach _ _ ?seen ?s") by (rule br_verify [OF br_add [OF br_start [OF key_genesis key_init]] v])
  have n: "next_block (be_seconds ?v) ?s = Some (?i, False, ?n)"
    by (simp add: next_block_def processor_new_def)
  have p: "prepare_forced ?c ?k ?v ?i False ?n = Done ?n" by (simp add: prepare_forced_def)
  let ?g = "add_event (Ev_gap_add 205) (unchecked_put 105 ?i ?n)"
  obtain p where p': "process ?c ?k (1, 2) sample_0 key_receive sv_valid = Some p" "p_code p = pr_gap_source"
    "p_verified p = sv_valid" "ledger_block_source sample_0 key_receive None = Some 105" using key_gap by blast
  have "p_ledger p = sample_0" using process_rejected [OF p'(1)] p'(2) by simp
  with p' have o: "process_one ?c ?k ?v ?i False ?n = Done ?g"
    by (simp add: process_one_def sample_bp_env_def Let_def unchecked_info_new_def processor_new_def
        add_event_def unchecked_put_def) (simp add: key_receive_def sample_receive_block_def)
  have a: "admissible ?c ?k (bp_ledger ?n) (ui_block ?i)"
    by (simp add: admissible_def reserved_hash_def epoch_open_ok_def sample_0_eq is_epoch_link_def processor_new_def
        epochs_is_epoch_link_def sample_eval key_receive_def)
  have nc: "no_collision ?c ?seen (ui_block ?i)"
    by (simp add: no_collision_def genesis_hash_def key_receive_def sample_eval)
  from br_unchecked [OF br_process [OF r n p o impI [OF conjI [OF a nc]]], of False 1] show ?thesis
    by (simp add: waiting_def unchecked_turn_def unchecked_write_def add_event_def unchecked_put_def processor_new_def
        key_receive_def sample_receive_block_def unchecked_info_new_def) blast
qed

lemma waiting_block_requeued_witness:
  "\<exists>s'. process_one key_crypto sample_constants sample_bp_env (unchecked_info_new 1 (key_block 1) 0 sv_valid) False waiting = Done s'
     \<and> in_queue key_crypto 205 (unchecked_turn key_crypto False 3 s')"
proof -
  let ?i = "unchecked_info_new 1 (key_block 1) 0 sv_valid"
  obtain seen where r: "bp_reach key_crypto sample_constants seen waiting" using waiting_reach by blast
  have u: "bp_unchecked waiting (generate_hash key_crypto (ui_block ?i), 205) = Some (unchecked_info_new 1 key_receive 0 sv_valid)"
    by (simp add: waiting_def key_block_def sample_send_block_def)
  obtain p where p: "process key_crypto sample_constants (be_times sample_bp_env) (bp_ledger waiting) (ui_block ?i) (ui_verified ?i) = Some p"
    "p_code p = pr_progress" "\<exists>sb. p_sideband p = Some sb"
    using key_processed [of 1] by (auto simp: sample_bp_env_def waiting_def processor_new_def)
  obtain s' where s': "process_one key_crypto sample_constants sample_bp_env ?i False waiting = Done s'"
    using p by (auto simp: process_one_def process_progress_def Let_def)
  from waiting_block_requeued [OF r u s' p(1,2)] s' show ?thesis by blast
qed

end
