(* ===== verification/Active_Data.thy ===== *)
theory Active_Data
  imports Election Ledger_Queries
begin

declare split_paired_All [simp del] split_paired_Ex [simp del]

text \<open>
  The data of \<^verbatim>\<open>node/active_transactions.hpp\<close>: the elections by root, the election of each block, the winners that
  wait for their confirmation height, what was confirmed lately, and the cache of votes for blocks without an
  election.  An election is a shared object: \<open>at_heap\<close> holds the elections that were made, the containers
  hold their numbers.  The operations of this theory do not touch an election.
\<close>

section \<open>Cached votes\<close>

record inactive_cache_status =
  ics_bootstrap_started :: bool
  ics_election_started :: bool
  ics_confirmed :: bool
  ics_tally :: u128

record inactive_cache_information =
  ici_arrival :: int
  ici_hash :: block_hash
  ici_status :: inactive_cache_status
  ici_voters :: "(account \<times> u64) list"

definition default_status :: inactive_cache_status where
  "default_status = \<lparr>ics_bootstrap_started = False, ics_election_started = False, ics_confirmed = False, ics_tally = 0\<rparr>"

definition empty_information :: inactive_cache_information where
  "empty_information = \<lparr>ici_arrival = 0, ici_hash = 0, ici_status = default_status, ici_voters = []\<rparr>"

definition needs_eval :: "inactive_cache_information \<Rightarrow> bool" where
  "needs_eval info \<longleftrightarrow>
     \<not> ics_bootstrap_started (ici_status info) \<or> \<not> ics_election_started (ici_status info) \<or> \<not> ics_confirmed (ici_status info)"

text \<open>The cache in the order of arrival; a new entry comes after those of the same time.\<close>

type_synonym inactive_cache = "inactive_cache_information list"

definition cache_insert :: "inactive_cache_information \<Rightarrow> inactive_cache \<Rightarrow> inactive_cache" where
  "cache_insert info cache =
     takeWhile (\<lambda>i. ici_arrival i \<le> ici_arrival info) cache @ info # dropWhile (\<lambda>i. ici_arrival i \<le> ici_arrival info) cache"

definition cache_find :: "block_hash \<Rightarrow> inactive_cache \<Rightarrow> inactive_cache_information option" where
  "cache_find hash cache = find (\<lambda>i. ici_hash i = hash) cache"

text \<open>A changed entry keeps its place while the order allows it.\<close>

definition cache_modify ::
  "block_hash \<Rightarrow> (inactive_cache_information \<Rightarrow> inactive_cache_information) \<Rightarrow> inactive_cache \<Rightarrow> inactive_cache" where
  "cache_modify hash f cache =
     (let before = takeWhile (\<lambda>i. ici_hash i \<noteq> hash) cache
      in case dropWhile (\<lambda>i. ici_hash i \<noteq> hash) cache of
           [] \<Rightarrow> cache
         | info # after \<Rightarrow>
             let info = f info;
                 in_place = (before = [] \<or> ici_arrival (last before) \<le> ici_arrival info)
                   \<and> (after = [] \<or> ici_arrival info \<le> ici_arrival (hd after))
             in if in_place then before @ info # after else cache_insert info (before @ after))"

definition cache_erase :: "block_hash \<Rightarrow> inactive_cache \<Rightarrow> inactive_cache" where
  "cache_erase hash cache = filter (\<lambda>i. ici_hash i \<noteq> hash) cache"

section \<open>The container\<close>

record conflict_info =
  cf_root :: qualified_root
  cf_election :: nat
  cf_epoch :: epoch
  cf_previous_balance :: u128

datatype active_effect =
  Ae_election election_effect
| Ae_height_add block
| Ae_process_later election_status nat
| Ae_vacancy
| Ae_stopped block_hash
| Ae_filter_clear block
| Ae_flood_vote vote
| Ae_bootstrap_start block_hash
| Ae_receive_confirmed block_hash account
| Ae_observe_block election_status account u128 bool bool
| Ae_observe_balance account bool
| Ae_canary
| Ae_activate account

record active =
  at_roots :: "conflict_info list"
  at_heap :: "nat \<rightharpoonup> election"
  at_next :: nat
  at_blocks :: "block_hash \<rightharpoonup> nat"
  at_winners :: "block_hash \<rightharpoonup> nat"
  at_recently_confirmed :: "(qualified_root \<times> block_hash) list"
  at_recently_cemented :: "election_status list"
  at_cache :: inactive_cache
  at_halted :: bool
  at_effects :: "active_effect list"

text \<open>The configuration, and the rest of the node as an operation meets it.\<close>

record active_env =
  ae_election :: election_env
  ae_ledger :: ledger
  ae_constants :: ledger_constants
  ae_active_size :: nat
  ae_cache_size :: nat
  ae_history_size :: nat
  ae_hint_percent :: u128
  ae_beta_network :: bool
  ae_disable_lazy :: bool
  ae_disable_legacy :: bool
  ae_bootstrap_numerator :: u128
  ae_iterations :: nat
  ae_bootstrap_max :: u64
  ae_processing_added :: "block_hash \<Rightarrow> bool"
  ae_processing :: "block_hash \<Rightarrow> bool"
  ae_half_rep :: bool
  ae_own_rep :: "account \<Rightarrow> bool"

definition active_new :: active where
  "active_new =
     \<lparr>at_roots = [], at_heap = Map.empty, at_next = 0, at_blocks = Map.empty, at_winners = Map.empty,
      at_recently_confirmed = [], at_recently_cemented = [], at_cache = [], at_halted = False, at_effects = []\<rparr>"

definition active_emit :: "active_effect \<Rightarrow> active \<Rightarrow> active" where
  "active_emit f s = s\<lparr>at_effects := at_effects s @ [f]\<rparr>"

text \<open>An entry of a hash map that exists stays.\<close>

definition emplace :: "'a \<Rightarrow> 'b \<Rightarrow> ('a \<rightharpoonup> 'b) \<Rightarrow> 'a \<rightharpoonup> 'b" where
  "emplace x y m = (if m x = None then m(x \<mapsto> y) else m)"

definition find_root :: "qualified_root \<Rightarrow> active \<Rightarrow> conflict_info option" where
  "find_root root_a s = find (\<lambda>i. cf_root i = root_a) (at_roots s)"

definition active_root :: "qualified_root \<Rightarrow> active \<Rightarrow> bool" where
  "active_root root_a s \<longleftrightarrow> find_root root_a s \<noteq> None"

definition active_block :: "crypto \<Rightarrow> block \<Rightarrow> active \<Rightarrow> bool" where
  "active_block c block_a s \<longleftrightarrow>
     find_root (block_qualified_root block_a) s \<noteq> None \<and> at_blocks s (generate_hash c block_a) \<noteq> None"

definition active_election :: "qualified_root \<Rightarrow> active \<Rightarrow> nat option" where
  "active_election root_a s = map_option cf_election (find_root root_a s)"

definition active_winner :: "block_hash \<Rightarrow> active \<Rightarrow> block option" where
  "active_winner hash_a s =
     (case at_blocks s hash_a of
        None \<Rightarrow> None
      | Some n \<Rightarrow> map_option (\<lambda>e. es_winner (el_status e)) (at_heap s n))"

definition list_active :: "nat \<Rightarrow> active \<Rightarrow> nat list" where
  "list_active max_a s = take max_a (map cf_election (at_roots s))"

definition active_size :: "active \<Rightarrow> nat" where
  "active_size s = length (at_roots s)"

definition active_empty :: "active \<Rightarrow> bool" where
  "active_empty s \<longleftrightarrow> at_roots s = []"

definition vacancy :: "active_env \<Rightarrow> active \<Rightarrow> int" where
  "vacancy v s = int (ae_active_size v) - int (length (at_roots s))"

definition add_election_winner_details :: "block_hash \<Rightarrow> nat \<Rightarrow> active \<Rightarrow> active" where
  "add_election_winner_details hash_a n s = s\<lparr>at_winners := emplace hash_a n (at_winners s)\<rparr>"

definition remove_election_winner_details :: "block_hash \<Rightarrow> active \<Rightarrow> active" where
  "remove_election_winner_details hash_a s = s\<lparr>at_winners := (at_winners s)(hash_a := None)\<rparr>"

definition block_already_cemented_callback :: "block_hash \<Rightarrow> active \<Rightarrow> active" where
  "block_already_cemented_callback hash_a s = remove_election_winner_details hash_a s"

definition add_recently_cemented :: "active_env \<Rightarrow> election_status \<Rightarrow> active \<Rightarrow> active" where
  "add_recently_cemented v status_a s =
     (let l = at_recently_cemented s @ [status_a]
      in s\<lparr>at_recently_cemented := (if ae_history_size v < length l then tl l else l)\<rparr>)"

definition recently_confirmed_size :: nat where
  "recently_confirmed_size = 65536"

text \<open>Neither a root nor a hash is entered twice.\<close>

definition add_recently_confirmed :: "qualified_root \<Rightarrow> block_hash \<Rightarrow> active \<Rightarrow> active" where
  "add_recently_confirmed root_a hash_a s =
     (let l = at_recently_confirmed s;
          l = (if root_a \<in> fst ` set l \<or> hash_a \<in> snd ` set l then l else l @ [(root_a, hash_a)])
      in s\<lparr>at_recently_confirmed := (if recently_confirmed_size < length l then tl l else l)\<rparr>)"

definition erase_recently_confirmed :: "block_hash \<Rightarrow> active \<Rightarrow> active" where
  "erase_recently_confirmed hash_a s =
     s\<lparr>at_recently_confirmed := filter (\<lambda>i. snd i \<noteq> hash_a) (at_recently_confirmed s)\<rparr>"

definition erase_hash :: "block_hash \<Rightarrow> active \<Rightarrow> active" where
  "erase_hash hash_a s = s\<lparr>at_blocks := (at_blocks s)(hash_a := None)\<rparr>"

definition find_inactive_votes_cache :: "block_hash \<Rightarrow> active \<Rightarrow> inactive_cache_information" where
  "find_inactive_votes_cache hash_a s =
     (case cache_find hash_a (at_cache s) of None \<Rightarrow> empty_information | Some info \<Rightarrow> info)"

definition erase_inactive_votes_cache :: "block_hash \<Rightarrow> active \<Rightarrow> active" where
  "erase_inactive_votes_cache hash_a s = s\<lparr>at_cache := cache_erase hash_a (at_cache s)\<rparr>"

text \<open>\<^verbatim>\<open>node::block_confirmed_or_being_confirmed\<close>.\<close>

definition block_confirmed_or_being_confirmed :: "active_env \<Rightarrow> block_hash \<Rightarrow> bool" where
  "block_confirmed_or_being_confirmed v hash_a \<longleftrightarrow> ae_processing v hash_a \<or> block_confirmed (ae_ledger v) hash_a"

definition bootstrap_threshold :: "u128 \<Rightarrow> u128 \<Rightarrow> u128" where
  "bootstrap_threshold trended bootstrap_fraction_numerator = (trended div 256) * bootstrap_fraction_numerator"

section \<open>Confirmed blocks\<close>

text \<open>
  \<^verbatim>\<open>node::process_confirmed\<close>: a winner that is not in the ledger yet is tried again later, and given up after some
  time.
\<close>

definition process_confirmed :: "crypto \<Rightarrow> active_env \<Rightarrow> election_status \<Rightarrow> nat \<Rightarrow> active \<Rightarrow> active" where
  "process_confirmed c v status_a iteration_a s =
     (let hash = generate_hash c (es_winner status_a) in
      case block_get (blocks_of (ae_ledger v)) hash of
        Some block_l \<Rightarrow>
          active_emit (Ae_height_add (fst block_l)) (add_recently_confirmed (block_qualified_root (fst block_l)) hash s)
      | None \<Rightarrow>
          if iteration_a < ae_iterations v then active_emit (Ae_process_later status_a (iteration_a + 1)) s
          else remove_election_winner_details hash s)"

text \<open>\<^verbatim>\<open>node::process_confirmed_data\<close>: account, amount, whether a state block sends or is an epoch block, and the other account.\<close>

definition process_confirmed_data ::
  "active_env \<Rightarrow> u128 \<Rightarrow> block_entry \<Rightarrow> block_hash \<Rightarrow> (account \<times> u128 \<times> bool \<times> bool \<times> account) option" where
  "process_confirmed_data v dev_genesis_amount block_a hash_a =
     do { let acct = (if block_account (fst block_a) = 0 then sb_account (snd block_a) else block_account (fst block_a));
          (previous_balance, err) \<leftarrow> balance_safe (ae_ledger v) (block_previous (fst block_a)) False;
          let block_balance = balance_calculated block_a;
          let amount = (if hash_a \<noteq> block_account (k_genesis (ae_constants v))
                        then (if \<not> err then amount_difference block_balance previous_balance else 0)
                        else dev_genesis_amount);
          Some (case fst block_a of
                  State b \<Rightarrow> (acct, amount, state_balance (state_h b) < previous_balance,
                              amount = 0 \<and> is_epoch_link (ae_constants v) (state_link (state_h b)), state_link (state_h b))
                | Send b \<Rightarrow> (acct, amount, False, False, send_destination (send_h b))
                | _ \<Rightarrow> (acct, amount, False, False, 0)) }"

end
