(* ===== verification/Active.thy ===== *)
theory Active
  imports Active_Data
begin

declare split_paired_All [simp del] split_paired_Ex [simp del]

text \<open>
  \<^verbatim>\<open>node/active_transactions.cpp\<close>: the operations that work on elections.  Each runs with the mutex held; where
  the source releases it between two parts, \<open>publish\<close> is split at that point.  \<open>None\<close> is an access past the end of
  a container or a missing entry of the ledger.
\<close>

section \<open>An operation of an election\<close>

definition env_of :: "active_env \<Rightarrow> active \<Rightarrow> election_env" where
  "env_of v s = (ae_election v)\<lparr>ee_inactive_tally := \<lambda>hash. ics_tally (ici_status (find_inactive_votes_cache hash s))\<rparr>"

text \<open>What the operation does to the container and to the rest of the node.\<close>

definition apply_effect :: "crypto \<Rightarrow> active_env \<Rightarrow> election_effect \<Rightarrow> active \<Rightarrow> active" where
  "apply_effect c v f s =
     (case f of
        Process_confirmed status \<Rightarrow> process_confirmed c v status 0 s
      | Active_erase_hash hash \<Rightarrow> erase_hash hash s
      | _ \<Rightarrow> active_emit (Ae_election f) s)"

definition ctx_of :: "nat \<Rightarrow> election \<Rightarrow> active \<Rightarrow> election_ctx" where
  "ctx_of n e s = \<lparr>ec_election = e, ec_winners = dom (at_winners s), ec_effects = []\<rparr>"

definition put_ctx :: "crypto \<Rightarrow> active_env \<Rightarrow> nat \<Rightarrow> election_ctx \<Rightarrow> active \<Rightarrow> active" where
  "put_ctx c v n x s =
     fold (apply_effect c v) (ec_effects x)
       (s\<lparr>at_heap := (at_heap s)(n \<mapsto> ec_election x),
          at_winners := (\<lambda>h. if h \<in> ec_winners x then (case at_winners s h of None \<Rightarrow> Some n | Some m \<Rightarrow> Some m) else None)\<rparr>)"

definition on_election ::
  "crypto \<Rightarrow> active_env \<Rightarrow> nat \<Rightarrow> (election_ctx \<Rightarrow> ('a \<times> election_ctx) option) \<Rightarrow> active \<Rightarrow> ('a \<times> active) option" where
  "on_election c v n f s =
     do { e \<leftarrow> at_heap s n; (r, x) \<leftarrow> f (ctx_of n e s); Some (r, put_ctx c v n x s) }"

definition election_generate_votes :: "crypto \<Rightarrow> active_env \<Rightarrow> nat \<Rightarrow> active \<Rightarrow> active option" where
  "election_generate_votes c v n s =
     map_option snd (on_election c v n (\<lambda>x. map_option (Pair ()) (generate_votes c (env_of v s) x)) s)"

definition election_insert_cache :: "crypto \<Rightarrow> active_env \<Rightarrow> nat \<Rightarrow> block_hash \<Rightarrow> active \<Rightarrow> active option" where
  "election_insert_cache c v n hash s =
     (let cache = find_inactive_votes_cache hash s
      in map_option snd (on_election c v n (insert_inactive_votes_cache c (env_of v s) (ici_hash cache) (ici_voters cache)) s))"

section \<open>Insertion\<close>

definition insert_balance :: "active_env \<Rightarrow> block \<Rightarrow> u128 option \<Rightarrow> u128 option" where
  "insert_balance v block_a previous_balance_a =
     (case previous_balance_a of
        Some balance \<Rightarrow> Some balance
      | None \<Rightarrow>
          if block_previous block_a \<noteq> 0 \<and> block_exists (blocks_of (ae_ledger v)) (block_previous block_a)
          then ledger_balance (ae_ledger v) (block_previous block_a) else Some 0)"

definition insert_election ::
  "crypto \<Rightarrow> active_env \<Rightarrow> block_entry \<Rightarrow> u128 \<Rightarrow> election_behavior \<Rightarrow> active \<Rightarrow> active" where
  "insert_election c v block_a previous_balance behavior_a s =
     (let hash = generate_hash c (fst block_a);
          n = at_next s;
          (e, effects) = election_new c (env_of v s) (fst block_a) (sb_height (snd block_a)) behavior_a
      in s\<lparr>at_heap := (at_heap s)(n \<mapsto> e), at_next := n + 1,
           at_roots := at_roots s @ [\<lparr>cf_root = block_qualified_root (fst block_a), cf_election = n,
             cf_epoch = bd_epoch (sb_details (snd block_a)), cf_previous_balance = previous_balance\<rparr>],
           at_blocks := emplace hash n (at_blocks s),
           at_effects := at_effects s @ map Ae_election effects\<rparr>)"

definition insert_impl ::
  "crypto \<Rightarrow> active_env \<Rightarrow> block_entry \<Rightarrow> u128 option \<Rightarrow> election_behavior \<Rightarrow> active \<Rightarrow> ((nat option \<times> bool) \<times> active) option" where
  "insert_impl c v block_a previous_balance_a behavior_a s =
     (let root = block_qualified_root (fst block_a) in
      if at_halted s then Some ((None, False), s)
      else case find_root root s of
        Some existing \<Rightarrow>
          do { s \<leftarrow> election_generate_votes c v (cf_election existing) s; Some ((Some (cf_election existing), False), s) }
      | None \<Rightarrow>
          if root \<notin> fst ` set (at_recently_confirmed s) then
            do { previous_balance \<leftarrow> insert_balance v (fst block_a) previous_balance_a;
                 let n = at_next s;
                 let s = insert_election c v block_a previous_balance behavior_a s;
                 s \<leftarrow> election_insert_cache c v n (generate_hash c (fst block_a)) s;
                 s \<leftarrow> election_generate_votes c v n (active_emit Ae_vacancy s);
                 Some ((Some n, True), s) }
          else Some ((None, False), s))"

section \<open>Votes for unknown blocks\<close>

definition election_start_voters_min :: "active_env \<Rightarrow> nat" where
  "election_start_voters_min v =
     (if ee_dev_network (ae_election v) then 2 else if ae_beta_network v then 5 else 15)"

definition check_status :: "active_env \<Rightarrow> u128 \<Rightarrow> nat \<Rightarrow> inactive_cache_status \<Rightarrow> inactive_cache_status" where
  "check_status v tally_a voters_size_a previously_a =
     (let status = previously_a\<lparr>ics_tally := tally_a\<rparr>;
          status =
            (if \<not> ics_confirmed previously_a \<and> ee_delta (ae_election v) \<le> tally_a
             then status\<lparr>ics_bootstrap_started := True, ics_confirmed := True\<rparr>
             else if \<not> ics_bootstrap_started previously_a \<and> \<not> ae_disable_legacy v \<and> ae_disable_lazy v
                    \<and> bootstrap_threshold (ee_trended (ae_election v)) (ae_bootstrap_numerator v) < tally_a
             then status\<lparr>ics_bootstrap_started := True\<rparr>
             else status)
      in if \<not> ics_election_started previously_a \<and> election_start_voters_min v \<le> voters_size_a
            \<and> (ee_trended (ae_election v) div 100) * ae_hint_percent v \<le> tally_a
         then status\<lparr>ics_election_started := True\<rparr> else status)"

definition inactive_votes_bootstrap_check_impl ::
  "crypto \<Rightarrow> active_env \<Rightarrow> u128 \<Rightarrow> nat \<Rightarrow> block_hash \<Rightarrow> inactive_cache_status \<Rightarrow> active \<Rightarrow> (inactive_cache_status \<times> active) option" where
  "inactive_votes_bootstrap_check_impl c v tally_a voters_size_a hash_a previously_a s =
     (let status = check_status v tally_a voters_size_a previously_a;
          start_election = ics_election_started status \<and> \<not> ics_election_started previously_a;
          start_bootstrap = ics_bootstrap_started status \<and> \<not> ics_bootstrap_started previously_a
      in if start_election \<or> start_bootstrap then
           case block_get (blocks_of (ae_ledger v)) hash_a of
             Some block \<Rightarrow>
               if start_election \<and> \<not> block_confirmed_or_being_confirmed v hash_a
               then do { (r, s) \<leftarrow> insert_impl c v block None Normal s; Some (status, s) }
               else Some (status, s)
           | None \<Rightarrow>
               if start_bootstrap \<and> (\<not> l_pruning (ae_ledger v) \<or> pruned_of (ae_ledger v) hash_a = None)
               then Some (status, active_emit (Ae_bootstrap_start hash_a) s)
               else Some (status, s)
         else Some (status, s))"

definition voters_tally :: "active_env \<Rightarrow> (account \<times> u64) list \<Rightarrow> u128" where
  "voters_tally v voters = sum_list (map (\<lambda>(voter, timestamp). ee_weight (ae_election v) voter) voters)"

definition set_cache_status :: "block_hash \<Rightarrow> inactive_cache_status \<Rightarrow> active \<Rightarrow> active" where
  "set_cache_status hash_a status s = s\<lparr>at_cache := cache_modify hash_a (\<lambda>info. info\<lparr>ici_status := status\<rparr>) (at_cache s)\<rparr>"

definition cache_old_vote ::
  "crypto \<Rightarrow> active_env \<Rightarrow> block_hash \<Rightarrow> account \<Rightarrow> u64 \<Rightarrow> inactive_cache_information \<Rightarrow> active \<Rightarrow> active option" where
  "cache_old_vote c v hash_a representative_a timestamp_a existing s =
     (if needs_eval existing \<and> representative_a \<notin> fst ` set (ici_voters existing) then
        do { let voters = ici_voters existing @ [(representative_a, timestamp_a)];
             let s = s\<lparr>at_cache := cache_modify hash_a
                         (\<lambda>info. info\<lparr>ici_arrival := ee_now (ae_election v), ici_voters := voters\<rparr>) (at_cache s)\<rparr>;
             (status, s) \<leftarrow> inactive_votes_bootstrap_check_impl c v (voters_tally v voters) (length voters) hash_a
                              (ici_status existing) s;
             Some (if status \<noteq> ici_status existing then set_cache_status hash_a status s else s) }
      else Some s)"

definition cache_new_vote ::
  "crypto \<Rightarrow> active_env \<Rightarrow> block_hash \<Rightarrow> account \<Rightarrow> u64 \<Rightarrow> active \<Rightarrow> active option" where
  "cache_new_vote c v hash_a representative_a timestamp_a s =
     do { let s = s\<lparr>at_cache := cache_insert
                      \<lparr>ici_arrival = ee_now (ae_election v), ici_hash = hash_a, ici_status = default_status,
                       ici_voters = [(representative_a, timestamp_a)]\<rparr> (at_cache s)\<rparr>;
          (status, s) \<leftarrow> inactive_votes_bootstrap_check_impl c v (ee_weight (ae_election v) representative_a) 1 hash_a
                           default_status s;
          let s = (if status \<noteq> default_status then set_cache_status hash_a status s else s);
          Some (if ae_cache_size v < length (at_cache s) then s\<lparr>at_cache := tl (at_cache s)\<rparr> else s) }"

definition add_inactive_votes_cache ::
  "crypto \<Rightarrow> active_env \<Rightarrow> block_hash \<Rightarrow> account \<Rightarrow> u64 \<Rightarrow> active \<Rightarrow> active option" where
  "add_inactive_votes_cache c v hash_a representative_a timestamp_a s =
     (if minimum_principal_weight (ee_trended (ae_election v)) < ee_weight (ae_election v) representative_a then
        case cache_find hash_a (at_cache s) of
          Some existing \<Rightarrow> cache_old_vote c v hash_a representative_a timestamp_a existing s
        | None \<Rightarrow> cache_new_vote c v hash_a representative_a timestamp_a s
      else Some s)"

definition trigger_inactive_votes_cache_election :: "crypto \<Rightarrow> active_env \<Rightarrow> block_entry \<Rightarrow> active \<Rightarrow> active option" where
  "trigger_inactive_votes_cache_election c v block_a s =
     (if ics_election_started (ici_status (find_inactive_votes_cache (generate_hash c (fst block_a)) s))
      then map_option snd (insert_impl c v block_a None Normal s) else Some s)"

section \<open>Votes\<close>

datatype vote_code = Vc_invalid | Vc_replay | Vc_vote | Vc_indeterminate

definition vote_target :: "crypto \<Rightarrow> vote_item \<Rightarrow> active \<Rightarrow> nat option" where
  "vote_target c item s =
     (case item of
        Vote_hash hash \<Rightarrow> at_blocks s hash
      | Vote_block block \<Rightarrow> active_election (block_qualified_root block) s)"

text \<open>The elections a vote goes to, and the number of its blocks that were confirmed lately.\<close>

fun vote_targets ::
  "crypto \<Rightarrow> active_env \<Rightarrow> account \<Rightarrow> u64 \<Rightarrow> vote_item list \<Rightarrow> (nat \<times> block_hash) list \<Rightarrow> nat \<Rightarrow> active \<Rightarrow>
   ((nat \<times> block_hash) list \<times> nat \<times> active) option" where
  "vote_targets c v rep timestamp [] targets counter s = Some (targets, counter, s)"
| "vote_targets c v rep timestamp (item # items) targets counter s =
     (let hash = iterate_vote_blocks_as_hash c item in
      case vote_target c item s of
        Some n \<Rightarrow> vote_targets c v rep timestamp items (targets @ [(n, hash)]) counter s
      | None \<Rightarrow>
          if hash \<notin> snd ` set (at_recently_confirmed s) then
            do { s \<leftarrow> add_inactive_votes_cache c v hash rep timestamp s;
                 vote_targets c v rep timestamp items targets counter s }
          else vote_targets c v rep timestamp items targets (counter + 1) s)"

fun vote_elections ::
  "crypto \<Rightarrow> active_env \<Rightarrow> account \<Rightarrow> u64 \<Rightarrow> (nat \<times> block_hash) list \<Rightarrow> bool \<Rightarrow> bool \<Rightarrow> active \<Rightarrow>
   (bool \<times> bool \<times> active) option" where
  "vote_elections c v rep timestamp [] replay processed s = Some (replay, processed, s)"
| "vote_elections c v rep timestamp ((n, hash) # targets) replay processed s =
     do { ((r, p), s) \<leftarrow> on_election c v n (election_vote c (env_of v s) rep timestamp hash) s;
          vote_elections c v rep timestamp targets (replay \<or> r) (processed \<or> p) s }"

definition active_vote :: "crypto \<Rightarrow> active_env \<Rightarrow> vote \<Rightarrow> active \<Rightarrow> (vote_code \<times> active) option" where
  "active_vote c v vote_a s =
     do { let rep = vote_account vote_a;
          let timestamp = vote_timestamp vote_a;
          (targets, counter, s) \<leftarrow> vote_targets c v rep timestamp (vote_blocks vote_a) [] 0 s;
          if targets \<noteq> [] then
            do { (replay, processed, s) \<leftarrow> vote_elections c v rep timestamp targets False False s;
                 let s = (if processed \<and> \<not> ae_half_rep v \<and> \<not> ae_own_rep v rep
                          then active_emit (Ae_flood_vote vote_a) s else s);
                 Some (if replay then Vc_replay else Vc_vote, s) }
          else Some (if counter = length (vote_blocks vote_a) then Vc_replay else Vc_indeterminate, s) }"

section \<open>Removal\<close>

definition cleanup_blocks :: "last_blocks \<Rightarrow> active \<Rightarrow> active" where
  "cleanup_blocks blocks_l s = fold (\<lambda>(hash, block) s. erase_inactive_votes_cache hash (erase_hash hash s)) blocks_l s"

definition cleanup_effects :: "crypto \<Rightarrow> election \<Rightarrow> active_effect list" where
  "cleanup_effects c e =
     Ae_vacancy # concat (map (\<lambda>(hash, block).
       (if \<not> confirmed e \<or> hash \<noteq> winner_hash c e then [Ae_stopped hash] else []) @
       (if \<not> confirmed e then [Ae_filter_clear block] else [])) (el_last_blocks e))"

definition cleanup_election :: "crypto \<Rightarrow> election \<Rightarrow> active \<Rightarrow> active" where
  "cleanup_election c e s =
     (let s = cleanup_blocks (el_last_blocks e) s
      in s\<lparr>at_roots := filter (\<lambda>i. cf_root i \<noteq> el_qualified_root e) (at_roots s),
           at_effects := at_effects s @ cleanup_effects c e\<rparr>)"

definition erase_root :: "crypto \<Rightarrow> qualified_root \<Rightarrow> active \<Rightarrow> active option" where
  "erase_root c root_a s =
     (case find_root root_a s of
        None \<Rightarrow> Some s
      | Some i \<Rightarrow> map_option (\<lambda>e. cleanup_election c e s) (at_heap s (cf_election i)))"

definition erase_block :: "crypto \<Rightarrow> block \<Rightarrow> active \<Rightarrow> active option" where
  "erase_block c block_a s = erase_root c (block_qualified_root block_a) s"

definition erase_oldest :: "crypto \<Rightarrow> active \<Rightarrow> active option" where
  "erase_oldest c s =
     (case at_roots s of
        [] \<Rightarrow> Some s
      | item # _ \<Rightarrow> map_option (\<lambda>e. cleanup_election c e s) (at_heap s (cf_election item)))"

definition active_stop :: "active \<Rightarrow> active" where
  "active_stop s = s\<lparr>at_halted := True, at_roots := []\<rparr>"

section \<open>Blocks\<close>

text \<open>
  \<open>publish\<close> in two parts.  The first finds the election and gives it the block; between the parts the mutex is
  free; the second enters the block.
\<close>

definition publish_start :: "crypto \<Rightarrow> active_env \<Rightarrow> block \<Rightarrow> active \<Rightarrow> ((bool \<times> nat) \<times> active) option" where
  "publish_start c v block_a s =
     (case active_election (block_qualified_root block_a) s of
        None \<Rightarrow> Some ((True, 0), s)
      | Some n \<Rightarrow>
          do { (result, s) \<leftarrow> on_election c v n (election_publish c (env_of v s) block_a) s; Some ((result, n), s) })"

definition publish_finish :: "crypto \<Rightarrow> active_env \<Rightarrow> block \<Rightarrow> nat \<Rightarrow> active \<Rightarrow> active option" where
  "publish_finish c v block_a n s =
     (let hash = generate_hash c block_a
      in election_insert_cache c v n hash (s\<lparr>at_blocks := emplace hash n (at_blocks s)\<rparr>))"

definition active_publish :: "crypto \<Rightarrow> active_env \<Rightarrow> block \<Rightarrow> active \<Rightarrow> (bool \<times> active) option" where
  "active_publish c v block_a s =
     do { ((result, n), s) \<leftarrow> publish_start c v block_a s;
          if \<not> result then map_option (Pair result) (publish_finish c v block_a n s) else Some (result, s) }"

text \<open>The type of the status, when callbacks follow.\<close>

definition confirm_block ::
  "crypto \<Rightarrow> active_env \<Rightarrow> block_hash \<Rightarrow> active \<Rightarrow> (election_status_type option \<times> active) option" where
  "confirm_block c v hash s =
     (case at_blocks s hash of
        None \<Rightarrow> Some (Some Inactive_confirmation_height, s)
      | Some n \<Rightarrow>
          on_election c v n (\<lambda>x.
            Some (if winner_hash c (ec_election x) = hash then
                    if \<not> confirmed (ec_election x)
                    then (Some Active_confirmation_height, confirm_once c (env_of v s) Active_confirmation_height x)
                    else (Some Active_confirmed_quorum, x)
                  else (None, x))) s)"

section \<open>Cemented blocks\<close>

definition observe_balances :: "account \<Rightarrow> u128 \<Rightarrow> account \<Rightarrow> active_effect list" where
  "observe_balances acct amount pending_account =
     (if 0 < amount then
        Ae_observe_balance acct False # (if pending_account \<noteq> 0 then [Ae_observe_balance pending_account True] else [])
      else [])"

definition inactive_status :: "active_env \<Rightarrow> block \<Rightarrow> election_status" where
  "inactive_status v block_a =
     \<lparr>es_winner = block_a, es_tally = 0, es_final_tally = 0,
      es_election_end = ee_system_now (ae_election v) div milliseconds, es_election_duration = 0,
      es_confirmation_request_count = 0, es_block_count = 1, es_voter_count = 0, es_type = Inactive_confirmation_height\<rparr>"

definition cemented_winner ::
  "crypto \<Rightarrow> active_env \<Rightarrow> u128 \<Rightarrow> block_entry \<Rightarrow> election_status_type \<Rightarrow> active \<Rightarrow> active option" where
  "cemented_winner c v dev_genesis_amount block_a type_a s =
     (let hash = generate_hash c (fst block_a) in
      case at_winners s hash of
        None \<Rightarrow> Some s
      | Some n \<Rightarrow>
          do { e \<leftarrow> at_heap s n;
               let s = remove_election_winner_details hash s;
               if confirmed e \<and> winner_hash c e = hash then
                 do { (acct, amount, is_state_send, is_state_epoch, pending_account)
                        \<leftarrow> process_confirmed_data v dev_genesis_amount block_a hash;
                      let s = add_recently_cemented v (el_status e) s;
                      let destination = (if block_link (fst block_a) = 0 then block_destination (fst block_a)
                                         else block_link (fst block_a));
                      let status = (el_status e)\<lparr>es_type := type_a,
                            es_confirmation_request_count := el_confirmation_request_count e\<rparr>;
                      Some (s\<lparr>at_heap := (at_heap s)(n \<mapsto> e\<lparr>el_status := status\<rparr>),
                              at_effects := at_effects s @ [Ae_receive_confirmed hash destination,
                                Ae_observe_block status acct amount is_state_send is_state_epoch]
                                @ observe_balances acct amount pending_account\<rparr>) }
               else Some s })"

definition cemented_inactive ::
  "crypto \<Rightarrow> active_env \<Rightarrow> u128 \<Rightarrow> block_entry \<Rightarrow> active \<Rightarrow> active option" where
  "cemented_inactive c v dev_genesis_amount block_a s =
     do { (acct, amount, is_state_send, is_state_epoch, pending_account)
            \<leftarrow> process_confirmed_data v dev_genesis_amount block_a (generate_hash c (fst block_a));
          Some (active_emit (Ae_observe_block (inactive_status v (fst block_a)) acct amount is_state_send is_state_epoch) s) }"

definition cemented_activations :: "active_env \<Rightarrow> block_entry \<Rightarrow> election_status_type \<Rightarrow> active \<Rightarrow> active option" where
  "cemented_activations v block_a type_a s =
     (let acct = account_calculated block_a;
          canary = \<not> lc_final_votes_confirmation_canary (l_cache (ae_ledger v))
            \<and> acct = k_final_votes_canary_account (ae_constants v)
            \<and> k_final_votes_canary_height (ae_constants v) \<le> sb_height (snd block_a);
          s = (if canary then active_emit Ae_canary s else s);
          count_reached = (ae_bootstrap_max v \<le> lc_cemented_count (l_cache (ae_ledger v)));
          was_active = (type_a = Active_confirmed_quorum \<or> type_a = Active_confirmation_height)
      in if count_reached \<and> was_active then
           do { destination \<leftarrow> ledger_block_destination (ae_ledger v) (fst block_a) (Some (snd block_a));
                let s = active_emit (Ae_activate acct) s;
                Some (if destination \<noteq> 0 \<and> destination \<noteq> acct then active_emit (Ae_activate destination) s else s) }
         else Some s)"

definition block_cemented_callback ::
  "crypto \<Rightarrow> active_env \<Rightarrow> u128 \<Rightarrow> block_entry \<Rightarrow> active \<Rightarrow> active option" where
  "block_cemented_callback c v dev_genesis_amount block_a s =
     do { let hash = generate_hash c (fst block_a);
          (status_type, s) \<leftarrow>
            (if \<not> ae_processing_added v hash then confirm_block c v hash s else Some (Some Active_confirmed_quorum, s));
          case status_type of
            None \<Rightarrow> Some s
          | Some type_a \<Rightarrow>
              do { s \<leftarrow> (if type_a = Inactive_confirmation_height then cemented_inactive c v dev_genesis_amount block_a s
                         else cemented_winner c v dev_genesis_amount block_a type_a s);
                   cemented_activations v block_a type_a s } }"

section \<open>The request loop\<close>

fun request_elections ::
  "crypto \<Rightarrow> active_env \<Rightarrow> nat \<Rightarrow> nat list \<Rightarrow> solicitor \<Rightarrow> active \<Rightarrow> (solicitor \<times> active) option" where
  "request_elections c v batches [] sol s = Some (sol, s)"
| "request_elections c v batches (n # ns) sol s =
     do { ((result, sol), s) \<leftarrow> on_election c v n (\<lambda>x.
            case transition_time c (env_of v s) batches (sol, x) of (result, sol, x) \<Rightarrow> Some ((result, sol), x)) s;
          e \<leftarrow> at_heap s n;
          s \<leftarrow> (if result then erase_root c (el_qualified_root e) s else Some s);
          request_elections c v batches ns sol s }"

definition request_confirm ::
  "crypto \<Rightarrow> active_env \<Rightarrow> nat \<Rightarrow> nat \<Rightarrow> representative list \<Rightarrow> active \<Rightarrow> active option" where
  "request_confirm c v fanout batches reps s =
     do { let sol = solicitor_prepare reps (solicitor_new (ee_dev_network (ae_election v)) fanout);
          (sol, s) \<leftarrow> request_elections c v batches (list_active (length (at_roots s)) s) sol s;
          let (sol, effects) = solicitor_flush sol;
          Some (s\<lparr>at_effects := at_effects s @ map Ae_election effects\<rparr>) }"

end
