(* ===== verification/Active_Frame.thy ===== *)
theory Active_Frame
  imports Active Election_Run Election_Blocks
begin

declare split_paired_All [simp del] split_paired_Ex [simp del]

text \<open>
  What an operation of an election leaves as it is, as far as the container of elections relies on it: the
  root, the blocks, and the hashes that the election knows of.
\<close>

definition known_hashes :: "election \<Rightarrow> block_hash set" where
  "known_hashes e =
     fst ` set (el_last_blocks e) \<union> voted (el_last_votes e) \<union> fst ` set (el_last_tally e)"

definition erased :: "election_effect list \<Rightarrow> block_hash set" where
  "erased fs = {h. Active_erase_hash h \<in> set fs}"

text \<open>The blocks stay; the hashes of \<open>H\<close> may become known.\<close>

definition stays :: "block_hash set \<Rightarrow> election_ctx \<Rightarrow> election_ctx \<Rightarrow> bool" where
  "stays H x x' \<longleftrightarrow>
     el_last_blocks (ec_election x') = el_last_blocks (ec_election x)
     \<and> el_qualified_root (ec_election x') = el_qualified_root (ec_election x)
     \<and> erased (ec_effects x') = erased (ec_effects x)
     \<and> known_hashes (ec_election x') \<subseteq> known_hashes (ec_election x) \<union> H
     \<and> (distinct (map fst (el_last_tally (ec_election x))) \<longrightarrow> distinct (map fst (el_last_tally (ec_election x'))))"

lemma stays_refl [simp]: "stays H x x"
  by (simp add: stays_def)

lemma stays_same:
  "el_last_blocks (ec_election x') = el_last_blocks (ec_election x) \<Longrightarrow>
   el_qualified_root (ec_election x') = el_qualified_root (ec_election x) \<Longrightarrow>
   el_last_votes (ec_election x') = el_last_votes (ec_election x) \<Longrightarrow>
   el_last_tally (ec_election x') = el_last_tally (ec_election x) \<Longrightarrow>
   erased (ec_effects x') = erased (ec_effects x) \<Longrightarrow> stays H x x'"
  by (auto simp: stays_def known_hashes_def)

lemma stays_trans: "stays H x y \<Longrightarrow> stays H y z \<Longrightarrow> stays H x z"
  by (auto simp: stays_def)

lemma stays_mono: "stays H x y \<Longrightarrow> H \<subseteq> H' \<Longrightarrow> stays H' x y"
  by (auto simp: stays_def)

lemma erased_simps [simp]:
  "erased [] = {}" "erased (fs @ gs) = erased fs \<union> erased gs"
  "erased (f # fs) = (case f of Active_erase_hash h \<Rightarrow> {h} | _ \<Rightarrow> {}) \<union> erased fs"
  by (auto simp: erased_def split: election_effect.splits)

lemma voted_subset: "set vs \<subseteq> set ws \<Longrightarrow> voted vs \<subseteq> voted ws"
  by (auto simp: voted_def)

lemma voted_update: "voted (AList.update a i vs) \<subseteq> insert (vi_hash i) (voted vs)"
  using update_subset [of a i vs] by (fastforce simp: voted_def)

lemma vote_weights_distinct: "distinct (map fst (vote_weights v votes))"
proof -
  have d: "distinct (map fst al) \<Longrightarrow> distinct (map fst (weight_add h w al))" for h w al
    unfolding weight_add_def by (rule distinct_map_default)
  have "distinct (map fst al) \<Longrightarrow>
      distinct (map fst (fold (\<lambda>(account, info). weight_add (vi_hash info) (ee_weight v account)) votes al))" for al
    by (induction votes arbitrary: al) (auto intro: d)
  then show ?thesis by (simp add: vote_weights_def)
qed

lemma stays_tallied: "stays H x (x\<lparr>ec_election := tallied c v w (ec_election x)\<rparr>)"
proof -
  have "el_last_tally (tallied c v w e) = vote_weights v (el_last_votes e)" for e
    by (simp add: tallied_def Let_def tally_impl_facts)
  then show ?thesis using keys_vote_weights [of v "el_last_votes (ec_election x)"]
    by (auto simp: stays_def known_hashes_def vote_weights_distinct)
qed

lemma stays_votes:
  "voted vs \<subseteq> voted (el_last_votes (ec_election x)) \<union> H \<Longrightarrow>
    stays H x (x\<lparr>ec_election := (ec_election x)\<lparr>el_last_votes := vs\<rparr>\<rparr>)"
  by (auto simp: stays_def known_hashes_def)

lemma votes_removed_voted: "voted (votes_removed v h e) \<subseteq> voted (el_last_votes e)"
  using fold_delete_subset by (auto simp: votes_removed_def intro!: voted_subset)

lemma stays_switch: "stays H x (switch_winner c v t b x)"
  using votes_removed_voted [of v "winner_hash c (ec_election x)" "ec_election x"]
    votes_removed_voted [of v "winner_hash c (ec_election x)" "(ec_election x)\<lparr>el_status := (el_status (ec_election x))\<lparr>es_winner := b\<rparr>\<rparr>"]
  by (auto simp: stays_def switch_winner_def Let_def remove_votes_def known_hashes_def votes_removed_def)

lemma stays_once: "stays H x (confirm_once c v ty x)"
  by (auto simp: stays_def confirm_once_def Let_def known_hashes_def)

lemma stays_confirm: "stays H x (confirm_quorum c v x)"
proof -
  let ?y = "if ee_canary v then with_election (\<lambda>e. e\<lparr>el_is_quorum := True\<rparr>) x else x"
  let ?z = "if ee_canary v \<and> \<not> el_is_quorum (ec_election x) \<and> ee_voting v
    then emit (Final_generator_add (el_root (ec_election ?y)) (winner_hash c (ec_election ?y))) ?y else ?y"
  have z: "stays H x ?z" by (auto simp: stays_def known_hashes_def)
  have "confirm_quorum c v x =
      (if \<not> ee_canary v \<or> ee_delta v \<le> el_final_weight (ec_election ?z) then confirm_once c v Active_confirmed_quorum ?z else ?z)"
    unfolding confirm_quorum_def Let_def ..
  then show ?thesis using z stays_trans [OF z stays_once] by presburger
qed

lemma stays_if_quorum: "confirm_if_quorum c v x = Some x' \<Longrightarrow> stays H x x'"
  by (auto simp: confirm_if_quorum_unfold Let_def split: list.splits if_splits
      intro: stays_trans [OF stays_trans [OF stays_tallied stays_switch] stays_confirm] stays_trans [OF stays_tallied stays_switch])

lemma stays_vote:
  assumes "election_vote c v rep ts h x = Some (r, x')"
  shows "stays {h} x x'"
proof -
  have e: "stays {h} x (entered_vote v rep ts h x)"
    using voted_update [of rep "\<lparr>vi_time = ee_now v, vi_timestamp = ts, vi_hash = h\<rparr>" "el_last_votes (ec_election x)"]
    by (auto simp: stays_def entered_vote_def known_hashes_def)
  from assms have "x' = x \<or> x' = entered_vote v rep ts h x \<or> confirm_if_quorum c v (entered_vote v rep ts h x) = Some x'"
    by (auto simp: election_vote_unfold Let_def split: if_splits)
  with e stays_trans [OF e stays_if_quorum] show ?thesis by auto
qed

lemma insert_cached_voted: "voted (insert_cached_votes h voters vs) \<subseteq> voted vs \<union> (if voters = [] then {} else {h})"
proof (induction h voters vs rule: insert_cached_votes.induct)
  case (2 h rep ts voters vs)
  then show ?case
    using voted_update [of rep "\<lparr>vi_time = time_point_min, vi_timestamp = ts, vi_hash = h\<rparr>" vs]
    by (auto split: option.splits if_splits)
qed simp

lemma stays_cache:
  assumes "insert_inactive_votes_cache c v h voters x = Some (r, x')"
  shows "stays (if voters = [] then {} else {h}) x x'"
proof -
  let ?y = "with_election (\<lambda>e. e\<lparr>el_last_votes := insert_cached_votes h voters (el_last_votes e)\<rparr>) x"
  have "stays (if voters = [] then {} else {h}) x ?y"
    using insert_cached_voted [of h voters "el_last_votes (ec_election x)"]
    by (auto simp: stays_def known_hashes_def split: if_splits)
  moreover from assms have "x' = ?y \<or> confirm_if_quorum c v ?y = Some x'"
    by (auto simp: insert_inactive_votes_cache_def Let_def split: if_splits)
  ultimately show ?thesis using stays_trans [OF _ stays_if_quorum] by blast
qed

lemma stays_generate: "generate_votes c v x = Some x' \<Longrightarrow> stays H x x'"
proof -
  assume g: "generate_votes c v x = Some x'"
  let ?y = "x\<lparr>ec_election := snd (tally_impl c v (ec_election x))\<rparr>"
  have y: "stays H x ?y"
    using keys_vote_weights [of v "el_last_votes (ec_election x)"]
    by (auto simp: stays_def known_hashes_def tally_impl_facts vote_weights_distinct)
  have e: "stays H z (emit (Final_generator_add r h) z)" "stays H z (emit (Generator_add r h) z)" for z r h
    by (simp_all add: stays_def)
  obtain t e' where t: "tally_impl c v (ec_election x) = (t, e')" by fastforce
  from g show ?thesis
    using e y stays_trans [OF y e(1)] stays_trans [OF y e(2)]
    by (auto simp: generate_votes_def Let_def t split: if_splits option.splits bool.splits)
qed

lemma stays_broadcast: "stays H x (snd (broadcast_block c v (s, x)))"
proof -
  obtain err s' fs where b: "solicitor_broadcast c (ec_election x) s = (err, s', fs)" by (metis surj_pair)
  then have "erased fs = {}" by (auto simp: solicitor_broadcast_def Let_def erased_def split: if_splits)
  with b show ?thesis by (intro stays_same) (simp_all add: broadcast_block_def)
qed

lemma stays_request: "stays H x (snd (send_confirm_req c v n (s, x)))"
proof -
  obtain err s' where "solicitor_add c n (ec_election x) s = (err, s')" by (metis surj_pair)
  then show ?thesis by (intro stays_same) (simp_all add: send_confirm_req_def)
qed

lemma state_change_fields [simp]:
  "el_last_blocks (snd (state_change now a b e)) = el_last_blocks e"
  "el_qualified_root (snd (state_change now a b e)) = el_qualified_root e"
  "el_last_votes (snd (state_change now a b e)) = el_last_votes e"
  "el_last_tally (snd (state_change now a b e)) = el_last_tally e"
  by (simp_all add: state_change_def)

lemma stays_state: "stays H x (snd (snd (transition_state c v n (s, x))))"
proof (cases "el_state (ec_election x)")
  case St_active
  have "stays H x (snd (send_confirm_req c v n (broadcast_block c v (s, x))))"
    using stays_trans [OF stays_broadcast stays_request [of H "snd (broadcast_block c v (s, x))" c v n "fst (broadcast_block c v (s, x))"]]
    by simp
  with St_active show ?thesis by (simp add: transition_state_def)
qed (auto simp: transition_state_def Let_def intro: stays_same)

lemma stays_time: "stays H x (snd (snd (transition_time c v n (s, x))))"
proof -
  obtain q s1 x1 where t: "transition_state c v n (s, x) = (q, s1, x1)" by (metis surj_pair)
  have x1: "stays H x x1" using stays_state [of H x c v n s] by (simp add: t)
  obtain f e where e: "state_change (ee_now v) (el_state (ec_election x1)) St_expired_unconfirmed (ec_election x1) = (f, e)"
    by fastforce
  then have "stays H x1 (x1\<lparr>ec_election := e\<lparr>el_status := st\<rparr>\<rparr>)" for st
    using state_change_fields [of "ee_now v" "el_state (ec_election x1)" St_expired_unconfirmed "ec_election x1"]
    by (intro stays_same) simp_all
  with x1 show ?thesis
    by (auto simp: transition_time_def t e Let_def intro: stays_trans split: bool.split)
qed

text \<open>A published block may take the place of another, which is then erased from the container.\<close>

definition replaces :: "block_hash set \<Rightarrow> block_hash set \<Rightarrow> election_ctx \<Rightarrow> election_ctx \<Rightarrow> bool" where
  "replaces D A x x' \<longleftrightarrow>
     el_qualified_root (ec_election x') = el_qualified_root (ec_election x)
     \<and> erased (ec_effects x') = erased (ec_effects x) \<union> D
     \<and> D \<subseteq> known_hashes (ec_election x)
     \<and> fst ` set (el_last_blocks (ec_election x')) = (fst ` set (el_last_blocks (ec_election x)) - D) \<union> A
     \<and> known_hashes (ec_election x') \<subseteq> known_hashes (ec_election x) \<union> A
     \<and> el_last_tally (ec_election x') = el_last_tally (ec_election x)"

lemma replaced_not_winner:
  assumes o: "order_ok v" and k: "distinct (map fst (el_last_tally e))" and r: "replaced_block c v h e = Some d" and d: "d \<noteq> 0"
  shows "d \<in> known_hashes e \<and> d \<noteq> winner_hash c e"
proof -
  note f = sorted_tally_facts [OF o, of e]
  have ok: "set (ee_order v (map fst (el_last_blocks e))) = fst ` set (el_last_blocks e)"
    using o by (simp add: order_ok_def)
  have known: "p \<in> set (sorted_tally v e) \<Longrightarrow> fst p \<in> known_hashes e" for p
    using f(2) by (force simp: known_hashes_def)
  show ?thesis
  proof (cases "0 < ee_inactive_tally v h \<and> length (sorted_tally v e) < max_blocks")
    case True
    then have "find (\<lambda>k. k \<notin> fst ` set (sorted_tally v e) \<and> k \<noteq> winner_hash c e)
        (ee_order v (map fst (el_last_blocks e))) = Some d"
      using r d by (auto simp: replaced_block_unfold Let_def split: option.splits)
    then show ?thesis using ok nth_mem by (fastforce simp: find_Some_iff known_hashes_def)
  next
    case False
    then obtain front a others where s: "sorted_tally v e = (front, a) # others"
      using r d by (auto simp: replaced_block_unfold Let_def split: if_splits list.splits)
    show ?thesis
    proof (cases "front = winner_hash c e")
      case ne: False
      then have "d = front" using r d False by (auto simp: replaced_block_unfold Let_def s split: if_splits)
      then show ?thesis using known [of "(front, a)"] ne by (simp add: s)
    next
      case True
      then obtain b rest where o2: "others = (d, b) # rest"
        using r d False by (auto simp: replaced_block_unfold Let_def s split: if_splits list.splits)
      have "d \<noteq> front" using f(3) k by (auto simp: s o2)
      then show ?thesis using known [of "(d, b)"] True by (simp add: s o2)
    qed
  qed
qed

lemma remove_block_replaces:
  assumes "d \<in> known_hashes (ec_election x)" and "d \<noteq> winner_hash c (ec_election x)"
  shows "replaces {d} {} x (remove_block c d (emit (Active_erase_hash d) x))"
proof (cases "map_of (el_last_blocks (ec_election x)) d")
  case None
  then have "d \<notin> fst ` set (el_last_blocks (ec_election x))" by (simp add: map_of_eq_None_iff)
  with None assms show ?thesis by (auto simp: replaces_def remove_block_def Let_def)
next
  case (Some b)
  have k: "fst ` set (AList.delete d bs) = fst ` set bs - {d}" for bs :: last_blocks
    by (auto simp: AList.delete_eq)
  have v: "voted (filter (\<lambda>(a, i). vi_hash i \<noteq> d) vs) \<subseteq> voted vs" for vs by (rule voted_subset) auto
  from Some assms v [of "el_last_votes (ec_election x)"] show ?thesis
    by (auto simp: replaces_def remove_block_def Let_def k known_hashes_def)
qed

lemma update_keys: "fst ` set (AList.update k w al) = insert k (fst ` set al)"
  by (induction al) auto

lemma publish_entry_replaces:
  assumes "publish_entry c b x = (r, x')"
  shows "replaces {} (if r then {} else {generate_hash c b}) x x'"
proof -
  let ?bs = "fst ` set (el_last_blocks (ec_election x))" and ?h = "generate_hash c b"
  have x': "x' = snd (publish_entry c b x)" using assms by simp
  have f: "fst ` set (el_last_blocks (ec_election x')) = insert ?h ?bs"
    "el_last_votes (ec_election x') = el_last_votes (ec_election x)" "el_last_tally (ec_election x') = el_last_tally (ec_election x)"
    "el_qualified_root (ec_election x') = el_qualified_root (ec_election x)" "erased (ec_effects x') = erased (ec_effects x)"
    unfolding x' by (simp_all add: publish_entry_def Let_def update_keys split: option.split)
  have "?h \<in> ?bs" if r
  proof -
    have "map_of (el_last_blocks (ec_election x)) ?h \<noteq> None"
      using assms that by (auto simp: publish_entry_def Let_def split: option.splits)
    then show ?thesis by (simp add: map_of_eq_None_iff)
  qed
  then show ?thesis unfolding replaces_def known_hashes_def f by auto
qed

lemma publish_replaces:
  assumes o: "order_ok v" and k: "distinct (map fst (el_last_tally (ec_election x)))"
    and p: "election_publish c v b x = Some (r, x')"
  shows "\<exists>D. replaces D (if r then {} else {generate_hash c b}) x x'"
proof -
  from p obtain q y where y: "publish_room c v b x = Some (q, y)" and x': "(r, x') = (if q then (True, y) else publish_entry c b y)"
    by (cases "publish_room c v b x") (auto simp: election_publish_def split: if_splits prod.splits)
  have "\<exists>D. replaces D {} x y"
  proof -
    have refl: "replaces {} {} z z" "replaces D {} w z \<Longrightarrow> replaces D {} w (emit (Publish_filter_clear b) z)" for z w D
      by (simp_all add: replaces_def)
    have r: "\<exists>D. replaces D {} x z" if w: "replace_by_weight c v h x = Some (q, z)" for q z h
    proof -
      from w obtain d where d: "replaced_block c v h (ec_election x) = Some d"
        and z: "z = (if d \<noteq> 0 then remove_block c d (emit (Active_erase_hash d) x) else x)"
        by (auto simp: replace_by_weight_def split: option.splits if_splits)
      show ?thesis
        using refl(1) [of x] remove_block_replaces replaced_not_winner [OF o k d] by (cases "d = 0") (auto simp: z)
    qed
    from y consider "y = x" | q z where "y = z \<or> y = emit (Publish_filter_clear b) z"
        "replace_by_weight c v (generate_hash c b) x = Some (q, z)"
      by (auto simp: publish_room_def Let_def split: if_splits option.splits)
    then show ?thesis
    proof cases
      case 1
      then show ?thesis using refl(1) by blast
    next
      case (2 q z)
      from r [OF 2(2)] obtain D where "replaces D {} x z" by blast
      then show ?thesis using 2(1) refl(2) by blast
    qed
  qed
  then obtain D where D: "replaces D {} x y" by blast
  show ?thesis
  proof (cases q)
    case True
    with x' D show ?thesis by auto
  next
    case False
    with x' publish_entry_replaces [of c b y r x'] have "replaces {} (if r then {} else {generate_hash c b}) y x'" by simp
    with D show ?thesis by (intro exI [of _ D]) (auto simp: replaces_def)
  qed
qed

end
