(* ===== verification/Active_Inv.thy ===== *)
theory Active_Inv
  imports Active_Frame
begin

declare split_paired_All [simp del] split_paired_Ex [simp del]

text \<open>
  The containers of \<open>active_transactions\<close> agree with each other.  The function \<open>hr\<close> gives the root of each hash:
  blocks with one hash have one root, which is all that is asked of the hash function.
\<close>

section \<open>Invariant\<close>

definition election_ok :: "crypto \<Rightarrow> (block_hash \<Rightarrow> qualified_root) \<Rightarrow> election \<Rightarrow> bool" where
  "election_ok c hr e \<longleftrightarrow>
     election_inv c e \<and> (\<forall>h \<in> known_hashes e. hr h = el_qualified_root e) \<and> distinct (map fst (el_last_tally e))"

definition listed_in :: "active \<Rightarrow> nat \<Rightarrow> bool" where
  "listed_in s n \<longleftrightarrow> n \<in> cf_election ` set (at_roots s)"

definition holds_block :: "active \<Rightarrow> nat \<Rightarrow> block_hash \<Rightarrow> bool" where
  "holds_block s n h \<longleftrightarrow> (\<exists>e. at_heap s n = Some e \<and> h \<in> fst ` set (el_last_blocks e))"

definition recent_ok :: "(qualified_root \<times> block_hash) list \<Rightarrow> bool" where
  "recent_ok l \<longleftrightarrow> distinct (map fst l) \<and> distinct (map snd l) \<and> length l \<le> recently_confirmed_size"

definition elections_ok :: "crypto \<Rightarrow> (block_hash \<Rightarrow> qualified_root) \<Rightarrow> active \<Rightarrow> bool" where
  "elections_ok c hr s \<longleftrightarrow>
     distinct (map cf_root (at_roots s))
     \<and> (\<forall>n e. at_heap s n = Some e \<longrightarrow> n < at_next s \<and> election_ok c hr e)
     \<and> (\<forall>i \<in> set (at_roots s). \<exists>e. at_heap s (cf_election i) = Some e \<and> el_qualified_root e = cf_root i)"

definition blocks_exact :: "active \<Rightarrow> bool" where
  "blocks_exact s \<longleftrightarrow> (\<forall>h n. at_blocks s h = Some n \<longleftrightarrow> listed_in s n \<and> holds_block s n h)"

definition active_inv :: "crypto \<Rightarrow> (block_hash \<Rightarrow> qualified_root) \<Rightarrow> active \<Rightarrow> bool" where
  "active_inv c hr s \<longleftrightarrow>
     elections_ok c hr s \<and> blocks_exact s \<and> recent_ok (at_recently_confirmed s)
     \<and> distinct (map ici_hash (at_cache s)) \<and> ran (at_winners s) \<subseteq> dom (at_heap s)"

text \<open>Elections stay on the heap under their root.\<close>

definition heap_grows :: "active \<Rightarrow> active \<Rightarrow> bool" where
  "heap_grows s s' \<longleftrightarrow>
     (\<forall>n e. at_heap s n = Some e \<longrightarrow> (\<exists>e'. at_heap s' n = Some e' \<and> el_qualified_root e' = el_qualified_root e))"

definition advances :: "crypto \<Rightarrow> (block_hash \<Rightarrow> qualified_root) \<Rightarrow> active \<Rightarrow> active \<Rightarrow> bool" where
  "advances c hr s s' \<longleftrightarrow> active_inv c hr s' \<and> heap_grows s s'"

definition fits :: "crypto \<Rightarrow> (block_hash \<Rightarrow> qualified_root) \<Rightarrow> block \<Rightarrow> bool" where
  "fits c hr b \<longleftrightarrow> hr (generate_hash c b) = block_qualified_root b"

definition env_fits :: "crypto \<Rightarrow> (block_hash \<Rightarrow> qualified_root) \<Rightarrow> active_env \<Rightarrow> bool" where
  "env_fits c hr v \<longleftrightarrow>
     env_ok (ae_election v) \<and> (\<forall>h e. blocks_of (ae_ledger v) h = Some e \<longrightarrow> fits c hr (fst e))"

lemma advances_trans: "advances c hr s t \<Longrightarrow> advances c hr t u \<Longrightarrow> advances c hr s u"
  unfolding advances_def heap_grows_def by metis

lemma advances_refl: "active_inv c hr s \<Longrightarrow> advances c hr s s"
  by (simp add: advances_def heap_grows_def)

lemma active_invD:
  assumes "active_inv c hr s"
  shows "elections_ok c hr s" "blocks_exact s" "recent_ok (at_recently_confirmed s)" "distinct (map ici_hash (at_cache s))"
    "ran (at_winners s) \<subseteq> dom (at_heap s)"
  using assms by (simp_all add: active_inv_def)

lemma heap_ok:
  assumes "active_inv c hr s" and "at_heap s n = Some e"
  shows "n < at_next s" "election_ok c hr e"
  using assms by (auto simp: active_inv_def elections_ok_def)

lemma listed_heap:
  assumes "active_inv c hr s" and "i \<in> set (at_roots s)"
  shows "\<exists>e. at_heap s (cf_election i) = Some e \<and> el_qualified_root e = cf_root i"
  using assms by (simp add: active_inv_def elections_ok_def)

lemma listed_unique:
  assumes "active_inv c hr s" and "listed_in s n" and "listed_in s m" and "at_heap s n = Some e" and "at_heap s m = Some e'"
    and "el_qualified_root e = el_qualified_root e'"
  shows "n = m"
proof -
  from assms(2,3) obtain i j where ij: "i \<in> set (at_roots s)" "cf_election i = n" "j \<in> set (at_roots s)" "cf_election j = m"
    by (auto simp: listed_in_def)
  then have "cf_root i = cf_root j"
    using listed_heap [OF assms(1) ij(1)] listed_heap [OF assms(1) ij(3)] assms(4-6) by auto
  moreover have "distinct (map cf_root (at_roots s))" using assms(1) by (simp add: active_inv_def elections_ok_def)
  ultimately have "i = j" using ij(1,3) by (auto simp: distinct_map inj_on_def)
  with ij show ?thesis by simp
qed

lemma find_root_Some: "find_root r s = Some i \<Longrightarrow> i \<in> set (at_roots s) \<and> cf_root i = r"
  by (auto simp: find_root_def find_Some_iff)

lemma find_root_None: "find_root r s = None \<longleftrightarrow> r \<notin> cf_root ` set (at_roots s)"
  by (auto simp: find_root_def find_None_iff)

section \<open>Effects\<close>

lemma add_recently_confirmed_ok:
  assumes "recent_ok (at_recently_confirmed s)"
  shows "recent_ok (at_recently_confirmed (add_recently_confirmed r h s))"
proof -
  define m where "m = (let l = at_recently_confirmed s in if r \<in> fst ` set l \<or> h \<in> snd ` set l then l else l @ [(r, h)])"
  have d: "distinct (map fst m)" "distinct (map snd m)" "length m \<le> recently_confirmed_size + 1"
    using assms by (auto simp: recent_ok_def m_def Let_def)
  have t: "distinct (map fst (tl m))" "distinct (map snd (tl m))"
    using d(1,2) by (simp_all add: map_tl distinct_tl)
  have "at_recently_confirmed (add_recently_confirmed r h s) = (if recently_confirmed_size < length m then tl m else m)"
    by (simp add: add_recently_confirmed_def m_def Let_def)
  with d t show ?thesis by (cases "recently_confirmed_size < length m") (simp_all add: recent_ok_def)
qed

lemma apply_effect_fields:
  "at_roots (apply_effect c v f s) = at_roots s" "at_heap (apply_effect c v f s) = at_heap s"
  "at_next (apply_effect c v f s) = at_next s" "at_cache (apply_effect c v f s) = at_cache s"
  "at_halted (apply_effect c v f s) = at_halted s"
  by (auto simp: apply_effect_def process_confirmed_def Let_def active_emit_def add_recently_confirmed_def
      remove_election_winner_details_def erase_hash_def split: election_effect.split option.split)

lemma apply_effect_blocks:
  "at_blocks (apply_effect c v f s) = (at_blocks s) |` (- erased [f])"
  by (auto simp: apply_effect_def process_confirmed_def Let_def active_emit_def add_recently_confirmed_def
      remove_election_winner_details_def erase_hash_def restrict_map_def split: election_effect.split option.split)

lemma apply_effect_ok:
  "recent_ok (at_recently_confirmed s) \<Longrightarrow> recent_ok (at_recently_confirmed (apply_effect c v f s))"
  "at_winners (apply_effect c v f s) \<subseteq>\<^sub>m at_winners s"
proof -
  show "recent_ok (at_recently_confirmed s) \<Longrightarrow> recent_ok (at_recently_confirmed (apply_effect c v f s))"
    using add_recently_confirmed_ok
    by (auto simp: apply_effect_def process_confirmed_def Let_def active_emit_def
      remove_election_winner_details_def erase_hash_def split: election_effect.split option.split)
  show "at_winners (apply_effect c v f s) \<subseteq>\<^sub>m at_winners s"
    by (auto simp: apply_effect_def process_confirmed_def Let_def active_emit_def add_recently_confirmed_def map_le_def
      remove_election_winner_details_def erase_hash_def split: election_effect.split option.split)
qed

lemma fold_effects:
  "at_roots (fold (apply_effect c v) fs s) = at_roots s" "at_heap (fold (apply_effect c v) fs s) = at_heap s"
  "at_next (fold (apply_effect c v) fs s) = at_next s" "at_cache (fold (apply_effect c v) fs s) = at_cache s"
  "at_halted (fold (apply_effect c v) fs s) = at_halted s"
  by (induction fs arbitrary: s) (simp_all add: apply_effect_fields)

lemma fold_effects_blocks: "at_blocks (fold (apply_effect c v) fs s) = (at_blocks s) |` (- erased fs)"
proof (induction fs arbitrary: s)
  case (Cons f fs)
  have "erased (f # fs) = erased [f] \<union> erased fs" using erased_simps(2) [of "[f]" fs] by simp
  then show ?case using Cons [of "apply_effect c v f s"] by (simp add: apply_effect_blocks del: erased_simps(3))
qed (simp add: restrict_map_def)

lemma fold_effects_recent:
  "recent_ok (at_recently_confirmed s) \<Longrightarrow> recent_ok (at_recently_confirmed (fold (apply_effect c v) fs s))"
  by (induction fs arbitrary: s) (simp_all add: apply_effect_ok(1))

lemma fold_effects_winners: "at_winners (fold (apply_effect c v) fs s) \<subseteq>\<^sub>m at_winners s"
proof (induction fs arbitrary: s)
  case (Cons f fs)
  show ?case using map_le_trans [OF Cons [of "apply_effect c v f s"] apply_effect_ok(2)] by simp
qed simp

section \<open>An election that changed\<close>

lemma put_ctx_fields:
  "at_roots (put_ctx c v n x s) = at_roots s" "at_heap (put_ctx c v n x s) = (at_heap s)(n \<mapsto> ec_election x)"
  "at_next (put_ctx c v n x s) = at_next s" "at_cache (put_ctx c v n x s) = at_cache s"
  "at_halted (put_ctx c v n x s) = at_halted s"
  "at_blocks (put_ctx c v n x s) = (at_blocks s) |` (- erased (ec_effects x))"
  by (simp_all add: put_ctx_def fold_effects fold_effects_blocks)

lemma put_ctx_recent:
  "recent_ok (at_recently_confirmed s) \<Longrightarrow> recent_ok (at_recently_confirmed (put_ctx c v n x s))"
  unfolding put_ctx_def by (rule fold_effects_recent) simp

lemma ran_map_le: "m \<subseteq>\<^sub>m m' \<Longrightarrow> ran m \<subseteq> ran m'"
proof
  fix y
  assume m: "m \<subseteq>\<^sub>m m'" and "y \<in> ran m"
  then obtain x where x: "m x = Some y" by (auto simp: ran_def)
  with m have "m' x = Some y" by (force simp: map_le_def)
  then show "y \<in> ran m'" by (rule ranI)
qed

lemma put_ctx_winners: "ran (at_winners (put_ctx c v n x s)) \<subseteq> insert n (ran (at_winners s))"
proof -
  let ?w = "\<lambda>h. if h \<in> ec_winners x then (case at_winners s h of None \<Rightarrow> Some n | Some m \<Rightarrow> Some m) else None"
  have "at_winners (put_ctx c v n x s) \<subseteq>\<^sub>m ?w"
    using fold_effects_winners [of c v "ec_effects x" "s\<lparr>at_heap := (at_heap s)(n \<mapsto> ec_election x), at_winners := ?w\<rparr>"]
    by (simp add: put_ctx_def)
  then have "ran (at_winners (put_ctx c v n x s)) \<subseteq> ran ?w" by (rule ran_map_le)
  moreover have "ran ?w \<subseteq> insert n (ran (at_winners s))" by (auto simp: ran_def split: if_splits option.splits)
  ultimately show ?thesis by blast
qed

lemma put_elections_ok:
  assumes ok: "elections_ok c hr s" and n: "at_heap s n = Some e" and "election_ok c hr (ec_election x)"
    and "el_qualified_root (ec_election x) = el_qualified_root e"
  shows "elections_ok c hr (put_ctx c v n x s)" and "heap_grows s (put_ctx c v n x s)"
  using assms by (auto simp: elections_ok_def put_ctx_fields heap_grows_def)

lemma put_stays:
  assumes inv: "active_inv c hr s" and n: "at_heap s n = Some e" and st: "stays H (ctx_of n e s) x"
    and i: "election_inv c (ec_election x)" and H: "\<And>h. h \<in> H \<Longrightarrow> hr h = el_qualified_root e"
  shows "advances c hr s (put_ctx c v n x s)"
proof -
  from heap_ok [OF inv n] have ok: "election_ok c hr e" by simp
  from st have f: "el_last_blocks (ec_election x) = el_last_blocks e" "el_qualified_root (ec_election x) = el_qualified_root e"
    "erased (ec_effects x) = {}" "known_hashes (ec_election x) \<subseteq> known_hashes e \<union> H"
    "distinct (map fst (el_last_tally e)) \<longrightarrow> distinct (map fst (el_last_tally (ec_election x)))"
    by (simp_all add: stays_def ctx_of_def)
  have ok': "election_ok c hr (ec_election x)" using ok i f(2,4,5) H by (auto simp: election_ok_def)
  note e = put_elections_ok [OF active_invD(1) [OF inv] n ok' f(2), of v]
  have "blocks_exact (put_ctx c v n x s)"
    using active_invD(2) [OF inv] n f(1,3)
    by (auto simp: blocks_exact_def put_ctx_fields listed_in_def holds_block_def restrict_map_def)
  moreover have "ran (at_winners (put_ctx c v n x s)) \<subseteq> dom (at_heap (put_ctx c v n x s))"
    using put_ctx_winners [of c v n x s] active_invD(5) [OF inv] by (auto simp: put_ctx_fields)
  ultimately show ?thesis
    using e put_ctx_recent [OF active_invD(3) [OF inv]] active_invD(4) [OF inv]
    by (simp add: advances_def active_inv_def put_ctx_fields)
qed

text \<open>A published block is entered under its hash.\<close>

lemma put_replaces:
  fixes v
  assumes inv: "active_inv c hr s" and n: "at_heap s n = Some e" and l: "listed_in s n"
    and rp: "replaces D A (ctx_of n e s) x" and i: "election_inv c (ec_election x)"
    and A: "\<And>h. h \<in> A \<Longrightarrow> hr h = el_qualified_root e"
  defines "s' \<equiv> put_ctx c v n x s"
  shows "advances c hr s (s'\<lparr>at_blocks := \<lambda>h. if h \<in> A then Some n else at_blocks s' h\<rparr>)"
    and "h \<in> A \<Longrightarrow> at_blocks s' h = None \<or> at_blocks s' h = Some n"
proof -
  let ?t = "s'\<lparr>at_blocks := \<lambda>h. if h \<in> A then Some n else at_blocks s' h\<rparr>"
  from heap_ok [OF inv n] have ok: "election_ok c hr e" by simp
  from rp have f: "el_qualified_root (ec_election x) = el_qualified_root e" "erased (ec_effects x) = D"
    "D \<subseteq> known_hashes e" "fst ` set (el_last_blocks (ec_election x)) = (fst ` set (el_last_blocks e) - D) \<union> A"
    "known_hashes (ec_election x) \<subseteq> known_hashes e \<union> A" "el_last_tally (ec_election x) = el_last_tally e"
    by (simp_all add: replaces_def ctx_of_def)
  have ok': "election_ok c hr (ec_election x)" using ok i f(1,5,6) A by (auto simp: election_ok_def)
  note e = put_elections_ok [OF active_invD(1) [OF inv] n ok' f(1), of v]
  have only: "m = n" if m: "listed_in s m" "holds_block s m h" and h: "hr h = el_qualified_root e" for m h
  proof -
    from m(2) obtain e' where e': "at_heap s m = Some e'" "h \<in> known_hashes e'"
      by (auto simp: holds_block_def known_hashes_def)
    with heap_ok(2) [OF inv e'(1)] have "hr h = el_qualified_root e'" by (simp add: election_ok_def)
    with listed_unique [OF inv m(1) l e'(1) n] h show ?thesis by simp
  qed
  have D: "hr h = el_qualified_root e" if "h \<in> D" for h using that f(3) ok by (auto simp: election_ok_def)
  have b: "at_blocks s h = Some m \<longleftrightarrow> listed_in s m \<and> holds_block s m h" for h m
    using active_invD(2) [OF inv] by (simp add: blocks_exact_def)
  have bs: "at_blocks s' = at_blocks s |` (- D)" by (simp add: s'_def put_ctx_fields f(2))
  have hs: "holds_block s' m h \<longleftrightarrow> (if m = n then h \<in> fst ` set (el_last_blocks e) - D \<or> h \<in> A else holds_block s m h)" for m h
    by (simp add: holds_block_def s'_def put_ctx_fields f(4) del: Diff_iff image_iff)
  have hn: "holds_block s n h \<longleftrightarrow> h \<in> fst ` set (el_last_blocks e)" for h by (simp add: holds_block_def n)
  have ls: "listed_in s' m = listed_in s m" for m by (simp add: listed_in_def s'_def put_ctx_fields)
  show "at_blocks s' h = None \<or> at_blocks s' h = Some n" if "h \<in> A"
    using only [of _ h] A [OF that] b [of h] by (cases "at_blocks s h") (auto simp: bs restrict_map_def)
  have "(if h \<in> A then Some n else at_blocks s' h) = Some m \<longleftrightarrow> listed_in s' m \<and> holds_block s' m h" for h m
  proof (cases "m = n")
    case True
    then show ?thesis using only [of _ h] A [of h] b [of h] l unfolding hs ls bs by (auto simp: restrict_map_def hn)
  next
    case False
    then show ?thesis using only [of m h] A [of h] D [of h] b [of h m] unfolding hs ls bs
      by (simp add: restrict_map_def) blast
  qed
  then have "blocks_exact ?t"
    by (simp add: blocks_exact_def listed_in_def holds_block_def)
  moreover have "elections_ok c hr ?t" "heap_grows s ?t"
    using e by (simp_all add: elections_ok_def heap_grows_def s'_def)
  moreover have "ran (at_winners ?t) \<subseteq> dom (at_heap ?t)"
    using put_ctx_winners [of c v n x s] active_invD(5) [OF inv] by (auto simp: put_ctx_fields s'_def)
  ultimately show "advances c hr s ?t"
    using put_ctx_recent [OF active_invD(3) [OF inv]] active_invD(4) [OF inv]
    by (simp add: advances_def active_inv_def s'_def put_ctx_fields)
qed

end
