(* ===== verification/Active_Steps.thy ===== *)
theory Active_Steps
  imports Active_Inv
begin

declare split_paired_All [simp del] split_paired_Ex [simp del]

text \<open>The operations of \<open>active_transactions\<close> keep its containers in agreement.\<close>

section \<open>Operations of one election\<close>

lemma env_of_ok: "env_fits c hr v \<Longrightarrow> env_ok (env_of v s)"
  by (simp add: env_fits_def env_ok_def env_of_def order_ok_def weights_bounded_def)

lemma advances_same:
  assumes "active_inv c hr s" and "at_roots s' = at_roots s" "at_heap s' = at_heap s" "at_next s' = at_next s"
    "at_blocks s' = at_blocks s" "at_recently_confirmed s' = at_recently_confirmed s"
    and "distinct (map ici_hash (at_cache s'))" and "at_winners s' \<subseteq>\<^sub>m at_winners s"
  shows "advances c hr s s'"
  using assms ran_map_le [OF assms(8)]
  by (auto simp: advances_def active_inv_def elections_ok_def blocks_exact_def listed_in_def holds_block_def heap_grows_def)

lemma emit_advances: "active_inv c hr s \<Longrightarrow> advances c hr s (active_emit f s)"
  by (rule advances_same) (simp_all add: active_emit_def active_invD(4))

lemma effects_advance: "active_inv c hr s \<Longrightarrow> advances c hr s (s\<lparr>at_effects := fs\<rparr>)"
  by (rule advances_same) (simp_all add: active_invD(4))

lemma advances_inv: "advances c hr s s' \<Longrightarrow> active_inv c hr s'"
  by (simp add: advances_def)

definition target_ok :: "(block_hash \<Rightarrow> qualified_root) \<Rightarrow> active \<Rightarrow> nat \<Rightarrow> block_hash \<Rightarrow> bool" where
  "target_ok hr s n h \<longleftrightarrow> (\<exists>e. at_heap s n = Some e \<and> hr h = el_qualified_root e)"

lemma target_mono: "target_ok hr s n h \<Longrightarrow> advances c hr s s' \<Longrightarrow> target_ok hr s' n h"
  by (fastforce simp: target_ok_def advances_def heap_grows_def)

lemma on_advances:
  assumes inv: "active_inv c hr s" and f: "on_election c v n f s = Some (r, s')"
    and st: "\<And>e x. f (ctx_of n e s) = Some (r, x) \<Longrightarrow> stays H (ctx_of n e s) x"
    and i: "\<And>e x. election_inv c e \<Longrightarrow> f (ctx_of n e s) = Some (r, x) \<Longrightarrow> election_inv c (ec_election x)"
    and H: "\<And>h. h \<in> H \<Longrightarrow> target_ok hr s n h"
  shows "advances c hr s s'"
proof -
  from f obtain e x where e: "at_heap s n = Some e" and x: "f (ctx_of n e s) = Some (r, x)" and s': "s' = put_ctx c v n x s"
    by (auto simp: on_election_def bind_eq_Some_conv)
  from heap_ok(2) [OF inv e] have "election_inv c e" by (simp add: election_ok_def)
  from put_stays [OF inv e st [OF x] i [OF this x]] H e s' show ?thesis by (simp add: target_ok_def)
qed

lemma good_inv: "good_step c w op x x' \<Longrightarrow> election_inv c (ec_election x')"
  by (simp add: good_step_def)

lemma ctx_election [simp]: "ec_election (ctx_of n e s) = e"
  by (simp add: ctx_of_def)

lemma generate_advances:
  assumes inv: "active_inv c hr s" and g: "election_generate_votes c v n s = Some s'"
  shows "advances c hr s s'"
proof -
  from g have o: "on_election c v n (\<lambda>x. map_option (Pair ()) (generate_votes c (env_of v s) x)) s = Some ((), s')"
    by (auto simp: election_generate_votes_def)
  show ?thesis
  proof (rule on_advances [OF inv o, of "{}"])
    show "election_inv c (ec_election x)"
      if "election_inv c e" "map_option (Pair ()) (generate_votes c (env_of v s) (ctx_of n e s)) = Some ((), x)" for e x
      using good_generate [of c "ctx_of n e s"] that by (auto dest: good_inv)
  qed (auto intro: stays_generate)
qed

lemma find_cache: "cache_find h l = Some i \<Longrightarrow> ici_hash i = h"
  by (auto simp: cache_find_def find_Some_iff)

lemma insert_cache_advances:
  assumes inv: "active_inv c hr s" and v: "env_fits c hr v" and g: "election_insert_cache c v n h s = Some s'"
    and t: "target_ok hr s n h"
  shows "advances c hr s s'"
proof -
  let ?i = "find_inactive_votes_cache h s"
  from g obtain r where o: "on_election c v n (insert_inactive_votes_cache c (env_of v s) (ici_hash ?i) (ici_voters ?i)) s = Some (r, s')"
    by (auto simp: election_insert_cache_def Let_def)
  have h: "(if ici_voters ?i = [] then {} else {ici_hash ?i}) \<subseteq> {h}"
    by (auto simp: find_inactive_votes_cache_def empty_information_def dest: find_cache split: option.splits)
  show ?thesis
  proof (rule on_advances [OF inv o, of "{h}"])
    show "stays {h} (ctx_of n e s) x"
      if "insert_inactive_votes_cache c (env_of v s) (ici_hash ?i) (ici_voters ?i) (ctx_of n e s) = Some (r, x)" for e x
      by (rule stays_mono [OF stays_cache [OF that] h])
    show "election_inv c (ec_election x)"
      if "election_inv c e" "insert_inactive_votes_cache c (env_of v s) (ici_hash ?i) (ici_voters ?i) (ctx_of n e s) = Some (r, x)" for e x
      by (rule good_inv [OF good_cache [OF env_of_ok [OF v] _ that(2)]]) (simp add: that(1))
  qed (simp add: t)
qed

section \<open>Removal\<close>

lemma cleanup_blocks_fields:
  "at_roots (cleanup_blocks bs s) = at_roots s" "at_heap (cleanup_blocks bs s) = at_heap s"
  "at_next (cleanup_blocks bs s) = at_next s" "at_winners (cleanup_blocks bs s) = at_winners s"
  "at_recently_confirmed (cleanup_blocks bs s) = at_recently_confirmed s"
  by (induction bs arbitrary: s)
     (auto simp: cleanup_blocks_def erase_hash_def erase_inactive_votes_cache_def)

lemma cleanup_blocks_erased: "at_blocks (cleanup_blocks bs s) = (at_blocks s) |` (- (fst ` set bs))"
proof (induction bs arbitrary: s)
  case (Cons b bs)
  have "cleanup_blocks (b # bs) s = cleanup_blocks bs (erase_inactive_votes_cache (fst b) (erase_hash (fst b) s))"
    by (simp add: cleanup_blocks_def case_prod_unfold)
  with Cons show ?case
    by (auto simp: erase_hash_def erase_inactive_votes_cache_def restrict_map_def fun_eq_iff)
qed (simp add: cleanup_blocks_def restrict_map_def)

lemma cleanup_blocks_cache:
  "distinct (map ici_hash (at_cache s)) \<Longrightarrow> distinct (map ici_hash (at_cache (cleanup_blocks bs s)))"
proof (induction bs arbitrary: s)
  case (Cons b bs)
  have "cleanup_blocks (b # bs) s = cleanup_blocks bs (erase_inactive_votes_cache (fst b) (erase_hash (fst b) s))"
    by (simp add: cleanup_blocks_def case_prod_unfold)
  with Cons show ?case
    by (simp add: erase_inactive_votes_cache_def erase_hash_def cache_erase_def distinct_map_filter)
qed (simp add: cleanup_blocks_def)

lemma cleanup_advances:
  assumes inv: "active_inv c hr s" and e: "at_heap s n = Some e" and l: "listed_in s n"
  shows "advances c hr s (cleanup_election c e s)"
proof -
  let ?t = "cleanup_election c e s" and ?B = "fst ` set (el_last_blocks e)"
  have f: "at_roots ?t = filter (\<lambda>i. cf_root i \<noteq> el_qualified_root e) (at_roots s)" "at_heap ?t = at_heap s"
    "at_next ?t = at_next s" "at_winners ?t = at_winners s" "at_recently_confirmed ?t = at_recently_confirmed s"
    "at_blocks ?t = at_blocks s |` (- ?B)" "distinct (map ici_hash (at_cache ?t))"
    using cleanup_blocks_cache [OF active_invD(4) [OF inv]]
    by (simp_all add: cleanup_election_def Let_def cleanup_blocks_fields cleanup_blocks_erased)
  have r: "cf_root i = el_qualified_root e \<longleftrightarrow> cf_election i = n" if i: "i \<in> set (at_roots s)" for i
  proof -
    from listed_heap [OF inv i] obtain e' where e': "at_heap s (cf_election i) = Some e'" "el_qualified_root e' = cf_root i" by blast
    moreover have "listed_in s (cf_election i)" using i by (simp add: listed_in_def)
    ultimately show ?thesis using listed_unique [OF inv _ l e'(1) e] e by auto
  qed
  have ls: "listed_in ?t m \<longleftrightarrow> listed_in s m \<and> m \<noteq> n" for m
    using r by (auto simp: listed_in_def f(1) image_iff)
  have hs: "holds_block ?t = holds_block s" by (simp add: holds_block_def fun_eq_iff f(2))
  have b: "at_blocks s h = Some m \<longleftrightarrow> listed_in s m \<and> holds_block s m h" for h m
    using active_invD(2) [OF inv] by (simp add: blocks_exact_def)
  have B: "h \<in> ?B \<longleftrightarrow> at_blocks s h = Some n" for h using b [of h n] l e by (simp add: holds_block_def)
  have "at_blocks ?t h = Some m \<longleftrightarrow> listed_in ?t m \<and> holds_block ?t m h" for h m
    unfolding f(6) ls hs restrict_map_def using b [of h m] B [of h] by (cases "h \<in> ?B") auto
  moreover have "elections_ok c hr ?t"
    using active_invD(1) [OF inv] by (simp add: elections_ok_def f distinct_map_filter)
  ultimately show ?thesis
    using active_invD [OF inv] by (simp add: advances_def active_inv_def blocks_exact_def f heap_grows_def)
qed

lemma erase_root_advances:
  assumes "active_inv c hr s" and "erase_root c root s = Some s'"
  shows "advances c hr s s'"
  using assms cleanup_advances [OF assms(1)] advances_refl [OF assms(1)]
  by (auto simp: erase_root_def listed_in_def dest!: find_root_Some split: option.splits)

lemma erase_oldest_advances:
  assumes "active_inv c hr s" and "erase_oldest c s = Some s'"
  shows "advances c hr s s'"
  using assms cleanup_advances [OF assms(1)] advances_refl [OF assms(1)]
  by (auto simp: erase_oldest_def listed_in_def split: list.splits)

section \<open>Insertion\<close>

lemma new_election_ok:
  assumes "fits c hr b" and "election_new c w b height behavior = (e, fs)"
  shows "election_ok c hr e" "el_qualified_root e = block_qualified_root b"
    "fst ` set (el_last_blocks e) = {generate_hash c b}"
  using assms
  by (auto simp: election_new_def Let_def election_ok_def election_inv_def known_hashes_def voted_def fits_def winner_hash_def
      blocks_keyed_def)

lemma insert_election_advances:
  assumes inv: "active_inv c hr s" and b: "fits c hr (fst b)" and r: "find_root (block_qualified_root (fst b)) s = None"
  shows "advances c hr s (insert_election c v b balance behavior s)"
    and "target_ok hr (insert_election c v b balance behavior s) (at_next s) (generate_hash c (fst b))"
proof -
  let ?n = "at_next s" and ?h = "generate_hash c (fst b)" and ?t = "insert_election c v b balance behavior s"
  obtain e fs where e: "election_new c (env_of v s) (fst b) (sb_height (snd b)) behavior = (e, fs)" by (metis surj_pair)
  note k = new_election_ok [OF b e]
  have h: "hr ?h = block_qualified_root (fst b)" using b by (simp add: fits_def)
  have roots: "cf_root i \<noteq> block_qualified_root (fst b)" if "i \<in> set (at_roots s)" for i
    using r that imageI [of i "set (at_roots s)" cf_root] unfolding find_root_None by metis
  have bl: "at_blocks s g = Some m \<longleftrightarrow> listed_in s m \<and> holds_block s m g" for g m
    using active_invD(2) [OF inv] by (simp add: blocks_exact_def)
  have no: "\<not> (listed_in s m \<and> holds_block s m ?h)" for m
  proof
    assume m: "listed_in s m \<and> holds_block s m ?h"
    then obtain e' where e': "at_heap s m = Some e'" "?h \<in> known_hashes e'" by (auto simp: holds_block_def known_hashes_def)
    with heap_ok(2) [OF inv e'(1)] have "el_qualified_root e' = block_qualified_root (fst b)" using h by (simp add: election_ok_def)
    moreover from m obtain i where i: "i \<in> set (at_roots s)" "cf_election i = m" by (auto simp: listed_in_def)
    ultimately show False using listed_heap [OF inv i(1)] roots [OF i(1)] e'(1) i(2) by auto
  qed
  then have em: "at_blocks s ?h = None" using bl [of ?h] by (cases "at_blocks s ?h") auto
  have f: "at_roots ?t = at_roots s @ [\<lparr>cf_root = block_qualified_root (fst b), cf_election = ?n,
             cf_epoch = bd_epoch (sb_details (snd b)), cf_previous_balance = balance\<rparr>]"
    "at_heap ?t = (at_heap s)(?n \<mapsto> e)" "at_next ?t = ?n + 1" "at_winners ?t = at_winners s"
    "at_recently_confirmed ?t = at_recently_confirmed s" "at_blocks ?t = (at_blocks s)(?h \<mapsto> ?n)" "at_cache ?t = at_cache s"
    by (simp_all add: insert_election_def Let_def e emplace_def em)
  have fresh: "at_heap s ?n = None" using heap_ok(1) [OF inv, of ?n] by (cases "at_heap s ?n") auto
  have ln: "\<not> listed_in s ?n" using listed_heap [OF inv] fresh by (fastforce simp: listed_in_def)
  have ls: "listed_in ?t m \<longleftrightarrow> listed_in s m \<or> m = ?n" for m by (auto simp: listed_in_def f(1))
  have hs: "holds_block ?t m g \<longleftrightarrow> (if m = ?n then g = ?h else holds_block s m g)" for m g
    using k(3) by (simp add: holds_block_def f(2))
  have "at_blocks ?t g = Some m \<longleftrightarrow> listed_in ?t m \<and> holds_block ?t m g" for g m
    unfolding ls hs f(6) using bl [of g m] no [of m] ln by auto
  moreover have "heap_grows s ?t" using fresh by (auto simp: heap_grows_def f(2))
  moreover have "elections_ok c hr ?t"
    using active_invD(1) [OF inv] k(1,2) roots fresh
    by (auto simp: elections_ok_def f less_Suc_eq) blast
  ultimately show "advances c hr s ?t"
    using active_invD(3,4,5) [OF inv] by (auto simp: advances_def active_inv_def blocks_exact_def f)
  show "target_ok hr ?t ?n ?h" using k(2) h by (simp add: target_ok_def f(2))
qed

lemma insert_advances:
  assumes inv: "active_inv c hr s" and v: "env_fits c hr v" and b: "fits c hr (fst b)"
    and g: "insert_impl c v b balance behavior s = Some (r, s')"
  shows "advances c hr s s'"
proof -
  let ?root = "block_qualified_root (fst b)" and ?h = "generate_hash c (fst b)"
  from g consider "s' = s" | m where "election_generate_votes c v m s = Some s'"
    | pb t where "find_root ?root s = None" "election_insert_cache c v (at_next s) ?h (insert_election c v b pb behavior s) = Some t"
        "election_generate_votes c v (at_next s) (active_emit Ae_vacancy t) = Some s'"
    by (auto simp: insert_impl_def Let_def bind_eq_Some_conv split: if_splits option.splits)
  then show ?thesis
  proof cases
    case 1
    then show ?thesis using advances_refl [OF inv] by simp
  next
    case 2
    then show ?thesis by (rule generate_advances [OF inv])
  next
    case 3
    note a = insert_election_advances [OF inv b 3(1), where v = v and balance = pb and behavior = behavior]
    note t = insert_cache_advances [OF advances_inv [OF a(1)] v 3(2) a(2)]
    note u = emit_advances [OF advances_inv [OF t], of Ae_vacancy]
    note w = generate_advances [OF advances_inv [OF u] 3(3)]
    show ?thesis by (rule advances_trans [OF a(1) advances_trans [OF t advances_trans [OF u w]]])
  qed
qed

end
