(* ===== verification/Active_Run.thy ===== *)
theory Active_Run
  imports Active_Steps
begin

declare split_paired_All [simp del] split_paired_Ex [simp del]

text \<open>
  The remaining operations of \<open>active_transactions\<close>, and the states that they reach.  A step is one handler with
  the mutex held; \<open>publish\<close> counts as one step here.
\<close>

section \<open>Votes for unknown blocks\<close>

lemma cache_insert_distinct:
  "distinct (map ici_hash l) \<Longrightarrow> ici_hash i \<notin> ici_hash ` set l \<Longrightarrow> distinct (map ici_hash (cache_insert i l))"
proof -
  let ?P = "\<lambda>j. ici_arrival j \<le> ici_arrival i"
  assume d: "distinct (map ici_hash l)" and i: "ici_hash i \<notin> ici_hash ` set l"
  have swap: "distinct (map ici_hash (xs @ i # ys)) = distinct (map ici_hash (i # xs @ ys))" for xs ys by auto
  show ?thesis unfolding cache_insert_def swap takeWhile_dropWhile_id using d i by simp
qed

lemma cache_modify_distinct:
  assumes d: "distinct (map ici_hash l)" and f: "\<And>i. ici_hash (f i) = ici_hash i"
  shows "distinct (map ici_hash (cache_modify h f l))"
proof -
  let ?b = "takeWhile (\<lambda>i. ici_hash i \<noteq> h) l"
  show ?thesis
  proof (cases "dropWhile (\<lambda>i. ici_hash i \<noteq> h) l")
    case (Cons i a)
    have "l = ?b @ i # a" using takeWhile_dropWhile_id [of "\<lambda>i. ici_hash i \<noteq> h" l] by (simp add: Cons)
    with d have e: "distinct (map ici_hash (?b @ i # a))" by simp
    then have k: "distinct (map ici_hash (?b @ a))" "ici_hash (f i) \<notin> ici_hash ` set (?b @ a)"
      "distinct (map ici_hash (?b @ f i # a))" by (auto simp: f)
    show ?thesis using k(3) cache_insert_distinct [OF k(1,2)] by (simp add: cache_modify_def Let_def Cons)
  qed (simp add: cache_modify_def d Let_def del: dropWhile_eq_Nil_conv)
qed

lemma cache_advances:
  "active_inv c hr s \<Longrightarrow> distinct (map ici_hash l) \<Longrightarrow> advances c hr s (s\<lparr>at_cache := l\<rparr>)"
  by (rule advances_same) simp_all

lemma bootstrap_check_advances:
  assumes inv: "active_inv c hr s" and v: "env_fits c hr v"
    and g: "inactive_votes_bootstrap_check_impl c v tally voters h previously s = Some (status, s')"
  shows "advances c hr s s'"
proof -
  from g consider "s' = s" | "s' = active_emit (Ae_bootstrap_start h) s"
    | b r where "block_get (blocks_of (ae_ledger v)) h = Some b" "insert_impl c v b None Normal s = Some (r, s')"
    by (auto simp: inactive_votes_bootstrap_check_impl_def Let_def bind_eq_Some_conv split: if_splits option.splits)
  then show ?thesis
  proof cases
    case 3
    have "fits c hr (fst b)" using v 3(1) by (simp add: env_fits_def block_get_def)
    from insert_advances [OF inv v this 3(2)] show ?thesis .
  qed (use advances_refl [OF inv] emit_advances [OF inv] in simp_all)
qed

lemma set_status_advances: "active_inv c hr s \<Longrightarrow> advances c hr s (set_cache_status h st s)"
  unfolding set_cache_status_def
  by (rule cache_advances) (simp_all add: cache_modify_distinct active_invD(4))

lemma old_vote_advances:
  assumes inv: "active_inv c hr s" and v: "env_fits c hr v"
    and g: "cache_old_vote c v h rep ts existing s = Some s'"
  shows "advances c hr s s'"
proof (cases "needs_eval existing \<and> rep \<notin> fst ` set (ici_voters existing)")
  case True
  let ?voters = "ici_voters existing @ [(rep, ts)]"
  let ?l = "cache_modify h (\<lambda>info. info\<lparr>ici_arrival := ee_now (ae_election v), ici_voters := ?voters\<rparr>) (at_cache s)"
  from g True obtain st t where t: "inactive_votes_bootstrap_check_impl c v (voters_tally v ?voters) (length ?voters) h
        (ici_status existing) (s\<lparr>at_cache := ?l\<rparr>) = Some (st, t)"
    and s': "s' = (if st \<noteq> ici_status existing then set_cache_status h st t else t)"
    by (auto simp: cache_old_vote_def Let_def bind_eq_Some_conv)
  have a: "advances c hr s (s\<lparr>at_cache := ?l\<rparr>)"
    by (rule cache_advances [OF inv]) (simp add: cache_modify_distinct active_invD(4) [OF inv])
  note b = bootstrap_check_advances [OF advances_inv [OF a] v t]
  have "advances c hr t s'"
    using s' set_status_advances [OF advances_inv [OF b]] advances_refl [OF advances_inv [OF b]] by simp
  then show ?thesis by (rule advances_trans [OF a advances_trans [OF b]])
next
  case False
  with g show ?thesis using advances_refl [OF inv] by (simp add: cache_old_vote_def split: if_splits)
qed

lemma new_vote_advances:
  assumes inv: "active_inv c hr s" and v: "env_fits c hr v" and n: "cache_find h (at_cache s) = None"
    and g: "cache_new_vote c v h rep ts s = Some s'"
  shows "advances c hr s s'"
proof -
  let ?i = "\<lparr>ici_arrival = ee_now (ae_election v), ici_hash = h, ici_status = default_status, ici_voters = [(rep, ts)]\<rparr>"
  let ?l = "cache_insert ?i (at_cache s)"
  from g obtain st t where t: "inactive_votes_bootstrap_check_impl c v (ee_weight (ae_election v) rep) 1 h
        default_status (s\<lparr>at_cache := ?l\<rparr>) = Some (st, t)"
    and s': "s' = (let u = (if st \<noteq> default_status then set_cache_status h st t else t)
                   in if ae_cache_size v < length (at_cache u) then u\<lparr>at_cache := tl (at_cache u)\<rparr> else u)"
    by (auto simp: cache_new_vote_def Let_def bind_eq_Some_conv)
  have "h \<notin> ici_hash ` set (at_cache s)" using n by (auto simp: cache_find_def find_None_iff)
  then have a: "advances c hr s (s\<lparr>at_cache := ?l\<rparr>)"
    by (intro cache_advances [OF inv] cache_insert_distinct) (simp_all add: active_invD(4) [OF inv])
  note b = bootstrap_check_advances [OF advances_inv [OF a] v t]
  define u where "u = (if st \<noteq> default_status then set_cache_status h st t else t)"
  have u: "advances c hr t u"
    using set_status_advances [OF advances_inv [OF b]] advances_refl [OF advances_inv [OF b]] by (simp add: u_def)
  have "distinct (map ici_hash (tl (at_cache u)))"
    using active_invD(4) [OF advances_inv [OF u]] by (simp add: map_tl distinct_tl)
  then have "advances c hr u s'"
    using s' cache_advances [OF advances_inv [OF u]] advances_refl [OF advances_inv [OF u]] by (simp add: u_def [symmetric] Let_def)
  then show ?thesis by (rule advances_trans [OF a advances_trans [OF b advances_trans [OF u]]])
qed

lemma add_cache_advances:
  assumes "active_inv c hr s" and "env_fits c hr v" and "add_inactive_votes_cache c v h rep ts s = Some s'"
  shows "advances c hr s s'"
  using assms old_vote_advances [OF assms(1,2)] new_vote_advances [OF assms(1,2)] advances_refl [OF assms(1)]
  by (auto simp: add_inactive_votes_cache_def split: if_splits option.splits)

lemma trigger_advances:
  assumes "active_inv c hr s" and "env_fits c hr v" and "fits c hr (fst b)"
    and "trigger_inactive_votes_cache_election c v b s = Some s'"
  shows "advances c hr s s'"
  using assms(4) insert_advances [OF assms(1-3)] advances_refl [OF assms(1)]
  by (auto simp: trigger_inactive_votes_cache_election_def split: if_splits)

section \<open>Votes\<close>

definition item_at_root :: "crypto \<Rightarrow> (block_hash \<Rightarrow> qualified_root) \<Rightarrow> vote_item \<Rightarrow> bool" where
  "item_at_root c hr item = (case item of Vote_hash h \<Rightarrow> True | Vote_block b \<Rightarrow> fits c hr b)"

lemma vote_target_ok:
  assumes inv: "active_inv c hr s" and "item_at_root c hr item" and "vote_target c item s = Some n"
  shows "target_ok hr s n (iterate_vote_blocks_as_hash c item)"
proof (cases item)
  case (Vote_hash h)
  with assms have "at_blocks s h = Some n" by (simp add: vote_target_def)
  with active_invD(2) [OF inv] obtain e where e: "at_heap s n = Some e" "h \<in> known_hashes e"
    by (auto simp: blocks_exact_def holds_block_def known_hashes_def)
  with heap_ok(2) [OF inv e(1)] Vote_hash show ?thesis by (simp add: target_ok_def election_ok_def)
next
  case (Vote_block b)
  with assms obtain i where "find_root (block_qualified_root b) s = Some i" "n = cf_election i"
    by (auto simp: vote_target_def active_election_def)
  with listed_heap [OF inv] find_root_Some obtain e where "at_heap s n = Some e" "el_qualified_root e = block_qualified_root b" by metis
  with assms(2) Vote_block show ?thesis by (simp add: target_ok_def item_at_root_def fits_def)
qed

lemma vote_targets_advance:
  assumes "active_inv c hr s" and v: "env_fits c hr v" and "\<forall>i \<in> set items. item_at_root c hr i"
    and "\<forall>(n, h) \<in> set targets. target_ok hr s n h"
    and "vote_targets c v rep ts items targets counter s = Some (targets', counter', s')"
  shows "advances c hr s s' \<and> (\<forall>(n, h) \<in> set targets'. target_ok hr s' n h)"
  using assms(1,3-)
proof (induction items arbitrary: targets counter s)
  case Nil
  then show ?case using advances_refl by auto
next
  case (Cons item items)
  let ?h = "iterate_vote_blocks_as_hash c item"
  show ?case
  proof (cases "vote_target c item s")
    case None
    show ?thesis
    proof (cases "?h \<notin> snd ` set (at_recently_confirmed s)")
      case True
      with None Cons.prems(4) obtain t where t: "add_inactive_votes_cache c v ?h rep ts s = Some t"
        "vote_targets c v rep ts items targets counter t = Some (targets', counter', s')"
        by (auto simp: Let_def bind_eq_Some_conv)
      note a = add_cache_advances [OF Cons.prems(1) v t(1)]
      have "\<forall>(n, h) \<in> set targets. target_ok hr t n h" using Cons.prems(3) target_mono [OF _ a] by fastforce
      with Cons.IH [OF advances_inv [OF a] _ _ t(2)] Cons.prems(2) advances_trans [OF a] show ?thesis by simp
    next
      case False
      with None Cons show ?thesis by (simp add: Let_def)
    qed
  next
    case (Some n)
    with Cons.prems have "vote_targets c v rep ts items (targets @ [(n, ?h)]) counter s = Some (targets', counter', s')"
      by (simp add: Let_def)
    moreover have "\<forall>(n, h) \<in> set (targets @ [(n, ?h)]). target_ok hr s n h"
      using Cons.prems(3) vote_target_ok [OF Cons.prems(1) _ Some] Cons.prems(2) by auto
    ultimately show ?thesis using Cons.IH [OF Cons.prems(1)] Cons.prems(2) by (metis list.set_intros(2))
  qed
qed

lemma vote_elections_advance:
  assumes "active_inv c hr s" and v: "env_fits c hr v" and "\<forall>(n, h) \<in> set targets. target_ok hr s n h"
    and "vote_elections c v rep ts targets replay processed s = Some (replay', processed', s')"
  shows "advances c hr s s'"
  using assms(1,3-)
proof (induction targets arbitrary: replay processed s)
  case Nil
  then show ?case using advances_refl by auto
next
  case (Cons target targets)
  obtain n h where nh: "target = (n, h)" by (cases target)
  with Cons.prems(3) obtain r p t where t: "on_election c v n (election_vote c (env_of v s) rep ts h) s = Some ((r, p), t)"
    "vote_elections c v rep ts targets (replay \<or> r) (processed \<or> p) t = Some (replay', processed', s')"
    by (auto simp: bind_eq_Some_conv)
  have a: "advances c hr s t"
  proof (rule on_advances [OF Cons.prems(1) t(1), of "{h}"])
    show "election_inv c (ec_election x)"
      if "election_inv c e" "election_vote c (env_of v s) rep ts h (ctx_of n e s) = Some ((r, p), x)" for e x
      by (rule good_inv [OF good_vote [OF env_of_ok [OF v] _ that(2)]]) (simp add: that(1))
  qed (use stays_vote Cons.prems(2) nh in auto)
  have "\<forall>(n, h) \<in> set targets. target_ok hr t n h" using Cons.prems(2) target_mono [OF _ a] by fastforce
  with Cons.IH [OF advances_inv [OF a] _ t(2)] show ?case using advances_trans [OF a] by simp
qed

lemma vote_advances:
  assumes inv: "active_inv c hr s" and v: "env_fits c hr v" and i: "\<forall>i \<in> set (vote_blocks a). item_at_root c hr i"
    and g: "active_vote c v a s = Some (code, s')"
  shows "advances c hr s s'"
proof -
  let ?rep = "vote_account a" and ?ts = "vote_timestamp a"
  from g obtain targets counter t where t: "vote_targets c v ?rep ?ts (vote_blocks a) [] 0 s = Some (targets, counter, t)"
    and r: "s' = t \<or> (\<exists>replay processed u. vote_elections c v ?rep ?ts targets False False t = Some (replay, processed, u)
      \<and> (s' = u \<or> s' = active_emit (Ae_flood_vote a) u))"
    by (auto simp: active_vote_def Let_def bind_eq_Some_conv split: if_splits)
  note at = vote_targets_advance [OF inv v i _ t]
  then have a: "advances c hr s t" and ok: "\<forall>(n, h) \<in> set targets. target_ok hr t n h" by auto
  from r show ?thesis
  proof (elim disjE exE conjE)
    fix replay processed u
    assume u: "vote_elections c v ?rep ?ts targets False False t = Some (replay, processed, u)"
    note b = vote_elections_advance [OF advances_inv [OF a] v ok u]
    note ab = advances_trans [OF a b]
    show "advances c hr s s'" if "s' = u" using ab that by simp
    show "advances c hr s s'" if "s' = active_emit (Ae_flood_vote a) u"
      using advances_trans [OF ab emit_advances [OF advances_inv [OF ab]]] that by simp
  qed (simp add: a)
qed

section \<open>Blocks\<close>

lemma publish_advances:
  assumes inv: "active_inv c hr s" and v: "env_fits c hr v" and b: "fits c hr b"
    and g: "active_publish c v b s = Some (r, s')"
  shows "advances c hr s s'"
proof (cases "active_election (block_qualified_root b) s")
  case None
  with g show ?thesis using advances_refl [OF inv] by (simp add: active_publish_def publish_start_def)
next
  case (Some n)
  let ?h = "generate_hash c b"
  from Some obtain i where i: "find_root (block_qualified_root b) s = Some i" "n = cf_election i" by (auto simp: active_election_def)
  then have l: "listed_in s n" using find_root_Some by (auto simp: listed_in_def)
  from i find_root_Some listed_heap [OF inv] obtain e where e: "at_heap s n = Some e" "el_qualified_root e = block_qualified_root b"
    by metis
  from g Some e(1) obtain q x where x: "election_publish c (env_of v s) b (ctx_of n e s) = Some (q, x)"
    and s': "s' = (let t = put_ctx c v n x s in if q then t else t) \<and> q \<or> \<not> q \<and> publish_finish c v b n (put_ctx c v n x s) = Some s'"
    by (auto simp: active_publish_def publish_start_def on_election_def bind_eq_Some_conv Let_def split: if_splits)
  from heap_ok(2) [OF inv e(1)] have k: "election_inv c e" "distinct (map fst (el_last_tally e))" by (simp_all add: election_ok_def)
  have o: "order_ok (env_of v s)" using env_of_ok [OF v] by (simp add: env_ok_def)
  obtain D where D: "replaces D (if q then {} else {?h}) (ctx_of n e s) x"
    using publish_replaces [OF o _ x] k(2) by auto
  have ix: "election_inv c (ec_election x)" by (rule good_inv [OF good_publish [OF _ x]]) (simp add: k)
  have hh: "hr ?h = el_qualified_root e" using b e(2) by (simp add: fits_def)
  let ?t = "put_ctx c v n x s"
  let ?u = "?t\<lparr>at_blocks := \<lambda>h. if h \<in> (if q then {} else {?h}) then Some n else at_blocks ?t h\<rparr>"
  have "\<And>h. h \<in> (if q then {} else {?h}) \<Longrightarrow> hr h = el_qualified_root e" using hh by (simp split: if_splits)
  note a = put_replaces [OF inv e(1) l D ix this, where v = v]
  show ?thesis
  proof (cases q)
    case True
    with s' a(1) show ?thesis by simp
  next
    case False
    then have u: "?u = ?t\<lparr>at_blocks := emplace ?h n (at_blocks ?t)\<rparr>"
      using a(2) [of ?h] by (auto simp: emplace_def fun_eq_iff intro!: active.fold_congs)
    have t: "target_ok hr ?u n ?h" using D hh by (simp add: target_ok_def put_ctx_fields replaces_def)
    have "election_insert_cache c v n ?h ?u = Some s'" using s' False u by (simp add: publish_finish_def Let_def)
    from insert_cache_advances [OF advances_inv [OF a(1)] v this t] advances_trans [OF a(1)] show ?thesis by blast
  qed
qed

lemma once_inv: "election_inv c (ec_election x) \<Longrightarrow> election_inv c (ec_election (confirm_once c v ty x))"
  by (simp add: confirm_once_facts)

lemma confirm_block_advances:
  assumes inv: "active_inv c hr s" and g: "confirm_block c v h s = Some (r, s')"
  shows "advances c hr s s'"
proof (cases "at_blocks s h")
  case None
  with g show ?thesis using advances_refl [OF inv] by (simp add: confirm_block_def)
next
  case (Some n)
  with g have o: "on_election c v n (\<lambda>x.
            Some (if winner_hash c (ec_election x) = h then
                    if \<not> confirmed (ec_election x)
                    then (Some Active_confirmation_height, confirm_once c (env_of v s) Active_confirmation_height x)
                    else (Some Active_confirmed_quorum, x)
                  else (None, x))) s = Some (r, s')" by (simp add: confirm_block_def)
  show ?thesis
    by (rule on_advances [OF inv o, of "{}"]) (auto intro: stays_once once_inv split: if_splits)
qed

section \<open>Cemented blocks\<close>

lemma status_advances:
  assumes inv: "active_inv c hr s" and e: "at_heap s n = Some e" and w: "es_winner st = es_winner (el_status e)"
  shows "advances c hr s (s\<lparr>at_heap := (at_heap s)(n \<mapsto> e\<lparr>el_status := st\<rparr>)\<rparr>)"
proof -
  have ok: "election_ok c hr (e\<lparr>el_status := st\<rparr>)"
    using heap_ok(2) [OF inv e] w by (simp add: election_ok_def known_hashes_def)
  have "elections_ok c hr (s\<lparr>at_heap := (at_heap s)(n \<mapsto> e\<lparr>el_status := st\<rparr>)\<rparr>)"
    using active_invD(1) [OF inv] ok e by (auto simp: elections_ok_def)
  moreover have "blocks_exact (s\<lparr>at_heap := (at_heap s)(n \<mapsto> e\<lparr>el_status := st\<rparr>)\<rparr>)"
    using active_invD(2) [OF inv] e by (auto simp: blocks_exact_def listed_in_def holds_block_def)
  ultimately show ?thesis
    using active_invD(3-5) [OF inv] e by (auto simp: advances_def active_inv_def heap_grows_def)
qed

lemma cemented_winner_advances:
  assumes inv: "active_inv c hr s" and g: "cemented_winner c v amount b ty s = Some s'"
  shows "advances c hr s s'"
proof (cases "at_winners s (generate_hash c (fst b))")
  case None
  with g show ?thesis using advances_refl [OF inv] by (simp add: cemented_winner_def)
next
  case (Some n)
  let ?t = "remove_election_winner_details (generate_hash c (fst b)) s"
  from g Some obtain e where e: "at_heap s n = Some e" by (auto simp: cemented_winner_def Let_def bind_eq_Some_conv)
  have t: "advances c hr s ?t"
    by (rule advances_same [OF inv]) (simp_all add: remove_election_winner_details_def active_invD(4) [OF inv] map_le_def)
  define st where "st = (el_status e)\<lparr>es_type := ty, es_confirmation_request_count := el_confirmation_request_count e\<rparr>"
  have et: "at_heap ?t n = Some e" using e by (simp add: remove_election_winner_details_def)
  have w: "es_winner st = es_winner (el_status e)" by (simp add: st_def)
  let ?u = "?t\<lparr>at_heap := (at_heap ?t)(n \<mapsto> e\<lparr>el_status := st\<rparr>)\<rparr>"
  note u = status_advances [OF advances_inv [OF t] et w]
  from g Some e consider "s' = ?t"
    | "at_roots s' = at_roots ?u \<and> at_heap s' = at_heap ?u \<and> at_next s' = at_next ?u \<and> at_blocks s' = at_blocks ?u
       \<and> at_recently_confirmed s' = at_recently_confirmed ?u \<and> at_cache s' = at_cache ?u \<and> at_winners s' = at_winners ?u"
    by (auto simp: cemented_winner_def Let_def bind_eq_Some_conv add_recently_cemented_def st_def split: if_splits)
  then show ?thesis
  proof cases
    case 2
    have "advances c hr ?u s'"
      by (rule advances_same [OF advances_inv [OF u]]) (use 2 active_invD(4) [OF advances_inv [OF u]] in simp_all)
    from advances_trans [OF t advances_trans [OF u this]] show ?thesis .
  qed (simp add: t)
qed

lemma activations_advance:
  assumes inv: "active_inv c hr s" and g: "cemented_activations v b ty s = Some s'"
  shows "advances c hr s s'"
proof -
  from g have "\<exists>fs. s' = s\<lparr>at_effects := fs\<rparr>"
    by (auto simp: cemented_activations_def Let_def bind_eq_Some_conv active_emit_def split: if_splits intro: exI [of _ "at_effects s"])
  with effects_advance [OF inv] show ?thesis by auto
qed

lemma cemented_advances:
  assumes inv: "active_inv c hr s" and g: "block_cemented_callback c v amount b s = Some s'"
  shows "advances c hr s s'"
proof -
  let ?h = "generate_hash c (fst b)"
  from g obtain ty t where t: "(if \<not> ae_processing_added v ?h then confirm_block c v ?h s
       else Some (Some Active_confirmed_quorum, s)) = Some (ty, t)"
    and r: "ty = None \<and> s' = t \<or> (\<exists>k u. ((if k = Inactive_confirmation_height then cemented_inactive c v amount b t
        else cemented_winner c v amount b k t) = Some u) \<and> cemented_activations v b k u = Some s')"
    by (auto simp: block_cemented_callback_def Let_def bind_eq_Some_conv split: option.splits) blast
  have a: "advances c hr s t"
    using t confirm_block_advances [OF inv] advances_refl [OF inv] by (auto split: if_splits)
  from r show ?thesis
  proof (elim disjE exE conjE)
    fix k u
    assume u: "(if k = Inactive_confirmation_height then cemented_inactive c v amount b t
        else cemented_winner c v amount b k t) = Some u" and w: "cemented_activations v b k u = Some s'"
    have b: "advances c hr t u"
      using u cemented_winner_advances [OF advances_inv [OF a]] emit_advances [OF advances_inv [OF a]]
      by (auto simp: cemented_inactive_def bind_eq_Some_conv split: if_splits)
    from advances_trans [OF a advances_trans [OF b activations_advance [OF advances_inv [OF b] w]]] show ?thesis .
  qed (simp add: a)
qed

section \<open>The request loop\<close>

lemma request_elections_advance:
  assumes "active_inv c hr s" and "request_elections c v batches ns sol s = Some (sol', s')"
  shows "advances c hr s s'"
  using assms
proof (induction ns arbitrary: sol s)
  case Nil
  then show ?case using advances_refl by auto
next
  case (Cons n ns)
  let ?f = "\<lambda>x. case transition_time c (env_of v s) batches (sol, x) of (result, sol, x) \<Rightarrow> Some ((result, sol), x)"
  from Cons.prems(2) obtain p t where "on_election c v n ?f s = Some (p, t)" by (auto simp: bind_eq_Some_conv)
  then obtain r sol1 where t: "on_election c v n ?f s = Some ((r, sol1), t)" by (metis surj_pair)
  from Cons.prems(2) obtain e :: election and u where u: "(if r then erase_root c (el_qualified_root e) t else Some t) = Some u"
    and w: "request_elections c v batches ns sol1 u = Some (sol', s')"
    by (auto simp: bind_eq_Some_conv t simp del: if_split)
  have a: "advances c hr s t"
  proof (rule on_advances [OF Cons.prems(1) t, of "{}"])
    fix e x
    assume x: "?f (ctx_of n e s) = Some ((r, sol1), x)"
    then have "x = snd (snd (transition_time c (env_of v s) batches (sol, ctx_of n e s)))" by (simp add: case_prod_unfold)
    then show "stays {} (ctx_of n e s) x" and "election_inv c e \<Longrightarrow> election_inv c (ec_election x)"
      using stays_time [of "{}" "ctx_of n e s"] quiet_time [of c "ctx_of n e s"] by (simp_all add: quiet_def)
  qed simp
  have b: "advances c hr t u"
    using u erase_root_advances [OF advances_inv [OF a]] advances_refl [OF advances_inv [OF a]] by (auto split: if_splits)
  note c = Cons.IH [OF advances_inv [OF b] w]
  show ?case by (rule advances_trans [OF a advances_trans [OF b c]])
qed

lemma request_advances:
  assumes inv: "active_inv c hr s" and g: "request_confirm c v fanout batches reps s = Some s'"
  shows "advances c hr s s'"
proof -
  from g obtain sol sol' t fs where t: "request_elections c v batches (list_active (length (at_roots s)) s) sol s = Some (sol', t)"
    and s': "s' = t\<lparr>at_effects := fs\<rparr>"
    by (auto simp: request_confirm_def Let_def bind_eq_Some_conv case_prod_unfold)
  note a = request_elections_advance [OF inv t]
  show ?thesis using advances_trans [OF a effects_advance [OF advances_inv [OF a]]] s' by simp
qed

section \<open>Reachable states\<close>

datatype active_op =
  Do_insert block_entry "u128 option" election_behavior
| Do_trigger block_entry
| Do_vote vote
| Do_publish block
| Do_cemented u128 block_entry
| Do_already_cemented block_hash
| Do_erase qualified_root
| Do_erase_oldest
| Do_erase_recent block_hash
| Do_process_confirmed election_status nat
| Do_request nat nat "representative list"

definition active_exec :: "crypto \<Rightarrow> active_env \<Rightarrow> active_op \<Rightarrow> active \<Rightarrow> active option" where
  "active_exec c v f s =
     (case f of
        Do_insert b balance behavior \<Rightarrow> map_option snd (insert_impl c v b balance behavior s)
      | Do_trigger b \<Rightarrow> trigger_inactive_votes_cache_election c v b s
      | Do_vote a \<Rightarrow> map_option snd (active_vote c v a s)
      | Do_publish b \<Rightarrow> map_option snd (active_publish c v b s)
      | Do_cemented amount b \<Rightarrow> block_cemented_callback c v amount b s
      | Do_already_cemented h \<Rightarrow> Some (block_already_cemented_callback h s)
      | Do_erase root \<Rightarrow> erase_root c root s
      | Do_erase_oldest \<Rightarrow> erase_oldest c s
      | Do_erase_recent h \<Rightarrow> Some (erase_recently_confirmed h s)
      | Do_process_confirmed status iteration \<Rightarrow> Some (process_confirmed c v status iteration s)
      | Do_request fanout batches reps \<Rightarrow> request_confirm c v fanout batches reps s)"

definition op_fits :: "crypto \<Rightarrow> (block_hash \<Rightarrow> qualified_root) \<Rightarrow> active_op \<Rightarrow> bool" where
  "op_fits c hr f =
     (case f of
        Do_insert b balance behavior \<Rightarrow> fits c hr (fst b)
      | Do_trigger b \<Rightarrow> fits c hr (fst b)
      | Do_vote a \<Rightarrow> \<forall>i \<in> set (vote_blocks a). item_at_root c hr i
      | Do_publish b \<Rightarrow> fits c hr b
      | _ \<Rightarrow> True)"

inductive active_reach :: "crypto \<Rightarrow> (block_hash \<Rightarrow> qualified_root) \<Rightarrow> active \<Rightarrow> bool" for c hr where
  reach_new: "active_reach c hr active_new"
| reach_op: "active_reach c hr s \<Longrightarrow> env_fits c hr v \<Longrightarrow> op_fits c hr f \<Longrightarrow> active_exec c v f s = Some s' \<Longrightarrow>
    active_reach c hr s'"

lemma recent_advances:
  "active_inv c hr s \<Longrightarrow> recent_ok l \<Longrightarrow> active_inv c hr (s\<lparr>at_recently_confirmed := l\<rparr>)"
  by (simp add: active_inv_def elections_ok_def blocks_exact_def listed_in_def holds_block_def)

lemma recent_filter: "recent_ok l \<Longrightarrow> recent_ok (filter P l)"
  by (auto simp: recent_ok_def distinct_map_filter intro: le_trans [OF length_filter_le])

lemma process_confirmed_inv:
  assumes inv: "active_inv c hr s"
  shows "active_inv c hr (process_confirmed c v status iteration s)"
proof (cases "block_get (blocks_of (ae_ledger v)) (generate_hash c (es_winner status))")
  case None
  have "advances c hr s (process_confirmed c v status iteration s)"
    by (rule advances_same [OF inv])
       (simp_all add: process_confirmed_def None active_emit_def remove_election_winner_details_def active_invD(4) [OF inv] map_le_def)
  then show ?thesis by (rule advances_inv)
next
  case (Some b)
  let ?t = "add_recently_confirmed (block_qualified_root (fst b)) (generate_hash c (es_winner status)) s"
  have "?t = s\<lparr>at_recently_confirmed := at_recently_confirmed ?t\<rparr>" by (simp add: add_recently_confirmed_def Let_def)
  with recent_advances [OF inv add_recently_confirmed_ok [OF active_invD(3) [OF inv]]] have t: "active_inv c hr ?t" by metis
  show ?thesis using advances_inv [OF emit_advances [OF t]] by (simp add: process_confirmed_def Some Let_def)
qed

lemma exec_inv:
  assumes inv: "active_inv c hr s" and v: "env_fits c hr v" and o: "op_fits c hr f" and g: "active_exec c v f s = Some s'"
  shows "active_inv c hr s'"
proof (cases f)
  case (Do_already_cemented h)
  have "advances c hr s (block_already_cemented_callback h s)"
    by (rule advances_same [OF inv])
       (simp_all add: block_already_cemented_callback_def remove_election_winner_details_def active_invD(4) [OF inv] map_le_def)
  with g Do_already_cemented show ?thesis by (simp add: active_exec_def advances_def)
next
  case (Do_erase_recent h)
  with g recent_advances [OF inv recent_filter [OF active_invD(3) [OF inv]]] show ?thesis
    by (auto simp: active_exec_def erase_recently_confirmed_def)
next
  case (Do_process_confirmed status iteration)
  with g have s': "s' = process_confirmed c v status iteration s" by (simp add: active_exec_def)
  show ?thesis unfolding s' by (rule process_confirmed_inv [OF inv])
next
  case (Do_insert b balance behavior)
  with g o insert_advances [OF inv v, of b balance behavior] show ?thesis
    by (auto simp: active_exec_def op_fits_def advances_def)
next
  case (Do_trigger b)
  with g o trigger_advances [OF inv v, of b] show ?thesis by (simp add: active_exec_def op_fits_def advances_def)
next
  case (Do_vote a)
  with g o vote_advances [OF inv v, of a] show ?thesis by (auto simp: active_exec_def op_fits_def advances_def)
next
  case (Do_publish b)
  with g o publish_advances [OF inv v, of b] show ?thesis by (auto simp: active_exec_def op_fits_def advances_def)
next
  case (Do_cemented amount b)
  with g cemented_advances [OF inv, of v amount b] show ?thesis by (simp add: active_exec_def advances_def)
next
  case (Do_erase root)
  with g erase_root_advances [OF inv, of root] show ?thesis by (simp add: active_exec_def advances_def)
next
  case Do_erase_oldest
  with g erase_oldest_advances [OF inv] show ?thesis by (simp add: active_exec_def advances_def)
next
  case (Do_request fanout batches reps)
  with g request_advances [OF inv, of v fanout batches reps] show ?thesis by (simp add: active_exec_def advances_def)
qed

lemma active_new_inv: "active_inv c hr active_new"
  by (simp add: active_inv_def active_new_def elections_ok_def blocks_exact_def listed_in_def recent_ok_def)

lemma reach_inv: "active_reach c hr s \<Longrightarrow> active_inv c hr s"
  by (induction rule: active_reach.induct) (auto intro: active_new_inv exec_inv)

end
