(* ===== verification/Active_Theorems.thy ===== *)
theory Active_Theorems
  imports Active_Run Election_Sample
begin

declare split_paired_All [simp del] split_paired_Ex [simp del]

text \<open>What \<open>active_transactions\<close> promises, and what an election that ends at the wrong moment leaves behind.\<close>

section \<open>The containers agree\<close>

text \<open>
  C29: whatever sequence of insertions, votes, published forks, cemented blocks, erasures and rounds of the request
  loop the node runs, \<open>blocks\<close> has an entry from a hash to an election exactly when that election is listed in
  \<open>roots\<close> and holds a block with that hash; no root has two elections; every listed election exists, belongs to
  its root and holds the block that leads it; and the list of recently confirmed roots has no duplicates and stays
  within its bound.  Blocks and votes may be any in which a hash stands for one qualified root; each operation is one step, and
  the weights it reads add up to what 128 bits hold.
\<close>

theorem active_containers_agree:
  assumes "active_reach c hr s"
  shows "(\<forall>h n. at_blocks s h = Some n \<longleftrightarrow>
        (\<exists>i e. i \<in> set (at_roots s) \<and> cf_election i = n \<and> at_heap s n = Some e \<and> h \<in> fst ` set (el_last_blocks e)))
    \<and> distinct (map cf_root (at_roots s))
    \<and> (\<forall>i \<in> set (at_roots s). \<exists>e. at_heap s (cf_election i) = Some e \<and> el_qualified_root e = cf_root i
        \<and> at_blocks s (winner_hash c e) = Some (cf_election i))
    \<and> distinct (map fst (at_recently_confirmed s)) \<and> length (at_recently_confirmed s) \<le> recently_confirmed_size"
proof (intro conjI ballI allI)
  note inv = reach_inv [OF assms]
  show b: "at_blocks s h = Some n \<longleftrightarrow>
      (\<exists>i e. i \<in> set (at_roots s) \<and> cf_election i = n \<and> at_heap s n = Some e \<and> h \<in> fst ` set (el_last_blocks e))" for h n
    using active_invD(2) [OF inv] by (auto simp: blocks_exact_def listed_in_def holds_block_def)
  show "distinct (map cf_root (at_roots s))" using active_invD(1) [OF inv] by (simp add: elections_ok_def)
  show "\<exists>e. at_heap s (cf_election i) = Some e \<and> el_qualified_root e = cf_root i
        \<and> at_blocks s (winner_hash c e) = Some (cf_election i)" if i: "i \<in> set (at_roots s)" for i
  proof -
    from listed_heap [OF inv i] obtain e where e: "at_heap s (cf_election i) = Some e" "el_qualified_root e = cf_root i" by blast
    from heap_ok(2) [OF inv e(1)] have "map_of (el_last_blocks e) (winner_hash c e) = Some (es_winner (el_status e))"
      by (simp add: election_ok_def election_inv_def)
    from map_of_SomeD [OF this] have "winner_hash c e \<in> fst ` set (el_last_blocks e)" by force
    with i e b show ?thesis by blast
  qed
  show "distinct (map fst (at_recently_confirmed s))" "length (at_recently_confirmed s) \<le> recently_confirmed_size"
    using active_invD(3) [OF inv] by (simp_all add: recent_ok_def)
qed

definition sample_active_env :: active_env where
  "sample_active_env =
     \<lparr>ae_election = sample_env [50, 30] 60, ae_ledger = sample_0, ae_constants = sample_constants, ae_active_size = 5000,
      ae_cache_size = 65536, ae_history_size = 2048, ae_hint_percent = 10, ae_beta_network = False, ae_disable_lazy = False,
      ae_disable_legacy = False, ae_bootstrap_numerator = 1, ae_iterations = 1, ae_bootstrap_max = 0,
      ae_processing_added = (\<lambda>h. False), ae_processing = (\<lambda>h. False), ae_half_rep = False, ae_own_rep = (\<lambda>a. False)\<rparr>"

definition sample_roots :: "block_hash \<Rightarrow> qualified_root" where
  "sample_roots h = (if h = 101 then block_qualified_root (k_genesis sample_constants) else (101, 101))"

definition fork_entry :: "link \<Rightarrow> block_entry" where
  "fork_entry n =
     (fork_block n, \<lparr>sb_successor = 0, sb_account = 1, sb_balance = 0, sb_height = 2, sb_timestamp = 1,
       sb_details = \<lparr>bd_epoch = epoch_0, bd_is_send = True, bd_is_receive = False, bd_is_epoch = False\<rparr>,
       sb_source_epoch = epoch_0\<rparr>)"

lemma sample_fits: "n \<noteq> 1 \<Longrightarrow> fits sample_crypto sample_roots (fork_block n)"
  by (simp add: fits_def sample_roots_def)

lemma sample_env_fits: "env_fits sample_crypto sample_roots sample_active_env"
proof -
  have "env_ok (sample_env [50, 30] 60)" by (rule sample_env_ok) simp
  moreover have "fits sample_crypto sample_roots (k_genesis sample_constants)"
    by (simp add: fits_def sample_roots_def sample_constants_def)
  ultimately show ?thesis by (auto simp: env_fits_def sample_active_env_def sample_0_eq split: if_splits)
qed

lemmas active_eval =
  insert_impl_def insert_balance_def insert_election_def election_insert_cache_def election_generate_votes_def on_election_def
  active_new_def find_root_def find_inactive_votes_cache_def cache_find_def empty_information_def put_ctx_def ctx_of_def
  env_of_def active_emit_def emplace_def insert_inactive_votes_cache_def generate_votes_def fork_entry_def Let_def
  sample_active_env_def

definition sample_active_1 :: active where
  "sample_active_1 = snd (the (insert_impl sample_crypto sample_active_env (fork_entry 5) (Some 100) Normal active_new))"

lemma sample_inserted:
  "insert_impl sample_crypto sample_active_env (fork_entry 5) (Some 100) Normal active_new = Some ((Some 0, True), sample_active_1)"
  "at_blocks sample_active_1 = [105 \<mapsto> 0]" "map cf_election (at_roots sample_active_1) = [0]"
  by (simp_all add: sample_active_1_def active_eval election_new_def sample_env_def confirm_if_quorum_unfold confirmed_def)

lemma sample_active_reached: "active_reach sample_crypto sample_roots sample_active_1"
proof (rule reach_op [OF reach_new sample_env_fits])
  show "op_fits sample_crypto sample_roots (Do_insert (fork_entry 5) (Some 100) Normal)"
    using sample_fits [of 5] by (simp add: op_fits_def fork_entry_def)
  show "active_exec sample_crypto sample_active_env (Do_insert (fork_entry 5) (Some 100) Normal) active_new = Some sample_active_1"
    by (simp add: active_exec_def sample_inserted)
qed

theorem active_containers_agree_witness:
  "\<exists>i e. i \<in> set (at_roots sample_active_1) \<and> cf_election i = 0 \<and> at_heap sample_active_1 0 = Some e
     \<and> 105 \<in> fst ` set (el_last_blocks e)"
proof -
  have "at_blocks sample_active_1 105 = Some 0" by (simp add: sample_inserted)
  with active_containers_agree [OF sample_active_reached] show ?thesis by blast
qed

section \<open>A fork that arrives while its election ends\<close>

text \<open>
  \<open>publish\<close> gives the block to the election with the mutex of the container free.  When the election is erased
  before the block is entered, the entry that is made then belongs to no listed election.  A later election for
  that block does not replace the entry, so a vote for the hash is counted in the election that ended: the election
  that is listed never sees it.
\<close>

definition sample_fork_vote :: vote where
  "sample_fork_vote =
     \<lparr>vote_timestamp_m = 16, vote_blocks = [Vote_hash 106], vote_account = 1, vote_signature = 0\<rparr>"

text \<open>
  The result: \<open>publish\<close> accepted the block in election 0, no election is listed any more, the hash is entered for
  election 0 all the same, the new election has number 1 and is the one that is listed, and the vote of
  representative 1 is in election 0 and not in election 1.
\<close>

theorem late_entry_takes_votes:
  "do { ((rejected, n), s1) \<leftarrow> publish_start sample_crypto sample_active_env (fork_block 6) sample_active_1;
        s2 \<leftarrow> erase_root sample_crypto (101, 101) s1;
        s3 \<leftarrow> publish_finish sample_crypto sample_active_env (fork_block 6) n s2;
        ((m, inserted), s4) \<leftarrow> insert_impl sample_crypto sample_active_env (fork_entry 6) (Some 100) Normal s3;
        (code, s5) \<leftarrow> active_vote sample_crypto sample_active_env sample_fork_vote s4;
        e0 \<leftarrow> at_heap s5 n;
        e1 \<leftarrow> at_heap s5 (the m);
        Some (rejected, n, at_roots s3 = [], at_blocks s3 106, m, map cf_election (at_roots s5),
              1 \<in> fst ` set (el_last_votes e0), 1 \<in> fst ` set (el_last_votes e1)) }
   = Some (False, 0, True, Some 0, Some 1, [1], True, False)"
  by (simp add: publish_start_def active_election_def election_publish_def publish_room_def publish_entry_def erase_root_def
      cleanup_election_def cleanup_blocks_def erase_hash_def erase_inactive_votes_cache_def cache_erase_def publish_finish_def
      active_vote_def vote_target_def sample_fork_vote_def sample_active_1_def active_eval election_eval max_blocks_def
      vote_timestamp_def timestamp_mask_def apply_effect_def)

end
