(* ===== verification/Prioritization.thy ===== *)
theory Prioritization
  imports Block_Table
begin

declare split_paired_All [simp del] split_paired_Ex [simp del]

text \<open>
  \<^verbatim>\<open>node/prioritization.cpp\<close>: the blocks that wait for an election, in buckets by balance that take turns.  A bucket
  is an ordered set without two equal values, as a list.  \<open>None\<close> is the use of an empty bucket, which
  the code only excludes by assertions of debug builds.
\<close>

section \<open>Values\<close>

record priority_value =
  pv_time :: u64
  pv_block :: block_entry

definition value_less :: "crypto \<Rightarrow> priority_value \<Rightarrow> priority_value \<Rightarrow> bool" where
  "value_less c v w \<longleftrightarrow>
     pv_time v < pv_time w
     \<or> pv_time v = pv_time w \<and> generate_hash c (fst (pv_block v)) < generate_hash c (fst (pv_block w))"

definition value_equal :: "crypto \<Rightarrow> priority_value \<Rightarrow> priority_value \<Rightarrow> bool" where
  "value_equal c v w \<longleftrightarrow>
     pv_time v = pv_time w \<and> generate_hash c (fst (pv_block v)) = generate_hash c (fst (pv_block w))"

text \<open>A value that is there stays.\<close>

fun bucket_emplace :: "crypto \<Rightarrow> priority_value \<Rightarrow> priority_value list \<Rightarrow> priority_value list" where
  "bucket_emplace c v [] = [v]"
| "bucket_emplace c v (w # ws) =
     (if value_less c v w then v # w # ws else if value_less c w v then w # bucket_emplace c v ws else w # ws)"

section \<open>The container\<close>

record prioritization =
  pz_buckets :: "priority_value list list"
  pz_minimums :: "u128 list"
  pz_schedule :: "nat list"
  pz_current :: nat
  pz_maximum :: u64

definition bucket_total :: nat where
  "bucket_total = 129"

fun doublings :: "nat \<Rightarrow> u128 \<Rightarrow> u128 list" where
  "doublings 0 m = []"
| "doublings (Suc n) m = m # doublings n (m + m)"

definition populate_schedule :: "prioritization \<Rightarrow> prioritization" where
  "populate_schedule s = s\<lparr>pz_schedule := pz_schedule s @ [0..<length (pz_buckets s)]\<rparr>"

definition prioritization_new :: "u64 \<Rightarrow> prioritization" where
  "prioritization_new maximum =
     populate_schedule
       \<lparr>pz_buckets = replicate bucket_total [], pz_minimums = 0 # doublings (bucket_total - 1) 1, pz_schedule = [],
        pz_current = 0, pz_maximum = maximum\<rparr>"

definition current_bucket :: "prioritization \<Rightarrow> priority_value list" where
  "current_bucket s = pz_buckets s ! (pz_schedule s ! pz_current s)"

definition prioritization_next :: "prioritization \<Rightarrow> prioritization" where
  "prioritization_next s =
     (let s = s\<lparr>pz_current := pz_current s + 1\<rparr>
      in if pz_current s = length (pz_schedule s) then s\<lparr>pz_current := 0\<rparr> else s)"

fun seek_loop :: "nat \<Rightarrow> prioritization \<Rightarrow> prioritization" where
  "seek_loop 0 s = s"
| "seek_loop (Suc n) s = (if current_bucket s = [] then seek_loop n (prioritization_next s) else s)"

definition prioritization_seek :: "prioritization \<Rightarrow> prioritization" where
  "prioritization_seek s = seek_loop (length (pz_schedule s)) (prioritization_next s)"

definition prioritization_empty :: "prioritization \<Rightarrow> bool" where
  "prioritization_empty s \<longleftrightarrow> list_all (\<lambda>bucket. bucket = []) (pz_buckets s)"

definition prioritization_size :: "prioritization \<Rightarrow> nat" where
  "prioritization_size s = sum_list (map length (pz_buckets s))"

definition bucket_count :: "prioritization \<Rightarrow> nat" where
  "bucket_count s = length (pz_buckets s)"

definition bucket_size :: "prioritization \<Rightarrow> nat \<Rightarrow> nat" where
  "bucket_size s index = length (pz_buckets s ! index)"

text \<open>The balance after the block: in the block itself, or in its sideband.\<close>

definition pushed_balance :: "block_entry \<Rightarrow> u128" where
  "pushed_balance e =
     (if block_type_of (fst e) = bt_state \<or> block_type_of (fst e) = bt_send then block_balance (fst e)
      else sb_balance (snd e))"

fun upper_bound :: "u128 list \<Rightarrow> u128 \<Rightarrow> nat" where
  "upper_bound [] x = 0"
| "upper_bound (m # ms) x = (if x < m then 0 else Suc (upper_bound ms x))"

definition bucket_index :: "prioritization \<Rightarrow> u128 \<Rightarrow> nat" where
  "bucket_index s balance = upper_bound (pz_minimums s) balance - 1"

definition bucket_maximum :: "prioritization \<Rightarrow> nat" where
  "bucket_maximum s = max 1 (unat (pz_maximum s) div length (pz_buckets s))"

definition prioritization_push :: "crypto \<Rightarrow> u64 \<Rightarrow> block_entry \<Rightarrow> prioritization \<Rightarrow> prioritization" where
  "prioritization_push c time block s =
     (let was_empty = prioritization_empty s;
          index = bucket_index s (pushed_balance block);
          bucket = bucket_emplace c \<lparr>pv_time = time, pv_block = block\<rparr> (pz_buckets s ! index);
          bucket = (if bucket_maximum s < length bucket then butlast bucket else bucket);
          s = s\<lparr>pz_buckets := (pz_buckets s)[index := bucket]\<rparr>
      in if was_empty then prioritization_seek s else s)"

definition prioritization_top :: "prioritization \<Rightarrow> block_entry option" where
  "prioritization_top s =
     (case current_bucket s of [] \<Rightarrow> None | v # bucket \<Rightarrow> Some (pv_block v))"

definition prioritization_pop :: "prioritization \<Rightarrow> prioritization option" where
  "prioritization_pop s =
     (case current_bucket s of
        [] \<Rightarrow> None
      | v # bucket \<Rightarrow> Some (prioritization_seek (s\<lparr>pz_buckets := (pz_buckets s)[pz_schedule s ! pz_current s := bucket]\<rparr>)))"

section \<open>Bands\<close>

lemma doublings_nth: "i < n \<Longrightarrow> doublings n m ! i = m * 2 ^ i" and length_doublings [simp]: "length (doublings n m) = n"
  by (induction n m arbitrary: i rule: doublings.induct) (auto simp: nth_Cons algebra_simps split: nat.splits)

lemma upper_bound_le: "upper_bound ms x \<le> length ms"
  by (induction ms) auto

lemma upper_bound_nth:
  "i < upper_bound ms x \<Longrightarrow> ms ! i \<le> x" "upper_bound ms x < length ms \<Longrightarrow> x < ms ! upper_bound ms x"
  by (induction ms arbitrary: i) (auto simp: nth_Cons not_less split: nat.splits if_splits)

section \<open>Buckets\<close>

lemma value_less_irrefl [simp]: "\<not> value_less c v v"
  by (simp add: value_less_def)

lemma value_less_trans: "value_less c u v \<Longrightarrow> value_less c v w \<Longrightarrow> value_less c u w"
  by (auto simp: value_less_def)

lemma emplace_set: "set (bucket_emplace c v ws) \<subseteq> insert v (set ws)"
  by (induction ws) auto

lemma emplace_nonempty [simp]: "bucket_emplace c v ws \<noteq> []"
  by (cases ws) auto

lemma emplace_length: "length (bucket_emplace c v ws) \<le> Suc (length ws)"
  by (induction ws) auto

lemma emplace_sorted: "sorted_wrt (value_less c) ws \<Longrightarrow> sorted_wrt (value_less c) (bucket_emplace c v ws)"
proof (induction ws)
  case (Cons w ws)
  have "value_less c w x" if "value_less c w v" "x \<in> set (bucket_emplace c v ws)" for x
    using that emplace_set [of c v ws] Cons.prems by auto
  with Cons show ?case by (auto intro: value_less_trans)
qed simp

lemma value_linear: "value_less c v w \<or> value_less c w v \<or> value_equal c w v"
  unfolding value_less_def value_equal_def by (metis linorder_less_linear)

lemma emplace_contains: "\<exists>w \<in> set (bucket_emplace c v ws). w = v \<or> value_equal c w v"
  using value_linear [of c v] by (induction ws) fastforce+

section \<open>Invariant\<close>

definition bucket_ok :: "crypto \<Rightarrow> nat \<Rightarrow> nat \<Rightarrow> priority_value list \<Rightarrow> bool" where
  "bucket_ok c limit i bucket \<longleftrightarrow>
     sorted_wrt (value_less c) bucket \<and> length bucket \<le> limit \<and>
     (\<forall>v \<in> set bucket. unat (pushed_balance (pv_block v)) < 2 ^ i \<and>
        (0 < i \<longrightarrow> 2 ^ (i - 1) \<le> unat (pushed_balance (pv_block v))))"

definition prioritization_ok :: "crypto \<Rightarrow> prioritization \<Rightarrow> bool" where
  "prioritization_ok c s \<longleftrightarrow>
     length (pz_buckets s) = 129 \<and> pz_schedule s = [0..<129] \<and> pz_minimums s = 0 # doublings 128 1 \<and> pz_current s < 129 \<and>
     (\<forall>i < 129. bucket_ok c (bucket_maximum s) i (pz_buckets s ! i)) \<and>
     (\<not> prioritization_empty s \<longrightarrow> current_bucket s \<noteq> [])"

lemma band:
  fixes x :: u128
  assumes "pz_minimums s = 0 # doublings 128 1"
  defines "i \<equiv> bucket_index s x"
  shows "i < 129" and "unat x < 2 ^ i" and "0 < i \<Longrightarrow> 2 ^ (i - 1) \<le> unat x"
proof -
  let ?ms = "0 # doublings 128 1 :: u128 list" and ?k = "upper_bound (0 # doublings 128 1) x"
  have k: "?k = Suc i" by (simp add: i_def bucket_index_def assms(1))
  have le: "i \<le> 128" using upper_bound_le [of ?ms x] k by simp
  then show "i < 129" by simp
  have p: "unat (2 ^ j :: u128) = 2 ^ j" if "j < 128" for j
  proof -
    have "unat (of_nat (2 ^ j) :: u128) = 2 ^ j"
      using that by (simp del: of_nat_power of_nat_numeral add: unsigned_of_nat take_bit_nat_eq_self)
    then show ?thesis by simp
  qed
  have m: "?ms ! Suc j = 2 ^ j" if "j < 128" for j
    using that by (simp add: doublings_nth)
  show "unat x < 2 ^ i"
  proof (cases "i = 128")
    case True
    then show ?thesis using unsigned_less [of x, where 'a = nat] by simp
  next
    case False
    with le have "i < 128" by simp
    with upper_bound_nth(2) [of ?ms x] k m [of i] p [of i] show ?thesis by (simp add: word_less_nat_alt)
  qed
  show "2 ^ (i - 1) \<le> unat x" if "0 < i"
    using upper_bound_nth(1) [of "Suc (i - 1)" ?ms x] k that le m [of "i - 1"] p [of "i - 1"]
    by (simp add: word_le_nat_alt)
qed

lemma next_fields [simp]:
  "pz_buckets (prioritization_next s) = pz_buckets s" "pz_schedule (prioritization_next s) = pz_schedule s"
  "pz_minimums (prioritization_next s) = pz_minimums s" "pz_maximum (prioritization_next s) = pz_maximum s"
  by (simp_all add: prioritization_next_def Let_def)

lemma next_update [simp]: "(prioritization_next s)\<lparr>pz_current := i\<rparr> = s\<lparr>pz_current := i\<rparr>"
  by (simp add: prioritization_next_def Let_def)

lemma next_current:
  "pz_current s < length (pz_schedule s) \<Longrightarrow>
    pz_current (prioritization_next s) = (pz_current s + 1) mod length (pz_schedule s)"
  by (simp add: prioritization_next_def Let_def)

text \<open>A search stops at the first bucket that is not empty.\<close>

lemma seek_loop_at:
  assumes "pz_current s < length (pz_schedule s)" and "d \<le> n"
    and "\<forall>j < d. pz_buckets s ! (pz_schedule s ! ((pz_current s + j) mod length (pz_schedule s))) = []"
    and "d < n \<longrightarrow> pz_buckets s ! (pz_schedule s ! ((pz_current s + d) mod length (pz_schedule s))) \<noteq> []"
  shows "seek_loop n s = s\<lparr>pz_current := (pz_current s + d) mod length (pz_schedule s)\<rparr>"
  using assms
proof (induction n arbitrary: d s)
  case (Suc n)
  show ?case
  proof (cases d)
    case 0
    with Suc.prems show ?thesis by (simp add: current_bucket_def)
  next
    case (Suc d')
    let ?s = "prioritization_next s" and ?L = "length (pz_schedule s)"
    have c: "pz_current ?s = (pz_current s + 1) mod ?L" using Suc.prems(1) by (rule next_current)
    have sh: "(pz_current ?s + j) mod ?L = (pz_current s + Suc j) mod ?L" for j
      unfolding c by (simp add: mod_add_left_eq)
    have cl: "pz_current ?s < length (pz_schedule ?s)" unfolding c using Suc.prems(1) by (cases "length (pz_schedule s)") simp_all
    have b0: "current_bucket s = []" using Suc.prems(1,3) Suc by (auto simp: current_bucket_def)
    have "seek_loop n ?s = ?s\<lparr>pz_current := (pz_current ?s + d') mod length (pz_schedule ?s)\<rparr>"
      by (rule Suc.IH) (use Suc.prems Suc cl sh in auto)
    with b0 show ?thesis unfolding Suc by (simp add: sh)
  qed
qed simp


lemma seek_at:
  assumes "pz_current s < length (pz_schedule s)" and "d < length (pz_schedule s)"
    and "\<forall>j < d. pz_buckets s ! (pz_schedule s ! ((pz_current s + 1 + j) mod length (pz_schedule s))) = []"
    and "pz_buckets s ! (pz_schedule s ! ((pz_current s + 1 + d) mod length (pz_schedule s))) \<noteq> []"
  shows "prioritization_seek s = s\<lparr>pz_current := (pz_current s + 1 + d) mod length (pz_schedule s)\<rparr>"
proof -
  let ?s = "prioritization_next s" and ?L = "length (pz_schedule s)"
  have c: "pz_current ?s = (pz_current s + 1) mod ?L" using assms(1) by (rule next_current)
  have sh: "(pz_current ?s + j) mod ?L = (pz_current s + 1 + j) mod ?L" for j
    unfolding c by (simp add: mod_add_left_eq)
  have cl: "pz_current ?s < length (pz_schedule ?s)" unfolding c using assms(1) by (cases "length (pz_schedule s)") simp_all
  have "seek_loop ?L ?s = ?s\<lparr>pz_current := (pz_current ?s + d) mod length (pz_schedule ?s)\<rparr>"
    by (rule seek_loop_at [OF cl]) (use assms sh in auto)
  then show ?thesis unfolding prioritization_seek_def by (simp add: sh)
qed

text \<open>The distance to a bucket in the round.\<close>

definition rounds :: "nat \<Rightarrow> nat \<Rightarrow> nat" where
  "rounds from i = (i + 128 - from) mod 129"

lemma rounds_at: "i < 129 \<Longrightarrow> from < 129 \<Longrightarrow> (from + 1 + rounds from i) mod 129 = i"
proof -
  assume "i < 129" "from < 129"
  have "(from + 1 + rounds from i) mod 129 = (from + 1 + (i + 128 - from)) mod 129"
    unfolding rounds_def by (rule mod_add_right_eq)
  also have "from + 1 + (i + 128 - from) = i + 129" using \<open>from < 129\<close> by simp
  finally show ?thesis using \<open>i < 129\<close> by simp
qed

lemma seek_stops:
  assumes "pz_current s < 129" and "pz_schedule s = [0..<129]" and "i < 129" and "pz_buckets s ! i \<noteq> []"
  shows "\<exists>j < 129. prioritization_seek s = s\<lparr>pz_current := j\<rparr> \<and> pz_buckets s ! j \<noteq> [] \<and>
    rounds (pz_current s) j \<le> rounds (pz_current s) i"
proof -
  let ?at = "\<lambda>d. (pz_current s + 1 + d) mod 129"
  define d where "d = (LEAST d. pz_buckets s ! ?at d \<noteq> [])"
  let ?r = "rounds (pz_current s) i"
  have r: "pz_buckets s ! ?at ?r \<noteq> []" using assms rounds_at by simp
  then have d: "pz_buckets s ! ?at d \<noteq> []" "d \<le> ?r"
    unfolding d_def by (rule LeastI, rule Least_le)
  have "?r < 129" by (simp add: rounds_def)
  with d have d129: "d < 129" by simp
  have "pz_buckets s ! ?at j = []" if "j < d" for j using not_less_Least [OF that [unfolded d_def]] by simp
  moreover have nth: "[0..<129] ! ?at j = ?at j" for j by (rule nth_upt [of 0, simplified]) simp
  ultimately have "prioritization_seek s = s\<lparr>pz_current := ?at d\<rparr>"
    using seek_at [of s d] assms(1,2) d d129 by simp
  moreover have "rounds (pz_current s) (?at d) = d"
  proof -
    have "rounds (pz_current s) (?at d) = (?at d + (128 - pz_current s)) mod 129"
      using assms(1) by (simp add: rounds_def)
    also have "\<dots> = (pz_current s + 1 + d + (128 - pz_current s)) mod 129" by (rule mod_add_left_eq)
    also have "\<dots> = (d + 129) mod 129" using assms(1) by (simp add: algebra_simps)
    finally show ?thesis using d129 by simp
  qed
  ultimately show ?thesis using d by (intro exI [of _ "?at d"]) simp
qed

lemma seek_loop_fields [simp]:
  "pz_buckets (seek_loop n s) = pz_buckets s" "pz_schedule (seek_loop n s) = pz_schedule s"
  "pz_minimums (seek_loop n s) = pz_minimums s" "pz_maximum (seek_loop n s) = pz_maximum s"
  by (induction n arbitrary: s) auto

lemma seek_fields [simp]:
  "pz_buckets (prioritization_seek s) = pz_buckets s" "pz_schedule (prioritization_seek s) = pz_schedule s"
  "pz_minimums (prioritization_seek s) = pz_minimums s" "pz_maximum (prioritization_seek s) = pz_maximum s"
  "bucket_maximum (prioritization_seek s) = bucket_maximum s"
  "prioritization_empty (prioritization_seek s) = prioritization_empty s"
  by (simp_all add: prioritization_seek_def bucket_maximum_def prioritization_empty_def)

lemma next_current_less:
  "pz_current s < length (pz_schedule s) \<Longrightarrow> pz_current (prioritization_next s) < length (pz_schedule s)"
  by (cases "length (pz_schedule s)") (simp_all add: next_current)

lemma seek_loop_current:
  "pz_current s < length (pz_schedule s) \<Longrightarrow> pz_current (seek_loop n s) < length (pz_schedule s)"
proof (induction n arbitrary: s)
  case (Suc n)
  from Suc.IH [of "prioritization_next s"] next_current_less [OF Suc.prems] Suc.prems show ?case by simp
qed simp

lemma seek_current:
  "pz_current s < length (pz_schedule s) \<Longrightarrow> pz_current (prioritization_seek s) < length (pz_schedule s)"
  unfolding prioritization_seek_def
  using seek_loop_current [of "prioritization_next s"] next_current_less by simp

lemma empty_nth: "length (pz_buckets s) = 129 \<Longrightarrow> prioritization_empty s \<longleftrightarrow> (\<forall>i < 129. pz_buckets s ! i = [])"
  by (auto simp: prioritization_empty_def list_all_length)

lemma seek_ok:
  assumes "length (pz_buckets s) = 129" "pz_schedule s = [0..<129]" "pz_minimums s = 0 # doublings 128 1"
    and "pz_current s < 129" "\<And>i. i < 129 \<Longrightarrow> bucket_ok c (bucket_maximum s) i (pz_buckets s ! i)"
  shows "prioritization_ok c (prioritization_seek s)"
proof (cases "prioritization_empty s")
  case True
  with assms seek_current [of s] show ?thesis by (simp add: prioritization_ok_def)
next
  case False
  with assms(1) obtain i where i: "i < 129" "pz_buckets s ! i \<noteq> []" by (auto simp: empty_nth)
  from seek_stops [OF assms(4,2) i] obtain j where j: "j < 129" "prioritization_seek s = s\<lparr>pz_current := j\<rparr>"
    "pz_buckets s ! j \<noteq> []" by blast
  with assms show ?thesis
    by (simp add: prioritization_ok_def current_bucket_def bucket_maximum_def)
qed

lemma new_ok: "prioritization_ok c (prioritization_new maximum)"
proof -
  have r: "replicate 129 [] ! i = []" if "i < 129" for i :: nat using that by (rule nth_replicate)
  then show ?thesis
    by (simp add: prioritization_ok_def prioritization_new_def populate_schedule_def bucket_total_def bucket_ok_def
        prioritization_empty_def list_all_length)
qed

text \<open>The bucket that a push leaves behind.\<close>

definition bucket_pushed :: "crypto \<Rightarrow> u64 \<Rightarrow> block_entry \<Rightarrow> prioritization \<Rightarrow> priority_value list" where
  "bucket_pushed c time block s =
     (let bucket = bucket_emplace c \<lparr>pv_time = time, pv_block = block\<rparr>
            (pz_buckets s ! bucket_index s (pushed_balance block))
      in if bucket_maximum s < length bucket then butlast bucket else bucket)"

lemma push_eq:
  "prioritization_push c time block s =
     (let s' = s\<lparr>pz_buckets := (pz_buckets s)[bucket_index s (pushed_balance block) := bucket_pushed c time block s]\<rparr>
      in if prioritization_empty s then prioritization_seek s' else s')"
  by (simp add: prioritization_push_def bucket_pushed_def Let_def)

lemma bucket_pushed_nonempty: "bucket_pushed c time block s \<noteq> []"
proof -
  have "1 \<le> bucket_maximum s" by (simp add: bucket_maximum_def)
  then have "bucket_maximum s < length b \<Longrightarrow> butlast b \<noteq> []" for b :: "priority_value list"
    by (cases b) auto
  then show ?thesis by (simp add: bucket_pushed_def Let_def)
qed

lemma bucket_pushed_ok:
  fixes block :: block_entry
  assumes "prioritization_ok c s"
  defines "i \<equiv> bucket_index s (pushed_balance block)"
  shows "i < 129" and "bucket_ok c (bucket_maximum s) i (bucket_pushed c time block s)"
proof -
  let ?v = "\<lparr>pv_time = time, pv_block = block\<rparr>"
  have m: "pz_minimums s = 0 # doublings 128 1" using assms by (simp add: prioritization_ok_def)
  note b = band [OF m, of "pushed_balance block", folded i_def]
  show "i < 129" by (rule b)
  with assms have old: "bucket_ok c (bucket_maximum s) i (pz_buckets s ! i)" by (simp add: prioritization_ok_def)
  let ?b = "bucket_emplace c ?v (pz_buckets s ! i)"
  have "sorted_wrt (value_less c) ?b" "length ?b \<le> Suc (bucket_maximum s)"
    using old emplace_length [of c ?v "pz_buckets s ! i"] by (auto simp: bucket_ok_def intro: emplace_sorted)
  moreover from this have "sorted_wrt (value_less c) (butlast ?b)"
    by (simp add: butlast_conv_take sorted_wrt_take)
  moreover have "v \<in> set ?b \<Longrightarrow> unat (pushed_balance (pv_block v)) < 2 ^ i \<and>
      (0 < i \<longrightarrow> 2 ^ (i - 1) \<le> unat (pushed_balance (pv_block v)))" for v
    using emplace_set [of c ?v "pz_buckets s ! i"] old b by (auto simp: bucket_ok_def)
  ultimately show "bucket_ok c (bucket_maximum s) i (bucket_pushed c time block s)"
    by (auto simp: bucket_pushed_def Let_def bucket_ok_def i_def [symmetric] dest: in_set_butlastD)
qed

lemma push_ok:
  assumes ok: "prioritization_ok c s"
  shows "prioritization_ok c (prioritization_push c time block s)"
proof -
  let ?i = "bucket_index s (pushed_balance block)" and ?b = "bucket_pushed c time block s"
  let ?s = "s\<lparr>pz_buckets := (pz_buckets s)[?i := ?b]\<rparr>"
  note b = bucket_pushed_ok [OF ok]
  from ok have s: "length (pz_buckets s) = 129" "pz_schedule s = [0..<129]" "pz_minimums s = 0 # doublings 128 1"
    "pz_current s < 129" "\<And>i. i < 129 \<Longrightarrow> bucket_ok c (bucket_maximum s) i (pz_buckets s ! i)"
    "\<not> prioritization_empty s \<Longrightarrow> current_bucket s \<noteq> []" by (simp_all add: prioritization_ok_def)
  have m: "bucket_maximum ?s = bucket_maximum s" by (simp add: bucket_maximum_def)
  have n: "i < 129 \<Longrightarrow> bucket_ok c (bucket_maximum ?s) i (pz_buckets ?s ! i)" for i
    using s(1,5) b m by (cases "i = ?i") simp_all
  show ?thesis
  proof (cases "prioritization_empty s")
    case True
    have "prioritization_ok c (prioritization_seek ?s)" by (rule seek_ok) (use s n in simp_all)
    with True show ?thesis by (simp add: push_eq Let_def)
  next
    case False
    have "current_bucket ?s \<noteq> []"
      using s(6) [OF False] s(1,2,4) bucket_pushed_nonempty [of c time block s]
      by (cases "pz_current s = ?i") (simp_all add: current_bucket_def)
    with False s n show ?thesis by (simp add: push_eq Let_def prioritization_ok_def)
  qed
qed

lemma popped_ok:
  assumes ok: "prioritization_ok c s" and "prioritization_pop s = Some s'"
  shows "prioritization_ok c s'"
proof -
  from ok have s: "length (pz_buckets s) = 129" "pz_schedule s = [0..<129]" "pz_minimums s = 0 # doublings 128 1"
    "pz_current s < 129" "\<And>i. i < 129 \<Longrightarrow> bucket_ok c (bucket_maximum s) i (pz_buckets s ! i)"
    by (simp_all add: prioritization_ok_def)
  from assms(2) obtain v b where v: "pz_buckets s ! pz_current s = v # b"
    and s': "s' = prioritization_seek (s\<lparr>pz_buckets := (pz_buckets s)[pz_current s := b]\<rparr>)"
    using s(2,4) by (auto simp: prioritization_pop_def current_bucket_def split: list.splits)
  have "bucket_ok c (bucket_maximum s) (pz_current s) b" using s(5) [OF s(4)] by (simp add: v bucket_ok_def)
  then show ?thesis unfolding s'
    by (intro seek_ok) (use s in \<open>auto simp: nth_list_update bucket_maximum_def\<close>)
qed

section \<open>No bucket starves\<close>

datatype priority_op = P_push u64 block_entry | P_pop

fun priority_run :: "crypto \<Rightarrow> priority_op list \<Rightarrow> prioritization \<Rightarrow> (nat list \<times> prioritization) option" where
  "priority_run c [] s = Some ([], s)"
| "priority_run c (P_push time block # ops) s = priority_run c ops (prioritization_push c time block s)"
| "priority_run c (P_pop # ops) s =
     do { s' \<leftarrow> prioritization_pop s; (served, s'') \<leftarrow> priority_run c ops s';
          Some (pz_schedule s ! pz_current s # served, s'') }"

definition ahead :: "nat \<Rightarrow> nat \<Rightarrow> nat" where
  "ahead from i = (if from \<le> i then i - from else i + 129 - from)"

lemma rounds_ahead:
  assumes "from < 129" "i < 129" "j < 129" "from \<noteq> i" "rounds from j \<le> rounds from i"
  shows "ahead j i < ahead from i"
proof -
  have r: "rounds from k = (if from < k then k - from - 1 else k + 128 - from)" if "k < 129" for k
  proof (cases "from < k")
    case True
    then have "k + 128 - from = 129 + (k - from - 1)" by simp
    then have "rounds from k = (129 + (k - from - 1)) mod 129" by (simp only: rounds_def)
    also have "\<dots> = k - from - 1" using that by (subst mod_add_self1) simp
    finally show ?thesis using True by simp
  qed (use assms(1) that in \<open>simp add: rounds_def\<close>)
  show ?thesis using assms by (auto simp: r ahead_def split: if_splits)
qed

lemma push_keeps:
  assumes ok: "prioritization_ok c s" and i: "i < 129" "pz_buckets s ! i \<noteq> []"
  shows "pz_buckets (prioritization_push c time block s) ! i \<noteq> []"
    and "pz_current (prioritization_push c time block s) = pz_current s"
proof -
  have l: "length (pz_buckets s) = 129" using ok by (simp add: prioritization_ok_def)
  have "\<not> prioritization_empty s" using i l by (auto simp: empty_nth)
  with i l bucket_pushed_nonempty [of c time block s]
  show "pz_buckets (prioritization_push c time block s) ! i \<noteq> []"
    and "pz_current (prioritization_push c time block s) = pz_current s"
    by (cases "i = bucket_index s (pushed_balance block)"; simp add: push_eq Let_def)+
qed

lemma pop_moves:
  assumes ok: "prioritization_ok c s" and i: "i < 129" "pz_buckets s ! i \<noteq> []" "i \<noteq> pz_current s"
    and p: "prioritization_pop s = Some s'"
  shows "pz_buckets s' ! i \<noteq> []" and "ahead (pz_current s') i < ahead (pz_current s) i"
proof -
  from ok have s: "length (pz_buckets s) = 129" "pz_schedule s = [0..<129]" "pz_current s < 129"
    by (simp_all add: prioritization_ok_def)
  from p obtain b where s': "s' = prioritization_seek (s\<lparr>pz_buckets := (pz_buckets s)[pz_current s := b]\<rparr>)"
    using s(2,3) by (auto simp: prioritization_pop_def split: list.splits)
  let ?s = "s\<lparr>pz_buckets := (pz_buckets s)[pz_current s := b]\<rparr>"
  have n: "pz_buckets ?s ! i \<noteq> []" using i by simp
  then show "pz_buckets s' ! i \<noteq> []" by (simp add: s')
  from seek_stops [of ?s i] s i n obtain j where "j < 129" "s' = ?s\<lparr>pz_current := j\<rparr>"
    "rounds (pz_current s) j \<le> rounds (pz_current s) i" by (auto simp: s')
  with rounds_ahead [of "pz_current s" i j] s i show "ahead (pz_current s') i < ahead (pz_current s) i" by simp
qed

lemma run_serves:
  assumes "prioritization_ok c s" and "i < 129" and "pz_buckets s ! i \<noteq> []" and "priority_run c ops s = Some (served, s')"
    and "ahead (pz_current s) i < n" and "n \<le> length served"
  shows "i \<in> set (take n served)"
  using assms
proof (induction ops arbitrary: s served n)
  case (Cons op ops)
  show ?case
  proof (cases op)
    case (P_push time block)
    with Cons.IH [OF push_ok [OF Cons.prems(1)] Cons.prems(2) push_keeps(1) [OF Cons.prems(1-3)]] Cons.prems
      push_keeps(2) [OF Cons.prems(1-3)]
    show ?thesis by simp
  next
    case P_pop
    with Cons.prems(4) obtain s1 rest where s1: "prioritization_pop s = Some s1" "priority_run c ops s1 = Some (rest, s')"
      "served = pz_schedule s ! pz_current s # rest" by (auto simp: bind_eq_Some)
    have cur: "pz_schedule s ! pz_current s = pz_current s" using Cons.prems(1) by (simp add: prioritization_ok_def)
    obtain m where n: "n = Suc m" using Cons.prems(5) by (cases n) auto
    show ?thesis
    proof (cases "i = pz_current s")
      case False
      note p = pop_moves [OF Cons.prems(1-3) False s1(1)]
      have "i \<in> set (take m rest)"
        by (rule Cons.IH [OF popped_ok [OF Cons.prems(1) s1(1)] Cons.prems(2) p(1) s1(2)]) (use p Cons.prems n s1 in auto)
      then show ?thesis by (simp add: n s1)
    qed (simp add: n s1 cur)
  qed
qed simp

lemma run_ok: "priority_run c ops s = Some (served, s') \<Longrightarrow> prioritization_ok c s \<Longrightarrow> prioritization_ok c s'"
proof (induction ops arbitrary: s served)
  case (Cons op ops)
  then show ?case by (cases op) (auto simp: bind_eq_Some intro: push_ok popped_ok)
qed simp

text \<open>A container with a block has a block to give, and a bucket keeps its share.\<close>

lemma top_defined:
  assumes "prioritization_ok c s" and "\<not> prioritization_empty s"
  shows "prioritization_top s \<noteq> None" and "prioritization_pop s \<noteq> None"
  using assms by (auto simp: prioritization_ok_def prioritization_top_def prioritization_pop_def split: list.splits)

theorem prioritization_bounded:
  assumes "priority_run c ops (prioritization_new maximum) = Some (served, s)" and "i < 129"
  shows "bucket_size s i \<le> max 1 (unat maximum div 129)
    \<and> (\<forall>v \<in> set (pz_buckets s ! i). unat (pushed_balance (pv_block v)) < 2 ^ i
          \<and> (0 < i \<longrightarrow> 2 ^ (i - 1) \<le> unat (pushed_balance (pv_block v))))
    \<and> (prioritization_empty s \<or> prioritization_top s \<noteq> None)"
proof -
  have ok: "prioritization_ok c s" by (rule run_ok [OF assms(1) new_ok])
  have m: "pz_maximum (prioritization_push c time block s) = pz_maximum s" for time block s
    by (simp add: push_eq Let_def)
  have "priority_run c ops s0 = Some (served, s1) \<Longrightarrow> pz_maximum s1 = pz_maximum s0" for ops served s0 s1
  proof (induction ops arbitrary: s0 served)
    case (Cons op ops)
    then show ?case
      by (cases op) (auto simp: m bind_eq_Some prioritization_pop_def split: list.splits)
  qed simp
  from this [OF assms(1)] have "pz_maximum s = maximum" by (simp add: prioritization_new_def populate_schedule_def)
  with ok have "bucket_maximum s = max 1 (unat maximum div 129)"
    by (simp add: bucket_maximum_def prioritization_ok_def)
  with ok assms(2) top_defined(1) [OF ok] show ?thesis
    by (auto simp: prioritization_ok_def bucket_ok_def bucket_size_def)
qed

text \<open>
  No bucket starves.  When a bucket has a block, one of the next 129 blocks that are taken comes from this bucket,
  whatever is pushed in between.
\<close>

theorem bucket_served:
  assumes "priority_run c before (prioritization_new maximum) = Some (earlier, s)" and "i < 129" and "bucket_size s i \<noteq> 0"
    and "priority_run c ops s = Some (served, s')" and "129 \<le> length served"
  shows "i \<in> set (take 129 served)"
proof -
  have ok: "prioritization_ok c s" by (rule run_ok [OF assms(1) new_ok])
  then have "ahead (pz_current s) i < 129" using assms(2) by (auto simp: prioritization_ok_def ahead_def)
  from run_serves [OF ok assms(2) _ assms(4) this assms(5)] assms(3) show ?thesis by (simp add: bucket_size_def)
qed

lemma push_nonempty:
  assumes "prioritization_ok c s"
  shows "\<not> prioritization_empty (prioritization_push c time block s)"
    and "pz_buckets (prioritization_push c time block s) ! bucket_index s (pushed_balance block) \<noteq> []"
proof -
  note b = bucket_pushed_ok(1) [OF assms, of block]
  have l: "length (pz_buckets s) = 129" using assms by (simp add: prioritization_ok_def)
  show n: "pz_buckets (prioritization_push c time block s) ! bucket_index s (pushed_balance block) \<noteq> []"
    using b l bucket_pushed_nonempty [of c time block s] by (simp add: push_eq Let_def)
  have "length (pz_buckets (prioritization_push c time block s)) = 129" by (simp add: push_eq Let_def l)
  with n b show "\<not> prioritization_empty (prioritization_push c time block s)" by (auto simp: empty_nth)
qed

lemma run_turns:
  assumes "prioritization_ok c s"
  shows "\<exists>served s'. priority_run c (concat (replicate n [P_push time block, P_pop])) s = Some (served, s') \<and> length served = n"
  using assms
proof (induction n arbitrary: s)
  case (Suc n)
  let ?s = "prioritization_push c time block s"
  have ok: "prioritization_ok c ?s" by (rule push_ok [OF Suc.prems])
  from top_defined(2) [OF ok push_nonempty(1) [OF Suc.prems]] obtain s1 where s1: "prioritization_pop ?s = Some s1" by auto
  from Suc.IH [OF popped_ok [OF ok s1]] obtain served s' where
    "priority_run c (concat (replicate n [P_push time block, P_pop])) s1 = Some (served, s')" "length served = n" by blast
  with s1 show ?case by simp
qed simp

definition sample_priority :: block_entry where
  "sample_priority =
     (State \<lparr>state_h = \<lparr>state_account = 1, state_previous = 101, state_representative = 1, state_balance = 0, state_link = 5\<rparr>,
             state_signature = 0, state_work = 0\<rparr>,
      \<lparr>sb_successor = 0, sb_account = 1, sb_balance = 0, sb_height = 2, sb_timestamp = 1,
       sb_details = \<lparr>bd_epoch = epoch_0, bd_is_send = True, bd_is_receive = False, bd_is_epoch = False\<rparr>,
       sb_source_epoch = epoch_0\<rparr>)"

lemma bucket_served_witness:
  "\<exists>ops served s'.
     priority_run test_crypto (P_push 1 sample_priority # ops) (prioritization_new 250000) = Some (served, s')
     \<and> 0 \<in> set (take 129 served)"
proof -
  let ?n = "prioritization_new 250000" and ?p = "P_push 1 sample_priority"
  let ?s = "prioritization_push test_crypto 1 sample_priority ?n"
  have m: "pz_minimums ?n = 0 # doublings 128 1"
    using new_ok [of test_crypto] by (simp add: prioritization_ok_def)
  have x: "pushed_balance sample_priority = 0" by (simp add: pushed_balance_def sample_priority_def)
  have i: "bucket_index ?n (pushed_balance sample_priority) = 0" using band(3) [OF m, of 0] by (auto simp: x)
  have r1: "priority_run test_crypto [?p] ?n = Some ([], ?s)" by simp
  obtain served s' where
    r2: "priority_run test_crypto (concat (replicate 129 [?p, P_pop])) ?s = Some (served, s')" "length served = 129"
    using run_turns [OF push_ok [OF new_ok]] by blast
  have "bucket_size ?s 0 \<noteq> 0"
    using push_nonempty(2) [OF new_ok [of test_crypto 250000], of 1 sample_priority] i by (simp add: bucket_size_def)
  from bucket_served [OF r1 _ this r2(1)] r2 show ?thesis
    by (intro exI [of _ "concat (replicate 129 [?p, P_pop])"] exI [of _ served] exI [of _ s']) simp
qed

end
