(* ===== verification/Scheduler.thy ===== *)
theory Scheduler
  imports Prioritization Active_Run Unbounded_Theorems
begin

declare split_paired_All [simp del] split_paired_Ex [simp del]

text \<open>
  \<^verbatim>\<open>node/election_scheduler.cpp\<close>: which block gets the next election.  The thread of the scheduler makes one turn
  after another; a turn of \<open>scheduler_turn\<close> is what it does between two waits.
\<close>

section \<open>Queues\<close>

record scheduler =
  sc_priority :: prioritization
  sc_manual :: "(block_entry \<times> u128 option \<times> election_behavior) list"
  sc_stopped :: bool

definition scheduler_new :: "u64 \<Rightarrow> scheduler" where
  "scheduler_new maximum = \<lparr>sc_priority = prioritization_new maximum, sc_manual = [], sc_stopped = False\<rparr>"

definition scheduler_manual :: "block_entry \<Rightarrow> u128 option \<Rightarrow> election_behavior \<Rightarrow> scheduler \<Rightarrow> scheduler" where
  "scheduler_manual block_a previous_balance_a behavior_a s =
     s\<lparr>sc_manual := sc_manual s @ [(block_a, previous_balance_a, behavior_a)]\<rparr>"

text \<open>The first unconfirmed block of an account.\<close>

definition scheduler_activate ::
  "crypto \<Rightarrow> ledger_constants \<Rightarrow> ledger \<Rightarrow> account \<Rightarrow> scheduler \<Rightarrow> scheduler option" where
  "scheduler_activate c k l account_a s =
     (case store_account_get l account_a of
        None \<Rightarrow> Some s
      | Some account_info \<Rightarrow>
          let conf_info = snd (store_confirmation_height_get l account_a) in
          if ch_height conf_info < ai_block_count account_info then
            do { let hash = (if ch_height conf_info = 0 then ai_open_block account_info
                             else block_successor (blocks_of l) (ch_frontier conf_info));
                 block \<leftarrow> block_get (blocks_of l) hash;
                 ready \<leftarrow> dependents_confirmed k l (fst block) (Some (snd block));
                 Some (if ready
                       then s\<lparr>sc_priority := prioritization_push c (ai_modified account_info) block (sc_priority s)\<rparr>
                       else s) }
          else Some s)"

definition scheduler_stop :: "scheduler \<Rightarrow> scheduler" where
  "scheduler_stop s = s\<lparr>sc_stopped := True\<rparr>"

definition scheduler_size :: "scheduler \<Rightarrow> nat" where
  "scheduler_size s = prioritization_size (sc_priority s) + length (sc_manual s)"

definition scheduler_empty :: "scheduler \<Rightarrow> bool" where
  "scheduler_empty s \<longleftrightarrow> prioritization_empty (sc_priority s) \<and> sc_manual s = []"

definition priority_queue_size :: "scheduler \<Rightarrow> nat" where
  "priority_queue_size s = prioritization_size (sc_priority s)"

definition priority_queue_predicate :: "active_env \<Rightarrow> scheduler \<Rightarrow> active \<Rightarrow> bool" where
  "priority_queue_predicate v s a \<longleftrightarrow> 0 < vacancy v a \<and> \<not> prioritization_empty (sc_priority s)"

definition manual_queue_predicate :: "scheduler \<Rightarrow> bool" where
  "manual_queue_predicate s \<longleftrightarrow> sc_manual s \<noteq> []"

definition overfill_predicate :: "active_env \<Rightarrow> active \<Rightarrow> bool" where
  "overfill_predicate v a \<longleftrightarrow> vacancy v a < 0"

text \<open>The wait of \<open>flush\<close> is over.\<close>

definition scheduler_flushed :: "active_env \<Rightarrow> scheduler \<Rightarrow> active \<Rightarrow> bool" where
  "scheduler_flushed v s a \<longleftrightarrow> sc_stopped s \<or> scheduler_empty s \<or> vacancy v a \<le> 0"

section \<open>A turn of the thread\<close>

definition activate_election :: "active_env \<Rightarrow> nat option \<Rightarrow> active \<Rightarrow> active" where
  "activate_election v n a =
     (case n of
        None \<Rightarrow> a
      | Some n \<Rightarrow> a\<lparr>at_heap := (at_heap a)(n := map_option (transition_active (ee_now (ae_election v))) (at_heap a n))\<rparr>)"

definition scheduler_turn :: "crypto \<Rightarrow> active_env \<Rightarrow> scheduler \<times> active \<Rightarrow> (scheduler \<times> active) option" where
  "scheduler_turn c v = (\<lambda>(s, a).
     if sc_stopped s then Some (s, a)
     else if overfill_predicate v a then map_option (Pair s) (erase_oldest c a)
     else if manual_queue_predicate s then
       (case hd (sc_manual s) of
          (block, previous_balance, behavior) \<Rightarrow>
            do { (r, a) \<leftarrow> insert_impl c v block previous_balance behavior a;
                 Some (s\<lparr>sc_manual := tl (sc_manual s)\<rparr>, a) })
     else if priority_queue_predicate v s a then
       do { block \<leftarrow> prioritization_top (sc_priority s);
            priority \<leftarrow> prioritization_pop (sc_priority s);
            ((n, inserted), a) \<leftarrow> insert_impl c v block None Normal a;
            Some (s\<lparr>sc_priority := priority\<rparr>, activate_election v n a) }
     else Some (s, a))"

section \<open>The block that is activated\<close>

lemma chain_block:
  assumes "ledger_inv c k rk rp T l" and "accounts_of l a = Some i" and "0 < j" and "j \<le> unat (ai_block_count i)"
  shows "\<exists>x e. blocks_of l x = Some e \<and> account_calculated e = a \<and> unat (sb_height (snd e)) = j"
  using height_exists [OF assms(1), of j a] assms(2-4) by (simp add: count_at_def)

text \<open>Going down a chain: the first block is the open block.\<close>

lemma open_block_first:
  assumes inv: "ledger_inv c k rk rp T l" and i: "accounts_of l a = Some i" and x: "blocks_of l x = Some e" "account_calculated e = a"
    and h: "unat (sb_height (snd e)) = 1"
  shows "x = ai_open_block i"
  using block_facts [OF inv x(1)] height_one [OF inv x(1) h] i x(2) by (metis option.inject)

lemma activated_block:
  assumes inv: "ledger_inv c k rk rp T l" and hs: "heights_ok l" and i: "accounts_of l a = Some i"
    and lt: "conf_at (heights_of l) a < ai_block_count i"
  defines "hash \<equiv> (if conf_at (heights_of l) a = 0 then ai_open_block i
        else block_successor (blocks_of l) (ch_frontier (snd (store_confirmation_height_get l a))))"
  shows "\<exists>e. blocks_of l hash = Some e \<and> account_calculated e = a
    \<and> unat (sb_height (snd e)) = Suc (unat (conf_at (heights_of l) a))"
proof -
  let ?n = "unat (conf_at (heights_of l) a)"
  have "Suc ?n \<le> unat (ai_block_count i)" using lt by (simp add: word_less_nat_alt)
  from chain_block [OF inv i _ this] obtain x e where x: "blocks_of l x = Some e" "account_calculated e = a"
    "unat (sb_height (snd e)) = Suc ?n" by auto
  have "hash = x"
  proof (cases "conf_at (heights_of l) a = 0")
    case True
    with open_block_first [OF inv i x(1,2)] x(3) show ?thesis by (simp add: hash_def)
  next
    case False
    then obtain j where j: "heights_of l a = Some j" "conf_at (heights_of l) a = ch_height j"
      by (cases "heights_of l a") (auto simp: conf_at_def)
    with hs obtain f where f: "blocks_of l (ch_frontier j) = Some f" "account_calculated f = a" "sb_height (snd f) = ch_height j"
      unfolding heights_ok_def by metis
    from False obtain m where m: "?n = Suc m" by (cases ?n) (auto simp: unat_eq_zero)
    from height_prev [OF inv x(1)] x(3) m obtain p where p: "blocks_of l (prev_of e) = Some p" "account_calculated p = a"
      "unat (sb_height (snd p)) = ?n" "sb_successor (snd p) = x" using x(2) by metis
    have "prev_of e = ch_frontier j"
      by (rule height_unique [OF inv p(1) f(1)]) (simp_all add: p f j(2))
    with p f False j show ?thesis
      by (simp add: hash_def store_confirmation_height_get_def block_successor_def case_prod_unfold)
  qed
  with x show ?thesis by blast
qed

lemma dependents_defined: "dependents_confirmed k l b (Some sb) \<noteq> None"
  by (cases b) (simp_all add: dependents_confirmed_def Let_def ledger_is_send_def)

lemma activate_eq:
  assumes inv: "ledger_inv c k rk rp T l" and hs: "heights_ok l" and i: "accounts_of l a = Some i"
    and lt: "conf_at (heights_of l) a < ai_block_count i"
    and e: "blocks_of l x = Some e" "account_calculated e = a" "unat (sb_height (snd e)) = Suc (unat (conf_at (heights_of l) a))"
  shows "scheduler_activate c k l a s =
    Some (if dependents_confirmed k l (fst e) (Some (snd e)) = Some True
          then s\<lparr>sc_priority := prioritization_push c (ai_modified i) e (sc_priority s)\<rparr> else s)"
proof -
  let ?h = "if conf_at (heights_of l) a = 0 then ai_open_block i
        else block_successor (blocks_of l) (ch_frontier (snd (store_confirmation_height_get l a)))"
  from activated_block [OF inv hs i lt] obtain f where f: "blocks_of l ?h = Some f" "account_calculated f = a"
    "unat (sb_height (snd f)) = Suc (unat (conf_at (heights_of l) a))" by blast
  have h: "?h = x" by (rule height_unique [OF inv f(1) e(1)]) (simp_all add: f e)
  with f e have b: "block_get (blocks_of l) ?h = Some e" by (simp add: block_get_def)
  obtain r where r: "dependents_confirmed k l (fst e) (Some (snd e)) = Some r" using dependents_defined by fastforce
  show ?thesis
    using lt unfolding scheduler_activate_def store_account_get_def i Let_def option.case conf_get b
    by (simp add: r)
qed

text \<open>
  \<open>activate\<close> never fails on a ledger that the node reaches.  It takes the block of the account whose height is
  one above the confirmation height, when there is one, and queues it exactly when the blocks that it depends on are
  confirmed.
\<close>

theorem activate_takes_next:
  assumes "reachable c k l" and "constants_ok k" and "accounts_of l a = Some i"
  shows "(block_confirmed l (ai_head i) \<longrightarrow> scheduler_activate c k l a s = Some s)
    \<and> (\<not> block_confirmed l (ai_head i) \<longrightarrow>
        (\<exists>x e. blocks_of l x = Some e \<and> account_calculated e = a \<and> \<not> block_confirmed l x
          \<and> (\<forall>y f. blocks_of l y = Some f \<longrightarrow> account_calculated f = a \<longrightarrow> sb_height (snd f) < sb_height (snd e) \<longrightarrow>
               block_confirmed l y)
          \<and> scheduler_activate c k l a s =
              Some (if dependents_confirmed k l (fst e) (Some (snd e)) = Some True
                    then s\<lparr>sc_priority := prioritization_push c (ai_modified i) e (sc_priority s)\<rparr> else s)))"
proof -
  from reachable_inv [OF assms(1,2)] obtain rk rp where inv: "ledger_inv c k rk rp max_supply l" .
  note hs = reachable_heights_ok [OF assms(1,2)]
  note cf = confirmed_iff [OF inv]
  let ?n = "conf_at (heights_of l) a"
  have c: "block_confirmed l y \<longleftrightarrow> sb_height (snd f) \<le> ?n" if "blocks_of l y = Some f" "account_calculated f = a" for y f
    using that by (simp add: cf confirmed_at_def)
  from head_facts [OF inv assms(3)] obtain h where h: "blocks_of l (ai_head i) = Some h" "account_calculated h = a"
    "sb_height (snd h) = ai_block_count i" by metis
  have head: "block_confirmed l (ai_head i) \<longleftrightarrow> \<not> ?n < ai_block_count i" using c [OF h(1,2)] h(3) by (simp add: not_less)
  show ?thesis
  proof (intro conjI impI)
    assume "block_confirmed l (ai_head i)"
    with head show "scheduler_activate c k l a s = Some s"
      by (simp add: scheduler_activate_def store_account_get_def assms(3) Let_def conf_get)
  next
    assume "\<not> block_confirmed l (ai_head i)"
    with head have lt: "?n < ai_block_count i" by simp
    from activated_block [OF inv hs assms(3) lt] obtain x e where e: "blocks_of l x = Some e" "account_calculated e = a"
      "unat (sb_height (snd e)) = Suc (unat ?n)" by metis
    have "\<not> block_confirmed l x" using c [OF e(1,2)] e(3) by (simp add: word_le_nat_alt)
    moreover have "block_confirmed l y" if "blocks_of l y = Some f" "account_calculated f = a" "sb_height (snd f) < sb_height (snd e)" for y f
      using c [OF that(1,2)] that(3) e(3) by (simp add: word_le_nat_alt word_less_nat_alt)
    ultimately show "\<exists>x e. blocks_of l x = Some e \<and> account_calculated e = a \<and> \<not> block_confirmed l x
          \<and> (\<forall>y f. blocks_of l y = Some f \<longrightarrow> account_calculated f = a \<longrightarrow> sb_height (snd f) < sb_height (snd e) \<longrightarrow>
               block_confirmed l y)
          \<and> scheduler_activate c k l a s =
              Some (if dependents_confirmed k l (fst e) (Some (snd e)) = Some True
                    then s\<lparr>sc_priority := prioritization_push c (ai_modified i) e (sc_priority s)\<rparr> else s)"
      using e activate_eq [OF inv hs assms(3) lt e] by blast
  qed
qed

theorem activate_takes_next_witness:
  "\<exists>x e. blocks_of sample_2 x = Some e \<and> account_calculated e = 1 \<and> \<not> block_confirmed sample_2 x
     \<and> scheduler_activate sample_crypto sample_constants sample_2 1 (scheduler_new 100) =
         Some (if dependents_confirmed sample_constants sample_2 (fst e) (Some (snd e)) = Some True
               then (scheduler_new 100)\<lparr>sc_priority := prioritization_push sample_crypto 2 e (sc_priority (scheduler_new 100))\<rparr>
               else scheduler_new 100)"
proof -
  have a: "accounts_of sample_2 1 = Some \<lparr>ai_head = 105, ai_representative = 1, ai_open_block = 101,
     ai_balance = - 11, ai_modified = 2, ai_block_count = 2, ai_epoch = epoch_0\<rparr>"
    by (simp add: sample_2_tables)
  from activate_takes_next [OF sample_reachable(3) sample_constants_ok a, of "scheduler_new 100"] sample_105 show ?thesis
    by (simp only: account_info.simps simp_thms) blast
qed

section \<open>There is always a block to activate\<close>

lemma ready_dependents:
  assumes inv: "ledger_inv c k rk rp T l" and g: "genesis_block_ok c k" and e: "blocks_of l h = Some e" and ng: "h \<noteq> genesis_hash c k"
    and prev: "prev_of e = 0 \<or> block_confirmed l (prev_of e)"
    and src: "\<And>s. entry_sends e = None \<Longrightarrow> entry_receives e = Some s \<Longrightarrow> block_confirmed l s"
  shows "dependents_confirmed k l (fst e) (Some (snd e)) = Some True"
proof -
  from flow_okD [OF ledger_invD(8) [OF inv] e ng] have kd: "kind_ok k (blocks_of l) e" by (simp add: flow_ok_def)
  show ?thesis
    using prev src kd
    by (cases "fst e")
       (auto simp: dependents_confirmed_def entry_sends_def entry_receives_def kind_ok_def Let_def ledger_is_send_def)
qed

text \<open>
  C30: confirmation never gets stuck for lack of a candidate.  While the ledger has an unconfirmed block, there is an
  account whose activation succeeds and pushes an unconfirmed block of it onto the queue.  The ledger is one of \<open>reachable\<close>: its
  accepted blocks are \<open>admissible\<close>, so none of them is an epoch block that opens an account while it names a previous block, and the
  confirmation heights are written as \<open>writes_ok\<close> says, which is shown of the height processor.
\<close>

theorem some_account_activates:
  assumes "reachable c k l" and "constants_ok k" and "blocks_of l z \<noteq> None" and "\<not> block_confirmed l z"
  shows "\<exists>a i x e. accounts_of l a = Some i \<and> blocks_of l x = Some e \<and> account_calculated e = a \<and> \<not> block_confirmed l x
    \<and> scheduler_activate c k l a s =
        Some (s\<lparr>sc_priority := prioritization_push c (ai_modified i) e (sc_priority s)\<rparr>)"
proof -
  from reachable_inv [OF assms(1,2)] obtain rk rp where inv: "ledger_inv c k rk rp max_supply l" .
  note hs = reachable_heights_ok [OF assms(1,2)] and cf = confirmed_iff [OF inv] and g = reachable_genesis [OF assms(1)]
  define P where "P x \<longleftrightarrow> blocks_of l x \<noteq> None \<and> \<not> block_confirmed l x" for x
  have "P z" using assms(3,4) by (simp add: P_def)
  from ex_has_least_nat [of P, OF this, of rk] obtain x where x: "P x" and least: "\<And>y. P y \<Longrightarrow> rk x \<le> rk y" by blast
  from x obtain e where e: "blocks_of l x = Some e" "\<not> block_confirmed l x" by (auto simp: P_def)
  let ?a = "account_calculated e" and ?n = "conf_at (heights_of l) (account_calculated e)"
  from block_facts [OF inv e(1)] obtain i where lk: "link_ok c k rk (blocks_of l) x e" and i: "accounts_of l ?a = Some i" by metis
  have ng: "x \<noteq> genesis_hash c k" using ledger_invD(12) [OF inv] e(2) by (auto simp: genesis_ok_def cf)
  have low: "block_confirmed l y" if "blocks_of l y \<noteq> None" "rk y < rk x" for y using least [of y] that by (force simp: P_def)
  have prev: "prev_of e = 0 \<or> block_confirmed l (prev_of e)" using lk low by (auto simp: link_ok_def split: if_splits)
  have src: "block_confirmed l s" if "entry_sends e = None" "entry_receives e = Some s" for s
  proof -
    from flow_okD [OF ledger_invD(8) [OF inv] e(1) ng] that have "rk s < rk x" "pays (blocks_of l) e s" by (auto simp: flow_ok_def)
    then show ?thesis using low [of s] by (auto simp: pays_def sends_at_def split: option.splits)
  qed
  note ready = ready_dependents [OF inv g e(1) ng prev src]
  have up: "?n < sb_height (snd e)" using e by (simp add: cf confirmed_at_def)
  have "unat (sb_height (snd e)) \<le> Suc (unat ?n)"
  proof (cases "prev_of e = 0")
    case True
    with lk show ?thesis by (simp add: link_ok_def)
  next
    case False
    with lk obtain p where p: "blocks_of l (prev_of e) = Some p" "follows p e" by (auto simp: link_ok_def)
    with prev False show ?thesis by (simp add: cf confirmed_at_def follows_def word_le_nat_alt)
  qed
  with up have h: "unat (sb_height (snd e)) = Suc (unat ?n)" by (simp add: word_less_nat_alt)
  have "unat (sb_height (snd e)) \<le> unat (ai_block_count i)"
    using height_le_count [OF inv e(1)] i by (simp add: count_at_def)
  with h have lt: "?n < ai_block_count i" by (simp add: word_less_nat_alt)
  from activate_eq [OF inv hs i lt e(1) refl h, of s] ready i e show ?thesis
    by (intro exI [of _ ?a] exI [of _ i] exI [of _ x] exI [of _ e]) simp
qed

theorem some_account_activates_witness:
  "\<exists>a i x e. accounts_of sample_2 a = Some i \<and> blocks_of sample_2 x = Some e \<and> account_calculated e = a
     \<and> \<not> block_confirmed sample_2 x
     \<and> scheduler_activate sample_crypto sample_constants sample_2 a (scheduler_new 100) =
         Some ((scheduler_new 100)\<lparr>sc_priority :=
           prioritization_push sample_crypto (ai_modified i) e (sc_priority (scheduler_new 100))\<rparr>)"
proof -
  have "blocks_of sample_2 105 \<noteq> None" by (simp add: sample_2_tables sample_1_tables)
  from some_account_activates [OF sample_reachable(3) sample_constants_ok this sample_105] show ?thesis .
qed

section \<open>The number of elections\<close>

lemma on_election_roots: "on_election c v n f s = Some (r, s') \<Longrightarrow> at_roots s' = at_roots s"
  by (auto simp: on_election_def bind_eq_Some_conv put_ctx_fields)

lemma generate_roots: "election_generate_votes c v n s = Some s' \<Longrightarrow> at_roots s' = at_roots s"
  by (auto simp: election_generate_votes_def dest: on_election_roots)

lemma insert_cache_roots: "election_insert_cache c v n h s = Some s' \<Longrightarrow> at_roots s' = at_roots s"
  by (auto simp: election_insert_cache_def Let_def dest: on_election_roots)

lemma insert_size:
  assumes "insert_impl c v b balance behavior s = Some (r, s')"
  shows "active_size s' \<le> Suc (active_size s)"
  using assms
  by (auto simp: insert_impl_def active_size_def Let_def bind_eq_Some_conv active_emit_def insert_election_def case_prod_unfold
      dest!: generate_roots insert_cache_roots split: if_splits option.splits)

lemma oldest_size:
  assumes inv: "active_inv c hr s" and n: "at_roots s \<noteq> []" and e: "erase_oldest c s = Some s'"
  shows "Suc (active_size s') = active_size s"
proof -
  from n obtain i rest where i: "at_roots s = i # rest" by (cases "at_roots s") auto
  from listed_heap [OF inv, of i] i obtain f where f: "at_heap s (cf_election i) = Some f" "el_qualified_root f = cf_root i" by auto
  have "distinct (map cf_root (at_roots s))" using active_invD(1) [OF inv] by (simp add: elections_ok_def)
  then have "filter (\<lambda>j. cf_root j \<noteq> cf_root i) rest = rest" by (simp add: i filter_id_conv image_iff) metis
  with e i f show ?thesis
    by (auto simp: erase_oldest_def cleanup_election_def Let_def active_size_def cleanup_blocks_fields)
qed

definition scheduler_fits :: "crypto \<Rightarrow> (block_hash \<Rightarrow> qualified_root) \<Rightarrow> scheduler \<Rightarrow> bool" where
  "scheduler_fits c hr s \<longleftrightarrow>
     (\<forall>(b, balance, behavior) \<in> set (sc_manual s). fits c hr (fst b))
     \<and> (\<forall>bucket \<in> set (pz_buckets (sc_priority s)). \<forall>v \<in> set bucket. fits c hr (fst (pv_block v)))"

lemma activate_election_advances:
  assumes "active_inv c hr a"
  shows "advances c hr a (activate_election v n a)"
proof (cases "n = None \<or> at_heap a (the n) = None")
  case True
  then have "at_heap (activate_election v n a) = at_heap a" by (auto simp: activate_election_def split: option.splits)
  then show ?thesis
    by (intro advances_same [OF assms]) (auto simp: activate_election_def active_invD(4) [OF assms] split: option.splits)
next
  case False
  then obtain m e where m: "n = Some m" and e: "at_heap a m = Some e" by auto
  let ?x = "\<lparr>ec_election = transition_active (ee_now (ae_election v)) e, ec_winners = dom (at_winners a), ec_effects = []\<rparr>"
  have st: "stays {} (ctx_of m e a) ?x" by (rule stays_same) (simp_all add: ctx_of_def transition_active_def)
  have ei: "election_inv c (ec_election ?x)"
    using heap_ok(2) [OF assms e] by (simp add: election_ok_def transition_active_def state_change_def)
  have "advances c hr a (put_ctx c v m ?x a)" by (rule put_stays [OF assms e st ei]) simp
  moreover have same_winners: "(\<lambda>h. if h \<in> dom (at_winners a) then (case at_winners a h of None \<Rightarrow> Some m | Some j \<Rightarrow> Some j) else None)
      = at_winners a" by (auto simp: fun_eq_iff split: option.splits)
  moreover have "put_ctx c v m ?x a = activate_election v n a"
    using same_winners by (simp add: put_ctx_def activate_election_def m e)
  ultimately show ?thesis by simp
qed

lemma seek_buckets: "pz_buckets (prioritization_seek s) = pz_buckets s"
proof -
  have "pz_buckets (seek_loop n s) = pz_buckets s" for n s
    by (induction n s rule: seek_loop.induct) (simp_all add: prioritization_next_def Let_def)
  then show ?thesis by (simp add: prioritization_seek_def prioritization_next_def Let_def)
qed

lemma pop_blocks:
  assumes ok: "prioritization_ok c s" and p: "prioritization_pop s = Some s'"
  shows "\<Union> (set ` set (pz_buckets s')) \<subseteq> \<Union> (set ` set (pz_buckets s))"
    and "prioritization_top s = Some b \<Longrightarrow> \<exists>bucket \<in> set (pz_buckets s). \<exists>v \<in> set bucket. pv_block v = b"
proof -
  let ?i = "pz_schedule s ! pz_current s"
  have i: "?i < length (pz_buckets s)" using ok by (auto simp: prioritization_ok_def)
  from p obtain v bucket where b: "current_bucket s = v # bucket" and s': "pz_buckets s' = (pz_buckets s)[?i := bucket]"
    by (auto simp: prioritization_pop_def seek_buckets split: list.splits)
  from b i have m: "v # bucket \<in> set (pz_buckets s)" by (metis current_bucket_def nth_mem)
  show "\<Union> (set ` set (pz_buckets s')) \<subseteq> \<Union> (set ` set (pz_buckets s))"
  proof
    fix w
    assume "w \<in> \<Union> (set ` set (pz_buckets s'))"
    then obtain B where B: "B \<in> set (pz_buckets s')" "w \<in> set B" by auto
    with set_update_subset_insert [of "pz_buckets s" ?i bucket] s' have "B = bucket \<or> B \<in> set (pz_buckets s)" by auto
    then show "w \<in> \<Union> (set ` set (pz_buckets s))"
    proof
      assume "B = bucket"
      with B(2) have "w \<in> set (v # bucket)" by simp
      with m show ?thesis by blast
    qed (use B(2) in blast)
  qed
  show "\<exists>bucket \<in> set (pz_buckets s). \<exists>v \<in> set bucket. pv_block v = b" if "prioritization_top s = Some b"
    using that m by (intro bexI [of _ "v # bucket"] bexI [of _ v]) (simp_all add: prioritization_top_def b)
qed

lemma turn_keeps:
  assumes inv: "active_inv c hr a" and v: "env_fits c hr v" and f: "scheduler_fits c hr s" and p: "prioritization_ok c (sc_priority s)"
    and t: "scheduler_turn c v (s, a) = Some (s', a')"
  shows "active_inv c hr a' \<and> scheduler_fits c hr s' \<and> prioritization_ok c (sc_priority s') \<and> sc_stopped s' = sc_stopped s"
proof -
  from t consider (idle) "s' = s" "a' = a" | (oldest) "s' = s" "erase_oldest c a = Some a'"
    | (manual) b balance behavior rest r where "sc_manual s = (b, balance, behavior) # rest" "s' = s\<lparr>sc_manual := rest\<rparr>"
        "insert_impl c v b balance behavior a = Some (r, a')"
    | (priority) b q n r u where "prioritization_top (sc_priority s) = Some b" "prioritization_pop (sc_priority s) = Some q"
        "insert_impl c v b None Normal a = Some ((n, r), u)" "s' = s\<lparr>sc_priority := q\<rparr>" "a' = activate_election v n u"
  proof -
    assume i: "s' = s \<Longrightarrow> a' = a \<Longrightarrow> thesis" and od: "s' = s \<Longrightarrow> erase_oldest c a = Some a' \<Longrightarrow> thesis"
      and m: "\<And>b balance behavior rest r. sc_manual s = (b, balance, behavior) # rest \<Longrightarrow> s' = s\<lparr>sc_manual := rest\<rparr> \<Longrightarrow>
        insert_impl c v b balance behavior a = Some (r, a') \<Longrightarrow> thesis"
      and q: "\<And>b q n r u. prioritization_top (sc_priority s) = Some b \<Longrightarrow> prioritization_pop (sc_priority s) = Some q \<Longrightarrow>
        insert_impl c v b None Normal a = Some ((n, r), u) \<Longrightarrow> s' = s\<lparr>sc_priority := q\<rparr> \<Longrightarrow> a' = activate_election v n u \<Longrightarrow> thesis"
    show thesis
    proof (cases "sc_stopped s \<or> overfill_predicate v a")
      case True
      with t i od show ?thesis by (cases "sc_stopped s") (auto simp: scheduler_turn_def)
    next
      case False
      show ?thesis
      proof (cases "sc_manual s")
        case (Cons x rest)
        obtain b balance behavior where x: "x = (b, balance, behavior)" by (metis surj_pair)
        from t False Cons x obtain r where "insert_impl c v b balance behavior a = Some (r, a')" "s' = s\<lparr>sc_manual := rest\<rparr>"
          by (auto simp: scheduler_turn_def manual_queue_predicate_def bind_eq_Some_conv)
        with m [of b balance behavior rest r] Cons x show ?thesis by simp
      next
        case Nil
        show ?thesis
        proof (cases "priority_queue_predicate v s a")
          case True
          with t False Nil obtain b w n r u where "prioritization_top (sc_priority s) = Some b"
            "prioritization_pop (sc_priority s) = Some w" "insert_impl c v b None Normal a = Some ((n, r), u)"
            "s' = s\<lparr>sc_priority := w\<rparr>" "a' = activate_election v n u"
            by (auto simp: scheduler_turn_def manual_queue_predicate_def bind_eq_Some_conv)
          then show ?thesis by (rule q)
        next
          case no: False
          from t False Nil no have "s' = s" "a' = a" by (simp_all add: scheduler_turn_def manual_queue_predicate_def)
          then show ?thesis by (rule i)
        qed
      qed
    qed
  qed
  then show ?thesis
  proof cases
    case idle
    with inv f p show ?thesis by simp
  next
    case oldest
    with erase_oldest_advances [OF inv oldest(2)] f p show ?thesis by (simp add: advances_def)
  next
    case manual
    have "fits c hr (fst b)" using f manual(1) by (auto simp: scheduler_fits_def)
    from insert_advances [OF inv v this manual(3)] f p manual show ?thesis by (auto simp: advances_def scheduler_fits_def)
  next
    case priority
    note pb = pop_blocks [OF p priority(2)]
    have "fits c hr (fst b)" using f pb(2) [OF priority(1)] by (auto simp: scheduler_fits_def)
    from insert_advances [OF inv v this priority(3)] have u: "active_inv c hr u" by (rule advances_inv)
    have "scheduler_fits c hr s'" using f pb(1) by (auto simp: scheduler_fits_def priority(4))
    with advances_inv [OF activate_election_advances [OF u]] popped_ok [OF p priority(2)] priority(4,5) show ?thesis by simp
  qed
qed

lemma turn_size:
  assumes inv: "active_inv c hr a" and t: "scheduler_turn c v (s, a) = Some (s', a')" and r: "\<not> sc_stopped s"
  shows "active_size a' \<le> max (ae_active_size v + 1) (active_size a - 1)"
    and "sc_manual s = [] \<Longrightarrow> active_size a \<le> ae_active_size v \<Longrightarrow> active_size a' \<le> ae_active_size v"
proof -
  have ae: "active_size (activate_election v n u) = active_size u" for n u
    by (simp add: activate_election_def active_size_def split: option.splits)
  have over: "overfill_predicate v a \<longleftrightarrow> ae_active_size v < active_size a"
    by (simp add: overfill_predicate_def vacancy_def active_size_def)
  have "Suc (active_size a') = active_size a" if "overfill_predicate v a"
  proof -
    have "at_roots a \<noteq> []" using that over by (auto simp: active_size_def)
    with oldest_size [OF inv this, of a'] that t r show ?thesis by (auto simp: scheduler_turn_def)
  qed
  moreover have "active_size a' \<le> Suc (active_size a)" if "\<not> overfill_predicate v a"
    using that t r insert_size by (fastforce simp: scheduler_turn_def ae bind_eq_Some_conv split: if_splits prod.splits)
  ultimately show "active_size a' \<le> max (ae_active_size v + 1) (active_size a - 1)" using over by (cases "overfill_predicate v a") auto
  show "active_size a' \<le> ae_active_size v" if "sc_manual s = []" "active_size a \<le> ae_active_size v"
  proof (cases "priority_queue_predicate v s a")
    case True
    then have "active_size a < ae_active_size v" by (simp add: priority_queue_predicate_def vacancy_def active_size_def)
    with \<open>\<not> overfill_predicate v a \<Longrightarrow> active_size a' \<le> Suc (active_size a)\<close> that over show ?thesis by auto
  next
    case False
    with that t r over show ?thesis by (auto simp: scheduler_turn_def manual_queue_predicate_def)
  qed
qed

fun scheduler_turns :: "crypto \<Rightarrow> active_env list \<Rightarrow> scheduler \<times> active \<Rightarrow> (scheduler \<times> active) option" where
  "scheduler_turns c [] x = Some x"
| "scheduler_turns c (v # vs) x = do { x \<leftarrow> scheduler_turn c v x; scheduler_turns c vs x }"

lemma turns_keep:
  assumes "active_inv c hr a" and "\<forall>v \<in> set vs. env_fits c hr v \<and> ae_active_size v = limit" and "scheduler_fits c hr s"
    and "prioritization_ok c (sc_priority s)" and "\<not> sc_stopped s" and "scheduler_turns c vs (s, a) = Some (s', a')"
  shows "active_inv c hr a' \<and> active_size a' \<le> max (limit + 1) (active_size a - length vs)"
  using assms
proof (induction vs arbitrary: s a)
  case (Cons v vs)
  from Cons.prems(6) obtain s1 a1 where t: "scheduler_turn c v (s, a) = Some (s1, a1)" "scheduler_turns c vs (s1, a1) = Some (s', a')"
    by (auto simp: bind_eq_Some_conv)
  have v: "env_fits c hr v" "ae_active_size v = limit" using Cons.prems(2) by simp_all
  from turn_keeps [OF Cons.prems(1) v(1) Cons.prems(3,4) t(1)] Cons.IH [OF _ _ _ _ _ t(2)] Cons.prems(2,5)
  have "active_inv c hr a'" "active_size a' \<le> max (limit + 1) (active_size a1 - length vs)" by auto
  moreover have "active_size a1 \<le> max (limit + 1) (active_size a - 1)"
    using turn_size(1) [OF Cons.prems(1) t(1) Cons.prems(5)] v(2) by simp
  ultimately show ?case by auto
qed simp

end
