(* ===== verification/Scheduler_Theorems.thy ===== *)
theory Scheduler_Theorems
  imports Scheduler Active_Theorems
begin

declare split_paired_All [simp del] split_paired_Ex [simp del]

text \<open>The scheduler and \<open>active_transactions\<close> together.\<close>

text \<open>
  Turns of the scheduler bring the number of elections to its limit.  From any state of \<open>active_transactions\<close>
  that the node reaches, each turn above the limit ends one election, and turns below it go at most one over it;
  through all of them the containers stay in agreement.
\<close>

theorem scheduler_bounds_elections:
  assumes "active_reach c hr a" and "\<forall>v \<in> set vs. env_fits c hr v \<and> ae_active_size v = limit" and "scheduler_fits c hr s"
    and "prioritization_ok c (sc_priority s)" and "\<not> sc_stopped s" and "scheduler_turns c vs (s, a) = Some (s', a')"
  shows "active_size a' \<le> max (limit + 1) (active_size a - length vs)
    \<and> (\<forall>h n. at_blocks a' h = Some n \<longleftrightarrow>
        (\<exists>i e. i \<in> set (at_roots a') \<and> cf_election i = n \<and> at_heap a' n = Some e \<and> h \<in> fst ` set (el_last_blocks e)))"
proof -
  from turns_keep [OF reach_inv [OF assms(1)] assms(2-6)]
  have k: "active_inv c hr a'" "active_size a' \<le> max (limit + 1) (active_size a - length vs)" by auto
  with active_invD(2) [OF k(1)] show ?thesis by (auto simp: blocks_exact_def listed_in_def holds_block_def)
qed

definition sample_scheduler :: scheduler where
  "sample_scheduler = scheduler_manual (fork_entry 5) (Some 100) Normal (scheduler_new 250000)"

theorem scheduler_bounds_elections_witness:
  "\<exists>s' a'. scheduler_turns sample_crypto [sample_active_env] (sample_scheduler, active_new) = Some (s', a')
     \<and> active_size a' \<le> 5001 \<and> at_blocks a' 105 = Some 0"
proof -
  let ?s = "sample_scheduler\<lparr>sc_manual := []\<rparr>"
  have e: "ae_active_size sample_active_env = 5000" "at_roots active_new = []" by (simp_all add: sample_active_env_def active_new_def)
  have t: "scheduler_turns sample_crypto [sample_active_env] (sample_scheduler, active_new) = Some (?s, sample_active_1)"
    by (simp add: scheduler_turn_def overfill_predicate_def vacancy_def manual_queue_predicate_def sample_scheduler_def
        scheduler_manual_def scheduler_new_def sample_inserted bind_eq_Some_conv active_size_def e)
  have "scheduler_fits sample_crypto sample_roots sample_scheduler"
    using sample_fits [of 5]
    by (simp add: scheduler_fits_def sample_scheduler_def scheduler_manual_def scheduler_new_def fork_entry_def prioritization_new_def
        populate_schedule_def bucket_total_def)
  moreover have "prioritization_ok sample_crypto (sc_priority sample_scheduler)"
    using new_ok by (simp add: sample_scheduler_def scheduler_manual_def scheduler_new_def)
  moreover have "\<not> sc_stopped sample_scheduler" by (simp add: sample_scheduler_def scheduler_manual_def scheduler_new_def)
  moreover have "\<forall>v \<in> set [sample_active_env]. env_fits sample_crypto sample_roots v \<and> ae_active_size v = 5000"
    using sample_env_fits by (simp add: sample_active_env_def)
  ultimately have "active_size sample_active_1 \<le> max (5000 + 1) (active_size active_new - length [sample_active_env])"
    using scheduler_bounds_elections [OF reach_new _ _ _ _ t] by blast
  then have "active_size sample_active_1 \<le> 5001" by (simp add: active_size_def active_new_def)
  with t show ?thesis by (auto simp: sample_inserted)
qed

end
