(* ===== verification/Spec2Isabelle.thy ===== *)
theory Spec2Isabelle
  imports Std_Text Block_Json Votes Height_Theorems Election_Theorems Voting_Theorems Aggregator Block_Theorems
    Active_Theorems Scheduler_Theorems
begin

text \<open>
  A verification library for the vxldollar node (\<^verbatim>\<open>src/vxldollar\<close>), a node of a network whose ledger
  is a lattice of blocks: every account has a chain of its own, a send block puts an amount into the
  pending table, a receive block of another chain takes it out again.

  \<^bold>\<open>The program and its model.\<close>

  \<^item> \<^verbatim>\<open>lib/numbers\<close>: the 64, 128, 256 and 512 bit unions.  \<open>Numbers\<close> models them as words, with their byte
    order, the text of an account (\<open>encode_account\<close>, \<open>decode_account\<close>) and the hexadecimal and decimal
    texts.  Hash and signature functions, and the conversion of multiprecision integers to text, are
    libraries: they are the parameters \<open>crypto\<close> and \<open>bigint_text\<close>, with the laws \<open>digest_lengths\<close> and
    \<open>text_laws\<close>; \<open>Std_Text\<close> has instances of both.
  \<^item> \<^verbatim>\<open>lib/epoch\<close>, \<^verbatim>\<open>lib/blocks\<close>, \<^verbatim>\<open>lib/config\<close>: \<open>Epochs\<close>, \<open>Blocks\<close>, \<open>Block_Codec\<close>, \<open>Block_Json\<close> and
    \<open>Work\<close>: the five classes of blocks as records and the sum \<open>block\<close>, their binary form, the bytes that
    are hashed, the sideband, the property trees, and the thresholds of the proof of work.
  \<^item> \<^verbatim>\<open>secure/common\<close>: \<open>Common_Data\<close> (account information, pending entries and the other small records)
    and \<open>Votes\<close> (timestamps, the two binary forms of a vote, what a vote signs).
  \<^item> \<^verbatim>\<open>secure/store\<close>: \<open>Store_Bytes\<close> and \<open>Block_Table\<close> model the tables as maps of byte strings, as the
    database sees them, and as maps of values; the former implement the latter.
  \<^item> \<^verbatim>\<open>secure/ledger.cpp\<close>: \<open>Ledger_State\<close> has the tables and the cache as the record \<open>ledger\<close>;
    \<open>Ledger_Process\<close> the processor of blocks with every check of its handlers; \<open>Ledger_Rollback\<close> the
    rollback visitor and its loop; \<open>Ledger_Queries\<close> and \<open>Ledger_Init\<close> the queries, the start on an existing
    database, and pruning.  \<open>Rep_Weights\<close> is \<^verbatim>\<open>lib/rep_weights.cpp\<close>.
  \<^item> \<^verbatim>\<open>node/confirmation_height_unbounded.cpp\<close>: \<open>Cementing\<close> has the processor of confirmation heights,
    \<open>unbounded_process\<close>, with its walk over the blocks, its records shared between two containers (a heap
    of \<open>conf_height_details\<close>), and \<open>cement_blocks\<close>.  \<open>Height_Processor\<close> is the thread in front of it,
    \<^verbatim>\<open>node/confirmation_height_processor.cpp\<close>: the queue of blocks and a turn of the loop, \<open>height_turn\<close>.
  \<^item> \<^verbatim>\<open>node/election.cpp\<close>: \<open>Election_Data\<close> and \<open>Election\<close> have one election for a root: its states, the votes it
    recorded, the tally by weight, the test for a quorum, confirmation, the blocks of a fork and their
    limit.  What an election asks of the rest of the node is a list of effects.  \<open>Solicitor\<close> is
    \<^verbatim>\<open>node/confirmation_solicitor.cpp\<close>, \<open>Online_Reps\<close> is \<^verbatim>\<open>node/online_reps.cpp\<close>, which supplies the quorum.
  \<^item> \<^verbatim>\<open>node/voting.cpp\<close>: \<open>Voting\<close> has the votes of the representatives of the node: their spacing, the cache
    of local votes, the table of final votes, and the generators with their queues.  \<open>Aggregator\<close> is
    \<^verbatim>\<open>node/request_aggregator.cpp\<close>: pools of requests per endpoint and the answers to them.
  \<^item> \<^verbatim>\<open>node/blockprocessor.cpp\<close>, \<^verbatim>\<open>node/unchecked_map.cpp\<close>, \<^verbatim>\<open>node/state_block_signature_verification.cpp\<close>:
    \<open>Block_Processor\<close> has the way of a block from the network into the ledger as the record \<open>block_processor\<close>: the queues,
    the check of signatures, the table of blocks that wait for another, forced winners, and \<open>process_one\<close>.
  \<^item> \<^verbatim>\<open>node/active_transactions.cpp\<close>: \<open>Active_Data\<close> and \<open>Active\<close> have the container of the elections as the record
    \<open>active\<close>: elections by root and by block, winners that wait for their confirmation height, what was confirmed lately, and
    the votes for blocks without an election, with every operation on them.  An election is a number in a heap, as
    the source shares it between containers.
  \<^item> \<^verbatim>\<open>node/prioritization.cpp\<close> and \<^verbatim>\<open>node/election_scheduler.cpp\<close>: \<open>Prioritization\<close> has the buckets by balance
    and their round robin, \<open>Scheduler\<close> the choice of the block that gets the next election, \<open>scheduler_activate\<close>, and a
    turn of the thread, \<open>scheduler_turn\<close>.

  A result that the code may not reach is an option or the type \<open>run\<close>: \<open>None\<close> and \<open>Abort\<close> stand for a failed
  assertion, a dereferenced null pointer or any other use that ends the program or is undefined, and
  \<open>Timeout\<close> for a loop that has not ended within the given number of steps.  Machine integers are words,
  so that every wrap-around of the code is one of the model.

  \<^bold>\<open>What is shown.\<close>

  \<^item> Codecs.  \<open>Prelude\<close> has the locale of a codec; every binary form of a block, of the sideband, of the
    records of the store and of a vote is an interpretation.  Readers accept exactly what writers write;
    account texts and the JSON of blocks are read back; the exceptions are theorems too.
  \<^item> The ledger.  \<open>Ledger_Effect\<close> gives the change that an accepted block makes one shape; \<open>Ledger_Inv\<close>,
    \<open>Ledger_Flow\<close> and \<open>Ledger_Invariant\<close> state the invariant \<open>ledger_inv\<close>, sixteen conjuncts over chains,
    pending amounts, weights, counts and confirmation heights; \<open>Ledger_Step\<close>, \<open>Rollback_Step\<close> and
    \<open>Rollback_Correct\<close> show that processing and rolling back keep it, and that rollback ends: its nested
    calls are on blocks of a greater rank.  \<open>Ledger_Reach\<close> has the ledgers that a node reaches, as an
    inductive predicate over \<open>process\<close>, \<open>rollback\<close> and \<open>cement_blocks\<close>.  \<open>Ledger_Theorems\<close> draws the
    conclusions: the supply is constant, every amount arrives once, confirmed blocks stay, weights are
    exact, the tables are a function of the blocks, processing never ends the program, and a rollback
    of the last block undoes it.  \<open>Bank\<close> is the contract of the ledger as a bank, which it refines.
  \<^item> Confirmation.  \<open>Block_Graph\<close> is a locale over a graph of blocks; it has the walk of the processor on
    heights alone, with its invariant \<open>walk_ok\<close> and its measure.  \<open>Ledger_Graph\<close> interprets the locale on the
    stored blocks of every ledger.  \<open>Cement_Writes\<close> and the theories \<open>Unbounded_Collect\<close>, \<open>Unbounded_Step\<close>,
    \<open>Unbounded_Walk\<close>, \<open>Unbounded_Push\<close> and \<open>Unbounded_Correct\<close> show that every iteration of \<open>process\<close> is a step
    of the walk, that its vectors and maps hold what the walk says, that no access is out of range, and
    that the writes are those that \<open>writes_ok\<close> allows.  \<open>Unbounded_Theorems\<close> says what a block depends on, and
    \<open>Height_Theorems\<close> that a batch of the thread confirms exactly the added blocks and what they depend on and announces them
    in order, with writes of one block waiting while the next is walked.  There \<open>height_reach\<close> has the states of the ledger
    together with the thread; its ledgers are \<open>reachable\<close>, and confirmed blocks have their dependencies confirmed.
  \<^item> Elections.  \<open>Election_Tally\<close> computes what a tally holds; \<open>Election_Quorum\<close> is a locale of quorums by
    weight, interpreted on the tally; \<open>Election_Inv\<close> and \<open>Election_Run\<close> show the invariant of an election under
    every sequence of its operations; \<open>Election_Theorems\<close> that a block is confirmed by a quorum of the votes
    counted, once, and that recorded votes only move forward.  \<open>Election_Sample\<close> and \<open>Election_Blocks\<close> have the
    runs in which two nodes confirm different blocks, a tie is confirmed, or the limit is passed.
  \<^item> Votes of the node.  \<open>Voting_Theorems\<close>: votes for different blocks of a root are a delay apart, the cache is
    consistent, and a final generator that elections feed votes for one block of a root; the way around
    the table of final votes that the aggregator leaves open is \<open>second_final_vote\<close>.
  \<^item> Blocks from the network.  \<open>Block_Signed\<close> follows the tags of checked signatures through the threads of the block
    processor, as the inductive predicate \<open>bp_reach\<close>; \<open>Block_Theorems\<close>: every accepted block is signed, and a block that
    waits is taken up again.
  \<^item> The container of the elections.  \<open>Active_Inv\<close>, \<open>Active_Frame\<close>, \<open>Active_Steps\<close> and \<open>Active_Run\<close> have the invariant of the
    container under every operation; \<open>Active_Theorems\<close> that the containers agree, and what a publication does that meets the
    end of its election.  \<open>Prioritization\<close> shows that no bucket starves, \<open>Scheduler\<close> that there always is a block to
    activate, and \<open>Scheduler_Theorems\<close> that turns bring the number of elections to its limit.

  \<^bold>\<open>Bounds.\<close>  Loops over chains run on fuel only where the source gives no bound: rollback (any number
  of steps that suffices is exhibited, and more do not change the result), the search for a receive
  block, pruning, and \<open>unbounded_process\<close>, for which twice the number of blocks plus two iterations are
  enough.

  \<^bold>\<open>What is assumed of a ledger.\<close>  \<open>reachable\<close> starts from the genesis block and takes the steps of processing, rolling back and
  cementing.  Nothing is asked of a block that \<open>process\<close> refuses.  A block that it accepts is \<open>admissible\<close>: its hash is
  neither zero nor a link of an epoch nor the genesis account, no account has reached the largest 64 bit height, and an epoch block that
  opens an account names no previous block.  The last of these is not checked by \<open>epoch_block_impl\<close>:
  \<open>epoch_open_crosses_accounts\<close> in \<open>Ledger_Theorems\<close> is a block of the epoch signer that the code accepts and after which the
  chains of two accounts run together, so the theorems about chains would not hold without it.  A write of confirmation heights is as
  \<open>writes_ok\<close> says: a block of the account with its height, after which the sources of all blocks up to it are confirmed.
  For the unbounded processor this is no assumption but shown, in \<open>Unbounded_Walk\<close>; it is one for the bounded
  processor.  Theorems about the walk take ledgers that are \<open>walkable\<close>: no account that money is sent to is the hash
  of a block.

  \<^bold>\<open>Not modelled.\<close>  Locks, sockets, timers, logging, statistics and the LMDB and RocksDB libraries:
  each operation or turn of a thread is atomic, and what it reads from outside is a parameter.  The
  bounded confirmation height processor, frontier confirmation, the vote processor, the gap cache,
  network messages, bootstrap, wallets and RPC are not modelled; the desktop wallet, configuration files and work generation are
  input and output around the parts above.
\<close>

end
